(* ===== verification/XPrelude.thy ===== *)
theory XPrelude
  imports Main "HOL-Library.Monad_Syntax"
begin

text \<open>
  Prelude of the development: the universal return codes of the kernel
  (\<open>include/kernel.h\<close>), the machine integers of the 32-bit target as ranges of
  \<^typ>\<open>int\<close>, guarded table access, and the generic facts about lists and
  \<^typ>\<open>'a option\<close> that every component uses.

  Conventions.  A C function that changes kernel state becomes a HOL function that
  takes the state last and returns the new state under \<^typ>\<open>'a option\<close>.
  \<^const>\<open>None\<close> means that the C code has no defined behaviour there: a table is
  indexed out of range, a signed counter overflows, or a loop never ends.  Error
  returns of the code (\<open>SYSERR\<close>, \<open>TIMEOUT\<close>, \<open>EMPTY\<close>) are ordinary
  values.
\<close>

section \<open>Return codes\<close>

abbreviation (input) OK :: int where "OK \<equiv> 1"
abbreviation (input) SYSERR :: int where "SYSERR \<equiv> -1"
abbreviation (input) EOF :: int where "EOF \<equiv> -2"
abbreviation (input) TIMEOUT :: int where "TIMEOUT \<equiv> -3"

section \<open>Machine integers\<close>

text \<open>
  \<open>uint32\<close> and \<open>uint16\<close> arithmetic wraps; a conversion to \<open>int32\<close> or
  \<open>int16\<close> takes the two's complement value.  A signed increment that leaves the
  range of \<open>int32\<close> is undefined in C and has no value here.
\<close>

definition u32 :: "int \<Rightarrow> int" where
  "u32 x = x mod 2 ^ 32"

definition u16 :: "int \<Rightarrow> int" where
  "u16 x = x mod 2 ^ 16"

definition s32 :: "int \<Rightarrow> int" where
  "s32 x = (x + 2 ^ 31) mod 2 ^ 32 - 2 ^ 31"

definition s16 :: "int \<Rightarrow> int" where
  "s16 x = (x + 2 ^ 15) mod 2 ^ 16 - 2 ^ 15"

definition in_s32 :: "int \<Rightarrow> bool" where
  "in_s32 x \<longleftrightarrow> - (2 ^ 31) \<le> x \<and> x < 2 ^ 31"

definition chk32 :: "int \<Rightarrow> int option" where
  "chk32 x = (if in_s32 x then Some x else None)"

lemma u32_id [simp]: "0 \<le> x \<Longrightarrow> x < 4294967296 \<Longrightarrow> u32 x = x"
  by (simp add: u32_def)

lemma u32_range: "0 \<le> u32 x" "u32 x < 4294967296"
  by (simp_all add: u32_def)

lemma u16_range: "0 \<le> u16 x" "u16 x < 65536"
  by (simp_all add: u16_def)

lemma s32_id [simp]: "- 2147483648 \<le> x \<Longrightarrow> x < 2147483648 \<Longrightarrow> s32 x = x"
  by (simp add: s32_def)

lemma s32_range: "- 2147483648 \<le> s32 x" "s32 x < 2147483648"
  by (simp_all add: s32_def)

lemma s16_id [simp]: "- 32768 \<le> x \<Longrightarrow> x < 32768 \<Longrightarrow> s16 x = x"
  by (simp add: s16_def)

lemma s16_range: "- 32768 \<le> s16 x" "s16 x < 32768"
  by (simp_all add: s16_def)

lemma chk32_Some [simp]: "chk32 x = Some y \<longleftrightarrow> in_s32 x \<and> y = x"
  by (auto simp: chk32_def)

lemma chk32_in [simp]: "in_s32 x \<Longrightarrow> chk32 x = Some x"
  by (simp add: chk32_def)

section \<open>Sequencing in the option monad\<close>

lemma bind_SomeE:
  assumes "Option.bind m f = Some r"
  obtains x where "m = Some x" "f x = Some r"
  using assms by (cases m) auto

lemma bind_eq_SomeI: "m = Some x \<Longrightarrow> f x = Some r \<Longrightarrow> Option.bind m f = Some r"
  by simp

text \<open>The facts that step through the code of an operation, and those about its result.\<close>

named_theorems kdefs \<open>definitions unfolded to run an operation\<close>
named_theorems kframe \<open>fields an operation leaves alone\<close>

section \<open>Lists\<close>

lemma distinct_takeWhile_dropWhile:
  "distinct (takeWhile P xs @ dropWhile P xs) = distinct xs"
  by simp

lemma remove1_append_notin: "x \<notin> set ys \<Longrightarrow> remove1 x (ys @ x # zs) = ys @ zs"
  by (simp add: remove1_append)

lemma dropWhile_head: "dropWhile P xs = y # ys \<Longrightarrow> \<not> P y"
  by (metis hd_dropWhile list.sel(1) list.discI)

end
