(* ===== verification/LibStr.thy ===== *)
theory LibStr
  imports XPrelude "HOL-Library.Word"
begin

text \<open>
  The string and memory routines of \<open>lib/\<close>.  Memory is a function from addresses to
  bytes; \<open>char\<close> is unsigned on the ARM, so a character is an \<^typ>\<open>8 word\<close>.  A loop
  that walks a string has a value only when it meets what stops it; \<open>cstr m p cs\<close> says
  that the null-terminated string \<open>cs\<close> lies at address \<open>p\<close>, and \<open>poke\<close> is what
  the routines that write are specified by.
\<close>

type_synonym bytes = "int \<Rightarrow> 8 word"

section \<open>The routines\<close>

partial_function (option) strlen_loop :: "bytes \<Rightarrow> int \<Rightarrow> int \<Rightarrow> int option" where
  "strlen_loop m str len = (if m str \<noteq> 0 then strlen_loop m (str + 1) (len + 1) else Some len)"

definition strlen :: "bytes \<Rightarrow> int \<Rightarrow> int option" where
  "strlen m str = strlen_loop m str 0"

partial_function (option) strnlen_loop :: "bytes \<Rightarrow> int \<Rightarrow> int \<Rightarrow> int \<Rightarrow> int option" where
  "strnlen_loop m s n len = (if m s \<noteq> 0 \<and> n < len then strnlen_loop m (s + 1) (n + 1) len else Some n)"

definition strnlen :: "bytes \<Rightarrow> int \<Rightarrow> int \<Rightarrow> int option" where
  "strnlen m s len = strnlen_loop m s 0 len"

partial_function (option) strcmp :: "bytes \<Rightarrow> int \<Rightarrow> int \<Rightarrow> int option" where
  "strcmp m str1 str2 =
     (if m str1 = m str2 then
        if m str1 = 0 then Some 0 else strcmp m (str1 + 1) (str2 + 1)
      else if m str1 < m str2 then Some (-1) else Some 1)"

partial_function (option) strncmp :: "bytes \<Rightarrow> int \<Rightarrow> int \<Rightarrow> int \<Rightarrow> int option" where
  "strncmp m s1 s2 n =
     (let n = n - 1 in
      if n \<ge> 0 \<and> m s1 = m s2 then
        if m s1 = 0 then Some 0 else strncmp m (s1 + 1) (s2 + 1) n
      else Some (if n < 0 then 0 else uint (m s1) - uint (m s2)))"

partial_function (option) strcpy_loop :: "bytes \<Rightarrow> int \<Rightarrow> int \<Rightarrow> bytes option" where
  "strcpy_loop m tar src =
     (let c = m src; m = m(tar := c)
      in if c \<noteq> 0 then strcpy_loop m (tar + 1) (src + 1) else Some m)"

definition strcpy :: "bytes \<Rightarrow> int \<Rightarrow> int \<Rightarrow> (int \<times> bytes) option" where
  "strcpy m tar src = do { m \<leftarrow> strcpy_loop m tar src; Some (0, m) }"

function strncpy_pad :: "bytes \<Rightarrow> int \<Rightarrow> int \<Rightarrow> int \<Rightarrow> bytes" where
  "strncpy_pad m s1 i n =
     (let i = i + 1 in if i < n then strncpy_pad (m(s1 := 0)) (s1 + 1) i n else m)"
  by auto
termination by (relation "measure (\<lambda>(m, s, i, n). nat (n - i))") auto

function strncpy_loop :: "bytes \<Rightarrow> int \<Rightarrow> int \<Rightarrow> int \<Rightarrow> int \<Rightarrow> bytes" where
  "strncpy_loop m s1 s2 i n =
     (if i < n then
        let c = m s2; m = m(s1 := c)
        in if c = 0 then strncpy_pad m (s1 + 1) i n
           else strncpy_loop m (s1 + 1) (s2 + 1) (i + 1) n
      else m)"
  by auto
termination by (relation "measure (\<lambda>(m, s1, s2, i, n). nat (n - i))") auto

definition strncpy :: "bytes \<Rightarrow> int \<Rightarrow> int \<Rightarrow> int \<Rightarrow> int \<times> bytes" where
  "strncpy m s1 s2 n = (s1, strncpy_loop m s1 s2 0 n)"

partial_function (option) strend :: "bytes \<Rightarrow> int \<Rightarrow> int option" where
  "strend m s1 = (if m s1 \<noteq> 0 then strend m (s1 + 1) else Some (s1 + 1))"

partial_function (option) strncat_loop :: "bytes \<Rightarrow> int \<Rightarrow> int \<Rightarrow> int \<Rightarrow> bytes option" where
  "strncat_loop m s1 s2 n =
     (let c = m s2; m = m(s1 := c); s1 = s1 + 1; s2 = s2 + 1
      in if c \<noteq> 0 then
           let n = n - 1
           in if n < 0 then Some (m(s1 - 1 := 0)) else strncat_loop m s1 s2 n
         else Some m)"

definition strncat :: "bytes \<Rightarrow> int \<Rightarrow> int \<Rightarrow> int \<Rightarrow> (int \<times> bytes) option" where
  "strncat m s1 s2 n = do {
     e \<leftarrow> strend m s1;
     let p = e - 1;
     m \<leftarrow> strncat_loop m p s2 n;
     Some (s1, m)
   }"

partial_function (option) strchr_loop :: "bytes \<Rightarrow> int \<Rightarrow> 8 word \<Rightarrow> int option" where
  "strchr_loop m s c =
     (if m s \<noteq> 0 then if m s = c then Some s else strchr_loop m (s + 1) c
      else if c = m s then Some s else Some 0)"

definition strchr :: "bytes \<Rightarrow> int \<Rightarrow> int \<Rightarrow> int option" where
  "strchr m s c = strchr_loop m s (word_of_int c)"

partial_function (option) strrchr_loop :: "bytes \<Rightarrow> int \<Rightarrow> 8 word \<Rightarrow> int \<Rightarrow> int option" where
  "strrchr_loop m s c r =
     (if m s \<noteq> 0 then strrchr_loop m (s + 1) c (if m s = c then s else r)
      else if c = m s then Some s else Some r)"

definition strrchr :: "bytes \<Rightarrow> int \<Rightarrow> int \<Rightarrow> int option" where
  "strrchr m s c = strrchr_loop m s (word_of_int c) 0"

partial_function (option) strstr_match :: "bytes \<Rightarrow> int \<Rightarrow> int \<Rightarrow> int option" where
  "strstr_match m cq cr =
     (if m cq \<noteq> 0 \<and> m cr \<noteq> 0 then
        if m cq \<noteq> m cr then Some cr else strstr_match m (cq + 1) (cr + 1)
      else Some cr)"

partial_function (option) strstr :: "bytes \<Rightarrow> int \<Rightarrow> int \<Rightarrow> int option" where
  "strstr m cs ct =
     (if m cs \<noteq> 0 then
        if m cs = m ct then do {
          cr \<leftarrow> strstr_match m cs ct;
          if m cr = 0 then Some cs else strstr m (cs + 1) ct
        }
        else strstr m (cs + 1) ct
      else Some 0)"

text \<open>\<open>memchr\<close> is given a length and does not use it.\<close>

partial_function (option) memchr_loop :: "bytes \<Rightarrow> int \<Rightarrow> 8 word \<Rightarrow> int option" where
  "memchr_loop m cp c =
     (if m cp \<noteq> 0 then if m cp = c then Some cp else memchr_loop m (cp + 1) c else Some 0)"

definition memchr :: "bytes \<Rightarrow> int \<Rightarrow> int \<Rightarrow> int \<Rightarrow> int option" where
  "memchr m cs c n = memchr_loop m cs (word_of_int c)"

function memcmp :: "bytes \<Rightarrow> int \<Rightarrow> int \<Rightarrow> int \<Rightarrow> int" where
  "memcmp m c1 c2 n =
     (if n > 0 then
        if m c1 \<noteq> m c2 then uint (m c1) - uint (m c2) else memcmp m (c1 + 1) (c2 + 1) (n - 1)
      else 0)"
  by auto
termination by (relation "measure (\<lambda>(m, c1, c2, n). nat n)") auto

function memcpy_loop :: "bytes \<Rightarrow> int \<Rightarrow> int \<Rightarrow> int \<Rightarrow> int \<Rightarrow> bytes" where
  "memcpy_loop m dst src i n =
     (if i < n then memcpy_loop (m(dst := m src)) (dst + 1) (src + 1) (i + 1) n else m)"
  by auto
termination by (relation "measure (\<lambda>(m, d, s, i, n). nat (n - i))") auto

definition memcpy :: "bytes \<Rightarrow> int \<Rightarrow> int \<Rightarrow> int \<Rightarrow> int \<times> bytes" where
  "memcpy m s ct n = (s, memcpy_loop m s ct 0 n)"

function memset_loop :: "bytes \<Rightarrow> int \<Rightarrow> 8 word \<Rightarrow> int \<Rightarrow> int \<Rightarrow> bytes" where
  "memset_loop m cp c i n = (if i < n then memset_loop (m(cp := c)) (cp + 1) c (i + 1) n else m)"
  by auto
termination by (relation "measure (\<lambda>(m, d, s, i, n). nat (n - i))") auto

definition memset :: "bytes \<Rightarrow> int \<Rightarrow> int \<Rightarrow> int \<Rightarrow> int \<times> bytes" where
  "memset m s c n = (s, memset_loop m s (word_of_int c) 0 n)"

text \<open>The loop of \<open>bzero\<close> tests after it has written; it is entered with \<open>len > 0\<close>.\<close>

partial_function (option) bzero_loop :: "bytes \<Rightarrow> int \<Rightarrow> int \<Rightarrow> bytes option" where
  "bzero_loop m pch n =
     (let m = m(pch := 0); n = n - 1
      in if n \<noteq> 0 then bzero_loop m (pch + 1) n else Some m)"

definition bzero :: "bytes \<Rightarrow> int \<Rightarrow> int \<Rightarrow> bytes option" where
  "bzero m p len = (if len \<le> 0 then Some m else bzero_loop m p len)"

declare strncpy_pad.simps [simp del] strncpy_loop.simps [simp del] memcmp.simps [simp del]
  memcpy_loop.simps [simp del] memset_loop.simps [simp del]

lemma byte_pos: "c \<noteq> 0 \<Longrightarrow> 0 < (c :: 8 word)" "c \<noteq> 0 \<Longrightarrow> 0 < uint (c :: 8 word)"
  by (simp_all add: word_gt_0 order_less_le uint_0_iff)

section \<open>Strings in memory\<close>

fun cstr :: "bytes \<Rightarrow> int \<Rightarrow> 8 word list \<Rightarrow> bool" where
  "cstr m p [] \<longleftrightarrow> m p = 0"
| "cstr m p (c # cs) \<longleftrightarrow> c \<noteq> 0 \<and> m p = c \<and> cstr m (p + 1) cs"

fun poke :: "bytes \<Rightarrow> int \<Rightarrow> 8 word list \<Rightarrow> bytes" where
  "poke m p [] = m"
| "poke m p (c # cs) = poke (m(p := c)) (p + 1) cs"

lemma poke_below: "a < p \<Longrightarrow> poke m p cs a = m a"
  by (induction cs arbitrary: m p) simp_all

lemma poke_above: "p + int (length cs) \<le> a \<Longrightarrow> poke m p cs a = m a"
  by (induction cs arbitrary: m p) simp_all

lemma poke_at: "i < length cs \<Longrightarrow> poke m p cs (p + int i) = cs ! i"
proof (induction cs arbitrary: m p i)
  case (Cons c cs)
  show ?case
  proof (cases i)
    case 0
    then show ?thesis by (simp add: poke_below)
  next
    case (Suc j)
    then have e: "p + int i = p + 1 + int j" by simp
    show ?thesis unfolding e poke.simps using Cons.IH [of j "m(p := c)" "p + 1"] Cons.prems Suc by (simp del: fun_upd_apply)
  qed
qed simp

lemma poke_append: "poke m p (xs @ ys) = poke (poke m p xs) (p + int (length xs)) ys"
  by (induction xs arbitrary: m p) (simp_all add: add.assoc)

lemma cstr_cong: "(\<And>a. p \<le> a \<Longrightarrow> a \<le> p + int (length cs) \<Longrightarrow> m' a = m a) \<Longrightarrow> cstr m' p cs = cstr m p cs"
  by (induction cs arbitrary: p) simp_all

lemma cstr_upd: "a < p \<or> p + int (length cs) < a \<Longrightarrow> cstr (m(a := v)) p cs = cstr m p cs"
  by (rule cstr_cong) auto

lemma cstr_notin: "cstr m p cs \<Longrightarrow> 0 \<notin> set cs"
  by (induction cs arbitrary: p) auto

lemma cstr_at: "cstr m p cs \<Longrightarrow> i < length cs \<Longrightarrow> m (p + int i) = cs ! i"
proof (induction cs arbitrary: p i)
  case (Cons c cs)
  then show ?case using Cons.IH [of "p + 1" "i - 1"] by (cases i) (simp_all add: add.assoc)
qed simp

lemma cstr_end: "cstr m p cs \<Longrightarrow> m (p + int (length cs)) = 0"
  by (induction cs arbitrary: p) (simp_all add: add.assoc [symmetric] add.commute)

lemma cstr_drop: "cstr m p (xs @ ys) \<Longrightarrow> cstr m (p + int (length xs)) ys"
proof (induction xs arbitrary: p)
  case (Cons x xs)
  then show ?case using Cons.IH [of "p + 1"] by (simp add: add.assoc)
qed simp

lemma cstr_unique: "cstr m p xs \<Longrightarrow> cstr m p ys \<Longrightarrow> xs = ys"
proof (induction xs arbitrary: p ys)
  case Nil
  then show ?case by (cases ys) auto
next
  case (Cons x xs)
  then show ?case by (cases ys) auto
qed

lemma cstr_poke: "0 \<notin> set cs \<Longrightarrow> cstr (poke m p (cs @ [0])) p cs"
proof (induction cs arbitrary: m p)
  case (Cons c cs)
  then show ?case by (simp add: poke_below)
qed simp

section \<open>Reading a string\<close>

lemma strlen_loop_ok: "cstr m p cs \<Longrightarrow> strlen_loop m p n = Some (n + int (length cs))"
  by (induction cs arbitrary: p n) (simp_all add: strlen_loop.simps [of m])

lemma strlen_ok: "cstr m p cs \<Longrightarrow> strlen m p = Some (int (length cs))"
  by (simp add: strlen_def strlen_loop_ok)

lemma strnlen_loop_ok: "cstr m p cs \<Longrightarrow> n \<le> len \<Longrightarrow> strnlen_loop m p n len = Some (min (n + int (length cs)) len)"
proof (induction cs arbitrary: p n)
  case Nil
  then show ?case by (simp add: strnlen_loop.simps [of m])
next
  case (Cons c cs)
  then show ?case by (subst strnlen_loop.simps) auto
qed

lemma strnlen_ok: "cstr m p cs \<Longrightarrow> 0 \<le> len \<Longrightarrow> strnlen m p len = Some (min (int (length cs)) len)"
  by (simp add: strnlen_def strnlen_loop_ok)

text \<open>The order of strings: the sign of the first difference, where the end is a zero byte.\<close>

fun scompare :: "8 word list \<Rightarrow> 8 word list \<Rightarrow> int" where
  "scompare [] [] = 0"
| "scompare [] (y # ys) = -1"
| "scompare (x # xs) [] = 1"
| "scompare (x # xs) (y # ys) = (if x = y then scompare xs ys else if x < y then -1 else 1)"

lemma strcmp_ok: "cstr m p xs \<Longrightarrow> cstr m q ys \<Longrightarrow> strcmp m p q = Some (scompare xs ys)"
proof (induction xs ys arbitrary: p q rule: scompare.induct)
  case (2 y ys)
  then have "(0 :: 8 word) < y" by (simp add: byte_pos)
  then show ?case using 2 by (subst strcmp.simps) auto
next
  case (3 x xs)
  then show ?case by (subst strcmp.simps) (auto simp: word_gt_0)
next
  case (4 x xs y ys)
  then show ?case by (subst strcmp.simps) auto
qed (subst strcmp.simps, simp)

lemma scompare_eq: "scompare xs ys = 0 \<longleftrightarrow> xs = ys"
  by (induction xs ys rule: scompare.induct) auto

lemma scompare_sym: "scompare ys xs = - scompare xs ys"
  by (induction xs ys rule: scompare.induct) auto

lemma strncmp_ok:
  "cstr m p xs \<Longrightarrow> cstr m q ys \<Longrightarrow> \<exists>r. strncmp m p q n = Some r \<and> sgn r = scompare (take (nat n) xs) (take (nat n) ys)"
proof (induction xs ys arbitrary: p q n rule: scompare.induct)
  case 1
  then show ?case by (subst strncmp.simps) (auto simp: Let_def)
next
  case (2 y ys)
  then have "(0 :: int) < uint y" by (simp add: byte_pos)
  then show ?case using 2 by (subst strncmp.simps) (auto simp: Let_def take_Cons' )
next
  case (3 x xs)
  then have "(0 :: int) < uint x" by (simp add: byte_pos)
  then show ?case using 3 by (subst strncmp.simps) (auto simp: Let_def take_Cons')
next
  case (4 x xs y ys)
  show ?case
  proof (cases "0 < n \<and> x = y")
    case True
    then have "strncmp m p q n = strncmp m (p + 1) (q + 1) (n - 1)"
      using 4(2,3) by (subst strncmp.simps) (auto simp: Let_def)
    moreover have "nat n = Suc (nat (n - 1))" using True by linarith
    ultimately show ?thesis using 4 True by (metis cstr.simps(2) scompare.simps(4) take_Suc_Cons)
  next
    case False
    then show ?thesis using 4(2,3)
      by (subst strncmp.simps) (auto simp: Let_def take_Cons' word_less_def sgn_if word_uint_eq_iff)
  qed
qed


lemma scompare_take: "scompare (take k xs) (take k ys) = 0 \<longleftrightarrow> take k xs = take k ys"
  by (rule scompare_eq)

text \<open>Searching: the distance to the first element that satisfies \<open>P\<close>.\<close>

definition first_at :: "('a \<Rightarrow> bool) \<Rightarrow> 'a list \<Rightarrow> int" where
  "first_at P xs = int (length (takeWhile (\<lambda>x. \<not> P x) xs))"

lemma first_at_Cons: "first_at P (x # xs) = (if P x then 0 else 1 + first_at P xs)"
  by (simp add: first_at_def)

lemma first_at_prop:
  assumes "\<exists>x\<in>set xs. P x"
  shows "nat (first_at P xs) < length xs \<and> P (xs ! nat (first_at P xs)) \<and> (\<forall>j < nat (first_at P xs). \<not> P (xs ! j))"
  using assms
proof (induction xs)
  case (Cons x xs)
  have nn: "0 \<le> first_at P xs" by (simp add: first_at_def)
  show ?case
  proof (cases "P x")
    case False
    then have "nat (first_at P (x # xs)) = Suc (nat (first_at P xs))" using nn by (simp add: first_at_Cons)
    moreover have "nat (first_at P xs) < length xs \<and> P (xs ! nat (first_at P xs)) \<and> (\<forall>j < nat (first_at P xs). \<not> P (xs ! j))"
      using Cons False by auto
    ultimately show ?thesis using False by (auto simp: less_Suc_eq_0_disj)
  qed (simp add: first_at_Cons)
qed simp

lemma strchr_loop_ok: "cstr m p cs \<Longrightarrow> strchr_loop m p c =
    Some (if c = 0 then p + int (length cs) else if c \<in> set cs then p + first_at ((=) c) cs else 0)"
proof (induction cs arbitrary: p)
  case Nil
  then show ?case by (subst strchr_loop.simps) simp
next
  case (Cons d cs)
  then show ?case by (subst strchr_loop.simps) (auto simp: first_at_Cons)
qed

lemma strchr_ok: "cstr m p cs \<Longrightarrow> strchr m p ch = (let c = word_of_int ch in
    Some (if c = 0 then p + int (length cs) else if c \<in> set cs then p + first_at ((=) c) cs else 0))"
  by (simp add: strchr_def strchr_loop_ok Let_def)

lemma strrchr_loop_ok: "cstr m p cs \<Longrightarrow> strrchr_loop m p c r =
    Some (if c = 0 then p + int (length cs)
          else if c \<in> set cs then p + (int (length cs) - 1 - first_at ((=) c) (rev cs)) else r)"
proof (induction cs arbitrary: p r)
  case Nil
  then show ?case by (subst strrchr_loop.simps) simp
next
  case (Cons d cs)
  have 1: "first_at ((=) c) (rev cs @ [d]) = (if c \<in> set cs then first_at ((=) c) (rev cs) else int (length cs) + (if c = d then 0 else 1))"
    by (auto simp: first_at_def takeWhile_append)
  show ?case using Cons by (subst strrchr_loop.simps) (auto simp: 1)
qed

lemma strstr_match_ok: "cstr m p xs \<Longrightarrow> cstr m q ys \<Longrightarrow>
    \<exists>cr. strstr_match m p q = Some cr \<and> (m cr = 0 \<longleftrightarrow> take (length ys) xs = ys)"
proof (induction ys arbitrary: xs p q)
  case Nil
  then show ?case by (subst strstr_match.simps) simp
next
  case (Cons y ys)
  show ?case
  proof (cases xs)
    case Nil
    then show ?thesis using Cons.prems by (subst strstr_match.simps) auto
  next
    case (Cons x xs')
    then show ?thesis using Cons.prems Cons.IH [of "p + 1" xs' "q + 1"]
      by (subst strstr_match.simps) auto
  qed
qed

text \<open>\<open>strstr\<close> finds the first occurrence of a needle that is not empty.\<close>

definition occurs :: "'a list \<Rightarrow> 'a list \<Rightarrow> nat \<Rightarrow> bool" where
  "occurs ys xs i \<longleftrightarrow> i + length ys \<le> length xs \<and> take (length ys) (drop i xs) = ys"

lemma occurs_Cons: "occurs ys (x # xs) i \<longleftrightarrow>
    (if i = 0 then take (length ys) (x # xs) = ys else occurs ys xs (i - 1))"
  by (cases i) (auto simp: occurs_def dest: arg_cong [of _ _ length])

text \<open>\<open>strstr\<close> returns the address of the first occurrence of a needle that is not
  empty, and \<open>NULL\<close> when there is none.\<close>

theorem strstr_ok:
  assumes "cstr m p xs" "cstr m q ys" "ys \<noteq> []"
  shows "if \<exists>i. occurs ys xs i then strstr m p q = Some (p + int (LEAST i. occurs ys xs i)) else strstr m p q = Some 0"
  using assms(1)
proof (induction xs arbitrary: p)
  case Nil
  then show ?case using assms(3) by (subst strstr.simps) (auto simp: occurs_def)
next
  case (Cons x xs)
  obtain y ys' where y: "ys = y # ys'" using assms(3) by (cases ys) auto
  obtain cr where cr: "strstr_match m p q = Some cr" "m cr = 0 \<longleftrightarrow> take (length ys) (x # xs) = ys"
    using strstr_match_ok [OF Cons.prems assms(2)] by blast
  have mq: "m q = y" using assms(2) y by simp
  show ?case
  proof (cases "occurs ys (x # xs) 0")
    case True
    then have "(LEAST i. occurs ys (x # xs) i) = 0" by (rule Least_equality) simp
    moreover have "x = y" using True y by (simp add: occurs_Cons)
    moreover have "m cr = 0" using True cr(2) by (simp add: occurs_Cons)
    ultimately show ?thesis using True Cons.prems cr(1) mq by (subst strstr.simps) auto
  next
    case False
    then have "strstr m p q = strstr m (p + 1) q"
      using Cons.prems cr by (subst strstr.simps) (auto simp: occurs_Cons)
    moreover have "(\<exists>i. occurs ys (x # xs) i) \<longleftrightarrow> (\<exists>i. occurs ys xs i)"
      using False by (metis occurs_Cons diff_Suc_1 nat.discI not0_implies_Suc)
    moreover have "(LEAST i. occurs ys (x # xs) i) = Suc (LEAST i. occurs ys xs i)" if "\<exists>i. occurs ys (x # xs) i"
    proof -
      note ex = that
      obtain i where i: "occurs ys (x # xs) i" using ex by blast
      have "(LEAST i. occurs ys (x # xs) i) = Suc (LEAST i. occurs ys (x # xs) (Suc i))"
        by (rule Least_Suc [OF i False])
      then show ?thesis by (simp add: occurs_Cons)
    qed
    ultimately show ?thesis using Cons.IH [of "p + 1"] Cons.prems by auto
  qed
qed

text \<open>\<open>strstr\<close> never finds the empty needle, where the C standard returns the string.\<close>

theorem strstr_empty: "cstr m p xs \<Longrightarrow> cstr m q [] \<Longrightarrow> strstr m p q = Some 0"
proof (induction xs arbitrary: p)
  case Nil
  then show ?case by (subst strstr.simps) simp
next
  case (Cons x xs)
  then show ?case by (subst strstr.simps) auto
qed


text \<open>\<open>memchr\<close> searches to the end of the string whatever length it is given.\<close>

text \<open>\<open>memchr\<close> ignores its length: it searches up to the first zero byte, and so finds a
  character behind the length it was given and misses one behind a zero byte.\<close>

theorem memchr_ok: "cstr m p cs \<Longrightarrow> memchr m p ch n = (let c = word_of_int ch in
    Some (if c \<in> set cs then p + first_at ((=) c) cs else 0))"
proof -
  have "cstr m p cs \<Longrightarrow> memchr_loop m p c = Some (if c \<in> set cs then p + first_at ((=) c) cs else 0)" for c
  proof (induction cs arbitrary: p)
    case Nil
    then show ?case by (subst memchr_loop.simps) simp
  next
    case (Cons d cs)
    then show ?case by (subst memchr_loop.simps) (auto simp: first_at_Cons)
  qed
  then show "cstr m p cs \<Longrightarrow> ?thesis" by (simp add: memchr_def Let_def)
qed

lemma memcmp_ok: "sgn (memcmp m p q n) =
    (if \<forall>i. 0 \<le> i \<and> i < n \<longrightarrow> m (p + i) = m (q + i) then 0
     else let i = (LEAST i. m (p + int i) \<noteq> m (q + int i)) in if m (p + int i) < m (q + int i) then -1 else 1)"
proof (induction m p q n rule: memcmp.induct)
  case (1 m p q n)
  define D where "D k = (m (p + int k) \<noteq> m (q + int k))" for k
  define E where "E k = (m (p + 1 + int k) \<noteq> m (q + 1 + int k))" for k
  have DE: "D (Suc k) = E k" for k by (simp add: D_def E_def add.assoc)
  consider "n \<le> 0" | "0 < n" "m p \<noteq> m q" | "0 < n" "m p = m q" by linarith
  then show ?case
  proof cases
    case 1
    then have "\<forall>i. 0 \<le> i \<and> i < n \<longrightarrow> m (p + i) = m (q + i)" by auto
    then show ?thesis using 1 by (simp add: memcmp.simps)
  next
    case 2
    have "(LEAST k. D k) = 0" by (rule Least_equality) (use 2 in \<open>simp_all add: D_def\<close>)
    moreover have "\<not> (\<forall>i. 0 \<le> i \<and> i < n \<longrightarrow> m (p + i) = m (q + i))" using 2 by force
    ultimately show ?thesis using 2
      by (subst memcmp.simps) (auto simp: D_def Let_def sgn_if word_less_def word_uint_eq_iff)
  next
    case 3
    have all: "(\<forall>i. 0 \<le> i \<and> i < n \<longrightarrow> m (p + i) = m (q + i)) \<longleftrightarrow>
        (\<forall>i. 0 \<le> i \<and> i < n - 1 \<longrightarrow> m (p + 1 + i) = m (q + 1 + i))" (is "?A \<longleftrightarrow> ?B")
    proof
      assume a: ?A
      show ?B
      proof (intro allI impI)
        fix i assume "0 \<le> i \<and> i < n - 1"
        then show "m (p + 1 + i) = m (q + 1 + i)" using a [rule_format, of "i + 1"] by (simp add: ac_simps)
      qed
    next
      assume b: ?B
      show ?A
      proof (intro allI impI)
        fix i assume "0 \<le> i \<and> i < n"
        then show "m (p + i) = m (q + i)" using b [rule_format, of "i - 1"] 3(2) by (cases "i = 0") simp_all
      qed
    qed
    have st: "memcmp m p q n = memcmp m (p + 1) (q + 1) (n - 1)" using 3 by (subst memcmp.simps) simp
    note IH = "1.IH" [OF 3(1)]
    have ih: "sgn (memcmp m (p + 1) (q + 1) (n - 1)) =
      (if ?B then 0 else let i = (LEAST i. E i) in if m (p + 1 + int i) < m (q + 1 + int i) then -1 else 1)"
      unfolding E_def by (rule IH) (simp add: 3)
    show ?thesis
    proof (cases ?A)
      case True
      then show ?thesis using ih all st by simp
    next
      case f: False
      then obtain i where i: "0 \<le> i" "i < n" "m (p + i) \<noteq> m (q + i)" by blast
      then have "D (nat i)" by (simp add: D_def)
      moreover have "\<not> D 0" using 3 by (simp add: D_def)
      ultimately have L: "(LEAST k. D k) = Suc (LEAST k. E k)" using Least_Suc [of D "nat i"] by (simp add: DE)
      have "sgn (memcmp m p q n) = (let i = (LEAST i. D i) in if m (p + int i) < m (q + int i) then -1 else 1)"
        using f ih all by (simp add: st L Let_def add.assoc)
      then show ?thesis unfolding if_not_P [OF f] D_def .
    qed
  qed
qed

section \<open>Writing\<close>

lemma strcpy_loop_ok:
  assumes "cstr m s cs" "t \<le> s \<or> s + int (length cs) < t"
  shows "strcpy_loop m t s = Some (poke m t (cs @ [0]))"
  using assms
proof (induction cs arbitrary: m s t)
  case Nil
  then show ?case by (subst strcpy_loop.simps) simp
next
  case (Cons c cs)
  have "cstr (m(t := c)) (s + 1) cs" using Cons.prems by (subst cstr_upd) auto
  moreover have "t + 1 \<le> s + 1 \<or> s + 1 + int (length cs) < t + 1" using Cons.prems(2) by auto
  ultimately show ?case using Cons.IH [of "m(t := c)" "s + 1" "t + 1"] Cons.prems(1)
    by (subst strcpy_loop.simps) (auto simp del: fun_upd_apply)
qed

text \<open>\<open>strcpy\<close> leaves a copy of the string with its terminator at the target, also when the
  target overlaps the string from below, and returns 0.\<close>

theorem strcpy_ok:
  assumes "cstr m s cs" "t \<le> s \<or> s + int (length cs) < t"
  shows "strcpy m t s = Some (0, poke m t (cs @ [0])) \<and> cstr (poke m t (cs @ [0])) t cs"
  using strcpy_loop_ok [OF assms] cstr_poke [OF cstr_notin [OF assms(1)]] by (simp add: strcpy_def)

lemma strncpy_pad_ok: "i < n \<Longrightarrow> strncpy_pad m p i n = poke m p (replicate (nat (n - i - 1)) 0)"
proof (induction m p i n rule: strncpy_pad.induct)
  case (1 m p i n)
  show ?case
  proof (cases "i + 1 < n")
    case True
    then have "nat (n - i - 1) = Suc (nat (n - (i + 1) - 1))" by linarith
    then show ?thesis using 1 True by (subst strncpy_pad.simps) (simp del: fun_upd_apply)
  next
    case False
    then show ?thesis using 1(2) by (subst strncpy_pad.simps) simp
  qed
qed

text \<open>What \<open>strncpy\<close> stores: the string cut to \<open>n\<close> bytes, or padded with zeros to \<open>n\<close>.\<close>

definition padded :: "nat \<Rightarrow> 8 word list \<Rightarrow> 8 word list" where
  "padded n cs = take n cs @ replicate (n - length cs) 0"

lemma strncpy_loop_ok:
  assumes "cstr m s cs" "t \<le> s \<or> s + int (length cs) < t"
  shows "strncpy_loop m t s i n = poke m t (padded (nat (n - i)) cs)"
  using assms
proof (induction cs arbitrary: m s t i)
  case Nil
  then show ?case
  proof (cases "i < n")
    case True
    then have "nat (n - i) = Suc (nat (n - i - 1))" by linarith
    then show ?thesis using Nil True
      by (subst strncpy_loop.simps) (simp add: strncpy_pad_ok padded_def del: fun_upd_apply)
  next
    case False
    then show ?thesis by (subst strncpy_loop.simps) (simp add: padded_def)
  qed
next
  case (Cons c cs)
  have 1: "cstr (m(t := c)) (s + 1) cs" using Cons.prems by (subst cstr_upd) auto
  have 2: "t + 1 \<le> s + 1 \<or> s + 1 + int (length cs) < t + 1" using Cons.prems(2) by auto
  show ?case
  proof (cases "i < n")
    case True
    then have "nat (n - i) = Suc (nat (n - (i + 1)))" by linarith
    then show ?thesis using Cons.IH [OF 1 2, of "i + 1"] Cons.prems(1) True
      by (subst strncpy_loop.simps) (auto simp: padded_def simp del: fun_upd_apply)
  next
    case False
    then show ?thesis by (subst strncpy_loop.simps) (simp add: padded_def)
  qed
qed

text \<open>\<open>strncpy\<close> stores exactly \<open>n\<close> bytes: the string cut off after \<open>n\<close>, or padded
  with zeros.\<close>

theorem strncpy_ok:
  assumes "cstr m s cs" "t \<le> s \<or> s + int (length cs) < t"
  shows "strncpy m t s n = (t, poke m t (padded (nat n) cs))"
  using strncpy_loop_ok [OF assms, of 0 n] by (simp add: strncpy_def)

lemma strend_ok: "cstr m p cs \<Longrightarrow> strend m p = Some (p + int (length cs) + 1)"
proof (induction cs arbitrary: p)
  case Nil
  then show ?case by (subst strend.simps) simp
next
  case (Cons c cs)
  then show ?case by (subst strend.simps) auto
qed

lemma strncat_loop_ok:
  assumes "cstr m s cs" "t + min (max n 0) (int (length cs)) < s \<or> s + int (length cs) < t"
  shows "strncat_loop m t s n = Some (poke m t (take (nat n) cs @ [0]))"
  using assms
proof (induction cs arbitrary: m s t n)
  case Nil
  then show ?case by (subst strncat_loop.simps) simp
next
  case (Cons c cs)
  have 1: "cstr (m(t := c)) (s + 1) cs" using Cons.prems by (subst cstr_upd) auto
  show ?case
  proof (cases "0 < n")
    case True
    then have n: "nat n = Suc (nat (n - 1))" by linarith
    have "t + 1 + min (max (n - 1) 0) (int (length cs)) < s + 1 \<or> s + 1 + int (length cs) < t + 1"
      using Cons.prems(2) True by auto
    from Cons.IH [OF 1 this] show ?thesis using Cons.prems(1) True n
      by (subst strncat_loop.simps) (auto simp: Let_def simp del: fun_upd_apply)
  next
    case False
    then show ?thesis using Cons.prems(1) by (subst strncat_loop.simps) (auto simp: Let_def)
  qed
qed

lemma cstr_append_poke:
  assumes "cstr m p xs" "0 \<notin> set ys"
  shows "cstr (poke m (p + int (length xs)) (ys @ [0])) p (xs @ ys)"
  using assms
proof (induction xs arbitrary: p)
  case Nil
  then show ?case by (simp add: cstr_poke)
next
  case (Cons x xs)
  then show ?case using Cons.IH [of "p + 1"] by (simp add: poke_below add.assoc)
qed

lemma strncat_ok:
  assumes "cstr m p xs" "cstr m s ys"
    and "p + int (length xs) + min (max n 0) (int (length ys)) < s \<or> s + int (length ys) < p + int (length xs)"
  shows "strncat m p s n = Some (p, poke m (p + int (length xs)) (take (nat n) ys @ [0]))
    \<and> cstr (poke m (p + int (length xs)) (take (nat n) ys @ [0])) p (xs @ take (nat n) ys)"
proof -
  have "0 \<notin> set (take (nat n) ys)" using cstr_notin [OF assms(2)] by (meson in_set_takeD)
  from cstr_append_poke [OF assms(1) this] show ?thesis
    using strncat_loop_ok [OF assms(2,3)] strend_ok [OF assms(1)] by (simp add: strncat_def)
qed

lemma memcpy_loop_ok:
  assumes "d \<le> s \<or> s + (n - i) \<le> d"
  shows "memcpy_loop m d s i n = poke m d (map (\<lambda>k. m (s + int k)) [0..<nat (n - i)])"
  using assms
proof (induction m d s i n rule: memcpy_loop.induct)
  case (1 m d s i n)
  show ?case
  proof (cases "i < n")
    case True
    define m' where "m' = m(d := m s)"
    have n: "nat (n - i) = Suc (nat (n - (i + 1)))" using True by linarith
    have e: "map (\<lambda>k. m' (s + 1 + int k)) [0..<nat (n - (i + 1))] = map (\<lambda>k. m (s + int (Suc k))) [0..<nat (n - (i + 1))]"
      using "1.prems" True by (auto simp: m'_def ac_simps)
    have u: "[0..<Suc (nat (n - (i + 1)))] = 0 # map Suc [0..<nat (n - (i + 1))]"
      by (metis map_Suc_upt upt_conv_Cons zero_less_Suc)
    have ih: "memcpy_loop m' (d + 1) (s + 1) (i + 1) n =
        poke m' (d + 1) (map (\<lambda>k. m' (s + 1 + int k)) [0..<nat (n - (i + 1))])"
      unfolding m'_def by (rule "1.IH" [OF True]) (use "1.prems" in auto)
    have st: "memcpy_loop m d s i n = memcpy_loop m' (d + 1) (s + 1) (i + 1) n"
      using True by (subst memcpy_loop.simps) (simp add: m'_def)
    show ?thesis unfolding n u st ih e by (simp add: comp_def m'_def)
  next
    case False
    then show ?thesis by (subst memcpy_loop.simps) simp
  qed
qed

lemma memcpy_ok:
  assumes "d \<le> s \<or> s + n \<le> d"
  shows "memcpy m d s n = (d, poke m d (map (\<lambda>k. m (s + int k)) [0..<nat n]))"
  using memcpy_loop_ok [of d s n 0 m] assms by (simp add: memcpy_def)

lemma memset_loop_ok: "memset_loop m p c i n = poke m p (replicate (nat (n - i)) c)"
proof (induction m p c i n rule: memset_loop.induct)
  case (1 m p c i n)
  show ?case
  proof (cases "i < n")
    case True
    then have "nat (n - i) = Suc (nat (n - (i + 1)))" by linarith
    then show ?thesis using 1 True by (subst memset_loop.simps) (simp del: fun_upd_apply)
  next
    case False
    then show ?thesis by (subst memset_loop.simps) simp
  qed
qed

lemma memset_ok: "memset m p c n = (p, poke m p (replicate (nat n) (word_of_int c)))"
  by (simp add: memset_def memset_loop_ok)

lemma bzero_loop_ok: "0 < n \<Longrightarrow> bzero_loop m p (int n) = Some (poke m p (replicate n 0))"
proof (induction n arbitrary: m p)
  case (Suc n)
  then show ?case by (cases n) (subst bzero_loop.simps, simp add: Let_def del: fun_upd_apply)+
qed simp

lemma bzero_ok: "bzero m p n = Some (poke m p (replicate (nat n) 0))"
  using bzero_loop_ok [of "nat n"] by (simp add: bzero_def)

theorem strcpy_ok_witness:
  "strcpy (poke (\<lambda>_. 0) 8 [97, 98]) 20 8 = Some (0, poke (poke (\<lambda>_. 0) 8 [97, 98]) 20 [97, 98, 0])"
  using strcpy_ok [of "poke (\<lambda>_. 0) 8 [97, 98]" 8 "[97, 98]" 20] by simp

theorem strncpy_ok_witness:
  "strncpy (poke (\<lambda>_. 1) 8 [97, 98, 0]) 20 8 4 = (20, poke (poke (\<lambda>_. 1) 8 [97, 98, 0]) 20 [97, 98, 0, 0])"
proof -
  have "padded 4 [97, 98] = [97, 98, 0, 0]"
    unfolding padded_def by (subst numeral_eq_Suc)+ (simp add: numeral_2_eq_2)
  then show ?thesis using strncpy_ok [of "poke (\<lambda>_. 1) 8 [97, 98, 0]" 8 "[97, 98]" 20 4] by simp
qed

theorem strstr_ok_witness: "strstr (poke (poke (\<lambda>_. 0) 8 [97, 98, 98]) 20 [98]) 8 20 = Some 9"
proof -
  define m where "m = poke (poke (\<lambda>_. 0) 8 [97, 98, 98]) 20 [98]"
  have o: "occurs [98] [97, 98, 98 :: 8 word] 1" by (simp add: occurs_def)
  have L: "(LEAST i. occurs [98] [97, 98, 98 :: 8 word] i) = 1"
  proof (rule Least_equality)
    show "1 \<le> i" if "occurs [98] [97, 98, 98 :: 8 word] i" for i using that by (cases i) (simp_all add: occurs_def)
  qed (rule o)
  have ex: "\<exists>i. occurs [98] [97, 98, 98 :: 8 word] i" using o by blast
  have "strstr m 8 20 = Some (8 + int (LEAST i. occurs [98] [97, 98, 98 :: 8 word] i))"
    using strstr_ok [of m 8 "[97, 98, 98]" 20 "[98]"] unfolding if_P [OF ex] by (simp add: m_def)
  then have "strstr m 8 20 = Some 9" unfolding L by simp
  then show ?thesis by (simp add: m_def)
qed

theorem strstr_empty_witness: "strstr (poke (\<lambda>_. 0) 8 [97]) 8 20 = Some 0"
  by (rule strstr_empty [of _ _ "[97]"]) simp_all

theorem memchr_ok_witness: "memchr (poke (\<lambda>_. 0) 8 [97, 98]) 8 98 1 = Some 9"
  using memchr_ok [of "poke (\<lambda>_. 0) 8 [97, 98]" 8 "[97, 98]" 98 1] by (simp add: first_at_def Let_def)

end
