(* ===== verification/Mem32.thy ===== *)
theory Mem32
  imports LibStr
begin

text \<open>
  Words in byte memory: the ARM is little-endian, and \<open>ld32\<close>/\<open>st32\<close> are a \<open>uint32\<close>
  load and store at an address.
\<close>

definition ld32 :: "bytes \<Rightarrow> int \<Rightarrow> int" where
  "ld32 m a = uint (m a) + 256 * uint (m (a + 1)) + 65536 * uint (m (a + 2)) + 16777216 * uint (m (a + 3))"

definition st32 :: "int \<Rightarrow> int \<Rightarrow> bytes \<Rightarrow> bytes" where
  "st32 a v m = m(a := word_of_int v, a + 1 := word_of_int (v div 256), a + 2 := word_of_int (v div 65536),
     a + 3 := word_of_int (v div 16777216))"

lemma uint_byte: "uint (word_of_int v :: 8 word) = v mod 256"
  by (simp add: uint_word_of_int)

lemma bytes_of_word: "v mod 256 + 256 * (v div 256 mod 256) + 65536 * (v div 65536 mod 256) + 16777216 * (v div 16777216 mod 256)
    = v mod (4294967296 :: int)"
proof -
  have p: "256 * 16777216 = (4294967296 :: int)" "256 * 65536 = (16777216 :: int)" "256 * 256 = (65536 :: int)"
    "(0 :: int) \<le> 16777216" "(0 :: int) \<le> 65536" "(0 :: int) \<le> 256" by simp_all
  have d: "v div 256 div 256 = v div 65536" "v div 65536 div 256 = v div 16777216"
    using zdiv_zmult2_eq [OF p(6), of v 256] zdiv_zmult2_eq [OF p(6), of v 65536] by simp_all
  note 1 = zmod_zmult2_eq [OF p(4), of v 256, unfolded p]
  note 2 = zmod_zmult2_eq [OF p(5), of "v div 256" 256, unfolded p d]
  note 3 = zmod_zmult2_eq [OF p(6), of "v div 65536" 256, unfolded p d]
  show ?thesis unfolding 1 2 3 distrib_left by linarith
qed

lemma ld32_st32 [simp]: "ld32 (st32 a v m) a = u32 v"
proof -
  have b: "st32 a v m a = word_of_int v" "st32 a v m (a + 1) = word_of_int (v div 256)"
    "st32 a v m (a + 2) = word_of_int (v div 65536)" "st32 a v m (a + 3) = word_of_int (v div 16777216)"
    by (simp_all add: st32_def)
  have u: "u32 v = v mod 4294967296" by (simp add: u32_def)
  show ?thesis unfolding ld32_def b uint_byte bytes_of_word u by (rule refl)
qed

lemma st32_other: "x < a \<or> a + 4 \<le> x \<Longrightarrow> st32 a v m x = m x"
  by (auto simp: st32_def)

lemma ld32_apart: "b + 4 \<le> a \<or> a + 4 \<le> b \<Longrightarrow> ld32 (st32 a v m) b = ld32 m b"
  by (auto simp: ld32_def st32_other)

lemma ld32_range: "0 \<le> ld32 m a" "ld32 m a < 4294967296"
proof -
  have "uint (m x) < 256" for x using uint_bounded [of "m x"] by simp
  from this [of a] this [of "a + 1"] this [of "a + 2"] this [of "a + 3"]
  show "ld32 m a < 4294967296" by (simp add: ld32_def)
  show "0 \<le> ld32 m a" by (simp add: ld32_def)
qed

lemma ld32_cong: "(\<And>x. a \<le> x \<Longrightarrow> x < a + 4 \<Longrightarrow> m' x = m x) \<Longrightarrow> ld32 m' a = ld32 m a"
  by (simp add: ld32_def)

lemma st32_cstr: "p + int (length cs) < a \<or> a + 4 \<le> p \<Longrightarrow> cstr (st32 a v m) p cs = cstr m p cs"
  by (rule cstr_cong) (auto simp: st32_other)


section \<open>The bytes at an address\<close>

definition mbytes :: "bytes \<Rightarrow> int \<Rightarrow> nat \<Rightarrow> 8 word list" where
  "mbytes m a n = map (\<lambda>i. m (a + int i)) [0..<n]"

lemma length_mbytes [simp]: "length (mbytes m a n) = n"
  by (simp add: mbytes_def)

lemma mbytes_Suc: "mbytes m a (Suc n) = m a # mbytes m (a + 1) n"
  by (rule nth_equalityI) (auto simp: mbytes_def nth_Cons' ac_simps simp del: upt_Suc)

lemma mbytes_0 [simp]: "mbytes m a 0 = []"
  by (simp add: mbytes_def)

lemma mbytes_poke: "length ys = n \<Longrightarrow> mbytes (poke m a ys) a n = ys"
  by (rule nth_equalityI) (simp_all add: mbytes_def poke_at)

end
