(* ===== verification/KernelState.thy ===== *)
theory KernelState
  imports Mem32
begin

text \<open>
  The data of the kernel: the constants of \<open>config/conf.h\<close>, \<open>include/process.h\<close>,
  \<open>include/queue.h\<close>, \<open>include/semaphore.h\<close>, \<open>include/rwblocker.h\<close> and
  \<open>include/scheduler.h\<close>, the structures they declare, and the record \<open>kernel\<close> of
  the global variables that the process manager, the semaphores, the message passing,
  the reader-writer blockers and the clock share.  A C table is a function from its
  index; every access of the code goes through a guarded reader or writer, which has no
  value when the index is outside the table.
\<close>

section \<open>Configuration constants\<close>

abbreviation (input) NPROC :: int where "NPROC \<equiv> 100"
abbreviation (input) NSEM :: int where "NSEM \<equiv> 100"
abbreviation (input) RWB_COUNT :: int where "RWB_COUNT \<equiv> 10"
abbreviation (input) NQENT :: int where "NQENT \<equiv> 328"
abbreviation (input) EMPTY :: int where "EMPTY \<equiv> -1"
abbreviation (input) MAXKEY :: int where "MAXKEY \<equiv> 2147483647"
abbreviation (input) MINKEY :: int where "MINKEY \<equiv> - 2147483648"
abbreviation (input) NULLPROC :: int where "NULLPROC \<equiv> 0"
abbreviation (input) QUANTUM :: int where "QUANTUM \<equiv> 2"

abbreviation (input) NPORTS :: int where "NPORTS \<equiv> 30"
abbreviation (input) NBPOOLS :: int where "NBPOOLS \<equiv> 20"

abbreviation (input) QTYPE_PRIORITY :: int where "QTYPE_PRIORITY \<equiv> 0"
abbreviation (input) QTYPE_SJF :: int where "QTYPE_SJF \<equiv> 1"
abbreviation (input) QTYPE_RAND :: int where "QTYPE_RAND \<equiv> 2"
abbreviation (input) QTYPE_VALS :: int where "QTYPE_VALS \<equiv> 3"

abbreviation (input) ENV_VARS :: int where "ENV_VARS \<equiv> 9"
abbreviation (input) EV_SCHEDULER :: int where "EV_SCHEDULER \<equiv> 1"
abbreviation (input) EV_CPUQDATA :: int where "EV_CPUQDATA \<equiv> 2"
abbreviation (input) EV_MEMALLOC :: int where "EV_MEMALLOC \<equiv> 5"
abbreviation (input) EV_CMDHIST :: int where "EV_CMDHIST \<equiv> 6"
abbreviation (input) EV_DBGROUP :: int where "EV_DBGROUP \<equiv> 7"
abbreviation (input) EV_DBLEVEL :: int where "EV_DBLEVEL \<equiv> 8"

section \<open>Queue table\<close>

text \<open>
  \<open>struct qentry\<close>: entries \<open>0\<close> to \<open>NPROC-1\<close> belong to the processes, the rest
  are head and tail nodes, a queue being named by its head and having its tail at the
  next index.
\<close>

record qentry =
  qkey :: int
  qnext :: int
  qprev :: int

type_synonym qtab = "int \<Rightarrow> qentry"

section \<open>Process table\<close>

datatype pstate = PR_FREE | PR_CURR | PR_READY | PR_RECV | PR_SLEEP | PR_SUSP | PR_WAIT | PR_RECTIM

record mstime =
  secs :: int
  ms :: int

text \<open>
  \<open>struct procent\<close>.  The registers that the context switch (\<open>ctxsw.S\<close>) saves on the
  stack are not modelled; what a process still has to do inside the kernel after it was
  switched out is kept in the field \<open>kcont\<close> of the kernel instead.
\<close>

record procent =
  prstate :: pstate
  prprio :: int
  prprio0 :: int
  prstkptr :: int
  prstkbase :: int
  prstklen :: int
  prname :: string
  prsem :: int
  prparent :: int
  prmsg :: int
  prhasmsg :: bool
  prdesc :: "int \<Rightarrow> int"
  timestatein :: mstime
  statetimes :: "int \<Rightarrow> pstate \<Rightarrow> mstime"

section \<open>Semaphores and reader-writer blockers\<close>

datatype sstate = S_FREE | S_USED

record sentry =
  sstate :: sstate
  scount :: int
  squeue :: int

record rwbentry =
  rwstate :: sstate
  rwcount :: int
  rwqueue :: int
  qcount :: int

section \<open>Suspended kernel code\<close>

text \<open>
  What a process executes inside the kernel when it is switched in again: the code of
  an operation that follows a call which rescheduled.  Operations that only restore the
  interrupt mask and return a constant leave nothing behind.
\<close>

datatype kcont =
    KReceive                    \<comment> \<open>rest of \<open>receive\<close>: take the message\<close>
  | KRecvtime                   \<comment> \<open>rest of \<open>recvtime\<close>: message or time-out\<close>
  | KSuspend int                \<comment> \<open>rest of \<open>suspend\<close>: read the priority to return\<close>
  | KClock                      \<comment> \<open>rest of \<open>clkhandler\<close> after \<open>wakeup\<close> gave the processor away\<close>
  | KInit int                   \<comment> \<open>rest of \<open>sysinit\<close>: the devices from this one on\<close>
  | KKill int                   \<comment> \<open>rest of \<open>kill\<close> after the parent was told\<close>
  | KKillFree int               \<comment> \<open>rest of \<open>kill\<close> after the blocker was signalled\<close>
  | KRwbWriter int int          \<comment> \<open>rest of \<open>_signalrwb\<close> after a writer was readied\<close>
  | KRwbReader int int          \<comment> \<open>rest of \<open>_signalrwb\<close> after a reader was readied\<close>
  | KPtsend int int int         \<comment> \<open>rest of \<open>ptsend\<close> after the wait for space\<close>
  | KPtrecv int int             \<comment> \<open>rest of \<open>ptrecv\<close> after the wait for a message\<close>
  | KPtclear int bool bool      \<comment> \<open>rest of \<open>_ptclear\<close> after one of its two semaphores\<close>
  | KGetbuf int                 \<comment> \<open>rest of \<open>getbuf\<close> after the wait for a buffer\<close>
  | KMark int                   \<comment> \<open>rest of \<open>mark\<close> after the wait for the mutex\<close>

section \<open>Ports, buffer pools\<close>

text \<open>\<open>struct ptentry\<close> of \<open>include/ports.h\<close> and \<open>struct bpentry\<close> of \<open>include/bufpool.h\<close>.\<close>

datatype ptstate = PT_FREE | PT_LIMBO | PT_ALLOC

record ptentry =
  ptssem :: int
  ptrsem :: int
  ptstate :: ptstate
  ptmaxcnt :: int
  ptseq :: int
  pthead :: int
  pttail :: int

record bpentry =
  bpnext :: int
  bpsem :: int
  bpsize :: int

section \<open>Free memory\<close>

text \<open>
  \<open>struct memblk\<close> of \<open>include/memory.h\<close>: the free blocks of the heap, in a circle
  with the global \<open>memlist\<close> whose address is the field of that name.
\<close>

record mblk =
  mnext :: int
  mlength :: int
  mprev :: int

record mheap =
  blk :: "int \<Rightarrow> mblk"
  memlist :: int
  minheap :: int
  maxheap :: int

section \<open>The kernel\<close>

record kernel =
  queuetab :: qtab
  nextqid :: int
  proctab :: "int \<Rightarrow> procent"
  prcount :: int
  currpid :: int
  nextpid :: int
  readylist :: int
  sleepq :: int
  scratchlist :: int
  readycount :: int
  ndefers :: int
  attempt :: bool
  semtab :: "int \<Rightarrow> sentry"
  nextsem :: int
  rwbtab :: "int \<Rightarrow> rwbentry"
  rwbflags :: "int \<Rightarrow> int"
  nextrwb :: int
  preempt :: int
  clktime :: int
  count1000 :: int
  clktimems :: bool
  mstime_now :: mstime
  envtab :: "int \<Rightarrow> int"
  debug_mask :: int
  state_times :: "int \<Rightarrow> pstate \<Rightarrow> mstime"
  procs_finished :: "int \<Rightarrow> int"
  randx :: int
  mem :: bytes
  marks :: "int \<Rightarrow> int"
  nmarks :: int
  mkmutex :: int
  heap :: mheap
  porttab :: "int \<Rightarrow> ptentry"
  ptfree :: int
  ptnextid :: int
  buftab :: "int \<Rightarrow> bpentry"
  nbpools :: int
  cmdhistory :: int
  kcont :: "int \<Rightarrow> kcont list"
  kret :: "int \<Rightarrow> int"

definition isbadpid :: "kernel \<Rightarrow> int \<Rightarrow> bool" where
  "isbadpid s x \<longleftrightarrow> x < 0 \<or> x \<ge> NPROC \<or> prstate (proctab s x) = PR_FREE"

definition isbadqid :: "int \<Rightarrow> bool" where
  "isbadqid x \<longleftrightarrow> x < 0 \<or> x \<ge> NQENT - 1"

definition isbadsem :: "int \<Rightarrow> bool" where
  "isbadsem x \<longleftrightarrow> x < 0 \<or> x \<ge> NSEM"

definition isbadrwb :: "kernel \<Rightarrow> int \<Rightarrow> bool" where
  "isbadrwb s x \<longleftrightarrow> x < 0 \<or> x \<ge> RWB_COUNT \<or> rwstate (rwbtab s x) = S_FREE"

lemma isbadpid_iff: "isbadpid s x \<longleftrightarrow> \<not> (0 \<le> x \<and> x < 100 \<and> prstate (proctab s x) \<noteq> PR_FREE)"
  by (auto simp: isbadpid_def)

section \<open>Process entries\<close>

text \<open>\<open>proctab[p]\<close> read and written with the index in range.\<close>

definition proc :: "int \<Rightarrow> kernel \<Rightarrow> procent option" where
  "proc p s = (if 0 \<le> p \<and> p < NPROC then Some (proctab s p) else None)"

definition upd_proc :: "int \<Rightarrow> (procent \<Rightarrow> procent) \<Rightarrow> kernel \<Rightarrow> kernel option" where
  "upd_proc p f s =
     (if 0 \<le> p \<and> p < NPROC then Some (s\<lparr>proctab := (proctab s)(p := f (proctab s p))\<rparr>) else None)"

definition set_state :: "int \<Rightarrow> pstate \<Rightarrow> kernel \<Rightarrow> kernel option" where
  "set_state p st = upd_proc p (\<lambda>e. e\<lparr>prstate := st\<rparr>)"

lemma proc_Some [simp]: "0 \<le> p \<Longrightarrow> p < 100 \<Longrightarrow> proc p s = Some (proctab s p)"
  by (simp add: proc_def)

lemma upd_proc_Some [simp]: "0 \<le> p \<Longrightarrow> p < 100 \<Longrightarrow>
    upd_proc p f s = Some (s\<lparr>proctab := (proctab s)(p := f (proctab s p))\<rparr>)"
  by (simp add: upd_proc_def)

section \<open>Code after a call that reschedules\<close>

text \<open>
  \<open>after p k f s\<close> is the code \<open>f\<close> of process \<open>p\<close> that follows a call which may
  have switched the processor to another process: when \<open>p\<close> still runs, \<open>f\<close> runs
  now; otherwise it is what \<open>p\<close> resumes with.
\<close>

definition after :: "int \<Rightarrow> kcont \<Rightarrow> (kernel \<Rightarrow> kernel option) \<Rightarrow> kernel \<Rightarrow> kernel option" where
  "after p k f s =
     (if currpid s = p then f s else Some (s\<lparr>kcont := (kcont s)(p := kcont s p @ [k])\<rparr>))"

text \<open>The value a system call hands back to process \<open>p\<close>.\<close>

definition deliver :: "int \<Rightarrow> int \<Rightarrow> kernel \<Rightarrow> kernel" where
  "deliver p v s = s\<lparr>kret := (kret s)(p := v)\<rparr>"

end
