(* ===== verification/Queues.thy ===== *)
theory Queues
  imports KernelState
begin

text \<open>
  The process queues: \<open>system/queue.c\<close>, \<open>system/newqueue.c\<close>,
  \<open>system/getitem.c\<close>, \<open>system/insert.c\<close> and \<open>system/insertd.c\<close>.  A queue is a
  doubly linked list through \<open>queuetab\<close>; the operations below are the code's pointer
  updates.  The lemmas show that each of them is the corresponding operation on the list
  of process ids the queue represents, and that no other queue changes.
\<close>

section \<open>Table access\<close>

definition qent :: "qtab \<Rightarrow> int \<Rightarrow> qentry option" where
  "qent t i = (if 0 \<le> i \<and> i < NQENT then Some (t i) else None)"

definition upd_qent :: "int \<Rightarrow> (qentry \<Rightarrow> qentry) \<Rightarrow> qtab \<Rightarrow> qtab option" where
  "upd_qent i f t = (if 0 \<le> i \<and> i < NQENT then Some (t(i := f (t i))) else None)"

abbreviation (input) set_next :: "int \<Rightarrow> int \<Rightarrow> qtab \<Rightarrow> qtab option" where
  "set_next i v \<equiv> upd_qent i (\<lambda>e. e\<lparr>qnext := v\<rparr>)"

abbreviation (input) set_prev :: "int \<Rightarrow> int \<Rightarrow> qtab \<Rightarrow> qtab option" where
  "set_prev i v \<equiv> upd_qent i (\<lambda>e. e\<lparr>qprev := v\<rparr>)"

abbreviation (input) set_key :: "int \<Rightarrow> int \<Rightarrow> qtab \<Rightarrow> qtab option" where
  "set_key i v \<equiv> upd_qent i (\<lambda>e. e\<lparr>qkey := v\<rparr>)"

abbreviation (input) queuehead :: "int \<Rightarrow> int" where "queuehead q \<equiv> q"
abbreviation (input) queuetail :: "int \<Rightarrow> int" where "queuetail q \<equiv> q + 1"

lemma qent_Some [simp]: "0 \<le> i \<Longrightarrow> i < 328 \<Longrightarrow> qent t i = Some (t i)"
  by (simp add: qent_def)

lemma upd_qent_Some [simp]: "0 \<le> i \<Longrightarrow> i < 328 \<Longrightarrow> upd_qent i f t = Some (t(i := f (t i)))"
  by (simp add: upd_qent_def)

definition firstid :: "int \<Rightarrow> kernel \<Rightarrow> int option" where
  "firstid q s = map_option qnext (qent (queuetab s) (queuehead q))"

definition lastid :: "int \<Rightarrow> kernel \<Rightarrow> int option" where
  "lastid q s = map_option qprev (qent (queuetab s) (queuetail q))"

definition isempty :: "int \<Rightarrow> kernel \<Rightarrow> bool option" where
  "isempty q s = map_option (\<lambda>f. f \<ge> NPROC) (firstid q s)"

definition firstkey :: "int \<Rightarrow> kernel \<Rightarrow> int option" where
  "firstkey q s = do { f \<leftarrow> firstid q s; e \<leftarrow> qent (queuetab s) f; Some (qkey e) }"

section \<open>The operations\<close>

definition newqueue :: "kernel \<Rightarrow> (int \<times> kernel) option" where
  "newqueue s =
     (let q = nextqid s in
      if q > NQENT then Some (SYSERR, s)
      else do {
        let s = s\<lparr>nextqid := q + 2\<rparr>;
        t \<leftarrow> set_next (queuehead q) (queuetail q) (queuetab s);
        t \<leftarrow> set_prev (queuehead q) EMPTY t;
        t \<leftarrow> set_key (queuehead q) MAXKEY t;
        t \<leftarrow> set_next (queuetail q) EMPTY t;
        t \<leftarrow> set_prev (queuetail q) (queuehead q) t;
        t \<leftarrow> set_key (queuetail q) MINKEY t;
        Some (q, s\<lparr>queuetab := t\<rparr>)
      })"

definition enqueue :: "int \<Rightarrow> int \<Rightarrow> kernel \<Rightarrow> (int \<times> kernel) option" where
  "enqueue pid q s =
     (if isbadqid q \<or> isbadpid s pid then Some (SYSERR, s)
      else do {
        let tail = queuetail q;
        e \<leftarrow> qent (queuetab s) tail;
        let prev = qprev e;
        t \<leftarrow> set_next pid tail (queuetab s);
        t \<leftarrow> set_prev pid prev t;
        t \<leftarrow> set_next prev pid t;
        t \<leftarrow> set_prev tail pid t;
        Some (pid, s\<lparr>queuetab := t\<rparr>)
      })"

definition getitem :: "int \<Rightarrow> kernel \<Rightarrow> (int \<times> kernel) option" where
  "getitem pid s = do {
     e \<leftarrow> qent (queuetab s) pid;
     let next = qnext e;
     let prev = qprev e;
     t \<leftarrow> set_next prev next (queuetab s);
     t \<leftarrow> set_prev next prev t;
     Some (pid, s\<lparr>queuetab := t\<rparr>)
   }"

definition getfirst :: "int \<Rightarrow> kernel \<Rightarrow> (int \<times> kernel) option" where
  "getfirst q s = do {
     emp \<leftarrow> isempty q s;
     if emp then Some (EMPTY, s)
     else do {
       let head = queuehead q;
       e \<leftarrow> qent (queuetab s) head;
       getitem (qnext e) s
     }
   }"

definition getlast :: "int \<Rightarrow> kernel \<Rightarrow> (int \<times> kernel) option" where
  "getlast q s = do {
     emp \<leftarrow> isempty q s;
     if emp then Some (EMPTY, s)
     else do {
       let tail = queuetail q;
       e \<leftarrow> qent (queuetab s) tail;
       getitem (qprev e) s
     }
   }"

definition dequeue :: "int \<Rightarrow> kernel \<Rightarrow> (int \<times> kernel) option" where
  "dequeue q s =
     (if isbadqid q then Some (SYSERR, s)
      else do {
        emp \<leftarrow> isempty q s;
        if emp then Some (EMPTY, s)
        else do {
          (pid, s) \<leftarrow> getfirst q s;
          t \<leftarrow> set_prev pid EMPTY (queuetab s);
          t \<leftarrow> set_next pid EMPTY t;
          Some (pid, s\<lparr>queuetab := t\<rparr>)
        }
      })"

text \<open>The \<open>while\<close> loops of \<open>insert\<close> and \<open>insertd\<close>, with the C variables they change.\<close>

partial_function (option) insert_loop :: "qtab \<Rightarrow> int \<Rightarrow> int \<Rightarrow> int option" where
  "insert_loop t key cur = do {
     e \<leftarrow> qent t cur;
     if qkey e \<ge> key then insert_loop t key (qnext e) else Some cur
   }"

definition insert_q :: "int \<Rightarrow> int \<Rightarrow> int \<Rightarrow> kernel \<Rightarrow> (int \<times> kernel) option" where
  "insert_q pid q key s =
     (if isbadqid q \<or> isbadpid s pid then Some (SYSERR, s)
      else do {
        first \<leftarrow> firstid q s;
        cur \<leftarrow> insert_loop (queuetab s) key first;
        e \<leftarrow> qent (queuetab s) cur;
        let prev = qprev e;
        t \<leftarrow> set_next pid cur (queuetab s);
        t \<leftarrow> set_prev pid prev t;
        t \<leftarrow> set_key pid key t;
        t \<leftarrow> set_next prev pid t;
        t \<leftarrow> set_prev cur pid t;
        Some (OK, s\<lparr>queuetab := t\<rparr>)
      })"

partial_function (option) insertd_loop ::
  "qtab \<Rightarrow> int \<Rightarrow> int \<Rightarrow> int \<Rightarrow> int \<Rightarrow> (int \<times> int \<times> int) option" where
  "insertd_loop t q key prev next =
     (if next \<noteq> queuetail q then do {
        e \<leftarrow> qent t next;
        if qkey e \<le> key then do {
          key' \<leftarrow> chk32 (key - qkey e);
          insertd_loop t q key' next (qnext e)
        } else Some (key, prev, next)
      } else Some (key, prev, next))"

definition insertd :: "int \<Rightarrow> int \<Rightarrow> int \<Rightarrow> kernel \<Rightarrow> (int \<times> kernel) option" where
  "insertd pid q key s =
     (if isbadqid q \<or> isbadpid s pid then Some (SYSERR, s)
      else do {
        e \<leftarrow> qent (queuetab s) (queuehead q);
        (key, prev, next) \<leftarrow> insertd_loop (queuetab s) q key (queuehead q) (qnext e);
        t \<leftarrow> set_next pid next (queuetab s);
        t \<leftarrow> set_prev pid prev t;
        t \<leftarrow> set_key pid key t;
        t \<leftarrow> set_next prev pid t;
        t \<leftarrow> set_prev next pid t;
        if next \<noteq> queuetail q then do {
          e \<leftarrow> qent t next;
          k \<leftarrow> chk32 (qkey e - key);
          t \<leftarrow> set_key next k t;
          Some (OK, s\<lparr>queuetab := t\<rparr>)
        } else Some (OK, s\<lparr>queuetab := t\<rparr>)
      })"

partial_function (option) drain :: "int \<Rightarrow> kernel \<Rightarrow> kernel option" where
  "drain q s = do {
     emp \<leftarrow> isempty q s;
     if \<not> emp then do { (_, s') \<leftarrow> dequeue q s; drain q s' } else Some s
   }"

definition copyqueue :: "int \<Rightarrow> int \<Rightarrow> kernel \<Rightarrow> kernel option" where
  "copyqueue srcq destq s = do {
     s \<leftarrow> drain destq s;
     first \<leftarrow> firstid srcq s;
     last \<leftarrow> lastid srcq s;
     t \<leftarrow> set_next (queuehead srcq) (queuetail srcq) (queuetab s);
     t \<leftarrow> set_prev (queuetail srcq) (queuehead srcq) t;
     t \<leftarrow> set_next (queuehead destq) first t;
     t \<leftarrow> set_prev first (queuehead destq) t;
     t \<leftarrow> set_prev (queuetail destq) last t;
     t \<leftarrow> set_next last (queuetail destq) t;
     Some (s\<lparr>queuetab := t\<rparr>)
   }"

section \<open>What a queue represents\<close>

text \<open>
  \<open>dchain t a xs b\<close>: from node \<open>a\<close> the \<open>qnext\<close> links run through the nodes
  \<open>xs\<close> to \<open>b\<close>, and the \<open>qprev\<close> links run back the same way.
\<close>

fun dchain :: "qtab \<Rightarrow> int \<Rightarrow> int list \<Rightarrow> int \<Rightarrow> bool" where
  "dchain t a [] b \<longleftrightarrow> qnext (t a) = b \<and> qprev (t b) = a"
| "dchain t a (x # xs) b \<longleftrightarrow> qnext (t a) = x \<and> qprev (t x) = a \<and> dchain t x xs b"

definition isq :: "qtab \<Rightarrow> int \<Rightarrow> int list \<Rightarrow> bool" where
  "isq t q xs \<longleftrightarrow> dchain t q xs (q + 1) \<and> qkey (t q) = MAXKEY \<and> qkey (t (q + 1)) = MINKEY"

text \<open>The queue ids handed out so far, when the next one would be \<open>n\<close>.\<close>

definition qids :: "int \<Rightarrow> int set" where
  "qids n = {q. NPROC \<le> q \<and> even q \<and> q < n}"

text \<open>
  The queue table represents the lists \<open>Q\<close>, where \<open>W p\<close> tells on which queue
  process \<open>p\<close> is linked, if on any.
\<close>

definition qrel :: "qtab \<Rightarrow> int \<Rightarrow> (int \<Rightarrow> int list) \<Rightarrow> (int \<Rightarrow> int option) \<Rightarrow> bool" where
  "qrel t n Q W \<longleftrightarrow> n \<le> NQENT \<and> even n \<and>
     (\<forall>q\<in>qids n. isq t q (Q q) \<and> distinct (Q q) \<and>
        (\<forall>p. p \<in> set (Q q) \<longleftrightarrow> 0 \<le> p \<and> p < NPROC \<and> W p = Some q))"

subsection \<open>Chains\<close>

lemma dchain_append: "dchain t a (ys @ x # zs) b \<longleftrightarrow> dchain t a ys x \<and> dchain t x zs b"
  by (induction ys arbitrary: a) auto

lemma dchain_next: "dchain t a xs b \<Longrightarrow> qnext (t a) = hd (xs @ [b])"
  by (cases xs) auto

lemma dchain_prev: "dchain t a xs b \<Longrightarrow> qprev (t b) = last (a # xs)"
  by (induction xs arbitrary: a) auto

lemma dchain_cong:
  "(\<And>x. x \<in> insert a (set xs) \<Longrightarrow> qnext (t' x) = qnext (t x)) \<Longrightarrow>
   (\<And>x. x \<in> insert b (set xs) \<Longrightarrow> qprev (t' x) = qprev (t x)) \<Longrightarrow>
   dchain t' a xs b = dchain t a xs b"
  by (induction xs arbitrary: a) auto

lemma dchain_unique:
  "dchain t a xs b \<Longrightarrow> dchain t a ys b \<Longrightarrow> b \<notin> set xs \<Longrightarrow> b \<notin> set ys \<Longrightarrow> xs = ys"
proof (induction xs arbitrary: a ys)
  case Nil
  then show ?case by (cases ys) auto
next
  case (Cons x xs)
  then show ?case by (cases ys) auto
qed

text \<open>Replacing the last link, seen from the front.\<close>

lemma dchain_relink:
  assumes "dchain t a xs b" "distinct xs" "a \<notin> set xs" "b \<notin> set xs" "c \<notin> set xs"
    "\<And>x. x \<in> insert a (set xs) \<Longrightarrow> qnext (t' x) = (if x = last (a # xs) then c else qnext (t x))"
    "\<And>x. x \<in> set xs \<Longrightarrow> qprev (t' x) = qprev (t x)"
    "qprev (t' c) = last (a # xs)"
  shows "dchain t' a xs c"
  using assms
proof (induction xs arbitrary: a)
  case Nil
  then show ?case by auto
next
  case (Cons x xs)
  have ax: "a \<noteq> last (x # xs)" using Cons.prems(3) last_in_set [of "x # xs"] by auto
  have "dchain t' x xs c"
  proof (rule Cons.IH)
    show "dchain t x xs b" using Cons.prems(1) by simp
    show "distinct xs" "x \<notin> set xs" "b \<notin> set xs" "c \<notin> set xs"
      using Cons.prems by auto
    show "qprev (t' c) = last (x # xs)" using Cons.prems(8) by simp
    show "qprev (t' y) = qprev (t y)" if "y \<in> set xs" for y
      using Cons.prems(7) [of y] that by simp
    show "qnext (t' y) = (if y = last (x # xs) then c else qnext (t y))" if "y \<in> insert x (set xs)" for y
      using Cons.prems(6) [of y] that by simp
  qed
  moreover have "qnext (t' a) = x" using Cons.prems(1) Cons.prems(6) [of a] ax by simp
  moreover have "qprev (t' x) = a" using Cons.prems(1) Cons.prems(7) [of x] by simp
  ultimately show ?case by simp
qed

text \<open>The same nodes hung between two other end nodes.\<close>

lemma dchain_rebase:
  assumes "dchain t a xs b" "xs \<noteq> []" "distinct xs"
    "qnext (t' a') = hd xs" "qprev (t' (hd xs)) = a'" "qnext (t' (last xs)) = b'" "qprev (t' b') = last xs"
    "\<And>x. x \<in> set xs \<Longrightarrow> x \<noteq> last xs \<Longrightarrow> qnext (t' x) = qnext (t x)"
    "\<And>x. x \<in> set xs \<Longrightarrow> x \<noteq> hd xs \<Longrightarrow> qprev (t' x) = qprev (t x)"
  shows "dchain t' a' xs b'"
  using assms
proof (induction xs arbitrary: a a')
  case Nil
  then show ?case by simp
next
  case (Cons x xs)
  show ?case
  proof (cases xs)
    case Nil
    then show ?thesis using Cons.prems by simp
  next
    case xs: (Cons y ys)
    have xl: "x \<noteq> last xs" using Cons.prems(3) xs last_in_set [of xs] by auto
    have "dchain t' x xs b'"
    proof (rule Cons.IH)
      show "dchain t x xs b" "xs \<noteq> []" "distinct xs" using Cons.prems(1,3) xs by simp_all
      show "qnext (t' x) = hd xs"
        using Cons.prems(1) Cons.prems(8) [of x] xs xl by simp
      show "qprev (t' (hd xs)) = x" using Cons.prems(1,3) Cons.prems(9) [of y] xs by auto
      show "qnext (t' (last xs)) = b'" "qprev (t' b') = last xs" using Cons.prems(6,7) xs by simp_all
      show "qnext (t' z) = qnext (t z)" if "z \<in> set xs" "z \<noteq> last xs" for z
        using Cons.prems(8) [of z] that xs by simp
      show "qprev (t' z) = qprev (t z)" if "z \<in> set xs" "z \<noteq> hd xs" for z
        using Cons.prems(9) [of z] Cons.prems(3) that by auto
    qed
    then show ?thesis using Cons.prems(4,5) by simp
  qed
qed

lemma dchain_insert:
  assumes ch: "dchain t a (ys @ zs) b"
    and d: "distinct (ys @ zs)" "a \<notin> set (ys @ zs)" "b \<notin> set (ys @ zs)"
    and pid: "pid \<notin> insert a (insert b (set (ys @ zs)))"
    and p: "p = last (a # ys)" and c: "c = hd (zs @ [b])"
    and n: "\<And>x. qnext (t' x) = (if x = pid then c else if x = p then pid else qnext (t x))"
    and v: "\<And>x. qprev (t' x) = (if x = c then pid else if x = pid then p else qprev (t x))"
  shows "dchain t' a (ys @ pid # zs) b"
proof -
  have parts: "dchain t a ys c"
  proof (cases zs)
    case Nil
    then show ?thesis using ch c by simp
  next
    case (Cons z zs')
    then show ?thesis using ch c by (simp add: dchain_append)
  qed
  have pmem: "p \<in> insert a (set ys)" using p by (auto dest: last_in_set)
  have cmem: "c \<in> insert b (set zs)" using c by (cases zs) auto
  have front: "dchain t' a ys pid"
  proof (rule dchain_relink [OF parts])
    show "distinct ys" "a \<notin> set ys" "c \<notin> set ys" "pid \<notin> set ys"
      using d pid cmem by auto
    show "qprev (t' x) = qprev (t x)" if "x \<in> set ys" for x
      using v [of x] that d pid cmem by auto
    show "qnext (t' x) = (if x = last (a # ys) then pid else qnext (t x))" if "x \<in> insert a (set ys)" for x
      using n [of x] that pid p by auto
    show "qprev (t' pid) = last (a # ys)" using v [of pid] p pid cmem by auto
  qed
  have rear: "dchain t' pid zs b"
  proof (cases zs)
    case Nil
    then show ?thesis using n [of pid] v [of b] c by simp
  next
    case (Cons z zs')
    then have tz: "dchain t z zs' b" using ch by (simp add: dchain_append)
    have "dchain t' z zs' b = dchain t z zs' b"
    proof (rule dchain_cong)
      show "qnext (t' x) = qnext (t x)" if "x \<in> insert z (set zs')" for x
        using n [of x] that Cons d pid pmem by auto
      show "qprev (t' x) = qprev (t x)" if "x \<in> insert b (set zs')" for x
        using v [of x] that Cons d pid c by auto
    qed
    then show ?thesis using tz Cons c n [of pid] v [of z] by simp
  qed
  show ?thesis using front rear by (simp add: dchain_append)
qed

lemma dchain_remove:
  assumes ch: "dchain t a (ys @ pid # zs) b"
    and d: "distinct (ys @ pid # zs)" "a \<notin> set (ys @ pid # zs)" "b \<notin> set (ys @ pid # zs)"
    and p: "p = qprev (t pid)" and c: "c = qnext (t pid)"
    and n: "\<And>x. x \<noteq> pid \<Longrightarrow> qnext (t' x) = (if x = p then c else qnext (t x))"
    and v: "\<And>x. x \<noteq> pid \<Longrightarrow> qprev (t' x) = (if x = c then p else qprev (t x))"
  shows "dchain t' a (ys @ zs) b"
proof -
  have f: "dchain t a ys pid" and bk: "dchain t pid zs b"
    using ch by (simp_all add: dchain_append)
  have pl: "p = last (a # ys)" using f p dchain_prev by blast
  have ch': "c = hd (zs @ [b])" using bk c dchain_next by blast
  have pmem: "p \<in> insert a (set ys)" using pl by (auto dest: last_in_set)
  have cmem: "c \<in> insert b (set zs)" using ch' by (cases zs) auto
  have front: "dchain t' a ys c"
  proof (rule dchain_relink [OF f])
    show "distinct ys" "a \<notin> set ys" "pid \<notin> set ys" "c \<notin> set ys"
      using d cmem by auto
    show "qnext (t' x) = (if x = last (a # ys) then c else qnext (t x))" if "x \<in> insert a (set ys)" for x
    proof -
      have "x \<noteq> pid" using that d by auto
      then show ?thesis using n [of x] pl by simp
    qed
    show "qprev (t' x) = qprev (t x)" if "x \<in> set ys" for x
    proof -
      have "x \<noteq> pid" "x \<noteq> c" using that d cmem by auto
      then show ?thesis using v [of x] by simp
    qed
    have "c \<noteq> pid" using cmem d by auto
    then show "qprev (t' c) = last (a # ys)" using v [of c] pl by simp
  qed
  show ?thesis
  proof (cases zs)
    case Nil
    then show ?thesis using front ch' by simp
  next
    case (Cons z zs')
    have "dchain t' z zs' b = dchain t z zs' b"
    proof (rule dchain_cong)
      show "qnext (t' x) = qnext (t x)" if "x \<in> insert z (set zs')" for x
      proof -
        have "x \<noteq> pid" "x \<noteq> p" using that Cons d pmem by auto
        then show ?thesis using n [of x] by simp
      qed
      show "qprev (t' x) = qprev (t x)" if "x \<in> insert b (set zs')" for x
      proof -
        have "x \<noteq> pid" "x \<noteq> c" using that Cons d ch' by auto
        then show ?thesis using v [of x] by simp
      qed
    qed
    then show ?thesis using front bk Cons ch' by (simp add: dchain_append)
  qed
qed

subsection \<open>The whole table\<close>

lemma qids_bounds:
  assumes "q \<in> qids n" "n \<le> 328" "even n"
  shows "100 \<le> q" "q + 1 < 328" "even q"
  using assms by (auto simp: qids_def elim!: evenE)

lemma qids_apart:
  "q \<in> qids n \<Longrightarrow> r \<in> qids n \<Longrightarrow> q \<noteq> r \<Longrightarrow> {q, q + 1} \<inter> {r, r + 1} = {}"
  by (auto simp: qids_def elim!: evenE) presburger+

lemma qrelD:
  assumes "qrel t n Q W" "q \<in> qids n"
  shows "isq t q (Q q)" "distinct (Q q)" "\<And>p. p \<in> set (Q q) \<longleftrightarrow> 0 \<le> p \<and> p < 100 \<and> W p = Some q"
    "100 \<le> q" "q + 1 < 328" "q \<notin> set (Q q)" "q + 1 \<notin> set (Q q)"
  using assms qids_bounds [of q n] by (auto simp: qrel_def)

lemma qrel_member: "qrel t n Q W \<Longrightarrow> q \<in> qids n \<Longrightarrow> p \<in> set (Q q) \<Longrightarrow> 0 \<le> p \<and> p < 100 \<and> W p = Some q"
  by (auto simp: qrel_def)

lemma qrel_node:
  assumes "qrel t n Q W" "q \<in> qids n" "x = q \<or> x = q + 1 \<or> x \<in> set (Q q)"
  shows "0 \<le> x" "x < 328"
  using assms(3) qrelD(4,5) [OF assms(1,2)] qrelD(3) [OF assms(1,2), of x] by auto

lemma qrel_nodes_apart:
  assumes rel: "qrel t n Q W" and q: "q \<in> qids n" "r \<in> qids n" "q \<noteq> r"
    and x: "x = q \<or> x = q + 1 \<or> x \<in> set (Q q)" and y: "y = r \<or> y = r + 1 \<or> y \<in> set (Q r)"
  shows "x \<noteq> y"
proof -
  note q' = qrelD(3-5) [OF rel q(1)] and r' = qrelD(3-5) [OF rel q(2)]
  have "{q, q + 1} \<inter> {r, r + 1} = {}" by (rule qids_apart [OF q])
  then show ?thesis using x y q(3) q'(1) [of x] r'(1) [of y] q'(2) r'(2) by auto
qed

lemma qrel_off_queue:
  assumes rel: "qrel t n Q W" and r: "r \<in> qids n" and pid: "pid < 100" "W pid \<noteq> Some r"
    and x: "x = r \<or> x = r + 1 \<or> x \<in> set (Q r)"
  shows "x \<noteq> pid"
  using x pid qrelD(3) [OF rel r, of x] qrelD(4) [OF rel r] by auto

lemma last_node: "last (q # ys) = q \<or> last (q # ys) \<in> set ys"
  by auto

lemma hd_node: "hd (zs @ [b]) = b \<or> hd (zs @ [b]) \<in> set zs"
  by (cases zs) auto

lemma isq_cong:
  assumes "\<And>x. x \<in> insert q (set xs) \<Longrightarrow> qnext (t' x) = qnext (t x)"
    and "\<And>x. x \<in> insert (q + 1) (set xs) \<Longrightarrow> qprev (t' x) = qprev (t x)"
    and "qkey (t' q) = qkey (t q)" "qkey (t' (q + 1)) = qkey (t (q + 1))"
  shows "isq t' q xs = isq t q xs"
  using assms dchain_cong [of q xs t' t "q + 1"] by (simp add: isq_def)

lemma isq_same:
  assumes "\<And>x. x = q \<or> x = q + 1 \<or> x \<in> set xs \<Longrightarrow> t' x = t x"
  shows "isq t' q xs = isq t q xs"
  by (rule isq_cong) (use assms in fastforce)+

lemma isq_ends:
  assumes "isq t q xs"
  shows "qnext (t q) = hd (xs @ [q + 1])" "qprev (t (q + 1)) = last (q # xs)"
  using assms dchain_next dchain_prev by (auto simp: isq_def)

text \<open>Linking a process into one queue.\<close>

lemma qrel_link:
  assumes rel: "qrel t n Q W" and q: "q \<in> qids n" and Qq: "Q q = ys @ zs"
    and pid: "0 \<le> pid" "pid < 100" "W pid = None"
    and p: "p = last (q # ys)" and c: "c = hd (zs @ [q + 1])"
    and n: "\<And>x. qnext (t' x) = (if x = pid then c else if x = p then pid else qnext (t x))"
    and v: "\<And>x. qprev (t' x) = (if x = c then pid else if x = pid then p else qprev (t x))"
    and k: "\<And>x. 100 \<le> x \<Longrightarrow> qkey (t' x) = qkey (t x)"
  shows "qrel t' n (Q(q := ys @ pid # zs)) (W(pid := Some q))"
  unfolding qrel_def
proof (intro conjI ballI)
  show "n \<le> 328" "even n" using rel by (auto simp: qrel_def)
next
  note D = qrelD [OF rel q]
  have pmem: "p \<in> insert q (set (Q q))" using p Qq by (auto dest: last_in_set)
  have cmem: "c \<in> insert (q + 1) (set (Q q))" using c Qq by (cases zs) auto
  have pnot: "pid \<notin> set (Q q)" using D pid by auto
  fix r assume r: "r \<in> qids n"
  note R = qrelD [OF rel r]
  show "distinct ((Q(q := ys @ pid # zs)) r)" using R(2) D(2) Qq pnot by auto
  have "x \<in> set (ys @ pid # zs) \<longleftrightarrow> x = pid \<or> x \<in> set (Q q)" for x using Qq by auto
  then show "\<forall>x. x \<in> set ((Q(q := ys @ pid # zs)) r) \<longleftrightarrow> 0 \<le> x \<and> x < 100 \<and> (W(pid := Some q)) x = Some r"
    using R(3) D(3) pid by simp
  show "isq t' r ((Q(q := ys @ pid # zs)) r)"
  proof (cases "r = q")
    case True
    have "dchain t' q (ys @ pid # zs) (q + 1)"
      by (rule dchain_insert [OF _ _ _ _ _ p c n v]) (use D(1,2,4-7) Qq pnot pid in \<open>auto simp: isq_def\<close>)
    then show ?thesis using True D(1,4) k [of q] k [of "q + 1"] by (simp add: isq_def)
  next
    case False
    have off: "x \<noteq> pid" "x \<noteq> p" "x \<noteq> c" if "x = r \<or> x = r + 1 \<or> x \<in> set (Q r)" for x
      using qrel_off_queue [OF rel r pid(2) _ that] pid(3) that pmem cmem
        qrel_nodes_apart [OF rel r q False that] by auto
    have "isq t' r (Q r) = isq t r (Q r)"
      by (rule isq_cong) (use off n v k R(4) in auto)
    then show ?thesis using False R(1) by simp
  qed
qed

text \<open>Unlinking a process; what its own entry holds afterwards does not matter.\<close>

lemma qrel_unlink:
  assumes rel: "qrel t n Q W" and q: "q \<in> qids n" and Qq: "Q q = ys @ pid # zs"
    and p: "p = qprev (t pid)" and c: "c = qnext (t pid)"
    and n: "\<And>x. x \<noteq> pid \<Longrightarrow> qnext (t' x) = (if x = p then c else qnext (t x))"
    and v: "\<And>x. x \<noteq> pid \<Longrightarrow> qprev (t' x) = (if x = c then p else qprev (t x))"
    and k: "\<And>x. 100 \<le> x \<Longrightarrow> qkey (t' x) = qkey (t x)"
  shows "qrel t' n (Q(q := ys @ zs)) (W(pid := None))"
  unfolding qrel_def
proof (intro conjI ballI)
  show "n \<le> 328" "even n" using rel by (auto simp: qrel_def)
next
  note D = qrelD [OF rel q]
  have ch: "dchain t q (ys @ pid # zs) (q + 1)" using D Qq by (simp add: isq_def)
  then have "p = last (q # ys)" "c = hd (zs @ [q + 1])"
    using p c dchain_prev dchain_next by (auto simp: dchain_append)
  then have pmem: "p \<in> insert q (set (Q q))" and cmem: "c \<in> insert (q + 1) (set (Q q))"
    using Qq by (auto dest: last_in_set simp: hd_append split: if_splits)
  fix r assume r: "r \<in> qids n"
  note R = qrelD [OF rel r]
  show "distinct ((Q(q := ys @ zs)) r)" using R(2) D(2) Qq by auto
  have "W pid = Some q" using D(3) [of pid] Qq by simp
  moreover have "x \<in> set (ys @ zs) \<longleftrightarrow> x \<noteq> pid \<and> x \<in> set (Q q)" for x using Qq D(2) by auto
  ultimately show "\<forall>x. x \<in> set ((Q(q := ys @ zs)) r) \<longleftrightarrow> 0 \<le> x \<and> x < 100 \<and> (W(pid := None)) x = Some r"
    using R(3) D(3) by auto
  show "isq t' r ((Q(q := ys @ zs)) r)"
  proof (cases "r = q")
    case True
    have "dchain t' q (ys @ zs) (q + 1)"
      by (rule dchain_remove [OF ch _ _ _ p c n v]) (use D(2,4-7) Qq in \<open>auto\<close>)
    then show ?thesis using True D(1,4) k [of q] k [of "q + 1"] by (simp add: isq_def)
  next
    case False
    have pq: "pid \<in> set (Q q)" using Qq by simp
    have off: "x \<noteq> pid" "x \<noteq> p" "x \<noteq> c" if "x = r \<or> x = r + 1 \<or> x \<in> set (Q r)" for x
      using qrel_nodes_apart [OF rel r q False that] pq pmem cmem by auto
    have "isq t' r (Q r) = isq t r (Q r)"
      by (rule isq_cong) (use off n v k R(4) in auto)
    then show ?thesis using False R(1) by simp
  qed
qed

lemma qrel_qnext_bounds:
  assumes rel: "qrel t n Q W" and q: "q \<in> qids n" and Qq: "Q q = ys @ pid # zs"
  shows "0 \<le> qprev (t pid)" "qprev (t pid) < 328" "0 \<le> qnext (t pid)" "qnext (t pid) < 328"
    "qprev (t pid) = last (q # ys)" "qnext (t pid) = hd (zs @ [q + 1])"
proof -
  note D = qrelD [OF rel q]
  have ch: "dchain t q (ys @ pid # zs) (q + 1)" using D Qq by (simp add: isq_def)
  then show e: "qprev (t pid) = last (q # ys)" "qnext (t pid) = hd (zs @ [q + 1])"
    using dchain_prev dchain_next by (auto simp: dchain_append)
  have "last (q # ys) = q \<or> last (q # ys) = q + 1 \<or> last (q # ys) \<in> set (Q q)"
    "hd (zs @ [q + 1]) = q \<or> hd (zs @ [q + 1]) = q + 1 \<or> hd (zs @ [q + 1]) \<in> set (Q q)"
    using last_node [of q ys] hd_node [of zs "q + 1"] Qq by auto
  then show "0 \<le> qprev (t pid)" "qprev (t pid) < 328" "0 \<le> qnext (t pid)" "qnext (t pid) < 328"
    using qrel_node [OF rel q] e by metis+
qed

section \<open>The operations on represented queues\<close>

lemma isempty_ok:
  assumes "qrel (queuetab s) n Q W" "q \<in> qids n"
  shows "isempty q s = Some (Q q = [])"
proof -
  note D = qrelD [OF assms]
  have f: "qnext (queuetab s q) = hd (Q q @ [q + 1])" using D isq_ends by blast
  show ?thesis
  proof (cases "Q q")
    case Nil
    then show ?thesis using f D(4,5) by (simp add: isempty_def firstid_def)
  next
    case (Cons x xs)
    then have "x < 100" using D(3) [of x] by simp
    then show ?thesis using f Cons D(4,5) by (simp add: isempty_def firstid_def)
  qed
qed

lemma firstid_ok:
  assumes "qrel (queuetab s) n Q W" "q \<in> qids n"
  shows "firstid q s = Some (hd (Q q @ [q + 1]))"
  using qrelD [OF assms] isq_ends(1) [of "queuetab s" q "Q q"] by (simp add: firstid_def)

lemma firstkey_ok:
  assumes "qrel (queuetab s) n Q W" "q \<in> qids n"
  shows "firstkey q s = Some (case Q q of [] \<Rightarrow> MINKEY | x # _ \<Rightarrow> qkey (queuetab s x))"
proof -
  note D = qrelD [OF assms]
  show ?thesis
  proof (cases "Q q")
    case Nil
    then show ?thesis using D(1,4,5) firstid_ok [OF assms] by (simp add: firstkey_def isq_def)
  next
    case (Cons x xs)
    then have "0 \<le> x" "x < 100" using D(3) [of x] by simp_all
    then show ?thesis using Cons firstid_ok [OF assms] by (simp add: firstkey_def)
  qed
qed

lemma isbadqid_ok: "qrel t n Q W \<Longrightarrow> q \<in> qids n \<Longrightarrow> \<not> isbadqid q"
  using qrelD by (fastforce simp: isbadqid_def)

lemma enqueue_ok:
  assumes rel: "qrel (queuetab s) n Q W" and q: "q \<in> qids n"
    and pid: "\<not> isbadpid s pid" "W pid = None"
  shows "\<exists>t. enqueue pid q s = Some (pid, s\<lparr>queuetab := t\<rparr>)
    \<and> qrel t n (Q(q := Q q @ [pid])) (W(pid := Some q))
    \<and> (\<forall>x. qkey (t x) = qkey (queuetab s x))"
proof -
  note D = qrelD(4,5) [OF rel q]
  have pb: "0 \<le> pid" "pid < 100" using pid by (auto simp: isbadpid_def)
  define p where "p = last (q # Q q)"
  have pv: "qprev (queuetab s (q + 1)) = p"
    using isq_ends(2) [OF qrelD(1) [OF rel q]] by (simp only: p_def)
  have pm: "p = q \<or> p \<in> set (Q q)" unfolding p_def by (rule last_node)
  then have pr: "0 \<le> p" "p < 328" using qrel_node [OF rel q] by blast+
  have pn: "pid \<noteq> p" using pm D pb pid(2) qrel_member [OF rel q, of p] by auto
  let ?t = "(queuetab s)(pid := queuetab s pid\<lparr>qnext := q + 1, qprev := p\<rparr>)"
  let ?t1 = "?t(p := ?t p\<lparr>qnext := pid\<rparr>)"
  let ?t2 = "?t1(q + 1 := ?t1 (q + 1)\<lparr>qprev := pid\<rparr>)"
  have "enqueue pid q s = Some (pid, s\<lparr>queuetab := ?t2\<rparr>)"
    using isbadqid_ok [OF rel q] pid(1) pb D pr by (simp add: enqueue_def Let_def pv)
  moreover have "qrel ?t2 n (Q(q := Q q @ pid # [])) (W(pid := Some q))"
    by (rule qrel_link [OF rel q _ pb pid(2) p_def refl]) (use pn pb D in simp_all)
  ultimately show ?thesis by auto
qed

lemma getitem_ok:
  assumes rel: "qrel (queuetab s) n Q W" and q: "q \<in> qids n" and Qq: "Q q = ys @ pid # zs"
  shows "\<exists>t. getitem pid s = Some (pid, s\<lparr>queuetab := t\<rparr>)
    \<and> qrel t n (Q(q := ys @ zs)) (W(pid := None))
    \<and> (\<forall>x. qkey (t x) = qkey (queuetab s x))"
proof -
  note B = qrel_qnext_bounds [OF rel q Qq]
  let ?t0 = "queuetab s"
  let ?p = "qprev (?t0 pid)" and ?c = "qnext (?t0 pid)"
  let ?t1 = "?t0(?p := ?t0 ?p\<lparr>qnext := ?c\<rparr>)"
  let ?t2 = "?t1(?c := ?t1 ?c\<lparr>qprev := ?p\<rparr>)"
  have pb: "0 \<le> pid" "pid < 328" using qrel_node [OF rel q, of pid] Qq by simp_all
  have "getitem pid s = Some (pid, s\<lparr>queuetab := ?t2\<rparr>)"
    using B(1-4) pb by (simp add: getitem_def Let_def)
  moreover have "qrel ?t2 n (Q(q := ys @ zs)) (W(pid := None))"
    by (rule qrel_unlink [OF rel q Qq refl refl]) simp_all
  ultimately show ?thesis by auto
qed

lemma getfirst_ok:
  assumes rel: "qrel (queuetab s) n Q W" and q: "q \<in> qids n"
  shows "Q q = [] \<Longrightarrow> getfirst q s = Some (EMPTY, s)"
    and "Q q = pid # zs \<Longrightarrow> \<exists>t. getfirst q s = Some (pid, s\<lparr>queuetab := t\<rparr>)
      \<and> qrel t n (Q(q := zs)) (W(pid := None)) \<and> (\<forall>x. qkey (t x) = qkey (queuetab s x))"
proof -
  note D = qrelD(4,5) [OF rel q] and E = isempty_ok [OF rel q]
  show "getfirst q s = Some (EMPTY, s)" if "Q q = []"
    using that E by (simp add: getfirst_def)
  show "\<exists>t. getfirst q s = Some (pid, s\<lparr>queuetab := t\<rparr>)
      \<and> qrel t n (Q(q := zs)) (W(pid := None)) \<and> (\<forall>x. qkey (t x) = qkey (queuetab s x))"
    if c: "Q q = pid # zs"
  proof -
    have f: "qnext (queuetab s q) = pid"
      using isq_ends(1) [OF qrelD(1) [OF rel q]] c by simp
    have "getfirst q s = getitem pid s" using E c D f by (simp add: getfirst_def Let_def)
    then show ?thesis using getitem_ok [OF rel q, of "[]"] c by simp
  qed
qed

lemma getlast_ok:
  assumes rel: "qrel (queuetab s) n Q W" and q: "q \<in> qids n"
  shows "Q q = [] \<Longrightarrow> getlast q s = Some (EMPTY, s)"
    and "Q q = ys @ [pid] \<Longrightarrow> \<exists>t. getlast q s = Some (pid, s\<lparr>queuetab := t\<rparr>)
      \<and> qrel t n (Q(q := ys)) (W(pid := None)) \<and> (\<forall>x. qkey (t x) = qkey (queuetab s x))"
proof -
  note D = qrelD(4,5) [OF rel q] and E = isempty_ok [OF rel q]
  show "getlast q s = Some (EMPTY, s)" if "Q q = []"
    using that E by (simp add: getlast_def)
  show "\<exists>t. getlast q s = Some (pid, s\<lparr>queuetab := t\<rparr>)
      \<and> qrel t n (Q(q := ys)) (W(pid := None)) \<and> (\<forall>x. qkey (t x) = qkey (queuetab s x))"
    if c: "Q q = ys @ [pid]"
  proof -
    have f: "qprev (queuetab s (q + 1)) = pid"
      using isq_ends(2) [OF qrelD(1) [OF rel q]] c by simp
    have "getlast q s = getitem pid s" using E c D f by (simp add: getlast_def Let_def)
    then show ?thesis using getitem_ok [OF rel q, of ys pid "[]"] c by simp
  qed
qed

text \<open>Links of a process that is on no queue do not matter.\<close>

lemma qrel_unlinked_upd:
  assumes rel: "qrel t n Q W" and pid: "pid < 100" "W pid = None"
    and eq: "\<And>x. x \<noteq> pid \<Longrightarrow> t' x = t x"
  shows "qrel t' n Q W"
  unfolding qrel_def
proof (intro conjI ballI)
  show "n \<le> 328" "even n" using rel by (auto simp: qrel_def)
next
  fix r assume r: "r \<in> qids n"
  note R = qrelD [OF rel r]
  show "distinct (Q r)" "\<forall>p. p \<in> set (Q r) \<longleftrightarrow> 0 \<le> p \<and> p < 100 \<and> W p = Some r"
    using R(2,3) by simp_all
  have "x \<noteq> pid" if "x = r \<or> x = r + 1 \<or> x \<in> set (Q r)" for x
    using that pid R(3) [of x] R(4) by auto
  then have "t' x = t x" if "x = r \<or> x = r + 1 \<or> x \<in> set (Q r)" for x
    using that eq by blast
  then have "isq t' r (Q r) = isq t r (Q r)" by (rule isq_same)
  then show "isq t' r (Q r)" using R(1) by simp
qed

lemma dequeue_ok:
  assumes rel: "qrel (queuetab s) n Q W" and q: "q \<in> qids n"
  shows "Q q = [] \<Longrightarrow> dequeue q s = Some (EMPTY, s)"
    and "Q q = pid # zs \<Longrightarrow> \<exists>t. dequeue q s = Some (pid, s\<lparr>queuetab := t\<rparr>)
      \<and> qrel t n (Q(q := zs)) (W(pid := None)) \<and> (\<forall>x. qkey (t x) = qkey (queuetab s x))"
proof -
  note bq = isbadqid_ok [OF rel q] and E = isempty_ok [OF rel q]
  show "dequeue q s = Some (EMPTY, s)" if "Q q = []"
    using that E bq by (simp add: dequeue_def)
  show "\<exists>t. dequeue q s = Some (pid, s\<lparr>queuetab := t\<rparr>)
      \<and> qrel t n (Q(q := zs)) (W(pid := None)) \<and> (\<forall>x. qkey (t x) = qkey (queuetab s x))"
    if c: "Q q = pid # zs"
  proof -
    obtain t where g: "getfirst q s = Some (pid, s\<lparr>queuetab := t\<rparr>)"
      and r: "qrel t n (Q(q := zs)) (W(pid := None))" "\<forall>x. qkey (t x) = qkey (queuetab s x)"
      using getfirst_ok(2) [OF rel q c] by blast
    have pb: "0 \<le> pid" "pid < 100" using qrel_member [OF rel q, of pid] c by simp_all
    let ?t = "t(pid := t pid\<lparr>qprev := EMPTY, qnext := EMPTY\<rparr>)"
    have "qrel ?t n (Q(q := zs)) (W(pid := None))"
      by (rule qrel_unlinked_upd [OF r(1) pb(2)]) simp_all
    moreover have "dequeue q s = Some (pid, s\<lparr>queuetab := ?t\<rparr>)"
      using E bq c pb g by (simp add: dequeue_def)
    ultimately show ?thesis using r(2) by auto
  qed
qed


subsection \<open>Priority insertion\<close>

text \<open>
  On a chain whose last node carries a key below \<open>key\<close> the loop of \<open>insert\<close> stops,
  in front of the first node with a smaller key.
\<close>

lemma insert_loop_stop:
  assumes "dchain t a xs b" "qkey (t b) < key"
    and "\<And>x. x \<in> set xs \<Longrightarrow> 0 \<le> x \<and> x < 328" "0 \<le> b" "b < 328"
  shows "insert_loop t key (hd (xs @ [b])) = Some (hd (dropWhile (\<lambda>x. key \<le> qkey (t x)) xs @ [b]))"
  using assms
proof (induction xs arbitrary: a)
  case Nil
  then show ?case by (subst insert_loop.simps) simp
next
  case (Cons x xs)
  have "qnext (t x) = hd (xs @ [b])" using Cons.prems(1) dchain_next by auto
  then show ?case using Cons
    by (subst insert_loop.simps) (auto simp: Cons.IH [of x])
qed

lemma insert_q_ok:
  assumes rel: "qrel (queuetab s) n Q W" and q: "q \<in> qids n"
    and pid: "\<not> isbadpid s pid" "W pid = None" and key: "MINKEY < key"
  shows "\<exists>t. insert_q pid q key s = Some (OK, s\<lparr>queuetab := t\<rparr>)
    \<and> qrel t n (Q(q := takeWhile (\<lambda>x. key \<le> qkey (queuetab s x)) (Q q) @ pid #
                        dropWhile (\<lambda>x. key \<le> qkey (queuetab s x)) (Q q))) (W(pid := Some q))
    \<and> (\<forall>x. qkey (t x) = (if x = pid then key else qkey (queuetab s x)))"
proof -
  note D = qrelD(4,5) [OF rel q] and I = qrelD(1) [OF rel q]
  let ?P = "\<lambda>x. key \<le> qkey (queuetab s x)"
  define ys where "ys = takeWhile ?P (Q q)"
  define zs where "zs = dropWhile ?P (Q q)"
  have Qq: "Q q = ys @ zs" by (simp add: ys_def zs_def)
  have pb: "0 \<le> pid" "pid < 100" using pid by (auto simp: isbadpid_def)
  define p where "p = last (q # ys)"
  define c where "c = hd (zs @ [q + 1])"
  have pm: "p = q \<or> p \<in> set (Q q)" unfolding p_def using last_node [of q ys] Qq by auto
  have cm: "c = q + 1 \<or> c \<in> set (Q q)" unfolding c_def using hd_node [of zs "q + 1"] Qq by auto
  have pr: "0 \<le> p" "p < 328" "0 \<le> c" "c < 328" using pm cm qrel_node [OF rel q] by blast+
  have pn: "pid \<noteq> p" "pid \<noteq> c"
    using pm cm D pb pid(2) qrel_member [OF rel q, of p] qrel_member [OF rel q, of c] by auto
  have ch: "dchain (queuetab s) q (ys @ zs) (q + 1)" using I Qq by (simp add: isq_def)
  have "c = hd (zs @ [q + 1])" by (simp add: c_def)
  then have pv: "qprev (queuetab s c) = p"
  proof (cases zs)
    case Nil
    then show ?thesis using ch dchain_prev by (simp add: c_def p_def)
  next
    case (Cons z zs')
    then have "dchain (queuetab s) q ys z" using ch by (simp add: dchain_append)
    then show ?thesis using dchain_prev Cons by (simp add: c_def p_def)
  qed
  have f: "qnext (queuetab s q) = hd (Q q @ [q + 1])" using isq_ends(1) [OF I] .
  have lp: "insert_loop (queuetab s) key (hd (Q q @ [q + 1])) = Some c"
    unfolding c_def zs_def
    by (rule insert_loop_stop)
      (use I key qrel_node [OF rel q] in \<open>auto simp: isq_def\<close>)
  let ?t = "(queuetab s)(pid := queuetab s pid\<lparr>qnext := c, qprev := p, qkey := key\<rparr>)"
  let ?t1 = "?t(p := ?t p\<lparr>qnext := pid\<rparr>)"
  let ?t2 = "?t1(c := ?t1 c\<lparr>qprev := pid\<rparr>)"
  have "insert_q pid q key s = Some (OK, s\<lparr>queuetab := ?t2\<rparr>)"
    using isbadqid_ok [OF rel q] pid(1) pb D pr
    by (simp add: insert_q_def Let_def firstid_def f lp pv)
  moreover have "qrel ?t2 n (Q(q := ys @ pid # zs)) (W(pid := Some q))"
    by (rule qrel_link [OF rel q Qq pb pid(2) p_def c_def]) (use pn pb D in simp_all)
  ultimately show ?thesis using pn unfolding ys_def zs_def by auto
qed

text \<open>Descending keys, equal keys in order of arrival.\<close>

definition desc :: "(int \<Rightarrow> int) \<Rightarrow> int list \<Rightarrow> bool" where
  "desc k xs \<longleftrightarrow> sorted_wrt (\<lambda>x y. k x \<ge> k y) xs"

lemma desc_cong: "(\<And>x. x \<in> set xs \<Longrightarrow> k' x = k x) \<Longrightarrow> desc k' xs = desc k xs"
  unfolding desc_def by (induction xs) auto

lemma desc_sub: "desc k (ys @ x # zs) \<Longrightarrow> desc k (ys @ zs)"
  by (auto simp: desc_def sorted_wrt_append)

lemma desc_Cons [simp]: "desc k (x # xs) \<longleftrightarrow> (\<forall>y\<in>set xs. k y \<le> k x) \<and> desc k xs"
  by (simp add: desc_def)

lemma desc_Nil [simp]: "desc k []"
  by (simp add: desc_def)

lemma desc_insert_same:
  "desc k xs \<Longrightarrow>
   desc k (takeWhile (\<lambda>x. k pid \<le> k x) xs @ pid # dropWhile (\<lambda>x. k pid \<le> k x) xs)"
proof (induction xs)
  case (Cons x xs)
  then show ?case
    by (auto dest: set_takeWhileD set_dropWhileD)
qed simp

lemma desc_insert:
  assumes "desc k xs" "\<And>x. x \<in> set xs \<Longrightarrow> k' x = k x" "k' pid = key"
  shows "desc k' (takeWhile (\<lambda>x. key \<le> k x) xs @ pid # dropWhile (\<lambda>x. key \<le> k x) xs)"
proof -
  have "desc k' xs" using assms(1) desc_cong [of xs k' k] assms(2) by simp
  moreover have "takeWhile (\<lambda>x. key \<le> k x) xs = takeWhile (\<lambda>x. k' pid \<le> k' x) xs"
    "dropWhile (\<lambda>x. key \<le> k x) xs = dropWhile (\<lambda>x. k' pid \<le> k' x) xs"
    using assms(2,3) by (auto intro: takeWhile_cong dropWhile_cong)
  ultimately show ?thesis using desc_insert_same [of k' xs pid] by simp
qed

text \<open>With sorted keys the split is a filter: the insertion is stable.\<close>

lemma desc_takeWhile:
  assumes "desc k xs"
  shows "takeWhile (\<lambda>x. key \<le> k x) xs = filter (\<lambda>x. key \<le> k x) xs"
    and "dropWhile (\<lambda>x. key \<le> k x) xs = filter (\<lambda>x. k x < key) xs"
proof -
  have "takeWhile (\<lambda>x. key \<le> k x) xs = filter (\<lambda>x. key \<le> k x) xs
      \<and> dropWhile (\<lambda>x. key \<le> k x) xs = filter (\<lambda>x. k x < key) xs"
    using assms
  proof (induction xs)
    case (Cons x xs)
    show ?case
    proof (cases "key \<le> k x")
      case False
      then have "\<forall>y\<in>set (x # xs). k y < key" using Cons.prems by fastforce
      then have "filter (\<lambda>x. key \<le> k x) (x # xs) = []" "filter (\<lambda>x. k x < key) (x # xs) = x # xs"
        by (auto simp: filter_empty_conv filter_id_conv)
      then show ?thesis using False by simp
    qed (use Cons in auto)
  qed simp
  then show "takeWhile (\<lambda>x. key \<le> k x) xs = filter (\<lambda>x. key \<le> k x) xs"
    and "dropWhile (\<lambda>x. key \<le> k x) xs = filter (\<lambda>x. k x < key) xs" by blast+
qed

subsection \<open>The delta list\<close>

text \<open>
  The key of an entry of the sleep queue is the delay after the entry before it.
  \<open>wake k a xs\<close> gives every process the time at which it wakes up, counted from \<open>a\<close>.
\<close>

fun wake :: "(int \<Rightarrow> int) \<Rightarrow> int \<Rightarrow> int list \<Rightarrow> (int \<times> int) list" where
  "wake k a [] = []"
| "wake k a (x # xs) = (x, a + k x) # wake k (a + k x) xs"

fun dtake :: "(int \<Rightarrow> int) \<Rightarrow> int \<Rightarrow> int list \<Rightarrow> int list" where
  "dtake k key [] = []"
| "dtake k key (x # xs) = (if k x \<le> key then x # dtake k (key - k x) xs else [])"

fun drest :: "(int \<Rightarrow> int) \<Rightarrow> int \<Rightarrow> int list \<Rightarrow> int list" where
  "drest k key [] = []"
| "drest k key (x # xs) = (if k x \<le> key then drest k (key - k x) xs else x # xs)"

abbreviation (input) ksum :: "(int \<Rightarrow> int) \<Rightarrow> int list \<Rightarrow> int" where
  "ksum k xs \<equiv> sum_list (map k xs)"

lemma dtake_drest: "dtake k key xs @ drest k key xs = xs"
  by (induction k key xs rule: dtake.induct) auto

lemma wake_append: "wake k a (xs @ ys) = wake k a xs @ wake k (a + ksum k xs) ys"
  by (induction xs arbitrary: a) (auto simp: add.assoc)

lemma wake_cong: "(\<And>x. x \<in> set xs \<Longrightarrow> k' x = k x) \<Longrightarrow> wake k' a xs = wake k a xs"
  by (induction xs arbitrary: a) auto

lemma map_fst_wake [simp]: "map fst (wake k a xs) = xs"
  by (induction xs arbitrary: a) auto

lemma wake_split:
  "takeWhile (\<lambda>(_, w). w \<le> a + key) (wake k a xs) = wake k a (dtake k key xs)"
  "dropWhile (\<lambda>(_, w). w \<le> a + key) (wake k a xs) = wake k (a + ksum k (dtake k key xs)) (drest k key xs)"
proof (induction k key xs arbitrary: a rule: dtake.induct)
  case (2 k key x xs)
  { case 1 show ?case using "2.IH"(1) [of "a + k x"] by (auto simp: algebra_simps) }
  { case 2 show ?case using "2.IH"(2) [of "a + k x"] by (auto simp: algebra_simps) }
qed simp_all

lemma dtake_left: "0 \<le> key \<Longrightarrow> 0 \<le> key - ksum k (dtake k key xs)"
  by (induction k key xs rule: dtake.induct) auto

lemma drest_less: "drest k key xs = z # zs \<Longrightarrow> key - ksum k (dtake k key xs) < k z"
  by (induction k key xs rule: dtake.induct) (auto split: if_splits)

lemma insertd_loop_stop:
  assumes "dchain t a xs (q + 1)" "\<And>x. x \<in> set xs \<Longrightarrow> 0 \<le> x \<and> x < 328 \<and> x \<noteq> q + 1"
    and "\<And>x. x \<in> set xs \<Longrightarrow> 0 \<le> qkey (t x)" "0 \<le> key" "key < 2 ^ 31"
  shows "insertd_loop t q key a (hd (xs @ [q + 1])) =
    (let ys = dtake (\<lambda>x. qkey (t x)) key xs
     in Some (key - ksum (\<lambda>x. qkey (t x)) ys, last (a # ys),
              hd (drest (\<lambda>x. qkey (t x)) key xs @ [q + 1])))"
  using assms
proof (induction xs arbitrary: a key)
  case Nil
  then show ?case by (subst insertd_loop.simps) simp
next
  case (Cons x xs)
  have nx: "qnext (t x) = hd (xs @ [q + 1])" using Cons.prems(1) dchain_next by auto
  have b: "0 \<le> qkey (t x)" "0 \<le> x" "x < 328" "x \<noteq> q + 1" using Cons.prems by auto
  have IH: "insertd_loop t q (key - qkey (t x)) x (hd (xs @ [q + 1])) =
    (let ys = dtake (\<lambda>x. qkey (t x)) (key - qkey (t x)) xs
     in Some (key - qkey (t x) - ksum (\<lambda>x. qkey (t x)) ys, last (x # ys),
              hd (drest (\<lambda>x. qkey (t x)) (key - qkey (t x)) xs @ [q + 1])))"
    if le: "qkey (t x) \<le> key"
  proof (rule Cons.IH)
    show "key - qkey (t x) < 2 ^ 31" using b(1) Cons.prems(5) by linarith
  qed (use Cons.prems le in simp_all)
  have "in_s32 (key - qkey (t x))" if "qkey (t x) \<le> key"
    using that b Cons.prems(4,5) unfolding in_s32_def by linarith
  then show ?case using IH nx b
    by (subst insertd_loop.simps) (simp add: Let_def)
qed


definition dkeys :: "qtab \<Rightarrow> int list \<Rightarrow> bool" where
  "dkeys t xs \<longleftrightarrow> (\<forall>x\<in>set xs. 0 \<le> qkey (t x) \<and> qkey (t x) < 2 ^ 31)"

lemma insertd_ok:
  assumes rel: "qrel (queuetab s) n Q W" and q: "q \<in> qids n"
    and pid: "\<not> isbadpid s pid" "W pid = None"
    and keys: "dkeys (queuetab s) (Q q)" and key: "0 \<le> key" "key < 2 ^ 31"
  defines "k \<equiv> \<lambda>x. qkey (queuetab s x)"
  defines "ys \<equiv> dtake k key (Q q)" and "zs \<equiv> drest k key (Q q)"
  shows "\<exists>t. insertd pid q key s = Some (OK, s\<lparr>queuetab := t\<rparr>)
    \<and> qrel t n (Q(q := ys @ pid # zs)) (W(pid := Some q))
    \<and> (\<forall>x. qkey (t x) = (if x = pid then key - ksum k ys
          else if zs \<noteq> [] \<and> x = hd zs then k x - (key - ksum k ys) else k x))"
proof -
  note D = qrelD(4,5) [OF rel q] and I = qrelD(1) [OF rel q]
  have Qq: "Q q = ys @ zs" by (simp add: ys_def zs_def dtake_drest)
  have pb: "0 \<le> pid" "pid < 100" using pid by (auto simp: isbadpid_def)
  define p where "p = last (q # ys)"
  define c where "c = hd (zs @ [q + 1])"
  define left where "left = key - ksum k ys"
  have pm: "p = q \<or> p \<in> set (Q q)" unfolding p_def using last_node [of q ys] Qq by auto
  have cm: "c = q + 1 \<or> c \<in> set (Q q)" unfolding c_def using hd_node [of zs "q + 1"] Qq by auto
  have pr: "0 \<le> p" "p < 328" "0 \<le> c" "c < 328" using pm cm qrel_node [OF rel q] by blast+
  have pn: "pid \<noteq> p" "pid \<noteq> c"
    using pm cm D pb pid(2) qrel_member [OF rel q, of p] qrel_member [OF rel q, of c] by auto
  have pc: "p \<noteq> c"
  proof -
    have "q \<notin> set zs" "q + 1 \<notin> set ys" using qrelD(6,7) [OF rel q] Qq by auto
    moreover have "set ys \<inter> set zs = {}" using qrelD(2) [OF rel q] Qq by simp
    ultimately show ?thesis
      using last_node [of q ys] hd_node [of zs "q + 1"] unfolding p_def c_def by auto
  qed
  have f: "qnext (queuetab s q) = hd (Q q @ [q + 1])" using isq_ends(1) [OF I] .
  have lp: "insertd_loop (queuetab s) q key q (hd (Q q @ [q + 1])) = Some (left, p, c)"
  proof -
    have nodes: "0 \<le> x \<and> x < 328 \<and> x \<noteq> q + 1" if "x \<in> set (Q q)" for x
      using qrel_node [OF rel q] qrelD(7) [OF rel q] that by auto
    have "dchain (queuetab s) q (Q q) (q + 1)" using I by (simp add: isq_def)
    from insertd_loop_stop [OF this nodes _ key] keys show ?thesis
      by (simp add: Let_def dkeys_def left_def p_def c_def ys_def zs_def k_def del: last.simps)
  qed
  let ?t = "(queuetab s)(pid := queuetab s pid\<lparr>qnext := c, qprev := p, qkey := left\<rparr>)"
  let ?t1 = "?t(p := ?t p\<lparr>qnext := pid\<rparr>)"
  let ?t2 = "?t1(c := ?t1 c\<lparr>qprev := pid\<rparr>)"
  let ?t3 = "if c = q + 1 then ?t2 else ?t2(c := ?t2 c\<lparr>qkey := k c - left\<rparr>)"
  have czs: "c = q + 1 \<longleftrightarrow> zs = []"
    unfolding c_def using qrelD(7) [OF rel q] Qq by (cases zs) auto
  have kc: "in_s32 (k c - left)" if "c \<noteq> q + 1"
  proof -
    have "zs \<noteq> []" using that czs by blast
    then obtain z zs' where z: "zs = z # zs'" by (cases zs) blast+
    have "left < k c" using drest_less [of k key "Q q" z zs'] z
      by (simp add: left_def ys_def zs_def c_def)
    moreover have "0 \<le> left" unfolding left_def ys_def by (rule dtake_left [OF key(1)])
    moreover have "k c < 2 ^ 31" using keys cm that by (auto simp: dkeys_def k_def)
    ultimately show ?thesis by (simp add: in_s32_def)
  qed
  have "insertd pid q key s = Some (OK, s\<lparr>queuetab := ?t3\<rparr>)"
    using isbadqid_ok [OF rel q] pid(1) pb D pr pn pc kc
    by (simp add: insertd_def f lp k_def)
  moreover have "qrel ?t3 n (Q(q := ys @ pid # zs)) (W(pid := Some q))"
  proof (rule qrel_link [OF rel q Qq pb pid(2) p_def c_def])
    show "qkey (?t3 x) = qkey (queuetab s x)" if "100 \<le> x" for x
    proof (cases "c = q + 1")
      case False
      then have "c < 100" using cm qrel_member [OF rel q, of c] by auto
      then show ?thesis using that pb by simp
    qed (use that pb in simp)
  qed (use pn pc in simp_all)
  moreover have "qkey (?t3 x) = (if x = pid then left
      else if zs \<noteq> [] \<and> x = hd zs then k x - left else k x)" for x
    using pn czs by (cases "zs = []") (auto simp: k_def c_def)
  ultimately show ?thesis unfolding left_def by blast
qed

text \<open>
  In wake-up times: the new process enters with the time asked for, behind every process
  that wakes no later, and nobody else's time changes.
\<close>

lemma wake_insertd:
  assumes "distinct (xs)" "pid \<notin> set xs"
    and "\<And>x. k' x = (if x = pid then key - ksum k (dtake k key xs)
      else if drest k key xs \<noteq> [] \<and> x = hd (drest k key xs) then k x - (key - ksum k (dtake k key xs)) else k x)"
  shows "wake k' 0 (dtake k key xs @ pid # drest k key xs) =
    takeWhile (\<lambda>(_, w). w \<le> key) (wake k 0 xs) @ (pid, key) # dropWhile (\<lambda>(_, w). w \<le> key) (wake k 0 xs)"
proof -
  define ys zs where "ys = dtake k key xs" and "zs = drest k key xs"
  have x: "xs = ys @ zs" by (simp add: ys_def zs_def dtake_drest)
  have k': "k' x = (if x = pid then key - ksum k ys
      else if zs \<noteq> [] \<and> x = hd zs then k x - (key - ksum k ys) else k x)" for x
    using assms(3) by (simp add: ys_def zs_def)
  have ky: "k' y = k y" if "y \<in> set ys" for y
    using that assms(1,2) x k' by (cases zs) auto
  then have "ksum k' ys = ksum k ys" "wake k' 0 ys = wake k 0 ys"
    by (auto intro: wake_cong arg_cong [where f = sum_list])
  moreover have "wake k' key zs = wake k (ksum k ys) zs"
  proof (cases zs)
    case (Cons z zs')
    then have "k' y = k y" if "y \<in> set zs'" for y
      using that assms(1,2) x k' by auto
    then have "wake k' (ksum k ys + k z) zs' = wake k (ksum k ys + k z) zs'" by (rule wake_cong)
    moreover have "z \<noteq> pid" using assms(2) x Cons by auto
    ultimately show ?thesis using Cons k' by (simp add: add.commute)
  qed simp
  ultimately have "wake k' 0 (ys @ pid # zs) = wake k 0 ys @ (pid, key) # wake k (ksum k ys) zs"
    using k' [of pid] by (simp add: wake_append)
  moreover have "takeWhile (\<lambda>(_, w). w \<le> key) (wake k 0 xs) = wake k 0 ys"
    "dropWhile (\<lambda>(_, w). w \<le> key) (wake k 0 xs) = wake k (ksum k ys) zs"
    using wake_split [of 0 key k xs] by (simp_all add: ys_def zs_def)
  ultimately show ?thesis by (simp add: ys_def zs_def)
qed


text \<open>Taking a sleeper out, after its delay was added to the next one's: the rest keep their times.\<close>

lemma wake_unsleep:
  assumes "distinct (ys @ pid # zs)"
    and "\<And>x. k' x = (if zs \<noteq> [] \<and> x = hd zs then k x + k pid else k x)"
  shows "wake k' 0 (ys @ zs) = filter (\<lambda>(x, _). x \<noteq> pid) (wake k 0 (ys @ pid # zs))"
proof -
  have fst: "filter (\<lambda>(x, _). x \<noteq> pid) (wake k a xs) = wake k a xs" if "pid \<notin> set xs" for a xs
    using that by (induction xs arbitrary: a) auto
  have y: "k' y = k y" if "y \<in> set ys" for y
    using that assms by (cases zs) auto
  then have "wake k' 0 ys = wake k 0 ys" "ksum k' ys = ksum k ys"
    by (auto intro: wake_cong arg_cong [where f = sum_list])
  moreover have "wake k' (ksum k ys) zs = wake k (ksum k ys + k pid) zs"
  proof (cases zs)
    case (Cons z zs')
    then have "wake k' a zs' = wake k a zs'" for a
      using assms by (intro wake_cong) auto
    then show ?thesis using Cons assms(2) [of z] by (simp add: algebra_simps)
  qed simp
  ultimately show ?thesis using assms(1) by (simp add: wake_append fst)
qed

subsection \<open>Creating, draining and moving queues\<close>

lemma qids_Suc: "100 \<le> n \<Longrightarrow> even n \<Longrightarrow> qids (n + 2) = insert n (qids n)"
  by (auto simp: qids_def) presburger

lemma newqueue_ok:
  assumes rel: "qrel (queuetab s) n Q W" and n: "n = nextqid s" "100 \<le> n" "n \<le> 326"
    and W: "\<And>p. W p \<noteq> Some n"
  shows "\<exists>t. newqueue s = Some (n, s\<lparr>nextqid := n + 2, queuetab := t\<rparr>)
    \<and> qrel t (n + 2) (Q(n := [])) W \<and> (\<forall>x. x < 100 \<longrightarrow> t x = queuetab s x)"
proof -
  have ev: "even n" using rel by (simp add: qrel_def)
  let ?t = "(queuetab s)(n := queuetab s n\<lparr>qnext := n + 1, qprev := EMPTY, qkey := MAXKEY\<rparr>,
                       n + 1 := queuetab s (n + 1)\<lparr>qnext := EMPTY, qprev := n, qkey := MINKEY\<rparr>)"
  have new: "newqueue s = Some (n, s\<lparr>nextqid := n + 2, queuetab := ?t\<rparr>)"
    using n by (simp add: newqueue_def Let_def fun_upd_twist)
  have other: "x \<noteq> n \<and> x \<noteq> n + 1" if "r \<in> qids n" "x = r \<or> x = r + 1 \<or> x \<in> set (Q r)" for r x
    using that qrel_member [OF rel that(1), of x] n ev by (auto simp: qids_def) presburger
  have keep: "isq ?t r (Q r) = isq (queuetab s) r (Q r)" if r: "r \<in> qids n" for r
  proof -
    have "?t x = queuetab s x" if "x = r \<or> x = r + 1 \<or> x \<in> set (Q r)" for x
      using other [OF r that] by simp
    then show ?thesis by (rule isq_same)
  qed
  have "qrel ?t (n + 2) (Q(n := [])) W"
    unfolding qrel_def qids_Suc [OF n(2) ev]
  proof (intro conjI ballI)
    show "n + 2 \<le> 328" "even (n + 2)" using n ev by simp_all
    fix r assume r: "r \<in> insert n (qids n)"
    have nr: "r \<noteq> n" if "r \<in> qids n" using that by (auto simp: qids_def)
    show "isq ?t r ((Q(n := [])) r)"
    proof (cases "r = n")
      case True
      then show ?thesis by (simp add: isq_def)
    next
      case False
      then show ?thesis using r keep [of r] qrelD(1) [OF rel, of r] by simp
    qed
    show "distinct ((Q(n := [])) r)" using r nr qrelD(2) [OF rel, of r] by auto
    show "\<forall>p. p \<in> set ((Q(n := [])) r) \<longleftrightarrow> 0 \<le> p \<and> p < 100 \<and> W p = Some r"
      using r nr W qrelD(3) [OF rel, of r] by auto
  qed
  then show ?thesis using new n by (intro exI [of _ ?t]) auto
qed

lemma drain_ok:
  assumes "qrel (queuetab s) n Q W" "q \<in> qids n"
  shows "\<exists>t. drain q s = Some (s\<lparr>queuetab := t\<rparr>)
    \<and> qrel t n (Q(q := [])) (\<lambda>p. if W p = Some q \<and> p \<in> set (Q q) then None else W p)
    \<and> (\<forall>x. qkey (t x) = qkey (queuetab s x))"
  using assms
proof (induction "Q q" arbitrary: s Q W)
  case Nil
  then have e: "isempty q s = Some True" using isempty_ok by fastforce
  have "Q(q := []) = Q" using Nil(1) by (simp add: fun_upd_idem_iff)
  moreover have "drain q s = Some s" by (subst drain.simps) (simp add: e)
  ultimately show ?case using Nil by (intro exI [of _ "queuetab s"]) simp
next
  case (Cons x xs)
  have "Q q \<noteq> []" using Cons.hyps(2) by (metis list.discI)
  then have e: "isempty q s = Some False" using isempty_ok [OF Cons.prems] by simp
  obtain t where d: "dequeue q s = Some (x, s\<lparr>queuetab := t\<rparr>)"
    and r: "qrel t n (Q(q := xs)) (W(x := None))" and k: "\<forall>y. qkey (t y) = qkey (queuetab s y)"
    using dequeue_ok(2) [OF Cons.prems Cons.hyps(2) [symmetric]] by blast
  have xs: "x \<notin> set xs" using qrelD(2) [OF Cons.prems] Cons.hyps(2) by (metis distinct.simps(2))
  have eq: "(\<lambda>p. if (W(x := None)) p = Some q \<and> p \<in> set xs then None else (W(x := None)) p)
      = (\<lambda>p. if W p = Some q \<and> p \<in> set (Q q) then None else W p)"
    using Cons.hyps(2) [symmetric] xs qrel_member [OF Cons.prems, of x] by (auto simp: fun_eq_iff)
  obtain t' where "drain q (s\<lparr>queuetab := t\<rparr>) = Some (s\<lparr>queuetab := t'\<rparr>)"
    "qrel t' n (Q(q := [])) (\<lambda>p. if W p = Some q \<and> p \<in> set (Q q) then None else W p)"
    "\<forall>y. qkey (t' y) = qkey (t y)"
    using Cons.hyps(1) [of "Q(q := xs)" "s\<lparr>queuetab := t\<rparr>" "W(x := None)"] r Cons.prems(2)
    unfolding eq [symmetric] by auto
  then show ?case using k e d
    by (intro exI [of _ t']) (simp add: drain.simps [of q s])
qed


text \<open>
  \<open>copyqueue\<close> with a nonempty source moves the whole list; the processes that were on the
  destination end up on no queue.
\<close>

lemma copyqueue_ok:
  assumes rel: "qrel (queuetab s) n Q W" and qs: "src \<in> qids n" "dst \<in> qids n" "src \<noteq> dst"
    and ne: "Q src \<noteq> []"
  shows "\<exists>t. copyqueue src dst s = Some (s\<lparr>queuetab := t\<rparr>)
    \<and> qrel t n (Q(dst := Q src, src := []))
        (\<lambda>p. if p \<in> set (Q dst) then None else if p \<in> set (Q src) then Some dst else W p)
    \<and> (\<forall>x. qkey (t x) = qkey (queuetab s x))"
proof -
  obtain t0 where dr: "drain dst s = Some (s\<lparr>queuetab := t0\<rparr>)"
    and r0: "qrel t0 n (Q(dst := [])) (\<lambda>p. if W p = Some dst \<and> p \<in> set (Q dst) then None else W p)"
    and k0: "\<forall>x. qkey (t0 x) = qkey (queuetab s x)"
    using drain_ok [OF rel qs(2)] by blast
  let ?Q = "Q(dst := [])"
  let ?f = "hd (Q src)" and ?l = "last (Q src)"
  have Qs: "?Q src = Q src" using qs(3) by simp
  note S = qrelD [OF r0 qs(1), unfolded Qs] and Dd = qrelD(4,5) [OF rel qs(2)]
  have fm: "?f \<in> set (Q src)" "?l \<in> set (Q src)" using ne by simp_all
  have fb: "0 \<le> ?f" "?f < 100" "0 \<le> ?l" "?l < 100"
    using qrel_member [OF rel qs(1)] fm by blast+
  have ends: "qnext (t0 src) = ?f" "qprev (t0 (src + 1)) = ?l"
    using isq_ends [OF S(1)] ne by simp_all
  have ap: "src \<noteq> dst" "src + 1 \<noteq> dst" "src \<noteq> dst + 1"
    using qs qids_apart [OF qs(1,2,3)] by auto
  let ?t1 = "t0(src := t0 src\<lparr>qnext := src + 1\<rparr>, src + 1 := t0 (src + 1)\<lparr>qprev := src\<rparr>,
                dst := t0 dst\<lparr>qnext := ?f\<rparr>)"
  let ?t2 = "?t1(?f := ?t1 ?f\<lparr>qprev := dst\<rparr>)"
  let ?t3 = "?t2(dst + 1 := ?t2 (dst + 1)\<lparr>qprev := ?l\<rparr>)"
  let ?t4 = "?t3(?l := ?t3 ?l\<lparr>qnext := dst + 1\<rparr>)"
  define t4 where "t4 = ?t4"
  have run: "copyqueue src dst s = Some (s\<lparr>queuetab := t4\<rparr>)"
    unfolding t4_def using S(4,5) Dd fb ap
    by (simp add: copyqueue_def dr firstid_def lastid_def ends del: fun_upd_apply)
      (simp add: ends)
  have nx: "qnext (t4 x) = (if x = ?l then dst + 1 else if x = src then src + 1
      else if x = dst then ?f else qnext (t0 x))" for x
    unfolding t4_def using S(4,5) Dd fb ap by simp
  have pv: "qprev (t4 x) = (if x = dst + 1 then ?l else if x = ?f then dst
      else if x = src + 1 then src else qprev (t0 x))" for x
    unfolding t4_def using S(4,5) Dd fb ap by simp
  have ky: "qkey (t4 x) = qkey (t0 x)" for x unfolding t4_def by simp
  have "qrel t4 n (Q(dst := Q src, src := []))
      (\<lambda>p. if p \<in> set (Q dst) then None else if p \<in> set (Q src) then Some dst else W p)"
    unfolding qrel_def
  proof (intro conjI ballI)
    show "n \<le> 328" "even n" using rel by (simp_all add: qrel_def)
    fix r assume r: "r \<in> qids n"
    note R = qrelD [OF rel r] and M = qrel_member [OF rel]
    show "distinct ((Q(dst := Q src, src := [])) r)" using R(2) qrelD(2) [OF rel qs(1)] by simp
    show "\<forall>p. p \<in> set ((Q(dst := Q src, src := [])) r) \<longleftrightarrow> 0 \<le> p \<and> p < 100 \<and>
        (if p \<in> set (Q dst) then None else if p \<in> set (Q src) then Some dst else W p) = Some r"
      using R(3) qrelD(3) [OF rel qs(1)] qrelD(3) [OF rel qs(2)] qs(3) by auto
    show "isq t4 r ((Q(dst := Q src, src := [])) r)"
    proof (cases "r = dst")
      case True
      have qrel_off: "x \<noteq> src \<and> x \<noteq> dst \<and> x \<noteq> dst + 1 \<and> x \<noteq> src + 1" if "x \<in> set (Q src)" for x
        using qrel_member [OF rel qs(1) that] S(4) Dd by auto
      have "dchain t4 dst (Q src) (dst + 1)"
      proof (rule dchain_rebase [of t0 src "Q src" "src + 1"])
        show "dchain t0 src (Q src) (src + 1)" using S(1) by (simp add: isq_def)
      qed (use ne S(2,4-7) fb Dd ap qrelD(4-7) [OF rel qs(1)] fm qrel_off in \<open>simp_all add: nx pv\<close>)
      then show ?thesis using True qrelD(1) [OF r0 qs(2)] qs(3) ky by (simp add: isq_def)
    next
      case False
      show ?thesis
      proof (cases "r = src")
        case True
        then show ?thesis using S(1,4) fb Dd ap ky nx [of src] pv [of "src + 1"]
          by (simp add: isq_def)
      next
        case nsrc: False
        have off: "x \<noteq> src \<and> x \<noteq> dst \<and> x \<noteq> ?f \<and> x \<noteq> ?l \<and> x \<noteq> src + 1 \<and> x \<noteq> dst + 1"
          if "x = r \<or> x = r + 1 \<or> x \<in> set (Q r)" for x
          using qrel_nodes_apart [OF rel r qs(1) nsrc that] qrel_nodes_apart [OF rel r qs(2) False that]
            fm by blast
        have "isq t4 r (Q r) = isq t0 r (Q r)"
          by (rule isq_cong) (use off nx pv ky in \<open>auto \<close>)
        then show ?thesis using qrelD(1) [OF r0 r] False nsrc by simp
      qed
    qed
  qed
  then show ?thesis using run k0 ky by (intro exI [of _ t4]) simp
qed

end
