(* ===== verification/SchedInv.thy ===== *)
theory SchedInv
  imports Sched
begin

text \<open>
  The invariant of the kernel tables and its preservation by the scheduler.  \<open>kpre\<close> is
  what holds while a system call runs, when the calling process may already have left the
  state \<open>PR_CURR\<close>; \<open>kinv\<close> is what holds whenever no rescheduling is pending.
\<close>

section \<open>What rescheduling and accounting leave alone\<close>

text \<open>
  The fields the scheduler may write, erased.  A process the scheduler can run is in one of
  two states, which count as one here.
\<close>

definition rstate :: "pstate \<Rightarrow> pstate" where
  "rstate st = (if st = PR_CURR then PR_READY else st)"

definition perase :: "procent \<Rightarrow> procent" where
  "perase e = e\<lparr>prstate := rstate (prstate e), prprio := 0, timestatein := ztime, statetimes := (\<lambda>_ _. ztime)\<rparr>"

definition kerase :: "kernel \<Rightarrow> kernel" where
  "kerase s = s\<lparr>queuetab := (\<lambda>_. \<lparr>qkey = 0, qnext = 0, qprev = 0\<rparr>), proctab := (\<lambda>p. perase (proctab s p)),
     currpid := 0, readycount := 0, attempt := False, preempt := 0, mstime_now := ztime,
     state_times := (\<lambda>_ _. ztime), randx := 0\<rparr>"

definition sframe :: "kernel \<Rightarrow> kernel \<Rightarrow> bool" where
  "sframe s s' \<longleftrightarrow> kerase s' = kerase s"

lemma kerase_queuetab [simp]: "kerase (s\<lparr>queuetab := t\<rparr>) = kerase s"
  by (simp add: kerase_def)

lemma sframe_queuetab [simp]:
  "sframe s (s'\<lparr>queuetab := t\<rparr>) = sframe s s'" "sframe (s\<lparr>queuetab := t\<rparr>) s' = sframe s s'"
  by (simp_all add: sframe_def)

lemma sframe_refl [simp]: "sframe s s"
  by (simp add: sframe_def)

lemma sframe_trans: "sframe s t \<Longrightarrow> sframe t u \<Longrightarrow> sframe s u"
  by (simp add: sframe_def)

lemma perase_fields:
  assumes "perase e' = perase e"
  shows "prprio0 e' = prprio0 e" "prstkptr e' = prstkptr e" "prstkbase e' = prstkbase e" "prstklen e' = prstklen e"
    "prname e' = prname e" "prsem e' = prsem e" "prparent e' = prparent e" "prmsg e' = prmsg e"
    "prhasmsg e' = prhasmsg e" "prdesc e' = prdesc e" "rstate (prstate e') = rstate (prstate e)"
  using arg_cong [where f = prprio0, OF assms] arg_cong [where f = prstkptr, OF assms] arg_cong [where f = prstkbase, OF assms]
    arg_cong [where f = prstklen, OF assms] arg_cong [where f = prname, OF assms]
    arg_cong [where f = prsem, OF assms] arg_cong [where f = prparent, OF assms]
    arg_cong [where f = prmsg, OF assms] arg_cong [where f = prhasmsg, OF assms]
    arg_cong [where f = prdesc, OF assms] arg_cong [where f = prstate, OF assms]
  by (simp_all add: perase_def)

lemma sframe_proc: "sframe s s' \<Longrightarrow> perase (proctab s' p) = perase (proctab s p)"
  unfolding sframe_def by (drule arg_cong [where f = proctab]) (auto simp: kerase_def fun_eq_iff)

lemmas sframe_procD = perase_fields [OF sframe_proc]

lemma rstate_simps [simp]:
  "rstate PR_CURR = PR_READY" "rstate PR_READY = PR_READY" "rstate st = PR_FREE \<longleftrightarrow> st = PR_FREE"
  "rstate st = PR_RECV \<longleftrightarrow> st = PR_RECV" "rstate st = PR_SLEEP \<longleftrightarrow> st = PR_SLEEP"
  "rstate st = PR_SUSP \<longleftrightarrow> st = PR_SUSP" "rstate st = PR_WAIT \<longleftrightarrow> st = PR_WAIT"
  "rstate st = PR_RECTIM \<longleftrightarrow> st = PR_RECTIM" "rstate st = PR_READY \<longleftrightarrow> st = PR_CURR \<or> st = PR_READY"
  by (auto simp: rstate_def)

lemma sframe_state:
  assumes "sframe s s'"
  shows "prstate (proctab s' p) = PR_FREE \<longleftrightarrow> prstate (proctab s p) = PR_FREE"
    "prstate (proctab s' p) = PR_RECV \<longleftrightarrow> prstate (proctab s p) = PR_RECV"
    "prstate (proctab s' p) = PR_SLEEP \<longleftrightarrow> prstate (proctab s p) = PR_SLEEP"
    "prstate (proctab s' p) = PR_SUSP \<longleftrightarrow> prstate (proctab s p) = PR_SUSP"
    "prstate (proctab s' p) = PR_WAIT \<longleftrightarrow> prstate (proctab s p) = PR_WAIT"
    "prstate (proctab s' p) = PR_RECTIM \<longleftrightarrow> prstate (proctab s p) = PR_RECTIM"
  using sframe_procD(11) [OF assms, of p] by (metis rstate_simps)+

lemma sframe_isbadpid: "sframe s s' \<Longrightarrow> isbadpid s' p = isbadpid s p"
  by (simp add: isbadpid_def sframe_state)

lemma sframeD:
  assumes "sframe s s'"
  shows "nextqid s' = nextqid s" "prcount s' = prcount s" "nextpid s' = nextpid s"
    "readylist s' = readylist s" "sleepq s' = sleepq s" "scratchlist s' = scratchlist s"
    "ndefers s' = ndefers s" "semtab s' = semtab s" "nextsem s' = nextsem s"
    "rwbtab s' = rwbtab s" "rwbflags s' = rwbflags s" "nextrwb s' = nextrwb s"
    "clktime s' = clktime s" "count1000 s' = count1000 s" "clktimems s' = clktimems s"
    "envtab s' = envtab s" "debug_mask s' = debug_mask s" "procs_finished s' = procs_finished s"
    "kcont s' = kcont s" "kret s' = kret s" "mem s' = mem s" "heap s' = heap s"
    "porttab s' = porttab s" "ptfree s' = ptfree s"
    "ptnextid s' = ptnextid s" "buftab s' = buftab s" "nbpools s' = nbpools s"
    "marks s' = marks s" "nmarks s' = nmarks s" "mkmutex s' = mkmutex s" "cmdhistory s' = cmdhistory s"
  using assms by (cases s; cases s'; simp add: sframe_def kerase_def)+

text \<open>Accounting in addition leaves states, queues and the current process alone.\<close>

definition aframe :: "kernel \<Rightarrow> kernel \<Rightarrow> bool" where
  "aframe s s' \<longleftrightarrow> sframe s s' \<and> queuetab s' = queuetab s \<and> currpid s' = currpid s
     \<and> readycount s' = readycount s \<and> attempt s' = attempt s \<and> preempt s' = preempt s
     \<and> (\<forall>p. prstate (proctab s' p) = prstate (proctab s p))"

lemma aframeD:
  assumes "aframe s s'"
  shows "sframe s s'" "queuetab s' = queuetab s" "currpid s' = currpid s"
    "readycount s' = readycount s" "attempt s' = attempt s" "preempt s' = preempt s"
    "prstate (proctab s' p) = prstate (proctab s p)"
  using assms by (simp_all add: aframe_def)

lemma aframe_refl [simp]: "aframe s s"
  by (simp add: aframe_def)

lemma aframe_trans: "aframe s t \<Longrightarrow> aframe t u \<Longrightarrow> aframe s u"
  by (auto simp: aframe_def intro: sframe_trans)

lemma isbadpid_cong:
  "(\<And>p. prstate (proctab s' p) = PR_FREE \<longleftrightarrow> prstate (proctab s p) = PR_FREE) \<Longrightarrow>
   isbadpid s' p = isbadpid s p"
  by (simp add: isbadpid_def)

lemma sframe_upd_proc:
  "perase (f (proctab s p)) = perase (proctab s p) \<Longrightarrow>
   sframe s (s\<lparr>proctab := (proctab s)(p := f (proctab s p))\<rparr>)"
  by (auto simp: sframe_def kerase_def fun_eq_iff)

text \<open>The scheduler variable holds one of the three algorithms.\<close>

definition sched_ok :: "kernel \<Rightarrow> bool" where
  "sched_ok s \<longleftrightarrow> 0 \<le> envtab s EV_SCHEDULER \<and> envtab s EV_SCHEDULER < QTYPE_VALS"

lemma sched_ok_sframe: "sframe s s' \<Longrightarrow> sched_ok s' = sched_ok s"
  by (simp add: sched_ok_def sframeD)

lemma record_ok:
  assumes "sched_ok s"
  shows "\<exists>r s'. record_cpuqdata pid s = Some (r, s') \<and> aframe s s' \<and>
    (\<forall>p. prprio (proctab s' p) = prprio (proctab s p)) \<and> randx s' = randx s"
proof (cases "isbadpid s pid")
  case True
  then show ?thesis by (simp add: record_cpuqdata_def)
next
  case False
  then have p: "0 \<le> pid" "pid < 100" by (simp_all add: isbadpid_def)
  show ?thesis using assms False p
    by (simp add: record_cpuqdata_def sched_ok_def cputime_def Let_def aframe_def sframe_def
        kerase_def perase_def fun_eq_iff)
qed


text \<open>
  The priority a running process gets, by the scheduler in force: none for the null process;
  with shortest-job-first the less the more processor time it used, the current stretch
  included; a random one from 1 to 99; or the one it was created with.
\<close>

definition cpu_time :: "int \<Rightarrow> kernel \<Rightarrow> mstime" where
  "cpu_time p s =
     (let t = statetimes (proctab s p) QTYPE_SJF PR_CURR; timein = timestatein (proctab s p);
          now = \<lparr>secs = clktime s, ms = (if clktimems s then u32 (1000 - count1000 s) else 0)\<rparr>;
          d = negtime now timein
      in if secs timein = 0 \<and> ms timein = 0 then t
         else addtime t (if secs d \<le> 0 \<and> ms d \<le> 0 then d\<lparr>ms := 1\<rparr> else d))"

definition new_prio :: "int \<Rightarrow> kernel \<Rightarrow> int" where
  "new_prio p s =
     (if p = NULLPROC then 0
      else if envtab s EV_SCHEDULER = QTYPE_SJF then 32767 - prttime (cpu_time p s) mod 32768
      else if envtab s EV_SCHEDULER = QTYPE_RAND then (rand_next (randx s) div 65536 mod 32768) mod 99 + 1
      else prprio0 (proctab s p) mod 32768)"

lemma INT16_id: "0 \<le> x \<Longrightarrow> x < 32768 \<Longrightarrow> INT16 (u32 x) = x"
  by (simp add: INT16_def)

lemma INT16_u32: "INT16 (u32 x) = x mod 32768"
  by (simp add: INT16_def u32_def mod_mod_cancel)

lemma record_cpu:
  assumes "sched_ok s" "\<not> isbadpid s pid" "envtab s EV_SCHEDULER = QTYPE_SJF" "prstate (proctab s pid) = PR_CURR"
    "record_cpuqdata pid s = Some (r, s')"
  shows "statetimes (proctab s' pid) QTYPE_SJF PR_CURR = cpu_time pid s"
proof -
  have p: "0 \<le> pid" "pid < 100" using assms(2) by (simp_all add: isbadpid_def)
  show ?thesis using assms p
    by (auto simp: record_cpuqdata_def cputime_def cpu_time_def Let_def split: if_splits)
qed

lemma setprio_value:
  assumes "sched_ok s" "\<not> isbadpid s pid" "prstate (proctab s pid) = PR_CURR" "setprio pid s = Some (r, s')"
  shows "r = new_prio pid s"
proof -
  consider "pid = NULLPROC" | "pid \<noteq> NULLPROC" "envtab s EV_SCHEDULER = QTYPE_SJF" | "pid \<noteq> NULLPROC" "envtab s EV_SCHEDULER = QTYPE_RAND"
    | "pid \<noteq> NULLPROC" "envtab s EV_SCHEDULER = QTYPE_PRIORITY"
    using assms(1) by (fastforce simp: sched_ok_def)
  then show ?thesis
  proof cases
    case 1
    then show ?thesis using assms(2,4) by (simp add: setprio_def new_prio_def)
  next
    case 2
    obtain r1 s1 where R: "record_cpuqdata pid s = Some (r1, s1)" using record_ok [OF assms(1)] by blast
    have "0 \<le> INT16 (prttime (cpu_time pid s))" "INT16 (prttime (cpu_time pid s)) < 32768" by (simp_all add: INT16_def)
    then have "INT16 (u32 (32767 - INT16 (prttime (cpu_time pid s)))) = 32767 - INT16 (prttime (cpu_time pid s))"
      by (intro INT16_id) auto
    then show ?thesis using 2 assms(2,4) R record_cpu [OF assms(1,2) 2(2) assms(3) R]
      by (auto simp: setprio_def new_prio_def Let_def INT16_def [of "prttime _"])
  next
    case 3
    define v where "v = rand_next (randx s) div 65536 mod 32768"
    have "0 \<le> v mod 99 + 1" "v mod 99 + 1 < 32768" by (simp_all add: add_strict_increasing2 [of 0] order_less_trans [OF pos_mod_bound [of 99 v]])
    then have "INT16 (u32 (v mod 99 + 1)) = v mod 99 + 1" by (rule INT16_id)
    then show ?thesis using 3 assms(2,4) by (auto simp: setprio_def new_prio_def Let_def rand_def v_def)
  next
    case 4
    then show ?thesis using assms(2,4) by (auto simp: setprio_def new_prio_def Let_def INT16_u32)
  qed
qed

lemma refresh_prio_ok:
  assumes "sched_ok s" "\<not> isbadpid s pid"
  shows "\<exists>s'. refresh_prio pid s = Some s' \<and> aframe s s'
    \<and> 0 \<le> prprio (proctab s' pid) \<and> prprio (proctab s' pid) < 32768
    \<and> (prstate (proctab s pid) = PR_CURR \<longrightarrow> prprio (proctab s' pid) = new_prio pid s)"
proof -
  have p: "0 \<le> pid" "pid < 100" using assms(2) by (simp_all add: isbadpid_def)
  have "\<exists>r s'. setprio pid s = Some (r, s') \<and> aframe s s' \<and> 0 \<le> r \<and> r < 32768"
  proof -
    obtain r s' where "record_cpuqdata pid s = Some (r, s')" "aframe s s'"
      using record_ok [OF assms(1)] by blast
    moreover have "aframe s (snd (rand s))"
      by (simp add: rand_def Let_def aframe_def sframe_def kerase_def)
    ultimately show ?thesis using assms(2)
      by (auto simp: setprio_def Let_def INT16_def split: prod.split)
  qed
  then obtain r s' where r: "setprio pid s = Some (r, s')" "aframe s s'" "0 \<le> r" "r < 32768" by blast
  define s2 where "s2 = s'\<lparr>proctab := (proctab s')(pid := proctab s' pid\<lparr>prprio := s16 r\<rparr>)\<rparr>"
  have "aframe s' s2" unfolding s2_def
    by (auto simp: aframe_def sframe_def kerase_def perase_def fun_eq_iff)
  then have "aframe s s2" by (rule aframe_trans [OF r(2)])
  moreover have "refresh_prio pid s = Some s2" using p r(1) by (simp add: refresh_prio_def s2_def)
  moreover have "prprio (proctab s2 pid) = r" using r(3,4) by (simp add: s2_def)
  moreover have "prstate (proctab s pid) = PR_CURR \<Longrightarrow> r = new_prio pid s" using setprio_value [OF assms _ r(1)] .
  ultimately show ?thesis using r(3,4) by blast
qed

section \<open>The invariant\<close>

text \<open>The queues of the kernel by name, so that they can be told apart.\<close>

datatype qname = QReady | QSleep | QScratch | QSem int | QRwb int

fun qname_ok :: "qname \<Rightarrow> bool" where
  "qname_ok (QSem i) \<longleftrightarrow> 0 \<le> i \<and> i < NSEM"
| "qname_ok (QRwb i) \<longleftrightarrow> 0 \<le> i \<and> i < RWB_COUNT"
| "qname_ok _ \<longleftrightarrow> True"

fun qid_of :: "kernel \<Rightarrow> qname \<Rightarrow> int" where
  "qid_of s QReady = readylist s"
| "qid_of s QSleep = sleepq s"
| "qid_of s QScratch = scratchlist s"
| "qid_of s (QSem i) = squeue (semtab s i)"
| "qid_of s (QRwb i) = rwqueue (rwbtab s i)"

definition layout :: "kernel \<Rightarrow> bool" where
  "layout s \<longleftrightarrow> inj_on (qid_of s) (Collect qname_ok) \<and> qid_of s ` Collect qname_ok \<subseteq> qids (nextqid s)"

text \<open>The queue a process with this entry must be linked on.\<close>

definition pq :: "kernel \<Rightarrow> procent \<Rightarrow> int option" where
  "pq s e = (case prstate e of
       PR_READY \<Rightarrow> Some (readylist s)
     | PR_SLEEP \<Rightarrow> Some (sleepq s)
     | PR_RECTIM \<Rightarrow> Some (sleepq s)
     | PR_WAIT \<Rightarrow> (if prsem e < -1 then Some (rwqueue (rwbtab s (-1 * (prsem e + 2))))
                   else Some (squeue (semtab s (prsem e))))
     | _ \<Rightarrow> None)"

definition pqueue :: "kernel \<Rightarrow> int \<Rightarrow> int option" where
  "pqueue s p = pq s (proctab s p)"

definition wait_ok :: "procent \<Rightarrow> bool" where
  "wait_ok e \<longleftrightarrow> (prstate e = PR_WAIT \<longrightarrow>
     0 \<le> prsem e \<and> prsem e < NSEM \<or> - (RWB_COUNT + 1) \<le> prsem e \<and> prsem e \<le> -2)"

text \<open>The keys of the sleep queue are delays, and the last sleeper wakes within \<open>int32\<close>.\<close>

definition skeys :: "qtab \<Rightarrow> int list \<Rightarrow> bool" where
  "skeys t xs \<longleftrightarrow> (\<forall>x\<in>set xs. 0 \<le> qkey (t x)) \<and> ksum (\<lambda>x. qkey (t x)) xs < 2 ^ 31"

lemma skeys_cong: "(\<And>x. x \<in> set xs \<Longrightarrow> qkey (t' x) = qkey (t x)) \<Longrightarrow> skeys t' xs = skeys t xs"
  by (simp add: skeys_def cong: map_cong)

lemma skeys_dkeys: "skeys t xs \<Longrightarrow> dkeys t xs"
proof -
  assume s: "skeys t xs"
  have "qkey (t x) \<le> ksum (\<lambda>x. qkey (t x)) xs" if "x \<in> set xs" for x
    using that s member_le_sum_list [of "qkey (t x)" "map (\<lambda>x. qkey (t x)) xs"] by (auto simp: skeys_def)
  then show ?thesis using s by (force simp: skeys_def dkeys_def)
qed

text \<open>
  \<open>kgen s Q W\<close>: the tables are well formed, and the queues are the lists \<open>Q\<close> with
  process \<open>p\<close> on queue \<open>W p\<close>.
\<close>

definition kgen :: "kernel \<Rightarrow> (int \<Rightarrow> int list) \<Rightarrow> (int \<Rightarrow> int option) \<Rightarrow> bool" where
  "kgen s Q W \<longleftrightarrow> layout s \<and> sched_ok s \<and> qrel (queuetab s) (nextqid s) Q W
     \<and> 0 \<le> currpid s \<and> currpid s < NPROC
     \<and> (\<forall>p. 0 \<le> p \<and> p < NPROC \<and> prstate (proctab s p) = PR_CURR \<longrightarrow> p = currpid s)
     \<and> (prstate (proctab s NULLPROC) = PR_CURR \<or> prstate (proctab s NULLPROC) = PR_READY)
     \<and> (\<forall>p. 0 \<le> p \<and> p < NPROC \<longrightarrow> wait_ok (proctab s p))
     \<and> desc (\<lambda>x. qkey (queuetab s x)) (Q (readylist s))
     \<and> skeys (queuetab s) (Q (sleepq s))
     \<and> Q (scratchlist s) = []"

text \<open>Every process is where its state says; all but one, which is on no queue; and no rescheduling is due.\<close>

definition kpre :: "kernel \<Rightarrow> (int \<Rightarrow> int list) \<Rightarrow> bool" where
  "kpre s Q \<longleftrightarrow> kgen s Q (pqueue s)"

definition kout :: "int \<Rightarrow> kernel \<Rightarrow> (int \<Rightarrow> int list) \<Rightarrow> bool" where
  "kout p s Q \<longleftrightarrow> kgen s Q ((pqueue s)(p := None))"

definition kinv :: "kernel \<Rightarrow> (int \<Rightarrow> int list) \<Rightarrow> bool" where
  "kinv s Q \<longleftrightarrow> kpre s Q \<and> prstate (proctab s (currpid s)) = PR_CURR"

lemma kgenD:
  assumes "kgen s Q W"
  shows "layout s" "sched_ok s" "qrel (queuetab s) (nextqid s) Q W"
    "0 \<le> currpid s" "currpid s < 100"
    "\<And>p. 0 \<le> p \<Longrightarrow> p < 100 \<Longrightarrow> prstate (proctab s p) = PR_CURR \<Longrightarrow> p = currpid s"
    "prstate (proctab s 0) = PR_CURR \<or> prstate (proctab s 0) = PR_READY"
    "\<And>p. 0 \<le> p \<Longrightarrow> p < 100 \<Longrightarrow> wait_ok (proctab s p)"
    "desc (\<lambda>x. qkey (queuetab s x)) (Q (readylist s))" "Q (scratchlist s) = []"
    "skeys (queuetab s) (Q (sleepq s))"
  using assms by (simp_all add: kgen_def)

lemmas kpreD = kgenD [OF kpre_def [THEN iffD1]]
lemmas koutD = kgenD [OF kout_def [THEN iffD1]]

lemma kinv_kpre: "kinv s Q \<Longrightarrow> kpre s Q"
  by (simp add: kinv_def)

lemma kpre_kout: "kpre s Q \<Longrightarrow> pqueue s p = None \<Longrightarrow> kout p s Q"
  by (simp add: kpre_def kout_def fun_upd_idem)

text \<open>What rescheduling changes of the queues: the ready list only.\<close>

definition qframe :: "kernel \<Rightarrow> (int \<Rightarrow> int list) \<Rightarrow> kernel \<Rightarrow> (int \<Rightarrow> int list) \<Rightarrow> bool" where
  "qframe s Q s' Q' \<longleftrightarrow> (\<forall>q\<in>qids (nextqid s). q \<noteq> readylist s \<longrightarrow>
     Q' q = Q q \<and> (\<forall>x\<in>set (Q q). qkey (queuetab s' x) = qkey (queuetab s x)))"

lemma qframe_refl: "queuetab s' = queuetab s \<Longrightarrow> qframe s Q s' Q"
  by (simp add: qframe_def)

lemma qframe_trans:
  "qframe s Q t R \<Longrightarrow> qframe t R u S \<Longrightarrow> readylist t = readylist s \<Longrightarrow> nextqid t = nextqid s \<Longrightarrow>
   qframe s Q u S"
  by (simp add: qframe_def)

lemma qframeD:
  "qframe s Q s' Q' \<Longrightarrow> q \<in> qids (nextqid s) \<Longrightarrow> q \<noteq> readylist s \<Longrightarrow> Q' q = Q q"
  "qframe s Q s' Q' \<Longrightarrow> q \<in> qids (nextqid s) \<Longrightarrow> q \<noteq> readylist s \<Longrightarrow> x \<in> set (Q q) \<Longrightarrow>
    qkey (queuetab s' x) = qkey (queuetab s x)"
  by (simp_all add: qframe_def)

lemma layout_qids: "layout s \<Longrightarrow> qname_ok nm \<Longrightarrow> qid_of s nm \<in> qids (nextqid s)"
  by (auto simp: layout_def)

lemma layout_inj: "layout s \<Longrightarrow> qname_ok a \<Longrightarrow> qname_ok b \<Longrightarrow> qid_of s a = qid_of s b \<longleftrightarrow> a = b"
  by (auto simp: layout_def inj_on_def)

lemmas layout_ready = layout_qids [of _ QReady, simplified]
lemmas layout_sleep = layout_qids [of _ QSleep, simplified]
lemmas layout_scratch = layout_qids [of _ QScratch, simplified]
lemmas layout_sem = layout_qids [of _ "QSem i" for i, simplified]
lemmas layout_rwb = layout_qids [of _ "QRwb i" for i, simplified]

lemma layout_apart:
  assumes "layout s"
  shows "readylist s \<noteq> sleepq s" "readylist s \<noteq> scratchlist s" "sleepq s \<noteq> scratchlist s"
    "0 \<le> i \<Longrightarrow> i < 100 \<Longrightarrow> squeue (semtab s i) \<noteq> readylist s"
    "0 \<le> i \<Longrightarrow> i < 100 \<Longrightarrow> squeue (semtab s i) \<noteq> sleepq s"
    "0 \<le> i \<Longrightarrow> i < 100 \<Longrightarrow> squeue (semtab s i) \<noteq> scratchlist s"
    "0 \<le> r \<Longrightarrow> r < 10 \<Longrightarrow> rwqueue (rwbtab s r) \<noteq> readylist s"
    "0 \<le> r \<Longrightarrow> r < 10 \<Longrightarrow> rwqueue (rwbtab s r) \<noteq> sleepq s"
    "0 \<le> r \<Longrightarrow> r < 10 \<Longrightarrow> rwqueue (rwbtab s r) \<noteq> scratchlist s"
    "0 \<le> i \<Longrightarrow> i < 100 \<Longrightarrow> 0 \<le> r \<Longrightarrow> r < 10 \<Longrightarrow> squeue (semtab s i) \<noteq> rwqueue (rwbtab s r)"
    "0 \<le> i \<Longrightarrow> i < 100 \<Longrightarrow> 0 \<le> j \<Longrightarrow> j < 100 \<Longrightarrow> squeue (semtab s i) = squeue (semtab s j) \<longleftrightarrow> i = j"
    "0 \<le> r \<Longrightarrow> r < 10 \<Longrightarrow> 0 \<le> j \<Longrightarrow> j < 10 \<Longrightarrow> rwqueue (rwbtab s r) = rwqueue (rwbtab s j) \<longleftrightarrow> r = j"
  using layout_inj [OF assms, of QReady QSleep] layout_inj [OF assms, of QReady QScratch]
    layout_inj [OF assms, of QSleep QScratch] layout_inj [OF assms, of "QSem i" QReady]
    layout_inj [OF assms, of "QSem i" QSleep] layout_inj [OF assms, of "QSem i" QScratch]
    layout_inj [OF assms, of "QRwb r" QReady] layout_inj [OF assms, of "QRwb r" QSleep]
    layout_inj [OF assms, of "QRwb r" QScratch] layout_inj [OF assms, of "QSem i" "QRwb r"]
    layout_inj [OF assms, of "QSem i" "QSem j"] layout_inj [OF assms, of "QRwb r" "QRwb j"]
  by simp_all

lemma qid_of_sframe: "sframe s s' \<Longrightarrow> qid_of s' = qid_of s"
  by (rule ext) (rename_tac n, case_tac n; simp add: sframeD)

lemma layout_sframe: "sframe s s' \<Longrightarrow> layout s' = layout s"
  by (simp add: layout_def qid_of_sframe sframeD)

lemma pq_sframe: "sframe s s' \<Longrightarrow> pq s' = pq s"
  by (rule ext) (simp add: pq_def sframeD split: pstate.split)

lemma pq_upd [simp]:
  "pq (s\<lparr>proctab := f\<rparr>) = pq s" "pq (s\<lparr>queuetab := t\<rparr>) = pq s" "pq (s\<lparr>currpid := c\<rparr>) = pq s"
  "pq (s\<lparr>readycount := n\<rparr>) = pq s" "pq (s\<lparr>preempt := m\<rparr>) = pq s"
  by (rule ext, simp add: pq_def split: pstate.split)+

lemma pqueue_upd [simp]:
  "pqueue (s\<lparr>proctab := (proctab s)(p := e)\<rparr>) = (pqueue s)(p := pq s e)"
  "pqueue (s\<lparr>queuetab := t\<rparr>) = pqueue s" "pqueue (s\<lparr>currpid := c\<rparr>) = pqueue s"
  "pqueue (s\<lparr>readycount := n\<rparr>) = pqueue s" "pqueue (s\<lparr>preempt := m\<rparr>) = pqueue s"
  by (rule ext, simp add: pqueue_def)+

lemma pqueue_aframe:
  assumes "aframe s s'" shows "pqueue s' = pqueue s"
proof
  fix p
  have "prstate (proctab s' p) = prstate (proctab s p)" "prsem (proctab s' p) = prsem (proctab s p)"
    using aframeD [OF assms] sframe_procD by blast+
  then show "pqueue s' p = pqueue s p"
    using pq_sframe [OF aframeD(1) [OF assms]] by (simp add: pqueue_def) (simp add: pq_def split: pstate.split)
qed

lemma wait_ok_sframe:
  "sframe s s' \<Longrightarrow> prstate (proctab s' p) = prstate (proctab s p) \<Longrightarrow>
   wait_ok (proctab s' p) = wait_ok (proctab s p)"
  by (simp add: wait_ok_def sframe_procD)

lemma kgen_aframe:
  assumes "aframe s s'" shows "kgen s' Q W = kgen s Q W"
proof -
  note A = aframeD [OF assms] and F = sframeD [OF aframeD(1) [OF assms]]
  show ?thesis
    unfolding kgen_def
    using A F layout_sframe [OF A(1)] sched_ok_sframe [OF A(1)] wait_ok_sframe [OF A(1) A(7)] by simp
qed

lemma kpre_aframe: "aframe s s' \<Longrightarrow> kpre s' Q = kpre s Q"
  by (simp add: kpre_def kgen_aframe pqueue_aframe)

lemma kout_aframe: "aframe s s' \<Longrightarrow> kout p s' Q = kout p s Q"
  by (simp add: kout_def kgen_aframe pqueue_aframe)

lemma kinv_aframe: "aframe s s' \<Longrightarrow> kinv s' Q = kinv s Q"
  by (simp add: kinv_def kpre_aframe aframeD)

text \<open>The fields the invariant speaks of.\<close>

definition kcore :: "kernel \<Rightarrow> _" where
  "kcore s = ((queuetab s, nextqid s, proctab s, currpid s, readylist s, sleepq s, scratchlist s),
     (\<lambda>i. squeue (semtab s i), \<lambda>i. rwqueue (rwbtab s i), envtab s EV_SCHEDULER))"

lemma kcoreD:
  assumes "kcore s' = kcore s"
  shows "queuetab s' = queuetab s" "nextqid s' = nextqid s" "proctab s' = proctab s"
    "currpid s' = currpid s" "readylist s' = readylist s" "sleepq s' = sleepq s"
    "scratchlist s' = scratchlist s" "squeue (semtab s' i) = squeue (semtab s i)"
    "rwqueue (rwbtab s' i) = rwqueue (rwbtab s i)" "envtab s' 1 = envtab s 1"
  using assms by (simp_all add: kcore_def fun_eq_iff)

lemma pq_core: assumes "kcore s' = kcore s" shows "pq s' = pq s"
  by (rule ext) (simp add: pq_def kcoreD [OF assms] split: pstate.split)

lemma pqueue_core: assumes "kcore s' = kcore s" shows "pqueue s' = pqueue s"
  by (rule ext) (simp add: pqueue_def pq_core [OF assms] kcoreD [OF assms])

lemma kgen_core:
  assumes "kcore s' = kcore s" shows "kgen s' Q W = kgen s Q W"
proof -
  have "qid_of s' = qid_of s" by (rule ext) (rename_tac n, case_tac n; simp add: kcoreD [OF assms])
  then show ?thesis by (simp add: kgen_def layout_def sched_ok_def kcoreD [OF assms])
qed

lemma kpre_core: assumes "kcore s' = kcore s" shows "kpre s' Q = kpre s Q"
  unfolding kpre_def kgen_core [OF assms] pqueue_core [OF assms] ..

lemma kout_core: assumes "kcore s' = kcore s" shows "kout p s' Q = kout p s Q"
  unfolding kout_def kgen_core [OF assms] pqueue_core [OF assms] ..

lemma kinv_core: assumes "kcore s' = kcore s" shows "kinv s' Q = kinv s Q"
  unfolding kinv_def kpre_core [OF assms] kcoreD(3,4) [OF assms] ..

text \<open>Changing the entry of one process and linking it where its new state says.\<close>

lemma kpre_enter:
  assumes pre: "kgen s Q W" and p: "0 \<le> p" "p < 100"
    and e: "wait_ok e" "prstate e = PR_CURR \<Longrightarrow> p = currpid s"
      "p = 0 \<Longrightarrow> prstate e = PR_CURR \<or> prstate e = PR_READY"
    and rel: "qrel t (nextqid s) Q' ((pqueue s)(p := pq s e))"
    and d: "desc (\<lambda>x. qkey (t x)) (Q' (readylist s))" and sc: "Q' (scratchlist s) = []"
    and sk: "skeys t (Q' (sleepq s))"
  shows "kpre (s\<lparr>proctab := (proctab s)(p := e), queuetab := t\<rparr>) Q'"
proof -
  let ?s = "s\<lparr>proctab := (proctab s)(p := e), queuetab := t\<rparr>"
  have "pqueue ?s = (pqueue s)(p := pq s e)" by simp
  moreover have "layout ?s = layout s"
  proof -
    have "qid_of ?s = qid_of s" by (rule ext) (rename_tac n, case_tac n; simp)
    then show ?thesis by (simp add: layout_def)
  qed
  moreover note P = kgenD [OF pre]
  ultimately have lp: "layout ?s" "pqueue ?s = (pqueue s)(p := pq s e)" by simp_all
  show ?thesis unfolding kpre_def kgen_def
  proof (intro conjI allI impI)
    show "layout ?s" by (rule lp)
    show "sched_ok ?s" using P(2) by (simp add: sched_ok_def)
    show "qrel (queuetab ?s) (nextqid ?s) Q' (pqueue ?s)" using rel by simp
    show "0 \<le> currpid ?s" "currpid ?s < 100" using P(4,5) by simp_all
    show "x = currpid ?s" if "0 \<le> x \<and> x < 100 \<and> prstate (proctab ?s x) = PR_CURR" for x
      using that P(6) [of x] e(2) by (cases "x = p") simp_all
    show "prstate (proctab ?s 0) = PR_CURR \<or> prstate (proctab ?s 0) = PR_READY"
      using P(7) e(3) by (cases "p = 0") simp_all
    show "wait_ok (proctab ?s x)" if "0 \<le> x \<and> x < 100" for x
      using that P(8) [of x] e(1) by (cases "x = p") simp_all
    show "desc (\<lambda>x. qkey (queuetab ?s x)) (Q' (readylist ?s))" "Q' (scratchlist ?s) = []"
      "skeys (queuetab ?s) (Q' (sleepq ?s))"
      using d sc sk by simp_all
  qed
qed

text \<open>Another queue table, with other lists.\<close>

lemma layout_queuetab [simp]: "layout (s\<lparr>queuetab := t\<rparr>) = layout s"
proof -
  have "qid_of (s\<lparr>queuetab := t\<rparr>) = qid_of s" by (rule ext) (rename_tac n, case_tac n; simp)
  then show ?thesis by (simp add: layout_def)
qed

lemma kgen_queuetab:
  assumes "kgen s Q W" "qrel t (nextqid s) Q' W'" "desc (\<lambda>x. qkey (t x)) (Q' (readylist s))"
    "skeys t (Q' (sleepq s))" "Q' (scratchlist s) = []"
  shows "kgen (s\<lparr>queuetab := t\<rparr>) Q' W'"
  using assms by (simp add: kgen_def sched_ok_def)

text \<open>Taking a process off the queue it is on.\<close>

lemma kout_unlink:
  assumes pre: "kpre s Q" and q: "q \<in> qids (nextqid s)" and Qq: "Q q = ys @ p # zs"
    and rel: "qrel t (nextqid s) (Q(q := ys @ zs)) ((pqueue s)(p := None))"
    and k: "\<forall>x\<in>set (ys @ zs). qkey (t x) = qkey (queuetab s x)"
    and kq: "\<And>r x. r \<in> qids (nextqid s) \<Longrightarrow> r \<noteq> q \<Longrightarrow> x \<in> set (Q r) \<Longrightarrow> qkey (t x) = qkey (queuetab s x)"
  shows "kout p (s\<lparr>queuetab := t\<rparr>) (Q(q := ys @ zs))"
proof -
  note P = kpreD [OF pre]
  have key: "qkey (t x) = qkey (queuetab s x)" if "x \<in> set ((Q(q := ys @ zs)) r)" "r \<in> qids (nextqid s)" for r x
    using that k kq [of r x] by (cases "r = q") simp_all
  have d0: "desc (\<lambda>x. qkey (queuetab s x)) ((Q(q := ys @ zs)) (readylist s))"
    using P(9) Qq desc_sub [of _ ys p zs] by (cases "readylist s = q") auto
  have s0: "skeys (queuetab s) ((Q(q := ys @ zs)) (sleepq s))"
    using P(11) Qq by (cases "sleepq s = q") (auto simp: skeys_def)
  have "desc (\<lambda>x. qkey (t x)) ((Q(q := ys @ zs)) (readylist s))"
    using d0 desc_cong [OF key [OF _ layout_ready [OF P(1)]]] by simp
  moreover have "skeys t ((Q(q := ys @ zs)) (sleepq s))"
    using s0 skeys_cong [OF key [OF _ layout_sleep [OF P(1)]]] by simp
  moreover have "(Q(q := ys @ zs)) (scratchlist s) = []" using P(10) Qq by auto
  ultimately show ?thesis
    unfolding kout_def pqueue_upd using kgen_queuetab [OF pre [unfolded kpre_def] rel] by blast
qed

text \<open>Writing the entry of the process that is on no queue.\<close>

lemma kout_set:
  assumes "kout p s Q" "0 \<le> p" "p < 100" "wait_ok e" "prstate e = PR_CURR \<Longrightarrow> p = currpid s"
    "p = 0 \<Longrightarrow> prstate e = PR_CURR \<or> prstate e = PR_READY"
  shows "kout p (s\<lparr>proctab := (proctab s)(p := e)\<rparr>) Q"
proof -
  let ?s = "s\<lparr>proctab := (proctab s)(p := e)\<rparr>"
  note P = koutD [OF assms(1)]
  have "qid_of ?s = qid_of s" by (rule ext) (rename_tac n, case_tac n; simp)
  then have "layout ?s" using P(1) by (simp add: layout_def)
  moreover have "x = currpid ?s" if "0 \<le> x \<and> x < 100 \<and> prstate (proctab ?s x) = PR_CURR" for x
    using that P(6) [of x] assms(5) by (cases "x = p") simp_all
  moreover have "prstate (proctab ?s 0) = PR_CURR \<or> prstate (proctab ?s 0) = PR_READY"
    using P(7) assms(6) by (cases "p = 0") simp_all
  moreover have "wait_ok (proctab ?s x)" if "0 \<le> x \<and> x < 100" for x
    using that P(8) [of x] assms(4) by (cases "x = p") simp_all
  moreover have "sched_ok ?s" using P(2) by (simp add: sched_ok_def)
  moreover have "qrel (queuetab ?s) (nextqid ?s) Q ((pqueue ?s)(p := None))" using P(3) by simp
  ultimately show ?thesis unfolding kout_def kgen_def using P(4,5,9-11) by simp
qed

lemma kout_kpre: "kout p s Q \<Longrightarrow> pqueue s p = None \<Longrightarrow> kpre s Q"
  by (simp add: kpre_def kout_def fun_upd_idem)

lemma kpre_set:
  assumes "kpre s Q" "pqueue s p = None" "0 \<le> p" "p < 100" "wait_ok e"
    "prstate e = PR_CURR \<Longrightarrow> p = currpid s"
    "p = 0 \<Longrightarrow> prstate e = PR_CURR \<or> prstate e = PR_READY" "pq s e = None"
  shows "kpre (s\<lparr>proctab := (proctab s)(p := e)\<rparr>) Q"
  using kout_kpre [OF kout_set [OF kpre_kout [OF assms(1,2)] assms(3-7)]] assms(8) by simp

text \<open>Linking a ready process on the ready list, behind its equals.\<close>

definition enter_by :: "(int \<Rightarrow> int) \<Rightarrow> int \<Rightarrow> int \<Rightarrow> int list \<Rightarrow> int list" where
  "enter_by k key p xs = takeWhile (\<lambda>x. key \<le> k x) xs @ p # dropWhile (\<lambda>x. key \<le> k x) xs"

lemma set_enter_by [simp]: "set (enter_by k key p xs) = insert p (set xs)"
  unfolding enter_by_def using takeWhile_dropWhile_id [of "\<lambda>x. key \<le> k x" xs]
  by (metis Un_insert_right list.simps(15) set_append)

lemma enter_by_Cons: "key \<le> k x \<Longrightarrow> enter_by k key p (x # xs) = x # enter_by k key p xs"
  by (simp add: enter_by_def)

abbreviation (input) keyof :: "kernel \<Rightarrow> int \<Rightarrow> int" where
  "keyof s x \<equiv> qkey (queuetab s x)"

lemma ready_link:
  assumes out: "kout p s Q" and p: "\<not> isbadpid s p" and st: "prstate (proctab s p) = PR_READY"
    and key: "MINKEY < key"
  shows "\<exists>t. insert_q p (readylist s) key s = Some (OK, s\<lparr>queuetab := t\<rparr>)
    \<and> kpre (s\<lparr>queuetab := t\<rparr>) (Q(readylist s := enter_by (keyof s) key p (Q (readylist s))))
    \<and> (\<forall>x. qkey (t x) = (if x = p then key else keyof s x))"
proof -
  note P = koutD [OF out]
  note rq = layout_ready [OF P(1)]
  obtain t where i: "insert_q p (readylist s) key s = Some (OK, s\<lparr>queuetab := t\<rparr>)"
    and rel: "qrel t (nextqid s) (Q(readylist s := enter_by (keyof s) key p (Q (readylist s))))
      (((pqueue s)(p := None))(p := Some (readylist s)))"
    and k: "\<And>x. qkey (t x) = (if x = p then key else keyof s x)"
    using insert_q_ok [OF P(3) rq p _ key] unfolding enter_by_def by auto
  have pW: "pqueue s p = Some (readylist s)" using st by (simp add: pqueue_def pq_def)
  have notin: "p \<notin> set (Q q)" if "q \<in> qids (nextqid s)" for q
    using qrel_member [OF P(3) that, of p] by auto
  let ?L = "Q (readylist s)"
  have "desc (\<lambda>x. qkey (t x)) (enter_by (keyof s) key p ?L)"
    unfolding enter_by_def by (rule desc_insert [OF P(9)]) (use k notin [OF rq] in auto)
  moreover have "skeys t (Q (sleepq s)) = skeys (queuetab s) (Q (sleepq s))"
    by (rule skeys_cong) (use k notin [OF layout_sleep [OF P(1)]] in auto)
  moreover have "readylist s \<noteq> sleepq s" "readylist s \<noteq> scratchlist s" using layout_apart(1,2) [OF P(1)] .
  moreover have "((pqueue s)(p := None))(p := Some (readylist s)) = pqueue s"
    using pW by (simp add: fun_upd_idem_iff)
  ultimately have "kgen (s\<lparr>queuetab := t\<rparr>) (Q(readylist s := enter_by (keyof s) key p ?L)) (pqueue s)"
    using kgen_queuetab [OF out [unfolded kout_def] rel] P(10,11) by simp
  then show ?thesis using i k unfolding kpre_def by auto
qed

section \<open>Rescheduling\<close>

lemma resched_switch_ok:
  assumes pre: "kpre s Q" and nc: "prstate (proctab s (currpid s)) \<noteq> PR_CURR"
  shows "\<exists>s' new rest. resched_switch s = Some s' \<and> Q (readylist s) = new # rest
    \<and> kinv s' (Q(readylist s := rest)) \<and> sframe s s' \<and> currpid s' = new \<and> preempt s' = QUANTUM
    \<and> (\<forall>p. p \<noteq> new \<longrightarrow> prstate (proctab s' p) = prstate (proctab s p))
    \<and> (\<forall>x. qkey (queuetab s' x) = qkey (queuetab s x)) \<and> (\<forall>p. prprio (proctab s' p) = prprio (proctab s p))"
proof -
  note P = kpreD [OF pre]
  have rq: "readylist s \<in> qids (nextqid s)" by (rule layout_ready [OF P(1)])
  have nocur: "prstate (proctab s p) \<noteq> PR_CURR" if "0 \<le> p" "p < 100" for p
    using P(6) [OF that] nc by blast
  then have "prstate (proctab s 0) = PR_READY" using P(7) by force
  then have "pqueue s 0 = Some (readylist s)" by (simp add: pqueue_def pq_def)
  then have "0 \<in> set (Q (readylist s))" using qrelD(3) [OF P(3) rq] by simp
  then obtain new rest where Qr: "Q (readylist s) = new # rest"
    by (cases "Q (readylist s)") auto
  then have nb: "0 \<le> new" "new < 100" "pqueue s new = Some (readylist s)"
    using qrel_member [OF P(3) rq, of new] by simp_all
  have nr: "prstate (proctab s new) = PR_READY"
  proof -
    have "readylist s \<noteq> sleepq s" using layout_apart(1) [OF P(1)] .
    moreover have "wait_ok (proctab s new)" using P(8) nb by blast
    ultimately show ?thesis
      using nb layout_apart(4) [OF P(1), of "prsem (proctab s new)"]
        layout_apart(7) [OF P(1), of "-1 * (prsem (proctab s new) + 2)"]
      by (auto simp: pqueue_def pq_def wait_ok_def split: pstate.splits if_splits)
  qed
  obtain t where dq: "dequeue (readylist s) s = Some (new, s\<lparr>queuetab := t\<rparr>)"
    and rel: "qrel t (nextqid s) (Q(readylist s := rest)) ((pqueue s)(new := None))"
    and k: "\<forall>x. qkey (t x) = qkey (queuetab s x)"
    using dequeue_ok(2) [OF P(3) rq Qr] by blast
  let ?s1 = "s\<lparr>queuetab := t, currpid := new, readycount := u16 (readycount s - 1)\<rparr>"
  have so: "sched_ok ?s1" using P(2) by (simp add: sched_ok_def)
  obtain r s2 where rc: "record_cpuqdata new ?s1 = Some (r, s2)" and af: "aframe ?s1 s2"
    and p2: "\<forall>p. prprio (proctab s2 p) = prprio (proctab ?s1 p)"
    using record_ok [OF so] by blast
  note A = aframeD [OF af]
  define s4 where "s4 = s2\<lparr>proctab := (proctab s2)(new := (proctab s2 new)\<lparr>prstate := PR_CURR\<rparr>), preempt := QUANTUM\<rparr>"
  have run: "resched_switch s = Some s4"
    using nb rc by (simp add: resched_switch_def dq set_state_def s4_def)
  have sf: "sframe s s4"
  proof -
    have "sframe s ?s1" by (simp add: sframe_def kerase_def)
    moreover have "sframe s2 s4" unfolding s4_def using A(7) [of new] nr by (auto simp: sframe_def kerase_def perase_def fun_eq_iff)
    ultimately show ?thesis using A(1) sframe_trans by blast
  qed
  have pqn: "pqueue s4 = (pqueue s)(new := None)"
  proof -
    have "pqueue s2 = pqueue s" using pqueue_aframe [OF af] by simp
    moreover have "pq s2 = pq s" using pq_sframe [OF A(1)] by simp
    moreover have "pqueue s4 = (pqueue s2)(new := pq s2 ((proctab s2 new)\<lparr>prstate := PR_CURR\<rparr>))"
      by (simp add: s4_def)
    ultimately show ?thesis by (simp add: pq_def)
  qed
  have keep: "queuetab s4 = t" "currpid s4 = new" "preempt s4 = QUANTUM"
    using A(2,3) by (simp_all add: s4_def)
  have st: "prstate (proctab s4 p) = (if p = new then PR_CURR else prstate (proctab s p))" for p
    using A(7) [of p] by (simp add: s4_def)
  note F = sframeD [OF sf]
  have "kpre s4 (Q(readylist s := rest))"
    unfolding kpre_def kgen_def
  proof (intro conjI allI impI)
    show "layout s4" "sched_ok s4" using layout_sframe [OF sf] sched_ok_sframe [OF sf] P(1,2) by simp_all
    show "qrel (queuetab s4) (nextqid s4) (Q(readylist s := rest)) (pqueue s4)"
      using rel keep F(1) pqn by simp
    show "0 \<le> currpid s4" "currpid s4 < 100" using keep nb by simp_all
    show "p = currpid s4" if "0 \<le> p \<and> p < 100 \<and> prstate (proctab s4 p) = PR_CURR" for p
      using that st [of p] nocur [of p] keep by (auto split: if_splits)
    show "prstate (proctab s4 0) = PR_CURR \<or> prstate (proctab s4 0) = PR_READY"
      using st [of 0] P(7) by auto
    show "wait_ok (proctab s4 p)" if "0 \<le> p \<and> p < 100" for p
      using P(8) [of p] that st [of p] sframe_procD(6) [OF sf, of p] by (auto simp: wait_ok_def)
    show "desc (\<lambda>x. qkey (queuetab s4 x)) ((Q(readylist s := rest)) (readylist s4))"
      using P(9) Qr keep F(4) k by simp
    show "(Q(readylist s := rest)) (scratchlist s4) = []"
      using P(10) F(6) layout_apart(2) [OF P(1)] by simp
    have "skeys (queuetab s4) (Q (sleepq s)) = skeys (queuetab s) (Q (sleepq s))"
      by (rule skeys_cong) (simp add: keep k)
    then show "skeys (queuetab s4) ((Q(readylist s := rest)) (sleepq s4))"
      using P(11) F(5) layout_apart(1) [OF P(1)] by simp
  qed
  then have "kinv s4 (Q(readylist s := rest))" using st [of new] keep by (simp add: kinv_def)
  moreover have "\<forall>p. p \<noteq> new \<longrightarrow> prstate (proctab s4 p) = prstate (proctab s p)" using st by simp
  moreover have "\<forall>x. qkey (queuetab s4 x) = qkey (queuetab s x)" using k by (simp add: keep(1))
  moreover have "\<forall>p. prprio (proctab s4 p) = prprio (proctab s p)" using p2 by (simp add: s4_def)
  ultimately show ?thesis using run Qr sf keep(2,3) by blast
qed


lemma resched_gone:
  assumes pre: "kpre s Q" and nd: "ndefers s \<le> 0" and nc: "prstate (proctab s (currpid s)) \<noteq> PR_CURR"
  shows "\<exists>s' rest. resched s = Some s' \<and> Q (readylist s) = currpid s' # rest
    \<and> kinv s' (Q(readylist s := rest)) \<and> sframe s s' \<and> preempt s' = QUANTUM
    \<and> (\<forall>p. p \<noteq> currpid s' \<longrightarrow> prstate (proctab s' p) = prstate (proctab s p))
    \<and> (\<forall>x. keyof s' x = keyof s x)"
proof -
  obtain s' new rest where R: "resched_switch s = Some s'" "Q (readylist s) = new # rest"
    "kinv s' (Q(readylist s := rest))" "sframe s s'" "currpid s' = new" "preempt s' = QUANTUM"
    "\<forall>p. p \<noteq> new \<longrightarrow> prstate (proctab s' p) = prstate (proctab s p)"
    "\<forall>x. keyof s' x = keyof s x"
    using resched_switch_ok [OF pre nc] by blast
  have "resched s = Some s'" using R(1) kpreD(4,5) [OF pre] nd nc by (simp add: resched_def)
  then show ?thesis using R by auto
qed

lemma resched_curr:
  assumes inv: "kinv s Q" and nd: "ndefers s \<le> 0"
  shows "\<exists>s' Q' prio. resched s = Some s' \<and> kinv s' Q' \<and> sframe s s' \<and> 0 \<le> prio \<and> prio < 32768
    \<and> prio = new_prio (currpid s) s \<and> prprio (proctab s' (currpid s)) = prio
    \<and> (if (\<exists>x\<in>set (Q (readylist s)). prio \<le> keyof s x)
       then \<exists>rest. Q (readylist s) = currpid s' # rest \<and> prstate (proctab s' (currpid s)) = PR_READY
          \<and> Q' = Q(readylist s := enter_by (keyof s) prio (currpid s) rest) \<and> preempt s' = QUANTUM
       else currpid s' = currpid s \<and> Q' = Q \<and> preempt s' = preempt s)
    \<and> (\<forall>p. p \<noteq> currpid s \<longrightarrow> p \<noteq> currpid s' \<longrightarrow> prstate (proctab s' p) = prstate (proctab s p))
    \<and> (\<forall>x. x \<noteq> currpid s \<longrightarrow> keyof s' x = keyof s x)"
proof -
  let ?c = "currpid s" and ?L = "Q (readylist s)"
  have pre: "kpre s Q" and cur: "prstate (proctab s ?c) = PR_CURR" using inv by (simp_all add: kinv_def)
  note P = kpreD [OF pre]
  have nb: "\<not> isbadpid s ?c" using P(4,5) cur by (simp add: isbadpid_def)
  obtain s1 where r1: "refresh_prio ?c s = Some s1" and a1: "aframe s s1"
    and pr: "0 \<le> prprio (proctab s1 ?c)" "prprio (proctab s1 ?c) < 32768" "prprio (proctab s1 ?c) = new_prio ?c s"
    using refresh_prio_ok [OF P(2) nb] cur by blast
  note A1 = aframeD [OF a1] and F1 = sframeD [OF aframeD(1) [OF a1]]
  define prio where "prio = prprio (proctab s1 ?c)"
  have fk: "firstkey (readylist s1) s1 = Some (case ?L of [] \<Rightarrow> MINKEY | x # _ \<Rightarrow> keyof s x)"
    using firstkey_ok [of s1 "nextqid s1" Q "pqueue s" "readylist s1"] P(3) layout_ready [OF P(1)]
    by (simp add: A1 F1 split: list.split)
  have top: "(\<exists>x\<in>set ?L. prio \<le> keyof s x) \<longleftrightarrow> (\<exists>x rest. ?L = x # rest \<and> prio \<le> keyof s x)"
    using P(9) by (cases ?L) auto
  show ?thesis
  proof (cases "\<exists>x\<in>set ?L. prio \<le> keyof s x")
    case False
    then have "(case ?L of [] \<Rightarrow> MINKEY | x # _ \<Rightarrow> keyof s x) < prio"
      using pr by (cases ?L) (auto simp: prio_def)
    then have "resched s = Some s1"
      using P(4,5) cur nd fk A1 by (simp add: resched_def r1 prio_def)
    then show ?thesis using inv kinv_aframe [OF a1] A1 False pr
      by (intro exI [of _ s1] exI [of _ Q] exI [of _ prio]) (simp add: prio_def)
  next
    case True
    then obtain x rest where L: "?L = x # rest" "prio \<le> keyof s x" using top by blast
    have so1: "sched_ok s1" using sched_ok_sframe [OF A1(1)] P(2) by simp
    obtain r s2 where r2: "record_cpuqdata ?c s1 = Some (r, s2)" and a2: "aframe s1 s2"
      and p2: "prprio (proctab s2 ?c) = prio"
      using record_ok [OF so1, of ?c] unfolding prio_def by blast
    have a: "aframe s s2" using aframe_trans [OF a1 a2] .
    note A = aframeD [OF a] and F = sframeD [OF aframeD(1) [OF a]]
    define s3 where "s3 = s2\<lparr>proctab := (proctab s2)(?c := (proctab s2 ?c)\<lparr>prstate := PR_READY\<rparr>)\<rparr>"
    define s4 where "s4 = s3\<lparr>readycount := u16 (readycount s3 + 1)\<rparr>"
    have out: "kout ?c s2 Q"
      using kpre_kout [of s2 Q ?c] kpre_aframe [OF a] pre cur A by (simp add: pqueue_def pq_def)
    have o3: "kout ?c s3 Q"
      unfolding s3_def by (rule kout_set [OF out]) (use P(4,5) in \<open>simp_all add: wait_ok_def\<close>)
    have o4: "kout ?c s4 Q"
      using o3 kout_core [of s4 s3] by (simp add: kcore_def s4_def)
    have c4: "\<not> isbadpid s4 ?c" "prstate (proctab s4 ?c) = PR_READY" "readylist s4 = readylist s"
      "queuetab s4 = queuetab s" "prprio (proctab s4 ?c) = prio" "currpid s4 = ?c"
      using P(4,5) A F p2 by (simp_all add: s4_def s3_def isbadpid_def)
    obtain t where i: "insert_q ?c (readylist s) prio s4 = Some (OK, s4\<lparr>queuetab := t\<rparr>)"
      and k5: "kpre (s4\<lparr>queuetab := t\<rparr>) (Q(readylist s := enter_by (keyof s) prio ?c ?L))"
      and kt: "\<forall>y. qkey (t y) = (if y = ?c then prio else keyof s y)"
      using ready_link [OF o4 c4(1,2), of prio] pr c4(3,4) unfolding prio_def by auto
    define s5 where "s5 = s4\<lparr>queuetab := t\<rparr>"
    have nc5: "prstate (proctab s5 (currpid s5)) \<noteq> PR_CURR" using c4 by (simp add: s5_def)
    obtain s6 new rest' where R: "resched_switch s5 = Some s6"
      "(Q(readylist s := enter_by (keyof s) prio ?c ?L)) (readylist s5) = new # rest'"
      "kinv s6 (Q(readylist s := enter_by (keyof s) prio ?c ?L, readylist s5 := rest'))"
      "sframe s5 s6" "currpid s6 = new" "preempt s6 = QUANTUM"
      "\<forall>p. p \<noteq> new \<longrightarrow> prstate (proctab s6 p) = prstate (proctab s5 p)"
      "\<forall>x. keyof s6 x = keyof s5 x" "\<forall>p. prprio (proctab s6 p) = prprio (proctab s5 p)"
      using resched_switch_ok [OF k5 [folded s5_def] nc5] by blast
    have rl5: "readylist s5 = readylist s" using c4 by (simp add: s5_def)
    have new: "new = x" "rest' = enter_by (keyof s) prio ?c rest"
      using R(2) rl5 L by (simp_all add: enter_by_Cons)
    have run: "resched s = Some s6"
    proof -
      have "\<not> (case ?L of [] \<Rightarrow> MINKEY | x # _ \<Rightarrow> keyof s x) < prio" using L by simp
      then show ?thesis
        using P(4,5) cur nd fk A1 A r2 i R(1) c4(3,5)
        by (simp add: resched_def r1 set_state_def prio_def s3_def s4_def s5_def F F1)
    qed
    have sf: "sframe s s6"
    proof -
      have "sframe s2 s5" unfolding s5_def s4_def s3_def using A(7) [of ?c] cur
        by (auto simp: sframe_def kerase_def perase_def fun_eq_iff)
      then show ?thesis using A(1) R(4) sframe_trans by blast
    qed
    have cx: "x \<noteq> ?c" using L(1) qrel_member [OF P(3) layout_ready [OF P(1)], of x] cur
      by (auto simp: pqueue_def pq_def)
    have st: "prstate (proctab s5 p) = (if p = ?c then PR_READY else prstate (proctab s p))" for p
      using A(7) [of p] by (simp add: s5_def s4_def s3_def)
    have ks: "keyof s6 y = keyof s y" if "y \<noteq> ?c" for y
      using R(8) kt that by (simp add: s5_def)
    have "kinv s6 (Q(readylist s := enter_by (keyof s) prio ?c rest))"
      using R(3) rl5 new by simp
    moreover have "prstate (proctab s6 ?c) = PR_READY" using R(7) st new cx by simp
    moreover have "\<forall>p. p \<noteq> ?c \<longrightarrow> p \<noteq> currpid s6 \<longrightarrow> prstate (proctab s6 p) = prstate (proctab s p)"
      using R(5,7) st by simp
    moreover have "prprio (proctab s6 ?c) = prio" using R(9) p2 by (simp add: s5_def s4_def s3_def)
    ultimately show ?thesis using run sf True L R(5,6) new ks pr unfolding prio_def by auto
  qed
qed


text \<open>Both cases, for callers that only need the invariant.\<close>

lemma qframe_ready:
  assumes "\<And>q. q \<noteq> readylist s \<Longrightarrow> Q' q = Q q"
    and "\<And>q x. q \<in> qids (nextqid s) \<Longrightarrow> q \<noteq> readylist s \<Longrightarrow> x \<in> set (Q q) \<Longrightarrow> keyof s' x = keyof s x"
  shows "qframe s Q s' Q'"
  using assms by (simp add: qframe_def)

lemma resched_ok:
  assumes pre: "kpre s Q"
  shows "\<exists>s' Q'. resched s = Some s' \<and> kpre s' Q' \<and> sframe s s' \<and> qframe s Q s' Q'
    \<and> (ndefers s \<le> 0 \<longrightarrow> kinv s' Q') \<and> (kinv s Q \<longrightarrow> kinv s' Q')
    \<and> (0 < ndefers s \<longrightarrow> s' = s\<lparr>attempt := True\<rparr> \<and> Q' = Q)"
proof (cases "ndefers s \<le> 0")
  case False
  define s' where "s' = s\<lparr>attempt := True\<rparr>"
  have c: "kcore s' = kcore s" by (simp add: kcore_def s'_def)
  have "sframe s s'" "qframe s Q s' Q" by (simp_all add: sframe_def kerase_def s'_def qframe_def)
  moreover have "resched s = Some s'" using False by (simp add: resched_def s'_def)
  ultimately show ?thesis using False pre kpre_core [OF c] kinv_core [OF c] unfolding s'_def by auto
next
  case nd: True
  have "\<exists>s' Q'. resched s = Some s' \<and> kinv s' Q' \<and> sframe s s' \<and> qframe s Q s' Q'"
  proof (cases "prstate (proctab s (currpid s)) = PR_CURR")
    case True
    then have inv: "kinv s Q" using pre by (simp add: kinv_def)
    obtain s' Q' prio where R: "resched s = Some s'" "kinv s' Q'" "sframe s s'"
      "if \<exists>x\<in>set (Q (readylist s)). prio \<le> keyof s x
         then \<exists>rest. Q (readylist s) = currpid s' # rest \<and> prstate (proctab s' (currpid s)) = PR_READY
            \<and> Q' = Q(readylist s := enter_by (keyof s) prio (currpid s) rest) \<and> preempt s' = QUANTUM
         else currpid s' = currpid s \<and> Q' = Q \<and> preempt s' = preempt s"
      "\<forall>x. x \<noteq> currpid s \<longrightarrow> keyof s' x = keyof s x"
      using resched_curr [OF inv nd] by blast
    have "pqueue s (currpid s) = None" using True by (simp add: pqueue_def pq_def)
    then have "currpid s \<notin> set (Q q)" if "q \<in> qids (nextqid s)" for q
      using qrel_member [OF kpreD(3) [OF pre] that, of "currpid s"] by auto
    moreover have "Q' q = Q q" if "q \<noteq> readylist s" for q using R(4) that by (auto split: if_splits)
    ultimately have "qframe s Q s' Q'" using R(5) by (intro qframe_ready) metis+
    then show ?thesis using R by blast
  next
    case False
    obtain s' rest where R: "resched s = Some s'" "kinv s' (Q(readylist s := rest))" "sframe s s'"
      "\<forall>x. keyof s' x = keyof s x"
      using resched_gone [OF pre nd False] by blast
    have "qframe s Q s' (Q(readylist s := rest))" using R(4) by (intro qframe_ready) simp_all
    then show ?thesis using R by blast
  qed
  then show ?thesis using nd kinv_kpre by fastforce
qed

end
