(* ===== verification/SchedOps.thy ===== *)
theory SchedOps
  imports SchedInv
begin

text \<open>
  The system calls of the scheduler: \<open>ready\<close>, \<open>resched_cntl\<close>, \<open>yield\<close>,
  \<open>resume\<close>, \<open>suspend\<close>, \<open>chprio\<close> always return, keep the invariant, and
  change what they say they change.
\<close>

section \<open>ready\<close>

definition mkst :: "pstate \<Rightarrow> int \<Rightarrow> kernel \<Rightarrow> kernel" where
  "mkst st p s = s\<lparr>proctab := (proctab s)(p := (proctab s p)\<lparr>prstate := st\<rparr>)\<rparr>"

lemma mkst_fields [simp]:
  "queuetab (mkst st p s) = queuetab s" "nextqid (mkst st p s) = nextqid s" "currpid (mkst st p s) = currpid s"
  "readylist (mkst st p s) = readylist s" "sleepq (mkst st p s) = sleepq s" "ndefers (mkst st p s) = ndefers s"
  "semtab (mkst st p s) = semtab s" "rwbtab (mkst st p s) = rwbtab s" "scratchlist (mkst st p s) = scratchlist s"
  "kcont (mkst st p s) = kcont s" "kret (mkst st p s) = kret s" "attempt (mkst st p s) = attempt s"
  "envtab (mkst st p s) = envtab s" "rwbflags (mkst st p s) = rwbflags s" "prcount (mkst st p s) = prcount s"
  "nextsem (mkst st p s) = nextsem s" "nextrwb (mkst st p s) = nextrwb s" "nextpid (mkst st p s) = nextpid s"
  "proctab (mkst st p s) q = (if q = p then (proctab s p)\<lparr>prstate := st\<rparr> else proctab s q)"
  by (simp_all add: mkst_def)

lemma set_state_mkst [simp]: "0 \<le> p \<Longrightarrow> p < 100 \<Longrightarrow> set_state p st s = Some (mkst st p s)"
  by (simp add: set_state_def mkst_def)

lemma sframe_mkst: "sframe s s' \<Longrightarrow> sframe (mkst st p s) (mkst st p s')"
proof -
  assume a: "sframe s s'"
  have "kerase (mkst st p t) = (kerase t)\<lparr>proctab := (proctab (kerase t))
      (p := (proctab (kerase t) p)\<lparr>prstate := rstate st\<rparr>)\<rparr>" for t
    by (simp add: mkst_def kerase_def perase_def fun_eq_iff)
  then show ?thesis using a by (simp add: sframe_def)
qed

lemma ready_ok:
  assumes out: "kout p s Q" and nb: "\<not> isbadpid s p"
  shows "\<exists>s' Q'. ready p s = Some (OK, s') \<and> kpre s' Q' \<and> sframe (mkst PR_READY p s) s' \<and> qframe s Q s' Q'
    \<and> (ndefers s \<le> 0 \<longrightarrow> kinv s' Q')
    \<and> (p \<noteq> currpid s \<and> prstate (proctab s (currpid s)) = PR_CURR \<longrightarrow> kinv s' Q')
    \<and> (0 < ndefers s \<longrightarrow> attempt s' \<and> currpid s' = currpid s
        \<and> (\<exists>prio. 0 \<le> prio \<and> prio < 32768 \<and> Q' = Q(readylist s := enter_by (keyof s) prio p (Q (readylist s)))))"
proof -
  have pb: "0 \<le> p" "p < 100" using nb by (simp_all add: isbadpid_def)
  note P = koutD [OF out]
  obtain r s1 where r1: "record_cpuqdata p s = Some (r, s1)" and a1: "aframe s s1"
    using record_ok [OF P(2)] by blast
  have o1: "kout p s1 Q" using kout_aframe [OF a1] out by simp
  define s2 where "s2 = mkst PR_READY p s1"
  have o2: "kout p s2 Q" unfolding s2_def mkst_def
    by (rule kout_set [OF o1]) (use pb in \<open>simp_all add: wait_ok_def\<close>)
  define s3 where "s3 = s2\<lparr>readycount := u16 (readycount s2 + 1)\<rparr>"
  have o3: "kout p s3 Q" using o2 kout_core [of s3 s2] by (simp add: kcore_def s3_def)
  have nb3: "\<not> isbadpid s3 p" using pb by (simp add: s3_def s2_def mkst_def isbadpid_def)
  have st3: "prstate (proctab s3 p) = PR_READY" by (simp add: s3_def s2_def mkst_def)
  obtain s4 where r4: "refresh_prio p s3 = Some s4" and a4: "aframe s3 s4"
    and pr: "0 \<le> prprio (proctab s4 p)" "prprio (proctab s4 p) < 32768"
    using refresh_prio_ok [OF koutD(2) [OF o3] nb3] by blast
  note A4 = aframeD [OF a4]
  define prio where "prio = prprio (proctab s4 p)"
  have pm: "MINKEY < prio" using pr by (simp add: prio_def)
  have o4: "kout p s4 Q" using kout_aframe [OF a4] o3 by simp
  have nb4: "\<not> isbadpid s4 p" "prstate (proctab s4 p) = PR_READY"
    using nb3 st3 A4(7) [of p] by (simp_all add: isbadpid_def)
  obtain t where i: "insert_q p (readylist s4) prio s4 = Some (OK, s4\<lparr>queuetab := t\<rparr>)"
    and k5: "kpre (s4\<lparr>queuetab := t\<rparr>) (Q(readylist s4 := enter_by (keyof s4) prio p (Q (readylist s4))))"
    and kt: "\<forall>x. qkey (t x) = (if x = p then prio else keyof s4 x)"
    using ready_link [OF o4 nb4 pm] by blast
  define s5 where "s5 = s4\<lparr>queuetab := t\<rparr>"
  define Q5 where "Q5 = Q(readylist s4 := enter_by (keyof s4) prio p (Q (readylist s4)))"
  note k5' = k5 [folded s5_def Q5_def]
  obtain s6 Q6 where R: "resched s5 = Some s6" "kpre s6 Q6" "sframe s5 s6" "qframe s5 Q5 s6 Q6"
    "ndefers s5 \<le> 0 \<longrightarrow> kinv s6 Q6" "kinv s5 Q5 \<longrightarrow> kinv s6 Q6"
    "0 < ndefers s5 \<longrightarrow> s6 = s5\<lparr>attempt := True\<rparr> \<and> Q6 = Q5"
    using resched_ok [OF k5'] by blast
  have run: "ready p s = Some (OK, s6)"
    using nb pb r1 r4 i R(1) by (simp add: ready_def s2_def s3_def prio_def s5_def)
  have sf5: "sframe (mkst PR_READY p s) s5"
  proof -
    have "sframe (mkst PR_READY p s) s2" unfolding s2_def by (rule sframe_mkst [OF aframeD(1) [OF a1]])
    moreover have "sframe s2 s3" "sframe s4 s5" by (simp_all add: s3_def s5_def sframe_def kerase_def)
    ultimately show ?thesis using A4(1) sframe_trans by blast
  qed
  have same: "readylist s4 = readylist s" "sleepq s4 = sleepq s" "nextqid s4 = nextqid s" "ndefers s4 = ndefers s"
    using sframeD [OF sf5] by (simp_all add: s5_def mkst_def)
  have qt: "queuetab s4 = queuetab s" "currpid s4 = currpid s"
    using A4(2,3) aframeD(2,3) [OF a1] by (simp_all add: s3_def s2_def mkst_def)
  have notin: "p \<notin> set (Q q)" if "q \<in> qids (nextqid s)" for q
    using qrel_member [OF P(3) that, of p] by auto
  have qf: "qframe s Q s6 Q6"
  proof (rule qframe_trans [OF _ R(4)])
    show "qframe s Q s5 Q5"
      unfolding qframe_def Q5_def using same qt kt notin by (auto simp: s5_def)
  qed (use same in \<open>simp_all add: s5_def\<close>)
  have cur: "kinv s5 Q5" if "p \<noteq> currpid s" "prstate (proctab s (currpid s)) = PR_CURR"
    using k5' that qt A4(7) [of "currpid s"] aframeD(7) [OF a1, of "currpid s"]
    by (simp add: kinv_def s5_def s3_def s2_def mkst_def)
  have "0 < ndefers s \<longrightarrow> attempt s6 \<and> currpid s6 = currpid s
      \<and> (\<exists>prio. 0 \<le> prio \<and> prio < 32768 \<and> Q6 = Q(readylist s := enter_by (keyof s) prio p (Q (readylist s))))"
    using R(7) same qt pr unfolding Q5_def by (auto simp: s5_def prio_def)
  moreover have "sframe (mkst PR_READY p s) s6" using sf5 R(3) sframe_trans by blast
  moreover have "ndefers s \<le> 0 \<longrightarrow> kinv s6 Q6" using R(5) same by (simp add: s5_def)
  ultimately show ?thesis using run R(2,6) qf cur by blast
qed

section \<open>Deferred rescheduling\<close>

lemma resched_cntl_start_ok:
  assumes "kpre s Q"
  shows "resched_cntl DEFER_START s =
    Some (OK, s\<lparr>ndefers := ndefers s + 1, attempt := (if ndefers s = 0 then False else attempt s)\<rparr>)"
  by (cases "ndefers s = 0") (simp_all add: resched_cntl_def)

lemma resched_cntl_stop_ok:
  assumes "kpre s Q" "0 < ndefers s"
  shows "\<exists>s' Q'. resched_cntl DEFER_STOP s = Some (OK, s') \<and> kpre s' Q' \<and> sframe (s\<lparr>ndefers := ndefers s - 1\<rparr>) s'
    \<and> qframe s Q s' Q' \<and> (kinv s Q \<longrightarrow> kinv s' Q') \<and> (ndefers s = 1 \<and> attempt s \<longrightarrow> kinv s' Q')
    \<and> (\<not> (ndefers s = 1 \<and> attempt s) \<longrightarrow> s' = s\<lparr>ndefers := ndefers s - 1\<rparr> \<and> Q' = Q)"
proof -
  define s1 where "s1 = s\<lparr>ndefers := ndefers s - 1\<rparr>"
  have c: "kcore s1 = kcore s" by (simp add: kcore_def s1_def)
  have pre: "kpre s1 Q" "kinv s1 Q = kinv s Q" using kpre_core [OF c] kinv_core [OF c] assms by simp_all
  show ?thesis
  proof (cases "ndefers s = 1 \<and> attempt s")
    case True
    obtain s' Q' where R: "resched s1 = Some s'" "kpre s' Q'" "sframe s1 s'" "qframe s1 Q s' Q'"
      "ndefers s1 \<le> 0 \<longrightarrow> kinv s' Q'"
      using resched_ok [OF pre(1)] by blast
    have "qframe s Q s' Q'" using R(4) by (simp add: qframe_def s1_def)
    moreover have "kinv s' Q'" using R(5) True by (simp add: s1_def)
    ultimately show ?thesis using R(1-3) True by (auto simp: resched_cntl_def s1_def)
  next
    case False
    then have "resched_cntl DEFER_STOP s = Some (OK, s1)"
      using assms by (auto simp: resched_cntl_def s1_def)
    moreover have "qframe s Q s1 Q" by (simp add: qframe_def s1_def)
    ultimately show ?thesis using pre False unfolding s1_def by auto
  qed
qed


text \<open>Fields of an entry that say nothing about where the process is.\<close>

lemma kgen_entry:
  assumes "prstate e = prstate (proctab s p)" "prsem e = prsem (proctab s p)"
  shows "kgen (s\<lparr>proctab := (proctab s)(p := e)\<rparr>) Q W = kgen s Q W"
    and "pqueue (s\<lparr>proctab := (proctab s)(p := e)\<rparr>) = pqueue s"
proof -
  let ?s = "s\<lparr>proctab := (proctab s)(p := e)\<rparr>"
  have "qid_of ?s = qid_of s" by (rule ext) (rename_tac n, case_tac n; simp)
  then have "layout ?s = layout s" by (simp add: layout_def)
  moreover have st: "prstate (proctab ?s x) = prstate (proctab s x)" "prsem (proctab ?s x) = prsem (proctab s x)" for x
    using assms by simp_all
  moreover have "wait_ok (proctab ?s x) = wait_ok (proctab s x)" for x
    using st [of x] unfolding wait_ok_def by simp
  moreover have "sched_ok ?s = sched_ok s" by (simp add: sched_ok_def)
  moreover have "prstate e = prstate (proctab s 0)" if "p = 0" using assms(1) that by simp
  ultimately show "kgen ?s Q W = kgen s Q W" unfolding kgen_def by (cases "p = 0") simp_all
  show "pqueue ?s = pqueue s"
  proof
    fix x
    show "pqueue ?s x = pqueue s x" using st [of x] unfolding pqueue_def pq_upd
      by (simp only: pq_def split: pstate.split)
  qed
qed

lemma kinv_entry:
  assumes "prstate e = prstate (proctab s p)" "prsem e = prsem (proctab s p)"
  shows "kinv (s\<lparr>proctab := (proctab s)(p := e)\<rparr>) Q = kinv s Q"
    "kpre (s\<lparr>proctab := (proctab s)(p := e)\<rparr>) Q = kpre s Q"
  using kgen_entry [OF assms] assms by (auto simp: kinv_def kpre_def)

section \<open>Outcome of a call that may reschedule\<close>

text \<open>
  \<open>settled t R s' Q'\<close>: up to a switch to another runnable process, the call did
  what takes the tables to \<open>t\<close> and the queues to \<open>R\<close>, and the invariant holds
  again.
\<close>

definition psettled :: "kernel \<Rightarrow> (int \<Rightarrow> int list) \<Rightarrow> kernel \<Rightarrow> (int \<Rightarrow> int list) \<Rightarrow> bool" where
  "psettled t R s' Q' \<longleftrightarrow> kpre s' Q' \<and> sframe t s' \<and> qframe t R s' Q'"

definition settled :: "kernel \<Rightarrow> (int \<Rightarrow> int list) \<Rightarrow> kernel \<Rightarrow> (int \<Rightarrow> int list) \<Rightarrow> bool" where
  "settled t R s' Q' \<longleftrightarrow> kinv s' Q' \<and> sframe t s' \<and> qframe t R s' Q'"

lemma settledD:
  "settled t R s' Q' \<Longrightarrow> kinv s' Q'" "settled t R s' Q' \<Longrightarrow> sframe t s'" "settled t R s' Q' \<Longrightarrow> qframe t R s' Q'"
  "settled t R s' Q' \<Longrightarrow> psettled t R s' Q'"
  by (simp_all add: settled_def psettled_def kinv_kpre)

lemma psettledD:
  "psettled t R s' Q' \<Longrightarrow> kpre s' Q'" "psettled t R s' Q' \<Longrightarrow> sframe t s'" "psettled t R s' Q' \<Longrightarrow> qframe t R s' Q'"
  by (simp_all add: psettled_def)

lemma settled_refl: "kinv s Q \<Longrightarrow> settled s Q s Q"
  by (simp add: settled_def qframe_def)

lemma psettled_trans:
  assumes "psettled t R u S" "psettled u S v V" shows "psettled t R v V"
  using assms sframe_trans qframe_trans [of t R u S v V] sframeD(1,4) [of t u]
  unfolding psettled_def by blast

lemma settled_trans:
  assumes "psettled t R u S" "settled u S v V" shows "settled t R v V"
  using assms psettled_trans [of t R u S v V] unfolding settled_def psettled_def by (auto simp: kinv_kpre)

text \<open>A step that changes no field the frames compare.\<close>

lemma sframe_settled:
  assumes "settled t R s' Q'" "sframe u t" "queuetab u = queuetab t"
  shows "settled u R s' Q'"
  using assms sframeD(1,4) [OF assms(2)] sframe_trans [OF assms(2)] unfolding settled_def qframe_def by auto

lemma resched_settled:
  assumes "kpre s Q" "ndefers s \<le> 0 \<or> kinv s Q"
  shows "\<exists>s' Q'. resched s = Some s' \<and> settled s Q s' Q'"
  using resched_ok [OF assms(1)] assms(2) unfolding settled_def by blast

lemma ready_settled:
  assumes "kout p s Q" "\<not> isbadpid s p"
    and "ndefers s \<le> 0 \<or> (p \<noteq> currpid s \<and> prstate (proctab s (currpid s)) = PR_CURR)"
  shows "\<exists>s' Q'. ready p s = Some (OK, s') \<and> settled (mkst PR_READY p s) Q s' Q'"
  using ready_ok [OF assms(1,2)] assms(3) unfolding settled_def qframe_def mkst_fields by blast

lemma sframe_ndefers:
  "sframe s s' \<Longrightarrow> sframe (s\<lparr>ndefers := n\<rparr>) (s'\<lparr>ndefers := n\<rparr>)"
proof -
  have "kerase (t\<lparr>ndefers := n\<rparr>) = (kerase t)\<lparr>ndefers := n\<rparr>" for t by (simp add: kerase_def)
  then show "sframe s s' \<Longrightarrow> sframe (s\<lparr>ndefers := n\<rparr>) (s'\<lparr>ndefers := n\<rparr>)" by (simp add: sframe_def)
qed

lemma sframe_attempt [simp]: "sframe (s\<lparr>attempt := b\<rparr>) t = sframe s t" "sframe t (s\<lparr>attempt := b\<rparr>) = sframe t s"
  by (simp_all add: sframe_def kerase_def)

text \<open>A call bracketed by \<open>DEFER_START\<close> and \<open>DEFER_STOP\<close>.\<close>

definition deferring :: "kernel \<Rightarrow> kernel" where
  "deferring s = s\<lparr>ndefers := ndefers s + 1, attempt := (if ndefers s = 0 then False else attempt s)\<rparr>"

lemma defer_semtab: "(deferring s)\<lparr>semtab := f\<rparr> = deferring (s\<lparr>semtab := f\<rparr>)"
  by (simp add: deferring_def)

lemma mkst_defer: "mkst st p (deferring s) = deferring (mkst st p s)"
  by (simp add: deferring_def mkst_def)

lemma fold_mkst_defer: "fold (mkst st) xs (deferring s) = deferring (fold (mkst st) xs s)"
  by (induction xs arbitrary: s) (simp_all add: mkst_defer)

lemma kcore_defer: "kcore (deferring s) = kcore s"
  by (simp add: kcore_def deferring_def)

lemma defer_start:
  assumes "kinv s Q"
  shows "\<exists>s0. resched_cntl DEFER_START s = Some (OK, s0) \<and> s0 = deferring s \<and> kinv s0 Q"
  using resched_cntl_start_ok [OF kinv_kpre [OF assms]] kinv_core [OF kcore_defer] assms
  by (simp add: deferring_def)

lemma defer_stop:
  assumes st: "settled (deferring t) R s1 Q1" and nd: "0 \<le> ndefers t"
  shows "\<exists>s2 Q2. resched_cntl DEFER_STOP s1 = Some (OK, s2) \<and> settled t R s2 Q2"
proof -
  note D = settledD [OF st]
  have n1: "ndefers s1 = ndefers t + 1" using sframeD(7) [OF D(2)] by (simp add: deferring_def)
  obtain s2 Q2 where R: "resched_cntl DEFER_STOP s1 = Some (OK, s2)"
    "sframe (s1\<lparr>ndefers := ndefers s1 - 1\<rparr>) s2" "qframe s1 Q1 s2 Q2" "kinv s1 Q1 \<longrightarrow> kinv s2 Q2"
    using resched_cntl_stop_ok [OF kinv_kpre [OF D(1)]] n1 nd by auto
  have "sframe ((deferring t)\<lparr>ndefers := ndefers t\<rparr>) (s1\<lparr>ndefers := ndefers t\<rparr>)"
    by (rule sframe_ndefers [OF D(2)])
  moreover have "sframe t ((deferring t)\<lparr>ndefers := ndefers t\<rparr>)"
    by (simp add: sframe_def kerase_def deferring_def)
  moreover have "sframe (s1\<lparr>ndefers := ndefers t\<rparr>) s2" using R(2) n1 by simp
  ultimately have "sframe t s2" using sframe_trans by blast
  moreover have "qframe t R s2 Q2"
    using qframe_trans [OF D(3) R(3)] sframeD(1,4) [OF D(2)] by (simp add: qframe_def deferring_def)
  ultimately show ?thesis using R(1,4) D(1) by (auto simp: settled_def)
qed

lemma fold_mkst_fields [simp]:
  "semtab (fold (mkst st) xs s) = semtab s" "ndefers (fold (mkst st) xs s) = ndefers s"
  "nextqid (fold (mkst st) xs s) = nextqid s" "readylist (fold (mkst st) xs s) = readylist s"
  "queuetab (fold (mkst st) xs s) = queuetab s" "nextsem (fold (mkst st) xs s) = nextsem s"
  "rwbtab (fold (mkst st) xs s) = rwbtab s" "sleepq (fold (mkst st) xs s) = sleepq s"
  "rwbflags (fold (mkst st) xs s) = rwbflags s" "currpid (fold (mkst st) xs s) = currpid s"
  "nextrwb (fold (mkst st) xs s) = nextrwb s" "nextpid (fold (mkst st) xs s) = nextpid s"
  "kcont (fold (mkst st) xs s) = kcont s"
  by (induction xs arbitrary: s) simp_all

lemma sframe_fold_mkst: "sframe s s' \<Longrightarrow> sframe (fold (mkst st) xs s) (fold (mkst st) xs s')"
  by (induction xs arbitrary: s s') (simp_all add: sframe_mkst)

lemma qframe_shrink:
  assumes "qframe t R u S" "set xs \<subseteq> set (R q)"
  shows "qframe t (R(q := xs)) u (S(q := xs))"
  using assms by (auto simp: qframe_def)

lemma settled_shift:
  assumes "settled t R u S" "settled (f u) (S(q := xs)) v V" "sframe (f t) (f u)"
    and "set xs \<subseteq> set (R q)" "queuetab (f t) = queuetab t" "queuetab (f u) = queuetab u"
    and "nextqid (f t) = nextqid t" "readylist (f t) = readylist t"
  shows "settled (f t) (R(q := xs)) v V"
proof -
  have "qframe (f t) (R(q := xs)) (f u) (S(q := xs))"
    using qframe_shrink [OF settledD(3) [OF assms(1)] assms(4)] assms(5-8) by (simp add: qframe_def)
  then have "qframe (f t) (R(q := xs)) v V"
    using qframe_trans settledD(3) [OF assms(2)] sframeD(1,4) [OF assms(3)] by blast
  then show ?thesis using assms(2,3) sframe_trans by (auto simp: settled_def)
qed

text \<open>Linking a process at the tail of the queue its entry names.\<close>

lemma kout_enqueue:
  assumes out: "kout p s Q" and p: "\<not> isbadpid s p" and q: "q \<in> qids (nextqid s)"
    and ne: "q \<noteq> readylist s" "q \<noteq> sleepq s" "q \<noteq> scratchlist s" and pq: "pqueue s p = Some q"
  shows "\<exists>t. enqueue p q s = Some (p, s\<lparr>queuetab := t\<rparr>)
    \<and> kpre (s\<lparr>queuetab := t\<rparr>) (Q(q := Q q @ [p])) \<and> (\<forall>x. qkey (t x) = keyof s x)"
proof -
  note P = koutD [OF out]
  obtain t where e: "enqueue p q s = Some (p, s\<lparr>queuetab := t\<rparr>)"
    and rel: "qrel t (nextqid s) (Q(q := Q q @ [p])) (((pqueue s)(p := None))(p := Some q))"
    and k: "\<forall>x. qkey (t x) = keyof s x"
    using enqueue_ok [OF P(3) q p] by auto
  have "desc (\<lambda>x. qkey (t x)) (Q (readylist s))" using P(9) k by simp
  moreover have "skeys t (Q (sleepq s))" using P(11) skeys_cong [of "Q (sleepq s)" t "queuetab s"] k by simp
  moreover have "((pqueue s)(p := None))(p := Some q) = pqueue s" using pq by (simp add: fun_upd_idem_iff)
  ultimately have "kgen (s\<lparr>queuetab := t\<rparr>) (Q(q := Q q @ [p])) (pqueue s)"
    using kgen_queuetab [OF out [unfolded kout_def] rel] ne P(10) by simp
  then show ?thesis using e k unfolding kpre_def by auto
qed

text \<open>The running process leaves the processor: accounting, then its new entry.\<close>

lemma leave_cpu:
  assumes inv: "kinv s Q" and c: "currpid s \<noteq> 0"
    and F: "\<And>e. perase (F e) = perase (F (e\<lparr>prprio := 0, timestatein := ztime, statetimes := (\<lambda>_ _. ztime)\<rparr>))"
    and w: "\<And>e. wait_ok (F e)" "\<And>e. prstate (F e) \<noteq> PR_CURR"
  shows "\<exists>r s1. record_cpuqdata (currpid s) s = Some (r, s1) \<and> aframe s s1 \<and> kinv s1 Q
    \<and> upd_proc (currpid s) F s1 = Some (s1\<lparr>proctab := (proctab s1)(currpid s := F (proctab s1 (currpid s)))\<rparr>)
    \<and> kout (currpid s) (s1\<lparr>proctab := (proctab s1)(currpid s := F (proctab s1 (currpid s)))\<rparr>) Q
    \<and> sframe (s\<lparr>proctab := (proctab s)(currpid s := F (proctab s (currpid s)))\<rparr>)
        (s1\<lparr>proctab := (proctab s1)(currpid s := F (proctab s1 (currpid s)))\<rparr>)"
proof -
  let ?c = "currpid s"
  have pre: "kpre s Q" and cur: "prstate (proctab s ?c) = PR_CURR" using inv by (simp_all add: kinv_def)
  note P = kpreD [OF pre]
  obtain r s1 where r1: "record_cpuqdata ?c s = Some (r, s1)" and a1: "aframe s s1"
    using record_ok [OF P(2)] by metis
  note A = aframeD [OF a1]
  have inv1: "kinv s1 Q" using kinv_aframe [OF a1] inv by simp
  have "pqueue s1 ?c = None" using cur A(7) [of ?c] by (simp add: pqueue_def pq_def)
  then have "kout ?c s1 Q" using kpre_kout [OF kinv_kpre [OF inv1]] by simp
  then have o: "kout ?c (s1\<lparr>proctab := (proctab s1)(?c := F (proctab s1 ?c))\<rparr>) Q"
    by (rule kout_set) (use P(4,5) c w in auto)
  have pe: "perase (F (proctab s1 ?c)) = perase (F (proctab s ?c))"
  proof -
    have "(proctab s1 ?c)\<lparr>prprio := 0, timestatein := ztime, statetimes := (\<lambda>_ _. ztime)\<rparr>
        = (proctab s ?c)\<lparr>prprio := 0, timestatein := ztime, statetimes := (\<lambda>_ _. ztime)\<rparr>"
      using sframe_procD [OF A(1), of ?c] A(7) [of ?c] by simp
    then show ?thesis using F [of "proctab s1 ?c"] F [of "proctab s ?c"] by simp
  qed
  have "kerase (s1\<lparr>proctab := (proctab s1)(?c := F (proctab s1 ?c))\<rparr>)
      = (kerase s1)\<lparr>proctab := (proctab (kerase s1))(?c := perase (F (proctab s1 ?c)))\<rparr>"
    by (simp add: kerase_def fun_eq_iff)
  also have "\<dots> = (kerase s)\<lparr>proctab := (proctab (kerase s))(?c := perase (F (proctab s ?c)))\<rparr>"
    using A(1) pe by (simp add: sframe_def)
  also have "\<dots> = kerase (s\<lparr>proctab := (proctab s)(?c := F (proctab s ?c))\<rparr>)"
    by (simp add: kerase_def fun_eq_iff)
  finally show ?thesis using r1 a1 inv1 o P(4,5) by (simp add: sframe_def)
qed

section \<open>yield, resume, suspend, chprio\<close>

lemma yield_ok:
  assumes "kinv s Q"
  shows "\<exists>s' Q'. yield s = Some (OK, s') \<and> settled s Q s' Q'"
  using resched_settled [OF kinv_kpre [OF assms]] assms by (fastforce simp: yield_def)

lemma resume_bad:
  "isbadpid s pid \<or> prstate (proctab s pid) \<noteq> PR_SUSP \<Longrightarrow> resume pid s = Some (SYSERR, s)"
  by (auto simp: resume_def)

lemma kinv_not_cur:
  "kinv s Q \<Longrightarrow> 0 \<le> p \<Longrightarrow> p < 100 \<Longrightarrow> prstate (proctab s p) \<noteq> PR_CURR \<Longrightarrow> p \<noteq> currpid s"
  by (auto simp: kinv_def)

lemma resume_ok:
  assumes inv: "kinv s Q" and p: "\<not> isbadpid s pid" and st: "prstate (proctab s pid) = PR_SUSP"
  shows "\<exists>s' Q'. resume pid s = Some (prprio (proctab s pid), s') \<and> settled (mkst PR_READY pid s) Q s' Q'"
proof -
  have "pid \<noteq> currpid s" "prstate (proctab s (currpid s)) = PR_CURR" using inv st by (auto simp: kinv_def)
  moreover have "kout pid s Q"
    using kpre_kout [OF kinv_kpre [OF inv]] st by (simp add: pqueue_def pq_def)
  ultimately show ?thesis
    using ready_settled [of pid s Q] p st by (fastforce simp: resume_def)
qed

text \<open>Where a process that is linked sits in its queue.\<close>

lemma kpre_linked:
  assumes "kpre s Q" "0 \<le> p" "p < 100" "pqueue s p = Some q" "q \<in> qids (nextqid s)"
  obtains ys zs where "Q q = ys @ p # zs"
proof -
  have "p \<in> set (Q q)" using qrelD(3) [OF kpreD(3) [OF assms(1)] assms(5), of p] assms(2-4) by simp
  then show thesis using split_list that by metis
qed

lemma getitem_out:
  assumes pre: "kpre s Q" and q: "q \<in> qids (nextqid s)" and Qq: "Q q = ys @ p # zs"
  shows "\<exists>t. getitem p s = Some (p, s\<lparr>queuetab := t\<rparr>) \<and> kout p (s\<lparr>queuetab := t\<rparr>) (Q(q := ys @ zs))
    \<and> (\<forall>x. qkey (t x) = keyof s x)"
proof -
  obtain t where g: "getitem p s = Some (p, s\<lparr>queuetab := t\<rparr>)"
    and r: "qrel t (nextqid s) (Q(q := ys @ zs)) ((pqueue s)(p := None))" and k: "\<forall>x. qkey (t x) = keyof s x"
    using getitem_ok [OF kpreD(3) [OF pre] q Qq] by blast
  then show ?thesis using kout_unlink [OF pre q Qq r] by blast
qed

lemma dequeue_out:
  assumes pre: "kpre s Q" and q: "q \<in> qids (nextqid s)" and Qq: "Q q = p # zs"
  shows "\<exists>t. dequeue q s = Some (p, s\<lparr>queuetab := t\<rparr>) \<and> kout p (s\<lparr>queuetab := t\<rparr>) (Q(q := zs))
    \<and> (\<forall>x. qkey (t x) = keyof s x)"
proof -
  obtain t where g: "dequeue q s = Some (p, s\<lparr>queuetab := t\<rparr>)"
    and r: "qrel t (nextqid s) (Q(q := [] @ zs)) ((pqueue s)(p := None))" and k: "\<forall>x. qkey (t x) = keyof s x"
    using dequeue_ok(2) [OF kpreD(3) [OF pre] q Qq] by auto
  then show ?thesis using kout_unlink [OF pre q _ r] Qq by auto
qed

lemma getfirst_out:
  assumes pre: "kpre s Q" and q: "q \<in> qids (nextqid s)" and Qq: "Q q = p # zs"
  shows "\<exists>t. getfirst q s = Some (p, s\<lparr>queuetab := t\<rparr>) \<and> kout p (s\<lparr>queuetab := t\<rparr>) (Q(q := zs))
    \<and> (\<forall>x. qkey (t x) = keyof s x)"
proof -
  obtain t where g: "getfirst q s = Some (p, s\<lparr>queuetab := t\<rparr>)"
    and r: "qrel t (nextqid s) (Q(q := [] @ zs)) ((pqueue s)(p := None))" and k: "\<forall>x. qkey (t x) = keyof s x"
    using getfirst_ok(2) [OF kpreD(3) [OF pre] q Qq] by auto
  then show ?thesis using kout_unlink [OF pre q _ r] Qq by auto
qed

text \<open>The head of a queue is taken off and made ready.\<close>

lemma release_head:
  assumes inv: "kinv s Q" and q: "q \<in> qids (nextqid s)" "q \<noteq> readylist s" and Qq: "Q q = p # zs"
  shows "\<exists>t s' Q'. dequeue q s = Some (p, s\<lparr>queuetab := t\<rparr>) \<and> ready p (s\<lparr>queuetab := t\<rparr>) = Some (OK, s')
      \<and> settled (mkst PR_READY p s) (Q(q := zs)) s' Q'"
    and "\<exists>t s' Q'. getfirst q s = Some (p, s\<lparr>queuetab := t\<rparr>) \<and> ready p (s\<lparr>queuetab := t\<rparr>) = Some (OK, s')
      \<and> settled (mkst PR_READY p s) (Q(q := zs)) s' Q'"
proof -
  have pre: "kpre s Q" and cur: "prstate (proctab s (currpid s)) = PR_CURR" using inv by (simp_all add: kinv_def)
  have m: "0 \<le> p" "p < 100" "pqueue s p = Some q"
    using qrel_member [OF kpreD(3) [OF pre] q(1), of p] Qq by simp_all
  then have pc: "p \<noteq> currpid s" and nb: "\<not> isbadpid s p"
    using cur by (auto simp: pqueue_def pq_def isbadpid_def)
  have R: "\<exists>s' Q'. ready p (s\<lparr>queuetab := t\<rparr>) = Some (OK, s') \<and> settled (mkst PR_READY p s) (Q(q := zs)) s' Q'"
    if o: "kout p (s\<lparr>queuetab := t\<rparr>) (Q(q := zs))" and k: "\<forall>x. qkey (t x) = keyof s x" for t
  proof -
    obtain s' Q' where r: "ready p (s\<lparr>queuetab := t\<rparr>) = Some (OK, s')"
      and st: "settled (mkst PR_READY p (s\<lparr>queuetab := t\<rparr>)) (Q(q := zs)) s' Q'"
      using ready_settled [OF o] nb pc cur by (auto simp: isbadpid_def)
    have "mkst PR_READY p (s\<lparr>queuetab := t\<rparr>) = (mkst PR_READY p s)\<lparr>queuetab := t\<rparr>" by (simp add: mkst_def)
    then have "settled (mkst PR_READY p s) (Q(q := zs)) s' Q'"
      using st k unfolding settled_def qframe_def by simp
    then show ?thesis using r by blast
  qed
  obtain t where "dequeue q s = Some (p, s\<lparr>queuetab := t\<rparr>)" "kout p (s\<lparr>queuetab := t\<rparr>) (Q(q := zs))"
    "\<forall>x. qkey (t x) = keyof s x"
    using dequeue_out [OF pre q(1) Qq] by blast
  then show "\<exists>t s' Q'. dequeue q s = Some (p, s\<lparr>queuetab := t\<rparr>) \<and> ready p (s\<lparr>queuetab := t\<rparr>) = Some (OK, s')
      \<and> settled (mkst PR_READY p s) (Q(q := zs)) s' Q'" using R by blast
  obtain t where "getfirst q s = Some (p, s\<lparr>queuetab := t\<rparr>)" "kout p (s\<lparr>queuetab := t\<rparr>) (Q(q := zs))"
    "\<forall>x. qkey (t x) = keyof s x"
    using getfirst_out [OF pre q(1) Qq] by blast
  then show "\<exists>t s' Q'. getfirst q s = Some (p, s\<lparr>queuetab := t\<rparr>) \<and> ready p (s\<lparr>queuetab := t\<rparr>) = Some (OK, s')
      \<and> settled (mkst PR_READY p s) (Q(q := zs)) s' Q'" using R by blast
qed

lemma kcore_deliver: "kcore (deliver me v s) = kcore s"
  by (simp add: kcore_def deliver_def)

lemma kcore_cont: "kcore (s\<lparr>kcont := f\<rparr>) = kcore s"
  by (simp add: kcore_def)

lemmas kinv_deliver [simp] = kinv_core [OF kcore_deliver]
lemmas kinv_cont [simp] = kinv_core [OF kcore_cont]

lemma suspend_bad:
  "isbadpid s pid \<or> pid = NULLPROC \<or> (prstate (proctab s pid) \<noteq> PR_CURR \<and> prstate (proctab s pid) \<noteq> PR_READY) \<Longrightarrow>
   suspend pid s = Some (deliver (currpid s) SYSERR s)"
  by (auto simp: suspend_def Let_def)

lemma suspend_ready_ok:
  assumes inv: "kinv s Q" and p: "\<not> isbadpid s pid" "pid \<noteq> 0" and st: "prstate (proctab s pid) = PR_READY"
  defines "R \<equiv> Q(readylist s := remove1 pid (Q (readylist s)))"
  shows "\<exists>s'. suspend pid s = Some (deliver (currpid s) (prprio (proctab s pid)) s')
    \<and> settled (mkst PR_SUSP pid s) R s' R \<and> currpid s' = currpid s"
proof -
  have pre: "kpre s Q" using inv by (rule kinv_kpre)
  have pb: "0 \<le> pid" "pid < 100" using p by (simp_all add: isbadpid_def)
  note P = kpreD [OF pre]
  obtain r s1 where r1: "record_cpuqdata (currpid s) s = Some (r, s1)" and a1: "aframe s s1"
    and pr: "prprio (proctab s1 pid) = prprio (proctab s pid)"
    using record_ok [OF P(2)] by metis
  note A = aframeD [OF a1] and F = sframeD [OF aframeD(1) [OF a1]]
  have pre1: "kpre s1 Q" using kpre_aframe [OF a1] pre by simp
  have st1: "prstate (proctab s1 pid) = PR_READY" using A(7) [of pid] st by simp
  have pq1: "pqueue s1 pid = Some (readylist s1)" using st1 by (simp add: pqueue_def pq_def)
  obtain ys zs where L: "Q (readylist s1) = ys @ pid # zs"
    by (rule kpre_linked [OF pre1 pb pq1 layout_ready [OF kpreD(1) [OF pre1]]])
  obtain t where g: "getitem pid s1 = Some (pid, s1\<lparr>queuetab := t\<rparr>)"
    and o: "kout pid (s1\<lparr>queuetab := t\<rparr>) (Q(readylist s1 := ys @ zs))" and ks: "\<And>x. qkey (t x) = keyof s1 x"
    using getitem_out [OF pre1 layout_ready [OF kpreD(1) [OF pre1]] L] by blast
  define s2 where "s2 = mkst PR_SUSP pid (s1\<lparr>queuetab := t\<rparr>)"
  have o2: "kout pid s2 (Q(readylist s1 := ys @ zs))"
    unfolding s2_def mkst_def by (rule kout_set [OF o]) (use pb p in \<open>simp_all add: wait_ok_def\<close>)
  have "pqueue s2 pid = None" by (simp add: s2_def pqueue_def pq_def)
  then have "kpre s2 (Q(readylist s1 := ys @ zs))" by (rule kout_kpre [OF o2])
  moreover have "pid \<noteq> currpid s" using inv st by (auto simp: kinv_def)
  ultimately have "kinv s2 (Q(readylist s1 := ys @ zs))"
    using inv A(3) A(7) [of "currpid s"] by (simp add: kinv_def s2_def)
  moreover have "ys @ zs = remove1 pid (Q (readylist s))"
    using L F(4) qrelD(2) [OF P(3) layout_ready [OF P(1)]] by (simp add: remove1_append)
  ultimately have "kinv s2 R" using F(4) by (simp add: R_def)
  moreover have "sframe (mkst PR_SUSP pid s) s2" unfolding s2_def by (rule sframe_mkst) (simp add: A(1))
  moreover have "qframe (mkst PR_SUSP pid s) R s2 R" by (simp add: qframe_def s2_def ks A(2))
  moreover have "suspend pid s = Some (deliver (currpid s) (prprio (proctab s pid)) s2)"
    using p pb st st1 r1 g pr by (simp add: suspend_def Let_def suspend_rest_def s2_def)
  ultimately show ?thesis using A(3) by (auto simp: settled_def s2_def)
qed

lemma suspend_self_ok:
  assumes inv: "kinv s Q" and p: "currpid s \<noteq> 0" and nd: "ndefers s \<le> 0"
  shows "\<exists>s' Q'. suspend (currpid s) s = Some (s'\<lparr>kcont := (kcont s)(currpid s := kcont s (currpid s) @ [KSuspend (currpid s)])\<rparr>)
    \<and> settled (mkst PR_SUSP (currpid s) s) Q s' Q' \<and> Q (readylist s) = currpid s' # Q' (readylist s)
    \<and> currpid s' \<noteq> currpid s"
proof -
  let ?c = "currpid s"
  have pre: "kpre s Q" and cur: "prstate (proctab s ?c) = PR_CURR" using inv by (simp_all add: kinv_def)
  note P = kpreD [OF pre]
  obtain r s1 where r1: "record_cpuqdata ?c s = Some (r, s1)" and a1: "aframe s s1"
    using record_ok [OF P(2)] by metis
  note A = aframeD [OF a1] and F = sframeD [OF aframeD(1) [OF a1]]
  define s2 where "s2 = mkst PR_SUSP ?c s1"
  have pre1: "kpre s1 Q" using kpre_aframe [OF a1] pre by simp
  have "pqueue s1 ?c = None" using cur A(7) [of ?c] by (simp add: pqueue_def pq_def)
  then have pre2: "kpre s2 Q" unfolding s2_def mkst_def
    by (intro kpre_set [OF pre1]) (use P(4,5) p in \<open>simp_all add: wait_ok_def pq_def\<close>)
  have c2: "prstate (proctab s2 (currpid s2)) \<noteq> PR_CURR" "ndefers s2 \<le> 0" "readylist s2 = readylist s"
    using A(3) F nd by (simp_all add: s2_def)
  obtain s' rest where R: "resched s2 = Some s'" "Q (readylist s2) = currpid s' # rest"
    "kinv s' (Q(readylist s2 := rest))" "sframe s2 s'" "\<And>x. keyof s' x = keyof s2 x"
    using resched_gone [OF pre2 c2(2,1)] by blast
  have ne: "currpid s' \<noteq> ?c"
    using R(2) c2(3) qrel_member [OF P(3) layout_ready [OF P(1)], of "currpid s'"] cur
    by (auto simp: pqueue_def pq_def)
  have run: "suspend ?c s = Some (s'\<lparr>kcont := (kcont s)(?c := kcont s ?c @ [KSuspend ?c])\<rparr>)"
    using P(4,5) p cur r1 R(1) ne A(7) [of ?c] sframeD(19) [OF R(4)] F(19)
    by (simp add: suspend_def Let_def isbadpid_def s2_def after_def)
  have "sframe (mkst PR_SUSP ?c s) s2" unfolding s2_def by (rule sframe_mkst [OF A(1)])
  then have "sframe (mkst PR_SUSP ?c s) s'" using R(4) sframe_trans by blast
  moreover have "qframe (mkst PR_SUSP ?c s) Q s' (Q(readylist s := rest))"
    using R(5) by (simp add: qframe_def s2_def A(2))
  ultimately have "settled (mkst PR_SUSP ?c s) Q s' (Q(readylist s := rest))"
    using R(3) c2(3) by (simp add: settled_def)
  then show ?thesis using run R(2) ne c2(3) by fastforce
qed

lemma chprio_ok:
  assumes inv: "kinv s Q" and p: "\<not> isbadpid s pid"
  shows "\<exists>s'. chprio pid newprio s = Some (prprio (proctab s pid), s') \<and> kinv s' Q
    \<and> prprio (proctab s' pid) = newprio
    \<and> prprio0 (proctab s' pid) = (if envtab s EV_SCHEDULER = QTYPE_PRIORITY then newprio else prprio0 (proctab s pid))"
proof -
  have pb: "0 \<le> pid" "pid < 100" using p by (simp_all add: isbadpid_def)
  define e where "e = (if envtab s EV_SCHEDULER = QTYPE_PRIORITY then (proctab s pid)\<lparr>prprio := newprio, prprio0 := newprio\<rparr>
    else (proctab s pid)\<lparr>prprio := newprio\<rparr>)"
  define s' where "s' = s\<lparr>proctab := (proctab s)(pid := e)\<rparr>"
  have run: "chprio pid newprio s = Some (prprio (proctab s pid), s')"
    using p pb by (simp add: chprio_def s'_def e_def)
  have e: "prstate e = prstate (proctab s pid)" "prsem e = prsem (proctab s pid)" by (simp_all add: e_def)
  have "kinv s' Q" using inv kinv_entry(1) [OF e] by (simp add: s'_def)
  then show ?thesis using run by (auto simp: s'_def e_def)
qed

end
