(* ===== verification/RingAlloc.thy ===== *)
theory RingAlloc
  imports XPrelude
begin

text \<open>
  Four tables of the kernel (semaphores, blockers, processes, ports) hand out a free entry
  with the same loop: a static cursor goes round the table, at most once, and takes the
  first free entry it meets.  The locale states what the loops share; each table gives an
  interpretation.
\<close>

locale ring_alloc =
  fixes size :: int
    and cursor :: "'s \<Rightarrow> int"
    and step :: "'s \<Rightarrow> 's"
    and vacant :: "'s \<Rightarrow> int \<Rightarrow> bool"
    and grab :: "int \<Rightarrow> 's \<Rightarrow> (int \<times> 's) option"
    and search :: "nat \<Rightarrow> 's \<Rightarrow> (int \<times> 's) option"
    and ok :: "'s \<Rightarrow> bool"
  assumes size_pos: "0 < size"
    and cursor_ok: "ok s \<Longrightarrow> 0 \<le> cursor s \<and> cursor s < size"
    and step_ok: "ok s \<Longrightarrow> ok (step s)"
    and cursor_step: "ok s \<Longrightarrow> cursor (step s) = (cursor s + 1) mod size"
    and vacant_step: "ok s \<Longrightarrow> 0 \<le> i \<Longrightarrow> i < size \<Longrightarrow> vacant (step s) i = vacant s i"
    and search_0: "ok s \<Longrightarrow> search 0 s = Some (SYSERR, s)"
    and search_Suc: "ok s \<Longrightarrow> search (Suc k) s =
      (if vacant s (cursor s) then grab (cursor s) (step s) else search k (step s))"
begin

lemma steps_ok: "ok s \<Longrightarrow> ok ((step ^^ m) s)"
  by (induction m) (simp_all add: step_ok)

lemma steps_cursor: "ok s \<Longrightarrow> cursor ((step ^^ m) s) = (cursor s + int m) mod size"
proof (induction m)
  case 0
  then show ?case using cursor_ok by simp
next
  case (Suc m)
  then show ?case using cursor_step [OF steps_ok [OF Suc.prems, of m]]
    by (simp add: mod_add_right_eq add.commute add.left_commute)
qed

lemma steps_vacant: "ok s \<Longrightarrow> 0 \<le> i \<Longrightarrow> i < size \<Longrightarrow> vacant ((step ^^ m) s) i = vacant s i"
  by (induction m) (simp_all add: vacant_step steps_ok)

definition slot :: "'s \<Rightarrow> nat \<Rightarrow> int" where
  "slot s m = (cursor s + int m) mod size"

lemma slot_bounds: "0 \<le> slot s m \<and> slot s m < size"
  using size_pos by (simp add: slot_def)

lemma search_skip:
  "ok s \<Longrightarrow> (\<And>j. j < m \<Longrightarrow> \<not> vacant s (slot s j)) \<Longrightarrow> search (m + k) s = search k ((step ^^ m) s)"
proof (induction m arbitrary: k)
  case (Suc m)
  have "search (m + Suc k) s = search (Suc k) ((step ^^ m) s)" using Suc.IH [of "Suc k"] Suc.prems by (simp del: add_Suc_right)
  moreover have "\<not> vacant ((step ^^ m) s) (cursor ((step ^^ m) s))"
    using Suc.prems(2) [of m] Suc.prems(1) steps_cursor steps_vacant slot_bounds [of s m]
    by (simp add: slot_def)
  ultimately show ?case using search_Suc [OF steps_ok [OF Suc.prems(1), of m]] by simp
qed simp

text \<open>The first vacant slot at or after the cursor is the one taken.\<close>

lemma search_first:
  assumes "ok s" "vacant s (slot s m)" "\<And>j. j < m \<Longrightarrow> \<not> vacant s (slot s j)" "m < n"
  shows "search n s = grab (slot s m) ((step ^^ Suc m) s)"
proof -
  obtain k where n: "n = m + Suc k" using assms(4) less_imp_add_positive by (metis Suc_pred)
  have "search n s = search (Suc k) ((step ^^ m) s)" unfolding n by (rule search_skip [OF assms(1,3)])
  moreover have "vacant ((step ^^ m) s) (slot s m)"
    using steps_vacant [OF assms(1)] slot_bounds assms(2) by blast
  ultimately show ?thesis
    using search_Suc [OF steps_ok [OF assms(1), of m]] steps_cursor [OF assms(1), of m]
    by (simp add: slot_def)
qed

text \<open>Every entry is one of the slots.\<close>

lemma slot_onto:
  assumes "ok s" "0 \<le> i" "i < size"
  obtains m where "m < nat size" "slot s m = i"
proof
  define m where "m = nat ((i - cursor s) mod size)"
  have "int m = (i - cursor s) mod size" using size_pos by (simp add: m_def)
  then show "slot s m = i" using assms by (simp add: slot_def mod_add_right_eq)
  show "m < nat size" using size_pos by (simp add: m_def)
qed

lemma search_full:
  assumes "ok s" "\<And>i. 0 \<le> i \<Longrightarrow> i < size \<Longrightarrow> \<not> vacant s i"
  shows "search n s = Some (SYSERR, (step ^^ n) s)"
  using search_skip [OF assms(1), of n 0] assms(2) slot_bounds search_0 [OF steps_ok [OF assms(1), of n]]
  by simp

lemma search_finds:
  assumes "ok s" "0 \<le> i" "i < size" "vacant s i"
  shows "\<exists>m. m < nat size \<and> vacant s (slot s m) \<and> (\<forall>j<m. \<not> vacant s (slot s j))
    \<and> search (nat size) s = grab (slot s m) ((step ^^ Suc m) s)"
proof -
  obtain m where m: "m < nat size" "slot s m = i" by (rule slot_onto [OF assms(1-3)])
  define l where "l = (LEAST l. vacant s (slot s l))"
  have l: "vacant s (slot s l)" unfolding l_def by (rule LeastI [of _ m]) (simp add: m assms)
  have lm: "l \<le> m" unfolding l_def by (rule Least_le) (simp add: m assms)
  have nl: "\<not> vacant s (slot s j)" if "j < l" for j using that unfolding l_def by (rule not_less_Least)
  have "search (nat size) s = grab (slot s l) ((step ^^ Suc l) s)"
    by (rule search_first [OF assms(1) l]) (use nl lm m in auto)
  then show ?thesis using l nl lm m by (intro exI [of _ l]) auto
qed

end

end
