(* ===== verification/Sems.thy ===== *)
theory Sems
  imports SchedOps RingAlloc
begin

text \<open>
  Counting semaphores: \<open>system/wait.c\<close>, \<open>system/signal.c\<close>,
  \<open>system/signaln.c\<close>, \<open>system/semcreate.c\<close>, \<open>system/semdelete.c\<close>,
  \<open>system/semreset.c\<close> and \<open>system/semcount.c\<close>.  The invariant of the
  semaphore table is the one the count was designed for: a negative count is the number
  of processes waiting, and nobody waits when the count is not negative.
\<close>

section \<open>The operations\<close>

definition sement :: "int \<Rightarrow> kernel \<Rightarrow> sentry option" where
  "sement i s = (if 0 \<le> i \<and> i < NSEM then Some (semtab s i) else None)"

definition upd_sem :: "int \<Rightarrow> (sentry \<Rightarrow> sentry) \<Rightarrow> kernel \<Rightarrow> kernel option" where
  "upd_sem i f s =
     (if 0 \<le> i \<and> i < NSEM then Some (s\<lparr>semtab := (semtab s)(i := f (semtab s i))\<rparr>) else None)"

definition wait :: "int \<Rightarrow> kernel \<Rightarrow> (int \<times> kernel) option" where
  "wait sem s =
     (if isbadsem sem then Some (SYSERR, s)
      else do {
        e \<leftarrow> sement sem s;
        if sstate e = S_FREE then Some (SYSERR, s)
        else do {
          c \<leftarrow> chk32 (scount e - 1);
          s \<leftarrow> upd_sem sem (\<lambda>e. e\<lparr>scount := c\<rparr>) s;
          if c < 0 then do {
            (_, s) \<leftarrow> record_cpuqdata (currpid s) s;
            s \<leftarrow> upd_proc (currpid s) (\<lambda>e. e\<lparr>prstate := PR_WAIT, prsem := sem\<rparr>) s;
            (_, s) \<leftarrow> enqueue (currpid s) (squeue e) s;
            s \<leftarrow> resched s;
            Some (OK, s)
          } else Some (OK, s)
        }
      })"

text \<open>One increment of a semaphore with the release it may cause, as in \<open>signal\<close> and \<open>signaln\<close>.\<close>

definition sem_up :: "int \<Rightarrow> kernel \<Rightarrow> kernel option" where
  "sem_up sem s = do {
     e \<leftarrow> sement sem s;
     c \<leftarrow> chk32 (scount e + 1);
     s \<leftarrow> upd_sem sem (\<lambda>e. e\<lparr>scount := c\<rparr>) s;
     if scount e < 0 then do {
       (pid, s) \<leftarrow> dequeue (squeue e) s;
       (_, s) \<leftarrow> ready pid s;
       Some s
     } else Some s
   }"

definition signal :: "int \<Rightarrow> kernel \<Rightarrow> (int \<times> kernel) option" where
  "signal sem s =
     (if isbadsem sem then Some (SYSERR, s)
      else do {
        e \<leftarrow> sement sem s;
        if sstate e = S_FREE then Some (SYSERR, s)
        else do { s \<leftarrow> sem_up sem s; Some (OK, s) }
      })"

partial_function (option) signaln_loop :: "int \<Rightarrow> int \<Rightarrow> kernel \<Rightarrow> kernel option" where
  "signaln_loop sem count s =
     (if count > 0 then do { s \<leftarrow> sem_up sem s; signaln_loop sem (count - 1) s } else Some s)"

definition signaln :: "int \<Rightarrow> int \<Rightarrow> kernel \<Rightarrow> (int \<times> kernel) option" where
  "signaln sem count s =
     (if isbadsem sem \<or> count < 0 then Some (SYSERR, s)
      else do {
        e \<leftarrow> sement sem s;
        if sstate e = S_FREE then Some (SYSERR, s)
        else do {
          (_, s) \<leftarrow> resched_cntl DEFER_START s;
          s \<leftarrow> signaln_loop sem count s;
          (_, s) \<leftarrow> resched_cntl DEFER_STOP s;
          Some (OK, s)
        }
      })"

fun newsem_loop :: "nat \<Rightarrow> kernel \<Rightarrow> (int \<times> kernel) option" where
  "newsem_loop 0 s = Some (SYSERR, s)"
| "newsem_loop (Suc i) s =
     (let sem = nextsem s;
          s = s\<lparr>nextsem := nextsem s + 1\<rparr>;
          s = (if nextsem s \<ge> NSEM then s\<lparr>nextsem := 0\<rparr> else s)
      in do {
        e \<leftarrow> sement sem s;
        if sstate e = S_FREE then do {
          s \<leftarrow> upd_sem sem (\<lambda>e. e\<lparr>sstate := S_USED\<rparr>) s;
          Some (sem, s)
        } else newsem_loop i s
      })"

definition newsem :: "kernel \<Rightarrow> (int \<times> kernel) option" where
  "newsem s = newsem_loop (nat NSEM) s"

definition semcreate :: "int \<Rightarrow> kernel \<Rightarrow> (int \<times> kernel) option" where
  "semcreate count s =
     (if count < 0 then Some (SYSERR, s)
      else do {
        (sem, s) \<leftarrow> newsem s;
        if sem = SYSERR then Some (SYSERR, s)
        else do {
          s \<leftarrow> upd_sem sem (\<lambda>e. e\<lparr>scount := count\<rparr>) s;
          Some (sem, s)
        }
      })"

partial_function (option) semdelete_loop :: "int \<Rightarrow> kernel \<Rightarrow> kernel option" where
  "semdelete_loop sem s = do {
     e \<leftarrow> sement sem s;
     c \<leftarrow> chk32 (scount e + 1);
     s \<leftarrow> upd_sem sem (\<lambda>e. e\<lparr>scount := c\<rparr>) s;
     if scount e < 0 then do {
       (pid, s) \<leftarrow> getfirst (squeue e) s;
       (_, s) \<leftarrow> ready pid s;
       semdelete_loop sem s
     } else Some s
   }"

definition semdelete :: "int \<Rightarrow> kernel \<Rightarrow> (int \<times> kernel) option" where
  "semdelete sem s =
     (if isbadsem sem then Some (SYSERR, s)
      else do {
        e \<leftarrow> sement sem s;
        if sstate e = S_FREE then Some (SYSERR, s)
        else do {
          s \<leftarrow> upd_sem sem (\<lambda>e. e\<lparr>sstate := S_FREE\<rparr>) s;
          (_, s) \<leftarrow> resched_cntl DEFER_START s;
          s \<leftarrow> semdelete_loop sem s;
          (_, s) \<leftarrow> resched_cntl DEFER_STOP s;
          Some (OK, s)
        }
      })"

partial_function (option) release_all :: "int \<Rightarrow> kernel \<Rightarrow> kernel option" where
  "release_all q s = do {
     (pid, s) \<leftarrow> getfirst q s;
     if pid \<noteq> EMPTY then do { (_, s) \<leftarrow> ready pid s; release_all q s } else Some s
   }"

definition semreset :: "int \<Rightarrow> int \<Rightarrow> kernel \<Rightarrow> (int \<times> kernel) option" where
  "semreset sem count s =
     (if count < 0 \<or> isbadsem sem then Some (SYSERR, s)
      else do {
        e \<leftarrow> sement sem s;
        if sstate e = S_FREE then Some (SYSERR, s)
        else do {
          (_, s) \<leftarrow> resched_cntl DEFER_START s;
          s \<leftarrow> release_all (squeue e) s;
          s \<leftarrow> upd_sem sem (\<lambda>e. e\<lparr>scount := count\<rparr>) s;
          (_, s) \<leftarrow> resched_cntl DEFER_STOP s;
          Some (OK, s)
        }
      })"

definition semcount :: "int \<Rightarrow> kernel \<Rightarrow> int" where
  "semcount sem s =
     (if isbadsem sem \<or> sstate (semtab s sem) = S_FREE then SYSERR else scount (semtab s sem))"

lemma sement_Some [simp]: "0 \<le> i \<Longrightarrow> i < 100 \<Longrightarrow> sement i s = Some (semtab s i)"
  by (simp add: sement_def)

lemma upd_sem_Some [simp]: "0 \<le> i \<Longrightarrow> i < 100 \<Longrightarrow>
    upd_sem i f s = Some (s\<lparr>semtab := (semtab s)(i := f (semtab s i))\<rparr>)"
  by (simp add: upd_sem_def)

section \<open>Allocation\<close>

definition adv_sem :: "kernel \<Rightarrow> kernel" where
  "adv_sem s = s\<lparr>nextsem := (nextsem s + 1) mod NSEM\<rparr>"

definition sem_taken :: "int \<Rightarrow> kernel \<Rightarrow> (int \<times> kernel) option" where
  "sem_taken i s = Some (i, s\<lparr>semtab := (semtab s)(i := (semtab s i)\<lparr>sstate := S_USED\<rparr>)\<rparr>)"

abbreviation (input) cursor_ok :: "kernel \<Rightarrow> bool" where
  "cursor_ok s \<equiv> 0 \<le> nextsem s \<and> nextsem s < NSEM"

lemma newsem_loop_Suc: "cursor_ok s \<Longrightarrow> newsem_loop (Suc k) s =
    (if sstate (semtab s (nextsem s)) = S_FREE then sem_taken (nextsem s) (adv_sem s) else newsem_loop k (adv_sem s))"
  by (cases "nextsem s = 99") (simp_all add: Let_def sem_taken_def adv_sem_def)

interpretation semalloc: ring_alloc NSEM nextsem adv_sem "\<lambda>s i. sstate (semtab s i) = S_FREE" sem_taken newsem_loop
    "\<lambda>s. cursor_ok s"
  by unfold_locales (simp_all add: newsem_loop_Suc del: newsem_loop.simps(2), simp_all add: adv_sem_def)

lemma adv_sem_power: "\<exists>n. (adv_sem ^^ m) s = s\<lparr>nextsem := n\<rparr>"
  by (induction m) (auto simp: adv_sem_def intro: exI [of _ "nextsem s"])

lemma adv_sem_steps:
  assumes "cursor_ok s"
  obtains n where "(adv_sem ^^ m) s = s\<lparr>nextsem := n\<rparr>" "0 \<le> n" "n < 100"
  using adv_sem_power [of m s] semalloc.steps_ok [OF assms, of m] by fastforce

lemma newsem_ok:
  assumes "cursor_ok s" "0 \<le> i" "i < 100" "sstate (semtab s i) = S_FREE"
  shows "\<exists>sem n. newsem s = Some (sem, s\<lparr>nextsem := n, semtab := (semtab s)(sem := (semtab s sem)\<lparr>sstate := S_USED\<rparr>)\<rparr>)
    \<and> 0 \<le> sem \<and> sem < 100 \<and> sstate (semtab s sem) = S_FREE \<and> 0 \<le> n \<and> n < 100"
proof -
  obtain m where m: "sstate (semtab s (semalloc.slot s m)) = S_FREE"
    "newsem_loop (nat 100) s = sem_taken (semalloc.slot s m) ((adv_sem ^^ Suc m) s)"
    using semalloc.search_finds [OF assms(1-3)] assms(4) by blast
  obtain n where "(adv_sem ^^ Suc m) s = s\<lparr>nextsem := n\<rparr>" "0 \<le> n" "n < 100"
    by (rule adv_sem_steps [OF assms(1)])
  then show ?thesis using m semalloc.slot_bounds [of s m]
    by (auto simp: newsem_def sem_taken_def)
qed

lemma newsem_full:
  assumes "cursor_ok s" "\<And>i. 0 \<le> i \<Longrightarrow> i < 100 \<Longrightarrow> sstate (semtab s i) = S_USED"
  shows "\<exists>n. newsem s = Some (SYSERR, s\<lparr>nextsem := n\<rparr>) \<and> 0 \<le> n \<and> n < 100"
proof -
  have "newsem s = Some (SYSERR, (adv_sem ^^ nat 100) s)"
    unfolding newsem_def by (rule semalloc.search_full [OF assms(1)]) (use assms(2) in auto)
  moreover obtain n where "(adv_sem ^^ nat 100) s = s\<lparr>nextsem := n\<rparr>" "0 \<le> n" "n < 100"
    by (rule adv_sem_steps [OF assms(1)])
  ultimately show ?thesis by auto
qed

section \<open>The invariant\<close>

definition semrel :: "kernel \<Rightarrow> (int \<Rightarrow> int list) \<Rightarrow> bool" where
  "semrel s Q \<longleftrightarrow> (\<forall>i. 0 \<le> i \<and> i < NSEM \<longrightarrow>
     int (length (Q (squeue (semtab s i)))) = max 0 (- scount (semtab s i)))"

lemma semrelD:
  assumes "semrel s Q" "0 \<le> i" "i < 100"
  shows "scount (semtab s i) < 0 \<Longrightarrow> int (length (Q (squeue (semtab s i)))) = - scount (semtab s i)"
    "0 \<le> scount (semtab s i) \<Longrightarrow> Q (squeue (semtab s i)) = []"
    "scount (semtab s i) < 0 \<longleftrightarrow> Q (squeue (semtab s i)) \<noteq> []"
proof -
  have e: "int (length (Q (squeue (semtab s i)))) = max 0 (- scount (semtab s i))"
    using assms by (simp add: semrel_def)
  show "scount (semtab s i) < 0 \<Longrightarrow> int (length (Q (squeue (semtab s i)))) = - scount (semtab s i)"
    "0 \<le> scount (semtab s i) \<Longrightarrow> Q (squeue (semtab s i)) = []" using e by auto
  show "scount (semtab s i) < 0 \<longleftrightarrow> Q (squeue (semtab s i)) \<noteq> []" using e
    by (cases "Q (squeue (semtab s i))") auto
qed

lemma semrel_psettled:
  assumes "psettled t R s' Q'" "semrel t R" shows "semrel s' Q'"
proof -
  note D = psettledD [OF assms(1)]
  note F = sframeD [OF D(2)]
  show ?thesis
    unfolding semrel_def
  proof (intro allI impI)
    fix i :: int assume i: "0 \<le> i \<and> i < 100"
    have "squeue (semtab s' i) \<in> qids (nextqid s')" using layout_sem [OF kpreD(1) [OF D(1)]] i by blast
    moreover have "squeue (semtab s' i) \<noteq> readylist s'" using layout_apart(4) [OF kpreD(1) [OF D(1)]] i by blast
    ultimately have "Q' (squeue (semtab t i)) = R (squeue (semtab t i))"
      using qframeD(1) [OF D(3)] F by simp
    then show "int (length (Q' (squeue (semtab s' i)))) = max 0 (- scount (semtab s' i))"
      using assms(2) i F by (simp add: semrel_def)
  qed
qed

lemmas semrel_settled = semrel_psettled [OF settledD(4)]

lemma semrel_bound:
  assumes "kpre s Q" "semrel s Q" "0 \<le> i" "i < 100"
  shows "- 100 \<le> scount (semtab s i)"
proof -
  let ?q = "squeue (semtab s i)"
  have q: "?q \<in> qids (nextqid s)" using layout_sem [OF kpreD(1) [OF assms(1)]] assms(3,4) by blast
  have "set (Q ?q) \<subseteq> {0..<100}"
    using qrel_member [OF kpreD(3) [OF assms(1)] q] by auto
  then have "card (set (Q ?q)) \<le> card {0..<100::int}" by (rule card_mono [rotated]) simp
  then have "length (Q ?q) \<le> 100"
    using distinct_card [OF qrelD(2) [OF kpreD(3) [OF assms(1)] q]] by simp
  then show ?thesis using assms(2-4) unfolding semrel_def by force
qed

text \<open>Changing one semaphore and its queue.\<close>

lemma semrel_upd:
  assumes "layout s" "semrel s Q" "0 \<le> i" "i < 100"
    and "int (length xs) = max 0 (- c)" "squeue e = squeue (semtab s i)" "scount e = c"
    and t: "semtab t = (semtab s)(i := e)"
  shows "semrel t (Q(squeue (semtab s i) := xs))"
  unfolding semrel_def
proof (intro allI impI)
  fix j :: int assume j: "0 \<le> j \<and> j < 100"
  have "squeue (semtab s j) = squeue (semtab s i) \<longleftrightarrow> j = i"
    using layout_apart(11) [OF assms(1), of j i] j assms(3,4) by blast
  then show "int (length ((Q(squeue (semtab s i) := xs)) (squeue (semtab t j)))) = max 0 (- scount (semtab t j))"
    using assms(2,5-7) j t by (simp add: semrel_def)
qed

section \<open>wait\<close>

lemma sem_wait_pass:
  assumes inv: "kinv s Q" and i: "0 \<le> sem" "sem < 100" and u: "sstate (semtab s sem) = S_USED"
    and c: "0 < scount (semtab s sem)" "scount (semtab s sem) < 2147483648"
  defines "t \<equiv> s\<lparr>semtab := (semtab s)(sem := (semtab s sem)\<lparr>scount := scount (semtab s sem) - 1\<rparr>)\<rparr>"
  shows "wait sem s = Some (OK, t)" "settled t Q t Q"
proof -
  show "wait sem s = Some (OK, t)"
    using i u c by (simp add: wait_def isbadsem_def in_s32_def t_def)
  have "kcore t = kcore s" by (simp add: kcore_def t_def fun_eq_iff)
  then show "settled t Q t Q" using settled_refl [of t Q] kinv_core [of t s Q] inv by simp
qed

lemma sem_wait_block:
  assumes inv: "kinv s Q" and rel: "semrel s Q" and nd: "ndefers s \<le> 0" and np: "currpid s \<noteq> 0"
    and i: "0 \<le> sem" "sem < 100" and u: "sstate (semtab s sem) = S_USED"
    and c: "scount (semtab s sem) \<le> 0"
  defines "sq \<equiv> squeue (semtab s sem)"
  defines "t \<equiv> s\<lparr>semtab := (semtab s)(sem := (semtab s sem)\<lparr>scount := scount (semtab s sem) - 1\<rparr>),
      proctab := (proctab s)(currpid s := (proctab s (currpid s))\<lparr>prstate := PR_WAIT, prsem := sem\<rparr>)\<rparr>"
  shows "\<exists>s' Q'. wait sem s = Some (OK, s') \<and> settled t (Q(sq := Q sq @ [currpid s])) s' Q'
    \<and> Q (readylist s) = currpid s' # Q' (readylist s)"
proof -
  let ?c = "currpid s"
  define s1 where "s1 = s\<lparr>semtab := (semtab s)(sem := (semtab s sem)\<lparr>scount := scount (semtab s sem) - 1\<rparr>)\<rparr>"
  have core: "kcore s1 = kcore s" by (simp add: kcore_def s1_def fun_eq_iff)
  have inv1: "kinv s1 Q" using kinv_core [OF core] inv by simp
  have c1: "currpid s1 = ?c" "ndefers s1 = ndefers s" "readylist s1 = readylist s" "proctab s1 = proctab s"
    by (simp_all add: s1_def)
  define F :: "procent \<Rightarrow> procent" where "F = (\<lambda>e. e\<lparr>prstate := PR_WAIT, prsem := sem\<rparr>)"
  obtain r s2 where r: "record_cpuqdata ?c s1 = Some (r, s2)" and a: "aframe s1 s2"
    and up: "upd_proc ?c F s2 = Some (s2\<lparr>proctab := (proctab s2)(?c := F (proctab s2 ?c))\<rparr>)"
    and o: "kout ?c (s2\<lparr>proctab := (proctab s2)(?c := F (proctab s2 ?c))\<rparr>) Q"
    and sf: "sframe (s1\<lparr>proctab := (proctab s1)(?c := F (proctab s1 ?c))\<rparr>) (s2\<lparr>proctab := (proctab s2)(?c := F (proctab s2 ?c))\<rparr>)"
    using leave_cpu [OF inv1, of F] np i unfolding c1
    by (auto simp: F_def perase_def wait_ok_def)
  define s3 where "s3 = s2\<lparr>proctab := (proctab s2)(?c := F (proctab s2 ?c))\<rparr>"
  have t: "t = s1\<lparr>proctab := (proctab s1)(?c := F (proctab s1 ?c))\<rparr>" by (simp add: t_def s1_def F_def)
  note A = aframeD [OF a] and B = sframeD [OF sf [folded s3_def t]]
  have same: "semtab s3 = semtab s1" "nextqid s3 = nextqid s" "readylist s3 = readylist s" "sleepq s3 = sleepq s"
    "scratchlist s3 = scratchlist s" "ndefers s3 = ndefers s" "currpid s3 = ?c" "queuetab s3 = queuetab s"
    using B A(2,3) by (simp_all add: t_def s1_def s3_def)
  have sq3: "squeue (semtab s3 sem) = sq" by (simp add: same s1_def sq_def)
  have L: "layout s" using kpreD(1) [OF kinv_kpre [OF inv]] .
  have qs: "sq \<in> qids (nextqid s3)" "sq \<noteq> readylist s3" "sq \<noteq> sleepq s3" "sq \<noteq> scratchlist s3"
    using layout_sem [OF L, of sem] layout_apart(4-6) [OF L, of sem] i by (simp_all add: sq_def same)
  have b3: "0 \<le> ?c" "?c < 100" using kpreD(4,5) [OF kinv_kpre [OF inv]] .
  have p3: "prstate (proctab s3 ?c) = PR_WAIT" "prsem (proctab s3 ?c) = sem" by (simp_all add: s3_def F_def)
  have nb3: "\<not> isbadpid s3 ?c" "pqueue s3 ?c = Some sq"
    using b3 i p3 sq3 by (simp_all add: isbadpid_def pqueue_def pq_def)
  obtain t3 where e: "enqueue ?c sq s3 = Some (?c, s3\<lparr>queuetab := t3\<rparr>)"
    and k: "kpre (s3\<lparr>queuetab := t3\<rparr>) (Q(sq := Q sq @ [?c]))" and key: "\<forall>x. qkey (t3 x) = keyof s3 x"
    using kout_enqueue [OF o [folded s3_def] nb3(1) qs nb3(2)] by blast
  define s4 where "s4 = s3\<lparr>queuetab := t3\<rparr>"
  have n4: "ndefers s4 \<le> 0" "prstate (proctab s4 (currpid s4)) \<noteq> PR_CURR" "readylist s4 = readylist s"
    using nd p3 by (simp_all add: s4_def same)
  obtain s' rest where R: "resched s4 = Some s'" "(Q(sq := Q sq @ [?c])) (readylist s4) = currpid s' # rest"
    "kinv s' (Q(sq := Q sq @ [?c], readylist s4 := rest))" "sframe s4 s'" "\<forall>x. keyof s' x = keyof s4 x"
    using resched_gone [OF k [folded s4_def] n4(1,2)] by blast
  have bnd: "- 100 \<le> scount (semtab s sem)" by (rule semrel_bound [OF kinv_kpre [OF inv] rel i])
  have c2: "currpid s2 = ?c" using A(3) c1 by simp
  have "wait sem s = Some (OK, s')"
    using i u c bnd r up e R(1) c1 c2 same(7)
    by (simp add: wait_def isbadsem_def in_s32_def s1_def [symmetric] F_def [symmetric] s3_def [symmetric]
        s4_def [symmetric] sq_def [symmetric])
  moreover have "sframe t s'"
    using sframe_trans [OF sf [folded s3_def t]] R(4) by (simp add: s4_def)
  moreover have "qframe t (Q(sq := Q sq @ [?c])) s' (Q(sq := Q sq @ [?c], readylist s := rest))"
    using R(5) key by (intro qframe_ready) (simp_all add: t_def s1_def s4_def same)
  ultimately show ?thesis using R(2,3) qs(2) n4(3) same
    by (intro exI [of _ s'] exI [of _ "Q(sq := Q sq @ [?c], readylist s := rest)"]) (simp add: settled_def)
qed

section \<open>signal\<close>

lemma deferring_semtab [simp]: "semtab (deferring s) = semtab s"
  by (simp add: deferring_def)

text \<open>The abstract effect: the count rises by \<open>n\<close>, the processes \<open>xs\<close> become ready.\<close>

definition abs_up :: "int \<Rightarrow> int list \<Rightarrow> int \<Rightarrow> kernel \<Rightarrow> kernel" where
  "abs_up sem xs n s = fold (mkst PR_READY) xs
     (s\<lparr>semtab := (semtab s)(sem := (semtab s sem)\<lparr>scount := scount (semtab s sem) + n\<rparr>)\<rparr>)"

lemma sem_up_ok:
  assumes inv: "kinv s Q" and rel: "semrel s Q" and i: "0 \<le> sem" "sem < 100"
    and c: "scount (semtab s sem) + 1 < 2147483648"
  defines "sq \<equiv> squeue (semtab s sem)"
  shows "\<exists>s' Q'. sem_up sem s = Some s' \<and> settled (abs_up sem (take 1 (Q sq)) 1 s) (Q(sq := drop 1 (Q sq))) s' Q'"
proof -
  have pre: "kpre s Q" using inv by (rule kinv_kpre)
  define s1 where "s1 = s\<lparr>semtab := (semtab s)(sem := (semtab s sem)\<lparr>scount := scount (semtab s sem) + 1\<rparr>)\<rparr>"
  have core: "kcore s1 = kcore s" by (simp add: kcore_def s1_def fun_eq_iff)
  have inv1: "kinv s1 Q" using kinv_core [OF core] inv by simp
  have L: "layout s1" using kpreD(1) [OF kinv_kpre [OF inv1]] .
  have sq1: "sq = squeue (semtab s1 sem)" by (simp add: sq_def s1_def)
  have q: "sq \<in> qids (nextqid s1)" "sq \<noteq> readylist s1"
    unfolding sq1 using layout_sem [OF L] layout_apart(4) [OF L] i by blast+
  have bnd: "- 100 \<le> scount (semtab s sem)" by (rule semrel_bound [OF pre rel i])
  show ?thesis
  proof (cases "Q sq")
    case Nil
    then have "0 \<le> scount (semtab s sem)" using semrelD(3) [OF rel i] by (simp add: sq_def)
    then have "sem_up sem s = Some s1" using i bnd c by (simp add: sem_up_def in_s32_def s1_def)
    moreover have "Q(sq := drop 1 (Q sq)) = Q" using Nil by (simp add: fun_upd_idem)
    ultimately show ?thesis using Nil settled_refl [OF inv1] by (auto simp: abs_up_def s1_def)
  next
    case (Cons x rest)
    then have neg: "scount (semtab s sem) < 0" using semrelD(3) [OF rel i] by (simp add: sq_def)
    obtain t s' Q' where R: "dequeue sq s1 = Some (x, s1\<lparr>queuetab := t\<rparr>)"
      "ready x (s1\<lparr>queuetab := t\<rparr>) = Some (OK, s')" "settled (mkst PR_READY x s1) (Q(sq := rest)) s' Q'"
      using release_head(1) [OF inv1 q Cons] by blast
    have "sem_up sem s = Some s'"
      using i bnd c neg R(1,2) by (simp add: sem_up_def in_s32_def s1_def [symmetric] sq_def [symmetric])
    then show ?thesis using R(3) Cons by (auto simp: abs_up_def s1_def [symmetric])
  qed
qed

lemma abs_up_0 [simp]: "abs_up sem [] 0 s = s"
  by (simp add: abs_up_def)

lemma mkst_semtab: "mkst st p (s\<lparr>semtab := f\<rparr>) = (mkst st p s)\<lparr>semtab := f\<rparr>"
  by (simp add: mkst_def)

lemma fold_mkst_semtab:
  "fold (mkst st) xs (s\<lparr>semtab := f\<rparr>) = (fold (mkst st) xs s)\<lparr>semtab := f\<rparr>"
  by (induction xs arbitrary: s) (simp_all add: mkst_semtab)

lemma abs_up_add: "abs_up sem ys m (abs_up sem xs n s) = abs_up sem (xs @ ys) (n + m) s"
  by (simp add: abs_up_def fold_mkst_semtab add.assoc)

lemma sframe_semtab: "sframe s s' \<Longrightarrow> sframe (s\<lparr>semtab := f\<rparr>) (s'\<lparr>semtab := f\<rparr>)"
proof -
  have "kerase (t\<lparr>semtab := f\<rparr>) = (kerase t)\<lparr>semtab := f\<rparr>" for t by (simp add: kerase_def)
  then show "sframe s s' \<Longrightarrow> sframe (s\<lparr>semtab := f\<rparr>) (s'\<lparr>semtab := f\<rparr>)" by (simp add: sframe_def)
qed

lemma sframe_abs_up:
  assumes "sframe s s'" shows "sframe (abs_up sem xs n s) (abs_up sem xs n s')"
  unfolding abs_up_def sframeD(8) [OF assms]
  by (rule sframe_fold_mkst) (rule sframe_semtab [OF assms])

lemma semrel_abs_up:
  assumes L: "layout s" and rel: "semrel s Q" and i: "0 \<le> sem" "sem < 100" and n: "0 \<le> n"
  defines "sq \<equiv> squeue (semtab s sem)"
  shows "semrel (abs_up sem xs n s) (Q(sq := drop (nat n) (Q sq)))"
  unfolding sq_def
proof (rule semrel_upd [OF L rel i])
  have "int (length (Q (squeue (semtab s sem)))) = max 0 (- scount (semtab s sem))"
    using rel i by (simp add: semrel_def)
  then show "int (length (drop (nat n) (Q (squeue (semtab s sem))))) = max 0 (- (scount (semtab s sem) + n))"
    using n by simp
  show "semtab (abs_up sem xs n s) = (semtab s)(sem := (semtab s sem)\<lparr>scount := scount (semtab s sem) + n\<rparr>)"
    by (simp add: abs_up_def)
qed simp_all

lemma sem_signal_ok:
  assumes inv: "kinv s Q" and rel: "semrel s Q" and i: "0 \<le> sem" "sem < 100"
    and u: "sstate (semtab s sem) = S_USED" and c: "scount (semtab s sem) + 1 < 2147483648"
  defines "sq \<equiv> squeue (semtab s sem)"
  shows "\<exists>s' Q'. signal sem s = Some (OK, s')
    \<and> settled (abs_up sem (take 1 (Q sq)) 1 s) (Q(sq := drop 1 (Q sq))) s' Q'"
  using sem_up_ok [OF inv rel i c] i u by (auto simp: signal_def isbadsem_def sq_def)

section \<open>signaln\<close>

lemma signaln_loop_ok:
  assumes "kinv s Q" "semrel s Q" "0 \<le> sem" "sem < 100"
    and "scount (semtab s sem) + int n < 2147483648"
  shows "\<exists>s' Q'. signaln_loop sem (int n) s = Some s'
    \<and> settled (abs_up sem (take n (Q (squeue (semtab s sem)))) (int n) s)
        (Q(squeue (semtab s sem) := drop n (Q (squeue (semtab s sem))))) s' Q'"
  using assms
proof (induction n arbitrary: s Q)
  case 0
  then show ?case using settled_refl [of s Q] by (subst signaln_loop.simps) (auto simp: fun_upd_idem_iff)
next
  case (Suc n)
  define sq where "sq = squeue (semtab s sem)"
  obtain s1 Q1 where up: "sem_up sem s = Some s1"
    and st: "settled (abs_up sem (take 1 (Q sq)) 1 s) (Q(sq := drop 1 (Q sq))) s1 Q1"
    using sem_up_ok [OF Suc.prems(1-4)] Suc.prems(5) unfolding sq_def by auto
  note F = sframeD(8) [OF settledD(2) [OF st]]
  have L: "layout s" "layout s1" using kpreD(1) [OF kinv_kpre] Suc.prems(1) settledD(1) [OF st] by blast+
  have rel1: "semrel s1 Q1"
    using semrel_settled [OF st] semrel_abs_up [OF L(1) Suc.prems(2-4), of 1] by (simp add: sq_def)
  have e1: "squeue (semtab s1 sem) = sq" "scount (semtab s1 sem) = scount (semtab s sem) + 1"
    unfolding F by (simp_all add: abs_up_def sq_def)
  have "sq \<in> qids (nextqid s1)" "sq \<noteq> readylist s1"
    using layout_sem [OF L(2), of sem] layout_apart(4) [OF L(2), of sem] Suc.prems(3,4) e1 by simp_all
  then have Q1: "Q1 sq = drop 1 (Q sq)"
    using qframeD(1) [OF settledD(3) [OF st], of sq] sframeD(1,4) [OF settledD(2) [OF st]] by simp
  have c1: "scount (semtab s sem) + 1 + int n < 2147483648" using Suc.prems(5) by simp
  obtain s2 Q2 where lp: "signaln_loop sem (int n) s1 = Some s2"
    and st2: "settled (abs_up sem (take n (Q1 sq)) (int n) s1) (Q1(sq := drop n (Q1 sq))) s2 Q2"
    using Suc.IH [OF settledD(1) [OF st] rel1 Suc.prems(3,4)] c1 unfolding e1 by blast
  have "signaln_loop sem (int (Suc n)) s = Some s2"
    using up lp by (subst signaln_loop.simps) simp
  moreover have "settled (abs_up sem (take n (Q1 sq)) (int n) (abs_up sem (take 1 (Q sq)) 1 s))
      ((Q(sq := drop 1 (Q sq)))(sq := drop n (Q1 sq))) s2 Q2"
  proof (rule settled_shift [OF st st2 sframe_abs_up [OF settledD(2) [OF st]]])
    show "set (drop n (Q1 sq)) \<subseteq> set ((Q(sq := drop 1 (Q sq))) sq)"
      using set_drop_subset [of n "Q1 sq"] unfolding Q1 by simp
  qed (simp_all add: abs_up_def)
  moreover have "take 1 (Q sq) @ take n (Q1 sq) = take (Suc n) (Q sq)" "drop n (Q1 sq) = drop (Suc n) (Q sq)"
    using take_add [of 1 n "Q sq"] Q1 by simp_all
  ultimately show ?case unfolding sq_def [symmetric]
    by (intro exI [of _ s2] exI [of _ Q2]) (simp add: abs_up_add del: fun_upd_apply)
qed


lemma signaln_ok:
  assumes inv: "kinv s Q" and rel: "semrel s Q" and nd: "0 \<le> ndefers s" and i: "0 \<le> sem" "sem < 100"
    and u: "sstate (semtab s sem) = S_USED" and n: "0 \<le> n" "scount (semtab s sem) + n < 2147483648"
  defines "sq \<equiv> squeue (semtab s sem)"
  shows "\<exists>s' Q'. signaln sem n s = Some (OK, s')
    \<and> settled (abs_up sem (take (nat n) (Q sq)) n s) (Q(sq := drop (nat n) (Q sq))) s' Q'"
proof -
  obtain s0 where st0: "resched_cntl DEFER_START s = Some (OK, s0)" and s0: "s0 = deferring s" and k0: "kinv s0 Q"
    using defer_start [OF inv] by blast
  have sm: "semtab s0 = semtab s" by (simp add: s0 deferring_def)
  have rel0: "semrel s0 Q" using rel by (simp add: semrel_def sm)
  obtain s1 Q1 where lp: "signaln_loop sem n s0 = Some s1"
    and st: "settled (abs_up sem (take (nat n) (Q sq)) n s0) (Q(sq := drop (nat n) (Q sq))) s1 Q1"
    using signaln_loop_ok [OF k0 rel0 i, of "nat n"] n unfolding sm sq_def [symmetric] by auto
  define t where "t = abs_up sem (take (nat n) (Q sq)) n s"
  have "abs_up sem (take (nat n) (Q sq)) n s0 = deferring t" "ndefers t = ndefers s"
    by (simp_all add: t_def s0 abs_up_def defer_semtab fold_mkst_defer)
  then obtain s2 Q2 where "resched_cntl DEFER_STOP s1 = Some (OK, s2)"
    "settled t (Q(sq := drop (nat n) (Q sq))) s2 Q2"
    using defer_stop [of t "Q(sq := drop (nat n) (Q sq))" s1 Q1] st nd
    by (simp only: simp_thms) blast
  moreover have "signaln sem n s = do { (_, s) \<leftarrow> resched_cntl DEFER_STOP s1; Some (OK, s) }"
    using i u n st0 lp by (simp add: signaln_def isbadsem_def)
  ultimately show ?thesis unfolding t_def by auto
qed

section \<open>semcreate\<close>

lemma semcreate_bad: "count < 0 \<Longrightarrow> semcreate count s = Some (SYSERR, s)"
  by (simp add: semcreate_def)

lemma semrel_fresh:
  assumes "layout s" "semrel s Q" "0 \<le> i" "i < 100" "Q (squeue (semtab s i)) = []" "0 \<le> c"
    and "semtab t = (semtab s)(i := (semtab s i)\<lparr>sstate := st, scount := c\<rparr>)"
  shows "semrel t Q"
proof -
  have "semrel t (Q(squeue (semtab s i) := []))"
    by (rule semrel_upd [OF assms(1-4), where c = c]) (use assms(6,7) in simp_all)
  moreover have "Q(squeue (semtab s i) := []) = Q" using assms(5) by (simp add: fun_upd_idem)
  ultimately show ?thesis by simp
qed

text \<open>A free semaphore has nobody waiting, so a new one starts with the count asked for.\<close>

definition sems_free :: "kernel \<Rightarrow> (int \<Rightarrow> int list) \<Rightarrow> bool" where
  "sems_free s Q \<longleftrightarrow> cursor_ok s \<and>
     (\<forall>i. 0 \<le> i \<and> i < NSEM \<and> sstate (semtab s i) = S_FREE \<longrightarrow> Q (squeue (semtab s i)) = [])"

lemma semcreate_ok:
  assumes inv: "kinv s Q" and rel: "semrel s Q" and fr: "sems_free s Q" and c: "0 \<le> count"
    and i: "0 \<le> i" "i < 100" "sstate (semtab s i) = S_FREE"
  shows "\<exists>sem s'. semcreate count s = Some (sem, s') \<and> 0 \<le> sem \<and> sem < 100
    \<and> sstate (semtab s sem) = S_FREE \<and> settled s' Q s' Q \<and> semrel s' Q
    \<and> semtab s' = (semtab s)(sem := (semtab s sem)\<lparr>sstate := S_USED, scount := count\<rparr>)
    \<and> (\<exists>n. s' = s\<lparr>nextsem := n, semtab := semtab s'\<rparr> \<and> 0 \<le> n \<and> n < 100)"
proof -
  have cur: "cursor_ok s" using fr by (simp add: sems_free_def)
  obtain sem n where N: "newsem s = Some (sem, s\<lparr>nextsem := n, semtab := (semtab s)(sem := (semtab s sem)\<lparr>sstate := S_USED\<rparr>)\<rparr>)"
    "0 \<le> sem" "sem < 100" "sstate (semtab s sem) = S_FREE" "0 \<le> n" "n < 100"
    using newsem_ok [OF cur i] by blast
  define s' where "s' = s\<lparr>nextsem := n, semtab := (semtab s)(sem := (semtab s sem)\<lparr>sstate := S_USED, scount := count\<rparr>)\<rparr>"
  have "semcreate count s = Some (sem, s')" using N c by (simp add: semcreate_def s'_def)
  moreover have "kcore s' = kcore s" by (simp add: kcore_def s'_def fun_eq_iff)
  then have "kinv s' Q" using kinv_core inv by blast
  moreover have "semrel s' Q"
    by (rule semrel_fresh [OF kpreD(1) [OF kinv_kpre [OF inv]] rel N(2,3), where c = count and st = S_USED])
      (use fr N c in \<open>simp_all add: sems_free_def s'_def\<close>)
  ultimately show ?thesis using N settled_refl [of s' Q] by (auto simp: s'_def)
qed

section \<open>semdelete and semreset\<close>

definition abs_set :: "int \<Rightarrow> int list \<Rightarrow> (sentry \<Rightarrow> sentry) \<Rightarrow> kernel \<Rightarrow> kernel" where
  "abs_set sem xs f s = fold (mkst PR_READY) xs (s\<lparr>semtab := (semtab s)(sem := f (semtab s sem))\<rparr>)"

lemma settled_semtab:
  assumes st: "settled t R s Q" and f: "\<And>i. squeue (f i) = squeue (semtab s i)"
  shows "settled (t\<lparr>semtab := f\<rparr>) R (s\<lparr>semtab := f\<rparr>) Q"
proof -
  have "kcore (s\<lparr>semtab := f\<rparr>) = kcore s" by (simp add: kcore_def f)
  then have "kinv (s\<lparr>semtab := f\<rparr>) Q" using kinv_core settledD(1) [OF st] by blast
  moreover have "qframe (t\<lparr>semtab := f\<rparr>) R (s\<lparr>semtab := f\<rparr>) Q"
    using settledD(3) [OF st] by (simp add: qframe_def)
  ultimately show ?thesis using sframe_semtab [OF settledD(2) [OF st]] by (simp add: settled_def)
qed

lemma release_all_ok:
  assumes "kinv s Q" "q \<in> qids (nextqid s)" "q \<noteq> readylist s"
  shows "\<exists>s' Q'. release_all q s = Some s' \<and> settled (fold (mkst PR_READY) (Q q) s) (Q(q := [])) s' Q'"
  using assms
proof (induction "Q q" arbitrary: s Q)
  case Nil
  have "getfirst q s = Some (EMPTY, s)"
    using getfirst_ok(1) [OF kpreD(3) [OF kinv_kpre [OF Nil(2)]] Nil(3)] Nil(1) by simp
  then have "release_all q s = Some s" by (subst release_all.simps) simp
  moreover have "Q(q := []) = Q" using Nil(1) by (simp add: fun_upd_idem)
  ultimately show ?case using settled_refl [OF Nil(2)] Nil(1) [symmetric] by auto
next
  case (Cons p zs)
  obtain t s1 Q1 where g: "getfirst q s = Some (p, s\<lparr>queuetab := t\<rparr>)" "ready p (s\<lparr>queuetab := t\<rparr>) = Some (OK, s1)"
    and st: "settled (mkst PR_READY p s) (Q(q := zs)) s1 Q1"
    using release_head(2) [OF Cons.prems Cons.hyps(2) [symmetric]] by blast
  note F = sframeD [OF settledD(2) [OF st]]
  have q1: "q \<in> qids (nextqid s1)" "q \<noteq> readylist s1" using Cons.prems F by simp_all
  then have Q1: "Q1 q = zs" using qframeD(1) [OF settledD(3) [OF st], of q] Cons.prems by simp
  obtain s2 Q2 where r: "release_all q s1 = Some s2"
    and st2: "settled (fold (mkst PR_READY) (Q1 q) s1) (Q1(q := [])) s2 Q2"
    using Cons.hyps(1) [of Q1 s1] Q1 settledD(1) [OF st] q1 by blast
  have "0 \<le> p" using qrel_member [OF kpreD(3) [OF kinv_kpre [OF Cons.prems(1)]] Cons.prems(2), of p]
      Cons.hyps(2) [symmetric] by simp
  then have "release_all q s = Some s2" using g r by (subst release_all.simps) simp
  moreover have "settled (fold (mkst PR_READY) (Q1 q) (mkst PR_READY p s)) ((Q(q := zs))(q := [])) s2 Q2"
    by (rule settled_shift [OF st st2 sframe_fold_mkst [OF settledD(2) [OF st]]]) simp_all
  ultimately show ?case using Q1 Cons.hyps(2) [symmetric]
    by (intro exI [of _ s2] exI [of _ Q2]) simp
qed

lemma semreset_ok:
  assumes inv: "kinv s Q" and nd: "0 \<le> ndefers s" and i: "0 \<le> sem" "sem < 100"
    and u: "sstate (semtab s sem) = S_USED" and n: "0 \<le> count"
  defines "sq \<equiv> squeue (semtab s sem)"
  shows "\<exists>s' Q'. semreset sem count s = Some (OK, s')
    \<and> settled (abs_set sem (Q sq) (\<lambda>e. e\<lparr>scount := count\<rparr>) s) (Q(sq := [])) s' Q'"
proof -
  obtain s0 where st0: "resched_cntl DEFER_START s = Some (OK, s0)" and s0: "s0 = deferring s" and k0: "kinv s0 Q"
    using defer_start [OF inv] by blast
  have L: "layout s" using kpreD(1) [OF kinv_kpre [OF inv]] .
  have sm: "semtab s0 = semtab s" "nextqid s0 = nextqid s" "readylist s0 = readylist s"
    by (simp_all add: s0 deferring_def)
  have q: "sq \<in> qids (nextqid s0)" "sq \<noteq> readylist s0"
    using layout_sem [OF L, of sem] layout_apart(4) [OF L, of sem] i by (simp_all add: sq_def sm)
  obtain s1 Q1 where lp: "release_all sq s0 = Some s1"
    and st: "settled (fold (mkst PR_READY) (Q sq) s0) (Q(sq := [])) s1 Q1"
    using release_all_ok [OF k0 q] by blast
  define f where "f = (semtab s)(sem := (semtab s sem)\<lparr>scount := count\<rparr>)"
  have sm1: "semtab s1 = semtab s" using sframeD(8) [OF settledD(2) [OF st]] sm by simp
  have st': "settled ((fold (mkst PR_READY) (Q sq) s0)\<lparr>semtab := f\<rparr>) (Q(sq := [])) (s1\<lparr>semtab := f\<rparr>) Q1"
    by (rule settled_semtab [OF st]) (simp add: f_def sm1)
  define t where "t = abs_set sem (Q sq) (\<lambda>e. e\<lparr>scount := count\<rparr>) s"
  have "(fold (mkst PR_READY) (Q sq) s0)\<lparr>semtab := f\<rparr> = deferring t" "ndefers t = ndefers s"
    by (simp_all add: t_def abs_set_def s0 fold_mkst_semtab [symmetric] defer_semtab fold_mkst_defer f_def)
  then obtain s2 Q2 where "resched_cntl DEFER_STOP (s1\<lparr>semtab := f\<rparr>) = Some (OK, s2)" "settled t (Q(sq := [])) s2 Q2"
    using defer_stop [of t "Q(sq := [])" "s1\<lparr>semtab := f\<rparr>" Q1] st' nd by auto
  moreover have "semreset sem count s = do { (_, s) \<leftarrow> resched_cntl DEFER_STOP (s1\<lparr>semtab := f\<rparr>); Some (OK, s) }"
    using i u n st0 lp by (simp add: semreset_def isbadsem_def sq_def f_def sm1)
  ultimately show ?thesis unfolding t_def by auto
qed

lemma semdelete_loop_ok:
  assumes "kinv s Q" "semrel s Q" "0 \<le> sem" "sem < 100" "scount (semtab s sem) < 2147483647"
  shows "\<exists>s' Q'. semdelete_loop sem s = Some s' \<and>
    settled (abs_set sem (Q (squeue (semtab s sem))) (\<lambda>e. e\<lparr>scount := max 0 (scount e) + 1\<rparr>) s)
      (Q(squeue (semtab s sem) := [])) s' Q'"
  using assms
proof (induction "Q (squeue (semtab s sem))" arbitrary: s Q)
  case Nil
  have c: "0 \<le> scount (semtab s sem)" using semrelD(3) [OF Nil(3-5)] Nil(1) by simp
  define s1 where "s1 = s\<lparr>semtab := (semtab s)(sem := (semtab s sem)\<lparr>scount := scount (semtab s sem) + 1\<rparr>)\<rparr>"
  have "semdelete_loop sem s = Some s1"
    using Nil c by (subst semdelete_loop.simps) (simp add: in_s32_def s1_def)
  moreover have "kcore s1 = kcore s" by (simp add: kcore_def s1_def fun_eq_iff)
  then have "settled s1 Q s1 Q" using kinv_core Nil(2) settled_refl by blast
  moreover have "Q(squeue (semtab s sem) := []) = Q" using Nil(1) by (simp add: fun_upd_idem)
  ultimately show ?case using Nil(1) [symmetric] c by (auto simp: abs_set_def s1_def)
next
  case (Cons p zs)
  define sq where "sq = squeue (semtab s sem)"
  define s1 where "s1 = s\<lparr>semtab := (semtab s)(sem := (semtab s sem)\<lparr>scount := scount (semtab s sem) + 1\<rparr>)\<rparr>"
  have c: "scount (semtab s sem) < 0"
    using semrelD(3) [OF Cons.prems(2-4)] Cons.hyps(2) by (metis list.discI)
  have b: "- 100 \<le> scount (semtab s sem)"
    by (rule semrel_bound [OF kinv_kpre [OF Cons.prems(1)] Cons.prems(2-4)])
  have core: "kcore s1 = kcore s" by (simp add: kcore_def s1_def fun_eq_iff)
  have inv1: "kinv s1 Q" using kinv_core [OF core] Cons.prems(1) by simp
  have L: "layout s" using kpreD(1) [OF kinv_kpre [OF Cons.prems(1)]] .
  have q: "sq \<in> qids (nextqid s1)" "sq \<noteq> readylist s1"
    using layout_sem [OF L, of sem] layout_apart(4) [OF L, of sem] Cons.prems(3,4)
    by (simp_all add: sq_def s1_def)
  obtain t s2 Q2 where g: "getfirst sq s1 = Some (p, s1\<lparr>queuetab := t\<rparr>)" "ready p (s1\<lparr>queuetab := t\<rparr>) = Some (OK, s2)"
    and st: "settled (mkst PR_READY p s1) (Q(sq := zs)) s2 Q2"
    using release_head(2) [OF inv1 q Cons.hyps(2) [folded sq_def, symmetric]] by blast
  note F = sframeD [OF settledD(2) [OF st]]
  have e2: "squeue (semtab s2 sem) = sq" "scount (semtab s2 sem) = scount (semtab s sem) + 1"
    unfolding F(8) by (simp_all add: s1_def sq_def)
  have Q2: "Q2 sq = zs" using qframeD(1) [OF settledD(3) [OF st], of sq] q by simp
  have len: "int (length zs) = - (scount (semtab s sem) + 1)"
    using semrelD(1) [OF Cons.prems(2-4) c] Cons.hyps(2) [symmetric] by simp
  have rel2: "semrel s2 Q2"
  proof (rule semrel_settled [OF st])
    show "semrel (mkst PR_READY p s1) (Q(sq := zs))" unfolding sq_def
      by (rule semrel_upd [OF L Cons.prems(2-4), where c = "scount (semtab s sem) + 1"])
        (use len c in \<open>simp_all add: s1_def\<close>)
  qed
  define f where "f = (\<lambda>e::sentry. e\<lparr>scount := max 0 (scount e) + 1\<rparr>)"
  obtain s3 Q3 where lp: "semdelete_loop sem s2 = Some s3"
    and st2: "settled (abs_set sem (Q2 sq) f s2) (Q2(sq := [])) s3 Q3"
    using Cons.hyps(1) [of Q2 s2] Q2 rel2 settledD(1) [OF st] Cons.prems(3,4) c unfolding e2 f_def by auto
  have "semdelete_loop sem s = Some s3"
    using Cons.prems(3,4) b c g lp
    by (subst semdelete_loop.simps) (simp add: in_s32_def s1_def [symmetric] sq_def [symmetric])
  moreover have "settled (abs_set sem (Q2 sq) f (mkst PR_READY p s1)) ((Q(sq := zs))(sq := [])) s3 Q3"
  proof (rule settled_shift [where f = "abs_set sem (Q2 sq) f" and q = sq, OF st st2])
    show "sframe (abs_set sem (Q2 sq) f (mkst PR_READY p s1)) (abs_set sem (Q2 sq) f s2)"
      unfolding abs_set_def F(8)
      by (rule sframe_fold_mkst) (rule sframe_semtab [OF settledD(2) [OF st]])
  qed (simp_all add: abs_set_def)
  moreover have "abs_set sem zs f (mkst PR_READY p s1) = abs_set sem (p # zs) f s"
  proof -
    have "f ((semtab s sem)\<lparr>scount := scount (semtab s sem) + 1\<rparr>) = f (semtab s sem)"
      using c by (simp add: f_def)
    then show ?thesis by (simp add: abs_set_def s1_def mkst_semtab [symmetric])
  qed
  ultimately show ?case using Q2 Cons.hyps(2) [folded sq_def, symmetric] unfolding sq_def [symmetric] f_def [symmetric]
    by (intro exI [of _ s3] exI [of _ Q3]) simp
qed

lemma semdelete_ok:
  assumes inv: "kinv s Q" and rel: "semrel s Q" and nd: "0 \<le> ndefers s" and i: "0 \<le> sem" "sem < 100"
    and u: "sstate (semtab s sem) = S_USED" and c: "scount (semtab s sem) < 2147483647"
  defines "sq \<equiv> squeue (semtab s sem)"
  shows "\<exists>s' Q'. semdelete sem s = Some (OK, s')
    \<and> settled (abs_set sem (Q sq) (\<lambda>e. e\<lparr>sstate := S_FREE, scount := max 0 (scount e) + 1\<rparr>) s) (Q(sq := [])) s' Q'"
proof -
  define s1 where "s1 = s\<lparr>semtab := (semtab s)(sem := (semtab s sem)\<lparr>sstate := S_FREE\<rparr>)\<rparr>"
  have core: "kcore s1 = kcore s" by (simp add: kcore_def s1_def fun_eq_iff)
  have inv1: "kinv s1 Q" using kinv_core [OF core] inv by simp
  obtain s0 where st0: "resched_cntl DEFER_START s1 = Some (OK, s0)" and s0: "s0 = deferring s1" and k0: "kinv s0 Q"
    using defer_start [OF inv1] by blast
  have sm: "semtab s0 = semtab s1" by (simp add: s0 deferring_def)
  have e0: "squeue (semtab s0 sem) = sq" "scount (semtab s0 sem) = scount (semtab s sem)"
    by (simp_all add: sm s1_def sq_def)
  have rel0: "semrel s0 Q" using rel by (simp add: semrel_def sm s1_def)
  define f where "f = (\<lambda>e::sentry. e\<lparr>scount := max 0 (scount e) + 1\<rparr>)"
  obtain s2 Q2 where lp: "semdelete_loop sem s0 = Some s2"
    and st: "settled (abs_set sem (Q sq) f s0) (Q(sq := [])) s2 Q2"
    using semdelete_loop_ok [OF k0 rel0 i] c unfolding e0 f_def by blast
  define t where "t = abs_set sem (Q sq) (\<lambda>e. e\<lparr>sstate := S_FREE, scount := max 0 (scount e) + 1\<rparr>) s"
  have "abs_set sem (Q sq) f s0 = deferring t" "ndefers t = ndefers s"
    by (simp_all add: abs_set_def sm t_def) (simp add: s0 defer_semtab fold_mkst_defer s1_def f_def)
  then obtain s3 Q3 where "resched_cntl DEFER_STOP s2 = Some (OK, s3)" "settled t (Q(sq := [])) s3 Q3"
    using defer_stop [of t "Q(sq := [])" s2 Q2] st nd by auto
  moreover have "semdelete sem s = do { (_, s) \<leftarrow> resched_cntl DEFER_STOP s2; Some (OK, s) }"
    using i u st0 lp by (simp add: semdelete_def isbadsem_def s1_def)
  ultimately show ?thesis unfolding t_def by auto
qed

end
