(* ===== verification/Mem.thy ===== *)
theory Mem
  imports Queues
begin

text \<open>
  The heap: \<open>system/getmem.c\<close>, \<open>system/freemem.c\<close>, \<open>system/getstk.c\<close>,
  \<open>system/freestk.c\<close> and \<open>system/meminit.c\<close>.  The free blocks form a circular doubly
  linked list with the global \<open>memlist\<close>; the lemmas speak of the list of their
  addresses, in ascending order, and of the set of free bytes.  The chain lemmas of the
  process queues serve for this list too.
\<close>

section \<open>The operations\<close>

definition mblock :: "int \<Rightarrow> mheap \<Rightarrow> mblk option" where
  "mblock a h = (if a = memlist h \<or> (minheap h \<le> a \<and> a < maxheap h) then Some (blk h a) else None)"

definition upd_blk :: "int \<Rightarrow> (mblk \<Rightarrow> mblk) \<Rightarrow> mheap \<Rightarrow> mheap option" where
  "upd_blk a f h = (if a = memlist h \<or> (minheap h \<le> a \<and> a < maxheap h)
     then Some (h\<lparr>blk := (blk h)(a := f (blk h a))\<rparr>) else None)"

abbreviation (input) put_mnext :: "int \<Rightarrow> int \<Rightarrow> mheap \<Rightarrow> mheap option" where
  "put_mnext a v \<equiv> upd_blk a (\<lambda>b. b\<lparr>mnext := v\<rparr>)"
abbreviation (input) put_mprev :: "int \<Rightarrow> int \<Rightarrow> mheap \<Rightarrow> mheap option" where
  "put_mprev a v \<equiv> upd_blk a (\<lambda>b. b\<lparr>mprev := v\<rparr>)"
abbreviation (input) put_mlength :: "int \<Rightarrow> int \<Rightarrow> mheap \<Rightarrow> mheap option" where
  "put_mlength a v \<equiv> upd_blk a (\<lambda>b. b\<lparr>mlength := v\<rparr>)"
abbreviation (input) add_total :: "int \<Rightarrow> mheap \<Rightarrow> mheap option" where
  "add_total n h \<equiv> upd_blk (memlist h) (\<lambda>b. b\<lparr>mlength := u32 (mlength b + n)\<rparr>) h"

definition roundmb :: "int \<Rightarrow> int" where
  "roundmb x = u32 (15 + x) div 16 * 16"

abbreviation (input) MEMALLOC_FIRSTFIT :: int where "MEMALLOC_FIRSTFIT \<equiv> 0"

text \<open>
  The search of \<open>getmem\<close>: an exact fit with its predecessor (\<open>Inl\<close>), or else the
  value of \<open>best\<close> when the loop is left (\<open>Inr\<close>, 0 for the null pointer).
\<close>

partial_function (option) getmem_loop ::
  "int \<Rightarrow> int \<Rightarrow> mheap \<Rightarrow> int \<Rightarrow> int \<Rightarrow> int \<Rightarrow> (int \<times> int + int) option" where
  "getmem_loop alloc nbytes h prev cur best =
     (if cur \<noteq> memlist h then do {
        c \<leftarrow> mblock cur h;
        if mlength c = nbytes then Some (Inl (prev, cur))
        else if mlength c > nbytes then do {
          better \<leftarrow> (if best = 0 then Some True
                    else do { b \<leftarrow> mblock best h; Some (mlength b > mlength c) });
          let best = (if better then cur else best);
          if alloc = MEMALLOC_FIRSTFIT then Some (Inr best)
          else getmem_loop alloc nbytes h cur (mnext c) best
        }
        else getmem_loop alloc nbytes h cur (mnext c) best
      } else Some (Inr best))"

definition getmem :: "int \<Rightarrow> int \<Rightarrow> mheap \<Rightarrow> (int \<times> mheap) option" where
  "getmem alloc nbytes h =
     (if nbytes = 0 then Some (SYSERR, h)
      else do {
        let nbytes = roundmb nbytes;
        m \<leftarrow> mblock (memlist h) h;
        r \<leftarrow> getmem_loop alloc nbytes h (memlist h) (mnext m) 0;
        case r of
          Inl (prev, cur) \<Rightarrow> do {
            c \<leftarrow> mblock cur h;
            let next = mnext c;
            h \<leftarrow> put_mnext prev next h;
            h \<leftarrow> put_mprev next prev h;
            h \<leftarrow> add_total (- nbytes) h;
            Some (cur, h)
          }
        | Inr best \<Rightarrow>
            if best \<noteq> 0 then do {
              b \<leftarrow> mblock best h;
              let prev = mprev b;
              let next = mnext b;
              let leftover = best + nbytes;
              h \<leftarrow> put_mnext prev leftover h;
              h \<leftarrow> put_mprev leftover prev h;
              h \<leftarrow> put_mnext leftover next h;
              h \<leftarrow> put_mprev next leftover h;
              h \<leftarrow> put_mlength leftover (mlength b - nbytes) h;
              h \<leftarrow> add_total (- nbytes) h;
              Some (best, h)
            } else Some (SYSERR, h)
      })"

partial_function (option) free_walk :: "mheap \<Rightarrow> int \<Rightarrow> int \<Rightarrow> int \<Rightarrow> (int \<times> int) option" where
  "free_walk h block prev next =
     (if next \<noteq> memlist h \<and> next < block then do {
        n \<leftarrow> mblock next h;
        free_walk h block next (mnext n)
      } else Some (prev, next))"

text \<open>
  What \<open>freemem\<close> and \<open>freestk\<close> share: the block is merged with the free block that ends
  where it starts or linked as a new node, and merged with the next one when adjacent.
\<close>

definition free_link :: "int \<Rightarrow> int \<Rightarrow> int \<Rightarrow> int \<Rightarrow> int \<Rightarrow> mheap \<Rightarrow> mheap option" where
  "free_link block nbytes prev next ptop h = do {
     h \<leftarrow> add_total nbytes h;
     (block, h) \<leftarrow>
       (if ptop = block then do {
          h \<leftarrow> upd_blk prev (\<lambda>b. b\<lparr>mlength := u32 (mlength b + nbytes)\<rparr>) h;
          Some (prev, h)
        } else do {
          h \<leftarrow> put_mnext block next h;
          h \<leftarrow> put_mprev next block h;
          h \<leftarrow> put_mlength block nbytes h;
          h \<leftarrow> put_mprev block prev h;
          h \<leftarrow> put_mnext prev block h;
          Some (block, h)
        });
     b \<leftarrow> mblock block h;
     if u32 (block + mlength b) = next then do {
       n \<leftarrow> mblock next h;
       h \<leftarrow> put_mlength block (u32 (mlength b + mlength n)) h;
       h \<leftarrow> put_mnext block (mnext n) h;
       put_mprev (mnext n) block h
     } else Some h
   }"

definition freemem :: "int \<Rightarrow> int \<Rightarrow> mheap \<Rightarrow> (int \<times> mheap) option" where
  "freemem blkaddr nbytes h =
     (if nbytes = 0 \<or> blkaddr < minheap h \<or> blkaddr > maxheap h then Some (SYSERR, h)
      else do {
        let nbytes = roundmb nbytes;
        let block = blkaddr;
        m \<leftarrow> mblock (memlist h) h;
        (prev, next) \<leftarrow> free_walk h block (memlist h) (mnext m);
        p \<leftarrow> mblock prev h;
        let ptop = (if prev = memlist h then 0 else u32 (prev + mlength p));
        if (prev \<noteq> memlist h \<and> block < ptop) \<or> (next \<noteq> 0 \<and> u32 (block + nbytes) > next)
        then Some (SYSERR, h)
        else do { h \<leftarrow> free_link block nbytes prev next ptop h; Some (OK, h) }
      })"

partial_function (option) getstk_loop ::
  "int \<Rightarrow> int \<Rightarrow> mheap \<Rightarrow> int \<Rightarrow> int \<Rightarrow> int \<Rightarrow> int \<Rightarrow> (int \<times> int) option" where
  "getstk_loop alloc nbytes h prev cur fits fitsprev =
     (if cur \<noteq> memlist h then do {
        c \<leftarrow> mblock cur h;
        if mlength c \<ge> nbytes then do {
          take \<leftarrow> (if alloc = MEMALLOC_FIRSTFIT \<or> fits = 0 \<or> mlength c = nbytes then Some True
                  else do { f \<leftarrow> mblock fits h; Some (mlength f > mlength c) });
          if take then getstk_loop alloc nbytes h cur (mprev c) cur prev
          else getstk_loop alloc nbytes h cur (mprev c) fits fitsprev
        }
        else getstk_loop alloc nbytes h cur (mprev c) fits fitsprev
      } else Some (fits, fitsprev))"

definition getstk :: "int \<Rightarrow> int \<Rightarrow> mheap \<Rightarrow> (int \<times> mheap) option" where
  "getstk alloc nbytes h =
     (if nbytes = 0 then Some (SYSERR, h)
      else do {
        let nbytes = roundmb nbytes;
        m \<leftarrow> mblock (memlist h) h;
        (fits, fitsprev) \<leftarrow> getstk_loop alloc nbytes h (memlist h) (mprev m) 0 0;
        if fits = 0 then Some (SYSERR, h)
        else do {
          f \<leftarrow> mblock fits h;
          (fits, h) \<leftarrow>
            (if nbytes = mlength f then do {
               let prev = mprev f;
               h \<leftarrow> put_mprev fitsprev prev h;
               h \<leftarrow> put_mnext prev fitsprev h;
               Some (fits, h)
             } else do {
               h \<leftarrow> put_mlength fits (mlength f - nbytes) h;
               Some (fits + (mlength f - nbytes), h)
             });
          h \<leftarrow> add_total (- nbytes) h;
          Some (fits + nbytes - 4, h)
        }
      })"

partial_function (option) freestk_walk :: "mheap \<Rightarrow> int \<Rightarrow> int \<Rightarrow> int \<Rightarrow> (int \<times> int) option" where
  "freestk_walk h block next cur =
     (if cur \<noteq> memlist h \<and> cur > block then do {
        c \<leftarrow> mblock cur h;
        freestk_walk h block cur (mprev c)
      } else Some (next, cur))"

definition freestk :: "int \<Rightarrow> int \<Rightarrow> mheap \<Rightarrow> (int \<times> mheap) option" where
  "freestk stkaddr nbytes h =
     (let blkaddr = u32 (stkaddr - nbytes + 4) in
      if nbytes = 0 \<or> blkaddr < minheap h \<or> blkaddr > maxheap h then Some (SYSERR, h)
      else do {
        let nbytes = roundmb nbytes;
        let block = blkaddr;
        m \<leftarrow> mblock (memlist h) h;
        (next, cur) \<leftarrow> freestk_walk h block (memlist h) (mprev m);
        c \<leftarrow> mblock cur h;
        let ptop = (if cur = memlist h then 0 else u32 (cur + mlength c));
        if (cur \<noteq> memlist h \<and> block < ptop) \<or> (next \<noteq> memlist h \<and> u32 (block + nbytes) > next)
        then Some (SYSERR, h)
        else do { h \<leftarrow> free_link block nbytes cur next ptop h; Some (OK, h) }
      })"

text \<open>\<open>meminit\<close>: the linker gives the end of the program, the board the top of memory.\<close>

definition meminit :: "int \<Rightarrow> int \<Rightarrow> mheap \<Rightarrow> mheap option" where
  "meminit end_addr maxaddr h = do {
     let h = h\<lparr>minheap := end_addr, maxheap := maxaddr\<rparr>;
     h \<leftarrow> put_mnext (memlist h) (minheap h) h;
     h \<leftarrow> put_mprev (memlist h) (minheap h) h;
     h \<leftarrow> put_mprev (minheap h) (memlist h) h;
     h \<leftarrow> put_mnext (minheap h) (memlist h) h;
     put_mlength (minheap h) (maxheap h - minheap h) h
   }"

section \<open>Rounding\<close>

lemma roundmb_props:
  assumes "0 < n" "n \<le> 4294967280"
  shows "n \<le> roundmb n" "roundmb n < n + 16" "16 dvd roundmb n" "0 < roundmb n" "roundmb n \<le> 4294967280"
proof -
  have "u32 (15 + n) = 15 + n" using assms by simp
  then have r: "roundmb n = (15 + n) div 16 * 16" by (simp add: roundmb_def)
  show "16 dvd roundmb n" by (simp add: r)
  show le: "n \<le> roundmb n" "roundmb n < n + 16" unfolding r by presburger+
  then show "0 < roundmb n" using assms by simp
  show "roundmb n \<le> 4294967280" using assms unfolding r by presburger
qed

section \<open>The free list\<close>

text \<open>The list seen as a queue table, to use the chain lemmas.\<close>

definition mtab :: "mheap \<Rightarrow> qtab" where
  "mtab h a = \<lparr>qkey = mlength (blk h a), qnext = mnext (blk h a), qprev = mprev (blk h a)\<rparr>"

lemma mtab_sel [simp]:
  "qkey (mtab h a) = mlength (blk h a)" "qnext (mtab h a) = mnext (blk h a)" "qprev (mtab h a) = mprev (blk h a)"
  by (simp_all add: mtab_def)

abbreviation (input) len :: "mheap \<Rightarrow> int \<Rightarrow> int" where "len h a \<equiv> mlength (blk h a)"

text \<open>\<open>below h xs\<close>: ascending blocks that do not overlap.\<close>

definition below :: "(int \<Rightarrow> int) \<Rightarrow> int list \<Rightarrow> bool" where
  "below l xs \<longleftrightarrow> sorted_wrt (\<lambda>a b. a + l a \<le> b) xs"

definition heap_ok :: "mheap \<Rightarrow> bool" where
  "heap_ok h \<longleftrightarrow> 0 < memlist h \<and> memlist h < minheap h \<and> maxheap h < 2 ^ 32"

definition mrel :: "mheap \<Rightarrow> int list \<Rightarrow> bool" where
  "mrel h L \<longleftrightarrow> heap_ok h \<and> dchain (mtab h) (memlist h) L (memlist h) \<and> below (len h) L
     \<and> (\<forall>a\<in>set L. minheap h \<le> a \<and> a + len h a \<le> maxheap h \<and> 0 < len h a \<and> 16 dvd len h a)"

text \<open>The free bytes.\<close>

definition free_bytes :: "mheap \<Rightarrow> int list \<Rightarrow> int set" where
  "free_bytes h L = (\<Union>a\<in>set L. {a..<a + len h a})"

lemma mrelD:
  assumes "mrel h L"
  shows "heap_ok h" "dchain (mtab h) (memlist h) L (memlist h)" "below (len h) L"
    "\<And>a. a \<in> set L \<Longrightarrow> minheap h \<le> a" "\<And>a. a \<in> set L \<Longrightarrow> a + len h a \<le> maxheap h"
    "\<And>a. a \<in> set L \<Longrightarrow> 0 < len h a" "\<And>a. a \<in> set L \<Longrightarrow> 16 dvd len h a"
    "0 < memlist h" "memlist h < minheap h" "maxheap h < 4294967296" "memlist h \<notin> set L"
proof -
  show "memlist h \<notin> set L"
  proof
    assume "memlist h \<in> set L"
    then have "minheap h \<le> memlist h" using assms unfolding mrel_def by blast
    then show False using assms unfolding mrel_def heap_ok_def by linarith
  qed
qed (use assms in \<open>auto simp: mrel_def heap_ok_def\<close>)

lemma below_pos: "below l xs \<Longrightarrow> (\<And>a. a \<in> set xs \<Longrightarrow> 0 < l a) \<Longrightarrow> sorted_wrt (<) xs"
  unfolding below_def by (erule sorted_wrt_mono_rel [rotated]) force

lemma mrel_sorted: "mrel h L \<Longrightarrow> sorted_wrt (<) L"
  using below_pos mrelD(3,6) by blast

lemma mrel_distinct: "mrel h L \<Longrightarrow> distinct L"
  using mrel_sorted strict_sorted_iff by blast

lemma mblock_member [simp]:
  "mrel h L \<Longrightarrow> a \<in> set L \<Longrightarrow> mblock a h = Some (blk h a)"
  "mrel h L \<Longrightarrow> mblock (memlist h) h = Some (blk h (memlist h))"
  using mrelD(4-6) by (force simp: mblock_def)+

lemma below_append: "below l (xs @ ys) \<longleftrightarrow> below l xs \<and> below l ys \<and> (\<forall>x\<in>set xs. \<forall>y\<in>set ys. x + l x \<le> y)"
  by (simp add: below_def sorted_wrt_append)

lemma below_Cons [simp]: "below l (x # xs) \<longleftrightarrow> (\<forall>y\<in>set xs. x + l x \<le> y) \<and> below l xs"
  by (simp add: below_def)

lemma below_Nil [simp]: "below l []"
  by (simp add: below_def)

lemma below_cong: "(\<And>x. x \<in> set xs \<Longrightarrow> l' x = l x) \<Longrightarrow> below l' xs = below l xs"
  by (induction xs) auto

lemma mrel_links:
  assumes "mrel h (ys @ a # zs)"
  shows "mprev (blk h a) = last (memlist h # ys)" "mnext (blk h a) = hd (zs @ [memlist h])"
proof -
  have "dchain (mtab h) (memlist h) ys a" "dchain (mtab h) a zs (memlist h)"
    using mrelD(2) [OF assms] by (simp_all add: dchain_append)
  from dchain_prev [OF this(1)] dchain_next [OF this(2)]
  show "mprev (blk h a) = last (memlist h # ys)" "mnext (blk h a) = hd (zs @ [memlist h])" by simp_all
qed

lemma mrel_ends:
  assumes "mrel h L"
  shows "mnext (blk h (memlist h)) = hd (L @ [memlist h])" "mprev (blk h (memlist h)) = last (memlist h # L)"
  using dchain_next [OF mrelD(2) [OF assms]] dchain_prev [OF mrelD(2) [OF assms]] by simp_all

section \<open>Changing the list\<close>

lemma mrelI:
  assumes "heap_ok h" "dchain (mtab h) (memlist h) L (memlist h)" "below (len h) L"
    "\<And>a. a \<in> set L \<Longrightarrow> minheap h \<le> a \<and> a + len h a \<le> maxheap h \<and> 0 < len h a \<and> 16 dvd len h a"
  shows "mrel h L"
  using assms by (auto simp: mrel_def)

abbreviation (input) same_area :: "mheap \<Rightarrow> mheap \<Rightarrow> bool" where
  "same_area h h' \<equiv> memlist h' = memlist h \<and> minheap h' = minheap h \<and> maxheap h' = maxheap h"

text \<open>A block leaves the list.\<close>

lemma mrel_unlink:
  assumes m: "mrel h (ys @ a # zs)" and ar: "same_area h h'"
    and p: "p = mprev (blk h a)" and c: "c = mnext (blk h a)"
    and n: "\<And>x. x \<noteq> a \<Longrightarrow> mnext (blk h' x) = (if x = p then c else mnext (blk h x))"
    and v: "\<And>x. x \<noteq> a \<Longrightarrow> mprev (blk h' x) = (if x = c then p else mprev (blk h x))"
    and l: "\<And>x. x \<in> set (ys @ zs) \<Longrightarrow> len h' x = len h x"
  shows "mrel h' (ys @ zs)"
proof (rule mrelI)
  note M = mrelD [OF m] and d = mrel_distinct [OF m]
  show "heap_ok h'" using M(1) ar by (simp add: heap_ok_def)
  have "dchain (mtab h') (memlist h) (ys @ zs) (memlist h)"
    by (rule dchain_remove [OF M(2) _ _ _ , where p = p and c = c])
      (use d M(11) p c n v in auto)
  then show "dchain (mtab h') (memlist h') (ys @ zs) (memlist h')" using ar by simp
  have "below (len h) (ys @ zs)" using M(3) by (simp add: below_append)
  then show "below (len h') (ys @ zs)" using below_cong [of "ys @ zs" "len h'" "len h"] l by simp
  show "minheap h' \<le> x \<and> x + len h' x \<le> maxheap h' \<and> 0 < len h' x \<and> 16 dvd len h' x"
    if "x \<in> set (ys @ zs)" for x
    using that l [OF that] ar M(4-7) [of x] by auto
qed

text \<open>A block enters the list.\<close>

lemma mrel_link:
  assumes m: "mrel h (ys @ zs)" and ar: "same_area h h'"
    and b: "b \<notin> set (ys @ zs)" "minheap h \<le> b" "b + len h' b \<le> maxheap h" "0 < len h' b" "16 dvd len h' b"
    and lo: "\<And>x. x \<in> set ys \<Longrightarrow> x + len h x \<le> b" and hi: "\<And>x. x \<in> set zs \<Longrightarrow> b + len h' b \<le> x"
    and p: "p = last (memlist h # ys)" and c: "c = hd (zs @ [memlist h])"
    and n: "\<And>x. mnext (blk h' x) = (if x = b then c else if x = p then b else mnext (blk h x))"
    and v: "\<And>x. mprev (blk h' x) = (if x = c then b else if x = b then p else mprev (blk h x))"
    and l: "\<And>x. x \<in> set (ys @ zs) \<Longrightarrow> len h' x = len h x"
  shows "mrel h' (ys @ b # zs)"
proof (rule mrelI)
  note M = mrelD [OF m] and d = mrel_distinct [OF m]
  have bm: "b \<noteq> memlist h" using M(9) b(2) by simp
  show "heap_ok h'" using M(1) ar by (simp add: heap_ok_def)
  have "dchain (mtab h') (memlist h) (ys @ b # zs) (memlist h)"
    by (rule dchain_insert [OF M(2) d _ _ _ p c]) (use M(11) b(1) bm n v in auto)
  then show "dchain (mtab h') (memlist h') (ys @ b # zs) (memlist h')" using ar by simp
  have "below (len h') (ys @ zs)" using M(3) below_cong [of "ys @ zs" "len h'" "len h"] l by simp
  then show "below (len h') (ys @ b # zs)" using lo hi l by (simp add: below_append)
  show "minheap h' \<le> x \<and> x + len h' x \<le> maxheap h' \<and> 0 < len h' x \<and> 16 dvd len h' x"
    if "x \<in> set (ys @ b # zs)" for x
    using that l [of x] ar M(4-7) [of x] b by auto
qed

text \<open>The front of a block is cut off: its node moves up.\<close>

lemma mrel_split:
  assumes m: "mrel h (ys @ a # zs)" and ar: "same_area h h'" and nb: "0 < nb" "nb < len h a" "16 dvd nb"
    and b: "b = a + nb" and p: "p = mprev (blk h a)" and c: "c = mnext (blk h a)"
    and n: "\<And>x. x \<noteq> a \<Longrightarrow> mnext (blk h' x) = (if x = b then c else if x = p then b else mnext (blk h x))"
    and v: "\<And>x. x \<noteq> a \<Longrightarrow> mprev (blk h' x) = (if x = c then b else if x = b then p else mprev (blk h x))"
    and l: "\<And>x. x \<in> set (ys @ zs) \<Longrightarrow> len h' x = len h x" "len h' b = len h a - nb"
  shows "mrel h' (ys @ b # zs)"
proof -
  note M = mrelD [OF m] and d = mrel_distinct [OF m] and K = mrel_links [OF m]
  have A: "minheap h \<le> a" "a + len h a \<le> maxheap h" "16 dvd len h a" using M(4-7) [of a] by simp_all
  have ord: "\<And>x. x \<in> set ys \<Longrightarrow> x + len h x \<le> a" "\<And>x. x \<in> set zs \<Longrightarrow> a + len h a \<le> x"
    using M(3) by (auto simp: below_append)
  have nin: "b \<notin> set (ys @ zs)" using ord nb b M(6) by fastforce
  define h1 where "h1 = h\<lparr>blk := (\<lambda>x. \<lparr>mnext = (if x = p then c else mnext (blk h x)), mlength = mlength (blk h x),
      mprev = (if x = c then p else mprev (blk h x))\<rparr>)\<rparr>"
  have m1: "mrel h1 (ys @ zs)" by (rule mrel_unlink [OF m _ p c]) (simp_all add: h1_def)
  define h2 where "h2 = h'\<lparr>blk := (\<lambda>x. if x = a then \<lparr>mnext = (if x = p then b else mnext (blk h1 x)),
      mlength = mlength (blk h' x), mprev = (if x = c then b else mprev (blk h1 x))\<rparr> else blk h' x)\<rparr>"
  have ne: "b \<noteq> a" "a \<notin> set (ys @ zs)" "a \<noteq> memlist h" using nb b d M(11) by auto
  have pc: "p \<noteq> a" "c \<noteq> a"
  proof -
    show "p \<noteq> a" unfolding p K(1) using last_node [of "memlist h" ys] ne by auto
    show "c \<noteq> a" unfolding c K(2) using hd_node [of zs "memlist h"] ne by auto
  qed
  have mh: "memlist h1 = memlist h" "minheap h1 = minheap h" "maxheap h1 = maxheap h" by (simp_all add: h1_def)
  have cp: "c \<noteq> b" "p \<noteq> b"
  proof -
    have bm: "b \<noteq> memlist h" using M(9) A(1) nb b by simp
    show "c \<noteq> b" unfolding c K(2) using hd_node [of zs "memlist h"] nin bm by auto
    show "p \<noteq> b" unfolding p K(1) using last_node [of "memlist h" ys] nin bm by auto
  qed
  have "mrel h2 (ys @ b # zs)"
  proof (rule mrel_link [OF m1])
    show "p = last (memlist h1 # ys)" "c = hd (zs @ [memlist h1])" using p c K by (simp_all add: h1_def)
    show "mnext (blk h2 x) = (if x = b then c else if x = p then b else mnext (blk h1 x))" for x
      using n [of x] ne pc by (cases "x = a") (auto simp: h2_def h1_def)
    show "mprev (blk h2 x) = (if x = c then b else if x = b then p else mprev (blk h1 x))" for x
      using v [of x] ne pc by (cases "x = a") (auto simp: h2_def h1_def)
    show "x + len h1 x \<le> b" if "x \<in> set ys" for x using ord(1) [OF that] nb b by (simp add: h1_def)
    show "16 dvd len h2 b" using ne l(2) A(3) nb(3) by (simp add: h2_def dvd_diff)
  qed (use ar nin l A nb b ne ord in \<open>auto simp: h1_def h2_def\<close>)
  then have m2: "mrel h2 (ys @ b # zs)" .
  have l2: "len h2 x = len h' x" for x by (simp add: h2_def)
  have a2: "memlist h2 = memlist h'" "minheap h2 = minheap h'" "maxheap h2 = maxheap h'" by (simp_all add: h2_def)
  show ?thesis
  proof (rule mrelI)
    show "heap_ok h'" using mrelD(1) [OF m2] a2 by (simp add: heap_ok_def)
    have "dchain (mtab h') (memlist h') (ys @ b # zs) (memlist h')
        = dchain (mtab h2) (memlist h') (ys @ b # zs) (memlist h')"
      by (rule dchain_cong) (use ne ar in \<open>auto simp: h2_def\<close>)
    then show "dchain (mtab h') (memlist h') (ys @ b # zs) (memlist h')" using mrelD(2) [OF m2] a2 by simp
    show "below (len h') (ys @ b # zs)" using mrelD(3) [OF m2] below_cong [of _ "len h2" "len h'"] l2 by blast
    show "minheap h' \<le> x \<and> x + len h' x \<le> maxheap h' \<and> 0 < len h' x \<and> 16 dvd len h' x"
      if "x \<in> set (ys @ b # zs)" for x
      using mrelD(4-7) [OF m2 that] l2 a2 by simp
  qed
qed

section \<open>getmem\<close>

text \<open>What the search comes back with, under either policy.\<close>

definition found :: "int \<Rightarrow> int \<Rightarrow> mheap \<Rightarrow> int list \<Rightarrow> int \<times> int + int \<Rightarrow> bool" where
  "found alloc nb h L r \<longleftrightarrow> (case r of
     Inl (p, a) \<Rightarrow> \<exists>us vs. L = us @ a # vs \<and> p = last (memlist h # us) \<and> len h a = nb
       \<and> (alloc = 0 \<longrightarrow> (\<forall>b\<in>set us. len h b < nb))
   | Inr b \<Rightarrow> if b = 0 then \<forall>a\<in>set L. len h a < nb
       else nb < len h b \<and> (\<exists>us vs. L = us @ b # vs \<and> (alloc = 0 \<longrightarrow> (\<forall>x\<in>set us. len h x < nb)))
         \<and> (alloc \<noteq> 0 \<longrightarrow> (\<forall>x\<in>set L. nb \<le> len h x \<longrightarrow> len h b \<le> len h x)))"

lemma getmem_loop_ok:
  assumes m: "mrel h L"
  shows "L = ys @ zs \<Longrightarrow> best = 0 \<or> best \<in> set ys \<and> nb < len h best \<Longrightarrow>
    (best = 0 \<Longrightarrow> \<forall>a\<in>set ys. len h a < nb) \<Longrightarrow> (best \<noteq> 0 \<Longrightarrow> \<forall>a\<in>set ys. nb \<le> len h a \<longrightarrow> len h best \<le> len h a) \<Longrightarrow>
    (alloc = 0 \<Longrightarrow> best = 0) \<Longrightarrow>
    \<exists>r. getmem_loop alloc nb h (last (memlist h # ys)) (hd (zs @ [memlist h])) best = Some r \<and>
      found alloc nb h L r"
proof (induction zs arbitrary: ys best)
  case Nil
  have "\<exists>us vs. L = us @ best # vs \<and> (alloc = 0 \<longrightarrow> (\<forall>x\<in>set us. len h x < nb))" if "best \<noteq> 0"
    using that Nil split_list [of best ys] by auto
  then have "found alloc nb h L (Inr best)" using Nil by (auto simp: found_def)
  then show ?case by (subst getmem_loop.simps) auto
next
  case (Cons z zs)
  have zL: "z \<in> set L" using Cons.prems(1) by simp
  have zm: "z \<noteq> memlist h" using mrelD(11) [OF m] zL by blast
  have z0: "z \<noteq> 0" using mrelD(4,8,9) [OF m] zL by fastforce
  have nx: "mnext (blk h z) = hd (zs @ [memlist h])" using mrel_links(2) m Cons.prems(1) by blast
  have lst: "last (memlist h # ys @ [z]) = z" by simp
  have bz: "mblock z h = Some (blk h z)" by (rule mblock_member(1) [OF m zL])
  note IH = Cons.IH [of "ys @ [z]", unfolded lst]
  consider "len h z = nb" | "len h z < nb" | "nb < len h z" by linarith
  then show ?case
  proof cases
    case 1
    have "getmem_loop alloc nb h (last (memlist h # ys)) (hd ((z # zs) @ [memlist h])) best = Some (Inl (last (memlist h # ys), z))"
      using 1 zm bz by (subst getmem_loop.simps) simp
    moreover have "\<forall>b\<in>set ys. len h b < nb" if "alloc = 0" using that Cons.prems(3,5) by blast
    ultimately show ?thesis using 1 Cons.prems(1) by (auto simp: found_def)
  next
    case 2
    have "getmem_loop alloc nb h (last (memlist h # ys)) (hd ((z # zs) @ [memlist h])) best
        = getmem_loop alloc nb h z (hd (zs @ [memlist h])) best"
      using 2 zm bz nx by (subst getmem_loop.simps) simp
    moreover have "\<exists>r. getmem_loop alloc nb h z (hd (zs @ [memlist h])) best = Some r \<and> found alloc nb h L r"
      by (rule IH) (use Cons.prems 2 in auto)
    ultimately show ?thesis by simp
  next
    case 3
    define best' where "best' = (if best = 0 \<or> len h best > len h z then z else best)"
    have bb: "best \<noteq> 0 \<Longrightarrow> mblock best h = Some (blk h best)"
      using Cons.prems(1,2) mblock_member(1) [OF m] by auto
    have "getmem_loop alloc nb h (last (memlist h # ys)) (hd ((z # zs) @ [memlist h])) best
        = (if alloc = 0 then Some (Inr best') else getmem_loop alloc nb h z (hd (zs @ [memlist h])) best')"
      using 3 zm bz bb nx by (subst getmem_loop.simps) (auto simp: best'_def)
    moreover have ?thesis if a: "alloc = 0" and r: "getmem_loop alloc nb h (last (memlist h # ys)) (hd ((z # zs) @ [memlist h])) best = Some (Inr best')"
    proof -
      have "best' = z" "\<forall>b\<in>set ys. len h b < nb" using a Cons.prems(3,5) by (auto simp: best'_def)
      then have "found alloc nb h L (Inr best')" using a z0 3 Cons.prems(1) by (auto simp: found_def)
      then show ?thesis using r by simp
    qed
    moreover have "\<exists>r. getmem_loop alloc nb h z (hd (zs @ [memlist h])) best' = Some r \<and> found alloc nb h L r" if a: "alloc \<noteq> 0"
    proof (rule IH)
      show "L = (ys @ [z]) @ zs" using Cons.prems(1) by simp
      show "best' = 0 \<or> best' \<in> set (ys @ [z]) \<and> nb < len h best'" using Cons.prems(2) 3 by (auto simp: best'_def)
      show "\<forall>a\<in>set (ys @ [z]). len h a < nb" if "best' = 0" using that z0 by (auto simp: best'_def split: if_splits)
      show "\<forall>a\<in>set (ys @ [z]). nb \<le> len h a \<longrightarrow> len h best' \<le> len h a" if "best' \<noteq> 0"
        using Cons.prems(3,4) by (fastforce simp: best'_def)
      show "best' = 0" if "alloc = 0" using that a by simp
    qed
    ultimately show ?thesis by (cases "alloc = 0") simp_all
  qed
qed

lemma free_bytes_append: "free_bytes h (xs @ ys) = free_bytes h xs \<union> free_bytes h ys"
  by (simp add: free_bytes_def)

lemma free_bytes_Cons: "free_bytes h (x # xs) = {x..<x + len h x} \<union> free_bytes h xs"
  by (simp add: free_bytes_def)

lemma free_bytes_cong: "(\<And>x. x \<in> set xs \<Longrightarrow> len h' x = len h x) \<Longrightarrow> free_bytes h' xs = free_bytes h xs"
  by (simp add: free_bytes_def)

text \<open>Blocks before and after one do not meet it.\<close>

lemma free_bytes_apart:
  assumes "mrel h (ys @ a # zs)"
  shows "free_bytes h ys \<inter> {a..<a + len h a} = {}" "free_bytes h zs \<inter> {a..<a + len h a} = {}"
  using mrelD(3) [OF assms] by (force simp: free_bytes_def below_append)+

text \<open>
  Coalesced: no free block ends where another begins.  The bytes that are free then determine
  the list.
\<close>

definition coalesced :: "mheap \<Rightarrow> int list \<Rightarrow> bool" where
  "coalesced h L \<longleftrightarrow> (\<forall>a\<in>set L. a + len h a \<notin> set L)"

lemma coalesced_free:
  assumes m: "mrel h L"
  shows "coalesced h L \<longleftrightarrow> (\<forall>a\<in>set L. a + len h a \<notin> free_bytes h L)"
proof
  assume c: "coalesced h L"
  show "\<forall>a\<in>set L. a + len h a \<notin> free_bytes h L"
  proof (intro ballI notI)
    fix a assume a: "a \<in> set L" and "a + len h a \<in> free_bytes h L"
    then obtain x where x: "x \<in> set L" "x \<le> a + len h a" "a + len h a < x + len h x"
      by (auto simp: free_bytes_def)
    have "x \<noteq> a + len h a" using c a x(1) by (auto simp: coalesced_def)
    moreover have "x \<noteq> a" using x(3) by auto
    obtain us vs where L: "L = us @ a # vs" using a by (auto dest: split_list)
    ultimately show False
      using x mrelD(3) [OF m] mrelD(6) [OF m a] mrelD(6) [OF m x(1)] \<open>x \<noteq> a\<close> by (auto simp: L below_append)
  qed
next
  assume "\<forall>a\<in>set L. a + len h a \<notin> free_bytes h L"
  moreover have "x \<in> free_bytes h L" if "x \<in> set L" for x
    using that mrelD(6) [OF m that] by (force simp: free_bytes_def)
  ultimately show "coalesced h L" by (auto simp: coalesced_def)
qed

lemma coalesced_parts:
  assumes "coalesced h (us @ a # vs)" "\<And>x. x \<in> set (us @ vs) \<Longrightarrow> len h' x = len h x"
  shows "coalesced h' (us @ vs)"
  using assms by (auto simp: coalesced_def)

lemma coalesced_one:
  assumes m: "mrel h' (us @ b # vs)" and c: "\<forall>x\<in>set us \<union> set vs. x + len h' x \<notin> set us \<union> set vs"
    and e: "b + len h' b \<notin> set vs" "\<forall>x\<in>set us. x + len h' x < b"
  shows "coalesced h' (us @ b # vs)"
proof -
  have "x < b" if "x \<in> set us" for x using e(2) mrelD(6) [OF m, of x] that by fastforce
  moreover have "b < x" if "x \<in> set vs" for x using mrelD(3) [OF m] mrelD(6) [OF m, of b] that by (fastforce simp: below_append)
  moreover have "0 < len h' b" "\<And>x. x \<in> set vs \<Longrightarrow> 0 < len h' x" using mrelD(6) [OF m] by simp_all
  ultimately show ?thesis using c e by (fastforce simp: coalesced_def)
qed

lemma getmem_refuses:
  assumes m: "mrel h L" and n: "0 < nbytes" and none: "\<forall>a\<in>set L. len h a < roundmb nbytes"
  shows "getmem alloc nbytes h = Some (SYSERR, h)"
proof -
  obtain r where r: "getmem_loop alloc (roundmb nbytes) h (memlist h) (hd (L @ [memlist h])) 0 = Some r"
    and c: "found alloc (roundmb nbytes) h L r"
    using getmem_loop_ok [OF m, of "[]" L 0 "roundmb nbytes" alloc] by auto
  have "r = Inr 0"
  proof (cases r)
    case (Inl pa)
    then show ?thesis using c none by (cases pa) (force simp: found_def)
  next
    case (Inr b)
    then show ?thesis using c none by (force simp: found_def split: if_splits)
  qed
  then show ?thesis using n r mrel_ends(1) [OF m] m by (simp add: getmem_def)
qed

text \<open>\<open>getmem\<close> refuses a request that no free block can hold, and changes nothing.\<close>

theorem getmem_none:
  assumes m: "mrel h L" and n: "0 < nbytes" and none: "\<forall>a\<in>set L. len h a < roundmb nbytes"
  shows "getmem alloc nbytes h = Some (SYSERR, h)"
  using assms by (rule getmem_refuses)

lemma getmem_takes:
  assumes m: "mrel h L" and n: "0 < nbytes" "nbytes \<le> 4294967280"
    and some: "\<exists>a\<in>set L. roundmb nbytes \<le> len h a"
  shows "\<exists>a h' L'. getmem alloc nbytes h = Some (a, h') \<and> mrel h' L' \<and> same_area h h'
    \<and> a \<in> set L \<and> roundmb nbytes \<le> len h a
    \<and> free_bytes h' L' = free_bytes h L - {a..<a + roundmb nbytes} \<and> (coalesced h L \<longrightarrow> coalesced h' L')
    \<and> (alloc = 0 \<longrightarrow> (\<forall>b\<in>set L. roundmb nbytes \<le> len h b \<longrightarrow> a \<le> b))
    \<and> (alloc \<noteq> 0 \<longrightarrow> (\<forall>b\<in>set L. roundmb nbytes \<le> len h b \<longrightarrow> len h a \<le> len h b))"
proof -
  define nb where "nb = roundmb nbytes"
  note R = roundmb_props [OF n, folded nb_def]
  note M = mrelD [OF m]
  obtain r where r: "getmem_loop alloc nb h (memlist h) (hd (L @ [memlist h])) 0 = Some r"
    and f: "found alloc nb h L r"
    using getmem_loop_ok [OF m, of "[]" L 0 nb alloc] by auto
  have first: "\<forall>b\<in>set L. nb \<le> len h b \<longrightarrow> a \<le> b"
    if "L = us @ a # vs" "\<forall>x\<in>set us. len h x < nb" for a us vs
    using mrel_sorted [OF m] that by (auto simp: sorted_wrt_append)
  show ?thesis
  proof (cases r)
    case (Inl pa)
    obtain p a where pa: "pa = (p, a)" by (cases pa)
    obtain us vs where F: "L = us @ a # vs" "p = last (memlist h # us)" "len h a = nb"
      "alloc = 0 \<longrightarrow> (\<forall>b\<in>set us. len h b < nb)"
      using f Inl pa by (auto simp: found_def)
    have aL: "a \<in> set L" using F(1) by simp
    define c where "c = mnext (blk h a)"
    have K: "p = mprev (blk h a)" "c = hd (vs @ [memlist h])"
      using mrel_links m F(1,2) unfolding c_def by auto
    have pin: "p = memlist h \<or> p \<in> set L" using F(1,2) last_node [of "memlist h" us] by auto
    have cin: "c = memlist h \<or> c \<in> set L" using F(1) K(2) hd_node [of vs "memlist h"] by auto
    have dd: "a \<notin> set (us @ vs)" "a \<noteq> memlist h" using mrel_distinct [OF m] M(11) F(1) by auto
    have ok: "x = memlist h \<or> minheap h \<le> x \<and> x < maxheap h" if "x = memlist h \<or> x \<in> set L" for x
      using that M(4-6) by force
    define h' where "h' = h\<lparr>blk := (let b1 = (blk h)(p := (blk h p)\<lparr>mnext := c\<rparr>); b2 = b1(c := (b1 c)\<lparr>mprev := p\<rparr>)
      in b2(memlist h := (b2 (memlist h))\<lparr>mlength := u32 (mlength (b2 (memlist h)) - nb)\<rparr>))\<rparr>"
    have run: "getmem alloc nbytes h = Some (a, h')"
      using n r Inl pa mrel_ends(1) [OF m] m aL ok [OF pin] ok [OF cin]
      by (simp add: getmem_def nb_def [symmetric] upd_blk_def c_def [symmetric] h'_def Let_def)
    have bl: "mnext (blk h' x) = (if x = p then c else mnext (blk h x))"
      "mprev (blk h' x) = (if x = c then p else mprev (blk h x))"
      "x \<noteq> memlist h \<Longrightarrow> len h' x = len h x" for x
      by (simp_all add: h'_def Let_def)
    have sa: "same_area h h'" by (simp add: h'_def)
    have ln: "len h' x = len h x" if "x \<in> set (us @ vs)" for x
    proof -
      have "x \<noteq> memlist h" using that M(11) F(1) by auto
      then show ?thesis using bl(3) by simp
    qed
    have m': "mrel h' (us @ vs)"
      by (rule mrel_unlink [OF m [unfolded F(1)] sa K(1) c_def]) (rule bl, rule bl, rule ln)
    have "free_bytes h' (us @ vs) = free_bytes h (us @ vs)" by (rule free_bytes_cong) (rule ln)
    also have "\<dots> = free_bytes h L - {a..<a + nb}"
      using free_bytes_apart [OF m [unfolded F(1)]] F(1,3)
      by (auto simp: free_bytes_append free_bytes_Cons)
    finally have fb: "free_bytes h' (us @ vs) = free_bytes h L - {a..<a + nb}" .
    have co: "coalesced h L \<longrightarrow> coalesced h' (us @ vs)" using coalesced_parts [of h us a vs h'] ln F(1) by blast
    show ?thesis
      using run m' fb aL F(3,4) first [OF F(1)] sa co unfolding nb_def [symmetric]
      by (intro exI [of _ a] exI [of _ h'] exI [of _ "us @ vs"]) simp
  next
    case (Inr a)
    have a0: "a \<noteq> 0" using f Inr some nb_def by (force simp: found_def)
    then obtain us vs where F: "L = us @ a # vs" "nb < len h a" "alloc = 0 \<longrightarrow> (\<forall>b\<in>set us. len h b < nb)"
      "alloc \<noteq> 0 \<longrightarrow> (\<forall>x\<in>set L. nb \<le> len h x \<longrightarrow> len h a \<le> len h x)"
      using f Inr by (auto simp: found_def)
    have aL: "a \<in> set L" using F(1) by simp
    define p c b where "p = mprev (blk h a)" and "c = mnext (blk h a)" and "b = a + nb"
    have K: "p = last (memlist h # us)" "c = hd (vs @ [memlist h])"
      using mrel_links m F(1) unfolding p_def c_def by auto
    have pin: "p = memlist h \<or> p \<in> set us" using K(1) last_node [of "memlist h" us] by auto
    have cin: "c = memlist h \<or> c \<in> set vs" using K(2) hd_node [of vs "memlist h"] by auto
    have ok: "x = memlist h \<or> minheap h \<le> x \<and> x < maxheap h" if "x = memlist h \<or> x \<in> set us \<or> x \<in> set vs" for x
      using that M(4-6) F(1) by force
    have bh: "minheap h \<le> b" "b < maxheap h" using M(4,5) [OF aL] F(2) R(4) by (simp_all add: b_def)
    have ord: "\<And>x. x \<in> set us \<Longrightarrow> x + len h x \<le> a" "\<And>x. x \<in> set vs \<Longrightarrow> a + len h a \<le> x"
      using M(3) F(1) by (auto simp: below_append)
    have bn: "b \<noteq> memlist h" "b \<notin> set us" "b \<notin> set vs"
    proof -
      show "b \<noteq> memlist h" using bh(1) M(9) by simp
      show "b \<notin> set us" using ord(1) [of b] M(6) [of b] F(1) R(4) by (auto simp: b_def)
      show "b \<notin> set vs" using ord(2) [of b] F(2) by (auto simp: b_def)
    qed
    then have pc: "p \<noteq> b" "c \<noteq> b" using pin cin by auto
    have ab: "a \<noteq> b" "a \<noteq> memlist h" using R(4) M(11) aL by (auto simp: b_def)
    define b1 where "b1 = (blk h)(p := (blk h p)\<lparr>mnext := b\<rparr>)"
    define b2 where "b2 = b1(b := (b1 b)\<lparr>mprev := p, mnext := c\<rparr>)"
    define b3 where "b3 = b2(c := (b2 c)\<lparr>mprev := b\<rparr>)"
    define b4 where "b4 = b3(b := (b3 b)\<lparr>mlength := len h a - nb\<rparr>)"
    define h' where "h' = h\<lparr>blk := b4(memlist h := (b4 (memlist h))\<lparr>mlength := u32 (mlength (b4 (memlist h)) - nb)\<rparr>)\<rparr>"
    have okp: "p = memlist h \<or> minheap h \<le> p \<and> p < maxheap h" "c = memlist h \<or> minheap h \<le> c \<and> c < maxheap h"
      using ok pin cin by blast+
    have run: "getmem alloc nbytes h = Some (a, h')"
      using n r Inr a0 mrel_ends(1) [OF m] m aL okp bh
      by (simp add: getmem_def nb_def [symmetric] upd_blk_def p_def [symmetric] c_def [symmetric] b_def [symmetric]
          h'_def b4_def b3_def b2_def b1_def)
    have bl: "mnext (blk h' x) = (if x = b then c else if x = p then b else mnext (blk h x))"
      "mprev (blk h' x) = (if x = c then b else if x = b then p else mprev (blk h x))"
      "x \<noteq> memlist h \<Longrightarrow> len h' x = (if x = b then len h a - nb else len h x)" for x
      using pc bn(1) by (simp_all add: h'_def b4_def b3_def b2_def b1_def)
    have sa: "same_area h h'" by (simp add: h'_def)
    have ln: "len h' x = len h x" if "x \<in> set (us @ vs)" for x
    proof -
      have "x \<noteq> memlist h" "x \<noteq> b" using that M(11) F(1) bn by auto
      then show ?thesis using bl(3) by simp
    qed
    have lb: "len h' b = len h a - nb" using bl(3) [OF bn(1)] by simp
    have m': "mrel h' (us @ b # vs)"
      by (rule mrel_split [OF m [unfolded F(1)] sa R(4) F(2) R(3) b_def p_def c_def])
        (simp add: bl, simp add: bl, rule ln, assumption, rule lb)
    have "free_bytes h' (us @ b # vs) = free_bytes h (us @ vs) \<union> {b..<b + (len h a - nb)}"
    proof -
      have "free_bytes h' us = free_bytes h us" "free_bytes h' vs = free_bytes h vs"
        by (rule free_bytes_cong, rule ln, simp)+
      then show ?thesis using lb by (auto simp: free_bytes_append free_bytes_Cons)
    qed
    also have "\<dots> = free_bytes h L - {a..<a + nb}"
      using free_bytes_apart [OF m [unfolded F(1)]] F(1,2) R(4)
      by (auto simp: free_bytes_append free_bytes_Cons b_def)
    finally have fb: "free_bytes h' (us @ b # vs) = free_bytes h L - {a..<a + nb}" .
    have co: "coalesced h' (us @ b # vs)" if "coalesced h L"
    proof (rule coalesced_one [OF m'])
      show "\<forall>x\<in>set us \<union> set vs. x + len h' x \<notin> set us \<union> set vs" using that ln F(1) by (auto simp: coalesced_def)
      have "b + len h' b = a + len h a" unfolding lb by (simp add: b_def)
      then show "b + len h' b \<notin> set vs" using that F(1) by (simp add: coalesced_def)
      show "\<forall>x\<in>set us. x + len h' x < b" using ord(1) ln R(4) by (fastforce simp: b_def)
    qed
    show ?thesis
      using run m' fb aL F(2-4) first [OF F(1)] sa co unfolding nb_def [symmetric]
      by (intro exI [of _ a] exI [of _ h'] exI [of _ "us @ b # vs"]) simp
  qed
qed

text \<open>C26: when some free block is large enough \<open>getmem\<close> returns one, the first in address order
  under first fit and a smallest one under best fit; exactly the rounded request leaves the
  free bytes, at the start of that block, and the free list stays well formed, and coalesced if it was.\<close>

theorem getmem_some:
  assumes m: "mrel h L" and n: "0 < nbytes" "nbytes \<le> 4294967280"
    and some: "\<exists>a\<in>set L. roundmb nbytes \<le> len h a"
  shows "\<exists>a h' L'. getmem alloc nbytes h = Some (a, h') \<and> mrel h' L' \<and> same_area h h'
    \<and> a \<in> set L \<and> roundmb nbytes \<le> len h a
    \<and> free_bytes h' L' = free_bytes h L - {a..<a + roundmb nbytes} \<and> (coalesced h L \<longrightarrow> coalesced h' L')
    \<and> (alloc = 0 \<longrightarrow> (\<forall>b\<in>set L. roundmb nbytes \<le> len h b \<longrightarrow> a \<le> b))
    \<and> (alloc \<noteq> 0 \<longrightarrow> (\<forall>b\<in>set L. roundmb nbytes \<le> len h b \<longrightarrow> len h a \<le> len h b))"
  by (rule getmem_takes [OF assms])

section \<open>Giving memory back\<close>

text \<open>A block of the list changes its length.\<close>

lemma mrel_len:
  assumes m: "mrel h (ys @ q # zs)" and ar: "same_area h h'"
    and n: "\<And>x. mnext (blk h' x) = mnext (blk h x)" and v: "\<And>x. mprev (blk h' x) = mprev (blk h x)"
    and l: "\<And>x. x \<in> set (ys @ zs) \<Longrightarrow> len h' x = len h x"
    and q: "0 < len h' q" "16 dvd len h' q" "q + len h' q \<le> maxheap h" "\<And>x. x \<in> set zs \<Longrightarrow> q + len h' q \<le> x"
  shows "mrel h' (ys @ q # zs)"
proof (rule mrelI)
  note M = mrelD [OF m]
  show "heap_ok h'" using M(1) ar by (simp add: heap_ok_def)
  have "dchain (mtab h') (memlist h) (ys @ q # zs) (memlist h) = dchain (mtab h) (memlist h) (ys @ q # zs) (memlist h)"
    by (rule dchain_cong) (simp_all add: n v)
  then show "dchain (mtab h') (memlist h') (ys @ q # zs) (memlist h')" using M(2) ar by simp
  have "below (len h') ys = below (len h) ys" "below (len h') zs = below (len h) zs"
    by (rule below_cong, rule l, simp)+
  then show "below (len h') (ys @ q # zs)" using M(3) l q(4) by (simp add: below_append)
  show "minheap h' \<le> x \<and> x + len h' x \<le> maxheap h' \<and> 0 < len h' x \<and> 16 dvd len h' x"
    if "x \<in> set (ys @ q # zs)" for x
    using that l [of x] ar M(4-7) [of x] q by auto
qed

lemma free_walk_ok:
  "mrel h (ys @ zs) \<Longrightarrow> free_walk h block (last (memlist h # ys)) (hd (zs @ [memlist h])) =
    Some (last (memlist h # ys @ takeWhile (\<lambda>a. a < block) zs), hd (dropWhile (\<lambda>a. a < block) zs @ [memlist h]))"
proof (induction zs arbitrary: ys)
  case Nil
  then show ?case by (subst free_walk.simps) simp
next
  case (Cons z zs)
  have zm: "z \<noteq> memlist h" using mrelD(11) [OF Cons.prems] by auto
  have nx: "mnext (blk h z) = hd (zs @ [memlist h])" using mrel_links(2) [OF Cons.prems] .
  have bz: "mblock z h = Some (blk h z)" by (rule mblock_member(1) [OF Cons.prems]) simp
  have "free_walk h block z (hd (zs @ [memlist h])) =
      Some (last (memlist h # (ys @ [z]) @ takeWhile (\<lambda>a. a < block) zs), hd (dropWhile (\<lambda>a. a < block) zs @ [memlist h]))"
    using Cons.IH [of "ys @ [z]"] Cons.prems by simp
  then show ?case using zm nx bz by (subst free_walk.simps) simp
qed

lemma freestk_walk_ok:
  "mrel h (rev zs @ ys) \<Longrightarrow> freestk_walk h block (hd (ys @ [memlist h])) (hd (zs @ [memlist h])) =
    Some (hd (rev (takeWhile (\<lambda>a. a > block) zs) @ ys @ [memlist h]), hd (dropWhile (\<lambda>a. a > block) zs @ [memlist h]))"
proof (induction zs arbitrary: ys)
  case Nil
  then show ?case by (subst freestk_walk.simps) simp
next
  case (Cons z zs)
  have m: "mrel h (rev zs @ z # ys)" using Cons.prems by simp
  have zm: "z \<noteq> memlist h" using mrelD(11) [OF m] by auto
  have "mprev (blk h z) = last (memlist h # rev zs)" using mrel_links(1) [OF m] .
  then have pv: "mprev (blk h z) = hd (zs @ [memlist h])" by (cases zs) (simp_all add: last_rev)
  have bz: "mblock z h = Some (blk h z)" by (rule mblock_member(1) [OF m]) simp
  have "freestk_walk h block z (hd (zs @ [memlist h])) =
      Some (hd (rev (takeWhile (\<lambda>a. a > block) zs) @ (z # ys) @ [memlist h]), hd (dropWhile (\<lambda>a. a > block) zs @ [memlist h]))"
    using Cons.IH [of "z # ys"] Cons.prems by simp
  then show ?case using zm pv bz by (subst freestk_walk.simps) simp
qed

text \<open>The second half of \<open>free_link\<close>: merging with the next block.\<close>

definition merge_next :: "int \<Rightarrow> int \<Rightarrow> mheap \<Rightarrow> mheap option" where
  "merge_next block next h = do {
     b \<leftarrow> mblock block h;
     if u32 (block + mlength b) = next then do {
       n \<leftarrow> mblock next h;
       h \<leftarrow> put_mlength block (u32 (mlength b + mlength n)) h;
       h \<leftarrow> put_mnext block (mnext n) h;
       put_mprev (mnext n) block h
     } else Some h
   }"

lemma mrel_node_ok:
  assumes "mrel h L" "x = memlist h \<or> x \<in> set L"
  shows "x = memlist h \<or> minheap h \<le> x \<and> x < maxheap h"
  using assms mrelD(4-6) [OF assms(1)] by force

lemma merge_next_ok:
  assumes m: "mrel h (us @ q # vs)" and nx: "next = hd (vs @ [memlist h])"
  shows "\<exists>h' L'. merge_next q next h = Some h' \<and> mrel h' L' \<and> same_area h h'
    \<and> free_bytes h' L' = free_bytes h (us @ q # vs)
    \<and> ((\<forall>a\<in>set us \<union> set vs. a + len h a \<notin> set (us @ q # vs)) \<longrightarrow> coalesced h' L')"
proof -
  note M = mrelD [OF m]
  have q: "minheap h \<le> q" "q + len h q \<le> maxheap h" "0 < len h q" "16 dvd len h q" using M(4-7) [of q] by simp_all
  have bq: "mblock q h = Some (blk h q)" by (rule mblock_member(1) [OF m]) simp
  have uq: "u32 (q + len h q) = q + len h q" using q M(8-10) by simp
  show ?thesis
  proof (cases "q + len h q = next")
    case False
    then have "merge_next q next h = Some h" using bq uq by (simp add: merge_next_def)
    moreover have "coalesced h (us @ q # vs)" if c: "\<forall>a\<in>set us \<union> set vs. a + len h a \<notin> set (us @ q # vs)"
    proof -
      have "q + len h q \<notin> set (us @ q # vs)"
      proof
        assume e: "q + len h q \<in> set (us @ q # vs)"
        moreover have "x < q" if "x \<in> set us" for x using mrel_sorted [OF m] that by (simp add: sorted_wrt_append)
        ultimately have v: "q + len h q \<in> set vs" using q by force
        then obtain y ys where y: "vs = y # ys" by (cases vs) auto
        have "q + len h q \<le> y" using M(3) y by (simp add: below_append)
        moreover have "y \<le> q + len h q" using v y mrel_sorted [OF m] by (auto simp: sorted_wrt_append)
        ultimately show False using False nx y by simp
      qed
      then show ?thesis using c by (auto simp: coalesced_def)
    qed
    ultimately show ?thesis using m by (intro exI [of _ h] exI [of _ "us @ q # vs"]) simp
  next
    case True
    then have "next \<noteq> memlist h" using q M(9) by simp
    then obtain vs' where vs: "vs = next # vs'" using nx by (cases vs) auto
    have nin: "next \<in> set (us @ q # vs)" using vs by simp
    have m': "mrel h ((us @ [q]) @ next # vs')" using m vs by simp
    note K = mrel_links [OF m']
    define c where "c = mnext (blk h next)"
    have cin: "c = memlist h \<or> c \<in> set vs'" using K(2) hd_node [of vs' "memlist h"] by (auto simp: c_def)
    have d: "distinct (us @ q # next # vs')" using mrel_distinct [OF m] vs by simp
    have n: "next + len h next \<le> maxheap h" "0 < len h next" "16 dvd len h next" "minheap h \<le> next"
      using M(4-7) [OF nin] by simp_all
    define h1 where "h1 = h\<lparr>blk := (let b1 = (blk h)(q := (blk h q)\<lparr>mnext := c\<rparr>) in b1(c := (b1 c)\<lparr>mprev := q\<rparr>))\<rparr>"
    define h' where "h' = h1\<lparr>blk := (blk h1)(q := (blk h1 q)\<lparr>mlength := len h q + len h next\<rparr>)\<rparr>"
    have qc: "q \<noteq> next" "c \<noteq> next" "q \<noteq> memlist h" using d cin M(11) vs by auto
    have m1: "mrel h1 ((us @ [q]) @ vs')"
      by (rule mrel_unlink [OF m', where p = q and c = c]) (use K c_def in \<open>simp_all add: h1_def Let_def\<close>)
    have ord: "next + len h next \<le> x" if "x \<in> set vs'" for x
      using M(3) vs that by (auto simp: below_append)
    have l1: "len h1 x = len h x" for x by (simp add: h1_def Let_def)
    have m2: "mrel h' (us @ q # vs')"
    proof (rule mrel_len [of h1])
      show "mrel h1 (us @ q # vs')" using m1 by simp
      show "q + len h' q \<le> x" if "x \<in> set vs'" for x using ord [OF that] True by (simp add: h'_def)
      show "q + len h' q \<le> maxheap h1" using n True by (simp add: h'_def h1_def)
      show "len h' x = len h1 x" if "x \<in> set (us @ vs')" for x using that d by (auto simp: h'_def)
    qed (use q n in \<open>auto simp: h'_def\<close>)
    have okc: "c = memlist h \<or> minheap h \<le> c \<and> c < maxheap h"
      using mrel_node_ok [OF m] cin vs by auto
    have "u32 (len h q + len h next) = len h q + len h next" using True n M(8-10) q by simp
    then have "merge_next q next h = Some h'"
      using bq uq True qc q n okc mblock_member(1) [OF m nin]
      by (simp add: merge_next_def upd_blk_def c_def [symmetric] h'_def h1_def Let_def)
        (auto simp: fun_eq_iff)
    moreover have "free_bytes h' (us @ q # vs') = free_bytes h (us @ q # vs)"
    proof -
      have "free_bytes h' us = free_bytes h us" "free_bytes h' vs' = free_bytes h vs'"
        by (rule free_bytes_cong; use d in \<open>auto simp: h'_def l1\<close>)+
      moreover have "{q..<q + (len h q + len h next)} = {q..<q + len h q} \<union> {next..<next + len h next}"
        using True q n by auto
      ultimately show ?thesis using vs by (auto simp: free_bytes_append free_bytes_Cons h'_def)
    qed
    moreover have "coalesced h' (us @ q # vs')" if c: "\<forall>a\<in>set us \<union> set vs. a + len h a \<notin> set (us @ q # vs)"
    proof -
      have lq: "q + len h' q = next + len h next" using True by (simp add: h'_def)
      have lx: "len h' x = len h x" if "x \<in> set us \<union> set vs'" for x using that d by (auto simp: h'_def l1)
      show ?thesis unfolding coalesced_def
      proof
        fix a assume "a \<in> set (us @ q # vs')"
        then consider "a = q" | "a \<in> set us \<union> set vs'" by auto
        then show "a + len h' a \<notin> set (us @ q # vs')"
        proof cases
          case 1
          then show ?thesis using c vs lq by simp
        next
          case 2
          then show ?thesis using c vs lx [OF 2] by auto
        qed
      qed
    qed
    ultimately show ?thesis using m2 by (intro exI [of _ h'] exI [of _ "us @ q # vs'"]) (simp add: h'_def h1_def)
  qed
qed

lemma free_link_split:
  "free_link block nbytes prev next ptop h = do {
     h \<leftarrow> add_total nbytes h;
     (block, h) \<leftarrow>
       (if ptop = block then do {
          h \<leftarrow> upd_blk prev (\<lambda>b. b\<lparr>mlength := u32 (mlength b + nbytes)\<rparr>) h;
          Some (prev, h)
        } else do {
          h \<leftarrow> put_mnext block next h;
          h \<leftarrow> put_mprev next block h;
          h \<leftarrow> put_mlength block nbytes h;
          h \<leftarrow> put_mprev block prev h;
          h \<leftarrow> put_mnext prev block h;
          Some (block, h)
        });
     merge_next block next h
   }"
  by (simp add: free_link_def merge_next_def)

lemma free_link_ok:
  assumes m: "mrel h (us @ vs)" and nb: "0 < nb" "16 dvd nb" and b: "minheap h \<le> b" "b + nb \<le> maxheap h"
    and lo: "\<And>x. x \<in> set us \<Longrightarrow> x + len h x \<le> b" and hi: "\<And>x. x \<in> set vs \<Longrightarrow> b + nb \<le> x"
    and prev: "prev = last (memlist h # us)" and nxt: "next = hd (vs @ [memlist h])"
    and ptop: "ptop = (if us = [] then 0 else last us + len h (last us))"
  shows "\<exists>h' L'. free_link b nb prev next ptop h = Some h' \<and> mrel h' L' \<and> same_area h h'
    \<and> free_bytes h' L' = free_bytes h (us @ vs) \<union> {b..<b + nb} \<and> (coalesced h (us @ vs) \<longrightarrow> coalesced h' L')"
proof -
  note M = mrelD [OF m]
  define h1 where "h1 = h\<lparr>blk := (blk h)(memlist h := (blk h (memlist h))\<lparr>mlength := u32 (len h (memlist h) + nb)\<rparr>)\<rparr>"
  have a1: "add_total nb h = Some h1" by (simp add: upd_blk_def h1_def)
  have sa1: "same_area h h1" by (simp add: h1_def)
  have l1: "len h1 x = len h x" if "x \<in> set (us @ vs)" for x
  proof -
    have "x \<noteq> memlist h" using that M(11) by auto
    then show ?thesis by (simp add: h1_def)
  qed
  have nv1: "mnext (blk h1 x) = mnext (blk h x)" "mprev (blk h1 x) = mprev (blk h x)" for x by (simp_all add: h1_def)
  have m1: "mrel h1 (us @ vs)"
  proof (rule mrelI)
    show "heap_ok h1" using M(1) by (simp add: heap_ok_def h1_def)
    have "dchain (mtab h1) (memlist h) (us @ vs) (memlist h) = dchain (mtab h) (memlist h) (us @ vs) (memlist h)"
      by (rule dchain_cong) (simp_all add: nv1)
    then show "dchain (mtab h1) (memlist h1) (us @ vs) (memlist h1)" using M(2) by (simp add: h1_def)
    show "below (len h1) (us @ vs)" using M(3) below_cong [of "us @ vs" "len h1" "len h"] l1 by blast
    show "minheap h1 \<le> x \<and> x + len h1 x \<le> maxheap h1 \<and> 0 < len h1 x \<and> 16 dvd len h1 x"
      if "x \<in> set (us @ vs)" for x using M(4-7) [OF that] l1 [OF that] by (simp add: h1_def)
  qed
  have fb1: "free_bytes h1 (us @ vs) = free_bytes h (us @ vs)" by (rule free_bytes_cong) (rule l1)
  have bm: "b \<noteq> memlist h" "b \<noteq> 0" using b M(8,9) by simp_all
  have nin: "b \<notin> set (us @ vs)" using lo hi nb M(6) by fastforce
  have "\<exists>h2 q us'. (if ptop = b then do {
          h \<leftarrow> upd_blk prev (\<lambda>b. b\<lparr>mlength := u32 (mlength b + nb)\<rparr>) h1;
          Some (prev, h)
        } else do {
          h \<leftarrow> put_mnext b next h1;
          h \<leftarrow> put_mprev next b h;
          h \<leftarrow> put_mlength b nb h;
          h \<leftarrow> put_mprev b prev h;
          h \<leftarrow> put_mnext prev b h;
          Some (b, h)
        }) = Some (q, h2) \<and> mrel h2 (us' @ q # vs) \<and> same_area h h2
        \<and> free_bytes h2 (us' @ q # vs) = free_bytes h (us @ vs) \<union> {b..<b + nb}
        \<and> (coalesced h (us @ vs) \<longrightarrow> (\<forall>a\<in>set us' \<union> set vs. a + len h2 a \<notin> set (us' @ q # vs)))"
  proof (cases "ptop = b")
    case True
    then have ne: "us \<noteq> []" using ptop bm by auto
    define us' q where "us' = butlast us" and "q = last us"
    have us: "us = us' @ [q]" using ne by (simp add: us'_def q_def)
    have qb: "q + len h q = b" using True ptop ne by (simp add: q_def)
    have qin: "q \<in> set (us @ vs)" using us by simp
    have pq: "prev = q" using prev us by simp
    have q: "minheap h \<le> q" "q < maxheap h" "0 < len h q" "16 dvd len h q"
      using M(4-7) [OF qin] by simp_all
    have u: "u32 (len h q + nb) = len h q + nb" using q nb b qb M(8-10) by simp
    define h2 where "h2 = h1\<lparr>blk := (blk h1)(q := (blk h1 q)\<lparr>mlength := len h q + nb\<rparr>)\<rparr>"
    have d: "distinct (us' @ q # vs)" using mrel_distinct [OF m] us by simp
    have m2: "mrel h2 (us' @ q # vs)"
    proof (rule mrel_len [of h1])
      show "mrel h1 (us' @ q # vs)" using m1 us by simp
      show "len h2 x = len h1 x" if "x \<in> set (us' @ vs)" for x using that d by (auto simp: h2_def)
      show "q + len h2 q \<le> maxheap h1" using qb b sa1 by (simp add: h2_def)
      show "q + len h2 q \<le> x" if "x \<in> set vs" for x using hi [OF that] qb by (simp add: h2_def)
    qed (use q nb in \<open>auto simp: h2_def\<close>)
    have "upd_blk prev (\<lambda>b. b\<lparr>mlength := u32 (mlength b + nb)\<rparr>) h1 = Some h2"
      using pq q u l1 [OF qin] sa1 by (simp add: upd_blk_def h2_def)
    moreover have "free_bytes h2 (us' @ q # vs) = free_bytes h (us @ vs) \<union> {b..<b + nb}"
    proof -
      have "free_bytes h2 us' = free_bytes h us'" "free_bytes h2 vs = free_bytes h vs"
        by (rule free_bytes_cong; use d l1 us in \<open>auto simp: h2_def\<close>)+
      moreover have "{q..<q + (len h q + nb)} = {q..<q + len h q} \<union> {b..<b + nb}" using qb q nb by auto
      ultimately show ?thesis using us by (auto simp: free_bytes_append free_bytes_Cons h2_def)
    qed
    moreover have "\<forall>a\<in>set us' \<union> set vs. a + len h2 a \<notin> set (us' @ q # vs)" if "coalesced h (us @ vs)"
    proof -
      have "len h2 a = len h a" if "a \<in> set us' \<union> set vs" for a using that d l1 [of a] us by (auto simp: h2_def)
      then show ?thesis using that us by (auto simp: coalesced_def)
    qed
    ultimately show ?thesis using True pq m2 sa1
      by (intro exI [of _ h2] exI [of _ q] exI [of _ us']) (simp add: h2_def)
  next
    case False
    have pin: "prev = memlist h \<or> prev \<in> set us" using prev last_node [of "memlist h" us] by auto
    have cin: "next = memlist h \<or> next \<in> set vs" using nxt hd_node [of vs "memlist h"] by auto
    have pn: "prev \<noteq> b" "next \<noteq> b" using pin cin nin bm by auto
    have okp: "prev = memlist h \<or> minheap h \<le> prev \<and> prev < maxheap h" "next = memlist h \<or> minheap h \<le> next \<and> next < maxheap h"
      using mrel_node_ok [OF m] pin cin by auto
    define b1 where "b1 = (blk h1)(b := (blk h1 b)\<lparr>mnext := next\<rparr>)"
    define b2 where "b2 = b1(next := (b1 next)\<lparr>mprev := b\<rparr>)"
    define b3 where "b3 = b2(b := (b2 b)\<lparr>mlength := nb, mprev := prev\<rparr>)"
    define h2 where "h2 = h1\<lparr>blk := b3(prev := (b3 prev)\<lparr>mnext := b\<rparr>)\<rparr>"
    have bl: "mnext (blk h2 x) = (if x = b then next else if x = prev then b else mnext (blk h1 x))"
      "mprev (blk h2 x) = (if x = next then b else if x = b then prev else mprev (blk h1 x))"
      "len h2 x = (if x = b then nb else len h1 x)" for x
      using pn by (simp_all add: h2_def b3_def b2_def b1_def)
    have l2: "len h2 x = len h1 x" if "x \<in> set (us @ vs)" for x using bl(3) [of x] that nin by auto
    have m2: "mrel h2 (us @ b # vs)"
    proof (rule mrel_link [OF m1])
      show "same_area h1 h2" by (simp add: h2_def)
      show "16 dvd len h2 b" "0 < len h2 b" "b + len h2 b \<le> maxheap h1" using bl(3) [of b] nb b sa1 by simp_all
      show "x + len h1 x \<le> b" if "x \<in> set us" for x using lo [OF that] l1 [of x] that by simp
      show "b + len h2 b \<le> x" if "x \<in> set vs" for x using hi [OF that] bl(3) [of b] by simp
      show "prev = last (memlist h1 # us)" "next = hd (vs @ [memlist h1])" using prev nxt sa1 by simp_all
    qed (use nin b sa1 bl l2 in \<open>simp_all\<close>)
    have bh: "b < maxheap h" using b nb by simp
    have "do {
          h \<leftarrow> put_mnext b next h1;
          h \<leftarrow> put_mprev next b h;
          h \<leftarrow> put_mlength b nb h;
          h \<leftarrow> put_mprev b prev h;
          h \<leftarrow> put_mnext prev b h;
          Some (b, h)
        } = Some (b, h2)"
      using okp b bh sa1 by (simp add: upd_blk_def h2_def b3_def b2_def b1_def)
    moreover have "free_bytes h2 (us @ b # vs) = free_bytes h (us @ vs) \<union> {b..<b + nb}"
    proof -
      have "free_bytes h2 (us @ vs) = free_bytes h1 (us @ vs)" by (rule free_bytes_cong) (rule l2)
      then show ?thesis using fb1 bl(3) [of b] by (auto simp: free_bytes_append free_bytes_Cons)
    qed
    moreover have "\<forall>a\<in>set us \<union> set vs. a + len h2 a \<notin> set (us @ b # vs)" if c: "coalesced h (us @ vs)"
    proof
      fix a assume a: "a \<in> set us \<union> set vs"
      then have l: "len h2 a = len h a" using l1 l2 by simp
      have "a + len h a \<noteq> b"
      proof (cases "a \<in> set us")
        case True
        then have ne: "us \<noteq> []" by auto
        then have pt: "last us + len h (last us) \<noteq> b" using False ptop by simp
        have lb: "last us < b" using lo [of "last us"] M(6) [of "last us"] ne by fastforce
        show ?thesis
        proof (cases "a = last us")
          case False
          then have "a \<in> set (butlast us)" using True ne by (metis append_butlast_last_id in_set_butlastD rotate1.simps(2) set_ConsD set_rotate1)
          moreover have "below (len h) (butlast us @ [last us])" using M(3) ne by (simp add: below_append)
          ultimately have "a + len h a \<le> last us" by (simp add: below_append)
          then show ?thesis using lb by simp
        qed (use pt in simp)
      next
        case False
        then show ?thesis using a hi [of a] M(6) [of a] nb by fastforce
      qed
      then show "a + len h2 a \<notin> set (us @ b # vs)" using c a l by (auto simp: coalesced_def)
    qed
    ultimately show ?thesis using False m2 sa1
      by (intro exI [of _ h2] exI [of _ b] exI [of _ us]) (simp add: h2_def)
  qed
  then obtain h2 q us' where S: "(if ptop = b then do {
          h \<leftarrow> upd_blk prev (\<lambda>b. b\<lparr>mlength := u32 (mlength b + nb)\<rparr>) h1;
          Some (prev, h)
        } else do {
          h \<leftarrow> put_mnext b next h1;
          h \<leftarrow> put_mprev next b h;
          h \<leftarrow> put_mlength b nb h;
          h \<leftarrow> put_mprev b prev h;
          h \<leftarrow> put_mnext prev b h;
          Some (b, h)
        }) = Some (q, h2)" and m2: "mrel h2 (us' @ q # vs)" and sa2: "same_area h h2"
    and fb2: "free_bytes h2 (us' @ q # vs) = free_bytes h (us @ vs) \<union> {b..<b + nb}"
    and c2: "coalesced h (us @ vs) \<longrightarrow> (\<forall>a\<in>set us' \<union> set vs. a + len h2 a \<notin> set (us' @ q # vs))" by blast
  obtain h3 L' where "merge_next q next h2 = Some h3" "mrel h3 L'" "same_area h2 h3"
    "free_bytes h3 L' = free_bytes h2 (us' @ q # vs)" "coalesced h (us @ vs) \<longrightarrow> coalesced h3 L'"
    using merge_next_ok [OF m2, of "next"] nxt sa2 c2 by auto
  then show ?thesis unfolding free_link_split a1 using S sa2 fb2
    by (intro exI [of _ h3] exI [of _ L']) simp
qed

text \<open>A block that holds no free byte lies between two neighbours of the list.\<close>

lemma mrel_gap:
  assumes m: "mrel h L" and dj: "{b..<b + nb} \<inter> free_bytes h L = {}" and nb: "0 < nb"
  shows "x \<in> set L \<Longrightarrow> x < b \<Longrightarrow> x + len h x \<le> b" "x \<in> set L \<Longrightarrow> b \<le> x \<Longrightarrow> b + nb \<le> x"
proof -
  show "x + len h x \<le> b" if "x \<in> set L" "x < b"
  proof (rule ccontr)
    assume "\<not> x + len h x \<le> b"
    then have "b \<in> {x..<x + len h x}" using that by simp
    then have "b \<in> free_bytes h L" using that(1) unfolding free_bytes_def by blast
    moreover have "b \<in> {b..<b + nb}" using nb by simp
    ultimately show False using dj by blast
  qed
  show "b + nb \<le> x" if "x \<in> set L" "b \<le> x"
  proof (rule ccontr)
    assume "\<not> b + nb \<le> x"
    then have "x \<in> {b..<b + nb}" using that by simp
    moreover have "x \<in> {x..<x + len h x}" using mrelD(6) [OF m that(1)] by simp
    then have "x \<in> free_bytes h L" using that(1) unfolding free_bytes_def by blast
    ultimately show False using dj by blast
  qed
qed

lemma sorted_take_drop:
  assumes "sorted_wrt (<) (xs :: int list)"
  shows "x \<in> set (takeWhile (\<lambda>a. a < b) xs) \<longleftrightarrow> x \<in> set xs \<and> x < b"
    "x \<in> set (dropWhile (\<lambda>a. a < b) xs) \<longleftrightarrow> x \<in> set xs \<and> b \<le> x"
  using assms by (induction xs) auto

lemma mblock_sentinel: "mrel h L \<Longrightarrow> x = memlist h \<or> x \<in> set L \<Longrightarrow> mblock x h = Some (blk h x)"
  using mblock_member by blast

text \<open>The value \<open>top\<close> of the code.\<close>

lemma ptop_eq:
  assumes m: "mrel h (us @ vs)" and p: "p = last (memlist h # us)"
  shows "(if p = memlist h then 0 else u32 (p + len h p)) = (if us = [] then 0 else last us + len h (last us))"
proof (cases "us = []")
  case False
  then have "p \<in> set (us @ vs)" "p = last us" using p by simp_all
  then show ?thesis using False mrelD(4,5,6) [OF m, of p] mrelD(8-11) [OF m] by auto
qed (use p in simp)

lemma freemem_frees:
  assumes m: "mrel h L" and n: "0 < nbytes" "nbytes \<le> 4294967280"
    and b: "minheap h \<le> b" "b + roundmb nbytes \<le> maxheap h"
    and dj: "{b..<b + roundmb nbytes} \<inter> free_bytes h L = {}" and above: "\<exists>x\<in>set L. b \<le> x"
  shows "\<exists>h' L'. freemem b nbytes h = Some (OK, h') \<and> mrel h' L' \<and> same_area h h'
    \<and> free_bytes h' L' = free_bytes h L \<union> {b..<b + roundmb nbytes} \<and> (coalesced h L \<longrightarrow> coalesced h' L')"
proof -
  define nb where "nb = roundmb nbytes"
  note R = roundmb_props [OF n, folded nb_def] and M = mrelD [OF m]
  note G = mrel_gap [OF m dj [folded nb_def] R(4)]
  define us vs where "us = takeWhile (\<lambda>a. a < b) L" and "vs = dropWhile (\<lambda>a. a < b) L"
  have L: "L = us @ vs" by (simp add: us_def vs_def)
  note S = sorted_take_drop [OF mrel_sorted [OF m], of _ b, folded us_def vs_def]
  have ne: "vs \<noteq> []" using above S(2) by fastforce
  define p c where "p = last (memlist h # us)" and "c = hd (vs @ [memlist h])"
  have walk: "free_walk h b (memlist h) (mnext (blk h (memlist h))) = Some (p, c)"
    using free_walk_ok [of h "[]" L b] m mrel_ends(1) [OF m] by (simp add: us_def vs_def p_def c_def)
  have cv: "c \<in> set vs" using ne by (cases vs) (simp_all add: c_def)
  have pin: "p = memlist h \<or> p \<in> set us" using last_node [of "memlist h" us] by (auto simp: p_def)
  define pt where "pt = (if us = [] then 0 else last us + len h (last us))"
  have ptop: "(if p = memlist h then 0 else u32 (p + len h p)) = pt"
    using ptop_eq [of h us vs p] m L p_def unfolding pt_def by blast
  have lo: "x + len h x \<le> b" if "x \<in> set us" for x using that G(1) S(1) by blast
  have hi: "b + nb \<le> x" if "x \<in> set vs" for x using that G(2) S(2) by blast
  obtain h' L' where F: "free_link b nb p c pt h = Some h'"
    "mrel h' L'" "same_area h h'" "free_bytes h' L' = free_bytes h L \<union> {b..<b + nb}" "coalesced h L \<longrightarrow> coalesced h' L'"
    using free_link_ok [OF m [unfolded L] R(4,3) b(1) b(2) [folded nb_def] lo hi p_def c_def pt_def] L by blast
  have noov: "\<not> (p \<noteq> memlist h \<and> b < pt)"
    using lo [of "last us"] p_def pt_def by auto
  have u: "u32 (b + nb) = b + nb" using b R M(8-10) by (simp add: nb_def)
  have pb: "mblock p h = Some (blk h p)" using mblock_sentinel [OF m] pin L by auto
  have "freemem b nbytes h = Some (OK, h')"
    using n b R noov u hi [OF cv] F(1) walk pb m
    by (simp add: freemem_def nb_def [symmetric] ptop)
  then show ?thesis using F(2-5) unfolding nb_def by blast
qed

text \<open>C27: \<open>freemem\<close> of a block below some free block adds exactly its rounded bytes to the free
  ones, and coalesces: the free list stays well formed, and when before no free block ended where
  another begins then none does after, whichever of its two neighbours the block touches.\<close>

theorem freemem_ok:
  assumes m: "mrel h L" and n: "0 < nbytes" "nbytes \<le> 4294967280" and co: "coalesced h L"
    and b: "minheap h \<le> b" "b + roundmb nbytes \<le> maxheap h"
    and dj: "{b..<b + roundmb nbytes} \<inter> free_bytes h L = {}" and above: "\<exists>x\<in>set L. b \<le> x"
  shows "\<exists>h' L'. freemem b nbytes h = Some (OK, h') \<and> mrel h' L' \<and> same_area h h'
    \<and> free_bytes h' L' = free_bytes h L \<union> {b..<b + roundmb nbytes} \<and> coalesced h' L'"
  using freemem_frees [OF m n b dj above] co by blast

text \<open>\<open>freemem\<close> refuses a block that overlaps free memory, and changes nothing.\<close>

theorem freemem_overlap:
  assumes m: "mrel h L" and n: "0 < nbytes" "nbytes \<le> 4294967280"
    and b: "b + roundmb nbytes \<le> maxheap h"
    and ov: "{b..<b + roundmb nbytes} \<inter> free_bytes h L \<noteq> {}"
  shows "freemem b nbytes h = Some (SYSERR, h)"
proof (cases "b < minheap h")
  case True
  then show ?thesis by (simp add: freemem_def)
next
  case False
  define nb where "nb = roundmb nbytes"
  note R = roundmb_props [OF n, folded nb_def] and M = mrelD [OF m]
  define us vs where "us = takeWhile (\<lambda>a. a < b) L" and "vs = dropWhile (\<lambda>a. a < b) L"
  have L: "L = us @ vs" by (simp add: us_def vs_def)
  note S = sorted_take_drop [OF mrel_sorted [OF m], of _ b, folded us_def vs_def]
  define p c where "p = last (memlist h # us)" and "c = hd (vs @ [memlist h])"
  have walk: "free_walk h b (memlist h) (mnext (blk h (memlist h))) = Some (p, c)"
    using free_walk_ok [of h "[]" L b] m mrel_ends(1) [OF m] by (simp add: us_def vs_def p_def c_def)
  have pin: "p = memlist h \<or> p \<in> set us" using last_node [of "memlist h" us] by (auto simp: p_def)
  define pt where "pt = (if us = [] then 0 else last us + len h (last us))"
  have ptop: "(if p = memlist h then 0 else u32 (p + len h p)) = pt"
    using ptop_eq [of h us vs p] m L p_def unfolding pt_def by blast
  have pb: "mblock p h = Some (blk h p)" using mblock_sentinel [OF m] pin L by auto
  have u: "u32 (b + nb) = b + nb" using b R M(8-10) False by (simp add: nb_def)
  obtain x y where x: "x \<in> set L" "x \<le> y" "y < x + len h x" "b \<le> y" "y < b + nb"
    using ov unfolding free_bytes_def nb_def by auto
  have bad: "(p \<noteq> memlist h \<and> b < pt) \<or> (c \<noteq> 0 \<and> b + nb > c)"
  proof (cases "x < b")
    case True
    then have xu: "x \<in> set us" using S(1) x(1) by blast
    then have ne: "us \<noteq> []" by auto
    have pl: "p = last us" using ne by (simp add: p_def)
    have "last us \<in> set L" using ne L by simp
    then have "last us \<noteq> memlist h" using M(11) by metis
    then have "p \<noteq> memlist h" "p = last us" using pl by simp_all
    moreover have "x = last us"
    proof (rule ccontr)
      assume "x \<noteq> last us"
      then have "x \<in> set (butlast us)" using xu ne by (metis append_butlast_last_id in_set_butlastD rotate1.simps(2) set_ConsD set_rotate1)
      moreover have "below (len h) (butlast us @ [last us])" using M(3) L ne by (simp add: below_append)
      ultimately have "x + len h x \<le> last us" by (simp add: below_append)
      moreover have "last us < b" using S(1) [of "last us"] ne by simp
      ultimately show False using x by simp
    qed
    ultimately show ?thesis using x ne M(11) L by (auto simp: pt_def)
  next
    case f: False
    then have "x \<in> set vs" using S(2) x(1) by simp
    then obtain z zs where v: "vs = z # zs" by (cases vs) auto
    have "z \<le> x" using mrel_sorted [OF m] L v \<open>x \<in> set vs\<close> by (auto simp: sorted_wrt_append)
    moreover have "0 < z" using M(4) [of z] L v M(8,9) by simp
    ultimately show ?thesis using x v by (simp add: c_def)
  qed
  show ?thesis
    using bad u walk pb m by (simp add: freemem_def nb_def [symmetric] ptop)
qed

text \<open>\<open>freemem\<close> refuses every block above the last free one: the walk stops at the list
  header, which the range test takes for the next free block.\<close>

theorem freemem_above_all:
  assumes m: "mrel h L" and n: "0 < nbytes" "nbytes \<le> 4294967280"
    and b: "minheap h \<le> b" "b + roundmb nbytes \<le> maxheap h" and above: "\<forall>x\<in>set L. x < b"
  shows "freemem b nbytes h = Some (SYSERR, h)"
proof -
  define nb where "nb = roundmb nbytes"
  note R = roundmb_props [OF n, folded nb_def] and M = mrelD [OF m]
  define p where "p = last (memlist h # L)"
  have tw: "takeWhile (\<lambda>a. a < b) L = L" "dropWhile (\<lambda>a. a < b) L = []"
    using above by (simp_all add: takeWhile_eq_all_conv)
  have walk: "free_walk h b (memlist h) (mnext (blk h (memlist h))) = Some (p, memlist h)"
    using free_walk_ok [of h "[]" L b] m mrel_ends(1) [OF m] tw by (simp add: p_def)
  have pb: "mblock p h = Some (blk h p)"
    using mblock_sentinel [OF m, of p] last_node [of "memlist h" L] by (auto simp: p_def)
  have u: "u32 (b + nb) = b + nb" using b R M(8-10) by (simp add: nb_def)
  have "memlist h < b + nb" "memlist h \<noteq> 0" using b R M(8,9) by simp_all
  then show ?thesis using walk pb m u by (simp add: freemem_def nb_def [symmetric])
qed

section \<open>Stacks\<close>

lemma freestk_ok:
  assumes m: "mrel h L" and n: "0 < nbytes" "nbytes \<le> 4294967280"
    and b: "minheap h \<le> b" "b + roundmb nbytes \<le> maxheap h" and sp: "u32 (stkaddr - nbytes + 4) = b"
    and dj: "{b..<b + roundmb nbytes} \<inter> free_bytes h L = {}"
  shows "\<exists>h' L'. freestk stkaddr nbytes h = Some (OK, h') \<and> mrel h' L' \<and> same_area h h'
    \<and> free_bytes h' L' = free_bytes h L \<union> {b..<b + roundmb nbytes} \<and> (coalesced h L \<longrightarrow> coalesced h' L')"
proof -
  define nb where "nb = roundmb nbytes"
  note R = roundmb_props [OF n, folded nb_def] and M = mrelD [OF m]
  note G = mrel_gap [OF m dj [folded nb_def] R(4)]
  define ws where "ws = rev L"
  have srt: "sorted_wrt (>) ws" using mrel_sorted [OF m] by (simp add: ws_def sorted_wrt_rev)
  define hi_l lo_l where "hi_l = takeWhile (\<lambda>a. a > b) ws" and "lo_l = dropWhile (\<lambda>a. a > b) ws"
  have wsp: "ws = hi_l @ lo_l" by (simp add: hi_l_def lo_l_def)
  define us vs where "us = rev lo_l" and "vs = rev hi_l"
  have L: "L = us @ vs" using wsp by (metis rev_append rev_rev_ident us_def vs_def ws_def)
  have S1: "b < x" if "x \<in> set vs" for x using that set_takeWhileD by (fastforce simp: vs_def hi_l_def)
  have S2: "x \<le> b" if "x \<in> set us" for x
  proof -
    have "lo_l \<noteq> []" using that by (auto simp: us_def)
    then obtain y ys where y: "lo_l = y # ys" by (cases lo_l) auto
    have "y \<le> b" using y dropWhile_head [of "\<lambda>a. a > b" ws y ys] by (simp add: lo_l_def)
    moreover have "x \<le> y" using srt that wsp y by (auto simp: us_def sorted_wrt_append)
    ultimately show ?thesis by simp
  qed
  have S2': "x < b" if "x \<in> set us" for x
  proof -
    have xL: "x \<in> set L" using that L by simp
    have "x \<noteq> b" using G(2) [OF xL] R(4) by auto
    then show ?thesis using S2 [OF that] by simp
  qed
  define p c where "p = last (memlist h # us)" and "c = hd (vs @ [memlist h])"
  have hd_ws: "mprev (blk h (memlist h)) = hd (ws @ [memlist h])"
    using mrel_ends(2) [OF m] by (cases L rule: rev_cases) (simp_all add: ws_def)
  have pe: "hd (lo_l @ [memlist h]) = p" by (cases lo_l) (simp_all add: p_def us_def)
  have walk: "freestk_walk h b (memlist h) (mprev (blk h (memlist h))) = Some (c, p)"
    using freestk_walk_ok [of h ws "[]" b] m pe unfolding hd_ws
    by (simp add: ws_def [symmetric] hi_l_def [symmetric] lo_l_def [symmetric] vs_def c_def) (simp add: ws_def)
  have pin: "p = memlist h \<or> p \<in> set us" using last_node [of "memlist h" us] by (auto simp: p_def)
  have cin: "c = memlist h \<or> c \<in> set vs" using hd_node [of vs "memlist h"] by (auto simp: c_def)
  define pt where "pt = (if us = [] then 0 else last us + len h (last us))"
  have ptop: "(if p = memlist h then 0 else u32 (p + len h p)) = pt"
    using ptop_eq [of h us vs p] m L p_def unfolding pt_def by blast
  have lo: "x + len h x \<le> b" if "x \<in> set us" for x using that G(1) [of x] S2' L by simp
  have hi: "b + nb \<le> x" if "x \<in> set vs" for x using that G(2) [of x] S1 [of x] L by simp
  obtain h' L' where F: "free_link b nb p c pt h = Some h'"
    "mrel h' L'" "same_area h h'" "free_bytes h' L' = free_bytes h L \<union> {b..<b + nb}" "coalesced h L \<longrightarrow> coalesced h' L'"
    using free_link_ok [OF m [unfolded L] R(4,3) b(1) b(2) [folded nb_def] lo hi p_def c_def pt_def] L by blast
  have noov: "\<not> (p \<noteq> memlist h \<and> b < pt)"
    using lo [of "last us"] p_def pt_def by auto
  have nov: "\<not> (c \<noteq> memlist h \<and> b + nb > c)" using cin hi by fastforce
  have u: "u32 (b + nb) = b + nb" using b R M(8-10) by (simp add: nb_def)
  have pb: "mblock p h = Some (blk h p)" using mblock_sentinel [OF m] pin L by auto
  have "freestk stkaddr nbytes h = Some (OK, h')"
    using n b R noov nov u F(1) walk pb m sp
    by (simp add: freestk_def Let_def nb_def [symmetric] ptop)
  then show ?thesis using F(2-5) unfolding nb_def by blast
qed

lemma getstk_loop_ok:
  assumes m: "mrel h L"
  shows "L = rev zs @ ys \<Longrightarrow>
    (fits = 0 \<and> (\<forall>a\<in>set ys. len h a < nb)) \<or>
      (fits \<noteq> 0 \<and> nb \<le> len h fits \<and> (\<exists>us vs. ys = us @ fits # vs \<and> fp = hd (vs @ [memlist h])
         \<and> (alloc = 0 \<longrightarrow> (\<forall>x\<in>set us. len h x < nb)))
       \<and> (alloc \<noteq> 0 \<longrightarrow> (\<forall>x\<in>set ys. nb \<le> len h x \<longrightarrow> len h fits \<le> len h x))) \<Longrightarrow>
    \<exists>f fp'. getstk_loop alloc nb h (hd (ys @ [memlist h])) (hd (zs @ [memlist h])) fits fp = Some (f, fp') \<and>
     ((f = 0 \<and> (\<forall>a\<in>set L. len h a < nb)) \<or>
      (f \<noteq> 0 \<and> nb \<le> len h f \<and> (\<exists>us vs. L = us @ f # vs \<and> fp' = hd (vs @ [memlist h])
         \<and> (alloc = 0 \<longrightarrow> (\<forall>x\<in>set us. len h x < nb)))
       \<and> (alloc \<noteq> 0 \<longrightarrow> (\<forall>x\<in>set L. nb \<le> len h x \<longrightarrow> len h f \<le> len h x))))"
proof (induction zs arbitrary: ys fits fp)
  case Nil
  then show ?case by (subst getstk_loop.simps) simp
next
  case (Cons z zs)
  have L: "L = rev zs @ z # ys" using Cons.prems(1) by simp
  have zL: "z \<in> set L" using L by simp
  have zm: "z \<noteq> memlist h" using mrelD(11) [OF m] zL by blast
  have z0: "z \<noteq> 0" using mrelD(4,8,9) [OF m] zL by fastforce
  have "mprev (blk h z) = last (memlist h # rev zs)" using mrel_links(1) m L by blast
  then have pv: "mprev (blk h z) = hd (zs @ [memlist h])" by (cases zs) (simp_all add: last_rev)
  have bz: "mblock z h = Some (blk h z)" by (rule mblock_member(1) [OF m zL])
  note IH = Cons.IH [of "z # ys"]
  define take where "take \<longleftrightarrow> nb \<le> len h z \<and> (alloc = 0 \<or> fits = 0 \<or> len h z = nb \<or> len h fits > len h z)"
  have bf: "fits \<noteq> 0 \<Longrightarrow> mblock fits h = Some (blk h fits)"
    using Cons.prems(2) L mblock_member(1) [OF m] by auto
  have step: "getstk_loop alloc nb h (hd (ys @ [memlist h])) (hd ((z # zs) @ [memlist h])) fits fp =
      getstk_loop alloc nb h z (hd (zs @ [memlist h])) (if take then z else fits) (if take then hd (ys @ [memlist h]) else fp)"
    using zm bz bf pv by (subst getstk_loop.simps) (auto simp: take_def)
  have old: "\<forall>x\<in>set ys. nb \<le> len h x \<longrightarrow> len h z \<le> len h x" if "take" "alloc \<noteq> 0"
  proof (cases "fits = 0")
    case True
    then show ?thesis using Cons.prems(2) by fastforce
  next
    case False
    then have "len h z \<le> len h fits" using that Cons.prems(2) unfolding take_def by fastforce
    then show ?thesis using Cons.prems(2) False that(2) by fastforce
  qed
  have inv: "((if take then z else fits) = 0 \<and> (\<forall>a\<in>set (z # ys). len h a < nb)) \<or>
      ((if take then z else fits) \<noteq> 0 \<and> nb \<le> len h (if take then z else fits)
       \<and> (\<exists>us vs. z # ys = us @ (if take then z else fits) # vs
           \<and> (if take then hd (ys @ [memlist h]) else fp) = hd (vs @ [memlist h])
           \<and> (alloc = 0 \<longrightarrow> (\<forall>x\<in>set us. len h x < nb)))
       \<and> (alloc \<noteq> 0 \<longrightarrow> (\<forall>x\<in>set (z # ys). nb \<le> len h x \<longrightarrow> len h (if take then z else fits) \<le> len h x)))"
  proof (cases take)
    case True
    have "\<exists>us vs. z # ys = us @ z # vs \<and> hd (ys @ [memlist h]) = hd (vs @ [memlist h])
        \<and> (alloc = 0 \<longrightarrow> (\<forall>x\<in>set us. len h x < nb))"
      by (intro exI [of _ "[]"] exI [of _ ys]) simp
    moreover have "nb \<le> len h z" using True by (simp add: take_def)
    ultimately show ?thesis using True z0 old by simp
  next
    case nt: False
    show ?thesis
    proof (cases "fits = 0")
      case True
      then show ?thesis using nt Cons.prems(2) by (auto simp: take_def)
    next
      case False
      then obtain us vs where F: "nb \<le> len h fits" "ys = us @ fits # vs" "fp = hd (vs @ [memlist h])"
        "alloc = 0 \<longrightarrow> (\<forall>x\<in>set us. len h x < nb)"
        "alloc \<noteq> 0 \<longrightarrow> (\<forall>x\<in>set ys. nb \<le> len h x \<longrightarrow> len h fits \<le> len h x)"
        using Cons.prems(2) by blast
      have "\<exists>us vs. z # ys = us @ fits # vs \<and> fp = hd (vs @ [memlist h]) \<and> (alloc = 0 \<longrightarrow> (\<forall>x\<in>set us. len h x < nb))"
        using F(2-4) nt False by (intro exI [of _ "z # us"] exI [of _ vs]) (auto simp: take_def)
      moreover have "alloc \<noteq> 0 \<longrightarrow> (\<forall>x\<in>set (z # ys). nb \<le> len h x \<longrightarrow> len h fits \<le> len h x)"
        using F(5) nt False by (auto simp: take_def)
      ultimately show ?thesis using nt False F(1) by simp
    qed
  qed
  show ?case unfolding step using IH [OF L inv] by simp
qed

lemma getstk_none:
  assumes m: "mrel h L" and n: "0 < nbytes" and none: "\<forall>a\<in>set L. len h a < roundmb nbytes"
  shows "getstk alloc nbytes h = Some (SYSERR, h)"
proof -
  have hd_ws: "mprev (blk h (memlist h)) = hd (rev L @ [memlist h])"
    using mrel_ends(2) [OF m] by (cases L rule: rev_cases) simp_all
  obtain f fp where g: "getstk_loop alloc (roundmb nbytes) h (memlist h) (hd (rev L @ [memlist h])) 0 0 = Some (f, fp)"
    and "f = 0 \<or> (roundmb nbytes \<le> len h f \<and> f \<in> set L)"
    using getstk_loop_ok [OF m, of "rev L" "[]" 0 "roundmb nbytes" 0 alloc] by auto
  then have "f = 0" using none by force
  then show ?thesis using n g hd_ws m by (simp add: getstk_def)
qed

text \<open>A stack is the upper end of a free block; the pointer handed out is its highest word.\<close>

lemma getstk_some:
  assumes m: "mrel h L" and n: "0 < nbytes" "nbytes \<le> 4294967280"
    and some: "\<exists>a\<in>set L. roundmb nbytes \<le> len h a"
  shows "\<exists>b h' L'. getstk alloc nbytes h = Some (b + roundmb nbytes - 4, h') \<and> mrel h' L' \<and> same_area h h'
    \<and> {b..<b + roundmb nbytes} \<subseteq> free_bytes h L
    \<and> minheap h \<le> b \<and> b + roundmb nbytes \<le> maxheap h
    \<and> free_bytes h' L' = free_bytes h L - {b..<b + roundmb nbytes} \<and> (coalesced h L \<longrightarrow> coalesced h' L')"
proof -
  define nb where "nb = roundmb nbytes"
  note R = roundmb_props [OF n, folded nb_def]
  note M = mrelD [OF m]
  have hd_ws: "mprev (blk h (memlist h)) = hd (rev L @ [memlist h])"
    using mrel_ends(2) [OF m] by (cases L rule: rev_cases) simp_all
  obtain f fp where g: "getstk_loop alloc nb h (memlist h) (hd (rev L @ [memlist h])) 0 0 = Some (f, fp)"
    and ff: "(f = 0 \<and> (\<forall>a\<in>set L. len h a < nb)) \<or> (f \<noteq> 0 \<and> nb \<le> len h f
      \<and> (\<exists>us vs. L = us @ f # vs \<and> fp = hd (vs @ [memlist h])))"
    using getstk_loop_ok [OF m, of "rev L" "[]" 0 nb 0 alloc] by auto
  have "\<not> (\<forall>a\<in>set L. len h a < nb)" using some nb_def by force
  then obtain us vs where F: "f \<noteq> 0" "nb \<le> len h f" "L = us @ f # vs" "fp = hd (vs @ [memlist h])" using ff by blast
  have fL: "f \<in> set L" using F(3) by simp
  have A: "minheap h \<le> f" "f + len h f \<le> maxheap h" "16 dvd len h f" "f < maxheap h"
    using M(4-7) [OF fL] by simp_all
  have bf: "mblock f h = Some (blk h f)" by (rule mblock_member(1) [OF m fL])
  have d: "distinct (us @ f # vs)" "f \<noteq> memlist h" using mrel_distinct [OF m] M(11) F(3) fL by auto
  define b where "b = f + (len h f - nb)"
  have sub: "{b..<b + nb} \<subseteq> {f..<f + len h f}" using F(2) R(4) by (auto simp: b_def)
  then have sub': "{b..<b + nb} \<subseteq> free_bytes h L" using fL by (auto simp: free_bytes_def)
  have bb: "minheap h \<le> b" "b + nb \<le> maxheap h" using A F(2) by (simp_all add: b_def)
  have "\<exists>h1 L'. (if nb = len h f then do {
               let prev = mprev (blk h f);
               h \<leftarrow> put_mprev fp prev h;
               h \<leftarrow> put_mnext prev fp h;
               Some (f, h)
             } else do {
               h' \<leftarrow> put_mlength f (len h f - nb) h;
               Some (f + (len h f - nb), h')
             }) = Some (b, h1) \<and> mrel h1 L' \<and> same_area h h1 \<and> free_bytes h1 L' = free_bytes h L - {b..<b + nb}
        \<and> (coalesced h L \<longrightarrow> coalesced h1 L')"
  proof (cases "nb = len h f")
    case True
    define p where "p = mprev (blk h f)"
    have K: "p = last (memlist h # us)" "mnext (blk h f) = fp" using mrel_links m F(3,4) unfolding p_def by auto
    have okp: "p = memlist h \<or> minheap h \<le> p \<and> p < maxheap h" "fp = memlist h \<or> minheap h \<le> fp \<and> fp < maxheap h"
      using mrel_node_ok [OF m] F(3,4) K(1) last_node [of "memlist h" us] hd_node [of vs "memlist h"] by auto
    define h1 where "h1 = h\<lparr>blk := (let b1 = (blk h)(fp := (blk h fp)\<lparr>mprev := p\<rparr>) in b1(p := (b1 p)\<lparr>mnext := fp\<rparr>))\<rparr>"
    have l1: "len h1 x = len h x" for x by (simp add: h1_def Let_def)
    have m1: "mrel h1 (us @ vs)"
      by (rule mrel_unlink [OF m [unfolded F(3)], where p = p and c = fp])
        (use K in \<open>simp_all add: h1_def Let_def p_def\<close>)
    have "free_bytes h1 (us @ vs) = free_bytes h (us @ vs)" by (rule free_bytes_cong) (rule l1)
    also have "\<dots> = free_bytes h L - {b..<b + nb}"
      using free_bytes_apart [OF m [unfolded F(3)]] F(3) True
      by (auto simp: free_bytes_append free_bytes_Cons b_def)
    finally have "free_bytes h1 (us @ vs) = free_bytes h L - {b..<b + nb}" .
    moreover have "coalesced h L \<longrightarrow> coalesced h1 (us @ vs)" using coalesced_parts [of h us f vs h1] l1 F(3) by blast
    ultimately show ?thesis using True m1 okp
      by (intro exI [of _ h1] exI [of _ "us @ vs"])
        (simp add: upd_blk_def p_def [symmetric] h1_def Let_def b_def)
  next
    case False
    define h1 where "h1 = h\<lparr>blk := (blk h)(f := (blk h f)\<lparr>mlength := len h f - nb\<rparr>)\<rparr>"
    have m1: "mrel h1 (us @ f # vs)"
    proof (rule mrel_len [OF m [unfolded F(3)]])
      show "16 dvd len h1 f" using A(3) R(3) by (simp add: h1_def dvd_diff)
      show "f + len h1 f \<le> x" if "x \<in> set vs" for x
        using M(3) F(3) that R(4) by (force simp: h1_def below_append)
      show "len h1 x = len h x" if "x \<in> set (us @ vs)" for x using that d by (auto simp: h1_def)
    qed (use False F(2) A R(4) in \<open>auto simp: h1_def\<close>)
    have "free_bytes h1 us = free_bytes h us" "free_bytes h1 vs = free_bytes h vs"
      by (rule free_bytes_cong; use d in \<open>auto simp: h1_def\<close>)+
    then have "free_bytes h1 (us @ f # vs) = free_bytes h L - {b..<b + nb}"
      using free_bytes_apart [OF m [unfolded F(3)]] F(2,3) R(4)
      by (auto simp: free_bytes_append free_bytes_Cons b_def h1_def)
    then have fb: "free_bytes h1 (us @ f # vs) = free_bytes h L - {b..<b + nb}" .
    have op: "(if nb = len h f then do {
               let prev = mprev (blk h f);
               h \<leftarrow> put_mprev fp prev h;
               h \<leftarrow> put_mnext prev fp h;
               Some (f, h)
             } else do {
               h' \<leftarrow> put_mlength f (len h f - nb) h;
               Some (f + (len h f - nb), h')
             }) = Some (b, h1)"
      using False A by (simp add: upd_blk_def h1_def b_def)
    have co: "coalesced h L \<longrightarrow> coalesced h1 (us @ f # vs)"
    proof
      assume c: "coalesced h L"
      have l1: "len h1 x = len h x" if "x \<in> set us \<union> set vs" for x using that d by (auto simp: h1_def)
      have o: "x + len h x \<le> f" if "x \<in> set us" for x using M(3) F(3) that by (simp add: below_append)
      have v: "f + len h f \<le> x" if "x \<in> set vs" for x using M(3) F(3) that by (simp add: below_append)
      have e: "x + len h x \<noteq> f" if "x \<in> set us" for x using c that F(3) by (auto simp: coalesced_def)
      show "coalesced h1 (us @ f # vs)"
      proof (rule coalesced_one [OF m1])
        show "\<forall>x\<in>set us \<union> set vs. x + len h1 x \<notin> set us \<union> set vs" using c l1 F(3) by (auto simp: coalesced_def)
        show "f + len h1 f \<notin> set vs" using v R(4) by (force simp: h1_def)
        show "\<forall>x\<in>set us. x + len h1 x < f" using o e l1 by (simp add: order_less_le)
      qed
    qed
    show ?thesis
      by (intro exI [of _ h1] exI [of _ "us @ f # vs"] conjI op m1 fb co) (simp_all add: h1_def)
  qed
  then obtain h1 L' where S: "(if nb = len h f then do {
               let prev = mprev (blk h f);
               h \<leftarrow> put_mprev fp prev h;
               h \<leftarrow> put_mnext prev fp h;
               Some (f, h)
             } else do {
               h' \<leftarrow> put_mlength f (len h f - nb) h;
               Some (f + (len h f - nb), h')
             }) = Some (b, h1)" "mrel h1 L'" "same_area h h1" "free_bytes h1 L' = free_bytes h L - {b..<b + nb}"
    "coalesced h L \<longrightarrow> coalesced h1 L'" by blast
  define h2 where "h2 = h1\<lparr>blk := (blk h1)(memlist h1 := (blk h1 (memlist h1))\<lparr>mlength := u32 (len h1 (memlist h1) - nb)\<rparr>)\<rparr>"
  note M1 = mrelD [OF S(2)]
  have l2: "len h2 x = len h1 x" if "x \<in> set L'" for x using that M1(11) by (auto simp: h2_def)
  have m2: "mrel h2 L'"
  proof (rule mrelI)
    show "heap_ok h2" using M1(1) by (simp add: heap_ok_def h2_def)
    have "dchain (mtab h2) (memlist h1) L' (memlist h1) = dchain (mtab h1) (memlist h1) L' (memlist h1)"
      by (rule dchain_cong) (simp_all add: h2_def)
    then show "dchain (mtab h2) (memlist h2) L' (memlist h2)" using M1(2) by (simp add: h2_def)
    show "below (len h2) L'" using M1(3) below_cong [of L' "len h2" "len h1"] l2 by blast
    show "minheap h2 \<le> x \<and> x + len h2 x \<le> maxheap h2 \<and> 0 < len h2 x \<and> 16 dvd len h2 x"
      if "x \<in> set L'" for x using M1(4-7) [OF that] l2 [OF that] by (simp add: h2_def)
  qed
  have "free_bytes h2 L' = free_bytes h L - {b..<b + nb}" using free_bytes_cong [of L' h2 h1] l2 S(4) by simp
  moreover have "getstk alloc nbytes h = Some (b + nb - 4, h2)"
    using n g hd_ws m F(1) bf S(1)
    by (simp add: getstk_def nb_def [symmetric]) (simp add: upd_blk_def h2_def)
  moreover have "same_area h h2" using S(3) by (simp add: h2_def)
  moreover have "coalesced h L \<longrightarrow> coalesced h2 L'" using S(5) l2 by (simp add: coalesced_def)
  ultimately show ?thesis using m2 sub' bb unfolding nb_def by blast
qed

text \<open>C28: \<open>freestk\<close> gives back what \<open>getstk\<close> handed out when the size is a multiple of the
  allocation unit, 16 bytes.\<close>

theorem stack_round_trip:
  assumes m: "mrel h L" and n: "0 < nbytes" "nbytes \<le> 4294967280" "16 dvd nbytes"
    and some: "\<exists>a\<in>set L. nbytes \<le> len h a"
  shows "\<exists>sp h1 h2 L2. getstk alloc nbytes h = Some (sp, h1) \<and> freestk sp nbytes h1 = Some (OK, h2)
    \<and> mrel h2 L2 \<and> same_area h h2 \<and> free_bytes h2 L2 = free_bytes h L"
proof -
  have r: "roundmb nbytes = nbytes"
  proof -
    obtain k where "nbytes = 16 * k" using n(3) by (rule dvdE)
    then show ?thesis using n by (simp add: roundmb_def)
  qed
  obtain b h1 L1 where G: "getstk alloc nbytes h = Some (b + nbytes - 4, h1)" "mrel h1 L1" "same_area h h1"
    "{b..<b + nbytes} \<subseteq> free_bytes h L" "minheap h \<le> b" "b + nbytes \<le> maxheap h"
    "free_bytes h1 L1 = free_bytes h L - {b..<b + nbytes}"
    using getstk_some [OF m n(1,2)] some unfolding r by blast
  have "u32 (b + nbytes - 4 - nbytes + 4) = b" using G(5,6) n mrelD(8-10) [OF m] by simp
  then obtain h2 L2 where "freestk (b + nbytes - 4) nbytes h1 = Some (OK, h2)" "mrel h2 L2" "same_area h1 h2"
    "free_bytes h2 L2 = free_bytes h1 L1 \<union> {b..<b + nbytes}"
    using freestk_ok [OF G(2) n(1,2), of b "b + nbytes - 4"] G(3,5-7) unfolding r by auto
  moreover have "free_bytes h1 L1 \<union> {b..<b + nbytes} = free_bytes h L" using G(4,7) by auto
  ultimately show ?thesis using G(1,3) by auto
qed

section \<open>meminit\<close>

text \<open>\<open>meminit\<close> leaves one free block, from the end of the program to the top of memory.\<close>

lemma meminit_ok:
  assumes "0 < memlist h" "memlist h < end_addr" "end_addr < maxaddr" "maxaddr < 2 ^ 32" "16 dvd maxaddr - end_addr"
  shows "\<exists>h'. meminit end_addr maxaddr h = Some h' \<and> mrel h' [end_addr] \<and> free_bytes h' [end_addr] = {end_addr..<maxaddr}
    \<and> len h' end_addr = maxaddr - end_addr"
proof -
  define h0 where "h0 = h\<lparr>minheap := end_addr, maxheap := maxaddr\<rparr>"
  define h' where "h' = h0\<lparr>blk := (blk h)(memlist h := (blk h (memlist h))\<lparr>mnext := end_addr, mprev := end_addr\<rparr>,
      end_addr := (blk h end_addr)\<lparr>mprev := memlist h, mnext := memlist h, mlength := maxaddr - end_addr\<rparr>)\<rparr>"
  have "meminit end_addr maxaddr h = Some h'"
    using assms by (simp add: meminit_def upd_blk_def h'_def h0_def)
  moreover have "mrel h' [end_addr]"
    using assms by (intro mrelI) (simp_all add: heap_ok_def h'_def h0_def)
  moreover have "free_bytes h' [end_addr] = {end_addr..<maxaddr}"
    by (simp add: free_bytes_def h'_def)
  moreover have "len h' end_addr = maxaddr - end_addr" by (simp add: h'_def)
  ultimately show ?thesis by blast
qed

section \<open>A concrete heap\<close>

text \<open>Two free blocks, 64 bytes at 1008 and 128 bytes at 1200, in a heap from 1008 to 2000.\<close>

definition heap_ex :: mheap where
  "heap_ex = \<lparr>blk = (\<lambda>_. \<lparr>mnext = 0, mlength = 0, mprev = 0\<rparr>)
     (100 := \<lparr>mnext = 1008, mlength = 192, mprev = 1200\<rparr>, 1008 := \<lparr>mnext = 1200, mlength = 64, mprev = 100\<rparr>,
      1200 := \<lparr>mnext = 100, mlength = 128, mprev = 1008\<rparr>), memlist = 100, minheap = 1008, maxheap = 2000\<rparr>"

lemma heap_ex_mrel: "mrel heap_ex [1008, 1200]"
  by (simp add: mrel_def heap_ok_def heap_ex_def)

lemma heap_ex_co: "coalesced heap_ex [1008, 1200]"
  by (simp add: coalesced_def heap_ex_def)

lemma heap_ex_free: "free_bytes heap_ex [1008, 1200] = {1008..<1072} \<union> {1200..<1328}"
  by (simp add: free_bytes_def heap_ex_def)

theorem getmem_some_witness:
  "\<exists>a h' L'. getmem 1 100 heap_ex = Some (a, h') \<and> mrel h' L' \<and> a \<in> {1008, 1200}
    \<and> free_bytes h' L' = {1008..<1072} \<union> {1200..<1328} - {a..<a + 112}"
proof -
  have "\<exists>a\<in>set [1008, 1200]. roundmb 100 \<le> len heap_ex a" by (simp add: roundmb_def heap_ex_def)
  then obtain a h' L' where "getmem 1 100 heap_ex = Some (a, h')" "mrel h' L'" "a \<in> set [1008, 1200]"
    "free_bytes h' L' = free_bytes heap_ex [1008, 1200] - {a..<a + roundmb 100}"
    using getmem_some [OF heap_ex_mrel, of 100 1] by auto
  then show ?thesis by (intro exI [of _ a] exI [of _ h'] exI [of _ L']) (simp add: heap_ex_free roundmb_def)
qed

theorem getmem_none_witness: "getmem 0 200 heap_ex = Some (SYSERR, heap_ex)"
  by (rule getmem_none [OF heap_ex_mrel]) (simp_all add: heap_ex_def roundmb_def)

theorem freemem_ok_witness:
  "\<exists>h' L'. freemem 1072 128 heap_ex = Some (OK, h') \<and> mrel h' L' \<and> free_bytes h' L' = {1008..<1328} \<and> coalesced h' L'"
proof -
  have "\<exists>h' L'. freemem 1072 128 heap_ex = Some (OK, h') \<and> mrel h' L' \<and> same_area heap_ex h'
    \<and> free_bytes h' L' = free_bytes heap_ex [1008, 1200] \<union> {1072..<1072 + roundmb 128} \<and> coalesced h' L'"
    by (rule freemem_ok [OF heap_ex_mrel])
      (auto simp: heap_ex_free roundmb_def heap_ex_co simp del: One_nat_def, auto simp: heap_ex_def)
  moreover have "{1008..<1072} \<union> {1200..<1328} \<union> {1072..<1200} = {1008..<1328 :: int}" by auto
  ultimately show ?thesis by (auto simp: heap_ex_free roundmb_def)
qed

theorem freemem_overlap_witness: "freemem 1040 32 heap_ex = Some (SYSERR, heap_ex)"
proof (rule freemem_overlap [OF heap_ex_mrel])
  have "1040 \<in> {1040..<1040 + roundmb 32} \<inter> free_bytes heap_ex [1008, 1200]"
    by (simp add: heap_ex_free roundmb_def)
  then show "{1040..<1040 + roundmb 32} \<inter> free_bytes heap_ex [1008, 1200] \<noteq> {}" by blast
qed (simp_all add: heap_ex_def roundmb_def)

theorem freemem_above_all_witness: "freemem 1600 32 heap_ex = Some (SYSERR, heap_ex)"
  by (rule freemem_above_all [OF heap_ex_mrel]) (simp_all add: heap_ex_def roundmb_def)

theorem stack_round_trip_witness:
  "\<exists>sp h1 h2 L2. getstk 0 112 heap_ex = Some (sp, h1) \<and> freestk sp 112 h1 = Some (OK, h2) \<and> mrel h2 L2
    \<and> free_bytes h2 L2 = {1008..<1072} \<union> {1200..<1328}"
  using stack_round_trip [OF heap_ex_mrel, of 112 0] by (auto simp: heap_ex_free) (force simp: heap_ex_def)

end
