(* ===== verification/MemChain.thy ===== *)
theory MemChain
  imports Mem32
begin

text \<open>
  Linked lists in byte memory.  The command history, the buffer pools and the ports keep
  their lists in the same way: a node is a block of memory that holds the address of the
  next one, and 0 ends the list.
\<close>

text \<open>From \<open>p\<close> the links \<open>nx\<close> run through the nodes and end in the null pointer.\<close>

fun mchain :: "(int \<Rightarrow> int) \<Rightarrow> int \<Rightarrow> int list \<Rightarrow> bool" where
  "mchain nx p [] \<longleftrightarrow> p = 0"
| "mchain nx p (n # ns) \<longleftrightarrow> p = n \<and> n \<noteq> 0 \<and> mchain nx (nx n) ns"

lemma mchain_cong: "(\<And>n. n \<in> set ns \<Longrightarrow> nx' n = nx n) \<Longrightarrow> mchain nx' p ns = mchain nx p ns"
  by (induction ns arbitrary: p) simp_all

lemma mchain_Nil: "mchain nx 0 ns \<longleftrightarrow> ns = []"
  by (cases ns) auto

lemma mchain_head: "mchain nx p ns \<Longrightarrow> ns \<noteq> [] \<Longrightarrow> p = hd ns \<and> p \<noteq> 0"
  by (cases ns) auto

lemma mchain_nonzero: "mchain nx p ns \<Longrightarrow> 0 \<notin> set ns"
  by (induction ns arbitrary: p) auto

text \<open>Appending a node: its predecessor is linked to it.\<close>

lemma mchain_snoc:
  assumes "mchain nx p xs" "distinct xs" "f \<noteq> 0" "nx' f = 0" "xs \<noteq> [] \<Longrightarrow> nx' (last xs) = f"
    and "\<And>n. n \<in> set xs \<Longrightarrow> n \<noteq> last xs \<Longrightarrow> nx' n = nx n"
  shows "mchain nx' (if xs = [] then f else p) (xs @ [f])"
  using assms
proof (induction xs arbitrary: p)
  case (Cons x ys)
  show ?case
  proof (cases "ys = []")
    case True
    then show ?thesis using Cons.prems by simp
  next
    case False
    then have "last ys \<noteq> x" using Cons.prems(2) by auto
    then have "nx' x = nx x" using Cons.prems(6) [of x] False by simp
    moreover have "mchain nx' (if ys = [] then f else nx x) (ys @ [f])"
      by (rule Cons.IH) (use Cons.prems False in auto)
    ultimately show ?thesis using Cons.prems(1) False by simp
  qed
qed simp

text \<open>Nodes of \<open>k\<close> bytes that do not overlap.\<close>

definition apart :: "int \<Rightarrow> int list \<Rightarrow> bool" where
  "apart k ns \<longleftrightarrow> pairwise (\<lambda>a b. a + k \<le> b \<or> b + k \<le> a) (set ns) \<and> distinct ns"

lemma apart_Nil [simp]: "apart k []"
  by (simp add: apart_def)

lemma apart_Cons: "apart k (n # ns) \<longleftrightarrow> apart k ns \<and> n \<notin> set ns \<and> (\<forall>x\<in>set ns. n + k \<le> x \<or> x + k \<le> n)"
  unfolding apart_def by (auto simp: pairwise_insert)

lemma apart_mono:
  assumes "apart k ns" "j \<le> k" shows "apart j ns"
proof -
  have "pairwise (\<lambda>a b. a + j \<le> b \<or> b + j \<le> a) (set ns)"
    by (rule pairwise_mono [where P = "\<lambda>a b. a + k \<le> b \<or> b + k \<le> a"]) (use assms in \<open>auto simp: apart_def\<close>)
  then show ?thesis using assms(1) by (simp add: apart_def)
qed

text \<open>The nodes of an array of \<open>n\<close> blocks of \<open>k\<close> bytes.\<close>

fun blocks :: "int \<Rightarrow> nat \<Rightarrow> int \<Rightarrow> int list" where
  "blocks k 0 p = []"
| "blocks k (Suc n) p = p # blocks k n (p + k)"

lemma length_blocks [simp]: "length (blocks k n p) = n"
  by (induction n arbitrary: p) simp_all

lemma blocks_bounds: "x \<in> set (blocks k n p) \<Longrightarrow> 0 \<le> k \<Longrightarrow> p \<le> x \<and> x + k \<le> p + k * int n"
proof (induction n arbitrary: p)
  case (Suc n)
  show ?case
  proof (cases "x = p")
    case True
    then show ?thesis using Suc.prems(2) by (simp add: distrib_left)
  next
    case False
    then have "x \<in> set (blocks k n (p + k))" using Suc.prems(1) by simp
    from Suc.IH [OF this Suc.prems(2)] show ?thesis using Suc.prems(2) by (simp add: distrib_left)
  qed
qed simp

lemma pool_blocks_apart: "0 < k \<Longrightarrow> apart k (blocks k n p)"
proof (induction n arbitrary: p)
  case (Suc n)
  have "p + k \<le> x" if "x \<in> set (blocks k n (p + k))" for x using blocks_bounds [OF that] Suc.prems by simp
  then show ?case using Suc by (force simp: apart_Cons)
qed simp

end
