(* ===== verification/Bufpool.thy ===== *)
theory Bufpool
  imports Sems Mem MemChain
begin

text \<open>
  Buffer pools and marked locations: \<open>system/bufinit.c\<close>, \<open>mkbufpool.c\<close>, \<open>getbuf.c\<close>,
  \<open>freebuf.c\<close> and \<open>mark.c\<close>.  The free buffers of a pool are chained through their first word,
  in memory; a semaphore counts them.  A buffer handed out carries the id of its pool in
  that word, and the caller gets the address behind it.
\<close>

abbreviation (input) BP_MINB :: int where "BP_MINB \<equiv> 8"
abbreviation (input) BP_MAXB :: int where "BP_MAXB \<equiv> 8192"
abbreviation (input) BP_MAXN :: int where "BP_MAXN \<equiv> 2048"
abbreviation (input) MAXMARK :: int where "MAXMARK \<equiv> 20"

section \<open>Buffer pools\<close>

definition bufinit :: "kernel \<Rightarrow> int \<times> kernel" where
  "bufinit s = (OK, s\<lparr>nbpools := 0\<rparr>)"

definition upd_pool :: "int \<Rightarrow> (bpentry \<Rightarrow> bpentry) \<Rightarrow> kernel \<Rightarrow> kernel option" where
  "upd_pool i f s = (if 0 \<le> i \<and> i < NBPOOLS then Some (s\<lparr>buftab := (buftab s)(i := f (buftab s i))\<rparr>) else None)"

text \<open>The loop that links the buffers, and the end of the list.\<close>

fun link_bufs :: "nat \<Rightarrow> int \<Rightarrow> int \<Rightarrow> bytes \<Rightarrow> bytes" where
  "link_bufs 0 sz buf m = st32 buf 0 m"
| "link_bufs (Suc n) sz buf m = link_bufs n sz (buf + sz) (st32 buf (buf + sz) m)"

definition mkbufpool :: "int \<Rightarrow> int \<Rightarrow> kernel \<Rightarrow> (int \<times> kernel) option" where
  "mkbufpool bufsiz numbufs s =
     (if bufsiz < BP_MINB \<or> bufsiz > BP_MAXB \<or> numbufs < 1 \<or> numbufs > BP_MAXN \<or> nbpools s \<ge> NBPOOLS
      then Some (SYSERR, s)
      else do {
        let bufsiz = (bufsiz + 3) div 4 * 4;
        (buf, h) \<leftarrow> getmem (envtab s EV_MEMALLOC) (numbufs * (bufsiz + 4)) (heap s);
        let s = s\<lparr>heap := h\<rparr>;
        if buf = SYSERR then Some (SYSERR, s)
        else do {
          let poolid = nbpools s;
          let s = s\<lparr>nbpools := nbpools s + 1\<rparr>;
          s \<leftarrow> upd_pool poolid (\<lambda>e. e\<lparr>bpnext := buf, bpsize := bufsiz\<rparr>) s;
          (sem, s) \<leftarrow> semcreate numbufs s;
          s \<leftarrow> upd_pool poolid (\<lambda>e. e\<lparr>bpsem := sem\<rparr>) s;
          if sem = SYSERR then Some (SYSERR, s\<lparr>nbpools := nbpools s - 1\<rparr>)
          else Some (poolid, s\<lparr>mem := link_bufs (nat numbufs - 1) (bufsiz + 4) buf (mem s)\<rparr>)
        }
      })"

definition isbadpool :: "int \<Rightarrow> kernel \<Rightarrow> bool" where
  "isbadpool poolid s \<longleftrightarrow> poolid < 0 \<or> poolid \<ge> nbpools s"

text \<open>The part of \<open>getbuf\<close> after the wait; a pool with no buffer would follow the null pointer.\<close>

definition getbuf_rest :: "int \<Rightarrow> int \<Rightarrow> kernel \<Rightarrow> kernel option" where
  "getbuf_rest me poolid s =
     (let bufptr = bpnext (buftab s poolid) in
      if bufptr = 0 then None
      else do {
        s \<leftarrow> upd_pool poolid (\<lambda>e. e\<lparr>bpnext := ld32 (mem s) bufptr\<rparr>) s;
        Some (deliver me (bufptr + 4) (s\<lparr>mem := st32 bufptr poolid (mem s)\<rparr>))
      })"

definition getbuf :: "int \<Rightarrow> kernel \<Rightarrow> kernel option" where
  "getbuf poolid s =
     (let me = currpid s in
      if isbadpool poolid s then Some (deliver me SYSERR s)
      else do {
        (_, s) \<leftarrow> wait (bpsem (buftab s poolid)) s;
        after me (KGetbuf poolid) (getbuf_rest me poolid) s
      })"

definition freebuf :: "int \<Rightarrow> kernel \<Rightarrow> (int \<times> kernel) option" where
  "freebuf bufaddr s =
     (let bufaddr = bufaddr - 4;
          poolid = s32 (ld32 (mem s) bufaddr)
      in if isbadpool poolid s then Some (SYSERR, s)
         else do {
           let s = s\<lparr>mem := st32 bufaddr (bpnext (buftab s poolid)) (mem s)\<rparr>;
           s \<leftarrow> upd_pool poolid (\<lambda>e. e\<lparr>bpnext := bufaddr\<rparr>) s;
           (_, s) \<leftarrow> signal (bpsem (buftab s poolid)) s;
           Some (OK, s)
         })"

section \<open>Marked locations\<close>

definition notmarked :: "int \<Rightarrow> kernel \<Rightarrow> bool" where
  "notmarked L s \<longleftrightarrow> (let l = s32 (ld32 (mem s) L) in l < 0 \<or> l \<ge> nmarks s \<or> marks s l \<noteq> L)"

definition markinit :: "kernel \<Rightarrow> kernel option" where
  "markinit s = do {
     (sem, s) \<leftarrow> semcreate 1 (s\<lparr>nmarks := 0\<rparr>);
     Some (s\<lparr>mkmutex := sem\<rparr>)
   }"

definition mark_rest :: "int \<Rightarrow> int \<Rightarrow> kernel \<Rightarrow> kernel option" where
  "mark_rest me loc s =
     (if 0 \<le> nmarks s \<and> nmarks s < MAXMARK then do {
        let s = s\<lparr>mem := st32 loc (nmarks s) (mem s), marks := (marks s)(nmarks s := loc), nmarks := nmarks s + 1\<rparr>;
        (_, s) \<leftarrow> signal (mkmutex s) s;
        Some (deliver me OK s)
      } else None)"

definition mark :: "int \<Rightarrow> kernel \<Rightarrow> kernel option" where
  "mark loc s =
     (let me = currpid s; l = s32 (ld32 (mem s) loc) in
      if l \<ge> 0 \<and> l < nmarks s \<and> marks s l = loc then Some (deliver me OK s)
      else if nmarks s \<ge> MAXMARK then Some (deliver me SYSERR s)
      else do {
        (_, s) \<leftarrow> wait (mkmutex s) s;
        after me (KMark loc) (mark_rest me loc) s
      })"

section \<open>A pool\<close>

text \<open>
  The free buffers \<open>bufs\<close> of pool \<open>i\<close>: they are chained in memory, they do not overlap, and
  the semaphore counts them.
\<close>

definition pool_ok :: "kernel \<Rightarrow> int \<Rightarrow> int list \<Rightarrow> bool" where
  "pool_ok s i bufs \<longleftrightarrow> 0 \<le> i \<and> i < nbpools s \<and> nbpools s \<le> NBPOOLS
     \<and> 0 \<le> bpsem (buftab s i) \<and> bpsem (buftab s i) < NSEM \<and> sstate (semtab s (bpsem (buftab s i))) = S_USED
     \<and> scount (semtab s (bpsem (buftab s i))) = int (length bufs)
     \<and> mchain (ld32 (mem s)) (bpnext (buftab s i)) bufs \<and> apart 4 bufs \<and> (\<forall>b\<in>set bufs. 0 \<le> b \<and> b < 2 ^ 32)"

lemma upd_pool_Some [simp]: "0 \<le> i \<Longrightarrow> i < 20 \<Longrightarrow> upd_pool i f s = Some (s\<lparr>buftab := (buftab s)(i := f (buftab s i))\<rparr>)"
  by (simp add: upd_pool_def)

lemma chain_other: "apart 4 (b # bufs) \<Longrightarrow> mchain (ld32 (st32 b v m)) p bufs = mchain (ld32 m) p bufs"
  by (rule mchain_cong) (auto simp: apart_Cons ld32_apart)

lemma link_bufs_ok:
  assumes "0 < p" "4 \<le> k" "p + k * int (Suc n) \<le> 4294967296"
  shows "mchain (ld32 (link_bufs n k p m)) p (blocks k (Suc n) p)
    \<and> (\<forall>x. x < p \<or> p + k * int (Suc n) \<le> x \<longrightarrow> link_bufs n k p m x = m x)"
  using assms
proof (induction n arbitrary: p m)
  case 0
  then show ?case by (auto simp: st32_other)
next
  case (Suc n)
  define m1 where "m1 = st32 p (p + k) m"
  define m' where "m' = link_bufs n k (p + k) m1"
  have l: "link_bufs (Suc n) k p m = m'" by (simp add: m'_def m1_def)
  have pk: "0 < p + k" "p + k + k * int (Suc n) \<le> 4294967296" using Suc.prems by (simp_all add: distrib_left)
  note IH = Suc.IH [OF pk(1) Suc.prems(2) pk(2), of m1, folded m'_def]
  have "ld32 m' p = ld32 m1 p" by (rule ld32_cong) (use IH Suc.prems(2) in auto)
  moreover have "k * 1 \<le> k * int (Suc n)" by (rule mult_left_mono) (use Suc.prems(2) in auto)
  then have "p + k < 4294967296" using pk(2) Suc.prems(2) by linarith
  then have "u32 (p + k) = p + k" using pk(1) by simp
  ultimately have "ld32 m' p = p + k" by (simp add: m1_def)
  moreover have "m' x = m x" if "x < p \<or> p + k * int (Suc (Suc n)) \<le> x" for x
  proof -
    have b: "x < p + k \<or> p + k + k * int (Suc n) \<le> x" using that Suc.prems(2) by (auto simp: distrib_left)
    have "0 \<le> k * int n" using Suc.prems(2) by simp
    then have "p + 4 \<le> x" if "p + (k * 2 + k * int n) \<le> x" using that Suc.prems(2) by linarith
    then have "x < p \<or> p + 4 \<le> x" using that by (auto simp: distrib_left)
    then have "m1 x = m x" unfolding m1_def by (rule st32_other)
    moreover have "m' x = m1 x" using IH b by blast
    ultimately show ?thesis by simp
  qed
  ultimately show ?case unfolding l using IH Suc.prems(1) by simp
qed

lemma getbuf_ok:
  assumes inv: "kinv s Q" and pool: "pool_ok s i (b # bufs)" and sm: "int (length bufs) < 2147483647"
  shows "\<exists>s'. getbuf i s = Some s' \<and> kret s' (currpid s) = b + 4 \<and> ld32 (mem s') b = i \<and> pool_ok s' i bufs \<and> kinv s' Q
    \<and> (\<forall>x. x < b \<or> b + 4 \<le> x \<longrightarrow> mem s' x = mem s x) \<and> semtab s' = (semtab s)(bpsem (buftab s i) :=
      (semtab s (bpsem (buftab s i)))\<lparr>scount := scount (semtab s (bpsem (buftab s i))) - 1\<rparr>)"
proof -
  define sem where "sem = bpsem (buftab s i)"
  note P = pool [unfolded pool_ok_def, folded sem_def]
  have c: "0 < scount (semtab s sem)" "scount (semtab s sem) < 2147483648" using P sm by simp_all
  define t where "t = s\<lparr>semtab := (semtab s)(sem := (semtab s sem)\<lparr>scount := scount (semtab s sem) - 1\<rparr>)\<rparr>"
  have W: "wait sem s = Some (OK, t)" "kinv t Q"
    using sem_wait_pass [OF inv _ _ _ c] P settledD(1) by (auto simp: t_def)
  have i: "0 \<le> i" "i < 20" "\<not> isbadpool i s" using P by (auto simp: isbadpool_def)
  have bp: "bpnext (buftab t i) = b" "b \<noteq> 0" using P by (simp_all add: t_def)
  define u where "u = t\<lparr>buftab := (buftab t)(i := (buftab t i)\<lparr>bpnext := ld32 (mem t) b\<rparr>), mem := st32 b i (mem t)\<rparr>"
  have run: "getbuf i s = Some (deliver (currpid s) (b + 4) u)"
    using i W(1) bp by (simp add: getbuf_def Let_def sem_def [symmetric] after_def getbuf_rest_def u_def) (simp add: t_def)
  define v where "v = deliver (currpid s) (b + 4) u"
  have "kcore u = kcore t" by (simp add: u_def kcore_def)
  then have "kinv u Q" using kinv_core [of u t Q] W(2) by blast
  then have inv': "kinv v Q" by (simp add: v_def)
  have V: "nbpools v = nbpools s" "bpsem (buftab v i) = sem" "bpnext (buftab v i) = ld32 (mem s) b" "mem v = st32 b i (mem s)"
    "semtab v = (semtab s)(sem := (semtab s sem)\<lparr>scount := scount (semtab s sem) - 1\<rparr>)" "kret v (currpid s) = b + 4"
    by (simp_all add: v_def deliver_def u_def t_def sem_def)
  have "mchain (ld32 (mem s)) (ld32 (mem s) b) bufs" "apart 4 (b # bufs)" using P by auto
  then have "pool_ok v i bufs"
    using P chain_other [of b bufs i "mem s"] unfolding pool_ok_def V by (simp add: apart_Cons)
  then show ?thesis using run inv' i V
    by (intro exI [of _ v]) (simp add: v_def [symmetric] st32_other sem_def)
qed

lemma freebuf_ok:
  assumes inv: "kinv s Q" and rel: "semrel s Q" and pool: "pool_ok s i bufs" and id: "ld32 (mem s) b = i"
    and ap: "apart 4 (b # bufs)" and b: "0 < b" "b < 4294967296" and sm: "int (length bufs) < 2147483646"
  shows "\<exists>s' Q'. freebuf (b + 4) s = Some (OK, s') \<and> pool_ok s' i (b # bufs) \<and> kinv s' Q'"
proof -
  define sem where "sem = bpsem (buftab s i)"
  note P = pool [unfolded pool_ok_def, folded sem_def]
  have i: "0 \<le> i" "i < 20" "\<not> isbadpool i s" "s32 i = i" using P by (auto simp: isbadpool_def)
  define t where "t = s\<lparr>mem := st32 b (bpnext (buftab s i)) (mem s), buftab := (buftab s)(i := (buftab s i)\<lparr>bpnext := b\<rparr>)\<rparr>"
  have ct: "kcore t = kcore s" by (simp add: t_def kcore_def)
  have invt: "kinv t Q" using kinv_core [OF ct] inv by simp
  have relt: "semrel t Q" using rel by (simp add: semrel_def t_def)
  have tt: "semtab t = semtab s" "bpsem (buftab t i) = sem" by (simp_all add: t_def sem_def)
  have c: "scount (semtab t sem) + 1 < 2147483648" "0 \<le> sem" "sem < 100" "sstate (semtab t sem) = S_USED"
    using P sm by (simp_all add: tt)
  have e: "Q (squeue (semtab t sem)) = []" using semrelD(3) [OF relt c(2,3)] P by (simp add: tt)
  obtain s' Q' where S: "signal sem t = Some (OK, s')" "settled (abs_up sem [] 1 t) (Q(squeue (semtab t sem) := [])) s' Q'"
    using sem_signal_ok [OF invt relt c(2-4,1)] e by auto
  note F = sframeD [OF settledD(2) [OF S(2)]]
  have F': "semtab s' = (semtab s)(sem := (semtab s sem)\<lparr>scount := scount (semtab s sem) + 1\<rparr>)" "buftab s' = buftab t"
    "mem s' = mem t" "nbpools s' = nbpools s"
    using F by (simp_all add: abs_up_def tt) (simp add: t_def)
  have bn: "0 \<le> bpnext (buftab s i)" "bpnext (buftab s i) < 4294967296"
    using P by (cases bufs; auto)+
  have "mchain (ld32 (mem t)) b (b # bufs)"
    using P chain_other [OF ap] b bn by (simp add: t_def)
  then have "pool_ok s' i (b # bufs)"
    using P ap b unfolding pool_ok_def F' by (auto simp: t_def sem_def)
  moreover have "freebuf (b + 4) s = Some (OK, s')"
    using S(1) i id by (simp add: freebuf_def Let_def t_def [symmetric] tt) (simp add: t_def sem_def)
  ultimately show ?thesis using settledD(1) [OF S(2)] by blast
qed

text \<open>A new pool has all its buffers free, at the start of the block that the heap gave.\<close>

lemma mkbufpool_ok:
  assumes inv: "kinv s Q" and rel: "semrel s Q" and fr: "sems_free s Q"
    and i: "0 \<le> i" "i < 100" "sstate (semtab s i) = S_FREE"
    and b: "BP_MINB \<le> bufsiz" "bufsiz \<le> BP_MAXB" "1 \<le> numbufs" "numbufs \<le> BP_MAXN" "0 \<le> nbpools s" "nbpools s < NBPOOLS"
  defines "k \<equiv> (bufsiz + 3) div 4 * 4 + 4"
  assumes g: "getmem (envtab s EV_MEMALLOC) (numbufs * k) (heap s) = Some (p, h)" "0 < p" "p + numbufs * k \<le> 4294967296"
  shows "\<exists>s'. mkbufpool bufsiz numbufs s = Some (nbpools s, s') \<and> kinv s' Q \<and> semrel s' Q \<and> heap s' = h
    \<and> pool_ok s' (nbpools s) (blocks k (nat numbufs) p)"
proof -
  define n where "n = nat numbufs - 1"
  have n: "nat numbufs = Suc n" "numbufs * k = k * int (Suc n)" "nat numbufs - 1 = n" using b by (simp_all add: n_def)
  have k4: "4 \<le> k" "0 \<le> k" using b by (simp_all add: k_def)
  define s1 where "s1 = s\<lparr>heap := h, nbpools := nbpools s + 1, buftab := (buftab s)(nbpools s := (buftab s (nbpools s))
    \<lparr>bpnext := p, bpsize := (bufsiz + 3) div 4 * 4\<rparr>)\<rparr>"
  have c1: "kcore s1 = kcore s" by (simp add: s1_def kcore_def)
  have sm: "semtab s1 = semtab s" "nextsem s1 = nextsem s" by (simp_all add: s1_def)
  have inv1: "kinv s1 Q" and rel1: "semrel s1 Q" and fr1: "sems_free s1 Q"
    using kinv_core [OF c1] inv rel fr by (simp_all add: semrel_def sems_free_def sm)
  have numb0: "0 \<le> numbufs" using b by simp
  have fi: "sstate (semtab s1 i) = S_FREE" using i by (simp add: sm)
  obtain sem s2 nx where S: "semcreate numbufs s1 = Some (sem, s2)" "0 \<le> sem" "sem < 100" "settled s2 Q s2 Q" "semrel s2 Q"
    "semtab s2 = (semtab s1)(sem := (semtab s1 sem)\<lparr>sstate := S_USED, scount := numbufs\<rparr>)"
    "s2 = s1\<lparr>nextsem := nx, semtab := semtab s2\<rparr>"
    using semcreate_ok [OF inv1 rel1 fr1 numb0 i(1,2) fi] by blast
  define s3 where "s3 = s2\<lparr>buftab := (buftab s2)(nbpools s := (buftab s2 (nbpools s))\<lparr>bpsem := sem\<rparr>)\<rparr>"
  define s' where "s' = s3\<lparr>mem := link_bufs n k p (mem s3)\<rparr>"
  have f2: "buftab s2 = buftab s1" "nbpools s2 = nbpools s + 1" "mem s2 = mem s" "heap s2 = h"
    by (subst S(7), simp add: s1_def)+
  have run: "mkbufpool bufsiz numbufs s = Some (nbpools s, s')"
    using b g S(1,2) unfolding mkbufpool_def Let_def n(3)
    by (simp add: k_def [symmetric] s1_def [symmetric] s'_def s3_def f2)
  have "kcore s' = kcore s2" by (simp add: s'_def s3_def kcore_def)
  then have inv': "kinv s' Q" using kinv_core [of s' s2 Q] settledD(1) [OF S(4)] by blast
  have V: "nbpools s' = nbpools s + 1" "bpsem (buftab s' (nbpools s)) = sem" "bpnext (buftab s' (nbpools s)) = p" "semtab s' = semtab s2"
    "mem s' = link_bufs n k p (mem s)" "heap s' = h"
    by (simp_all add: s'_def s3_def f2) (simp add: s1_def)
  have ch: "mchain (ld32 (mem s')) p (blocks k (Suc n) p)"
    using link_bufs_ok [of p k n "mem s"] g k4 by (simp add: V n del: link_bufs.simps blocks.simps mchain.simps)
  have bb: "0 \<le> x \<and> x < 4294967296" if "x \<in> set (blocks k (Suc n) p)" for x
    using blocks_bounds [OF that k4(2)] g k4 n by simp
  have a4: "apart 4 (blocks k (Suc n) p)"
    by (rule apart_mono [OF pool_blocks_apart k4(1)]) (use k4 in simp)
  have "pool_ok s' (nbpools s) (blocks k (nat numbufs) p)"
    unfolding pool_ok_def V n(1) using b S(2,3) ch bb a4 n V by (simp add: S(6) del: blocks.simps)
  moreover have "semrel s' Q" using S(5) by (simp add: semrel_def V)
  ultimately show ?thesis using run inv' V(6) by blast
qed

end
