(* ===== verification/Devs.thy ===== *)
theory Devs
  imports KernelState
begin

text \<open>
  The device switch: \<open>system/init.c\<close>, \<open>open.c\<close>, \<open>close.c\<close>, \<open>read.c\<close>, \<open>write.c\<close>,
  \<open>seek.c\<close>, \<open>control.c\<close>, \<open>getc.c\<close>, \<open>putc.c\<close>, \<open>getdev.c\<close>, \<open>ioerr.c\<close> and \<open>ionull.c\<close>.
  The table \<open>devtab\<close> itself is generated from \<open>config/Configuration\<close>; it is a parameter
  of every operation, a function from the device descriptor to the entry.  A driver
  routine gets the descriptor of its device in place of the address of the entry.
\<close>

abbreviation (input) NDEVS :: int where "NDEVS \<equiv> 24"
abbreviation (input) DEVNAMLEN :: int where "DEVNAMLEN \<equiv> 16"
abbreviation (input) CONSOLE :: int where "CONSOLE \<equiv> 0"

type_synonym devcall = "kernel \<Rightarrow> (int \<times> kernel) option"

record dentry =
  dvnum :: int
  dvminor :: int
  dvname :: int
  dvinit :: "int \<Rightarrow> devcall"
  dvopen :: "int \<Rightarrow> int \<Rightarrow> int \<Rightarrow> devcall"
  dvclose :: "int \<Rightarrow> devcall"
  dvread :: "int \<Rightarrow> int \<Rightarrow> int \<Rightarrow> devcall"
  dvwrite :: "int \<Rightarrow> int \<Rightarrow> int \<Rightarrow> devcall"
  dvseek :: "int \<Rightarrow> int \<Rightarrow> devcall"
  dvgetc :: "int \<Rightarrow> devcall"
  dvputc :: "int \<Rightarrow> int \<Rightarrow> devcall"
  dvcntl :: "int \<Rightarrow> int \<Rightarrow> int \<Rightarrow> int \<Rightarrow> devcall"
  dvcsr :: int
  dvirq :: int

type_synonym devtab = "int \<Rightarrow> dentry"

definition isbaddev :: "int \<Rightarrow> bool" where
  "isbaddev f \<longleftrightarrow> f < 0 \<or> f \<ge> NDEVS"

definition ioerr :: devcall where
  "ioerr s = Some (SYSERR, s)"

definition ionull :: devcall where
  "ionull s = Some (OK, s)"

section \<open>Dispatch\<close>

definition init :: "devtab \<Rightarrow> int \<Rightarrow> devcall" where
  "init devtab descrp s = (if isbaddev descrp then Some (SYSERR, s) else dvinit (devtab descrp) descrp s)"

definition open_dev :: "devtab \<Rightarrow> int \<Rightarrow> int \<Rightarrow> int \<Rightarrow> devcall" where
  "open_dev devtab descrp name mode s =
     (if isbaddev descrp then Some (SYSERR, s) else dvopen (devtab descrp) descrp name mode s)"

definition close_dev :: "devtab \<Rightarrow> int \<Rightarrow> devcall" where
  "close_dev devtab descrp s = (if isbaddev descrp then Some (SYSERR, s) else dvclose (devtab descrp) descrp s)"

definition read_dev :: "devtab \<Rightarrow> int \<Rightarrow> int \<Rightarrow> int \<Rightarrow> devcall" where
  "read_dev devtab descrp buffer count s =
     (if isbaddev descrp then Some (SYSERR, s) else dvread (devtab descrp) descrp buffer count s)"

definition write_dev :: "devtab \<Rightarrow> int \<Rightarrow> int \<Rightarrow> int \<Rightarrow> devcall" where
  "write_dev devtab descrp buffer count s =
     (if isbaddev descrp then Some (SYSERR, s) else dvwrite (devtab descrp) descrp buffer count s)"

text \<open>\<open>seek\<close> takes the position as \<open>uint32\<close> and the driver as \<open>int32\<close>.\<close>

definition seek :: "devtab \<Rightarrow> int \<Rightarrow> int \<Rightarrow> devcall" where
  "seek devtab descrp pos s =
     (if isbaddev descrp then Some (SYSERR, s) else dvseek (devtab descrp) descrp (s32 pos) s)"

definition control :: "devtab \<Rightarrow> int \<Rightarrow> int \<Rightarrow> int \<Rightarrow> int \<Rightarrow> devcall" where
  "control devtab descrp func arg1 arg2 s =
     (if isbaddev descrp then Some (SYSERR, s) else dvcntl (devtab descrp) descrp func arg1 arg2 s)"

definition getc :: "devtab \<Rightarrow> int \<Rightarrow> devcall" where
  "getc devtab descrp s = (if isbaddev descrp then Some (SYSERR, s) else dvgetc (devtab descrp) descrp s)"

definition putc :: "devtab \<Rightarrow> int \<Rightarrow> int \<Rightarrow> devcall" where
  "putc devtab descrp ch s = (if isbaddev descrp then Some (SYSERR, s) else dvputc (devtab descrp) descrp ch s)"

section \<open>Device names\<close>

text \<open>\<open>getdev\<close> tests the value of \<open>strncmp\<close> as a truth value, as the code does.\<close>

fun getdev_loop :: "nat \<Rightarrow> devtab \<Rightarrow> int \<Rightarrow> int \<Rightarrow> bytes \<Rightarrow> int option" where
  "getdev_loop 0 devtab devname dev m = Some SYSERR"
| "getdev_loop (Suc n) devtab devname dev m = do {
     r \<leftarrow> strncmp m devname (dvname (devtab dev)) DEVNAMLEN;
     if r \<noteq> 0 then Some dev else getdev_loop n devtab devname (dev + 1) m
   }"

definition getdev :: "devtab \<Rightarrow> int \<Rightarrow> bytes \<Rightarrow> int option" where
  "getdev devtab devname m = getdev_loop (nat NDEVS) devtab devname 0 m"

text \<open>The names of the table are strings of the memory; \<open>getdev\<close> compares 16 characters.\<close>

definition names_ok :: "devtab \<Rightarrow> (int \<Rightarrow> 8 word list) \<Rightarrow> bytes \<Rightarrow> bool" where
  "names_ok devtab names m \<longleftrightarrow> (\<forall>i. 0 \<le> i \<and> i < NDEVS \<longrightarrow> cstr m (dvname (devtab i)) (names i))"

lemma getdev_step:
  assumes "cstr m devname xs" "cstr m (dvname (devtab i)) ys"
  shows "getdev_loop (Suc n) devtab devname i m =
    (if take 16 xs = take 16 ys then getdev_loop n devtab devname (i + 1) m else Some i)"
proof -
  obtain r where "strncmp m devname (dvname (devtab i)) 16 = Some r" and r: "sgn r = scompare (take 16 xs) (take 16 ys)"
    using strncmp_ok [OF assms, of 16] by auto
  moreover have "r = 0 \<longleftrightarrow> take 16 xs = take 16 ys" using r scompare_eq sgn_0_0 by metis
  ultimately show ?thesis by simp
qed

text \<open>\<open>getdev\<close> never returns the device that was named: its test is inverted, so that the
  first device with another name is returned, which is device 0, or device 1 when
  device 0 was asked for.\<close>

theorem getdev_inverted:
  assumes "cstr m devname xs" "names_ok devtab names m" "take 16 (names 0) \<noteq> take 16 (names 1)"
  shows "getdev devtab devname m = Some (if take 16 xs = take 16 (names 0) then 1 else 0)"
proof -
  have n: "nat 24 = Suc (Suc 22)" by simp
  have "cstr m (dvname (devtab 0)) (names 0)" "cstr m (dvname (devtab 1)) (names 1)"
    using assms(2) by (simp_all add: names_ok_def)
  note g = getdev_step [of m devname xs devtab 0, OF assms(1) this(1)] getdev_step [of m devname xs devtab 1, OF assms(1) this(2)]
  have "getdev_loop (Suc (Suc k)) devtab devname 0 m = Some (if take 16 xs = take 16 (names 0) then 1 else 0)" for k
    unfolding g(1) using g(2) assms(3) by (simp del: getdev_loop.simps)
  then show ?thesis unfolding getdev_def n .
qed

text \<open>Two devices named \<open>"A"\<close> and \<open>"B"\<close>, the others sharing the second name; the name asked for is \<open>"B"\<close>.\<close>

definition dev_ex :: devtab where
  "dev_ex i = \<lparr>dvnum = i, dvminor = 0, dvname = (if i = 0 then 100 else 200), dvinit = (\<lambda>_. ionull), dvopen = (\<lambda>_ _ _. ionull),
     dvclose = (\<lambda>_. ionull), dvread = (\<lambda>_ _ _. ionull), dvwrite = (\<lambda>_ _ _. ionull), dvseek = (\<lambda>_ _. ioerr),
     dvgetc = (\<lambda>_. ionull), dvputc = (\<lambda>_ _. ionull), dvcntl = (\<lambda>_ _ _ _. ioerr), dvcsr = 0, dvirq = 0\<rparr>"

theorem getdev_inverted_witness:
  "getdev dev_ex 300 (poke (poke (poke (\<lambda>_. 0) 100 [65, 0]) 200 [66, 0]) 300 [66, 0]) = Some 0"
  using getdev_inverted [of "poke (poke (poke (\<lambda>_. 0) 100 [65, 0]) 200 [66, 0]) 300 [66, 0]" 300 "[66]" dev_ex
      "\<lambda>i. if i = 0 then [65] else [66]"]
  by (simp add: names_ok_def dev_ex_def)

end
