(* ===== verification/Boot.thy ===== *)
theory Boot
  imports Bufpool Devs
begin

text \<open>
  System start: \<open>sysinit\<close> of \<open>system/initialize.c\<close> with the part of \<open>system/clkinit.c\<close> that is
  not hardware.  The end of the program and the top of memory come from the linker and the
  board, the device table from the configuration; all are parameters.  The theorem is about the
  tables: they satisfy the invariant of the kernel when \<open>sysinit\<close> comes to the devices.
\<close>

abbreviation (input) NULLSTK :: int where "NULLSTK \<equiv> 8192"

fun init_sems :: "nat \<Rightarrow> int \<Rightarrow> kernel \<Rightarrow> kernel option" where
  "init_sems 0 i s = Some s"
| "init_sems (Suc n) i s = do {
     (q, s) \<leftarrow> newqueue s;
     init_sems n (i + 1) (s\<lparr>semtab := (semtab s)(i := \<lparr>sstate = S_FREE, scount = 0, squeue = q\<rparr>)\<rparr>)
   }"

fun init_rwbs :: "nat \<Rightarrow> int \<Rightarrow> kernel \<Rightarrow> kernel option" where
  "init_rwbs 0 i s = Some s"
| "init_rwbs (Suc n) i s = do {
     (q, s) \<leftarrow> newqueue s;
     init_rwbs n (i + 1) (s\<lparr>rwbtab := (rwbtab s)(i := \<lparr>rwstate = S_FREE, rwcount = 0, rwqueue = q, qcount = 0\<rparr>)\<rparr>)
   }"

definition clkinit :: "kernel \<Rightarrow> kernel option" where
  "clkinit s = do {
     (q, s) \<leftarrow> newqueue s;
     Some (s\<lparr>sleepq := q, preempt := QUANTUM, clktime := 0\<rparr>)
   }"

text \<open>
  A driver may give the processor away (\<open>rdsinit\<close> resumes the process it creates, and every
  process has a higher priority than the null process); the null process then goes on with the
  next device when it runs again (\<open>KInit\<close>).
\<close>

fun init_devs :: "devtab \<Rightarrow> nat \<Rightarrow> int \<Rightarrow> kernel \<Rightarrow> kernel option" where
  "init_devs devtab 0 i s = Some s"
| "init_devs devtab (Suc n) i s = do {
     (_, s) \<leftarrow> init devtab i s;
     after NULLPROC (KInit (i + 1)) (init_devs devtab n (i + 1)) s
   }"

definition init_rest :: "devtab \<Rightarrow> int \<Rightarrow> kernel \<Rightarrow> kernel option" where
  "init_rest devtab i = init_devs devtab (nat (NDEVS - i)) i"

definition init_procs :: "int \<Rightarrow> kernel \<Rightarrow> kernel" where
  "init_procs stk s =
     (let free = (\<lambda>e. e\<lparr>prstate := PR_FREE, prname := [], prstkbase := 0, prprio := 0\<rparr>);
          tab = (\<lambda>p. if 0 \<le> p \<and> p < NPROC then free (proctab s p) else proctab s p);
          null = (tab NULLPROC)\<lparr>prstate := PR_CURR, timestatein := ztime,
            statetimes := (\<lambda>i st. if 0 \<le> i \<and> i < QTYPE_VALS then ztime else statetimes (tab NULLPROC) i st),
            prprio := 0, prprio0 := 0, prname := ''prnull'', prstkbase := stk, prstklen := NULLSTK, prstkptr := 0\<rparr>
      in s\<lparr>proctab := tab(NULLPROC := null), currpid := NULLPROC\<rparr>)"

definition sysinit_tables :: "int \<Rightarrow> int \<Rightarrow> kernel \<Rightarrow> kernel option" where
  "sysinit_tables end_addr maxaddr s = do {
     let s = s\<lparr>debug_mask := 0x7000\<rparr>;
     h \<leftarrow> meminit end_addr maxaddr (heap s);
     let s = s\<lparr>heap := h, readycount := 0, prcount := 1, ndefers := 0,
       state_times := (\<lambda>i st. if 0 \<le> i \<and> i < QTYPE_VALS then ztime else state_times s i st),
       procs_finished := (\<lambda>i. if 0 \<le> i \<and> i < QTYPE_VALS then 0 else procs_finished s i)\<rparr>;
     (stk, h) \<leftarrow> getstk (envtab s EV_MEMALLOC) NULLSTK (heap s);
     let s = init_procs stk (s\<lparr>heap := h\<rparr>);
     s \<leftarrow> init_sems (nat NSEM) 0 s;
     s \<leftarrow> init_rwbs (nat RWB_COUNT) 0 s;
     let s = s\<lparr>rwbflags := (\<lambda>i. if 0 \<le> i \<and> i < NPROC then 0 else rwbflags s i)\<rparr>;
     let (_, s) = bufinit s;
     (q, s) \<leftarrow> newqueue s;
     let s = s\<lparr>readylist := q\<rparr>;
     (q, s) \<leftarrow> newqueue s;
     let s = s\<lparr>scratchlist := q\<rparr>;
     clkinit s
   }"

definition sysinit :: "devtab \<Rightarrow> int \<Rightarrow> int \<Rightarrow> kernel \<Rightarrow> kernel option" where
  "sysinit devtab end_addr maxaddr s = do {
     s \<leftarrow> sysinit_tables end_addr maxaddr s;
     init_devs devtab (nat NDEVS) 0 s
   }"

section \<open>The tables after the start\<close>

text \<open>All queues handed out so far are empty, and no process is linked.\<close>

definition blank :: "kernel \<Rightarrow> int \<Rightarrow> bool" where
  "blank s n \<longleftrightarrow> nextqid s = n \<and> 100 \<le> n \<and> qrel (queuetab s) n (\<lambda>_. []) (\<lambda>_. None)"

lemma newqueue_blank:
  assumes "blank s n" "n \<le> 326"
  shows "\<exists>t. newqueue s = Some (n, s\<lparr>nextqid := n + 2, queuetab := t\<rparr>) \<and> qrel t (n + 2) (\<lambda>_. []) (\<lambda>_. None)"
proof -
  have b: "qrel (queuetab s) n (\<lambda>_. []) (\<lambda>_. None)" "n = nextqid s" "100 \<le> n" using assms(1) by (simp_all add: blank_def)
  have "(\<lambda>_ :: int. [] :: int list)(n := []) = (\<lambda>_. [])" by (simp add: fun_eq_iff)
  with newqueue_ok [OF b assms(2)] show ?thesis by force
qed

lemma blankI: "nextqid s = n \<Longrightarrow> 100 \<le> n \<Longrightarrow> qrel (queuetab s) n (\<lambda>_. []) (\<lambda>_. None) \<Longrightarrow> blank s n"
  by (simp add: blank_def)

lemma init_sems_ok:
  assumes "blank s n" "n + 2 * int k \<le> 328"
  shows "\<exists>t f. init_sems k i s = Some (s\<lparr>nextqid := n + 2 * int k, queuetab := t, semtab := f\<rparr>)
    \<and> qrel t (n + 2 * int k) (\<lambda>_. []) (\<lambda>_. None)
    \<and> (\<forall>j. f j = (if i \<le> j \<and> j < i + int k then \<lparr>sstate = S_FREE, scount = 0, squeue = n + 2 * (j - i)\<rparr> else semtab s j))"
  using assms
proof (induction k arbitrary: s n i)
  case 0
  then show ?case by (intro exI [of _ "queuetab s"] exI [of _ "semtab s"]) (auto simp: blank_def)
next
  case (Suc k)
  obtain t where N: "newqueue s = Some (n, s\<lparr>nextqid := n + 2, queuetab := t\<rparr>)" "qrel t (n + 2) (\<lambda>_. []) (\<lambda>_. None)"
    using newqueue_blank [OF Suc.prems(1)] Suc.prems(2) by auto
  define s1 where "s1 = s\<lparr>nextqid := n + 2, queuetab := t, semtab := (semtab s)(i := \<lparr>sstate = S_FREE, scount = 0, squeue = n\<rparr>)\<rparr>"
  have b: "blank s1 (n + 2)" by (rule blankI) (use N(2) Suc.prems(1) in \<open>simp_all add: s1_def blank_def\<close>)
  have "n + 2 + 2 * int k \<le> 328" using Suc.prems(2) by simp
  from Suc.IH [OF b this, of "i + 1"] obtain t' f where I:
    "init_sems k (i + 1) s1 = Some (s1\<lparr>nextqid := n + 2 + 2 * int k, queuetab := t', semtab := f\<rparr>)"
    "qrel t' (n + 2 + 2 * int k) (\<lambda>_. []) (\<lambda>_. None)"
    "\<And>j. f j = (if i + 1 \<le> j \<and> j < i + 1 + int k then \<lparr>sstate = S_FREE, scount = 0, squeue = n + 2 + 2 * (j - (i + 1))\<rparr> else semtab s1 j)"
    by blast
  show ?case
  proof (intro exI conjI allI)
    have "init_sems (Suc k) i s = init_sems k (i + 1) s1" using N(1) by (simp add: s1_def)
    then show "init_sems (Suc k) i s = Some (s\<lparr>nextqid := n + 2 * int (Suc k), queuetab := t', semtab := f\<rparr>)"
      using I(1) by (simp add: s1_def add.assoc)
    show "qrel t' (n + 2 * int (Suc k)) (\<lambda>_. []) (\<lambda>_. None)" using I(2) by (simp add: add.assoc)
    show "f j = (if i \<le> j \<and> j < i + int (Suc k) then \<lparr>sstate = S_FREE, scount = 0, squeue = n + 2 * (j - i)\<rparr> else semtab s j)" for j
      using I(3) [of j] by (auto simp: s1_def)
  qed
qed

lemma init_rwbs_ok:
  assumes "blank s n" "n + 2 * int k \<le> 328"
  shows "\<exists>t f. init_rwbs k i s = Some (s\<lparr>nextqid := n + 2 * int k, queuetab := t, rwbtab := f\<rparr>)
    \<and> qrel t (n + 2 * int k) (\<lambda>_. []) (\<lambda>_. None)
    \<and> (\<forall>j. f j = (if i \<le> j \<and> j < i + int k then \<lparr>rwstate = S_FREE, rwcount = 0, rwqueue = n + 2 * (j - i), qcount = 0\<rparr> else rwbtab s j))"
  using assms
proof (induction k arbitrary: s n i)
  case 0
  then show ?case by (intro exI [of _ "queuetab s"] exI [of _ "rwbtab s"]) (auto simp: blank_def)
next
  case (Suc k)
  obtain t where N: "newqueue s = Some (n, s\<lparr>nextqid := n + 2, queuetab := t\<rparr>)" "qrel t (n + 2) (\<lambda>_. []) (\<lambda>_. None)"
    using newqueue_blank [OF Suc.prems(1)] Suc.prems(2) by auto
  define s1 where "s1 = s\<lparr>nextqid := n + 2, queuetab := t, rwbtab := (rwbtab s)(i := \<lparr>rwstate = S_FREE, rwcount = 0, rwqueue = n, qcount = 0\<rparr>)\<rparr>"
  have b: "blank s1 (n + 2)" by (rule blankI) (use N(2) Suc.prems(1) in \<open>simp_all add: s1_def blank_def\<close>)
  have "n + 2 + 2 * int k \<le> 328" using Suc.prems(2) by simp
  from Suc.IH [OF b this, of "i + 1"] obtain t' f where I:
    "init_rwbs k (i + 1) s1 = Some (s1\<lparr>nextqid := n + 2 + 2 * int k, queuetab := t', rwbtab := f\<rparr>)"
    "qrel t' (n + 2 + 2 * int k) (\<lambda>_. []) (\<lambda>_. None)"
    "\<And>j. f j = (if i + 1 \<le> j \<and> j < i + 1 + int k then \<lparr>rwstate = S_FREE, rwcount = 0, rwqueue = n + 2 + 2 * (j - (i + 1)), qcount = 0\<rparr> else rwbtab s1 j)"
    by blast
  show ?case
  proof (intro exI conjI allI)
    have "init_rwbs (Suc k) i s = init_rwbs k (i + 1) s1" using N(1) by (simp add: s1_def)
    then show "init_rwbs (Suc k) i s = Some (s\<lparr>nextqid := n + 2 * int (Suc k), queuetab := t', rwbtab := f\<rparr>)"
      using I(1) by (simp add: s1_def add.assoc)
    show "qrel t' (n + 2 * int (Suc k)) (\<lambda>_. []) (\<lambda>_. None)" using I(2) by (simp add: add.assoc)
    show "f j = (if i \<le> j \<and> j < i + int (Suc k) then \<lparr>rwstate = S_FREE, rwcount = 0, rwqueue = n + 2 * (j - i), qcount = 0\<rparr> else rwbtab s j)" for j
      using I(3) [of j] by (auto simp: s1_def)
  qed
qed

text \<open>What the start leaves: the queues where they were handed out, and the null process alone.\<close>

definition booted :: "kernel \<Rightarrow> bool" where
  "booted s \<longleftrightarrow> nextqid s = 326 \<and> readylist s = 320 \<and> scratchlist s = 322 \<and> sleepq s = 324
     \<and> qrel (queuetab s) 326 (\<lambda>_. []) (\<lambda>_. None)
     \<and> (\<forall>i. 0 \<le> i \<and> i < NSEM \<longrightarrow> semtab s i = \<lparr>sstate = S_FREE, scount = 0, squeue = 100 + 2 * i\<rparr>)
     \<and> (\<forall>i. 0 \<le> i \<and> i < RWB_COUNT \<longrightarrow> rwbtab s i = \<lparr>rwstate = S_FREE, rwcount = 0, rwqueue = 300 + 2 * i, qcount = 0\<rparr>)
     \<and> (\<forall>p. 0 \<le> p \<and> p < NPROC \<longrightarrow> prstate (proctab s p) = (if p = NULLPROC then PR_CURR else PR_FREE) \<and> rwbflags s p = 0)
     \<and> currpid s = NULLPROC \<and> prcount s = 1 \<and> readycount s = 0 \<and> ndefers s = 0 \<and> nbpools s = 0"

lemma booted_layout: "booted s \<Longrightarrow> layout s"
  unfolding layout_def
proof (intro conjI)
  assume b: "booted s"
  show "inj_on (qid_of s) (Collect qname_ok)"
  proof (rule inj_onI)
    fix x y assume "x \<in> Collect qname_ok" "y \<in> Collect qname_ok" "qid_of s x = qid_of s y"
    then show "x = y" using b by (cases x; cases y) (auto simp: booted_def)
  qed
  show "qid_of s ` Collect qname_ok \<subseteq> qids (nextqid s)"
  proof
    fix q assume "q \<in> qid_of s ` Collect qname_ok"
    then obtain x where "qname_ok x" "q = qid_of s x" by auto
    then show "q \<in> qids (nextqid s)" using b by (cases x) (auto simp: booted_def qids_def)
  qed
qed

lemma booted_kinv:
  assumes b: "booted s" and e: "0 \<le> envtab s EV_SCHEDULER" "envtab s EV_SCHEDULER < QTYPE_VALS"
  shows "kinv s (\<lambda>_. [])"
proof -
  have st: "prstate (proctab s p) = (if p = 0 then PR_CURR else PR_FREE)" if "0 \<le> p" "p < 100" for p
    using b that by (simp add: booted_def)
  have q: "qrel (queuetab s) (nextqid s) (\<lambda>_. []) (\<lambda>_. None)" "currpid s = 0" using b by (simp_all add: booted_def)
  have "qrel (queuetab s) (nextqid s) (\<lambda>_. []) (pqueue s)"
    using q(1) st unfolding qrel_def by (auto simp: pqueue_def pq_def)
  then have "kpre s (\<lambda>_. [])"
    unfolding kpre_def kgen_def using booted_layout [OF b] e q(2) st
    by (auto simp: sched_ok_def wait_ok_def skeys_def split: if_splits)
  then show ?thesis using st [of 0] q(2) by (simp add: kinv_def)
qed

lemma queues_booted:
  assumes b: "blank s 100"
  shows "\<exists>t s'. init_sems (nat NSEM) 0 s = Some t \<and> init_rwbs (nat RWB_COUNT) 0 t = Some s' \<and> blank s' 320
    \<and> (\<forall>i. 0 \<le> i \<and> i < NSEM \<longrightarrow> semtab s' i = \<lparr>sstate = S_FREE, scount = 0, squeue = 100 + 2 * i\<rparr>)
    \<and> (\<forall>i. 0 \<le> i \<and> i < RWB_COUNT \<longrightarrow> rwbtab s' i = \<lparr>rwstate = S_FREE, rwcount = 0, rwqueue = 300 + 2 * i, qcount = 0\<rparr>)
    \<and> (\<exists>q n f g. s' = s\<lparr>nextqid := n, queuetab := q, semtab := f, rwbtab := g\<rparr>)"
proof -
  obtain q f where 1: "init_sems (nat 100) 0 s = Some (s\<lparr>nextqid := 300, queuetab := q, semtab := f\<rparr>)"
    "qrel q 300 (\<lambda>_. []) (\<lambda>_. None)"
    "\<And>j. f j = (if 0 \<le> j \<and> j < 100 then \<lparr>sstate = S_FREE, scount = 0, squeue = 100 + 2 * j\<rparr> else semtab s j)"
    using init_sems_ok [OF b, of "nat 100" 0] by auto
  define t where "t = s\<lparr>nextqid := 300, queuetab := q, semtab := f\<rparr>"
  have "blank t 300" by (rule blankI) (use 1(2) in \<open>simp_all add: t_def\<close>)
  from init_rwbs_ok [OF this, of "nat 10" 0] obtain q' g where
    2: "init_rwbs (nat 10) 0 t = Some (t\<lparr>nextqid := 320, queuetab := q', rwbtab := g\<rparr>)"
    "qrel q' 320 (\<lambda>_. []) (\<lambda>_. None)"
    "\<And>j. g j = (if 0 \<le> j \<and> j < 10 then \<lparr>rwstate = S_FREE, rwcount = 0, rwqueue = 300 + 2 * j, qcount = 0\<rparr> else rwbtab t j)"
    by auto
  define s' where "s' = t\<lparr>nextqid := 320, queuetab := q', rwbtab := g\<rparr>"
  have "blank s' 320" by (rule blankI) (use 2(2) in \<open>simp_all add: s'_def\<close>)
  moreover have "semtab s' i = \<lparr>sstate = S_FREE, scount = 0, squeue = 100 + 2 * i\<rparr>" if "0 \<le> i \<and> i < 100" for i
    using that 1(3) [of i] by (simp add: s'_def t_def)
  moreover have "rwbtab s' i = \<lparr>rwstate = S_FREE, rwcount = 0, rwqueue = 300 + 2 * i, qcount = 0\<rparr>" if "0 \<le> i \<and> i < 10" for i
    using that 2(3) [of i] by (simp add: s'_def)
  moreover have "s' = s\<lparr>nextqid := 320, queuetab := q', semtab := f, rwbtab := g\<rparr>" by (simp add: s'_def t_def)
  ultimately show ?thesis using 1(1) 2(1) unfolding t_def [symmetric] s'_def [symmetric] by blast
qed

lemma last_queues:
  assumes b: "blank s 320"
  shows "\<exists>t1 t2 t3. newqueue s = Some (320, s\<lparr>nextqid := 322, queuetab := t1\<rparr>)
    \<and> newqueue (s\<lparr>nextqid := 322, queuetab := t1, readylist := 320\<rparr>) =
        Some (322, s\<lparr>nextqid := 324, queuetab := t2, readylist := 320\<rparr>)
    \<and> clkinit (s\<lparr>nextqid := 324, queuetab := t2, readylist := 320, scratchlist := 322\<rparr>) =
        Some (s\<lparr>nextqid := 326, queuetab := t3, readylist := 320, scratchlist := 322, sleepq := 324, preempt := QUANTUM, clktime := 0\<rparr>)
    \<and> qrel t3 326 (\<lambda>_. []) (\<lambda>_. None)"
proof -
  obtain t1 where 1: "newqueue s = Some (320, s\<lparr>nextqid := 322, queuetab := t1\<rparr>)" "qrel t1 322 (\<lambda>_. []) (\<lambda>_. None)"
    using newqueue_blank [OF b] by auto
  define s1 where "s1 = s\<lparr>nextqid := 322, queuetab := t1, readylist := 320\<rparr>"
  have "blank s1 322" by (rule blankI) (use 1(2) in \<open>simp_all add: s1_def\<close>)
  from newqueue_blank [OF this] obtain t2 where
    2: "newqueue s1 = Some (322, s1\<lparr>nextqid := 324, queuetab := t2\<rparr>)" "qrel t2 324 (\<lambda>_. []) (\<lambda>_. None)" by auto
  define s2 where "s2 = s\<lparr>nextqid := 324, queuetab := t2, readylist := 320, scratchlist := 322\<rparr>"
  have "blank s2 324" by (rule blankI) (use 2(2) in \<open>simp_all add: s2_def\<close>)
  from newqueue_blank [OF this] obtain t3 where
    3: "newqueue s2 = Some (324, s2\<lparr>nextqid := 326, queuetab := t3\<rparr>)" "qrel t3 326 (\<lambda>_. []) (\<lambda>_. None)" by auto
  show ?thesis using 1 2 3 unfolding s1_def [symmetric] s2_def [symmetric]
    by (intro exI [of _ t1] exI [of _ t2] exI [of _ t3]) (simp add: clkinit_def s1_def s2_def)
qed

lemma sysinit_tables_ok:
  assumes q: "nextqid s = 100" and e: "0 \<le> envtab s EV_SCHEDULER" "envtab s EV_SCHEDULER < QTYPE_VALS"
    and m: "0 < memlist (heap s)" "memlist (heap s) < end_addr" "maxaddr < 2 ^ 32" "16 dvd maxaddr - end_addr"
    and big: "end_addr + NULLSTK \<le> maxaddr"
  shows "\<exists>s' L b. sysinit_tables end_addr maxaddr s = Some s' \<and> booted s' \<and> kinv s' (\<lambda>_. []) \<and> envtab s' = envtab s \<and> mrel (heap s') L \<and> coalesced (heap s') L
    \<and> {b..<b + NULLSTK} \<subseteq> {end_addr..<maxaddr} \<and> free_bytes (heap s') L = {end_addr..<maxaddr} - {b..<b + NULLSTK}
    \<and> nextsem s' = nextsem s \<and> nextpid s' = nextpid s \<and> nextrwb s' = nextrwb s \<and> kcont s' = kcont s"
proof -
  have "end_addr < maxaddr" using big by simp
  from meminit_ok [OF m(1,2) this m(3,4)] obtain h where
    H: "meminit end_addr maxaddr (heap s) = Some h" "mrel h [end_addr]" "free_bytes h [end_addr] = {end_addr..<maxaddr}"
      "len h end_addr = maxaddr - end_addr" by blast
  have r: "roundmb 8192 = 8192" by (simp add: roundmb_def)
  obtain b h' L where G: "getstk (envtab s 5) 8192 h = Some (b + 8192 - 4, h')" "mrel h' L"
    "{b..<b + 8192} \<subseteq> {end_addr..<maxaddr}" "free_bytes h' L = {end_addr..<maxaddr} - {b..<b + 8192}" "coalesced h' L"
  proof -
    have "coalesced h [end_addr]" using H(4) big by (simp add: coalesced_def)
    then show thesis using that getstk_some [OF H(2), of 8192 "envtab s 5"] H(3,4) big r by auto
  qed
  define a where "a = s\<lparr>debug_mask := 0x7000\<rparr>"
  define c where "c = a\<lparr>heap := h, readycount := 0, prcount := 1, ndefers := 0,
       state_times := (\<lambda>i st. if 0 \<le> i \<and> i < QTYPE_VALS then ztime else state_times a i st),
       procs_finished := (\<lambda>i. if 0 \<le> i \<and> i < QTYPE_VALS then 0 else procs_finished a i)\<rparr>"
  define d where "d = init_procs (b + 8192 - 4) (c\<lparr>heap := h'\<rparr>)"
  have A: "meminit end_addr maxaddr (heap a) = Some h" "getstk (envtab c 5) 8192 (heap c) = Some (b + 8192 - 4, h')"
    using H(1) G(1) by (simp_all add: a_def c_def)
  have df: "nextqid d = 100" "heap d = h'" "prcount d = 1" "readycount d = 0" "ndefers d = 0" "currpid d = 0" "envtab d = envtab s"
    "nextsem d = nextsem s" "nextpid d = nextpid s" "nextrwb d = nextrwb s" "kcont d = kcont s"
    using q by (simp_all add: d_def c_def a_def init_procs_def Let_def)
  have dp: "prstate (proctab d p) = (if p = 0 then PR_CURR else PR_FREE)" if "0 \<le> p" "p < 100" for p
    using that by (simp add: d_def init_procs_def Let_def)
  have "blank d 100" by (rule blankI) (auto simp: df qrel_def qids_def)
  from queues_booted [OF this] obtain e f where B: "init_sems (nat 100) 0 d = Some e" "init_rwbs (nat 10) 0 e = Some f" "blank f 320"
    "\<And>i. 0 \<le> i \<Longrightarrow> i < 100 \<Longrightarrow> semtab f i = \<lparr>sstate = S_FREE, scount = 0, squeue = 100 + 2 * i\<rparr>"
    "\<And>i. 0 \<le> i \<Longrightarrow> i < 10 \<Longrightarrow> rwbtab f i = \<lparr>rwstate = S_FREE, rwcount = 0, rwqueue = 300 + 2 * i, qcount = 0\<rparr>"
    and ff: "\<exists>q n f1 g. f = d\<lparr>nextqid := n, queuetab := q, semtab := f1, rwbtab := g\<rparr>" by blast
  define g where "g = (f\<lparr>rwbflags := (\<lambda>i. if 0 \<le> i \<and> i < NPROC then 0 else rwbflags f i)\<rparr>)\<lparr>nbpools := 0\<rparr>"
  have bg: "bufinit (f\<lparr>rwbflags := (\<lambda>i. if 0 \<le> i \<and> i < NPROC then 0 else rwbflags f i)\<rparr>) = (1, g)"
    by (simp add: bufinit_def g_def)
  have "blank g 320" using B(3) by (simp add: blank_def g_def)
  from last_queues [OF this] obtain t1 t2 t3 where C: "newqueue g = Some (320, g\<lparr>nextqid := 322, queuetab := t1\<rparr>)"
    "newqueue (g\<lparr>nextqid := 322, queuetab := t1, readylist := 320\<rparr>) = Some (322, g\<lparr>nextqid := 324, queuetab := t2, readylist := 320\<rparr>)"
    "clkinit (g\<lparr>nextqid := 324, queuetab := t2, readylist := 320, scratchlist := 322\<rparr>) =
        Some (g\<lparr>nextqid := 326, queuetab := t3, readylist := 320, scratchlist := 322, sleepq := 324, preempt := QUANTUM, clktime := 0\<rparr>)"
    "qrel t3 326 (\<lambda>_. []) (\<lambda>_. None)" by blast
  define s' where "s' = g\<lparr>nextqid := 326, queuetab := t3, readylist := 320, scratchlist := 322, sleepq := 324, preempt := QUANTUM, clktime := 0\<rparr>"
  have run: "sysinit_tables end_addr maxaddr s = Some s'"
    unfolding sysinit_tables_def Let_def a_def [symmetric]
    by (simp only: A Option.bind.simps prod.case c_def [symmetric] d_def [symmetric] B(1,2) bg C(1,2,3) s'_def [symmetric])
  have gp: "proctab g = proctab d" "currpid g = 0" "prcount g = 1" "readycount g = 0" "ndefers g = 0" "envtab g = envtab s" "heap g = h'"
    "nextsem g = nextsem s" "nextpid g = nextpid s" "nextrwb g = nextrwb s" "kcont g = kcont s"
    using ff df by (auto simp: g_def)
  have bo: "booted s'"
    unfolding booted_def using C(4) B(4,5) dp by (simp add: s'_def gp) (simp add: g_def)
  have kv: "kinv s' (\<lambda>_. [])" by (rule booted_kinv [OF bo]) (use e in \<open>simp_all add: s'_def gp\<close>)
  show ?thesis using run bo kv G(2-5)
    by (intro exI [of _ s'] exI [of _ L] exI [of _ b]) (simp add: s'_def gp)
qed

end
