(* ===== verification/Rwb.thy ===== *)
theory Rwb
  imports SchedOps RingAlloc
begin

text \<open>
  Reader-writer blockers, \<open>system/rwblocker.c\<close>.  The count of a blocker is the number
  of readers inside, or -1 for a writer; the flag of a process tells its role, and waiting
  processes are queued in the order they came.
\<close>

section \<open>The operations\<close>

definition rwbent :: "int \<Rightarrow> kernel \<Rightarrow> rwbentry option" where
  "rwbent i s = (if 0 \<le> i \<and> i < RWB_COUNT then Some (rwbtab s i) else None)"

definition upd_rwb :: "int \<Rightarrow> (rwbentry \<Rightarrow> rwbentry) \<Rightarrow> kernel \<Rightarrow> kernel option" where
  "upd_rwb i f s =
     (if 0 \<le> i \<and> i < RWB_COUNT then Some (s\<lparr>rwbtab := (rwbtab s)(i := f (rwbtab s i))\<rparr>) else None)"

text \<open>The increments and decrements of the two counters, and a write to the flag of a process.\<close>

definition add_rwcount :: "int \<Rightarrow> int \<Rightarrow> kernel \<Rightarrow> kernel option" where
  "add_rwcount rwb d s = do {
     e \<leftarrow> rwbent rwb s;
     c \<leftarrow> chk32 (rwcount e + d);
     upd_rwb rwb (\<lambda>e. e\<lparr>rwcount := c\<rparr>) s
   }"

definition add_qcount :: "int \<Rightarrow> int \<Rightarrow> kernel \<Rightarrow> kernel option" where
  "add_qcount rwb d s = do {
     e \<leftarrow> rwbent rwb s;
     c \<leftarrow> chk32 (qcount e + d);
     upd_rwb rwb (\<lambda>e. e\<lparr>qcount := c\<rparr>) s
   }"

definition set_flag :: "int \<Rightarrow> int \<Rightarrow> kernel \<Rightarrow> kernel option" where
  "set_flag p v s = (if 0 \<le> p \<and> p < NPROC then Some (s\<lparr>rwbflags := (rwbflags s)(p := v)\<rparr>) else None)"

fun newrwb_loop :: "nat \<Rightarrow> kernel \<Rightarrow> (int \<times> kernel) option" where
  "newrwb_loop 0 s = Some (SYSERR, s)"
| "newrwb_loop (Suc i) s =
     (let rwb = nextrwb s;
          s = s\<lparr>nextrwb := nextrwb s + 1\<rparr>;
          s = (if nextrwb s \<ge> RWB_COUNT then s\<lparr>nextrwb := 0\<rparr> else s)
      in do {
        e \<leftarrow> rwbent rwb s;
        if rwstate e = S_FREE then do {
          s \<leftarrow> upd_rwb rwb (\<lambda>e. e\<lparr>rwstate := S_USED\<rparr>) s;
          Some (rwb, s)
        } else newrwb_loop i s
      })"

definition newrwb :: "kernel \<Rightarrow> (int \<times> kernel) option" where
  "newrwb s = newrwb_loop (nat RWB_COUNT) s"

definition rwbcreate :: "int \<Rightarrow> kernel \<Rightarrow> (int \<times> kernel) option" where
  "rwbcreate count s =
     (if count < 0 then Some (SYSERR, s)
      else do {
        (rwb, s) \<leftarrow> newrwb s;
        if rwb = SYSERR then Some (SYSERR, s)
        else do {
          s \<leftarrow> upd_rwb rwb (\<lambda>e. e\<lparr>rwcount := count\<rparr>) s;
          Some (rwb, s)
        }
      })"

partial_function (option) rwbdelete_loop :: "int \<Rightarrow> kernel \<Rightarrow> kernel option" where
  "rwbdelete_loop rwb s = do {
     e \<leftarrow> rwbent rwb s;
     s \<leftarrow> add_qcount rwb (-1) s;
     if qcount e > 0 then do {
       (pid, s) \<leftarrow> getfirst (rwqueue e) s;
       s \<leftarrow> (if \<not> isbadpid s pid then do {
               s \<leftarrow> set_flag pid 0 s;
               (_, s) \<leftarrow> ready pid s;
               Some s
             } else Some s);
       rwbdelete_loop rwb s
     } else Some s
   }"

definition rwbdelete :: "int \<Rightarrow> kernel \<Rightarrow> (int \<times> kernel) option" where
  "rwbdelete rwb s =
     (if isbadrwb s rwb then Some (SYSERR, s)
      else do {
        e \<leftarrow> rwbent rwb s;
        if rwstate e = S_FREE then Some (SYSERR, s)
        else do {
          s \<leftarrow> upd_rwb rwb (\<lambda>e. e\<lparr>rwstate := S_FREE\<rparr>) s;
          (_, s) \<leftarrow> resched_cntl DEFER_START s;
          s \<leftarrow> rwbdelete_loop rwb s;
          s \<leftarrow> upd_rwb rwb (\<lambda>e. e\<lparr>rwcount := 0\<rparr>) s;
          (_, s) \<leftarrow> resched_cntl DEFER_STOP s;
          Some (OK, s)
        }
      })"

text \<open>
  \<open>rwbreset\<close>: the loop has only the decrement for its body, so the test and the
  \<open>ready\<close> below it run once, with the \<open>EMPTY\<close> that ended the loop.
\<close>

partial_function (option) rwbreset_loop :: "int \<Rightarrow> int \<Rightarrow> kernel \<Rightarrow> (int \<times> kernel) option" where
  "rwbreset_loop rwb q s = do {
     (pid, s) \<leftarrow> getfirst q s;
     if pid \<noteq> EMPTY then do {
       s \<leftarrow> add_qcount rwb (-1) s;
       rwbreset_loop rwb q s
     } else Some (pid, s)
   }"

definition rwbreset :: "int \<Rightarrow> int \<Rightarrow> kernel \<Rightarrow> (int \<times> kernel) option" where
  "rwbreset rwb count s =
     (if count < 0 \<or> isbadrwb s rwb then Some (SYSERR, s)
      else do {
        e \<leftarrow> rwbent rwb s;
        (_, s) \<leftarrow> resched_cntl DEFER_START s;
        (pid, s) \<leftarrow> rwbreset_loop rwb (rwqueue e) s;
        s \<leftarrow> (if \<not> isbadpid s pid then do {
                s \<leftarrow> set_flag pid 0 s;
                (_, s) \<leftarrow> ready pid s;
                Some s
              } else Some s);
        s \<leftarrow> upd_rwb rwb (\<lambda>e. e\<lparr>rwcount := count\<rparr>) s;
        (_, s) \<leftarrow> resched_cntl DEFER_STOP s;
        Some (OK, s)
      })"

text \<open>The branch of \<open>rwb_trywrite\<close> and \<open>rwb_tryread\<close> in which the caller must wait.\<close>

definition rwb_block :: "int \<Rightarrow> rwbentry \<Rightarrow> kernel \<Rightarrow> (int \<times> kernel) option" where
  "rwb_block rwb e s = do {
     (_, s) \<leftarrow> record_cpuqdata (currpid s) s;
     s \<leftarrow> upd_proc (currpid s) (\<lambda>e. e\<lparr>prstate := PR_WAIT, prsem := -1 * (rwb + 2)\<rparr>) s;
     s \<leftarrow> add_qcount rwb 1 s;
     (_, s) \<leftarrow> enqueue (currpid s) (rwqueue e) s;
     s \<leftarrow> resched s;
     Some (OK, s)
   }"

definition rwb_trywrite :: "int \<Rightarrow> kernel \<Rightarrow> (int \<times> kernel) option" where
  "rwb_trywrite rwb s =
     (if isbadrwb s rwb then Some (SYSERR, s)
      else do {
        e \<leftarrow> rwbent rwb s;
        s \<leftarrow> set_flag (currpid s) (-1) s;
        if rwcount e \<noteq> 0 \<or> qcount e > 0 then rwb_block rwb e s
        else do { s \<leftarrow> add_rwcount rwb (-1) s; Some (OK, s) }
      })"

definition rwb_tryread :: "int \<Rightarrow> kernel \<Rightarrow> (int \<times> kernel) option" where
  "rwb_tryread rwb s =
     (if isbadrwb s rwb then Some (SYSERR, s)
      else do {
        e \<leftarrow> rwbent rwb s;
        s \<leftarrow> set_flag (currpid s) 1 s;
        if rwcount e < 0 \<or> qcount e > 0 then rwb_block rwb e s
        else do { s \<leftarrow> add_rwcount rwb 1 s; Some (OK, s) }
      })"

section \<open>Leaving a blocker\<close>

text \<open>The end of \<open>_signalrwb\<close>, run by \<open>me\<close> for \<open>thisid\<close>.\<close>

definition signalrwb_end :: "int \<Rightarrow> int \<Rightarrow> kernel \<Rightarrow> kernel option" where
  "signalrwb_end me thisid s = do {
     s \<leftarrow> upd_proc thisid (\<lambda>e. e\<lparr>prsem := -1\<rparr>) s;
     Some (deliver me OK s)
   }"

definition rwb_writer_in :: "int \<Rightarrow> int \<Rightarrow> int \<Rightarrow> kernel \<Rightarrow> kernel option" where
  "rwb_writer_in me thisid rwb s = do {
     s \<leftarrow> add_rwcount rwb (-1) s;
     signalrwb_end me thisid s
   }"

text \<open>
  What follows the \<open>ready\<close> of a reader: the count, and the next reader of the queue if
  there is one.  When \<open>ready\<close> switched to another process the rest is left for later.
\<close>

partial_function (option) rwb_reader_in :: "int \<Rightarrow> int \<Rightarrow> int \<Rightarrow> kernel \<Rightarrow> kernel option" where
  "rwb_reader_in me thisid rwb s = do {
     s \<leftarrow> add_rwcount rwb 1 s;
     e \<leftarrow> rwbent rwb s;
     nextpid \<leftarrow> firstid (rwqueue e) s;
     if \<not> isbadpid s nextpid \<and> rwbflags s nextpid = 1 then do {
       s \<leftarrow> add_qcount rwb (-1) s;
       (pid, s) \<leftarrow> dequeue (rwqueue e) s;
       (_, s) \<leftarrow> ready pid s;
       if currpid s = me then rwb_reader_in me thisid rwb s
       else Some (s\<lparr>kcont := (kcont s)(me := kcont s me @ [KRwbReader thisid rwb])\<rparr>)
     } else signalrwb_end me thisid s
   }"

definition signalrwb_for :: "int \<Rightarrow> int \<Rightarrow> kernel \<Rightarrow> kernel option" where
  "signalrwb_for thisid rwb s =
     (let me = currpid s in
      if isbadrwb s rwb then Some (deliver me SYSERR s)
      else if isbadpid s thisid then Some (deliver me SYSERR s)
      else do {
        let is_writer = rwbflags s thisid;
        s \<leftarrow> set_flag thisid 0 s;
        s \<leftarrow> add_rwcount rwb (if is_writer = -1 then 1 else -1) s;
        e \<leftarrow> rwbent rwb s;
        em \<leftarrow> isempty (rwqueue e) s;
        if em then signalrwb_end me thisid s
        else do {
          nextpid \<leftarrow> firstid (rwqueue e) s;
          if isbadpid s nextpid then signalrwb_end me thisid s
          else if rwbflags s nextpid = -1 then
            if rwcount e = 0 then do {
              s \<leftarrow> add_qcount rwb (-1) s;
              (pid, s) \<leftarrow> dequeue (rwqueue e) s;
              (_, s) \<leftarrow> ready pid s;
              after me (KRwbWriter thisid rwb) (rwb_writer_in me thisid rwb) s
            } else signalrwb_end me thisid s
          else if rwbflags s nextpid = 1 then do {
            s \<leftarrow> add_qcount rwb (-1) s;
            (pid, s) \<leftarrow> dequeue (rwqueue e) s;
            (_, s) \<leftarrow> ready pid s;
            after me (KRwbReader thisid rwb) (rwb_reader_in me thisid rwb) s
          }
          else signalrwb_end me thisid s
        }
      })"

definition signalrwb :: "int \<Rightarrow> kernel \<Rightarrow> kernel option" where
  "signalrwb rwb s = signalrwb_for (currpid s) rwb s"

lemma rwbent_Some [simp]: "0 \<le> i \<Longrightarrow> i < 10 \<Longrightarrow> rwbent i s = Some (rwbtab s i)"
  by (simp add: rwbent_def)

lemma upd_rwb_Some [simp]: "0 \<le> i \<Longrightarrow> i < 10 \<Longrightarrow>
    upd_rwb i f s = Some (s\<lparr>rwbtab := (rwbtab s)(i := f (rwbtab s i))\<rparr>)"
  by (simp add: upd_rwb_def)

lemma add_rwcount_Some [simp]: "0 \<le> i \<Longrightarrow> i < 10 \<Longrightarrow> in_s32 (rwcount (rwbtab s i) + d) \<Longrightarrow>
    add_rwcount i d s = Some (s\<lparr>rwbtab := (rwbtab s)(i := (rwbtab s i)\<lparr>rwcount := rwcount (rwbtab s i) + d\<rparr>)\<rparr>)"
  by (simp add: add_rwcount_def)

lemma add_qcount_Some [simp]: "0 \<le> i \<Longrightarrow> i < 10 \<Longrightarrow> in_s32 (qcount (rwbtab s i) + d) \<Longrightarrow>
    add_qcount i d s = Some (s\<lparr>rwbtab := (rwbtab s)(i := (rwbtab s i)\<lparr>qcount := qcount (rwbtab s i) + d\<rparr>)\<rparr>)"
  by (simp add: add_qcount_def)

lemma set_flag_Some [simp]: "0 \<le> p \<Longrightarrow> p < 100 \<Longrightarrow> set_flag p v s = Some (s\<lparr>rwbflags := (rwbflags s)(p := v)\<rparr>)"
  by (simp add: set_flag_def)

lemma isbadrwb_iff: "isbadrwb s x \<longleftrightarrow> \<not> (0 \<le> x \<and> x < 10 \<and> rwstate (rwbtab s x) = S_USED)"
  by (cases "rwstate (rwbtab s x)") (auto simp: isbadrwb_def)

section \<open>Allocation\<close>

definition adv_rwb :: "kernel \<Rightarrow> kernel" where
  "adv_rwb s = s\<lparr>nextrwb := (nextrwb s + 1) mod RWB_COUNT\<rparr>"

definition rwb_taken :: "int \<Rightarrow> kernel \<Rightarrow> (int \<times> kernel) option" where
  "rwb_taken i s = Some (i, s\<lparr>rwbtab := (rwbtab s)(i := (rwbtab s i)\<lparr>rwstate := S_USED\<rparr>)\<rparr>)"

abbreviation (input) rcursor_ok :: "kernel \<Rightarrow> bool" where
  "rcursor_ok s \<equiv> 0 \<le> nextrwb s \<and> nextrwb s < RWB_COUNT"

lemma newrwb_loop_Suc: "rcursor_ok s \<Longrightarrow> newrwb_loop (Suc k) s =
    (if rwstate (rwbtab s (nextrwb s)) = S_FREE then rwb_taken (nextrwb s) (adv_rwb s) else newrwb_loop k (adv_rwb s))"
  by (cases "nextrwb s = 9") (simp_all add: Let_def rwb_taken_def adv_rwb_def)

interpretation rwballoc: ring_alloc RWB_COUNT nextrwb adv_rwb "\<lambda>s i. rwstate (rwbtab s i) = S_FREE" rwb_taken newrwb_loop
    "\<lambda>s. rcursor_ok s"
  by unfold_locales (simp_all add: newrwb_loop_Suc del: newrwb_loop.simps(2), simp_all add: adv_rwb_def)

lemma adv_rwb_power: "\<exists>n. (adv_rwb ^^ m) s = s\<lparr>nextrwb := n\<rparr>"
  by (induction m) (auto simp: adv_rwb_def intro: exI [of _ "nextrwb s"])

lemma adv_rwb_steps:
  assumes "rcursor_ok s"
  obtains n where "(adv_rwb ^^ m) s = s\<lparr>nextrwb := n\<rparr>" "0 \<le> n" "n < 10"
  using adv_rwb_power [of m s] rwballoc.steps_ok [OF assms, of m] by fastforce

lemma newrwb_ok:
  assumes "rcursor_ok s" "0 \<le> i" "i < 10" "rwstate (rwbtab s i) = S_FREE"
  shows "\<exists>rwb n. newrwb s = Some (rwb, s\<lparr>nextrwb := n, rwbtab := (rwbtab s)(rwb := (rwbtab s rwb)\<lparr>rwstate := S_USED\<rparr>)\<rparr>)
    \<and> 0 \<le> rwb \<and> rwb < 10 \<and> rwstate (rwbtab s rwb) = S_FREE \<and> 0 \<le> n \<and> n < 10"
proof -
  obtain m where m: "rwstate (rwbtab s (rwballoc.slot s m)) = S_FREE"
    "newrwb_loop (nat 10) s = rwb_taken (rwballoc.slot s m) ((adv_rwb ^^ Suc m) s)"
    using rwballoc.search_finds [OF assms(1-3)] assms(4) by blast
  obtain n where "(adv_rwb ^^ Suc m) s = s\<lparr>nextrwb := n\<rparr>" "0 \<le> n" "n < 10"
    by (rule adv_rwb_steps [OF assms(1)])
  then show ?thesis using m rwballoc.slot_bounds [of s m] by (auto simp: newrwb_def rwb_taken_def)
qed

lemma newrwb_full:
  assumes "rcursor_ok s" "\<And>i. 0 \<le> i \<Longrightarrow> i < 10 \<Longrightarrow> rwstate (rwbtab s i) = S_USED"
  shows "\<exists>n. newrwb s = Some (SYSERR, s\<lparr>nextrwb := n\<rparr>) \<and> 0 \<le> n \<and> n < 10"
proof -
  have "newrwb s = Some (SYSERR, (adv_rwb ^^ nat 10) s)"
    unfolding newrwb_def by (rule rwballoc.search_full [OF assms(1)]) (use assms(2) in auto)
  moreover obtain n where "(adv_rwb ^^ nat 10) s = s\<lparr>nextrwb := n\<rparr>" "0 \<le> n" "n < 10"
    by (rule adv_rwb_steps [OF assms(1)])
  ultimately show ?thesis by auto
qed

text \<open>A new blocker gets the count it was asked for, and keeps the queue count of its last use.\<close>

lemma rwbcreate_ok:
  assumes inv: "kinv s Q" and cu: "rcursor_ok s" and i: "0 \<le> i" "i < 10" "rwstate (rwbtab s i) = S_FREE" and c: "0 \<le> count"
  shows "\<exists>rwb n. let t = s\<lparr>nextrwb := n, rwbtab := (rwbtab s)(rwb := (rwbtab s rwb)\<lparr>rwstate := S_USED, rwcount := count\<rparr>)\<rparr>
    in rwbcreate count s = Some (rwb, t) \<and> 0 \<le> rwb \<and> rwb < 10 \<and> rwstate (rwbtab s rwb) = S_FREE \<and> settled t Q t Q"
proof -
  obtain rwb n where R: "newrwb s = Some (rwb, s\<lparr>nextrwb := n, rwbtab := (rwbtab s)(rwb := (rwbtab s rwb)\<lparr>rwstate := S_USED\<rparr>)\<rparr>)"
    "0 \<le> rwb" "rwb < 10" "rwstate (rwbtab s rwb) = S_FREE" using newrwb_ok [OF cu i] by blast
  define t where "t = s\<lparr>nextrwb := n, rwbtab := (rwbtab s)(rwb := (rwbtab s rwb)\<lparr>rwstate := S_USED, rwcount := count\<rparr>)\<rparr>"
  have "rwbcreate count s = Some (rwb, t)" using R c by (simp add: rwbcreate_def t_def)
  moreover have "kcore t = kcore s" by (simp add: kcore_def t_def fun_eq_iff)
  then have "settled t Q t Q" using settled_refl [of t Q] kinv_core [of t s Q] inv by simp
  ultimately show ?thesis using R(2-4) unfolding t_def Let_def by blast
qed

section \<open>Entering\<close>

lemma sframe_rwbtab: "sframe s s' \<Longrightarrow> sframe (s\<lparr>rwbtab := f\<rparr>) (s'\<lparr>rwbtab := f\<rparr>)"
proof -
  have "kerase (t\<lparr>rwbtab := f\<rparr>) = (kerase t)\<lparr>rwbtab := f\<rparr>" for t by (simp add: kerase_def)
  then show "sframe s s' \<Longrightarrow> sframe (s\<lparr>rwbtab := f\<rparr>) (s'\<lparr>rwbtab := f\<rparr>)" by (simp add: sframe_def)
qed

lemma rwb_block_ok:
  assumes inv: "kinv s Q" and nd: "ndefers s \<le> 0" and np: "currpid s \<noteq> 0"
    and i: "0 \<le> rwb" "rwb < 10" and qc: "in_s32 (qcount (rwbtab s rwb) + 1)"
  defines "q \<equiv> rwqueue (rwbtab s rwb)"
  defines "t \<equiv> s\<lparr>rwbtab := (rwbtab s)(rwb := (rwbtab s rwb)\<lparr>qcount := qcount (rwbtab s rwb) + 1\<rparr>),
      proctab := (proctab s)(currpid s := (proctab s (currpid s))\<lparr>prstate := PR_WAIT, prsem := - rwb - 2\<rparr>)\<rparr>"
  shows "\<exists>s' Q'. rwb_block rwb (rwbtab s rwb) s = Some (OK, s') \<and> settled t (Q(q := Q q @ [currpid s])) s' Q'
    \<and> Q (readylist s) = currpid s' # Q' (readylist s)"
proof -
  let ?c = "currpid s"
  define F :: "procent \<Rightarrow> procent" where "F = (\<lambda>e. e\<lparr>prstate := PR_WAIT, prsem := - rwb - 2\<rparr>)"
  obtain r s2 where r: "record_cpuqdata ?c s = Some (r, s2)" and a: "aframe s s2"
    and up: "upd_proc ?c F s2 = Some (s2\<lparr>proctab := (proctab s2)(?c := F (proctab s2 ?c))\<rparr>)"
    and o: "kout ?c (s2\<lparr>proctab := (proctab s2)(?c := F (proctab s2 ?c))\<rparr>) Q"
    and sf: "sframe (s\<lparr>proctab := (proctab s)(?c := F (proctab s ?c))\<rparr>) (s2\<lparr>proctab := (proctab s2)(?c := F (proctab s2 ?c))\<rparr>)"
    using leave_cpu [OF inv np, of F] i by (auto simp: F_def perase_def wait_ok_def)
  define s3 where "s3 = s2\<lparr>proctab := (proctab s2)(?c := F (proctab s2 ?c))\<rparr>"
  define f where "f = (rwbtab s)(rwb := (rwbtab s rwb)\<lparr>qcount := qcount (rwbtab s rwb) + 1\<rparr>)"
  define s4 where "s4 = s3\<lparr>rwbtab := f\<rparr>"
  note A = aframeD [OF a] and B = sframeD [OF sf [folded s3_def]]
  have same: "rwbtab s3 = rwbtab s" "nextqid s3 = nextqid s" "readylist s3 = readylist s" "sleepq s3 = sleepq s"
    "scratchlist s3 = scratchlist s" "ndefers s3 = ndefers s" "currpid s3 = ?c" "queuetab s3 = queuetab s"
    using B A(2,3) by (simp_all add: s3_def)
  have core: "kcore s4 = kcore s3" by (simp add: kcore_def s4_def f_def same fun_eq_iff)
  have o4: "kout ?c s4 Q" using o unfolding kout_core [OF core] s3_def .
  have L: "layout s" using kpreD(1) [OF kinv_kpre [OF inv]] .
  have qs: "q \<in> qids (nextqid s4)" "q \<noteq> readylist s4" "q \<noteq> sleepq s4" "q \<noteq> scratchlist s4"
    using layout_rwb [OF L, of rwb] layout_apart(7-9) [OF L, of rwb] i by (simp_all add: q_def same s4_def)
  have b3: "0 \<le> ?c" "?c < 100" using kpreD(4,5) [OF kinv_kpre [OF inv]] .
  have p3: "prstate (proctab s4 ?c) = PR_WAIT" "prsem (proctab s4 ?c) = - rwb - 2" by (simp_all add: s4_def s3_def F_def)
  have nb: "\<not> isbadpid s4 ?c" "pqueue s4 ?c = Some q"
    using b3 i p3 by (simp_all add: isbadpid_def pqueue_def pq_def q_def s4_def f_def)
  obtain t4 where e: "enqueue ?c q s4 = Some (?c, s4\<lparr>queuetab := t4\<rparr>)"
    and k: "kpre (s4\<lparr>queuetab := t4\<rparr>) (Q(q := Q q @ [?c]))" and key: "\<forall>x. qkey (t4 x) = keyof s4 x"
    using kout_enqueue [OF o4 nb(1) qs nb(2)] by blast
  define s5 where "s5 = s4\<lparr>queuetab := t4\<rparr>"
  have n5: "ndefers s5 \<le> 0" "prstate (proctab s5 (currpid s5)) \<noteq> PR_CURR" "readylist s5 = readylist s"
    using nd p3 by (simp_all add: s5_def s4_def same)
  obtain s' rest where R: "resched s5 = Some s'" "(Q(q := Q q @ [?c])) (readylist s5) = currpid s' # rest"
    "kinv s' (Q(q := Q q @ [?c], readylist s5 := rest))" "sframe s5 s'" "\<forall>x. keyof s' x = keyof s5 x"
    using resched_gone [OF k [folded s5_def] n5(1,2)] by blast
  have c2: "currpid s2 = ?c" "rwbtab s2 = rwbtab s" using A(3) same(1) by (simp_all add: s3_def)
  have F': "F = (\<lambda>e. e\<lparr>prstate := PR_WAIT, prsem := -1 * (rwb + 2)\<rparr>)" by (simp add: F_def fun_eq_iff)
  have "add_qcount rwb 1 s3 = Some s4" using i qc by (simp add: same s4_def f_def)
  then have "rwb_block rwb (rwbtab s rwb) s = Some (OK, s')"
    using r up e R(1) c2 same(7) unfolding rwb_block_def F' [symmetric] q_def [symmetric]
    by (simp add: s3_def [symmetric] s5_def [symmetric]) (simp add: s4_def same(7))
  moreover have "sframe t s'"
  proof -
    have "t = (s\<lparr>proctab := (proctab s)(?c := F (proctab s ?c))\<rparr>)\<lparr>rwbtab := f\<rparr>" by (simp add: t_def f_def F_def)
    then have "sframe t s4" using sframe_rwbtab [OF sf [folded s3_def]] by (simp add: s4_def)
    then show ?thesis using sframe_trans R(4) by (simp add: s5_def)
  qed
  moreover have "qframe t (Q(q := Q q @ [?c])) s' (Q(q := Q q @ [?c], readylist s := rest))"
    using R(5) key by (intro qframe_ready) (simp_all add: t_def s5_def s4_def same)
  ultimately show ?thesis using R(2,3) qs(2) n5(3) same
    by (intro exI [of _ s'] exI [of _ "Q(q := Q q @ [?c], readylist s := rest)"]) (simp add: settled_def s4_def)
qed

lemma kcore_flags [simp]: "kcore (s\<lparr>rwbflags := f\<rparr>) = kcore s"
  by (simp add: kcore_def fun_eq_iff)

lemma kcore_rwbtab: "(\<And>i. rwqueue (f i) = rwqueue (rwbtab s i)) \<Longrightarrow> kcore (s\<lparr>rwbtab := f\<rparr>) = kcore s"
  by (simp add: kcore_def fun_eq_iff)

lemma kinv_curr: "kinv s Q \<Longrightarrow> 0 \<le> currpid s \<and> currpid s < 100"
  using kpreD(4,5) [OF kinv_kpre] by blast

lemma trywrite_enter:
  assumes inv: "kinv s Q" and i: "0 \<le> rwb" "rwb < 10" and u: "rwstate (rwbtab s rwb) = S_USED"
    and c: "rwcount (rwbtab s rwb) = 0" "qcount (rwbtab s rwb) \<le> 0"
  defines "t \<equiv> s\<lparr>rwbflags := (rwbflags s)(currpid s := -1), rwbtab := (rwbtab s)(rwb := (rwbtab s rwb)\<lparr>rwcount := -1\<rparr>)\<rparr>"
  shows "rwb_trywrite rwb s = Some (OK, t)" "settled t Q t Q"
proof -
  show "rwb_trywrite rwb s = Some (OK, t)"
    using kinv_curr [OF inv] i u c by (simp add: rwb_trywrite_def isbadrwb_iff in_s32_def t_def)
  have "kcore t = kcore s" by (simp add: kcore_def t_def fun_eq_iff)
  then show "settled t Q t Q" using settled_refl [of t Q] kinv_core [of t s Q] inv by simp
qed

lemma tryread_enter:
  assumes inv: "kinv s Q" and i: "0 \<le> rwb" "rwb < 10" and u: "rwstate (rwbtab s rwb) = S_USED"
    and c: "0 \<le> rwcount (rwbtab s rwb)" "rwcount (rwbtab s rwb) < 2147483647" "qcount (rwbtab s rwb) \<le> 0"
  defines "t \<equiv> s\<lparr>rwbflags := (rwbflags s)(currpid s := 1),
      rwbtab := (rwbtab s)(rwb := (rwbtab s rwb)\<lparr>rwcount := rwcount (rwbtab s rwb) + 1\<rparr>)\<rparr>"
  shows "rwb_tryread rwb s = Some (OK, t)" "settled t Q t Q"
proof -
  show "rwb_tryread rwb s = Some (OK, t)"
    using kinv_curr [OF inv] i u c by (simp add: rwb_tryread_def isbadrwb_iff in_s32_def t_def)
  have "kcore t = kcore s" by (simp add: kcore_def t_def fun_eq_iff)
  then show "settled t Q t Q" using settled_refl [of t Q] kinv_core [of t s Q] inv by simp
qed

text \<open>The caller waits: it is queued behind the others, with its flag set, and the head of the ready list runs.\<close>

definition rwb_queued :: "int \<Rightarrow> int \<Rightarrow> kernel \<Rightarrow> kernel" where
  "rwb_queued rwb role s = s\<lparr>rwbflags := (rwbflags s)(currpid s := role),
     rwbtab := (rwbtab s)(rwb := (rwbtab s rwb)\<lparr>qcount := qcount (rwbtab s rwb) + 1\<rparr>),
     proctab := (proctab s)(currpid s := (proctab s (currpid s))\<lparr>prstate := PR_WAIT, prsem := - rwb - 2\<rparr>)\<rparr>"

lemma rwb_wait:
  assumes inv: "kinv s Q" and nd: "ndefers s \<le> 0" and np: "currpid s \<noteq> 0"
    and i: "0 \<le> rwb" "rwb < 10" and u: "rwstate (rwbtab s rwb) = S_USED" and qc: "in_s32 (qcount (rwbtab s rwb) + 1)"
  defines "q \<equiv> rwqueue (rwbtab s rwb)"
  shows "rwcount (rwbtab s rwb) \<noteq> 0 \<or> 0 < qcount (rwbtab s rwb) \<Longrightarrow>
      \<exists>s' Q'. rwb_trywrite rwb s = Some (OK, s') \<and> settled (rwb_queued rwb (-1) s) (Q(q := Q q @ [currpid s])) s' Q'
        \<and> Q (readylist s) = currpid s' # Q' (readylist s)"
    and "rwcount (rwbtab s rwb) < 0 \<or> 0 < qcount (rwbtab s rwb) \<Longrightarrow>
      \<exists>s' Q'. rwb_tryread rwb s = Some (OK, s') \<and> settled (rwb_queued rwb 1 s) (Q(q := Q q @ [currpid s])) s' Q'
        \<and> Q (readylist s) = currpid s' # Q' (readylist s)"
proof -
  have blk: "\<exists>s' Q'. rwb_block rwb (rwbtab s rwb) (s\<lparr>rwbflags := (rwbflags s)(currpid s := role)\<rparr>) = Some (OK, s')
      \<and> settled (rwb_queued rwb role s) (Q(q := Q q @ [currpid s])) s' Q' \<and> Q (readylist s) = currpid s' # Q' (readylist s)" for role
    using rwb_block_ok [of "s\<lparr>rwbflags := (rwbflags s)(currpid s := role)\<rparr>" Q rwb] kinv_core [OF kcore_flags] inv nd np i qc
    by (simp add: q_def rwb_queued_def)
  note c = kinv_curr [OF inv]
  show "\<exists>s' Q'. rwb_trywrite rwb s = Some (OK, s') \<and> settled (rwb_queued rwb (-1) s) (Q(q := Q q @ [currpid s])) s' Q'
      \<and> Q (readylist s) = currpid s' # Q' (readylist s)" if "rwcount (rwbtab s rwb) \<noteq> 0 \<or> 0 < qcount (rwbtab s rwb)"
    using blk [of "-1"] that c i u by (auto simp: rwb_trywrite_def isbadrwb_iff)
  show "\<exists>s' Q'. rwb_tryread rwb s = Some (OK, s') \<and> settled (rwb_queued rwb 1 s) (Q(q := Q q @ [currpid s])) s' Q'
      \<and> Q (readylist s) = currpid s' # Q' (readylist s)" if "rwcount (rwbtab s rwb) < 0 \<or> 0 < qcount (rwbtab s rwb)"
    using blk [of 1] that c i u by (auto simp: rwb_tryread_def isbadrwb_iff)
qed

section \<open>Leaving\<close>

text \<open>The process \<open>p\<close> gives up its place: its flag is cleared and the count moves towards zero.\<close>

definition rwb_left :: "int \<Rightarrow> int \<Rightarrow> kernel \<Rightarrow> kernel" where
  "rwb_left p rwb s = s\<lparr>rwbflags := (rwbflags s)(p := 0), rwbtab := (rwbtab s)(rwb := (rwbtab s rwb)
     \<lparr>rwcount := rwcount (rwbtab s rwb) + (if rwbflags s p = -1 then 1 else -1)\<rparr>)\<rparr>"

lemma rwb_left_fields [simp]:
  "proctab (rwb_left p rwb s) = proctab s" "queuetab (rwb_left p rwb s) = queuetab s" "currpid (rwb_left p rwb s) = currpid s"
  "nextqid (rwb_left p rwb s) = nextqid s" "readylist (rwb_left p rwb s) = readylist s" "ndefers (rwb_left p rwb s) = ndefers s"
  by (simp_all add: rwb_left_def)

lemma kcore_left: "kcore (rwb_left p rwb s) = kcore s"
  by (simp add: rwb_left_def kcore_def fun_eq_iff)

lemma signalrwb_end_ok: "0 \<le> p \<Longrightarrow> p < 100 \<Longrightarrow> signalrwb_end me p s =
    Some (deliver me OK (s\<lparr>proctab := (proctab s)(p := (proctab s p)\<lparr>prsem := -1\<rparr>)\<rparr>))"
  by (simp add: signalrwb_end_def)

lemma kinv_prsem:
  assumes "kinv s Q" "prstate (proctab s p) \<noteq> PR_WAIT"
  shows "kinv (s\<lparr>proctab := (proctab s)(p := (proctab s p)\<lparr>prsem := v\<rparr>)\<rparr>) Q"
proof -
  define s' where "s' = s\<lparr>proctab := (proctab s)(p := (proctab s p)\<lparr>prsem := v\<rparr>)\<rparr>"
  have pq: "pqueue s' = pqueue s"
    using assms(2) by (rule_tac ext) (auto simp: s'_def pqueue_def pq_def split: pstate.splits)
  have q: "qid_of s' = qid_of s" by (rule ext) (rename_tac n, case_tac n; simp add: s'_def)
  have f: "envtab s' = envtab s" "queuetab s' = queuetab s" "nextqid s' = nextqid s" "currpid s' = currpid s"
    "readylist s' = readylist s" "sleepq s' = sleepq s" "scratchlist s' = scratchlist s" by (simp_all add: s'_def)
  have st: "prstate (proctab s' n) = prstate (proctab s n)" for n by (simp add: s'_def)
  have w: "wait_ok (proctab s' n) = wait_ok (proctab s n)" for n using assms(2) by (simp add: s'_def wait_ok_def)
  have "kgen s' Q W = kgen s Q W" for W unfolding kgen_def layout_def sched_ok_def q f st w by (rule refl)
  then show ?thesis using assms(1) unfolding kinv_def kpre_def s'_def [symmetric] pq st f by simp
qed

lemma signal_nobody:
  assumes inv: "kinv s Q" and i: "0 \<le> rwb" "rwb < 10" and u: "rwstate (rwbtab s rwb) = S_USED"
    and p: "\<not> isbadpid s p" and c: "in_s32 (rwcount (rwbtab s rwb) + (if rwbflags s p = -1 then 1 else -1))"
    and e: "Q (rwqueue (rwbtab s rwb)) = []"
  shows "signalrwb_for p rwb s = Some (deliver (currpid s) OK
    ((rwb_left p rwb s)\<lparr>proctab := (proctab s)(p := (proctab s p)\<lparr>prsem := -1\<rparr>)\<rparr>))"
proof -
  define t where "t = rwb_left p rwb s"
  have pb: "0 \<le> p" "p < 100" using p by (simp_all add: isbadpid_def)
  have invt: "kinv t Q" using kinv_core [OF kcore_left] inv by (simp add: t_def)
  have q: "rwqueue (rwbtab s rwb) \<in> qids (nextqid t)"
    using layout_rwb [OF kpreD(1) [OF kinv_kpre [OF inv]], of rwb] i by (simp add: t_def)
  have em: "isempty (rwqueue (rwbtab s rwb)) t = Some True"
    using isempty_ok [OF kpreD(3) [OF kinv_kpre [OF invt]] q] e by simp
  define d :: int where "d = (if rwbflags s p = -1 then 1 else -1)"
  have ac: "add_rwcount rwb d (s\<lparr>rwbflags := (rwbflags s)(p := 0)\<rparr>) = Some t"
    using i c by (simp add: t_def rwb_left_def d_def [symmetric])
  have re: "rwbent rwb t = Some (rwbtab t rwb)" using i by (simp add: rwbent_def)
  have tq: "rwqueue (rwbtab t rwb) = rwqueue (rwbtab s rwb)" "currpid t = currpid s" "proctab t = proctab s" by (simp_all add: t_def rwb_left_def)
  have b: "\<not> isbadrwb s rwb" using i u by (simp add: isbadrwb_iff)
  have fl: "set_flag p 0 s = Some (s\<lparr>rwbflags := (rwbflags s)(p := 0)\<rparr>)" using pb by (simp add: set_flag_def)
  show ?thesis
    unfolding signalrwb_for_def Let_def d_def [symmetric] t_def [symmetric]
    using b p fl ac re tq em by (simp add: signalrwb_end_ok pb del: add_rwcount_Some)
qed

text \<open>
  A writer waits at the head and the last holder leaves.  The writer is made ready first
  and counted afterwards: when it runs at once, the count is still zero.
\<close>

lemma signal_writer:
  assumes inv: "kinv s Q" and i: "0 \<le> rwb" "rwb < 10" and u: "rwstate (rwbtab s rwb) = S_USED"
    and p: "\<not> isbadpid s p" and c: "rwcount (rwbtab s rwb) + (if rwbflags s p = -1 then 1 else -1) = 0"
    and qc: "in_s32 (qcount (rwbtab s rwb) - 1)"
    and e: "Q (rwqueue (rwbtab s rwb)) = w # ws" and wf: "w \<noteq> p" "rwbflags s w = -1"
  shows "\<exists>s' Q'. signalrwb_for p rwb s = Some s' \<and> qframe s (Q(rwqueue (rwbtab s rwb) := ws)) s' Q' \<and>
    (if currpid s' = currpid s then rwcount (rwbtab s' rwb) = -1 \<and> kret s' (currpid s) = OK
     else kinv s' Q' \<and> rwcount (rwbtab s' rwb) = 0 \<and> kcont s' (currpid s) = kcont s (currpid s) @ [KRwbWriter p rwb])"
proof -
  define t where "t = rwb_left p rwb s"
  define q where "q = rwqueue (rwbtab s rwb)"
  define u where "u = t\<lparr>rwbtab := (rwbtab t)(rwb := (rwbtab t rwb)\<lparr>qcount := qcount (rwbtab t rwb) + -1\<rparr>)\<rparr>"
  have pb: "0 \<le> p" "p < 100" using p by (simp_all add: isbadpid_def)
  have ct: "kcore t = kcore s" by (simp add: t_def kcore_left)
  have cu: "kcore u = kcore s" unfolding ct [symmetric] u_def by (rule kcore_rwbtab) simp
  have invt: "kinv t Q" and invu: "kinv u Q" using kinv_core [OF ct] kinv_core [OF cu] inv by simp_all
  have L: "layout s" using kpreD(1) [OF kinv_kpre [OF inv]] .
  have qq: "q \<in> qids (nextqid s)" "q \<noteq> readylist s"
    using layout_rwb [OF L, of rwb] layout_apart(7) [OF L, of rwb] i by (simp_all add: q_def)
  have qt: "q \<in> qids (nextqid t)" "q \<in> qids (nextqid u)" "q \<noteq> readylist u"
    using qq kcoreD(2,5) [OF ct] kcoreD(2,5) [OF cu] by simp_all
  have em: "isempty q t = Some False" "firstid q t = Some w"
    using isempty_ok [OF kpreD(3) [OF kinv_kpre [OF invt]] qt(1)] firstid_ok [OF kpreD(3) [OF kinv_kpre [OF invt]] qt(1)] e
    by (simp_all add: q_def)
  have wm: "0 \<le> w" "w < 100" "pqueue s w = Some q"
    using qrel_member [OF kpreD(3) [OF kinv_kpre [OF inv]] qq(1), of w] e by (simp_all add: q_def)
  then have wb: "\<not> isbadpid t w" by (auto simp: t_def isbadpid_def pqueue_def pq_def)
  obtain qt' s1 Q1 where g: "dequeue q u = Some (w, u\<lparr>queuetab := qt'\<rparr>)" "ready w (u\<lparr>queuetab := qt'\<rparr>) = Some (OK, s1)"
    and st: "settled (mkst PR_READY w u) (Q(q := ws)) s1 Q1"
    using release_head(1) [OF invu qt(2,3)] e by (auto simp: q_def)
  define d :: int where "d = (if rwbflags s p = -1 then 1 else -1)"
  have ac: "add_rwcount rwb d (s\<lparr>rwbflags := (rwbflags s)(p := 0)\<rparr>) = Some t"
    using i c by (simp add: t_def rwb_left_def d_def [symmetric] in_s32_def)
  have tr: "rwcount (rwbtab t rwb) = 0" "qcount (rwbtab t rwb) = qcount (rwbtab s rwb)" "rwqueue (rwbtab t rwb) = q"
    "currpid t = currpid s" "rwbflags t w = -1"
    using c wf by (simp_all add: t_def rwb_left_def q_def d_def)
  have re: "rwbent rwb t = Some (rwbtab t rwb)" using i by (simp add: rwbent_def)
  have aq: "add_qcount rwb (-1) t = Some u" using i qc tr(2) by (simp add: u_def)
  have b: "\<not> isbadrwb s rwb" using i u by (simp add: isbadrwb_iff)
  have run: "signalrwb_for p rwb s = after (currpid s) (KRwbWriter p rwb) (rwb_writer_in (currpid s) p rwb) s1"
    unfolding signalrwb_for_def Let_def d_def [symmetric]
    using b p pb ac re tr em wb aq g by (simp del: add_rwcount_Some add_qcount_Some)
  note F = sframeD [OF settledD(2) [OF st]]
  have r1: "rwbtab s1 = rwbtab u" "kcont s1 = kcont s"
    using F by (simp_all add: u_def t_def rwb_left_def)
  have r0: "rwcount (rwbtab s1 rwb) = 0" using r1(1) tr(1) by (simp add: u_def)
  have qs: "queuetab u = queuetab s" "nextqid u = nextqid s" "readylist u = readylist s" using kcoreD(1,2,5) [OF cu] by simp_all
  have fr: "qframe s (Q(q := ws)) s1 Q1"
    using settledD(3) [OF st] qs by (simp add: qframe_def)
  show ?thesis
  proof (cases "currpid s1 = currpid s")
    case True
    define s2 where "s2 = s1\<lparr>rwbtab := (rwbtab s1)(rwb := (rwbtab s1 rwb)\<lparr>rwcount := -1\<rparr>)\<rparr>"
    have "add_rwcount rwb (-1) s1 = Some s2" using i r0 by (simp add: in_s32_def s2_def)
    define v where "v = deliver (currpid s) OK (s2\<lparr>proctab := (proctab s2)(p := (proctab s2 p)\<lparr>prsem := -1\<rparr>)\<rparr>)"
    have r: "signalrwb_for p rwb s = Some v" unfolding v_def
      using \<open>add_rwcount rwb (-1) s1 = Some s2\<close> run True by (simp add: after_def rwb_writer_in_def signalrwb_end_ok pb del: add_rwcount_Some)
    have vf: "queuetab v = queuetab s1" "currpid v = currpid s" "rwcount (rwbtab v rwb) = -1" "kret v (currpid s) = 1"
      using True by (simp_all add: v_def s2_def deliver_def)
    have "qframe s (Q(q := ws)) v Q1" using fr by (simp add: qframe_def vf)
    then show ?thesis unfolding q_def [symmetric] using r vf by (intro exI [of _ v] exI [of _ Q1]) simp
  next
    case False
    define v where "v = s1\<lparr>kcont := (kcont s1)(currpid s := kcont s1 (currpid s) @ [KRwbWriter p rwb])\<rparr>"
    have r: "signalrwb_for p rwb s = Some v" using run False by (simp add: after_def v_def)
    have vf: "queuetab v = queuetab s1" "currpid v = currpid s1" "rwcount (rwbtab v rwb) = 0"
      "kcont v (currpid s) = kcont s (currpid s) @ [KRwbWriter p rwb]"
      using r0 r1(2) by (simp_all add: v_def)
    have "kinv v Q1" using settledD(1) [OF st] by (simp add: v_def)
    moreover have "qframe s (Q(q := ws)) v Q1" using fr by (simp add: qframe_def vf)
    ultimately show ?thesis unfolding q_def [symmetric] using r vf False by (intro exI [of _ v] exI [of _ Q1]) simp
  qed
qed

section \<open>Resetting\<close>

lemma rwbreset_loop_ok:
  assumes "qrel (queuetab s) n Q W" "q \<in> qids n" "0 \<le> rwb" "rwb < 10"
    "in_s32 (qcount (rwbtab s rwb))" "in_s32 (qcount (rwbtab s rwb) - int (length (Q q)))"
  shows "\<exists>t W'. rwbreset_loop rwb q s = Some (EMPTY, s\<lparr>queuetab := t, rwbtab := (rwbtab s)(rwb := (rwbtab s rwb)
      \<lparr>qcount := qcount (rwbtab s rwb) - int (length (Q q))\<rparr>)\<rparr>) \<and> qrel t n (Q(q := [])) W'"
  using assms
proof (induction "Q q" arbitrary: s Q W)
  case Nil
  then have "getfirst q s = Some (EMPTY, s)" using getfirst_ok(1) [OF Nil(2,3)] by simp
  then have "rwbreset_loop rwb q s = Some (EMPTY, s)" by (subst rwbreset_loop.simps) simp
  moreover have "Q(q := []) = Q" using Nil(1) by (simp add: fun_upd_idem)
  ultimately show ?case using Nil(1) [symmetric] Nil(2) by (intro exI [of _ "queuetab s"] exI [of _ W]) simp
next
  case (Cons p zs)
  obtain t where g: "getfirst q s = Some (p, s\<lparr>queuetab := t\<rparr>)" and r: "qrel t n (Q(q := zs)) (W(p := None))"
    using getfirst_ok(2) [OF Cons.prems(1,2) Cons.hyps(2) [symmetric]] by blast
  have pp: "p \<noteq> -1" using qrel_member [OF Cons.prems(1,2), of p] Cons.hyps(2) [symmetric] by auto
  define s1 where "s1 = s\<lparr>queuetab := t, rwbtab := (rwbtab s)(rwb := (rwbtab s rwb)\<lparr>qcount := qcount (rwbtab s rwb) + -1\<rparr>)\<rparr>"
  have l: "length (Q q) = Suc (length zs)" by (simp add: Cons.hyps(2) [symmetric])
  have n1: "in_s32 (qcount (rwbtab s rwb) + -1)" using Cons.prems(5,6) unfolding l in_s32_def by linarith
  have st: "rwbreset_loop rwb q s = rwbreset_loop rwb q s1"
    using g pp n1 Cons.prems(3,4) by (subst rwbreset_loop.simps) (simp add: s1_def)
  have "qrel (queuetab s1) n (Q(q := zs)) (W(p := None))" "zs = (Q(q := zs)) q" using r by (simp_all add: s1_def)
  from Cons.hyps(1) [OF this(2,1) Cons.prems(2-4)] obtain t' W' where
    "rwbreset_loop rwb q s1 = Some (EMPTY, s1\<lparr>queuetab := t', rwbtab := (rwbtab s1)(rwb := (rwbtab s1 rwb)
      \<lparr>qcount := qcount (rwbtab s1 rwb) - int (length zs)\<rparr>)\<rparr>)" "qrel t' n (Q(q := [])) W'"
    using n1 Cons.prems(6) l by (auto simp: s1_def in_s32_def)
  then show ?case unfolding st l by (intro exI [of _ t'] exI [of _ W']) (simp add: s1_def algebra_simps)
qed

text \<open>Every waiter is taken off the queue, and none is made ready.\<close>

lemma rwbreset_ok:
  assumes inv: "kinv s Q" and nd: "ndefers s = 0" and i: "0 \<le> rwb" "rwb < 10" and u: "rwstate (rwbtab s rwb) = S_USED"
    and c: "0 \<le> count" and qc: "in_s32 (qcount (rwbtab s rwb))" "in_s32 (qcount (rwbtab s rwb) - int (length (Q (rwqueue (rwbtab s rwb)))))"
  shows "\<exists>s' W. rwbreset rwb count s = Some (OK, s') \<and> rwcount (rwbtab s' rwb) = count \<and> proctab s' = proctab s
    \<and> readylist s' = readylist s \<and> qrel (queuetab s') (nextqid s) (Q(rwqueue (rwbtab s rwb) := [])) W"
proof -
  define q where "q = rwqueue (rwbtab s rwb)"
  define s0 where "s0 = s\<lparr>ndefers := 1, attempt := False\<rparr>"
  have rel: "qrel (queuetab s0) (nextqid s) Q (pqueue s)" using kpreD(3) [OF kinv_kpre [OF inv]] by (simp add: s0_def)
  have qq: "q \<in> qids (nextqid s)" using layout_rwb [OF kpreD(1) [OF kinv_kpre [OF inv]], of rwb] i by (simp add: q_def)
  have st: "resched_cntl 1 s = Some (OK, s0)" using nd by (simp add: resched_cntl_def s0_def)
  obtain t W where lp: "rwbreset_loop rwb q s0 = Some (EMPTY, s0\<lparr>queuetab := t, rwbtab := (rwbtab s0)(rwb := (rwbtab s0 rwb)
      \<lparr>qcount := qcount (rwbtab s0 rwb) - int (length (Q q))\<rparr>)\<rparr>)" and r: "qrel t (nextqid s) (Q(q := [])) W"
    using rwbreset_loop_ok [OF rel qq i] qc by (auto simp: s0_def q_def)
  have b: "\<not> isbadrwb s rwb" using i u by (simp add: isbadrwb_iff)
  have "\<exists>s'. rwbreset rwb count s = Some (OK, s') \<and> rwcount (rwbtab s' rwb) = count \<and> proctab s' = proctab s
      \<and> readylist s' = readylist s \<and> queuetab s' = t"
    using c b i st lp by (simp add: rwbreset_def q_def [symmetric] isbadpid_def resched_cntl_def) (simp add: s0_def)
  then show ?thesis using r by (auto simp: q_def)
qed

end
