(* ===== verification/Clock.thy ===== *)
theory Clock
  imports SchedOps
begin

text \<open>
  Delays: \<open>system/sleep.c\<close>, \<open>system/unsleep.c\<close>, \<open>system/wakeup.c\<close> and
  \<open>system/clkhandler.c\<close>.  The sleep queue stores differences; the lemmas speak of the
  wake-up times \<open>wake\<close> these differences stand for, and show that sleeping, waking early
  and the clock tick do to the wake-up times what they should.
\<close>

section \<open>The operations\<close>

definition unsleep :: "int \<Rightarrow> kernel \<Rightarrow> (int \<times> kernel) option" where
  "unsleep pid s =
     (if isbadpid s pid then Some (SYSERR, s)
      else if prstate (proctab s pid) \<noteq> PR_SLEEP \<and> prstate (proctab s pid) \<noteq> PR_RECTIM then Some (SYSERR, s)
      else do {
        e \<leftarrow> qent (queuetab s) pid;
        let pidnext = qnext e;
        s \<leftarrow> (if pidnext < NPROC then do {
                n \<leftarrow> qent (queuetab s) pidnext;
                k \<leftarrow> chk32 (qkey n + qkey e);
                t \<leftarrow> set_key pidnext k (queuetab s);
                Some (s\<lparr>queuetab := t\<rparr>)
              } else Some s);
        (_, s) \<leftarrow> getitem pid s;
        Some (OK, s)
      })"

definition sleepms :: "int \<Rightarrow> kernel \<Rightarrow> (int \<times> kernel) option" where
  "sleepms delay s =
     (if delay = 0 then do { (_, s) \<leftarrow> yield s; Some (OK, s) }
      else do {
        (r, s) \<leftarrow> insertd (currpid s) (sleepq s) (s32 delay) s;
        if r = SYSERR then Some (SYSERR, s)
        else do {
          (_, s) \<leftarrow> record_cpuqdata (currpid s) s;
          s \<leftarrow> set_state (currpid s) PR_SLEEP s;
          s \<leftarrow> resched s;
          Some (OK, s)
        }
      })"

abbreviation (input) MAXSECONDS :: int where "MAXSECONDS \<equiv> 4294967"

definition sleep :: "int \<Rightarrow> kernel \<Rightarrow> (int \<times> kernel) option" where
  "sleep delay s =
     (if delay > MAXSECONDS then Some (SYSERR, s)
      else do { (_, s) \<leftarrow> sleepms (u32 (1000 * delay)) s; Some (OK, s) })"

partial_function (option) wakeup_loop :: "kernel \<Rightarrow> kernel option" where
  "wakeup_loop s = do {
     emp \<leftarrow> isempty (sleepq s) s;
     if emp then Some s
     else do {
       k \<leftarrow> firstkey (sleepq s) s;
       if k \<le> 0 then do {
         (pid, s) \<leftarrow> dequeue (sleepq s) s;
         (_, s) \<leftarrow> ready pid s;
         wakeup_loop s
       } else Some s
     }
   }"

definition wakeup :: "kernel \<Rightarrow> kernel option" where
  "wakeup s = do {
     (_, s) \<leftarrow> resched_cntl DEFER_START s;
     s \<leftarrow> wakeup_loop s;
     (_, s) \<leftarrow> resched_cntl DEFER_STOP s;
     Some s
   }"

text \<open>
  The argument is the overflow flag of the timer, read from the device; acknowledging the
  interrupt is a write to the device.  The debugging output of \<open>EV_DTIMER\<close> is left out.
  When \<open>wakeup\<close> gives the processor to a process it made ready, the end of the handler
  (\<open>clk_rest\<close>: count the quantum down, reschedule when it is over) is what the interrupted process
  resumes with.
\<close>

definition clk_rest :: "kernel \<Rightarrow> kernel option" where
  "clk_rest s =
     (let s = s\<lparr>preempt := u32 (preempt s - 1)\<rparr>
      in if preempt s = 0 then resched (s\<lparr>preempt := QUANTUM\<rparr>) else Some s)"

definition clkhandler :: "bool \<Rightarrow> kernel \<Rightarrow> kernel option" where
  "clkhandler ovf s =
     (let me = currpid s in
      if \<not> ovf then Some s
      else do {
        let s = s\<lparr>count1000 := u32 (count1000 s - 1)\<rparr>;
        let s = (if count1000 s = 0 then s\<lparr>clktime := u32 (clktime s + 1), count1000 := 1000\<rparr> else s);
        let s = s\<lparr>clktimems := True\<rparr>;
        emp \<leftarrow> isempty (sleepq s) s;
        s \<leftarrow> (if \<not> emp then do {
                f \<leftarrow> firstid (sleepq s) s;
                e \<leftarrow> qent (queuetab s) f;
                k \<leftarrow> chk32 (qkey e - 1);
                t \<leftarrow> set_key f k (queuetab s);
                let s = s\<lparr>queuetab := t\<rparr>;
                if k = 0 then wakeup s else Some s
              } else Some s);
        after me KClock clk_rest s
      })"

section \<open>Keys of linked processes\<close>

lemma qrel_key:
  assumes rel: "qrel t n Q W" and l: "\<And>x. qnext (t' x) = qnext (t x)" "\<And>x. qprev (t' x) = qprev (t x)"
    and k: "\<And>x. 100 \<le> x \<Longrightarrow> qkey (t' x) = qkey (t x)"
  shows "qrel t' n Q W"
  unfolding qrel_def
proof (intro conjI ballI)
  show "n \<le> 328" "even n" using rel by (auto simp: qrel_def)
  fix r assume r: "r \<in> qids n"
  note R = qrelD [OF rel r]
  show "distinct (Q r)" "\<forall>p. p \<in> set (Q r) \<longleftrightarrow> 0 \<le> p \<and> p < 100 \<and> W p = Some r" using R(2,3) by simp_all
  have "isq t' r (Q r) = isq t r (Q r)" by (rule isq_cong) (use l k R(4) in simp_all)
  then show "isq t' r (Q r)" using R(1) by simp
qed

lemma ksum_cong: "(\<And>x. x \<in> set xs \<Longrightarrow> k' x = k x) \<Longrightarrow> ksum k' xs = ksum k xs"
  by (simp cong: map_cong)

lemma skeysD: "skeys t xs \<Longrightarrow> x \<in> set xs \<Longrightarrow> 0 \<le> qkey (t x)" "skeys t xs \<Longrightarrow> ksum (\<lambda>x. qkey (t x)) xs < 2 ^ 31"
  by (simp_all add: skeys_def)

lemma ksum_nonneg: "skeys t xs \<Longrightarrow> 0 \<le> ksum (\<lambda>x. qkey (t x)) xs"
  by (auto simp: skeys_def intro!: sum_list_nonneg)

section \<open>unsleep\<close>

lemma unsleep_bad:
  "isbadpid s pid \<or> (prstate (proctab s pid) \<noteq> PR_SLEEP \<and> prstate (proctab s pid) \<noteq> PR_RECTIM) \<Longrightarrow>
   unsleep pid s = Some (SYSERR, s)"
  by (auto simp: unsleep_def)

lemma skeys_unsleep:
  assumes sk: "skeys t (ys @ p # zs)" and d: "distinct (ys @ p # zs)"
    and k: "\<And>x. x \<in> set (ys @ zs) \<Longrightarrow> qkey (t' x) = (if zs \<noteq> [] \<and> x = hd zs then qkey (t x) + qkey (t p) else qkey (t x))"
  shows "skeys t' (ys @ zs)"
proof -
  have p0: "0 \<le> qkey (t p)" using skeysD(1) [OF sk] by simp
  have ys: "qkey (t' x) = qkey (t x)" if "x \<in> set ys" for x using that k [of x] d by (cases zs) auto
  have sy: "ksum (\<lambda>x. qkey (t' x)) ys = ksum (\<lambda>x. qkey (t x)) ys" using ys by (rule ksum_cong)
  have sz: "ksum (\<lambda>x. qkey (t' x)) zs \<le> qkey (t p) + ksum (\<lambda>x. qkey (t x)) zs"
  proof (cases zs)
    case (Cons z zs')
    have "qkey (t' x) = qkey (t x)" if "x \<in> set zs'" for x using that k [of x] d Cons by auto
    then have "ksum (\<lambda>x. qkey (t' x)) zs' = ksum (\<lambda>x. qkey (t x)) zs'" by (rule ksum_cong)
    then show ?thesis using k [of z] Cons by simp
  qed (use p0 in simp)
  have nn: "\<forall>x\<in>set (ys @ zs). 0 \<le> qkey (t' x)" using k skeysD(1) [OF sk] p0 by auto
  have "ksum (\<lambda>x. qkey (t' x)) (ys @ zs) = ksum (\<lambda>x. qkey (t x)) ys + ksum (\<lambda>x. qkey (t' x)) zs"
    using sy by simp
  also have "\<dots> \<le> ksum (\<lambda>x. qkey (t x)) (ys @ p # zs)" using sz by simp
  also have "\<dots> < 2 ^ 31" using skeysD(2) [OF sk] .
  finally show ?thesis using nn unfolding skeys_def by blast
qed

lemma unsleep_ok:
  assumes pre: "kpre s Q" and nb: "\<not> isbadpid s pid"
    and st: "prstate (proctab s pid) = PR_SLEEP \<or> prstate (proctab s pid) = PR_RECTIM"
  shows "\<exists>t ys zs. unsleep pid s = Some (OK, s\<lparr>queuetab := t\<rparr>) \<and> Q (sleepq s) = ys @ pid # zs
    \<and> kout pid (s\<lparr>queuetab := t\<rparr>) (Q(sleepq s := ys @ zs))
    \<and> (\<forall>x. qkey (t x) = (if zs \<noteq> [] \<and> x = hd zs then keyof s x + keyof s pid else keyof s x))"
proof -
  note P = kpreD [OF pre]
  have pb: "0 \<le> pid" "pid < 100" using nb by (simp_all add: isbadpid_def)
  note sq = layout_sleep [OF P(1)]
  have pq: "pqueue s pid = Some (sleepq s)" using st by (auto simp: pqueue_def pq_def)
  obtain ys zs where L: "Q (sleepq s) = ys @ pid # zs" by (rule kpre_linked [OF pre pb pq sq])
  note D = qrelD [OF P(3) sq]
  have dist: "distinct (ys @ pid # zs)" using D(2) L by simp
  have nx: "qnext (queuetab s pid) = hd (zs @ [sleepq s + 1])"
    using qrel_qnext_bounds(6) [OF P(3) sq L] .
  have sk: "skeys (queuetab s) (ys @ pid # zs)" using P(11) L by simp
  define t1 where "t1 = (if zs = [] then queuetab s else
    (queuetab s)(hd zs := (queuetab s (hd zs))\<lparr>qkey := keyof s (hd zs) + keyof s pid\<rparr>))"
  have hz: "0 \<le> hd zs \<and> hd zs < 100 \<and> hd zs \<noteq> pid" if "zs \<noteq> []"
    using that L dist qrel_member [OF P(3) sq, of "hd zs"] by (cases zs) auto
  have sum: "in_s32 (keyof s (hd zs) + keyof s pid)" if ne: "zs \<noteq> []"
  proof -
    obtain z zs' where z: "zs = z # zs'" using ne by (cases zs) auto
    have "0 \<le> ksum (keyof s) ys" "0 \<le> ksum (keyof s) zs'" "0 \<le> keyof s z" "0 \<le> keyof s pid"
      using sk z by (auto simp: skeys_def intro!: sum_list_nonneg)
    moreover have "ksum (keyof s) ys + (keyof s pid + (keyof s z + ksum (keyof s) zs')) < 2 ^ 31"
      using skeysD(2) [OF sk] z by simp
    ultimately show ?thesis using z by (simp add: in_s32_def)
  qed
  define s1 where "s1 = s\<lparr>queuetab := t1\<rparr>"
  have rel1: "qrel (queuetab s1) (nextqid s) Q (pqueue s)"
    by (rule qrel_key [OF P(3)]) (use hz in \<open>auto simp: t1_def s1_def\<close>)
  obtain t where g: "getitem pid s1 = Some (pid, s1\<lparr>queuetab := t\<rparr>)"
    and rel: "qrel t (nextqid s) (Q(sleepq s := ys @ zs)) ((pqueue s)(pid := None))"
    and kt: "\<forall>x. qkey (t x) = keyof s1 x"
    using getitem_ok [OF rel1 sq L] by blast
  have run: "unsleep pid s = Some (OK, s\<lparr>queuetab := t\<rparr>)"
  proof (cases zs)
    case Nil
    then have "s1 = s" by (simp add: s1_def t1_def)
    then show ?thesis using Nil nb st pb nx D(4) g by (auto simp: unsleep_def Let_def s1_def)
  next
    case (Cons z zs')
    then have "t1 = (queuetab s)(z := (queuetab s z)\<lparr>qkey := keyof s z + keyof s pid\<rparr>)" by (simp add: t1_def)
    then show ?thesis using Cons nb st pb nx hz sum g by (auto simp: unsleep_def Let_def s1_def)
  qed
  have key: "qkey (t x) = (if zs \<noteq> [] \<and> x = hd zs then keyof s x + keyof s pid else keyof s x)" for x
    using kt by (simp add: s1_def t1_def)
  have off: "keyof s1 x = keyof s x" if "r \<in> qids (nextqid s)" "r \<noteq> sleepq s" "x \<in> set (Q r)" for r x
  proof -
    note r = that
    have "x \<noteq> hd zs" if ne: "zs \<noteq> []"
    proof -
      have "pqueue s (hd zs) = Some (sleepq s)" using qrel_member [OF P(3) sq, of "hd zs"] L ne by simp
      moreover have "pqueue s x = Some r" using qrel_member [OF P(3) r(1,3)] by simp
      ultimately show ?thesis using r(2) by auto
    qed
    then show ?thesis by (simp add: s1_def t1_def)
  qed
  have "kgen (s\<lparr>queuetab := t\<rparr>) (Q(sleepq s := ys @ zs)) ((pqueue s)(pid := None))"
  proof (rule kgen_queuetab [OF pre [unfolded kpre_def] rel])
    have "qkey (t x) = keyof s x" if "x \<in> set (Q (readylist s))" for x
      using off [OF layout_ready [OF P(1)] _ that] layout_apart(1) [OF P(1)] kt by simp
    then show "desc (\<lambda>x. qkey (t x)) ((Q(sleepq s := ys @ zs)) (readylist s))"
      using P(9) desc_cong [of "Q (readylist s)" "\<lambda>x. qkey (t x)" "keyof s"] layout_apart(1) [OF P(1)] by simp
    show "skeys t ((Q(sleepq s := ys @ zs)) (sleepq s))"
      using skeys_unsleep [OF sk dist, of t] key by simp
    show "(Q(sleepq s := ys @ zs)) (scratchlist s) = []" using P(10) layout_apart(3) [OF P(1)] by simp
  qed
  then have "kout pid (s\<lparr>queuetab := t\<rparr>) (Q(sleepq s := ys @ zs))" by (simp add: kout_def)
  then show ?thesis using run L key by blast
qed

section \<open>Going to sleep\<close>

lemma ksum_append: "ksum k (xs @ ys) = ksum k xs + ksum k ys"
  by simp

lemma insertd_sleep:
  assumes inv: "kinv s Q" and d: "0 \<le> key" "key < 2 ^ 31"
  defines "k \<equiv> keyof s" and "L \<equiv> Q (sleepq s)"
  shows "\<exists>t. insertd (currpid s) (sleepq s) key s = Some (OK, s\<lparr>queuetab := t\<rparr>)
    \<and> kgen (s\<lparr>queuetab := t\<rparr>) (Q(sleepq s := dtake k key L @ currpid s # drest k key L))
        ((pqueue s)(currpid s := Some (sleepq s)))
    \<and> wake (\<lambda>x. qkey (t x)) 0 (dtake k key L @ currpid s # drest k key L) =
        takeWhile (\<lambda>(_, w). w \<le> key) (wake k 0 L) @ (currpid s, key) # dropWhile (\<lambda>(_, w). w \<le> key) (wake k 0 L)
    \<and> (\<forall>x. x \<notin> insert (currpid s) (set L) \<longrightarrow> qkey (t x) = k x)"
proof -
  let ?c = "currpid s"
  have pre: "kpre s Q" and cur: "prstate (proctab s ?c) = PR_CURR" using inv by (simp_all add: kinv_def)
  note P = kpreD [OF pre]
  note sq = layout_sleep [OF P(1)]
  have W: "pqueue s ?c = None" using cur by (simp add: pqueue_def pq_def)
  have nb: "\<not> isbadpid s ?c" using P(4,5) cur by (simp add: isbadpid_def)
  have sk: "skeys (queuetab s) L" using P(11) by (simp add: L_def)
  have dist: "distinct L" using qrelD(2) [OF P(3) sq] by (simp add: L_def)
  have notin: "?c \<notin> set (Q q)" if "q \<in> qids (nextqid s)" for q
    using qrel_member [OF P(3) that, of ?c] W by auto
  then have nL: "?c \<notin> set L" using sq by (simp add: L_def)
  define ys zs where "ys = dtake k key L" and "zs = drest k key L"
  have Lsp: "L = ys @ zs" by (simp add: ys_def zs_def dtake_drest)
  obtain t where i: "insertd ?c (sleepq s) key s = Some (OK, s\<lparr>queuetab := t\<rparr>)"
    and rel: "qrel t (nextqid s) (Q(sleepq s := ys @ ?c # zs)) ((pqueue s)(?c := Some (sleepq s)))"
    and key: "\<And>x. qkey (t x) = (if x = ?c then key - ksum k ys
          else if zs \<noteq> [] \<and> x = hd zs then k x - (key - ksum k ys) else k x)"
    using insertd_ok [OF P(3) sq nb W skeys_dkeys [OF P(11)] d] unfolding ys_def zs_def k_def L_def by blast
  have left: "0 \<le> key - ksum k ys" unfolding ys_def by (rule dtake_left [OF d(1)])
  have kys: "qkey (t x) = k x" if "x \<in> set ys" for x
    using key [of x] that dist nL Lsp by (cases zs) auto
  have sy: "ksum (\<lambda>x. qkey (t x)) ys = ksum k ys" using kys by (rule ksum_cong)
  have new: "skeys t (ys @ ?c # zs)"
  proof (cases zs)
    case Nil
    have "\<forall>x\<in>set (ys @ ?c # zs). 0 \<le> qkey (t x)"
      using Nil left key [of ?c] kys skeysD(1) [OF sk] Lsp by (auto simp: k_def)
    moreover have "ksum (\<lambda>x. qkey (t x)) (ys @ ?c # zs) = key" using Nil sy key [of ?c] by simp
    ultimately show ?thesis using d unfolding skeys_def by simp
  next
    case (Cons z zs')
    have zc: "z \<noteq> ?c" using nL Lsp Cons by auto
    have kz: "qkey (t z) = k z - (key - ksum k ys)" using key [of z] Cons zc by simp
    have kz': "qkey (t x) = k x" if "x \<in> set zs'" for x
      using key [of x] that dist nL Lsp Cons by auto
    then have sz': "ksum (\<lambda>x. qkey (t x)) zs' = ksum k zs'" by (rule ksum_cong)
    have "key - ksum k ys < k z" using drest_less [of k key L z zs'] Cons by (simp add: ys_def zs_def)
    then have "\<forall>x\<in>set (ys @ ?c # zs). 0 \<le> qkey (t x)"
      using Cons left key [of ?c] kys kz kz' skeysD(1) [OF sk] Lsp by (auto simp: k_def)
    moreover have "ksum (\<lambda>x. qkey (t x)) (ys @ ?c # zs) = ksum k L"
      using Cons sy key [of ?c] kz sz' Lsp by simp
    ultimately show ?thesis using skeysD(2) [OF sk] unfolding skeys_def k_def by simp
  qed
  have off: "qkey (t x) = k x" if "x \<notin> insert ?c (set L)" for x
    using key [of x] that Lsp by (cases zs) auto
  have "kgen (s\<lparr>queuetab := t\<rparr>) (Q(sleepq s := ys @ ?c # zs)) ((pqueue s)(?c := Some (sleepq s)))"
  proof (rule kgen_queuetab [OF pre [unfolded kpre_def] rel])
    note A = layout_apart [OF P(1)]
    have "qkey (t x) = keyof s x" if x: "x \<in> set (Q (readylist s))" for x
    proof -
      have "pqueue s x = Some (readylist s)" using qrel_member [OF P(3) layout_ready [OF P(1)] x] by simp
      then have "x \<notin> set L" using qrel_member [OF P(3) sq, of x] A(1) by (auto simp: L_def)
      then show ?thesis using off [of x] notin [OF layout_ready [OF P(1)]] x by (auto simp: k_def)
    qed
    then show "desc (\<lambda>x. qkey (t x)) ((Q(sleepq s := ys @ ?c # zs)) (readylist s))"
      using P(9) desc_cong [of "Q (readylist s)" "\<lambda>x. qkey (t x)" "keyof s"] A(1) by simp
    show "skeys t ((Q(sleepq s := ys @ ?c # zs)) (sleepq s))" using new by simp
    show "(Q(sleepq s := ys @ ?c # zs)) (scratchlist s) = []" using P(10) A(3) by simp
  qed
  moreover have "wake (\<lambda>x. qkey (t x)) 0 (ys @ ?c # zs) =
      takeWhile (\<lambda>(_, w). w \<le> key) (wake k 0 L) @ (?c, key) # dropWhile (\<lambda>(_, w). w \<le> key) (wake k 0 L)"
    unfolding ys_def zs_def by (rule wake_insertd [OF dist nL]) (simp add: key ys_def zs_def)
  ultimately show ?thesis using i off unfolding ys_def zs_def by blast
qed

text \<open>The sleeping processes with the time after which each of them wakes up.\<close>

definition sleepers :: "kernel \<Rightarrow> (int \<Rightarrow> int list) \<Rightarrow> (int \<times> int) list" where
  "sleepers s Q = wake (keyof s) 0 (Q (sleepq s))"

lemma sleepers_settled:
  assumes "settled t R s' Q'" shows "sleepers s' Q' = sleepers t R"
proof -
  note F = sframeD [OF settledD(2) [OF assms]] and L = kpreD(1) [OF kinv_kpre [OF settledD(1) [OF assms]]]
  have q: "sleepq t \<in> qids (nextqid t)" "sleepq t \<noteq> readylist t"
    using layout_sleep [OF L] layout_apart(1) [OF L] F by auto
  show ?thesis
    using qframeD [OF settledD(3) [OF assms] q] F by (simp add: sleepers_def) (rule wake_cong, simp)
qed

text \<open>Queueing the caller for \<open>key\<close> ticks, then leaving the processor in state \<open>st\<close>.\<close>

lemma sleep_in_ok:
  assumes inv: "kinv s Q" and np: "currpid s \<noteq> 0" and nd: "ndefers s \<le> 0"
    and d: "0 \<le> key" "key < 2 ^ 31" and st: "st = PR_SLEEP \<or> st = PR_RECTIM"
  shows "\<exists>t r s2 s' Q' R. insertd (currpid s) (sleepq s) key s = Some (OK, s\<lparr>queuetab := t\<rparr>)
    \<and> record_cpuqdata (currpid s) (s\<lparr>queuetab := t\<rparr>) = Some (r, s2) \<and> currpid s2 = currpid s
    \<and> resched (mkst st (currpid s) s2) = Some s'
    \<and> settled (mkst st (currpid s) (s\<lparr>queuetab := t\<rparr>)) (Q(sleepq s := R)) s' Q'
    \<and> sleepers s' Q' = takeWhile (\<lambda>(_, w). w \<le> key) (sleepers s Q) @ (currpid s, key)
        # dropWhile (\<lambda>(_, w). w \<le> key) (sleepers s Q)
    \<and> Q (readylist s) = currpid s' # Q' (readylist s) \<and> currpid s' \<noteq> currpid s"
proof -
  let ?c = "currpid s"
  note P = kpreD [OF kinv_kpre [OF inv]]
  define R where "R = dtake (keyof s) key (Q (sleepq s)) @ ?c # drest (keyof s) key (Q (sleepq s))"
  obtain t where i: "insertd ?c (sleepq s) key s = Some (OK, s\<lparr>queuetab := t\<rparr>)"
    and g: "kgen (s\<lparr>queuetab := t\<rparr>) (Q(sleepq s := R)) ((pqueue s)(?c := Some (sleepq s)))"
    and w: "wake (\<lambda>x. qkey (t x)) 0 R = takeWhile (\<lambda>(_, w). w \<le> key) (sleepers s Q) @ (?c, key)
        # dropWhile (\<lambda>(_, w). w \<le> key) (sleepers s Q)"
    and off: "\<And>x. x \<notin> insert ?c (set (Q (sleepq s))) \<Longrightarrow> qkey (t x) = keyof s x"
    using insertd_sleep [OF inv d] unfolding R_def sleepers_def by blast
  define s1 where "s1 = s\<lparr>queuetab := t\<rparr>"
  have so: "sched_ok s1" using P(2) by (simp add: sched_ok_def s1_def)
  obtain r s2 where rc: "record_cpuqdata ?c s1 = Some (r, s2)" and a: "aframe s1 s2"
    using record_ok [OF so] by blast
  note A = aframeD [OF a]
  have g2: "kgen s2 (Q(sleepq s := R)) ((pqueue s)(?c := Some (sleepq s)))"
    using kgen_aframe [OF a] g by (simp add: s1_def)
  note G = kgenD [OF g2]
  have F2: "currpid s2 = ?c" "readylist s2 = readylist s" "sleepq s2 = sleepq s" "scratchlist s2 = scratchlist s"
    "nextqid s2 = nextqid s" "ndefers s2 = ndefers s" "queuetab s2 = t"
    using A(2,3) sframeD [OF A(1)] by (simp_all add: s1_def)
  define s3 where "s3 = mkst st ?c s2"
  have pq2: "pqueue s2 = pqueue s" using pqueue_aframe [OF a] by (simp add: s1_def)
  have "kpre (s2\<lparr>proctab := (proctab s2)(?c := (proctab s2 ?c)\<lparr>prstate := st\<rparr>), queuetab := t\<rparr>) (Q(sleepq s := R))"
    by (rule kpre_enter [OF g2]) (use P(4,5) st np G(3,9-11) F2 in \<open>auto simp: wait_ok_def pq_def pq2\<close>)
  moreover have "s2\<lparr>proctab := (proctab s2)(?c := (proctab s2 ?c)\<lparr>prstate := st\<rparr>), queuetab := t\<rparr> = s3"
    using F2 by (simp add: s3_def mkst_def)
  ultimately have k3: "kpre s3 (Q(sleepq s := R))" by simp
  have n3: "ndefers s3 \<le> 0" "prstate (proctab s3 (currpid s3)) \<noteq> PR_CURR"
    using nd st F2 by (auto simp: s3_def)
  obtain s' rest where R: "resched s3 = Some s'" "(Q(sleepq s := R)) (readylist s3) = currpid s' # rest"
    "kinv s' (Q(sleepq s := R, readylist s3 := rest))" "sframe s3 s'" "\<forall>x. keyof s' x = keyof s3 x"
    using resched_gone [OF k3 n3] by blast
  have rl: "readylist s3 = readylist s" "readylist s \<noteq> sleepq s"
    using F2 layout_apart(1) [OF P(1)] by (simp_all add: s3_def)
  have sf: "sframe (mkst st ?c s1) s'"
    using sframe_mkst [OF A(1), of st ?c] R(4) sframe_trans unfolding s3_def by blast
  define Q' where "Q' = Q(sleepq s := R, readylist s := rest)"
  have "qframe (mkst st ?c s1) (Q(sleepq s := R)) s' Q'"
    using R(5) F2 by (intro qframe_ready) (simp_all add: s1_def s3_def Q'_def)
  then have S: "settled (mkst st ?c s1) (Q(sleepq s := R)) s' Q'"
    using R(3) rl sf by (simp add: settled_def Q'_def)
  have "sleepers s' Q' = takeWhile (\<lambda>(_, w). w \<le> key) (sleepers s Q) @ (?c, key)
        # dropWhile (\<lambda>(_, w). w \<le> key) (sleepers s Q)"
    using sleepers_settled [OF S] w by (simp add: sleepers_def s1_def)
  moreover have "Q (readylist s) = currpid s' # Q' (readylist s)" using R(2) rl by (simp add: Q'_def)
  moreover have "currpid s' \<noteq> ?c"
    using R(2) rl qrel_member [OF P(3) layout_ready [OF P(1)], of "currpid s'"] inv
    by (auto simp: kinv_def pqueue_def pq_def)
  ultimately show ?thesis using i rc R(1) S F2(1) unfolding s1_def s3_def by blast
qed

lemma sleepms_ok:
  assumes inv: "kinv s Q" and np: "currpid s \<noteq> 0" and nd: "ndefers s \<le> 0" and d: "0 < delay" "delay < 2 ^ 31"
  shows "\<exists>t R s' Q'. sleepms delay s = Some (OK, s')
    \<and> settled (mkst PR_SLEEP (currpid s) (s\<lparr>queuetab := t\<rparr>)) (Q(sleepq s := R)) s' Q'
    \<and> sleepers s' Q' = takeWhile (\<lambda>(_, w). w \<le> delay) (sleepers s Q) @ (currpid s, delay)
        # dropWhile (\<lambda>(_, w). w \<le> delay) (sleepers s Q)
    \<and> Q (readylist s) = currpid s' # Q' (readylist s)"
proof -
  obtain t r s2 s' Q' R where S: "insertd (currpid s) (sleepq s) delay s = Some (OK, s\<lparr>queuetab := t\<rparr>)"
    "record_cpuqdata (currpid s) (s\<lparr>queuetab := t\<rparr>) = Some (r, s2)" "currpid s2 = currpid s"
    "resched (mkst PR_SLEEP (currpid s) s2) = Some s'"
    "settled (mkst PR_SLEEP (currpid s) (s\<lparr>queuetab := t\<rparr>)) (Q(sleepq s := R)) s' Q'"
    "sleepers s' Q' = takeWhile (\<lambda>(_, w). w \<le> delay) (sleepers s Q) @ (currpid s, delay)
        # dropWhile (\<lambda>(_, w). w \<le> delay) (sleepers s Q)"
    "Q (readylist s) = currpid s' # Q' (readylist s)"
    using sleep_in_ok [OF inv np nd, of delay PR_SLEEP] d by auto
  have "sleepms delay s = Some (OK, s')"
    using d S(1-4) kpreD(4,5) [OF kinv_kpre [OF inv]] by (simp add: sleepms_def)
  then show ?thesis using S(5-7) by blast
qed

section \<open>Waking up\<close>

lemma sleep_head_upd:
  assumes "kinv s Q"
  shows "isempty (sleepq s) s = Some (Q (sleepq s) = [])"
    "Q (sleepq s) = x # xs \<Longrightarrow> firstid (sleepq s) s = Some x \<and> firstkey (sleepq s) s = Some (keyof s x) \<and> 0 \<le> x \<and> x < 100"
  using isempty_ok firstid_ok firstkey_ok qrel_member [of _ _ Q _ "sleepq s" x]
    kpreD(3) [OF kinv_kpre [OF assms]] layout_sleep [OF kpreD(1) [OF kinv_kpre [OF assms]]]
  by fastforce+

lemma wakeup_loop_ok:
  assumes "kinv s Q"
  shows "\<exists>s' Q'. wakeup_loop s = Some s'
    \<and> settled (fold (mkst PR_READY) (takeWhile (\<lambda>x. keyof s x \<le> 0) (Q (sleepq s))) s)
        (Q(sleepq s := dropWhile (\<lambda>x. keyof s x \<le> 0) (Q (sleepq s)))) s' Q'"
  using assms
proof (induction "Q (sleepq s)" arbitrary: s Q)
  case Nil
  have "wakeup_loop s = Some s"
    using sleep_head_upd(1) [OF Nil(2)] Nil(1) by (subst wakeup_loop.simps) simp
  moreover have "Q(sleepq s := []) = Q" using Nil(1) by (simp add: fun_upd_idem)
  ultimately show ?case using settled_refl [OF Nil(2)] Nil(1) [symmetric] by auto
next
  case (Cons p zs)
  note H = sleep_head_upd [OF Cons.prems] and P = kpreD [OF kinv_kpre [OF Cons.prems]]
  have L: "Q (sleepq s) = p # zs" using Cons.hyps(2) by simp
  have ne: "Q (sleepq s) \<noteq> []" using L by simp
  show ?case
  proof (cases "keyof s p \<le> 0")
    case False
    then have "wakeup_loop s = Some s" using H(1) H(2) [OF L] ne by (subst wakeup_loop.simps) simp
    moreover have "Q(sleepq s := p # zs) = Q" using L by (simp add: fun_upd_idem)
    ultimately show ?thesis using settled_refl [OF Cons.prems] L False by auto
  next
    case True
    define sq where "sq = sleepq s"
    have q: "sq \<in> qids (nextqid s)" "sq \<noteq> readylist s"
      using layout_sleep [OF P(1)] layout_apart(1) [OF P(1)] by (auto simp: sq_def)
    obtain t s1 Q1 where g: "dequeue sq s = Some (p, s\<lparr>queuetab := t\<rparr>)" "ready p (s\<lparr>queuetab := t\<rparr>) = Some (OK, s1)"
      and st: "settled (mkst PR_READY p s) (Q(sq := zs)) s1 Q1"
      using release_head(1) [OF Cons.prems q L [folded sq_def]] by blast
    note F = sframeD [OF settledD(2) [OF st]]
    have q1: "sleepq s1 = sq" using F by (simp add: sq_def)
    have Q1: "Q1 sq = zs" "\<And>x. x \<in> set zs \<Longrightarrow> keyof s1 x = keyof s x"
      using qframeD [OF settledD(3) [OF st], of sq] q by simp_all
    have tw: "takeWhile (\<lambda>x. keyof s1 x \<le> 0) zs = takeWhile (\<lambda>x. keyof s x \<le> 0) zs"
      "dropWhile (\<lambda>x. keyof s1 x \<le> 0) zs = dropWhile (\<lambda>x. keyof s x \<le> 0) zs"
      using Q1(2) by (auto intro: takeWhile_cong dropWhile_cong)
    have "\<exists>s2 Q2. wakeup_loop s1 = Some s2
      \<and> settled (fold (mkst PR_READY) (takeWhile (\<lambda>x. keyof s1 x \<le> 0) (Q1 (sleepq s1))) s1)
          (Q1(sleepq s1 := dropWhile (\<lambda>x. keyof s1 x \<le> 0) (Q1 (sleepq s1)))) s2 Q2"
      by (rule Cons.hyps(1)) (use Q1 q1 settledD(1) [OF st] in auto)
    then obtain s2 Q2 where r: "wakeup_loop s1 = Some s2"
      and st2: "settled (fold (mkst PR_READY) (takeWhile (\<lambda>x. keyof s x \<le> 0) zs) s1)
          (Q1(sq := dropWhile (\<lambda>x. keyof s x \<le> 0) zs)) s2 Q2"
      unfolding q1 Q1(1) tw by blast
    have "wakeup_loop s = Some s2"
      using True H(1) H(2) [OF L] ne g r by (subst wakeup_loop.simps) (simp add: sq_def)
    moreover have "settled (fold (mkst PR_READY) (takeWhile (\<lambda>x. keyof s x \<le> 0) zs) (mkst PR_READY p s))
        ((Q(sq := zs))(sq := dropWhile (\<lambda>x. keyof s x \<le> 0) zs)) s2 Q2"
    proof (rule settled_shift [where f = "fold (mkst PR_READY) (takeWhile (\<lambda>x. keyof s x \<le> 0) zs)" and q = sq,
          OF st st2 sframe_fold_mkst [OF settledD(2) [OF st]]])
      show "set (dropWhile (\<lambda>x. keyof s x \<le> 0) zs) \<subseteq> set ((Q(sq := zs)) sq)"
        using set_dropWhileD by fastforce
    qed simp_all
    ultimately show ?thesis using True L unfolding sq_def
      by (intro exI [of _ s2] exI [of _ Q2]) simp
  qed
qed

lemma wakeup_ok:
  assumes inv: "kinv s Q" and nd: "0 \<le> ndefers s"
  shows "\<exists>s' Q'. wakeup s = Some s'
    \<and> settled (fold (mkst PR_READY) (takeWhile (\<lambda>x. keyof s x \<le> 0) (Q (sleepq s))) s)
        (Q(sleepq s := dropWhile (\<lambda>x. keyof s x \<le> 0) (Q (sleepq s)))) s' Q'"
proof -
  obtain s0 where st0: "resched_cntl DEFER_START s = Some (OK, s0)" and s0: "s0 = deferring s" and k0: "kinv s0 Q"
    using defer_start [OF inv] by blast
  have f0: "sleepq s0 = sleepq s" "queuetab s0 = queuetab s" by (simp_all add: s0 deferring_def)
  let ?w = "takeWhile (\<lambda>x. keyof s x \<le> 0) (Q (sleepq s))"
  let ?R = "Q(sleepq s := dropWhile (\<lambda>x. keyof s x \<le> 0) (Q (sleepq s)))"
  obtain s1 Q1 where lp: "wakeup_loop s0 = Some s1" and st: "settled (fold (mkst PR_READY) ?w s0) ?R s1 Q1"
    using wakeup_loop_ok [OF k0] unfolding f0 by blast
  have "fold (mkst PR_READY) ?w s0 = deferring (fold (mkst PR_READY) ?w s)" by (simp add: s0 fold_mkst_defer)
  then obtain s2 Q2 where "resched_cntl DEFER_STOP s1 = Some (OK, s2)" "settled (fold (mkst PR_READY) ?w s) ?R s2 Q2"
    using defer_stop [of "fold (mkst PR_READY) ?w s" ?R s1 Q1] st nd by auto
  then show ?thesis using st0 lp by (auto simp: wakeup_def)
qed

section \<open>The clock tick\<close>

text \<open>Whenever interrupts can happen, no sleeper is overdue.\<close>

definition awake :: "kernel \<Rightarrow> (int \<Rightarrow> int list) \<Rightarrow> bool" where
  "awake s Q \<longleftrightarrow> (\<forall>(p, w)\<in>set (sleepers s Q). 0 < w)"

lemma wake_ge: "(\<And>x. x \<in> set xs \<Longrightarrow> 0 \<le> k x) \<Longrightarrow> (p, w) \<in> set (wake k a xs) \<Longrightarrow> a \<le> w"
proof (induction xs arbitrary: a)
  case (Cons x xs)
  have "0 \<le> k x" using Cons.prems(1) by simp
  moreover have "a + k x \<le> w" if "(p, w) \<in> set (wake k (a + k x) xs)"
    using Cons.IH [OF _ that] Cons.prems(1) by simp
  ultimately show ?case using Cons.prems(2) by auto
qed simp

lemma awake_head:
  assumes "kpre s Q" shows "awake s Q \<longleftrightarrow> (\<forall>x xs. Q (sleepq s) = x # xs \<longrightarrow> 0 < keyof s x)"
proof (cases "Q (sleepq s)")
  case (Cons x xs)
  have nn: "0 \<le> keyof s y" if "y \<in> set (Q (sleepq s))" for y
    using skeysD(1) [OF kpreD(11) [OF assms]] that by blast
  have "0 < w" if "(p, w) \<in> set (wake (keyof s) (keyof s x) xs)" "0 < keyof s x" for p w
    using wake_ge [of xs "keyof s" p w "keyof s x"] nn that Cons by fastforce
  then show ?thesis using Cons by (auto simp: awake_def sleepers_def)
qed (simp add: awake_def sleepers_def)

lemma awake_settled: "settled t R s' Q' \<Longrightarrow> awake s' Q' = awake t R"
  by (simp add: awake_def sleepers_settled)

text \<open>One tick: every sleeper is one tick closer, and those whose time has come are ready.\<close>

definition tick_down :: "(int \<times> int) list \<Rightarrow> (int \<times> int) list" where
  "tick_down l = map (\<lambda>(p, w). (p, w - 1)) (filter (\<lambda>(p, w). w \<noteq> 1) l)"

lemma wake_shift: "wake k a xs = map (\<lambda>(p, w). (p, w + a)) (wake k 0 xs)"
proof (induction xs arbitrary: a)
  case (Cons x xs)
  show ?case using Cons [of "a + k x"] Cons [of "k x"] by (auto simp: algebra_simps)
qed simp

text \<open>Decrementing the head key moves every wake-up time; the overdue prefix has keys 0.\<close>

lemma wake_dec:
  assumes "distinct (x # xs)" "\<And>y. k' y = (if y = x then k x - 1 else k y)"
  shows "wake k' 0 (x # xs) = map (\<lambda>(p, w). (p, w - 1)) (wake k 0 (x # xs))"
proof -
  have "wake k' a xs = wake k a xs" for a using assms by (intro wake_cong) auto
  then show ?thesis using assms(2) [of x] wake_shift [of k "k x - 1" xs] wake_shift [of k "k x" xs]
    by (auto simp: case_prod_beta)
qed

lemma wake_zero_split:
  assumes "\<And>x. x \<in> set xs \<Longrightarrow> 0 \<le> k x"
  shows "wake k 0 (dropWhile (\<lambda>x. k x \<le> 0) xs) = filter (\<lambda>(p, w). w \<noteq> 0) (wake k 0 xs)"
    "takeWhile (\<lambda>x. k x \<le> 0) xs = map fst (filter (\<lambda>(p, w). w = 0) (wake k 0 xs))"
proof -
  have "wake k 0 (dropWhile (\<lambda>x. k x \<le> 0) xs) = filter (\<lambda>(p, w). w \<noteq> 0) (wake k 0 xs)
    \<and> takeWhile (\<lambda>x. k x \<le> 0) xs = map fst (filter (\<lambda>(p, w). w = 0) (wake k 0 xs))"
    using assms
  proof (induction xs)
    case (Cons x xs)
    have nn: "0 \<le> k y" if "y \<in> set xs" for y using Cons.prems that by simp
    show ?case
    proof (cases "k x \<le> 0")
      case True
      then have "k x = 0" using Cons.prems [of x] by simp
      then show ?thesis using Cons.IH nn by simp
    next
      case False
      then have "0 < w" if "(p, w) \<in> set (wake k (k x) xs)" for p w
        using wake_ge [of xs k p w "k x"] nn that by fastforce
      then have "filter (\<lambda>(p, w). w \<noteq> 0) (wake k (k x) xs) = wake k (k x) xs"
        "filter (\<lambda>(p, w). w = 0) (wake k (k x) xs) = []"
        by (auto simp: filter_id_conv filter_empty_conv)
      then show ?thesis using False by simp
    qed
  qed simp
  then show "wake k 0 (dropWhile (\<lambda>x. k x \<le> 0) xs) = filter (\<lambda>(p, w). w \<noteq> 0) (wake k 0 xs)"
    "takeWhile (\<lambda>x. k x \<le> 0) xs = map fst (filter (\<lambda>(p, w). w = 0) (wake k 0 xs))" by simp_all
qed

lemma filter_dec: "filter (\<lambda>(p, w). w \<noteq> 0) (map (\<lambda>(p, w). (p, w - 1)) l) = tick_down l"
  "map fst (filter (\<lambda>(p, w). w = (0::int)) (map (\<lambda>(p, w). (p, w - 1)) l)) = map fst (filter (\<lambda>(p, w). w = 1) l)"
  by (induction l) (auto simp: tick_down_def)

text \<open>The time of day as the handler keeps it.\<close>

definition tick_time :: "kernel \<Rightarrow> kernel" where
  "tick_time s = (let c = u32 (count1000 s - 1) in
     s\<lparr>count1000 := (if c = 0 then 1000 else c), clktime := (if c = 0 then u32 (clktime s + 1) else clktime s),
       clktimems := True\<rparr>)"

lemma kcore_tick_time: "kcore (tick_time s) = kcore s"
  by (simp add: kcore_def tick_time_def Let_def)

text \<open>The part of the handler that moves the sleep queue.\<close>

definition tick_sleep :: "kernel \<Rightarrow> kernel option" where
  "tick_sleep s = do {
     emp \<leftarrow> isempty (sleepq s) s;
     if \<not> emp then do {
       f \<leftarrow> firstid (sleepq s) s;
       e \<leftarrow> qent (queuetab s) f;
       k \<leftarrow> chk32 (qkey e - 1);
       t \<leftarrow> set_key f k (queuetab s);
       let s = s\<lparr>queuetab := t\<rparr>;
       if k = 0 then wakeup s else Some s
     } else Some s
   }"

lemma tick_time_code:
  "tick_time s = (let s = s\<lparr>count1000 := u32 (count1000 s - 1)\<rparr>;
      s = (if count1000 s = 0 then s\<lparr>clktime := u32 (clktime s + 1), count1000 := 1000\<rparr> else s)
    in s\<lparr>clktimems := True\<rparr>)"
  by (simp add: tick_time_def Let_def)

lemma clkhandler_split:
  "clkhandler True s = do {
     t \<leftarrow> tick_sleep (tick_time s);
     after (currpid s) KClock clk_rest t
   }"
  unfolding clkhandler_def tick_sleep_def tick_time_code Let_def by simp

text \<open>\<open>dec_head s x\<close>: the head key decremented.\<close>

definition dec_head :: "kernel \<Rightarrow> int \<Rightarrow> kernel" where
  "dec_head s x = s\<lparr>queuetab := (queuetab s)(x := (queuetab s x)\<lparr>qkey := keyof s x - 1\<rparr>)\<rparr>"

lemma dec_head_inv:
  assumes inv: "kinv s Q" and L: "Q (sleepq s) = x # xs" and k: "0 < keyof s x"
  shows "kinv (dec_head s x) Q"
proof -
  have pre: "kpre s Q" using inv by (rule kinv_kpre)
  note P = kpreD [OF pre]
  note sq = layout_sleep [OF P(1)]
  have x: "0 \<le> x" "x < 100" "pqueue s x = Some (sleepq s)" using qrel_member [OF P(3) sq, of x] L by simp_all
  have sk: "skeys (queuetab s) (x # xs)" using P(11) L by simp
  have dx: "x \<notin> set xs" using qrelD(2) [OF P(3) sq] L by simp
  define t where "t = (queuetab s)(x := (queuetab s x)\<lparr>qkey := keyof s x - 1\<rparr>)"
  have "kgen (s\<lparr>queuetab := t\<rparr>) Q (pqueue s)"
  proof (rule kgen_queuetab [OF pre [unfolded kpre_def]])
    show "qrel t (nextqid s) Q (pqueue s)" by (rule qrel_key [OF P(3)]) (use x in \<open>auto simp: t_def\<close>)
    have "y \<noteq> x" if "y \<in> set (Q (readylist s))" for y
      using qrel_member [OF P(3) layout_ready [OF P(1)] that] x(3) layout_apart(1) [OF P(1)] by auto
    then show "desc (\<lambda>x. qkey (t x)) (Q (readylist s))"
      using P(9) desc_cong [of "Q (readylist s)" "\<lambda>x. qkey (t x)" "keyof s"] by (simp add: t_def)
    have "ksum (\<lambda>x. qkey (t x)) xs = ksum (keyof s) xs" by (rule ksum_cong) (use dx in \<open>auto simp: t_def\<close>)
    then show "skeys t (Q (sleepq s))" using sk k dx L by (auto simp: skeys_def t_def)
    show "Q (scratchlist s) = []" by (rule P(10))
  qed
  then show ?thesis using inv by (simp add: kinv_def kpre_def dec_head_def t_def)
qed

lemma tick_sleep_ok:
  assumes inv: "kinv s Q" and aw: "awake s Q" and nd: "0 \<le> ndefers s"
  shows "\<exists>t R s' Q'. tick_sleep s = Some s'
    \<and> settled (fold (mkst PR_READY) (map fst (filter (\<lambda>(p, w). w = 1) (sleepers s Q))) (s\<lparr>queuetab := t\<rparr>))
        (Q(sleepq s := R)) s' Q'
    \<and> sleepers s' Q' = tick_down (sleepers s Q) \<and> awake s' Q'
    \<and> (\<forall>x. x \<notin> set (Q (sleepq s)) \<longrightarrow> qkey (t x) = keyof s x)"
proof (cases "Q (sleepq s)")
  case Nil
  then have "tick_sleep s = Some s" using sleep_head_upd(1) [OF inv] by (simp add: tick_sleep_def)
  moreover have "sleepers s Q = []" using Nil by (simp add: sleepers_def)
  moreover have "Q(sleepq s := []) = Q" using Nil by (simp add: fun_upd_idem)
  ultimately show ?thesis using settled_refl [OF inv] aw
    by (intro exI [of _ "queuetab s"] exI [of _ "[]"] exI [of _ s] exI [of _ Q]) (simp add: tick_down_def)
next
  case (Cons x xs)
  have pre: "kpre s Q" using inv by (rule kinv_kpre)
  note P = kpreD [OF pre]
  have pos: "0 < keyof s x" using awake_head [OF pre] aw Cons by simp
  have H: "firstid (sleepq s) s = Some x" "0 \<le> x" "x < 100" using sleep_head_upd(2) [OF inv Cons] by simp_all
  have ne: "isempty (sleepq s) s = Some False" using sleep_head_upd(1) [OF inv] Cons by simp
  define s1 where "s1 = dec_head s x"
  have inv1: "kinv s1 Q" unfolding s1_def by (rule dec_head_inv [OF inv Cons pos])
  have f1: "sleepq s1 = sleepq s" "ndefers s1 = ndefers s" "nextqid s1 = nextqid s" "readylist s1 = readylist s"
    by (simp_all add: s1_def dec_head_def)
  have dist: "distinct (x # xs)" using qrelD(2) [OF P(3) layout_sleep [OF P(1)]] Cons by simp
  have k1: "keyof s1 y = (if y = x then keyof s x - 1 else keyof s y)" for y by (simp add: s1_def dec_head_def)
  have nn1: "0 \<le> keyof s1 y" if "y \<in> set (Q (sleepq s))" for y
    using skeysD(1) [OF kpreD(11) [OF kinv_kpre [OF inv1]]] that f1 by simp
  have w1: "sleepers s1 Q = map (\<lambda>(p, w). (p, w - 1)) (sleepers s Q)"
    unfolding sleepers_def f1 Cons by (rule wake_dec [OF dist k1])
  have "keyof s x \<le> ksum (keyof s) (x # xs)"
    using member_le_sum_list [of "keyof s x" "map (keyof s) (x # xs)"] P(11) Cons by (auto simp: skeys_def)
  then have in32: "in_s32 (keyof s x - 1)" using pos skeysD(2) [OF P(11)] Cons by (simp add: in_s32_def)
  let ?due = "map fst (filter (\<lambda>(p, w). w = 1) (sleepers s Q))"
  have due: "?due = takeWhile (\<lambda>x. keyof s1 x \<le> 0) (Q (sleepq s))"
    using wake_zero_split(2) [of "Q (sleepq s)" "keyof s1"] nn1 w1
    unfolding sleepers_def f1 by (simp add: filter_dec(2))
  have rest: "wake (keyof s1) 0 (dropWhile (\<lambda>x. keyof s1 x \<le> 0) (Q (sleepq s))) = tick_down (sleepers s Q)"
    using wake_zero_split(1) [of "Q (sleepq s)" "keyof s1"] nn1 w1
    unfolding sleepers_def f1 by (simp add: filter_dec(1))
  let ?R = "dropWhile (\<lambda>x. keyof s1 x \<le> 0) (Q (sleepq s))"
  have "\<exists>s' Q'. tick_sleep s = Some s' \<and> settled (fold (mkst PR_READY) ?due s1) (Q(sleepq s := ?R)) s' Q'"
  proof (cases "keyof s x = 1")
    case True
    obtain s' Q' where "wakeup s1 = Some s'" "settled (fold (mkst PR_READY) ?due s1) (Q(sleepq s := ?R)) s' Q'"
      using wakeup_ok [OF inv1] nd unfolding f1 due by blast
    moreover have "tick_sleep s = wakeup s1"
      using True H ne in32 by (simp add: tick_sleep_def s1_def dec_head_def)
    ultimately show ?thesis by auto
  next
    case False
    then have big: "1 < keyof s x" using pos by simp
    then have "?R = Q (sleepq s)" "takeWhile (\<lambda>x. keyof s1 x \<le> 0) (Q (sleepq s)) = []"
      using Cons k1 [of x] by simp_all
    then have "fold (mkst PR_READY) ?due s1 = s1" "Q(sleepq s := ?R) = Q" using due by (simp_all add: fun_upd_idem)
    moreover have "tick_sleep s = Some s1"
      using False H ne in32 by (simp add: tick_sleep_def s1_def dec_head_def)
    ultimately show ?thesis using settled_refl [OF inv1] by metis
  qed
  then obtain s' Q' where run: "tick_sleep s = Some s'" and st: "settled (fold (mkst PR_READY) ?due s1) (Q(sleepq s := ?R)) s' Q'"
    by blast
  have sl: "sleepers s' Q' = tick_down (sleepers s Q)"
    unfolding sleepers_settled [OF st] using rest by (simp add: sleepers_def f1)
  have "awake s' Q'"
    using aw unfolding awake_def sl by (fastforce simp: tick_down_def)
  moreover have "\<forall>y. y \<notin> set (Q (sleepq s)) \<longrightarrow> qkey (queuetab s1 y) = keyof s y" using Cons k1 by auto
  moreover have "s\<lparr>queuetab := queuetab s1\<rparr> = s1" by (simp add: s1_def dec_head_def)
  ultimately show ?thesis using run st sl
    by (intro exI [of _ "queuetab s1"] exI [of _ ?R] exI [of _ s'] exI [of _ Q']) simp
qed

text \<open>The end of the handler.\<close>

lemma clk_rest_ok:
  assumes inv: "kinv s Q"
  shows "\<exists>s' Q'. clk_rest s = Some s' \<and> settled s Q s' Q'"
proof -
  define s2 where "s2 = s\<lparr>preempt := u32 (preempt s - 1)\<rparr>"
  define s3 where "s3 = s2\<lparr>preempt := QUANTUM\<rparr>"
  have c: "kcore s2 = kcore s" "kcore s3 = kcore s" by (simp_all add: kcore_def s2_def s3_def)
  have inv2: "kinv s2 Q" "kinv s3 Q" using kinv_core [OF c(1)] kinv_core [OF c(2)] inv by simp_all
  have e: "psettled s Q s2 Q" "psettled s Q s3 Q"
    using inv2 by (simp_all add: psettled_def kinv_kpre s2_def s3_def sframe_def kerase_def qframe_def)
  show ?thesis
  proof (cases "preempt s2 = 0")
    case True
    obtain s' Q' where r: "resched s3 = Some s'" "settled s3 Q s' Q'"
      using resched_settled [OF kinv_kpre [OF inv2(2)]] inv2 by blast
    have "clk_rest s = Some s'" using True r(1) by (simp add: clk_rest_def Let_def s2_def s3_def)
    then show ?thesis using settled_trans [OF e(2) r(2)] by blast
  next
    case False
    then have "clk_rest s = Some s2" by (simp add: clk_rest_def Let_def s2_def)
    then show ?thesis using settled_trans [OF e(1) settled_refl [OF inv2(1)]] by blast
  qed
qed

text \<open>
  The whole handler.  The process it interrupted either still runs, or it was switched out and
  has the end of the handler to execute.
\<close>

lemma clkhandler_ok:
  assumes inv: "kinv s Q" and aw: "awake s Q" and nd: "0 \<le> ndefers s"
  shows "\<exists>t R s' Q' f. clkhandler True s = Some (s'\<lparr>kcont := f\<rparr>)
    \<and> (f = kcont s \<or> currpid s' \<noteq> currpid s \<and> f = (kcont s)(currpid s := kcont s (currpid s) @ [KClock]))
    \<and> settled (fold (mkst PR_READY) (map fst (filter (\<lambda>(p, w). w = 1) (sleepers s Q))) ((tick_time s)\<lparr>queuetab := t\<rparr>))
        (Q(sleepq s := R)) s' Q'
    \<and> sleepers s' Q' = tick_down (sleepers s Q) \<and> awake s' Q'
    \<and> (\<forall>x. x \<notin> set (Q (sleepq s)) \<longrightarrow> qkey (t x) = keyof s x)"
proof -
  define s0 where "s0 = tick_time s"
  have f0: "sleepq s0 = sleepq s" "queuetab s0 = queuetab s" "ndefers s0 = ndefers s" "kcont s0 = kcont s"
    by (simp_all add: s0_def tick_time_def Let_def)
  have inv0: "kinv s0 Q" using kinv_core [OF kcore_tick_time] inv by (simp add: s0_def)
  have sl0: "sleepers s0 Q = sleepers s Q" by (simp add: sleepers_def f0)
  have aw0: "awake s0 Q" using aw by (simp add: awake_def sl0)
  obtain t R s1 Q1 where T: "tick_sleep s0 = Some s1"
    "settled (fold (mkst PR_READY) (map fst (filter (\<lambda>(p, w). w = 1) (sleepers s Q))) (s0\<lparr>queuetab := t\<rparr>))
        (Q(sleepq s := R)) s1 Q1"
    "sleepers s1 Q1 = tick_down (sleepers s Q)" "awake s1 Q1"
    "\<forall>x. x \<notin> set (Q (sleepq s)) \<longrightarrow> qkey (t x) = keyof s x"
    using tick_sleep_ok [OF inv0 aw0] nd unfolding f0 sl0 by blast
  have k1: "kcont s1 = kcont s" using sframeD(19) [OF settledD(2) [OF T(2)]] f0 by simp
  show ?thesis
  proof (cases "currpid s1 = currpid s")
    case True
    obtain s' Q' where S: "clk_rest s1 = Some s'" "settled s1 Q1 s' Q'" using clk_rest_ok [OF settledD(1) [OF T(2)]] by blast
    have K: "kcont s' = kcont s" using sframeD(19) [OF settledD(2) [OF S(2)]] k1 by simp
    have e: "s'\<lparr>kcont := kcont s\<rparr> = s'" unfolding K [symmetric] by simp
    have "clkhandler True s = Some (s'\<lparr>kcont := kcont s\<rparr>)" unfolding e
      using T(1) S(1) True by (simp add: clkhandler_split s0_def [symmetric] after_def)
    then show ?thesis
      using settled_trans [OF settledD(4) [OF T(2)] S(2)] T(3-5) sleepers_settled [OF S(2)] awake_settled [OF S(2)]
      unfolding s0_def by metis
  next
    case False
    then have "clkhandler True s = Some (s1\<lparr>kcont := (kcont s)(currpid s := kcont s (currpid s) @ [KClock])\<rparr>)"
      using T(1) k1 by (simp add: clkhandler_split s0_def [symmetric] after_def)
    then show ?thesis using T(2-5) False unfolding s0_def by blast
  qed
qed

end
