(* ===== verification/Msgs.thy ===== *)
theory Msgs
  imports Clock
begin

text \<open>
  Messages between processes: \<open>system/send.c\<close>, \<open>system/receive.c\<close>,
  \<open>system/recvclr.c\<close> and \<open>system/recvtime.c\<close>.  A process has room for one message.
\<close>

section \<open>The operations\<close>

definition send :: "int \<Rightarrow> int \<Rightarrow> kernel \<Rightarrow> (int \<times> kernel) option" where
  "send pid msg s =
     (if isbadpid s pid then Some (SYSERR, s)
      else if prhasmsg (proctab s pid) then Some (SYSERR, s)
      else do {
        s \<leftarrow> upd_proc pid (\<lambda>e. e\<lparr>prmsg := msg, prhasmsg := True\<rparr>) s;
        if prstate (proctab s pid) = PR_RECV then do {
          (_, s) \<leftarrow> ready pid s;
          Some (OK, s)
        }
        else if prstate (proctab s pid) = PR_RECTIM then do {
          (_, s) \<leftarrow> unsleep pid s;
          (_, s) \<leftarrow> ready pid s;
          Some (OK, s)
        }
        else Some (OK, s)
      })"

definition receive_rest :: "int \<Rightarrow> kernel \<Rightarrow> kernel option" where
  "receive_rest me s = do {
     e \<leftarrow> proc me s;
     s \<leftarrow> upd_proc me (\<lambda>e. e\<lparr>prhasmsg := False\<rparr>) s;
     Some (deliver me (prmsg e) s)
   }"

definition receive :: "kernel \<Rightarrow> kernel option" where
  "receive s =
     (let me = currpid s in do {
        e \<leftarrow> proc me s;
        if \<not> prhasmsg e then do {
          (_, s) \<leftarrow> record_cpuqdata me s;
          s \<leftarrow> set_state me PR_RECV s;
          s \<leftarrow> resched s;
          after me KReceive (receive_rest me) s
        } else receive_rest me s
      })"

definition recvclr :: "kernel \<Rightarrow> (int \<times> kernel) option" where
  "recvclr s = do {
     e \<leftarrow> proc (currpid s) s;
     if prhasmsg e then do {
       s \<leftarrow> upd_proc (currpid s) (\<lambda>e. e\<lparr>prhasmsg := False\<rparr>) s;
       Some (prmsg e, s)
     } else Some (OK, s)
   }"

definition recvtime_rest :: "int \<Rightarrow> kernel \<Rightarrow> kernel option" where
  "recvtime_rest me s = do {
     e \<leftarrow> proc me s;
     if prhasmsg e then do {
       s \<leftarrow> upd_proc me (\<lambda>e. e\<lparr>prhasmsg := False\<rparr>) s;
       Some (deliver me (prmsg e) s)
     } else Some (deliver me (u32 TIMEOUT) s)
   }"

definition recvtime :: "int \<Rightarrow> kernel \<Rightarrow> kernel option" where
  "recvtime maxwait s =
     (let me = currpid s in
      if maxwait < 0 then Some (deliver me (u32 SYSERR) s)
      else do {
        e \<leftarrow> proc me s;
        if \<not> prhasmsg e then do {
          (r, s) \<leftarrow> insertd me (sleepq s) maxwait s;
          if r = SYSERR then Some (deliver me (u32 SYSERR) s)
          else do {
            (_, s) \<leftarrow> record_cpuqdata me s;
            s \<leftarrow> set_state me PR_RECTIM s;
            s \<leftarrow> resched s;
            after me KRecvtime (recvtime_rest me) s
          }
        } else recvtime_rest me s
      })"

section \<open>send\<close>

definition put_msg :: "int \<Rightarrow> int \<Rightarrow> kernel \<Rightarrow> kernel" where
  "put_msg pid msg s = s\<lparr>proctab := (proctab s)(pid := (proctab s pid)\<lparr>prmsg := msg, prhasmsg := True\<rparr>)\<rparr>"

definition take_msg :: "int \<Rightarrow> kernel \<Rightarrow> kernel" where
  "take_msg pid s = s\<lparr>proctab := (proctab s)(pid := (proctab s pid)\<lparr>prhasmsg := False\<rparr>)\<rparr>"

lemma msg_inv [simp]:
  "kinv (put_msg pid msg s) Q = kinv s Q" "kpre (put_msg pid msg s) Q = kpre s Q"
  "kinv (take_msg pid s) Q = kinv s Q" "kpre (take_msg pid s) Q = kpre s Q"
  by (simp_all add: put_msg_def take_msg_def kinv_entry)

lemma msg_fields [simp]:
  "queuetab (put_msg pid msg s) = queuetab s" "sleepq (put_msg pid msg s) = sleepq s"
  "currpid (put_msg pid msg s) = currpid s" "currpid (take_msg pid s) = currpid s"
  "prstate (proctab (put_msg pid msg s) p) = prstate (proctab s p)"
  "prsem (proctab (put_msg pid msg s) p) = prsem (proctab s p)"
  "isbadpid (put_msg pid msg s) p = isbadpid s p"
  by (simp_all add: put_msg_def take_msg_def isbadpid_def)

lemma send_bad: "isbadpid s pid \<or> prhasmsg (proctab s pid) \<Longrightarrow> send pid msg s = Some (SYSERR, s)"
  by (auto simp: send_def)

lemma send_busy_ok:
  assumes "kinv s Q" "\<not> isbadpid s pid" "\<not> prhasmsg (proctab s pid)"
    and "prstate (proctab s pid) \<noteq> PR_RECV" "prstate (proctab s pid) \<noteq> PR_RECTIM"
  shows "send pid msg s = Some (OK, put_msg pid msg s) \<and> settled (put_msg pid msg s) Q (put_msg pid msg s) Q"
proof -
  have "0 \<le> pid" "pid < 100" using assms(2) by (simp_all add: isbadpid_def)
  moreover have "settled (put_msg pid msg s) Q (put_msg pid msg s) Q"
    by (rule settled_refl) (use assms(1) in simp)
  ultimately show ?thesis using assms by (simp add: send_def) (simp add: put_msg_def)
qed

lemma send_recv_ok:
  assumes inv: "kinv s Q" and nb: "\<not> isbadpid s pid" and m: "\<not> prhasmsg (proctab s pid)"
    and st: "prstate (proctab s pid) = PR_RECV"
  shows "\<exists>s' Q'. send pid msg s = Some (OK, s') \<and> settled (mkst PR_READY pid (put_msg pid msg s)) Q s' Q'"
proof -
  let ?s = "put_msg pid msg s"
  have pb: "0 \<le> pid" "pid < 100" using nb by (simp_all add: isbadpid_def)
  have "kpre ?s Q" using kinv_kpre [OF inv] by simp
  moreover have "pqueue ?s pid = None" using st by (simp add: pqueue_def pq_def)
  ultimately have o: "kout pid ?s Q" by (rule kpre_kout)
  have "pid \<noteq> currpid s" "prstate (proctab s (currpid s)) = PR_CURR" using inv st by (auto simp: kinv_def)
  then obtain s' Q' where "ready pid ?s = Some (OK, s')" "settled (mkst PR_READY pid ?s) Q s' Q'"
    using ready_settled [OF o] nb by auto
  then show ?thesis using nb m st pb by (auto simp: send_def put_msg_def)
qed

lemma send_rectim_ok:
  assumes inv: "kinv s Q" and nb: "\<not> isbadpid s pid" and m: "\<not> prhasmsg (proctab s pid)"
    and st: "prstate (proctab s pid) = PR_RECTIM"
  shows "\<exists>t R s' Q'. send pid msg s = Some (OK, s')
    \<and> settled (mkst PR_READY pid ((put_msg pid msg s)\<lparr>queuetab := t\<rparr>)) (Q(sleepq s := R)) s' Q'
    \<and> sleepers s' Q' = filter (\<lambda>(x, _). x \<noteq> pid) (sleepers s Q)
    \<and> (\<forall>x. x \<notin> set (Q (sleepq s)) \<longrightarrow> qkey (t x) = keyof s x)"
proof -
  let ?s = "put_msg pid msg s"
  have pb: "0 \<le> pid" "pid < 100" using nb by (simp_all add: isbadpid_def)
  have pre: "kpre ?s Q" using kinv_kpre [OF inv] by simp
  obtain t ys zs where U: "unsleep pid ?s = Some (OK, ?s\<lparr>queuetab := t\<rparr>)" "Q (sleepq s) = ys @ pid # zs"
    "kout pid (?s\<lparr>queuetab := t\<rparr>) (Q(sleepq s := ys @ zs))"
    "\<And>x. qkey (t x) = (if zs \<noteq> [] \<and> x = hd zs then keyof s x + keyof s pid else keyof s x)"
    using unsleep_ok [OF pre, of pid] nb st by auto
  have "pid \<noteq> currpid s" "prstate (proctab s (currpid s)) = PR_CURR" using inv st by (auto simp: kinv_def)
  then obtain s' Q' where R: "ready pid (?s\<lparr>queuetab := t\<rparr>) = Some (OK, s')"
    "settled (mkst PR_READY pid (?s\<lparr>queuetab := t\<rparr>)) (Q(sleepq s := ys @ zs)) s' Q'"
    using ready_settled [OF U(3)] nb by (auto simp: isbadpid_def)
  have "send pid msg s = Some (OK, s')"
    using nb m st pb U(1) R(1) by (simp add: send_def put_msg_def)
  moreover have "sleepers s' Q' = filter (\<lambda>(x, _). x \<noteq> pid) (sleepers s Q)"
  proof -
    have "distinct (ys @ pid # zs)"
      using qrelD(2) [OF kpreD(3) [OF kinv_kpre [OF inv]] layout_sleep [OF kpreD(1) [OF kinv_kpre [OF inv]]]] U(2)
      by simp
    from wake_unsleep [OF this, of "\<lambda>x. qkey (t x)" "keyof s"] U(4)
    show ?thesis unfolding sleepers_settled [OF R(2)] by (simp add: sleepers_def U(2))
  qed
  moreover have "qkey (t x) = keyof s x" if "x \<notin> set (Q (sleepq s))" for x
    using U(2,4) that by (cases zs) auto
  ultimately show ?thesis using R(2) by blast
qed

section \<open>receive, recvclr, recvtime\<close>

lemma receive_msg_ok:
  assumes inv: "kinv s Q" and m: "prhasmsg (proctab s (currpid s))"
  shows "receive s = Some (deliver (currpid s) (prmsg (proctab s (currpid s))) (take_msg (currpid s) s))"
    "kinv (deliver (currpid s) v (take_msg (currpid s) s)) Q"
  using kpreD(4,5) [OF kinv_kpre [OF inv]] m inv
  by (simp_all add: receive_def Let_def receive_rest_def take_msg_def [symmetric])

lemma receive_block_ok:
  assumes inv: "kinv s Q" and np: "currpid s \<noteq> 0" and nd: "ndefers s \<le> 0"
    and m: "\<not> prhasmsg (proctab s (currpid s))"
  shows "\<exists>s' Q'. receive s = Some (s'\<lparr>kcont := (kcont s)(currpid s := kcont s (currpid s) @ [KReceive])\<rparr>)
    \<and> settled (mkst PR_RECV (currpid s) s) Q s' Q' \<and> Q (readylist s) = currpid s' # Q' (readylist s)
    \<and> currpid s' \<noteq> currpid s"
proof -
  let ?c = "currpid s"
  note P = kpreD [OF kinv_kpre [OF inv]]
  define F :: "procent \<Rightarrow> procent" where "F = (\<lambda>e. e\<lparr>prstate := PR_RECV\<rparr>)"
  obtain r s1 where L: "record_cpuqdata ?c s = Some (r, s1)" "aframe s s1"
    "kout ?c (s1\<lparr>proctab := (proctab s1)(?c := F (proctab s1 ?c))\<rparr>) Q"
    "sframe (s\<lparr>proctab := (proctab s)(?c := F (proctab s ?c))\<rparr>) (s1\<lparr>proctab := (proctab s1)(?c := F (proctab s1 ?c))\<rparr>)"
    using leave_cpu [OF inv np, of F] by (auto simp: F_def perase_def wait_ok_def)
  define s2 where "s2 = mkst PR_RECV ?c s1"
  have s2: "s1\<lparr>proctab := (proctab s1)(?c := F (proctab s1 ?c))\<rparr> = s2"
    "s\<lparr>proctab := (proctab s)(?c := F (proctab s ?c))\<rparr> = mkst PR_RECV ?c s"
    by (simp_all add: s2_def mkst_def F_def)
  note A = aframeD [OF L(2)] and B = sframeD [OF L(4) [unfolded s2]]
  have "pqueue s2 ?c = None" by (simp add: s2_def pqueue_def pq_def)
  then have k2: "kpre s2 Q" using kout_kpre [OF L(3)] by (simp add: s2)
  have n2: "ndefers s2 \<le> 0" "prstate (proctab s2 (currpid s2)) \<noteq> PR_CURR" "readylist s2 = readylist s"
    using nd B A(3) by (simp_all add: s2_def)
  obtain s' rest where R: "resched s2 = Some s'" "Q (readylist s2) = currpid s' # rest"
    "kinv s' (Q(readylist s2 := rest))" "sframe s2 s'" "\<forall>x. keyof s' x = keyof s2 x"
    using resched_gone [OF k2 n2(1,2)] by blast
  have ne: "currpid s' \<noteq> ?c"
    using R(2) n2(3) qrel_member [OF P(3) layout_ready [OF P(1)], of "currpid s'"] inv
    by (auto simp: kinv_def pqueue_def pq_def)
  have sf: "sframe (mkst PR_RECV ?c s) s'" using sframe_trans [OF L(4) [unfolded s2] R(4)] .
  have "qframe (mkst PR_RECV ?c s) Q s' (Q(readylist s := rest))"
    using R(5) A(2) by (intro qframe_ready) (simp_all add: s2_def)
  then have "settled (mkst PR_RECV ?c s) Q s' (Q(readylist s := rest))"
    using R(3) sf n2(3) by (simp add: settled_def)
  moreover have "receive s = Some (s'\<lparr>kcont := (kcont s)(?c := kcont s ?c @ [KReceive])\<rparr>)"
    using P(4,5) m L(1) R(1) ne sframeD(19) [OF sf] A(3)
    by (simp add: receive_def Let_def s2_def after_def)
  moreover have "Q (readylist s) = currpid s' # (Q(readylist s := rest)) (readylist s)" using R(2) n2(3) by simp
  ultimately show ?thesis using ne by blast
qed

lemma recvclr_ok:
  assumes inv: "kinv s Q"
  shows "recvclr s = Some (if prhasmsg (proctab s (currpid s))
      then (prmsg (proctab s (currpid s)), take_msg (currpid s) s) else (OK, s))"
    "kinv (take_msg (currpid s) s) Q"
  using kpreD(4,5) [OF kinv_kpre [OF inv]] inv
  by (simp_all add: recvclr_def take_msg_def [symmetric])

lemma recvtime_msg_ok:
  assumes inv: "kinv s Q" and m: "prhasmsg (proctab s (currpid s))" and w: "0 \<le> maxwait"
  shows "recvtime maxwait s = Some (deliver (currpid s) (prmsg (proctab s (currpid s))) (take_msg (currpid s) s))"
  using kpreD(4,5) [OF kinv_kpre [OF inv]] m w
  by (simp add: recvtime_def Let_def recvtime_rest_def take_msg_def [symmetric])

lemma recvtime_block_ok:
  assumes inv: "kinv s Q" and np: "currpid s \<noteq> 0" and nd: "ndefers s \<le> 0"
    and m: "\<not> prhasmsg (proctab s (currpid s))" and w: "0 \<le> maxwait" "maxwait < 2 ^ 31"
  shows "\<exists>t R s' Q'. recvtime maxwait s = Some (s'\<lparr>kcont := (kcont s)(currpid s := kcont s (currpid s) @ [KRecvtime])\<rparr>)
    \<and> settled (mkst PR_RECTIM (currpid s) (s\<lparr>queuetab := t\<rparr>)) (Q(sleepq s := R)) s' Q'
    \<and> sleepers s' Q' = takeWhile (\<lambda>(_, w). w \<le> maxwait) (sleepers s Q) @ (currpid s, maxwait)
        # dropWhile (\<lambda>(_, w). w \<le> maxwait) (sleepers s Q)
    \<and> Q (readylist s) = currpid s' # Q' (readylist s)"
proof -
  let ?c = "currpid s"
  obtain t r s2 s' Q' R where S: "insertd ?c (sleepq s) maxwait s = Some (OK, s\<lparr>queuetab := t\<rparr>)"
    "record_cpuqdata ?c (s\<lparr>queuetab := t\<rparr>) = Some (r, s2)" "currpid s2 = ?c"
    "resched (mkst PR_RECTIM ?c s2) = Some s'"
    "settled (mkst PR_RECTIM ?c (s\<lparr>queuetab := t\<rparr>)) (Q(sleepq s := R)) s' Q'"
    "sleepers s' Q' = takeWhile (\<lambda>(_, w). w \<le> maxwait) (sleepers s Q) @ (?c, maxwait)
        # dropWhile (\<lambda>(_, w). w \<le> maxwait) (sleepers s Q)"
    "Q (readylist s) = currpid s' # Q' (readylist s)" "currpid s' \<noteq> ?c"
    using sleep_in_ok [OF inv np nd w, of PR_RECTIM] by auto
  have "kcont s' = kcont s" using sframeD(19) [OF settledD(2) [OF S(5)]] by simp
  then have "recvtime maxwait s = Some (s'\<lparr>kcont := (kcont s)(?c := kcont s ?c @ [KRecvtime])\<rparr>)"
    using w m S(1-4,8) kpreD(4,5) [OF kinv_kpre [OF inv]] by (simp add: recvtime_def after_def Let_def)
  then show ?thesis using S(5-7) by blast
qed

end
