(* ===== verification/Procs.thy ===== *)
theory Procs
  imports Rwb Sems Msgs Mem Devs
begin

text \<open>
  Creating and killing processes: \<open>system/create.c\<close>, \<open>system/kill.c\<close>, \<open>system/exit.c\<close>,
  \<open>system/userret.c\<close> and \<open>system/xdone.c\<close>.  The address of \<open>userret\<close>, to which the
  top-level function of a process returns, is given by the linker and is the parameter
  \<open>initret\<close>; the device table is the parameter \<open>devtab\<close>.
\<close>

abbreviation (input) MINSTK :: int where "MINSTK \<equiv> 400"
abbreviation (input) PNMLEN :: nat where "PNMLEN \<equiv> 16"
abbreviation (input) STACKMAGIC :: int where "STACKMAGIC \<equiv> 0x0A0AAAA9"

section \<open>create\<close>

definition roundew :: "int \<Rightarrow> int" where
  "roundew x = u32 (x + 3) div 4 * 4"

fun newpid_loop :: "nat \<Rightarrow> kernel \<Rightarrow> (int \<times> kernel) option" where
  "newpid_loop 0 s = Some (SYSERR, s)"
| "newpid_loop (Suc i) s =
     (let s = s\<lparr>nextpid := nextpid s mod NPROC\<rparr> in do {
        e \<leftarrow> proc (nextpid s) s;
        if prstate e = PR_FREE then Some (nextpid s, s\<lparr>nextpid := nextpid s + 1\<rparr>)
        else newpid_loop i (s\<lparr>nextpid := nextpid s + 1\<rparr>)
      })"

definition newpid :: "kernel \<Rightarrow> (int \<times> kernel) option" where
  "newpid s = newpid_loop (nat NPROC) s"

text \<open>The name is copied up to its end, or its first 15 characters.\<close>

fun copy_name :: "nat \<Rightarrow> bytes \<Rightarrow> int \<Rightarrow> string" where
  "copy_name 0 m name = []"
| "copy_name (Suc n) m name = (if m name = 0 then [] else char_of (uint (m name)) # copy_name n m (name + 1))"

text \<open>\<open>*--saddr = x\<close>.\<close>

definition push :: "int \<Rightarrow> int \<times> bytes \<Rightarrow> int \<times> bytes" where
  "push x = (\<lambda>(saddr, m). (saddr - 4, st32 (saddr - 4) x m))"

text \<open>
  The initial stack: the arguments after the fourth, the address of the procedure, eight
  registers, the first four arguments or zeros, the return address and the status word.
\<close>

definition push_frame :: "int \<Rightarrow> int \<Rightarrow> int list \<Rightarrow> int \<times> bytes \<Rightarrow> int \<times> bytes" where
  "push_frame initret procaddr args a =
     (let a = fold push (rev (drop 4 args)) a;
          a = push procaddr a;
          a = fold push (replicate 8 0) a;
          a = fold push (map (\<lambda>i. if i \<le> length args then args ! (i - 1) else 0) (rev [1..<5])) a;
          a = push initret a
      in push 0x53 a)"

definition create :: "int \<Rightarrow> int \<Rightarrow> int \<Rightarrow> int \<Rightarrow> int \<Rightarrow> int list \<Rightarrow> kernel \<Rightarrow> (int \<times> kernel) option" where
  "create initret procaddr ssize priority name args s = do {
     let ssize = (if ssize < MINSTK then MINSTK else ssize);
     let ssize = roundew ssize;
     (saddr, h) \<leftarrow> getstk (envtab s EV_MEMALLOC) ssize (heap s);
     let s = s\<lparr>heap := h\<rparr>;
     if saddr = SYSERR then Some (SYSERR, s)
     else do {
       (pid, s) \<leftarrow> newpid s;
       if pid = SYSERR \<or> priority < 1 then Some (SYSERR, s)
       else do {
         n \<leftarrow> chk32 (prcount s + 1);
         let s = cputime (s\<lparr>prcount := n\<rparr>);
         let (sp, m) = push_frame initret procaddr args (saddr, st32 saddr STACKMAGIC (mem s));
         let now = mstime_now s;
         let nm = copy_name (PNMLEN - 1) (mem s) name;
         s \<leftarrow> upd_proc pid (\<lambda>e. e\<lparr>prstate := PR_SUSP, timestatein := now,
                statetimes := (\<lambda>i st. if 0 \<le> i \<and> i < QTYPE_VALS then ztime else statetimes e i st),
                prprio0 := priority, prprio := priority, prstkbase := saddr, prstklen := ssize,
                prname := nm, prsem := -1, prparent := currpid s, prhasmsg := False,
                prdesc := (prdesc e)(0 := CONSOLE, 1 := CONSOLE, 2 := CONSOLE), prstkptr := sp\<rparr>) s;
         Some (pid, s\<lparr>mem := m\<rparr>)
       }
     }
   }"

section \<open>kill\<close>

definition pstates :: "pstate list" where
  "pstates = [PR_FREE, PR_CURR, PR_READY, PR_RECV, PR_SLEEP, PR_SUSP, PR_WAIT, PR_RECTIM]"

text \<open>A process is counted for every scheduler under which it spent time in some state.\<close>

definition count_finished :: "int \<Rightarrow> kernel \<Rightarrow> kernel" where
  "count_finished pid s =
     (let e = proctab s pid in
      fold (\<lambda>i s. if \<exists>j\<in>set pstates. secs (statetimes e i j) \<noteq> 0 \<or> ms (statetimes e i j) \<noteq> 0
                  then s\<lparr>procs_finished := (procs_finished s)(i := u32 (procs_finished s i + 1))\<rparr> else s)
        [0, 1, 2] s)"

definition add_scount :: "int \<Rightarrow> int \<Rightarrow> kernel \<Rightarrow> kernel option" where
  "add_scount sem d s = do {
     e \<leftarrow> sement sem s;
     c \<leftarrow> chk32 (scount e + d);
     upd_sem sem (\<lambda>e. e\<lparr>scount := c\<rparr>) s
   }"

definition kill_free :: "int \<Rightarrow> int \<Rightarrow> kernel \<Rightarrow> kernel option" where
  "kill_free me pid s = do {
     s \<leftarrow> set_state pid PR_FREE s;
     Some (deliver me OK s)
   }"

text \<open>
  The case \<open>PR_READY\<close> of the switch, into which \<open>PR_WAIT\<close> falls through.
\<close>

definition kill_linked :: "int \<Rightarrow> int \<Rightarrow> kernel \<Rightarrow> kernel option" where
  "kill_linked me pid s = do {
     (_, s) \<leftarrow> getitem pid s;
     if rwbflags s pid \<noteq> 0 \<and> prsem (proctab s pid) < -1 then do {
       s \<leftarrow> signalrwb_for pid (-1 * (prsem (proctab s pid) + 2)) s;
       after me (KKillFree pid) (kill_free me pid) s
     } else kill_free me pid s
   }"

definition kill_switch :: "int \<Rightarrow> int \<Rightarrow> kernel \<Rightarrow> kernel option" where
  "kill_switch me pid s = do {
     e \<leftarrow> proc pid s;
     case prstate e of
       PR_CURR \<Rightarrow> do {
         s \<leftarrow> set_state pid PR_FREE s;
         s \<leftarrow> resched s;
         Some (deliver me OK s)
       }
     | PR_SLEEP \<Rightarrow> do { (_, s) \<leftarrow> unsleep pid s; kill_free me pid s }
     | PR_RECTIM \<Rightarrow> do { (_, s) \<leftarrow> unsleep pid s; kill_free me pid s }
     | PR_WAIT \<Rightarrow>
         if prsem e < -1 then do {
           let rwbid = -1 * (prsem e + 2);
           s \<leftarrow> set_flag pid 0 s;
           s \<leftarrow> add_qcount rwbid (-1) s;
           kill_linked me pid s
         } else do {
           s \<leftarrow> add_scount (prsem e) 1 s;
           kill_linked me pid s
         }
     | PR_READY \<Rightarrow> kill_linked me pid s
     | _ \<Rightarrow> kill_free me pid s
   }"

definition kill_rest :: "devtab \<Rightarrow> int \<Rightarrow> int \<Rightarrow> kernel \<Rightarrow> kernel option" where
  "kill_rest devtab me pid s = do {
     (_, s) \<leftarrow> close_dev devtab (prdesc (proctab s pid) 0) s;
     (_, s) \<leftarrow> close_dev devtab (prdesc (proctab s pid) 1) s;
     (_, s) \<leftarrow> close_dev devtab (prdesc (proctab s pid) 2) s;
     (_, h) \<leftarrow> freestk (prstkbase (proctab s pid)) (prstklen (proctab s pid)) (heap s);
     (_, s) \<leftarrow> record_cpuqdata pid (s\<lparr>heap := h\<rparr>);
     kill_switch me pid (count_finished pid s)
   }"

text \<open>\<open>xdone\<close> halts the processor: the call does not return.\<close>

definition xdone :: "kernel \<Rightarrow> kernel option" where
  "xdone s = None"

definition kill :: "devtab \<Rightarrow> int \<Rightarrow> kernel \<Rightarrow> kernel option" where
  "kill devtab pid s =
     (let me = currpid s in
      if isbadpid s pid \<or> pid = NULLPROC then Some (deliver me SYSERR s)
      else do {
        n \<leftarrow> chk32 (prcount s - 1);
        let s = s\<lparr>prcount := n\<rparr>;
        s \<leftarrow> (if n \<le> 1 then xdone s else Some s);
        (_, s) \<leftarrow> send (prparent (proctab s pid)) pid s;
        after me (KKill pid) (kill_rest devtab me pid) s
      })"

definition exit :: "devtab \<Rightarrow> kernel \<Rightarrow> kernel option" where
  "exit devtab s = kill devtab (getpid s) s"

definition userret :: "devtab \<Rightarrow> kernel \<Rightarrow> kernel option" where
  "userret devtab s = kill devtab (getpid s) s"

section \<open>Allocating a process id\<close>

definition adv_pid :: "kernel \<Rightarrow> kernel" where
  "adv_pid s = s\<lparr>nextpid := nextpid s mod NPROC + 1\<rparr>"

lemma newpid_loop_Suc: "0 \<le> nextpid s \<Longrightarrow> newpid_loop (Suc k) s =
    (if prstate (proctab s (nextpid s mod NPROC)) = PR_FREE then Some (nextpid s mod NPROC, adv_pid s)
     else newpid_loop k (adv_pid s))"
  by (simp add: adv_pid_def)

interpretation pidalloc: ring_alloc NPROC "\<lambda>s. nextpid s mod NPROC" adv_pid
    "\<lambda>s i. prstate (proctab s i) = PR_FREE" "\<lambda>i s. Some (i, s)" newpid_loop "\<lambda>s. 0 \<le> nextpid s"
  by unfold_locales (simp_all add: newpid_loop_Suc del: newpid_loop.simps(2), simp_all add: adv_pid_def)

lemma adv_pid_power: "\<exists>n. (adv_pid ^^ m) s = s\<lparr>nextpid := n\<rparr>"
  by (induction m) (auto simp: adv_pid_def intro: exI [of _ "nextpid s"])

lemma adv_pid_steps:
  assumes "0 \<le> nextpid s"
  obtains n where "(adv_pid ^^ m) s = s\<lparr>nextpid := n\<rparr>" "0 \<le> n"
  using adv_pid_power [of m s] pidalloc.steps_ok [OF assms, of m] by fastforce

lemma newpid_ok:
  assumes "0 \<le> nextpid s" "0 \<le> i" "i < 100" "prstate (proctab s i) = PR_FREE"
  shows "\<exists>pid n. newpid s = Some (pid, s\<lparr>nextpid := n\<rparr>) \<and> 0 \<le> pid \<and> pid < 100 \<and> prstate (proctab s pid) = PR_FREE \<and> 0 \<le> n"
proof -
  obtain m where m: "prstate (proctab s (pidalloc.slot s m)) = PR_FREE"
    "newpid_loop (nat 100) s = Some (pidalloc.slot s m, (adv_pid ^^ Suc m) s)"
    using pidalloc.search_finds [OF assms(1-3)] assms(4) by blast
  obtain n where "(adv_pid ^^ Suc m) s = s\<lparr>nextpid := n\<rparr>" "0 \<le> n"
    by (rule adv_pid_steps [OF assms(1)])
  then show ?thesis using m pidalloc.slot_bounds [of s m] by (auto simp: newpid_def)
qed

lemma newpid_full:
  assumes "0 \<le> nextpid s" "\<And>i. 0 \<le> i \<Longrightarrow> i < 100 \<Longrightarrow> prstate (proctab s i) \<noteq> PR_FREE"
  shows "\<exists>n. newpid s = Some (SYSERR, s\<lparr>nextpid := n\<rparr>) \<and> 0 \<le> n"
proof -
  have "newpid s = Some (SYSERR, (adv_pid ^^ nat 100) s)"
    unfolding newpid_def by (rule pidalloc.search_full [OF assms(1)]) (use assms(2) in auto)
  moreover obtain n where "(adv_pid ^^ nat 100) s = s\<lparr>nextpid := n\<rparr>" "0 \<le> n"
    by (rule adv_pid_steps [OF assms(1)])
  ultimately show ?thesis by auto
qed

section \<open>The initial stack\<close>

text \<open>The words \<open>ws\<close> lie at \<open>a\<close> and above.\<close>

fun words :: "bytes \<Rightarrow> int \<Rightarrow> int list \<Rightarrow> bool" where
  "words m a [] \<longleftrightarrow> True"
| "words m a (w # ws) \<longleftrightarrow> ld32 m a = u32 w \<and> words m (a + 4) ws"

lemma words_append: "words m a (xs @ ys) \<longleftrightarrow> words m a xs \<and> words m (a + 4 * int (length xs)) ys"
  by (induction xs arbitrary: a) (simp_all add: algebra_simps)

lemma words_below: "b + 4 \<le> a \<Longrightarrow> words (st32 b x m) a ws = words m a ws"
  by (induction ws arbitrary: a) (simp_all add: ld32_apart)

lemma push_app [simp]: "push x (a, m) = (a - 4, st32 (a - 4) x m)"
  by (simp add: push_def)

lemma fold_push: "fold push xs (a, m) = (b, m') \<Longrightarrow>
    b = a - 4 * int (length xs) \<and> (words m a ws \<longrightarrow> words m' b (rev xs @ ws)) \<and>
    (\<forall>x. x < b \<or> a \<le> x \<longrightarrow> m' x = m x)"
proof (induction xs arbitrary: a m ws)
  case (Cons x xs)
  from Cons.prems have f: "fold push xs (a - 4, st32 (a - 4) x m) = (b, m')" by simp
  have w: "words m a ws \<Longrightarrow> words (st32 (a - 4) x m) (a - 4) (x # ws)" by (simp add: words_below)
  have IH: "b = a - 4 - 4 * int (length xs)" "words (st32 (a - 4) x m) (a - 4) (x # ws) \<Longrightarrow> words m' b (rev xs @ x # ws)"
    "\<And>z. z < b \<or> a - 4 \<le> z \<Longrightarrow> m' z = st32 (a - 4) x m z"
    using Cons.IH [OF f, of "x # ws"] by blast+
  have "b = a - 4 * int (length (x # xs))" using IH(1) by simp
  moreover have "words m a ws \<longrightarrow> words m' b (rev (x # xs) @ ws)" using IH(2) [OF w] by simp
  moreover have "m' z = m z" if "z < b \<or> a \<le> z" for z
  proof -
    have "z < b \<or> a - 4 \<le> z" using that by linarith
    then have "m' z = st32 (a - 4) x m z" by (rule IH(3))
    also have "\<dots> = m z" using that IH(1) by (intro st32_other) linarith
    finally show ?thesis .
  qed
  ultimately show ?case by blast
qed simp

definition frame_words :: "int \<Rightarrow> int \<Rightarrow> int list \<Rightarrow> int list" where
  "frame_words initret procaddr args = [0x53, initret] @ take 4 (args @ replicate 4 0) @ replicate 8 0 @ [procaddr] @ drop 4 args"

lemma first_args: "map (\<lambda>i. if i \<le> length args then args ! (i - 1) else 0) [1..<5] = take 4 (args @ replicate 4 (0 :: int))"
proof -
  have u: "[1..<5] = [1, 2, 3, 4 :: nat]" by (simp add: upt_conv_Cons)
  have r: "replicate 4 (0 :: int) = [0, 0, 0, 0]" by (simp add: numeral_eq_Suc)
  consider "args = []" | a where "args = [a]" | a b where "args = [a, b]" | a b c where "args = [a, b, c]"
    | a b c d xs where "args = a # b # c # d # xs"
    by (metis list.exhaust)
  then show ?thesis unfolding u r by cases simp_all
qed

lemma push_frame_pushes: "push_frame initret procaddr args = fold push (rev (frame_words initret procaddr args))"
proof -
  have r: "rev (map f [1..<5]) = map f (rev [1..<5])" for f :: "nat \<Rightarrow> int" by (simp add: rev_map)
  show ?thesis unfolding push_frame_def Let_def frame_words_def fun_eq_iff first_args [symmetric] rev_append r
    by simp
qed

lemma push_frame_ok:
  assumes "push_frame initret procaddr args (a, m) = (sp, m')" "words m a ws"
  shows "words m' sp (frame_words initret procaddr args @ ws)"
    "sp = a - 4 * (15 + int (length args - 4))" "\<And>x. x < sp \<or> a \<le> x \<Longrightarrow> m' x = m x"
proof -
  have l: "length (frame_words initret procaddr args) = 15 + (length args - 4)"
    by (simp add: frame_words_def)
  note F = fold_push [OF assms(1) [unfolded push_frame_pushes], of ws]
  show "words m' sp (frame_words initret procaddr args @ ws)" "\<And>x. x < sp \<or> a \<le> x \<Longrightarrow> m' x = m x"
    using F assms(2) by auto
  show "sp = a - 4 * (15 + int (length args - 4))" using F l by simp
qed

section \<open>create\<close>

lemma create_no_stack:
  assumes "getstk (envtab s EV_MEMALLOC) (roundew (if ssize < MINSTK then MINSTK else ssize)) (heap s) = Some (SYSERR, h)"
  shows "create initret procaddr ssize priority name args s = Some (SYSERR, s\<lparr>heap := h\<rparr>)"
  using assms by (simp add: create_def)

lemma kcore_heap: "kcore (s\<lparr>heap := h\<rparr>) = kcore s"
  by (simp add: kcore_def)

text \<open>The stack that was obtained is not given back when the call fails afterwards.\<close>

lemma create_fails:
  assumes g: "getstk (envtab s EV_MEMALLOC) (roundew (if ssize < MINSTK then MINSTK else ssize)) (heap s) = Some (saddr, h)" "saddr \<noteq> SYSERR"
    and np: "0 \<le> nextpid s" and f: "priority < 1 \<or> (\<forall>i. 0 \<le> i \<and> i < 100 \<longrightarrow> prstate (proctab s i) \<noteq> PR_FREE)"
  shows "\<exists>n. create initret procaddr ssize priority name args s = Some (SYSERR, s\<lparr>heap := h, nextpid := n\<rparr>) \<and> 0 \<le> n"
proof -
  define s1 where "s1 = s\<lparr>heap := h\<rparr>"
  have s1: "nextpid s1 = nextpid s" "proctab s1 = proctab s" by (simp_all add: s1_def)
  obtain pid n where "newpid s1 = Some (pid, s1\<lparr>nextpid := n\<rparr>)" "pid = SYSERR \<or> priority < 1" "0 \<le> n"
  proof (cases "\<exists>i. 0 \<le> i \<and> i < 100 \<and> prstate (proctab s i) = PR_FREE")
    case True
    then show thesis using newpid_ok [of s1] np f that unfolding s1 by blast
  next
    case False
    then show thesis using newpid_full [of s1] np that unfolding s1 by blast
  qed
  moreover from this have "create initret procaddr ssize priority name args s = Some (SYSERR, s1\<lparr>nextpid := n\<rparr>)"
    using g by (simp add: create_def s1_def [symmetric])
  ultimately show ?thesis by (auto simp: s1_def)
qed

text \<open>A new process is suspended, has the stack \<open>ctxsw\<close> expects, and takes a free entry of the table.\<close>

lemma create_ok:
  assumes inv: "kinv s Q" and np: "0 \<le> nextpid s" and i: "0 \<le> i" "i < 100" "prstate (proctab s i) = PR_FREE"
    and pr: "1 \<le> priority" and pc: "in_s32 (prcount s + 1)"
    and g: "getstk (envtab s EV_MEMALLOC) (roundew (if ssize < MINSTK then MINSTK else ssize)) (heap s) = Some (saddr, h)" "saddr \<noteq> SYSERR"
  shows "\<exists>pid s'. create initret procaddr ssize priority name args s = Some (pid, s') \<and> kinv s' Q
    \<and> 0 \<le> pid \<and> pid < 100 \<and> prstate (proctab s pid) = PR_FREE \<and> prstate (proctab s' pid) = PR_SUSP
    \<and> prprio (proctab s' pid) = priority \<and> prparent (proctab s' pid) = currpid s \<and> \<not> prhasmsg (proctab s' pid)
    \<and> prstkbase (proctab s' pid) = saddr
    \<and> (\<forall>p. p \<noteq> pid \<longrightarrow> proctab s' p = proctab s p) \<and> prcount s' = prcount s + 1 \<and> heap s' = h
    \<and> words (mem s') (prstkptr (proctab s' pid)) (frame_words initret procaddr args @ [STACKMAGIC])
    \<and> (\<forall>x. x < prstkptr (proctab s' pid) \<or> saddr + 4 \<le> x \<longrightarrow> mem s' x = mem s x)
    \<and> (\<exists>n t. 0 \<le> n \<and> s' = s\<lparr>heap := h, nextpid := n, prcount := prcount s + 1, mstime_now := t, proctab := proctab s', mem := mem s'\<rparr>)"
proof -
  define s1 where "s1 = s\<lparr>heap := h\<rparr>"
  obtain pid n where N: "newpid s1 = Some (pid, s1\<lparr>nextpid := n\<rparr>)" "0 \<le> pid" "pid < 100" "prstate (proctab s pid) = PR_FREE" "0 \<le> n"
    using newpid_ok [of s1 i] np i by (auto simp: s1_def)
  define ssz where "ssz = roundew (if ssize < MINSTK then MINSTK else ssize)"
  define t where "t = cputime (s1\<lparr>nextpid := n, prcount := prcount s1 + 1\<rparr>)"
  have tf: "proctab t = proctab s" "mem t = mem s" "currpid t = currpid s" "heap t = h" "prcount t = prcount s + 1"
    by (simp_all add: t_def s1_def cputime_def)
  obtain sp m where F: "push_frame initret procaddr args (saddr, st32 saddr STACKMAGIC (mem t)) = (sp, m)" by fastforce
  define set_e where "set_e = (\<lambda>e::procent. e\<lparr>prstate := PR_SUSP, timestatein := mstime_now t,
                statetimes := (\<lambda>i st. if 0 \<le> i \<and> i < QTYPE_VALS then ztime else statetimes e i st),
                prprio0 := priority, prprio := priority, prstkbase := saddr, prstklen := ssz,
                prname := copy_name 15 (mem t) name, prsem := -1, prparent := currpid t, prhasmsg := False,
                prdesc := (prdesc e)(0 := CONSOLE, 1 := CONSOLE, 2 := CONSOLE), prstkptr := sp\<rparr>)"
  define e where "e = set_e (proctab s pid)"
  define s' where "s' = t\<lparr>proctab := (proctab s)(pid := e), mem := m\<rparr>"
  have pcs: "chk32 (prcount s1 + 1) = Some (prcount s1 + 1)" using pc by (simp add: s1_def)
  have u: "upd_proc pid set_e t = Some (t\<lparr>proctab := (proctab s)(pid := e)\<rparr>)" using N by (simp add: tf e_def)
  have run: "create initret procaddr ssize priority name args s = Some (pid, s')"
    unfolding create_def Let_def ssz_def [symmetric]
    using g [folded ssz_def] N(1,2) pr pcs F u
    by (simp add: s1_def [symmetric] t_def [symmetric] set_e_def [symmetric] s'_def del: chk32_Some chk32_in upd_proc_Some)
  have core: "kcore t = kcore s" by (simp add: t_def s1_def cputime_def kcore_def fun_eq_iff)
  have cur: "prstate (proctab s (currpid s)) = PR_CURR" and pre: "kpre t Q"
    using inv kpre_core [OF core] by (simp_all add: kinv_def)
  have pc: "pid \<noteq> currpid s" using N(4) cur by auto
  have p0: "pid \<noteq> 0" using kpreD(7) [OF kinv_kpre [OF inv]] N(4) by auto
  have "pqueue t pid = None" using N(4) by (simp add: pqueue_def pq_def tf)
  then have "kpre (t\<lparr>proctab := (proctab t)(pid := e)\<rparr>) Q"
    by (rule kpre_set [OF pre]) (use N p0 in \<open>simp_all add: e_def set_e_def wait_ok_def pq_def\<close>)
  moreover have "kcore s' = kcore (t\<lparr>proctab := (proctab t)(pid := e)\<rparr>)" by (simp add: s'_def kcore_def tf)
  ultimately have "kpre s' Q" using kpre_core by blast
  then have inv': "kinv s' Q" using cur pc by (simp add: kinv_def s'_def tf)
  have w: "words (st32 saddr STACKMAGIC (mem t)) saddr [STACKMAGIC]" by simp
  note P = push_frame_ok [OF F w]
  have "mem s' x = mem s x" if "x < sp \<or> saddr + 4 \<le> x" for x
    using that P(2) P(3) [of x] by (auto simp: s'_def tf st32_other)
  moreover have "s' = s\<lparr>heap := h, nextpid := n, prcount := prcount s + 1, mstime_now := mstime_now t, proctab := proctab s', mem := mem s'\<rparr>"
    by (simp add: s'_def t_def s1_def cputime_def)
  then have "\<exists>n t. 0 \<le> n \<and> s' = s\<lparr>heap := h, nextpid := n, prcount := prcount s + 1, mstime_now := t, proctab := proctab s', mem := mem s'\<rparr>"
    using N(5) by blast
  ultimately show ?thesis using run inv' N P(1)
    by (intro exI [of _ pid] exI [of _ s']) (simp add: s'_def e_def set_e_def tf)
qed

section \<open>kill\<close>

text \<open>A process that leaves every queue.\<close>

lemma removed_linked:
  assumes pre: "kpre s Q" and q: "q \<in> qids (nextqid s)" and Qq: "Q q = ys @ p # zs"
  shows "\<forall>r\<in>qids (nextqid s). (Q(q := ys @ zs)) r = remove1 p (Q r)"
proof
  note R = qrelD(2,3) [OF kpreD(3) [OF pre]]
  fix r assume r: "r \<in> qids (nextqid s)"
  show "(Q(q := ys @ zs)) r = remove1 p (Q r)"
  proof (cases "r = q")
    case True
    then show ?thesis using R(1) [OF q] Qq by (simp add: remove1_append)
  next
    case False
    have "p \<notin> set (Q r)" using R(2) [OF q, of p] R(2) [OF r, of p] Qq False by auto
    then show ?thesis using False by (simp add: remove1_idem)
  qed
qed

lemma removed_unlinked:
  assumes "kpre s Q" "pqueue s p = None"
  shows "\<forall>r\<in>qids (nextqid s). Q r = remove1 p (Q r)"
  using qrelD(3) [OF kpreD(3) [OF assms(1)], of _ p] assms(2) by (auto simp: remove1_idem)

lemma kout_free:
  assumes "kout p s Q" "0 < p" "p < 100" "prstate (proctab s (currpid s)) = PR_CURR" "p \<noteq> currpid s"
  shows "kinv (mkst PR_FREE p s) Q"
proof -
  have "kout p (mkst PR_FREE p s) Q"
    unfolding mkst_def by (rule kout_set [OF assms(1)]) (use assms(2,3) in \<open>simp_all add: wait_ok_def\<close>)
  moreover have "pqueue (mkst PR_FREE p s) p = None" by (simp add: pqueue_def pq_def)
  ultimately show ?thesis using kout_kpre assms(4,5) by (auto simp: kinv_def)
qed

lemma getitem_free:
  assumes inv: "kinv s Q" and p: "0 < p" "p < 100" "p \<noteq> currpid s" and pq: "pqueue s p = Some q" "q \<in> qids (nextqid s)"
  shows "\<exists>t Q'. getitem p s = Some (p, s\<lparr>queuetab := t\<rparr>) \<and> kinv (mkst PR_FREE p (s\<lparr>queuetab := t\<rparr>)) Q'
    \<and> (\<forall>r\<in>qids (nextqid s). Q' r = remove1 p (Q r))"
proof -
  note pre = kinv_kpre [OF inv]
  have "0 \<le> p" using p by simp
  from kpre_linked [OF pre this p(2) pq] obtain ys zs where L: "Q q = ys @ p # zs" .
  obtain t where g: "getitem p s = Some (p, s\<lparr>queuetab := t\<rparr>)" "kout p (s\<lparr>queuetab := t\<rparr>) (Q(q := ys @ zs))"
    using getitem_out [OF pre pq(2) L] by blast
  have "kinv (mkst PR_FREE p (s\<lparr>queuetab := t\<rparr>)) (Q(q := ys @ zs))"
    by (rule kout_free [OF g(2) p(1,2)]) (use inv p(3) in \<open>simp_all add: kinv_def\<close>)
  then show ?thesis using g(1) removed_linked [OF pre pq(2) L] by blast
qed

lemma unsleep_free:
  assumes inv: "kinv s Q" and p: "0 < p" "p \<noteq> currpid s" and nb: "\<not> isbadpid s p"
    and st: "prstate (proctab s p) = PR_SLEEP \<or> prstate (proctab s p) = PR_RECTIM"
  shows "\<exists>t Q'. unsleep p s = Some (OK, s\<lparr>queuetab := t\<rparr>) \<and> kinv (mkst PR_FREE p (s\<lparr>queuetab := t\<rparr>)) Q'
    \<and> (\<forall>r\<in>qids (nextqid s). Q' r = remove1 p (Q r))"
proof -
  note pre = kinv_kpre [OF inv]
  have pb: "p < 100" using nb by (simp add: isbadpid_def)
  obtain t ys zs where U: "unsleep p s = Some (OK, s\<lparr>queuetab := t\<rparr>)" "Q (sleepq s) = ys @ p # zs"
    "kout p (s\<lparr>queuetab := t\<rparr>) (Q(sleepq s := ys @ zs))"
    using unsleep_ok [OF pre nb st] by blast
  have "kinv (mkst PR_FREE p (s\<lparr>queuetab := t\<rparr>)) (Q(sleepq s := ys @ zs))"
    by (rule kout_free [OF U(3) p(1) pb]) (use inv p(2) in \<open>simp_all add: kinv_def\<close>)
  then show ?thesis using U(1) removed_linked [OF pre layout_sleep [OF kpreD(1) [OF pre]] U(2)] by blast
qed

text \<open>What \<open>kill\<close> takes back from the semaphore or the blocker the process waits on.\<close>

definition unwait :: "int \<Rightarrow> kernel \<Rightarrow> kernel" where
  "unwait pid s = (let e = proctab s pid in
     if prstate e = PR_WAIT then
       if prsem e < -1 then s\<lparr>rwbflags := (rwbflags s)(pid := 0), rwbtab := (rwbtab s)(- prsem e - 2 :=
         (rwbtab s (- prsem e - 2))\<lparr>qcount := qcount (rwbtab s (- prsem e - 2)) - 1\<rparr>)\<rparr>
       else s\<lparr>semtab := (semtab s)(prsem e := (semtab s (prsem e))\<lparr>scount := scount (semtab s (prsem e)) + 1\<rparr>)\<rparr>
     else s)"

lemma kcore_unwait: "kcore (unwait pid s) = kcore s"
  by (simp add: unwait_def kcore_def fun_eq_iff Let_def)

text \<open>The counts that \<open>kill\<close> changes stay within \<open>int32\<close>, and a ready process holds no blocker it waited for.\<close>

definition kill_safe :: "int \<Rightarrow> kernel \<Rightarrow> bool" where
  "kill_safe pid s \<longleftrightarrow> (let e = proctab s pid in
     (prstate e = PR_WAIT \<longrightarrow> (if prsem e < -1 then in_s32 (qcount (rwbtab s (- prsem e - 2)) - 1)
        else in_s32 (scount (semtab s (prsem e)) + 1))) \<and>
     (prstate e = PR_READY \<longrightarrow> rwbflags s pid = 0 \<or> -1 \<le> prsem e))"

lemma kill_linked_ok:
  assumes inv: "kinv s Q" and p: "0 < pid" "pid < 100" "pid \<noteq> currpid s" and pq: "pqueue s pid = Some q" "q \<in> qids (nextqid s)"
    and f: "rwbflags s pid = 0 \<or> -1 \<le> prsem (proctab s pid)"
  shows "\<exists>t Q'. kill_linked me pid s = Some (deliver me OK (mkst PR_FREE pid (s\<lparr>queuetab := t\<rparr>)))
    \<and> kinv (mkst PR_FREE pid (s\<lparr>queuetab := t\<rparr>)) Q' \<and> (\<forall>r\<in>qids (nextqid s). Q' r = remove1 pid (Q r))"
  using getitem_free [OF inv p pq] p f by (auto simp: kill_linked_def kill_free_def)

lemma kill_switch_ok:
  assumes inv: "kinv s Q" and nb: "\<not> isbadpid s pid" and p: "pid \<noteq> 0" "pid \<noteq> currpid s" and sf: "kill_safe pid s"
  shows "\<exists>t Q'. kill_switch me pid s = Some (deliver me OK (mkst PR_FREE pid ((unwait pid s)\<lparr>queuetab := t\<rparr>)))
    \<and> kinv (mkst PR_FREE pid ((unwait pid s)\<lparr>queuetab := t\<rparr>)) Q' \<and> (\<forall>r\<in>qids (nextqid s). Q' r = remove1 pid (Q r))"
proof -
  have pb: "0 < pid" "0 \<le> pid" "pid < 100" using nb p by (simp_all add: isbadpid_def)
  note pre = kinv_kpre [OF inv]
  note P = kpreD [OF pre]
  define v where "v = unwait pid s"
  have cv: "kcore v = kcore s" by (simp add: v_def kcore_unwait)
  note C = kcoreD [OF cv]
  have invv: "kinv v Q" using kinv_core [OF cv] inv by simp
  have pv: "pid \<noteq> currpid v" "nextqid v = nextqid s" "pqueue v = pqueue s" using p C pqueue_core [OF cv] by simp_all
  have cur: "prstate (proctab s pid) \<noteq> PR_CURR" using P(6) pb p by blast
  have simple: ?thesis if "v = s" "pqueue s pid = None"
    "kill_switch me pid s = Some (deliver me OK (mkst PR_FREE pid s))"
  proof -
    have "kinv (mkst PR_FREE pid s) Q"
      by (rule kout_free [OF kpre_kout [OF pre that(2)] pb(1,3)]) (use inv p in \<open>simp_all add: kinv_def\<close>)
    then show ?thesis using that removed_unlinked [OF pre that(2)] unfolding v_def
      by (intro exI [of _ "queuetab s"] exI [of _ Q]) simp
  qed
  have idle: ?thesis if st: "prstate (proctab s pid) = PR_RECV \<or> prstate (proctab s pid) = PR_SUSP"
  proof (rule simple)
    show "v = s" using st by (auto simp: v_def unwait_def)
    show "pqueue s pid = None" using st by (auto simp: pqueue_def pq_def)
    show "kill_switch me pid s = Some (deliver me OK (mkst PR_FREE pid s))"
      using st pb by (auto simp: kill_switch_def kill_free_def)
  qed
  have slept: ?thesis if "prstate (proctab s pid) = PR_SLEEP \<or> prstate (proctab s pid) = PR_RECTIM"
  proof -
    have "v = s" using that by (auto simp: v_def unwait_def)
    then show ?thesis using unsleep_free [OF inv pb(1) p(2) nb that] that pb unfolding v_def
      by (auto simp: kill_switch_def kill_free_def)
  qed
  have linked: ?thesis if "pqueue s pid = Some q" "q \<in> qids (nextqid s)"
    "rwbflags v pid = 0 \<or> -1 \<le> prsem (proctab v pid)" "kill_switch me pid s = kill_linked me pid v" for q
    using kill_linked_ok [OF invv pb(1,3) pv(1), of q me] that pv(2,3) unfolding v_def by simp
  show ?thesis
  proof (cases "prstate (proctab s pid)")
    case PR_READY
    then show ?thesis using sf pb layout_ready [OF P(1)]
      by (intro linked [of "readylist s"]) (auto simp: pqueue_def pq_def kill_switch_def v_def unwait_def kill_safe_def Let_def)
  next
    case PR_WAIT
    have w: "0 \<le> prsem (proctab s pid) \<and> prsem (proctab s pid) < 100 \<or> - 11 \<le> prsem (proctab s pid) \<and> prsem (proctab s pid) \<le> -2"
      using P(8) [OF pb(2,3)] PR_WAIT by (simp add: wait_ok_def)
    show ?thesis
    proof (cases "prsem (proctab s pid) < -1")
      case True
      then have i: "0 \<le> - prsem (proctab s pid) - 2" "- prsem (proctab s pid) - 2 < 10" using w by auto
      have q: "pqueue s pid = Some (rwqueue (rwbtab s (- prsem (proctab s pid) - 2)))"
        using PR_WAIT True by (simp add: pqueue_def pq_def)
      have "kill_switch me pid s = kill_linked me pid v"
        using PR_WAIT True sf i pb by (simp add: kill_switch_def kill_safe_def Let_def v_def unwait_def)
      then show ?thesis using layout_rwb [OF P(1) conjI [OF i]] True PR_WAIT
        by (intro linked [OF q]) (simp_all add: v_def unwait_def Let_def)
    next
      case False
      then have i: "0 \<le> prsem (proctab s pid)" "prsem (proctab s pid) < 100" using w by auto
      have q: "pqueue s pid = Some (squeue (semtab s (prsem (proctab s pid))))"
        using PR_WAIT False by (simp add: pqueue_def pq_def)
      have "kill_switch me pid s = kill_linked me pid v"
        using PR_WAIT False sf i pb by (simp add: kill_switch_def kill_safe_def Let_def v_def unwait_def add_scount_def)
      then show ?thesis using layout_sem [OF P(1) conjI [OF i]] False PR_WAIT
        by (intro linked [OF q]) (simp_all add: v_def unwait_def Let_def)
    qed
  qed (use slept idle cur nb in \<open>simp_all add: isbadpid_def\<close>)
qed

lemma fold_finished:
  "\<exists>f. fold (\<lambda>i s. if B i then s\<lparr>procs_finished := g i s\<rparr> else s) xs s = s\<lparr>procs_finished := f\<rparr>"
proof (induction xs arbitrary: s)
  case Nil
  then show ?case by (intro exI [of _ "procs_finished s"]) simp
next
  case (Cons i xs)
  show ?case using Cons.IH [of s] Cons.IH [of "s\<lparr>procs_finished := g i s\<rparr>"] by (cases "B i") simp_all
qed

lemma count_finished_ok: "\<exists>f. count_finished pid s = s\<lparr>procs_finished := f\<rparr>"
  unfolding count_finished_def Let_def by (rule fold_finished)

lemma kcore_finished: "kcore (s\<lparr>procs_finished := f\<rparr>) = kcore s"
  by (simp add: kcore_def)

lemma unwait_finished: "unwait pid (s\<lparr>procs_finished := f\<rparr>) = (unwait pid s)\<lparr>procs_finished := f\<rparr>"
  by (simp add: unwait_def Let_def)

lemma unwait_fields [simp]:
  "proctab (unwait pid s) = proctab s" "currpid (unwait pid s) = currpid s" "prcount (unwait pid s) = prcount s"
  "heap (unwait pid s) = heap s" "nextqid (unwait pid s) = nextqid s"
  by (simp_all add: unwait_def Let_def)

text \<open>The parent is not waiting for a message, so telling it about the death reschedules nobody.\<close>

definition parent_deaf :: "int \<Rightarrow> kernel \<Rightarrow> bool" where
  "parent_deaf pid s \<longleftrightarrow> (let par = prparent (proctab s pid) in
     isbadpid s par \<or> prhasmsg (proctab s par) \<or> (prstate (proctab s par) \<noteq> PR_RECV \<and> prstate (proctab s par) \<noteq> PR_RECTIM))"

text \<open>
  The descriptors of the process are closed by \<open>ionull\<close> or \<open>ioerr\<close>, or are bad.  In
  \<open>system/conf.c\<close> this is so for the console, which \<open>create\<close> puts in all three, and
  for \<open>NULLDEV\<close>, \<open>ETHER0\<close>, \<open>NAMESPACE\<close>, \<open>RFILESYS\<close> and
  \<open>LFILESYS\<close>; closing a file or a disk waits for the semaphore of its driver.
\<close>

definition quiet_close :: "devtab \<Rightarrow> int \<Rightarrow> bool" where
  "quiet_close devtab d \<longleftrightarrow> isbaddev d \<or> dvclose (devtab d) = (\<lambda>_. ionull) \<or> dvclose (devtab d) = (\<lambda>_. ioerr)"

definition quiet_descs :: "devtab \<Rightarrow> int \<Rightarrow> kernel \<Rightarrow> bool" where
  "quiet_descs devtab pid s \<longleftrightarrow> (\<forall>i\<in>{0, 1, 2}. quiet_close devtab (prdesc (proctab s pid) i))"

lemma close_quiet: "quiet_close devtab d \<Longrightarrow> \<exists>r. close_dev devtab d s = Some (r, s)"
  by (auto simp: close_dev_def quiet_close_def ionull_def ioerr_def)

lemma send_quiet:
  assumes inv: "kinv s Q" and d: "isbadpid s par \<or> prhasmsg (proctab s par) \<or> (prstate (proctab s par) \<noteq> PR_RECV \<and> prstate (proctab s par) \<noteq> PR_RECTIM)"
  shows "\<exists>r t. send par m s = Some (r, t) \<and> kinv t Q \<and> (t = s \<or> (t = put_msg par m s \<and> 0 \<le> par \<and> par < 100))"
proof (cases "isbadpid s par \<or> prhasmsg (proctab s par)")
  case True
  then show ?thesis using send_bad inv by blast
next
  case False
  then show ?thesis using d send_busy_ok [OF inv, of par m] inv by (auto simp: isbadpid_def)
qed

text \<open>The part of \<open>kill\<close> after the parent was told.\<close>

lemma kill_rest_run:
  assumes inv: "kinv s Q" and pid: "\<not> isbadpid s pid" and cl: "quiet_descs devtab pid s"
    and fr: "freestk (prstkbase (proctab s pid)) (prstklen (proctab s pid)) (heap s) = Some (r, h)"
  shows "\<exists>u. kill_rest devtab me pid s = kill_switch me pid u \<and> kinv u Q \<and> currpid u = currpid s \<and> heap u = h
    \<and> prcount u = prcount s \<and> semtab u = semtab s \<and> rwbtab u = rwbtab s \<and> rwbflags u = rwbflags s \<and> nextqid u = nextqid s
    \<and> readylist u = readylist s \<and> ndefers u = ndefers s \<and> kcont u = kcont s
    \<and> (\<forall>p. prstate (proctab u p) = prstate (proctab s p) \<and> prsem (proctab u p) = prsem (proctab s p))"
proof -
  define s1 where "s1 = s\<lparr>heap := h\<rparr>"
  have inv1: "kinv s1 Q" using kinv_core [OF kcore_heap] inv by (simp add: s1_def)
  obtain r1 s2 where rec: "record_cpuqdata pid s1 = Some (r1, s2)" and a: "aframe s1 s2"
    using record_ok [OF kpreD(2) [OF kinv_kpre [OF inv1]], of pid] by blast
  note A = aframeD [OF a] and F = sframeD [OF aframeD(1) [OF a]]
  obtain f where cf: "count_finished pid s2 = s2\<lparr>procs_finished := f\<rparr>" using count_finished_ok by blast
  define u where "u = s2\<lparr>procs_finished := f\<rparr>"
  obtain r3 r4 r5 where c: "close_dev devtab (prdesc (proctab s pid) 0) s = Some (r3, s)"
    "close_dev devtab (prdesc (proctab s pid) 1) s = Some (r4, s)" "close_dev devtab (prdesc (proctab s pid) 2) s = Some (r5, s)"
    using close_quiet [of devtab "prdesc (proctab s pid) 0" s] close_quiet [of devtab "prdesc (proctab s pid) 1" s]
      close_quiet [of devtab "prdesc (proctab s pid) 2" s] cl that unfolding quiet_descs_def by auto
  have "kill_rest devtab me pid s = kill_switch me pid u"
    using c fr rec cf by (simp add: kill_rest_def s1_def [symmetric] u_def)
  moreover have "kinv u Q" using kinv_aframe [OF a] inv1 kinv_core [OF kcore_finished] by (simp add: u_def)
  moreover have "prsem (proctab u p) = prsem (proctab s p)" for p
    using sframe_procD(6) [OF aframeD(1) [OF a], of p] by (simp add: u_def s1_def)
  ultimately show ?thesis using A F by (intro exI [of _ u]) (simp add: u_def s1_def)
qed

lemma kill_bad: "isbadpid s pid \<or> pid = NULLPROC \<Longrightarrow> kill devtab pid s = Some (deliver (currpid s) SYSERR s)"
  by (auto simp: kill_def Let_def)

lemma kill_last: "\<not> isbadpid s pid \<Longrightarrow> pid \<noteq> 0 \<Longrightarrow> prcount s \<le> 2 \<Longrightarrow> kill devtab pid s = None"
  by (auto simp: kill_def Let_def xdone_def chk32_def)

text \<open>The start of \<open>kill\<close>, up to the point where the parent was told.\<close>

lemma kill_start:
  assumes inv: "kinv s Q" and nb: "\<not> isbadpid s pid" and p: "pid \<noteq> 0"
    and pc: "2 < prcount s" "prcount s < 2147483648" and pd: "parent_deaf pid s"
  shows "\<exists>t. kill devtab pid s = kill_rest devtab (currpid s) pid t \<and> kinv t Q \<and> currpid t = currpid s \<and> prcount t = prcount s - 1
    \<and> heap t = heap s \<and> semtab t = semtab s \<and> rwbtab t = rwbtab s \<and> rwbflags t = rwbflags s \<and> nextqid t = nextqid s
    \<and> readylist t = readylist s \<and> ndefers t = ndefers s \<and> kcont t = kcont s
    \<and> (\<forall>p. prstate (proctab t p) = prstate (proctab s p) \<and> prsem (proctab t p) = prsem (proctab s p)
      \<and> prstkbase (proctab t p) = prstkbase (proctab s p) \<and> prstklen (proctab t p) = prstklen (proctab s p)
      \<and> prdesc (proctab t p) = prdesc (proctab s p))"
proof -
  define par where "par = prparent (proctab s pid)"
  define s1 where "s1 = s\<lparr>prcount := prcount s - 1\<rparr>"
  have "kcore s1 = kcore s" by (simp add: s1_def kcore_def)
  then have inv1: "kinv s1 Q" using kinv_core inv by blast
  have "isbadpid s1 par \<or> prhasmsg (proctab s1 par) \<or> (prstate (proctab s1 par) \<noteq> PR_RECV \<and> prstate (proctab s1 par) \<noteq> PR_RECTIM)"
    using pd by (simp add: parent_deaf_def par_def s1_def isbadpid_def Let_def)
  then obtain r t where S: "send par pid s1 = Some (r, t)" "kinv t Q" "t = s1 \<or> (t = put_msg par pid s1 \<and> 0 \<le> par \<and> par < 100)"
    using send_quiet [OF inv1] by blast
  have ct: "currpid t = currpid s" using S(3) by (auto simp: s1_def)
  have "kill devtab pid s = kill_rest devtab (currpid s) pid t"
    using nb p pc S(1) ct by (simp add: kill_def Let_def in_s32_def s1_def [symmetric] par_def after_def) (simp add: s1_def par_def after_def)
  moreover have "prstkbase (proctab t p) = prstkbase (proctab s p) \<and> prstklen (proctab t p) = prstklen (proctab s p)
      \<and> prdesc (proctab t p) = prdesc (proctab s p)" for p
    using S(3) by (auto simp: s1_def put_msg_def)
  moreover have "prstate (proctab t p) = prstate (proctab s p) \<and> prsem (proctab t p) = prsem (proctab s p)" for p
    using S(3) by (auto simp: s1_def)
  moreover have "prcount t = prcount s - 1 \<and> heap t = heap s \<and> semtab t = semtab s \<and> rwbtab t = rwbtab s \<and> rwbflags t = rwbflags s
      \<and> nextqid t = nextqid s \<and> readylist t = readylist s \<and> ndefers t = ndefers s \<and> kcont t = kcont s"
    using S(3) by (auto simp: s1_def put_msg_def)
  ultimately show ?thesis using S(2) ct by blast
qed

text \<open>Killing another process: its entry is free, it is on no queue, and its stack is free memory.\<close>

lemma kill_other_ok:
  assumes inv: "kinv s Q" and nb: "\<not> isbadpid s pid" and p: "pid \<noteq> 0" "pid \<noteq> currpid s"
    and pc: "2 < prcount s" "prcount s < 2147483648" and pd: "parent_deaf pid s" and cl: "quiet_descs devtab pid s"
    and fr: "freestk (prstkbase (proctab s pid)) (prstklen (proctab s pid)) (heap s) = Some (r, h)" and sf: "kill_safe pid s"
  shows "\<exists>s' Q'. kill devtab pid s = Some s' \<and> kinv s' Q' \<and> (\<forall>q\<in>qids (nextqid s). Q' q = remove1 pid (Q q))
    \<and> prstate (proctab s' pid) = PR_FREE \<and> (\<forall>p. p \<noteq> pid \<longrightarrow> prstate (proctab s' p) = prstate (proctab s p))
    \<and> currpid s' = currpid s \<and> kret s' (currpid s) = OK \<and> prcount s' = prcount s - 1 \<and> heap s' = h
    \<and> semtab s' = semtab (unwait pid s) \<and> rwbtab s' = rwbtab (unwait pid s)"
proof -
  obtain t where K: "kill devtab pid s = kill_rest devtab (currpid s) pid t" and inv1: "kinv t Q"
    and T: "currpid t = currpid s" "prcount t = prcount s - 1" "heap t = heap s" "semtab t = semtab s" "rwbtab t = rwbtab s"
      "rwbflags t = rwbflags s" "nextqid t = nextqid s"
    and TP: "\<And>p. prstate (proctab t p) = prstate (proctab s p)" "\<And>p. prsem (proctab t p) = prsem (proctab s p)"
      "\<And>p. prstkbase (proctab t p) = prstkbase (proctab s p)" "\<And>p. prstklen (proctab t p) = prstklen (proctab s p)"
      "\<And>p. prdesc (proctab t p) = prdesc (proctab s p)"
    using kill_start [OF inv nb p(1) pc pd, of devtab] by blast
  have nb1: "\<not> isbadpid t pid" using nb TP by (simp add: isbadpid_def)
  have cl1: "quiet_descs devtab pid t" using cl by (simp add: quiet_descs_def TP)
  obtain u where R: "kill_rest devtab (currpid s) pid t = kill_switch (currpid s) pid u" and inv2: "kinv u Q"
    and U: "currpid u = currpid t" "heap u = h" "prcount u = prcount t" "semtab u = semtab t" "rwbtab u = rwbtab t"
      "rwbflags u = rwbflags t" "nextqid u = nextqid t"
    and UP: "\<And>p. prstate (proctab u p) = prstate (proctab t p)" "\<And>p. prsem (proctab u p) = prsem (proctab t p)"
    using kill_rest_run [OF inv1 nb1 cl1, of r h "currpid s"] fr by (auto simp: TP T)
  have nb2: "\<not> isbadpid u pid" using nb TP UP by (simp add: isbadpid_def)
  have sf2: "kill_safe pid u" using sf unfolding kill_safe_def Let_def by (simp add: T TP U UP)
  have pu: "pid \<noteq> currpid u" using p(2) by (simp add: T U)
  obtain tt Q' where W: "kill_switch (currpid s) pid u = Some (deliver (currpid s) OK (mkst PR_FREE pid ((unwait pid u)\<lparr>queuetab := tt\<rparr>)))"
    "kinv (mkst PR_FREE pid ((unwait pid u)\<lparr>queuetab := tt\<rparr>)) Q'" "\<forall>r\<in>qids (nextqid u). Q' r = remove1 pid (Q r)"
    using kill_switch_ok [OF inv2 nb2 p(1) pu sf2] by blast
  define s' where "s' = deliver (currpid s) OK (mkst PR_FREE pid ((unwait pid u)\<lparr>queuetab := tt\<rparr>))"
  have "semtab (unwait pid u) = semtab (unwait pid s)" "rwbtab (unwait pid u) = rwbtab (unwait pid s)"
    by (simp_all add: unwait_def Let_def T TP U UP)
  moreover have "kinv s' Q'" using W(2) by (simp add: s'_def)
  ultimately show ?thesis using K R W(1,3)
    by (intro exI [of _ s'] exI [of _ Q']) (simp add: s'_def deliver_def mkst_def T TP U UP)
qed

text \<open>Killing oneself: the head of the ready list runs and the entry is free.\<close>

lemma kill_self_ok:
  assumes inv: "kinv s Q" and p: "currpid s \<noteq> 0" and nd: "ndefers s \<le> 0"
    and pc: "2 < prcount s" "prcount s < 2147483648" and pd: "parent_deaf (currpid s) s" and cl: "quiet_descs devtab (currpid s) s"
    and fr: "freestk (prstkbase (proctab s (currpid s))) (prstklen (proctab s (currpid s))) (heap s) = Some (r, h)"
  shows "\<exists>s' rest. kill devtab (currpid s) s = Some s' \<and> Q (readylist s) = currpid s' # rest
    \<and> kinv s' (Q(readylist s := rest)) \<and> prstate (proctab s' (currpid s)) = PR_FREE \<and> prcount s' = prcount s - 1 \<and> heap s' = h"
proof -
  define c where "c = currpid s"
  have nb: "\<not> isbadpid s c" using inv kpreD(4,5) [OF kinv_kpre [OF inv]] by (simp add: isbadpid_def c_def kinv_def)
  obtain t where K: "kill devtab c s = kill_rest devtab c c t" and inv1: "kinv t Q"
    and T: "currpid t = c" "prcount t = prcount s - 1" "heap t = heap s" "readylist t = readylist s" "ndefers t = ndefers s"
    and TP: "\<And>p. prstate (proctab t p) = prstate (proctab s p)"
      "\<And>p. prstkbase (proctab t p) = prstkbase (proctab s p)" "\<And>p. prstklen (proctab t p) = prstklen (proctab s p)"
      "\<And>p. prdesc (proctab t p) = prdesc (proctab s p)"
    using kill_start [OF inv nb _ pc, of devtab] p pd unfolding c_def by blast
  have nb1: "\<not> isbadpid t c" using nb TP by (simp add: isbadpid_def)
  have cl1: "quiet_descs devtab c t" using cl by (simp add: quiet_descs_def TP c_def)
  obtain u where R: "kill_rest devtab c c t = kill_switch c c u" and inv2: "kinv u Q"
    and U: "currpid u = currpid t" "heap u = h" "prcount u = prcount t" "readylist u = readylist t" "ndefers u = ndefers t"
    using kill_rest_run [OF inv1 nb1 cl1, of r h c] fr by (auto simp: TP T c_def)
  note P = kpreD [OF kinv_kpre [OF inv2]]
  have cu: "currpid u = c" by (simp add: U T)
  have cb: "0 \<le> c" "c < 100" "prstate (proctab u c) = PR_CURR" using P(4,5) inv2 by (simp_all add: kinv_def cu)
  define v where "v = mkst PR_FREE c u"
  have "pqueue u c = None" using cb by (simp add: pqueue_def pq_def)
  then have pre: "kpre v Q" unfolding v_def mkst_def
    by (intro kpre_set [OF kinv_kpre [OF inv2]]) (use cb p in \<open>simp_all add: wait_ok_def pq_def c_def\<close>)
  have v: "prstate (proctab v (currpid v)) \<noteq> PR_CURR" "ndefers v \<le> 0" "readylist v = readylist s"
    using cu nd by (simp_all add: v_def U T)
  obtain w rest where G: "resched v = Some w" "Q (readylist v) = currpid w # rest" "kinv w (Q(readylist v := rest))" "sframe v w"
    "\<forall>p. p \<noteq> currpid w \<longrightarrow> prstate (proctab w p) = prstate (proctab v p)"
    using resched_gone [OF pre v(2,1)] by blast
  have "currpid w \<noteq> c"
    using qrel_member [OF kpreD(3) [OF pre] layout_ready [OF kpreD(1) [OF pre]], of "currpid w"] G(2)
    by (auto simp: pqueue_def pq_def v_def)
  moreover have "kill devtab c s = Some (deliver c OK w)"
    using K R cb G(1) by (simp add: kill_switch_def v_def)
  moreover define s' where "s' = deliver c OK w"
  moreover have "heap w = h" "prcount w = prcount s - 1"
    using sframeD(2,22) [OF G(4)] by (simp_all add: v_def mkst_def U T)
  moreover have "prstate (proctab s' p) = prstate (proctab w p)" "currpid s' = currpid w" "heap s' = heap w" "prcount s' = prcount w" for p
    by (simp_all add: s'_def deliver_def)
  moreover have "kinv s' (Q(readylist s := rest))" using G(3) v(3) by (simp add: s'_def)
  moreover have "prstate (proctab w c) = PR_FREE" using G(5) \<open>currpid w \<noteq> c\<close> by (simp add: v_def)
  ultimately show ?thesis using G(2) v(3) unfolding c_def [symmetric]
    by (intro exI [of _ s'] exI [of _ rest]) simp
qed

end
