(* ===== verification/KStep.thy ===== *)
theory KStep
  imports Boot Procs
begin

text \<open>
  The system calls as the transitions of one system: the calls a process can make, the
  timer interrupt, and the rest of a call that is executed when its process runs again.
  The invariant of all reachable states joins the queues, the semaphores, the sleepers and
  the free memory.
\<close>

section \<open>Calls\<close>

datatype call =
    CYield
  | CResume int
  | CSuspend int
  | CChprio int int
  | CWait int
  | CSignal int
  | CSignaln int int
  | CSemcreate int
  | CSemdelete int
  | CSemreset int int
  | CSleepms int
  | CSleep int
  | CSend int int
  | CReceive
  | CRecvtime int
  | CRecvclr
  | CCreate int int int int int "int list"
  | CGetmem int
  | CTick bool

text \<open>The caller finds the result when it runs again.\<close>

definition give :: "int \<Rightarrow> (int \<times> kernel) option \<Rightarrow> kernel option" where
  "give me r = do { (v, s) \<leftarrow> r; Some (deliver me v s) }"

fun do_call :: "call \<Rightarrow> kernel \<Rightarrow> kernel option" where
  "do_call CYield s = give (currpid s) (yield s)"
| "do_call (CResume pid) s = give (currpid s) (resume pid s)"
| "do_call (CSuspend pid) s = suspend pid s"
| "do_call (CChprio pid prio) s = give (currpid s) (chprio pid prio s)"
| "do_call (CWait sem) s = give (currpid s) (wait sem s)"
| "do_call (CSignal sem) s = give (currpid s) (signal sem s)"
| "do_call (CSignaln sem n) s = give (currpid s) (signaln sem n s)"
| "do_call (CSemcreate n) s = give (currpid s) (semcreate n s)"
| "do_call (CSemdelete sem) s = give (currpid s) (semdelete sem s)"
| "do_call (CSemreset sem n) s = give (currpid s) (semreset sem n s)"
| "do_call (CSleepms d) s = give (currpid s) (sleepms d s)"
| "do_call (CSleep d) s = give (currpid s) (sleep d s)"
| "do_call (CSend pid msg) s = give (currpid s) (send pid msg s)"
| "do_call CReceive s = receive s"
| "do_call (CRecvtime w) s = recvtime w s"
| "do_call CRecvclr s = give (currpid s) (recvclr s)"
| "do_call (CCreate initret procaddr ssize prio name args) s =
     give (currpid s) (create initret procaddr ssize prio name args s)"
| "do_call (CGetmem n) s = give (currpid s) (do {
     (a, h) \<leftarrow> getmem (envtab s EV_MEMALLOC) n (heap s); Some (a, s\<lparr>heap := h\<rparr>) })"
| "do_call (CTick ovf) s = clkhandler ovf s"

text \<open>The rest of a call.\<close>

fun run_rest :: "int \<Rightarrow> kcont \<Rightarrow> kernel \<Rightarrow> kernel option" where
  "run_rest me KReceive s = receive_rest me s"
| "run_rest me KRecvtime s = recvtime_rest me s"
| "run_rest me (KSuspend pid) s = suspend_rest me pid s"
| "run_rest me KClock s = clk_rest s"
| "run_rest me _ s = None"

definition next_rest :: "kernel \<Rightarrow> kernel option" where
  "next_rest s = (case kcont s (currpid s) of [] \<Rightarrow> None
     | k # ks \<Rightarrow> run_rest (currpid s) k (s\<lparr>kcont := (kcont s)(currpid s := ks)\<rparr>))"

text \<open>
  When a call is allowed.  The null process must never block, a counter must not overflow,
  a delay must fit the key of a queue entry and be more than nothing in \<open>recvtime\<close>.
\<close>

definition nosem :: "int \<Rightarrow> kernel \<Rightarrow> bool" where
  "nosem sem s \<longleftrightarrow> isbadsem sem \<or> sstate (semtab s sem) = S_FREE"

fun can_call :: "call \<Rightarrow> kernel \<Rightarrow> bool" where
  "can_call (CWait sem) s \<longleftrightarrow> nosem sem s \<or> 0 < scount (semtab s sem) \<or> currpid s \<noteq> NULLPROC"
| "can_call (CSignal sem) s \<longleftrightarrow> nosem sem s \<or> scount (semtab s sem) + 1 < 2 ^ 31"
| "can_call (CSignaln sem n) s \<longleftrightarrow> nosem sem s \<or> scount (semtab s sem) + n < 2 ^ 31"
| "can_call (CSemcreate n) s \<longleftrightarrow> n < 2 ^ 31"
| "can_call (CSemdelete sem) s \<longleftrightarrow> nosem sem s \<or> scount (semtab s sem) + 1 < 2 ^ 31"
| "can_call (CSemreset sem n) s \<longleftrightarrow> n < 2 ^ 31"
| "can_call (CSleepms d) s \<longleftrightarrow> d = 0 \<or> 0 < d \<and> d < 2 ^ 31 \<and> currpid s \<noteq> NULLPROC"
| "can_call (CSleep d) s \<longleftrightarrow> 4294967 < d \<or> d = 0 \<or> 0 < d \<and> 1000 * d < 2 ^ 31 \<and> currpid s \<noteq> NULLPROC"
| "can_call CReceive s \<longleftrightarrow> prhasmsg (proctab s (currpid s)) \<or> currpid s \<noteq> NULLPROC"
| "can_call (CRecvtime w) s \<longleftrightarrow> w < 0 \<or> prhasmsg (proctab s (currpid s)) \<or> 0 < w \<and> w < 2 ^ 31 \<and> currpid s \<noteq> NULLPROC"
| "can_call (CCreate initret procaddr ssize prio name args) s \<longleftrightarrow> prcount s + 1 < 2 ^ 31 \<and> - (2 ^ 31) \<le> prcount s + 1
     \<and> 0 < roundew (if ssize < 400 then 400 else ssize) \<and> roundew (if ssize < 400 then 400 else ssize) \<le> 4294967280"
| "can_call (CGetmem n) s \<longleftrightarrow> 0 \<le> n \<and> n \<le> 4294967280"
| "can_call _ s \<longleftrightarrow> True"

text \<open>
  The states a kernel goes through.  A process that runs again inside the kernel first does the rest
  of what it was switched out of (\<open>rest\<close>); it makes a call, and the clock interrupts it, only
  when nothing is pending for it.
\<close>

inductive kreach :: "kernel \<Rightarrow> kernel \<Rightarrow> bool" for s0 where
  start: "kreach s0 s0"
| call: "kreach s0 s \<Longrightarrow> kcont s (currpid s) = [] \<Longrightarrow> can_call c s \<Longrightarrow> do_call c s = Some s' \<Longrightarrow> kreach s0 s'"
| rest: "kreach s0 s \<Longrightarrow> next_rest s = Some s' \<Longrightarrow> kreach s0 s'"

section \<open>The invariant\<close>

fun rest_ok :: "kcont \<Rightarrow> bool" where
  "rest_ok KReceive \<longleftrightarrow> True"
| "rest_ok KRecvtime \<longleftrightarrow> True"
| "rest_ok (KSuspend pid) \<longleftrightarrow> 0 \<le> pid \<and> pid < NPROC"
| "rest_ok KClock \<longleftrightarrow> True"
| "rest_ok _ \<longleftrightarrow> False"

definition rests_ok :: "(int \<Rightarrow> kcont list) \<Rightarrow> bool" where
  "rests_ok f \<longleftrightarrow> (\<forall>p. \<forall>k\<in>set (f p). rest_ok k)"

definition counts_ok :: "(int \<Rightarrow> sentry) \<Rightarrow> bool" where
  "counts_ok f \<longleftrightarrow> (\<forall>i. 0 \<le> i \<and> i < NSEM \<longrightarrow> scount (f i) < 2 ^ 31)"

definition heap_good :: "mheap \<Rightarrow> bool" where
  "heap_good h \<longleftrightarrow> (\<exists>L. mrel h L \<and> coalesced h L)"

definition kgood :: "kernel \<Rightarrow> (int \<Rightarrow> int list) \<Rightarrow> bool" where
  "kgood s Q \<longleftrightarrow> semrel s Q \<and> sems_free s Q \<and> awake s Q \<and> counts_ok (semtab s) \<and> ndefers s = 0
     \<and> 0 \<le> nextpid s \<and> heap_good (heap s) \<and> rests_ok (kcont s)"

definition kstate_ok :: "kernel \<Rightarrow> bool" where
  "kstate_ok s \<longleftrightarrow> (\<exists>Q. kinv s Q \<and> kgood s Q)"

lemma kgoodD:
  assumes "kgood s Q"
  shows "semrel s Q" "sems_free s Q" "awake s Q" "ndefers s = 0" "0 \<le> nextpid s" "heap_good (heap s)" "rests_ok (kcont s)"
    "0 \<le> i \<Longrightarrow> i < 100 \<Longrightarrow> scount (semtab s i) < 2147483648"
    "0 \<le> nextsem s" "nextsem s < 100"
    "0 \<le> i \<Longrightarrow> i < 100 \<Longrightarrow> sstate (semtab s i) = S_FREE \<Longrightarrow> Q (squeue (semtab s i)) = []"
  using assms by (simp_all add: kgood_def counts_ok_def sems_free_def)

text \<open>What the invariant depends on.\<close>

lemma kgood_cong:
  assumes "kgood s Q" "semtab t = semtab s" "0 \<le> nextsem t" "nextsem t < 100" "sleepers t Q = sleepers s Q"
    and "ndefers t = 0" "0 \<le> nextpid t" "heap_good (heap t)" "rests_ok (kcont t)"
  shows "kgood t Q"
  using assms by (simp add: kgood_def semrel_def sems_free_def awake_def)

lemma kgood_mkst [simp]: "kgood (mkst st p s) Q = kgood s Q"
  by (simp add: kgood_def mkst_def semrel_def sems_free_def awake_def sleepers_def)

lemma kgood_proctab [simp]: "kgood (s\<lparr>proctab := f\<rparr>) Q = kgood s Q"
  by (simp add: kgood_def semrel_def sems_free_def awake_def sleepers_def)

lemma kgood_fold [simp]: "kgood (fold (mkst st) xs s) Q = kgood s Q"
  by (induction xs arbitrary: s) simp_all

lemma kgood_deliver [simp]: "kgood (deliver me v s) Q = kgood s Q"
  by (simp add: kgood_def deliver_def semrel_def sems_free_def awake_def sleepers_def)

lemma kgood_msg [simp]: "kgood (put_msg p m s) Q = kgood s Q" "kgood (take_msg p s) Q = kgood s Q"
  by (simp_all add: put_msg_def take_msg_def)

lemma sleepers_kcont [simp]: "sleepers (s\<lparr>kcont := f\<rparr>) Q = sleepers s Q"
  by (simp add: sleepers_def)

lemma kgood_kcont: "kgood s Q \<Longrightarrow> rests_ok f \<Longrightarrow> kgood (s\<lparr>kcont := f\<rparr>) Q"
  by (simp add: kgood_def semrel_def sems_free_def awake_def)

lemma rests_add: "rests_ok f \<Longrightarrow> rest_ok k \<Longrightarrow> rests_ok (f(p := f p @ [k]))"
  by (auto simp: rests_ok_def)

lemma kgood_settled:
  assumes st: "settled t R s Q" and good: "kgood t R"
  shows "kgood s Q"
proof -
  note F = sframeD [OF settledD(2) [OF st]] and G = kgoodD [OF good]
  have L: "layout s" using kpreD(1) [OF kinv_kpre [OF settledD(1) [OF st]]] .
  have "Q (squeue (semtab s i)) = []" if i: "0 \<le> i" "i < 100" "sstate (semtab s i) = S_FREE" for i
  proof -
    have "squeue (semtab t i) \<in> qids (nextqid t)" "squeue (semtab t i) \<noteq> readylist t"
      using layout_sem [OF L, of i] layout_apart(4) [OF L i(1,2)] i F by simp_all
    then have "Q (squeue (semtab t i)) = R (squeue (semtab t i))" using qframeD(1) [OF settledD(3) [OF st]] by blast
    then show ?thesis using G(11) [of i] i F by simp
  qed
  then have "sems_free s Q" using G(9,10) F by (simp add: sems_free_def)
  moreover have "awake s Q" using awake_settled [OF st] G(3) by simp
  ultimately show ?thesis
    using semrel_settled [OF st G(1)] good F by (simp add: kgood_def)
qed

lemma kstate_settled: "settled t R s Q \<Longrightarrow> kgood t R \<Longrightarrow> kstate_ok s"
  unfolding kstate_ok_def using settledD(1) kgood_settled by blast

lemma kstate_deliver [simp]: "kstate_ok (deliver me v s) = kstate_ok s"
  by (simp add: kstate_ok_def)

lemma kstate_kcont: "kstate_ok s \<Longrightarrow> rests_ok f \<Longrightarrow> kstate_ok (s\<lparr>kcont := f\<rparr>)"
  unfolding kstate_ok_def using kgood_kcont by fastforce

section \<open>The effect of the calls\<close>

text \<open>Every allowed call returns, in a state that satisfies the invariant.\<close>

definition serves :: "call \<Rightarrow> kernel \<Rightarrow> bool" where
  "serves c s \<longleftrightarrow> (\<exists>s'. do_call c s = Some s' \<and> kstate_ok s')"

lemma servesI: "do_call c s = Some s' \<Longrightarrow> kstate_ok s' \<Longrightarrow> serves c s"
  by (simp add: serves_def)

text \<open>A call that changes nothing but the result.\<close>

lemma give_same: "kstate_ok s \<Longrightarrow> do_call c s = give me (Some (v, s)) \<Longrightarrow> serves c s"
  by (rule servesI [where s' = "deliver me v s"]) (simp_all add: give_def)

lemma give_settled:
  assumes "do_call c s = give me (Some (v, s'))" "settled t R s' Q'" "kgood t R"
  shows "serves c s"
  by (rule servesI [where s' = "deliver me v s'"])
    (use assms(1) kstate_settled [OF assms(2,3)] in \<open>simp_all add: give_def\<close>)

lemma give_state:
  assumes "do_call c s = give me (Some (v, s'))" "kinv s' Q'" "kgood s' Q'"
  shows "serves c s"
  by (rule give_settled [OF assms(1) settled_refl [OF assms(2)] assms(3)])

lemma left_settled:
  assumes "do_call c s = Some (s'\<lparr>kcont := (kcont s)(p := kcont s p @ [k])\<rparr>)" "settled t R s' Q'" "kgood t R"
    and "rests_ok (kcont s)" "rest_ok k"
  shows "serves c s"
  by (rule servesI [OF assms(1)]) (rule kstate_kcont [OF kstate_settled [OF assms(2,3)] rests_add [OF assms(4,5)]])

text \<open>One semaphore changed, with the processes \<open>xs\<close> left waiting for it.\<close>

lemma kgood_semupd:
  assumes L: "layout s" and good: "kgood s Q" and i: "0 \<le> i" "i < 100"
    and e: "squeue e = squeue (semtab s i)" "int (length xs) = max 0 (- scount e)" "scount e < 2147483648"
    and fr: "sstate e = S_FREE \<Longrightarrow> xs = []"
  shows "kgood (s\<lparr>semtab := (semtab s)(i := e)\<rparr>) (Q(squeue (semtab s i) := xs))" (is "kgood ?t ?Q")
proof -
  note G = kgoodD [OF good]
  have ne: "squeue (semtab s j) = squeue (semtab s i) \<longleftrightarrow> j = i" if "0 \<le> j" "j < 100" for j
    using layout_apart(11) [OF L, of j i] that i by blast
  have "semrel ?t ?Q" by (rule semrel_upd [OF L G(1) i e(2,1)]) simp_all
  moreover have "sems_free ?t ?Q" using G(9-11) ne e(1) fr by (auto simp: sems_free_def)
  moreover have "awake ?t ?Q" using G(3) layout_apart(5) [OF L i] by (simp add: awake_def sleepers_def)
  moreover have "counts_ok (semtab ?t)" using G(8) e(3) by (simp add: counts_ok_def)
  ultimately show ?thesis using good by (simp add: kgood_def)
qed

lemma serves_yield: "kstate_ok s \<Longrightarrow> serves CYield s"
proof -
  assume "kstate_ok s"
  then obtain Q where inv: "kinv s Q" and good: "kgood s Q" by (auto simp: kstate_ok_def)
  show ?thesis using yield_ok [OF inv] give_settled [of CYield s _ OK _ s Q] good by auto
qed

lemma serves_resume:
  assumes ok: "kstate_ok s" shows "serves (CResume pid) s"
proof (cases "isbadpid s pid \<or> prstate (proctab s pid) \<noteq> PR_SUSP")
  case True
  show ?thesis by (rule give_same [OF ok]) (simp add: resume_bad [OF True])
next
  case False
  obtain Q where inv: "kinv s Q" and good: "kgood s Q" using ok by (auto simp: kstate_ok_def)
  obtain s' Q' where R: "resume pid s = Some (prprio (proctab s pid), s')" "settled (mkst PR_READY pid s) Q s' Q'"
    using resume_ok [OF inv] False by blast
  show ?thesis by (rule give_settled [OF _ R(2)]) (use R(1) good in simp_all)
qed

lemma serves_suspend:
  assumes ok: "kstate_ok s" shows "serves (CSuspend pid) s"
proof -
  obtain Q where inv: "kinv s Q" and good: "kgood s Q" using ok by (auto simp: kstate_ok_def)
  note G = kgoodD [OF good]
  have c: "0 \<le> currpid s" "currpid s < 100" using kpreD(4,5) [OF kinv_kpre [OF inv]] .
  consider (bad) "isbadpid s pid \<or> pid = NULLPROC \<or> (prstate (proctab s pid) \<noteq> PR_CURR \<and> prstate (proctab s pid) \<noteq> PR_READY)"
    | (me) "pid = currpid s" "currpid s \<noteq> 0"
    | (ready) "\<not> isbadpid s pid" "pid \<noteq> 0" "prstate (proctab s pid) = PR_READY"
    using kpreD(6) [OF kinv_kpre [OF inv], of pid] by (fastforce simp: isbadpid_iff)
  then show ?thesis
  proof cases
    case bad
    show ?thesis by (rule servesI [where s' = "deliver (currpid s) SYSERR s"]) (use ok in \<open>simp_all add: suspend_bad [OF bad]\<close>)
  next
    case me
    obtain s' Q' where R: "suspend (currpid s) s = Some (s'\<lparr>kcont := (kcont s)(currpid s := kcont s (currpid s) @ [KSuspend (currpid s)])\<rparr>)"
      "settled (mkst PR_SUSP (currpid s) s) Q s' Q'"
      using suspend_self_ok [OF inv me(2)] G(4) by auto
    show ?thesis by (rule left_settled [OF _ R(2), where k = "KSuspend (currpid s)"]) (use R(1) me good c G(7) in simp_all)
  next
    case ready
    obtain s' where R: "suspend pid s = Some (deliver (currpid s) (prprio (proctab s pid)) s')"
      "settled (mkst PR_SUSP pid s) (Q(readylist s := remove1 pid (Q (readylist s)))) s' (Q(readylist s := remove1 pid (Q (readylist s))))"
      using suspend_ready_ok [OF inv ready] by blast
    have L: "layout s" using kpreD(1) [OF kinv_kpre [OF inv]] .
    have "kgood s (Q(readylist s := remove1 pid (Q (readylist s))))"
      using good layout_apart(4) [OF L] layout_apart(1) [OF L]
      by (auto simp: kgood_def semrel_def sems_free_def awake_def sleepers_def)
    then show ?thesis
      by (intro servesI [where s' = "deliver (currpid s) (prprio (proctab s pid)) s'"])
        (use R kstate_settled [OF R(2)] in simp_all)
  qed
qed

lemma serves_chprio:
  assumes ok: "kstate_ok s" shows "serves (CChprio pid prio) s"
proof (cases "isbadpid s pid")
  case True
  show ?thesis by (rule give_same [OF ok]) (simp add: chprio_def True)
next
  case False
  obtain Q where inv: "kinv s Q" and good: "kgood s Q" using ok by (auto simp: kstate_ok_def)
  obtain f where R: "chprio pid prio s = Some (prprio (proctab s pid), s\<lparr>proctab := f\<rparr>)"
    using False by (cases "envtab s EV_SCHEDULER = QTYPE_PRIORITY") (fastforce simp: chprio_def isbadpid_iff)+
  obtain s' where "chprio pid prio s = Some (prprio (proctab s pid), s')" "kinv s' Q"
    using chprio_ok [OF inv False] by blast
  then have "kinv (s\<lparr>proctab := f\<rparr>) Q" using R by simp
  then show ?thesis by (rule give_state [rotated]) (use R good in simp_all)
qed

subsection \<open>Semaphores\<close>

lemma not_nosem: "\<not> nosem sem s \<longleftrightarrow> 0 \<le> sem \<and> sem < 100 \<and> sstate (semtab s sem) = S_USED"
  by (cases "sstate (semtab s sem)") (auto simp: nosem_def isbadsem_def)

lemma nosem_calls:
  assumes "nosem sem s"
  shows "wait sem s = Some (SYSERR, s)" "signal sem s = Some (SYSERR, s)" "signaln sem n s = Some (SYSERR, s)"
    "semdelete sem s = Some (SYSERR, s)" "semreset sem n s = Some (SYSERR, s)"
  using assms by (auto simp: nosem_def isbadsem_def wait_def signal_def signaln_def semdelete_def semreset_def)

lemma kgood_semcount:
  assumes "kinv s Q" "kgood s Q" "0 \<le> i" "i < 100" "sstate (semtab s i) = S_USED"
    and "int (length xs) = max 0 (- c)" "c < 2147483648"
  shows "kgood (s\<lparr>semtab := (semtab s)(i := (semtab s i)\<lparr>scount := c\<rparr>)\<rparr>) (Q(squeue (semtab s i) := xs))"
  by (rule kgood_semupd [OF kpreD(1) [OF kinv_kpre [OF assms(1)]] assms(2-4)]) (use assms in simp_all)

lemma serves_wait:
  assumes ok: "kstate_ok s" and can: "can_call (CWait sem) s" shows "serves (CWait sem) s"
proof -
  obtain Q where inv: "kinv s Q" and good: "kgood s Q" using ok by (auto simp: kstate_ok_def)
  note G = kgoodD [OF good]
  define sq where "sq = squeue (semtab s sem)"
  consider (none) "nosem sem s" | (pass) "\<not> nosem sem s" "0 < scount (semtab s sem)"
    | (block) "\<not> nosem sem s" "scount (semtab s sem) \<le> 0" "currpid s \<noteq> 0"
    using can by fastforce
  then show ?thesis
  proof cases
    case none
    show ?thesis by (rule give_same [OF ok]) (simp add: nosem_calls [OF none])
  next
    case pass
    then have i: "0 \<le> sem" "sem < 100" "sstate (semtab s sem) = S_USED" by (simp_all add: not_nosem)
    have e: "Q sq = []" using semrelD(2) [OF G(1) i(1,2)] pass by (simp add: sq_def)
    note W = sem_wait_pass [OF inv i pass(2) G(8) [OF i(1,2)]]
    have "kgood (s\<lparr>semtab := (semtab s)(sem := (semtab s sem)\<lparr>scount := scount (semtab s sem) - 1\<rparr>)\<rparr>) (Q(sq := []))"
      unfolding sq_def by (rule kgood_semcount [OF inv good i]) (use pass G(8) [OF i(1,2)] in simp_all)
    then show ?thesis by (intro give_settled [OF _ W(2)]) (use W(1) e in \<open>simp_all add: fun_upd_idem\<close>)
  next
    case block
    then have i: "0 \<le> sem" "sem < 100" "sstate (semtab s sem) = S_USED" by (simp_all add: not_nosem)
    note W = sem_wait_block [OF inv G(1) _ block(3) i block(2), folded sq_def]
    have "int (length (Q sq)) = - scount (semtab s sem)"
      using G(1) i by (simp add: semrel_def sq_def) (use block(2) in linarith)
    then have "kgood (s\<lparr>semtab := (semtab s)(sem := (semtab s sem)\<lparr>scount := scount (semtab s sem) - 1\<rparr>)\<rparr>) (Q(sq := Q sq @ [currpid s]))"
      unfolding sq_def by (intro kgood_semcount [OF inv good i]) (use block in simp_all)
    moreover obtain s' Q' where R: "wait sem s = Some (OK, s')" "settled (s\<lparr>semtab := (semtab s)(sem := (semtab s sem)\<lparr>scount := scount (semtab s sem) - 1\<rparr>),
      proctab := (proctab s)(currpid s := (proctab s (currpid s))\<lparr>prstate := PR_WAIT, prsem := sem\<rparr>)\<rparr>) (Q(sq := Q sq @ [currpid s])) s' Q'"
      using W G(4) by auto
    ultimately show ?thesis by (intro give_settled [OF _ R(2)]) (simp_all add: R(1))
  qed
qed

lemma kgood_abs_up:
  assumes inv: "kinv s Q" and good: "kgood s Q" and i: "0 \<le> sem" "sem < 100" "sstate (semtab s sem) = S_USED"
    and n: "0 \<le> n" "scount (semtab s sem) + n < 2147483648"
  shows "kgood (abs_up sem xs n s) (Q(squeue (semtab s sem) := drop (nat n) (Q (squeue (semtab s sem)))))"
proof -
  have "int (length (drop (nat n) (Q (squeue (semtab s sem))))) = max 0 (- (scount (semtab s sem) + n))"
  proof -
    have "int (length (Q (squeue (semtab s sem)))) = max 0 (- scount (semtab s sem))"
      using kgoodD(1) [OF good] i by (simp add: semrel_def)
    then show ?thesis unfolding length_drop using n(1) by linarith
  qed
  then show ?thesis using kgood_semcount [OF inv good i] n(2) by (simp add: abs_up_def)
qed

lemma serves_signal:
  assumes ok: "kstate_ok s" and can: "can_call (CSignal sem) s" shows "serves (CSignal sem) s"
proof (cases "nosem sem s")
  case True
  show ?thesis by (rule give_same [OF ok]) (simp add: nosem_calls [OF True])
next
  case False
  then have i: "0 \<le> sem" "sem < 100" "sstate (semtab s sem) = S_USED" and c: "scount (semtab s sem) + 1 < 2147483648"
    using can False by (simp add: not_nosem, simp add: not_nosem, simp add: not_nosem, simp)
  obtain Q where inv: "kinv s Q" and good: "kgood s Q" using ok by (auto simp: kstate_ok_def)
  obtain s' Q' where R: "signal sem s = Some (OK, s')"
    "settled (abs_up sem (take 1 (Q (squeue (semtab s sem)))) 1 s) (Q(squeue (semtab s sem) := drop 1 (Q (squeue (semtab s sem))))) s' Q'"
    using sem_signal_ok [OF inv kgoodD(1) [OF good] i c] by blast
  show ?thesis by (rule give_settled [OF _ R(2)]) (use R(1) kgood_abs_up [OF inv good i, of 1] c in simp_all)
qed

lemma serves_signaln:
  assumes ok: "kstate_ok s" and can: "can_call (CSignaln sem n) s" shows "serves (CSignaln sem n) s"
proof (cases "nosem sem s \<or> n < 0")
  case True
  then have "signaln sem n s = Some (SYSERR, s)" using nosem_calls(3) [of sem s n] by (auto simp: signaln_def)
  then show ?thesis by (intro give_same [OF ok]) simp
next
  case False
  then have i: "0 \<le> sem" "sem < 100" "sstate (semtab s sem) = S_USED" and c: "0 \<le> n" "scount (semtab s sem) + n < 2147483648"
    using can not_nosem [of sem s] by simp_all
  obtain Q where inv: "kinv s Q" and good: "kgood s Q" using ok by (auto simp: kstate_ok_def)
  have nd: "0 \<le> ndefers s" using kgoodD(4) [OF good] by simp
  obtain s' Q' where R: "signaln sem n s = Some (OK, s')"
    "settled (abs_up sem (take (nat n) (Q (squeue (semtab s sem)))) n s) (Q(squeue (semtab s sem) := drop (nat n) (Q (squeue (semtab s sem))))) s' Q'"
    using signaln_ok [OF inv kgoodD(1) [OF good] nd i c] by blast
  show ?thesis by (rule give_settled [OF _ R(2)]) (use R(1) kgood_abs_up [OF inv good i c] in simp_all)
qed

lemma kgood_nextsem: "kgood s Q \<Longrightarrow> 0 \<le> n \<Longrightarrow> n < 100 \<Longrightarrow> kgood (s\<lparr>nextsem := n\<rparr>) Q"
  by (simp add: kgood_def semrel_def sems_free_def awake_def sleepers_def)

lemma serves_semcreate:
  assumes ok: "kstate_ok s" and can: "can_call (CSemcreate n) s" shows "serves (CSemcreate n) s"
proof (cases "n < 0")
  case True
  show ?thesis by (rule give_same [OF ok]) (simp add: semcreate_bad [OF True])
next
  case False
  obtain Q where inv: "kinv s Q" and good: "kgood s Q" using ok by (auto simp: kstate_ok_def)
  note G = kgoodD [OF good]
  show ?thesis
  proof (cases "\<exists>i. 0 \<le> i \<and> i < 100 \<and> sstate (semtab s i) = S_FREE")
    case True
    then obtain i where i: "0 \<le> i" "i < 100" "sstate (semtab s i) = S_FREE" by blast
    have n0: "0 \<le> n" using False by simp
    obtain sem s' k where R: "semcreate n s = Some (sem, s')" "0 \<le> sem" "sem < 100" "sstate (semtab s sem) = S_FREE" "settled s' Q s' Q"
      "semtab s' = (semtab s)(sem := (semtab s sem)\<lparr>sstate := S_USED, scount := n\<rparr>)" "s' = s\<lparr>nextsem := k, semtab := semtab s'\<rparr>" "0 \<le> k" "k < 100"
      using semcreate_ok [OF inv G(1,2) n0 i] by blast
    have "kgood (s\<lparr>semtab := (semtab s)(sem := (semtab s sem)\<lparr>sstate := S_USED, scount := n\<rparr>)\<rparr>) (Q(squeue (semtab s sem) := []))"
      by (rule kgood_semupd [OF kpreD(1) [OF kinv_kpre [OF inv]] good R(2,3)]) (use n0 can in simp_all)
    then have "kgood (s\<lparr>semtab := (semtab s)(sem := (semtab s sem)\<lparr>sstate := S_USED, scount := n\<rparr>), nextsem := k\<rparr>) Q"
      using kgood_nextsem R(8,9) G(11) [OF R(2-4)] by (simp add: fun_upd_idem)
    moreover have "s' = s\<lparr>semtab := (semtab s)(sem := (semtab s sem)\<lparr>sstate := S_USED, scount := n\<rparr>), nextsem := k\<rparr>"
      by (subst R(7)) (simp add: R(6))
    ultimately have "kgood s' Q" by simp
    then show ?thesis by (intro give_settled [OF _ R(5)]) (simp_all add: R(1))
  next
    case False
    then have full: "sstate (semtab s i) = S_USED" if "0 \<le> i" "i < 100" for i
      using that by (cases "sstate (semtab s i)") auto
    obtain k where R: "newsem s = Some (SYSERR, s\<lparr>nextsem := k\<rparr>)" "0 \<le> k" "k < 100"
      using newsem_full [OF _ full] G(9,10) by blast
    have "kinv (s\<lparr>nextsem := k\<rparr>) Q" using kinv_core [of "s\<lparr>nextsem := k\<rparr>" s Q] inv by (simp add: kcore_def)
    then show ?thesis
      by (intro give_state [where s' = "s\<lparr>nextsem := k\<rparr>" and v = SYSERR, OF _ _ kgood_nextsem [OF good R(2,3)]])
        (use \<open>\<not> n < 0\<close> in \<open>simp_all add: semcreate_def R(1)\<close>)
  qed
qed

lemma kgood_abs_set:
  assumes inv: "kinv s Q" and good: "kgood s Q" and i: "0 \<le> sem" "sem < 100"
    and f: "\<And>e. squeue (f e) = squeue e" "0 \<le> scount (f (semtab s sem))" "scount (f (semtab s sem)) < 2147483648"
  shows "kgood (abs_set sem xs f s) (Q(squeue (semtab s sem) := []))"
proof -
  have "kgood (s\<lparr>semtab := (semtab s)(sem := f (semtab s sem))\<rparr>) (Q(squeue (semtab s sem) := []))"
    by (rule kgood_semupd [OF kpreD(1) [OF kinv_kpre [OF inv]] good i]) (use f in simp_all)
  then show ?thesis by (simp add: abs_set_def)
qed

lemma serves_semdelete:
  assumes ok: "kstate_ok s" and can: "can_call (CSemdelete sem) s" shows "serves (CSemdelete sem) s"
proof (cases "nosem sem s")
  case True
  show ?thesis by (rule give_same [OF ok]) (simp add: nosem_calls [OF True])
next
  case False
  then have i: "0 \<le> sem" "sem < 100" "sstate (semtab s sem) = S_USED" by (simp_all add: not_nosem)
  obtain Q where inv: "kinv s Q" and good: "kgood s Q" using ok by (auto simp: kstate_ok_def)
  have nd: "0 \<le> ndefers s" and c: "scount (semtab s sem) < 2147483647" using kgoodD(4) [OF good] can False by simp_all
  define f :: "sentry \<Rightarrow> sentry" where "f = (\<lambda>e. e\<lparr>sstate := S_FREE, scount := max 0 (scount e) + 1\<rparr>)"
  obtain s' Q' where R: "semdelete sem s = Some (OK, s')"
    "settled (abs_set sem (Q (squeue (semtab s sem))) f s) (Q(squeue (semtab s sem) := [])) s' Q'"
    using semdelete_ok [OF inv kgoodD(1) [OF good] nd i c, folded f_def] by blast
  show ?thesis
    by (rule give_settled [OF _ R(2) kgood_abs_set [OF inv good i(1,2)]]) (use c in \<open>simp_all add: f_def R(1)\<close>)
qed

lemma serves_semreset:
  assumes ok: "kstate_ok s" and can: "can_call (CSemreset sem n) s" shows "serves (CSemreset sem n) s"
proof (cases "nosem sem s \<or> n < 0")
  case True
  then have "semreset sem n s = Some (SYSERR, s)" using nosem_calls(5) [of sem s n] by (auto simp: semreset_def)
  then show ?thesis by (intro give_same [OF ok]) simp
next
  case False
  then have i: "0 \<le> sem" "sem < 100" "sstate (semtab s sem) = S_USED" and n: "0 \<le> n"
    using not_nosem [of sem s] by simp_all
  obtain Q where inv: "kinv s Q" and good: "kgood s Q" using ok by (auto simp: kstate_ok_def)
  have nd: "0 \<le> ndefers s" using kgoodD(4) [OF good] by simp
  define f :: "sentry \<Rightarrow> sentry" where "f = (\<lambda>e. e\<lparr>scount := n\<rparr>)"
  obtain s' Q' where R: "semreset sem n s = Some (OK, s')"
    "settled (abs_set sem (Q (squeue (semtab s sem))) f s) (Q(squeue (semtab s sem) := [])) s' Q'"
    using semreset_ok [OF inv nd i n, folded f_def] by blast
  show ?thesis
    by (rule give_settled [OF _ R(2) kgood_abs_set [OF inv good i(1,2)]]) (use n can in \<open>simp_all add: f_def R(1)\<close>)
qed

subsection \<open>Sleeping and the clock\<close>

lemma fold_mkst_more [simp]: "heap (fold (mkst st) xs s) = heap s" "kcont (fold (mkst st) xs s) = kcont s"
  by (induction xs arbitrary: s) (simp_all add: mkst_def)

text \<open>A call that rearranged the sleepers.\<close>

lemma kgood_requeue:
  assumes L: "layout s" and good: "kgood s Q" and st: "settled t (Q(sleepq s := R)) s' Q'" and aw: "awake s' Q'"
    and t: "semtab t = semtab s" "nextsem t = nextsem s" "ndefers t = ndefers s" "nextpid t = nextpid s"
      "heap t = heap s" "kcont t = kcont s"
  shows "kgood t (Q(sleepq s := R))"
proof -
  have ne: "squeue (semtab s i) \<noteq> sleepq s" if "0 \<le> i" "i < 100" for i using layout_apart(5) [OF L that] .
  have "awake t (Q(sleepq s := R))" using awake_settled [OF st] aw by simp
  moreover have "semrel t (Q(sleepq s := R))" using good ne t(1) by (simp add: kgood_def semrel_def)
  moreover have "sems_free t (Q(sleepq s := R))" using good ne t(1,2) by (simp add: kgood_def sems_free_def)
  ultimately show ?thesis using good t by (simp add: kgood_def)
qed

lemma awake_insert:
  assumes "kgood s Q" "0 < d" "sleepers s' Q' = takeWhile P (sleepers s Q) @ (p, d) # dropWhile P (sleepers s Q)"
  shows "awake s' Q'"
  using kgoodD(3) [OF assms(1)] assms(2) set_takeWhileD [of _ P "sleepers s Q"] set_dropWhileD [of _ P "sleepers s Q"]
  unfolding awake_def assms(3) by fastforce

lemma sleepms_state:
  assumes ok: "kstate_ok s" and can: "can_call (CSleepms d) s"
  shows "\<exists>s'. sleepms d s = Some (OK, s') \<and> kstate_ok s'"
proof -
  obtain Q where inv: "kinv s Q" and good: "kgood s Q" using ok by (auto simp: kstate_ok_def)
  note G = kgoodD [OF good]
  show ?thesis
  proof (cases "d = 0")
    case True
    then show ?thesis using yield_ok [OF inv] kstate_settled good by (fastforce simp: sleepms_def)
  next
    case False
    then have d: "0 < d" "d < 2 ^ 31" and c: "currpid s \<noteq> 0" and nd: "ndefers s \<le> 0" using can G(4) by auto
    obtain t R s' Q' where R: "sleepms d s = Some (OK, s')"
      "settled (mkst PR_SLEEP (currpid s) (s\<lparr>queuetab := t\<rparr>)) (Q(sleepq s := R)) s' Q'"
      "sleepers s' Q' = takeWhile (\<lambda>(_, w). w \<le> d) (sleepers s Q) @ (currpid s, d) # dropWhile (\<lambda>(_, w). w \<le> d) (sleepers s Q)"
      using sleepms_ok [OF inv c nd d] by blast
    have "kstate_ok s'"
      by (rule kstate_settled [OF R(2) kgood_requeue [OF _ good R(2) awake_insert [OF good d(1) R(3)]]])
        (use kpreD(1) [OF kinv_kpre [OF inv]] in \<open>simp_all add: mkst_def\<close>)
    then show ?thesis using R(1) by blast
  qed
qed

lemma serves_sleepms:
  assumes "kstate_ok s" "can_call (CSleepms d) s" shows "serves (CSleepms d) s"
proof -
  obtain s' where "sleepms d s = Some (OK, s')" "kstate_ok s'" using sleepms_state [OF assms] by blast
  then show ?thesis by (intro servesI [where s' = "deliver (currpid s) OK s'"]) (simp_all add: give_def)
qed

lemma serves_sleep:
  assumes ok: "kstate_ok s" and can: "can_call (CSleep d) s" shows "serves (CSleep d) s"
proof (cases "4294967 < d")
  case True
  show ?thesis by (rule give_same [OF ok]) (simp add: sleep_def True)
next
  case False
  then have "u32 (1000 * d) = 1000 * d" "can_call (CSleepms (1000 * d)) s" using can by (auto simp: u32_def)
  then obtain s' where "sleepms (u32 (1000 * d)) s = Some (OK, s')" "kstate_ok s'" using sleepms_state [OF ok, of "1000 * d"] by auto
  then show ?thesis using False
    by (intro servesI [where s' = "deliver (currpid s) OK s'"]) (simp_all add: give_def sleep_def)
qed

lemma serves_tick:
  assumes ok: "kstate_ok s" shows "serves (CTick ovf) s"
proof (cases ovf)
  case False
  show ?thesis by (rule servesI [OF _ ok]) (simp add: clkhandler_def False)
next
  case True
  obtain Q where inv: "kinv s Q" and good: "kgood s Q" using ok by (auto simp: kstate_ok_def)
  note G = kgoodD [OF good]
  obtain t R s' Q' f where R: "clkhandler True s = Some (s'\<lparr>kcont := f\<rparr>)"
    "settled (fold (mkst PR_READY) (map fst (filter (\<lambda>(p, w). w = 1) (sleepers s Q))) ((tick_time s)\<lparr>queuetab := t\<rparr>))
        (Q(sleepq s := R)) s' Q'" "awake s' Q'"
    "f = kcont s \<or> f = (kcont s)(currpid s := kcont s (currpid s) @ [KClock])"
    using clkhandler_ok [OF inv G(3)] G(4) by auto
  have "kstate_ok s'"
    by (rule kstate_settled [OF R(2) kgood_requeue [OF _ good R(2,3)]])
      (use kpreD(1) [OF kinv_kpre [OF inv]] in \<open>simp_all add: tick_time_def Let_def\<close>)
  moreover have "rests_ok f" using R(4) G(7) rests_add [OF G(7), of KClock] by auto
  ultimately have "kstate_ok (s'\<lparr>kcont := f\<rparr>)" by (rule kstate_kcont)
  then show ?thesis by (rule servesI [rotated]) (simp add: R(1) True)
qed

subsection \<open>Messages\<close>

lemma serves_send:
  assumes ok: "kstate_ok s" shows "serves (CSend pid msg) s"
proof (cases "isbadpid s pid \<or> prhasmsg (proctab s pid)")
  case True
  show ?thesis by (rule give_same [OF ok]) (simp add: send_bad [OF True])
next
  case False
  then have nb: "\<not> isbadpid s pid" and m: "\<not> prhasmsg (proctab s pid)" by simp_all
  obtain Q where inv: "kinv s Q" and good: "kgood s Q" using ok by (auto simp: kstate_ok_def)
  consider "prstate (proctab s pid) = PR_RECV" | "prstate (proctab s pid) = PR_RECTIM"
    | "prstate (proctab s pid) \<noteq> PR_RECV" "prstate (proctab s pid) \<noteq> PR_RECTIM" by blast
  then show ?thesis
  proof cases
    case 1
    obtain s' Q' where R: "send pid msg s = Some (OK, s')" "settled (mkst PR_READY pid (put_msg pid msg s)) Q s' Q'"
      using send_recv_ok [OF inv nb m 1] by blast
    show ?thesis by (rule give_settled [OF _ R(2)]) (use R(1) good in simp_all)
  next
    case 2
    obtain t R s' Q' where R: "send pid msg s = Some (OK, s')"
      "settled (mkst PR_READY pid ((put_msg pid msg s)\<lparr>queuetab := t\<rparr>)) (Q(sleepq s := R)) s' Q'"
      "sleepers s' Q' = filter (\<lambda>(x, _). x \<noteq> pid) (sleepers s Q)"
      using send_rectim_ok [OF inv nb m 2] by blast
    have aw: "awake s' Q'" using kgoodD(3) [OF good] by (auto simp: awake_def R(3))
    have "kgood (mkst PR_READY pid ((put_msg pid msg s)\<lparr>queuetab := t\<rparr>)) (Q(sleepq s := R))"
      by (rule kgood_requeue [OF _ good R(2) aw])
        (use kpreD(1) [OF kinv_kpre [OF inv]] in \<open>simp_all add: mkst_def put_msg_def\<close>)
    then show ?thesis by (rule give_settled [OF _ R(2), rotated]) (simp add: R(1))
  next
    case 3
    show ?thesis using send_busy_ok [OF inv nb m 3] good by (intro give_settled [of "CSend pid msg" s _ OK "put_msg pid msg s" "put_msg pid msg s" Q Q]) simp_all
  qed
qed

text \<open>A message that is there is taken at once.\<close>

lemma take_state:
  assumes "kstate_ok s" shows "kstate_ok (deliver p v (take_msg p s))"
  using assms by (auto simp: kstate_ok_def)

lemma serves_receive:
  assumes ok: "kstate_ok s" and can: "can_call CReceive s" shows "serves CReceive s"
proof -
  obtain Q where inv: "kinv s Q" and good: "kgood s Q" using ok by (auto simp: kstate_ok_def)
  note G = kgoodD [OF good]
  show ?thesis
  proof (cases "prhasmsg (proctab s (currpid s))")
    case True
    show ?thesis by (rule servesI [OF _ take_state [OF ok]]) (simp add: receive_msg_ok(1) [OF inv True])
  next
    case False
    then have c: "currpid s \<noteq> 0" and nd: "ndefers s \<le> 0" using can G(4) by auto
    obtain s' Q' where R: "receive s = Some (s'\<lparr>kcont := (kcont s)(currpid s := kcont s (currpid s) @ [KReceive])\<rparr>)"
      "settled (mkst PR_RECV (currpid s) s) Q s' Q'"
      using receive_block_ok [OF inv c nd False] by blast
    show ?thesis by (rule left_settled [OF _ R(2), where k = KReceive]) (use R(1) good G(7) in simp_all)
  qed
qed

lemma serves_recvclr:
  assumes ok: "kstate_ok s" shows "serves CRecvclr s"
proof -
  obtain Q where inv: "kinv s Q" using ok by (auto simp: kstate_ok_def)
  show ?thesis
  proof (cases "prhasmsg (proctab s (currpid s))")
    case True
    show ?thesis
      by (rule servesI [OF _ take_state [OF ok]]) (simp add: recvclr_ok(1) [OF inv] True give_def)
  next
    case False
    show ?thesis by (rule give_same [OF ok]) (simp add: recvclr_ok(1) [OF inv] False)
  qed
qed

lemma serves_recvtime:
  assumes ok: "kstate_ok s" and can: "can_call (CRecvtime w) s" shows "serves (CRecvtime w) s"
proof -
  obtain Q where inv: "kinv s Q" and good: "kgood s Q" using ok by (auto simp: kstate_ok_def)
  note G = kgoodD [OF good]
  consider "w < 0" | "0 \<le> w" "prhasmsg (proctab s (currpid s))"
    | "\<not> prhasmsg (proctab s (currpid s))" "0 < w" "w < 2 ^ 31" "currpid s \<noteq> 0"
    using can by (cases "w < 0"; cases "prhasmsg (proctab s (currpid s))") auto
  then show ?thesis
  proof cases
    case 1
    show ?thesis
      by (rule servesI [where s' = "deliver (currpid s) (u32 SYSERR) s"]) (use 1 ok in \<open>simp_all add: recvtime_def\<close>)
  next
    case 2
    show ?thesis by (rule servesI [OF _ take_state [OF ok]]) (simp add: recvtime_msg_ok [OF inv 2(2,1)])
  next
    case 3
    then have nd: "ndefers s \<le> 0" "0 \<le> w" using G(4) by auto
    obtain t R s' Q' where R: "recvtime w s = Some (s'\<lparr>kcont := (kcont s)(currpid s := kcont s (currpid s) @ [KRecvtime])\<rparr>)"
      "settled (mkst PR_RECTIM (currpid s) (s\<lparr>queuetab := t\<rparr>)) (Q(sleepq s := R)) s' Q'"
      "sleepers s' Q' = takeWhile (\<lambda>(_, v). v \<le> w) (sleepers s Q) @ (currpid s, w) # dropWhile (\<lambda>(_, v). v \<le> w) (sleepers s Q)"
      using recvtime_block_ok [OF inv 3(4) nd(1) 3(1) nd(2) 3(3)] by blast
    have "kgood (mkst PR_RECTIM (currpid s) (s\<lparr>queuetab := t\<rparr>)) (Q(sleepq s := R))"
      by (rule kgood_requeue [OF _ good R(2) awake_insert [OF good 3(2) R(3)]])
        (use kpreD(1) [OF kinv_kpre [OF inv]] in \<open>simp_all add: mkst_def\<close>)
    then show ?thesis by (rule left_settled [OF _ R(2), where k = KRecvtime, rotated]) (use R(1) G(7) in simp_all)
  qed
qed

subsection \<open>Processes and memory\<close>

text \<open>The memory handed out changes neither queues nor processes.\<close>

lemma heap_state:
  assumes inv: "kinv s Q" and good: "kgood s Q" and h: "heap_good h" and n: "0 \<le> n"
  shows "kinv (s\<lparr>heap := h, nextpid := n\<rparr>) Q" "kgood (s\<lparr>heap := h, nextpid := n\<rparr>) Q"
proof -
  have "kcore (s\<lparr>heap := h, nextpid := n\<rparr>) = kcore s" by (simp add: kcore_def)
  then show "kinv (s\<lparr>heap := h, nextpid := n\<rparr>) Q" using kinv_core inv by blast
  show "kgood (s\<lparr>heap := h, nextpid := n\<rparr>) Q"
    using good h n by (simp add: kgood_def semrel_def sems_free_def awake_def sleepers_def)
qed

lemma serves_create:
  assumes ok: "kstate_ok s" and can: "can_call (CCreate initret procaddr ssize prio name args) s"
  shows "serves (CCreate initret procaddr ssize prio name args) s"
proof -
  obtain Q where inv: "kinv s Q" and good: "kgood s Q" using ok by (auto simp: kstate_ok_def)
  note G = kgoodD [OF good]
  obtain L where m: "mrel (heap s) L" and co: "coalesced (heap s) L" using G(6) by (auto simp: heap_good_def)
  define nb where "nb = roundew (if ssize < 400 then 400 else ssize)"
  have nb: "0 < nb" "nb \<le> 4294967280" and pc: "in_s32 (prcount s + 1)" using can by (simp_all add: nb_def in_s32_def)
  show ?thesis
  proof (cases "\<exists>a\<in>set L. roundmb nb \<le> len (heap s) a")
    case False
    then have none: "\<forall>a\<in>set L. len (heap s) a < roundmb nb" by auto
    have "create initret procaddr ssize prio name args s = Some (SYSERR, s\<lparr>heap := heap s\<rparr>)"
      by (rule create_no_stack) (rule getstk_none [OF m nb(1) none, unfolded nb_def])
    then show ?thesis by (intro give_same [OF ok]) simp
  next
    case True
    obtain b h' L' where K: "getstk (envtab s EV_MEMALLOC) nb (heap s) = Some (b + roundmb nb - 4, h')" "mrel h' L'" "minheap (heap s) \<le> b"
      "coalesced h' L'"
      using getstk_some [OF m nb True] co by blast
    have "0 < b" using K(3) m by (auto simp: mrel_def heap_ok_def)
    moreover have "16 \<le> roundmb nb" using roundmb_props(3,4) [OF nb] by (rule zdvd_imp_le)
    ultimately have sa: "b + roundmb nb - 4 \<noteq> SYSERR" by linarith
    have hg: "heap_good h'" using K(2,4) by (auto simp: heap_good_def)
    note g = K(1)[unfolded nb_def] and sa' = sa [unfolded nb_def]
    show ?thesis
    proof (cases "1 \<le> prio \<and> (\<exists>i. 0 \<le> i \<and> i < 100 \<and> prstate (proctab s i) = PR_FREE)")
      case True
      then obtain i where i: "0 \<le> i" "i < 100" "prstate (proctab s i) = PR_FREE" and pr: "1 \<le> prio" by blast
      obtain pid s' n t where R: "create initret procaddr ssize prio name args s = Some (pid, s')" "kinv s' Q" "0 \<le> n"
        "s' = s\<lparr>heap := h', nextpid := n, prcount := prcount s + 1, mstime_now := t, proctab := proctab s', mem := mem s'\<rparr>"
        using create_ok [OF inv G(5) i pr pc g sa', of initret procaddr name args] by blast
      have "kgood s' Q"
        by (subst R(4)) (use heap_state(2) [OF inv good hg R(3)] in \<open>simp add: kgood_def semrel_def sems_free_def awake_def sleepers_def\<close>)
      then show ?thesis by (intro give_state [OF _ R(2)]) (simp_all add: R(1))
    next
      case False
      then have f: "prio < 1 \<or> (\<forall>i. 0 \<le> i \<and> i < 100 \<longrightarrow> prstate (proctab s i) \<noteq> PR_FREE)" by auto
      obtain n where R: "create initret procaddr ssize prio name args s = Some (SYSERR, s\<lparr>heap := h', nextpid := n\<rparr>)" "0 \<le> n"
        using create_fails [OF g sa' G(5) f, of initret procaddr name args] by blast
      show ?thesis by (rule give_state [OF _ heap_state [OF inv good hg R(2)]]) (simp add: R(1))
    qed
  qed
qed

lemma serves_getmem:
  assumes ok: "kstate_ok s" and can: "can_call (CGetmem n) s" shows "serves (CGetmem n) s"
proof -
  obtain Q where inv: "kinv s Q" and good: "kgood s Q" using ok by (auto simp: kstate_ok_def)
  obtain L where m: "mrel (heap s) L" and co: "coalesced (heap s) L" using kgoodD(6) [OF good] by (auto simp: heap_good_def)
  obtain a h where R: "getmem (envtab s EV_MEMALLOC) n (heap s) = Some (a, h)" "heap_good h"
  proof (cases "0 < n")
    case False
    then have "getmem (envtab s EV_MEMALLOC) n (heap s) = Some (SYSERR, heap s)" using can by (simp add: getmem_def)
    then show thesis using that kgoodD(6) [OF good] by blast
  next
    case True
    show thesis
    proof (cases "\<exists>a\<in>set L. roundmb n \<le> len (heap s) a")
      case some: True
      have "n \<le> 4294967280" using can by simp
      then obtain a h' L' where "getmem (envtab s EV_MEMALLOC) n (heap s) = Some (a, h')" "mrel h' L'" "coalesced h' L'"
        using getmem_takes [OF m True _ some, of "envtab s EV_MEMALLOC"] co by auto
      then show thesis using that by (simp add: heap_good_def) blast
    next
      case none: False
      have "getmem (envtab s EV_MEMALLOC) n (heap s) = Some (SYSERR, heap s)"
        by (rule getmem_refuses [OF m True]) (use none in auto)
      then show thesis using that kgoodD(6) [OF good] by blast
    qed
  qed
  have e: "s\<lparr>heap := h, nextpid := nextpid s\<rparr> = s\<lparr>heap := h\<rparr>" by simp
  show ?thesis
    by (rule give_state [OF _ heap_state [OF inv good R(2) kgoodD(5) [OF good], unfolded e]]) (simp add: R(1))
qed

section \<open>Runs\<close>

lemmas serves_rules = serves_yield serves_resume serves_suspend serves_chprio serves_wait serves_signal serves_signaln
  serves_semcreate serves_semdelete serves_semreset serves_sleepms serves_sleep serves_send serves_receive serves_recvtime
  serves_recvclr serves_create serves_getmem serves_tick

lemma call_served:
  assumes ok: "kstate_ok s" and can: "can_call c s" shows "\<exists>s'. do_call c s = Some s' \<and> kstate_ok s'"
proof -
  have "serves c s"
    using can by (cases c) (simp_all only: serves_rules [OF ok])
  then show ?thesis by (simp add: serves_def)
qed

text \<open>
  The rest of a call runs when its process does.  It takes the entry of the process off the list of
  what is pending, adds none, and does what is left of the call and nothing else: \<open>receive\<close>
  returns the message and marks it read; \<open>recvtime\<close> does so, or returns \<open>TIMEOUT\<close>
  when there is none; \<open>suspend\<close> returns the priority of the process it suspended; the
  clock handler counts the quantum of the process down, and at its end reschedules and sets a new one.
\<close>

definition gives_message :: "kernel \<Rightarrow> kernel \<Rightarrow> bool" where
  "gives_message s s' \<longleftrightarrow>
     s' = s\<lparr>kcont := kcont s', kret := (kret s)(currpid s := prmsg (proctab s (currpid s))),
            proctab := (proctab s)(currpid s := (proctab s (currpid s))\<lparr>prhasmsg := False\<rparr>)\<rparr>"

fun rest_gives :: "kcont \<Rightarrow> (int \<Rightarrow> int list) \<Rightarrow> kernel \<Rightarrow> kernel \<Rightarrow> bool" where
  "rest_gives KReceive Q s s' \<longleftrightarrow> gives_message s s'"
| "rest_gives KRecvtime Q s s' \<longleftrightarrow>
     (if prhasmsg (proctab s (currpid s)) then gives_message s s'
      else s' = s\<lparr>kcont := kcont s', kret := (kret s)(currpid s := 2 ^ 32 - 3)\<rparr>)"
| "rest_gives (KSuspend pid) Q s s' \<longleftrightarrow>
     s' = s\<lparr>kcont := kcont s', kret := (kret s)(currpid s := prprio (proctab s pid))\<rparr>"
| "rest_gives KClock Q s s' \<longleftrightarrow>
     (if u32 (preempt s - 1) \<noteq> 0 then s' = s\<lparr>kcont := kcont s', preempt := u32 (preempt s - 1)\<rparr>
      else preempt s' = QUANTUM \<and> prprio (proctab s' (currpid s)) = new_prio (currpid s) s
        \<and> currpid s' = (if \<exists>x\<in>set (Q (readylist s)). new_prio (currpid s) s \<le> keyof s x then hd (Q (readylist s)) else currpid s))"
| "rest_gives _ Q s s' \<longleftrightarrow> False"

lemma rest_step:
  assumes inv: "kinv s Q" and good: "kgood s Q" and K: "kcont s (currpid s) = k # ks"
  shows "\<exists>s' Q'. next_rest s = Some s' \<and> kinv s' Q' \<and> kgood s' Q' \<and> sleepers s' Q' = sleepers s Q
    \<and> kcont s' = (kcont s)(currpid s := ks) \<and> (\<forall>p. rstate (prstate (proctab s' p)) = rstate (prstate (proctab s p)))
    \<and> rest_gives k Q s s'"
proof -
  define f where "f = (kcont s)(currpid s := ks)"
  define t where "t = s\<lparr>kcont := f\<rparr>"
  have r: "rests_ok (kcont s)" "rest_ok k" using kgoodD(7) [OF good] K unfolding rests_ok_def by (blast, metis list.set_intros(1))
  then have "rests_ok f" using K by (auto simp: rests_ok_def f_def) (metis list.set_intros(2))
  then have gt: "kgood t Q" unfolding t_def by (rule kgood_kcont [OF good])
  have it: "kinv t Q" using kinv_core [OF kcore_cont] inv by (simp add: t_def)
  have c: "0 \<le> currpid s" "currpid s < 100" using kpreD(4,5) [OF kinv_kpre [OF inv]] .
  have d: "kinv (deliver p v t) Q" "kgood (deliver p v t) Q" "sleepers (deliver p v t) Q = sleepers s Q"
    "kinv (deliver p v (take_msg p t)) Q" "kgood (deliver p v (take_msg p t)) Q" "sleepers (deliver p v (take_msg p t)) Q = sleepers s Q" for p v
  proof -
    have "sleepers t Q = sleepers s Q" by (simp add: t_def sleepers_def)
    moreover have "sleepers (deliver p v u) Q = sleepers u Q" "sleepers (take_msg p u) Q = sleepers u Q" for u
      by (simp_all add: deliver_def take_msg_def sleepers_def)
    ultimately show "sleepers (deliver p v t) Q = sleepers s Q" "sleepers (deliver p v (take_msg p t)) Q = sleepers s Q" by simp_all
  qed (simp_all add: it gt)
  have n: "next_rest s = run_rest (currpid s) k t" by (simp add: next_rest_def K t_def f_def)
  consider "k = KReceive" | "k = KRecvtime" | pid where "k = KSuspend pid" "0 \<le> pid" "pid < 100" | "k = KClock"
    using r(2) by (cases k) auto
  then show ?thesis
  proof cases
    case 1
    have "next_rest s = Some (deliver (currpid s) (prmsg (proctab t (currpid s))) (take_msg (currpid s) t))"
      using c by (simp add: n 1 receive_rest_def take_msg_def)
    then show ?thesis using d(4-6) 1
      by (intro exI [of _ "deliver (currpid s) (prmsg (proctab t (currpid s))) (take_msg (currpid s) t)"] exI [of _ Q])
        (simp add: t_def f_def deliver_def take_msg_def gives_message_def)
  next
    case 2
    have "next_rest s = Some (if prhasmsg (proctab s (currpid s))
        then deliver (currpid s) (prmsg (proctab t (currpid s))) (take_msg (currpid s) t)
        else deliver (currpid s) (2 ^ 32 - 3) t)"
      using c by (simp add: n 2 recvtime_rest_def take_msg_def t_def u32_def)
    then show ?thesis using d 2
      by (intro exI [of _ "if prhasmsg (proctab s (currpid s))
          then deliver (currpid s) (prmsg (proctab t (currpid s))) (take_msg (currpid s) t) else deliver (currpid s) (2 ^ 32 - 3) t"] exI [of _ Q])
        (simp add: t_def f_def deliver_def take_msg_def gives_message_def)
  next
    case 3
    have "next_rest s = Some (deliver (currpid s) (prprio (proctab s pid)) t)"
      using 3 by (simp add: n suspend_rest_def t_def)
    then show ?thesis using d(1-3) 3
      by (intro exI [of _ "deliver (currpid s) (prprio (proctab s pid)) t"] exI [of _ Q]) (simp add: t_def f_def deliver_def)
  next
    case 4
    obtain s' Q' where S: "clk_rest t = Some s'" "settled t Q s' Q'" using clk_rest_ok [OF it] by blast
    have F: "kcont s' = f" "\<And>p. rstate (prstate (proctab s' p)) = rstate (prstate (proctab s p))"
      using sframeD(19) [OF settledD(2) [OF S(2)]] sframe_procD(11) [OF settledD(2) [OF S(2)]] by (simp_all add: t_def)
    have "rest_gives KClock Q s s'"
    proof (cases "u32 (preempt s - 1) = 0")
      case False
      then show ?thesis using S(1) F(1) by (auto simp: clk_rest_def t_def Let_def)
    next
      case True
      define u where "u = t\<lparr>preempt := QUANTUM\<rparr>"
      have f: "currpid u = currpid s" "readylist u = readylist s" "queuetab u = queuetab s" "preempt u = QUANTUM" "ndefers u = 0"
        using kgoodD(4) [OF gt] by (simp_all add: u_def t_def)
      have np: "new_prio (currpid s) u = new_prio (currpid s) s"
        by (simp add: u_def t_def new_prio_def cpu_time_def)
      have "kinv u Q" unfolding u_def using kinv_core [of "t\<lparr>preempt := QUANTUM\<rparr>" t Q] it by (simp add: kcore_def)
      moreover have "resched u = Some s'" using S(1) True by (simp add: clk_rest_def u_def t_def Let_def)
      ultimately obtain R where "prprio (proctab s' (currpid s)) = new_prio (currpid s) s"
        "if (\<exists>x\<in>set (Q (readylist s)). new_prio (currpid s) s \<le> keyof s x)
         then \<exists>rest. Q (readylist s) = currpid s' # rest \<and> prstate (proctab s' (currpid s)) = PR_READY
            \<and> R = Q(readylist s := enter_by (keyof s) (new_prio (currpid s) s) (currpid s) rest) \<and> preempt s' = QUANTUM
         else currpid s' = currpid s \<and> R = Q \<and> preempt s' = QUANTUM"
        using resched_curr [of u Q] unfolding f np by auto
      then show ?thesis using True by (auto split: if_splits)
    qed
    moreover have "sleepers s' Q' = sleepers s Q" using sleepers_settled [OF S(2)] by (simp add: t_def)
    ultimately show ?thesis using S F kgood_settled [OF S(2) gt] settledD(1) [OF S(2)] 4 n by (auto simp: f_def)
  qed
qed

lemma rest_served:
  assumes ok: "kstate_ok s" and k: "kcont s (currpid s) \<noteq> []"
  shows "\<exists>s'. next_rest s = Some s' \<and> kstate_ok s'"
proof -
  obtain k ks where "kcont s (currpid s) = k # ks" using k by (cases "kcont s (currpid s)") auto
  then show ?thesis using rest_step ok unfolding kstate_ok_def by blast
qed

lemma reach_ok:
  assumes "kreach s0 s" "kstate_ok s0" shows "kstate_ok s"
  using assms
proof (induction rule: kreach.induct)
  case start
  then show ?case .
next
  case (call s c s')
  then show ?case using call_served [of s c] by auto
next
  case (rest s s')
  then have "kcont s (currpid s) \<noteq> []" by (auto simp: next_rest_def)
  then show ?case using rest rest_served [of s] by auto
qed

end
