(* ===== verification/KSpec.thy ===== *)
theory KSpec
  imports KStep
begin

text \<open>
  What the kernel promises, free of tables and links: a semaphore is a count and the
  processes that wait, in order; the sleepers are processes with the ticks they still have
  to wait.  The operations of the kernel are shown to implement these.
\<close>

section \<open>Semaphores as a count and a line\<close>

definition abs_sem :: "kernel \<Rightarrow> (int \<Rightarrow> int list) \<Rightarrow> int \<Rightarrow> int \<times> int list" where
  "abs_sem s Q i = (scount (semtab s i), Q (squeue (semtab s i)))"

fun sem_wait_spec :: "int \<Rightarrow> int \<times> int list \<Rightarrow> int \<times> int list" where
  "sem_wait_spec p (n, ps) = (n - 1, if n \<le> 0 then ps @ [p] else ps)"

fun sem_signal_spec :: "int \<times> int list \<Rightarrow> int \<times> int list" where
  "sem_signal_spec (n, ps) = (n + 1, tl ps)"

definition runnable :: "kernel \<Rightarrow> int \<Rightarrow> bool" where
  "runnable s p \<longleftrightarrow> prstate (proctab s p) = PR_CURR \<or> prstate (proctab s p) = PR_READY"


lemma fold_mkst_state [simp]:
  "prstate (proctab (fold (mkst st) xs s) p) = (if p \<in> set xs then st else prstate (proctab s p))"
  by (induction xs arbitrary: s) auto

lemma released: "settled t R s' Q' \<Longrightarrow> prstate (proctab t p) = PR_READY \<Longrightarrow> runnable s' p"
  using sframe_procD(11) [OF settledD(2), of t R s' Q' p] by (simp add: runnable_def)

lemma abs_sem_settled:
  assumes st: "settled t R s' Q'" and i: "0 \<le> i" "i < 100"
  shows "abs_sem s' Q' i = abs_sem t R i"
proof -
  note F = sframeD [OF settledD(2) [OF st]]
  have L: "layout s'" using kpreD(1) [OF kinv_kpre [OF settledD(1) [OF st]]] .
  have "Q' (squeue (semtab t i)) = R (squeue (semtab t i))"
    using qframeD(1) [OF settledD(3) [OF st], of "squeue (semtab t i)"] layout_sem [OF L, of i] layout_apart(4) [OF L i] i F by simp
  then show ?thesis using F by (simp add: abs_sem_def)
qed

lemma abs_sem_upd:
  assumes L: "layout s" and i: "0 \<le> i" "i < 100" and j: "0 \<le> j" "j < 100"
    and t: "semtab t = (semtab s)(i := e)" "squeue e = squeue (semtab s i)"
  shows "abs_sem t (Q(squeue (semtab s i) := xs)) j = (if j = i then (scount e, xs) else abs_sem s Q j)"
  using layout_apart(11) [OF L, of j i] i j t by (auto simp: abs_sem_def)

text \<open>Every other semaphore is as before, and this one is as \<open>spec\<close> says.\<close>

definition sem_becomes :: "kernel \<Rightarrow> (int \<Rightarrow> int list) \<Rightarrow> int \<Rightarrow> int \<times> int list \<Rightarrow> kernel \<Rightarrow> (int \<Rightarrow> int list) \<Rightarrow> bool" where
  "sem_becomes s Q sem a s' Q' \<longleftrightarrow> (\<forall>i. 0 \<le> i \<and> i < NSEM \<longrightarrow> abs_sem s' Q' i = (if i = sem then a else abs_sem s Q i))"

lemma sem_becomesI:
  assumes st: "settled t (Q(squeue (semtab s sem) := xs)) s' Q'" and inv: "kinv s Q" and i: "0 \<le> sem" "sem < 100"
    and t: "semtab t = (semtab s)(sem := e)" "squeue e = squeue (semtab s sem)" "scount e = n"
  shows "sem_becomes s Q sem (n, xs) s' Q'"
  unfolding sem_becomes_def
  using abs_sem_settled [OF st] abs_sem_upd [OF kpreD(1) [OF kinv_kpre [OF inv]] i, of _ t e Q xs] t by simp

lemma wait_spec:
  assumes inv: "kinv s Q" and rel: "semrel s Q" and nd: "ndefers s \<le> 0"
    and i: "0 \<le> sem" "sem < 100" "sstate (semtab s sem) = S_USED" and c: "scount (semtab s sem) < 2 ^ 31"
    and blk: "0 < scount (semtab s sem) \<or> currpid s \<noteq> NULLPROC"
  shows "\<exists>s' Q'. wait sem s = Some (OK, s') \<and> kinv s' Q' \<and> sem_becomes s Q sem (sem_wait_spec (currpid s) (abs_sem s Q sem)) s' Q'"
proof (cases "0 < scount (semtab s sem)")
  case True
  have e: "Q(squeue (semtab s sem) := Q (squeue (semtab s sem))) = Q" by simp
  note W = sem_wait_pass [OF inv i True]
  have W2: "settled (s\<lparr>semtab := (semtab s)(sem := (semtab s sem)\<lparr>scount := scount (semtab s sem) - 1\<rparr>)\<rparr>)
      (Q(squeue (semtab s sem) := Q (squeue (semtab s sem))))
      (s\<lparr>semtab := (semtab s)(sem := (semtab s sem)\<lparr>scount := scount (semtab s sem) - 1\<rparr>)\<rparr>) Q"
    using W(2) c e by simp
  have "sem_becomes s Q sem (scount (semtab s sem) - 1, Q (squeue (semtab s sem)))
      (s\<lparr>semtab := (semtab s)(sem := (semtab s sem)\<lparr>scount := scount (semtab s sem) - 1\<rparr>)\<rparr>) Q"
    by (rule sem_becomesI [OF W2 inv i(1,2), where e = "(semtab s sem)\<lparr>scount := scount (semtab s sem) - 1\<rparr>"]) simp_all
  then show ?thesis using W c True settledD(1) [OF W(2)] by (auto simp: abs_sem_def)
next
  case False
  then have np: "currpid s \<noteq> 0" and le: "scount (semtab s sem) \<le> 0" using blk by auto
  obtain s' Q' where R: "wait sem s = Some (OK, s')"
    "settled (s\<lparr>semtab := (semtab s)(sem := (semtab s sem)\<lparr>scount := scount (semtab s sem) - 1\<rparr>),
      proctab := (proctab s)(currpid s := (proctab s (currpid s))\<lparr>prstate := PR_WAIT, prsem := sem\<rparr>)\<rparr>)
      (Q(squeue (semtab s sem) := Q (squeue (semtab s sem)) @ [currpid s])) s' Q'"
    using sem_wait_block [OF inv rel nd np i le] by blast
  have "sem_becomes s Q sem (scount (semtab s sem) - 1, Q (squeue (semtab s sem)) @ [currpid s]) s' Q'"
    by (rule sem_becomesI [OF R(2) inv i(1,2), where e = "(semtab s sem)\<lparr>scount := scount (semtab s sem) - 1\<rparr>"]) simp_all
  then show ?thesis using R(1) settledD(1) [OF R(2)] le by (auto simp: abs_sem_def)
qed

text \<open>After \<open>n\<close> signals: \<open>n\<close> more, and the first \<open>n\<close> of the line can run.\<close>

lemma signals_spec: "(sem_signal_spec ^^ n) (c, ps) = (c + int n, drop n ps)"
  by (induction n) (simp_all add: tl_drop drop_Suc)

lemma signal_spec:
  assumes inv: "kinv s Q" and rel: "semrel s Q" and i: "0 \<le> sem" "sem < 100" "sstate (semtab s sem) = S_USED"
    and c: "scount (semtab s sem) + 1 < 2 ^ 31"
  shows "\<exists>s' Q'. signal sem s = Some (OK, s') \<and> kinv s' Q' \<and> sem_becomes s Q sem (sem_signal_spec (abs_sem s Q sem)) s' Q'
    \<and> (\<forall>p\<in>set (take 1 (Q (squeue (semtab s sem)))). runnable s' p)"
proof -
  obtain s' Q' where R: "signal sem s = Some (OK, s')"
    "settled (abs_up sem (take 1 (Q (squeue (semtab s sem)))) 1 s) (Q(squeue (semtab s sem) := drop 1 (Q (squeue (semtab s sem))))) s' Q'"
    using sem_signal_ok [OF inv rel i] c by auto
  have "sem_becomes s Q sem (scount (semtab s sem) + 1, drop 1 (Q (squeue (semtab s sem)))) s' Q'"
    by (rule sem_becomesI [OF R(2) inv i(1,2), where e = "(semtab s sem)\<lparr>scount := scount (semtab s sem) + 1\<rparr>"]) (simp_all add: abs_up_def)
  moreover have "runnable s' p" if "p \<in> set (take 1 (Q (squeue (semtab s sem))))" for p
    by (rule released [OF R(2)]) (use that in \<open>simp add: abs_up_def\<close>)
  ultimately show ?thesis using R(1) settledD(1) [OF R(2)]
    by (intro exI [of _ s'] exI [of _ Q']) (simp add: abs_sem_def drop_Suc)
qed

lemma signaln_spec:
  assumes inv: "kinv s Q" and rel: "semrel s Q" and nd: "ndefers s = 0" and i: "0 \<le> sem" "sem < 100" "sstate (semtab s sem) = S_USED"
    and c: "scount (semtab s sem) + int n < 2 ^ 31"
  shows "\<exists>s' Q'. signaln sem (int n) s = Some (OK, s') \<and> kinv s' Q'
    \<and> sem_becomes s Q sem ((sem_signal_spec ^^ n) (abs_sem s Q sem)) s' Q'
    \<and> (\<forall>p\<in>set (take n (Q (squeue (semtab s sem)))). runnable s' p)"
proof -
  have nd': "0 \<le> ndefers s" and n: "0 \<le> int n" and c': "scount (semtab s sem) + int n < 2147483648" using nd c by simp_all
  obtain s' Q' where R: "signaln sem (int n) s = Some (OK, s')"
    "settled (abs_up sem (take n (Q (squeue (semtab s sem)))) (int n) s) (Q(squeue (semtab s sem) := drop n (Q (squeue (semtab s sem))))) s' Q'"
    using signaln_ok [OF inv rel nd' i n c'] by auto
  have "sem_becomes s Q sem (scount (semtab s sem) + int n, drop n (Q (squeue (semtab s sem)))) s' Q'"
    by (rule sem_becomesI [OF R(2) inv i(1,2), where e = "(semtab s sem)\<lparr>scount := scount (semtab s sem) + int n\<rparr>"]) (simp_all add: abs_up_def)
  moreover have "runnable s' p" if "p \<in> set (take n (Q (squeue (semtab s sem))))" for p
    by (rule released [OF R(2)]) (use that in \<open>simp add: abs_up_def\<close>)
  ultimately show ?thesis using R(1) settledD(1) [OF R(2)]
    by (intro exI [of _ s'] exI [of _ Q']) (simp add: abs_sem_def signals_spec)
qed

lemma semreset_spec:
  assumes inv: "kinv s Q" and nd: "ndefers s = 0" and i: "0 \<le> sem" "sem < 100" "sstate (semtab s sem) = S_USED" and n: "0 \<le> n"
  shows "\<exists>s' Q'. semreset sem n s = Some (OK, s') \<and> kinv s' Q' \<and> sem_becomes s Q sem (n, []) s' Q'
    \<and> (\<forall>p\<in>set (Q (squeue (semtab s sem))). runnable s' p)"
proof -
  have nd': "0 \<le> ndefers s" using nd by simp
  obtain s' Q' where R: "semreset sem n s = Some (OK, s')"
    "settled (abs_set sem (Q (squeue (semtab s sem))) (\<lambda>e. e\<lparr>scount := n\<rparr>) s) (Q(squeue (semtab s sem) := [])) s' Q'"
    using semreset_ok [OF inv nd' i n] by auto
  have "sem_becomes s Q sem (n, []) s' Q'"
    by (rule sem_becomesI [OF R(2) inv i(1,2), where e = "(semtab s sem)\<lparr>scount := n\<rparr>"]) (simp_all add: abs_set_def)
  moreover have "runnable s' p" if "p \<in> set (Q (squeue (semtab s sem)))" for p
    by (rule released [OF R(2)]) (use that in \<open>simp add: abs_set_def\<close>)
  ultimately show ?thesis using R(1) settledD(1) [OF R(2)]
    by (intro exI [of _ s'] exI [of _ Q']) simp
qed

lemma semdelete_spec:
  assumes inv: "kinv s Q" and rel: "semrel s Q" and nd: "ndefers s = 0" and i: "0 \<le> sem" "sem < 100" "sstate (semtab s sem) = S_USED"
    and c: "scount (semtab s sem) + 1 < 2 ^ 31"
  shows "\<exists>s' Q'. semdelete sem s = Some (OK, s') \<and> kinv s' Q' \<and> sstate (semtab s' sem) = S_FREE
    \<and> Q' (squeue (semtab s sem)) = [] \<and> (\<forall>p\<in>set (Q (squeue (semtab s sem))). runnable s' p)
    \<and> (\<forall>i. 0 \<le> i \<and> i < NSEM \<and> i \<noteq> sem \<longrightarrow> abs_sem s' Q' i = abs_sem s Q i)"
proof -
  have nd': "0 \<le> ndefers s" and c': "scount (semtab s sem) < 2147483647" using nd c by simp_all
  obtain s' Q' where R: "semdelete sem s = Some (OK, s')"
    "settled (abs_set sem (Q (squeue (semtab s sem))) (\<lambda>e. e\<lparr>sstate := S_FREE, scount := max 0 (scount e) + 1\<rparr>) s) (Q(squeue (semtab s sem) := [])) s' Q'"
    using semdelete_ok [OF inv rel nd' i c'] by auto
  have "sem_becomes s Q sem (max 0 (scount (semtab s sem)) + 1, []) s' Q'"
    by (rule sem_becomesI [OF R(2) inv i(1,2), where e = "(semtab s sem)\<lparr>sstate := S_FREE, scount := max 0 (scount (semtab s sem)) + 1\<rparr>"]) (simp_all add: abs_set_def)
  moreover have "semtab s' = semtab (abs_set sem (Q (squeue (semtab s sem))) (\<lambda>e. e\<lparr>sstate := S_FREE, scount := max 0 (scount e) + 1\<rparr>) s)"
    using sframeD(8) [OF settledD(2) [OF R(2)]] .
  moreover have "runnable s' p" if "p \<in> set (Q (squeue (semtab s sem)))" for p
    by (rule released [OF R(2)]) (use that in \<open>simp add: abs_set_def\<close>)
  ultimately show ?thesis using R(1) settledD(1) [OF R(2)] i
    by (intro exI [of _ s'] exI [of _ Q']) (auto simp: abs_set_def sem_becomes_def abs_sem_def)
qed

end
