(* ===== verification/KTime.thy ===== *)
theory KTime
  imports KSpec
begin

text \<open>
  Runs of the timer interrupt: a process that sleeps runs again when its time is over, and not
  before.  Interrupts stay off until the process that got the processor has left the kernel, so
  between two ticks it runs what is pending for it: the rest of the call, or of the clock handler,
  in which it lost the processor.
\<close>

partial_function (option) run_rests :: "kernel \<Rightarrow> kernel option" where
  "run_rests s = (if kcont s (currpid s) = [] then Some s else do { s \<leftarrow> next_rest s; run_rests s })"

fun ticks :: "nat \<Rightarrow> kernel \<Rightarrow> kernel option" where
  "ticks 0 s = Some s"
| "ticks (Suc n) s = do { s \<leftarrow> clkhandler True s; s \<leftarrow> run_rests s; ticks n s }"

text \<open>Every step takes one entry off what is pending, so this ends.\<close>

definition pending :: "kernel \<Rightarrow> nat" where
  "pending s = (\<Sum>p\<in>{0..<100}. length (kcont s p))"

lemma pending_less:
  assumes "0 \<le> p" "p < 100" "kcont s p = k # ks" "kcont s' = (kcont s)(p := ks)"
  shows "pending s' < pending s"
  unfolding pending_def by (rule sum_strict_mono_ex1) (use assms in \<open>auto intro!: bexI [of _ p]\<close>)

lemma rests_run:
  assumes "kinv s Q" "kgood s Q"
  shows "\<exists>s' Q'. run_rests s = Some s' \<and> kinv s' Q' \<and> kgood s' Q' \<and> sleepers s' Q' = sleepers s Q
    \<and> (\<forall>p. rstate (prstate (proctab s' p)) = rstate (prstate (proctab s p))) \<and> kcont s' (currpid s') = []"
  using assms
proof (induction "pending s" arbitrary: s Q rule: less_induct)
  case less
  show ?case
  proof (cases "kcont s (currpid s)")
    case Nil
    then show ?thesis using less.prems by (auto simp: run_rests.simps [of s])
  next
    case (Cons k ks)
    obtain t R where T: "next_rest s = Some t" "kinv t R" "kgood t R" "sleepers t R = sleepers s Q"
      "kcont t = (kcont s)(currpid s := ks)" "\<And>p. rstate (prstate (proctab t p)) = rstate (prstate (proctab s p))"
      using rest_step [OF less.prems Cons] by blast
    have "pending t < pending s"
      by (rule pending_less [OF _ _ Cons T(5)]) (use kpreD(4,5) [OF kinv_kpre [OF less.prems(1)]] in simp_all)
    from less.hyps [OF this T(2,3)] show ?thesis
      using T(1,4,6) Cons by (simp add: run_rests.simps [of s])
  qed
qed

text \<open>The sleepers after \<open>n\<close> ticks: those with more than \<open>n\<close> to wait, with \<open>n\<close> less.\<close>

definition elapse :: "int \<Rightarrow> (int \<times> int) list \<Rightarrow> (int \<times> int) list" where
  "elapse n l = map (\<lambda>(p, w). (p, w - n)) (filter (\<lambda>(p, w). n < w) l)"

lemma elapse_0: "(\<forall>(p, w)\<in>set l. 0 < w) \<Longrightarrow> elapse 0 l = l"
  by (induction l) (auto simp: elapse_def)

lemma elapse_tick: "(\<forall>(p, w)\<in>set l. 0 < w) \<Longrightarrow> 0 \<le> n \<Longrightarrow> elapse n (tick_down l) = elapse (n + 1) l"
  by (induction l) (auto simp: elapse_def tick_down_def)

lemma runnable_rstate: "runnable s p \<longleftrightarrow> rstate (prstate (proctab s p)) = PR_READY"
  by (auto simp: runnable_def rstate_def)

lemma tick_good:
  assumes inv: "kinv s Q" and good: "kgood s Q"
  shows "\<exists>s' Q'. clkhandler True s = Some s' \<and> kinv s' Q' \<and> kgood s' Q'
    \<and> sleepers s' Q' = tick_down (sleepers s Q) \<and> (\<forall>p. (p, 1) \<in> set (sleepers s Q) \<longrightarrow> runnable s' p)"
proof -
  note G = kgoodD [OF good]
  obtain t R s' Q' f where C: "clkhandler True s = Some (s'\<lparr>kcont := f\<rparr>)"
    "f = kcont s \<or> f = (kcont s)(currpid s := kcont s (currpid s) @ [KClock])"
    "settled (fold (mkst PR_READY) (map fst (filter (\<lambda>(p, w). w = 1) (sleepers s Q))) ((tick_time s)\<lparr>queuetab := t\<rparr>))
        (Q(sleepq s := R)) s' Q'"
    "sleepers s' Q' = tick_down (sleepers s Q)" "awake s' Q'"
    using clkhandler_ok [OF inv G(3)] G(4) by auto
  have "kgood s' Q'"
    by (rule kgood_settled [OF C(3) kgood_requeue [OF _ good C(3,5)]])
      (use kpreD(1) [OF kinv_kpre [OF inv]] in \<open>simp_all add: tick_time_def Let_def\<close>)
  moreover have "rests_ok f" using C(2) G(7) rests_add [OF G(7), of KClock] by auto
  ultimately have "kgood (s'\<lparr>kcont := f\<rparr>) Q'" by (rule kgood_kcont)
  moreover have "kinv (s'\<lparr>kcont := f\<rparr>) Q'" using kinv_core [OF kcore_cont] settledD(1) [OF C(3)] by blast
  moreover have "runnable (s'\<lparr>kcont := f\<rparr>) p" if "(p, 1) \<in> set (sleepers s Q)" for p
  proof -
    have "runnable s' p" by (rule released [OF C(3)]) (use that in \<open>force intro: rev_image_eqI\<close>)
    then show ?thesis by (simp add: runnable_def)
  qed
  moreover have "sleepers (s'\<lparr>kcont := f\<rparr>) Q' = sleepers s' Q'" by (simp add: sleepers_def)
  ultimately show ?thesis using C(1,4) by (intro exI [of _ "s'\<lparr>kcont := f\<rparr>"] exI [of _ Q']) simp
qed

lemma tick_step:
  assumes "kinv s Q" "kgood s Q"
  shows "\<exists>t s' Q'. clkhandler True s = Some t \<and> run_rests t = Some s' \<and> kinv s' Q' \<and> kgood s' Q'
    \<and> sleepers s' Q' = tick_down (sleepers s Q) \<and> (\<forall>p. (p, 1) \<in> set (sleepers s Q) \<longrightarrow> runnable s' p)"
proof -
  obtain t R where T: "clkhandler True s = Some t" "kinv t R" "kgood t R" "sleepers t R = tick_down (sleepers s Q)"
    "\<forall>p. (p, 1) \<in> set (sleepers s Q) \<longrightarrow> runnable t p"
    using tick_good [OF assms] by blast
  obtain s' Q' where S: "run_rests t = Some s'" "kinv s' Q'" "kgood s' Q'" "sleepers s' Q' = sleepers t R"
    "\<forall>p. rstate (prstate (proctab s' p)) = rstate (prstate (proctab t p))"
    using rests_run [OF T(2,3)] by blast
  then have "\<forall>p. runnable s' p = runnable t p" unfolding runnable_rstate by simp
  then show ?thesis using S(1-4) T(1,4,5) by (intro exI [of _ t] exI [of _ s'] exI [of _ Q']) simp
qed

lemma ticks_ok:
  assumes "kinv s Q" "kgood s Q"
  shows "\<exists>s' Q'. ticks n s = Some s' \<and> kinv s' Q' \<and> kgood s' Q' \<and> sleepers s' Q' = elapse (int n) (sleepers s Q)"
  using assms
proof (induction n arbitrary: s Q)
  case 0
  then show ?case using elapse_0 [of "sleepers s Q"] kgoodD(3) [of s Q] by (fastforce simp: awake_def)
next
  case (Suc n)
  obtain u t R where T: "clkhandler True s = Some u" "run_rests u = Some t" "kinv t R" "kgood t R" "sleepers t R = tick_down (sleepers s Q)"
    using tick_step [OF Suc.prems] by blast
  obtain s' Q' where "ticks n t = Some s'" "kinv s' Q'" "kgood s' Q'" "sleepers s' Q' = elapse (int n) (sleepers t R)"
    using Suc.IH [OF T(3,4)] by blast
  then show ?case using T(1,2,5) elapse_tick [of "sleepers s Q" "int n"] kgoodD(3) [OF Suc.prems(2)]
    by (intro exI [of _ s'] exI [of _ Q']) (simp add: awake_def add.commute)
qed

lemma ticks_add: "ticks (m + n) s = do { s \<leftarrow> ticks m s; ticks n s }"
  by (induction m arbitrary: s) (simp_all split: bind_split)

text \<open>A process with \<open>w\<close> ticks to wait can run after \<open>w\<close> ticks.\<close>

lemma wakes_in_time:
  assumes inv: "kinv s Q" and good: "kgood s Q" and p: "(p, w) \<in> set (sleepers s Q)"
  shows "\<exists>s' Q'. ticks (nat w) s = Some s' \<and> kinv s' Q' \<and> kgood s' Q' \<and> runnable s' p"
proof -
  have w: "0 < w" using kgoodD(3) [OF good] p by (auto simp: awake_def)
  obtain t R where T: "ticks (nat (w - 1)) s = Some t" "kinv t R" "kgood t R"
    "sleepers t R = elapse (int (nat (w - 1))) (sleepers s Q)"
    using ticks_ok [OF inv good] by blast
  have "(p, 1) \<in> set (sleepers t R)" using p w unfolding T(4) by (force simp: elapse_def)
  then obtain u s' Q' where "clkhandler True t = Some u" "run_rests u = Some s'" "kinv s' Q'" "kgood s' Q'" "runnable s' p"
    using tick_step [OF T(2,3)] by blast
  moreover have "nat w = nat (w - 1) + 1" using w by simp
  ultimately show ?thesis using T(1) ticks_add [of "nat (w - 1)" 1 s] by (auto simp: eval_nat_numeral)
qed

lemma asleep:
  assumes inv: "kinv s Q" and p: "(p, w) \<in> set (sleepers s Q)"
  shows "\<not> runnable s p"
proof -
  note P = kpreD [OF kinv_kpre [OF inv]]
  have "p \<in> fst ` set (sleepers s Q)" using p by force
  then have "p \<in> set (Q (sleepq s))" by (simp add: sleepers_def map_fst_wake flip: set_map)
  then have "pqueue s p = Some (sleepq s)" using qrel_member [OF P(3) layout_sleep [OF P(1)]] by blast
  then show ?thesis using layout_apart(1) [OF P(1)] by (auto simp: runnable_def pqueue_def pq_def split: if_splits)
qed

text \<open>Before that it stays where it is.\<close>

lemma sleeps_on:
  assumes inv: "kinv s Q" and good: "kgood s Q" and p: "(p, w) \<in> set (sleepers s Q)" and n: "int n < w"
  shows "\<exists>s' Q'. ticks n s = Some s' \<and> kinv s' Q' \<and> kgood s' Q' \<and> (p, w - int n) \<in> set (sleepers s' Q') \<and> \<not> runnable s' p"
proof -
  obtain s' Q' where "ticks n s = Some s'" "kinv s' Q'" "kgood s' Q'" "sleepers s' Q' = elapse (int n) (sleepers s Q)"
    using ticks_ok [OF inv good] by blast
  moreover from this have "(p, w - int n) \<in> set (sleepers s' Q')" using p n by (force simp: elapse_def)
  ultimately show ?thesis using asleep by blast
qed

end
