(* ===== verification/Demo.thy ===== *)
theory Demo
  imports Boot Procs
begin

text \<open>
  A concrete state of the kernel, in which every kind of blocked process occurs, with the
  proof that it satisfies the invariant.  The properties are applied to it.

  Process 1 runs, 2 and the null process are ready, 3 waits for semaphore 0, 4 sleeps, 5 is
  suspended, 6 waits for a message, and 7 waits to write under blocker 0, which process 1
  holds as a reader.
\<close>

definition empty_tab :: qtab where
  "empty_tab x = (if x < NPROC then \<lparr>qkey = 0, qnext = 0, qprev = 0\<rparr>
     else if even x then \<lparr>qkey = MAXKEY, qnext = x + 1, qprev = EMPTY\<rparr>
     else \<lparr>qkey = MINKEY, qnext = EMPTY, qprev = x - 1\<rparr>)"

lemma empty_tab_rel: "qrel empty_tab 326 (\<lambda>_. []) (\<lambda>_. None)"
  by (auto simp: qrel_def qids_def isq_def empty_tab_def)

text \<open>Process \<open>p\<close> with key \<open>k\<close> at the end of queue \<open>q\<close>.\<close>

definition linkp :: "int \<Rightarrow> int \<Rightarrow> int \<Rightarrow> qtab \<Rightarrow> qtab" where
  "linkp q p k t = (let l = qprev (t (q + 1));
     t = t(p := \<lparr>qkey = k, qnext = q + 1, qprev = l\<rparr>); t = t(l := (t l)\<lparr>qnext := p\<rparr>)
     in t(q + 1 := (t (q + 1))\<lparr>qprev := p\<rparr>))"

lemma linkp_rel:
  assumes rel: "qrel t n Q W" and q: "q \<in> qids n" and p: "0 \<le> p" "p < 100" "W p = None"
  shows "qrel (linkp q p k t) n (Q(q := Q q @ [p])) (W(p := Some q))"
proof -
  define l where "l = last (q # Q q)"
  have lq: "qprev (t (q + 1)) = l" using isq_ends(2) [OF qrelD(1) [OF rel q]] by (simp only: l_def)
  have lm: "l = q \<or> l \<in> set (Q q)" unfolding l_def by (rule last_node)
  have lp: "p \<noteq> l" using lm qrelD(4) [OF rel q] p qrel_member [OF rel q, of l] by auto
  have l1: "l \<noteq> q + 1" "p \<noteq> q + 1" using lm qrelD(4) [OF rel q] p qrel_member [OF rel q, of l] by auto
  have "qrel (linkp q p k t) n (Q(q := Q q @ p # [])) (W(p := Some q))"
    by (rule qrel_link [OF rel q _ p l_def refl])
      (use lp l1 p in \<open>simp_all add: linkp_def Let_def lq\<close>)
  then show ?thesis by simp
qed

definition demo_tab :: qtab where
  "demo_tab = linkp 300 7 0 (linkp 324 4 5 (linkp 100 3 0 (linkp 320 0 0 (linkp 320 2 10 empty_tab))))"

definition demo_queues :: "int \<Rightarrow> int list" where
  "demo_queues = (\<lambda>_. [])(320 := [2, 0], 100 := [3], 324 := [4], 300 := [7])"

lemma demo_tab_rel: "qrel demo_tab 326 demo_queues ((\<lambda>_. None)(2 := Some 320, 0 := Some 320, 3 := Some 100, 4 := Some 324, 7 := Some 300))"
proof -
  have q: "300 \<in> qids 326" "324 \<in> qids 326" "100 \<in> qids 326" "320 \<in> qids 326" by (simp_all add: qids_def)
  note 1 = linkp_rel [OF empty_tab_rel q(4), of 2 10]
  note 2 = linkp_rel [OF 1 q(4), of 0 0]
  note 3 = linkp_rel [OF 2 q(3), of 3 0]
  note 4 = linkp_rel [OF 3 q(2), of 4 5]
  note 5 = linkp_rel [OF 4 q(1), of 7 0]
  show ?thesis using 5 by (simp add: demo_tab_def demo_queues_def)
qed

definition demo_proc :: "pstate \<Rightarrow> int \<Rightarrow> int \<Rightarrow> int \<Rightarrow> procent" where
  "demo_proc st prio sem stk = \<lparr>prstate = st, prprio = prio, prprio0 = prio, prstkptr = 0, prstkbase = stk, prstklen = 64,
     prname = ''demo'', prsem = sem, prparent = 0, prmsg = 0, prhasmsg = False, prdesc = (\<lambda>_. 0),
     timestatein = ztime, statetimes = (\<lambda>_ _. ztime)\<rparr>"

definition demo_procs :: "int \<Rightarrow> procent" where
  "demo_procs = (\<lambda>_. demo_proc PR_FREE 0 (-1) 0)(0 := demo_proc PR_READY 0 (-1) 0, 1 := demo_proc PR_CURR 20 (-1) 1196,
     2 := demo_proc PR_READY 10 (-1) 0, 3 := demo_proc PR_WAIT 30 0 0, 4 := demo_proc PR_SLEEP 15 (-1) 0,
     5 := demo_proc PR_SUSP 20 (-1) 1132, 6 := demo_proc PR_RECV 25 (-1) 0, 7 := demo_proc PR_WAIT 40 (-2) 0)"

definition demo :: kernel where
  "demo = \<lparr>queuetab = demo_tab, nextqid = 326, proctab = demo_procs, prcount = 8, currpid = 1, nextpid = 8,
     readylist = 320, sleepq = 324, scratchlist = 322, readycount = 2, ndefers = 0, attempt = False,
     semtab = (\<lambda>i. \<lparr>sstate = (if i < 2 then S_USED else S_FREE), scount = (if i = 0 then -1 else if i = 1 then 2 else 0), squeue = 100 + 2 * i\<rparr>),
     nextsem = 2,
     rwbtab = (\<lambda>i. \<lparr>rwstate = (if i < 2 then S_USED else S_FREE), rwcount = (if i = 0 then 1 else 0), rwqueue = 300 + 2 * i, qcount = (if i = 0 then 1 else 0)\<rparr>),
     rwbflags = (\<lambda>_. 0)(1 := 1, 7 := -1), nextrwb = 2, preempt = 2, clktime = 7, count1000 = 1000, clktimems = True,
     mstime_now = ztime, envtab = (\<lambda>_. 0), debug_mask = 0, state_times = (\<lambda>_ _. ztime), procs_finished = (\<lambda>_. 0), randx = 1,
     mem = (\<lambda>_. 0), marks = (\<lambda>_. 0), nmarks = 0, mkmutex = 1, heap = heap_ex,
     porttab = (\<lambda>_. \<lparr>ptssem = 0, ptrsem = 0, ptstate = PT_FREE, ptmaxcnt = 0, ptseq = 0, pthead = 0, pttail = 0\<rparr>), ptfree = 0, ptnextid = 0,
     buftab = (\<lambda>_. \<lparr>bpnext = 0, bpsem = 0, bpsize = 0\<rparr>), nbpools = 0, cmdhistory = 0, kcont = (\<lambda>_. []), kret = (\<lambda>_. 0)\<rparr>"

lemma demo_fields [simp]:
  "queuetab demo = demo_tab" "nextqid demo = 326" "proctab demo = demo_procs" "prcount demo = 8" "currpid demo = 1" "nextpid demo = 8"
  "readylist demo = 320" "sleepq demo = 324" "scratchlist demo = 322" "readycount demo = 2" "ndefers demo = 0"
  "semtab demo i = \<lparr>sstate = (if i < 2 then S_USED else S_FREE), scount = (if i = 0 then -1 else if i = 1 then 2 else 0), squeue = 100 + 2 * i\<rparr>"
  "nextsem demo = 2" "nextrwb demo = 2"
  "rwbtab demo i = \<lparr>rwstate = (if i < 2 then S_USED else S_FREE), rwcount = (if i = 0 then 1 else 0), rwqueue = 300 + 2 * i, qcount = (if i = 0 then 1 else 0)\<rparr>"
  "rwbflags demo = (\<lambda>_. 0)(1 := 1, 7 := -1)" "envtab demo i = 0" "heap demo = heap_ex" "kcont demo = (\<lambda>_. [])"
  "nbpools demo = 0" "cmdhistory demo = 0" "mem demo = (\<lambda>_. 0)" "ptfree demo = 0" "ptnextid demo = 0"
  by (simp_all add: demo_def)

lemma demo_proc_fields [simp]:
  "prstate (demo_proc st prio sem stk) = st" "prprio (demo_proc st prio sem stk) = prio" "prprio0 (demo_proc st prio sem stk) = prio"
  "prsem (demo_proc st prio sem stk) = sem" "prparent (demo_proc st prio sem stk) = 0" "prhasmsg (demo_proc st prio sem stk) = False"
  "prstkbase (demo_proc st prio sem stk) = stk" "prstklen (demo_proc st prio sem stk) = 64"
  by (simp_all add: demo_proc_def)

lemma demo_layout: "layout demo"
  unfolding layout_def
proof (intro conjI)
  show "inj_on (qid_of demo) (Collect qname_ok)"
  proof (rule inj_onI)
    fix x y assume "x \<in> Collect qname_ok" "y \<in> Collect qname_ok" "qid_of demo x = qid_of demo y"
    then show "x = y" by (cases x; cases y) auto
  qed
  show "qid_of demo ` Collect qname_ok \<subseteq> qids (nextqid demo)"
  proof
    fix q assume "q \<in> qid_of demo ` Collect qname_ok"
    then obtain x where "qname_ok x" "q = qid_of demo x" by auto
    then show "q \<in> qids (nextqid demo)" by (cases x) (auto simp: qids_def)
  qed
qed

lemma demo_pqueue: "pqueue demo = (\<lambda>_. None)(2 := Some 320, 0 := Some 320, 3 := Some 100, 4 := Some 324, 7 := Some 300)"
  by (rule ext) (simp add: pqueue_def pq_def demo_procs_def)

lemma demo_inv: "kinv demo demo_queues"
proof -
  have "qrel demo_tab 326 demo_queues (pqueue demo)" using demo_tab_rel by (simp add: demo_pqueue)
  moreover have "wait_ok (demo_procs p)" for p by (simp add: wait_ok_def demo_procs_def)
  moreover have "desc (\<lambda>x. qkey (demo_tab x)) [2, 0]" "qkey (demo_tab 4) = 5"
    by (simp_all add: demo_tab_def linkp_def empty_tab_def desc_def Let_def)
  ultimately have "kpre demo demo_queues"
    unfolding kpre_def kgen_def using demo_layout
    by (auto simp: sched_ok_def demo_queues_def skeys_def demo_procs_def split: if_splits)
  then show ?thesis by (simp add: kinv_def demo_procs_def)
qed

lemma demo_sems: "semrel demo demo_queues"
  by (auto simp: semrel_def demo_queues_def)

lemma demo_semsfree: "sems_free demo demo_queues"
  by (auto simp: sems_free_def demo_queues_def)

end

