(* ===== verification/History.thy ===== *)
theory History
  imports Procs MemChain
begin

text \<open>
  The command history of the shell (\<open>shell/shell.c\<close>): \<open>cmdhistoryinit\<close>,
  \<open>cmdhistorydel\<close> and \<open>cmdhistoryadd\<close>.  The history is an array of
  \<open>struct strlist\<close> nodes from the heap, chained by \<open>prev\<close> from the newest command to the
  oldest; a node is 12 bytes of memory.
\<close>

abbreviation (input) CMDHIST_MAX :: int where "CMDHIST_MAX \<equiv> 100"

text \<open>\<open>struct strlist\<close> of \<open>include/environment.h\<close>: the offsets of \<open>str\<close>, \<open>prev\<close> and \<open>next\<close>.\<close>

definition str_of :: "bytes \<Rightarrow> int \<Rightarrow> int" where
  "str_of m p = ld32 m p"

definition prev_of :: "bytes \<Rightarrow> int \<Rightarrow> int" where
  "prev_of m p = ld32 m (p + 4)"

definition set_str :: "int \<Rightarrow> int \<Rightarrow> bytes \<Rightarrow> bytes" where
  "set_str p v = st32 p v"

definition set_prev_of :: "int \<Rightarrow> int \<Rightarrow> bytes \<Rightarrow> bytes" where
  "set_prev_of p v = st32 (p + 4) v"

definition set_next_of :: "int \<Rightarrow> int \<Rightarrow> bytes \<Rightarrow> bytes" where
  "set_next_of p v = st32 (p + 8) v"

text \<open>The loop of \<open>cmdhistoryinit\<close> and what follows it.\<close>

fun hist_link :: "nat \<Rightarrow> int \<Rightarrow> int \<Rightarrow> bytes \<Rightarrow> bytes" where
  "hist_link 0 tmp next m = set_prev_of tmp 0 (set_str tmp 0 (set_next_of tmp next m))"
| "hist_link (Suc i) tmp next m =
     hist_link i (tmp + 12) tmp (set_prev_of tmp (tmp + 12) (set_next_of tmp next (set_str tmp 0 m)))"

definition cmdhistoryinit :: "kernel \<Rightarrow> kernel option" where
  "cmdhistoryinit s =
     (let histval = envtab s EV_CMDHIST in
      if histval > 0 \<and> histval \<le> CMDHIST_MAX then do {
        (p, h) \<leftarrow> getmem (envtab s EV_MEMALLOC) (12 * histval) (heap s);
        let s = s\<lparr>heap := h\<rparr>;
        if p = SYSERR then Some (s\<lparr>cmdhistory := 0\<rparr>)
        else
          let m = set_str p 0 (set_prev_of p 0 (set_next_of p 0 (mem s)))
          in Some (s\<lparr>cmdhistory := p, mem := hist_link (nat histval - 1) p 0 m\<rparr>)
      } else Some s)"

partial_function (option) hist_free :: "int \<Rightarrow> bytes \<Rightarrow> mheap \<Rightarrow> (bytes \<times> mheap) option" where
  "hist_free tmp m h =
     (if tmp = 0 then Some (m, h)
      else if str_of m tmp \<noteq> 0 then do {
        n \<leftarrow> strlen m (str_of m tmp);
        (_, h) \<leftarrow> freemem (str_of m tmp) (n + 1) h;
        let m = set_str tmp 0 m;
        hist_free (prev_of m tmp) m h
      } else hist_free (prev_of m tmp) m h)"

definition cmdhistorydel :: "kernel \<Rightarrow> kernel option" where
  "cmdhistorydel s =
     (if cmdhistory s \<noteq> 0 then do {
        (m, h) \<leftarrow> hist_free (cmdhistory s) (mem s) (heap s);
        (_, h) \<leftarrow> freemem (cmdhistory s) (u32 (12 * envtab s EV_CMDHIST)) h;
        Some (s\<lparr>mem := m, heap := h, cmdhistory := 0\<rparr>)
      } else Some s)"

text \<open>The loop that moves every command one slot back, and gives what fell off the end.\<close>

partial_function (option) hist_shift :: "int \<Rightarrow> int \<Rightarrow> bytes \<Rightarrow> (int \<times> bytes) option" where
  "hist_shift tmpcmd newcmd m =
     (if tmpcmd \<noteq> 0 \<and> newcmd \<noteq> 0 then
        hist_shift (prev_of (set_str tmpcmd newcmd m) tmpcmd) (str_of m tmpcmd) (set_str tmpcmd newcmd m)
      else Some (newcmd, m))"

definition cmdhistoryadd :: "int \<Rightarrow> int \<Rightarrow> kernel \<Rightarrow> kernel option" where
  "cmdhistoryadd buf n s = do {
     (newcmd, h) \<leftarrow> getmem (envtab s EV_MEMALLOC) (u32 (n + 1)) (heap s);
     if newcmd = SYSERR then None
     else do {
       let (_, m) = strncpy (mem s) newcmd buf n;
       let m = m(newcmd + n := 0);
       (out, m) \<leftarrow> hist_shift (cmdhistory s) newcmd m;
       if out \<noteq> 0 then do {
         k \<leftarrow> strlen m out;
         (_, h) \<leftarrow> freemem out (k + 1) h;
         Some (s\<lparr>mem := m, heap := h\<rparr>)
       } else Some (s\<lparr>mem := m, heap := h\<rparr>)
     }
   }"

section \<open>The chain of the history\<close>

lemma str_set_str [simp]: "str_of (set_str p v m) p = u32 v"
  by (simp add: str_of_def set_str_def)

lemma str_set_other: "p + 12 \<le> q \<or> q + 12 \<le> p \<Longrightarrow> str_of (set_str p v m) q = str_of m q"
  by (auto simp: str_of_def set_str_def ld32_apart)

lemma prev_set_str: "p = q \<or> p + 12 \<le> q \<or> q + 12 \<le> p \<Longrightarrow> prev_of (set_str p v m) q = prev_of m q"
  by (auto simp: prev_of_def set_str_def ld32_apart)

section \<open>Adding a command\<close>

text \<open>The strings of the slots, shifted by one as far as they are in use, and what falls off.\<close>

fun shift_in :: "int \<Rightarrow> int list \<Rightarrow> int list \<times> int" where
  "shift_in new [] = ([], new)"
| "shift_in new (x # xs) = (if new = 0 then (x # xs, 0) else let (ys, out) = shift_in x xs in (new # ys, out))"

lemma hist_shift_ok:
  assumes "mchain (prev_of m) p ns" "apart 12 ns" "0 \<le> new" "new < 4294967296"
  shows "\<exists>m'. hist_shift p new m = Some (snd (shift_in new (map (str_of m) ns)), m')
    \<and> mchain (prev_of m') p ns \<and> map (str_of m') ns = fst (shift_in new (map (str_of m) ns))
    \<and> (\<forall>x. (\<forall>n\<in>set ns. x < n \<or> n + 12 \<le> x) \<longrightarrow> m' x = m x)"
  using assms
proof (induction ns arbitrary: m p new)
  case Nil
  then show ?case by (subst hist_shift.simps) simp
next
  case (Cons n ns)
  show ?case
  proof (cases "new = 0")
    case True
    then show ?thesis using Cons.prems(1) by (subst hist_shift.simps) auto
  next
    case False
    define m1 where "m1 = set_str n new m"
    note A = Cons.prems(2) [unfolded apart_Cons]
    have pn: "p = n" "n \<noteq> 0" "mchain (prev_of m) (prev_of m n) ns" using Cons.prems(1) by simp_all
    have pr: "prev_of m1 x = prev_of m x" if "x = n \<or> x \<in> set ns" for x
      unfolding m1_def by (rule prev_set_str) (use that A in blast)
    have st: "str_of m1 x = str_of m x" if "x \<in> set ns" for x
      unfolding m1_def by (rule str_set_other) (use that A in blast)
    have ch: "mchain (prev_of m1) (prev_of m1 n) ns" using pn(3) pr mchain_cong [of ns "prev_of m1" "prev_of m"] by simp
    have ms: "map (str_of m1) ns = map (str_of m) ns" using st by simp
    have rg: "0 \<le> str_of m n" "str_of m n < 4294967296" by (simp_all add: str_of_def ld32_range)
    obtain m' where R: "hist_shift (prev_of m1 n) (str_of m n) m1 = Some (snd (shift_in (str_of m n) (map (str_of m) ns)), m')"
      "mchain (prev_of m') (prev_of m1 n) ns" "map (str_of m') ns = fst (shift_in (str_of m n) (map (str_of m) ns))"
      "\<And>x. (\<forall>k\<in>set ns. x < k \<or> k + 12 \<le> x) \<Longrightarrow> m' x = m1 x"
      using Cons.IH [OF ch conjunct1 [OF A] rg] unfolding ms by blast
    have out: "m' x = m1 x" if "n \<le> x" "x < n + 12" for x
      by (rule R(4)) (use that A in fastforce)
    have sn: "str_of m' n = new" "prev_of m' n = prev_of m1 n"
      using out ld32_cong [of n m' m1] ld32_cong [of "n + 4" m' m1] Cons.prems(3,4)
      unfolding str_of_def prev_of_def by (simp_all add: m1_def set_str_def)
    have run: "hist_shift p new m = hist_shift (prev_of m1 n) (str_of m n) m1"
      using pn False by (subst hist_shift.simps) (simp add: m1_def)
    have "m' x = m x" if "\<forall>k\<in>set (n # ns). x < k \<or> k + 12 \<le> x" for x
      using R(4) [of x] that st32_other [of x n new m] by (auto simp: m1_def set_str_def)
    then show ?thesis using R(1-3) pn sn False run
      by (intro exI [of _ m']) (auto simp: case_prod_beta)
  qed
qed

text \<open>While the slots in use come first, the history holds the newest commands.\<close>

lemma shift_in_full:
  assumes "new \<noteq> 0" "0 \<notin> set used"
  shows "fst (shift_in new (used @ replicate k 0)) = take (length used + k) (new # used @ replicate (k - 1) 0)"
    and "snd (shift_in new (used @ replicate k 0)) = (if k = 0 then last (new # used) else 0)"
proof -
  have "shift_in new (used @ replicate k 0) =
      (take (length used + k) (new # used @ replicate (k - 1) 0), if k = 0 then last (new # used) else 0)"
    using assms
  proof (induction used arbitrary: new)
    case Nil
    then show ?case by (cases k) (auto split: nat.splits, case_tac nat, auto)
  next
    case (Cons x xs)
    then show ?case by simp
  qed
  then show "fst (shift_in new (used @ replicate k 0)) = take (length used + k) (new # used @ replicate (k - 1) 0)"
    "snd (shift_in new (used @ replicate k 0)) = (if k = 0 then last (new # used) else 0)" by simp_all
qed

section \<open>Building and releasing the history\<close>

lemma hist_link_ok:
  assumes "0 < p" "p + 12 * int (Suc k) \<le> 4294967296"
  shows "mchain (prev_of (hist_link k p next m)) p (blocks 12 (Suc k) p) \<and> (\<forall>n\<in>set (blocks 12 (Suc k) p). str_of (hist_link k p next m) n = 0)
    \<and> (\<forall>x. x < p \<or> p + 12 * int (Suc k) \<le> x \<longrightarrow> hist_link k p next m x = m x)"
  using assms
proof (induction k arbitrary: p "next" m)
  case 0
  then show ?case
    by (auto simp: prev_of_def str_of_def set_prev_of_def set_str_def set_next_of_def ld32_apart st32_other)
next
  case (Suc k)
  define m1 where "m1 = set_prev_of p (p + 12) (set_next_of p next (set_str p 0 m))"
  define m' where "m' = hist_link k (p + 12) p m1"
  have l: "hist_link (Suc k) p next m = m'" by (simp add: m'_def m1_def)
  have IH: "mchain (prev_of m') (p + 12) (blocks 12 (Suc k) (p + 12))" "\<And>n. n \<in> set (blocks 12 (Suc k) (p + 12)) \<Longrightarrow> str_of m' n = 0"
    "\<And>x. x < p + 12 \<or> p + 12 + 12 * int (Suc k) \<le> x \<Longrightarrow> m' x = m1 x"
    unfolding m'_def using Suc.IH [of "p + 12" p m1] Suc.prems by auto
  have "prev_of m' p = prev_of m1 p" "str_of m' p = str_of m1 p"
    unfolding prev_of_def str_of_def by (intro ld32_cong IH(3); simp)+
  then have pn: "prev_of m' p = p + 12" "str_of m' p = 0"
    using Suc.prems by (simp_all add: m1_def prev_of_def str_of_def set_prev_of_def set_str_def set_next_of_def ld32_apart)
  have "m' x = m x" if "x < p \<or> p + 12 * int (Suc (Suc k)) \<le> x" for x
  proof -
    have "m' x = m1 x" by (rule IH(3)) (use that in auto)
    also have "\<dots> = m x" using that by (auto simp: m1_def set_prev_of_def set_str_def set_next_of_def st32_other)
    finally show ?thesis .
  qed
  then show ?case unfolding l using IH(1,2) pn Suc.prems(1) by simp
qed

lemma cmdhistoryinit_ok:
  assumes c: "0 < envtab s EV_CMDHIST" "envtab s EV_CMDHIST \<le> CMDHIST_MAX"
    and g: "getmem (envtab s EV_MEMALLOC) (12 * envtab s EV_CMDHIST) (heap s) = Some (p, h)"
    and p: "0 < p" "p + 12 * envtab s EV_CMDHIST \<le> 4294967296"
  defines "ns \<equiv> blocks 12 (nat (envtab s EV_CMDHIST)) p"
  shows "\<exists>m. cmdhistoryinit s = Some (s\<lparr>heap := h, cmdhistory := p, mem := m\<rparr>) \<and> mchain (prev_of m) p ns
    \<and> (\<forall>n\<in>set ns. str_of m n = 0) \<and> (\<forall>x. x < p \<or> p + 12 * envtab s EV_CMDHIST \<le> x \<longrightarrow> m x = mem s x)"
proof -
  define k where "k = nat (envtab s EV_CMDHIST) - 1"
  have k: "nat (envtab s EV_CMDHIST) = Suc k" "12 * envtab s EV_CMDHIST = 12 * int (Suc k)" using c by (auto simp: k_def)
  define m where "m = hist_link k p 0 (set_str p 0 (set_prev_of p 0 (set_next_of p 0 (mem s))))"
  have "cmdhistoryinit s = Some (s\<lparr>heap := h, cmdhistory := p, mem := m\<rparr>)"
    using c g p(1) by (simp add: cmdhistoryinit_def Let_def k m_def)
  moreover note H = hist_link_ok [of p k 0 "set_str p 0 (set_prev_of p 0 (set_next_of p 0 (mem s)))", folded m_def]
  moreover have "m x = mem s x" if "x < p \<or> p + 12 * envtab s EV_CMDHIST \<le> x" for x
    using H p that unfolding k(2) by (auto simp: set_prev_of_def set_str_def set_next_of_def st32_other)
  ultimately show ?thesis using p unfolding ns_def k by blast
qed

lemma hist_free_empty:
  "mchain (prev_of m) p ns \<Longrightarrow> (\<forall>n\<in>set ns. str_of m n = 0) \<Longrightarrow> hist_free p m h = Some (m, h)"
proof (induction ns arbitrary: p)
  case Nil
  then show ?case by (subst hist_free.simps) simp
next
  case (Cons n ns)
  then show ?case by (subst hist_free.simps) auto
qed

lemma cmdhistorydel_empty:
  assumes "mchain (prev_of (mem s)) (cmdhistory s) ns" "ns \<noteq> []" "\<forall>n\<in>set ns. str_of (mem s) n = 0"
    "freemem (cmdhistory s) (u32 (12 * envtab s EV_CMDHIST)) (heap s) = Some (r, h)"
  shows "cmdhistorydel s = Some (s\<lparr>heap := h, cmdhistory := 0\<rparr>)"
proof -
  have "cmdhistory s \<noteq> 0" using assms(1,2) by (cases ns) auto
  then show ?thesis using hist_free_empty [OF assms(1,3)] assms(4) by (simp add: cmdhistorydel_def)
qed

end
