(* ===== verification/Env.thy ===== *)
theory Env
  imports History
begin

text \<open>
  The environment variables of the kernel: \<open>system/setenv.c\<close>, \<open>system/sets.c\<close> and
  \<open>system/clear_cpuqdata.c\<close>, with the entries of \<open>envtab\<close> that \<open>system/initialize.c\<close> gives
  a set function.
\<close>

abbreviation (input) DEBUG_ALL :: int where "DEBUG_ALL \<equiv> 0x0FFF"
abbreviation (input) DEBUG_VERBOSE :: int where "DEBUG_VERBOSE \<equiv> 0xF000"
abbreviation (input) DEBUG_L1 :: int where "DEBUG_L1 \<equiv> 0x1000"
abbreviation (input) DBGROUP_STRNUM :: int where "DBGROUP_STRNUM \<equiv> 6"

definition put_env :: "int \<Rightarrow> int \<Rightarrow> kernel \<Rightarrow> kernel" where
  "put_env var val s = s\<lparr>envtab := (envtab s)(var := val)\<rparr>"

text \<open>\<open>record_cpuqdata\<close> for every process of the table.\<close>

fun record_all :: "nat \<Rightarrow> int \<Rightarrow> kernel \<Rightarrow> kernel option" where
  "record_all 0 i s = Some s"
| "record_all (Suc n) i s =
     (if prstate (proctab s i) \<noteq> PR_FREE then do {
        (_, s) \<leftarrow> record_cpuqdata i s;
        record_all n (i + 1) s
      } else record_all n (i + 1) s)"

section \<open>The scheduler\<close>

fun requeue_loop :: "nat \<Rightarrow> kernel \<Rightarrow> kernel option" where
  "requeue_loop 0 s = Some s"
| "requeue_loop (Suc n) s = do {
     (tmppid, s) \<leftarrow> dequeue (readylist s) s;
     let s = s\<lparr>readycount := u16 (readycount s - 1)\<rparr>;
     if \<not> isbadpid s tmppid then do {
       s \<leftarrow> refresh_prio tmppid s;
       (_, s) \<leftarrow> insert_q tmppid (scratchlist s) (prprio (proctab s tmppid)) s;
       requeue_loop n (s\<lparr>readycount := u16 (readycount s + 1)\<rparr>)
     } else requeue_loop n s
   }"

definition set_scheduler :: "int \<Rightarrow> kernel \<Rightarrow> (int \<times> kernel) option" where
  "set_scheduler newval s = do {
     em \<leftarrow> isempty (scratchlist s) s;
     if \<not> em then Some (SYSERR, s)
     else
       let oldval = envtab s EV_SCHEDULER;
           s = put_env EV_SCHEDULER newval s
       in if oldval \<noteq> newval then do {
            s \<leftarrow> requeue_loop (nat (readycount s)) s;
            s \<leftarrow> copyqueue (scratchlist s) (readylist s) s;
            if envtab s EV_CPUQDATA = 1 then do {
              s \<leftarrow> record_all (nat NPROC) 0 s;
              Some (OK, s)
            } else Some (OK, s)
          } else Some (OK, s)
   }"

section \<open>Accounting\<close>

definition clear_cpuqdata :: "kernel \<Rightarrow> kernel" where
  "clear_cpuqdata s =
     (let zero = (\<lambda>f (i :: int) st. if 0 \<le> i \<and> i < QTYPE_VALS then ztime else f i st)
      in s\<lparr>proctab := (\<lambda>p. if 0 \<le> p \<and> p < NPROC then
             let e = proctab s p;
                 e = (if prstate e \<noteq> PR_FREE then e\<lparr>statetimes := zero (statetimes e)\<rparr> else e)
             in e\<lparr>timestatein := ztime\<rparr> else proctab s p),
           state_times := zero (state_times s),
           procs_finished := (\<lambda>i. if 0 \<le> i \<and> i < QTYPE_VALS then 0 else procs_finished s i)\<rparr>)"

definition set_cpuqdata :: "int \<Rightarrow> kernel \<Rightarrow> (int \<times> kernel) option" where
  "set_cpuqdata newval s =
     (if envtab s EV_CPUQDATA \<noteq> newval then do {
        s \<leftarrow> (if newval \<noteq> 0 then record_all (nat NPROC) 0 s else Some (clear_cpuqdata s));
        Some (OK, put_env EV_CPUQDATA newval s)
      } else Some (OK, s))"

section \<open>Command history\<close>

definition set_cmdhistory :: "int \<Rightarrow> kernel \<Rightarrow> (int \<times> kernel) option" where
  "set_cmdhistory newval s =
     (if envtab s EV_CMDHIST \<noteq> newval then do {
        s \<leftarrow> cmdhistorydel s;
        s \<leftarrow> (if newval \<noteq> 0 then cmdhistoryinit s else Some s);
        Some (OK, put_env EV_CMDHIST newval s)
      } else Some (OK, s))"

section \<open>Debug mask\<close>

text \<open>
  The mask of the levels: the sum, in a \<open>uint16\<close>, of \<open>DEBUG_L1 * (1 << i)\<close> for
  \<open>i = 1, ..., newval\<close>.  From \<open>i = 19\<close> on the product leaves the range of \<open>int\<close>.
\<close>

fun level_mask :: "nat \<Rightarrow> int" where
  "level_mask 0 = 0"
| "level_mask (Suc n) = u16 (level_mask n + DEBUG_L1 * 2 ^ Suc n)"

definition set_dblevel :: "int \<Rightarrow> kernel \<Rightarrow> (int \<times> kernel) option" where
  "set_dblevel newval s =
     (if envtab s EV_DBLEVEL \<noteq> newval then
        if newval > 18 then None
        else
          let lvlmask = level_mask (nat newval);
              mask = and (debug_mask s) (u16 (not DEBUG_VERBOSE))
          in Some (OK, put_env EV_DBLEVEL newval (s\<lparr>debug_mask := or mask lvlmask\<rparr>))
      else Some (OK, s))"

definition set_dbgroup :: "int \<Rightarrow> kernel \<Rightarrow> (int \<times> kernel) option" where
  "set_dbgroup newval s =
     (if envtab s EV_DBGROUP \<noteq> newval then
        let grpmask = (if newval > 2 then if newval \<ge> DBGROUP_STRNUM - 1 then DEBUG_ALL else 2 ^ nat (newval - 1)
                       else u16 newval);
            mask = and (debug_mask s) (u16 (not DEBUG_ALL))
        in Some (OK, put_env EV_DBGROUP newval (s\<lparr>debug_mask := or mask grpmask\<rparr>))
      else Some (OK, s))"

section \<open>setenv\<close>

definition setenv :: "int \<Rightarrow> int \<Rightarrow> kernel \<Rightarrow> (int \<times> kernel) option" where
  "setenv var val s =
     (if var < 0 \<or> var \<ge> ENV_VARS then Some (SYSERR, s)
      else if var = EV_SCHEDULER then set_scheduler val s
      else if var = EV_CPUQDATA then set_cpuqdata val s
      else if var = EV_CMDHIST then set_cmdhistory val s
      else if var = EV_DBGROUP then set_dbgroup val s
      else if var = EV_DBLEVEL then set_dblevel val s
      else Some (OK, put_env var val s))"

section \<open>Facts\<close>

lemma setenv_bad: "ENV_VARS \<le> var \<Longrightarrow> setenv var val s = Some (SYSERR, s)"
  by (simp add: setenv_def)

lemma kcore_env: "var \<noteq> EV_SCHEDULER \<Longrightarrow> kcore (put_env var val s) = kcore s"
  by (simp add: put_env_def kcore_def fun_eq_iff)

lemma env_entry [simp]: "envtab (put_env var val s) var = val"
  by (simp add: put_env_def)

text \<open>
  The size of the history that is in memory is the old value of the variable, because
  \<open>cmdhistoryinit\<close> runs before the new value is stored.
\<close>

lemma set_cmdhistory_ok:
  assumes off: "cmdhistory s = 0" and v: "0 < envtab s EV_CMDHIST" "envtab s EV_CMDHIST \<le> CMDHIST_MAX"
    and new: "new \<noteq> envtab s EV_CMDHIST" "new \<noteq> 0"
    and g: "getmem (envtab s EV_MEMALLOC) (12 * envtab s EV_CMDHIST) (heap s) = Some (p, h)"
    and p: "0 < p" "p + 12 * envtab s EV_CMDHIST \<le> 4294967296"
  shows "\<exists>s'. setenv EV_CMDHIST new s = Some (OK, s') \<and> envtab s' EV_CMDHIST = new \<and> cmdhistory s' = p \<and> heap s' = h
    \<and> mchain (prev_of (mem s')) p (blocks 12 (nat (envtab s EV_CMDHIST)) p) \<and> (\<forall>n\<in>set (blocks 12 (nat (envtab s EV_CMDHIST)) p). str_of (mem s') n = 0)"
proof -
  obtain m where I: "cmdhistoryinit s = Some (s\<lparr>heap := h, cmdhistory := p, mem := m\<rparr>)"
    "mchain (prev_of m) p (blocks 12 (nat (envtab s EV_CMDHIST)) p)" "\<forall>n\<in>set (blocks 12 (nat (envtab s EV_CMDHIST)) p). str_of m n = 0"
    using cmdhistoryinit_ok [OF v g p] by blast
  define s' where "s' = put_env EV_CMDHIST new (s\<lparr>heap := h, cmdhistory := p, mem := m\<rparr>)"
  have "setenv EV_CMDHIST new s = Some (OK, s')"
    using off new I(1) by (simp add: setenv_def set_cmdhistory_def cmdhistorydel_def s'_def)
  then show ?thesis using I(2,3) by (intro exI [of _ s']) (simp add: s'_def put_env_def)
qed

text \<open>C30: changing the size of the command history and closing it again frees memory that was never
  allocated for it: \<open>cmdhistoryinit\<close> allocates for the old size, \<open>cmdhistorydel\<close> frees for the
  new one, so that every byte between the two sizes becomes free memory although
  it may belong to someone else.\<close>

theorem history_size_mismatch:
  assumes off: "cmdhistory s = 0" and v: "0 < envtab s EV_CMDHIST" "envtab s EV_CMDHIST \<le> CMDHIST_MAX"
    and new: "envtab s EV_CMDHIST < new" "new \<le> CMDHIST_MAX"
    and g: "getmem (envtab s EV_MEMALLOC) (12 * envtab s EV_CMDHIST) (heap s) = Some (p, h)" "0 < p"
    and m: "mrel h L" and b: "minheap h \<le> p" "p + roundmb (12 * new) \<le> maxheap h"
    and dj: "{p..<p + roundmb (12 * new)} \<inter> free_bytes h L = {}" and above: "\<exists>x\<in>set L. p \<le> x"
  shows "\<exists>s1 s2 L'. setenv EV_CMDHIST new s = Some (OK, s1) \<and> cmdhistorydel s1 = Some s2
    \<and> mrel (heap s2) L' \<and> free_bytes (heap s2) L' = free_bytes h L \<union> {p..<p + roundmb (12 * new)}"
proof -
  have n: "0 < 12 * new" "12 * new \<le> 4294967280" using v new by simp_all
  note R = roundmb_props [OF n]
  have p2: "p + 12 * envtab s EV_CMDHIST \<le> 4294967296" using new b R mrelD(10) [OF m] by linarith
  have ne: "new \<noteq> envtab s EV_CMDHIST" "new \<noteq> 0" using v new by auto
  obtain s1 where S: "setenv EV_CMDHIST new s = Some (OK, s1)" "envtab s1 EV_CMDHIST = new" "cmdhistory s1 = p" "heap s1 = h"
    "mchain (prev_of (mem s1)) p (blocks 12 (nat (envtab s EV_CMDHIST)) p)" "\<forall>n\<in>set (blocks 12 (nat (envtab s EV_CMDHIST)) p). str_of (mem s1) n = 0"
    using set_cmdhistory_ok [OF off v ne g p2] by blast
  obtain h' L' where F: "freemem p (12 * new) h = Some (OK, h')" "mrel h' L'"
    "free_bytes h' L' = free_bytes h L \<union> {p..<p + roundmb (12 * new)}"
    using freemem_frees [OF m n b dj above] by blast
  have "blocks 12 (nat (envtab s EV_CMDHIST)) p \<noteq> []" using v(1) by (metis length_blocks list.size(3) nat_0_iff not_less)
  then have "cmdhistorydel s1 = Some (s1\<lparr>heap := h', cmdhistory := 0\<rparr>)"
    using cmdhistorydel_empty [of s1 "blocks 12 (nat (envtab s EV_CMDHIST)) p" OK h'] S F(1) n by simp
  then show ?thesis using S(1) F(2,3) by auto
qed

text \<open>
  The level mask is one bit too high: bit \<open>i\<close> is added for level \<open>i\<close>, where the first level
  has bit 0.
\<close>

lemma level_masks: "level_mask 1 = 0x2000" "level_mask 2 = 0x6000" "level_mask 3 = 0xE000" "level_mask 4 = 0xE000"
  by (simp_all add: u16_def eval_nat_numeral)

lemma set_dblevel_ok:
  assumes "envtab s EV_DBLEVEL \<noteq> lvl" "0 \<le> lvl" "lvl \<le> 4"
  shows "setenv EV_DBLEVEL lvl s = Some (OK, put_env EV_DBLEVEL lvl
    (s\<lparr>debug_mask := or (and (debug_mask s) 0x0FFF) ([0, 0x2000, 0x6000, 0xE000, 0xE000] ! nat lvl)\<rparr>))"
proof -
  have "lvl = 0 \<or> lvl = 1 \<or> lvl = 2 \<or> lvl = 3 \<or> lvl = 4" using assms(2,3) by linarith
  moreover have "u16 (not 0xF000) = 0x0FFF" by (simp add: u16_def)
  ultimately show ?thesis using assms(1) level_masks by (auto simp: setenv_def set_dblevel_def Let_def)
qed

end
