(* ===== verification/Ports.thy ===== *)
theory Ports
  imports Sems Mem MemChain
begin

text \<open>
  Ports: \<open>system/ptinit.c\<close>, \<open>ptcreate.c\<close>, \<open>ptsend.c\<close>, \<open>ptrecv.c\<close>, \<open>ptcount.c\<close>,
  \<open>ptclear.c\<close>, \<open>ptreset.c\<close> and \<open>ptdelete.c\<close>.  A message lies in a node of 8 bytes of memory,
  the message and the address of the next node; the free nodes form one list, the
  messages of a port another.  \<open>panic\<close>, and a null pointer that is followed, have no value.
\<close>

definition isbadport :: "int \<Rightarrow> bool" where
  "isbadport portid \<longleftrightarrow> portid < 0 \<or> portid \<ge> NPORTS"

definition ptmsg :: "bytes \<Rightarrow> int \<Rightarrow> int" where
  "ptmsg m n = ld32 m n"

definition ptnext :: "bytes \<Rightarrow> int \<Rightarrow> int" where
  "ptnext m n = ld32 m (n + 4)"

definition set_ptmsg :: "int \<Rightarrow> int \<Rightarrow> bytes \<Rightarrow> bytes" where
  "set_ptmsg n v = st32 n v"

definition set_ptnext :: "int \<Rightarrow> int \<Rightarrow> bytes \<Rightarrow> bytes" where
  "set_ptnext n v = st32 (n + 4) v"

definition upd_port :: "int \<Rightarrow> (ptentry \<Rightarrow> ptentry) \<Rightarrow> kernel \<Rightarrow> kernel option" where
  "upd_port i f s = (if 0 \<le> i \<and> i < NPORTS then Some (s\<lparr>porttab := (porttab s)(i := f (porttab s i))\<rparr>) else None)"

definition bump_seq :: "int \<Rightarrow> kernel \<Rightarrow> kernel option" where
  "bump_seq i s = do {
     n \<leftarrow> chk32 (ptseq (porttab s i) + 1);
     upd_port i (\<lambda>e. e\<lparr>ptseq := n\<rparr>) s
   }"

section \<open>Initialization\<close>

fun pt_link :: "nat \<Rightarrow> int \<Rightarrow> bytes \<Rightarrow> bytes" where
  "pt_link 0 c m = set_ptnext c 0 m"
| "pt_link (Suc n) c m = pt_link n (c + 8) (set_ptnext c (c + 8) m)"

definition ptinit :: "int \<Rightarrow> kernel \<Rightarrow> (int \<times> kernel) option" where
  "ptinit maxmsgs s = do {
     (p, h) \<leftarrow> getmem (envtab s EV_MEMALLOC) (u32 (maxmsgs * 8)) (heap s);
     if p = SYSERR then None
     else Some (OK, s\<lparr>heap := h, ptfree := p,
        porttab := (\<lambda>i. if 0 \<le> i \<and> i < NPORTS then (porttab s i)\<lparr>ptstate := PT_FREE, ptseq := 0\<rparr> else porttab s i),
        ptnextid := 0, mem := pt_link (nat (maxmsgs - 1)) p (mem s)\<rparr>)
   }"

fun ptcreate_loop :: "nat \<Rightarrow> int \<Rightarrow> kernel \<Rightarrow> (int \<times> kernel) option" where
  "ptcreate_loop 0 count s = Some (SYSERR, s)"
| "ptcreate_loop (Suc i) count s =
     (let ptnum = ptnextid s;
          s = s\<lparr>ptnextid := ptnextid s + 1\<rparr>;
          s = (if ptnextid s \<ge> NPORTS then s\<lparr>ptnextid := 0\<rparr> else s)
      in if isbadport ptnum then None
         else if ptstate (porttab s ptnum) = PT_FREE then do {
           s \<leftarrow> upd_port ptnum (\<lambda>e. e\<lparr>ptstate := PT_ALLOC\<rparr>) s;
           (sem, s) \<leftarrow> semcreate count s;
           s \<leftarrow> upd_port ptnum (\<lambda>e. e\<lparr>ptssem := sem\<rparr>) s;
           (sem, s) \<leftarrow> semcreate 0 s;
           s \<leftarrow> upd_port ptnum (\<lambda>e. e\<lparr>ptrsem := sem, pttail := 0, pthead := 0\<rparr>) s;
           s \<leftarrow> bump_seq ptnum s;
           s \<leftarrow> upd_port ptnum (\<lambda>e. e\<lparr>ptmaxcnt := u16 count\<rparr>) s;
           Some (ptnum, s)
         }
         else ptcreate_loop i count s)"

definition ptcreate :: "int \<Rightarrow> kernel \<Rightarrow> (int \<times> kernel) option" where
  "ptcreate count s = (if count < 0 then Some (SYSERR, s) else ptcreate_loop (nat NPORTS) count s)"

section \<open>Sending and receiving\<close>

definition badport :: "int \<Rightarrow> kernel \<Rightarrow> bool" where
  "badport portid s \<longleftrightarrow> isbadport portid \<or> ptstate (porttab s portid) \<noteq> PT_ALLOC"

text \<open>The port has changed hands while the caller waited.\<close>

definition port_gone :: "int \<Rightarrow> int \<Rightarrow> kernel \<Rightarrow> bool" where
  "port_gone portid seq s \<longleftrightarrow> ptstate (porttab s portid) \<noteq> PT_ALLOC \<or> ptseq (porttab s portid) \<noteq> seq"

definition ptsend_rest :: "int \<Rightarrow> int \<Rightarrow> int \<Rightarrow> int \<Rightarrow> kernel \<Rightarrow> kernel option" where
  "ptsend_rest me portid msg seq s =
     (if port_gone portid seq s then Some (deliver me SYSERR s)
      else if ptfree s = 0 then None
      else do {
        let msgnode = ptfree s;
        let s = s\<lparr>ptfree := ptnext (mem s) msgnode\<rparr>;
        let s = s\<lparr>mem := set_ptmsg msgnode msg (set_ptnext msgnode 0 (mem s))\<rparr>;
        let tailnode = pttail (porttab s portid);
        s \<leftarrow> (if tailnode = 0 then upd_port portid (\<lambda>e. e\<lparr>pttail := msgnode, pthead := msgnode\<rparr>) s
              else upd_port portid (\<lambda>e. e\<lparr>pttail := msgnode\<rparr>) (s\<lparr>mem := set_ptnext tailnode msgnode (mem s)\<rparr>));
        (_, s) \<leftarrow> signal (ptrsem (porttab s portid)) s;
        Some (deliver me OK s)
      })"

definition ptsend :: "int \<Rightarrow> int \<Rightarrow> kernel \<Rightarrow> kernel option" where
  "ptsend portid msg s =
     (let me = currpid s in
      if badport portid s then Some (deliver me SYSERR s)
      else do {
        let seq = ptseq (porttab s portid);
        (r, s) \<leftarrow> wait (ptssem (porttab s portid)) s;
        if r = SYSERR then Some (deliver me SYSERR s)
        else after me (KPtsend portid msg seq) (ptsend_rest me portid msg seq) s
      })"

definition ptrecv_rest :: "int \<Rightarrow> int \<Rightarrow> int \<Rightarrow> kernel \<Rightarrow> kernel option" where
  "ptrecv_rest me portid seq s =
     (if port_gone portid seq s then Some (deliver me (u32 SYSERR) s)
      else if pthead (porttab s portid) = 0 then None
      else do {
        let e = porttab s portid;
        let msgnode = pthead e;
        let msg = ptmsg (mem s) msgnode;
        s \<leftarrow> (if pthead e = pttail e then upd_port portid (\<lambda>e. e\<lparr>pttail := 0, pthead := 0\<rparr>) s
              else upd_port portid (\<lambda>e. e\<lparr>pthead := ptnext (mem s) msgnode\<rparr>) s);
        let s = s\<lparr>mem := set_ptnext msgnode (ptfree s) (mem s), ptfree := msgnode\<rparr>;
        (_, s) \<leftarrow> signal (ptssem (porttab s portid)) s;
        Some (deliver me msg s)
      })"

definition ptrecv :: "int \<Rightarrow> kernel \<Rightarrow> kernel option" where
  "ptrecv portid s =
     (let me = currpid s in
      if badport portid s then Some (deliver me (u32 SYSERR) s)
      else do {
        let seq = ptseq (porttab s portid);
        (r, s) \<leftarrow> wait (ptrsem (porttab s portid)) s;
        if r = SYSERR then Some (deliver me (u32 SYSERR) s)
        else after me (KPtrecv portid seq) (ptrecv_rest me portid seq) s
      })"

definition ptcount :: "int \<Rightarrow> kernel \<Rightarrow> int" where
  "ptcount portid s =
     (if badport portid s then SYSERR
      else
        let count = semcount (ptrsem (porttab s portid)) s in
        if count \<ge> 0 then
          let sndcnt = semcount (ptssem (porttab s portid)) s
          in if sndcnt < 0 then count + - sndcnt else count
        else count)"

section \<open>Reset and deletion\<close>

text \<open>
  \<open>dispose\<close> is the routine the caller gives for the messages that are thrown away.  The two
  calls that free the waiting processes may switch to one of them, so that the end of
  \<open>_ptclear\<close> and of its caller may run later.
\<close>

partial_function (option) pt_dispose :: "(int \<Rightarrow> kernel \<Rightarrow> kernel option) \<Rightarrow> int \<Rightarrow> kernel \<Rightarrow> kernel option" where
  "pt_dispose dispose walk s =
     (if walk \<noteq> 0 then do {
        s \<leftarrow> dispose (ptmsg (mem s) walk) s;
        pt_dispose dispose (ptnext (mem s) walk) s
      } else Some s)"

definition ptclear_end :: "int \<Rightarrow> int \<Rightarrow> bool \<Rightarrow> kernel \<Rightarrow> kernel option" where
  "ptclear_end me portid alloc s = do {
     s \<leftarrow> upd_port portid (\<lambda>e. e\<lparr>ptstate := (if alloc then PT_ALLOC else PT_FREE)\<rparr>) s;
     Some (deliver me OK (if alloc then s else s\<lparr>ptnextid := portid\<rparr>))
   }"

definition ptclear_mid :: "int \<Rightarrow> int \<Rightarrow> bool \<Rightarrow> kernel \<Rightarrow> kernel option" where
  "ptclear_mid me portid alloc s = do {
     (_, s) \<leftarrow> (if alloc then semreset (ptrsem (porttab s portid)) 0 s else semdelete (ptrsem (porttab s portid)) s);
     after me (KPtclear portid alloc True) (ptclear_end me portid alloc) s
   }"

definition ptclear :: "int \<Rightarrow> bool \<Rightarrow> (int \<Rightarrow> kernel \<Rightarrow> kernel option) \<Rightarrow> kernel \<Rightarrow> kernel option" where
  "ptclear portid alloc dispose s = do {
     let me = currpid s;
     s \<leftarrow> upd_port portid (\<lambda>e. e\<lparr>ptstate := PT_LIMBO\<rparr>) s;
     s \<leftarrow> bump_seq portid s;
     s \<leftarrow> (if pthead (porttab s portid) \<noteq> 0 then do {
             s \<leftarrow> pt_dispose dispose (pthead (porttab s portid)) s;
             Some (s\<lparr>mem := set_ptnext (pttail (porttab s portid)) (ptfree s) (mem s),
                     ptfree := pthead (porttab s portid)\<rparr>)
           } else Some s);
     s \<leftarrow> (if alloc then upd_port portid (\<lambda>e. e\<lparr>pttail := 0, pthead := 0\<rparr>) s else Some s);
     (_, s) \<leftarrow> (if alloc then semreset (ptssem (porttab s portid)) (ptmaxcnt (porttab s portid)) s
                else semdelete (ptssem (porttab s portid)) s);
     after me (KPtclear portid alloc False) (ptclear_mid me portid alloc) s
   }"

definition ptreset :: "int \<Rightarrow> (int \<Rightarrow> kernel \<Rightarrow> kernel option) \<Rightarrow> kernel \<Rightarrow> kernel option" where
  "ptreset portid disp s =
     (if badport portid s then Some (deliver (currpid s) SYSERR s) else ptclear portid True disp s)"

definition ptdelete :: "int \<Rightarrow> (int \<Rightarrow> kernel \<Rightarrow> kernel option) \<Rightarrow> kernel \<Rightarrow> kernel option" where
  "ptdelete portid disp s =
     (if badport portid s then Some (deliver (currpid s) SYSERR s) else ptclear portid False disp s)"

section \<open>A port as a queue of messages\<close>

lemma upd_port_Some [simp]: "0 \<le> i \<Longrightarrow> i < 30 \<Longrightarrow> upd_port i f s = Some (s\<lparr>porttab := (porttab s)(i := f (porttab s i))\<rparr>)"
  by (simp add: upd_port_def)

text \<open>
  Port \<open>i\<close> holds the messages of the nodes \<open>ns\<close>, in order, and \<open>fr\<close> is the free list; one
  semaphore counts the messages and the other the room that is left.
\<close>

definition port_ok :: "kernel \<Rightarrow> int \<Rightarrow> int list \<Rightarrow> int list \<Rightarrow> bool" where
  "port_ok s i ns fr \<longleftrightarrow> (let e = porttab s i in
     0 \<le> i \<and> i < NPORTS \<and> ptstate e = PT_ALLOC
     \<and> 0 \<le> ptssem e \<and> ptssem e < NSEM \<and> 0 \<le> ptrsem e \<and> ptrsem e < NSEM \<and> ptssem e \<noteq> ptrsem e
     \<and> sstate (semtab s (ptssem e)) = S_USED \<and> sstate (semtab s (ptrsem e)) = S_USED
     \<and> mchain (ptnext (mem s)) (pthead e) ns \<and> pttail e = (if ns = [] then 0 else last ns)
     \<and> mchain (ptnext (mem s)) (ptfree s) fr \<and> apart 8 (ns @ fr) \<and> (\<forall>n\<in>set (ns @ fr). 0 < n \<and> n < 2 ^ 32)
     \<and> scount (semtab s (ptrsem e)) = int (length ns)
     \<and> scount (semtab s (ptssem e)) + int (length ns) = ptmaxcnt e \<and> ptmaxcnt e < 2 ^ 16
     \<and> 0 \<le> scount (semtab s (ptssem e)))"

definition port_msgs :: "kernel \<Rightarrow> int list \<Rightarrow> int list" where
  "port_msgs s ns = map (ptmsg (mem s)) ns"

lemma node_stores [simp]:
  "ptmsg (set_ptmsg n v m) n = u32 v" "ptnext (set_ptmsg n v m) n = ptnext m n"
  "ptnext (set_ptnext n v m) n = u32 v" "ptmsg (set_ptnext n v m) n = ptmsg m n"
  by (simp_all add: ptmsg_def ptnext_def set_ptmsg_def set_ptnext_def ld32_apart)

lemma node_other:
  "n + 8 \<le> x \<or> x + 8 \<le> n \<Longrightarrow> ptmsg (set_ptmsg n v m) x = ptmsg m x"
  "n + 8 \<le> x \<or> x + 8 \<le> n \<Longrightarrow> ptnext (set_ptmsg n v m) x = ptnext m x"
  "n + 8 \<le> x \<or> x + 8 \<le> n \<Longrightarrow> ptmsg (set_ptnext n v m) x = ptmsg m x"
  "n + 8 \<le> x \<or> x + 8 \<le> n \<Longrightarrow> ptnext (set_ptnext n v m) x = ptnext m x"
  by (auto simp: ptmsg_def ptnext_def set_ptmsg_def set_ptnext_def ld32_apart)

lemma apart_append: "apart k (xs @ ys) \<longleftrightarrow> apart k xs \<and> apart k ys \<and> set xs \<inter> set ys = {} \<and>
    (\<forall>x\<in>set xs. \<forall>y\<in>set ys. x + k \<le> y \<or> y + k \<le> x)"
  by (induction xs) (auto simp: apart_Cons)

lemma semrel_idle: "semrel s Q \<Longrightarrow> 0 \<le> i \<Longrightarrow> i < 100 \<Longrightarrow> 0 \<le> scount (semtab s i) \<Longrightarrow> Q (squeue (semtab s i)) = []"
  using semrelD(3) [of s Q i] by simp

lemma wait_idle:
  assumes inv: "kinv s Q" and rel: "semrel s Q" and i: "0 \<le> sem" "sem < 100" "sstate (semtab s sem) = S_USED"
    and c: "0 < scount (semtab s sem)" "scount (semtab s sem) < 2147483648"
  defines "t \<equiv> s\<lparr>semtab := (semtab s)(sem := (semtab s sem)\<lparr>scount := scount (semtab s sem) - 1\<rparr>)\<rparr>"
  shows "wait sem s = Some (OK, t)" "kinv t Q" "semrel t Q"
proof -
  show "wait sem s = Some (OK, t)" "kinv t Q"
    using sem_wait_pass [OF inv i c] settledD(1) unfolding t_def by blast+
  have "Q (squeue (semtab s sem)) = []" by (rule semrel_idle [OF rel i(1,2)]) (use c in simp)
  then have "Q(squeue (semtab s sem) := []) = Q" by (simp add: fun_upd_idem)
  moreover have "semrel t (Q(squeue (semtab s sem) := []))"
    by (rule semrel_upd [OF kpreD(1) [OF kinv_kpre [OF inv]] rel i(1,2), where c = "scount (semtab s sem) - 1"])
      (use c in \<open>simp_all add: t_def\<close>)
  ultimately show "semrel t Q" by simp
qed

text \<open>A signal of a semaphore on which nobody waits.\<close>

lemma signal_idle:
  assumes inv: "kinv s Q" and rel: "semrel s Q" and i: "0 \<le> sem" "sem < 100" "sstate (semtab s sem) = S_USED"
    and c: "0 \<le> scount (semtab s sem)" "scount (semtab s sem) + 1 < 2147483648"
  shows "\<exists>s' Q'. signal sem s = Some (OK, s') \<and> kinv s' Q' \<and> semrel s' Q'
    \<and> sframe (s\<lparr>semtab := (semtab s)(sem := (semtab s sem)\<lparr>scount := scount (semtab s sem) + 1\<rparr>)\<rparr>) s'"
proof -
  have e: "Q (squeue (semtab s sem)) = []" by (rule semrel_idle [OF rel i(1,2) c(1)])
  obtain s' Q' where S: "signal sem s = Some (OK, s')" "settled (abs_up sem [] 1 s) (Q(squeue (semtab s sem) := [])) s' Q'"
    using sem_signal_ok [OF inv rel i c(2)] e by auto
  have "semrel (abs_up sem [] 1 s) (Q(squeue (semtab s sem) := []))"
    using semrel_abs_up [OF kpreD(1) [OF kinv_kpre [OF inv]] rel i(1,2), of 1 "[]"] e by simp
  then have "semrel s' Q'" by (rule semrel_settled [OF S(2)])
  then show ?thesis using S(1) settledD(1,2) [OF S(2)] by (auto simp: abs_up_def)
qed

text \<open>The memory after a node was linked at the tail.\<close>

definition linked_mem :: "int list \<Rightarrow> int \<Rightarrow> int \<Rightarrow> bytes \<Rightarrow> bytes" where
  "linked_mem ns f msg m = (let m = set_ptmsg f msg (set_ptnext f 0 m) in
     if ns = [] then m else set_ptnext (last ns) f m)"

lemma linked_mem_ok:
  assumes ch: "mchain (ptnext m) p ns" "mchain (ptnext m) f (f # fr)" and ap: "apart 8 (ns @ f # fr)"
    and f: "0 < f" "f < 4294967296" and msg: "0 \<le> msg" "msg < 4294967296"
  defines "m' \<equiv> linked_mem ns f msg m"
  shows "mchain (ptnext m') (if ns = [] then f else p) (ns @ [f])" "mchain (ptnext m') (ptnext m f) fr"
    "map (ptmsg m') (ns @ [f]) = map (ptmsg m) ns @ [msg]"
proof -
  have A: "apart 8 ns" "f \<notin> set ns" "f \<notin> set fr" "set ns \<inter> set fr = {}" "distinct ns"
    "\<And>x. x \<in> set ns \<Longrightarrow> x + 8 \<le> f \<or> f + 8 \<le> x" "\<And>x. x \<in> set fr \<Longrightarrow> f + 8 \<le> x \<or> x + 8 \<le> f"
    "\<And>x y. x \<in> set ns \<Longrightarrow> y \<in> set fr \<Longrightarrow> x + 8 \<le> y \<or> y + 8 \<le> x"
    using ap unfolding apart_append apart_Cons by (auto simp add: apart_def)
  have ll: "x = last ns \<or> last ns + 8 \<le> x \<or> x + 8 \<le> last ns" if "x \<in> set ns" for x
  proof -
    have "last ns \<in> set ns" using that by (intro last_in_set) auto
    then show ?thesis using that A(1) unfolding apart_def pairwise_def by metis
  qed
  have nxf: "ptnext m' f = 0"
    using A(6) [of "last ns"] f by (cases "ns = []") (auto simp: m'_def linked_mem_def node_other)
  have nxl: "ptnext m' (last ns) = f" if "ns \<noteq> []" using that f by (simp add: m'_def linked_mem_def)
  have nxo: "ptnext m' x = ptnext m x" if "x \<in> set ns" "x \<noteq> last ns" for x
    using that ll [of x] A(6) [of x] by (cases "ns = []") (auto simp: m'_def linked_mem_def node_other)
  have nxr: "ptnext m' x = ptnext m x" if "x \<in> set fr" for x
    using that A(7) [of x] A(8) [of "last ns" x] by (cases "ns = []") (auto simp: m'_def linked_mem_def node_other Let_def)
  show "mchain (ptnext m') (if ns = [] then f else p) (ns @ [f])"
    by (rule mchain_snoc [OF ch(1) A(5)]) (use f nxf nxl nxo in auto)
  show "mchain (ptnext m') (ptnext m f) fr" using ch(2) mchain_cong [of fr "ptnext m'" "ptnext m"] nxr by simp
  have "ptmsg m' x = ptmsg m x" if "x \<in> set ns" for x
    using that ll [of x] A(6) [of x] by (cases "ns = []") (auto simp: m'_def linked_mem_def node_other)
  moreover have "ptmsg m' f = msg"
    using A(6) [of "last ns"] msg by (cases "ns = []") (auto simp: m'_def linked_mem_def node_other)
  ultimately show "map (ptmsg m') (ns @ [f]) = map (ptmsg m) ns @ [msg]" by simp
qed

text \<open>Sending to a port with room puts the message at the end.\<close>

lemma ptsend_ok:
  assumes inv: "kinv s Q" and rel: "semrel s Q" and port: "port_ok s i ns (f # fr)"
    and room: "int (length ns) < ptmaxcnt (porttab s i)" and msg: "0 \<le> msg" "msg < 2 ^ 32"
  shows "\<exists>s' Q'. ptsend i msg s = Some s' \<and> kret s' (currpid s) = OK \<and> kinv s' Q' \<and> semrel s' Q'
    \<and> port_ok s' i (ns @ [f]) fr \<and> port_msgs s' (ns @ [f]) = port_msgs s ns @ [msg]"
proof -
  define e where "e = porttab s i"
  note P = port [unfolded port_ok_def Let_def, folded e_def]
  have i: "0 \<le> i" "i < 30" "\<not> badport i s" using P by (auto simp: badport_def isbadport_def e_def)
  have c: "0 < scount (semtab s (ptssem e))" "scount (semtab s (ptssem e)) < 2147483648" using P room by (simp_all add: e_def)
  define t where "t = s\<lparr>semtab := (semtab s)(ptssem e := (semtab s (ptssem e))\<lparr>scount := scount (semtab s (ptssem e)) - 1\<rparr>)\<rparr>"
  have W: "wait (ptssem e) s = Some (OK, t)" "kinv t Q" and relt: "semrel t Q"
    using wait_idle [OF inv rel _ _ _ c] P by (simp_all add: t_def)
  define e' where "e' = (if ns = [] then e\<lparr>pttail := f, pthead := f\<rparr> else e\<lparr>pttail := f\<rparr>)"
  define u where "u = t\<lparr>ptfree := ptnext (mem s) f, mem := linked_mem ns f msg (mem s), porttab := (porttab s)(i := e')\<rparr>"
  have tf: "porttab t = porttab s" "ptfree t = f" "mem t = mem s" "currpid t = currpid s" using P by (simp_all add: t_def)
  have f0: "f \<noteq> 0" "0 < f" "f < 4294967296" using P by simp_all
  have tl: "pttail e = 0 \<longleftrightarrow> ns = []"
    using P mchain_nonzero [of "ptnext (mem s)" "pthead e" ns] by (metis last_in_set)
  have st: "ptsend_rest (currpid s) i msg (ptseq e) t = (signal (ptrsem e) u \<bind> (\<lambda>(_, s'). Some (deliver (currpid s) OK s')))"
    using P i(1,2) tl f0 by (simp add: ptsend_rest_def port_gone_def tf e_def [symmetric] Let_def u_def e'_def linked_mem_def)
  have cu: "kcore u = kcore t" by (simp add: u_def kcore_def)
  have invu: "kinv u Q" using kinv_core [OF cu] W(2) by simp
  have su: "semtab u = semtab t" by (simp add: u_def)
  have relu: "semrel u Q" using relt by (simp add: semrel_def su)
  have r: "0 \<le> ptrsem e" "ptrsem e < 100" "sstate (semtab u (ptrsem e)) = S_USED" "0 \<le> scount (semtab u (ptrsem e))"
    "scount (semtab u (ptrsem e)) + 1 < 2147483648" using P room by (simp_all add: su t_def e_def)
  obtain v Q' where S: "signal (ptrsem e) u = Some (OK, v)" "kinv v Q'" "semrel v Q'"
    "sframe (u\<lparr>semtab := (semtab u)(ptrsem e := (semtab u (ptrsem e))\<lparr>scount := scount (semtab u (ptrsem e)) + 1\<rparr>)\<rparr>) v"
    using signal_idle [OF invu relu r] by blast
  define s' where "s' = deliver (currpid s) OK v"
  have run: "ptsend i msg s = Some s'"
    using i(3) W(1) st S(1) by (simp add: ptsend_def e_def [symmetric] after_def tf s'_def)
  have V: "porttab s' = (porttab s)(i := e')" "mem s' = linked_mem ns f msg (mem s)" "ptfree s' = ptnext (mem s) f"
    "semtab s' = (semtab t)(ptrsem e := (semtab t (ptrsem e))\<lparr>scount := scount (semtab t (ptrsem e)) + 1\<rparr>)" "kret s' (currpid s) = OK"
    using sframeD [OF S(4)] by (simp_all add: s'_def deliver_def u_def)
  note L = linked_mem_ok [of "mem s" "pthead e" ns f fr msg]
  have lm: "mchain (ptnext (mem s')) (if ns = [] then f else pthead e) (ns @ [f])" "mchain (ptnext (mem s')) (ptfree s') fr"
    "map (ptmsg (mem s')) (ns @ [f]) = map (ptmsg (mem s)) ns @ [msg]"
    unfolding V using L P f0 msg by simp_all
  have E: "pthead e' = (if ns = [] then f else pthead e)" "pttail e' = f" "ptstate e' = PT_ALLOC" "ptssem e' = ptssem e"
    "ptrsem e' = ptrsem e" "ptmaxcnt e' = ptmaxcnt e" using P by (simp_all add: e'_def)
  have "apart 8 ((ns @ [f]) @ fr)" using P by simp
  then have "port_ok s' i (ns @ [f]) fr"
    unfolding port_ok_def Let_def V(1) fun_upd_same E V(4)
    using P lm(1,2) c(1) by (simp add: t_def)
  moreover have "kinv s' Q'" using S(2) by (simp add: s'_def)
  moreover have "semrel s' Q'" using S(3) by (simp add: s'_def semrel_def deliver_def)
  ultimately show ?thesis using run lm(3) V(5) unfolding port_msgs_def by blast
qed

text \<open>Receiving from a port that holds messages takes the oldest.\<close>

lemma ptrecv_ok:
  assumes inv: "kinv s Q" and rel: "semrel s Q" and port: "port_ok s i (n # ns) fr"
  shows "\<exists>s' Q'. ptrecv i s = Some s' \<and> kret s' (currpid s) = ptmsg (mem s) n \<and> kinv s' Q' \<and> semrel s' Q'
    \<and> port_ok s' i ns (n # fr) \<and> port_msgs s' ns = port_msgs s ns"
proof -
  define e where "e = porttab s i"
  note P = port [unfolded port_ok_def Let_def, folded e_def]
  have i: "0 \<le> i" "i < 30" "\<not> badport i s" using P by (auto simp: badport_def isbadport_def e_def)
  define t where "t = s\<lparr>semtab := (semtab s)(ptrsem e := (semtab s (ptrsem e))\<lparr>scount := scount (semtab s (ptrsem e)) - 1\<rparr>)\<rparr>"
  have c: "0 < scount (semtab s (ptrsem e))" "scount (semtab s (ptrsem e)) < 2147483648" using P by simp_all
  have W: "wait (ptrsem e) s = Some (OK, t)" "kinv t Q" and relt: "semrel t Q"
    using wait_idle [OF inv rel _ _ _ c] P by (simp_all add: t_def)
  have A: "apart 8 (ns @ fr)" "n \<notin> set ns" "n \<notin> set fr" "set ns \<inter> set fr = {}"
    "\<And>x. x \<in> set ns \<union> set fr \<Longrightarrow> n + 8 \<le> x \<or> x + 8 \<le> n"
    using P by (auto simp: apart_append apart_Cons)
  define m where "m = set_ptnext n (ptfree s) (mem s)"
  define e' where "e' = (if ns = [] then e\<lparr>pttail := 0, pthead := 0\<rparr> else e\<lparr>pthead := ptnext (mem s) n\<rparr>)"
  define u where "u = t\<lparr>porttab := (porttab s)(i := e'), mem := m, ptfree := n\<rparr>"
  have tf: "porttab t = porttab s" "ptfree t = ptfree s" "mem t = mem s" "currpid t = currpid s" by (simp_all add: t_def)
  have hd: "pthead e = n" "n \<noteq> 0" "0 < n" "n < 4294967296" using P by simp_all
  have lt: "pthead e = pttail e \<longleftrightarrow> ns = []" using P A(2) by (cases ns) auto
  have st: "ptrecv_rest (currpid s) i (ptseq e) t = (signal (ptssem e) u \<bind> (\<lambda>(_, s'). Some (deliver (currpid s) (ptmsg (mem s) n) s')))"
    using P i(1,2) lt hd by (simp add: ptrecv_rest_def port_gone_def tf e_def [symmetric] Let_def u_def e'_def m_def)
  have cu: "kcore u = kcore t" by (simp add: u_def kcore_def)
  have invu: "kinv u Q" using kinv_core [OF cu] W(2) by simp
  have su: "semtab u = semtab t" by (simp add: u_def)
  have relu: "semrel u Q" using relt by (simp add: semrel_def su)
  have r: "0 \<le> ptssem e" "ptssem e < 100" "sstate (semtab u (ptssem e)) = S_USED" "0 \<le> scount (semtab u (ptssem e))"
    "scount (semtab u (ptssem e)) + 1 < 2147483648" using P by (simp_all add: su t_def)
  obtain v Q' where S: "signal (ptssem e) u = Some (OK, v)" "kinv v Q'" "semrel v Q'"
    "sframe (u\<lparr>semtab := (semtab u)(ptssem e := (semtab u (ptssem e))\<lparr>scount := scount (semtab u (ptssem e)) + 1\<rparr>)\<rparr>) v"
    using signal_idle [OF invu relu r] by blast
  define s' where "s' = deliver (currpid s) (ptmsg (mem s) n) v"
  have run: "ptrecv i s = Some s'"
    using i(3) W(1) st S(1) by (simp add: ptrecv_def e_def [symmetric] after_def tf s'_def)
  have V: "porttab s' = (porttab s)(i := e')" "mem s' = m" "ptfree s' = n"
    "semtab s' = (semtab t)(ptssem e := (semtab t (ptssem e))\<lparr>scount := scount (semtab t (ptssem e)) + 1\<rparr>)"
    "kret s' (currpid s) = ptmsg (mem s) n"
    using sframeD [OF S(4)] by (simp_all add: s'_def deliver_def u_def)
  have nx: "ptnext m x = ptnext (mem s) x" "ptmsg m x = ptmsg (mem s) x" if "x \<in> set ns \<union> set fr" for x
    using A(5) [OF that] by (simp_all add: m_def node_other)
  have fb: "0 \<le> ptfree s" "ptfree s < 4294967296" using P by (cases fr; auto)+
  have nf: "ptnext m n = ptfree s" using fb by (simp add: m_def)
  have ch: "mchain (ptnext m) (ptnext (mem s) n) ns" "mchain (ptnext m) n (n # fr)"
    using P mchain_cong [of ns "ptnext m" "ptnext (mem s)"] mchain_cong [of fr "ptnext m" "ptnext (mem s)"] nx hd(2) nf by simp_all
  have ap: "apart 8 (ns @ n # fr)"
    using A by (auto simp: apart_append apart_Cons)
  have E: "mchain (ptnext m) (pthead e') ns" "pttail e' = (if ns = [] then 0 else last ns)" "ptstate e' = PT_ALLOC"
    "ptssem e' = ptssem e" "ptrsem e' = ptrsem e" "ptmaxcnt e' = ptmaxcnt e" using P ch(1) by (simp_all add: e'_def)
  have "port_ok s' i ns (n # fr)"
    unfolding port_ok_def Let_def V(1-4) fun_upd_same E(2-6)
    using P E(1) ch(2) ap by (simp add: t_def)
  moreover have "kinv s' Q'" using S(2) by (simp add: s'_def)
  moreover have "semrel s' Q'" using S(3) by (simp add: s'_def semrel_def deliver_def)
  moreover have "port_msgs s' ns = port_msgs s ns" using nx(2) by (simp add: port_msgs_def V(2))
  ultimately show ?thesis using run V(5) by blast
qed

text \<open>A sender that wakes up after the port was reset or deleted gives up, and leaves no message behind.\<close>

lemma ptsend_gone: "port_gone i seq s \<Longrightarrow> ptsend_rest me i msg seq s = Some (deliver me SYSERR s)"
  by (simp add: ptsend_rest_def)

lemma ptrecv_gone: "port_gone i seq s \<Longrightarrow> ptrecv_rest me i seq s = Some (deliver me (u32 SYSERR) s)"
  by (simp add: ptrecv_rest_def)

end
