(* ===== verification/KProps.thy ===== *)
theory KProps
  imports KTime Demo Env Ports Bufpool
begin

text \<open>
  The properties of the kernel, each applied to the concrete state \<open>demo\<close> or to the
  state after the start.
\<close>

lemma demo_sleepers: "sleepers demo demo_queues = [(4, 5)]"
  by (simp add: sleepers_def demo_queues_def demo_tab_def linkp_def empty_tab_def Let_def)

lemma demo_good: "kgood demo demo_queues"
  using demo_sems demo_semsfree heap_ex_mrel heap_ex_co
  by (auto simp: kgood_def awake_def demo_sleepers counts_ok_def heap_good_def rests_ok_def)

lemma demo_ok: "kstate_ok demo"
  using demo_inv demo_good by (auto simp: kstate_ok_def)

lemma demo_awake: "awake demo demo_queues"
  using demo_good by (rule kgoodD)

lemma demo_lines: "demo_queues 320 = [2, 0]" "demo_queues 100 = [3]" "demo_queues 300 = [7]" "demo_queues 324 = [4]"
  by (simp_all add: demo_queues_def)

lemma demo_abs: "abs_sem demo demo_queues 0 = (-1, [3])"
  by (simp add: abs_sem_def demo_queues_def)

lemma sem_becomes_at: "sem_becomes s Q sem a s' Q' \<Longrightarrow> 0 \<le> sem \<Longrightarrow> sem < 100 \<Longrightarrow> abs_sem s' Q' sem = a"
  by (simp add: sem_becomes_def)

section \<open>The kernel as a whole\<close>

text \<open>C1: Every call that \<open>can_call\<close> allows returns, whatever its arguments (in range or
  not), and leaves a state that satisfies the invariant of the kernel: the queue table holds
  disjoint, well-linked queues, every process is on the queue its state says and on no
  other, exactly the running process is current, the ready list is in order of priority, the
  count of every semaphore is the length of its line, the sleepers have time left, and the
  free list of the memory is well formed and coalesced.  No call runs out of a table, dereferences a null
  pointer or loops.\<close>

theorem calls_served:
  assumes "kstate_ok s" "can_call c s"
  shows "\<exists>s'. do_call c s = Some s' \<and> kstate_ok s'"
  using assms by (rule call_served)

theorem calls_served_witness:
  "(\<exists>s'. do_call (CWait 0) demo = Some s' \<and> kstate_ok s') \<and> (\<exists>s'. do_call (CCreate 1 2 64 20 0 [5, 6]) demo = Some s' \<and> kstate_ok s')"
  using calls_served [OF demo_ok, of "CWait 0"] calls_served [OF demo_ok, of "CCreate 1 2 64 20 0 [5, 6]"]
  by (simp add: roundew_def u32_def)

text \<open>C2: Every state the kernel reaches by calls, timer interrupts and resumed calls from a
  good state is good.\<close>

theorem kernel_invariant:
  assumes "kreach s0 s" "kstate_ok s0"
  shows "kstate_ok s"
  using assms by (rule reach_ok)

theorem kernel_invariant_witness:
  "\<exists>s1 s2. do_call (CWait 0) demo = Some s1 \<and> do_call (CTick False) s1 = Some s2 \<and> kstate_ok s2"
proof -
  obtain s1 where s1: "do_call (CWait 0) demo = Some s1" using call_served [OF demo_ok, of "CWait 0"] by auto
  have r: "kreach demo s1" by (rule kreach.call [OF kreach.start _ _ s1]) simp_all
  have "kstate_ok s1" by (rule kernel_invariant [OF r demo_ok])
  then show ?thesis using s1 by (auto simp: clkhandler_def)
qed




text \<open>C3: The tables \<open>sysinit\<close> builds before it initialises the devices (its first part,
  \<open>sysinit_tables\<close>) are a first good state: 113 queues in a table that holds them, all
  empty, the null process current and alone, the free memory one block less the
  null process's stack.\<close>

theorem start_ok:
  assumes "nextqid s = 100" "0 \<le> envtab s EV_SCHEDULER" "envtab s EV_SCHEDULER < QTYPE_VALS"
    and "0 < memlist (heap s)" "memlist (heap s) < end_addr" "maxaddr < 2 ^ 32" "16 dvd maxaddr - end_addr"
    and "end_addr + NULLSTK \<le> maxaddr" "0 \<le> nextsem s" "nextsem s < NSEM" "0 \<le> nextpid s" "\<forall>p. kcont s p = []"
  shows "\<exists>s' L b. sysinit_tables end_addr maxaddr s = Some s' \<and> booted s' \<and> kstate_ok s' \<and> mrel (heap s') L
    \<and> {b..<b + NULLSTK} \<subseteq> {end_addr..<maxaddr} \<and> free_bytes (heap s') L = {end_addr..<maxaddr} - {b..<b + NULLSTK}"
proof -
  obtain s' L b where R: "sysinit_tables end_addr maxaddr s = Some s'" "booted s'" "kinv s' (\<lambda>_. [])" "mrel (heap s') L" "coalesced (heap s') L"
    "{b..<b + NULLSTK} \<subseteq> {end_addr..<maxaddr}" "free_bytes (heap s') L = {end_addr..<maxaddr} - {b..<b + NULLSTK}"
    "nextsem s' = nextsem s" "nextpid s' = nextpid s" "kcont s' = kcont s"
    using sysinit_tables_ok [OF assms(1-8)] by blast
  have "kgood s' (\<lambda>_. [])"
    using R(2,4,5,8-10) assms(9-12)
    by (auto simp: kgood_def booted_def semrel_def sems_free_def awake_def sleepers_def counts_ok_def heap_good_def rests_ok_def)
  then show ?thesis using R(1-4,6,7) by (auto simp: kstate_ok_def)
qed

definition cold :: kernel where
  "cold = demo\<lparr>nextqid := 100, heap := heap_ex\<rparr>"

theorem start_ok_witness: "\<exists>s' L b. sysinit_tables 1008 16368 cold = Some s' \<and> booted s' \<and> kstate_ok s' \<and> mrel (heap s') L
    \<and> {b..<b + 8192} \<subseteq> {1008..<16368} \<and> free_bytes (heap s') L = {1008..<16368} - {b..<b + 8192}"
  by (rule start_ok) (simp_all add: cold_def heap_ex_def)

section \<open>Scheduling\<close>

text \<open>C4: \<open>resched\<close>, called by a running process, first sets its priority as the scheduler in
  force computes it (\<open>new_prio\<close>: 0 for the null process; under SJF 32767 less the processor
  time used, modulo 32768; under the random scheduler the next random number brought to 1..99;
  otherwise the priority it was created with), and lets it run on exactly when that priority is
  above the key of every ready process.  Otherwise the head of the ready list runs, for a new
  quantum, and the caller is put behind all ready processes of its priority or more, with that
  priority as its key.\<close>

theorem resched_priority:
  assumes "kinv s Q" "ndefers s \<le> 0"
  shows "\<exists>s' Q'. resched s = Some s' \<and> kinv s' Q'
    \<and> 0 \<le> new_prio (currpid s) s \<and> new_prio (currpid s) s < 2 ^ 15
    \<and> prprio (proctab s' (currpid s)) = new_prio (currpid s) s
    \<and> (if (\<exists>x\<in>set (Q (readylist s)). new_prio (currpid s) s \<le> keyof s x)
       then \<exists>rest. Q (readylist s) = currpid s' # rest \<and> prstate (proctab s' (currpid s)) = PR_READY
          \<and> Q' = Q(readylist s := enter_by (keyof s) (new_prio (currpid s) s) (currpid s) rest) \<and> preempt s' = QUANTUM
       else currpid s' = currpid s \<and> Q' = Q \<and> preempt s' = preempt s)"
proof -
  obtain s' Q' prio where R: "resched s = Some s'" "kinv s' Q'" "0 \<le> prio" "prio < 32768"
    "prio = new_prio (currpid s) s" "prprio (proctab s' (currpid s)) = prio"
    "if (\<exists>x\<in>set (Q (readylist s)). prio \<le> keyof s x)
       then \<exists>rest. Q (readylist s) = currpid s' # rest \<and> prstate (proctab s' (currpid s)) = PR_READY
          \<and> Q' = Q(readylist s := enter_by (keyof s) prio (currpid s) rest) \<and> preempt s' = QUANTUM
       else currpid s' = currpid s \<and> Q' = Q \<and> preempt s' = preempt s"
    using resched_curr [OF assms] by blast
  show ?thesis unfolding R(5) [symmetric] by (intro exI [of _ s'] exI [of _ Q']) (use R(1-4,6,7) in simp)
qed

text \<open>Process 1, with priority 20, runs on; with priority 5 it gives way to process 2, of priority 10.\<close>

definition demo_low :: kernel where
  "demo_low = demo\<lparr>proctab := (proctab demo)(1 := (proctab demo 1)\<lparr>prprio0 := 5\<rparr>)\<rparr>"

lemma demo_low_inv: "kinv demo_low demo_queues"
proof -
  have e: "prstate (proctab demo_low p) = prstate (proctab demo p)" "wait_ok (proctab demo_low p) = wait_ok (proctab demo p)" for p
    by (simp_all add: demo_low_def wait_ok_def)
  have "pq demo_low (proctab demo_low p) = pq demo (proctab demo p)" for p
    by (simp add: pq_def demo_low_def split: pstate.split)
  then have "pqueue demo_low = pqueue demo" by (simp add: pqueue_def fun_eq_iff)
  moreover have "qid_of demo_low = qid_of demo"
  proof
    fix x show "qid_of demo_low x = qid_of demo x" by (cases x) (simp_all add: demo_low_def)
  qed
  then have "layout demo_low = layout demo" by (simp add: layout_def) (simp add: demo_low_def)
  ultimately show ?thesis using demo_inv e
    by (simp add: kinv_def kpre_def kgen_def sched_ok_def) (simp add: demo_low_def)
qed

theorem resched_priority_witness:
  "(\<exists>s'. resched demo = Some s' \<and> currpid s' = 1 \<and> prprio (proctab s' 1) = 20)
   \<and> (\<exists>s' Q'. resched demo_low = Some s' \<and> currpid s' = 2 \<and> Q' 320 = [1, 0] \<and> kinv s' Q' \<and> preempt s' = QUANTUM)"
proof
  have "new_prio 1 demo = 20" "\<not> (\<exists>x\<in>set (demo_queues 320). 20 \<le> keyof demo x)"
    by (simp_all add: new_prio_def demo_procs_def demo_proc_def demo_lines demo_tab_def linkp_def empty_tab_def Let_def)
  then show "\<exists>s'. resched demo = Some s' \<and> currpid s' = 1 \<and> prprio (proctab s' 1) = 20"
    using resched_priority [OF demo_inv] by fastforce
next
  have f: "currpid demo_low = 1" "readylist demo_low = 320" "ndefers demo_low = 0" "queuetab demo_low = queuetab demo"
    by (simp_all add: demo_low_def)
  have k: "keyof demo 2 = 10" "keyof demo 0 = 0" by (simp_all add: demo_tab_def linkp_def empty_tab_def Let_def)
  have n: "new_prio 1 demo_low = 5" by (simp add: new_prio_def demo_low_def demo_procs_def demo_proc_def)
  have "\<exists>x\<in>set (demo_queues 320). 5 \<le> keyof demo x" using k by (simp add: demo_lines)
  then obtain s' Q' rest where R: "resched demo_low = Some s'" "kinv s' Q'" "demo_queues 320 = currpid s' # rest"
    "Q' = demo_queues(320 := enter_by (keyof demo) 5 1 rest)" "preempt s' = QUANTUM"
    using resched_priority [OF demo_low_inv] unfolding f n by auto
  have l: "currpid s' = 2" "rest = [0]" using R(3) by (simp_all add: demo_lines)
  have "Q' 320 = [1, 0]" using k R(4) by (simp add: l enter_by_def)
  then show "\<exists>s' Q'. resched demo_low = Some s' \<and> currpid s' = 2 \<and> Q' 320 = [1, 0] \<and> kinv s' Q' \<and> preempt s' = QUANTUM"
    using R(1,2,5) l by blast
qed

text \<open>Suspending a ready process and resuming it: both calls return its priority at that
  moment, and in between the process is suspended and on no queue.\<close>

theorem suspend_resume:
  assumes inv: "kinv s Q" and p: "\<not> isbadpid s pid" "pid \<noteq> NULLPROC" and st: "prstate (proctab s pid) = PR_READY"
  shows "\<exists>s1 s2 R. suspend pid s = Some (deliver (currpid s) (prprio (proctab s pid)) s1)
    \<and> kinv s1 (Q(readylist s := remove1 pid (Q (readylist s)))) \<and> prstate (proctab s1 pid) = PR_SUSP \<and> currpid s1 = currpid s
    \<and> resume pid s1 = Some (prprio (proctab s1 pid), s2) \<and> kinv s2 R \<and> runnable s2 pid"
proof -
  obtain s1 where S: "suspend pid s = Some (deliver (currpid s) (prprio (proctab s pid)) s1)" "currpid s1 = currpid s"
    "settled (mkst PR_SUSP pid s) (Q(readylist s := remove1 pid (Q (readylist s)))) s1 (Q(readylist s := remove1 pid (Q (readylist s))))"
    using suspend_ready_ok [OF inv p st] by blast
  note F = settledD(2) [OF S(3)]
  have su: "prstate (proctab s1 pid) = PR_SUSP" using sframe_state(4) [OF F, of pid] by simp
  have nb: "\<not> isbadpid s1 pid" using p su by (simp add: isbadpid_def)
  obtain s2 R where "resume pid s1 = Some (prprio (proctab s1 pid), s2)" "settled (mkst PR_READY pid s1) (Q(readylist s := remove1 pid (Q (readylist s)))) s2 R"
    using resume_ok [OF settledD(1) [OF S(3)] nb su] by blast
  moreover from this have "runnable s2 pid" by (auto intro: released)
  ultimately show ?thesis using S(1,2) su settledD(1) [OF S(3)] settledD(1) by blast
qed

theorem suspend_resume_witness:
  "\<exists>s1 s2. suspend 2 demo = Some (deliver 1 10 s1) \<and> resume 2 s1 = Some (prprio (proctab s1 2), s2) \<and> runnable s2 2"
  using suspend_resume [OF demo_inv, of 2] by (auto simp: demo_procs_def isbadpid_def)

section \<open>Semaphores\<close>

text \<open>C5: \<open>wait\<close> implements its specification on counts and lines: the count goes down by one,
  and when it was not positive the caller joins the end of the line; no other semaphore changes.\<close>

theorem wait_refines:
  assumes "kinv s Q" "semrel s Q" "ndefers s \<le> 0" "0 \<le> sem" "sem < NSEM" "sstate (semtab s sem) = S_USED"
    and "scount (semtab s sem) < 2 ^ 31" "0 < scount (semtab s sem) \<or> currpid s \<noteq> NULLPROC"
  shows "\<exists>s' Q'. wait sem s = Some (OK, s') \<and> kinv s' Q'
    \<and> sem_becomes s Q sem (sem_wait_spec (currpid s) (abs_sem s Q sem)) s' Q'"
  by (rule wait_spec) (use assms in simp_all)

theorem wait_refines_witness:
  "\<exists>s' Q'. wait 0 demo = Some (OK, s') \<and> abs_sem s' Q' 0 = (-2, [3, 1])"
proof -
  obtain s' Q' where "wait 0 demo = Some (OK, s')" "sem_becomes demo demo_queues 0 (-2, [3, 1]) s' Q'"
    using wait_refines [OF demo_inv demo_sems, of 0] by (auto simp: demo_abs demo_lines)
  then show ?thesis using sem_becomes_at by fastforce
qed

text \<open>C6: \<open>signal\<close> implements its specification: one more, and the first of the line can run.\<close>

theorem signal_refines:
  assumes "kinv s Q" "semrel s Q" "0 \<le> sem" "sem < NSEM" "sstate (semtab s sem) = S_USED" "scount (semtab s sem) + 1 < 2 ^ 31"
  shows "\<exists>s' Q'. signal sem s = Some (OK, s') \<and> kinv s' Q' \<and> sem_becomes s Q sem (sem_signal_spec (abs_sem s Q sem)) s' Q'
    \<and> (\<forall>p\<in>set (take 1 (Q (squeue (semtab s sem)))). runnable s' p)"
  by (rule signal_spec) (use assms in simp_all)

theorem signal_refines_witness:
  "\<exists>s' Q'. signal 0 demo = Some (OK, s') \<and> abs_sem s' Q' 0 = (0, []) \<and> runnable s' 3"
proof -
  obtain s' Q' where "signal 0 demo = Some (OK, s')" "sem_becomes demo demo_queues 0 (0, []) s' Q'" "runnable s' 3"
    using signal_refines [OF demo_inv demo_sems, of 0] by (auto simp: demo_abs demo_lines)
  then show ?thesis using sem_becomes_at by fastforce
qed

text \<open>C7: \<open>signaln\<close> with rescheduling deferred has the effect of that many \<open>signal\<close>s: the
  specification of \<open>signal\<close> applied as often, and as many processes of the line can run.\<close>

theorem signaln_refines:
  assumes "kinv s Q" "semrel s Q" "ndefers s = 0" "0 \<le> sem" "sem < NSEM" "sstate (semtab s sem) = S_USED"
    and "scount (semtab s sem) + int n < 2 ^ 31"
  shows "\<exists>s' Q'. signaln sem (int n) s = Some (OK, s') \<and> kinv s' Q'
    \<and> sem_becomes s Q sem ((sem_signal_spec ^^ n) (abs_sem s Q sem)) s' Q'
    \<and> (\<forall>p\<in>set (take n (Q (squeue (semtab s sem)))). runnable s' p)"
  by (rule signaln_spec) (use assms in simp_all)

theorem signaln_refines_witness:
  "\<exists>s' Q'. signaln 0 2 demo = Some (OK, s') \<and> abs_sem s' Q' 0 = (1, []) \<and> runnable s' 3"
proof -
  obtain s' Q' where "signaln 0 2 demo = Some (OK, s')" "sem_becomes demo demo_queues 0 (1, []) s' Q'" "runnable s' 3"
    using signaln_refines [OF demo_inv demo_sems, of 0 2] by (auto simp: demo_abs demo_lines signals_spec)
  then show ?thesis using sem_becomes_at by fastforce
qed

text \<open>C17: \<open>semdelete\<close> frees the semaphore and makes every process of its line able to run, and
  no other semaphore changes.\<close>

theorem semdelete_releases:
  assumes "kinv s Q" "semrel s Q" "ndefers s = 0" "0 \<le> sem" "sem < NSEM" "sstate (semtab s sem) = S_USED"
    and "scount (semtab s sem) + 1 < 2 ^ 31"
  shows "\<exists>s' Q'. semdelete sem s = Some (OK, s') \<and> kinv s' Q' \<and> sstate (semtab s' sem) = S_FREE
    \<and> Q' (squeue (semtab s sem)) = [] \<and> (\<forall>p\<in>set (Q (squeue (semtab s sem))). runnable s' p)
    \<and> (\<forall>i. 0 \<le> i \<and> i < NSEM \<and> i \<noteq> sem \<longrightarrow> abs_sem s' Q' i = abs_sem s Q i)"
  by (rule semdelete_spec) (use assms in simp_all)

theorem semdelete_releases_witness:
  "\<exists>s'. semdelete 0 demo = Some (OK, s') \<and> sstate (semtab s' 0) = S_FREE \<and> runnable s' 3"
  using semdelete_releases [OF demo_inv demo_sems, of 0] by (auto simp: demo_queues_def)

section \<open>Time\<close>

text \<open>C15: A process that has \<open>w\<close> ticks to sleep sleeps through the first \<open>w - 1\<close> timer
  interrupts, with exactly the rest to go after each, and can run after the \<open>w\<close>-th, whoever
  else sleeps or is given the processor meanwhile.  The interrupts all return, and after each
  of them what is pending for the process that has the processor (the end of the clock handler or
  of a call in which it lost it) returns, too.\<close>

theorem sleeper_on_time:
  assumes "kinv s Q" "kgood s Q" "(p, w) \<in> set (sleepers s Q)"
  shows "0 < w \<and> (\<forall>n \<le> nat w. \<exists>s' Q'. ticks n s = Some s' \<and> kinv s' Q' \<and> kgood s' Q'
    \<and> (if int n < w then (p, w - int n) \<in> set (sleepers s' Q') \<and> \<not> runnable s' p else runnable s' p))"
proof -
  have w: "0 < w" using kgoodD(3) [OF assms(2)] assms(3) by (auto simp: awake_def)
  have "\<exists>s' Q'. ticks n s = Some s' \<and> kinv s' Q' \<and> kgood s' Q'
    \<and> (if int n < w then (p, w - int n) \<in> set (sleepers s' Q') \<and> \<not> runnable s' p else runnable s' p)" if "n \<le> nat w" for n
  proof (cases "int n < w")
    case True
    then show ?thesis using sleeps_on [OF assms] by simp
  next
    case False
    then have "n = nat w" using that by simp
    then show ?thesis using wakes_in_time [OF assms] False by simp
  qed
  then show ?thesis using w by blast
qed

theorem sleeper_on_time_witness:
  "(\<exists>s' Q'. ticks 3 demo = Some s' \<and> (4, 2) \<in> set (sleepers s' Q') \<and> \<not> runnable s' 4) \<and> (\<exists>s'. ticks 5 demo = Some s' \<and> runnable s' 4)"
proof -
  have p: "(4, 5) \<in> set (sleepers demo demo_queues)" by (simp add: demo_sleepers)
  note T = conjunct2 [OF sleeper_on_time [OF demo_inv demo_good p], rule_format]
  show ?thesis using T [of 3] T [of 5] by auto
qed

text \<open>\<open>sleepms\<close> adds the caller to the sleepers with its delay, behind those that have as
  much or less to wait, without changing the time of any other, and the next ready process runs.\<close>

theorem sleepms_enters:
  assumes "kinv s Q" "currpid s \<noteq> NULLPROC" "ndefers s \<le> 0" "0 < delay" "delay < 2 ^ 31"
  shows "\<exists>s' Q'. sleepms delay s = Some (OK, s') \<and> kinv s' Q'
    \<and> sleepers s' Q' = takeWhile (\<lambda>(_, w). w \<le> delay) (sleepers s Q) @ (currpid s, delay)
        # dropWhile (\<lambda>(_, w). w \<le> delay) (sleepers s Q)
    \<and> Q (readylist s) = currpid s' # Q' (readylist s)"
  using sleepms_ok [OF assms] settledD(1) by fast

theorem sleepms_enters_witness: "\<exists>s' Q'. sleepms 3 demo = Some (OK, s') \<and> sleepers s' Q' = [(1, 3), (4, 5)] \<and> currpid s' = 2"
  using sleepms_enters [OF demo_inv, of 3] by (auto simp: demo_sleepers demo_lines)

section \<open>Messages\<close>

text \<open>C18: A message sent to a process that waits for one is stored and makes it able to run; until
  it is taken every further \<open>send\<close> is refused and changes nothing; and what the
  receiver gets when it runs is that message.\<close>

theorem send_delivers:
  assumes inv: "kinv s Q" and p: "\<not> isbadpid s pid" "\<not> prhasmsg (proctab s pid)" "prstate (proctab s pid) = PR_RECV"
  shows "\<exists>s' Q'. send pid msg s = Some (OK, s') \<and> kinv s' Q' \<and> runnable s' pid
    \<and> (\<forall>m. send pid m s' = Some (SYSERR, s')) \<and> receive_rest pid s' = Some (deliver pid msg (take_msg pid s'))"
proof -
  obtain s' Q' where S: "send pid msg s = Some (OK, s')" "settled (mkst PR_READY pid (put_msg pid msg s)) Q s' Q'"
    using send_recv_ok [OF inv p] by blast
  note F = sframe_procD [OF settledD(2) [OF S(2)]]
  have m: "prhasmsg (proctab s' pid)" "prmsg (proctab s' pid) = msg" using F(8,9) [of pid] by (simp_all add: put_msg_def)
  have pb: "0 \<le> pid" "pid < 100" using p(1) by (simp_all add: isbadpid_def)
  have "receive_rest pid s' = Some (deliver pid msg (take_msg pid s'))"
    using pb m by (simp add: receive_rest_def take_msg_def)
  moreover have "runnable s' pid" by (rule released [OF S(2)]) simp
  ultimately show ?thesis using S(1) settledD(1) [OF S(2)] send_bad [of s' pid] m by blast
qed

theorem send_delivers_witness:
  "\<exists>s'. send 6 77 demo = Some (OK, s') \<and> runnable s' 6 \<and> receive_rest 6 s' = Some (deliver 6 77 (take_msg 6 s'))"
  using send_delivers [OF demo_inv, of 6 77] by (auto simp: isbadpid_def demo_procs_def)

section \<open>Processes\<close>

definition heap_big :: mheap where
  "heap_big = \<lparr>blk = (\<lambda>_. \<lparr>mnext = 0, mlength = 0, mprev = 0\<rparr>)
     (100 := \<lparr>mnext = 1008, mlength = 4000, mprev = 1008\<rparr>, 1008 := \<lparr>mnext = 100, mlength = 4000, mprev = 100\<rparr>),
     memlist = 100, minheap = 1008, maxheap = 5008\<rparr>"

lemma heap_big_mrel: "mrel heap_big [1008]"
  by (simp add: mrel_def heap_ok_def heap_big_def)

definition demo_big :: kernel where
  "demo_big = demo\<lparr>heap := heap_big\<rparr>"

lemma demo_big_inv: "kinv demo_big demo_queues"
  unfolding demo_big_def using kinv_core [OF kcore_heap] demo_inv by blast

text \<open>C19: \<open>create\<close> takes a free entry of the process table and a stack, and makes a suspended
  process with the given priority whose parent is the caller and whose stack holds the frame from
  which \<open>ctxsw\<close> starts it (registers, entry address, return address, arguments, magic
  word); no other process and no memory outside the frame changes.\<close>

theorem create_suspended:
  assumes inv: "kinv s Q" and np: "0 \<le> nextpid s" and i: "0 \<le> i" "i < NPROC" "prstate (proctab s i) = PR_FREE"
    and pr: "1 \<le> priority" and pc: "in_s32 (prcount s + 1)"
    and g: "getstk (envtab s EV_MEMALLOC) (roundew (if ssize < 400 then 400 else ssize)) (heap s) = Some (saddr, h)" "saddr \<noteq> SYSERR"
  shows "\<exists>pid s'. create initret procaddr ssize priority name args s = Some (pid, s') \<and> kinv s' Q
    \<and> prstate (proctab s pid) = PR_FREE \<and> prstate (proctab s' pid) = PR_SUSP
    \<and> prprio (proctab s' pid) = priority \<and> prparent (proctab s' pid) = currpid s \<and> prstkbase (proctab s' pid) = saddr
    \<and> (\<forall>p. p \<noteq> pid \<longrightarrow> proctab s' p = proctab s p) \<and> prcount s' = prcount s + 1 \<and> heap s' = h
    \<and> words (mem s') (prstkptr (proctab s' pid)) (frame_words initret procaddr args @ [STACKMAGIC])
    \<and> (\<forall>x. x < prstkptr (proctab s' pid) \<or> saddr + 4 \<le> x \<longrightarrow> mem s' x = mem s x)"
  using create_ok [OF inv np i pr pc g, of initret procaddr name args] by blast

theorem create_suspended_witness:
  "\<exists>pid s'. create 1 2 64 20 0 [5, 6] demo_big = Some (pid, s') \<and> prstate (proctab s' pid) = PR_SUSP \<and> prprio (proctab s' pid) = 20"
proof -
  have r: "roundmb 400 = 400" "roundew 400 = 400" by (simp_all add: roundmb_def roundew_def u32_def)
  obtain b h where g: "getstk 0 400 heap_big = Some (b + 400 - 4, h)" "1008 \<le> b"
    using getstk_some [OF heap_big_mrel, of 400 0] r by (auto simp: heap_big_def)
  show ?thesis
    using create_suspended [OF demo_big_inv, of 9 20 64 "b + 400 - 4" h 1 2 0 "[5, 6]"] g r
    by (auto simp: demo_big_def demo_procs_def in_s32_def)
qed

text \<open>When the priority is below 1 or no entry of the process table is free, \<open>create\<close>
  reports an error but keeps the stack it obtained: that memory is lost to the system.\<close>

theorem create_leaks_stack:
  assumes m: "mrel (heap s) L" and n: "0 < n" "n \<le> 4294967280" and nd: "n = roundew (if ssize < 400 then 400 else ssize)"
    and some: "\<exists>a\<in>set L. roundmb n \<le> mlength (blk (heap s) a)"
    and np: "0 \<le> nextpid s" and f: "priority < 1 \<or> (\<forall>i. 0 \<le> i \<and> i < NPROC \<longrightarrow> prstate (proctab s i) \<noteq> PR_FREE)"
  shows "\<exists>s' L' b. create initret procaddr ssize priority name args s = Some (SYSERR, s') \<and> proctab s' = proctab s
    \<and> mrel (heap s') L' \<and> {b..<b + roundmb n} \<subseteq> free_bytes (heap s) L
    \<and> free_bytes (heap s') L' = free_bytes (heap s) L - {b..<b + roundmb n}"
proof -
  obtain b h' L' where K: "getstk (envtab s EV_MEMALLOC) n (heap s) = Some (b + roundmb n - 4, h')" "mrel h' L'"
    "{b..<b + roundmb n} \<subseteq> free_bytes (heap s) L" "minheap (heap s) \<le> b"
    "free_bytes h' L' = free_bytes (heap s) L - {b..<b + roundmb n}"
    using getstk_some [OF m n some] by blast
  have "0 < b" using K(4) m by (auto simp: mrel_def heap_ok_def)
  moreover have "16 \<le> roundmb n" using roundmb_props(3,4) [OF n] by (rule zdvd_imp_le)
  ultimately have "b + roundmb n - 4 \<noteq> SYSERR" by linarith
  then obtain k where "create initret procaddr ssize priority name args s = Some (SYSERR, s\<lparr>heap := h', nextpid := k\<rparr>)"
    using create_fails [OF K(1) [unfolded nd] _ np f, of initret procaddr name args] nd by auto
  then show ?thesis using K(2,3,5) by (intro exI [of _ "s\<lparr>heap := h', nextpid := k\<rparr>"] exI [of _ L'] exI [of _ b]) simp
qed

theorem create_leaks_stack_witness:
  "\<exists>s' L' b. create 1 2 64 0 0 [] demo_big = Some (SYSERR, s') \<and> mrel (heap s') L'
    \<and> free_bytes (heap s') L' = {1008..<5008} - {b..<b + 400} \<and> {b..<b + 400} \<subseteq> {1008..<5008}"
proof -
  have r: "roundmb 400 = 400" "roundew 400 = 400" by (simp_all add: roundmb_def roundew_def u32_def)
  have h: "heap demo_big = heap_big" "nextpid demo_big = 8" by (simp_all add: demo_big_def)
  have f: "free_bytes heap_big [1008] = {1008..<5008}" by (simp add: free_bytes_def heap_big_def)
  show ?thesis using create_leaks_stack [of demo_big "[1008]" 400 64 0 1 2 0 "[]"] heap_big_mrel
    by (simp add: r h f) (auto simp: heap_big_def)
qed


text \<open>A device table that closes as \<open>system/conf.c\<close> does, up to the drivers that wait for a
  semaphore when a disk or a file is closed.\<close>

definition dev_conf :: devtab where
  "dev_conf i = (dev_ex i)\<lparr>dvclose := (if i \<in> {0, 1} then (\<lambda>_. ionull) else if i \<in> {2, 3, 6, 17} then (\<lambda>_. ioerr) else (\<lambda>_. wait 1))\<rparr>"

lemma demo_quiet: "quiet_descs dev_conf p demo"
  by (simp add: quiet_descs_def quiet_close_def dev_conf_def demo_procs_def demo_proc_def)

lemma demo_freestk:
  assumes "stk = 1132 \<or> stk = 1196"
  shows "\<exists>h L. freestk stk 64 heap_ex = Some (OK, h) \<and> mrel h L"
proof -
  have f: "minheap heap_ex = 1008" "maxheap heap_ex = 2000" by (simp_all add: heap_ex_def)
  have "\<exists>h' L'. freestk stk 64 heap_ex = Some (OK, h') \<and> mrel h' L' \<and> same_area heap_ex h'
    \<and> free_bytes h' L' = free_bytes heap_ex [1008, 1200] \<union> {stk - 60..<stk - 60 + roundmb 64}
    \<and> (coalesced heap_ex [1008, 1200] \<longrightarrow> coalesced h' L')"
    by (rule freestk_ok [OF heap_ex_mrel])
      (use assms in \<open>auto simp: heap_ex_free roundmb_def u32_def f\<close>)
  then show ?thesis by blast
qed


text \<open>A process that kills itself gives its stack back, frees its entry, and the first ready
  process runs.\<close>

theorem kill_self:
  assumes "kinv s Q" "currpid s \<noteq> NULLPROC" "ndefers s \<le> 0" "2 < prcount s" "prcount s < 2 ^ 31"
    and "parent_deaf (currpid s) s" "quiet_descs devtab (currpid s) s"
    and "freestk (prstkbase (proctab s (currpid s))) (prstklen (proctab s (currpid s))) (heap s) = Some (r, h)"
  shows "\<exists>s' rest. kill devtab (currpid s) s = Some s' \<and> Q (readylist s) = currpid s' # rest
    \<and> kinv s' (Q(readylist s := rest)) \<and> prstate (proctab s' (currpid s)) = PR_FREE \<and> prcount s' = prcount s - 1 \<and> heap s' = h"
  by (rule kill_self_ok) (use assms in simp_all)

theorem kill_self_witness:
  "\<exists>s'. kill dev_conf 1 demo = Some s' \<and> prstate (proctab s' 1) = PR_FREE \<and> currpid s' = 2"
proof -
  obtain h L where "freestk 1196 64 heap_ex = Some (OK, h)" using demo_freestk by blast
  then show ?thesis
    using kill_self [OF demo_inv, of dev_conf OK h] demo_quiet
    by (auto simp: demo_procs_def isbadpid_def parent_deaf_def Let_def demo_lines)
qed

section \<open>Readers and writers\<close>

text \<open>A writer that finds a blocker held or somebody waiting, and a reader that finds a writer
  inside or somebody waiting, goes to the end of the line (so no reader passes a waiting
  writer), and the first ready process runs.\<close>

theorem rwb_line:
  assumes "kinv s Q" "ndefers s \<le> 0" "currpid s \<noteq> NULLPROC" "0 \<le> rwb" "rwb < RWB_COUNT" "rwstate (rwbtab s rwb) = S_USED"
    and "in_s32 (qcount (rwbtab s rwb) + 1)"
  shows "(rwcount (rwbtab s rwb) \<noteq> 0 \<or> 0 < qcount (rwbtab s rwb) \<longrightarrow>
      (\<exists>s' Q'. rwb_trywrite rwb s = Some (OK, s')
        \<and> settled (rwb_queued rwb (-1) s) (Q(rwqueue (rwbtab s rwb) := Q (rwqueue (rwbtab s rwb)) @ [currpid s])) s' Q'
        \<and> Q (readylist s) = currpid s' # Q' (readylist s)))
    \<and> (rwcount (rwbtab s rwb) < 0 \<or> 0 < qcount (rwbtab s rwb) \<longrightarrow>
      (\<exists>s' Q'. rwb_tryread rwb s = Some (OK, s')
        \<and> settled (rwb_queued rwb 1 s) (Q(rwqueue (rwbtab s rwb) := Q (rwqueue (rwbtab s rwb)) @ [currpid s])) s' Q'
        \<and> Q (readylist s) = currpid s' # Q' (readylist s)))"
  using rwb_wait [OF assms(1-6)] assms(7) by blast

theorem rwb_line_witness:
  "(\<exists>s'. rwb_trywrite 0 demo = Some (OK, s') \<and> currpid s' = 2) \<and> (\<exists>s'. rwb_tryread 0 demo = Some (OK, s') \<and> currpid s' = 2)"
  using rwb_line [OF demo_inv, of 0] by (auto simp: in_s32_def demo_lines)

text \<open>C21: When the last one inside leaves and a writer is first in line, the writer is made ready
  before it is counted in: as soon as it is scheduled at once, the blocker counts nobody inside
  while the writer runs, and the count is only put right when the process that left runs
  again.\<close>

theorem writer_let_in:
  assumes "kinv s Q" "0 \<le> rwb" "rwb < RWB_COUNT" "rwstate (rwbtab s rwb) = S_USED" "\<not> isbadpid s p"
    and "rwcount (rwbtab s rwb) + (if rwbflags s p = -1 then 1 else -1) = 0" "in_s32 (qcount (rwbtab s rwb) - 1)"
    and "Q (rwqueue (rwbtab s rwb)) = w # ws" "w \<noteq> p" "rwbflags s w = -1"
  shows "\<exists>s' Q'. signalrwb_for p rwb s = Some s' \<and> qframe s (Q(rwqueue (rwbtab s rwb) := ws)) s' Q' \<and>
    (if currpid s' = currpid s then rwcount (rwbtab s' rwb) = -1 \<and> kret s' (currpid s) = OK
     else kinv s' Q' \<and> rwcount (rwbtab s' rwb) = 0 \<and> kcont s' (currpid s) = kcont s (currpid s) @ [KRwbWriter p rwb])"
  by (rule signal_writer) (use assms in simp_all)

theorem writer_let_in_witness:
  "\<exists>s'. signalrwb_for 1 0 demo = Some s' \<and> (if currpid s' = 1 then rwcount (rwbtab s' 0) = -1 else rwcount (rwbtab s' 0) = 0)"
  using writer_let_in [OF demo_inv, of 0 1 7 "[]"]
  by (fastforce simp: demo_procs_def isbadpid_def in_s32_def demo_lines split: if_splits)

text \<open>C22: \<open>rwbreset\<close> empties the line of a blocker without making its processes ready: they
  keep waiting, on no queue, for ever (the braces of its loop are missing).\<close>

theorem rwbreset_loses:
  assumes "kinv s Q" "ndefers s = 0" "0 \<le> rwb" "rwb < RWB_COUNT" "rwstate (rwbtab s rwb) = S_USED" "0 \<le> count"
    and "in_s32 (qcount (rwbtab s rwb))" "in_s32 (qcount (rwbtab s rwb) - int (length (Q (rwqueue (rwbtab s rwb)))))"
  shows "\<exists>s' W. rwbreset rwb count s = Some (OK, s') \<and> rwcount (rwbtab s' rwb) = count \<and> proctab s' = proctab s
    \<and> readylist s' = readylist s \<and> qrel (queuetab s') (nextqid s) (Q(rwqueue (rwbtab s rwb) := [])) W"
  by (rule rwbreset_ok) (use assms in simp_all)

theorem rwbreset_loses_witness:
  "\<exists>s' W. rwbreset 0 0 demo = Some (OK, s') \<and> prstate (proctab s' 7) = PR_WAIT \<and> qrel (queuetab s') 326 (demo_queues(300 := [])) W"
  using rwbreset_loses [OF demo_inv, of 0 0] by (auto simp: in_s32_def demo_lines demo_procs_def)

section \<open>Buffer pools\<close>

text \<open>C23: \<open>mkbufpool\<close> takes one block of memory and cuts it into a pool of disjoint
  buffers of the size asked for (rounded up to words, plus one word that remembers the pool),
  all on the free list of the pool, with a semaphore that counts them.\<close>

theorem pool_made:
  assumes "kinv s Q" "semrel s Q" "sems_free s Q" "0 \<le> i" "i < NSEM" "sstate (semtab s i) = S_FREE"
    and "8 \<le> bufsiz" "bufsiz \<le> 8192" "1 \<le> numbufs" "numbufs \<le> 2048" "0 \<le> nbpools s" "nbpools s < NBPOOLS"
    and "k = (bufsiz + 3) div 4 * 4 + 4"
    and "getmem (envtab s EV_MEMALLOC) (numbufs * k) (heap s) = Some (p, h)" "0 < p" "p + numbufs * k \<le> 2 ^ 32"
  shows "\<exists>s'. mkbufpool bufsiz numbufs s = Some (nbpools s, s') \<and> kinv s' Q \<and> semrel s' Q \<and> heap s' = h
    \<and> pool_ok s' (nbpools s) (blocks k (nat numbufs) p)"
  unfolding assms(13) by (rule mkbufpool_ok) (use assms in simp_all)

theorem pool_made_witness:
  "\<exists>s' p. mkbufpool 8 2 demo = Some (0, s') \<and> pool_ok s' 0 [p, p + 12]"
proof -
  have r: "roundmb 24 = 32" by (simp add: roundmb_def)
  obtain p h L where G: "getmem 0 24 heap_ex = Some (p, h)" "p \<in> set [1008, 1200]"
    using getmem_takes [OF heap_ex_mrel, of 24 0] r by (auto simp: heap_ex_def)
  have "blocks 12 2 p = [p, p + 12]" by (simp add: numeral_2_eq_2)
  then have "\<exists>s'. mkbufpool 8 2 demo = Some (0, s') \<and> pool_ok s' 0 [p, p + 12]"
    using pool_made [OF demo_inv demo_sems demo_semsfree, of 5 8 2 12 p h] G by auto
  then show ?thesis by blast
qed

text \<open>C24: A buffer got from a pool and given back: \<open>getbuf\<close> hands out the first free
  buffer, past the word that names the pool, without waiting when there is one, and
  \<open>freebuf\<close> of that address puts it back where it was.\<close>

theorem getbuf_freebuf:
  assumes inv: "kinv s Q" and rel: "semrel s Q" and pool: "pool_ok s i (b # bufs)" and sm: "int (length bufs) < 2147483646"
  shows "\<exists>s1 s2 R. getbuf i s = Some s1 \<and> kret s1 (currpid s) = b + 4 \<and> pool_ok s1 i bufs \<and> kinv s1 Q
    \<and> (\<forall>x. x < b \<or> b + 4 \<le> x \<longrightarrow> mem s1 x = mem s x)
    \<and> freebuf (b + 4) s1 = Some (OK, s2) \<and> pool_ok s2 i (b # bufs) \<and> kinv s2 R"
proof -
  have sm': "int (length bufs) < 2147483647" using sm by simp
  define j where "j = bpsem (buftab s i)"
  note P = pool [unfolded pool_ok_def, folded j_def]
  obtain s1 where G: "getbuf i s = Some s1" "kret s1 (currpid s) = b + 4" "ld32 (mem s1) b = i" "pool_ok s1 i bufs" "kinv s1 Q"
    "\<forall>x. x < b \<or> b + 4 \<le> x \<longrightarrow> mem s1 x = mem s x"
    "semtab s1 = (semtab s)(j := (semtab s j)\<lparr>scount := scount (semtab s j) - 1\<rparr>)"
    using getbuf_ok [OF inv pool sm'] unfolding j_def by blast
  have e: "Q (squeue (semtab s j)) = []" using semrelD(2) [OF rel, of j] P by simp
  have "semrel s1 (Q(squeue (semtab s j) := []))"
    by (rule semrel_upd [OF kpreD(1) [OF kinv_kpre [OF inv]] rel _ _ _ _ _ G(7)]) (use P in simp_all)
  then have rel1: "semrel s1 Q" using e by (simp add: fun_upd_idem)
  have b: "0 < b" "b < 4294967296" "apart 4 (b # bufs)" using P by (auto simp: order_less_le)
  obtain s2 R where "freebuf (b + 4) s1 = Some (OK, s2)" "pool_ok s2 i (b # bufs)" "kinv s2 R"
    using freebuf_ok [OF G(5) rel1 G(4,3) b(3,1,2) sm] by blast
  then show ?thesis using G(1,2,4-6) by blast
qed

definition demo_pool :: kernel where
  "demo_pool = demo\<lparr>nbpools := 1, buftab := (\<lambda>_. \<lparr>bpnext = 1008, bpsem = 1, bpsize = 12\<rparr>), mem := st32 1008 1024 (\<lambda>_. 0)\<rparr>"

theorem getbuf_freebuf_witness:
  "\<exists>s1 s2. getbuf 0 demo_pool = Some s1 \<and> kret s1 1 = 1012 \<and> freebuf 1012 s1 = Some (OK, s2) \<and> pool_ok s2 0 [1008, 1024]"
proof -
  have "kcore demo_pool = kcore demo" by (simp add: kcore_def demo_pool_def fun_eq_iff)
  then have inv: "kinv demo_pool demo_queues" using kinv_core demo_inv by blast
  have rel: "semrel demo_pool demo_queues" using demo_sems by (simp add: semrel_def demo_pool_def)
  have l: "ld32 (st32 1008 1024 (\<lambda>_. 0)) 1008 = 1024" "ld32 (st32 1008 1024 (\<lambda>_. 0)) 1024 = 0"
    by (simp_all add: ld32_apart) (simp add: ld32_def)
  have "pool_ok demo_pool 0 [1008, 1024]" by (simp add: pool_ok_def demo_pool_def l apart_Cons apart_Nil)
  then show ?thesis using getbuf_freebuf [OF inv rel, of 0 1008 "[1024]"] by (auto simp: demo_pool_def)
qed

section \<open>Ports\<close>

text \<open>C25: A port is a first-in first-out line of messages: after \<open>ptsend\<close> of a message to a
  port with room, \<open>ptrecv\<close> delivers the oldest message, and the rest stay in order, the
  new one last.\<close>

theorem port_fifo:
  assumes inv: "kinv s Q" and rel: "semrel s Q" and port: "port_ok s i ns (f # fr)"
    and room: "int (length ns) < ptmaxcnt (porttab s i)" and msg: "0 \<le> msg" "msg < 2 ^ 32"
  shows "\<exists>s1 s2 Q2 n rest. ptsend i msg s = Some s1 \<and> kret s1 (currpid s) = OK \<and> ptrecv i s1 = Some s2 \<and> kinv s2 Q2
    \<and> ns @ [f] = n # rest \<and> port_ok s2 i rest (n # fr)
    \<and> kret s2 (currpid s1) # port_msgs s2 rest = port_msgs s ns @ [msg]"
proof -
  obtain s1 Q1 where S: "ptsend i msg s = Some s1" "kret s1 (currpid s) = OK" "kinv s1 Q1" "semrel s1 Q1"
    "port_ok s1 i (ns @ [f]) fr" "port_msgs s1 (ns @ [f]) = port_msgs s ns @ [msg]"
    using ptsend_ok [OF inv rel port room msg] by blast
  obtain n rest where N: "ns @ [f] = n # rest" by (cases "ns @ [f]") auto
  obtain s2 Q2 where R: "ptrecv i s1 = Some s2" "kret s2 (currpid s1) = ptmsg (mem s1) n" "kinv s2 Q2"
    "port_ok s2 i rest (n # fr)" "port_msgs s2 rest = port_msgs s1 rest"
    using ptrecv_ok [OF S(3,4), of i n rest fr] S(5) N by auto
  have "kret s2 (currpid s1) # port_msgs s2 rest = port_msgs s ns @ [msg]"
  proof -
    have "port_msgs s1 (ns @ [f]) = ptmsg (mem s1) n # port_msgs s1 rest" by (simp add: N port_msgs_def)
    then show ?thesis using S(6) R(2,5) by simp
  qed
  then show ?thesis using S(1,2) R(1,3,4) N by blast
qed

definition demo_port :: kernel where
  "demo_port = demo\<lparr>semtab := (semtab demo)(2 := \<lparr>sstate = S_USED, scount = 0, squeue = 104\<rparr>),
     porttab := (\<lambda>_. \<lparr>ptssem = 1, ptrsem = 2, ptstate = PT_ALLOC, ptmaxcnt = 2, ptseq = 0, pthead = 0, pttail = 0\<rparr>),
     ptfree := 4000, mem := (\<lambda>_. 0)\<rparr>"

theorem port_fifo_witness:
  "\<exists>s1 s2. ptsend 0 99 demo_port = Some s1 \<and> ptrecv 0 s1 = Some s2 \<and> kret s2 (currpid s1) = 99"
proof -
  have "kcore demo_port = kcore demo" by (simp add: kcore_def demo_port_def fun_eq_iff)
  then have inv: "kinv demo_port demo_queues" using kinv_core demo_inv by blast
  have rel: "semrel demo_port demo_queues" using demo_sems by (auto simp: semrel_def demo_port_def demo_queues_def)
  have "port_ok demo_port 0 [] [4000]" by (simp add: port_ok_def demo_port_def Let_def ptnext_def ld32_def apart_Cons)
  then show ?thesis using port_fifo [OF inv rel, of 0 "[]" 4000 "[]" 99] by (auto simp: demo_port_def port_msgs_def)
qed

section \<open>Settings\<close>

text \<open>Setting the debug level stores a mask of flags that starts one bit too high: level 1
  sets \<open>0x2000\<close>, level 2 \<open>0x6000\<close>, level 3 and 4 \<open>0xE000\<close>, where \<open>kernel.h\<close>
  defines the levels as \<open>0x1000\<close>, \<open>0x3000\<close>, \<open>0x7000\<close> and
  \<open>0xF000\<close>; so the flag of level 1, for errors, is never set.\<close>

theorem debug_level_mask:
  assumes "envtab s EV_DBLEVEL \<noteq> lvl" "0 \<le> lvl" "lvl \<le> 4"
  shows "setenv EV_DBLEVEL lvl s = Some (OK, put_env EV_DBLEVEL lvl
    (s\<lparr>debug_mask := or (and (debug_mask s) 0x0FFF) ([0, 0x2000, 0x6000, 0xE000, 0xE000] ! nat lvl)\<rparr>))"
  using assms by (rule set_dblevel_ok)

theorem debug_level_mask_witness: "map_option (\<lambda>(r, s). debug_mask s) (setenv EV_DBLEVEL 1 demo) = Some 0x2000"
  using debug_level_mask [of demo 1] by (simp add: put_env_def) (simp add: demo_def)

definition heap_two :: mheap where
  "heap_two = \<lparr>blk = (\<lambda>_. \<lparr>mnext = 0, mlength = 0, mprev = 0\<rparr>)
     (100 := \<lparr>mnext = 1008, mlength = 160, mprev = 1200\<rparr>, 1008 := \<lparr>mnext = 1200, mlength = 32, mprev = 100\<rparr>,
      1200 := \<lparr>mnext = 100, mlength = 128, mprev = 1008\<rparr>), memlist = 100, minheap = 1008, maxheap = 2000\<rparr>"

lemma heap_two_mrel: "mrel heap_two [1008, 1200]"
  by (simp add: mrel_def heap_ok_def heap_two_def)

definition demo_hist :: kernel where
  "demo_hist = demo\<lparr>heap := heap_two, envtab := (\<lambda>_. 0)(EV_CMDHIST := 2)\<rparr>"

lemma heap_two_takes:
  "\<exists>h L. getmem 0 24 heap_two = Some (1008, h) \<and> mrel h L \<and> same_area heap_two h \<and> free_bytes h L = {1200..<1328}"
proof -
  have r: "roundmb 24 = 32" by (simp add: roundmb_def)
  have f: "free_bytes heap_two [1008, 1200] = {1008..<1040} \<union> {1200..<1328}" by (simp add: free_bytes_def heap_two_def)
  obtain a h L where G: "getmem 0 24 heap_two = Some (a, h)" "mrel h L" "same_area heap_two h" "a \<in> set [1008, 1200]"
    "free_bytes h L = free_bytes heap_two [1008, 1200] - {a..<a + 32}" "\<forall>b\<in>set [1008, 1200]. 32 \<le> len heap_two b \<longrightarrow> a \<le> b"
    using getmem_takes [OF heap_two_mrel, of 24 0] r by (auto simp: heap_two_def)
  have "a = 1008" using G(4,6) by (auto simp: heap_two_def)
  then show ?thesis using G f by (intro exI [of _ h] exI [of _ L]) auto
qed

theorem history_size_mismatch_witness:
  "\<exists>s1 s2 L. setenv EV_CMDHIST 3 demo_hist = Some (OK, s1) \<and> cmdhistorydel s1 = Some s2 \<and> mrel (heap s2) L
    \<and> free_bytes (heap s2) L = {1200..<1328} \<union> {1008..<1056}"
proof -
  have r: "roundmb 36 = 48" by (simp add: roundmb_def)
  obtain h L where G: "getmem 0 24 heap_two = Some (1008, h)" "mrel h L" "same_area heap_two h" "free_bytes h L = {1200..<1328}"
    using heap_two_takes by blast
  have "1200 \<in> free_bytes h L" using G(4) by simp
  then obtain x where x: "x \<in> set L" unfolding free_bytes_def by auto
  have b: "minheap h = 1008" "maxheap h = 2000" using G(3) by (simp_all add: heap_two_def)
  have "\<exists>x\<in>set L. 1008 \<le> x" using x mrelD(4) [OF G(2)] b by force
  then show ?thesis
    using history_size_mismatch [of demo_hist 3 1008 h L] G b r by (simp add: demo_hist_def)
qed

end
