(* ===== verification/LibNum.thy ===== *)
theory LibNum
  imports LibStr
begin

unbundle bit_operations_syntax

text \<open>
  Numbers in text: \<open>atoi\<close> and \<open>atol\<close> of \<open>lib/\<close>, \<open>dot2ip\<close> of
  \<open>net/dot2ip.c\<close>, and \<open>abs\<close> and \<open>labs\<close>.  Arithmetic on \<open>int\<close> is checked at every
  operation of an expression, as the code groups it; the lemmas state which strings
  are accepted and which number they stand for.
\<close>

section \<open>The routines\<close>

definition abs_int :: "int \<Rightarrow> int option" where
  "abs_int arg = (if arg < 0 then chk32 (- arg) else Some arg)"

definition labs :: "int \<Rightarrow> int option" where
  "labs arg = (if arg < 0 then chk32 (- arg) else Some arg)"

partial_function (option) atoi_skip :: "bytes \<Rightarrow> int \<Rightarrow> int \<Rightarrow> (int \<times> int) option" where
  "atoi_skip m p f =
     (if m p = 32 \<or> m p = 9 then atoi_skip m (p + 1) f
      else if m p = 45 then Some (p + 1, f + 1)
      else if m p = 43 then Some (p + 1, f)
      else Some (p, f))"

partial_function (option) atoi_digits :: "bytes \<Rightarrow> int \<Rightarrow> int \<Rightarrow> int option" where
  "atoi_digits m p n =
     (if m p \<ge> 48 \<and> m p \<le> 57 then do {
        n \<leftarrow> chk32 (n * 10);
        n \<leftarrow> chk32 (n + uint (m p));
        n \<leftarrow> chk32 (n - 48);
        atoi_digits m (p + 1) n
      } else Some n)"

definition atoi :: "bytes \<Rightarrow> int \<Rightarrow> int option" where
  "atoi m p = do {
     (p, f) \<leftarrow> atoi_skip m p 0;
     n \<leftarrow> atoi_digits m p 0;
     if f \<noteq> 0 then chk32 (- n) else Some n
   }"

definition atol :: "bytes \<Rightarrow> int \<Rightarrow> int option" where
  "atol m p = do {
     (p, f) \<leftarrow> atoi_skip m p 0;
     n \<leftarrow> atoi_digits m p 0;
     if f \<noteq> 0 then chk32 (- n) else Some n
   }"

text \<open>
  \<open>dot2ip\<close>: the inner loop reads one segment and the outer one up to four; \<^term>\<open>Inl SYSERR\<close>
  is the early return.  The last argument and second result is what \<open>*result\<close> holds.
\<close>

function ip_seg :: "bytes \<Rightarrow> int \<Rightarrow> int \<Rightarrow> 8 word \<Rightarrow> int \<Rightarrow> int + int \<times> 8 word \<times> int" where
  "ip_seg m dotted nch ch val =
     (if nch < 4 then
        let ch = m dotted; dotted = dotted + 1
        in if ch = 0 \<or> ch = 46 then if nch = 0 then Inl SYSERR else Inr (dotted, ch, val)
           else if nch \<ge> 3 \<or> ch < 48 \<or> ch > 57 then Inl SYSERR
           else ip_seg m dotted (nch + 1) ch (10 * val + (uint ch - 48))
      else Inr (dotted, ch, val))"
  by auto
termination by (relation "measure (\<lambda>(m, d, nch, c, v). nat (4 - nch))") auto

function ip_segs :: "bytes \<Rightarrow> int \<Rightarrow> int \<Rightarrow> 8 word \<Rightarrow> 32 word \<Rightarrow> int + int \<times> 8 word \<times> 32 word" where
  "ip_segs m dotted seg ch ipaddr =
     (if seg < 4 then
        case ip_seg m dotted 0 ch 0 of
          Inl e \<Rightarrow> Inl e
        | Inr (dotted, ch, val) \<Rightarrow>
            if val > 255 then Inl SYSERR
            else let ipaddr = push_bit 8 ipaddr OR word_of_int val
                 in if ch = 0 then Inr (seg, ch, ipaddr)
                    else ip_segs m dotted (seg + 1) ch ipaddr
      else Inr (seg, ch, ipaddr))"
  by auto
termination by (relation "measure (\<lambda>(m, d, seg, c, v). nat (4 - seg))") auto

definition dot2ip :: "bytes \<Rightarrow> int \<Rightarrow> 32 word \<Rightarrow> int \<times> 32 word" where
  "dot2ip m dotted result =
     (case ip_segs m dotted 0 0 0 of
        Inl e \<Rightarrow> (e, result)
      | Inr (seg, ch, ipaddr) \<Rightarrow>
          if seg \<ge> 4 \<or> ch \<noteq> 0 then (SYSERR, result) else (OK, ipaddr))"

declare ip_seg.simps [simp del] ip_segs.simps [simp del]

section \<open>Decimal numbers\<close>

definition digit :: "8 word \<Rightarrow> bool" where
  "digit c \<longleftrightarrow> 48 \<le> c \<and> c \<le> 57"

definition dval :: "int \<Rightarrow> 8 word list \<Rightarrow> int" where
  "dval n ds = foldl (\<lambda>n c. 10 * n + (uint c - 48)) n ds"

lemma dval_simps [simp]: "dval n [] = n" "dval n (d # ds) = dval (10 * n + (uint d - 48)) ds"
  by (simp_all add: dval_def)

lemma digit_uint: "digit c \<Longrightarrow> 48 \<le> uint c \<and> uint c \<le> 57"
  by (simp add: digit_def word_le_def)

lemma dval_mono: "0 \<le> n \<Longrightarrow> list_all digit ds \<Longrightarrow> n \<le> dval n ds"
proof (induction ds arbitrary: n)
  case (Cons d ds)
  have "n \<le> 10 * n + (uint d - 48)" using digit_uint [of d] Cons.prems by simp
  then show ?case using Cons.IH [of "10 * n + (uint d - 48)"] Cons.prems by simp
qed simp

text \<open>The decimal digits of a number, as a program prints them.\<close>

fun decimal :: "nat \<Rightarrow> 8 word list" where
  "decimal n = (if n < 10 then [word_of_nat (48 + n)] else decimal (n div 10) @ [word_of_nat (48 + n mod 10)])"

declare decimal.simps [simp del]

lemma dval_append: "dval n (xs @ ys) = dval (dval n xs) ys"
  by (simp add: dval_def)

lemma uint_digit: "k < 10 \<Longrightarrow> uint (word_of_nat (48 + k) :: 8 word) = 48 + int k"
  by (simp add: unsigned_of_nat take_bit_nat_eq_self_iff [THEN iffD2] of_nat_take_bit [symmetric] take_bit_int_eq_self_iff del: of_nat_add)

lemma digit_digit: "k < 10 \<Longrightarrow> digit (word_of_nat (48 + k))"
  using uint_digit [of k] by (simp add: digit_def word_le_def del: of_nat_add)

lemma decimal_ok: "list_all digit (decimal n) \<and> dval 0 (decimal n) = int n \<and> decimal n \<noteq> []"
proof (induction n rule: decimal.induct)
  case (1 n)
  show ?case
  proof (cases "n < 10")
    case True
    then show ?thesis using uint_digit [of n] digit_digit [of n] by (simp add: decimal.simps del: of_nat_add)
  next
    case False
    then show ?thesis using 1 uint_digit [of "n mod 10"] digit_digit [of "n mod 10"]
      by (subst (1 2 3) decimal.simps) (simp add: dval_append zdiv_int zmod_int del: of_nat_add)
  qed
qed

section \<open>atoi\<close>

lemma atoi_digits_ok:
  assumes "cstr m p (ds @ rest)" "list_all digit ds" "rest = [] \<or> \<not> digit (hd rest)" "0 \<le> n" "dval n ds < 2 ^ 31 - 48"
  shows "atoi_digits m p n = Some (dval n ds)"
  using assms
proof (induction ds arbitrary: p n)
  case Nil
  then have "\<not> digit (m p)" by (cases rest) (auto simp: digit_def word_le_def)
  then show ?case by (subst atoi_digits.simps) (auto simp: digit_def)
next
  case (Cons d ds)
  have d: "48 \<le> uint d" "uint d \<le> 57" "m p = d" "48 \<le> d" "d \<le> 57"
    using digit_uint [of d] Cons.prems by (auto simp: digit_def)
  have "10 * n + (uint d - 48) \<le> dval (10 * n + (uint d - 48)) ds"
    by (rule dval_mono) (use Cons.prems d in auto)
  then have b: "10 * n + (uint d - 48) < 2 ^ 31 - 48" using Cons.prems(5) by simp
  have "atoi_digits m (p + 1) (10 * n + (uint d - 48)) = Some (dval (10 * n + (uint d - 48)) ds)"
    by (rule Cons.IH) (use Cons.prems d in auto)
  then show ?case using d b Cons.prems(4)
    by (subst atoi_digits.simps) (simp add: in_s32_def mult.commute add_diff_eq)
qed

definition blank :: "8 word \<Rightarrow> bool" where
  "blank c \<longleftrightarrow> c = 32 \<or> c = 9"

lemma atoi_skip_ok:
  "cstr m p (ws @ rest) \<Longrightarrow> list_all blank ws \<Longrightarrow> atoi_skip m p f = atoi_skip m (p + int (length ws)) f"
proof (induction ws arbitrary: p)
  case (Cons w ws)
  then have "atoi_skip m p f = atoi_skip m (p + 1) f" by (subst atoi_skip.simps) (auto simp: blank_def)
  then show ?case using Cons.IH [of "p + 1"] Cons.prems by (simp add: add.assoc)
qed simp

text \<open>
  A number in text is blanks, at most one sign and digits; what follows does not matter as
  long as it is not a digit.  The bound is 48 short of the range of \<open>int\<close>, because the
  code adds the character before it subtracts \<open>'0'\<close>.
\<close>

lemma atoi_ok:
  assumes str: "cstr m p (ws @ sg @ ds @ rest)" and ws: "list_all blank ws" and sg: "sg \<in> {[], [43], [45]}"
    and ds: "list_all digit ds" "ds \<noteq> []" and rest: "rest = [] \<or> \<not> digit (hd rest)" and b: "dval 0 ds < 2 ^ 31 - 48"
  shows "atoi m p = Some (if sg = [45] then - dval 0 ds else dval 0 ds)"
proof -
  obtain d ds' where d: "ds = d # ds'" "digit d" using ds by (cases ds) auto
  define q where "q = p + int (length ws)"
  have q: "cstr m q (sg @ ds @ rest)" using cstr_drop [OF str] by (simp add: q_def)
  have dd: "d \<noteq> 32" "d \<noteq> 9" "d \<noteq> 43" "d \<noteq> 45" using d(2) by (auto simp: digit_def word_le_def)
  have skip: "atoi_skip m p 0 = Some (q + int (length sg), if sg = [45] then 1 else 0)"
    unfolding atoi_skip_ok [OF str ws] q_def [symmetric]
    using q sg d(1) dd by (subst atoi_skip.simps) auto
  have "atoi_digits m (q + int (length sg)) 0 = Some (dval 0 ds)"
    by (rule atoi_digits_ok [OF _ ds(1) rest]) (use cstr_drop [OF q] b in auto)
  moreover have "0 \<le> dval 0 ds" by (rule dval_mono) (simp_all add: ds)
  ultimately show ?thesis using skip b by (simp add: atoi_def in_s32_def)
qed

text \<open>\<open>atoi\<close> reads back the decimal digits of a number, up to 48 short of the largest
  \<open>int\<close>.\<close>

theorem atoi_decimal:
  assumes "cstr m p (decimal n)" "int n < 2 ^ 31 - 48"
  shows "atoi m p = Some (int n)"
  using atoi_ok [of m p "[]" "[]" "decimal n" "[]"] assms decimal_ok [of n] by simp

text \<open>The largest \<open>int\<close> is not read: adding the last character overflows.\<close>

text \<open>\<open>atoi\<close> overflows on the digits of the largest \<open>int\<close>, 2147483647, because it adds
  the last character before it subtracts \<open>'0'\<close>.\<close>

theorem atoi_int_max:
  assumes "cstr m p [50, 49, 52, 55, 52, 56, 51, 54, 52, 55]"
  shows "atoi m p = None"
proof -
  have m: "m p = 50" "m (p + 1) = 49" "m (p + 2) = 52" "m (p + 3) = 55" "m (p + 4) = 52" "m (p + 5) = 56"
    "m (p + 6) = 51" "m (p + 7) = 54" "m (p + 8) = 52" "m (p + 9) = 55" using assms by (simp_all add: ac_simps)
  have "atoi_digits m p 0 = atoi_digits m (p + 9) 214748364"
    by (simp add: atoi_digits.simps [of m p] atoi_digits.simps [of m "p + 1"] atoi_digits.simps [of m "p + 2"]
        atoi_digits.simps [of m "p + 3"] atoi_digits.simps [of m "p + 4"] atoi_digits.simps [of m "p + 5"]
        atoi_digits.simps [of m "p + 6"] atoi_digits.simps [of m "p + 7"] atoi_digits.simps [of m "p + 8"]
        m in_s32_def add.assoc)
  moreover have "atoi_digits m (p + 9) 214748364 = None"
    by (subst atoi_digits.simps) (simp add: m chk32_def in_s32_def)
  moreover have "atoi_skip m p 0 = Some (p, 0)" by (subst atoi_skip.simps) (simp add: m)
  ultimately show ?thesis by (simp add: atoi_def)
qed


section \<open>dot2ip\<close>

lemma push_or:
  assumes "0 \<le> v" "v < 256"
  shows "push_bit 8 (w :: 32 word) OR word_of_int v = push_bit 8 w + word_of_int v"
proof -
  have "take_bit 8 v = v" using assms by (simp add: take_bit_eq_mod)
  then have hi: "bit v n \<Longrightarrow> n < 8" for n by (metis bit_take_bit_iff)
  have "push_bit 8 w AND word_of_int v = 0"
    by (rule bit_word_eqI) (use hi in \<open>auto simp: bit_simps dest!: hi\<close>)
  then show ?thesis by (simp add: disjunctive_add_eq_or)
qed

text \<open>The bytes at an address, without what ends them.\<close>

fun lies :: "bytes \<Rightarrow> int \<Rightarrow> 8 word list \<Rightarrow> bool" where
  "lies m p [] \<longleftrightarrow> True"
| "lies m p (c # cs) \<longleftrightarrow> m p = c \<and> lies m (p + 1) cs"

lemma cstr_append: "cstr m p (xs @ ys) \<longleftrightarrow> lies m p xs \<and> 0 \<notin> set xs \<and> cstr m (p + int (length xs)) ys"
proof (induction xs arbitrary: p)
  case (Cons x xs)
  show ?case using Cons.IH [of "p + 1"] by (auto simp: add.assoc)
qed simp

definition octet :: "8 word list \<Rightarrow> bool" where
  "octet ds \<longleftrightarrow> list_all digit ds \<and> 1 \<le> length ds \<and> length ds \<le> 3 \<and> dval 0 ds \<le> 255"

fun dotted :: "8 word list list \<Rightarrow> 8 word list" where
  "dotted [] = []"
| "dotted [ds] = ds"
| "dotted (ds # es # r) = ds @ 46 # dotted (es # r)"

definition ip_of :: "32 word \<Rightarrow> 8 word list list \<Rightarrow> 32 word" where
  "ip_of w segs = foldl (\<lambda>w ds. push_bit 8 w + word_of_int (dval 0 ds)) w segs"

lemma digit_not_end: "digit c \<Longrightarrow> c \<noteq> 0 \<and> c \<noteq> 46"
  by (auto simp: digit_def word_le_def)

lemma digit_iff: "digit c \<longleftrightarrow> \<not> (c < 48 \<or> c > 57)"
  by (auto simp: digit_def)

lemma ip_seg_read:
  assumes "lies m p (ds @ [e])" "list_all digit ds" "e = 0 \<or> e = 46" "0 < n + int (length ds)" "n + int (length ds) \<le> 3" "0 \<le> n"
  shows "ip_seg m p n ch v = Inr (p + int (length ds) + 1, e, dval v ds)"
  using assms
proof (induction ds arbitrary: p n ch v)
  case Nil
  then show ?case by (subst ip_seg.simps) (auto simp: Let_def)
next
  case (Cons d ds)
  have d: "digit d" "m p = d" using Cons.prems by auto
  have "ip_seg m p n ch v = ip_seg m (p + 1) (n + 1) d (10 * v + (uint d - 48))"
    using Cons.prems d(1) digit_not_end [OF d(1)]
    by (subst ip_seg.simps) (simp add: Let_def d(2) digit_iff)
  also have "\<dots> = Inr (p + 1 + int (length ds) + 1, e, dval (10 * v + (uint d - 48)) ds)"
    by (rule Cons.IH) (use Cons.prems in auto)
  finally show ?case by (simp add: add.commute)
qed

lemma ip_seg_sound:
  assumes "ip_seg m p n ch v = Inr (p', e, v')" "0 \<le> n" "n \<le> 3"
  shows "\<exists>ds. lies m p (ds @ [e]) \<and> list_all digit ds \<and> (e = 0 \<or> e = 46) \<and> 0 < n + int (length ds)
    \<and> n + int (length ds) \<le> 3 \<and> p' = p + int (length ds) + 1 \<and> v' = dval v ds"
  using assms
proof (induction m p n ch v rule: ip_seg.induct)
  case (1 m p n ch v)
  show ?case
  proof (cases "m p = 0 \<or> m p = 46")
    case True
    then show ?thesis using "1.prems" by (subst (asm) ip_seg.simps) (auto simp: Let_def split: if_splits intro!: exI [of _ "[]"])
  next
    case False
    then have g: "n < 3" "digit (m p)"
      and st: "ip_seg m p n ch v = ip_seg m (p + 1) (n + 1) (m p) (10 * v + (uint (m p) - 48))"
      using "1.prems" by (simp_all add: ip_seg.simps [of m p n] Let_def digit_iff split: if_splits)
    have "\<exists>ds. lies m (p + 1) (ds @ [e]) \<and> list_all digit ds \<and> (e = 0 \<or> e = 46) \<and> 0 < n + 1 + int (length ds)
      \<and> n + 1 + int (length ds) \<le> 3 \<and> p' = p + 1 + int (length ds) + 1 \<and> v' = dval (10 * v + (uint (m p) - 48)) ds"
      by (rule "1.IH") (use g False "1.prems" st in \<open>auto simp: digit_iff\<close>)
    then obtain ds where ds: "lies m (p + 1) (ds @ [e])" "list_all digit ds" "e = 0 \<or> e = 46"
      "n + 1 + int (length ds) \<le> 3" "p' = p + 1 + int (length ds) + 1" "v' = dval (10 * v + (uint (m p) - 48)) ds" by blast
    then show ?thesis using g "1.prems"(2) by (intro exI [of _ "m p # ds"]) simp
  qed
qed

lemma octet_dval: "octet ds \<Longrightarrow> 0 \<le> dval 0 ds \<and> dval 0 ds < 256"
  using dval_mono [of 0 ds] by (simp add: octet_def)

lemma lies_snoc: "lies m p (xs @ [e]) \<longleftrightarrow> lies m p xs \<and> m (p + int (length xs)) = e"
proof (induction xs arbitrary: p)
  case (Cons x xs)
  show ?case using Cons.IH [of "p + 1"] by (auto simp: add.assoc)
qed simp

lemma ip_segs_read:
  assumes "cstr m p (dotted segs)" "list_all octet segs" "segs \<noteq> []" "seg + int (length segs) \<le> 4"
  shows "ip_segs m p seg ch w = Inr (seg + int (length segs) - 1, 0, ip_of w segs)"
  using assms
proof (induction segs arbitrary: p seg ch w rule: dotted.induct)
  case (2 ds)
  then have "lies m p (ds @ [0])" using cstr_append [of m p ds "[]"] by (simp add: lies_snoc)
  then have "ip_seg m p 0 ch 0 = Inr (p + int (length ds) + 1, 0, dval 0 ds)"
    by (rule ip_seg_read) (use 2 in \<open>auto simp: octet_def\<close>)
  then show ?case using 2 octet_dval [of ds] by (subst ip_segs.simps) (simp add: push_or ip_of_def)
next
  case (3 ds es r)
  have s: "lies m p ds" "cstr m (p + int (length ds)) (46 # dotted (es # r))"
    using "3.prems"(1) by (simp_all add: cstr_append)
  then have "lies m p (ds @ [46])" by (simp add: lies_snoc)
  then have "ip_seg m p 0 ch 0 = Inr (p + int (length ds) + 1, 46, dval 0 ds)"
    by (rule ip_seg_read) (use 3 in \<open>auto simp: octet_def\<close>)
  then have "ip_segs m p seg ch w = ip_segs m (p + int (length ds) + 1) (seg + 1) 46 (push_bit 8 w + word_of_int (dval 0 ds))"
    using 3 octet_dval [of ds] by (subst ip_segs.simps) (simp add: push_or)
  also have "\<dots> = Inr (seg + 1 + int (length (es # r)) - 1, 0, ip_of (push_bit 8 w + word_of_int (dval 0 ds)) (es # r))"
    by (rule "3.IH") (use s "3.prems" in auto)
  finally show ?case by (simp add: ip_of_def)
qed simp

lemma ip_segs_sound:
  assumes "ip_segs m p seg ch w = Inr (seg', e, w')" "seg' < 4" "seg < 4"
  shows "\<exists>segs. segs \<noteq> [] \<and> seg' = seg + int (length segs) - 1 \<and> list_all octet segs \<and> e = 0
    \<and> cstr m p (dotted segs) \<and> w' = ip_of w segs"
  using assms
proof (induction m p seg ch w rule: ip_segs.induct)
  case (1 m p seg ch w)
  obtain q c v where q: "ip_seg m p 0 ch 0 = Inr (q, c, v)" "v \<le> 255"
    using "1.prems"(1,3) by (subst (asm) ip_segs.simps) (auto split: sum.splits prod.splits if_splits)
  obtain ds where ds: "lies m p (ds @ [c])" "list_all digit ds" "c = 0 \<or> c = 46" "0 < length ds" "length ds \<le> 3"
    "q = p + int (length ds) + 1" "v = dval 0 ds"
    using ip_seg_sound [OF q(1)] by auto
  have o: "octet ds" using ds q(2) by (cases ds) (simp_all add: octet_def)
  have nz: "0 \<notin> set ds" using ds(2) digit_not_end by (auto simp: list_all_iff)
  have l: "lies m p ds" "m (p + int (length ds)) = c" using ds(1) by (simp_all add: lies_snoc)
  show ?case
  proof (cases "c = 0")
    case True
    then have "seg' = seg" "e = 0" "w' = push_bit 8 w + word_of_int v"
      using "1.prems" q octet_dval [OF o] ds(7) by (simp_all add: ip_segs.simps [of m p seg] push_or)
    moreover have "cstr m p (dotted [ds])" using cstr_append [of m p ds "[]"] l nz True by simp
    ultimately show ?thesis using o ds(7) by (intro exI [of _ "[ds]"]) (simp add: ip_of_def)
  next
    case False
    have st: "ip_segs m p seg ch w = ip_segs m q (seg + 1) c (push_bit 8 w OR word_of_int v)"
      using "1.prems" q False by (subst ip_segs.simps) simp
    have s4: "seg + 1 < 4"
    proof (rule ccontr)
      assume "\<not> seg + 1 < 4"
      then have "ip_segs m q (seg + 1) c (push_bit 8 w OR word_of_int v) = Inr (seg + 1, c, push_bit 8 w OR word_of_int v)"
        by (subst ip_segs.simps) simp
      then show False using st "1.prems"(1,2) \<open>\<not> seg + 1 < 4\<close> by simp
    qed
    have "\<exists>segs. segs \<noteq> [] \<and> seg' = seg + 1 + int (length segs) - 1 \<and> list_all octet segs \<and> e = 0
      \<and> cstr m q (dotted segs) \<and> w' = ip_of (push_bit 8 w OR word_of_int v) segs"
      by (rule "1.IH" [OF "1.prems"(3) q(1) refl refl]) (use q False st s4 "1.prems" in auto)
    then obtain s segs where r: "seg' = seg + 1 + int (length (s # segs)) - 1" "list_all octet (s # segs)" "e = 0"
      "cstr m q (dotted (s # segs))" "w' = ip_of (push_bit 8 w OR word_of_int v) (s # segs)"
      by (metis neq_Nil_conv)
    have "cstr m p (ds @ 46 # dotted (s # segs))"
      unfolding cstr_append using l nz False ds(3,6) r(4) by simp
    moreover have "push_bit 8 w OR word_of_int v = push_bit 8 w + word_of_int v"
      by (rule push_or) (use octet_dval [OF o] ds(7) in auto)
    ultimately show ?thesis using r o ds(7) by (intro exI [of _ "ds # s # segs"]) (simp add: ip_of_def)
  qed
qed

text \<open>What \<open>dot2ip\<close> accepts, and what it stores: one to four octets, not four.\<close>

lemma dot2ip_run:
  assumes "cstr m p (dotted segs)" "list_all octet segs" "1 \<le> length segs" "length segs \<le> 4"
  shows "dot2ip m p r = (OK, ip_of 0 segs)"
proof -
  have "segs \<noteq> []" using assms(3) by auto
  from ip_segs_read [OF assms(1,2) this, of 0 0 0] show ?thesis using assms(4) by (simp add: dot2ip_def)
qed

text \<open>For a string of one to four octets \<open>dot2ip\<close> stores the address in which each octet
  is shifted in behind the ones before it.\<close>

theorem dot2ip_ok:
  assumes "cstr m p (dotted segs)" "list_all octet segs" "1 \<le> length segs" "length segs \<le> 4"
  shows "dot2ip m p r = (OK, ip_of 0 segs)"
  using assms by (rule dot2ip_run)

lemma ip_segs_error: "ip_segs m p seg ch w = Inl e \<Longrightarrow> e = SYSERR"
proof (induction m p seg ch w rule: ip_segs.induct)
  case (1 m p seg ch w)
  have s: "ip_seg m p n ch v = Inl x \<Longrightarrow> x = SYSERR" for n v x
  proof (induction m p n ch v rule: ip_seg.induct)
    case (1 m p n ch v)
    then show ?case by (subst (asm) (2) ip_seg.simps) (auto simp: Let_def split: if_splits)
  qed
  show ?case using 1 by (subst (asm) (2) ip_segs.simps) (auto simp: Let_def dest: s split: if_splits sum.splits)
qed

text \<open>\<open>dot2ip\<close> succeeds exactly on one to four octets in decimal, separated by dots: each
  octet has one to three digits and is at most 255.  (The comment in the code asks for four.)\<close>

theorem dot2ip_iff: "fst (dot2ip m p r) = OK \<longleftrightarrow>
    (\<exists>segs. cstr m p (dotted segs) \<and> list_all octet segs \<and> 1 \<le> length segs \<and> length segs \<le> 4)"
proof
  assume ok: "fst (dot2ip m p r) = OK"
  then obtain seg e w where "ip_segs m p 0 0 0 = Inr (seg, e, w)" "seg < 4"
    using ip_segs_error [of m p 0 0 0] by (auto simp: dot2ip_def split: sum.splits prod.splits if_splits)
  from ip_segs_sound [OF this] obtain segs where "segs \<noteq> []" "seg = int (length segs) - 1" "list_all octet segs" "cstr m p (dotted segs)" by auto
  then show "\<exists>segs. cstr m p (dotted segs) \<and> list_all octet segs \<and> 1 \<le> length segs \<and> length segs \<le> 4"
    using \<open>seg < 4\<close> by (intro exI [of _ segs]) (cases segs, auto)
qed (use dot2ip_run in auto)

theorem dot2ip_ok_witness:
  "dot2ip (poke (\<lambda>_. 0) 8 [49, 48, 46, 48, 46, 48, 46, 53]) 8 7 = (OK, 0x0A000005)"
proof -
  define m where "m = poke (\<lambda>_. 0) 8 [49, 48, 46, 48, 46, 48, 46, 53]"
  have "cstr m 8 (dotted [[49, 48], [48], [48], [53]])" by (simp add: m_def)
  moreover have "list_all octet [[49, 48], [48], [48], [53]]" by (simp add: octet_def digit_def)
  ultimately have "dot2ip m 8 7 = (OK, ip_of 0 [[49, 48], [48], [48], [53]])" by (rule dot2ip_ok) simp_all
  moreover have "ip_of 0 [[49, 48], [48], [48], [53]] = 0x0A000005" by (simp add: ip_of_def push_bit_eq_mult)
  ultimately show ?thesis by (simp add: m_def)
qed

theorem atoi_decimal_witness: "atoi (poke (\<lambda>_. 0) 8 [50, 48, 53]) 8 = Some 205"
proof -
  have "decimal 205 = [50, 48, 53]" by (simp add: decimal.simps)
  then show ?thesis using atoi_decimal [of "poke (\<lambda>_. 0) 8 [50, 48, 53]" 8 205] by simp
qed

theorem atoi_int_max_witness:
  "atoi (poke (\<lambda>_. 0) 8 [50, 49, 52, 55, 52, 56, 51, 54, 52, 55]) 8 = None"
  by (rule atoi_int_max) simp

end
