(* ===== verification/Qsort.thy ===== *)
theory Qsort
  imports LibStr "HOL-Library.Multiset"
begin

text \<open>
  \<open>lib/qsort.c\<close>: quicksort with a block of elements equal to the pivot growing in the
  middle, jumps between three labels, recursion into the shorter side only and iteration
  on the other.  \<open>qs1\<close> is the code with the global comparison function and element
  size, and the two exchange routines, as arguments; \<open>qsort\<close> runs it on bytes.  The locale
  says what the exchange routines must do to elements and proves that the result is a
  sorted rearrangement.
\<close>

section \<open>The code\<close>

datatype qlabel = QStart | QFor | QLoop

text \<open>The file-scope variables \<open>qscmp\<close> and \<open>qses\<close>, and the two exchange routines.\<close>

record 's qstatics =
  qscmp :: "'s \<Rightarrow> int \<Rightarrow> int \<Rightarrow> int"
  qsexc :: "'s \<Rightarrow> int \<Rightarrow> int \<Rightarrow> 's option"
  qstexc :: "'s \<Rightarrow> int \<Rightarrow> int \<Rightarrow> int \<Rightarrow> 's option"
  qses :: int

text \<open>The pointers of one activation of \<open>qs1\<close>.\<close>

record qlocals =
  qa :: int
  ql :: int
  qi :: int
  qj :: int
  qlp :: int
  qhp :: int

definition qseg :: "int \<Rightarrow> int \<Rightarrow> qlocals" where
  "qseg a l = \<lparr>qa = a, ql = l, qi = 0, qj = 0, qlp = 0, qhp = 0\<rparr>"

partial_function (option) qs1 :: "'s qstatics \<Rightarrow> qlabel \<Rightarrow> qlocals \<Rightarrow> 's \<Rightarrow> 's option" where
  "qs1 q pc r s =
     (let es = qses q; a = qa r; l = ql r; i = qi r; j = qj r; lp = qlp r; hp = qhp r in
      if pc = QStart then
        (let n = u32 (l - a) in
         if n \<le> es then Some s
         else let n = es * (n div (2 * es))
              in qs1 q QFor (r\<lparr>qhp := a + n, qlp := a + n, qi := a, qj := l - es\<rparr>) s)
      else if pc = QFor then
        (if i < lp then
           let c = qscmp q s i lp in
           if c = 0 then do { s \<leftarrow> qsexc q s i (lp - es); qs1 q QFor (r\<lparr>qlp := lp - es\<rparr>) s }
           else if c < 0 then qs1 q QFor (r\<lparr>qi := i + es\<rparr>) s
           else qs1 q QLoop r s
         else qs1 q QLoop r s)
      else
        (if j > hp then
           let c = qscmp q s hp j in
           if c = 0 then do { s \<leftarrow> qsexc q s (hp + es) j; qs1 q QLoop (r\<lparr>qhp := hp + es\<rparr>) s }
           else if c > 0 then
             if i = lp then do {
               s \<leftarrow> qstexc q s i (hp + es) j;
               qs1 q QLoop (r\<lparr>qhp := hp + es, qlp := lp + es, qi := lp + es\<rparr>) s
             }
             else do {
               s \<leftarrow> qsexc q s i j;
               qs1 q QFor (r\<lparr>qj := j - es, qi := i + es\<rparr>) s
             }
           else qs1 q QLoop (r\<lparr>qj := j - es\<rparr>) s
         else if i = lp then
           if lp - a \<ge> l - hp then do {
             s \<leftarrow> qs1 q QStart (qseg (hp + es) l) s;
             qs1 q QStart (r\<lparr>ql := lp\<rparr>) s
           }
           else do {
             s \<leftarrow> qs1 q QStart (qseg a lp) s;
             qs1 q QStart (r\<lparr>qa := hp + es\<rparr>) s
           }
         else do {
           s \<leftarrow> qstexc q s j (lp - es) i;
           qs1 q QFor (r\<lparr>qlp := lp - es, qhp := hp - es, qj := hp - es\<rparr>) s
         }))"

partial_function (option) exc_loop :: "bytes \<Rightarrow> int \<Rightarrow> int \<Rightarrow> int \<Rightarrow> bytes option" where
  "exc_loop m ri rj n =
     (let c = m ri; m = m(ri := m rj); m = m(rj := c); n = n - 1
      in if n \<noteq> 0 then exc_loop m (ri + 1) (rj + 1) n else Some m)"

definition exc_bytes :: "int \<Rightarrow> bytes \<Rightarrow> int \<Rightarrow> int \<Rightarrow> bytes option" where
  "exc_bytes es m i j = exc_loop m i j es"

partial_function (option) texc_loop :: "bytes \<Rightarrow> int \<Rightarrow> int \<Rightarrow> int \<Rightarrow> int \<Rightarrow> bytes option" where
  "texc_loop m ri rj rk n =
     (let c = m ri; m = m(ri := m rk); m = m(rk := m rj); m = m(rj := c); n = n - 1
      in if n \<noteq> 0 then texc_loop m (ri + 1) (rj + 1) (rk + 1) n else Some m)"

definition texc_bytes :: "int \<Rightarrow> bytes \<Rightarrow> int \<Rightarrow> int \<Rightarrow> int \<Rightarrow> bytes option" where
  "texc_bytes es m i j k = texc_loop m i j k es"

definition qsort :: "bytes \<Rightarrow> int \<Rightarrow> int \<Rightarrow> int \<Rightarrow> (bytes \<Rightarrow> int \<Rightarrow> int \<Rightarrow> int) \<Rightarrow> bytes option" where
  "qsort m a n es fc =
     qs1 \<lparr>qscmp = fc, qsexc = exc_bytes es, qstexc = texc_bytes es, qses = es\<rparr> QStart (qseg a (a + n * es)) m"

section \<open>Rearrangements\<close>

text \<open>\<open>g\<close> is \<open>f\<close> with the places from \<open>lo\<close> up to \<open>hi\<close> permuted.\<close>

definition rearr :: "int \<Rightarrow> int \<Rightarrow> (int \<Rightarrow> 'a) \<Rightarrow> (int \<Rightarrow> 'a) \<Rightarrow> bool" where
  "rearr lo hi f g \<longleftrightarrow> (\<exists>p. bij p \<and> (\<forall>k. k < lo \<or> hi \<le> k \<longrightarrow> p k = k) \<and> (\<forall>k. g k = f (p k)))"

lemma rearr_refl [simp]: "rearr lo hi f f"
  unfolding rearr_def by (rule exI [of _ id]) simp

lemma rearr_trans:
  assumes "rearr lo hi f g" "rearr lo hi g h" shows "rearr lo hi f h"
proof -
  obtain p q where "bij p" "\<forall>k. k < lo \<or> hi \<le> k \<longrightarrow> p k = k" "\<forall>k. g k = f (p k)"
    "bij q" "\<forall>k. k < lo \<or> hi \<le> k \<longrightarrow> q k = k" "\<forall>k. h k = g (q k)"
    using assms unfolding rearr_def by blast
  then show ?thesis unfolding rearr_def by (intro exI [of _ "p \<circ> q"]) (simp add: bij_comp)
qed

lemma rearr_mono: "rearr lo hi f g \<Longrightarrow> lo' \<le> lo \<Longrightarrow> hi \<le> hi' \<Longrightarrow> rearr lo' hi' f g"
  unfolding rearr_def by (metis order.strict_trans2 order.trans)

lemma rearr_outside: "rearr lo hi f g \<Longrightarrow> k < lo \<or> hi \<le> k \<Longrightarrow> g k = f k"
  unfolding rearr_def by metis

lemma rearr_from:
  assumes "rearr lo hi f g" "lo \<le> k" "k < hi"
  obtains k' where "lo \<le> k'" "k' < hi" "g k = f k'"
proof -
  obtain p where p: "bij p" "\<forall>k. k < lo \<or> hi \<le> k \<longrightarrow> p k = k" "\<forall>k. g k = f (p k)"
    using assms(1) unfolding rearr_def by blast
  have "lo \<le> p k \<and> p k < hi"
  proof (rule ccontr)
    assume out: "\<not> (lo \<le> p k \<and> p k < hi)"
    then have "p (p k) = p k" using p(2) by (meson linorder_not_le)
    then have "p k = k" using bij_is_inj [OF p(1)] by (simp add: inj_eq)
    then show False using out assms(2,3) by simp
  qed
  then show thesis using p(3) that by blast
qed

lemma rearr_swap:
  assumes "lo \<le> p" "p < hi" "lo \<le> q" "q < hi" "\<And>k. g k = (if k = p then f q else if k = q then f p else f k)"
  shows "rearr lo hi f g"
  unfolding rearr_def
proof (intro exI conjI)
  show "bij (id(p := q, q := p))"
    by (rule o_bij [of "id(p := q, q := p)"]) (auto simp: fun_eq_iff)
qed (use assms in auto)

lemma rearr_rot:
  assumes "lo \<le> i" "i < hi" "lo \<le> j" "j < hi" "lo \<le> k" "k < hi" "i \<noteq> j" "i \<noteq> k"
    and "\<And>r. g r = (if r = j then f i else if r = k then f j else if r = i then f k else f r)"
  shows "rearr lo hi f g"
  unfolding rearr_def
proof (intro exI conjI)
  show "bij (id(i := k, k := j, j := i))"
  proof (cases "j = k")
    case True
    then show ?thesis by (intro o_bij [of "id(i := k, k := i)"]) (use assms(7) in \<open>auto simp: fun_eq_iff\<close>)
  next
    case False
    then show ?thesis by (intro o_bij [of "id(k := i, j := k, i := j)"]) (use assms(7,8) in \<open>auto simp: fun_eq_iff\<close>)
  qed
qed (use assms in auto)

section \<open>Partition and recursion\<close>

section \<open>Partition and recursion\<close>

locale sort_mem =
  fixes q :: "'s qstatics"
    and base :: int
    and E :: "'s \<Rightarrow> int \<Rightarrow> 'a"
    and c :: "'a \<Rightarrow> 'a \<Rightarrow> int"
  assumes es: "0 < qses q"
    and cmp: "qscmp q s (base + qses q * i) (base + qses q * j) = c (E s i) (E s j)"
    and exc: "\<exists>s'. qsexc q s (base + qses q * i) (base + qses q * j) = Some s' \<and>
      (\<forall>r. E s' r = (if r = i then E s j else if r = j then E s i else E s r))"
    and texc: "i \<noteq> j \<Longrightarrow> i \<noteq> k \<Longrightarrow>
      \<exists>s'. qstexc q s (base + qses q * i) (base + qses q * j) (base + qses q * k) = Some s' \<and>
      (\<forall>r. E s' r = (if r = j then E s i else if r = k then E s j else if r = i then E s k else E s r))"
    and c_sym: "sgn (c x y) = - sgn (c y x)"
    and c_trans: "c x y \<le> 0 \<Longrightarrow> c y z \<le> 0 \<Longrightarrow> c x z \<le> 0"
begin

definition P :: "int \<Rightarrow> int" where "P k = base + qses q * k"

definition locs :: "int \<Rightarrow> int \<Rightarrow> int \<Rightarrow> int \<Rightarrow> int \<Rightarrow> int \<Rightarrow> qlocals" where
  "locs a l i j lp hp = \<lparr>qa = P a, ql = P l, qi = P i, qj = P j, qlp = P lp, qhp = P hp\<rparr>"

lemma P_less [simp]: "P a < P b \<longleftrightarrow> a < b" "P a = P b \<longleftrightarrow> a = b"
  using es by (simp_all add: P_def)

lemma P_step [simp]: "P a + qses q = P (a + 1)" "P a - qses q = P (a - 1)"
  by (simp_all add: P_def algebra_simps)

lemma locs_sel [simp]: "qa (locs a l i j lp hp) = P a" "ql (locs a l i j lp hp) = P l" "qi (locs a l i j lp hp) = P i"
  "qj (locs a l i j lp hp) = P j" "qlp (locs a l i j lp hp) = P lp" "qhp (locs a l i j lp hp) = P hp"
  by (simp_all add: locs_def)

lemma locs_upd [simp]: "locs a l i j lp hp\<lparr>qi := P x\<rparr> = locs a l x j lp hp" "locs a l i j lp hp\<lparr>qj := P x\<rparr> = locs a l i x lp hp"
  "locs a l i j lp hp\<lparr>qlp := P x\<rparr> = locs a l i j x hp" "locs a l i j lp hp\<lparr>qhp := P x\<rparr> = locs a l i j lp x"
  "locs a l i j lp hp\<lparr>qa := P x\<rparr> = locs x l i j lp hp" "locs a l i j lp hp\<lparr>ql := P x\<rparr> = locs a x i j lp hp"
  by (simp_all add: locs_def)

lemma cmp_P: "qscmp q s (P i) (P j) = c (E s i) (E s j)"
  unfolding P_def by (rule cmp)

lemma exc_P:
  obtains s' where "qsexc q s (P i) (P j) = Some s'" "\<And>r. E s' r = (if r = i then E s j else if r = j then E s i else E s r)"
  using exc [of s i j] unfolding P_def by blast

lemma texc_P:
  assumes "i \<noteq> j" "i \<noteq> k"
  obtains s' where "qstexc q s (P i) (P j) (P k) = Some s'"
    "\<And>r. E s' r = (if r = j then E s i else if r = k then E s j else if r = i then E s k else E s r)"
  using texc [OF assms, of s] unfolding P_def by blast

lemma c_neg: "c x y < 0 \<longleftrightarrow> 0 < c y x"
  using c_sym [of x y] by (simp add: sgn_if split: if_splits)

lemma c_zero: "c x y = 0 \<longleftrightarrow> c y x = 0"
  using c_sym [of x y] by (simp add: sgn_if split: if_splits)

lemma c_cong:
  assumes "c y v = 0"
  shows "c x y < 0 \<longleftrightarrow> c x v < 0" "c x y = 0 \<longleftrightarrow> c x v = 0" "0 < c x y \<longleftrightarrow> 0 < c x v"
proof -
  have v: "c v y = 0" using assms c_zero by simp
  have 1: "c x y \<le> 0 \<longleftrightarrow> c x v \<le> 0" using c_trans [of x y v] c_trans [of x v y] assms v by auto
  have 2: "c y x \<le> 0 \<longleftrightarrow> c v x \<le> 0" using c_trans [of y v x] c_trans [of v y x] assms v by auto
  have "c x y < 0 \<longleftrightarrow> \<not> c y x \<le> 0" "c x v < 0 \<longleftrightarrow> \<not> c v x \<le> 0" using c_neg by auto
  then show "c x y < 0 \<longleftrightarrow> c x v < 0" using 2 by simp
  then show "c x y = 0 \<longleftrightarrow> c x v = 0" "0 < c x y \<longleftrightarrow> 0 < c x v" using 1 by auto
qed

lemma c_refl: "c x x = 0"
  using c_sym [of x x] by (simp add: sgn_if split: if_splits)

text \<open>
  The state of a partition of the places \<open>lo\<close> to \<open>hi - 1\<close>: smaller elements, unseen
  ones, the block equal to the pivot \<open>v\<close>, unseen ones, greater elements.
\<close>

definition part :: "'a \<Rightarrow> int \<Rightarrow> int \<Rightarrow> int \<Rightarrow> int \<Rightarrow> int \<Rightarrow> int \<Rightarrow> 's \<Rightarrow> bool" where
  "part v lo hi i j lp hp s \<longleftrightarrow> lo \<le> i \<and> i \<le> lp \<and> lp \<le> hp \<and> hp \<le> j \<and> j < hi
     \<and> (\<forall>k. lo \<le> k \<and> k < i \<longrightarrow> c (E s k) v < 0) \<and> (\<forall>k. lp \<le> k \<and> k \<le> hp \<longrightarrow> c (E s k) v = 0)
     \<and> (\<forall>k. j < k \<and> k < hi \<longrightarrow> 0 < c (E s k) v)"

definition parted :: "qlabel \<Rightarrow> 'a \<Rightarrow> int \<Rightarrow> int \<Rightarrow> int \<Rightarrow> int \<Rightarrow> int \<Rightarrow> int \<Rightarrow> 's \<Rightarrow> bool" where
  "parted pc v lo hi i j lp hp s \<longleftrightarrow> (\<exists>s' lp' hp'. qs1 q pc (locs lo hi i j lp hp) s = qs1 q QLoop (locs lo hi lp' hp' lp' hp') s'
     \<and> part v lo hi lp' hp' lp' hp' s' \<and> rearr lo hi (E s) (E s'))"

lemma parted_step:
  assumes "parted pc' v lo hi i' j' lp' hp' s'" "rearr lo hi (E s) (E s')"
    "qs1 q pc (locs lo hi i j lp hp) s = qs1 q pc' (locs lo hi i' j' lp' hp') s'"
  shows "parted pc v lo hi i j lp hp s"
  using assms unfolding parted_def by (metis rearr_trans)

text \<open>One step at \<open>for\<close> and one at \<open>loop\<close>; each brings the ends closer.\<close>

abbreviation (input) near :: "qlabel \<Rightarrow> int \<Rightarrow> int \<Rightarrow> int \<Rightarrow> int \<Rightarrow> nat" where
  "near pc i j lp hp \<equiv> 2 * nat ((lp - i) + (j - hp)) + (if pc = QFor then 1 else 0)"

lemma for_step:
  assumes p: "part v lo hi i j lp hp s"
    and IH: "\<And>pc' i' j' lp' hp' s'. near pc' i' j' lp' hp' < near QFor i j lp hp \<Longrightarrow> part v lo hi i' j' lp' hp' s' \<Longrightarrow>
      pc' = QFor \<or> pc' = QLoop \<and> (i' = lp' \<or> 0 < c (E s' i') v) \<Longrightarrow> parted pc' v lo hi i' j' lp' hp' s'"
  shows "parted QFor v lo hi i j lp hp s"
proof (cases "i < lp")
  case False
  then have "qs1 q QFor (locs lo hi i j lp hp) s = qs1 q QLoop (locs lo hi i j lp hp) s"
    by (subst qs1.simps) (simp add: Let_def)
  moreover have "parted QLoop v lo hi i j lp hp s" by (rule IH) (use p False in \<open>auto simp: part_def\<close>)
  ultimately show ?thesis using parted_step rearr_refl by blast
next
  case lt: True
  define d where "d = c (E s i) (E s lp)"
  have v: "c (E s lp) v = 0" using p by (simp add: part_def)
  have run: "qs1 q QFor (locs lo hi i j lp hp) s =
      (if d = 0 then Option.bind (qsexc q s (P i) (P (lp - 1))) (\<lambda>s. qs1 q QFor (locs lo hi i j (lp - 1) hp) s)
       else if d < 0 then qs1 q QFor (locs lo hi (i + 1) j lp hp) s
       else qs1 q QLoop (locs lo hi i j lp hp) s)"
    using lt by (subst qs1.simps) (simp add: Let_def cmp_P d_def)
  consider "d = 0" | "d < 0" | "0 < d" by linarith
  then show ?thesis
  proof cases
    case 1
    obtain s' where s': "qsexc q s (P i) (P (lp - 1)) = Some s'"
      "\<And>r. E s' r = (if r = i then E s (lp - 1) else if r = lp - 1 then E s i else E s r)" using exc_P [of s i "lp - 1"] by blast
    have "c (E s i) v = 0" using 1 c_cong [OF v] by (simp add: d_def)
    then have "part v lo hi i j (lp - 1) hp s'" using p lt by (auto simp: part_def s'(2))
    then have "parted QFor v lo hi i j (lp - 1) hp s'" by (rule IH [rotated]) (use p lt in \<open>auto simp: part_def\<close>)
    moreover have "rearr lo hi (E s) (E s')" by (rule rearr_swap [OF _ _ _ _ s'(2)]) (use p lt in \<open>auto simp: part_def\<close>)
    ultimately show ?thesis by (rule parted_step [where pc = QFor]) (simp_all add: run 1 s'(1))
  next
    case 2
    have "c (E s i) v < 0" using 2 c_cong [OF v] by (simp add: d_def)
    have "part v lo hi (i + 1) j lp hp s" unfolding part_def
    proof (intro conjI allI impI)
      fix k assume "lo \<le> k \<and> k < i + 1"
      then show "c (E s k) v < 0" using p \<open>c (E s i) v < 0\<close> by (cases "k = i") (auto simp: part_def)
    qed (use p lt in \<open>auto simp: part_def\<close>)
    then have "parted QFor v lo hi (i + 1) j lp hp s" by (rule IH [rotated]) (use p lt in \<open>auto simp: part_def\<close>)
    then show ?thesis by (rule parted_step) (use 2 in \<open>simp_all add: run\<close>)
  next
    case 3
    have "parted QLoop v lo hi i j lp hp s"
      by (rule IH) (use p 3 c_cong [OF v] in \<open>auto simp: d_def\<close>)
    then show ?thesis by (rule parted_step) (use 3 in \<open>simp_all add: run\<close>)
  qed
qed

lemma loop_step:
  assumes p: "part v lo hi i j lp hp s" and g: "i = lp \<or> 0 < c (E s i) v"
    and IH: "\<And>pc' i' j' lp' hp' s'. near pc' i' j' lp' hp' < near QLoop i j lp hp \<Longrightarrow> part v lo hi i' j' lp' hp' s' \<Longrightarrow>
      pc' = QFor \<or> pc' = QLoop \<and> (i' = lp' \<or> 0 < c (E s' i') v) \<Longrightarrow> parted pc' v lo hi i' j' lp' hp' s'"
  shows "parted QLoop v lo hi i j lp hp s"
proof (cases "hp < j")
  case lt: True
  define d where "d = c (E s hp) (E s j)"
  have v: "c (E s hp) v = 0" using p by (simp add: part_def)
  have d: "d = 0 \<longleftrightarrow> c (E s j) v = 0" "0 < d \<longleftrightarrow> c (E s j) v < 0"
    using c_cong [OF v, of "E s j"] c_zero [of "E s hp" "E s j"] c_neg [of "E s j" "E s hp"] by (auto simp: d_def)
  have run: "qs1 q QLoop (locs lo hi i j lp hp) s =
      (if d = 0 then Option.bind (qsexc q s (P (hp + 1)) (P j)) (\<lambda>s. qs1 q QLoop (locs lo hi i j lp (hp + 1)) s)
       else if 0 < d then
         if i = lp then Option.bind (qstexc q s (P i) (P (hp + 1)) (P j)) (\<lambda>s. qs1 q QLoop (locs lo hi (lp + 1) j (lp + 1) (hp + 1)) s)
         else Option.bind (qsexc q s (P i) (P j)) (\<lambda>s. qs1 q QFor (locs lo hi (i + 1) (j - 1) lp hp) s)
       else qs1 q QLoop (locs lo hi i (j - 1) lp hp) s)"
    using lt by (subst qs1.simps) (simp add: Let_def cmp_P d_def)
  consider "d = 0" | "0 < d" "i = lp" | "0 < d" "i \<noteq> lp" | "d < 0" by linarith
  then show ?thesis
  proof cases
    case 1
    obtain s' where s': "qsexc q s (P (hp + 1)) (P j) = Some s'"
      "\<And>r. E s' r = (if r = hp + 1 then E s j else if r = j then E s (hp + 1) else E s r)" using exc_P [of s "hp + 1" j] by blast
    have "part v lo hi i j lp (hp + 1) s'" using p lt 1 d(1) by (auto simp: part_def s'(2))
    then have "parted QLoop v lo hi i j lp (hp + 1) s'"
      by (rule IH [rotated]) (use p lt g in \<open>auto simp: part_def s'(2)\<close>)
    moreover have "rearr lo hi (E s) (E s')" by (rule rearr_swap [OF _ _ _ _ s'(2)]) (use p lt in \<open>auto simp: part_def\<close>)
    ultimately show ?thesis by (rule parted_step [where pc = QLoop]) (simp_all add: run 1 s'(1))
  next
    case 2
    have ne: "i \<noteq> hp + 1" "i \<noteq> j" using 2 p lt by (auto simp: part_def)
    obtain s' where s': "qstexc q s (P i) (P (hp + 1)) (P j) = Some s'"
      "\<And>r. E s' r = (if r = hp + 1 then E s i else if r = j then E s (hp + 1) else if r = i then E s j else E s r)"
      using texc_P [OF ne, of s] by blast
    have "c (E s j) v < 0" using 2 d by simp
    have "part v lo hi (lp + 1) j (lp + 1) (hp + 1) s'" unfolding part_def
    proof (intro conjI allI impI)
      fix k assume "lo \<le> k \<and> k < lp + 1"
      then show "c (E s' k) v < 0" using p lt ne \<open>c (E s j) v < 0\<close> 2(2) by (cases "k = i") (auto simp: part_def s'(2))
    qed (use p lt 2 ne in \<open>auto simp: part_def s'(2)\<close>)
    then have "parted QLoop v lo hi (lp + 1) j (lp + 1) (hp + 1) s'"
      by (rule IH [rotated]) (use p lt 2 in \<open>auto simp: part_def\<close>)
    moreover have "rearr lo hi (E s) (E s')" by (rule rearr_rot [OF _ _ _ _ _ _ ne s'(2)]) (use p lt in \<open>auto simp: part_def\<close>)
    ultimately show ?thesis by (rule parted_step [where pc = QLoop]) (unfold run, use 2 s'(1) in simp)
  next
    case 3
    obtain s' where s': "qsexc q s (P i) (P j) = Some s'"
      "\<And>r. E s' r = (if r = i then E s j else if r = j then E s i else E s r)" using exc_P [of s i j] by blast
    have cj: "c (E s j) v < 0" using 3 d by simp
    have ci: "0 < c (E s i) v" using g 3 by simp
    have il: "i < lp" using 3 p by (simp add: part_def)
    have "part v lo hi (i + 1) (j - 1) lp hp s'" unfolding part_def
    proof (intro conjI allI impI)
      fix k assume "lo \<le> k \<and> k < i + 1"
      then show "c (E s' k) v < 0" using p lt cj by (cases "k = i") (auto simp: part_def s'(2))
    next
      fix k assume "j - 1 < k \<and> k < hi"
      then show "0 < c (E s' k) v" using p lt ci il by (cases "k = j") (auto simp: part_def s'(2))
    qed (use p lt il in \<open>auto simp: part_def s'(2)\<close>)
    then have "parted QFor v lo hi (i + 1) (j - 1) lp hp s'"
      by (rule IH [rotated]) (use p lt il in \<open>auto simp: part_def\<close>)
    moreover have "rearr lo hi (E s) (E s')" by (rule rearr_swap [OF _ _ _ _ s'(2)]) (use p lt il in \<open>auto simp: part_def\<close>)
    ultimately show ?thesis by (rule parted_step [where pc = QLoop]) (use 3 in \<open>simp_all add: run s'(1)\<close>)
  next
    case 4
    then have cj: "0 < c (E s j) v" using d by linarith
    have "part v lo hi i (j - 1) lp hp s" unfolding part_def
    proof (intro conjI allI impI)
      fix k assume "j - 1 < k \<and> k < hi"
      then show "0 < c (E s k) v" using p cj by (cases "k = j") (auto simp: part_def)
    qed (use p lt in \<open>auto simp: part_def\<close>)
    then have "parted QLoop v lo hi i (j - 1) lp hp s"
      by (rule IH [rotated]) (use p lt g in \<open>auto simp: part_def\<close>)
    then show ?thesis by (rule parted_step) (use 4 in \<open>simp_all add: run\<close>)
  qed
next
  case False
  then have jh: "j = hp" using p by (simp add: part_def)
  show ?thesis
  proof (cases "i = lp")
    case True
    then show ?thesis using p jh unfolding parted_def by (intro exI [of _ s] exI [of _ lp] exI [of _ hp]) simp
  next
    case ne: False
    then have il: "i < lp" using p by (simp add: part_def)
    have ci: "0 < c (E s i) v" using g ne by simp
    have nn: "j \<noteq> lp - 1" "j \<noteq> i" using p il jh by (auto simp: part_def)
    obtain s' where s': "qstexc q s (P j) (P (lp - 1)) (P i) = Some s'"
      "\<And>r. E s' r = (if r = lp - 1 then E s j else if r = i then E s (lp - 1) else if r = j then E s i else E s r)"
      using texc_P [OF nn, of s] by blast
    have run: "qs1 q QLoop (locs lo hi i j lp hp) s = qs1 q QFor (locs lo hi i (hp - 1) (lp - 1) (hp - 1)) s'"
      using False ne s'(1) by (subst qs1.simps) (simp add: Let_def)
    have cv: "c (E s j) v = 0" using p jh by (simp add: part_def)
    have "part v lo hi i (hp - 1) (lp - 1) (hp - 1) s'" unfolding part_def
    proof (intro conjI allI impI)
      fix k assume "hp - 1 < k \<and> k < hi"
      then show "0 < c (E s' k) v" using p ci il jh nn by (cases "k = j") (auto simp: part_def s'(2))
    next
      fix k assume "lp - 1 \<le> k \<and> k \<le> hp - 1"
      then show "c (E s' k) v = 0" using p cv il jh by (cases "k = lp - 1") (auto simp: part_def s'(2))
    qed (use p il in \<open>auto simp: part_def s'(2)\<close>)
    then have "parted QFor v lo hi i (hp - 1) (lp - 1) (hp - 1) s'"
      by (rule IH [rotated]) (use p il jh in \<open>auto simp: part_def\<close>)
    moreover have "rearr lo hi (E s) (E s')" by (rule rearr_rot [OF _ _ _ _ _ _ nn s'(2)]) (use p il jh in \<open>auto simp: part_def\<close>)
    ultimately show ?thesis by (rule parted_step [where pc = QLoop]) (simp_all add: run)
  qed
qed

lemma partition_ok:
  "part v lo hi i j lp hp s \<Longrightarrow> pc = QFor \<or> pc = QLoop \<and> (i = lp \<or> 0 < c (E s i) v) \<Longrightarrow> parted pc v lo hi i j lp hp s"
proof (induction "near pc i j lp hp" arbitrary: pc i j lp hp s rule: less_induct)
  case less
  show ?case
  proof (cases "pc = QFor")
    case True
    have "parted QFor v lo hi i j lp hp s"
      by (rule for_step [OF less.prems(1)]) (rule less.hyps, use True in simp_all)
    then show ?thesis by (simp add: True)
  next
    case False
    then have pc: "pc = QLoop" and g: "i = lp \<or> 0 < c (E s i) v" using less.prems(2) by auto
    have "parted QLoop v lo hi i j lp hp s"
      by (rule loop_step [OF less.prems(1) g]) (rule less.hyps, use pc in simp_all)
    then show ?thesis by (simp add: pc)
  qed
qed

text \<open>The whole routine, for a segment whose length in bytes is a \<open>uint32\<close>.\<close>

definition ordered :: "int \<Rightarrow> int \<Rightarrow> (int \<Rightarrow> 'a) \<Rightarrow> bool" where
  "ordered lo hi f \<longleftrightarrow> (\<forall>i j. lo \<le> i \<and> i < j \<and> j < hi \<longrightarrow> c (f i) (f j) \<le> 0)"

lemma ordered_glue:
  assumes "ordered lo lp f" "ordered (hp + 1) hi f" "lp \<le> hp"
    and lt: "\<And>k. lo \<le> k \<Longrightarrow> k < lp \<Longrightarrow> c (f k) v < 0" and eq: "\<And>k. lp \<le> k \<Longrightarrow> k \<le> hp \<Longrightarrow> c (f k) v = 0"
    and gt: "\<And>k. hp < k \<Longrightarrow> k < hi \<Longrightarrow> 0 < c (f k) v"
  shows "ordered lo hi f"
  unfolding ordered_def
proof (intro allI impI, elim conjE)
  fix i j assume ij: "lo \<le> i" "i < j" "j < hi"
  have up: "c v (f k) \<le> 0" if "lp \<le> k" "k < hi" for k
    using that eq [of k] gt [of k] c_neg [of v "f k"] c_zero [of v "f k"] by (cases "k \<le> hp") auto
  have dn: "c (f k) v \<le> 0" if "lo \<le> k" "k \<le> hp" for k
    using that eq [of k] lt [of k] by (cases "k < lp") auto
  consider "j < lp" | "hp < i" | "i \<le> hp" "lp \<le> j" by linarith
  then show "c (f i) (f j) \<le> 0"
  proof cases
    case 1
    then show ?thesis using assms(1) ij by (simp add: ordered_def)
  next
    case 2
    then show ?thesis using assms(2) ij by (simp add: ordered_def)
  next
    case 3
    then show ?thesis using c_trans [OF dn up] ij by simp
  qed
qed

lemma ordered_cong: "(\<And>k. lo \<le> k \<Longrightarrow> k < hi \<Longrightarrow> g k = f k) \<Longrightarrow> ordered lo hi g = ordered lo hi f"
  by (auto simp: ordered_def)

lemma qs1_ok:
  assumes "lo \<le> hi" "qses q * (hi - lo) < 4294967296" "qa r = P lo" "ql r = P hi"
  shows "\<exists>s'. qs1 q QStart r s = Some s' \<and> rearr lo hi (E s) (E s') \<and> ordered lo hi (E s')"
  using assms
proof (induction "nat (hi - lo)" arbitrary: lo hi r s rule: less_induct)
  case less
  define n where "n = qses q * (hi - lo)"
  have n: "u32 (ql r - qa r) = n" using less.prems es by (simp add: n_def P_def right_diff_distrib)
  show ?case
  proof (cases "hi - lo \<le> 1")
    case True
    then have "n \<le> qses q" using es by (simp add: n_def)
    then have "qs1 q QStart r s = Some s" using n by (subst qs1.simps) (simp add: Let_def)
    moreover have "ordered lo hi (E s)" using True by (auto simp: ordered_def)
    ultimately show ?thesis by simp
  next
    case False
    define m where "m = lo + (hi - lo) div 2"
    have gt: "\<not> n \<le> qses q" using False es by (simp add: n_def)
    have "n div (2 * qses q) = (hi - lo) div 2" using es by (simp add: n_def mult.commute [of 2])
    then have mid: "qa r + qses q * (n div (2 * qses q)) = P m" using less.prems(3) by (simp add: m_def P_def algebra_simps)
    have lc: "r\<lparr>qhp := P m, qlp := P m, qi := P lo, qj := P (hi - 1)\<rparr> = locs lo hi lo (hi - 1) m m"
      using less.prems(3,4) by (cases r) (simp add: locs_def)
    have st: "qs1 q QStart r s = qs1 q QFor (locs lo hi lo (hi - 1) m m) s"
      using n gt mid less.prems(3,4) by (subst qs1.simps) (simp add: Let_def lc del: locs_upd)
    have "part (E s m) lo hi lo (hi - 1) m m s" using False c_refl by (auto simp: part_def m_def)
    from partition_ok [OF this, of QFor] obtain s1 lp hp where s1: "qs1 q QStart r s = qs1 q QLoop (locs lo hi lp hp lp hp) s1"
      "part (E s m) lo hi lp hp lp hp s1" "rearr lo hi (E s) (E s1)"
      using st unfolding parted_def by auto
    have b: "lo \<le> lp" "lp \<le> hp" "hp < hi" using s1(2) by (simp_all add: part_def)
    have sz: "qses q * (lp - lo) < 4294967296" "qses q * (hi - (hp + 1)) < 4294967296"
    proof -
      have "qses q * (lp - lo) \<le> qses q * (hi - lo)" "qses q * (hi - (hp + 1)) \<le> qses q * (hi - lo)"
        by (rule mult_left_mono; use b es in simp)+
      then show "qses q * (lp - lo) < 4294967296" "qses q * (hi - (hp + 1)) < 4294967296" using less.prems(2) by auto
    qed
    have left: "\<exists>s'. qs1 q QStart r' t = Some s' \<and> rearr lo lp (E t) (E s') \<and> ordered lo lp (E s')"
      if "qa r' = P lo" "ql r' = P lp" for r' t
      by (rule less.hyps) (use b sz that in auto)
    have right: "\<exists>s'. qs1 q QStart r' t = Some s' \<and> rearr (hp + 1) hi (E t) (E s') \<and> ordered (hp + 1) hi (E s')"
      if "qa r' = P (hp + 1)" "ql r' = P hi" for r' t
      by (rule less.hyps) (use b sz that in auto)
    obtain s3 where s3: "qs1 q QStart r s = Some s3" "rearr lo hi (E s1) (E s3)" "ordered lo lp (E s3)" "ordered (hp + 1) hi (E s3)"
      "\<And>k. lp \<le> k \<Longrightarrow> k \<le> hp \<Longrightarrow> E s3 k = E s1 k"
      "\<And>k. lo \<le> k \<Longrightarrow> k < lp \<Longrightarrow> \<exists>k'. lo \<le> k' \<and> k' < lp \<and> E s3 k = E s1 k'"
      "\<And>k. hp < k \<Longrightarrow> k < hi \<Longrightarrow> \<exists>k'. hp < k' \<and> k' < hi \<and> E s3 k = E s1 k'"
    proof (cases "P hi - P hp \<le> P lp - P lo")
      case True
      obtain s2 where s2: "qs1 q QStart (qseg (P (hp + 1)) (P hi)) s1 = Some s2" "rearr (hp + 1) hi (E s1) (E s2)" "ordered (hp + 1) hi (E s2)"
        using right [of "qseg (P (hp + 1)) (P hi)" s1] by (auto simp: qseg_def)
      obtain s3 where s3: "qs1 q QStart (locs lo lp lp hp lp hp) s2 = Some s3" "rearr lo lp (E s2) (E s3)" "ordered lo lp (E s3)"
        using left [of "locs lo lp lp hp lp hp" s2] by auto
      have o: "E s3 k = E s2 k" if "lp \<le> k" for k using rearr_outside [OF s3(2)] that by simp
      have o2: "E s2 k = E s1 k" if "k \<le> hp" for k using rearr_outside [OF s2(2)] that by simp
      show thesis
      proof (rule that [of s3])
        show "qs1 q QStart r s = Some s3" using s1(1) s2(1) s3(1) True by (subst (asm) (2) qs1.simps) (simp add: Let_def)
        show "rearr lo hi (E s1) (E s3)"
          using rearr_trans [OF rearr_mono [OF s2(2)] rearr_mono [OF s3(2)], of lo hi] b by simp
        show "ordered lo lp (E s3)" by (rule s3(3))
        show "ordered (hp + 1) hi (E s3)" using s2(3) o b ordered_cong [of "hp + 1" hi "E s3" "E s2"] by simp
        show "E s3 k = E s1 k" if "lp \<le> k" "k \<le> hp" for k using o o2 that by simp
        show "\<exists>k'. lo \<le> k' \<and> k' < lp \<and> E s3 k = E s1 k'" if "lo \<le> k" "k < lp" for k
          using rearr_from [OF s3(2) that] o2 b by (metis order.strict_trans2 order.strict_implies_order)
        show "\<exists>k'. hp < k' \<and> k' < hi \<and> E s3 k = E s1 k'" if "hp < k" "k < hi" for k
          using rearr_from [OF s2(2), of k] o [of k] that b by (metis add1_zle_eq order.trans order.strict_implies_order)
      qed
    next
      case False
      obtain s2 where s2: "qs1 q QStart (qseg (P lo) (P lp)) s1 = Some s2" "rearr lo lp (E s1) (E s2)" "ordered lo lp (E s2)"
        using left [of "qseg (P lo) (P lp)" s1] by (auto simp: qseg_def)
      obtain s3 where s3: "qs1 q QStart (locs (hp + 1) hi lp hp lp hp) s2 = Some s3" "rearr (hp + 1) hi (E s2) (E s3)" "ordered (hp + 1) hi (E s3)"
        using right [of "locs (hp + 1) hi lp hp lp hp" s2] by auto
      have o: "E s3 k = E s2 k" if "k \<le> hp" for k using rearr_outside [OF s3(2)] that by simp
      have o2: "E s2 k = E s1 k" if "lp \<le> k" for k using rearr_outside [OF s2(2)] that by simp
      show thesis
      proof (rule that [of s3])
        show "qs1 q QStart r s = Some s3" using s1(1) s2(1) s3(1) False by (subst (asm) (2) qs1.simps) (simp add: Let_def)
        show "rearr lo hi (E s1) (E s3)"
          using rearr_trans [OF rearr_mono [OF s2(2)] rearr_mono [OF s3(2)], of lo hi] b by simp
        show "ordered (hp + 1) hi (E s3)" by (rule s3(3))
        show "ordered lo lp (E s3)" using s2(3) o b ordered_cong [of lo lp "E s3" "E s2"] by simp
        show "E s3 k = E s1 k" if "lp \<le> k" "k \<le> hp" for k using o o2 that by simp
        show "\<exists>k'. lo \<le> k' \<and> k' < lp \<and> E s3 k = E s1 k'" if "lo \<le> k" "k < lp" for k
          using rearr_from [OF s2(2) that] o [of k] that b by (metis order.trans order.strict_implies_order)
        show "\<exists>k'. hp < k' \<and> k' < hi \<and> E s3 k = E s1 k'" if "hp < k" "k < hi" for k
          using rearr_from [OF s3(2), of k] o2 that b by (metis add1_zle_eq order.trans order.strict_implies_order)
      qed
    qed
    have "ordered lo hi (E s3)"
      by (rule ordered_glue [OF s3(3,4) b(2), of "E s m"]) (use s3(5-7) s1(2) in \<open>force simp: part_def\<close>)+
    then show ?thesis using s3(1) rearr_trans [OF s1(3) s3(2)] by blast
  qed
qed

end

section \<open>Elements made of bytes\<close>

definition block :: "bytes \<Rightarrow> int \<Rightarrow> nat \<Rightarrow> 8 word list" where
  "block m p n = map (\<lambda>k. m (p + int k)) [0..<n]"

text \<open>Two blocks lie apart.\<close>

abbreviation (input) apart :: "int \<Rightarrow> int \<Rightarrow> nat \<Rightarrow> bool" where
  "apart p r n \<equiv> p + int n \<le> r \<or> r + int n \<le> p"

lemma exc_loop_ok:
  assumes "0 < n" "p = r \<or> apart p r n"
  shows "\<exists>m'. exc_loop m p r (int n) = Some m' \<and> (\<forall>k. 0 \<le> k \<and> k < int n \<longrightarrow> m' (p + k) = m (r + k) \<and> m' (r + k) = m (p + k))
    \<and> (\<forall>a. (a < p \<or> p + int n \<le> a) \<and> (a < r \<or> r + int n \<le> a) \<longrightarrow> m' a = m a)"
  using assms
proof (induction n arbitrary: m p r)
  case (Suc n)
  define m1 where "m1 = m(p := m r, r := m p)"
  show ?case
  proof (cases "n = 0")
    case True
    then have st: "exc_loop m p r (int (Suc n)) = Some m1" by (subst exc_loop.simps) (simp add: Let_def m1_def)
    have z: "0 \<le> k \<and> k < int (Suc n) \<longleftrightarrow> k = 0" for k using True by auto
    show ?thesis unfolding z st by (intro exI [of _ m1]) (auto simp: m1_def True)
  next
    case False
    have n0: "0 < n" "p + 1 = r + 1 \<or> apart (p + 1) (r + 1) n" using False Suc.prems by auto
    obtain m' where m': "exc_loop m1 (p + 1) (r + 1) (int n) = Some m'"
      "\<And>k. 0 \<le> k \<Longrightarrow> k < int n \<Longrightarrow> m' (p + 1 + k) = m1 (r + 1 + k)"
      "\<And>k. 0 \<le> k \<Longrightarrow> k < int n \<Longrightarrow> m' (r + 1 + k) = m1 (p + 1 + k)"
      "\<And>a. a < p + 1 \<or> p + 1 + int n \<le> a \<Longrightarrow> a < r + 1 \<or> r + 1 + int n \<le> a \<Longrightarrow> m' a = m1 a"
      using Suc.IH [of "p + 1" "r + 1" m1] n0 by blast
    have "exc_loop m p r (int (Suc n)) = Some m'"
      using m'(1) False by (subst exc_loop.simps) (simp add: Let_def m1_def)
    moreover have "m' (p + k) = m (r + k) \<and> m' (r + k) = m (p + k)" if "0 \<le> k" "k < int (Suc n)" for k
    proof (cases "k = 0")
      case True
      then show ?thesis using m'(4) [of p] m'(4) [of r] Suc.prems(2) by (auto simp: m1_def)
    next
      case False
      then show ?thesis using m'(2,3) [of "k - 1"] that Suc.prems(2) by (auto simp: m1_def)
    qed
    moreover have "m' a = m a" if "a < p \<or> p + int (Suc n) \<le> a" "a < r \<or> r + int (Suc n) \<le> a" for a
      using m'(4) [of a] that by (auto simp: m1_def)
    ultimately show ?thesis by blast
  qed
qed simp

lemma texc_loop_ok:
  assumes "0 < n" "apart p r n" "apart p t n" "t = r \<or> apart t r n"
  shows "\<exists>m'. texc_loop m p r t (int n) = Some m' \<and>
    (\<forall>k. 0 \<le> k \<and> k < int n \<longrightarrow> m' (r + k) = m (p + k) \<and> m' (p + k) = m (t + k) \<and> (t \<noteq> r \<longrightarrow> m' (t + k) = m (r + k)))
    \<and> (\<forall>a. (a < p \<or> p + int n \<le> a) \<and> (a < r \<or> r + int n \<le> a) \<and> (a < t \<or> t + int n \<le> a) \<longrightarrow> m' a = m a)"
  using assms
proof (induction n arbitrary: m p r t)
  case (Suc n)
  define m1 where "m1 = m(p := m t, t := m r, r := m p)"
  have ne: "p \<noteq> r" "p \<noteq> t" using Suc.prems by auto
  have st: "texc_loop m p r t (int (Suc n)) = (if n = 0 then Some m1 else texc_loop m1 (p + 1) (r + 1) (t + 1) (int n))"
    by (subst texc_loop.simps) (use ne in \<open>simp add: Let_def m1_def\<close>)
  show ?case
  proof (cases "n = 0")
    case True
    then have z: "0 \<le> k \<and> k < int (Suc n) \<longleftrightarrow> k = 0" for k by auto
    show ?thesis unfolding z st by (intro exI [of _ m1]) (use True ne in \<open>auto simp: m1_def\<close>)
  next
    case False
    have n0: "0 < n" "apart (p + 1) (r + 1) n" "apart (p + 1) (t + 1) n" "t + 1 = r + 1 \<or> apart (t + 1) (r + 1) n"
      using False Suc.prems by auto
    obtain m' where A: "texc_loop m1 (p + 1) (r + 1) (t + 1) (int n) = Some m'"
      and B: "\<forall>k. 0 \<le> k \<and> k < int n \<longrightarrow> m' (r + 1 + k) = m1 (p + 1 + k) \<and> m' (p + 1 + k) = m1 (t + 1 + k)
        \<and> (t + 1 \<noteq> r + 1 \<longrightarrow> m' (t + 1 + k) = m1 (r + 1 + k))"
      and C: "\<forall>a. (a < p + 1 \<or> p + 1 + int n \<le> a) \<and> (a < r + 1 \<or> r + 1 + int n \<le> a)
        \<and> (a < t + 1 \<or> t + 1 + int n \<le> a) \<longrightarrow> m' a = m1 a"
      using Suc.IH [OF n0, of m1] by (elim exE conjE) (rule that)
    note m' = A B [rule_format, THEN conjunct1] B [rule_format, THEN conjunct2, THEN conjunct1]
      B [rule_format, THEN conjunct2, THEN conjunct2, rule_format] C [rule_format]
    have "texc_loop m p r t (int (Suc n)) = Some m'" unfolding st using m'(1) False by simp
    moreover have "m' (r + k) = m (p + k) \<and> m' (p + k) = m (t + k) \<and> (t \<noteq> r \<longrightarrow> m' (t + k) = m (r + k))"
      if "0 \<le> k" "k < int (Suc n)" for k
    proof (cases "k = 0")
      case True
      have "m' p = m1 p" "m' r = m1 r" "m' t = m1 t" by (rule m'(5); use Suc.prems(2-4) in linarith)+
      then show ?thesis using True ne by (auto simp: m1_def)
    next
      case False
      define k' where "k' = k - 1"
      have k: "k = 1 + k'" "0 \<le> k'" "k' < int n" using False that by (simp_all add: k'_def)
      have "m1 (p + 1 + k') = m (p + k)" "m1 (t + 1 + k') = m (t + k)" "m1 (r + 1 + k') = m (r + k)"
        using k Suc.prems by (auto simp: m1_def add.assoc)
      then show ?thesis using m'(2,3,4) [of k'] k by (simp add: add.assoc)
    qed
    moreover have "m' a = m a" if "a < p \<or> p + int (Suc n) \<le> a" "a < r \<or> r + int (Suc n) \<le> a" "a < t \<or> t + int (Suc n) \<le> a" for a
    proof -
      have "m' a = m1 a" by (rule m'(5)) (use that in linarith)
      then show ?thesis using that by (auto simp: m1_def)
    qed
    ultimately show ?thesis by blast
  qed
qed simp

lemma block_at: "k < n \<Longrightarrow> block m p n ! k = m (p + int k)"
  by (simp add: block_def)

lemma block_eqI: "(\<And>k. 0 \<le> k \<Longrightarrow> k < int n \<Longrightarrow> m (p + k) = m' (p' + k)) \<Longrightarrow> block m p n = block m' p' n"
  by (simp add: block_def)

lemma blocks_apart:
  assumes "i \<noteq> (j :: int)" "0 < n"
  shows "apart (a + int n * i) (a + int n * j) n"
proof -
  have "int n * (i + 1) \<le> int n * j" if "i < j" using that assms(2) by (intro mult_left_mono) simp_all
  moreover have "int n * (j + 1) \<le> int n * i" if "j < i" using that assms(2) by (intro mult_left_mono) simp_all
  ultimately show ?thesis using assms(1) by (cases "i < j") (auto simp: algebra_simps)
qed

text \<open>The two exchange routines are what \<open>qs1\<close> needs, for any comparison that is a total preorder.\<close>

definition bstat :: "(bytes \<Rightarrow> int \<Rightarrow> int \<Rightarrow> int) \<Rightarrow> nat \<Rightarrow> bytes qstatics" where
  "bstat fc n = \<lparr>qscmp = fc, qsexc = exc_bytes (int n), qstexc = texc_bytes (int n), qses = int n\<rparr>"

definition preorder_cmp :: "('a \<Rightarrow> 'a \<Rightarrow> int) \<Rightarrow> bool" where
  "preorder_cmp c \<longleftrightarrow> (\<forall>x y. sgn (c x y) = - sgn (c y x)) \<and> (\<forall>x y z. c x y \<le> 0 \<longrightarrow> c y z \<le> 0 \<longrightarrow> c x z \<le> 0)"

lemma sort_mem_bytes:
  assumes n: "0 < n" and fc: "\<And>m p q. fc m p q = c (block m p n) (block m q n)" and c: "preorder_cmp c"
  shows "sort_mem (bstat fc n) a (\<lambda>m k. block m (a + int n * k) n) c"
proof
  show "0 < qses (bstat fc n)" using n by (simp add: bstat_def)
  show "qscmp (bstat fc n) s (a + qses (bstat fc n) * i) (a + qses (bstat fc n) * j) =
      c (block s (a + int n * i) n) (block s (a + int n * j) n)" for s i j
    by (simp add: bstat_def fc)
  show "sgn (c x y) = - sgn (c y x)" for x y using c unfolding preorder_cmp_def by blast
  show "c x y \<le> 0 \<Longrightarrow> c y z \<le> 0 \<Longrightarrow> c x z \<le> 0" for x y z using c unfolding preorder_cmp_def by blast
next
  fix m i j
  define p r where "p = a + int n * i" and "r = a + int n * j"
  have ap: "p = r \<or> apart p r n" using blocks_apart [OF _ n, of i j a] by (auto simp: p_def r_def)
  obtain m' where m': "exc_loop m p r (int n) = Some m'"
    "\<And>k. 0 \<le> k \<Longrightarrow> k < int n \<Longrightarrow> m' (p + k) = m (r + k)" "\<And>k. 0 \<le> k \<Longrightarrow> k < int n \<Longrightarrow> m' (r + k) = m (p + k)"
    "\<And>x. x < p \<or> p + int n \<le> x \<Longrightarrow> x < r \<or> r + int n \<le> x \<Longrightarrow> m' x = m x"
    using exc_loop_ok [OF n ap, of m] by blast
  have "block m' (a + int n * t) n = (if t = i then block m r n else if t = j then block m p n else block m (a + int n * t) n)" for t
  proof -
    have "block m' (a + int n * t) n = block m (a + int n * t) n" if "t \<noteq> i" "t \<noteq> j"
    proof (rule block_eqI, rule m'(4))
      fix k assume k: "0 \<le> k" "k < int n"
      show "a + int n * t + k < p \<or> p + int n \<le> a + int n * t + k" using blocks_apart [OF that(1) n, of a] k by (auto simp: p_def)
      show "a + int n * t + k < r \<or> r + int n \<le> a + int n * t + k" using blocks_apart [OF that(2) n, of a] k by (auto simp: r_def)
    qed
    moreover have "block m' p n = block m r n" "block m' r n = block m p n" using m'(2,3) by (auto intro: block_eqI)
    ultimately show ?thesis by (auto simp: p_def r_def)
  qed
  then show "\<exists>s'. qsexc (bstat fc n) m (a + qses (bstat fc n) * i) (a + qses (bstat fc n) * j) = Some s' \<and>
      (\<forall>t. block s' (a + int n * t) n = (if t = i then block m (a + int n * j) n else if t = j then block m (a + int n * i) n
        else block m (a + int n * t) n))"
    using m'(1) by (simp add: bstat_def exc_bytes_def p_def r_def)
next
  fix i j l :: int and m
  assume ne: "i \<noteq> j" "i \<noteq> l"
  define p r t where "p = a + int n * i" and "r = a + int n * j" and "t = a + int n * l"
  have ap: "apart p r n" "apart p t n" "t = r \<or> apart t r n"
    using blocks_apart [OF ne(1) n, of a] blocks_apart [OF ne(2) n, of a] blocks_apart [OF _ n, of l j a]
    by (auto simp: p_def r_def t_def)
  obtain m' where m': "texc_loop m p r t (int n) = Some m'"
    "\<And>k. 0 \<le> k \<Longrightarrow> k < int n \<Longrightarrow> m' (r + k) = m (p + k)" "\<And>k. 0 \<le> k \<Longrightarrow> k < int n \<Longrightarrow> m' (p + k) = m (t + k)"
    "\<And>k. 0 \<le> k \<Longrightarrow> k < int n \<Longrightarrow> t \<noteq> r \<Longrightarrow> m' (t + k) = m (r + k)"
    "\<And>x. x < p \<or> p + int n \<le> x \<Longrightarrow> x < r \<or> r + int n \<le> x \<Longrightarrow> x < t \<or> t + int n \<le> x \<Longrightarrow> m' x = m x"
    using texc_loop_ok [OF n ap, of m] by blast
  have "block m' (a + int n * x) n = (if x = j then block m p n else if x = l then block m r n else if x = i then block m t n
      else block m (a + int n * x) n)" for x
  proof -
    have "block m' (a + int n * x) n = block m (a + int n * x) n" if "x \<noteq> i" "x \<noteq> j" "x \<noteq> l"
    proof (rule block_eqI, rule m'(5))
      fix k assume k: "0 \<le> k" "k < int n"
      show "a + int n * x + k < p \<or> p + int n \<le> a + int n * x + k" using blocks_apart [OF that(1) n, of a] k by (auto simp: p_def)
      show "a + int n * x + k < r \<or> r + int n \<le> a + int n * x + k" using blocks_apart [OF that(2) n, of a] k by (auto simp: r_def)
      show "a + int n * x + k < t \<or> t + int n \<le> a + int n * x + k" using blocks_apart [OF that(3) n, of a] k by (auto simp: t_def)
    qed
    moreover have "block m' r n = block m p n" "block m' p n = block m t n" using m'(2,3) by (auto intro: block_eqI)
    moreover have "block m' t n = block m r n" if "t \<noteq> r" using m'(4) that by (auto intro: block_eqI)
    moreover have "t \<noteq> r" if "l \<noteq> j" using blocks_apart [OF that n, of a] n by (auto simp: r_def t_def)
    ultimately show ?thesis using ne by (auto simp: p_def r_def t_def)
  qed
  then show "\<exists>s'. qstexc (bstat fc n) m (a + qses (bstat fc n) * i) (a + qses (bstat fc n) * j) (a + qses (bstat fc n) * l) = Some s' \<and>
      (\<forall>x. block s' (a + int n * x) n = (if x = j then block m (a + int n * i) n else if x = l then block m (a + int n * j) n
        else if x = i then block m (a + int n * l) n else block m (a + int n * x) n))"
    using m'(1) by (simp add: bstat_def texc_bytes_def p_def r_def t_def)
qed

text \<open>With \<open>memcmp\<close> of \<open>lib/\<close> for the comparison, elements are ordered as strings of bytes.\<close>

fun lcmp :: "8 word list \<Rightarrow> 8 word list \<Rightarrow> int" where
  "lcmp [] [] = 0"
| "lcmp [] (y # ys) = -1"
| "lcmp (x # xs) [] = 1"
| "lcmp (x # xs) (y # ys) = (if x \<noteq> y then uint x - uint y else lcmp xs ys)"

lemma lcmp_preorder: "preorder_cmp lcmp"
proof -
  have "sgn (lcmp x y) = - sgn (lcmp y x)" for x y
    by (induction x y rule: lcmp.induct) (auto simp: sgn_if split: if_splits)
  moreover have "lcmp x y \<le> 0 \<Longrightarrow> lcmp y z \<le> 0 \<Longrightarrow> lcmp x z \<le> 0" for x y z
  proof (induction x y arbitrary: z rule: lcmp.induct)
    case (2 y ys)
    then show ?case by (cases z) auto
  next
    case (4 a x b y)
    show ?case
    proof (cases z)
      case (Cons e z')
      have "uint a \<le> uint b" "uint b \<le> uint e" using 4(2,3) Cons by (auto split: if_splits)
      moreover have "lcmp x z' \<le> 0" if "a = b" "b = e" using 4 that Cons by auto
      ultimately show ?thesis using Cons by (auto simp: word_uint_eq_iff)
    qed (use 4 in auto)
  qed (auto elim: lcmp.elims)
  ultimately show ?thesis unfolding preorder_cmp_def by blast
qed

lemma block_Suc: "block m p (Suc n) = m p # block m (p + 1) n"
proof -
  have "[0..<Suc n] = 0 # map Suc [0..<n]" by (metis map_Suc_upt upt_conv_Cons zero_less_Suc)
  then show ?thesis by (simp add: block_def add.assoc del: upt_Suc)
qed

lemma memcmp_block: "memcmp m p q (int n) = lcmp (block m p n) (block m q n)"
proof (induction n arbitrary: p q)
  case 0
  then show ?case by (simp add: memcmp.simps block_def)
next
  case (Suc n)
  then show ?case by (subst memcmp.simps) (simp add: block_Suc)
qed

interpretation memcmp_sort: sort_mem "bstat (\<lambda>m p q. memcmp m p q (int (Suc n))) (Suc n)" a
    "\<lambda>m k. block m (a + int (Suc n) * k) (Suc n)" lcmp for n a
  by (rule sort_mem_bytes) (simp_all only: memcmp_block lcmp_preorder zero_less_Suc)

section \<open>qsort\<close>

lemma rearr_mset:
  assumes "rearr 0 (int n) f g"
  shows "mset (map (\<lambda>k. g (int k)) [0..<n]) = mset (map (\<lambda>k. f (int k)) [0..<n])"
proof -
  obtain p where p: "bij p" "\<forall>k. k < 0 \<or> int n \<le> k \<longrightarrow> p k = k" "\<forall>k. g k = f (p k)"
    using assms unfolding rearr_def by blast
  have inj: "inj_on p {0..<int n}" using bij_is_inj [OF p(1)] by (rule inj_on_subset) simp
  have "p ` {0..<int n} \<subseteq> {0..<int n}"
  proof
    fix x assume "x \<in> p ` {0..<int n}"
    then obtain k where k: "x = p k" "0 \<le> k" "k < int n" by auto
    show "x \<in> {0..<int n}"
    proof (rule ccontr)
      assume out: "x \<notin> {0..<int n}"
      then have "p x = p k" using p(2) k(1) by auto
      then have "x = k" using bij_is_inj [OF p(1)] by (simp add: inj_eq)
      then show False using out k by simp
    qed
  qed
  then have pA: "p ` {0..<int n} = {0..<int n}" by (rule endo_inj_surj [OF finite_atLeastLessThan_int _ inj])
  have im: "mset (map (\<lambda>k. h (int k)) [0..<n]) = image_mset h (mset_set {0..<int n})" for h :: "int \<Rightarrow> 'a"
  proof -
    have "image_mset int (mset_set {0..<n}) = mset_set {0..<int n}"
      by (simp add: image_mset_mset_set image_int_atLeastLessThan)
    then have "image_mset h (mset_set {0..<int n}) = image_mset h (image_mset int (mset_set {0..<n}))" by simp
    then show ?thesis by (simp add: multiset.map_comp comp_def)
  qed
  have "image_mset g (mset_set {0..<int n}) = image_mset f (image_mset p (mset_set {0..<int n}))"
  proof -
    have "g = (\<lambda>k. f (p k))" using p(3) by auto
    then show ?thesis by (simp add: multiset.map_comp comp_def)
  qed
  also have "\<dots> = image_mset f (mset_set {0..<int n})" using image_mset_mset_set [OF inj] pA by simp
  finally show ?thesis by (simp only: im)
qed

definition elems :: "bytes \<Rightarrow> int \<Rightarrow> nat \<Rightarrow> nat \<Rightarrow> 8 word list list" where
  "elems m a es n = map (\<lambda>k. block m (a + int es * int k) es) [0..<n]"

text \<open>C29: \<open>qsort\<close> returns for every array of \<open>n\<close> elements of \<open>es\<close> bytes whose size is a
  \<open>uint32\<close> and every comparison that is a total preorder on the elements; the elements are
  then a permutation of what they were, in ascending order, and no byte outside the array
  has changed.\<close>

theorem qsort_ok:
  assumes es: "0 < es" and sz: "es * n < 4294967296"
    and fc: "\<And>m p q. fc m p q = c (block m p es) (block m q es)" and c: "preorder_cmp c"
  shows "\<exists>m'. qsort m a (int n) (int es) fc = Some m' \<and> mset (elems m' a es n) = mset (elems m a es n)
    \<and> sorted_wrt (\<lambda>x y. c x y \<le> 0) (elems m' a es n) \<and> (\<forall>x. x < a \<or> a + int (es * n) \<le> x \<longrightarrow> m' x = m x)"
proof -
  define E where "E m k = block m (a + int es * k) es" for m k
  note S = sort_mem_bytes [OF es fc c, of a]
  have q: "qses (bstat fc es) = int es" by (simp add: bstat_def)
  have P: "sort_mem.P (bstat fc es) a k = a + int es * k" for k by (simp add: sort_mem.P_def [OF S] q)
  have "int es * int n < 4294967296" using sz by (metis of_nat_less_numeral_iff of_nat_mult)
  then obtain m' where m': "qs1 (bstat fc es) QStart (qseg a (a + int n * int es)) m = Some m'"
    "rearr 0 (int n) (E m) (E m')" "sort_mem.ordered c 0 (int n) (E m')"
    using sort_mem.qs1_ok [OF S, of 0 "int n" "qseg a (a + int n * int es)" m]
    by (auto simp: P q qseg_def E_def [abs_def] mult.commute)
  have el: "elems m a es n = map (\<lambda>k. E m (int k)) [0..<n]" for m by (simp add: elems_def E_def)
  have "sorted_wrt (\<lambda>x y. c x y \<le> 0) (elems m' a es n)"
    using m'(3) unfolding el sort_mem.ordered_def [OF S] by (auto simp: sorted_wrt_map sorted_wrt_iff_nth_less)
  moreover have "m' x = m x" if x: "x < a \<or> a + int (es * n) \<le> x" for x
  proof -
    define k where "k = (x - a) div int es"
    define r where "r = nat ((x - a) mod int es)"
    have r: "int r = (x - a) mod int es" "r < es" using es by (simp_all add: r_def nat_less_iff)
    have xk: "x = a + int es * k + int r" by (simp add: k_def r)
    have "k < 0 \<or> int n \<le> k"
    proof (rule ccontr)
      assume "\<not> (k < 0 \<or> int n \<le> k)"
      then have k: "0 \<le> k" "k + 1 \<le> int n" by auto
      have "int es * (k + 1) \<le> int es * int n" by (rule mult_left_mono) (use k in simp_all)
      moreover have "0 \<le> int es * k" using k(1) by simp
      ultimately have "a \<le> x" "x < a + int (es * n)" using r(2) by (simp_all add: xk distrib_left)
      then show False using x by simp
    qed
    then have "E m' k = E m k" by (rule rearr_outside [OF m'(2)])
    then have "block m' (a + int es * k) es ! r = block m (a + int es * k) es ! r" by (simp add: E_def)
    then show ?thesis using r(2) by (simp add: block_at xk)
  qed
  moreover have "qsort m a (int n) (int es) fc = Some m'" using m'(1) by (simp add: qsort_def bstat_def)
  ultimately show ?thesis using rearr_mset [OF m'(2)] el by metis
qed

theorem qsort_ok_witness:
  "\<exists>m'. qsort (poke (\<lambda>_. 0) 100 [3, 1, 2]) 100 3 1 (\<lambda>m p q. memcmp m p q 1) = Some m'
    \<and> mset (elems m' 100 1 3) = mset [[3], [1], [2]] \<and> sorted_wrt (\<lambda>x y. lcmp x y \<le> 0) (elems m' 100 1 3)"
proof -
  define m where "m = poke (\<lambda>_. 0 :: 8 word) 100 [3, 1, 2]"
  have "\<exists>m'. qsort m 100 (int 3) (int 1) (\<lambda>m p q. memcmp m p q (int 1)) = Some m' \<and> mset (elems m' 100 1 3) = mset (elems m 100 1 3)
    \<and> sorted_wrt (\<lambda>x y. lcmp x y \<le> 0) (elems m' 100 1 3) \<and> (\<forall>x. x < 100 \<or> 100 + int (1 * 3) \<le> x \<longrightarrow> m' x = m x)"
    by (rule qsort_ok) (rule memcmp_block lcmp_preorder | simp)+
  moreover have "elems m 100 1 3 = [[3], [1], [2]]" by (simp add: m_def elems_def block_def upt_rec)
  ultimately show ?thesis unfolding m_def of_nat_1 of_nat_numeral by metis
qed

end
