(* ===== verification/Lexan.thy ===== *)
theory Lexan
  imports LibStr
begin

text \<open>
  The lexical analyser of the shell, \<open>shell/lexan.c\<close>.  The line and the token buffer lie
  in memory; the arrays \<open>tok\<close> and \<open>toktyp\<close> are functions.  The reference is a
  function from the characters of the line to a list of tokens.
\<close>

section \<open>The code\<close>

abbreviation (input) SHELL_MAXTOK :: int where "SHELL_MAXTOK \<equiv> 32"
abbreviation (input) SH_TOK_AMPER :: int where "SH_TOK_AMPER \<equiv> 0"
abbreviation (input) SH_TOK_LESS :: int where "SH_TOK_LESS \<equiv> 1"
abbreviation (input) SH_TOK_GREATER :: int where "SH_TOK_GREATER \<equiv> 2"
abbreviation (input) SH_TOK_OTHER :: int where "SH_TOK_OTHER \<equiv> 3"

abbreviation (input) NULLCH :: "8 word" where "NULLCH \<equiv> 0"
abbreviation (input) SH_NEWLINE :: "8 word" where "SH_NEWLINE \<equiv> 10"
abbreviation (input) SH_TAB :: "8 word" where "SH_TAB \<equiv> 9"
abbreviation (input) SH_BLANK :: "8 word" where "SH_BLANK \<equiv> 32"
abbreviation (input) SH_DQUOTE :: "8 word" where "SH_DQUOTE \<equiv> 34"
abbreviation (input) SH_AMPER :: "8 word" where "SH_AMPER \<equiv> 38"
abbreviation (input) SH_SQUOTE :: "8 word" where "SH_SQUOTE \<equiv> 39"
abbreviation (input) SH_LESS :: "8 word" where "SH_LESS \<equiv> 60"
abbreviation (input) SH_GREATER :: "8 word" where "SH_GREATER \<equiv> 62"

text \<open>The three inner loops: skip white space, copy up to the quote, copy a word.\<close>

partial_function (option) skip_white :: "bytes \<Rightarrow> int \<Rightarrow> int option" where
  "skip_white m p = (if m p = SH_BLANK \<or> m p = SH_TAB then skip_white m (p + 1) else Some p)"

partial_function (option) copy_quoted :: "8 word \<Rightarrow> bytes \<Rightarrow> int \<Rightarrow> int \<Rightarrow> (8 word \<times> bytes \<times> int \<times> int) option" where
  "copy_quoted quote m p tb =
     (let ch = m p; p = p + 1 in
      if ch \<noteq> quote \<and> ch \<noteq> SH_NEWLINE \<and> ch \<noteq> NULLCH
      then copy_quoted quote (m(tb := ch)) p (tb + 1)
      else Some (ch, m, p, tb))"

definition ends_word :: "8 word \<Rightarrow> bool" where
  "ends_word ch \<longleftrightarrow> ch = SH_NEWLINE \<or> ch = NULLCH \<or> ch = SH_LESS \<or> ch = SH_GREATER \<or> ch = SH_BLANK
     \<or> ch = SH_TAB \<or> ch = SH_AMPER \<or> ch = SH_SQUOTE \<or> ch = SH_DQUOTE"

partial_function (option) copy_word :: "bytes \<Rightarrow> int \<Rightarrow> int \<Rightarrow> (8 word \<times> bytes \<times> int \<times> int) option" where
  "copy_word m p tb =
     (let ch = m p in
      if \<not> ends_word ch then copy_word (m(tb := ch)) (p + 1) (tb + 1)
      else Some (ch, m, p, tb))"

text \<open>
  The variables of \<open>lexan\<close>, the memory with the line and the token buffer, and the
  value returned from inside the loop, if any.  \<open>tlen\<close> is set only on success.
\<close>

record lexst =
  lmem :: bytes
  lptr :: int
  tbindex :: int
  ntok :: int
  tlen :: "int option"
  tok :: "int \<Rightarrow> int"
  toktyp :: "int \<Rightarrow> int"
  lret :: "int option"

text \<open>One of the three operators: a character and a null, in the token buffer at \<open>tokbuf\<close>.\<close>

definition put_operator :: "int \<Rightarrow> 8 word \<Rightarrow> int \<Rightarrow> lexst \<Rightarrow> lexst" where
  "put_operator tokbuf ch ty s =
     s\<lparr>lmem := (lmem s)(tokbuf + tbindex s := ch, tokbuf + tbindex s + 1 := NULLCH), lptr := lptr s + 1,
       tbindex := tbindex s + 2, ntok := ntok s + 1, tok := (tok s)(ntok s := tbindex s), toktyp := (toktyp s)(ntok s := ty)\<rparr>"

text \<open>The body of the main loop.\<close>

definition lexan_body :: "int \<Rightarrow> lexst \<Rightarrow> lexst option" where
  "lexan_body tokbuf s =
     (if ntok s \<ge> SHELL_MAXTOK then Some (s\<lparr>lret := Some (-1)\<rparr>)
      else do {
        p \<leftarrow> skip_white (lmem s) (lptr s);
        let s = s\<lparr>lptr := p\<rparr>;
        let ch = lmem s p;
        if ch = SH_NEWLINE \<or> ch = NULLCH then Some (s\<lparr>tlen := Some (tbindex s), lret := Some (ntok s)\<rparr>)
        else if ch = SH_AMPER then Some (put_operator tokbuf ch SH_TOK_AMPER s)
        else if ch = SH_LESS then Some (put_operator tokbuf ch SH_TOK_LESS s)
        else if ch = SH_GREATER then Some (put_operator tokbuf ch SH_TOK_GREATER s)
        else do {
          let s = s\<lparr>tok := (tok s)(ntok s := tbindex s), toktyp := (toktyp s)(ntok s := SH_TOK_OTHER)\<rparr>;
          if ch = SH_SQUOTE \<or> ch = SH_DQUOTE then do {
            (c, m, p, t) \<leftarrow> copy_quoted ch (lmem s) (p + 1) (tokbuf + tbindex s);
            let s = s\<lparr>lmem := m, lptr := p, tbindex := t - tokbuf\<rparr>;
            if c \<noteq> ch then Some (s\<lparr>lret := Some (-1)\<rparr>)
            else Some (s\<lparr>lmem := (lmem s)(t := NULLCH), tbindex := tbindex s + 1, ntok := ntok s + 1\<rparr>)
          } else do {
            (c, m, p, t) \<leftarrow> copy_word ((lmem s)(tokbuf + tbindex s := ch)) (p + 1) (tokbuf + tbindex s + 1);
            let s = s\<lparr>lmem := m, lptr := p, tbindex := t - tokbuf\<rparr>;
            if c = SH_SQUOTE \<or> c = SH_DQUOTE \<or> c = SH_LESS \<or> c = SH_GREATER then Some (s\<lparr>lret := Some (-1)\<rparr>)
            else Some (s\<lparr>lmem := (lmem s)(t := NULLCH), tbindex := tbindex s + 1, ntok := ntok s + 1\<rparr>)
          }
        }
      })"

partial_function (option) lexan_loop :: "int \<Rightarrow> lexst \<Rightarrow> lexst option" where
  "lexan_loop tokbuf s =
     (if lret s = None \<and> lmem s (lptr s) \<noteq> NULLCH \<and> lmem s (lptr s) \<noteq> SH_NEWLINE
      then do { s \<leftarrow> lexan_body tokbuf s; lexan_loop tokbuf s }
      else Some s)"

definition lexan :: "int \<Rightarrow> int \<Rightarrow> bytes \<Rightarrow> (int \<times> lexst) option" where
  "lexan line tokbuf m = do {
     s \<leftarrow> lexan_loop tokbuf \<lparr>lmem = m, lptr = line, tbindex = 0, ntok = 0, tlen = None,
       tok = (\<lambda>_. 0), toktyp = (\<lambda>_. 0), lret = None\<rparr>;
     Some (case lret s of Some r \<Rightarrow> (r, s) | None \<Rightarrow> (ntok s, s\<lparr>tlen := Some (tbindex s)\<rparr>))
   }"

section \<open>The reference\<close>

datatype token = TAmper | TLess | TGreater | TOther "8 word list"

fun tok_text :: "token \<Rightarrow> 8 word list" where
  "tok_text TAmper = [SH_AMPER]"
| "tok_text TLess = [SH_LESS]"
| "tok_text TGreater = [SH_GREATER]"
| "tok_text (TOther cs) = cs"

fun tok_type :: "token \<Rightarrow> int" where
  "tok_type TAmper = SH_TOK_AMPER"
| "tok_type TLess = SH_TOK_LESS"
| "tok_type TGreater = SH_TOK_GREATER"
| "tok_type (TOther cs) = SH_TOK_OTHER"

definition white :: "8 word \<Rightarrow> bool" where
  "white c \<longleftrightarrow> c = SH_BLANK \<or> c = SH_TAB"

definition quotes :: "8 word \<Rightarrow> bool" where
  "quotes c \<longleftrightarrow> c = SH_SQUOTE \<or> c = SH_DQUOTE"

text \<open>A word may not be followed at once by a quote or a redirection.\<close>

definition joins :: "8 word list \<Rightarrow> bool" where
  "joins cs \<longleftrightarrow> (case cs of [] \<Rightarrow> False | c # _ \<Rightarrow> quotes c \<or> c = SH_LESS \<or> c = SH_GREATER)"

text \<open>The first token of a line without leading white space, and the rest of the line.\<close>

definition first_token :: "8 word \<Rightarrow> 8 word list \<Rightarrow> (token \<times> 8 word list) option" where
  "first_token c cs =
     (if c = SH_AMPER then Some (TAmper, cs)
      else if c = SH_LESS then Some (TLess, cs)
      else if c = SH_GREATER then Some (TGreater, cs)
      else if quotes c then
        (case dropWhile (\<lambda>d. d \<noteq> c) cs of [] \<Rightarrow> None
         | _ # rest \<Rightarrow> Some (TOther (takeWhile (\<lambda>d. d \<noteq> c) cs), rest))
      else
        let rest = dropWhile (\<lambda>d. \<not> ends_word d) cs
        in if joins rest then None else Some (TOther (c # takeWhile (\<lambda>d. \<not> ends_word d) cs), rest))"

lemma first_token_length: "first_token c cs = Some (t, rest) \<Longrightarrow> length rest \<le> length cs"
proof -
  have "length (dropWhile P cs) \<le> length cs" for P by (rule length_dropWhile_le)
  moreover have "dropWhile P cs = x # xs \<Longrightarrow> length xs \<le> length cs" for P x xs
    by (metis length_dropWhile_le length_Cons Suc_leD)
  moreover assume "first_token c cs = Some (t, rest)"
  ultimately show ?thesis by (auto simp: first_token_def Let_def split: if_splits list.splits)
qed

function (sequential) lex :: "nat \<Rightarrow> 8 word list \<Rightarrow> token list option" where
  "lex n [] = Some []"
| "lex n cs =
     (if n = 0 then None
      else case dropWhile white cs of [] \<Rightarrow> Some []
        | c # cs' \<Rightarrow> (case first_token c cs' of None \<Rightarrow> None
            | Some (t, rest) \<Rightarrow> map_option ((#) t) (lex (n - 1) rest)))"
  by pat_completeness auto
termination by (relation "measure fst") auto

text \<open>The token buffer: every token followed by a null; and where each starts.\<close>

definition flat :: "token list \<Rightarrow> 8 word list" where
  "flat ts = concat (map (\<lambda>t. tok_text t @ [NULLCH]) ts)"

section \<open>The loops\<close>

fun line_at :: "bytes \<Rightarrow> int \<Rightarrow> 8 word list \<Rightarrow> bool" where
  "line_at m p [] \<longleftrightarrow> m p = NULLCH \<or> m p = SH_NEWLINE"
| "line_at m p (c # cs) \<longleftrightarrow> m p = c \<and> c \<noteq> NULLCH \<and> c \<noteq> SH_NEWLINE \<and> line_at m (p + 1) cs"

lemma line_at_cong: "(\<And>a. p \<le> a \<Longrightarrow> a \<le> p + int (length cs) \<Longrightarrow> m' a = m a) \<Longrightarrow> line_at m' p cs = line_at m p cs"
  by (induction cs arbitrary: p) simp_all

lemma line_at_drop: "line_at m p (xs @ ys) \<Longrightarrow> line_at m (p + int (length xs)) ys"
proof (induction xs arbitrary: p)
  case (Cons x xs)
  then show ?case using Cons.IH [of "p + 1"] by (simp add: add.assoc)
qed simp

lemma skip_white_ok:
  "line_at m p cs \<Longrightarrow> skip_white m p = Some (p + int (length (takeWhile white cs)))
    \<and> line_at m (p + int (length (takeWhile white cs))) (dropWhile white cs)"
proof (induction cs arbitrary: p)
  case Nil
  then show ?case by (subst skip_white.simps) auto
next
  case (Cons c cs)
  have "white c \<longleftrightarrow> m p = 32 \<or> m p = 9" using Cons.prems by (auto simp: white_def)
  then show ?case using Cons.IH [of "p + 1"] Cons.prems
    by (cases "white c") (subst skip_white.simps, simp add: add.assoc)+
qed

text \<open>The copying loops write behind what they read, or elsewhere.\<close>

definition clear :: "int \<Rightarrow> nat \<Rightarrow> int \<Rightarrow> nat \<Rightarrow> bool" where
  "clear p n q k \<longleftrightarrow> p + int n < q \<or> q + int k \<le> p"

lemma copy_quoted_ok:
  "line_at m p cs \<Longrightarrow> q \<noteq> 0 \<Longrightarrow> q \<noteq> 10 \<Longrightarrow> clear p (length cs) t (length cs) \<Longrightarrow>
   \<exists>ch. copy_quoted q m p t = Some (ch, poke m t (takeWhile (\<lambda>d. d \<noteq> q) cs), p + int (length (takeWhile (\<lambda>d. d \<noteq> q) cs)) + 1,
     t + int (length (takeWhile (\<lambda>d. d \<noteq> q) cs))) \<and> (ch = q \<longleftrightarrow> dropWhile (\<lambda>d. d \<noteq> q) cs \<noteq> [])"
proof (induction cs arbitrary: p m t)
  case Nil
  then show ?case by (subst copy_quoted.simps) auto
next
  case (Cons c cs)
  have "line_at (m(t := c)) (p + 1) cs = line_at m (p + 1) cs"
    by (rule line_at_cong) (use Cons.prems(4) in \<open>auto simp: clear_def\<close>)
  moreover have "clear (p + 1) (length cs) (t + 1) (length cs)" using Cons.prems(4) by (auto simp: clear_def)
  moreover have "line_at m (p + 1) cs" and c: "m p = c" "c \<noteq> 0" "c \<noteq> 10" using Cons.prems(1) by simp_all
  ultimately obtain ch where IH: "copy_quoted q (m(t := c)) (p + 1) (t + 1) = Some (ch, poke (m(t := c)) (t + 1) (takeWhile (\<lambda>d. d \<noteq> q) cs),
      p + 1 + int (length (takeWhile (\<lambda>d. d \<noteq> q) cs)) + 1, t + 1 + int (length (takeWhile (\<lambda>d. d \<noteq> q) cs)))"
    "ch = q \<longleftrightarrow> dropWhile (\<lambda>d. d \<noteq> q) cs \<noteq> []"
    using Cons.IH [of "m(t := c)" "p + 1" "t + 1"] Cons.prems(2,3) by blast
  show ?case
  proof (cases "c = q")
    case True
    then show ?thesis using c by (subst copy_quoted.simps) simp
  next
    case False
    then show ?thesis using c IH by (subst copy_quoted.simps) (simp add: add.assoc)
  qed
qed

lemma copy_word_ok:
  "line_at m p cs \<Longrightarrow> clear p (length cs) t (length cs) \<Longrightarrow>
   \<exists>ch. copy_word m p t = Some (ch, poke m t (takeWhile (\<lambda>d. \<not> ends_word d) cs), p + int (length (takeWhile (\<lambda>d. \<not> ends_word d) cs)),
     t + int (length (takeWhile (\<lambda>d. \<not> ends_word d) cs)))
     \<and> (case dropWhile (\<lambda>d. \<not> ends_word d) cs of [] \<Rightarrow> ch = 0 \<or> ch = 10 | c # _ \<Rightarrow> ch = c)"
proof (induction cs arbitrary: p m t)
  case Nil
  then show ?case by (subst copy_word.simps) (auto simp: ends_word_def)
next
  case (Cons c cs)
  have "line_at (m(t := c)) (p + 1) cs = line_at m (p + 1) cs"
    by (rule line_at_cong) (use Cons.prems(2) in \<open>auto simp: clear_def\<close>)
  moreover have "clear (p + 1) (length cs) (t + 1) (length cs)" using Cons.prems(2) by (auto simp: clear_def)
  moreover have "line_at m (p + 1) cs" and c: "m p = c" using Cons.prems(1) by simp_all
  ultimately obtain ch where IH: "copy_word (m(t := c)) (p + 1) (t + 1) = Some (ch, poke (m(t := c)) (t + 1) (takeWhile (\<lambda>d. \<not> ends_word d) cs),
      p + 1 + int (length (takeWhile (\<lambda>d. \<not> ends_word d) cs)), t + 1 + int (length (takeWhile (\<lambda>d. \<not> ends_word d) cs)))"
    "case dropWhile (\<lambda>d. \<not> ends_word d) cs of [] \<Rightarrow> ch = 0 \<or> ch = 10 | c # _ \<Rightarrow> ch = c"
    using Cons.IH [of "m(t := c)" "p + 1" "t + 1"] by blast
  show ?case
  proof (cases "ends_word c")
    case True
    then show ?thesis using c by (subst copy_word.simps) simp
  next
    case False
    then show ?thesis using c IH by (subst copy_word.simps) (simp add: add.assoc)
  qed
qed

section \<open>The analyser meets the reference\<close>

text \<open>One token: what it consumes, and that its text fits.\<close>

lemma first_token_split:
  assumes "first_token c cs = Some (t, rest)"
  shows "\<exists>pre. c # cs = pre @ rest \<and> length (tok_text t) + 1 \<le> 2 * length pre \<and> length (tok_text t) \<le> length pre"
proof -
  consider (op) "t \<in> {TAmper, TLess, TGreater}" "rest = cs"
    | (quoted) d where "quotes c" "dropWhile (\<lambda>d. d \<noteq> c) cs = d # rest" "t = TOther (takeWhile (\<lambda>d. d \<noteq> c) cs)"
    | (word) "rest = dropWhile (\<lambda>d. \<not> ends_word d) cs" "t = TOther (c # takeWhile (\<lambda>d. \<not> ends_word d) cs)"
    using assms by (auto simp: first_token_def Let_def split: if_splits list.splits)
  then show ?thesis
  proof cases
    case op
    then show ?thesis by (intro exI [of _ "[c]"]) auto
  next
    case quoted
    have "cs = takeWhile (\<lambda>d. d \<noteq> c) cs @ d # rest" using takeWhile_dropWhile_id [of "\<lambda>d. d \<noteq> c" cs] quoted(2) by simp
    then show ?thesis using quoted(3) by (intro exI [of _ "c # takeWhile (\<lambda>d. d \<noteq> c) cs @ [d]"]) simp
  next
    case word
    then show ?thesis by (intro exI [of _ "c # takeWhile (\<lambda>d. \<not> ends_word d) cs"]) simp
  qed
qed

definition one_token :: "int \<Rightarrow> token \<Rightarrow> int \<Rightarrow> lexst \<Rightarrow> lexst" where
  "one_token tokbuf t p s = s\<lparr>lmem := poke (lmem s) (tokbuf + tbindex s) (tok_text t @ [NULLCH]), lptr := p,
     tbindex := tbindex s + int (length (tok_text t)) + 1, ntok := ntok s + 1,
     tok := (tok s)(ntok s := tbindex s), toktyp := (toktyp s)(ntok s := tok_type t)\<rparr>"

lemma one_token_eq:
  "lmem s' = poke (lmem s) (tokbuf + tbindex s) (tok_text t @ [NULLCH]) \<Longrightarrow> lptr s' = p \<Longrightarrow>
   tbindex s' = tbindex s + int (length (tok_text t)) + 1 \<Longrightarrow> ntok s' = ntok s + 1 \<Longrightarrow> tlen s' = tlen s \<Longrightarrow> lret s' = lret s \<Longrightarrow>
   tok s' = (tok s)(ntok s := tbindex s) \<Longrightarrow> toktyp s' = (toktyp s)(ntok s := tok_type t) \<Longrightarrow> s' = one_token tokbuf t p s"
  by (rule lexst.equality) (simp_all add: one_token_def)

lemma lexan_body_ok:
  assumes l: "line_at (lmem s) (lptr s) cs" and n: "ntok s < 32"
    and room: "clear (lptr s) (length cs) (tokbuf + tbindex s) (2 * length cs)"
  shows "case dropWhile white cs of
      [] \<Rightarrow> \<exists>p. lexan_body tokbuf s = Some (s\<lparr>lptr := p, tlen := Some (tbindex s), lret := Some (ntok s)\<rparr>)
    | c # cs' \<Rightarrow> (case first_token c cs' of
        None \<Rightarrow> \<exists>s'. lexan_body tokbuf s = Some s' \<and> lret s' = Some (-1)
      | Some (t, rest) \<Rightarrow> lexan_body tokbuf s = Some (one_token tokbuf t (lptr s + int (length cs - length rest)) s))"
proof -
  define m p tb where "m = lmem s" and "p = lptr s + int (length (takeWhile white cs))" and "tb = tokbuf + tbindex s"
  note W = skip_white_ok [OF l, folded m_def p_def]
  have len: "length (takeWhile white cs) + length (dropWhile white cs) = length cs"
    by (metis length_append takeWhile_dropWhile_id)
  show ?thesis
  proof (cases "dropWhile white cs")
    case Nil
    have e: "m p = 0 \<or> m p = 10" and k: "skip_white m (lptr s) = Some p" using W unfolding Nil by simp_all
    show ?thesis unfolding Nil using e k n by (auto simp: lexan_body_def m_def)
  next
    case (Cons c cs')
    have L: "m p = c" "c \<noteq> 0" "c \<noteq> 10" "line_at m (p + 1) cs'" using W Cons by simp_all
    have pc: "lptr s + int (length cs) = p + 1 + int (length cs')" using len Cons by (simp add: p_def)
    have cl: "clear (p + 1) (length cs') tb (2 * length cs)" "clear (p + 1) (length cs') (tb + 1) (length cs')" "clear p (length cs') tb 1"
      using room len Cons by (auto simp: clear_def p_def tb_def)
    have skip: "skip_white (lmem s) (lptr s) = Some p" using W by (simp add: m_def)
    show ?thesis
    proof (cases "c = 38 \<or> c = 60 \<or> c = 62")
      case True
      then show ?thesis using n L pc len Cons skip
        by (auto simp: lexan_body_def first_token_def put_operator_def m_def p_def intro!: one_token_eq)
    next
      case op: False
      show ?thesis
      proof (cases "quotes c")
        case True
        have "clear (p + 1) (length cs') tb (length cs')" using cl(1) len Cons by (auto simp: clear_def)
        from copy_quoted_ok [OF L(4,2,3) this] obtain ch where
          Q: "copy_quoted c m (p + 1) tb = Some (ch, poke m tb (takeWhile (\<lambda>d. d \<noteq> c) cs'), p + 1 + int (length (takeWhile (\<lambda>d. d \<noteq> c) cs')) + 1,
            tb + int (length (takeWhile (\<lambda>d. d \<noteq> c) cs')))" "ch = c \<longleftrightarrow> dropWhile (\<lambda>d. d \<noteq> c) cs' \<noteq> []" by blast
        show ?thesis
        proof (cases "dropWhile (\<lambda>d. d \<noteq> c) cs'")
          case Nil
          then show ?thesis using Q n L op True Cons skip
            by (auto simp: lexan_body_def first_token_def quotes_def m_def tb_def simp del: dropWhile_eq_Nil_conv)
        next
          case D: (Cons d rest)
          have "length (takeWhile (\<lambda>d. d \<noteq> c) cs') + length (d # rest) = length cs'"
            by (metis D length_append takeWhile_dropWhile_id)
          then have "int (length cs - length rest) = p - lptr s + 2 + int (length (takeWhile (\<lambda>d. d \<noteq> c) cs'))"
            using len Cons by (simp add: p_def)
          then show ?thesis using D Q n L op True Cons skip
            by (auto simp: lexan_body_def first_token_def quotes_def m_def tb_def poke_append intro!: one_token_eq)
        qed
      next
        case False
        have "line_at (m(tb := c)) (p + 1) cs' = line_at m (p + 1) cs'"
          by (rule line_at_cong) (use cl(1) len Cons in \<open>auto simp: clear_def\<close>)
        then have "line_at (m(tb := c)) (p + 1) cs'" using L(4) by simp
        from copy_word_ok [OF this cl(2)] obtain ch where
          Q: "copy_word (m(tb := c)) (p + 1) (tb + 1) = Some (ch, poke (m(tb := c)) (tb + 1) (takeWhile (\<lambda>d. \<not> ends_word d) cs'),
            p + 1 + int (length (takeWhile (\<lambda>d. \<not> ends_word d) cs')), tb + 1 + int (length (takeWhile (\<lambda>d. \<not> ends_word d) cs')))"
            "case dropWhile (\<lambda>d. \<not> ends_word d) cs' of [] \<Rightarrow> ch = 0 \<or> ch = 10 | c # _ \<Rightarrow> ch = c" by blast
        define rest where "rest = dropWhile (\<lambda>d. \<not> ends_word d) cs'"
        have j: "joins rest \<longleftrightarrow> ch = 39 \<or> ch = 34 \<or> ch = 60 \<or> ch = 62"
          using Q(2) unfolding rest_def [symmetric] by (auto simp: joins_def quotes_def split: list.splits)
        have "length (takeWhile (\<lambda>d. \<not> ends_word d) cs') + length rest = length cs'"
          unfolding rest_def by (metis length_append takeWhile_dropWhile_id)
        then have "int (length cs - length rest) = p - lptr s + 1 + int (length (takeWhile (\<lambda>d. \<not> ends_word d) cs'))"
          using len Cons by (simp add: p_def)
        then show ?thesis using Q(1) n L op False Cons skip j
          by (auto simp: lexan_body_def first_token_def quotes_def m_def tb_def poke_append Let_def rest_def [symmetric] intro!: one_token_eq)
      qed
    qed
  qed
qed

text \<open>The state after the tokens \<open>ts\<close> were added to those of \<open>s\<close>.\<close>

definition lexed :: "int \<Rightarrow> token list \<Rightarrow> lexst \<Rightarrow> lexst \<Rightarrow> bool" where
  "lexed tokbuf ts s s' \<longleftrightarrow> lmem s' = poke (lmem s) (tokbuf + tbindex s) (flat ts)
     \<and> tbindex s' = tbindex s + int (length (flat ts)) \<and> ntok s' = ntok s + int (length ts)
     \<and> (\<forall>i < length ts. tok s' (ntok s + int i) = tbindex s + int (length (flat (take i ts)))
          \<and> toktyp s' (ntok s + int i) = tok_type (ts ! i))
     \<and> (\<forall>k < ntok s. tok s' k = tok s k \<and> toktyp s' k = toktyp s k)"

lemma flat_Nil [simp]: "flat [] = []"
  by (simp add: flat_def)

lemma flat_Cons [simp]: "flat (t # ts) = tok_text t @ NULLCH # flat ts"
  by (simp add: flat_def)

lemma lexed_Nil: "lexed tokbuf [] s s' \<longleftrightarrow> lmem s' = lmem s \<and> tbindex s' = tbindex s \<and> ntok s' = ntok s
    \<and> (\<forall>k < ntok s. tok s' k = tok s k \<and> toktyp s' k = toktyp s k)"
  by (auto simp: lexed_def)

lemma lexed_Cons:
  assumes "lexed tokbuf ts (one_token tokbuf t p s) s'"
  shows "lexed tokbuf (t # ts) s s'"
proof -
  have "tok s' (ntok s + int i) = tbindex s + int (length (flat (take i (t # ts))))
      \<and> toktyp s' (ntok s + int i) = tok_type ((t # ts) ! i)" if "i < length (t # ts)" for i
    using assms that by (cases i) (auto simp: lexed_def one_token_def add.assoc add.commute add.left_commute)
  moreover have "lmem s' = poke (lmem s) (tokbuf + tbindex s) (flat (t # ts))"
    using assms poke_append [of "lmem s" "tokbuf + tbindex s" "tok_text t @ [0]" "flat ts"]
    by (simp add: lexed_def one_token_def ac_simps)
  ultimately show ?thesis using assms unfolding lexed_def by (auto simp: one_token_def)
qed

lemma lexan_loop_ok:
  assumes "n = nat (32 - ntok s)" "0 \<le> ntok s" "lret s = None" "line_at (lmem s) (lptr s) cs"
    and "clear (lptr s) (length cs) (tokbuf + tbindex s) (2 * length cs)"
  shows "\<exists>s'. lexan_loop tokbuf s = Some s' \<and> (case lex n cs of None \<Rightarrow> lret s' = Some (-1)
    | Some ts \<Rightarrow> lexed tokbuf ts s s' \<and> (lret s' = None \<or> lret s' = Some (ntok s') \<and> tlen s' = Some (tbindex s')))"
  using assms
proof (induction n cs arbitrary: s rule: lex.induct)
  case (1 n)
  then show ?case by (subst lexan_loop.simps) (auto simp: lexed_Nil)
next
  case (2 n c cs)
  let ?cs = "c # cs"
  have go: "lexan_loop tokbuf s = do { s \<leftarrow> lexan_body tokbuf s; lexan_loop tokbuf s }"
    using 2(4,5) by (subst lexan_loop.simps) simp
  have stop: "lexan_loop tokbuf s' = Some s'" if "lret s' \<noteq> None" for s'
    using that by (subst lexan_loop.simps) auto
  show ?case
  proof (cases "n = 0")
    case True
    then have "lexan_body tokbuf s = Some (s\<lparr>lret := Some (-1)\<rparr>)" using 2(2,3) by (simp add: lexan_body_def)
    then show ?thesis using True go by (simp add: stop)
  next
    case False
    then have n: "ntok s < 32" using 2(2) by simp
    note B = lexan_body_ok [OF 2(5) n 2(6)]
    show ?thesis
    proof (cases "dropWhile white ?cs")
      case Nil
      from B obtain p where "lexan_body tokbuf s = Some (s\<lparr>lptr := p, tlen := Some (tbindex s), lret := Some (ntok s)\<rparr>)"
        unfolding Nil by auto
      then show ?thesis using Nil False go by (simp add: stop lexed_Nil del: dropWhile_eq_Nil_conv)
    next
      case W: (Cons d ds)
      show ?thesis
      proof (cases "first_token d ds")
        case None
        then obtain s' where "lexan_body tokbuf s = Some s'" "lret s' = Some (-1)" using B W by auto
        then show ?thesis using W None False go by (simp add: stop)
      next
        case F: (Some tr)
        obtain t rest where tr: "tr = (t, rest)" by (cases tr)
        let ?s = "one_token tokbuf t (lptr s + int (length ?cs - length rest)) s"
        have body: "lexan_body tokbuf s = Some ?s" using B W F tr by simp
        obtain pre where pre: "d # ds = pre @ rest" "length (tok_text t) + 1 \<le> 2 * length pre"
          using first_token_split F tr by blast
        have whole: "?cs = (takeWhile white ?cs @ pre) @ rest" using pre(1) W takeWhile_dropWhile_id [of white ?cs] by simp
        define k where "k = length (takeWhile white ?cs @ pre)"
        have k: "length ?cs = k + length rest" "length (tok_text t) + 1 \<le> 2 * k"
          using arg_cong [OF whole, of length] pre(2) by (simp_all add: k_def del: takeWhile.simps)
        have "line_at (lmem s) (lptr s + int k) rest"
          using line_at_drop [of "lmem s" "lptr s" "takeWhile white ?cs @ pre" rest] 2(5) whole by (simp only: k_def)
        moreover have "line_at (lmem ?s) (lptr s + int k) rest = line_at (lmem s) (lptr s + int k) rest"
        proof (rule line_at_cong)
          fix a assume a: "lptr s + int k \<le> a" "a \<le> lptr s + int k + int (length rest)"
          have "a < tokbuf + tbindex s \<or> tokbuf + tbindex s + int (length (tok_text t @ [NULLCH])) \<le> a"
            using 2(6) a k unfolding clear_def by auto
          then show "lmem ?s a = lmem s a" by (auto simp: one_token_def poke_below poke_above)
        qed
        moreover have "lptr ?s = lptr s + int k" using k(1) by (simp add: one_token_def)
        ultimately have line: "line_at (lmem ?s) (lptr ?s) rest" by simp
        have room: "clear (lptr ?s) (length rest) (tokbuf + tbindex ?s) (2 * length rest)"
          using 2(6) k unfolding clear_def one_token_def by auto
        have "n - 1 = nat (32 - ntok ?s)" "0 \<le> ntok ?s" "lret ?s = None" using n 2(2-4) by (auto simp: one_token_def)
        from 2(1) [OF False W F tr [symmetric] this line room]
        obtain s' where IH: "lexan_loop tokbuf ?s = Some s'" "case lex (n - 1) rest of None \<Rightarrow> lret s' = Some (-1)
            | Some ts \<Rightarrow> lexed tokbuf ts ?s s' \<and> (lret s' = None \<or> lret s' = Some (ntok s') \<and> tlen s' = Some (tbindex s'))"
          by blast
        show ?thesis using IH W F tr False go body by (cases "lex (n - 1) rest") (auto intro: lexed_Cons)
      qed
    qed
  qed
qed

lemma first_token_text: "first_token c cs = Some (t, rest) \<Longrightarrow> length (tok_text t) + length rest \<le> Suc (length cs)"
  by (drule first_token_split) (auto dest: arg_cong [where f = length])

lemma lex_flat: "lex n cs = Some ts \<Longrightarrow> length ts \<le> n \<and> length (flat ts) \<le> length cs + length ts"
proof (induction n cs arbitrary: ts rule: lex.induct)
  case (2 n c cs)
  show ?case
  proof (cases "dropWhile white (c # cs)")
    case Nil
    then show ?thesis using 2(2) by (simp split: if_splits del: dropWhile.simps dropWhile_eq_Nil_conv)
  next
    case W: (Cons d ds)
    then have l: "length ds \<le> length cs" using length_dropWhile_le [of white "c # cs"] by simp
    from 2(2) W obtain t rest us where F: "first_token d ds = Some (t, rest)" "lex (n - 1) rest = Some us" "ts = t # us" "n \<noteq> 0"
      by (auto split: if_splits option.splits)
    from 2(1) [OF F(4) W F(1) _ F(2)] first_token_text [OF F(1)] l F(3,4) show ?thesis by auto
  qed
qed simp

text \<open>Tokens printed, every word in double quotes, no white space needed.\<close>

fun show_token :: "token \<Rightarrow> 8 word list" where
  "show_token (TOther cs) = SH_DQUOTE # cs @ [SH_DQUOTE]"
| "show_token t = tok_text t"

definition show_tokens :: "token list \<Rightarrow> 8 word list" where
  "show_tokens ts = concat (map show_token ts)"

fun plain :: "token \<Rightarrow> bool" where
  "plain (TOther cs) \<longleftrightarrow> SH_DQUOTE \<notin> set cs"
| "plain _ \<longleftrightarrow> True"

lemma lex_show_one:
  assumes "plain t" "0 < n"
  shows "lex n (show_token t @ cs) = map_option ((#) t) (lex (n - 1) cs)"
proof (cases t)
  case (TOther w)
  have "takeWhile (\<lambda>d. d \<noteq> 34) (w @ 34 # cs) = w" "dropWhile (\<lambda>d. d \<noteq> 34) (w @ 34 # cs) = 34 # cs"
    using assms(1) unfolding TOther by (induction w) simp_all
  then show ?thesis using assms(2) TOther by (simp add: white_def first_token_def quotes_def)
qed (use assms(2) in \<open>simp_all add: white_def first_token_def\<close>)

lemma lex_show: "list_all plain ts \<Longrightarrow> length ts \<le> n \<Longrightarrow> lex n (show_tokens ts) = Some ts"
  by (induction ts arbitrary: n) (simp_all add: show_tokens_def lex_show_one)

section \<open>Properties\<close>

definition in_line :: "8 word list \<Rightarrow> bool" where
  "in_line cs \<longleftrightarrow> NULLCH \<notin> set cs \<and> SH_NEWLINE \<notin> set cs"

lemma line_at_poke: "in_line cs \<Longrightarrow> line_at (poke m p (cs @ [SH_NEWLINE])) p cs"
  by (induction cs arbitrary: m p) (simp_all add: in_line_def poke_below)

text \<open>What a successful call leaves: the count, the length, the buffer, the indices and the types.\<close>

definition tokenised :: "int \<Rightarrow> bytes \<Rightarrow> token list \<Rightarrow> int \<times> lexst \<Rightarrow> bool" where
  "tokenised tokbuf m ts r \<longleftrightarrow> fst r = int (length ts) \<and> tlen (snd r) = Some (int (length (flat ts)))
     \<and> lmem (snd r) = poke m tokbuf (flat ts)
     \<and> (\<forall>i < length ts. tok (snd r) (int i) = int (length (flat (take i ts))) \<and> toktyp (snd r) (int i) = tok_type (ts ! i))"

lemma lexan_ok:
  assumes "line_at m line cs" "clear line (length cs) tokbuf (2 * length cs)"
  shows "\<exists>r. lexan line tokbuf m = Some r \<and> (case lex 32 cs of None \<Rightarrow> fst r = -1 | Some ts \<Rightarrow> tokenised tokbuf m ts r)"
proof -
  let ?s = "\<lparr>lmem = m, lptr = line, tbindex = 0, ntok = 0, tlen = None, tok = (\<lambda>_. 0), toktyp = (\<lambda>_. 0), lret = None\<rparr>"
  from lexan_loop_ok [of 32 ?s cs tokbuf] assms obtain s' where l: "lexan_loop tokbuf ?s = Some s'"
    "case lex 32 cs of None \<Rightarrow> lret s' = Some (-1)
     | Some ts \<Rightarrow> lexed tokbuf ts ?s s' \<and> (lret s' = None \<or> lret s' = Some (ntok s') \<and> tlen s' = Some (tbindex s'))" by auto
  show ?thesis
  proof (cases "lex 32 cs")
    case None
    then show ?thesis using l by (simp add: lexan_def)
  next
    case (Some ts)
    then show ?thesis using l by (auto simp: lexan_def tokenised_def lexed_def)
  qed
qed

text \<open>C31: \<open>lexan\<close> is the reference lexer.  On every line, with a token buffer apart from it, the
  call ends; it returns SYSERR exactly when the reference finds no list of at most 32 tokens, and
  otherwise the number of tokens, with their texts, each followed by a null, in the buffer, and
  their positions and types in the two arrays.\<close>

theorem lexan_equals:
  assumes "line_at m line cs" "clear line (length cs) tokbuf (2 * length cs)"
  shows "\<exists>r. lexan line tokbuf m = Some r \<and> (case lex 32 cs of None \<Rightarrow> fst r = -1 | Some ts \<Rightarrow> tokenised tokbuf m ts r)"
  using lexan_ok [OF assms] .

theorem lexan_equals_witness:
  "\<exists>r. lexan 0 100 (poke (\<lambda>_. 0) 0 [108, 115, 32, 62, 102, 10]) = Some r
     \<and> tokenised 100 (poke (\<lambda>_. 0) 0 [108, 115, 32, 62, 102, 10]) [TOther [108, 115], TGreater, TOther [102]] r"
proof -
  let ?m = "poke (\<lambda>_. 0) 0 [108, 115, 32, 62, 102, 10]" and ?l = "[108, 115, 32, 62, 102]"
  have l: "lex 32 ?l = Some [TOther [108, 115], TGreater, TOther [102]]"
    by (simp add: white_def first_token_def quotes_def ends_word_def joins_def)
  have "line_at ?m 0 ?l" "clear 0 (length ?l) 100 (2 * length ?l)" by (simp_all add: clear_def)
  from lexan_equals [OF this] show ?thesis unfolding l by simp
qed

text \<open>C32: every list of at most 32 tokens can be typed: with the words in double quotes, and no
  white space, \<open>lexan\<close> gives the tokens back.  A word may be empty and may hold any
  character but a double quote, a newline and a null.  The buffer is never filled past the characters
  of the line plus one null per token, the size \<open>SHELL_ARGLEN\<close> the shell reserves.\<close>

theorem lexan_roundtrip:
  assumes "list_all plain ts" "length ts \<le> 32" "in_line (show_tokens ts)"
    and "clear line (length (show_tokens ts)) tokbuf (2 * length (show_tokens ts))"
  shows "\<exists>r. lexan line tokbuf (poke m line (show_tokens ts @ [SH_NEWLINE])) = Some r
    \<and> tokenised tokbuf (poke m line (show_tokens ts @ [SH_NEWLINE])) ts r
    \<and> length (flat ts) \<le> length (show_tokens ts) + length ts"
  using lexan_ok [OF line_at_poke [OF assms(3)] assms(4)] lex_show [OF assms(1,2)] lex_flat [OF lex_show [OF assms(1,2)]] by auto

theorem lexan_roundtrip_witness:
  "\<exists>r. lexan 0 100 (poke (\<lambda>_. 0) 0 (show_tokens [TOther [97, 32, 62], TAmper, TOther []] @ [SH_NEWLINE])) = Some r
    \<and> tokenised 100 (poke (\<lambda>_. 0) 0 (show_tokens [TOther [97, 32, 62], TAmper, TOther []] @ [SH_NEWLINE])) [TOther [97, 32, 62], TAmper, TOther []] r"
  using lexan_roundtrip [of "[TOther [97, 32, 62], TAmper, TOther []]" 0 100 "\<lambda>_. 0"]
  by (auto simp: show_tokens_def in_line_def clear_def)

end
