(* ===== verification/Nam.thy ===== *)
theory Nam
  imports Devs
begin

text \<open>
  The name space, \<open>device/nam/\<close>: a table of prefixes, each with a replacement and a device,
  by which the name given to \<open>open\<close> is mapped to a name on a device.  The table lies in
  memory at \<open>nametab\<close>, 164 bytes per entry; the local buffers of the routines are
  parameters, as are the addresses of the string literals (\<open>lit\<close>).  The specification is a
  list of prefixes searched from its front.
\<close>

section \<open>The code\<close>

abbreviation (input) NM_PRELEN :: int where "NM_PRELEN \<equiv> 64"
abbreviation (input) NM_REPLLEN :: int where "NM_REPLLEN \<equiv> 96"
abbreviation (input) NM_MAXLEN :: int where "NM_MAXLEN \<equiv> 256"
abbreviation (input) NNAMES :: int where "NNAMES \<equiv> 40"
abbreviation (input) NULLDEV :: int where "NULLDEV \<equiv> 1"
abbreviation (input) RFILESYS :: int where "RFILESYS \<equiv> 6"
abbreviation (input) LFILESYS :: int where "LFILESYS \<equiv> 17"

record nmentries =
  nametab :: int
  ndevice :: "int \<Rightarrow> int"
  nnames :: int

text \<open>The addresses of the two arrays of an entry.\<close>

definition nprefix :: "nmentries \<Rightarrow> int \<Rightarrow> int" where
  "nprefix ns i = nametab ns + 164 * i"

definition nreplace :: "nmentries \<Rightarrow> int \<Rightarrow> int" where
  "nreplace ns i = nametab ns + 164 * i + 64"

function namlen_loop :: "bytes \<Rightarrow> int \<Rightarrow> int \<Rightarrow> int \<Rightarrow> int" where
  "namlen_loop m name i maxlen =
     (if i < maxlen then if m name = 0 then i + 1 else namlen_loop m (name + 1) (i + 1) maxlen else SYSERR)"
  by auto
termination by (relation "measure (\<lambda>(m, p, i, n). nat (n - i))") auto

definition namlen :: "bytes \<Rightarrow> int \<Rightarrow> int \<Rightarrow> int" where
  "namlen m name maxlen = namlen_loop m name 0 maxlen"

text \<open>The copy loops of \<open>mount\<close> and \<open>namrepl\<close> are those of \<open>memcpy\<close>.\<close>

definition mount :: "int \<Rightarrow> int \<Rightarrow> int \<Rightarrow> nmentries \<Rightarrow> bytes \<Rightarrow> int \<times> nmentries \<times> bytes" where
  "mount prefix repl device ns m =
     (let psiz = namlen m prefix NM_PRELEN; rsiz = namlen m repl NM_REPLLEN in
      if psiz = SYSERR \<or> rsiz = SYSERR \<or> isbaddev device \<or> nnames ns \<ge> NNAMES then (SYSERR, ns, m)
      else
        let i = nnames ns;
          m = memcpy_loop m (nprefix ns i) prefix 0 psiz;
          m = memcpy_loop m (nreplace ns i) repl 0 rsiz
        in (OK, ns\<lparr>ndevice := (ndevice ns)(i := device), nnames := i + 1\<rparr>, m))"

function namcpy_loop :: "bytes \<Rightarrow> int \<Rightarrow> int \<Rightarrow> int \<Rightarrow> int \<Rightarrow> int \<times> bytes" where
  "namcpy_loop m nptr optr cnt buflen =
     (if cnt < buflen then
        let c = m optr; m = m(nptr := c)
        in if c = 0 then (OK, m) else namcpy_loop m (nptr + 1) (optr + 1) (cnt + 1) buflen
      else (SYSERR, m))"
  by auto
termination by (relation "measure (\<lambda>(m, p, q, i, n). nat (n - i))") auto

definition namcpy :: "bytes \<Rightarrow> int \<Rightarrow> int \<Rightarrow> int \<Rightarrow> int \<times> bytes" where
  "namcpy m newname oldname buflen = namcpy_loop m newname oldname 0 buflen"

declare namlen_loop.simps [simp del] namcpy_loop.simps [simp del]

text \<open>Walks along a prefix and the name while they agree.\<close>

partial_function (option) prefix_walk :: "bytes \<Rightarrow> int \<Rightarrow> int \<Rightarrow> (int \<times> int) option" where
  "prefix_walk m pptr optr =
     (if m pptr \<noteq> 0 \<and> m pptr = m optr then prefix_walk m (pptr + 1) (optr + 1) else Some (pptr, optr))"

text \<open>The length of the name is kept in a \<open>char\<close>, which is unsigned.\<close>

definition olen_char :: "int \<Rightarrow> int" where
  "olen_char n = uint (word_of_int n :: 8 word)"

definition repl_copy :: "nmentries \<Rightarrow> int \<Rightarrow> int \<Rightarrow> int \<Rightarrow> int \<Rightarrow> bytes \<Rightarrow> int \<times> bytes" where
  "repl_copy ns i name newname optr m =
     (let plen = optr - name;
        olen = olen_char (namlen m name NM_MAXLEN);
        rlen = namlen m (nreplace ns i) NM_MAXLEN - 1;
        remain = olen - plen
      in if rlen + remain > NM_MAXLEN then (SYSERR, m)
         else
           let m = memcpy_loop m newname (nreplace ns i) 0 rlen;
             m = memcpy_loop m (newname + max 0 rlen) optr 0 remain
           in (ndevice ns i, m))"

fun namrepl_loop :: "nat \<Rightarrow> int \<Rightarrow> int \<Rightarrow> int \<Rightarrow> nmentries \<Rightarrow> bytes \<Rightarrow> (int \<times> bytes) option" where
  "namrepl_loop 0 i name newname ns m = Some (SYSERR, m)"
| "namrepl_loop (Suc n) i name newname ns m = do {
     (pptr, optr) \<leftarrow> prefix_walk m (nprefix ns i) name;
     if m pptr \<noteq> 0 then namrepl_loop n (i + 1) name newname ns m
     else Some (repl_copy ns i name newname optr m)
   }"

definition namrepl :: "int \<Rightarrow> int \<Rightarrow> nmentries \<Rightarrow> bytes \<Rightarrow> (int \<times> bytes) option" where
  "namrepl name newname ns m = namrepl_loop (nat (nnames ns)) 0 name newname ns m"

fun nammap_loop :: "nat \<Rightarrow> int \<Rightarrow> int \<Rightarrow> int \<Rightarrow> nmentries \<Rightarrow> bytes \<Rightarrow> (int \<times> bytes) option" where
  "nammap_loop 0 tmpname newname namdev ns m = Some (SYSERR, m)"
| "nammap_loop (Suc n) tmpname newname namdev ns m = do {
     (newdev, m) \<leftarrow> namrepl tmpname newname ns m;
     if newdev \<noteq> namdev then Some (newdev, snd (namcpy m tmpname newname NM_MAXLEN))
     else nammap_loop n tmpname newname namdev ns m
   }"

definition nammap :: "int \<Rightarrow> int \<Rightarrow> int \<Rightarrow> int \<Rightarrow> nmentries \<Rightarrow> bytes \<Rightarrow> (int \<times> bytes) option" where
  "nammap tmpname name newname namdev ns m =
     (let (r, m) = namcpy m tmpname name NM_MAXLEN in
      if r = SYSERR then Some (SYSERR, m) else nammap_loop (nat (nnames ns)) tmpname newname namdev ns m)"

definition namopen :: "nmentries \<Rightarrow> devtab \<Rightarrow> int \<Rightarrow> int \<Rightarrow> int \<Rightarrow> int \<Rightarrow> int \<Rightarrow> devcall" where
  "namopen ns devtab tmpname newname descrp name mode s = do {
     (newdev, m) \<leftarrow> nammap tmpname name newname (dvnum (devtab descrp)) ns (mem s);
     let s = s\<lparr>mem := m\<rparr>;
     if newdev = SYSERR then Some (SYSERR, s) else open_dev devtab newdev newname mode s
   }"

text \<open>\<open>naminit\<close>: a prefix for every device, in lower case, then the file systems.\<close>

partial_function (option) copy_prefix :: "bytes \<Rightarrow> int \<Rightarrow> int \<Rightarrow> int \<Rightarrow> (bytes \<times> int \<times> int) option" where
  "copy_prefix m tptr nptr len =
     (let c = m nptr; m = m(tptr := c)
      in if c \<noteq> 0 then copy_prefix m (tptr + 1) (nptr + 1) (len + 1) else Some (m, tptr, len))"

definition lower :: "8 word \<Rightarrow> 8 word" where
  "lower ch = (if 65 \<le> ch \<and> ch \<le> 90 then ch + 32 else ch)"

function copy_lower :: "bytes \<Rightarrow> int \<Rightarrow> int \<Rightarrow> int \<Rightarrow> bytes \<times> int" where
  "copy_lower m tptr nptr len =
     (let len = len + 1 in
      if len < NM_MAXLEN then
        let ch = lower (m nptr); m = m(tptr := ch)
        in if ch = 0 then (m, len) else copy_lower m (tptr + 1) (nptr + 1) len
      else (m, len))"
  by auto
termination by (relation "measure (\<lambda>(m, p, q, i). nat (256 - i))") auto

declare copy_lower.simps [simp del]

definition mount_device :: "(string \<Rightarrow> int) \<Rightarrow> int \<Rightarrow> devtab \<Rightarrow> int \<Rightarrow> nmentries \<times> bytes \<Rightarrow> (nmentries \<times> bytes) option" where
  "mount_device lit tmpstr devtab i nsm = do {
     let (ns, m) = nsm;
     (m, tptr, len) \<leftarrow> copy_prefix m tmpstr (lit ''/dev/'') 0;
     let (m, len) = copy_lower m tptr (dvname (devtab i)) len;
     if len > NM_MAXLEN then Some (ns, m)
     else Some (snd (mount tmpstr (lit '''') (dvnum (devtab i)) ns m))
   }"

fun mount_devices :: "nat \<Rightarrow> int \<Rightarrow> (string \<Rightarrow> int) \<Rightarrow> int \<Rightarrow> devtab \<Rightarrow> nmentries \<times> bytes \<Rightarrow> (nmentries \<times> bytes) option" where
  "mount_devices 0 i lit tmpstr devtab nsm = Some nsm"
| "mount_devices (Suc n) i lit tmpstr devtab nsm = do {
     nsm \<leftarrow> mount_device lit tmpstr devtab i nsm;
     mount_devices n (i + 1) lit tmpstr devtab nsm
   }"

definition mount_lit :: "(string \<Rightarrow> int) \<Rightarrow> string \<times> string \<times> int \<Rightarrow> nmentries \<times> bytes \<Rightarrow> nmentries \<times> bytes" where
  "mount_lit lit e nsm = (case e of (p, r, d) \<Rightarrow> snd (mount (lit p) (lit r) d (fst nsm) (snd nsm)))"

definition other_prefixes :: "(string \<times> string \<times> int) list" where
  "other_prefixes = [(''/dev/null'', '''', NULLDEV), (''/remote/'', ''remote:'', RFILESYS), (''/local/'', '''', LFILESYS),
     (''/dev/'', '''', SYSERR), (''~/'', '''', LFILESYS), (''/'', ''root:'', RFILESYS), ('''', '''', LFILESYS)]"

definition naminit :: "(string \<Rightarrow> int) \<Rightarrow> int \<Rightarrow> devtab \<Rightarrow> nmentries \<times> bytes \<Rightarrow> (int \<times> nmentries \<times> bytes) option" where
  "naminit lit tmpstr devtab nsm = do {
     nsm \<leftarrow> mount_devices (nat NDEVS) 0 lit tmpstr devtab ((fst nsm)\<lparr>nnames := 0\<rparr>, snd nsm);
     Some (OK, fold (mount_lit lit) other_prefixes nsm)
   }"

section \<open>The routines on strings\<close>

lemma namlen_loop_ok: "cstr m p cs \<Longrightarrow> namlen_loop m p i n =
    (if i + int (length cs) < n then i + int (length cs) + 1 else SYSERR)"
proof (induction cs arbitrary: p i)
  case Nil
  then show ?case by (subst namlen_loop.simps) simp
next
  case (Cons c cs)
  then show ?case using Cons.IH [of "p + 1" "i + 1"] by (subst namlen_loop.simps) simp
qed

lemma namlen_ok: "cstr m p cs \<Longrightarrow> namlen m p n = (if int (length cs) < n then int (length cs) + 1 else SYSERR)"
  using namlen_loop_ok [of m p cs 0 n] by (simp add: namlen_def)

text \<open>A buffer that does not overlap a string (with its terminator) or a part of memory.\<close>

definition off :: "int \<Rightarrow> nat \<Rightarrow> int \<Rightarrow> nat \<Rightarrow> bool" where
  "off p n q k \<longleftrightarrow> p + int n \<le> q \<or> q + int k \<le> p"

lemma off_sym: "off p n q k \<longleftrightarrow> off q k p n"
  by (auto simp: off_def)

lemma off_less: "off p n q k \<Longrightarrow> n' \<le> n \<Longrightarrow> k' \<le> k \<Longrightarrow> off p n' q k'"
  by (auto simp: off_def)

lemma cstr_take_len: "cstr m p cs \<Longrightarrow> n \<le> Suc (length cs) \<Longrightarrow> map (\<lambda>k. m (p + int k)) [0..<n] = take n (cs @ [0])"
  by (rule nth_equalityI) (auto simp: nth_append cstr_at cstr_end less_Suc_eq_le dest: le_antisym)

lemma copy_string:
  assumes "cstr m s cs" "off d (Suc (length cs)) s (Suc (length cs))"
  shows "memcpy_loop m d s 0 (int (length cs) + 1) = poke m d (cs @ [0])"
proof -
  have "memcpy_loop m d s 0 (int (length cs) + 1) = poke m d (map (\<lambda>k. m (s + int k)) [0..<Suc (length cs)])"
    using memcpy_loop_ok [of d s "int (length cs) + 1" 0 m] assms(2) by (auto simp: off_def nat_add_distrib simp del: upt_Suc)
  then show ?thesis using cstr_take_len [OF assms(1), of "Suc (length cs)"] by (simp del: upt_Suc)
qed

lemma copy_part:
  assumes "cstr m s cs" "off d (length cs) s (length cs)"
  shows "memcpy_loop m d s 0 (int (length cs)) = poke m d cs"
proof -
  have "memcpy_loop m d s 0 (int (length cs)) = poke m d (map (\<lambda>k. m (s + int k)) [0..<length cs])"
    using memcpy_loop_ok [of d s "int (length cs)" 0 m] assms(2) by (auto simp: off_def)
  then show ?thesis using cstr_take_len [OF assms(1), of "length cs"] by simp
qed

lemma poke_off: "off p (length cs) a 1 \<Longrightarrow> poke m p cs a = m a"
  by (auto simp: off_def poke_below poke_above)

lemma cstr_poke_off: "off d (length xs) p (Suc (length cs)) \<Longrightarrow> cstr (poke m d xs) p cs = cstr m p cs"
  by (rule cstr_cong) (auto simp: off_def intro!: poke_off)

lemma namcpy_loop_ok:
  assumes "cstr m s cs" "off d (min (Suc (length cs)) (nat (n - i))) s (Suc (length cs))"
  shows "if i + int (length cs) < n then namcpy_loop m d s i n = (OK, poke m d (cs @ [0]))
    else \<exists>m'. namcpy_loop m d s i n = (SYSERR, m') \<and> (\<forall>a. a < d \<or> d + (n - i) \<le> a \<or> n \<le> i \<longrightarrow> m' a = m a)"
  using assms
proof (induction cs arbitrary: m d s i)
  case Nil
  then show ?case by (subst (1 2) namcpy_loop.simps) auto
next
  case (Cons c cs)
  have step: "namcpy_loop m d s i n = (if i < n then namcpy_loop (m(d := c)) (d + 1) (s + 1) (i + 1) n else (SYSERR, m))"
    using Cons.prems(1) by (subst namcpy_loop.simps) simp
  show ?case
  proof (cases "i < n")
    case le: True
    have "cstr (m(d := c)) (s + 1) cs" using Cons.prems le by (auto simp: off_def cstr_upd min_def split: if_splits)
    moreover have "off (d + 1) (min (Suc (length cs)) (nat (n - (i + 1)))) (s + 1) (Suc (length cs))"
      using Cons.prems(2) le by (auto simp: off_def min_def split: if_splits)
    ultimately have IH: "if (i + 1) + int (length cs) < n then namcpy_loop (m(d := c)) (d + 1) (s + 1) (i + 1) n = (OK, poke (m(d := c)) (d + 1) (cs @ [0]))
    else \<exists>m'. namcpy_loop (m(d := c)) (d + 1) (s + 1) (i + 1) n = (SYSERR, m')
      \<and> (\<forall>a. a < d + 1 \<or> d + 1 + (n - (i + 1)) \<le> a \<or> n \<le> i + 1 \<longrightarrow> m' a = (m(d := c)) a)"
    using Cons.IH by blast
    show ?thesis
    proof (cases "i + int (length (c # cs)) < n")
      case True
      then show ?thesis using IH step by (simp add: add.assoc split: if_splits)
    next
      case False
      with IH obtain m' where "namcpy_loop (m(d := c)) (d + 1) (s + 1) (i + 1) n = (SYSERR, m')"
        "\<forall>a. a < d + 1 \<or> d + 1 + (n - (i + 1)) \<le> a \<or> n \<le> i + 1 \<longrightarrow> m' a = (m(d := c)) a" by auto
      then show ?thesis using False le step by auto
    qed
  next
    case False
    then show ?thesis using step by auto
  qed
qed

lemma namcpy_ok: "cstr m s cs \<Longrightarrow> off d (Suc (length cs)) s (Suc (length cs)) \<Longrightarrow> int (length cs) < n \<Longrightarrow>
    namcpy m d s n = (OK, poke m d (cs @ [0]))"
  using namcpy_loop_ok [of m s cs d n 0] off_less [of d "Suc (length cs)" s "Suc (length cs)" "min (Suc (length cs)) (nat n)" "Suc (length cs)"]
  by (simp add: namcpy_def)

lemma namcpy_long: "cstr m s cs \<Longrightarrow> off d (nat n) s (Suc (length cs)) \<Longrightarrow> n \<le> int (length cs) \<Longrightarrow> \<exists>m'. namcpy m d s n = (SYSERR, m')"
  using namcpy_loop_ok [of m s cs d n 0] off_less [of d "nat n" s "Suc (length cs)" "min (Suc (length cs)) (nat n)" "Suc (length cs)"]
  by (auto simp: namcpy_def)

text \<open>The walk ends at the end of the prefix exactly when it is a prefix of the name.\<close>

fun common :: "8 word list \<Rightarrow> 8 word list \<Rightarrow> nat" where
  "common (x # xs) (y # ys) = (if x = y then Suc (common xs ys) else 0)"
| "common _ _ = 0"

lemma prefix_walk_ok:
  "cstr m p xs \<Longrightarrow> cstr m q ys \<Longrightarrow> prefix_walk m p q = Some (p + int (common xs ys), q + int (common xs ys))"
proof (induction xs ys arbitrary: p q rule: common.induct)
  case (1 x xs y ys)
  then show ?case using "1.IH" [of "p + 1" "q + 1"] by (subst prefix_walk.simps) simp
qed (subst prefix_walk.simps, auto)+

lemma common_prefix: "common xs ys = length xs \<longleftrightarrow> take (length xs) ys = xs"
  by (induction xs ys rule: common.induct) auto

lemma common_le: "common xs ys \<le> length xs"
  by (induction xs ys rule: common.induct) auto

lemma cstr_zero_at: "cstr m p xs \<Longrightarrow> n \<le> length xs \<Longrightarrow> m (p + int n) = 0 \<longleftrightarrow> n = length xs"
  by (metis cstr_at cstr_end cstr_notin le_neq_implies_less nth_mem)

section \<open>The table as a list\<close>

type_synonym nmtab = "(8 word list \<times> 8 word list \<times> int) list"

definition nm_entry :: "nmentries \<Rightarrow> bytes \<Rightarrow> int \<Rightarrow> 8 word list \<times> 8 word list \<times> int \<Rightarrow> bool" where
  "nm_entry ns m i e \<longleftrightarrow> (case e of (p, r, d) \<Rightarrow>
     cstr m (nprefix ns i) p \<and> length p < 64 \<and> cstr m (nreplace ns i) r \<and> length r < 96 \<and> ndevice ns i = d)"

definition nm_ok :: "nmentries \<Rightarrow> bytes \<Rightarrow> nmtab \<Rightarrow> bool" where
  "nm_ok ns m tab \<longleftrightarrow> nnames ns = int (length tab) \<and> length tab \<le> 40 \<and> (\<forall>i < length tab. nm_entry ns m (int i) (tab ! i))"

text \<open>The 6560 bytes of the table.\<close>

definition nm_off :: "nmentries \<Rightarrow> int \<Rightarrow> nat \<Rightarrow> bool" where
  "nm_off ns p n \<longleftrightarrow> off p n (nametab ns) 6560"

lemma nm_entry_cong:
  assumes "nametab ns' = nametab ns" "ndevice ns' i = ndevice ns i"
    and "\<And>a. nprefix ns i \<le> a \<Longrightarrow> a < nprefix ns i + 160 \<Longrightarrow> m' a = m a"
  shows "nm_entry ns m i e \<Longrightarrow> nm_entry ns' m' i e"
proof -
  assume e: "nm_entry ns m i e"
  obtain p r d where [simp]: "e = (p, r, d)" by (cases e)
  have "cstr m' (nprefix ns i) p = cstr m (nprefix ns i) p" if "length p < 64"
    by (rule cstr_cong) (use that assms(3) in auto)
  moreover have "cstr m' (nreplace ns i) r = cstr m (nreplace ns i) r" if "length r < 96"
    by (rule cstr_cong) (use that assms(3) in \<open>auto simp: nprefix_def nreplace_def\<close>)
  ultimately show ?thesis using e assms(1,2) by (auto simp: nm_entry_def nprefix_def nreplace_def)
qed

lemma nm_ok_poke:
  assumes "nm_ok ns m tab" "nm_off ns d (length cs)"
  shows "nm_ok ns (poke m d cs) tab"
proof -
  have "nm_entry ns (poke m d cs) (int i) (tab ! i)" if i: "i < length tab" for i
  proof (rule nm_entry_cong [OF refl refl])
    show "nm_entry ns m (int i) (tab ! i)" using assms(1) i by (simp add: nm_ok_def)
    have "int i < 40" using assms(1) i by (simp add: nm_ok_def)
    then show "poke m d cs a = m a" if "nprefix ns (int i) \<le> a" "a < nprefix ns (int i) + 160" for a
      using assms(2) that by (intro poke_off) (auto simp: nm_off_def off_def nprefix_def)
  qed
  then show ?thesis using assms(1) by (simp add: nm_ok_def)
qed

text \<open>The specification: the first prefix that fits is replaced.\<close>

fun nm_first :: "nmtab \<Rightarrow> 8 word list \<Rightarrow> (8 word list \<times> 8 word list \<times> int) option" where
  "nm_first [] cs = None"
| "nm_first ((p, r, d) # tab) cs = (if take (length p) cs = p then Some (p, r, d) else nm_first tab cs)"

definition nm_new :: "8 word list \<Rightarrow> 8 word list \<Rightarrow> 8 word list \<Rightarrow> 8 word list" where
  "nm_new p r cs = r @ drop (length p) cs"

lemma olen_char_id: "0 \<le> n \<Longrightarrow> n < 256 \<Longrightarrow> olen_char n = n"
  by (simp add: olen_char_def uint_word_of_int)

lemma olen_char_256: "olen_char 256 = 0"
  by (simp add: olen_char_def)

lemma repl_copy_ok:
  assumes e: "nm_entry ns m i (p, r, d)" and cs: "cstr m name cs" "take (length p) cs = p" "length cs < 255"
    and room: "off newname 256 name (Suc (length cs))" "off newname 256 (nreplace ns i) 96"
  shows "repl_copy ns i name newname (name + int (length p)) m =
    (if length (nm_new p r cs) < 256 then (d, poke m newname (nm_new p r cs @ [0])) else (SYSERR, m))"
proof -
  have r: "cstr m (nreplace ns i) r" "length r < 96" "ndevice ns i = d" using e by (simp_all add: nm_entry_def)
  have split: "cs = p @ drop (length p) cs" using append_take_drop_id [of "length p" cs] cs(2) by simp
  have le: "length p \<le> length cs" using cs(2) by (metis length_take min.cobounded2 min.commute)
  define rest where "rest = drop (length p) cs"
  have l: "int (length rest) = int (length cs) - int (length p)" using le by (simp add: rest_def of_nat_diff)
  have ol: "olen_char (namlen m name 256) = int (length cs) + 1"
    using namlen_ok [OF cs(1), of 256] cs(3) by (simp add: olen_char_id)
  have rl: "namlen m (nreplace ns i) 256 - 1 = int (length r)" using namlen_ok [OF r(1), of 256] r(2) by simp
  have fits: "length (nm_new p r cs) < 256 \<longleftrightarrow> int (length r) + (int (length rest) + 1) \<le> 256"
    by (auto simp: nm_new_def rest_def)
  show ?thesis
  proof (cases "length (nm_new p r cs) < 256")
    case False
    then show ?thesis using fits l ol rl by (simp add: repl_copy_def)
  next
    case True
    have c1: "memcpy_loop m newname (nreplace ns i) 0 (int (length r)) = poke m newname r"
      by (rule copy_part [OF r(1)]) (use room(2) r(2) in \<open>auto simp: off_def\<close>)
    have "cstr (poke m newname r) name cs = cstr m name cs"
      by (rule cstr_poke_off) (use room(1) r(2) in \<open>auto simp: off_def\<close>)
    then have "cstr (poke m newname r) (name + int (length p)) rest"
      using cs(1) split cstr_drop [of "poke m newname r" name p rest] by (simp add: rest_def)
    then have c2: "memcpy_loop (poke m newname r) (newname + int (length r)) (name + int (length p)) 0 (int (length rest) + 1)
        = poke (poke m newname r) (newname + int (length r)) (rest @ [0])"
      by (rule copy_string) (use room(1) True l le in \<open>auto simp: off_def nm_new_def rest_def\<close>)
    have l': "int (length cs) = int (length p) + int (length rest)" using l by simp
    show ?thesis using True fits ol rl c1 c2 r(3) unfolding l'
      by (simp add: repl_copy_def poke_append nm_new_def rest_def [symmetric] Let_def)
  qed
qed

text \<open>A name of 255 characters: its length with the null is 0 as a \<open>char\<close>.\<close>

lemma repl_copy_255:
  assumes e: "nm_entry ns m i (p, r, d)" and cs: "cstr m name cs" "length cs = 255"
    and room: "off newname 256 (nreplace ns i) 96"
  shows "repl_copy ns i name newname (name + int (length p)) m = (d, poke m newname r)"
proof -
  have r: "cstr m (nreplace ns i) r" "length r < 96" "ndevice ns i = d" using e by (simp_all add: nm_entry_def)
  have rl: "namlen m (nreplace ns i) 256 - 1 = int (length r)" using namlen_ok [OF r(1), of 256] r(2) by simp
  have c1: "memcpy_loop m newname (nreplace ns i) 0 (int (length r)) = poke m newname r"
    by (rule copy_part [OF r(1)]) (use room r(2) in \<open>auto simp: off_def\<close>)
  have c2: "memcpy_loop m' a b 0 (0 - int (length p)) = m'" for m' a b by (subst memcpy_loop.simps) simp
  show ?thesis using namlen_ok [OF cs(1), of 256] cs(2) rl c1 c2 r(2,3) by (simp add: repl_copy_def olen_char_256)
qed

lemma namrepl_loop_ok:
  assumes "\<And>j. j < length tab \<Longrightarrow> nm_entry ns m (i + int j) (tab ! j)" and cs: "cstr m name cs" "length cs < 255"
    and room: "off newname 256 name (Suc (length cs))" "nm_off ns newname 256" and i: "0 \<le> i" "i + int (length tab) \<le> 40"
  shows "namrepl_loop (length tab) i name newname ns m = Some (case nm_first tab cs of None \<Rightarrow> (SYSERR, m)
    | Some (p, r, d) \<Rightarrow> if length (nm_new p r cs) < 256 then (d, poke m newname (nm_new p r cs @ [0])) else (SYSERR, m))"
  using assms(1) i
proof (induction tab arbitrary: i)
  case (Cons e tab)
  obtain p r d where [simp]: "e = (p, r, d)" by (cases e)
  have e: "nm_entry ns m i (p, r, d)" using Cons.prems(1) [of 0] by simp
  then have p: "cstr m (nprefix ns i) p" by (simp add: nm_entry_def)
  note w = prefix_walk_ok [OF p cs(1)] and z = cstr_zero_at [OF p common_le, of cs]
  show ?case
  proof (cases "take (length p) cs = p")
    case True
    then have k: "common p cs = length p" by (simp add: common_prefix)
    have "off newname 256 (nreplace ns i) 96" using room(2) Cons.prems(2,3) by (auto simp: nm_off_def off_def nreplace_def)
    then show ?thesis using True k w z repl_copy_ok [OF e cs(1) True cs(2) room(1)] by simp
  next
    case False
    then have "common p cs \<noteq> length p" by (simp add: common_prefix)
    moreover have "nm_entry ns m (i + 1 + int j) (tab ! j)" if "j < length tab" for j
      using Cons.prems(1) [of "Suc j"] that by (simp add: add.commute add.left_commute)
    ultimately show ?thesis using False w z Cons.IH [of "i + 1"] Cons.prems(2,3) by simp
  qed
qed simp

lemma namrepl_ok:
  assumes "nm_ok ns m tab" "cstr m name cs" "length cs < 255" "off newname 256 name (Suc (length cs))" "nm_off ns newname 256"
  shows "namrepl name newname ns m = Some (case nm_first tab cs of None \<Rightarrow> (SYSERR, m)
    | Some (p, r, d) \<Rightarrow> if length (nm_new p r cs) < 256 then (d, poke m newname (nm_new p r cs @ [0])) else (SYSERR, m))"
  using namrepl_loop_ok [of tab ns m 0 name cs newname] assms by (simp add: namrepl_def nm_ok_def)

text \<open>
  The mapping: the result of one replacement, unless that is the name space itself.
\<close>

definition nm_map :: "nmtab \<Rightarrow> int \<Rightarrow> 8 word list \<Rightarrow> (int \<times> 8 word list) option" where
  "nm_map tab namdev cs = (if 255 < length cs then None else case nm_first tab cs of None \<Rightarrow> None
     | Some (p, r, d) \<Rightarrow> if length (nm_new p r cs) < 256 \<and> d \<noteq> namdev \<and> d \<noteq> SYSERR then Some (d, nm_new p r cs) else None)"

lemma nm_new_zero: "0 \<notin> set r \<Longrightarrow> 0 \<notin> set cs \<Longrightarrow> 0 \<notin> set (nm_new p r cs)"
  by (auto simp: nm_new_def dest: in_set_dropD)

lemma nm_first_in: "nm_first tab cs = Some e \<Longrightarrow> e \<in> set tab"
  by (induction tab) (auto split: if_splits prod.splits)

lemma nammap_loop_self:
  assumes "\<And>m'. (\<forall>a. off newname 256 a 1 \<longrightarrow> m' a = m a) \<Longrightarrow> \<exists>m''. namrepl tmpname newname ns m' = Some (namdev, m'')
     \<and> (\<forall>a. off newname 256 a 1 \<longrightarrow> m'' a = m a)"
    and "\<forall>a. off newname 256 a 1 \<longrightarrow> m' a = m a"
  shows "\<exists>m''. nammap_loop n tmpname newname namdev ns m' = Some (SYSERR, m'')"
  using assms(2)
proof (induction n arbitrary: m')
  case (Suc n)
  from assms(1) [OF Suc.prems] obtain m'' where "namrepl tmpname newname ns m' = Some (namdev, m'')"
    "\<forall>a. off newname 256 a 1 \<longrightarrow> m'' a = m a" by blast
  then show ?case using Suc.IH by simp
qed simp

lemma nm_ok_cong:
  assumes "nm_ok ns m tab" "\<And>a. nametab ns \<le> a \<Longrightarrow> a < nametab ns + 6560 \<Longrightarrow> m' a = m a"
  shows "nm_ok ns m' tab"
proof -
  have "nm_entry ns m' (int i) (tab ! i)" if i: "i < length tab" for i
  proof (rule nm_entry_cong [OF refl refl])
    show "nm_entry ns m (int i) (tab ! i)" using assms(1) i by (simp add: nm_ok_def)
    have "int i < 40" using assms(1) i by (simp add: nm_ok_def)
    then show "m' a = m a" if "nprefix ns (int i) \<le> a" "a < nprefix ns (int i) + 160" for a
      using that by (intro assms(2)) (auto simp: nprefix_def)
  qed
  then show ?thesis using assms(1) by (simp add: nm_ok_def)
qed

text \<open>The three buffers of a call and the table lie apart.\<close>

definition nm_room :: "nmentries \<Rightarrow> int \<Rightarrow> int \<Rightarrow> int \<Rightarrow> nat \<Rightarrow> bool" where
  "nm_room ns tmpname name newname n \<longleftrightarrow> off tmpname 256 name (Suc n) \<and> off newname 256 tmpname 256
     \<and> nm_off ns newname 256 \<and> nm_off ns tmpname 256"

lemma nammap_ok:
  assumes ok: "nm_ok ns m tab" and cs: "cstr m name cs" "length cs \<noteq> 255" and room: "nm_room ns tmpname name newname (length cs)"
    and dev: "0 \<le> namdev"
  shows "\<exists>r m'. nammap tmpname name newname namdev ns m = Some (r, m') \<and> (case nm_map tab namdev cs of
      Some (d, new) \<Rightarrow> r = d \<and> cstr m' newname new | None \<Rightarrow> r = SYSERR)"
proof (cases "length cs < 255")
  case False
  then have "\<exists>m'. namcpy m tmpname name 256 = (SYSERR, m')" using cs(2)
    by (intro namcpy_long [OF cs(1)]) (use room in \<open>auto simp: nm_room_def off_def\<close>)
  then show ?thesis using False cs(2) by (auto simp: nammap_def nm_map_def)
next
  case short: True
  define m1 where "m1 = poke m tmpname (cs @ [0])"
  have cp: "namcpy m tmpname name 256 = (OK, m1)" unfolding m1_def
    by (rule namcpy_ok [OF cs(1)]) (use room short in \<open>auto simp: nm_room_def off_def\<close>)
  have ok1: "nm_ok ns m1 tab" unfolding m1_def
    by (rule nm_ok_poke [OF ok]) (use room short in \<open>auto simp: nm_room_def nm_off_def off_def\<close>)
  have t1: "cstr m1 tmpname cs" unfolding m1_def by (rule cstr_poke [OF cstr_notin [OF cs(1)]])
  have run: "nammap tmpname name newname namdev ns m = nammap_loop (nat (nnames ns)) tmpname newname namdev ns m1"
    using cp by (simp add: nammap_def)
  have off1: "off newname 256 tmpname (Suc (length cs))" and off2: "nm_off ns newname 256"
    using room short by (auto simp: nm_room_def off_def)
  note one = namrepl_ok [OF _ _ short off1 off2]
  have tabs: "nat (nnames ns) = length tab" using ok by (simp add: nm_ok_def)
  show ?thesis
  proof (cases tab)
    case Nil
    then show ?thesis using run tabs short by (simp add: nm_map_def)
  next
    case (Cons e es)
    have n: "nat (nnames ns) = Suc (length es)" using tabs Cons by simp
    show ?thesis
    proof (cases "nm_first tab cs")
      case None
      then show ?thesis using run one [OF ok1 t1] dev short unfolding n by (simp add: nm_map_def)
    next
      case (Some prd)
      obtain p r d where prd: "prd = (p, r, d)" by (cases prd)
      have "0 \<notin> set r"
      proof -
        from nm_first_in [OF Some] obtain i where "i < length tab" "tab ! i = (p, r, d)" unfolding prd by (auto simp: in_set_conv_nth)
        then have "nm_entry ns m1 (int i) (p, r, d)" using ok1 by (metis nm_ok_def)
        then show ?thesis by (auto simp: nm_entry_def dest: cstr_notin)
      qed
      then have nz: "0 \<notin> set (nm_new p r cs)" using nm_new_zero cstr_notin [OF cs(1)] by blast
      define m2 where "m2 = poke m1 newname (nm_new p r cs @ [0])"
      have c2: "cstr m2 newname (nm_new p r cs)" unfolding m2_def by (rule cstr_poke [OF nz])
      show ?thesis
      proof (cases "length (nm_new p r cs) < 256")
        case False
        then show ?thesis using run one [OF ok1 t1] dev short Some prd unfolding n by (simp add: nm_map_def)
      next
        case fits: True
        show ?thesis
        proof (cases "d = namdev")
          case False
          have "off tmpname (Suc (length (nm_new p r cs))) newname (Suc (length (nm_new p r cs)))"
            using room fits by (auto simp: nm_room_def off_def)
          then have "namcpy m2 tmpname newname 256 = (OK, poke m2 tmpname (nm_new p r cs @ [0]))"
            using namcpy_ok [OF c2, of tmpname 256] fits by simp
          moreover have "cstr (poke m2 tmpname (nm_new p r cs @ [0])) newname (nm_new p r cs)"
            using c2 room fits by (subst cstr_poke_off) (auto simp: nm_room_def off_def)
          ultimately show ?thesis using run one [OF ok1 t1] False fits short Some prd unfolding n
            by (simp add: nm_map_def m2_def [symmetric])
        next
          case True
          have self: "\<exists>m''. namrepl tmpname newname ns m' = Some (namdev, m'') \<and> (\<forall>a. off newname 256 a 1 \<longrightarrow> m'' a = m1 a)"
            if same: "\<forall>a. off newname 256 a 1 \<longrightarrow> m' a = m1 a" for m'
          proof -
            have "nm_ok ns m' tab" by (rule nm_ok_cong [OF ok1]) (use same off2 in \<open>auto simp: nm_off_def off_def\<close>)
            moreover have "cstr m' tmpname cs = cstr m1 tmpname cs" by (rule cstr_cong) (use same off1 in \<open>auto simp: off_def\<close>)
            ultimately have "namrepl tmpname newname ns m' = Some (namdev, poke m' newname (nm_new p r cs @ [0]))"
              using one [of m' tab] t1 Some prd fits True by simp
            moreover have "poke m' newname (nm_new p r cs @ [0]) a = m1 a" if "off newname 256 a 1" for a
              using that fits same by (subst poke_off) (auto simp: off_def)
            ultimately show ?thesis by blast
          qed
          from nammap_loop_self [OF self, of m1 "nat (nnames ns)"] show ?thesis
            using run Some prd True short by (auto simp: nm_map_def)
        qed
      qed
    qed
  qed
qed

section \<open>Mounting\<close>

definition fits :: "nmtab \<Rightarrow> 8 word list \<times> 8 word list \<times> int \<Rightarrow> bool" where
  "fits tab e \<longleftrightarrow> (case e of (p, r, d) \<Rightarrow> length p < 64 \<and> length r < 96 \<and> \<not> isbaddev d \<and> length tab < 40)"

definition mounted :: "nmtab \<Rightarrow> 8 word list \<times> 8 word list \<times> int \<Rightarrow> nmtab" where
  "mounted tab e = (if fits tab e then tab @ [e] else tab)"

lemma mount_ok:
  assumes ok: "nm_ok ns m tab" and p: "cstr m prefix p" "nm_off ns prefix (Suc (length p))"
    and r: "cstr m repl r" "nm_off ns repl (Suc (length r))"
  shows "\<exists>ns' m'. mount prefix repl d ns m = (if fits tab (p, r, d) then OK else SYSERR, ns', m')
    \<and> nm_ok ns' m' (mounted tab (p, r, d)) \<and> nametab ns' = nametab ns \<and> (\<forall>a. nm_off ns a 1 \<longrightarrow> m' a = m a)"
proof (cases "fits tab (p, r, d)")
  case False
  then have "mount prefix repl d ns m = (SYSERR, ns, m)"
    using ok namlen_ok [OF p(1), of 64] namlen_ok [OF r(1), of 96]
    by (auto simp: mount_def fits_def nm_ok_def)
  then show ?thesis using False ok by (auto simp: mounted_def)
next
  case True
  then have f: "length p < 64" "length r < 96" "\<not> isbaddev d" "length tab < 40" by (simp_all add: fits_def)
  define i where "i = int (length tab)"
  have n: "nnames ns = i" using ok by (simp add: nm_ok_def i_def)
  define m1 where "m1 = poke m (nprefix ns i) (p @ [0])"
  define m2 where "m2 = poke m1 (nreplace ns i) (r @ [0])"
  let ?ns = "ns\<lparr>ndevice := (ndevice ns)(i := d), nnames := i + 1\<rparr>"
  have c1: "memcpy_loop m (nprefix ns i) prefix 0 (int (length p) + 1) = m1" unfolding m1_def
    by (rule copy_string [OF p(1)]) (use p(2) f in \<open>auto simp: nm_off_def off_def nprefix_def i_def\<close>)
  have "cstr m1 repl r = cstr m repl r" unfolding m1_def
    by (rule cstr_poke_off) (use r(2) f in \<open>auto simp: nm_off_def off_def nprefix_def i_def\<close>)
  then have c2: "memcpy_loop m1 (nreplace ns i) repl 0 (int (length r) + 1) = m2" unfolding m2_def
    by (intro copy_string) (use r f in \<open>auto simp: nm_off_def off_def nreplace_def i_def\<close>)
  have run: "mount prefix repl d ns m = (OK, ?ns, m2)"
    using namlen_ok [OF p(1), of 64] namlen_ok [OF r(1), of 96] f n c1 c2 by (simp add: mount_def i_def Let_def)
  have same: "m2 a = m a" if "a < nprefix ns i \<or> nprefix ns i + 164 \<le> a" for a
    unfolding m2_def m1_def using that f by (auto simp: nprefix_def nreplace_def off_def poke_off)
  have new: "nm_entry ?ns m2 i (p, r, d)"
  proof -
    have "cstr m2 (nprefix ns i) p = cstr m1 (nprefix ns i) p" unfolding m2_def
      by (rule cstr_poke_off) (use f in \<open>auto simp: off_def nprefix_def nreplace_def\<close>)
    moreover have "cstr m1 (nprefix ns i) p" unfolding m1_def by (rule cstr_poke [OF cstr_notin [OF p(1)]])
    moreover have "cstr m2 (nreplace ns i) r" unfolding m2_def by (rule cstr_poke [OF cstr_notin [OF r(1)]])
    ultimately show ?thesis using f by (simp add: nm_entry_def nprefix_def nreplace_def)
  qed
  have old: "nm_entry ?ns m2 (int j) (tab ! j)" if j: "j < length tab" for j
  proof (rule nm_entry_cong)
    show "nm_entry ns m (int j) (tab ! j)" using ok j by (simp add: nm_ok_def)
    show "m2 a = m a" if "nprefix ns (int j) \<le> a" "a < nprefix ns (int j) + 160" for a
      by (rule same) (use that j in \<open>auto simp: nprefix_def i_def\<close>)
  qed (use j in \<open>simp_all add: i_def\<close>)
  have "nm_ok ?ns m2 (tab @ [(p, r, d)])"
    using old new f by (auto simp: nm_ok_def i_def nth_append less_Suc_eq)
  moreover have "m2 a = m a" if "nm_off ns a 1" for a
    by (rule same) (use that f in \<open>auto simp: nm_off_def off_def nprefix_def i_def\<close>)
  ultimately show ?thesis using run True by (auto simp: mounted_def)
qed

section \<open>The initial table\<close>

definition ascii :: "string \<Rightarrow> 8 word list" where
  "ascii = map of_char"

lemma copy_prefix_ok:
  "cstr m s cs \<Longrightarrow> off t (Suc (length cs)) s (Suc (length cs)) \<Longrightarrow>
    copy_prefix m t s n = Some (poke m t (cs @ [0]), t + int (length cs), n + int (length cs))"
proof (induction cs arbitrary: m t s n)
  case Nil
  then show ?case by (subst copy_prefix.simps) simp
next
  case (Cons c cs)
  have "cstr (m(t := c)) (s + 1) cs" using Cons.prems by (auto simp: off_def cstr_upd)
  moreover have "off (t + 1) (Suc (length cs)) (s + 1) (Suc (length cs))" using Cons.prems(2) by (auto simp: off_def)
  ultimately have "copy_prefix (m(t := c)) (t + 1) (s + 1) (n + 1)
      = Some (poke (m(t := c)) (t + 1) (cs @ [0]), t + 1 + int (length cs), n + 1 + int (length cs))" by (rule Cons.IH)
  then show ?case using Cons.prems(1) by (subst copy_prefix.simps) (simp add: add.assoc)
qed

lemma lower_zero: "lower c = 0 \<longleftrightarrow> c = 0"
proof -
  have "c + 32 \<noteq> 0" if "65 \<le> c" "c \<le> 90"
  proof
    assume "c + 32 = 0"
    then have "c = - 32" by (simp add: eq_neg_iff_add_eq_0)
    then show False using that by simp
  qed
  then show ?thesis by (auto simp: lower_def)
qed

lemma copy_lower_ok:
  "cstr m s cs \<Longrightarrow> off t (Suc (length cs)) s (Suc (length cs)) \<Longrightarrow> n + int (length cs) < 255 \<Longrightarrow>
    copy_lower m t s n = (poke m t (map lower cs @ [0]), n + int (length cs) + 1)"
proof (induction cs arbitrary: m t s n)
  case Nil
  then show ?case by (subst copy_lower.simps) (simp add: lower_def)
next
  case (Cons c cs)
  have "cstr (m(t := lower c)) (s + 1) cs" using Cons.prems by (auto simp: off_def cstr_upd)
  moreover have "off (t + 1) (Suc (length cs)) (s + 1) (Suc (length cs))" using Cons.prems(2) by (auto simp: off_def)
  moreover have "n + 1 + int (length cs) < 255" using Cons.prems(3) by simp
  ultimately have "copy_lower (m(t := lower c)) (t + 1) (s + 1) (n + 1)
      = (poke (m(t := lower c)) (t + 1) (map lower cs @ [0]), n + 1 + int (length cs) + 1)" by (rule Cons.IH)
  moreover have "lower c \<noteq> 0" "m s = c" "n + 1 < 256" using Cons.prems by (simp_all add: lower_zero)
  ultimately show ?case by (subst copy_lower.simps) (simp add: add.assoc)
qed

text \<open>Memory outside the table and the local buffer is that of before.\<close>

definition kept :: "nmentries \<Rightarrow> int \<Rightarrow> bytes \<Rightarrow> bytes \<Rightarrow> bool" where
  "kept ns tmpstr m0 m \<longleftrightarrow> (\<forall>a. nm_off ns a 1 \<and> off tmpstr 256 a 1 \<longrightarrow> m a = m0 a)"

definition safe_str :: "nmentries \<Rightarrow> int \<Rightarrow> bytes \<Rightarrow> int \<Rightarrow> 8 word list \<Rightarrow> bool" where
  "safe_str ns tmpstr m p cs \<longleftrightarrow> cstr m p cs \<and> nm_off ns p (Suc (length cs)) \<and> off tmpstr 256 p (Suc (length cs))"

lemma kept_str: "kept ns tmpstr m0 m \<Longrightarrow> safe_str ns tmpstr m0 p cs \<Longrightarrow> cstr m p cs"
  unfolding safe_str_def kept_def by (subst cstr_cong [of p cs m m0]) (auto simp: nm_off_def off_def)

definition nm_state :: "int \<Rightarrow> int \<Rightarrow> bytes \<Rightarrow> nmtab \<Rightarrow> nmentries \<times> bytes \<Rightarrow> bool" where
  "nm_state tb tmpstr m0 tab nsm \<longleftrightarrow> (case nsm of (ns, m) \<Rightarrow> nametab ns = tb \<and> nm_ok ns m tab \<and> kept ns tmpstr m0 m)"

lemma kept_nametab: "nametab ns' = nametab ns \<Longrightarrow> kept ns' tmpstr m0 m = kept ns tmpstr m0 m"
  by (simp add: kept_def nm_off_def)

lemma safe_nametab: "nametab ns' = nametab ns \<Longrightarrow> safe_str ns' tmpstr m p cs = safe_str ns tmpstr m p cs"
  by (simp add: safe_str_def nm_off_def)

definition ascii_entry :: "string \<times> string \<times> int \<Rightarrow> 8 word list \<times> 8 word list \<times> int" where
  "ascii_entry e = (case e of (p, r, d) \<Rightarrow> (ascii p, ascii r, d))"

lemma mount_lits_ok:
  assumes "nm_state tb tmpstr m0 tab nsm"
    and "\<And>p r d. (p, r, d) \<in> set es \<Longrightarrow> safe_str ns0 tmpstr m0 (lit p) (ascii p) \<and> safe_str ns0 tmpstr m0 (lit r) (ascii r)"
    and "nametab ns0 = tb"
  shows "nm_state tb tmpstr m0 (fold (\<lambda>e tab. mounted tab (ascii_entry e)) es tab) (fold (mount_lit lit) es nsm)"
  using assms(1,2)
proof (induction es arbitrary: tab nsm)
  case (Cons e es)
  obtain p r d where e: "e = (p, r, d)" by (cases e)
  obtain ns m where nsm: "nsm = (ns, m)" by (cases nsm)
  have st: "nametab ns = tb" "nm_ok ns m tab" "kept ns tmpstr m0 m" using Cons.prems(1) nsm by (simp_all add: nm_state_def)
  have safe: "safe_str ns tmpstr m0 (lit p) (ascii p)" "safe_str ns tmpstr m0 (lit r) (ascii r)"
    using Cons.prems(2) [of p r d] e st(1) assms(3) safe_nametab [of ns0 ns] by simp_all
  note c = kept_str [OF st(3) safe(1)] kept_str [OF st(3) safe(2)]
  obtain k ns' m' where run: "mount (lit p) (lit r) d ns m = (k, ns', m')" and
    n: "nm_ok ns' m' (mounted tab (ascii_entry e))" "nametab ns' = nametab ns" "\<forall>a. nm_off ns a 1 \<longrightarrow> m' a = m a"
    using mount_ok [OF st(2) c(1) _ c(2), of d] safe by (auto simp: safe_str_def e ascii_entry_def)
  have step: "nm_state tb tmpstr m0 (mounted tab (ascii_entry e)) (mount_lit lit e nsm)"
    using n st run by (auto simp: nm_state_def mount_lit_def e nsm kept_def nm_off_def)
  have "safe_str ns0 tmpstr m0 (lit p) (ascii p) \<and> safe_str ns0 tmpstr m0 (lit r) (ascii r)" if "(p, r, d) \<in> set es" for p r d
    using Cons.prems(2) [of p r d] that by simp
  from Cons.IH [OF step this] show ?case by simp
qed simp

definition dev_entry :: "devtab \<Rightarrow> (int \<Rightarrow> 8 word list) \<Rightarrow> int \<Rightarrow> 8 word list \<times> 8 word list \<times> int" where
  "dev_entry devtab names i = (ascii ''/dev/'' @ map lower (names i), [], dvnum (devtab i))"

lemma mount_device_ok:
  assumes st: "nm_state tb tmpstr m0 tab nsm"
    and safe: "safe_str ns0 tmpstr m0 (lit ''/dev/'') (ascii ''/dev/'')" "safe_str ns0 tmpstr m0 (lit '''') []"
      "safe_str ns0 tmpstr m0 (dvname (devtab i)) (names i)" "length (names i) < 59"
    and tb: "nametab ns0 = tb" "nm_off ns0 tmpstr 256"
  shows "\<exists>nsm'. mount_device lit tmpstr devtab i nsm = Some nsm' \<and> nm_state tb tmpstr m0 (mounted tab (dev_entry devtab names i)) nsm'"
proof -
  obtain ns m where nsm: "nsm = (ns, m)" by (cases nsm)
  have s: "nametab ns = tb" "nm_ok ns m tab" "kept ns tmpstr m0 m" using st nsm by (simp_all add: nm_state_def)
  have eq: "nametab ns = nametab ns0" using s(1) tb(1) by simp
  have safe': "safe_str ns tmpstr m0 (lit ''/dev/'') (ascii ''/dev/'')" "safe_str ns tmpstr m0 (lit '''') []"
      "safe_str ns tmpstr m0 (dvname (devtab i)) (names i)" using safe safe_nametab [OF eq] by simp_all
  have off: "nm_off ns tmpstr 256" using tb(2) eq by (simp add: nm_off_def)
  have l5: "length (ascii ''/dev/'') = 5" by (simp add: ascii_def)
  define m1 where "m1 = poke m tmpstr (ascii ''/dev/'' @ [0])"
  define m2 where "m2 = poke m1 (tmpstr + 5) (map lower (names i) @ [0])"
  have k1: "kept ns tmpstr m0 m1" using s(3) l5 unfolding m1_def kept_def by (auto simp: off_def poke_off)
  have k2: "kept ns tmpstr m0 m2" using k1 safe(4) unfolding m2_def kept_def by (auto simp: off_def poke_off)
  have c1: "copy_prefix m tmpstr (lit ''/dev/'') 0 = Some (m1, tmpstr + 5, 5)"
    using copy_prefix_ok [OF kept_str [OF s(3) safe'(1)], of tmpstr 0] safe'(1) l5
    by (auto simp: m1_def safe_str_def off_def)
  have c2: "copy_lower m1 (tmpstr + 5) (dvname (devtab i)) 5 = (m2, 5 + int (length (names i)) + 1)"
    unfolding m2_def by (rule copy_lower_ok [OF kept_str [OF k1 safe'(3)]]) (use safe'(3) safe(4) in \<open>auto simp: safe_str_def off_def\<close>)
  have "0 \<notin> set (ascii ''/dev/'' @ map lower (names i))"
    using cstr_notin safe'(1,3) by (auto simp: safe_str_def lower_zero)
  moreover have "m2 = poke m tmpstr (ascii ''/dev/'' @ map lower (names i) @ [0])"
  proof -
    have "poke (m'(a := x)) a (y # ys) = poke m' a (y # ys)" for m' :: bytes and a x y ys by simp
    then have "poke (m'(a := x)) a (map lower (names i) @ [0]) = poke m' a (map lower (names i) @ [0])" for m' :: bytes and a x
      by (cases "names i") simp_all
    then show ?thesis using l5 by (simp add: m2_def m1_def poke_append)
  qed
  ultimately have str: "cstr m2 tmpstr (ascii ''/dev/'' @ map lower (names i))"
    using cstr_poke [of "ascii ''/dev/'' @ map lower (names i)" m tmpstr] by simp
  have ok2: "nm_ok ns m2 tab" by (rule nm_ok_cong [OF s(2)])
    (use off safe(4) l5 in \<open>auto simp: m2_def m1_def nm_off_def off_def poke_off\<close>)
  have "nm_off ns tmpstr (Suc (length (ascii ''/dev/'' @ map lower (names i))))" using off safe(4) l5 by (auto simp: nm_off_def off_def)
  from mount_ok [OF ok2 str this kept_str [OF k2 safe'(2)], of "dvnum (devtab i)"] safe'(2)
  obtain k ns' m' where run: "mount tmpstr (lit '''') (dvnum (devtab i)) ns m2 = (k, ns', m')" and
    n: "nm_ok ns' m' (mounted tab (dev_entry devtab names i))" "nametab ns' = nametab ns" "\<forall>a. nm_off ns a 1 \<longrightarrow> m' a = m2 a"
    by (auto simp: safe_str_def dev_entry_def)
  have "nm_state tb tmpstr m0 (mounted tab (dev_entry devtab names i)) (ns', m')"
    using n s(1) k2 by (auto simp: nm_state_def kept_def nm_off_def)
  then show ?thesis using c1 c2 run nsm safe(4) by (simp add: mount_device_def)
qed

lemma mount_devices_ok:
  assumes "nm_state tb tmpstr m0 tab nsm"
    and safe: "safe_str ns0 tmpstr m0 (lit ''/dev/'') (ascii ''/dev/'')" "safe_str ns0 tmpstr m0 (lit '''') []"
    and dev: "\<And>j. i \<le> j \<Longrightarrow> j < i + int n \<Longrightarrow> safe_str ns0 tmpstr m0 (dvname (devtab j)) (names j) \<and> length (names j) < 59"
    and tb: "nametab ns0 = tb" "nm_off ns0 tmpstr 256"
  shows "\<exists>nsm'. mount_devices n i lit tmpstr devtab nsm = Some nsm'
    \<and> nm_state tb tmpstr m0 (fold (\<lambda>j tab. mounted tab (dev_entry devtab names j)) (map (\<lambda>k. i + int k) [0..<n]) tab) nsm'"
  using assms(1) dev
proof (induction n arbitrary: i tab nsm)
  case (Suc n)
  have "safe_str ns0 tmpstr m0 (dvname (devtab i)) (names i)" "length (names i) < 59" using Suc.prems(2) [of i] by simp_all
  from mount_device_ok [where lit = lit and devtab = devtab and i = i and names = names, OF Suc.prems(1) safe this tb]
  obtain nsm' where 1: "mount_device lit tmpstr devtab i nsm = Some nsm'"
    "nm_state tb tmpstr m0 (mounted tab (dev_entry devtab names i)) nsm'" by blast
  have 2: "safe_str ns0 tmpstr m0 (dvname (devtab j)) (names j) \<and> length (names j) < 59" if "i + 1 \<le> j" "j < i + 1 + int n" for j
    using Suc.prems(2) [of j] that by simp
  have "map (\<lambda>k. i + int k) [0..<Suc n] = i # map (\<lambda>k. i + 1 + int k) [0..<n]"
    by (subst upt_conv_Cons, simp, subst map_Suc_upt [symmetric]) (simp add: o_def add.assoc)
  with Suc.IH [OF 1(2) 2] 1(1) show ?case by auto
qed simp

lemma fold_mounted:
  assumes "length tab + length es \<le> 40" "\<And>p r d. (p, r, d) \<in> f ` set es \<Longrightarrow> length p < 64 \<and> length r < 96 \<and> \<not> isbaddev d"
  shows "fold (\<lambda>e tab. mounted tab (f e)) es tab = tab @ map f es"
  using assms
proof (induction es arbitrary: tab)
  case (Cons e es)
  obtain p r d where e: "f e = (p, r, d)" by (cases "f e")
  then have "fits tab (f e)" using Cons.prems by (auto simp: fits_def)
  then have step: "mounted tab (f e) = tab @ [f e]" by (simp add: mounted_def)
  have "length p < 64 \<and> length r < 96 \<and> \<not> isbaddev d" if "(p, r, d) \<in> f ` set es" for p r d
    using Cons.prems(2) [of p r d] that by simp
  then show ?case using Cons.IH [of "tab @ [f e]"] Cons.prems(1) step by simp
qed simp

definition dev_tab :: "devtab \<Rightarrow> (int \<Rightarrow> 8 word list) \<Rightarrow> nmtab" where
  "dev_tab devtab names = map (dev_entry devtab names) (map int [0..<24])"

definition fs_tab :: nmtab where
  "fs_tab = map ascii_entry (filter (\<lambda>(p, r, d). \<not> isbaddev d) other_prefixes)"

text \<open>The literals of \<open>naminit\<close> and the names of the devices lie outside the table and the buffer.\<close>

definition nm_lits :: "(string \<Rightarrow> int) \<Rightarrow> int \<Rightarrow> nmentries \<Rightarrow> bytes \<Rightarrow> bool" where
  "nm_lits lit tmpstr ns m \<longleftrightarrow> nm_off ns tmpstr 256
     \<and> (\<forall>s \<in> {''/dev/''} \<union> fst ` set other_prefixes \<union> (fst \<circ> snd) ` set other_prefixes. safe_str ns tmpstr m (lit s) (ascii s))"

definition nm_devs :: "devtab \<Rightarrow> (int \<Rightarrow> 8 word list) \<Rightarrow> int \<Rightarrow> nmentries \<Rightarrow> bytes \<Rightarrow> bool" where
  "nm_devs devtab names tmpstr ns m \<longleftrightarrow> (\<forall>i. 0 \<le> i \<and> i < NDEVS \<longrightarrow>
     dvnum (devtab i) = i \<and> safe_str ns tmpstr m (dvname (devtab i)) (names i) \<and> length (names i) < 59)"

lemma fs_tab_eq: "fs_tab = map ascii_entry [(''/dev/null'', '''', 1), (''/remote/'', ''remote:'', 6), (''/local/'', '''', 17),
    (''~/'', '''', 17), (''/'', ''root:'', 6), ('''', '''', 17)]"
  by (simp add: fs_tab_def other_prefixes_def isbaddev_def)

lemma mount_others: "length tab = 24 \<Longrightarrow> fold (\<lambda>e tab. mounted tab (ascii_entry e)) other_prefixes tab = tab @ fs_tab"
  unfolding fs_tab_eq by (simp add: other_prefixes_def mounted_def fits_def ascii_entry_def ascii_def isbaddev_def)

lemma naminit_ok:
  assumes lits: "nm_lits lit tmpstr ns m" and devs: "nm_devs devtab names tmpstr ns m"
  shows "\<exists>ns' m'. naminit lit tmpstr devtab (ns, m) = Some (OK, ns', m') \<and> nm_ok ns' m' (dev_tab devtab names @ fs_tab)
    \<and> nametab ns' = nametab ns \<and> kept ns tmpstr m m'"
proof -
  let ?ns = "ns\<lparr>nnames := 0\<rparr>"
  have safe: "safe_str ns tmpstr m (lit s) (ascii s)"
    if "s \<in> {''/dev/''} \<union> fst ` set other_prefixes \<union> (fst \<circ> snd) ` set other_prefixes" for s
    using lits that unfolding nm_lits_def by blast
  have lit: "safe_str ns tmpstr m (lit ''/dev/'') (ascii ''/dev/'')" "safe_str ns tmpstr m (lit '''') []"
    using safe [of "''/dev/''"] safe [of "''''"] by (simp_all add: other_prefixes_def ascii_def)
  have st: "nm_state (nametab ns) tmpstr m [] (?ns, m)" by (simp add: nm_state_def nm_ok_def kept_def)
  have dev: "safe_str ns tmpstr m (dvname (devtab j)) (names j) \<and> length (names j) < 59" if "0 \<le> j" "j < 0 + int (nat 24)" for j
    using devs that by (simp add: nm_devs_def)
  have off: "nm_off ns tmpstr 256" using lits by (simp add: nm_lits_def)
  from mount_devices_ok [where lit = lit and devtab = devtab and i = 0 and n = "nat 24" and names = names, OF st lit dev refl off]
  obtain nsm where 1: "mount_devices (nat 24) 0 lit tmpstr devtab (?ns, m) = Some nsm" and
    st1: "nm_state (nametab ns) tmpstr m (fold (\<lambda>j tab. mounted tab (dev_entry devtab names j)) (map (\<lambda>k. 0 + int k) [0..<nat 24]) []) nsm"
    by auto
  have "fold (\<lambda>j tab. mounted tab (dev_entry devtab names j)) (map int [0..<24]) [] = [] @ dev_tab devtab names"
    unfolding dev_tab_def
    by (rule fold_mounted) (use devs in \<open>auto simp: dev_entry_def nm_devs_def isbaddev_def ascii_def simp del: upt_Suc\<close>)
  then have st2: "nm_state (nametab ns) tmpstr m (dev_tab devtab names) nsm" using st1 by simp
  have "safe_str ns tmpstr m (lit p) (ascii p) \<and> safe_str ns tmpstr m (lit r) (ascii r)" if "(p, r, d) \<in> set other_prefixes" for p r d
    using safe [of p] safe [of r] that by (force simp: image_iff)
  from mount_lits_ok [where lit = lit and es = other_prefixes, OF st2 this refl]
  have "nm_state (nametab ns) tmpstr m (dev_tab devtab names @ fs_tab) (fold (mount_lit lit) other_prefixes nsm)"
    by (subst (asm) mount_others) (simp_all add: dev_tab_def)
  then obtain ns' m' where "fold (mount_lit lit) other_prefixes nsm = (ns', m')" "nametab ns' = nametab ns"
    "nm_ok ns' m' (dev_tab devtab names @ fs_tab)" "kept ns' tmpstr m m'" by (auto simp: nm_state_def split: prod.splits)
  then show ?thesis using 1 kept_nametab [of ns' ns] by (simp add: naminit_def)
qed

section \<open>Where a name leads\<close>

lemma nm_first_append: "nm_first (xs @ ys) cs = (case nm_first xs cs of None \<Rightarrow> nm_first ys cs | Some e \<Rightarrow> Some e)"
  by (induction xs) (auto split: prod.splits)

lemma nm_first_None: "nm_first tab cs = None \<longleftrightarrow> (\<forall>(p, r, d) \<in> set tab. take (length p) cs \<noteq> p)"
proof (induction tab)
  case (Cons e tab)
  then show ?case by (cases e) simp
qed simp

text \<open>A name under \<open>/dev/\<close> that is not that of a device.\<close>

definition no_device :: "(int \<Rightarrow> 8 word list) \<Rightarrow> 8 word list \<Rightarrow> bool" where
  "no_device names cs \<longleftrightarrow> (\<forall>i \<in> {0..<NDEVS}. take (length (names i)) cs \<noteq> map lower (names i)) \<and> take (length (ascii ''null'')) cs \<noteq> ascii ''null''"

lemma unknown_device:
  assumes "no_device names cs"
  shows "nm_first (dev_tab devtab names @ fs_tab) (ascii ''/dev/'' @ cs) = Some (ascii ''/'', ascii ''root:'', RFILESYS)"
proof -
  have "nm_first (dev_tab devtab names) (ascii ''/dev/'' @ cs) = None"
    using assms unfolding nm_first_None dev_tab_def dev_entry_def no_device_def by auto
  moreover have "nm_first fs_tab (ascii ''/dev/'' @ cs) = Some (ascii ''/'', ascii ''root:'', RFILESYS)"
    using assms unfolding fs_tab_eq by (auto simp: ascii_entry_def ascii_def no_device_def)
  ultimately show ?thesis by (simp add: nm_first_append)
qed

section \<open>Properties\<close>

text \<open>C39: \<open>nammap\<close> replaces the first prefix of the table that the name starts with, and gives the
  device of the entry, as the list of prefixes says.  It returns SYSERR when no prefix fits, when the
  name or the new name does not fit its buffer, and when the entry leads back to the name space:
  despite its loop, no name is ever mapped twice.  (A name of exactly 255 characters is excluded.)\<close>

theorem nammap_refines:
  assumes "nm_ok ns m tab" "cstr m name cs" "length cs \<noteq> 255" "nm_room ns tmpname name newname (length cs)" "0 \<le> namdev"
  shows "\<exists>r m'. nammap tmpname name newname namdev ns m = Some (r, m')
    \<and> (case nm_map tab namdev cs of Some (d, new) \<Rightarrow> r = d \<and> cstr m' newname new | None \<Rightarrow> r = SYSERR)"
  using nammap_ok [OF assms] .

definition nm_ex :: nmentries where
  "nm_ex = \<lparr>nametab = 0, ndevice = (\<lambda>i. if i = 0 then 3 else 17), nnames = 2\<rparr>"

definition nm_mem :: bytes where
  "nm_mem = poke (poke (poke (poke (\<lambda>_. 0) 0 [97, 47, 0]) 64 [98, 47, 0]) 164 [98, 47, 0]) 9000 [97, 47, 120, 0]"

lemma nm_ex_ok: "nm_ok nm_ex nm_mem [([97, 47], [98, 47], 3), ([98, 47], [], 17)]"
  by (simp add: nm_ok_def nm_entry_def nm_ex_def nm_mem_def nprefix_def nreplace_def less_Suc_eq)

theorem nammap_refines_witness:
  "(\<exists>r m'. nammap 7000 9000 8000 3 nm_ex nm_mem = Some (r, m') \<and> r = SYSERR)
   \<and> (\<exists>r m'. nammap 7000 9000 8000 4 nm_ex nm_mem = Some (r, m') \<and> r = 3 \<and> cstr m' 8000 [98, 47, 120])"
proof -
  have n: "cstr nm_mem 9000 [97, 47, 120]" "length [97, 47, 120 :: 8 word] \<noteq> 255" "nm_room nm_ex 7000 9000 8000 (length [97, 47, 120 :: 8 word])"
    by (simp_all add: nm_mem_def nm_room_def nm_off_def off_def nm_ex_def)
  have "nm_map [([97, 47], [98, 47], 3), ([98, 47], [], 17)] 3 [97, 47, 120] = None"
    "nm_map [([97, 47], [98, 47], 3), ([98, 47], [], 17)] 4 [97, 47, 120] = Some (3, [98, 47, 120])"
    by (simp_all add: nm_map_def nm_new_def)
  with nammap_refines [OF nm_ex_ok n, of 3] nammap_refines [OF nm_ex_ok n, of 4] show ?thesis by auto
qed

text \<open>C40: a name under \<open>/dev/\<close> that starts with the name of no device is meant to be an error: \<open>naminit\<close>
  mounts \<open>/dev/\<close> on the device SYSERR.  But \<open>mount\<close> refuses SYSERR as a bad device, so that after
  \<open>naminit\<close> every such name goes on to the prefix \<open>/\<close> and opens the file
  \<open>root:dev/...\<close> of the remote file system.\<close>

theorem unknown_device_remote:
  assumes "nm_lits lit tmpstr ns m" "nm_devs devtab names tmpstr ns m" "no_device names cs" "length cs < 240"
    and "safe_str ns tmpstr m name (ascii ''/dev/'' @ cs)" "nm_room ns tmpname name newname (length cs + 5)"
  shows "\<exists>ns' m' m''. naminit lit tmpstr devtab (ns, m) = Some (OK, ns', m')
    \<and> nammap tmpname name newname 3 ns' m' = Some (RFILESYS, m'') \<and> cstr m'' newname (ascii ''root:dev/'' @ cs)"
proof -
  from naminit_ok [OF assms(1,2)] obtain ns' m' where i: "naminit lit tmpstr devtab (ns, m) = Some (OK, ns', m')"
    and ok: "nm_ok ns' m' (dev_tab devtab names @ fs_tab)" and k: "nametab ns' = nametab ns" "kept ns tmpstr m m'" by blast
  have n: "cstr m' name (ascii ''/dev/'' @ cs)" by (rule kept_str [OF k(2) assms(5)])
  have l: "length (ascii ''/dev/'' @ cs) = length cs + 5" by (simp add: ascii_def)
  then have "length (ascii ''/dev/'' @ cs) \<noteq> 255" using assms(4) by simp
  moreover have "nm_room ns' tmpname name newname (length (ascii ''/dev/'' @ cs))"
    using assms(6) l k(1) by (simp add: nm_room_def nm_off_def)
  moreover have "nm_map (dev_tab devtab names @ fs_tab) 3 (ascii ''/dev/'' @ cs) = Some (6, ascii ''root:dev/'' @ cs)"
    unfolding nm_map_def unknown_device [OF assms(3)] using assms(4) l by (simp add: nm_new_def ascii_def)
  ultimately show ?thesis using nammap_ok [OF ok n, of tmpname newname 3] i by auto
qed

definition nm_lit :: "string \<Rightarrow> int" where
  "nm_lit s = (if s = '''' then 20000 else if s = ''/dev/'' then 20010 else if s = ''/dev/null'' then 20020
     else if s = ''/remote/'' then 20040 else if s = ''remote:'' then 20050 else if s = ''/local/'' then 20060
     else if s = ''~/'' then 20070 else if s = ''/'' then 20080 else 20090)"

definition nm_big :: bytes where
  "nm_big = poke (poke (poke (poke (poke (poke (poke (poke (poke (poke (\<lambda>_. 0) 20010 (ascii ''/dev/'')) 20020 (ascii ''/dev/null''))
     20040 (ascii ''/remote/'')) 20050 (ascii ''remote:'')) 20060 (ascii ''/local/'')) 20070 (ascii ''~/'')) 20080 (ascii ''/''))
     20090 (ascii ''root:'')) 20100 (ascii ''A'')) 20110 (ascii ''/dev/tty'')"

theorem unknown_device_remote_witness:
  "\<exists>ns' m' m''. naminit nm_lit 8000 (\<lambda>i. dev_ex i\<lparr>dvname := 20100\<rparr>) (nm_ex, nm_big) = Some (OK, ns', m')
    \<and> nammap 9000 20110 10000 3 ns' m' = Some (RFILESYS, m'') \<and> cstr m'' 10000 (ascii ''root:dev/tty'')"
proof -
  have "nm_lits nm_lit 8000 nm_ex nm_big"
    by (simp add: nm_lits_def other_prefixes_def safe_str_def nm_lit_def nm_big_def ascii_def nm_off_def off_def nm_ex_def)
  moreover have "nm_devs (\<lambda>i. dev_ex i\<lparr>dvname := 20100\<rparr>) (\<lambda>_. [65]) 8000 nm_ex nm_big"
    by (simp add: nm_devs_def dev_ex_def safe_str_def nm_big_def ascii_def nm_off_def off_def nm_ex_def)
  moreover have "no_device (\<lambda>_. [65]) (ascii ''tty'')" by (auto simp: no_device_def ascii_def lower_def)
  moreover have "safe_str nm_ex 8000 nm_big 20110 (ascii ''/dev/'' @ ascii ''tty'')"
    "nm_room nm_ex 9000 20110 10000 (length (ascii ''tty'') + 5)" "length (ascii ''tty'') < 240"
    by (simp_all add: safe_str_def nm_room_def nm_big_def ascii_def nm_off_def off_def nm_ex_def)
  ultimately show ?thesis
    using unknown_device_remote [of nm_lit 8000 nm_ex nm_big "\<lambda>i. dev_ex i\<lparr>dvname := 20100\<rparr>" "\<lambda>_. [65]" "ascii ''tty''" 20110 9000 10000]
    by (simp add: ascii_def)
qed

end
