(* ===== verification/LfsDisk.thy ===== *)
theory LfsDisk
  imports Mem32
begin

unbundle bit_operations_syntax

text \<open>
  The disk of the local file system: \<open>device/ram/\<close>, the structures of
  \<open>include/lfilesys.h\<close> with their layout in a sector, and \<open>lfibget.c\<close>, \<open>lfibput.c\<close>,
  \<open>lfibclear.c\<close>.  A structure the code casts to bytes is a record with a function to bytes and
  one back; the lemmas are the round trips and what a write leaves alone.
\<close>

section \<open>The RAM disk\<close>

abbreviation (input) RM_BLKSIZ :: int where "RM_BLKSIZ \<equiv> 512"
abbreviation (input) RM_BLKS :: int where "RM_BLKS \<equiv> 200"

type_synonym block = "8 word list"

text \<open>A block number outside the disk makes \<open>memcpy\<close> leave the array: no value.\<close>

definition ramread :: "int \<Rightarrow> bytes \<Rightarrow> (int \<times> block) option" where
  "ramread blk disk =
     (let bpos = RM_BLKSIZ * blk in
      if 0 \<le> blk \<and> blk < RM_BLKS then Some (OK, map (\<lambda>i. disk (bpos + int i)) [0..<512]) else None)"

definition ramwrite :: "block \<Rightarrow> int \<Rightarrow> bytes \<Rightarrow> (int \<times> bytes) option" where
  "ramwrite buff blk disk =
     (let bpos = RM_BLKSIZ * blk in
      if 0 \<le> blk \<and> blk < RM_BLKS then Some (OK, poke disk bpos buff) else None)"

definition raminit :: "bytes \<Rightarrow> int \<times> bytes" where
  "raminit disk =
     (let disk = poke disk 0 [104, 111, 112, 101, 108, 101, 115, 115];
        disk = snd (memcpy disk 8 0 (RM_BLKSIZ * RM_BLKS - 8))
      in (OK, disk))"

definition ramopen :: "int \<Rightarrow> int" where
  "ramopen dvnum = dvnum"

definition ramclose :: int where
  "ramclose = OK"

section \<open>The structures on disk\<close>

abbreviation (input) LF_BLKSIZ :: nat where "LF_BLKSIZ \<equiv> 512"
abbreviation (input) LF_NAME_LEN :: nat where "LF_NAME_LEN \<equiv> 16"
abbreviation (input) LF_NUM_DIR_ENT :: nat where "LF_NUM_DIR_ENT \<equiv> 20"
abbreviation (input) LF_INULL :: int where "LF_INULL \<equiv> -1"
abbreviation (input) LF_DNULL :: int where "LF_DNULL \<equiv> -1"
abbreviation (input) LF_IBLEN :: nat where "LF_IBLEN \<equiv> 16"
abbreviation (input) LF_IDATA :: int where "LF_IDATA \<equiv> 8192"
abbreviation (input) LF_IMASK :: int where "LF_IMASK \<equiv> 0x1fff"
abbreviation (input) LF_DMASK :: int where "LF_DMASK \<equiv> 0x1ff"
abbreviation (input) LF_AREA_IB :: int where "LF_AREA_IB \<equiv> 1"
abbreviation (input) LF_AREA_DIR :: int where "LF_AREA_DIR \<equiv> 0"

record lfiblk =
  ib_next :: int
  ib_offset :: int
  ib_dba :: "int list"

record ldentry =
  ld_size :: int
  ld_ilist :: int
  ld_name :: "8 word list"

record lfdir =
  lfd_dfree :: int
  lfd_ifree :: int
  lfd_nfiles :: int
  lfd_files :: "ldentry list"
  lfd_padding :: "8 word list"

text \<open>Words are stored with the low byte first.\<close>

definition le32 :: "int \<Rightarrow> 8 word list" where
  "le32 v = [word_of_int v, word_of_int (v div 256), word_of_int (v div 65536), word_of_int (v div 16777216)]"

fun rd32 :: "8 word list \<Rightarrow> int" where
  "rd32 (a # b # c # d # _) = uint a + 256 * uint b + 65536 * uint c + 16777216 * uint d"
| "rd32 _ = 0"

fun rd32s :: "nat \<Rightarrow> 8 word list \<Rightarrow> int list" where
  "rd32s 0 bs = []"
| "rd32s (Suc n) bs = s32 (rd32 bs) # rd32s n (drop 4 bs)"

definition enc_ib :: "lfiblk \<Rightarrow> 8 word list" where
  "enc_ib ib = le32 (ib_next ib) @ le32 (ib_offset ib) @ concat (map le32 (ib_dba ib))"

definition dec_ib :: "8 word list \<Rightarrow> lfiblk" where
  "dec_ib bs = \<lparr>ib_next = s32 (rd32 bs), ib_offset = rd32 (drop 4 bs), ib_dba = rd32s LF_IBLEN (drop 8 bs)\<rparr>"

definition enc_lde :: "ldentry \<Rightarrow> 8 word list" where
  "enc_lde e = le32 (ld_size e) @ le32 (ld_ilist e) @ ld_name e"

definition dec_lde :: "8 word list \<Rightarrow> ldentry" where
  "dec_lde bs = \<lparr>ld_size = rd32 bs, ld_ilist = s32 (rd32 (drop 4 bs)), ld_name = take LF_NAME_LEN (drop 8 bs)\<rparr>"

fun dec_ldes :: "nat \<Rightarrow> 8 word list \<Rightarrow> ldentry list" where
  "dec_ldes 0 bs = []"
| "dec_ldes (Suc n) bs = dec_lde bs # dec_ldes n (drop 24 bs)"

definition enc_dir :: "lfdir \<Rightarrow> 8 word list" where
  "enc_dir d = le32 (lfd_dfree d) @ le32 (lfd_ifree d) @ le32 (lfd_nfiles d) @ concat (map enc_lde (lfd_files d)) @ lfd_padding d"

definition dec_dir :: "8 word list \<Rightarrow> lfdir" where
  "dec_dir bs = \<lparr>lfd_dfree = s32 (rd32 bs), lfd_ifree = s32 (rd32 (drop 4 bs)), lfd_nfiles = s32 (rd32 (drop 8 bs)),
     lfd_files = dec_ldes LF_NUM_DIR_ENT (drop 12 bs), lfd_padding = take 20 (drop 492 bs)\<rparr>"

text \<open>A data block on the free list: the number of the next one in its first word.\<close>

definition lf_nextdb :: "block \<Rightarrow> int" where
  "lf_nextdb b = s32 (rd32 b)"

section \<open>Index blocks\<close>

text \<open>Seven index blocks of 72 bytes to a sector.\<close>

definition ib2sect :: "int \<Rightarrow> int" where
  "ib2sect ib = ib div 7 + LF_AREA_IB"

definition ib2disp :: "int \<Rightarrow> int" where
  "ib2disp ib = ib mod 7 * 72"

definition lfibclear :: "int \<Rightarrow> lfiblk" where
  "lfibclear offset = \<lparr>ib_next = LF_INULL, ib_offset = offset, ib_dba = replicate LF_IBLEN LF_DNULL\<rparr>"

definition lfibget :: "int \<Rightarrow> bytes \<Rightarrow> lfiblk option" where
  "lfibget inum disk =
     (if inum < 0 then None
      else do {
        (_, dbuff) \<leftarrow> ramread (ib2sect inum) disk;
        Some (dec_ib (take 72 (drop (nat (ib2disp inum)) dbuff)))
      })"

definition lfibput :: "int \<Rightarrow> lfiblk \<Rightarrow> bytes \<Rightarrow> (int \<times> bytes) option" where
  "lfibput inum ibuff disk =
     (if inum < 0 then None
      else do {
        let diskblock = ib2sect inum;
        let n = nat (ib2disp inum);
        (r, dbuff) \<leftarrow> ramread diskblock disk;
        if r = SYSERR then Some (SYSERR, disk)
        else do {
          let dbuff = take n dbuff @ enc_ib ibuff @ drop (n + 72) dbuff;
          (_, disk) \<leftarrow> ramwrite dbuff diskblock disk;
          Some (OK, disk)
        }
      })"

section \<open>Round trips\<close>

lemma length_le32 [simp]: "length (le32 v) = 4"
  by (simp add: le32_def)

lemma rd32_le32 [simp]: "rd32 (le32 v @ xs) = u32 v"
proof -
  have "v mod 4294967296 = u32 v" by (simp add: u32_def)
  then show ?thesis unfolding le32_def append_Cons rd32.simps uint_byte bytes_of_word .
qed

lemma rd32_le32' [simp]: "rd32 (le32 v) = u32 v"
  using rd32_le32 [of v "[]"] by simp

lemma drop_le32 [simp]: "drop 4 (le32 v @ xs) = xs" "drop 8 (le32 v @ le32 w @ xs) = xs"
    "drop 12 (le32 v @ le32 w @ le32 z @ xs) = xs"
  using length_le32 [of v] length_le32 [of w] length_le32 [of z] by (simp_all del: length_le32)

lemma s32_u32: "in_s32 v \<Longrightarrow> s32 (u32 v) = v"
proof -
  assume v: "in_s32 v"
  have "(v mod 2 ^ 32 + 2 ^ 31) mod 2 ^ 32 = (v + 2 ^ 31) mod (2 ^ 32 :: int)" by (simp add: mod_simps)
  then show ?thesis using v by (simp add: s32_def u32_def in_s32_def)
qed

lemma rd32s_ok [simp]: "list_all in_s32 ws \<Longrightarrow> rd32s (length ws) (concat (map le32 ws) @ xs) = ws"
  by (induction ws) (simp_all add: s32_u32)

definition ok_ib :: "lfiblk \<Rightarrow> bool" where
  "ok_ib ib \<longleftrightarrow> in_s32 (ib_next ib) \<and> 0 \<le> ib_offset ib \<and> ib_offset ib < 2 ^ 32 \<and> length (ib_dba ib) = 16 \<and> list_all in_s32 (ib_dba ib)"

lemma length_enc_ib: "ok_ib ib \<Longrightarrow> length (enc_ib ib) = 72"
  by (simp add: enc_ib_def ok_ib_def length_concat o_def sum_list_triv)

lemma dec_enc_ib: "ok_ib ib \<Longrightarrow> dec_ib (enc_ib ib @ xs) = ib"
  using rd32s_ok [of "ib_dba ib" xs] by (simp add: ok_ib_def enc_ib_def dec_ib_def s32_u32)

definition ok_lde :: "ldentry \<Rightarrow> bool" where
  "ok_lde e \<longleftrightarrow> 0 \<le> ld_size e \<and> ld_size e < 2 ^ 32 \<and> in_s32 (ld_ilist e) \<and> length (ld_name e) = 16"

lemma length_enc_lde [simp]: "ok_lde e \<Longrightarrow> length (enc_lde e) = 24"
  by (simp add: enc_lde_def ok_lde_def)

lemma dec_enc_lde: "ok_lde e \<Longrightarrow> dec_lde (enc_lde e @ xs) = e"
  by (simp add: enc_lde_def dec_lde_def ok_lde_def s32_u32)

lemma dec_ldes_ok: "list_all ok_lde es \<Longrightarrow> dec_ldes (length es) (concat (map enc_lde es) @ xs) = es"
  by (induction es) (simp_all add: dec_enc_lde)

definition ok_dir :: "lfdir \<Rightarrow> bool" where
  "ok_dir d \<longleftrightarrow> in_s32 (lfd_dfree d) \<and> in_s32 (lfd_ifree d) \<and> in_s32 (lfd_nfiles d) \<and> length (lfd_files d) = 20
     \<and> list_all ok_lde (lfd_files d) \<and> length (lfd_padding d) = 20"

lemma length_enc_ldes: "list_all ok_lde es \<Longrightarrow> length (concat (map enc_lde es)) = 24 * length es"
  by (induction es) simp_all

lemma length_enc_dir: "ok_dir d \<Longrightarrow> length (enc_dir d) = 512"
  using length_enc_ldes [of "lfd_files d"] by (simp add: enc_dir_def ok_dir_def)

lemma dec_enc_dir: "ok_dir d \<Longrightarrow> dec_dir (enc_dir d) = d"
proof -
  assume d: "ok_dir d"
  have "dec_ldes 20 (concat (map enc_lde (lfd_files d)) @ lfd_padding d) = lfd_files d"
    using dec_ldes_ok [of "lfd_files d" "lfd_padding d"] d by (simp add: ok_dir_def)
  moreover have "drop 492 (enc_dir d) = lfd_padding d"
    using d length_enc_ldes [of "lfd_files d"] by (simp add: enc_dir_def ok_dir_def)
  ultimately show ?thesis using d unfolding dec_dir_def enc_dir_def by (simp add: ok_dir_def s32_u32)
qed

section \<open>Sectors and index blocks of a disk\<close>

definition sector :: "bytes \<Rightarrow> int \<Rightarrow> block" where
  "sector disk blk = map (\<lambda>i. disk (512 * blk + int i)) [0..<512]"

definition iblk :: "bytes \<Rightarrow> int \<Rightarrow> lfiblk" where
  "iblk disk inum = dec_ib (take 72 (drop (nat (ib2disp inum)) (sector disk (ib2sect inum))))"

lemma length_sector [simp]: "length (sector d n) = 512"
  by (simp add: sector_def)

lemma nth_sector: "i < 512 \<Longrightarrow> sector d n ! i = d (512 * n + int i)"
  unfolding sector_def by (subst nth_map) (simp_all del: upt_rec_numeral)

lemma ramread_ok: "0 \<le> n \<Longrightarrow> n < 200 \<Longrightarrow> ramread n d = Some (OK, sector d n)"
  by (simp add: ramread_def sector_def Let_def)

lemma poke_sector:
  assumes "length b = 512"
  shows "sector (poke d (512 * n) b) k = (if k = n then b else sector d k)"
proof -
  have "poke d (512 * n) b (512 * k + int i) = (if k = n then b ! i else d (512 * k + int i))" if i: "i < 512" for i
  proof (cases "k = n")
    case True
    then show ?thesis using poke_at [of i b d "512 * n"] i assms by simp
  next
    case False
    then have "k + 1 \<le> n \<or> n + 1 \<le> k" by linarith
    then have "512 * k + int i < 512 * n \<or> 512 * n + 512 \<le> 512 * k + int i" using i by linarith
    moreover have "poke d (512 * n) b (512 * k + int i) = d (512 * k + int i)" if "512 * k + int i < 512 * n"
      by (rule poke_below [OF that])
    moreover have "poke d (512 * n) b (512 * k + int i) = d (512 * k + int i)" if "512 * n + 512 \<le> 512 * k + int i"
      by (rule poke_above) (use that assms in linarith)
    ultimately show ?thesis using False by argo
  qed
  then show ?thesis using assms by (intro nth_equalityI) (simp_all add: nth_sector)
qed

lemma ramwrite_ok:
  assumes "0 \<le> n" "n < 200" "length b = 512"
  shows "\<exists>d'. ramwrite b n d = Some (OK, d') \<and> (\<forall>k. sector d' k = (if k = n then b else sector d k))"
  using poke_sector [OF assms(3), of d n] assms(1,2) by (auto simp: ramwrite_def Let_def)

lemma iblk_cong: "sector d' (ib2sect n) = sector d (ib2sect n) \<Longrightarrow> iblk d' n = iblk d n"
  by (simp add: iblk_def)

lemma lfibget_ok: "0 \<le> n \<Longrightarrow> ib2sect n < 200 \<Longrightarrow> lfibget n d = Some (iblk d n)"
  by (simp add: lfibget_def ramread_ok iblk_def ib2sect_def)

lemma ib2disp_range: "0 \<le> n \<Longrightarrow> 0 \<le> ib2disp n \<and> ib2disp n \<le> 432"
  using pos_mod_bound [of 7 n] by (simp add: ib2disp_def)

lemma ib2disp_apart:
  assumes "ib2sect n = ib2sect k" "n \<noteq> k"
  shows "ib2disp n + 72 \<le> ib2disp k \<or> ib2disp k + 72 \<le> ib2disp n"
proof -
  have "n mod 7 \<noteq> k mod 7" using assms div_mult_mod_eq [of n 7] div_mult_mod_eq [of k 7] by (auto simp: ib2sect_def)
  then show ?thesis by (auto simp: ib2disp_def)
qed

lemma patch_same: "n + 72 \<le> length b \<Longrightarrow> length x = 72 \<Longrightarrow> take 72 (drop n (take n b @ x @ drop (n + 72) b)) = x"
  by simp

lemma patch_other:
  assumes "n + 72 \<le> length b" "length x = 72" "k + 72 \<le> n \<or> n + 72 \<le> k"
  shows "take 72 (drop k (take n b @ x @ drop (n + 72) b)) = take 72 (drop k b)"
  using assms(3)
proof
  assume k: "k + 72 \<le> n"
  then have "take 72 (drop k (take n b @ x @ drop (n + 72) b)) = take 72 (drop k (take n b))" using assms by simp
  then show ?thesis using k by (simp add: drop_take)
next
  assume k: "n + 72 \<le> k"
  then have "drop k (take n b @ x @ drop (n + 72) b) = drop (k - n - 72) (drop (n + 72) b)" using assms by simp
  then show ?thesis using k by simp
qed

lemma lfibput_ok:
  assumes n: "0 \<le> n" "ib2sect n < 200" and ib: "ok_ib ib"
  shows "\<exists>d'. lfibput n ib d = Some (OK, d') \<and> (\<forall>k \<ge> 0. iblk d' k = (if k = n then ib else iblk d k))
    \<and> (\<forall>k. k \<noteq> ib2sect n \<longrightarrow> sector d' k = sector d k)"
proof -
  define j where "j = nat (ib2disp n)"
  define b where "b = take j (sector d (ib2sect n)) @ enc_ib ib @ drop (j + 72) (sector d (ib2sect n))"
  have j: "j + 72 \<le> 512" using ib2disp_range [OF n(1)] unfolding j_def by linarith
  have sn: "0 \<le> ib2sect n" using n(1) by (simp add: ib2sect_def)
  have lb: "length b = 512" using j length_enc_ib [OF ib] by (simp add: b_def)
  from ramwrite_ok [OF sn n(2) lb, of d] obtain d' where d': "ramwrite b (ib2sect n) d = Some (OK, d')"
    "\<forall>k. sector d' k = (if k = ib2sect n then b else sector d k)" by blast
  have "iblk d' k = (if k = n then ib else iblk d k)" if k: "0 \<le> k" for k
  proof (cases "ib2sect k = ib2sect n")
    case False
    then show ?thesis using d'(2) by (auto intro!: iblk_cong)
  next
    case same: True
    show ?thesis
    proof (cases "k = n")
      case True
      have "take 72 (drop j b) = enc_ib ib" unfolding b_def by (rule patch_same) (use j length_enc_ib [OF ib] in simp_all)
      then show ?thesis using True d'(2) dec_enc_ib [OF ib, of "[]"] by (simp add: iblk_def j_def)
    next
      case False
      have "nat (ib2disp k) + 72 \<le> j \<or> j + 72 \<le> nat (ib2disp k)"
        using ib2disp_apart [OF same False] ib2disp_range [OF k] ib2disp_range [OF n(1)] by (auto simp: j_def)
      then have "take 72 (drop (nat (ib2disp k)) b) = take 72 (drop (nat (ib2disp k)) (sector d (ib2sect n)))"
        unfolding b_def by (intro patch_other) (use j length_enc_ib [OF ib] in simp_all)
      then show ?thesis using False same d'(2) by (simp add: iblk_def)
    qed
  qed
  moreover have "lfibput n ib d = Some (OK, d')"
    using n sn d'(1) by (simp add: lfibput_def ramread_ok Let_def j_def [symmetric] b_def)
  ultimately show ?thesis using d'(2) by auto
qed

end
