(* ===== verification/Lfs.thy ===== *)
theory Lfs
  imports LfsDisk LibStr
begin

text \<open>
  The local file system, \<open>device/lfs/\<close>, over the RAM disk (\<open>LF_DISK_DEV\<close> of
  \<open>conf.h\<close>).  The state holds the disk, the directory in memory, the control blocks of the open
  files, and memory for names and data.  A mutex is its count: waiting for one that is taken has no
  value, and neither has a call of \<open>panic\<close>.  A pointer into the directory is the number of the
  entry, the pointer \<open>lfbyte\<close> an index into the data block.
\<close>

section \<open>The state\<close>

abbreviation (input) Nlfl :: nat where "Nlfl \<equiv> 6"
abbreviation (input) LF_MODE_R :: int where "LF_MODE_R \<equiv> 1"
abbreviation (input) LF_MODE_W :: int where "LF_MODE_W \<equiv> 2"
abbreviation (input) LF_MODE_RW :: int where "LF_MODE_RW \<equiv> 3"
abbreviation (input) LF_MODE_N :: int where "LF_MODE_N \<equiv> 4"
abbreviation (input) LF_MODE_O :: int where "LF_MODE_O \<equiv> 8"
abbreviation (input) LF_CTL_TRUNC :: int where "LF_CTL_TRUNC \<equiv> 2"

datatype lfstate = LF_FREE | LF_USED

record lflcblk =
  lfstate :: lfstate
  lfdev :: int
  lfmutex :: int
  lfdirptr :: int
  lfmode :: int
  lfpos :: int
  lfname :: "8 word list"
  lfinum :: int
  lfiblock :: lfiblk
  lfdnum :: int
  lfdblock :: block
  lfbyte :: int
  lfibdirty :: bool
  lfdbdirty :: bool

record lfs =
  ram :: bytes
  lf_mutex :: int
  lf_dir :: lfdir
  lf_dirpresent :: bool
  lf_dirdirty :: bool
  lfltab :: "int \<Rightarrow> lflcblk"
  umem :: bytes
  junk :: "8 word list"

text \<open>\<open>junk\<close> is what the stack holds in the part of a buffer that is not initialised.\<close>

definition mtake :: "int \<Rightarrow> int option" where
  "mtake c = (if c > 0 then Some (c - 1) else None)"

definition setcb :: "int \<Rightarrow> (lflcblk \<Rightarrow> lflcblk) \<Rightarrow> lfs \<Rightarrow> lfs" where
  "setcb f g s = s\<lparr>lfltab := (lfltab s)(f := g (lfltab s f))\<rparr>"

definition lf_wait :: "lfs \<Rightarrow> lfs option" where
  "lf_wait s = do { c \<leftarrow> mtake (lf_mutex s); Some (s\<lparr>lf_mutex := c\<rparr>) }"

definition lf_signal :: "lfs \<Rightarrow> lfs" where
  "lf_signal s = s\<lparr>lf_mutex := lf_mutex s + 1\<rparr>"

definition file_wait :: "int \<Rightarrow> lfs \<Rightarrow> lfs option" where
  "file_wait f s = do { c \<leftarrow> mtake (lfmutex (lfltab s f)); Some (setcb f (\<lambda>b. b\<lparr>lfmutex := c\<rparr>) s) }"

definition file_signal :: "int \<Rightarrow> lfs \<Rightarrow> lfs" where
  "file_signal f = setcb f (\<lambda>b. b\<lparr>lfmutex := lfmutex b + 1\<rparr>)"

text \<open>Entries of the directory, with the index in range.\<close>

definition dirent :: "int \<Rightarrow> lfs \<Rightarrow> ldentry option" where
  "dirent i s = (if 0 \<le> i \<and> nat i < length (lfd_files (lf_dir s)) then Some (lfd_files (lf_dir s) ! nat i) else None)"

definition upd_dirent :: "int \<Rightarrow> (ldentry \<Rightarrow> ldentry) \<Rightarrow> lfs \<Rightarrow> lfs option" where
  "upd_dirent i g s = do {
     e \<leftarrow> dirent i s;
     Some (s\<lparr>lf_dir := (lf_dir s)\<lparr>lfd_files := (lfd_files (lf_dir s))[nat i := g e]\<rparr>\<rparr>)
   }"

section \<open>Blocks\<close>

definition dwrite :: "block \<Rightarrow> int \<Rightarrow> lfs \<Rightarrow> lfs option" where
  "dwrite b blk s = do { (_, d) \<leftarrow> ramwrite b blk (ram s); Some (s\<lparr>ram := d\<rparr>) }"

definition write_dir :: "lfs \<Rightarrow> lfs option" where
  "write_dir s = dwrite (enc_dir (lf_dir s)) LF_AREA_DIR s"

definition lfiballoc :: "lfs \<Rightarrow> (int \<times> lfs) option" where
  "lfiballoc s =
     (let ibnum = lfd_ifree (lf_dir s) in
      if ibnum = LF_INULL then None
      else do {
        iblock \<leftarrow> lfibget ibnum (ram s);
        let s = s\<lparr>lf_dir := (lf_dir s)\<lparr>lfd_ifree := ib_next iblock\<rparr>\<rparr>;
        s \<leftarrow> write_dir s;
        Some (ibnum, s\<lparr>lf_dirdirty := False\<rparr>)
      })"

text \<open>The buffer passed to \<open>lfdballoc\<close> is filled with \<open>'+'\<close> and returned.\<close>

definition lfdballoc :: "lfs \<Rightarrow> (int \<times> block \<times> lfs) option" where
  "lfdballoc s =
     (let dnum = lfd_dfree (lf_dir s) in
      if dnum = LF_DNULL then None
      else do {
        (retval, dbuff) \<leftarrow> ramread dnum (ram s);
        if retval = SYSERR then None
        else do {
          let s = s\<lparr>lf_dir := (lf_dir s)\<lparr>lfd_dfree := lf_nextdb dbuff\<rparr>\<rparr>;
          s \<leftarrow> write_dir s;
          Some (dnum, replicate LF_BLKSIZ 43, s\<lparr>lf_dirdirty := False\<rparr>)
        }
      })"

definition lfdbfree :: "int \<Rightarrow> lfs \<Rightarrow> (int \<times> lfs) option" where
  "lfdbfree dnum s = do {
     let buf = le32 (lfd_dfree (lf_dir s)) @ junk s;
     let s = s\<lparr>lf_dir := (lf_dir s)\<lparr>lfd_dfree := dnum\<rparr>\<rparr>;
     s \<leftarrow> dwrite buf dnum s;
     s \<leftarrow> write_dir s;
     Some (OK, s)
   }"

definition put_ib :: "int \<Rightarrow> lfiblk \<Rightarrow> lfs \<Rightarrow> (int \<times> lfs) option" where
  "put_ib inum ib s = do { (r, d) \<leftarrow> lfibput inum ib (ram s); Some (r, s\<lparr>ram := d\<rparr>) }"

text \<open>The three writes of \<open>lfflush\<close>.\<close>

definition flush_dir :: "lfs \<Rightarrow> lfs option" where
  "flush_dir s = (if lf_dirdirty s then do { s \<leftarrow> write_dir s; Some (s\<lparr>lf_dirdirty := False\<rparr>) } else Some s)"

definition flush_db :: "int \<Rightarrow> lfs \<Rightarrow> lfs option" where
  "flush_db f s =
     (if lfdbdirty (lfltab s f) then do {
        s \<leftarrow> dwrite (lfdblock (lfltab s f)) (lfdnum (lfltab s f)) s;
        Some (setcb f (\<lambda>b. b\<lparr>lfdbdirty := False\<rparr>) s)
      } else Some s)"

definition flush_ib :: "int \<Rightarrow> lfs \<Rightarrow> lfs option" where
  "flush_ib f s =
     (if lfibdirty (lfltab s f) then do {
        (_, s) \<leftarrow> put_ib (lfinum (lfltab s f)) (lfiblock (lfltab s f)) s;
        Some (setcb f (\<lambda>b. b\<lparr>lfibdirty := False\<rparr>) s)
      } else Some s)"

definition lfflush :: "int \<Rightarrow> lfs \<Rightarrow> (int \<times> lfs) option" where
  "lfflush f s =
     (if lfstate (lfltab s f) = LF_FREE then Some (SYSERR, s)
      else do {
        s \<leftarrow> flush_dir s;
        s \<leftarrow> flush_db f s;
        s \<leftarrow> flush_ib f s;
        Some (OK, s)
      })"

section \<open>Setting up a position\<close>

text \<open>The parts of \<open>lfsetup\<close>: the first index block, the walk along the list, the data block.\<close>

definition setup_first :: "int \<Rightarrow> lfs \<Rightarrow> lfs option" where
  "setup_first f s =
     (let lf = lfltab s f in
      if lfinum lf = LF_INULL then do {
        ld \<leftarrow> dirent (lfdirptr lf) s;
        let ibnum = ld_ilist ld;
        if ibnum = LF_INULL then do {
          (ibnum, s) \<leftarrow> lfiballoc s;
          let s = setcb f (\<lambda>b. b\<lparr>lfiblock := lfibclear 0\<rparr>) s;
          s \<leftarrow> upd_dirent (lfdirptr lf) (\<lambda>e. e\<lparr>ld_ilist := ibnum\<rparr>) s;
          Some (setcb f (\<lambda>b. b\<lparr>lfibdirty := True, lfinum := ibnum\<rparr>) s)
        } else do {
          ib \<leftarrow> lfibget ibnum (ram s);
          Some (setcb f (\<lambda>b. b\<lparr>lfiblock := ib, lfinum := ibnum\<rparr>) s)
        }
      }
      else if lfpos lf < ib_offset (lfiblock lf) then do {
        ld \<leftarrow> dirent (lfdirptr lf) s;
        let ibnum = ld_ilist ld;
        ib \<leftarrow> lfibget ibnum (ram s);
        Some (setcb f (\<lambda>b. b\<lparr>lfiblock := ib, lfinum := ibnum\<rparr>) s)
      }
      else Some s)"

definition setup_step :: "int \<Rightarrow> lfs \<Rightarrow> lfs option" where
  "setup_step f s = do {
     let lf = lfltab s f;
     let ibnum = ib_next (lfiblock lf);
     s \<leftarrow> (if ibnum = LF_INULL then do {
             (ibnum, s) \<leftarrow> lfiballoc s;
             let old = (lfiblock lf)\<lparr>ib_next := ibnum\<rparr>;
             (_, s) \<leftarrow> put_ib (lfinum lf) old s;
             let newoffset = u32 (ib_offset old + LF_IDATA);
             Some (setcb f (\<lambda>b. b\<lparr>lfinum := ibnum, lfiblock := lfibclear newoffset, lfibdirty := True\<rparr>) s)
           } else do {
             ib \<leftarrow> lfibget ibnum (ram s);
             Some (setcb f (\<lambda>b. b\<lparr>lfiblock := ib, lfinum := ibnum\<rparr>) s)
           });
     Some (setcb f (\<lambda>b. b\<lparr>lfdnum := LF_DNULL\<rparr>) s)
   }"

partial_function (option) setup_walk :: "int \<Rightarrow> lfs \<Rightarrow> lfs option" where
  "setup_walk f s =
     (if lfpos (lfltab s f) AND NOT LF_IMASK > ib_offset (lfiblock (lfltab s f))
      then do { s \<leftarrow> setup_step f s; setup_walk f s }
      else Some s)"

definition setup_data :: "int \<Rightarrow> lfs \<Rightarrow> lfs option" where
  "setup_data f s = do {
     let lf = lfltab s f;
     let dindex = drop_bit 9 (lfpos lf AND LF_IMASK);
     let dnum = ib_dba (lfiblock lf) ! nat dindex;
     (dnum, s) \<leftarrow> (if dnum = LF_DNULL then do {
             (dnum, buf, s) \<leftarrow> lfdballoc s;
             Some (dnum, setcb f (\<lambda>b. b\<lparr>lfdblock := buf,
               lfiblock := (lfiblock b)\<lparr>ib_dba := (ib_dba (lfiblock b))[nat dindex := dnum]\<rparr>, lfibdirty := True\<rparr>) s)
           } else if dnum \<noteq> lfdnum lf then do {
             (_, buf) \<leftarrow> ramread dnum (ram s);
             Some (dnum, setcb f (\<lambda>b. b\<lparr>lfdblock := buf, lfdbdirty := False\<rparr>) s)
           } else Some (dnum, s));
     Some (setcb f (\<lambda>b. b\<lparr>lfdnum := dnum, lfbyte := lfpos b AND LF_DMASK\<rparr>) s)
   }"

definition lfsetup :: "int \<Rightarrow> lfs \<Rightarrow> (int \<times> lfs) option" where
  "lfsetup f s = do {
     s \<leftarrow> lf_wait s;
     s \<leftarrow> (if lfibdirty (lfltab s f) \<or> lfdbdirty (lfltab s f) then do { (_, s) \<leftarrow> lfflush f s; Some s } else Some s);
     s \<leftarrow> setup_first f s;
     s \<leftarrow> setup_walk f s;
     s \<leftarrow> setup_data f s;
     Some (OK, lf_signal s)
   }"

section \<open>Reading and writing\<close>

definition lflgetc :: "int \<Rightarrow> lfs \<Rightarrow> (int \<times> lfs) option" where
  "lflgetc f s = do {
     s \<leftarrow> file_wait f s;
     if lfstate (lfltab s f) \<noteq> LF_USED then Some (SYSERR, file_signal f s)
     else do {
       ld \<leftarrow> dirent (lfdirptr (lfltab s f)) s;
       if lfpos (lfltab s f) \<ge> ld_size ld then Some (EOF, file_signal f s)
       else do {
         s \<leftarrow> (if lfbyte (lfltab s f) \<ge> int LF_BLKSIZ then do { (_, s) \<leftarrow> lfsetup f s; Some s } else Some s);
         let lf = lfltab s f;
         let onebyte = 0xff AND uint (lfdblock lf ! nat (lfbyte lf));
         let s = setcb f (\<lambda>b. b\<lparr>lfbyte := lfbyte b + 1, lfpos := u32 (lfpos b + 1)\<rparr>) s;
         Some (onebyte, file_signal f s)
       }
     }
   }"

definition lflputc :: "int \<Rightarrow> 8 word \<Rightarrow> lfs \<Rightarrow> (int \<times> lfs) option" where
  "lflputc f ch s = do {
     s \<leftarrow> file_wait f s;
     if lfstate (lfltab s f) \<noteq> LF_USED then Some (SYSERR, file_signal f s)
     else do {
       ld \<leftarrow> dirent (lfdirptr (lfltab s f)) s;
       if lfpos (lfltab s f) > ld_size ld then Some (SYSERR, file_signal f s)
       else do {
         s \<leftarrow> (if lfbyte (lfltab s f) \<ge> int LF_BLKSIZ then do { (_, s) \<leftarrow> lfsetup f s; Some s } else Some s);
         ld \<leftarrow> dirent (lfdirptr (lfltab s f)) s;
         s \<leftarrow> (if lfpos (lfltab s f) \<ge> ld_size ld then do {
                 s \<leftarrow> upd_dirent (lfdirptr (lfltab s f)) (\<lambda>e. e\<lparr>ld_size := u32 (ld_size e + 1)\<rparr>) s;
                 Some (s\<lparr>lf_dirdirty := True\<rparr>)
               } else Some s);
         let s = setcb f (\<lambda>b. b\<lparr>lfdblock := (lfdblock b)[nat (lfbyte b) := ch], lfbyte := lfbyte b + 1,
           lfpos := u32 (lfpos b + 1), lfdbdirty := True\<rparr>) s;
         Some (OK, file_signal f s)
       }
     }
   }"

text \<open>The loops of \<open>lflread\<close> and \<open>lflwrite\<close>; the first argument is what is left of \<open>count\<close>.\<close>

fun lflread_loop :: "nat \<Rightarrow> int \<Rightarrow> int \<Rightarrow> int \<Rightarrow> lfs \<Rightarrow> (int \<times> lfs) option" where
  "lflread_loop 0 numread f buff s = Some (numread, s)"
| "lflread_loop (Suc n) numread f buff s = do {
     (nxtbyte, s) \<leftarrow> lflgetc f s;
     if nxtbyte = SYSERR then Some (SYSERR, s)
     else if nxtbyte = EOF then Some (if numread = 0 then EOF else numread, s)
     else lflread_loop n (numread + 1) f (buff + 1) (s\<lparr>umem := (umem s)(buff := word_of_int (0xff AND nxtbyte))\<rparr>)
   }"

definition lflread :: "int \<Rightarrow> int \<Rightarrow> int \<Rightarrow> lfs \<Rightarrow> (int \<times> lfs) option" where
  "lflread f buff count s = (if count < 0 then Some (SYSERR, s) else lflread_loop (nat count) 0 f buff s)"

fun lflwrite_loop :: "nat \<Rightarrow> int \<Rightarrow> int \<Rightarrow> lfs \<Rightarrow> (int \<times> lfs) option" where
  "lflwrite_loop 0 f buff s = Some (OK, s)"
| "lflwrite_loop (Suc n) f buff s = do {
     (r, s) \<leftarrow> lflputc f (umem s buff) s;
     if r = SYSERR then Some (SYSERR, s) else lflwrite_loop n f (buff + 1) s
   }"

definition lflwrite :: "int \<Rightarrow> int \<Rightarrow> int \<Rightarrow> lfs \<Rightarrow> (int \<times> lfs) option" where
  "lflwrite f buff count s =
     (if count < 0 then Some (SYSERR, s)
      else do { (r, s) \<leftarrow> lflwrite_loop (nat count) f buff s; Some (if r = SYSERR then SYSERR else count, s) })"

definition lflseek :: "int \<Rightarrow> int \<Rightarrow> lfs \<Rightarrow> (int \<times> lfs) option" where
  "lflseek f offset s = do {
     s \<leftarrow> file_wait f s;
     if lfstate (lfltab s f) \<noteq> LF_USED then Some (SYSERR, file_signal f s)
     else do {
       ld \<leftarrow> dirent (lfdirptr (lfltab s f)) s;
       if offset > ld_size ld then Some (SYSERR, file_signal f s)
       else
         let s = setcb f (\<lambda>b. b\<lparr>lfpos := offset, lfbyte := int LF_BLKSIZ\<rparr>) s
         in Some (OK, file_signal f s)
     }
   }"

section \<open>Closing and truncating\<close>

definition lflclose :: "int \<Rightarrow> lfs \<Rightarrow> (int \<times> lfs) option" where
  "lflclose f s = do {
     s \<leftarrow> file_wait f s;
     if lfstate (lfltab s f) \<noteq> LF_USED then Some (SYSERR, file_signal f s)
     else do {
       s \<leftarrow> (if lf_dirdirty s \<or> lfdbdirty (lfltab s f) \<or> lfibdirty (lfltab s f)
             then do { (_, s) \<leftarrow> lfflush f s; Some s } else Some s);
       let s = setcb f (\<lambda>b. b\<lparr>lfstate := LF_FREE\<rparr>) s;
       Some (OK, file_signal f s)
     }
   }"

text \<open>Frees the data blocks of an index block.\<close>

fun free_dbs :: "int list \<Rightarrow> lfs \<Rightarrow> lfs option" where
  "free_dbs [] s = Some s"
| "free_dbs (nextdb # ds) s = do {
     s \<leftarrow> (if nextdb \<noteq> LF_DNULL then do { (_, s) \<leftarrow> lfdbfree nextdb s; Some s } else Some s);
     free_dbs ds s
   }"

definition trunc_ib :: "int \<Rightarrow> int \<Rightarrow> lfs \<Rightarrow> (int \<times> lfs) option" where
  "trunc_ib ifree nextib s = do {
     iblock \<leftarrow> lfibget nextib (ram s);
     s \<leftarrow> free_dbs (ib_dba iblock) s;
     let iblock = iblock\<lparr>ib_dba := map (\<lambda>_. LF_DNULL) (ib_dba iblock), ib_offset := 0,
       ib_next := (if ib_next iblock = LF_INULL then ifree else ib_next iblock)\<rparr>;
     (_, s) \<leftarrow> put_ib nextib iblock s;
     Some (ib_next iblock, s)
   }"

partial_function (option) trunc_loop :: "int \<Rightarrow> int \<Rightarrow> lfs \<Rightarrow> lfs option" where
  "trunc_loop ifree nextib s =
     (if nextib \<noteq> ifree then
        Option.bind (trunc_ib ifree nextib s) (\<lambda>r. trunc_loop ifree (fst r) (snd r))
      else Some s)"

definition lftruncate :: "int \<Rightarrow> lfs \<Rightarrow> (int \<times> lfs) option" where
  "lftruncate f s = do {
     let lf = lfltab s f;
     ld \<leftarrow> dirent (lfdirptr lf) s;
     if ld_size ld = 0 then Some (OK, s)
     else do {
       s \<leftarrow> (if lfibdirty lf \<or> lfdbdirty lf then do { (_, s) \<leftarrow> lfflush f s; Some s } else Some s);
       let s = setcb f (\<lambda>b. b\<lparr>lfpos := 0, lfinum := LF_INULL, lfdnum := LF_DNULL, lfbyte := int LF_BLKSIZ\<rparr>) s;
       let ifree = lfd_ifree (lf_dir s);
       let firstib = ld_ilist ld;
       s \<leftarrow> upd_dirent (lfdirptr lf) (\<lambda>e. e\<lparr>ld_ilist := LF_INULL, ld_size := 0\<rparr>) s;
       let s = s\<lparr>lf_dirdirty := True\<rparr>;
       s \<leftarrow> trunc_loop ifree firstib s;
       Some (OK, s\<lparr>lf_dir := (lf_dir s)\<lparr>lfd_ifree := firstib\<rparr>, lf_dirdirty := True\<rparr>)
     }
   }"

definition lflcontrol :: "int \<Rightarrow> int \<Rightarrow> lfs \<Rightarrow> (int \<times> lfs) option" where
  "lflcontrol f func s = do {
     s \<leftarrow> file_wait f s;
     if lfstate (lfltab s f) \<noteq> LF_USED then Some (SYSERR, file_signal f s)
     else if func = LF_CTL_TRUNC then do {
       s \<leftarrow> lf_wait s;
       (retval, s) \<leftarrow> lftruncate f s;
       Some (retval, file_signal f (lf_signal s))
     }
     else Some (SYSERR, file_signal f s)
   }"

section \<open>Opening\<close>

text \<open>The mode string: at most one each of \<open>r\<close>, \<open>w\<close>, and one of \<open>o\<close> and \<open>n\<close>.\<close>

partial_function (option) lfgetmode_loop :: "bytes \<Rightarrow> int \<Rightarrow> int \<Rightarrow> int option" where
  "lfgetmode_loop m mode mbits =
     (let ch = m mode; mode = mode + 1 in
      if ch = 0 then Some (if mbits AND LF_MODE_RW = 0 then mbits OR LF_MODE_RW else mbits)
      else if ch = 114 then
        if mbits AND LF_MODE_R \<noteq> 0 then Some SYSERR else lfgetmode_loop m mode (mbits OR LF_MODE_R)
      else if ch = 119 then
        if mbits AND LF_MODE_W \<noteq> 0 then Some SYSERR else lfgetmode_loop m mode (mbits OR LF_MODE_W)
      else if ch = 111 then
        if mbits AND LF_MODE_O \<noteq> 0 \<or> mbits AND LF_MODE_N \<noteq> 0 then Some SYSERR else lfgetmode_loop m mode (mbits OR LF_MODE_O)
      else if ch = 110 then
        if mbits AND LF_MODE_O \<noteq> 0 \<or> mbits AND LF_MODE_N \<noteq> 0 then Some SYSERR else lfgetmode_loop m mode (mbits OR LF_MODE_N)
      else Some SYSERR)"

definition lfgetmode :: "bytes \<Rightarrow> int \<Rightarrow> int option" where
  "lfgetmode m mode = lfgetmode_loop m mode 0"

text \<open>Comparison with a name held in an array, and copying into one; neither leaves the array.\<close>

fun name_is :: "bytes \<Rightarrow> int \<Rightarrow> 8 word list \<Rightarrow> bool option" where
  "name_is m nam [] = None"
| "name_is m nam (c # cs) = (if m nam \<noteq> 0 \<and> m nam = c then name_is m (nam + 1) cs else Some (m nam = 0 \<and> c = 0))"

fun put_name :: "bytes \<Rightarrow> int \<Rightarrow> 8 word list \<Rightarrow> 8 word list option" where
  "put_name m from [] = None"
| "put_name m from (c # cs) = (if m from = 0 then Some (0 # cs) else map_option ((#) (m from)) (put_name m (from + 1) cs))"

text \<open>The search of the open files: an unused one, and whether the name is open already.\<close>

fun find_open :: "nat \<Rightarrow> int \<Rightarrow> int \<Rightarrow> int \<Rightarrow> lfs \<Rightarrow> (bool \<times> int) option" where
  "find_open 0 i lfnext nam s = Some (False, lfnext)"
| "find_open (Suc n) i lfnext nam s =
     (if lfstate (lfltab s i) = LF_FREE then find_open n (i + 1) (if lfnext = SYSERR then i else lfnext) nam s
      else do {
        eq \<leftarrow> name_is (umem s) nam (lfname (lfltab s i));
        if eq then Some (True, lfnext) else find_open n (i + 1) lfnext nam s
      })"

fun find_dir :: "nat \<Rightarrow> int \<Rightarrow> int \<Rightarrow> lfs \<Rightarrow> int option option" where
  "find_dir 0 i nam s = Some None"
| "find_dir (Suc n) i nam s = do {
     ld \<leftarrow> dirent i s;
     eq \<leftarrow> name_is (umem s) nam (ld_name ld);
     if eq then Some (Some i) else find_dir n (i + 1) nam s
   }"

definition new_file :: "int \<Rightarrow> lfs \<Rightarrow> (int \<times> lfs) option" where
  "new_file name s = do {
     let i = lfd_nfiles (lf_dir s);
     let s = s\<lparr>lf_dir := (lf_dir s)\<lparr>lfd_nfiles := i + 1\<rparr>\<rparr>;
     ld \<leftarrow> dirent i s;
     nm \<leftarrow> put_name (umem s) name (ld_name ld);
     s \<leftarrow> upd_dirent i (\<lambda>e. e\<lparr>ld_size := 0, ld_name := nm, ld_ilist := LF_INULL\<rparr>) s;
     Some (i, s)
   }"

definition open_cb :: "int \<Rightarrow> int \<Rightarrow> int \<Rightarrow> int \<Rightarrow> lfs \<Rightarrow> lfs option" where
  "open_cb f ldptr mbits name s = do {
     nm \<leftarrow> put_name (umem s) name (lfname (lfltab s f));
     Some (setcb f (\<lambda>b. b\<lparr>lfstate := LF_USED, lfdirptr := ldptr, lfmode := mbits AND LF_MODE_RW, lfpos := 0, lfname := nm,
       lfinum := LF_INULL, lfdnum := LF_DNULL, lfbyte := int LF_BLKSIZ, lfibdirty := False, lfdbdirty := False\<rparr>) s)
   }"

definition lfsopen :: "int \<Rightarrow> int \<Rightarrow> lfs \<Rightarrow> (int \<times> lfs) option" where
  "lfsopen name mode s =
     (if \<not> list_ex (\<lambda>i. umem s (name + int i) = 0) [0..<LF_NAME_LEN] then Some (SYSERR, s)
      else do {
        mbits \<leftarrow> lfgetmode (umem s) mode;
        if mbits = SYSERR then Some (SYSERR, s)
        else do {
          (isopen, lfnext) \<leftarrow> find_open Nlfl 0 SYSERR name s;
          if isopen \<or> lfnext = SYSERR then Some (SYSERR, s)
          else do {
            s \<leftarrow> lf_wait s;
            (retval, s) \<leftarrow> (if \<not> lf_dirpresent s then do {
                    (retval, b) \<leftarrow> ramread LF_AREA_DIR (ram s);
                    Some (retval, if retval = SYSERR then s else s\<lparr>lf_dir := dec_dir b, lf_dirpresent := True\<rparr>)
                  } else Some (OK, s));
            if retval = SYSERR then Some (SYSERR, lf_signal s)
            else do {
              found \<leftarrow> find_dir (nat (lfd_nfiles (lf_dir s))) 0 name s;
              (ldptr, s) \<leftarrow> (case found of
                  None \<Rightarrow>
                    if mbits AND LF_MODE_O \<noteq> 0 then Some (SYSERR, s)
                    else if lfd_nfiles (lf_dir s) \<ge> int LF_NUM_DIR_ENT then Some (SYSERR, s)
                    else new_file name s
                | Some i \<Rightarrow> Some (if mbits AND LF_MODE_N \<noteq> 0 then SYSERR else i, s));
              if ldptr = SYSERR then Some (SYSERR, lf_signal s)
              else do {
                s \<leftarrow> open_cb lfnext ldptr mbits name s;
                Some (lfdev (lfltab s lfnext), lf_signal s)
              }
            }
          }
        }
      })"

section \<open>Initialisation\<close>

definition lfsinit :: "lfs \<Rightarrow> int \<times> lfs" where
  "lfsinit s = (OK, s\<lparr>lf_mutex := 1, lf_dir := dec_dir (replicate 512 0), lf_dirpresent := False, lf_dirdirty := False\<rparr>)"

definition lflinit :: "int \<Rightarrow> int \<Rightarrow> lfs \<Rightarrow> int \<times> lfs" where
  "lflinit f dvnum s = (OK, setcb f (\<lambda>b. b\<lparr>lfstate := LF_FREE, lfdev := dvnum, lfmutex := 1, lfdirptr := -1, lfpos := 0,
     lfname := replicate LF_NAME_LEN 0, lfinum := LF_INULL, lfiblock := dec_ib (replicate 72 0), lfdnum := 0,
     lfdblock := replicate LF_BLKSIZ 0, lfbyte := int LF_BLKSIZ, lfibdirty := False, lfdbdirty := False\<rparr>) s)"

section \<open>Creating and checking a disk\<close>

text \<open>The two loops that put all index blocks and all data blocks on the free lists.\<close>

fun mk_iblocks :: "nat \<Rightarrow> int \<Rightarrow> lfiblk \<Rightarrow> bytes \<Rightarrow> (int \<times> lfiblk \<times> bytes) option" where
  "mk_iblocks 0 i ib d = Some (i, ib, d)"
| "mk_iblocks (Suc n) i ib d = do {
     let ib = ib\<lparr>ib_next := i + 1\<rparr>;
     (_, d) \<leftarrow> lfibput i ib d;
     mk_iblocks n (i + 1) ib d
   }"

fun mk_dblocks :: "nat \<Rightarrow> int \<Rightarrow> bytes \<Rightarrow> (int \<times> bytes) option" where
  "mk_dblocks 0 dbindex d = Some (dbindex, d)"
| "mk_dblocks (Suc n) dbindex d = do {
     (_, d) \<leftarrow> ramwrite (le32 (dbindex + 1) @ replicate 508 0) dbindex d;
     mk_dblocks n (dbindex + 1) d
   }"

definition lfscreate :: "int \<Rightarrow> int \<Rightarrow> bytes \<Rightarrow> (int \<times> bytes) option" where
  "lfscreate lfiblks dsiz d =
     (let sectors = dsiz div 512;
        ibpersector = 512 div 72;
        ibsectors = u32 (lfiblks + (ibpersector - 1)) div ibpersector;
        lfiblks = s32 (ibsectors * ibpersector) in
      if ibsectors > sectors div 2 then Some (SYSERR, d)
      else do {
        let dbindex = ibsectors + 1;
        let dir = (dec_dir (replicate 512 0))\<lparr>lfd_nfiles := 0, lfd_dfree := dbindex\<rparr>;
        let dblks = u32 (sectors - ibsectors - 1);
        (retval, d) \<leftarrow> ramwrite (enc_dir dir) LF_AREA_DIR d;
        if retval = SYSERR then Some (SYSERR, d)
        else do {
          (i, iblock, d) \<leftarrow> mk_iblocks (nat (lfiblks - 1)) 0 (lfibclear 0) d;
          (_, d) \<leftarrow> lfibput i (iblock\<lparr>ib_next := LF_INULL\<rparr>) d;
          (dbindex, d) \<leftarrow> mk_dblocks (nat (u32 (dblks - 1))) dbindex d;
          (_, d) \<leftarrow> ramwrite (le32 LF_DNULL @ replicate 508 0) dbindex d;
          Some (OK, d)
        }
      })"

text \<open>The check follows the two lists; the numbers it prints are part of its result.\<close>

partial_function (option) count_ibs :: "int \<Rightarrow> bytes \<Rightarrow> int \<Rightarrow> int option" where
  "count_ibs nextib d lfiblks =
     (if nextib \<noteq> LF_INULL then
        Option.bind (lfibget nextib d) (\<lambda>iblock. count_ibs (ib_next iblock) d (lfiblks + 1))
      else Some lfiblks)"

partial_function (option) count_dbs :: "int \<Rightarrow> bytes \<Rightarrow> int \<Rightarrow> int option" where
  "count_dbs nextdb d dblks =
     (if nextdb \<noteq> LF_DNULL then
        Option.bind (ramread nextdb d) (\<lambda>r. count_dbs (lf_nextdb (snd r)) d (dblks + 1))
      else Some dblks)"

definition lfsckfmt :: "bytes \<Rightarrow> (int \<times> int \<times> int) option" where
  "lfsckfmt d = do {
     (retval, b) \<leftarrow> ramread LF_AREA_DIR d;
     if retval = SYSERR then None
     else do {
       let dir = dec_dir b;
       lfiblks \<leftarrow> count_ibs (lfd_ifree dir) d 0;
       dblks \<leftarrow> count_dbs (lfd_dfree dir) d 0;
       Some (OK, lfiblks, dblks)
     }
   }"

end
