(* ===== verification/LfsInv.thy ===== *)
theory LfsInv
  imports Lfs
begin

text \<open>
  The invariant of the local file system.  A file is a list of bytes, kept in data blocks \<open>D\<close>
  that the chain of index blocks \<open>I\<close> of the file points to; what an open file has in memory hides
  the disk.  The free blocks form the chains \<open>FI\<close> and \<open>FD\<close>.  The lemmas say what the
  operations on blocks and \<open>lfsetup\<close> do to these lists.
\<close>

section \<open>Chains and files\<close>

fun chain :: "(int \<Rightarrow> int) \<Rightarrow> int \<Rightarrow> int list \<Rightarrow> bool" where
  "chain nxt p [] \<longleftrightarrow> p = -1"
| "chain nxt p (x # xs) \<longleftrightarrow> p = x \<and> p \<noteq> -1 \<and> chain nxt (nxt x) xs"

lemma chain_cong: "(\<And>x. x \<in> set xs \<Longrightarrow> nxt' x = nxt x) \<Longrightarrow> chain nxt' p xs = chain nxt p xs"
  by (induction xs arbitrary: p) simp_all

lemma chain_hd: "chain nxt p xs \<Longrightarrow> p = (if xs = [] then -1 else hd xs)"
  by (cases xs) auto

lemma chain_nth: "chain nxt p xs \<Longrightarrow> k < length xs \<Longrightarrow> nxt (xs ! k) = (if Suc k < length xs then xs ! Suc k else -1)"
proof (induction xs arbitrary: p k)
  case (Cons x xs)
  then show ?case using chain_hd [of nxt "nxt x" xs] by (cases k) (auto simp: hd_conv_nth)
qed simp

lemma chain_snoc:
  "chain nxt p xs \<Longrightarrow> xs \<noteq> [] \<Longrightarrow> y \<notin> set xs \<Longrightarrow> y \<noteq> -1 \<Longrightarrow> distinct xs \<Longrightarrow> chain (nxt(last xs := y, y := -1)) p (xs @ [y])"
proof (induction xs arbitrary: p)
  case (Cons x xs)
  show ?case
  proof (cases xs)
    case Nil
    then show ?thesis using Cons.prems by auto
  next
    case (Cons z zs)
    have "chain nxt (nxt x) xs" "xs \<noteq> []" "y \<notin> set xs" "distinct xs" using Cons Cons.prems by simp_all
    then have "chain (nxt(last xs := y, y := -1)) (nxt x) (xs @ [y])" using Cons.IH Cons.prems(4) by blast
    moreover have "x \<noteq> last xs" "x \<noteq> y" using Cons Cons.prems by (auto dest: last_in_set)
    moreover have "last (x # xs) = last xs" using Cons by simp
    ultimately show ?thesis using Cons.prems(1) by (simp del: last.simps fun_upd_apply add: fun_upd_other)
  qed
qed simp

text \<open>Index blocks \<open>0 .. ni - 1\<close>, data blocks \<open>ds .. 199\<close>.\<close>

definition layout :: "int \<Rightarrow> int \<Rightarrow> bool" where
  "layout ni ds \<longleftrightarrow> 0 < ni \<and> (\<forall>n. 0 \<le> n \<and> n < ni \<longrightarrow> ib2sect n < ds) \<and> ds \<le> 200"

definition stored :: "(int \<Rightarrow> lfiblk) \<Rightarrow> (int \<Rightarrow> block) \<Rightarrow> ldentry \<Rightarrow> int list \<Rightarrow> int list \<Rightarrow> 8 word list \<Rightarrow> bool" where
  "stored g h e I D cs \<longleftrightarrow> ld_size e = int (length cs) \<and> chain (\<lambda>n. ib_next (g n)) (ld_ilist e) I
     \<and> length D \<le> 16 * length I \<and> length cs \<le> 512 * length D
     \<and> (\<forall>k < length I. ok_ib (g (I ! k)) \<and> ib_offset (g (I ! k)) = 8192 * int k
          \<and> (\<forall>j < 16. ib_dba (g (I ! k)) ! j = (if 16 * k + j < length D then D ! (16 * k + j) else -1)))
     \<and> (\<forall>d \<in> set D. length (h d) = 512)
     \<and> (\<forall>p < length cs. h (D ! (p div 512)) ! (p mod 512) = cs ! p)"

lemma stored_cong:
  assumes "stored g h e I D cs" "\<And>n. n \<in> set I \<Longrightarrow> g' n = g n" "\<And>d. d \<in> set D \<Longrightarrow> h' d = h d"
  shows "stored g' h' e I D cs"
proof -
  have "chain (\<lambda>n. ib_next (g' n)) p I = chain (\<lambda>n. ib_next (g n)) p I" for p
    by (rule chain_cong) (simp add: assms(2))
  moreover have "h' (D ! (p div 512)) = h (D ! (p div 512))" if "p < length cs" for p
  proof -
    have "p div 512 < length D" using assms(1) that by (auto simp: stored_def)
    then show ?thesis by (intro assms(3)) simp
  qed
  ultimately show ?thesis using assms by (simp add: stored_def)
qed

definition blocks_ok :: "int \<Rightarrow> int \<Rightarrow> int list \<Rightarrow> int list \<Rightarrow> bool" where
  "blocks_ok ni ds I D \<longleftrightarrow> distinct I \<and> set I \<subseteq> {0..<ni} \<and> distinct D \<and> set D \<subseteq> {ds..<200}"

definition free_ok :: "bytes \<Rightarrow> lfdir \<Rightarrow> int list \<Rightarrow> int list \<Rightarrow> bool" where
  "free_ok d dir FI FD \<longleftrightarrow> chain (\<lambda>n. ib_next (iblk d n)) (lfd_ifree dir) FI \<and> chain (\<lambda>k. lf_nextdb (sector d k)) (lfd_dfree dir) FD"

text \<open>What the disk and the control block together show.\<close>

definition vib :: "bytes \<Rightarrow> lflcblk \<Rightarrow> int \<Rightarrow> lfiblk" where
  "vib d cb n = (if n = lfinum cb then lfiblock cb else iblk d n)"

definition vdb :: "bytes \<Rightarrow> lflcblk \<Rightarrow> int \<Rightarrow> block" where
  "vdb d cb k = (if k = lfdnum cb then lfdblock cb else sector d k)"

definition cb_ok :: "bytes \<Rightarrow> lflcblk \<Rightarrow> int list \<Rightarrow> int list \<Rightarrow> bool" where
  "cb_ok d cb I D \<longleftrightarrow> lfstate cb = LF_USED
     \<and> (lfinum cb \<in> set I \<and> (lfibdirty cb \<or> lfiblock cb = iblk d (lfinum cb)) \<or> lfinum cb = -1 \<and> \<not> lfibdirty cb)
     \<and> (lfdnum cb \<in> set D \<and> (lfdbdirty cb \<or> lfdblock cb = sector d (lfdnum cb)) \<or> lfdnum cb = -1 \<and> \<not> lfdbdirty cb)"

definition mine :: "lfdir \<Rightarrow> lflcblk \<Rightarrow> ldentry" where
  "mine dir cb = lfd_files dir ! nat (lfdirptr cb)"

definition fcore :: "int \<Rightarrow> int \<Rightarrow> bytes \<Rightarrow> lfdir \<Rightarrow> lflcblk \<Rightarrow> int list \<Rightarrow> int list \<Rightarrow> int list \<Rightarrow> int list \<Rightarrow> 8 word list \<Rightarrow> bool" where
  "fcore ni ds d dir cb FI FD I D cs \<longleftrightarrow> layout ni ds \<and> ok_dir dir \<and> 0 \<le> lfdirptr cb \<and> lfdirptr cb < 20
     \<and> blocks_ok ni ds (FI @ I) (FD @ D) \<and> free_ok d dir FI FD
     \<and> stored (vib d cb) (vdb d cb) (mine dir cb) I D cs \<and> cb_ok d cb I D
     \<and> 0 \<le> lfpos cb \<and> lfpos cb \<le> int (length cs)"

text \<open>The state after an operation on the file \<open>f\<close>: everything else is as before.\<close>

definition st :: "lfs \<Rightarrow> int \<Rightarrow> bytes \<Rightarrow> lfdir \<Rightarrow> bool \<Rightarrow> lflcblk \<Rightarrow> lfs" where
  "st s f d dir b cb = s\<lparr>ram := d, lf_dir := dir, lf_dirdirty := b, lfltab := (lfltab s)(f := cb)\<rparr>"

lemma st_simps [simp]:
  "ram (st s f d dir b cb) = d" "lf_dir (st s f d dir b cb) = dir" "lf_dirdirty (st s f d dir b cb) = b"
  "lfltab (st s f d dir b cb) f = cb" "lf_mutex (st s f d dir b cb) = lf_mutex s" "umem (st s f d dir b cb) = umem s"
  "lf_dirpresent (st s f d dir b cb) = lf_dirpresent s" "junk (st s f d dir b cb) = junk s"
  "setcb f u (st s f d dir b cb) = st s f d dir b (u cb)"
  "(st s f d dir b cb)\<lparr>ram := d'\<rparr> = st s f d' dir b cb"
  "(st s f d dir b cb)\<lparr>lf_dir := dir'\<rparr> = st s f d dir' b cb"
  "(st s f d dir b cb)\<lparr>lf_dirdirty := b'\<rparr> = st s f d dir b' cb"
  "(st s f d dir b cb)\<lparr>lf_mutex := c\<rparr> = st (s\<lparr>lf_mutex := c\<rparr>) f d dir b cb"
  "st (st s f d dir b cb) f d' dir' b' cb' = st s f d' dir' b' cb'"
  by (simp_all add: st_def setcb_def)

lemma st_other: "j \<noteq> f \<Longrightarrow> lfltab (st s f d dir b cb) j = lfltab s j"
  by (simp add: st_def)

lemma st_same: "st s f (ram s) (lf_dir s) (lf_dirdirty s) (lfltab s f) = s"
  by (simp add: st_def)

text \<open>What an operation leaves alone: blocks outside \<open>X\<close> and \<open>Y\<close>, other entries, names.\<close>

definition kept :: "int \<Rightarrow> int \<Rightarrow> int set \<Rightarrow> int set \<Rightarrow> nat \<Rightarrow> bytes \<Rightarrow> lfdir \<Rightarrow> bytes \<Rightarrow> lfdir \<Rightarrow> bool" where
  "kept ni ds X Y i d dir d' dir' \<longleftrightarrow>
     (\<forall>n. 0 \<le> n \<and> n < ni \<and> n \<notin> X \<longrightarrow> iblk d' n = iblk d n) \<and> (\<forall>k. ds \<le> k \<and> k < 200 \<and> k \<notin> Y \<longrightarrow> sector d' k = sector d k)
     \<and> lfd_nfiles dir' = lfd_nfiles dir \<and> length (lfd_files dir') = length (lfd_files dir)
     \<and> (\<forall>j. j \<noteq> i \<longrightarrow> lfd_files dir' ! j = lfd_files dir ! j) \<and> ld_name (lfd_files dir' ! i) = ld_name (lfd_files dir ! i)"

lemma kept_refl [simp]: "kept ni ds X Y i d dir d dir"
  by (simp add: kept_def)

lemma kept_trans: "kept ni ds X Y i d dir d' dir' \<Longrightarrow> kept ni ds X Y i d' dir' d'' dir'' \<Longrightarrow> kept ni ds X Y i d dir d'' dir''"
  by (simp add: kept_def)

lemma kept_mono: "kept ni ds X Y i d dir d' dir' \<Longrightarrow> X \<subseteq> X' \<Longrightarrow> Y \<subseteq> Y' \<Longrightarrow> kept ni ds X' Y' i d dir d' dir'"
  unfolding kept_def by blast

section \<open>Writing blocks\<close>

lemma layout_sect: "layout ni ds \<Longrightarrow> 0 \<le> n \<Longrightarrow> n < ni \<Longrightarrow> 1 \<le> ib2sect n \<and> ib2sect n < ds \<and> ib2sect n < 200"
  by (auto simp: layout_def ib2sect_def)

lemma layout_ds: "layout ni ds \<Longrightarrow> 1 < ds \<and> ds \<le> 200"
  using layout_sect [of ni ds 0] by (auto simp: layout_def)

definition ib_same :: "int \<Rightarrow> bytes \<Rightarrow> bytes \<Rightarrow> bool" where
  "ib_same ni d d' \<longleftrightarrow> (\<forall>n. 0 \<le> n \<and> n < ni \<longrightarrow> iblk d' n = iblk d n)"

definition db_same :: "int \<Rightarrow> bytes \<Rightarrow> bytes \<Rightarrow> bool" where
  "db_same ds d d' \<longleftrightarrow> (\<forall>k. ds \<le> k \<and> k < 200 \<longrightarrow> sector d' k = sector d k)"

lemma write_dir_ok:
  assumes "layout ni ds" "ok_dir dir"
  shows "\<exists>d'. write_dir (st s f d dir b cb) = Some (st s f d' dir b cb) \<and> sector d' 0 = enc_dir dir \<and> ib_same ni d d' \<and> db_same ds d d'"
proof -
  from ramwrite_ok [of 0 "enc_dir dir" d] length_enc_dir [OF assms(2)] obtain d' where
    d': "ramwrite (enc_dir dir) 0 d = Some (OK, d')" "\<forall>k. sector d' k = (if k = 0 then enc_dir dir else sector d k)" by auto
  have "ib_same ni d d'" unfolding ib_same_def
    by (intro allI impI iblk_cong) (use d'(2) layout_sect [OF assms(1)] in fastforce)
  moreover have "db_same ds d d'" using d'(2) layout_ds [OF assms(1)] by (auto simp: db_same_def)
  ultimately show ?thesis using d' by (auto simp: write_dir_def dwrite_def)
qed

lemma dwrite_ok:
  assumes "layout ni ds" "ds \<le> k" "k < 200" "length b = 512"
  shows "\<exists>d'. dwrite b k (st s f d dir dd cb) = Some (st s f d' dir dd cb) \<and> ib_same ni d d'
    \<and> (\<forall>n. ds \<le> n \<and> n < 200 \<longrightarrow> sector d' n = (if n = k then b else sector d n))"
proof -
  have "0 \<le> k" using assms(2) layout_ds [OF assms(1)] by simp
  from ramwrite_ok [OF this assms(3,4), of d] obtain d' where
    d': "ramwrite b k d = Some (OK, d')" "\<forall>n. sector d' n = (if n = k then b else sector d n)" by blast
  have "ib_same ni d d'" unfolding ib_same_def
    by (intro allI impI iblk_cong) (use d'(2) assms(2) layout_sect [OF assms(1)] in fastforce)
  then show ?thesis using d' by (auto simp: dwrite_def)
qed

lemma put_ib_ok:
  assumes "layout ni ds" "0 \<le> k" "k < ni" "ok_ib ib"
  shows "\<exists>d'. put_ib k ib (st s f d dir dd cb) = Some (OK, st s f d' dir dd cb) \<and> db_same ds d d'
    \<and> (\<forall>n. 0 \<le> n \<and> n < ni \<longrightarrow> iblk d' n = (if n = k then ib else iblk d n))"
proof -
  have sk: "ib2sect k < 200" "ib2sect k < ds" using layout_sect [OF assms(1-3)] by auto
  from lfibput_ok [OF assms(2) sk(1) assms(4), of d] obtain d' where d': "lfibput k ib d = Some (OK, d')"
    "\<forall>n \<ge> 0. iblk d' n = (if n = k then ib else iblk d n)" "\<forall>n. n \<noteq> ib2sect k \<longrightarrow> sector d' n = sector d n" by blast
  have "db_same ds d d'" using d'(3) sk(2) by (auto simp: db_same_def)
  then show ?thesis using d' by (auto simp: put_ib_def)
qed

lemma fcoreD:
  assumes "fcore ni ds d dir cb FI FD I D cs"
  shows "layout ni ds" "ok_dir dir" "0 \<le> lfdirptr cb" "lfdirptr cb < 20" "blocks_ok ni ds (FI @ I) (FD @ D)" "free_ok d dir FI FD"
    "stored (vib d cb) (vdb d cb) (mine dir cb) I D cs" "cb_ok d cb I D" "0 \<le> lfpos cb" "lfpos cb \<le> int (length cs)"
  using assms unfolding fcore_def by simp_all

text \<open>The invariant sees the disk only through the views.\<close>

lemma fcore_disk:
  assumes core: "fcore ni ds d dir cb FI FD I D cs"
    and ib: "\<And>n. n \<in> set FI \<Longrightarrow> iblk d' n = iblk d n" "\<And>n. n \<in> set I \<Longrightarrow> vib d' cb' n = vib d cb n"
    and db: "\<And>k. k \<in> set FD \<Longrightarrow> sector d' k = sector d k" "\<And>k. k \<in> set D \<Longrightarrow> vdb d' cb' k = vdb d cb k"
    and cb: "cb_ok d' cb' I D" "lfdirptr cb' = lfdirptr cb" "0 \<le> lfpos cb'" "lfpos cb' \<le> int (length cs)"
  shows "fcore ni ds d' dir cb' FI FD I D cs"
proof -
  note f = fcoreD [OF core]
  have "free_ok d' dir FI FD" using f(6) ib(1) db(1) chain_cong [of FI "\<lambda>n. ib_next (iblk d' n)" "\<lambda>n. ib_next (iblk d n)"]
      chain_cong [of FD "\<lambda>n. lf_nextdb (sector d' n)" "\<lambda>n. lf_nextdb (sector d n)"] by (simp add: free_ok_def)
  moreover have "stored (vib d' cb') (vdb d' cb') (mine dir cb') I D cs"
    using stored_cong [OF f(7), of "vib d' cb'" "vdb d' cb'"] ib(2) db(2) cb(2) by (simp add: mine_def)
  ultimately show ?thesis using f cb by (simp add: fcore_def)
qed

lemma blocksD:
  assumes "blocks_ok ni ds (FI @ I) (FD @ D)"
  shows "distinct I" "distinct FI" "set FI \<inter> set I = {}" "distinct D" "distinct FD" "set FD \<inter> set D = {}"
    "n \<in> set I \<Longrightarrow> 0 \<le> n \<and> n < ni" "n \<in> set FI \<Longrightarrow> 0 \<le> n \<and> n < ni"
    "k \<in> set D \<Longrightarrow> ds \<le> k \<and> k < 200" "k \<in> set FD \<Longrightarrow> ds \<le> k \<and> k < 200"
  using assms by (auto simp: blocks_ok_def)

lemma no_null:
  assumes "layout ni ds" "blocks_ok ni ds (FI @ I) (FD @ D)"
  shows "-1 \<notin> set I" "-1 \<notin> set FI" "-1 \<notin> set D" "-1 \<notin> set FD"
  using blocksD(7-10) [OF assms(2)] layout_ds [OF assms(1)] by fastforce+

lemma stored_ib: "stored g h e I D cs \<Longrightarrow> n \<in> set I \<Longrightarrow> ok_ib (g n)"
  by (auto simp: stored_def in_set_conv_nth)

lemma stored_off: "stored g h e I D cs \<Longrightarrow> k < length I \<Longrightarrow> ib_offset (g (I ! k)) = 8192 * int k"
  by (simp add: stored_def)

lemma stored_dba: "stored g h e I D cs \<Longrightarrow> k < length I \<Longrightarrow> j < 16 \<Longrightarrow>
    ib_dba (g (I ! k)) ! j = (if 16 * k + j < length D then D ! (16 * k + j) else -1)"
  by (simp add: stored_def)

lemma stored_db: "stored g h e I D cs \<Longrightarrow> k \<in> set D \<Longrightarrow> length (h k) = 512"
  by (simp add: stored_def)

lemma vib_cur [simp]: "vib d cb (lfinum cb) = lfiblock cb"
  by (simp add: vib_def)

lemma vdb_cur [simp]: "vdb d cb (lfdnum cb) = lfdblock cb"
  by (simp add: vdb_def)

section \<open>Flushing\<close>

definition clean :: "lflcblk \<Rightarrow> lflcblk" where
  "clean cb = cb\<lparr>lfdbdirty := False, lfibdirty := False\<rparr>"

lemma clean_simps [simp]:
  "lfinum (clean cb) = lfinum cb" "lfdnum (clean cb) = lfdnum cb" "lfpos (clean cb) = lfpos cb" "lfdirptr (clean cb) = lfdirptr cb"
  "lfiblock (clean cb) = lfiblock cb" "lfdblock (clean cb) = lfdblock cb" "lfstate (clean cb) = lfstate cb"
  "lfibdirty (clean cb) = False" "lfdbdirty (clean cb) = False" "lfmutex (clean cb) = lfmutex cb" "lfbyte (clean cb) = lfbyte cb"
  "lfname (clean cb) = lfname cb" "lfdev (clean cb) = lfdev cb" "lfmode (clean cb) = lfmode cb"
  by (simp_all add: clean_def)

lemma clean_id: "\<not> lfibdirty cb \<Longrightarrow> \<not> lfdbdirty cb \<Longrightarrow> clean cb = cb"
  by (simp add: clean_def)

lemma flush_dir_ok:
  assumes "layout ni ds" "ok_dir dir"
  shows "\<exists>d'. flush_dir (st s f d dir b cb) = Some (st s f d' dir False cb) \<and> ib_same ni d d' \<and> db_same ds d d'
    \<and> (b \<or> sector d 0 = enc_dir dir \<longrightarrow> sector d' 0 = enc_dir dir)"
  using write_dir_ok [OF assms, of s f d b cb] by (cases b) (auto simp: flush_dir_def ib_same_def db_same_def)

lemma flush_db_ok:
  assumes lay: "layout ni ds" and m: "lfdbdirty cb \<Longrightarrow> ds \<le> lfdnum cb \<and> lfdnum cb < 200 \<and> length (lfdblock cb) = 512"
  shows "\<exists>d'. flush_db f (st s f d dir b cb) = Some (st s f d' dir b (cb\<lparr>lfdbdirty := False\<rparr>)) \<and> ib_same ni d d'
    \<and> (\<forall>k. sector d' k = (if lfdbdirty cb \<and> k = lfdnum cb then lfdblock cb else sector d k))"
proof (cases "lfdbdirty cb")
  case True
  then have n: "0 \<le> lfdnum cb" "lfdnum cb < 200" "length (lfdblock cb) = 512" using m layout_ds [OF lay] by auto
  from ramwrite_ok [OF n, of d] obtain d' where d': "ramwrite (lfdblock cb) (lfdnum cb) d = Some (OK, d')"
    "\<forall>k. sector d' k = (if k = lfdnum cb then lfdblock cb else sector d k)" by blast
  then have "ib_same ni d d'" unfolding ib_same_def
    by (intro allI impI iblk_cong) (use m True layout_sect [OF lay] in fastforce)
  then show ?thesis using d' True by (intro exI [of _ d']) (simp add: flush_db_def dwrite_def)
next
  case False
  then have eq: "cb\<lparr>lfdbdirty := False\<rparr> = cb" by simp
  show ?thesis unfolding eq using False by (auto simp: flush_db_def ib_same_def)
qed

lemma flush_ib_ok:
  assumes lay: "layout ni ds" and m: "lfibdirty cb \<Longrightarrow> 0 \<le> lfinum cb \<and> lfinum cb < ni \<and> ok_ib (lfiblock cb)"
  shows "\<exists>d'. flush_ib f (st s f d dir b cb) = Some (st s f d' dir b (cb\<lparr>lfibdirty := False\<rparr>)) \<and> db_same ds d d'
    \<and> (\<forall>n \<ge> 0. iblk d' n = (if lfibdirty cb \<and> n = lfinum cb then lfiblock cb else iblk d n)) \<and> sector d' 0 = sector d 0"
proof (cases "lfibdirty cb")
  case True
  then have n: "0 \<le> lfinum cb" "lfinum cb < ni" "ok_ib (lfiblock cb)" using m by auto
  then have sk: "ib2sect (lfinum cb) < 200" "ib2sect (lfinum cb) < ds" "0 \<noteq> ib2sect (lfinum cb)" using layout_sect [OF lay] by fastforce+
  from lfibput_ok [OF n(1) sk(1) n(3), of d] obtain d' where d': "lfibput (lfinum cb) (lfiblock cb) d = Some (OK, d')"
    "\<forall>k \<ge> 0. iblk d' k = (if k = lfinum cb then lfiblock cb else iblk d k)"
    "\<forall>k. k \<noteq> ib2sect (lfinum cb) \<longrightarrow> sector d' k = sector d k" by blast
  then have "db_same ds d d'" using sk(2) by (auto simp: db_same_def)
  then show ?thesis using d' sk(3) True by (intro exI [of _ d']) (simp add: flush_ib_def put_ib_def)
next
  case False
  then have eq: "cb\<lparr>lfibdirty := False\<rparr> = cb" by simp
  show ?thesis unfolding eq using False by (auto simp: flush_ib_def db_same_def)
qed

lemma lfflush_ok:
  assumes core: "fcore ni ds d dir cb FI FD I D cs"
  shows "\<exists>d'. lfflush f (st s f d dir b cb) = Some (OK, st s f d' dir False (clean cb))
    \<and> fcore ni ds d' dir (clean cb) FI FD I D cs \<and> kept ni ds (set I) (set D) i d dir d' dir
    \<and> (b \<or> sector d 0 = enc_dir dir \<longrightarrow> sector d' 0 = enc_dir dir)"
proof -
  note f = fcoreD [OF core] and B = blocksD [OF fcoreD(5) [OF core]]
  obtain d1 where 1: "flush_dir (st s f d dir b cb) = Some (st s f d1 dir False cb)"
    and s1: "ib_same ni d d1" "db_same ds d d1" "b \<or> sector d 0 = enc_dir dir \<longrightarrow> sector d1 0 = enc_dir dir" using flush_dir_ok [OF f(1,2)] by blast
  have m2: "ds \<le> lfdnum cb \<and> lfdnum cb < 200 \<and> length (lfdblock cb) = 512" if "lfdbdirty cb"
    using f(8) B(9) stored_db [OF f(7), of "lfdnum cb"] that by (auto simp: cb_ok_def)
  obtain d2 where 2: "flush_db f (st s f d1 dir False cb) = Some (st s f d2 dir False (cb\<lparr>lfdbdirty := False\<rparr>))"
    and s2: "ib_same ni d1 d2" "\<And>k. sector d2 k = (if lfdbdirty cb \<and> k = lfdnum cb then lfdblock cb else sector d1 k)"
    using flush_db_ok [OF f(1) m2, of f s d1 dir False] by blast
  have m3: "0 \<le> lfinum (cb\<lparr>lfdbdirty := False\<rparr>) \<and> lfinum (cb\<lparr>lfdbdirty := False\<rparr>) < ni \<and> ok_ib (lfiblock (cb\<lparr>lfdbdirty := False\<rparr>))"
    if "lfibdirty (cb\<lparr>lfdbdirty := False\<rparr>)"
    using f(8) B(7) stored_ib [OF f(7), of "lfinum cb"] that by (auto simp: cb_ok_def)
  obtain d3 where 3: "flush_ib f (st s f d2 dir False (cb\<lparr>lfdbdirty := False\<rparr>)) = Some (st s f d3 dir False (clean cb))"
    and s3: "db_same ds d2 d3" "\<And>n. 0 \<le> n \<Longrightarrow> iblk d3 n = (if lfibdirty cb \<and> n = lfinum cb then lfiblock cb else iblk d2 n)"
      "sector d3 0 = sector d2 0"
    using flush_ib_ok [OF f(1) m3, of f s d2 dir False] by (auto simp: clean_def)
  have run: "lfflush f (st s f d dir b cb) = Some (OK, st s f d3 dir False (clean cb))"
    using f(8) 1 2 3 by (simp add: lfflush_def cb_ok_def)
  have ib: "iblk d3 n = (if lfibdirty cb \<and> n = lfinum cb then lfiblock cb else iblk d n)" if "0 \<le> n" "n < ni" for n
    using s3(2) [OF that(1)] s2(1) s1(1) that by (simp add: ib_same_def)
  have db: "sector d3 k = (if lfdbdirty cb \<and> k = lfdnum cb then lfdblock cb else sector d k)" if "ds \<le> k" "k < 200" for k
    using s3(1) s2(2) [of k] s1(2) that by (simp add: db_same_def)
  have "fcore ni ds d3 dir (clean cb) FI FD I D cs"
  proof (rule fcore_disk [OF core])
    show "iblk d3 n = iblk d n" if "n \<in> set FI" for n
      using ib B(3,8) that f(8) by (auto simp: cb_ok_def)
    show "sector d3 k = sector d k" if "k \<in> set FD" for k
      using db B(6,10) that f(8) by (auto simp: cb_ok_def)
    show "vib d3 (clean cb) n = vib d cb n" if "n \<in> set I" for n
      using ib B(7) that by (auto simp: vib_def)
    show "vdb d3 (clean cb) k = vdb d cb k" if "k \<in> set D" for k
      using db B(9) that by (auto simp: vdb_def)
    show "cb_ok d3 (clean cb) I D" using f(8) ib db B(7,9) by (auto simp: cb_ok_def)
  qed (use f in simp_all)
  moreover have "kept ni ds (set I) (set D) i d dir d3 dir"
    using ib db f(8) unfolding kept_def cb_ok_def by auto
  moreover have "lfdbdirty cb \<Longrightarrow> lfdnum cb \<noteq> 0" using m2 layout_ds [OF f(1)] by auto
  ultimately show ?thesis using run s1(3) s2(2) [of 0] s3(3) by (intro exI [of _ d3]) auto
qed

lemma mask13: "(8191 :: int) = mask 13" by (simp add: mask_eq_exp_minus_1)
lemma mask9: "(511 :: int) = mask 9" by (simp add: mask_eq_exp_minus_1)
lemma and_lo: "x AND (8191 :: int) = x mod 8192" "x AND (511 :: int) = x mod 512"
  unfolding mask13 mask9 take_bit_eq_mask [symmetric] take_bit_eq_mod by simp_all
lemma and_hi: "x AND NOT (8191 :: int) = 8192 * (x div 8192)"
proof -
  have "x AND NOT (mask 13) = push_bit 13 (drop_bit 13 x)"
    by (rule bit_eqI) (auto simp: bit_simps)
  then show ?thesis unfolding mask13 by (simp add: push_bit_eq_mult drop_bit_eq_div)
qed
lemma and_hi': "x AND (- 8192 :: int) = 8192 * (x div 8192)"
  using and_hi [of x] by simp

lemma dindex: "drop_bit 9 (x AND (8191 :: int)) = x mod 8192 div 512"
  by (simp add: and_lo drop_bit_eq_div)
lemma pos_split: "16 * (x div 8192) + x mod 8192 div 512 = x div (512 :: int)"
proof -
  have "x div 512 = (8192 * (x div 8192) + x mod 8192) div 512" by simp
  also have "8192 * (x div 8192) = (16 * (x div 8192)) * 512" by simp
  finally show ?thesis by (simp only: div_mult_self3)
qed

section \<open>Allocation\<close>

lemma in_s32_s32: "in_s32 (s32 x)"
  using s32_range [of x] by (simp add: in_s32_def)

lemma in_s32_next: "in_s32 (ib_next (iblk d n))" "in_s32 (lf_nextdb b)"
  by (simp_all add: iblk_def dec_ib_def lf_nextdb_def in_s32_s32)

lemma ok_dir_free: "ok_dir dir \<Longrightarrow> in_s32 p \<Longrightarrow> ok_dir (dir\<lparr>lfd_ifree := p\<rparr>) \<and> ok_dir (dir\<lparr>lfd_dfree := p\<rparr>)"
  by (simp add: ok_dir_def)

lemma ok_dir_upd: "ok_dir dir \<Longrightarrow> ok_lde e \<Longrightarrow> ok_dir (dir\<lparr>lfd_files := (lfd_files dir)[i := e]\<rparr>)"
  unfolding ok_dir_def list_all_iff using set_update_subset_insert [of "lfd_files dir" i e] by fastforce

lemma ok_dir_lde: "ok_dir dir \<Longrightarrow> i < 20 \<Longrightarrow> ok_lde (lfd_files dir ! i)"
  by (simp add: ok_dir_def list_all_length)

lemma lfiballoc_ok:
  assumes "layout ni ds" "ok_dir dir" "free_ok d dir (x # FI) FD" "0 \<le> x" "x < ni"
  shows "\<exists>d'. lfiballoc (st s f d dir b cb) = Some (x, st s f d' (dir\<lparr>lfd_ifree := ib_next (iblk d x)\<rparr>) False cb)
    \<and> ib_same ni d d' \<and> db_same ds d d'"
proof -
  have x: "lfd_ifree dir = x" "x \<noteq> -1" using assms(3) by (simp_all add: free_ok_def)
  have g: "lfibget x d = Some (iblk d x)" using lfibget_ok layout_sect [OF assms(1,4,5)] assms(4) by simp
  have "ok_dir (dir\<lparr>lfd_ifree := ib_next (iblk d x)\<rparr>)" using ok_dir_free [OF assms(2)] in_s32_next by blast
  from write_dir_ok [OF assms(1) this, of s f d b cb] obtain d' where
    "write_dir (st s f d (dir\<lparr>lfd_ifree := ib_next (iblk d x)\<rparr>) b cb) = Some (st s f d' (dir\<lparr>lfd_ifree := ib_next (iblk d x)\<rparr>) b cb)"
    "ib_same ni d d'" "db_same ds d d'" by blast
  then show ?thesis using x g by (intro exI [of _ d']) (simp add: lfiballoc_def)
qed

lemma lfdballoc_ok:
  assumes "layout ni ds" "ok_dir dir" "free_ok d dir FI (x # FD)" "ds \<le> x" "x < 200"
  shows "\<exists>d'. lfdballoc (st s f d dir b cb) = Some (x, replicate 512 43, st s f d' (dir\<lparr>lfd_dfree := lf_nextdb (sector d x)\<rparr>) False cb)
    \<and> ib_same ni d d' \<and> db_same ds d d'"
proof -
  have x: "lfd_dfree dir = x" "x \<noteq> -1" using assms(3) by (simp_all add: free_ok_def)
  have g: "ramread x d = Some (OK, sector d x)" using ramread_ok layout_ds [OF assms(1)] assms(4,5) by simp
  have "ok_dir (dir\<lparr>lfd_dfree := lf_nextdb (sector d x)\<rparr>)" using ok_dir_free [OF assms(2)] in_s32_next by blast
  from write_dir_ok [OF assms(1) this, of s f d b cb] obtain d' where
    "write_dir (st s f d (dir\<lparr>lfd_dfree := lf_nextdb (sector d x)\<rparr>) b cb) = Some (st s f d' (dir\<lparr>lfd_dfree := lf_nextdb (sector d x)\<rparr>) b cb)"
    "ib_same ni d d'" "db_same ds d d'" by blast
  then show ?thesis using x g by (intro exI [of _ d']) (simp add: lfdballoc_def)
qed

lemma dirent_ok: "ok_dir dir \<Longrightarrow> 0 \<le> i \<Longrightarrow> i < 20 \<Longrightarrow> dirent i (st s f d dir b cb) = Some (lfd_files dir ! nat i)"
  by (simp add: dirent_def ok_dir_def nat_less_iff)

lemma upd_dirent_ok: "ok_dir dir \<Longrightarrow> 0 \<le> i \<Longrightarrow> i < 20 \<Longrightarrow>
    upd_dirent i g (st s f d dir b cb) = Some (st s f d (dir\<lparr>lfd_files := (lfd_files dir)[nat i := g (lfd_files dir ! nat i)]\<rparr>) b cb)"
  by (simp add: upd_dirent_def dirent_ok)

lemma lfibclear_simps [simp]: "ib_next (lfibclear n) = -1" "ib_offset (lfibclear n) = n" "j < 16 \<Longrightarrow> ib_dba (lfibclear n) ! j = -1"
  by (simp_all add: lfibclear_def)

lemma ok_lfibclear: "0 \<le> n \<Longrightarrow> n < 2 ^ 32 \<Longrightarrow> ok_ib (lfibclear n)"
  by (simp add: ok_ib_def lfibclear_def in_s32_def list_all_iff)

section \<open>The first index block\<close>

text \<open>The cached index block is replaced by another one of the file.\<close>

lemma load_ib:
  assumes core: "fcore ni ds d dir cb FI FD I D cs" and c: "\<not> lfibdirty cb" and n: "n \<in> set I"
  shows "lfibget n d = Some (iblk d n)" "vib d cb n = iblk d n"
    "fcore ni ds d dir (cb\<lparr>lfiblock := iblk d n, lfinum := n\<rparr>) FI FD I D cs"
proof -
  note f = fcoreD [OF core] and B = blocksD [OF fcoreD(5) [OF core]]
  have v: "vib d cb m = iblk d m" if "m \<in> set I" for m using f(8) c B(7) [OF that] by (auto simp: vib_def cb_ok_def)
  show "lfibget n d = Some (iblk d n)" using lfibget_ok layout_sect [OF f(1)] B(7) [OF n] by simp
  show "vib d cb n = iblk d n" using v [OF n] .
  show "fcore ni ds d dir (cb\<lparr>lfiblock := iblk d n, lfinum := n\<rparr>) FI FD I D cs"
    by (rule fcore_disk [OF core]) (use f n v in \<open>auto simp: vib_def vdb_def cb_ok_def\<close>)
qed

lemma mine_simps [simp]:
  "mine dir (cb\<lparr>lfiblock := u\<rparr>) = mine dir cb" "mine dir (cb\<lparr>lfinum := n\<rparr>) = mine dir cb" "mine dir (cb\<lparr>lfibdirty := x\<rparr>) = mine dir cb"
  "mine dir (cb\<lparr>lfdnum := n\<rparr>) = mine dir cb" "mine dir (cb\<lparr>lfdblock := b\<rparr>) = mine dir cb" "mine dir (cb\<lparr>lfbyte := n\<rparr>) = mine dir cb"
  "mine dir (cb\<lparr>lfdbdirty := x\<rparr>) = mine dir cb" "mine dir (cb\<lparr>lfpos := n\<rparr>) = mine dir cb" "mine dir (cb\<lparr>lfmutex := n\<rparr>) = mine dir cb"
  by (simp_all add: mine_def)

lemma free_tl: "free_ok d dir (x # FI) FD \<Longrightarrow> chain (\<lambda>n. ib_next (iblk d n)) (ib_next (iblk d x)) FI"
  by (simp add: free_ok_def)

lemma free_ok_same:
  assumes "free_ok d dir FI FD" "\<And>n. n \<in> set FI \<Longrightarrow> iblk d' n = iblk d n" "\<And>k. k \<in> set FD \<Longrightarrow> sector d' k = sector d k"
    and "lfd_ifree dir' = lfd_ifree dir" "lfd_dfree dir' = lfd_dfree dir"
  shows "free_ok d' dir' FI FD"
  using assms chain_cong [of FI "\<lambda>n. ib_next (iblk d' n)" "\<lambda>n. ib_next (iblk d n)"]
    chain_cong [of FD "\<lambda>n. lf_nextdb (sector d' n)" "\<lambda>n. lf_nextdb (sector d n)"] by (simp add: free_ok_def)

lemma free_ok_take:
  assumes "free_ok d dir (x # FI) FD"
  shows "free_ok d (dir\<lparr>lfd_ifree := ib_next (iblk d x)\<rparr>) FI FD"
  using assms by (simp add: free_ok_def)

lemma free_ok_takeD:
  assumes "free_ok d dir FI (x # FD)"
  shows "free_ok d (dir\<lparr>lfd_dfree := lf_nextdb (sector d x)\<rparr>) FI FD"
  using assms by (simp add: free_ok_def)

lemma setup_first_ok:
  assumes core: "fcore ni ds d dir cb FI FD I D cs" and c: "\<not> lfibdirty cb" "\<not> lfdbdirty cb" and room: "I = [] \<Longrightarrow> FI \<noteq> []"
  shows "\<exists>d' dir' b' ib n x FI' I' k. setup_first f (st s f d dir b cb) = Some (st s f d' dir' b' (cb\<lparr>lfiblock := ib, lfinum := n, lfibdirty := x\<rparr>))
    \<and> fcore ni ds d' dir' (cb\<lparr>lfiblock := ib, lfinum := n, lfibdirty := x\<rparr>) FI' FD I' D cs
    \<and> kept ni ds (set FI \<union> set I) (set FD \<union> set D) (nat (lfdirptr cb)) d dir d' dir'
    \<and> set FI' \<union> set I' = set FI \<union> set I \<and> k < length I' \<and> n = I' ! k \<and> 8192 * int k \<le> lfpos cb \<and> (x \<longrightarrow> k = nat (lfpos cb div 8192))
    \<and> (I \<noteq> [] \<longrightarrow> d' = d \<and> dir' = dir \<and> b' = b \<and> FI' = FI \<and> I' = I)"
proof -
  note f = fcoreD [OF core] and B = blocksD [OF fcoreD(5) [OF core]]
  have e: "dirent (lfdirptr cb) (st s f d dir b cb) = Some (mine dir cb)" using dirent_ok [OF f(2-4)] by (simp add: mine_def)
  have ch: "chain (\<lambda>n. ib_next (vib d cb n)) (ld_ilist (mine dir cb)) I" using f(7) by (simp add: stored_def)
  have no_x: "cb\<lparr>lfibdirty := False\<rparr> = cb" using c by simp
  have load: "?thesis" if run: "setup_first f (st s f d dir b cb) = Some (st s f d dir b (cb\<lparr>lfiblock := iblk d (I ! 0), lfinum := I ! 0\<rparr>))" and I: "I \<noteq> []"
  proof -
    have "fcore ni ds d dir (cb\<lparr>lfiblock := iblk d (I ! 0), lfinum := I ! 0\<rparr>) FI FD I D cs" by (rule load_ib(3) [OF core c(1)]) (use I in simp)
    moreover have "cb\<lparr>lfiblock := iblk d (I ! 0), lfinum := I ! 0, lfibdirty := False\<rparr> = cb\<lparr>lfiblock := iblk d (I ! 0), lfinum := I ! 0\<rparr>"
      by (rule lflcblk.equality) (use c in simp_all)
    ultimately show ?thesis using run I f(9)
      by - (rule exI [of _ d], rule exI [of _ dir], rule exI [of _ b], rule exI [of _ "iblk d (I ! 0)"], rule exI [of _ "I ! 0"], rule exI [of _ False], rule exI [of _ FI], rule exI [of _ I], rule exI [of _ 0], simp)
  qed
  show ?thesis
  proof (cases "lfinum cb = -1")
    case none: True
    show ?thesis
    proof (cases "I = []")
      case False
      then have "ld_ilist (mine dir cb) = I ! 0" "I ! 0 \<noteq> -1" using chain_hd [OF ch] ch by (auto simp: hd_conv_nth neq_Nil_conv)
      moreover have "lfibget (I ! 0) d = Some (iblk d (I ! 0))" by (rule load_ib(1) [OF core c(1)]) (use False in simp)
      ultimately show ?thesis using none e False by (intro load) (simp_all add: setup_first_def Let_def)
    next
      case True
      then obtain x FI1 where FI: "FI = x # FI1" using room by (cases FI) auto
      have x: "0 \<le> x" "x < ni" "x \<noteq> -1" using B(8) [of x] FI by auto
      from lfiballoc_ok [OF f(1,2) f(6) [unfolded FI] x(1,2), of s f b cb] obtain d' where
        al: "lfiballoc (st s f d dir b cb) = Some (x, st s f d' (dir\<lparr>lfd_ifree := ib_next (iblk d x)\<rparr>) False cb)"
        and same: "ib_same ni d d'" "db_same ds d d'" by blast
      let ?e = "(mine dir cb)\<lparr>ld_ilist := x\<rparr>" and ?i = "nat (lfdirptr cb)"
      let ?dir = "dir\<lparr>lfd_ifree := ib_next (iblk d x), lfd_files := (lfd_files dir)[?i := ?e]\<rparr>"
      let ?cb = "cb\<lparr>lfiblock := lfibclear 0, lfinum := x, lfibdirty := True\<rparr>"
      have nil: "ld_ilist (mine dir cb) = -1" "D = []" "cs = []" using ch f(7) True by (auto simp: stored_def)
      have ord: "cb\<lparr>lfiblock := lfibclear 0, lfibdirty := True, lfinum := x\<rparr> = ?cb" by (rule lflcblk.equality) simp_all
      have ok1: "ok_dir (dir\<lparr>lfd_ifree := ib_next (iblk d x)\<rparr>)" using ok_dir_free [OF f(2)] in_s32_next by blast
      have run: "setup_first f (st s f d dir b cb) = Some (st s f d' ?dir False ?cb)"
        using none e nil al upd_dirent_ok [OF ok1 f(3,4)] by (simp add: setup_first_def mine_def ord Let_def)
      have "ok_lde ?e" using ok_dir_lde [OF f(2), of ?i] f(3,4) x layout_sect [OF f(1) x(1,2)]
        by (auto simp: ok_lde_def mine_def in_s32_def ib2sect_def)
      then have ok: "ok_dir ?dir" using ok_dir_upd [OF ok1] by simp
      have me: "mine ?dir ?cb = ?e" using f(2-4) by (simp add: mine_def ok_dir_def nat_less_iff)
      have fr: "free_ok d' ?dir FI1 FD"
        by (rule free_ok_same [OF free_ok_take [OF f(6) [unfolded FI]]]) (use same B(8,10) FI in \<open>auto simp: ib_same_def db_same_def\<close>)
      have "stored (vib d' ?cb) (vdb d' ?cb) ?e [x] D cs"
        using f(7) nil x ok_lfibclear [of 0] by (simp add: stored_def vib_def)
      then have core': "fcore ni ds d' ?dir ?cb FI1 FD [x] D cs"
        using f nil ok me fr FI True by (auto simp: fcore_def cb_ok_def blocks_ok_def)
      have "kept ni ds (set FI \<union> set I) (set FD \<union> set D) ?i d dir d' ?dir"
        using same f(2-4) by (auto simp: kept_def ib_same_def db_same_def mine_def ok_dir_def nat_less_iff nth_list_update)
      then show ?thesis using run core' FI True nil f(9,10)
        by - (rule exI [of _ d'], rule exI [of _ ?dir], rule exI [of _ False], rule exI [of _ "lfibclear 0"], rule exI [of _ x], rule exI [of _ True], rule exI [of _ FI1], rule exI [of _ "[x]"], rule exI [of _ 0], simp)
    qed
  next
    case False
    then have m: "lfinum cb \<in> set I" using f(8) by (auto simp: cb_ok_def)
    then obtain k where k: "k < length I" "lfinum cb = I ! k" by (auto simp: in_set_conv_nth)
    then have off: "ib_offset (lfiblock cb) = 8192 * int k" using f(7) vib_cur [of d cb] by (auto simp: stored_def simp del: vib_cur)
    show ?thesis
    proof (cases "lfpos cb < ib_offset (lfiblock cb)")
      case True
      have "I \<noteq> []" using m by auto
      then have "ld_ilist (mine dir cb) = I ! 0" using chain_hd [OF ch] by (simp add: hd_conv_nth)
      moreover have "lfibget (I ! 0) d = Some (iblk d (I ! 0))" by (rule load_ib(1) [OF core c(1)]) (use \<open>I \<noteq> []\<close> in simp)
      ultimately show ?thesis using False True e \<open>I \<noteq> []\<close> by (intro load) (simp_all add: setup_first_def Let_def)
    next
      case le: False
      have "cb\<lparr>lfiblock := lfiblock cb, lfinum := lfinum cb, lfibdirty := False\<rparr> = cb" using c by simp
      then show ?thesis using False le core k off
        by - (rule exI [of _ d], rule exI [of _ dir], rule exI [of _ b], rule exI [of _ "lfiblock cb"], rule exI [of _ "lfinum cb"], rule exI [of _ False], rule exI [of _ FI], rule exI [of _ I], rule exI [of _ k], simp add: setup_first_def)
    qed
  qed
qed

section \<open>The walk along the index blocks\<close>

text \<open>What \<open>lfsetup\<close> leaves of a control block.\<close>

definition same_cb :: "lflcblk \<Rightarrow> lflcblk \<Rightarrow> bool" where
  "same_cb cb cb' \<longleftrightarrow> lfpos cb' = lfpos cb \<and> lfdirptr cb' = lfdirptr cb \<and> lfmutex cb' = lfmutex cb \<and> lfname cb' = lfname cb
     \<and> lfdev cb' = lfdev cb \<and> lfmode cb' = lfmode cb \<and> lfstate cb' = lfstate cb"

text \<open>The state in which the index block number \<open>k\<close> of the file is in memory.\<close>

definition reached :: "int \<Rightarrow> int \<Rightarrow> bytes \<Rightarrow> lfdir \<Rightarrow> lflcblk \<Rightarrow> int set \<Rightarrow> int set \<Rightarrow> bytes \<Rightarrow> lfdir \<Rightarrow> lflcblk
    \<Rightarrow> int list \<Rightarrow> int list \<Rightarrow> int list \<Rightarrow> int list \<Rightarrow> 8 word list \<Rightarrow> nat \<Rightarrow> bool" where
  "reached ni ds d0 dir0 cb0 X Y d dir cb FI FD I D cs k \<longleftrightarrow> fcore ni ds d dir cb FI FD I D cs
     \<and> kept ni ds X Y (nat (lfdirptr cb0)) d0 dir0 d dir \<and> same_cb cb0 cb \<and> set FI \<union> set I = X \<and> set FD \<union> set D = Y
     \<and> k < length I \<and> lfinum cb = I ! k \<and> 8192 * int k \<le> lfpos cb \<and> (lfibdirty cb \<longrightarrow> k = nat (lfpos cb div 8192)) \<and> \<not> lfdbdirty cb"

lemma stored_len: "stored g h e I D cs \<Longrightarrow> length D \<le> 16 * length I \<and> length cs \<le> 512 * length D"
  by (simp add: stored_def)

lemma length_D: "blocks_ok ni ds FI D \<Longrightarrow> layout ni ds \<Longrightarrow> length D \<le> 200"
proof -
  assume b: "blocks_ok ni ds FI D" and l: "layout ni ds"
  then have "card (set D) \<le> card {0..<200 :: int}" using layout_ds [OF l] by (intro card_mono) (auto simp: blocks_ok_def)
  then show ?thesis using b by (simp add: blocks_ok_def distinct_card)
qed

lemma fcore_pos: "fcore ni ds d dir cb FI FD I D cs \<Longrightarrow> lfpos cb div 512 \<le> int (length D) \<and> lfpos cb div 8192 \<le> int (length I) \<and> lfpos cb \<le> 102400"
proof -
  assume core: "fcore ni ds d dir cb FI FD I D cs"
  note f = fcoreD [OF core]
  have "lfpos cb \<le> 512 * int (length D)" "length D \<le> 16 * length I" using f(10) stored_len [OF f(7)] by auto
  moreover have "length D \<le> 200" using length_D [OF f(5,1)] by simp
  ultimately show ?thesis by auto
qed

text \<open>Off the list \<open>I\<close> of the file the views agree with the disk.\<close>

lemma view_disk: "cb_ok d cb I D \<Longrightarrow> n \<notin> set I \<Longrightarrow> n \<noteq> -1 \<Longrightarrow> vib d cb n = iblk d n"
  by (auto simp: cb_ok_def vib_def)

lemma step_load:
  assumes r: "reached ni ds d0 dir0 cb0 X Y d dir cb FI FD I D cs k" and k: "Suc k < length I" and le: "8192 * int (Suc k) \<le> lfpos cb"
    and c: "\<not> lfibdirty cb"
  shows "\<exists>cb'. setup_step f (st s f d dir b cb) = Some (st s f d dir b cb') \<and> reached ni ds d0 dir0 cb0 X Y d dir cb' FI FD I D cs (Suc k)"
proof -
  have core: "fcore ni ds d dir cb FI FD I D cs" and cur: "lfinum cb = I ! k" and db: "\<not> lfdbdirty cb" using r by (simp_all add: reached_def)
  note f = fcoreD [OF core] and B = blocksD [OF fcoreD(5) [OF core]]
  have "chain (\<lambda>n. ib_next (vib d cb n)) (ld_ilist (mine dir cb)) I" using f(7) by (simp add: stored_def)
  from chain_nth [OF this, of k] k have nxt: "ib_next (lfiblock cb) = I ! Suc k" using cur vib_cur [of d cb] by (simp del: vib_cur)
  note L = load_ib [OF core c, of "I ! Suc k"]
  have nn: "I ! Suc k \<noteq> -1" using B(7) [of "I ! Suc k"] k by auto
  let ?cb = "cb\<lparr>lfiblock := iblk d (I ! Suc k), lfinum := I ! Suc k, lfdnum := -1\<rparr>"
  have run: "setup_step f (st s f d dir b cb) = Some (st s f d dir b ?cb)"
    using nxt nn L(1) k by (simp add: setup_step_def Let_def)
  have "fcore ni ds d dir ?cb FI FD I D cs"
    by (rule fcore_disk [OF L(3)]) (use fcoreD [OF L(3)] k db f no_null(3) [OF f(1,5)] in \<open>auto simp: vib_def vdb_def cb_ok_def\<close>)
  then have "reached ni ds d0 dir0 cb0 X Y d dir ?cb FI FD I D cs (Suc k)"
    using r k le c by (simp add: reached_def same_cb_def)
  then show ?thesis using run by blast
qed

text \<open>A cleared index block is added at the end of the list.\<close>

lemma stored_extend:
  assumes f: "stored g h e I D cs" and I: "I \<noteq> []" "distinct I" and x: "x \<notin> set I" "0 \<le> x" "x < 2 ^ 31"
    and small: "8192 * int (length I) < 2 ^ 32"
    and old: "\<And>n. n \<in> set I \<Longrightarrow> g' n = (if n = last I then (g n)\<lparr>ib_next := x\<rparr> else g n)"
    and new: "g' x = lfibclear (8192 * int (length I))" and same: "\<And>d. d \<in> set D \<Longrightarrow> h' d = h d"
  shows "stored g' h' e (I @ [x]) D cs"
  unfolding stored_def
proof (intro conjI allI impI ballI)
  show "length (h' m) = 512" if "m \<in> set D" for m using same [OF that] stored_db [OF f that] by simp
  show "h' (D ! (p div 512)) ! (p mod 512) = cs ! p" if p: "p < length cs" for p
  proof -
    have "p div 512 < length D" using p f by (auto simp: stored_def)
    then show ?thesis using same [of "D ! (p div 512)"] p f by (simp add: stored_def)
  qed
  show "ld_size e = int (length cs)" "length D \<le> 16 * length (I @ [x])" "length cs \<le> 512 * length D"
    using f by (simp_all add: stored_def)
  show "chain (\<lambda>n. ib_next (g' n)) (ld_ilist e) (I @ [x])"
  proof -
    have "chain ((\<lambda>n. ib_next (g n))(last I := x, x := -1)) (ld_ilist e) (I @ [x])"
      using f I x by (intro chain_snoc) (simp_all add: stored_def)
    moreover have "ib_next (g' n) = ((\<lambda>n. ib_next (g n))(last I := x, x := -1)) n" if "n \<in> set (I @ [x])" for n
      using that old new x(1) by auto
    ultimately show ?thesis by (subst chain_cong [of _ _ "(\<lambda>n. ib_next (g n))(last I := x, x := -1)"])
  qed
  fix m assume m: "m < length (I @ [x])"
  have "ok_ib (g' ((I @ [x]) ! m)) \<and> ib_offset (g' ((I @ [x]) ! m)) = 8192 * int m
    \<and> (\<forall>j < 16. ib_dba (g' ((I @ [x]) ! m)) ! j = (if 16 * m + j < length D then D ! (16 * m + j) else -1))"
  proof (cases "m < length I")
    case True
    then have "ok_ib (g (I ! m))" "in_s32 x" using stored_ib [OF f] x by (auto simp: in_s32_def)
    then show ?thesis using True old [of "I ! m"] stored_off [OF f True] stored_dba [OF f True] by (auto simp: nth_append ok_ib_def)
  next
    case False
    then have "m = length I" using m by simp
    moreover have "length D \<le> 16 * length I" using f by (simp add: stored_def)
    moreover have "ok_ib (lfibclear (8192 * int (length I)))" by (rule ok_lfibclear) (use small in auto)
    ultimately show ?thesis using new by (simp add: nth_append)
  qed
  then show "ok_ib (g' ((I @ [x]) ! m))" "ib_offset (g' ((I @ [x]) ! m)) = 8192 * int m"
    "\<And>j. j < 16 \<Longrightarrow> ib_dba (g' ((I @ [x]) ! m)) ! j = (if 16 * m + j < length D then D ! (16 * m + j) else -1)" by simp_all
qed

lemma step_extend:
  assumes r: "reached ni ds d0 dir0 cb0 X Y d dir cb FI FD I D cs k" and k: "Suc k = length I" and le: "8192 * int (Suc k) \<le> lfpos cb"
    and c: "\<not> lfibdirty cb" and room: "FI \<noteq> []"
  shows "\<exists>d' dir' b' cb' FI' x. setup_step f (st s f d dir b cb) = Some (st s f d' dir' b' cb')
    \<and> reached ni ds d0 dir0 cb0 X Y d' dir' cb' FI' FD (I @ [x]) D cs (Suc k)"
proof -
  have core: "fcore ni ds d dir cb FI FD I D cs" and cur: "lfinum cb = I ! k" and db: "\<not> lfdbdirty cb" using r by (simp_all add: reached_def)
  note f = fcoreD [OF core] and B = blocksD [OF fcoreD(5) [OF core]]
  have ch: "chain (\<lambda>n. ib_next (vib d cb n)) (ld_ilist (mine dir cb)) I" using f(7) by (simp add: stored_def)
  from chain_nth [OF this, of k] k have nxt: "ib_next (lfiblock cb) = -1" using cur vib_cur [of d cb] by (simp del: vib_cur)
  obtain x FI1 where FI: "FI = x # FI1" using room by (cases FI) auto
  have x: "0 \<le> x" "x < ni" "x \<noteq> -1" "x \<notin> set I" "x \<notin> set FI1" using B(2,3) B(8) [of x] FI by auto
  have last: "I ! k = last I" "I \<noteq> []" "I ! k \<in> set I" using k by (cases I rule: rev_cases, simp_all add: nth_append)+
  have cur_ok: "0 \<le> I ! k" "I ! k < ni" "ok_ib (lfiblock cb)" "ib_offset (lfiblock cb) = 8192 * int k"
    using B(7) [OF last(3)] stored_ib [OF f(7) last(3)] stored_off [OF f(7), of k] cur k vib_cur [of d cb] by (auto simp del: vib_cur)
  from lfiballoc_ok [OF f(1,2) f(6) [unfolded FI] x(1,2), of s f b cb] obtain d1 where
    al: "lfiballoc (st s f d dir b cb) = Some (x, st s f d1 (dir\<lparr>lfd_ifree := ib_next (iblk d x)\<rparr>) False cb)"
    and same1: "ib_same ni d d1" "db_same ds d d1" by blast
  let ?dir = "dir\<lparr>lfd_ifree := ib_next (iblk d x)\<rparr>" and ?old = "(lfiblock cb)\<lparr>ib_next := x\<rparr>"
  have "x < 2 ^ 31" using layout_sect [OF f(1) x(1,2)] by (auto simp: ib2sect_def)
  then have "ok_ib ?old" using cur_ok(3) x(1) by (simp add: ok_ib_def in_s32_def)
  from put_ib_ok [OF f(1) cur_ok(1,2) this, of s f d1 ?dir False cb] obtain d2 where
    put: "put_ib (I ! k) ?old (st s f d1 ?dir False cb) = Some (OK, st s f d2 ?dir False cb)"
    and same2: "db_same ds d1 d2" "\<forall>n. 0 \<le> n \<and> n < ni \<longrightarrow> iblk d2 n = (if n = I ! k then ?old else iblk d1 n)" by blast
  have off: "u32 (8192 * int k + 8192) = 8192 * int (Suc k)" using le fcore_pos [OF core] by simp
  let ?new = "lfibclear (8192 * int (Suc k))"
  let ?cb = "cb\<lparr>lfinum := x, lfiblock := ?new, lfibdirty := True, lfdnum := -1\<rparr>"
  have run: "setup_step f (st s f d dir b cb) = Some (st s f d2 ?dir False ?cb)"
    using nxt al put off cur cur_ok(4) by (simp add: setup_step_def Let_def)
  have ib: "iblk d2 n = (if n = I ! k then ?old else iblk d n)" if "0 \<le> n" "n < ni" for n
    using same1 same2 that by (simp add: ib_same_def)
  have dbs: "sector d2 m = sector d m" if "ds \<le> m" "m < 200" for m using same1 same2 that by (simp add: db_same_def)
  have old_view: "vib d2 ?cb n = (if n = I ! k then ?old else vib d cb n)" if "n \<in> set I" for n
    using B(7) [OF that] that x(4) ib [of n] c f(8) cur by (auto simp: vib_def cb_ok_def)
  have new_view: "vib d2 ?cb x = ?new" by (simp add: vib_def)
  have dview: "vdb d2 ?cb m = vdb d cb m" if "m \<in> set D" for m
    using that no_null(3) [OF f(1,5)] B(9) [OF that] dbs [of m] db f(8) by (auto simp: vdb_def cb_ok_def)
  have "stored (vib d2 ?cb) (vdb d2 ?cb) (mine ?dir ?cb) (I @ [x]) D cs"
  proof (rule stored_extend)
    show "stored (vib d cb) (vdb d cb) (mine ?dir ?cb) I D cs" using f(7) by (simp add: mine_def)
    show "vib d2 ?cb n = (if n = last I then (vib d cb n)\<lparr>ib_next := x\<rparr> else vib d cb n)" if "n \<in> set I" for n
      using old_view [OF that] last(1) cur vib_cur [of d cb] by (auto simp del: vib_cur)
    show "vib d2 ?cb x = lfibclear (8192 * int (length I))" using new_view k by simp
    show "8192 * int (length I) < 2 ^ 32" using le fcore_pos [OF core] k by simp
  qed (use last B x \<open>x < 2 ^ 31\<close> dview in simp_all)
  moreover have "free_ok d2 ?dir FI1 FD"
    by (rule free_ok_same [OF free_ok_take [OF f(6) [unfolded FI]]]) (use ib B(3,8,10) FI last(3) dbs in auto)
  moreover have "ok_dir ?dir" using ok_dir_free [OF f(2)] in_s32_next by blast
  moreover have "blocks_ok ni ds (FI1 @ (I @ [x])) (FD @ D)" using f(5) FI x by (auto simp: blocks_ok_def)
  moreover have "cb_ok d2 ?cb (I @ [x]) D" using f(8) db by (simp add: cb_ok_def)
  ultimately have core': "fcore ni ds d2 ?dir ?cb FI1 FD (I @ [x]) D cs" using f by (simp add: fcore_def)
  have "kept ni ds X Y (nat (lfdirptr cb0)) d dir d2 ?dir"
    using r ib dbs last(3) unfolding kept_def reached_def by auto
  with r have "kept ni ds X Y (nat (lfdirptr cb0)) d0 dir0 d2 ?dir" unfolding reached_def using kept_trans by blast
  moreover have "nat (lfpos cb div 8192) = Suc k" using le fcore_pos [OF core] k by auto
  ultimately have "reached ni ds d0 dir0 cb0 X Y d2 ?dir ?cb FI1 FD (I @ [x]) D cs (Suc k)"
    using r core' FI le k db by (auto simp: reached_def same_cb_def nth_append)
  then show ?thesis using run by blast
qed

end
