(* ===== verification/LfsOps.thy ===== *)
theory LfsOps
  imports LfsInv
begin

text \<open>
  Reading, writing, seeking and closing: \<open>lfsetup\<close> brings the block of the position into memory,
  and on it every operation acts as on a list of bytes with a position.
\<close>

section \<open>The walk\<close>

lemma setup_walk_ok:
  assumes "reached ni ds d0 dir0 cb0 X Y d dir cb FI FD I D cs k" "FI \<noteq> [] \<or> lfpos cb div 8192 < int (length I)"
  shows "\<exists>d' dir' b' cb' FI' I'. setup_walk f (st s f d dir b cb) = Some (st s f d' dir' b' cb')
    \<and> reached ni ds d0 dir0 cb0 X Y d' dir' cb' FI' FD I' D cs (nat (lfpos cb div 8192))
    \<and> (lfpos cb div 8192 < int (length I) \<longrightarrow> d' = d \<and> dir' = dir \<and> b' = b \<and> FI' = FI \<and> I' = I)"
  using assms
proof (induction "nat (lfpos cb div 8192) - k" arbitrary: k d dir b cb FI I)
  case 0
  have core: "fcore ni ds d dir cb FI FD I D cs" and cur: "lfinum cb = I ! k" "k < length I" and le: "8192 * int k \<le> lfpos cb"
    using "0.prems"(1) by (simp_all add: reached_def)
  have k: "k = nat (lfpos cb div 8192)" using 0(1) le by linarith
  have "ib_offset (lfiblock cb) = 8192 * int k" using stored_off [OF fcoreD(7) [OF core] cur(2)] cur(1) vib_cur [of d cb] by simp
  then have "\<not> lfpos cb AND NOT 8191 > ib_offset (lfiblock cb)" using k le fcoreD(9) [OF core] by (simp add: and_hi' pos_imp_zdiv_nonneg_iff)
  then have "setup_walk f (st s f d dir b cb) = Some (st s f d dir b cb)" by (subst setup_walk.simps) simp
  then show ?case using "0.prems"(1) k by blast
next
  case (Suc n)
  have core: "fcore ni ds d dir cb FI FD I D cs" and cur: "lfinum cb = I ! k" "k < length I" and le: "8192 * int k \<le> lfpos cb"
    and clean: "lfibdirty cb \<longrightarrow> k = nat (lfpos cb div 8192)" using Suc.prems(1) by (simp_all add: reached_def)
  have k: "Suc k \<le> nat (lfpos cb div 8192)" "n = nat (lfpos cb div 8192) - Suc k" using Suc(2) by auto
  then have "int (Suc k) \<le> lfpos cb div 8192" by linarith
  then have le': "8192 * int (Suc k) \<le> lfpos cb" using div_mult_mod_eq [of "lfpos cb" 8192] pos_mod_sign [of 8192 "lfpos cb"] by auto
  have c: "\<not> lfibdirty cb" using clean k by simp
  have "ib_offset (lfiblock cb) = 8192 * int k" using stored_off [OF fcoreD(7) [OF core] cur(2)] cur(1) vib_cur [of d cb] by simp
  then have more: "lfpos cb AND NOT 8191 > ib_offset (lfiblock cb)" using k by (simp add: and_hi')
  have go: "setup_walk f (st s f d dir b cb) = Option.bind (setup_step f (st s f d dir b cb)) (setup_walk f)"
    using more by (subst setup_walk.simps) simp
  have step: "\<exists>d' dir' b' cb' FI' I'. setup_step f (st s f d dir b cb) = Some (st s f d' dir' b' cb')
      \<and> reached ni ds d0 dir0 cb0 X Y d' dir' cb' FI' FD I' D cs (Suc k)
      \<and> (FI' \<noteq> [] \<or> lfpos cb div 8192 < int (length I'))
      \<and> (lfpos cb div 8192 < int (length I) \<longrightarrow> d' = d \<and> dir' = dir \<and> b' = b \<and> FI' = FI \<and> I' = I)"
  proof (cases "Suc k < length I")
    case True
    from step_load [OF Suc.prems(1) True le' c] Suc.prems(2) show ?thesis by blast
  next
    case False
    then have l: "Suc k = length I" using cur(2) by simp
    moreover have "lfpos cb div 8192 \<le> int (length I)" using fcore_pos [OF core] by simp
    moreover have "FI \<noteq> []" using Suc.prems(2) l k by linarith
    ultimately show ?thesis using step_extend [OF Suc.prems(1) l le' c \<open>FI \<noteq> []\<close>, of f s b] k(1) by fastforce
  qed
  then obtain d1 dir1 b1 cb1 FI1 I1 where 1: "setup_step f (st s f d dir b cb) = Some (st s f d1 dir1 b1 cb1)"
    "reached ni ds d0 dir0 cb0 X Y d1 dir1 cb1 FI1 FD I1 D cs (Suc k)" "FI1 \<noteq> [] \<or> lfpos cb div 8192 < int (length I1)"
    "lfpos cb div 8192 < int (length I) \<longrightarrow> d1 = d \<and> dir1 = dir \<and> b1 = b \<and> FI1 = FI \<and> I1 = I" by blast
  have pos: "lfpos cb1 = lfpos cb" using 1(2) Suc.prems(1) by (simp add: reached_def same_cb_def)
  from Suc.hyps(1) [OF _ 1(2)] 1(3) pos k(2) obtain d' dir' b' cb' FI' I' where
    2: "setup_walk f (st s f d1 dir1 b1 cb1) = Some (st s f d' dir' b' cb')"
    "reached ni ds d0 dir0 cb0 X Y d' dir' cb' FI' FD I' D cs (nat (lfpos cb div 8192))"
    "lfpos cb div 8192 < int (length I1) \<longrightarrow> d' = d1 \<and> dir' = dir1 \<and> b' = b1 \<and> FI' = FI1 \<and> I' = I1" by metis
  have "setup_walk f (st s f d dir b cb) = Some (st s f d' dir' b' cb')" using go 1(1) 2(1) by simp
  then show ?case using 2(2,3) 1(4) by blast
qed

section \<open>The data block\<close>

lemma drop9 [simp]: "drop_bit 9 (x mod 8192) = x mod 8192 div (512 :: int)"
  by (simp add: drop_bit_eq_div)

lemma pos_index:
  assumes "stored g h e I D cs" "k = nat (p div 8192)" "k < length I" "0 \<le> p"
  shows "ib_dba (g (I ! k)) ! nat (p mod 8192 div 512) = (if nat (p div 512) < length D then D ! nat (p div 512) else -1)"
proof -
  have "nat (p mod 8192 div 512) < 16" by simp
  moreover have "16 * k + nat (p mod 8192 div 512) = nat (p div 512)" using pos_split [of p] assms(2,4) by linarith
  ultimately show ?thesis using stored_dba [OF assms(1,3)] by simp
qed

lemma data_load:
  assumes r: "reached ni ds d0 dir0 cb0 X Y d dir cb FI FD I D cs (nat (lfpos cb div 8192))" and j: "lfpos cb div 512 < int (length D)"
  shows "\<exists>cb'. setup_data f (st s f d dir b cb) = Some (st s f d dir b cb') \<and> fcore ni ds d dir cb' FI FD I D cs \<and> same_cb cb0 cb'
    \<and> lfbyte cb' = lfpos cb mod 512 \<and> lfdnum cb' = D ! nat (lfpos cb div 512)"
proof -
  let ?k = "nat (lfpos cb div 8192)" and ?j = "nat (lfpos cb div 512)"
  have core: "fcore ni ds d dir cb FI FD I D cs" and cur: "lfinum cb = I ! ?k" "?k < length I" and db: "\<not> lfdbdirty cb"
    and same: "same_cb cb0 cb" using r by (simp_all add: reached_def)
  note f = fcoreD [OF core] and B = blocksD [OF fcoreD(5) [OF core]]
  have jl: "?j < length D" using j f(9) by linarith
  have dn: "ib_dba (lfiblock cb) ! nat (lfpos cb mod 8192 div 512) = D ! ?j"
    using pos_index [OF f(7) refl cur(2) f(9)] cur(1) vib_cur [of d cb] jl by simp
  have m: "D ! ?j \<in> set D" "ds \<le> D ! ?j" "D ! ?j < 200" "D ! ?j \<noteq> -1" using jl B(9) [of "D ! ?j"] layout_ds [OF f(1)] by auto
  then have rd: "ramread (D ! ?j) d = Some (OK, sector d (D ! ?j))" using ramread_ok layout_ds [OF f(1)] by simp
  let ?cb = "cb\<lparr>lfdblock := (if D ! ?j = lfdnum cb then lfdblock cb else sector d (D ! ?j)), lfdnum := D ! ?j, lfbyte := lfpos cb mod 512\<rparr>"
  have "cb\<lparr>lfdblock := sector d (D ! ?j), lfdbdirty := False, lfdnum := D ! ?j, lfbyte := lfpos cb mod 512\<rparr>
      = cb\<lparr>lfdblock := sector d (D ! ?j), lfdnum := D ! ?j, lfbyte := lfpos cb mod 512\<rparr>"
    by (rule lflcblk.equality) (use db in simp_all)
  then have run: "setup_data f (st s f d dir b cb) = Some (st s f d dir b ?cb)"
    using dn m(4) rd by (simp add: setup_data_def and_lo Let_def)
  have "fcore ni ds d dir ?cb FI FD I D cs"
    by (rule fcore_disk [OF core]) (use f m db no_null(3) [OF f(1,5)] in \<open>auto simp: vib_def vdb_def cb_ok_def\<close>)
  then show ?thesis using run same by (auto simp: same_cb_def)
qed

text \<open>At the end of the last data block one is taken from the free list; it is dirty.\<close>

lemma stored_append:
  assumes f: "stored g h e I D cs" and k: "length D < 16 * length I" and x: "x \<notin> set D" "in_s32 x" and dist: "distinct I"
    and g': "\<And>n. n \<in> set I \<Longrightarrow> g' n = (if n = I ! (length D div 16) then (g n)\<lparr>ib_dba := (ib_dba (g n))[length D mod 16 := x]\<rparr> else g n)"
    and h': "length (h' x) = 512" "\<And>d. d \<in> set D \<Longrightarrow> h' d = h d"
  shows "stored g' h' e I (D @ [x]) cs"
  unfolding stored_def
proof (intro conjI allI impI ballI)
  have "ib_next (g' n) = ib_next (g n)" if "n \<in> set I" for n using g' [OF that] by simp
  then show "chain (\<lambda>n. ib_next (g' n)) (ld_ilist e) I" using f chain_cong [of I "\<lambda>n. ib_next (g' n)" "\<lambda>n. ib_next (g n)"] by (simp add: stored_def)
  show "length (h' m) = 512" if "m \<in> set (D @ [x])" for m using that h' stored_db [OF f] by auto
  show "h' ((D @ [x]) ! (p div 512)) ! (p mod 512) = cs ! p" if p: "p < length cs" for p
  proof -
    have "p div 512 < length D" using p f by (auto simp: stored_def)
    then show ?thesis using h'(2) [of "D ! (p div 512)"] p f by (simp add: stored_def nth_append)
  qed
  show "ld_size e = int (length cs)" "length (D @ [x]) \<le> 16 * length I" "length cs \<le> 512 * length (D @ [x])"
    using f k by (auto simp: stored_def)
  fix m assume m: "m < length I"
  have eq: "I ! m = I ! (length D div 16) \<longleftrightarrow> m = length D div 16" using m k dist by (auto simp: nth_eq_iff_index_eq)
  have l16: "length (ib_dba (g (I ! m))) = 16" using stored_ib [OF f, of "I ! m"] m by (simp add: ok_ib_def)
  have all: "list_all in_s32 (ib_dba (g (I ! m)))" using stored_ib [OF f, of "I ! m"] m by (simp add: ok_ib_def)
  show "ok_ib (g' (I ! m))" using stored_ib [OF f, of "I ! m"] m g' [of "I ! m"] x(2) l16 all
    by (auto simp: ok_ib_def list_all_iff dest!: set_update_subset_insert [THEN subsetD])
  show "ib_offset (g' (I ! m)) = 8192 * int m" using stored_off [OF f m] g' [of "I ! m"] m by auto
  show "ib_dba (g' (I ! m)) ! j = (if 16 * m + j < length (D @ [x]) then (D @ [x]) ! (16 * m + j) else -1)" if j: "j < 16" for j
  proof (cases "16 * m + j = length D")
    case True
    then have "m = length D div 16" "j = length D mod 16" using j by (auto simp flip: True)
    then show ?thesis using g' [of "I ! m"] m eq l16 True by (simp add: nth_append)
  next
    case False
    have "j \<noteq> length D mod 16" if "m = length D div 16"
    proof
      assume "j = length D mod 16"
      then have "16 * m + j = length D" using that by simp
      then show False using False by simp
    qed
    then show ?thesis using g' [of "I ! m"] m eq j stored_dba [OF f m j] False by (auto simp: nth_append)
  qed
qed

lemma data_extend:
  assumes r: "reached ni ds d0 dir0 cb0 X Y d dir cb FI FD I D cs (nat (lfpos cb div 8192))" and j: "lfpos cb div 512 = int (length D)" and room: "FD \<noteq> []"
  shows "\<exists>d' dir' b' cb' FD' x. setup_data f (st s f d dir b cb) = Some (st s f d' dir' b' cb')
    \<and> fcore ni ds d' dir' (cb'\<lparr>lfdbdirty := True\<rparr>) FI FD' I (D @ [x]) cs \<and> kept ni ds X Y (nat (lfdirptr cb0)) d0 dir0 d' dir'
    \<and> same_cb cb0 cb' \<and> set FD' \<union> set (D @ [x]) = Y \<and> lfbyte cb' = lfpos cb mod 512 \<and> lfdnum cb' = x"
proof -
  let ?k = "nat (lfpos cb div 8192)"
  have core: "fcore ni ds d dir cb FI FD I D cs" and cur: "lfinum cb = I ! ?k" "?k < length I" and db: "\<not> lfdbdirty cb"
    and same: "same_cb cb0 cb" and Y: "set FD \<union> set D = Y" using r by (simp_all add: reached_def)
  note f = fcoreD [OF core] and B = blocksD [OF fcoreD(5) [OF core]]
  define di where "di = nat (lfpos cb mod 8192 div 512)"
  have nj: "nat (lfpos cb div 512) = length D" using j by simp
  have kd: "?k = length D div 16" "di = length D mod 16"
  proof -
    have "lfpos cb div 8192 = lfpos cb div 512 div 16" using zdiv_zmult2_eq [of 16 "lfpos cb" 512] by simp
    then show "?k = length D div 16" using j by (simp add: nat_div_distrib)
    have "0 \<le> lfpos cb div 8192" "0 \<le> lfpos cb mod 8192 div 512" using f(9) by (simp_all add: pos_imp_zdiv_nonneg_iff)
    then have "int (16 * ?k + di) = int (length D)" using pos_split [of "lfpos cb"] j by (simp add: di_def)
    then have "16 * ?k + di = length D" by linarith
    moreover have "di < 16" by (simp add: di_def)
    ultimately show "di = length D mod 16" by (metis mod_less mod_mult_self4)
  qed
  have dn: "ib_dba (lfiblock cb) ! di = -1"
    using pos_index [OF f(7) refl cur(2) f(9)] cur(1) vib_cur [of d cb] nj by (simp add: di_def)
  obtain x FD1 where FD: "FD = x # FD1" using room by (cases FD) auto
  have x: "ds \<le> x" "x < 200" "x \<notin> set D" "x \<notin> set FD1" using B(5,6) B(10) [of x] FD by auto
  from lfdballoc_ok [OF f(1,2) f(6) [unfolded FD] x(1,2), of s f b cb] obtain d' where
    al: "lfdballoc (st s f d dir b cb) = Some (x, replicate 512 43, st s f d' (dir\<lparr>lfd_dfree := lf_nextdb (sector d x)\<rparr>) False cb)"
    and same1: "ib_same ni d d'" "db_same ds d d'" by blast
  let ?dir = "dir\<lparr>lfd_dfree := lf_nextdb (sector d x)\<rparr>" and ?ib = "(lfiblock cb)\<lparr>ib_dba := (ib_dba (lfiblock cb))[di := x]\<rparr>"
  let ?cb = "cb\<lparr>lfdblock := replicate 512 43, lfiblock := ?ib, lfibdirty := True, lfdnum := x, lfbyte := lfpos cb mod 512\<rparr>"
  let ?cbd = "?cb\<lparr>lfdbdirty := True\<rparr>"
  have run: "setup_data f (st s f d dir b cb) = Some (st s f d' ?dir False ?cb)"
    using dn al by (simp add: setup_data_def and_lo Let_def di_def [symmetric])
  have me: "mine ?dir ?cbd = mine dir cb" by (simp add: mine_def)
  have "stored (vib d' ?cbd) (vdb d' ?cbd) (mine dir cb) I (D @ [x]) cs"
  proof (rule stored_append [OF f(7)])
    show "length D < 16 * length I" using cur(2) kd(1) by linarith
    show "in_s32 x" using x layout_ds [OF f(1)] by (simp add: in_s32_def)
    show "vib d' ?cbd n = (if n = I ! (length D div 16) then (vib d cb n)\<lparr>ib_dba := (ib_dba (vib d cb n))[length D mod 16 := x]\<rparr> else vib d cb n)"
      if "n \<in> set I" for n using kd cur(1) B(7) [OF that] same1(1) by (auto simp: vib_def ib_same_def)
    show "vdb d' ?cbd m = vdb d cb m" if "m \<in> set D" for m
      using that x(3) B(9) [OF that] same1(2) db f(8) no_null(3) [OF f(1,5)] by (auto simp: vdb_def db_same_def cb_ok_def)
  qed (use x(3) B(1) in \<open>simp_all add: vdb_def\<close>)
  moreover have "free_ok d' ?dir FI FD1"
    by (rule free_ok_same [OF free_ok_takeD [OF f(6) [unfolded FD]]]) (use same1 B(8,10) FD in \<open>auto simp: ib_same_def db_same_def\<close>)
  moreover have "ok_dir ?dir" using ok_dir_free [OF f(2)] in_s32_next by blast
  moreover have "blocks_ok ni ds (FI @ I) (FD1 @ (D @ [x]))" using f(5) FD x by (auto simp: blocks_ok_def)
  moreover have "cb_ok d' ?cbd I (D @ [x])" using f(8) cur by (simp add: cb_ok_def)
  ultimately have core': "fcore ni ds d' ?dir ?cbd FI FD1 I (D @ [x]) cs" using f me by (simp add: fcore_def)
  have "kept ni ds X Y (nat (lfdirptr cb0)) d dir d' ?dir" using same1 by (auto simp: kept_def ib_same_def db_same_def)
  with r have "kept ni ds X Y (nat (lfdirptr cb0)) d0 dir0 d' ?dir" unfolding reached_def using kept_trans by blast
  moreover have "same_cb cb0 ?cb" using same by (simp add: same_cb_def)
  moreover have "set FD1 \<union> set (D @ [x]) = Y" using Y FD by auto
  moreover have "lfbyte ?cb = lfpos cb mod 512" "lfdnum ?cb = x" by simp_all
  ultimately show ?thesis using run core' by blast
qed

end
