(* ===== verification/LfsFile.thy ===== *)
theory LfsFile
  imports LfsOps
begin

text \<open>
  Open files as lists of bytes with a position: what \<open>lflgetc\<close>, \<open>lflputc\<close>, \<open>lflseek\<close>,
  \<open>lflread\<close>, \<open>lflwrite\<close> and \<open>lflclose\<close> do to them.
\<close>

section \<open>lfsetup\<close>

lemma maybe_flush:
  assumes core: "fcore ni ds d dir cb FI FD I D cs"
  shows "\<exists>d' b'. (if lfibdirty cb \<or> lfdbdirty cb then Option.bind (lfflush f (st s f d dir b cb)) (\<lambda>(r, s). Some s) else Some (st s f d dir b cb))
      = Some (st s f d' dir b' (clean cb)) \<and> fcore ni ds d' dir (clean cb) FI FD I D cs \<and> kept ni ds (set I) (set D) i d dir d' dir
    \<and> (b \<or> sector d 0 = enc_dir dir \<longrightarrow> b' \<or> sector d' 0 = enc_dir dir)"
proof (cases "lfibdirty cb \<or> lfdbdirty cb")
  case True
  from lfflush_ok [OF core, of f s b i] obtain d' where "lfflush f (st s f d dir b cb) = Some (OK, st s f d' dir False (clean cb))"
    "fcore ni ds d' dir (clean cb) FI FD I D cs" "kept ni ds (set I) (set D) i d dir d' dir"
    "b \<or> sector d 0 = enc_dir dir \<longrightarrow> sector d' 0 = enc_dir dir" by blast
  then show ?thesis using True by - (rule exI [of _ d'], rule exI [of _ False], simp)
next
  case False
  then have eq: "clean cb = cb" by (simp add: clean_id)
  show ?thesis unfolding eq using False core by - (rule exI [of _ d], rule exI [of _ b], simp)
qed

lemma lock_st: "0 < lf_mutex s \<Longrightarrow> lf_wait (st s f d dir b cb) = Some (st (s\<lparr>lf_mutex := lf_mutex s - 1\<rparr>) f d dir b cb)"
  by (simp add: lf_wait_def mtake_def)

lemma unlock_st: "lf_signal (st (s\<lparr>lf_mutex := lf_mutex s - 1\<rparr>) f d dir b cb) = st s f d dir b cb"
  by (simp add: lf_signal_def st_def)

text \<open>Up to the data block.\<close>

lemma setup_ib:
  assumes core: "fcore ni ds d dir cb FI FD I D cs" and room: "FI \<noteq> [] \<or> lfpos cb div 8192 < int (length I)"
  shows "\<exists>d' dir' b' cb' FI' I'. Option.bind (if lfibdirty cb \<or> lfdbdirty cb then Option.bind (lfflush f (st s f d dir b cb)) (\<lambda>(r, s). Some s) else Some (st s f d dir b cb))
        (\<lambda>s. Option.bind (setup_first f s) (setup_walk f)) = Some (st s f d' dir' b' cb')
    \<and> reached ni ds d dir cb (set FI \<union> set I) (set FD \<union> set D) d' dir' cb' FI' FD I' D cs (nat (lfpos cb div 8192))
    \<and> (lfpos cb div 8192 < int (length I) \<longrightarrow> dir' = dir \<and> FI' = FI \<and> I' = I
         \<and> (b \<or> sector d 0 = enc_dir dir \<longrightarrow> b' \<or> sector d' 0 = enc_dir dir))"
proof -
  from maybe_flush [OF core, of f s b "nat (lfdirptr cb)"] obtain d1 b1 where
    1: "(if lfibdirty cb \<or> lfdbdirty cb then Option.bind (lfflush f (st s f d dir b cb)) (\<lambda>(r, s). Some s) else Some (st s f d dir b cb))
      = Some (st s f d1 dir b1 (clean cb))" "fcore ni ds d1 dir (clean cb) FI FD I D cs"
      "kept ni ds (set I) (set D) (nat (lfdirptr cb)) d dir d1 dir" "b \<or> sector d 0 = enc_dir dir \<longrightarrow> b1 \<or> sector d1 0 = enc_dir dir" by blast
  have "I = [] \<Longrightarrow> FI \<noteq> []" using room fcoreD(9) [OF core] by (auto simp: not_less pos_imp_zdiv_nonneg_iff)
  moreover have "\<not> lfibdirty (clean cb)" "\<not> lfdbdirty (clean cb)" by simp_all
  ultimately obtain d2 dir2 b2 ib n x FI2 I2 k where
    2: "setup_first f (st s f d1 dir b1 (clean cb)) = Some (st s f d2 dir2 b2 ((clean cb)\<lparr>lfiblock := ib, lfinum := n, lfibdirty := x\<rparr>))"
      "fcore ni ds d2 dir2 ((clean cb)\<lparr>lfiblock := ib, lfinum := n, lfibdirty := x\<rparr>) FI2 FD I2 D cs"
      "kept ni ds (set FI \<union> set I) (set FD \<union> set D) (nat (lfdirptr cb)) d1 dir d2 dir2"
      "set FI2 \<union> set I2 = set FI \<union> set I" "k < length I2" "n = I2 ! k" "8192 * int k \<le> lfpos cb" "x \<longrightarrow> k = nat (lfpos cb div 8192)"
      "I \<noteq> [] \<longrightarrow> d2 = d1 \<and> dir2 = dir \<and> b2 = b1 \<and> FI2 = FI \<and> I2 = I"
    using setup_first_ok [OF 1(2), of f s b1, unfolded clean_simps(3,4)] by blast
  have "kept ni ds (set FI \<union> set I) (set FD \<union> set D) (nat (lfdirptr cb)) d dir d2 dir2"
    using kept_trans [OF kept_mono [OF 1(3)] 2(3)] by blast
  then have r: "reached ni ds d dir cb (set FI \<union> set I) (set FD \<union> set D) d2 dir2 ((clean cb)\<lparr>lfiblock := ib, lfinum := n, lfibdirty := x\<rparr>) FI2 FD I2 D cs k"
    using 2 by (simp add: reached_def same_cb_def)
  have "FI2 \<noteq> [] \<or> lfpos cb div 8192 < int (length I2)"
  proof (cases "I = []")
    case True
    then have "cs = []" using stored_len [OF fcoreD(7) [OF core]] by auto
    then have "lfpos cb = 0" using fcoreD(9,10) [OF core] by simp
    then show ?thesis using 2(5) by auto
  qed (use 2(9) room in simp)
  then have "FI2 \<noteq> [] \<or> lfpos ((clean cb)\<lparr>lfiblock := ib, lfinum := n, lfibdirty := x\<rparr>) div 8192 < int (length I2)" by simp
  from setup_walk_ok [OF r this, of f s b2, simplified] obtain d' dir' b' cb' FI' I' where
    3: "setup_walk f (st s f d2 dir2 b2 ((clean cb)\<lparr>lfiblock := ib, lfinum := n, lfibdirty := x\<rparr>)) = Some (st s f d' dir' b' cb')"
    "reached ni ds d dir cb (set FI \<union> set I) (set FD \<union> set D) d' dir' cb' FI' FD I' D cs (nat (lfpos cb div 8192))"
    "lfpos cb div 8192 < int (length I2) \<longrightarrow> d' = d2 \<and> dir' = dir2 \<and> b' = b2 \<and> FI' = FI2 \<and> I' = I2" by auto
  have "I \<noteq> []" if "lfpos cb div 8192 < int (length I)" using that fcoreD(9) [OF core] by (auto simp: not_less pos_imp_zdiv_nonneg_iff)
  then show ?thesis using 1(1,4) 2(1,9) 3
    by - (rule exI [of _ d'], rule exI [of _ dir'], rule exI [of _ b'], rule exI [of _ cb'], rule exI [of _ FI'], rule exI [of _ I'], auto)
qed

lemma lfsetup_split:
  "lfsetup f s = Option.bind (lf_wait s) (\<lambda>s. Option.bind
     (Option.bind (if lfibdirty (lfltab s f) \<or> lfdbdirty (lfltab s f) then Option.bind (lfflush f s) (\<lambda>(r, s). Some s) else Some s)
        (\<lambda>s. Option.bind (setup_first f s) (setup_walk f)))
     (\<lambda>s. Option.bind (setup_data f s) (\<lambda>s. Some (OK, lf_signal s))))"
  by (simp add: lfsetup_def bind_assoc)

lemma lfsetup_load:
  assumes core: "fcore ni ds d dir cb FI FD I D cs" and m: "0 < lf_mutex s" and j: "lfpos cb div 512 < int (length D)"
  shows "\<exists>d' b' cb'. lfsetup f (st s f d dir b cb) = Some (OK, st s f d' dir b' cb') \<and> fcore ni ds d' dir cb' FI FD I D cs
    \<and> kept ni ds (set FI \<union> set I) (set FD \<union> set D) (nat (lfdirptr cb)) d dir d' dir \<and> same_cb cb cb'
    \<and> lfbyte cb' = lfpos cb mod 512 \<and> lfdnum cb' = D ! nat (lfpos cb div 512)
    \<and> (b \<or> sector d 0 = enc_dir dir \<longrightarrow> b' \<or> sector d' 0 = enc_dir dir)"
proof -
  have "lfpos cb div 8192 = lfpos cb div 512 div 16" using zdiv_zmult2_eq [of 16 "lfpos cb" 512] by simp
  then have i: "lfpos cb div 8192 < int (length I)" using j stored_len [OF fcoreD(7) [OF core]] by auto
  from setup_ib [OF core, of f "s\<lparr>lf_mutex := lf_mutex s - 1\<rparr>" b] i obtain d' b' cb1 where
    1: "Option.bind (if lfibdirty cb \<or> lfdbdirty cb then Option.bind (lfflush f (st (s\<lparr>lf_mutex := lf_mutex s - 1\<rparr>) f d dir b cb)) (\<lambda>(r, s). Some s) else Some (st (s\<lparr>lf_mutex := lf_mutex s - 1\<rparr>) f d dir b cb))
        (\<lambda>s. Option.bind (setup_first f s) (setup_walk f)) = Some (st (s\<lparr>lf_mutex := lf_mutex s - 1\<rparr>) f d' dir b' cb1)"
    "reached ni ds d dir cb (set FI \<union> set I) (set FD \<union> set D) d' dir cb1 FI FD I D cs (nat (lfpos cb div 8192))"
    "b \<or> sector d 0 = enc_dir dir \<longrightarrow> b' \<or> sector d' 0 = enc_dir dir" by auto
  have p: "lfpos cb1 = lfpos cb" using 1(2) by (simp add: reached_def same_cb_def)
  have r: "reached ni ds d dir cb (set FI \<union> set I) (set FD \<union> set D) d' dir cb1 FI FD I D cs (nat (lfpos cb1 div 8192))"
    "lfpos cb1 div 512 < int (length D)" using 1(2) p j by simp_all
  from data_load [OF r, of f "s\<lparr>lf_mutex := lf_mutex s - 1\<rparr>" b', unfolded p] obtain cb' where
    2: "setup_data f (st (s\<lparr>lf_mutex := lf_mutex s - 1\<rparr>) f d' dir b' cb1) = Some (st (s\<lparr>lf_mutex := lf_mutex s - 1\<rparr>) f d' dir b' cb')"
    "fcore ni ds d' dir cb' FI FD I D cs" "same_cb cb cb'" "lfbyte cb' = lfpos cb mod 512" "lfdnum cb' = D ! nat (lfpos cb div 512)" by blast
  have "lfsetup f (st s f d dir b cb) = Some (OK, st s f d' dir b' cb')"
    by (simp only: lfsetup_split lock_st [OF m] Option.bind.bind_lunit st_simps(4) 1(1) 2(1) unlock_st)
  then show ?thesis using 1 2 by (auto simp: reached_def)
qed

lemma lfsetup_extend:
  assumes core: "fcore ni ds d dir cb FI FD I D cs" and m: "0 < lf_mutex s" and j: "lfpos cb div 512 = int (length D)"
    and room: "FD \<noteq> []" "FI \<noteq> [] \<or> lfpos cb div 8192 < int (length I)"
  shows "\<exists>d' dir' b' cb' FI' FD' I' x. lfsetup f (st s f d dir b cb) = Some (OK, st s f d' dir' b' cb')
    \<and> fcore ni ds d' dir' (cb'\<lparr>lfdbdirty := True\<rparr>) FI' FD' I' (D @ [x]) cs
    \<and> kept ni ds (set FI \<union> set I) (set FD \<union> set D) (nat (lfdirptr cb)) d dir d' dir' \<and> same_cb cb cb'
    \<and> set FI' \<union> set I' = set FI \<union> set I \<and> set FD' \<union> set (D @ [x]) = set FD \<union> set D
    \<and> lfbyte cb' = lfpos cb mod 512 \<and> lfdnum cb' = x"
proof -
  from setup_ib [OF core room(2), of f "s\<lparr>lf_mutex := lf_mutex s - 1\<rparr>" b] obtain d1 dir1 b1 cb1 FI' I' where
    1: "Option.bind (if lfibdirty cb \<or> lfdbdirty cb then Option.bind (lfflush f (st (s\<lparr>lf_mutex := lf_mutex s - 1\<rparr>) f d dir b cb)) (\<lambda>(r, s). Some s) else Some (st (s\<lparr>lf_mutex := lf_mutex s - 1\<rparr>) f d dir b cb))
        (\<lambda>s. Option.bind (setup_first f s) (setup_walk f)) = Some (st (s\<lparr>lf_mutex := lf_mutex s - 1\<rparr>) f d1 dir1 b1 cb1)"
    "reached ni ds d dir cb (set FI \<union> set I) (set FD \<union> set D) d1 dir1 cb1 FI' FD I' D cs (nat (lfpos cb div 8192))" by auto
  have p: "lfpos cb1 = lfpos cb" using 1(2) by (simp add: reached_def same_cb_def)
  have r: "reached ni ds d dir cb (set FI \<union> set I) (set FD \<union> set D) d1 dir1 cb1 FI' FD I' D cs (nat (lfpos cb1 div 8192))"
    "lfpos cb1 div 512 = int (length D)" using 1(2) p j by simp_all
  from data_extend [OF r room(1), of f "s\<lparr>lf_mutex := lf_mutex s - 1\<rparr>" b1, unfolded p] obtain d' dir' b' cb' FD' x where
    2: "setup_data f (st (s\<lparr>lf_mutex := lf_mutex s - 1\<rparr>) f d1 dir1 b1 cb1) = Some (st (s\<lparr>lf_mutex := lf_mutex s - 1\<rparr>) f d' dir' b' cb')"
    "fcore ni ds d' dir' (cb'\<lparr>lfdbdirty := True\<rparr>) FI' FD' I' (D @ [x]) cs"
    "kept ni ds (set FI \<union> set I) (set FD \<union> set D) (nat (lfdirptr cb)) d dir d' dir'" "same_cb cb cb'"
    "set FD' \<union> set (D @ [x]) = set FD \<union> set D" "lfbyte cb' = lfpos cb mod 512" "lfdnum cb' = x" by blast
  have "lfsetup f (st s f d dir b cb) = Some (OK, st s f d' dir' b' cb')"
    by (simp only: lfsetup_split lock_st [OF m] Option.bind.bind_lunit st_simps(4) 1(1) 2(1) unlock_st)
  then show ?thesis using 1(2) 2
    by - (rule exI [of _ d'], rule exI [of _ dir'], rule exI [of _ b'], rule exI [of _ cb'], rule exI [of _ FI'], rule exI [of _ FD'], rule exI [of _ I'], rule exI [of _ x], simp add: reached_def)
qed

section \<open>Bytes of a block\<close>

definition at_byte :: "lflcblk \<Rightarrow> int list \<Rightarrow> bool" where
  "at_byte cb D \<longleftrightarrow> lfbyte cb = 512 \<or> lfbyte cb = lfpos cb mod 512 \<and> lfpos cb div 512 < int (length D) \<and> lfdnum cb = D ! nat (lfpos cb div 512)"

lemma fcore_mutex [simp]: "fcore ni ds d dir (cb\<lparr>lfmutex := m\<rparr>) FI FD I D cs = fcore ni ds d dir cb FI FD I D cs"
proof -
  have "vib d (cb\<lparr>lfmutex := m\<rparr>) = vib d cb" "vdb d (cb\<lparr>lfmutex := m\<rparr>) = vdb d cb" by (rule ext, simp add: vib_def vdb_def)+
  then show ?thesis by (simp add: fcore_def cb_ok_def)
qed

lemma at_byte_mutex [simp]: "at_byte (cb\<lparr>lfmutex := m\<rparr>) D = at_byte cb D"
  by (simp add: at_byte_def)

lemma fcore_dirty:
  assumes "fcore ni ds d dir cb FI FD I D cs" "lfdnum cb \<in> set D"
  shows "fcore ni ds d dir (cb\<lparr>lfdbdirty := True\<rparr>) FI FD I D cs"
  by (rule fcore_disk [OF assms(1)]) (use fcoreD [OF assms(1)] assms(2) in \<open>auto simp: vib_def vdb_def cb_ok_def\<close>)

text \<open>The call of \<open>lfsetup\<close> in \<open>lflgetc\<close> and \<open>lflputc\<close>.\<close>

definition load_byte :: "int \<Rightarrow> lfs \<Rightarrow> lfs option" where
  "load_byte f s = (if lfbyte (lfltab s f) \<ge> 512 then Option.bind (lfsetup f s) (\<lambda>(r, s). Some s) else Some s)"

lemma pos_lt: "0 \<le> p \<Longrightarrow> p < 512 * int n \<longleftrightarrow> p div 512 < int n"
  by auto

lemma load_byte_in:
  assumes core: "fcore ni ds d dir cb FI FD I D cs" and m: "0 < lf_mutex s" and j: "lfpos cb div 512 < int (length D)" and at: "at_byte cb D"
  shows "\<exists>d' b' cb'. load_byte f (st s f d dir b cb) = Some (st s f d' dir b' cb') \<and> fcore ni ds d' dir cb' FI FD I D cs
    \<and> kept ni ds (set FI \<union> set I) (set FD \<union> set D) (nat (lfdirptr cb)) d dir d' dir \<and> same_cb cb cb'
    \<and> lfbyte cb' = lfpos cb mod 512 \<and> lfdnum cb' = D ! nat (lfpos cb div 512)
    \<and> (b \<or> sector d 0 = enc_dir dir \<longrightarrow> b' \<or> sector d' 0 = enc_dir dir)"
proof (cases "lfbyte cb = 512")
  case True
  from lfsetup_load [OF core m j, of f b] obtain d' b' cb' where
    "lfsetup f (st s f d dir b cb) = Some (OK, st s f d' dir b' cb')" "fcore ni ds d' dir cb' FI FD I D cs"
    "kept ni ds (set FI \<union> set I) (set FD \<union> set D) (nat (lfdirptr cb)) d dir d' dir" "same_cb cb cb'"
    "lfbyte cb' = lfpos cb mod 512" "lfdnum cb' = D ! nat (lfpos cb div 512)"
    "b \<or> sector d 0 = enc_dir dir \<longrightarrow> b' \<or> sector d' 0 = enc_dir dir" by blast
  then show ?thesis using True by - (rule exI [of _ d'], rule exI [of _ b'], rule exI [of _ cb'], simp add: load_byte_def)
next
  case False
  then have "lfbyte cb = lfpos cb mod 512" "lfdnum cb = D ! nat (lfpos cb div 512)" using at by (auto simp: at_byte_def)
  moreover from this(1) have "lfbyte cb < 512" by simp
  then have "load_byte f (st s f d dir b cb) = Some (st s f d dir b cb)" by (simp add: load_byte_def)
  ultimately show ?thesis using core by - (rule exI [of _ d], rule exI [of _ b], rule exI [of _ cb], simp add: same_cb_def)
qed

lemma in_D:
  assumes "0 \<le> p" "p div 512 < int (length D)"
  shows "nat (p div 512) < length D" "D ! nat (p div 512) \<in> set D"
  using assms by (auto simp: nat_less_iff pos_imp_zdiv_nonneg_iff)

lemma load_byte_put:
  assumes core: "fcore ni ds d dir cb FI FD I D cs" and m: "0 < lf_mutex s" and at: "at_byte cb D"
    and room: "lfpos cb < 512 * int (length FD + length D)" "lfpos cb < 8192 * int (length FI + length I)"
  shows "\<exists>d' dir' b' cb' FI' FD' I' D'. load_byte f (st s f d dir b cb) = Some (st s f d' dir' b' cb')
    \<and> fcore ni ds d' dir' (cb'\<lparr>lfdbdirty := True\<rparr>) FI' FD' I' D' cs
    \<and> kept ni ds (set FI \<union> set I) (set FD \<union> set D) (nat (lfdirptr cb)) d dir d' dir' \<and> same_cb cb cb'
    \<and> set FI' \<union> set I' = set FI \<union> set I \<and> set FD' \<union> set D' = set FD \<union> set D
    \<and> lfpos cb div 512 < int (length D') \<and> lfbyte cb' = lfpos cb mod 512 \<and> lfdnum cb' = D' ! nat (lfpos cb div 512)
    \<and> (lfpos cb < int (length cs) \<and> (b \<or> sector d 0 = enc_dir dir) \<longrightarrow> b' \<or> sector d' 0 = enc_dir dir')"
proof (cases "lfpos cb div 512 < int (length D)")
  case True
  from load_byte_in [OF core m True at, of f b] obtain d' b' cb' where
    1: "load_byte f (st s f d dir b cb) = Some (st s f d' dir b' cb')" "fcore ni ds d' dir cb' FI FD I D cs"
    "kept ni ds (set FI \<union> set I) (set FD \<union> set D) (nat (lfdirptr cb)) d dir d' dir" "same_cb cb cb'"
    "lfbyte cb' = lfpos cb mod 512" "lfdnum cb' = D ! nat (lfpos cb div 512)"
    "b \<or> sector d 0 = enc_dir dir \<longrightarrow> b' \<or> sector d' 0 = enc_dir dir" by blast
  have "lfdnum cb' \<in> set D" using in_D(2) [OF fcoreD(9) [OF core] True] 1(6) by simp
  from fcore_dirty [OF 1(2) this] 1 True show ?thesis
    by - (rule exI [of _ d'], rule exI [of _ dir], rule exI [of _ b'], rule exI [of _ cb'], rule exI [of _ FI], rule exI [of _ FD], rule exI [of _ I], rule exI [of _ D], simp, blast)
next
  case False
  then have b: "lfbyte cb = 512" using at by (simp add: at_byte_def)
  have j: "lfpos cb div 512 = int (length D)" using False fcore_pos [OF core] by simp
  have "length FD \<noteq> 0" using False room(1) fcoreD(9) [OF core] pos_lt by fastforce
  then have fd: "FD \<noteq> []" by simp
  have fi: "FI \<noteq> [] \<or> lfpos cb div 8192 < int (length I)"
  proof (cases "FI = []")
    case True
    then have "lfpos cb div 8192 < int (length I)" using room(2) by auto
    then show ?thesis ..
  qed simp
  from lfsetup_extend [OF core m j fd fi, of f b] obtain d' dir' b' cb' FI' FD' I' x where
    1: "lfsetup f (st s f d dir b cb) = Some (OK, st s f d' dir' b' cb')"
    "fcore ni ds d' dir' (cb'\<lparr>lfdbdirty := True\<rparr>) FI' FD' I' (D @ [x]) cs"
    "kept ni ds (set FI \<union> set I) (set FD \<union> set D) (nat (lfdirptr cb)) d dir d' dir'" "same_cb cb cb'"
    "set FI' \<union> set I' = set FI \<union> set I" "set FD' \<union> set (D @ [x]) = set FD \<union> set D"
    "lfbyte cb' = lfpos cb mod 512" "lfdnum cb' = x" by blast
  have "\<not> lfpos cb < int (length cs)" using j stored_len [OF fcoreD(7) [OF core]] by auto
  then show ?thesis using 1 b j
    by - (rule exI [of _ d'], rule exI [of _ dir'], rule exI [of _ b'], rule exI [of _ cb'], rule exI [of _ FI'], rule exI [of _ FD'], rule exI [of _ I'], rule exI [of _ "D @ [x]"], simp add: load_byte_def)
qed

text \<open>A byte is stored in the block in memory, and at the end of the file its size grows.\<close>

definition put_at :: "8 word list \<Rightarrow> nat \<Rightarrow> 8 word \<Rightarrow> 8 word list" where
  "put_at cs p c = take p cs @ c # drop (Suc p) cs"

lemma put_at_simps: "p \<le> length cs \<Longrightarrow> length (put_at cs p c) = max (length cs) (Suc p)"
  "p \<le> length cs \<Longrightarrow> q < length (put_at cs p c) \<Longrightarrow> put_at cs p c ! q = (if q = p then c else cs ! q)"
  by (auto simp: put_at_def nth_append min_def nth_Cons')

lemma stored_put:
  assumes f: "stored g h e I D cs" and p: "p \<le> length cs" "p div 512 < length D" and dist: "distinct D"
    and h': "\<And>d. d \<in> set D \<Longrightarrow> h' d = (if d = D ! (p div 512) then (h d)[p mod 512 := c] else h d)"
    and g': "\<And>n. n \<in> set I \<Longrightarrow> g' n = g n"
    and e: "ld_size e' = int (max (length cs) (Suc p))" "ld_ilist e' = ld_ilist e"
  shows "stored g' h' e' I D (put_at cs p c)"
proof -
  have ch: "chain (\<lambda>n. ib_next (g' n)) (ld_ilist e') I"
    using f e(2) chain_cong [of I "\<lambda>n. ib_next (g' n)" "\<lambda>n. ib_next (g n)"] g' by (simp add: stored_def)
  have "p < 512 * length D" using p(2) by linarith
  then have len: "length (put_at cs p c) \<le> 512 * length D" using put_at_simps(1) [OF p(1)] stored_len [OF f] by simp
  have nth: "h' (D ! (q div 512)) ! (q mod 512) = put_at cs p c ! q" if q: "q < length (put_at cs p c)" for q
  proof -
    have qd: "q div 512 < length D" using q len by auto
    then have eq: "D ! (q div 512) = D ! (p div 512) \<longleftrightarrow> q div 512 = p div 512" using p(2) dist by (simp add: nth_eq_iff_index_eq)
    have l: "length (h (D ! (q div 512))) = 512" by (rule stored_db [OF f]) (use qd in simp)
    have pq: "q = p \<longleftrightarrow> q div 512 = p div 512 \<and> q mod 512 = p mod 512" by (metis div_mult_mod_eq)
    have "q \<noteq> p \<Longrightarrow> q < length cs" using q put_at_simps(1) [OF p(1)] p(1) by auto
    then have "q \<noteq> p \<Longrightarrow> h (D ! (q div 512)) ! (q mod 512) = cs ! q" using f by (simp add: stored_def)
    then show ?thesis using h' [of "D ! (q div 512)"] qd eq l pq put_at_simps(2) [OF p(1) q] by auto
  qed
  show ?thesis unfolding stored_def
  proof (intro conjI allI impI ballI)
    show "ld_size e' = int (length (put_at cs p c))" using e(1) put_at_simps(1) [OF p(1)] by simp
    show "length (h' m) = 512" if "m \<in> set D" for m using h' [OF that] stored_db [OF f that] by auto
  qed (use f g' ch len nth in \<open>auto simp: stored_def\<close>)
qed

lemma at_byte_step:
  assumes "lfbyte cb = int (p mod 512) + 1" "lfpos cb = int (Suc p)" "lfdnum cb = D ! (p div 512)" "p div 512 < length D"
  shows "at_byte cb D"
proof (cases "p mod 512 = 511")
  case True
  then show ?thesis using assms by (simp add: at_byte_def)
next
  case False
  then have "Suc p mod 512 = Suc (p mod 512)" "Suc p div 512 = p div 512" by (auto simp: mod_Suc div_Suc)
  moreover have "int (Suc p) mod 512 = int (Suc p mod 512)" "int (Suc p) div 512 = int (Suc p div 512)"
    using zmod_int [of "Suc p" 512] zdiv_int [of "Suc p" 512] by simp_all
  ultimately show ?thesis using assms unfolding at_byte_def by (simp del: of_nat_Suc add: nat_less_iff)
qed

lemma stored_byte: "stored g h e I D cs \<Longrightarrow> p < length cs \<Longrightarrow> h (D ! (p div 512)) ! (p mod 512) = cs ! p"
  by (simp add: stored_def)

lemma put_byte:
  assumes core: "fcore ni ds d dir (cb\<lparr>lfdbdirty := True\<rparr>) FI FD I D cs" and p: "lfpos cb = int p" "p div 512 < length D"
    and b: "lfbyte cb = int (p mod 512)" "lfdnum cb = D ! (p div 512)"
    and dir': "dir' = (if p = length cs then dir\<lparr>lfd_files := (lfd_files dir)[nat (lfdirptr cb) := (mine dir cb)\<lparr>ld_size := u32 (ld_size (mine dir cb) + 1)\<rparr>]\<rparr> else dir)"
    and cb': "cb' = cb\<lparr>lfdblock := (lfdblock cb)[p mod 512 := c], lfbyte := int (p mod 512) + 1, lfpos := u32 (int p + 1), lfdbdirty := True\<rparr>"
  shows "fcore ni ds d dir' cb' FI FD I D (put_at cs p c)" "at_byte cb' D" "lfpos cb' = int (Suc p)"
    "kept ni ds X Y (nat (lfdirptr cb)) d dir d dir'"
proof -
  note f = fcoreD [OF core] and B = blocksD [OF fcoreD(5) [OF core]]
  have pl: "p \<le> length cs" using f(10) p(1) by simp
  have "length cs \<le> 512 * length D" "length D \<le> 200" using stored_len [OF f(7)] length_D [OF f(5,1)] by auto
  then have small: "length cs \<le> 102400" by simp
  have size: "ld_size (mine dir cb) = int (length cs)" using f(7) by (simp add: stored_def)
  have pos: "u32 (int p + 1) = int (Suc p)" using pl small by simp
  then show pos': "lfpos cb' = int (Suc p)" using cb' by simp
  have sz: "u32 (int (length cs) + 1) = int (length cs) + 1" using small by simp
  have eold: "ok_lde (mine dir cb)" using ok_dir_lde [OF f(2), of "nat (lfdirptr cb)"] f(3,4) by (simp add: mine_def)
  have "ok_lde ((mine dir cb)\<lparr>ld_size := int (length cs) + 1\<rparr>)" using eold small by (simp add: ok_lde_def)
  then have ok: "ok_dir dir'" using dir' f(2) ok_dir_upd [OF f(2)] size sz by auto
  have i: "nat (lfdirptr cb) < length (lfd_files dir)" using f(2-4) by (simp add: ok_dir_def nat_less_iff)
  have me: "mine dir' cb' = (if p = length cs then (mine dir cb)\<lparr>ld_size := int (length cs) + 1\<rparr> else mine dir cb)"
    using dir' cb' i size sz by (simp add: mine_def)
  have "stored (vib d cb') (vdb d cb') (mine dir' cb') I D (put_at cs p c)"
  proof (rule stored_put [OF f(7) pl p(2) B(4)])
    show "vdb d cb' k = (if k = D ! (p div 512) then (vdb d (cb\<lparr>lfdbdirty := True\<rparr>) k)[p mod 512 := c] else vdb d (cb\<lparr>lfdbdirty := True\<rparr>) k)"
      if "k \<in> set D" for k using b(2) cb' by (simp add: vdb_def)
    show "vib d cb' n = vib d (cb\<lparr>lfdbdirty := True\<rparr>) n" if "n \<in> set I" for n using cb' by (simp add: vib_def)
  qed (use me size pl in auto)
  moreover have "free_ok d dir' FI FD" using f(6) dir' by (simp add: free_ok_def)
  moreover have "cb_ok d cb' I D" using f(8) b(2) p(2) cb' by (simp add: cb_ok_def)
  ultimately show "fcore ni ds d dir' cb' FI FD I D (put_at cs p c)"
    using f ok pos' put_at_simps(1) [OF pl, of c] cb' by (simp add: fcore_def)
  show "at_byte cb' D" by (rule at_byte_step [of _ p]) (use p(2) b(2) pos' cb' in simp_all)
  show "kept ni ds X Y (nat (lfdirptr cb)) d dir d dir'"
    using dir' i by (auto simp: kept_def mine_def nth_list_update)
qed

section \<open>An open file\<close>

text \<open>\<open>X\<close> and \<open>Y\<close> are the index and data blocks the file has or can get, \<open>p\<close> is the position.\<close>

definition opened :: "int \<Rightarrow> int \<Rightarrow> int \<Rightarrow> int set \<Rightarrow> int set \<Rightarrow> lfs \<Rightarrow> 8 word list \<Rightarrow> nat \<Rightarrow> bool" where
  "opened ni ds f X Y s cs p \<longleftrightarrow> (\<exists>FI FD I D. fcore ni ds (ram s) (lf_dir s) (lfltab s f) FI FD I D cs
       \<and> set FI \<union> set I = X \<and> set FD \<union> set D = Y \<and> at_byte (lfltab s f) D)
     \<and> lfpos (lfltab s f) = int p \<and> 0 < lf_mutex s \<and> 0 < lfmutex (lfltab s f)
     \<and> (lf_dirdirty s \<or> sector (ram s) 0 = enc_dir (lf_dir s))"

text \<open>The same for a file whose directory entry may be lost.\<close>

definition opened0 :: "int \<Rightarrow> int \<Rightarrow> int \<Rightarrow> int set \<Rightarrow> int set \<Rightarrow> lfs \<Rightarrow> 8 word list \<Rightarrow> nat \<Rightarrow> bool" where
  "opened0 ni ds f X Y s cs p \<longleftrightarrow> (\<exists>FI FD I D. fcore ni ds (ram s) (lf_dir s) (lfltab s f) FI FD I D cs
       \<and> set FI \<union> set I = X \<and> set FD \<union> set D = Y \<and> at_byte (lfltab s f) D)
     \<and> lfpos (lfltab s f) = int p \<and> 0 < lf_mutex s \<and> 0 < lfmutex (lfltab s f)"

definition synced :: "lfs \<Rightarrow> bool" where
  "synced s \<longleftrightarrow> lf_dirdirty s \<or> sector (ram s) 0 = enc_dir (lf_dir s)"

lemma opened_iff: "opened ni ds f X Y s cs p \<longleftrightarrow> opened0 ni ds f X Y s cs p \<and> synced s"
  by (auto simp: opened_def opened0_def synced_def)

definition same_id :: "lflcblk \<Rightarrow> lflcblk \<Rightarrow> bool" where
  "same_id cb cb' \<longleftrightarrow> lfdirptr cb' = lfdirptr cb \<and> lfmutex cb' = lfmutex cb \<and> lfname cb' = lfname cb
     \<and> lfdev cb' = lfdev cb \<and> lfmode cb' = lfmode cb"

text \<open>What an operation on the file \<open>f\<close> does not change.\<close>

definition frame :: "int \<Rightarrow> int \<Rightarrow> int \<Rightarrow> int set \<Rightarrow> int set \<Rightarrow> lfs \<Rightarrow> lfs \<Rightarrow> bool" where
  "frame ni ds f X Y s s' \<longleftrightarrow> kept ni ds X Y (nat (lfdirptr (lfltab s f))) (ram s) (lf_dir s) (ram s') (lf_dir s')
     \<and> (\<forall>g. g \<noteq> f \<longrightarrow> lfltab s' g = lfltab s g) \<and> same_id (lfltab s f) (lfltab s' f)
     \<and> lf_mutex s' = lf_mutex s \<and> lf_dirpresent s' = lf_dirpresent s \<and> junk s' = junk s"

lemma frame_refl [simp]: "frame ni ds f X Y s s"
  by (simp add: frame_def same_id_def)

lemma frame_trans: "frame ni ds f X Y s s' \<Longrightarrow> frame ni ds f X Y s' s'' \<Longrightarrow> frame ni ds f X Y s s''"
  unfolding frame_def same_id_def by (auto intro: kept_trans)

lemma frame_st: "kept ni ds X Y (nat (lfdirptr (lfltab s f))) (ram s) (lf_dir s) d' dir' \<Longrightarrow> same_id (lfltab s f) cb'
    \<Longrightarrow> frame ni ds f X Y s (st s f d' dir' b' cb')"
  by (simp add: frame_def st_other)

text \<open>The lock of the file.\<close>

lemma file_wait_st: "0 < lfmutex (lfltab s f) \<Longrightarrow> file_wait f s = Some (st s f (ram s) (lf_dir s) (lf_dirdirty s) ((lfltab s f)\<lparr>lfmutex := lfmutex (lfltab s f) - 1\<rparr>))"
  by (simp add: file_wait_def mtake_def setcb_def st_def)

lemma file_signal_st [simp]: "file_signal f (st s f d dir b cb) = st s f d dir b (cb\<lparr>lfmutex := lfmutex cb + 1\<rparr>)"
  by (simp add: file_signal_def)

lemma and_byte: "255 AND uint (c :: 8 word) = uint c"
proof -
  have m: "(255 :: int) = mask 8" by (simp add: mask_eq_exp_minus_1)
  have "255 AND uint c = take_bit 8 (uint c)" unfolding m take_bit_eq_mask by (rule and.commute)
  then show ?thesis using unsigned_less [where 'a = int, of c] by (simp add: take_bit_eq_mod)
qed

lemma lflgetc_ok:
  assumes "opened ni ds f X Y s cs p" "p < length cs"
  shows "\<exists>s'. lflgetc f s = Some (uint (cs ! p), s') \<and> opened ni ds f X Y s' cs (Suc p) \<and> frame ni ds f X Y s s' \<and> umem s' = umem s"
proof -
  define cb where "cb = lfltab s f"
  let ?cb0 = "cb\<lparr>lfmutex := lfmutex cb - 1\<rparr>"
  from assms(1) obtain FI FD I D where core: "fcore ni ds (ram s) (lf_dir s) cb FI FD I D cs" and X: "set FI \<union> set I = X" "set FD \<union> set D = Y"
    and at: "at_byte cb D" and p: "lfpos cb = int p" and m: "0 < lf_mutex s" "0 < lfmutex cb"
    and sync: "lf_dirdirty s \<or> sector (ram s) 0 = enc_dir (lf_dir s)" unfolding opened_def cb_def by blast
  note f = fcoreD [OF core]
  have core0: "fcore ni ds (ram s) (lf_dir s) ?cb0 FI FD I D cs" and at0: "at_byte ?cb0 D" using core at by simp_all
  have pd: "p div 512 < length D" using stored_len [OF f(7)] assms(2) by auto
  then have j: "lfpos ?cb0 div 512 < int (length D)" using p by auto
  from load_byte_in [OF core0 m(1) j at0, of f "lf_dirdirty s"] obtain d' b' cb' where
    1: "load_byte f (st s f (ram s) (lf_dir s) (lf_dirdirty s) ?cb0) = Some (st s f d' (lf_dir s) b' cb')"
    "fcore ni ds d' (lf_dir s) cb' FI FD I D cs"
    "kept ni ds (set FI \<union> set I) (set FD \<union> set D) (nat (lfdirptr ?cb0)) (ram s) (lf_dir s) d' (lf_dir s)" "same_cb ?cb0 cb'"
    "lfbyte cb' = lfpos ?cb0 mod 512" "lfdnum cb' = D ! nat (lfpos ?cb0 div 512)"
    "lf_dirdirty s \<or> sector (ram s) 0 = enc_dir (lf_dir s) \<longrightarrow> b' \<or> sector d' 0 = enc_dir (lf_dir s)" by blast
  note f' = fcoreD [OF 1(2)]
  have eqs: "lfbyte cb' = int (p mod 512)" "lfdnum cb' = D ! (p div 512)" "lfpos cb' = int p"
    using 1(4-6) p zmod_int [of p 512] zdiv_int [of p 512] by (simp_all add: same_cb_def nat_div_distrib)
  have byte: "lfdblock cb' ! (p mod 512) = cs ! p"
    using stored_byte [OF f'(7) assms(2)] eqs(2) vdb_cur [of d' cb'] by (simp del: vdb_cur)
  have ld: "dirent (lfdirptr cb) (st s f (ram s) (lf_dir s) (lf_dirdirty s) ?cb0) = Some (mine (lf_dir s) cb)"
    using dirent_ok [OF f(2-4)] by (simp add: mine_def)
  have sz: "ld_size (mine (lf_dir s) cb) = int (length cs)" using f(7) by (simp add: stored_def)
  have "length cs \<le> 512 * length D" "length D \<le> 200" using stored_len [OF f(7)] length_D [OF f(5,1)] by auto
  then have pos: "u32 (int p + 1) = int (Suc p)" using assms(2) by simp
  let ?cb2 = "cb'\<lparr>lfbyte := int (p mod 512) + 1, lfpos := int (Suc p), lfmutex := lfmutex cb\<rparr>"
  have tail: "lflgetc f s = Some (uint (cs ! p), st s f d' (lf_dir s) b' ?cb2)"
    using 1(1,4) byte eqs ld sz assms(2) f(8) p m(2) pos and_byte
    by (simp add: lflgetc_def file_wait_st cb_def [symmetric] cb_ok_def load_byte_def same_cb_def del: of_nat_Suc)
  have "fcore ni ds d' (lf_dir s) ?cb2 FI FD I D cs"
    by (rule fcore_disk [OF 1(2)]) (use f' assms(2) in \<open>auto simp: vib_def vdb_def cb_ok_def\<close>)
  moreover have "at_byte ?cb2 D" by (rule at_byte_step [of _ p]) (use pd eqs in simp_all)
  ultimately have "opened ni ds f X Y (st s f d' (lf_dir s) b' ?cb2) cs (Suc p)"
    using X 1(7) sync m unfolding opened_def by auto
  moreover have "frame ni ds f X Y s (st s f d' (lf_dir s) b' ?cb2)"
    by (rule frame_st) (use 1(3,4) X in \<open>simp_all add: cb_def same_cb_def same_id_def\<close>)
  ultimately show ?thesis using tail by (intro exI [of _ "st s f d' (lf_dir s) b' ?cb2"]) simp
qed

lemma lflgetc_eof:
  assumes "opened ni ds f X Y s cs p" "p = length cs"
  shows "lflgetc f s = Some (EOF, s)"
proof -
  define cb where "cb = lfltab s f"
  from assms(1) obtain FI FD I D where core: "fcore ni ds (ram s) (lf_dir s) cb FI FD I D cs"
    and p: "lfpos cb = int p" and m: "0 < lfmutex cb" unfolding opened_def cb_def by blast
  note f = fcoreD [OF core]
  let ?cb0 = "cb\<lparr>lfmutex := lfmutex cb - 1\<rparr>"
  have "dirent (lfdirptr cb) (st s f (ram s) (lf_dir s) (lf_dirdirty s) ?cb0) = Some (mine (lf_dir s) cb)"
    using dirent_ok [OF f(2-4)] by (simp add: mine_def)
  moreover have "ld_size (mine (lf_dir s) cb) = int (length cs)" using f(7) by (simp add: stored_def)
  moreover have "st s f (ram s) (lf_dir s) (lf_dirdirty s) cb = s" using st_same by (simp add: cb_def)
  ultimately show ?thesis using assms(2) f(8) p m by (simp add: lflgetc_def file_wait_st cb_def [symmetric] cb_ok_def)
qed

lemma lengths_card:
  assumes "blocks_ok ni ds (FI @ I) (FD @ D)"
  shows "length FI + length I = card (set FI \<union> set I)" "length FD + length D = card (set FD \<union> set D)"
  using assms by (simp_all add: blocks_ok_def card_Un_disjoint distinct_card)

lemma lflputc_ok0:
  assumes "opened0 ni ds f X Y s cs p" "p < 512 * card Y" "p < 8192 * card X" "p < length cs \<Longrightarrow> synced s"
  shows "\<exists>s'. lflputc f c s = Some (OK, s') \<and> opened ni ds f X Y s' (put_at cs p c) (Suc p) \<and> frame ni ds f X Y s s' \<and> umem s' = umem s"
proof -
  define cb where "cb = lfltab s f"
  let ?cb0 = "cb\<lparr>lfmutex := lfmutex cb - 1\<rparr>"
  from assms(1) obtain FI FD I D where core: "fcore ni ds (ram s) (lf_dir s) cb FI FD I D cs" and X: "set FI \<union> set I = X" "set FD \<union> set D = Y"
    and at: "at_byte cb D" and p: "lfpos cb = int p" and m: "0 < lf_mutex s" "0 < lfmutex cb"
    unfolding opened0_def cb_def by blast
  note f = fcoreD [OF core]
  have core0: "fcore ni ds (ram s) (lf_dir s) ?cb0 FI FD I D cs" and at0: "at_byte ?cb0 D" using core at by simp_all
  have room: "lfpos ?cb0 < 512 * int (length FD + length D)" "lfpos ?cb0 < 8192 * int (length FI + length I)"
    using assms(2,3) lengths_card [OF f(5)] X p by simp_all
  from load_byte_put [OF core0 m(1) at0 room, of f "lf_dirdirty s"] obtain d' dir1 b' cb' FI' FD' I' D' where
    1: "load_byte f (st s f (ram s) (lf_dir s) (lf_dirdirty s) ?cb0) = Some (st s f d' dir1 b' cb')"
    "fcore ni ds d' dir1 (cb'\<lparr>lfdbdirty := True\<rparr>) FI' FD' I' D' cs"
    "kept ni ds (set FI \<union> set I) (set FD \<union> set D) (nat (lfdirptr ?cb0)) (ram s) (lf_dir s) d' dir1" "same_cb ?cb0 cb'"
    "set FI' \<union> set I' = set FI \<union> set I" "set FD' \<union> set D' = set FD \<union> set D"
    "lfpos ?cb0 div 512 < int (length D')" "lfbyte cb' = lfpos ?cb0 mod 512" "lfdnum cb' = D' ! nat (lfpos ?cb0 div 512)"
    "lfpos ?cb0 < int (length cs) \<and> (lf_dirdirty s \<or> sector (ram s) 0 = enc_dir (lf_dir s)) \<longrightarrow> b' \<or> sector d' 0 = enc_dir dir1" by blast
  note f' = fcoreD [OF 1(2)]
  have eqs: "lfbyte cb' = int (p mod 512)" "lfdnum cb' = D' ! (p div 512)" "lfpos cb' = int p" "p div 512 < length D'"
    using 1(4,7-9) p zmod_int [of p 512] zdiv_int [of p 512] by (simp_all add: same_cb_def nat_div_distrib)
  have pl: "p \<le> length cs" using f(10) p by simp
  define dir2 where "dir2 = (if p = length cs then dir1\<lparr>lfd_files := (lfd_files dir1)[nat (lfdirptr cb') := (mine dir1 cb')\<lparr>ld_size := u32 (ld_size (mine dir1 cb') + 1)\<rparr>]\<rparr> else dir1)"
  define cb2 where "cb2 = cb'\<lparr>lfdblock := (lfdblock cb')[p mod 512 := c], lfbyte := int (p mod 512) + 1, lfpos := u32 (int p + 1), lfdbdirty := True\<rparr>"
  note put = put_byte [OF 1(2) eqs(3,4,1,2) dir2_def cb2_def]
  have ld: "dirent (lfdirptr cb) (st s f (ram s) (lf_dir s) (lf_dirdirty s) ?cb0) = Some (mine (lf_dir s) cb)"
    using dirent_ok [OF f(2-4)] by (simp add: mine_def)
  have sz: "ld_size (mine (lf_dir s) cb) = int (length cs)" "ld_size (mine dir1 cb') = int (length cs)" using f(7) f'(7) by (simp_all add: stored_def)
  have r: "0 \<le> lfdirptr cb'" "lfdirptr cb' < 20" using f'(3,4) by simp_all
  have ld1: "dirent (lfdirptr cb') (st s f d' dir1 b' cb') = Some (mine dir1 cb')"
    using dirent_ok [OF f'(2) r] by (simp add: mine_def)
  note up = upd_dirent_ok [OF f'(2) r, folded mine_def]
  define s2 where "s2 = st s f d' dir2 (p = length cs \<or> b') (cb2\<lparr>lfmutex := lfmutex cb\<rparr>)"
  have run: "lflputc f c s = Some (OK, s2)"
    using 1(1,4) eqs ld ld1 sz pl f(8) p m(2) up
    by (simp add: lflputc_def file_wait_st cb_def [symmetric] cb_ok_def load_byte_def same_cb_def s2_def dir2_def cb2_def)
  have "fcore ni ds d' dir2 (cb2\<lparr>lfmutex := lfmutex cb\<rparr>) FI' FD' I' D' (put_at cs p c)" "at_byte (cb2\<lparr>lfmutex := lfmutex cb\<rparr>) D'"
    "lfpos (cb2\<lparr>lfmutex := lfmutex cb\<rparr>) = int (Suc p)" using put(1-3) by simp_all
  moreover have "p = length cs \<or> b' \<or> sector d' 0 = enc_dir dir2" using 1(10) assms(4) p pl by (auto simp: dir2_def synced_def)
  ultimately have "opened ni ds f X Y s2 (put_at cs p c) (Suc p)"
    using X 1(5,6) m unfolding opened_def s2_def by auto
  moreover have "frame ni ds f X Y s s2" unfolding s2_def
    by (rule frame_st) (use kept_trans [OF 1(3), of d' dir2] put(4) [of X Y] 1(4) X in \<open>simp_all add: cb_def same_cb_def same_id_def cb2_def\<close>)
  moreover have "umem s2 = umem s" by (simp add: s2_def)
  ultimately show ?thesis using run by blast
qed

lemma lflputc_ok:
  assumes "opened ni ds f X Y s cs p" "p < 512 * card Y" "p < 8192 * card X"
  shows "\<exists>s'. lflputc f c s = Some (OK, s') \<and> opened ni ds f X Y s' (put_at cs p c) (Suc p) \<and> frame ni ds f X Y s s' \<and> umem s' = umem s"
  using lflputc_ok0 [OF _ assms(2,3)] assms(1) by (simp add: opened_iff)

lemma opened_umem [simp]: "opened ni ds f X Y (s\<lparr>umem := m\<rparr>) cs p = opened ni ds f X Y s cs p"
  by (simp add: opened_def)

lemma frame_umem [simp]: "frame ni ds f X Y (s\<lparr>umem := m\<rparr>) s' = frame ni ds f X Y s s'"
  by (simp add: frame_def)

lemma opened_pos: "opened ni ds f X Y s cs p \<Longrightarrow> p \<le> length cs"
  unfolding opened_def using fcoreD(10) by fastforce

section \<open>Reading and writing many bytes\<close>

lemma lflread_loop_ok:
  assumes "opened ni ds f X Y s cs p" "0 \<le> numread"
  shows "\<exists>s'. lflread_loop n numread f buff s
        = Some (if n = 0 \<or> numread + int (min n (length cs - p)) \<noteq> 0 then numread + int (min n (length cs - p)) else EOF, s')
    \<and> opened ni ds f X Y s' cs (p + min n (length cs - p)) \<and> frame ni ds f X Y s s'
    \<and> umem s' = poke (umem s) buff (take n (drop p cs))"
  using assms
proof (induction n arbitrary: s numread buff p)
  case 0
  then show ?case by simp
next
  case (Suc n)
  show ?case
  proof (cases "p < length cs")
    case True
    from lflgetc_ok [OF Suc.prems(1) True] obtain s1 where
      1: "lflgetc f s = Some (uint (cs ! p), s1)" "opened ni ds f X Y s1 cs (Suc p)" "frame ni ds f X Y s s1" "umem s1 = umem s" by blast
    let ?s = "s1\<lparr>umem := (umem s1)(buff := cs ! p)\<rparr>"
    have "opened ni ds f X Y ?s cs (Suc p)" "0 \<le> numread + 1" using 1(2) Suc.prems(2) by simp_all
    from Suc.IH [OF this, of "buff + 1"] obtain s' where
      2: "lflread_loop n (numread + 1) f (buff + 1) ?s = Some (if n = 0 \<or> numread + 1 + int (min n (length cs - Suc p)) \<noteq> 0
          then numread + 1 + int (min n (length cs - Suc p)) else EOF, s')"
      "opened ni ds f X Y s' cs (Suc p + min n (length cs - Suc p))" "frame ni ds f X Y s1 s'"
      "umem s' = poke ((umem s1)(buff := cs ! p)) (buff + 1) (take n (drop (Suc p) cs))" by (auto simp del: fun_upd_apply)
    have "uint (cs ! p) \<noteq> SYSERR" "uint (cs ! p) \<noteq> EOF" using uint_nonnegative [of "cs ! p"] by linarith+
    moreover have "min (Suc n) (length cs - p) = Suc (min n (length cs - Suc p))" using True by auto
    moreover have "drop p cs = cs ! p # drop (Suc p) cs" using True by (simp add: Cons_nth_drop_Suc)
    moreover have "numread + 1 + int (min n (length cs - Suc p)) \<noteq> 0" using Suc.prems(2) by simp
    ultimately show ?thesis using 1 2 frame_trans [OF 1(3) 2(3)] and_byte [of "cs ! p"]
      by (intro exI [of _ s']) (simp add: ac_simps)
  next
    case False
    then have "p = length cs" using opened_pos [OF Suc.prems(1)] by simp
    from lflgetc_eof [OF Suc.prems(1) this] show ?thesis using \<open>p = length cs\<close> Suc.prems by simp
  qed
qed

lemma lflread_ok:
  assumes "opened ni ds f X Y s cs p" "0 \<le> n" "k = min (nat n) (length cs - p)"
  shows "\<exists>s'. lflread f buff n s = Some (if n = 0 \<or> k \<noteq> 0 then int k else EOF, s')
    \<and> opened ni ds f X Y s' cs (p + k) \<and> frame ni ds f X Y s s' \<and> umem s' = poke (umem s) buff (take (nat n) (drop p cs))"
  using lflread_loop_ok [OF assms(1), of 0 "nat n" buff] assms(2,3) by (auto simp: lflread_def nat_eq_iff split: if_splits)

definition write_at :: "8 word list \<Rightarrow> nat \<Rightarrow> 8 word list \<Rightarrow> 8 word list" where
  "write_at cs p ys = take p cs @ ys @ drop (p + length ys) cs"

lemma write_at_Cons: "p \<le> length cs \<Longrightarrow> write_at (put_at cs p c) (Suc p) ys = write_at cs p (c # ys)"
  by (simp add: write_at_def put_at_def min_def add.commute [of p])

lemma write_at_Nil [simp]: "write_at cs p [] = cs"
  by (simp add: write_at_def)

lemma lflwrite_loop_ok:
  assumes "opened ni ds f X Y s cs p" "p + n \<le> 512 * card Y" "p + n \<le> 8192 * card X"
  shows "\<exists>s'. lflwrite_loop n f buff s = Some (OK, s')
    \<and> opened ni ds f X Y s' (write_at cs p (mbytes (umem s) buff n)) (p + n) \<and> frame ni ds f X Y s s' \<and> umem s' = umem s"
  using assms
proof (induction n arbitrary: s buff p cs)
  case 0
  then show ?case by simp
next
  case (Suc n)
  have "p < 512 * card Y" "p < 8192 * card X" using Suc.prems(2,3) by simp_all
  from lflputc_ok [OF Suc.prems(1) this, of "umem s buff"] obtain s1 where
    1: "lflputc f (umem s buff) s = Some (OK, s1)" "opened ni ds f X Y s1 (put_at cs p (umem s buff)) (Suc p)"
      "frame ni ds f X Y s s1" "umem s1 = umem s" by blast
  from Suc.IH [OF 1(2), of "buff + 1"] Suc.prems(2,3) obtain s' where
    2: "lflwrite_loop n f (buff + 1) s1 = Some (OK, s')"
      "opened ni ds f X Y s' (write_at (put_at cs p (umem s buff)) (Suc p) (mbytes (umem s1) (buff + 1) n)) (Suc p + n)"
      "frame ni ds f X Y s1 s'" "umem s' = umem s1" by auto
  show ?case using 1 2 frame_trans [OF 1(3) 2(3)] write_at_Cons [OF opened_pos [OF Suc.prems(1)]]
    by (intro exI [of _ s']) (simp add: mbytes_Suc)
qed

lemma lflwrite_ok:
  assumes "opened ni ds f X Y s cs p" "0 \<le> n" "p + nat n \<le> 512 * card Y" "p + nat n \<le> 8192 * card X"
  shows "\<exists>s'. lflwrite f buff n s = Some (n, s')
    \<and> opened ni ds f X Y s' (write_at cs p (mbytes (umem s) buff (nat n))) (p + nat n) \<and> frame ni ds f X Y s s' \<and> umem s' = umem s"
  using lflwrite_loop_ok [OF assms(1,3,4), of buff] assms(2) by (auto simp: lflwrite_def)

section \<open>Seeking\<close>

lemma fcore_seek:
  assumes "fcore ni ds d dir cb FI FD I D cs" "q \<le> length cs"
  shows "fcore ni ds d dir (cb\<lparr>lfpos := int q, lfbyte := b\<rparr>) FI FD I D cs"
  by (rule fcore_disk [OF assms(1)]) (use fcoreD [OF assms(1)] assms(2) in \<open>auto simp: vib_def vdb_def cb_ok_def\<close>)

lemma lflseek_ok:
  assumes "opened ni ds f X Y s cs p" "0 \<le> q"
  shows "q \<le> int (length cs) \<Longrightarrow> \<exists>s'. lflseek f q s = Some (OK, s') \<and> opened ni ds f X Y s' cs (nat q) \<and> frame ni ds f X Y s s' \<and> umem s' = umem s"
    "q > int (length cs) \<Longrightarrow> lflseek f q s = Some (SYSERR, s)"
proof -
  define cb where "cb = lfltab s f"
  let ?cb0 = "cb\<lparr>lfmutex := lfmutex cb - 1\<rparr>"
  from assms(1) obtain FI FD I D where core: "fcore ni ds (ram s) (lf_dir s) cb FI FD I D cs" and X: "set FI \<union> set I = X" "set FD \<union> set D = Y"
    and m: "0 < lf_mutex s" "0 < lfmutex cb" and sync: "lf_dirdirty s \<or> sector (ram s) 0 = enc_dir (lf_dir s)" unfolding opened_def cb_def by blast
  note f = fcoreD [OF core]
  have ld: "dirent (lfdirptr cb) (st s f (ram s) (lf_dir s) (lf_dirdirty s) ?cb0) = Some (mine (lf_dir s) cb)"
    using dirent_ok [OF f(2-4)] by (simp add: mine_def)
  have sz: "ld_size (mine (lf_dir s) cb) = int (length cs)" using f(7) by (simp add: stored_def)
  have id: "st s f (ram s) (lf_dir s) (lf_dirdirty s) cb = s" using st_same by (simp add: cb_def)
  show "lflseek f q s = Some (SYSERR, s)" if "q > int (length cs)"
    using that ld sz id f(8) m by (simp add: lflseek_def file_wait_st cb_def [symmetric] cb_ok_def)
  assume q: "q \<le> int (length cs)"
  then have ql: "nat q \<le> length cs" by linarith
  let ?s = "st s f (ram s) (lf_dir s) (lf_dirdirty s) (cb\<lparr>lfpos := q, lfbyte := 512\<rparr>)"
  have eq: "cb\<lparr>lfmutex := lfmutex cb, lfpos := q, lfbyte := 512\<rparr> = cb\<lparr>lfpos := q, lfbyte := 512\<rparr>" by simp
  have "lflseek f q s = Some (OK, ?s)"
    using q ld sz f(8) m eq by (simp add: lflseek_def file_wait_st cb_def [symmetric] cb_ok_def)
  moreover have "opened ni ds f X Y ?s cs (nat q)"
    using fcore_seek [OF core ql, of 512] assms(2) X m sync unfolding opened_def by (auto simp: at_byte_def)
  moreover have "frame ni ds f X Y s ?s" by (rule frame_st) (simp_all add: cb_def same_id_def)
  ultimately show "\<exists>s'. lflseek f q s = Some (OK, s') \<and> opened ni ds f X Y s' cs (nat q) \<and> frame ni ds f X Y s s' \<and> umem s' = umem s"
    by (intro exI [of _ ?s]) simp
qed

section \<open>Closing\<close>

text \<open>When nothing is dirty the disk has it all.\<close>

lemma clean_stored:
  assumes core: "fcore ni ds d dir (clean cb) FI FD I D cs"
  shows "stored (iblk d) (sector d) (mine dir (clean cb)) I D cs"
proof (rule stored_cong [OF fcoreD(7) [OF core]])
  note f = fcoreD [OF core]
  show "iblk d n = vib d (clean cb) n" if "n \<in> set I" for n
    using f(8) that no_null(1) [OF f(1,5)] by (auto simp: cb_ok_def vib_def)
  show "sector d k = vdb d (clean cb) k" if "k \<in> set D" for k
    using f(8) that no_null(3) [OF f(1,5)] by (auto simp: cb_ok_def vdb_def)
qed

text \<open>A file on the disk.\<close>

definition closed :: "int \<Rightarrow> int \<Rightarrow> nat \<Rightarrow> int set \<Rightarrow> int set \<Rightarrow> bytes \<Rightarrow> lfdir \<Rightarrow> 8 word list \<Rightarrow> bool" where
  "closed ni ds i X Y d dir cs \<longleftrightarrow> (\<exists>FI FD I D. blocks_ok ni ds (FI @ I) (FD @ D) \<and> free_ok d dir FI FD
       \<and> stored (iblk d) (sector d) (lfd_files dir ! i) I D cs \<and> set FI \<union> set I = X \<and> set FD \<union> set D = Y)
     \<and> layout ni ds \<and> ok_dir dir \<and> i < 20"

lemma lflclose_ok:
  assumes "opened ni ds f X Y s cs p"
  shows "\<exists>s'. lflclose f s = Some (OK, s') \<and> lfstate (lfltab s' f) = LF_FREE \<and> \<not> lf_dirdirty s' \<and> umem s' = umem s
    \<and> closed ni ds (nat (lfdirptr (lfltab s f))) X Y (ram s') (lf_dir s') cs \<and> sector (ram s') 0 = enc_dir (lf_dir s') \<and> frame ni ds f X Y s s'"
proof -
  define cb where "cb = lfltab s f"
  let ?cb0 = "cb\<lparr>lfmutex := lfmutex cb - 1\<rparr>"
  from assms(1) obtain FI FD I D where core: "fcore ni ds (ram s) (lf_dir s) cb FI FD I D cs" and X: "set FI \<union> set I = X" "set FD \<union> set D = Y"
    and m: "0 < lf_mutex s" "0 < lfmutex cb" and sync: "lf_dirdirty s \<or> sector (ram s) 0 = enc_dir (lf_dir s)" unfolding opened_def cb_def by blast
  note f = fcoreD [OF core]
  have core0: "fcore ni ds (ram s) (lf_dir s) ?cb0 FI FD I D cs" using core by simp
  have "\<exists>d'. (if lf_dirdirty s \<or> lfdbdirty cb \<or> lfibdirty cb
        then Option.bind (lfflush f (st s f (ram s) (lf_dir s) (lf_dirdirty s) ?cb0)) (\<lambda>(r, s). Some s)
        else Some (st s f (ram s) (lf_dir s) (lf_dirdirty s) ?cb0)) = Some (st s f d' (lf_dir s) False (clean ?cb0))
      \<and> fcore ni ds d' (lf_dir s) (clean ?cb0) FI FD I D cs
      \<and> kept ni ds (set I) (set D) (nat (lfdirptr cb)) (ram s) (lf_dir s) d' (lf_dir s) \<and> sector d' 0 = enc_dir (lf_dir s)"
  proof (cases "lf_dirdirty s \<or> lfdbdirty cb \<or> lfibdirty cb")
    case True
    from lfflush_ok [OF core0, of f s "lf_dirdirty s" "nat (lfdirptr cb)"] show ?thesis using True sync by auto
  next
    case False
    then have eq: "clean ?cb0 = ?cb0" by (simp add: clean_id)
    show ?thesis unfolding eq using False core0 sync by (intro exI [of _ "ram s"]) simp
  qed
  then obtain d' where 1: "(if lf_dirdirty s \<or> lfdbdirty cb \<or> lfibdirty cb
        then Option.bind (lfflush f (st s f (ram s) (lf_dir s) (lf_dirdirty s) ?cb0)) (\<lambda>(r, s). Some s)
        else Some (st s f (ram s) (lf_dir s) (lf_dirdirty s) ?cb0)) = Some (st s f d' (lf_dir s) False (clean ?cb0))"
      "fcore ni ds d' (lf_dir s) (clean ?cb0) FI FD I D cs"
      "kept ni ds (set I) (set D) (nat (lfdirptr cb)) (ram s) (lf_dir s) d' (lf_dir s)" "sector d' 0 = enc_dir (lf_dir s)" by blast
  note f' = fcoreD [OF 1(2)]
  let ?s = "st s f d' (lf_dir s) False ((clean cb)\<lparr>lfstate := LF_FREE\<rparr>)"
  have eq: "(clean ?cb0)\<lparr>lfstate := LF_FREE, lfmutex := lfmutex cb\<rparr> = (clean cb)\<lparr>lfstate := LF_FREE\<rparr>"
    by (rule lflcblk.equality) (simp_all add: clean_def)
  have "lflclose f s = Some (OK, ?s)"
    using 1(1) f(8) m by (simp add: lflclose_def file_wait_st cb_def [symmetric] cb_ok_def eq)
  moreover have "stored (iblk d') (sector d') (lfd_files (lf_dir s) ! nat (lfdirptr cb)) I D cs"
    using clean_stored [OF 1(2)] by (simp add: mine_def)
  then have "closed ni ds (nat (lfdirptr cb)) X Y d' (lf_dir s) cs"
    using f'(1-6) X by (auto simp: closed_def nat_less_iff)
  moreover have "frame ni ds f X Y s ?s"
    by (rule frame_st) (use kept_mono [OF 1(3)] X in \<open>auto simp: cb_def same_id_def\<close>)
  ultimately show ?thesis using 1(4) by (intro exI [of _ ?s]) (simp add: cb_def)
qed

end
