(* ===== verification/LfsTrunc.thy ===== *)
theory LfsTrunc
  imports LfsFile
begin

text \<open>
  Truncation, \<open>lftruncate.c\<close>: every block of the file goes back to the free lists and the file is
  empty.
\<close>

section \<open>Freeing blocks\<close>

lemma chain_same: "chain nxt p xs \<Longrightarrow> (\<And>x. x \<in> set xs \<Longrightarrow> nxt' x = nxt x) \<Longrightarrow> chain nxt' p xs"
  by (simp add: chain_cong [of xs nxt' nxt])

lemma in_s32_small: "0 \<le> x \<Longrightarrow> x < 200 \<Longrightarrow> in_s32 x"
  by (simp add: in_s32_def)

lemma lfdbfree_ok:
  assumes lay: "layout ni ds" and ok: "ok_dir dir" and k: "ds \<le> k" "k < 200" and j: "length (junk s) = 508"
  shows "\<exists>d'. lfdbfree k (st s f d dir b cb) = Some (OK, st s f d' (dir\<lparr>lfd_dfree := k\<rparr>) b cb) \<and> ib_same ni d d'
    \<and> lf_nextdb (sector d' k) = lfd_dfree dir \<and> (\<forall>n. ds \<le> n \<and> n < 200 \<and> n \<noteq> k \<longrightarrow> sector d' n = sector d n)"
proof -
  let ?buf = "le32 (lfd_dfree dir) @ junk s"
  have "length ?buf = 512" using j by simp
  from dwrite_ok [OF lay k this, of s f d "dir\<lparr>lfd_dfree := k\<rparr>" b cb] obtain d1 where
    1: "dwrite ?buf k (st s f d (dir\<lparr>lfd_dfree := k\<rparr>) b cb) = Some (st s f d1 (dir\<lparr>lfd_dfree := k\<rparr>) b cb)" "ib_same ni d d1"
      "\<forall>n. ds \<le> n \<and> n < 200 \<longrightarrow> sector d1 n = (if n = k then ?buf else sector d n)" by blast
  have "in_s32 k" using k layout_ds [OF lay] by (intro in_s32_small) auto
  then have "ok_dir (dir\<lparr>lfd_dfree := k\<rparr>)" using ok_dir_free [OF ok] by blast
  from write_dir_ok [OF lay this, of s f d1 b cb] obtain d' where
    2: "write_dir (st s f d1 (dir\<lparr>lfd_dfree := k\<rparr>) b cb) = Some (st s f d' (dir\<lparr>lfd_dfree := k\<rparr>) b cb)" "ib_same ni d1 d'" "db_same ds d1 d'"
    by blast
  have "in_s32 (lfd_dfree dir)" using ok by (simp add: ok_dir_def)
  then have "lf_nextdb ?buf = lfd_dfree dir" by (simp add: lf_nextdb_def s32_u32)
  then show ?thesis using 1 2 k by (intro exI [of _ d']) (simp add: lfdbfree_def ib_same_def db_same_def)
qed

definition used :: "int list \<Rightarrow> int list" where
  "used ds = filter (\<lambda>k. k \<noteq> -1) ds"

lemma free_dbs_ok:
  assumes "layout ni ds" "ok_dir dir" "chain (\<lambda>k. lf_nextdb (sector d k)) (lfd_dfree dir) FD" "distinct (used xs @ FD)"
    and "set (used xs @ FD) \<subseteq> {ds..<200}" "length (junk s) = 508"
  shows "\<exists>d' q. free_dbs xs (st s f d dir b cb) = Some (st s f d' (dir\<lparr>lfd_dfree := q\<rparr>) b cb)
    \<and> chain (\<lambda>k. lf_nextdb (sector d' k)) q (rev (used xs) @ FD) \<and> ib_same ni d d' \<and> ok_dir (dir\<lparr>lfd_dfree := q\<rparr>)
    \<and> (\<forall>k. ds \<le> k \<and> k < 200 \<and> k \<notin> set (used xs) \<longrightarrow> sector d' k = sector d k)"
  using assms
proof (induction xs arbitrary: d dir FD)
  case Nil
  then show ?case by - (rule exI [of _ d], rule exI [of _ "lfd_dfree dir"], simp add: used_def ib_same_def)
next
  case (Cons x xs)
  show ?case
  proof (cases "x = -1")
    case True
    then have "used (x # xs) = used xs" by (simp add: used_def)
    then show ?thesis using Cons.IH [OF Cons.prems(1-3)] Cons.prems(4-6) True by simp
  next
    case False
    then have u: "used (x # xs) = x # used xs" by (simp add: used_def)
    have x: "ds \<le> x" "x < 200" "x \<notin> set FD" "x \<notin> set (used xs)" using Cons.prems(4,5) u by auto
    from lfdbfree_ok [OF Cons.prems(1,2) x(1,2) Cons.prems(6), of f d b cb] obtain d1 where
      1: "lfdbfree x (st s f d dir b cb) = Some (OK, st s f d1 (dir\<lparr>lfd_dfree := x\<rparr>) b cb)" "ib_same ni d d1"
        "lf_nextdb (sector d1 x) = lfd_dfree dir" "\<forall>n. ds \<le> n \<and> n < 200 \<and> n \<noteq> x \<longrightarrow> sector d1 n = sector d n" by blast
    have ok1: "ok_dir (dir\<lparr>lfd_dfree := x\<rparr>)" using ok_dir_free [OF Cons.prems(2)] x layout_ds [OF Cons.prems(1)] in_s32_small by simp
    have "chain (\<lambda>k. lf_nextdb (sector d1 k)) (lfd_dfree dir) FD"
      by (rule chain_same [OF Cons.prems(3)]) (use Cons.prems(5) 1(4) x(3) in fastforce)
    then have "chain (\<lambda>k. lf_nextdb (sector d1 k)) (lfd_dfree (dir\<lparr>lfd_dfree := x\<rparr>)) (x # FD)" using 1(3) False by simp
    from Cons.IH [OF Cons.prems(1) ok1 this _ _ Cons.prems(6)] obtain d' q where
      2: "free_dbs xs (st s f d1 (dir\<lparr>lfd_dfree := x\<rparr>) b cb) = Some (st s f d' (dir\<lparr>lfd_dfree := q\<rparr>) b cb)"
        "chain (\<lambda>k. lf_nextdb (sector d' k)) q (rev (used xs) @ x # FD)" "ib_same ni d1 d'" "ok_dir (dir\<lparr>lfd_dfree := q\<rparr>)"
        "\<forall>k. ds \<le> k \<and> k < 200 \<and> k \<notin> set (used xs) \<longrightarrow> sector d' k = sector d1 k" using Cons.prems(4,5) u by auto
    show ?thesis using 1 2 False u by - (rule exI [of _ d'], rule exI [of _ q], auto simp: ib_same_def)
  qed
qed

text \<open>The data blocks of an index block of a file.\<close>

lemma used_stored:
  assumes "stored g h e I D cs" "k < length I" "-1 \<notin> set D"
  shows "used (ib_dba (g (I ! k))) = take 16 (drop (16 * k) D)"
proof -
  have l: "length (ib_dba (g (I ! k))) = 16" using stored_ib [OF assms(1), of "I ! k"] assms(2) by (simp add: ok_ib_def)
  define n where "n = length D - 16 * k"
  have "ib_dba (g (I ! k)) = take 16 (drop (16 * k) D) @ replicate (16 - n) (-1)"
    by (rule nth_equalityI) (use l stored_dba [OF assms(1,2)] in \<open>auto simp: n_def nth_append min_def\<close>)
  moreover have "used (take 16 (drop (16 * k) D)) = take 16 (drop (16 * k) D)"
    unfolding used_def using assms(3) by (intro filter_True) (auto dest: in_set_takeD in_set_dropD)
  ultimately show ?thesis by (simp add: used_def)
qed

section \<open>The loop over the index blocks\<close>

lemma trunc_loop_ok:
  assumes "layout ni ds" "ok_dir dir" "in_s32 ifree" "ifree \<notin> set I"
    and "chain (\<lambda>n. ib_next (iblk d n)) p0 I" "chain (\<lambda>n. ib_next (iblk d n)) ifree FI" "distinct (I @ FI)" "set (I @ FI) \<subseteq> {0..<ni}"
    and "chain (\<lambda>k. lf_nextdb (sector d k)) (lfd_dfree dir) FD" "distinct (concat (map (\<lambda>n. used (ib_dba (iblk d n))) I) @ FD)"
    and "set (concat (map (\<lambda>n. used (ib_dba (iblk d n))) I) @ FD) \<subseteq> {ds..<200}" "\<And>n. n \<in> set I \<Longrightarrow> length (ib_dba (iblk d n)) = 16"
    and "length (junk s) = 508"
  shows "\<exists>d' q FD'. trunc_loop ifree (if p0 = -1 then ifree else p0) (st s f d dir b cb) = Some (st s f d' (dir\<lparr>lfd_dfree := q\<rparr>) b cb)
    \<and> chain (\<lambda>n. ib_next (iblk d' n)) (if p0 = -1 then ifree else p0) (I @ FI) \<and> chain (\<lambda>k. lf_nextdb (sector d' k)) q FD'
    \<and> distinct FD' \<and> set FD' = set (concat (map (\<lambda>n. used (ib_dba (iblk d n))) I)) \<union> set FD \<and> ok_dir (dir\<lparr>lfd_dfree := q\<rparr>)
    \<and> (\<forall>n. 0 \<le> n \<and> n < ni \<and> n \<notin> set I \<longrightarrow> iblk d' n = iblk d n)
    \<and> (\<forall>k. ds \<le> k \<and> k < 200 \<and> k \<notin> set FD' \<longrightarrow> sector d' k = sector d k)"
  using assms
proof (induction I arbitrary: d dir p0 FD)
  case Nil
  then have "p0 = -1" by simp
  moreover have "trunc_loop ifree ifree (st s f d dir b cb) = Some (st s f d dir b cb)" by (subst trunc_loop.simps) simp
  ultimately show ?case using Nil by - (rule exI [of _ d], rule exI [of _ "lfd_dfree dir"], rule exI [of _ FD], simp)
next
  case (Cons x I)
  let ?dba = "ib_dba (iblk d x)" and ?nx = "ib_next (iblk d x)"
  have p0: "p0 = x" "p0 \<noteq> -1" and ch: "chain (\<lambda>n. ib_next (iblk d n)) ?nx I" using Cons.prems(5) by simp_all
  have x: "0 \<le> x" "x < ni" "x \<notin> set I" "x \<notin> set FI" "x \<noteq> ifree" using Cons.prems(4,7,8) by auto
  have len: "length ?dba = 16" using Cons.prems(12) by simp
  have get: "lfibget x d = Some (iblk d x)" using lfibget_ok layout_sect [OF Cons.prems(1) x(1,2)] x(1) by simp
  have dd: "distinct (used ?dba @ FD)" "set (used ?dba @ FD) \<subseteq> {ds..<200}" using Cons.prems(10,11) by auto
  from free_dbs_ok [OF Cons.prems(1,2,9) dd Cons.prems(13), of f b cb] obtain d1 q1 where
    1: "free_dbs ?dba (st s f d dir b cb) = Some (st s f d1 (dir\<lparr>lfd_dfree := q1\<rparr>) b cb)"
      "chain (\<lambda>k. lf_nextdb (sector d1 k)) q1 (rev (used ?dba) @ FD)" "ib_same ni d d1" "ok_dir (dir\<lparr>lfd_dfree := q1\<rparr>)"
      "\<forall>k. ds \<le> k \<and> k < 200 \<and> k \<notin> set (used ?dba) \<longrightarrow> sector d1 k = sector d k" by blast
  let ?new = "\<lparr>ib_next = (if ?nx = -1 then ifree else ?nx), ib_offset = 0, ib_dba = map (\<lambda>_. -1) ?dba\<rparr>"
  have "ok_ib ?new" using len Cons.prems(3) in_s32_next(1) [of d x] by (simp add: ok_ib_def list_all_iff in_s32_def)
  from put_ib_ok [OF Cons.prems(1) x(1,2) this, of s f d1 "dir\<lparr>lfd_dfree := q1\<rparr>" b cb] obtain d2 where
    2: "put_ib x ?new (st s f d1 (dir\<lparr>lfd_dfree := q1\<rparr>) b cb) = Some (OK, st s f d2 (dir\<lparr>lfd_dfree := q1\<rparr>) b cb)" "db_same ds d1 d2"
      "\<forall>n. 0 \<le> n \<and> n < ni \<longrightarrow> iblk d2 n = (if n = x then ?new else iblk d1 n)" by blast
  have upd: "(iblk d x)\<lparr>ib_dba := map (\<lambda>_. -1) ?dba, ib_offset := 0, ib_next := (if ?nx = -1 then ifree else ?nx)\<rparr> = ?new" by simp
  have run1: "trunc_ib ifree x (st s f d dir b cb) = Some (if ?nx = -1 then ifree else ?nx, st s f d2 (dir\<lparr>lfd_dfree := q1\<rparr>) b cb)"
    unfolding trunc_ib_def st_simps get Option.bind.bind_lunit Let_def 1(1) upd using 2(1) by simp
  have ib2: "iblk d2 n = iblk d n" if "0 \<le> n" "n < ni" "n \<noteq> x" for n using 1(3) 2(3) that by (simp add: ib_same_def)
  have ib2': "iblk d2 n = iblk d n" if "n \<in> set I \<union> set FI" for n using that Cons.prems(8) x(3,4) by (intro ib2) auto
  have db2: "sector d2 k = sector d1 k" if "ds \<le> k" "k < 200" for k using 2(2) that by (simp add: db_same_def)
  have eqI: "map (\<lambda>n. used (ib_dba (iblk d2 n))) I = map (\<lambda>n. used (ib_dba (iblk d n))) I" using ib2' by simp
  have "chain (\<lambda>n. ib_next (iblk d2 n)) ?nx I" using ch ib2' chain_cong [of I "\<lambda>n. ib_next (iblk d2 n)" "\<lambda>n. ib_next (iblk d n)"] by simp
  moreover have "chain (\<lambda>n. ib_next (iblk d2 n)) ifree FI"
    using Cons.prems(6) ib2' chain_cong [of FI "\<lambda>n. ib_next (iblk d2 n)" "\<lambda>n. ib_next (iblk d n)"] by simp
  moreover have "chain (\<lambda>k. lf_nextdb (sector d2 k)) (lfd_dfree (dir\<lparr>lfd_dfree := q1\<rparr>)) (rev (used ?dba) @ FD)"
    by (simp, rule chain_same [OF 1(2)]) (use dd(2) db2 in fastforce)
  moreover have "distinct (concat (map (\<lambda>n. used (ib_dba (iblk d2 n))) I) @ rev (used ?dba) @ FD)" unfolding eqI using Cons.prems(10) by auto
  moreover have "set (concat (map (\<lambda>n. used (ib_dba (iblk d2 n))) I) @ rev (used ?dba) @ FD) \<subseteq> {ds..<200}" unfolding eqI using Cons.prems(11) by auto
  moreover have "ifree \<notin> set I" "distinct (I @ FI)" "set (I @ FI) \<subseteq> {0..<ni}" using Cons.prems(4,7,8) by auto
  moreover have "length (ib_dba (iblk d2 n)) = 16" if "n \<in> set I" for n using Cons.prems(12) ib2' that by simp
  ultimately have "\<exists>d' q FD'. trunc_loop ifree (if ?nx = -1 then ifree else ?nx) (st s f d2 (dir\<lparr>lfd_dfree := q1\<rparr>) b cb)
        = Some (st s f d' (dir\<lparr>lfd_dfree := q1, lfd_dfree := q\<rparr>) b cb)
      \<and> chain (\<lambda>n. ib_next (iblk d' n)) (if ?nx = -1 then ifree else ?nx) (I @ FI) \<and> chain (\<lambda>k. lf_nextdb (sector d' k)) q FD'
      \<and> distinct FD' \<and> set FD' = set (concat (map (\<lambda>n. used (ib_dba (iblk d2 n))) I)) \<union> set (rev (used ?dba) @ FD)
      \<and> ok_dir (dir\<lparr>lfd_dfree := q1, lfd_dfree := q\<rparr>) \<and> (\<forall>n. 0 \<le> n \<and> n < ni \<and> n \<notin> set I \<longrightarrow> iblk d' n = iblk d2 n)
      \<and> (\<forall>k. ds \<le> k \<and> k < 200 \<and> k \<notin> set FD' \<longrightarrow> sector d' k = sector d2 k)"
    by (intro Cons.IH [OF Cons.prems(1) 1(4) Cons.prems(3)] Cons.prems(13)) assumption+
  moreover have upd2: "dir\<lparr>lfd_dfree := q1, lfd_dfree := q\<rparr> = dir\<lparr>lfd_dfree := q\<rparr>" for q by simp
  ultimately obtain d' q FD' where 3: "trunc_loop ifree (if ?nx = -1 then ifree else ?nx) (st s f d2 (dir\<lparr>lfd_dfree := q1\<rparr>) b cb)
        = Some (st s f d' (dir\<lparr>lfd_dfree := q\<rparr>) b cb)"
      "chain (\<lambda>n. ib_next (iblk d' n)) (if ?nx = -1 then ifree else ?nx) (I @ FI)" "chain (\<lambda>k. lf_nextdb (sector d' k)) q FD'"
      "distinct FD'" "set FD' = set (concat (map (\<lambda>n. used (ib_dba (iblk d n))) I)) \<union> (set (used ?dba) \<union> set FD)"
      "ok_dir (dir\<lparr>lfd_dfree := q\<rparr>)" "\<forall>n. 0 \<le> n \<and> n < ni \<and> n \<notin> set I \<longrightarrow> iblk d' n = iblk d2 n"
      "\<forall>k. ds \<le> k \<and> k < 200 \<and> k \<notin> set FD' \<longrightarrow> sector d' k = sector d2 k" unfolding eqI upd2 set_append set_rev by blast
  have run: "trunc_loop ifree x (st s f d dir b cb) = Some (st s f d' (dir\<lparr>lfd_dfree := q\<rparr>) b cb)"
    using run1 3(1) x(5) by (subst trunc_loop.simps) simp
  have "ib_next (iblk d' x) = (if ?nx = -1 then ifree else ?nx)" using 3(7) 2(3) x(1-3) by simp
  then have "chain (\<lambda>n. ib_next (iblk d' n)) x (x # I @ FI)" using 3(2) p0 by simp
  moreover have "\<forall>n. 0 \<le> n \<and> n < ni \<and> n \<notin> set (x # I) \<longrightarrow> iblk d' n = iblk d n" using 3(7) ib2 by simp
  moreover have "\<forall>k. ds \<le> k \<and> k < 200 \<and> k \<notin> set FD' \<longrightarrow> sector d' k = sector d k" using 3(5,8) db2 1(5) by auto
  ultimately show ?case using run 3(3-6) p0
    by - (rule exI [of _ d'], rule exI [of _ q], rule exI [of _ FD'], auto)
qed

section \<open>lftruncate\<close>

lemma concat_blocks: "length D \<le> 16 * n \<Longrightarrow> concat (map (\<lambda>k. take 16 (drop (16 * k) D)) [0..<n]) = D"
proof -
  have "concat (map (\<lambda>k. take 16 (drop (16 * k) D)) [0..<n]) = take (16 * n) D" for n
  proof (induction n)
    case (Suc n)
    have "take (16 * Suc n) D = take (16 * n) D @ take 16 (drop (16 * n) D)" by (simp add: take_add add.commute [of 16])
    then show ?case using Suc by simp
  qed simp
  then show "length D \<le> 16 * n \<Longrightarrow> concat (map (\<lambda>k. take 16 (drop (16 * k) D)) [0..<n]) = D" by simp
qed

lemma concat_used:
  assumes "stored g h e I D cs" "-1 \<notin> set D"
  shows "concat (map (\<lambda>n. used (ib_dba (g n))) I) = D"
proof -
  have "map (\<lambda>n. used (ib_dba (g n))) I = map (\<lambda>k. take 16 (drop (16 * k) D)) [0..<length I]"
    by (rule nth_equalityI) (use used_stored [OF assms(1) _ assms(2)] in simp_all)
  then show ?thesis using concat_blocks [of D "length I"] stored_len [OF assms(1)] by simp
qed

lemma lftruncate_ok:
  assumes core: "fcore ni ds d dir cb FI FD I D cs" and cs: "cs \<noteq> []" and j: "length (junk s) = 508"
  shows "\<exists>d' dir' cb' FD'. lftruncate f (st s f d dir b cb) = Some (OK, st s f d' dir' True cb')
    \<and> fcore ni ds d' dir' cb' (I @ FI) FD' [] [] [] \<and> set FD' = set FD \<union> set D \<and> same_id cb cb' \<and> lfpos cb' = 0 \<and> at_byte cb' []
    \<and> kept ni ds (set FI \<union> set I) (set FD \<union> set D) (nat (lfdirptr cb)) d dir d' dir'"
proof -
  note f0 = fcoreD [OF core]
  from maybe_flush [OF core, of f s b "nat (lfdirptr cb)"] obtain d1 b1 where
    1: "(if lfibdirty cb \<or> lfdbdirty cb then Option.bind (lfflush f (st s f d dir b cb)) (\<lambda>(r, s). Some s) else Some (st s f d dir b cb))
      = Some (st s f d1 dir b1 (clean cb))" "fcore ni ds d1 dir (clean cb) FI FD I D cs"
      "kept ni ds (set I) (set D) (nat (lfdirptr cb)) d dir d1 dir" by blast
  note f = fcoreD [OF 1(2)] and B = blocksD [OF fcoreD(5) [OF 1(2)]]
  note nn = no_null [OF f(1,5)]
  let ?e = "mine dir cb" and ?i = "nat (lfdirptr cb)"
  have me: "mine dir (clean cb) = ?e" by (simp add: mine_def)
  have st: "stored (iblk d1) (sector d1) ?e I D cs" using clean_stored [OF 1(2)] me by simp
  let ?cb = "(clean cb)\<lparr>lfpos := 0, lfinum := -1, lfdnum := -1, lfbyte := 512\<rparr>"
  let ?dir = "dir\<lparr>lfd_files := (lfd_files dir)[?i := ?e\<lparr>ld_ilist := -1, ld_size := 0\<rparr>]\<rparr>"
  have "ok_lde ?e" using ok_dir_lde [OF f(2), of ?i] f(3,4) by (simp add: mine_def)
  then have ok: "ok_dir ?dir" using ok_dir_upd [OF f(2)] by (simp add: ok_lde_def in_s32_def)
  have I: "chain (\<lambda>n. ib_next (iblk d1 n)) (ld_ilist ?e) I" "I \<noteq> []" using st cs by (auto simp: stored_def)
  then have hd: "ld_ilist ?e = hd I" "ld_ilist ?e \<noteq> -1" using chain_hd [OF I(1)] nn(1) by (auto dest: hd_in_set)
  have FI: "chain (\<lambda>n. ib_next (iblk d1 n)) (lfd_ifree dir) FI" and FD: "chain (\<lambda>k. lf_nextdb (sector d1 k)) (lfd_dfree dir) FD"
    using f(6) by (simp_all add: free_ok_def)
  have conc: "concat (map (\<lambda>n. used (ib_dba (iblk d1 n))) I) = D" by (rule concat_used [OF st nn(3)])
  have "lfd_ifree dir \<notin> set I" using chain_hd [OF FI] B(3) nn(1) by (cases FI) auto
  moreover have "distinct (I @ FI)" "set (I @ FI) \<subseteq> {0..<ni}" using f(5) by (auto simp: blocks_ok_def)
  moreover have "distinct (concat (map (\<lambda>n. used (ib_dba (iblk d1 n))) I) @ FD)" "set (concat (map (\<lambda>n. used (ib_dba (iblk d1 n))) I) @ FD) \<subseteq> {ds..<200}"
    unfolding conc using f(5) by (auto simp: blocks_ok_def)
  moreover have "length (ib_dba (iblk d1 n)) = 16" if "n \<in> set I" for n using stored_ib [OF st that] by (simp add: ok_ib_def)
  moreover have "chain (\<lambda>k. lf_nextdb (sector d1 k)) (lfd_dfree ?dir) FD" "in_s32 (lfd_ifree dir)" using FD f(2) by (simp_all add: ok_dir_def)
  ultimately obtain d2 q FD' where
    2: "trunc_loop (lfd_ifree dir) (ld_ilist ?e) (st s f d1 ?dir True ?cb) = Some (st s f d2 (?dir\<lparr>lfd_dfree := q\<rparr>) True ?cb)"
      "chain (\<lambda>n. ib_next (iblk d2 n)) (ld_ilist ?e) (I @ FI)" "chain (\<lambda>k. lf_nextdb (sector d2 k)) q FD'" "distinct FD'"
      "set FD' = set D \<union> set FD" "ok_dir (?dir\<lparr>lfd_dfree := q\<rparr>)" "\<forall>n. 0 \<le> n \<and> n < ni \<and> n \<notin> set I \<longrightarrow> iblk d2 n = iblk d1 n"
      "\<forall>k. ds \<le> k \<and> k < 200 \<and> k \<notin> set FD' \<longrightarrow> sector d2 k = sector d1 k"
    using trunc_loop_ok [OF f(1) ok _ _ I(1) FI, of FD s f True ?cb] conc hd(2) j by auto
  let ?dir' = "?dir\<lparr>lfd_dfree := q, lfd_ifree := ld_ilist ?e\<rparr>"
  have ld: "dirent (lfdirptr cb) (st s f d dir b cb) = Some ?e" using dirent_ok [OF f0(2-4)] by (simp add: mine_def)
  have up: "upd_dirent (lfdirptr cb) (\<lambda>e. e\<lparr>ld_ilist := -1, ld_size := 0\<rparr>) (st s f d1 dir b1 ?cb) = Some (st s f d1 ?dir b1 ?cb)"
    using upd_dirent_ok [OF f0(2-4)] by (simp add: mine_def)
  have "ld_size ?e \<noteq> 0" using f0(7) cs by (simp add: stored_def)
  then have run: "lftruncate f (st s f d dir b cb) = Some (OK, st s f d2 ?dir' True ?cb)"
    unfolding lftruncate_def st_simps ld Option.bind.bind_lunit Let_def 1(1) using up 2(1) by simp
  have len: "?i < length (lfd_files dir)" using f(2-4) by (simp add: ok_dir_def nat_less_iff)
  have "ok_dir ?dir'" using ok_dir_free [OF 2(6), of "ld_ilist ?e"] \<open>ok_lde ?e\<close> by (simp add: ok_lde_def)
  moreover have "blocks_ok ni ds ((I @ FI) @ []) (FD' @ [])" using f(5) 2(4,5) by (auto simp: blocks_ok_def)
  moreover have "free_ok d2 ?dir' (I @ FI) FD'" using 2(2,3) by (simp add: free_ok_def)
  moreover have "stored (vib d2 ?cb) (vdb d2 ?cb) (mine ?dir' ?cb) [] [] []" using len by (simp add: stored_def mine_def)
  moreover have "cb_ok d2 ?cb [] []" using f0(8) by (simp add: cb_ok_def)
  ultimately have "fcore ni ds d2 ?dir' ?cb (I @ FI) FD' [] [] []" using f by (simp add: fcore_def)
  moreover have "kept ni ds (set FI \<union> set I) (set FD \<union> set D) ?i d1 dir d2 ?dir'"
    using 2(5,7,8) len by (auto simp: kept_def mine_def nth_list_update)
  then have "kept ni ds (set FI \<union> set I) (set FD \<union> set D) ?i d dir d2 ?dir'"
    using kept_trans [OF kept_mono [OF 1(3)]] by blast
  ultimately show ?thesis using run 2(5)
    by - (rule exI [of _ d2], rule exI [of _ ?dir'], rule exI [of _ ?cb], rule exI [of _ FD'], auto simp: same_id_def at_byte_def)
qed

lemma lflcontrol_ok:
  assumes op: "opened ni ds f X Y s cs p" and j: "length (junk s) = 508"
  shows "\<exists>s'. lflcontrol f LF_CTL_TRUNC s = Some (OK, s') \<and> opened ni ds f X Y s' [] 0 \<and> frame ni ds f X Y s s' \<and> umem s' = umem s"
proof -
  define cb where "cb = lfltab s f"
  let ?cb0 = "cb\<lparr>lfmutex := lfmutex cb - 1\<rparr>" and ?s = "s\<lparr>lf_mutex := lf_mutex s - 1\<rparr>"
  from op obtain FI FD I D where core: "fcore ni ds (ram s) (lf_dir s) cb FI FD I D cs" and X: "set FI \<union> set I = X" "set FD \<union> set D = Y"
    and at: "at_byte cb D" and p: "lfpos cb = int p" and m: "0 < lf_mutex s" "0 < lfmutex cb" unfolding opened_def cb_def by blast
  note f = fcoreD [OF core]
  have core0: "fcore ni ds (ram s) (lf_dir s) ?cb0 FI FD I D cs" using core by simp
  have st0: "lfltab (st s f d dir b c) f = c" for d dir b c by simp
  show ?thesis
  proof (cases "cs = []")
    case True
    have "dirent (lfdirptr cb) (st ?s f (ram s) (lf_dir s) (lf_dirdirty s) ?cb0) = Some (mine (lf_dir s) cb)"
      using dirent_ok [OF f(2-4)] by (simp add: mine_def)
    moreover have "ld_size (mine (lf_dir s) cb) = 0" using f(7) True by (simp add: stored_def)
    ultimately have "lftruncate f (st ?s f (ram s) (lf_dir s) (lf_dirdirty s) ?cb0) = Some (OK, st ?s f (ram s) (lf_dir s) (lf_dirdirty s) ?cb0)"
      by (simp add: lftruncate_def)
    then have "lflcontrol f LF_CTL_TRUNC s = Some (OK, st s f (ram s) (lf_dir s) (lf_dirdirty s) cb)"
      using f(8) m lock_st unlock_st by (simp add: lflcontrol_def file_wait_st cb_def [symmetric] cb_ok_def del: st_simps(13))
    then have "lflcontrol f LF_CTL_TRUNC s = Some (OK, s)" by (simp add: cb_def st_same)
    moreover have "p = 0" using opened_pos [OF op] True by simp
    ultimately show ?thesis using op True by simp
  next
    case False
    have "length (junk ?s) = 508" using j by simp
    from lftruncate_ok [OF core0 False this, of f "lf_dirdirty s"] obtain d' dir' cb' FD' where
      1: "lftruncate f (st ?s f (ram s) (lf_dir s) (lf_dirdirty s) ?cb0) = Some (OK, st ?s f d' dir' True cb')"
      "fcore ni ds d' dir' cb' (I @ FI) FD' [] [] []" "set FD' = set FD \<union> set D" "same_id ?cb0 cb'" "lfpos cb' = 0" "at_byte cb' []"
      "kept ni ds (set FI \<union> set I) (set FD \<union> set D) (nat (lfdirptr ?cb0)) (ram s) (lf_dir s) d' dir'" by blast
    let ?s' = "st s f d' dir' True (cb'\<lparr>lfmutex := lfmutex cb\<rparr>)"
    have "lflcontrol f LF_CTL_TRUNC s = Some (OK, ?s')"
      using f(8) m 1(1,4) lock_st unlock_st by (simp add: lflcontrol_def file_wait_st cb_def [symmetric] cb_ok_def same_id_def del: st_simps(13))
    moreover have "\<exists>FI FD I D. fcore ni ds (ram ?s') (lf_dir ?s') (lfltab ?s' f) FI FD I D [] \<and> set FI \<union> set I = X \<and> set FD \<union> set D = Y
        \<and> at_byte (lfltab ?s' f) D"
      by (rule exI [of _ "I @ FI"], rule exI [of _ FD'], rule exI [of _ "[]"], rule exI [of _ "[]"]) (use 1(2,3,6) X in auto)
    then have "opened ni ds f X Y ?s' [] 0" unfolding opened_def using 1(5) m by simp
    moreover have "frame ni ds f X Y s ?s'"
      by (rule frame_st) (use 1(4,7) X in \<open>simp_all add: cb_def same_id_def\<close>)
    ultimately show ?thesis by (intro exI [of _ ?s']) simp
  qed
qed

end
