(* ===== verification/LfsMake.thy ===== *)
theory LfsMake
  imports LfsInv
begin

text \<open>
  \<open>lfscreate.c\<close> and \<open>lfsckfmt.c\<close>: a disk made for the file system has every block on a free list,
  and the check counts them.
\<close>

section \<open>Chains of consecutive blocks\<close>

lemma chain_upto:
  assumes "a \<le> b" "a \<ge> 0" "nxt b = -1" "\<And>k. a \<le> k \<Longrightarrow> k < b \<Longrightarrow> nxt k = k + 1"
  shows "chain nxt a [a..b]"
  using assms
proof (induction "nat (b - a)" arbitrary: a)
  case 0
  then show ?case by (simp add: upto_rec1)
next
  case (Suc n)
  then have "chain nxt (a + 1) [a + 1..b]" by simp
  then show ?case using Suc by (simp add: upto_rec1)
qed

lemma mk_iblocks_ok:
  assumes "0 \<le> i" "\<And>k. 0 \<le> k \<Longrightarrow> k < i + int n \<Longrightarrow> ib2sect k < ds" "ds \<le> 200" "ok_ib ib" "i + int n < 2 ^ 31"
  shows "\<exists>ib' d'. mk_iblocks n i ib d = Some (i + int n, ib', d') \<and> ok_ib ib'
    \<and> (\<forall>k \<ge> 0. k < i + int n \<longrightarrow> ib_next (iblk d' k) = (if i \<le> k then k + 1 else ib_next (iblk d k)))
    \<and> (\<forall>k. k < 1 \<or> ds \<le> k \<longrightarrow> sector d' k = sector d k)"
  using assms
proof (induction n arbitrary: i ib d)
  case (Suc n)
  have i: "ib2sect i < 200" "1 \<le> ib2sect i" "ib2sect i < ds" using Suc.prems(1,3) Suc.prems(2) [of i] by (auto simp: ib2sect_def)
  have ok: "ok_ib (ib\<lparr>ib_next := i + 1\<rparr>)" using Suc.prems(1,4,5) by (simp add: ok_ib_def in_s32_def)
  from lfibput_ok [OF Suc.prems(1) i(1) ok, of d] obtain d1 where 1: "lfibput i (ib\<lparr>ib_next := i + 1\<rparr>) d = Some (OK, d1)"
    "\<forall>k \<ge> 0. iblk d1 k = (if k = i then ib\<lparr>ib_next := i + 1\<rparr> else iblk d k)" "\<forall>k. k \<noteq> ib2sect i \<longrightarrow> sector d1 k = sector d k" by blast
  have "\<exists>ib' d'. mk_iblocks n (i + 1) (ib\<lparr>ib_next := i + 1\<rparr>) d1 = Some (i + 1 + int n, ib', d') \<and> ok_ib ib'
    \<and> (\<forall>k \<ge> 0. k < i + 1 + int n \<longrightarrow> ib_next (iblk d' k) = (if i + 1 \<le> k then k + 1 else ib_next (iblk d1 k)))
    \<and> (\<forall>k. k < 1 \<or> ds \<le> k \<longrightarrow> sector d' k = sector d1 k)"
    by (rule Suc.IH) (use Suc.prems ok in auto)
  then obtain ib' d' where 2: "mk_iblocks n (i + 1) (ib\<lparr>ib_next := i + 1\<rparr>) d1 = Some (i + 1 + int n, ib', d')" "ok_ib ib'"
    "\<forall>k \<ge> 0. k < i + 1 + int n \<longrightarrow> ib_next (iblk d' k) = (if i + 1 \<le> k then k + 1 else ib_next (iblk d1 k))"
    "\<forall>k. k < 1 \<or> ds \<le> k \<longrightarrow> sector d' k = sector d1 k" by blast
  have "ib_next (iblk d' k) = (if i \<le> k then k + 1 else ib_next (iblk d k))" if "0 \<le> k" "k < i + int (Suc n)" for k
    using 1(2) 2(3) that by auto
  moreover have "sector d' k = sector d k" if "k < 1 \<or> ds \<le> k" for k using 1(3) 2(4) i that by fastforce
  ultimately show ?case using 1(1) 2(1,2) by (simp add: algebra_simps)
qed simp

lemma mk_dblocks_ok:
  assumes "0 \<le> i" "i + int n \<le> 200"
  shows "\<exists>d'. mk_dblocks n i d = Some (i + int n, d')
    \<and> (\<forall>k. sector d' k = (if i \<le> k \<and> k < i + int n then le32 (k + 1) @ replicate 508 0 else sector d k))"
  using assms
proof (induction n arbitrary: i d)
  case 0
  then show ?case by (intro exI [of _ d]) auto
next
  case (Suc n)
  from ramwrite_ok [OF Suc.prems(1), of "le32 (i + 1) @ replicate 508 0" d] Suc.prems(2) obtain d1 where
    1: "ramwrite (le32 (i + 1) @ replicate 508 0) i d = Some (OK, d1)"
      "\<forall>k. sector d1 k = (if k = i then le32 (i + 1) @ replicate 508 0 else sector d k)" by auto
  from Suc.IH [of "i + 1" d1] Suc.prems obtain d' where 2: "mk_dblocks n (i + 1) d1 = Some (i + 1 + int n, d')"
    "\<forall>k. sector d' k = (if i + 1 \<le> k \<and> k < i + 1 + int n then le32 (k + 1) @ replicate 508 0 else sector d1 k)" by auto
  have "sector d' k = (if i \<le> k \<and> k < i + int (Suc n) then le32 (k + 1) @ replicate 508 0 else sector d k)" for k
    using 1(2) 2(2) by auto
  then show ?case using 1(1) 2(1) by (simp add: algebra_simps)
qed

lemma mk_dblocks_off: "i \<le> 200 \<Longrightarrow> 200 < i + int n \<Longrightarrow> mk_dblocks n i d = None"
proof (induction n arbitrary: i d)
  case (Suc n)
  show ?case
  proof (cases "i = 200")
    case True
    then show ?thesis by (simp add: ramwrite_def)
  next
    case False
    then have "mk_dblocks n (i + 1) d' = None" for d' using Suc by simp
    then show ?thesis by (cases "ramwrite (le32 (i + 1) @ replicate 508 0) i d") auto
  qed
qed simp

section \<open>lfscreate\<close>

text \<open>A new disk: the directory is empty, all blocks are free.\<close>

definition fresh :: "int \<Rightarrow> int \<Rightarrow> int \<Rightarrow> bytes \<Rightarrow> bool" where
  "fresh ni ds n d \<longleftrightarrow> (let dir = dec_dir (sector d 0) in sector d 0 = enc_dir dir \<and> ok_dir dir \<and> lfd_nfiles dir = 0
     \<and> free_ok d dir [0..ni - 1] [ds..n - 1]) \<and> layout ni ds \<and> ds < n \<and> n \<le> 200"

lemma ok_zero_dir: "ok_dir (dec_dir (replicate 512 0))"
  by code_simp

lemma nextdb_le32: "in_s32 v \<Longrightarrow> lf_nextdb (le32 v @ b) = v"
  by (simp add: lf_nextdb_def s32_u32)

lemma lfscreate_run:
  assumes q: "0 < q" "q < 1000" and K: "K = (q + 6) div 7" and n: "n = dsiz div 512" "n \<le> 200" "K \<le> n div 2" "K + 1 < n"
  shows "\<exists>d'. lfscreate q dsiz d = Some (OK, d') \<and> fresh (7 * K) (K + 1) n d'"
proof -
  have K0: "0 < K" "K \<le> 100" using q K n by auto
  have lay: "layout (7 * K) (K + 1)" using K0 n by (auto simp: layout_def ib2sect_def)
  let ?dir = "(dec_dir (replicate 512 0))\<lparr>lfd_nfiles := 0, lfd_dfree := K + 1\<rparr>"
  have "in_s32 (K + 1)" using K0 by (simp add: in_s32_def)
  then have ok: "ok_dir ?dir" using ok_zero_dir by (simp add: ok_dir_def in_s32_def)
  from ramwrite_ok [of 0 "enc_dir ?dir" d] length_enc_dir [OF ok] obtain d1 where
    1: "ramwrite (enc_dir ?dir) 0 d = Some (OK, d1)" "\<forall>k. sector d1 k = (if k = 0 then enc_dir ?dir else sector d k)" by auto
  have "\<exists>ib' d'. mk_iblocks (nat (7 * K - 1)) 0 (lfibclear 0) d1 = Some (0 + int (nat (7 * K - 1)), ib', d') \<and> ok_ib ib'
    \<and> (\<forall>k \<ge> 0. k < 0 + int (nat (7 * K - 1)) \<longrightarrow> ib_next (iblk d' k) = (if 0 \<le> k then k + 1 else ib_next (iblk d1 k)))
    \<and> (\<forall>k. k < 1 \<or> K + 1 \<le> k \<longrightarrow> sector d' k = sector d1 k)"
    by (rule mk_iblocks_ok) (use lay K0 ok_lfibclear in \<open>auto simp: layout_def\<close>)
  then obtain ib d2 where
    2: "mk_iblocks (nat (7 * K - 1)) 0 (lfibclear 0) d1 = Some (7 * K - 1, ib, d2)" "ok_ib ib"
      "\<And>k. 0 \<le> k \<Longrightarrow> k < 7 * K - 1 \<Longrightarrow> ib_next (iblk d2 k) = k + 1" "\<And>k. k < 1 \<or> K + 1 \<le> k \<Longrightarrow> sector d2 k = sector d1 k" using K0 by auto
  have ok2: "ok_ib (ib\<lparr>ib_next := -1\<rparr>)" using 2(2) by (simp add: ok_ib_def in_s32_def)
  have sk: "ib2sect (7 * K - 1) < 200" "0 < ib2sect (7 * K - 1)" "ib2sect (7 * K - 1) < K + 1" using layout_sect [OF lay, of "7 * K - 1"] K0 by auto
  from lfibput_ok [OF _ sk(1) ok2, of d2] K0 obtain d3 where
    3: "lfibput (7 * K - 1) (ib\<lparr>ib_next := -1\<rparr>) d2 = Some (OK, d3)" "\<forall>k \<ge> 0. iblk d3 k = (if k = 7 * K - 1 then ib\<lparr>ib_next := -1\<rparr> else iblk d2 k)"
      "\<forall>k. k \<noteq> ib2sect (7 * K - 1) \<longrightarrow> sector d3 k = sector d2 k" by auto
  from mk_dblocks_ok [of "K + 1" "nat (n - K - 2)" d3] K0 n obtain d4 where 4: "mk_dblocks (nat (n - K - 2)) (K + 1) d3 = Some (n - 1, d4)"
    "\<forall>k. sector d4 k = (if K + 1 \<le> k \<and> k < n - 1 then le32 (k + 1) @ replicate 508 0 else sector d3 k)" by auto
  from ramwrite_ok [of "n - 1" "le32 (-1) @ replicate 508 0" d4] n K0 obtain d5 where
    5: "ramwrite (le32 (-1) @ replicate 508 0) (n - 1) d4 = Some (OK, d5)"
      "\<forall>k. sector d5 k = (if k = n - 1 then le32 (-1) @ replicate 508 0 else sector d4 k)" by auto
  have u: "u32 (q + 6) = q + 6" "s32 (7 * K) = 7 * K" "u32 (n - K - 1) = n - K - 1" "u32 (n - K - 1 - 1) = n - K - 2"
    using q K0 n by (simp_all add: u32_def s32_def)
  have run: "lfscreate q dsiz d = Some (OK, d5)"
    using 1(1) 2(1) 3(1) 4(1) 5(1) n(1,3) u K by (simp add: lfscreate_def Let_def mult.commute [of _ 7])
  have s5: "sector d5 k = sector d1 k" if "k < 1" for k
    using that 5(2) 4(2) 3(3) 2(4) [of k] sk(2) K0 n by auto
  have ib5: "iblk d5 k = iblk d3 k" if "0 \<le> k" "k < 7 * K" for k
  proof (rule iblk_cong)
    show "sector d5 (ib2sect k) = sector d3 (ib2sect k)" using layout_sect [OF lay that] 5(2) 4(2) n by auto
  qed
  have "chain (\<lambda>k. ib_next (iblk d5 k)) 0 [0..7 * K - 1]"
  proof (rule chain_upto)
    show "ib_next (iblk d5 (7 * K - 1)) = -1" using ib5 [of "7 * K - 1"] 3(2) K0 by simp
    show "ib_next (iblk d5 k) = k + 1" if "0 \<le> k" "k < 7 * K - 1" for k using ib5 [of k] 3(2) 2(3) that by simp
  qed (use K0 in simp_all)
  moreover have "chain (\<lambda>k. lf_nextdb (sector d5 k)) (K + 1) [K + 1..n - 1]"
  proof (rule chain_upto)
    show "lf_nextdb (sector d5 (n - 1)) = -1" using 5(2) by (simp add: nextdb_le32 in_s32_def)
    show "lf_nextdb (sector d5 k) = k + 1" if "K + 1 \<le> k" "k < n - 1" for k
      using 5(2) 4(2) that n K0 by (simp add: nextdb_le32 in_s32_def)
  qed (use K0 n in simp_all)
  moreover have "sector d5 0 = enc_dir ?dir" using s5 1(2) by simp
  moreover have "lfd_ifree (dec_dir (replicate 512 0)) = 0" by code_simp
  ultimately have "fresh (7 * K) (K + 1) n d5"
    using lay ok n(2,4) dec_enc_dir [OF ok] by (simp add: fresh_def free_ok_def)
  then show ?thesis using run by blast
qed

section \<open>lfsckfmt\<close>

lemma count_ibs_ok:
  assumes "chain (\<lambda>n. ib_next (iblk d n)) p xs" "\<And>n. n \<in> set xs \<Longrightarrow> 0 \<le> n \<and> ib2sect n < 200"
  shows "count_ibs p d c = Some (c + int (length xs))"
  using assms
proof (induction xs arbitrary: p c)
  case Nil
  then show ?case by (subst count_ibs.simps) simp
next
  case (Cons x xs)
  then have "lfibget x d = Some (iblk d x)" using lfibget_ok by simp
  then show ?case using Cons by (subst count_ibs.simps) simp
qed

lemma count_dbs_ok:
  assumes "chain (\<lambda>n. lf_nextdb (sector d n)) p xs" "\<And>n. n \<in> set xs \<Longrightarrow> 0 \<le> n \<and> n < 200"
  shows "count_dbs p d c = Some (c + int (length xs))"
  using assms
proof (induction xs arbitrary: p c)
  case Nil
  then show ?case by (subst count_dbs.simps) simp
next
  case (Cons x xs)
  then have "ramread x d = Some (OK, sector d x)" using ramread_ok by simp
  then show ?case using Cons by (subst count_dbs.simps) simp
qed

lemma lfsckfmt_fresh: "fresh ni ds n d \<Longrightarrow> lfsckfmt d = Some (OK, ni, n - ds)"
proof -
  assume f: "fresh ni ds n d"
  then have lay: "layout ni ds" and n: "ds < n" "n \<le> 200" and c: "chain (\<lambda>n. ib_next (iblk d n)) (lfd_ifree (dec_dir (sector d 0))) [0..ni - 1]"
    "chain (\<lambda>n. lf_nextdb (sector d n)) (lfd_dfree (dec_dir (sector d 0))) [ds..n - 1]" by (simp_all add: fresh_def Let_def free_ok_def)
  have "count_ibs (lfd_ifree (dec_dir (sector d 0))) d 0 = Some ni"
    using count_ibs_ok [OF c(1), of 0] layout_sect [OF lay] lay by (auto simp: layout_def)
  moreover have "count_dbs (lfd_dfree (dec_dir (sector d 0))) d 0 = Some (n - ds)"
    using count_dbs_ok [OF c(2), of 0] layout_ds [OF lay] n by auto
  ultimately show ?thesis by (simp add: lfsckfmt_def ramread_ok)
qed

end
