(* ===== verification/LfsOpen.thy ===== *)
theory LfsOpen
  imports LfsTrunc LfsMake
begin

text \<open>
  \<open>lfsopen.c\<close>: names, the search of the directory, old and new files.
\<close>

section \<open>Names\<close>

text \<open>The name in an array, up to the null byte.\<close>

definition fname :: "8 word list \<Rightarrow> 8 word list" where
  "fname nm = takeWhile (\<lambda>c. c \<noteq> 0) nm"

lemma name_is_ok: "cstr m nam cs \<Longrightarrow> 0 \<in> set nm \<Longrightarrow> name_is m nam nm = Some (fname nm = cs)"
proof (induction nm arbitrary: nam cs)
  case (Cons c nm)
  show ?case
  proof (cases cs)
    case Nil
    then show ?thesis using Cons.prems by (simp add: fname_def)
  next
    case (Cons d ds)
    then have d: "m nam = d" "d \<noteq> 0" "cstr m (nam + 1) ds" using Cons.prems(1) by simp_all
    show ?thesis using d Cons Cons.IH [OF d(3)] Cons.prems(2) by (auto simp: fname_def)
  qed
qed simp

lemma put_name_ok: "cstr m nam cs \<Longrightarrow> length cs < length old \<Longrightarrow> put_name m nam old = Some (cs @ 0 # drop (Suc (length cs)) old)"
proof (induction old arbitrary: nam cs)
  case (Cons c old)
  then show ?case by (cases cs) simp_all
qed simp

lemma fname_put: "0 \<notin> set cs \<Longrightarrow> fname (cs @ 0 # xs) = cs"
  by (simp add: fname_def takeWhile_append)

lemma name_fits: "cstr m nam cs \<Longrightarrow> length cs < 16 \<Longrightarrow> list_ex (\<lambda>i. m (nam + int i) = 0) [0..<16]"
  unfolding list_ex_iff using cstr_end [of m nam cs] by (intro bexI [of _ "length cs"]) auto

definition no_name :: "8 word list \<Rightarrow> lfs \<Rightarrow> bool" where
  "no_name cs s \<longleftrightarrow> (\<forall>j. 0 \<le> j \<and> j < 6 \<and> lfstate (lfltab s j) = LF_USED \<longrightarrow> 0 \<in> set (lfname (lfltab s j)) \<and> fname (lfname (lfltab s j)) \<noteq> cs)"

lemma find_open_ok:
  assumes "cstr (umem s) nam cs" "no_name cs s" "0 \<le> i" "i + int n = 6"
  shows "find_open n i lfnext nam s = Some (False, if lfnext \<noteq> SYSERR then lfnext
    else (case filter (\<lambda>j. lfstate (lfltab s j) = LF_FREE) [i..5] of [] \<Rightarrow> SYSERR | j # _ \<Rightarrow> j))"
  using assms
proof (induction n arbitrary: i lfnext)
  case (Suc n)
  have up: "[i..5] = i # [i + 1..5]" using Suc.prems(4) by (simp add: upto_rec1)
  note IH = Suc.IH [OF Suc.prems(1,2), of "i + 1"]
  show ?case
  proof (cases "lfstate (lfltab s i)")
    case LF_FREE
    then show ?thesis using IH Suc.prems(3,4) up by simp
  next
    case LF_USED
    then have "name_is (umem s) nam (lfname (lfltab s i)) = Some False"
      using name_is_ok [OF Suc.prems(1)] Suc.prems(2-4) by (simp add: no_name_def)
    then show ?thesis using IH Suc.prems(3,4) up LF_USED by simp
  qed
qed simp

definition first_free :: "int \<Rightarrow> lfs \<Rightarrow> bool" where
  "first_free f s \<longleftrightarrow> 0 \<le> f \<and> f < 6 \<and> lfstate (lfltab s f) = LF_FREE \<and> (\<forall>j. 0 \<le> j \<and> j < f \<longrightarrow> lfstate (lfltab s j) = LF_USED)"

lemma first_freeD:
  assumes "first_free f s"
  shows "\<exists>rest. filter (\<lambda>j. lfstate (lfltab s j) = LF_FREE) [0..5] = f # rest"
proof -
  have "0 \<le> f" "f < 6" using assms by (simp_all add: first_free_def)
  then have "[0..5] = [0..f - 1] @ f # [f + 1..5]" using upto_split1 [of 0 f 5] upto_rec1 [of f 5] by simp
  moreover have "filter (\<lambda>j. lfstate (lfltab s j) = LF_FREE) [0..f - 1] = []" using assms by (auto simp: filter_empty_conv first_free_def)
  ultimately show ?thesis using assms by (simp add: first_free_def)
qed

lemma find_open_free:
  assumes "cstr (umem s) nam cs" "no_name cs s" "first_free f s"
  shows "find_open 6 0 SYSERR nam s = Some (False, f)"
  using find_open_ok [OF assms(1,2), of 0 6 SYSERR] first_freeD [OF assms(3)] by auto

text \<open>The entries of the directory that are in use have names.\<close>

definition named :: "lfdir \<Rightarrow> bool" where
  "named dir \<longleftrightarrow> 0 \<le> lfd_nfiles dir \<and> lfd_nfiles dir \<le> 20 \<and> (\<forall>i. i < nat (lfd_nfiles dir) \<longrightarrow> 0 \<in> set (ld_name (lfd_files dir ! i)))"

lemma find_dir_ok:
  assumes "cstr (umem s) nam cs" "named (lf_dir s)" "ok_dir (lf_dir s)" "int i + int n = lfd_nfiles (lf_dir s)"
  shows "find_dir n (int i) nam s = Some (case filter (\<lambda>j. fname (ld_name (lfd_files (lf_dir s) ! j)) = cs) [i..<i + n] of [] \<Rightarrow> None | j # _ \<Rightarrow> Some (int j))"
  using assms(4)
proof (induction n arbitrary: i)
  case (Suc n)
  have i: "i < nat (lfd_nfiles (lf_dir s))" "i < 20" using Suc.prems assms(2) by (auto simp: named_def)
  then have "dirent (int i) s = Some (lfd_files (lf_dir s) ! i)" using assms(3) by (simp add: dirent_def ok_dir_def)
  moreover have "name_is (umem s) nam (ld_name (lfd_files (lf_dir s) ! i)) = Some (fname (ld_name (lfd_files (lf_dir s) ! i)) = cs)"
    using name_is_ok [OF assms(1)] assms(2) i by (simp add: named_def)
  moreover have "[i..<i + Suc n] = i # [Suc i..<Suc i + n]" by (simp add: upt_rec)
  ultimately show ?case using Suc.IH [of "Suc i"] Suc.prems by (simp add: ac_simps)
qed simp

definition dir_at :: "lfdir \<Rightarrow> 8 word list \<Rightarrow> nat option" where
  "dir_at dir cs = (case filter (\<lambda>j. fname (ld_name (lfd_files dir ! j)) = cs) [0..<nat (lfd_nfiles dir)] of [] \<Rightarrow> None | j # _ \<Rightarrow> Some j)"

lemma find_dir_all:
  assumes "cstr (umem s) nam cs" "named (lf_dir s)" "ok_dir (lf_dir s)"
  shows "find_dir (nat (lfd_nfiles (lf_dir s))) 0 nam s = Some (map_option int (dir_at (lf_dir s) cs))"
  using find_dir_ok [OF assms, of 0 "nat (lfd_nfiles (lf_dir s))"] assms(2)
  by (simp add: dir_at_def named_def split: list.splits)

lemma dir_at_in: "dir_at dir cs = Some i \<Longrightarrow> i < nat (lfd_nfiles dir) \<and> fname (ld_name (lfd_files dir ! i)) = cs"
proof -
  assume "dir_at dir cs = Some i"
  then have "\<exists>xs. filter (\<lambda>j. fname (ld_name (lfd_files dir ! j)) = cs) [0..<nat (lfd_nfiles dir)] = i # xs"
    by (auto simp: dir_at_def split: list.splits)
  then have "i \<in> set (filter (\<lambda>j. fname (ld_name (lfd_files dir ! j)) = cs) [0..<nat (lfd_nfiles dir)])"
    by (metis list.set_intros(1))
  then show ?thesis by simp
qed

section \<open>Opening\<close>

text \<open>The call can go on: the name and the mode are right, a control block is free, and the
  directory in memory, if there is one, is \<open>dir\<close>, else it is on the disk.\<close>

definition may_open :: "int \<Rightarrow> 8 word list \<Rightarrow> int \<Rightarrow> int \<Rightarrow> int \<Rightarrow> lfs \<Rightarrow> bool" where
  "may_open name cs mode mb f s \<longleftrightarrow> cstr (umem s) name cs \<and> length cs < 16 \<and> lfgetmode (umem s) mode = Some mb \<and> mb \<noteq> SYSERR
     \<and> no_name cs s \<and> first_free f s \<and> 0 < lf_mutex s \<and> 0 < lfmutex (lfltab s f) \<and> length (lfname (lfltab s f)) = 16"

definition dir_is :: "lfdir \<Rightarrow> lfs \<Rightarrow> bool" where
  "dir_is dir s \<longleftrightarrow> ok_dir dir \<and> named dir \<and> (if lf_dirpresent s then lf_dir s = dir else sector (ram s) 0 = enc_dir dir)"

definition can_open :: "int \<Rightarrow> 8 word list \<Rightarrow> int \<Rightarrow> int \<Rightarrow> int \<Rightarrow> lfdir \<Rightarrow> lfs \<Rightarrow> bool" where
  "can_open name cs mode mb f dir s \<longleftrightarrow> may_open name cs mode mb f s \<and> dir_is dir s"

lemmas open_defs = can_open_def may_open_def dir_is_def

definition new_cb :: "int \<Rightarrow> int \<Rightarrow> 8 word list \<Rightarrow> lflcblk \<Rightarrow> lflcblk" where
  "new_cb i mb cs b = b\<lparr>lfstate := LF_USED, lfdirptr := i, lfmode := mb AND LF_MODE_RW, lfpos := 0,
     lfname := cs @ 0 # drop (Suc (length cs)) (lfname b), lfinum := LF_INULL, lfdnum := LF_DNULL, lfbyte := 512,
     lfibdirty := False, lfdbdirty := False\<rparr>"

text \<open>Up to the search of the directory.\<close>

lemma lfsopen_start:
  assumes "can_open name cs mode mb f dir s"
  shows "lfsopen name mode s = (
     let s = s\<lparr>lf_mutex := lf_mutex s - 1, lf_dir := dir, lf_dirpresent := True\<rparr> in do {
       (ldptr, s) \<leftarrow> (case map_option int (dir_at dir cs) of
           None \<Rightarrow> if mb AND LF_MODE_O \<noteq> 0 then Some (SYSERR, s)
             else if lfd_nfiles dir \<ge> 20 then Some (SYSERR, s) else new_file name s
         | Some i \<Rightarrow> Some (if mb AND LF_MODE_N \<noteq> 0 then SYSERR else i, s));
       if ldptr = SYSERR then Some (SYSERR, lf_signal s)
       else do { s \<leftarrow> open_cb f ldptr mb name s; Some (lfdev (lfltab s f), lf_signal s) }
     })"
proof -
  let ?s = "s\<lparr>lf_mutex := lf_mutex s - 1\<rparr>" and ?s1 = "s\<lparr>lf_mutex := lf_mutex s - 1, lf_dir := dir, lf_dirpresent := True\<rparr>"
  have a: "cstr (umem s) name cs" "length cs < 16" "lfgetmode (umem s) mode = Some mb" "mb \<noteq> SYSERR" "no_name cs s" "first_free f s"
    "0 < lf_mutex s" "ok_dir dir" "named dir" "if lf_dirpresent s then lf_dir s = dir else sector (ram s) 0 = enc_dir dir"
    using assms by (simp_all add: open_defs)
  have f: "f \<noteq> SYSERR" using a(6) by (auto simp: first_free_def)
  have load: "(if \<not> lf_dirpresent ?s then do {
        (retval, b) \<leftarrow> ramread LF_AREA_DIR (ram ?s);
        Some (retval, if retval = SYSERR then ?s else ?s\<lparr>lf_dir := dec_dir b, lf_dirpresent := True\<rparr>)
      } else Some (OK, ?s)) = Some (OK, ?s1)"
  proof (cases "lf_dirpresent s")
    case True
    then have "?s = ?s1" using a(10) by (intro lfs.equality) simp_all
    then show ?thesis using True by simp
  next
    case False
    then show ?thesis using a(10) dec_enc_dir [OF a(8)] by (simp add: ramread_ok)
  qed
  have dirs: "find_dir (nat (lfd_nfiles (lf_dir ?s1))) 0 name ?s1 = Some (map_option int (dir_at (lf_dir ?s1) cs))"
    by (rule find_dir_all) (use a in simp_all)
  have wait: "lf_wait s = Some ?s" using a(7) by (simp add: lf_wait_def mtake_def)
  note fits = name_fits [OF a(1,2)] and op = find_open_free [OF a(1,5,6)]
  show ?thesis
    unfolding lfsopen_def a(3) op Option.bind.bind_lunit wait load dirs prod.case Let_def
    using fits a(4) f by (simp cong: option.case_cong)
qed

lemma open_cb_ok:
  assumes "cstr (umem s) name cs" "length cs < length (lfname (lfltab s f))"
  shows "open_cb f i mb name s = Some (setcb f (new_cb i mb cs) s)"
  using put_name_ok [OF assms] by (simp add: open_cb_def setcb_def new_cb_def)

text \<open>A file that exists.\<close>

lemma fcore_new:
  assumes "closed ni ds i X Y d dir cs" "lfdirptr cb = int i" "lfstate cb = LF_USED" "lfinum cb = -1" "lfdnum cb = -1"
    "\<not> lfibdirty cb" "\<not> lfdbdirty cb" "lfpos cb = 0"
  shows "\<exists>FI FD I D. fcore ni ds d dir cb FI FD I D cs \<and> set FI \<union> set I = X \<and> set FD \<union> set D = Y"
proof -
  from assms(1) obtain FI FD I D where c: "blocks_ok ni ds (FI @ I) (FD @ D)" "free_ok d dir FI FD"
    "stored (iblk d) (sector d) (lfd_files dir ! i) I D cs" "set FI \<union> set I = X" "set FD \<union> set D = Y" "layout ni ds" "ok_dir dir" "i < 20"
    unfolding closed_def by blast
  note nn = no_null [OF c(6,1)]
  have "stored (vib d cb) (vdb d cb) (mine dir cb) I D cs"
    unfolding mine_def assms(2) nat_int
    by (rule stored_cong [OF c(3)]) (use assms(4,5) nn in \<open>auto simp: vib_def vdb_def\<close>)
  then have "fcore ni ds d dir cb FI FD I D cs" using c assms by (simp add: fcore_def cb_ok_def)
  then show ?thesis using c(4,5) by blast
qed

lemma lfsopen_old:
  assumes c: "can_open name cs mode mb f dir s" and n: "mb AND LF_MODE_N = 0" and i: "dir_at dir cs = Some i"
    and cl: "closed ni ds i X Y (ram s) dir xs" and sync: "lf_dirdirty s \<or> sector (ram s) 0 = enc_dir dir"
  shows "\<exists>s'. lfsopen name mode s = Some (lfdev (lfltab s f), s') \<and> opened ni ds f X Y s' xs 0 \<and> umem s' = umem s \<and> ram s' = ram s \<and> junk s' = junk s
    \<and> lf_dir s' = dir \<and> lf_dirpresent s' \<and> lfltab s' f = new_cb (int i) mb cs (lfltab s f) \<and> (\<forall>g. g \<noteq> f \<longrightarrow> lfltab s' g = lfltab s g)"
proof -
  let ?s1 = "s\<lparr>lf_mutex := lf_mutex s - 1, lf_dir := dir, lf_dirpresent := True\<rparr>"
  let ?s' = "lf_signal (setcb f (new_cb (int i) mb cs) ?s1)"
  have a: "cstr (umem ?s1) name cs" "length cs < length (lfname (lfltab ?s1 f))" "0 < lf_mutex s" "0 < lfmutex (lfltab s f)"
    using c by (simp_all add: open_defs)
  have "lfsopen name mode s = Some (lfdev (lfltab s f), ?s')"
    unfolding lfsopen_start [OF c] i using n open_cb_ok [OF a(1,2)] by (simp add: setcb_def new_cb_def lf_signal_def)
  moreover have "\<exists>FI FD I D. fcore ni ds (ram ?s') (lf_dir ?s') (lfltab ?s' f) FI FD I D xs \<and> set FI \<union> set I = X \<and> set FD \<union> set D = Y"
    by (rule fcore_new) (use cl in \<open>simp_all add: setcb_def new_cb_def lf_signal_def\<close>)
  then have "opened ni ds f X Y ?s' xs 0"
    using a(3,4) sync unfolding opened_def by (simp add: setcb_def new_cb_def lf_signal_def at_byte_def)
  ultimately show ?thesis by (intro exI [of _ ?s']) (simp add: setcb_def lf_signal_def)
qed

text \<open>A new file.\<close>

definition new_entry :: "8 word list \<Rightarrow> ldentry \<Rightarrow> ldentry" where
  "new_entry cs e = e\<lparr>ld_size := 0, ld_name := cs @ 0 # drop (Suc (length cs)) (ld_name e), ld_ilist := LF_INULL\<rparr>"

definition new_dir :: "8 word list \<Rightarrow> lfdir \<Rightarrow> lfdir" where
  "new_dir cs dir = dir\<lparr>lfd_nfiles := lfd_nfiles dir + 1,
     lfd_files := (lfd_files dir)[nat (lfd_nfiles dir) := new_entry cs (lfd_files dir ! nat (lfd_nfiles dir))]\<rparr>"

lemma new_file_ok:
  assumes "cstr (umem s) name cs" "length cs < 16" "ok_dir (lf_dir s)" "0 \<le> lfd_nfiles (lf_dir s)" "lfd_nfiles (lf_dir s) < 20"
  shows "new_file name s = Some (lfd_nfiles (lf_dir s), s\<lparr>lf_dir := new_dir cs (lf_dir s)\<rparr>)"
proof -
  let ?i = "nat (lfd_nfiles (lf_dir s))"
  have l: "?i < length (lfd_files (lf_dir s))" using assms(3-5) by (simp add: ok_dir_def nat_less_iff)
  have "length (ld_name (lfd_files (lf_dir s) ! ?i)) = 16" using ok_dir_lde [OF assms(3), of ?i] assms(4,5) by (simp add: ok_lde_def nat_less_iff)
  then have "put_name (umem s) name (ld_name (lfd_files (lf_dir s) ! ?i)) = Some (cs @ 0 # drop (Suc (length cs)) (ld_name (lfd_files (lf_dir s) ! ?i)))"
    using put_name_ok [OF assms(1)] assms(2) by simp
  then show ?thesis using l assms(4) by (simp add: new_file_def dirent_def upd_dirent_def new_dir_def new_entry_def Let_def)
qed

lemma ok_new_dir:
  assumes "ok_dir dir" "length cs < 16" "0 \<le> lfd_nfiles dir" "lfd_nfiles dir < 20"
  shows "ok_dir (new_dir cs dir)"
proof -
  let ?i = "nat (lfd_nfiles dir)"
  have "ok_lde (lfd_files dir ! ?i)" using ok_dir_lde [OF assms(1), of ?i] assms(3,4) by (simp add: nat_less_iff)
  then have "ok_lde (new_entry cs (lfd_files dir ! ?i))" using assms(2) by (simp add: ok_lde_def new_entry_def in_s32_def)
  moreover have "ok_dir (dir\<lparr>lfd_nfiles := lfd_nfiles dir + 1\<rparr>)" using assms by (simp add: ok_dir_def in_s32_def)
  ultimately show ?thesis using ok_dir_upd [of "dir\<lparr>lfd_nfiles := lfd_nfiles dir + 1\<rparr>"] by (simp add: new_dir_def)
qed

lemma lfsopen_new:
  assumes c: "can_open name cs mode mb f dir s" and o: "mb AND LF_MODE_O = 0" and i: "dir_at dir cs = None" and n: "lfd_nfiles dir < 20"
    and fr: "layout ni ds" "blocks_ok ni ds FI FD" "free_ok (ram s) dir FI FD"
  shows "\<exists>s'. lfsopen name mode s = Some (lfdev (lfltab s f), s') \<and> opened0 ni ds f (set FI) (set FD) s' [] 0 \<and> umem s' = umem s \<and> ram s' = ram s \<and> junk s' = junk s
    \<and> lf_dir s' = new_dir cs dir \<and> lf_dirdirty s' = lf_dirdirty s \<and> lf_dirpresent s'
    \<and> lfltab s' f = new_cb (lfd_nfiles dir) mb cs (lfltab s f) \<and> (\<forall>g. g \<noteq> f \<longrightarrow> lfltab s' g = lfltab s g)"
proof -
  let ?s1 = "s\<lparr>lf_mutex := lf_mutex s - 1, lf_dir := dir, lf_dirpresent := True\<rparr>" and ?i = "lfd_nfiles dir"
  let ?s' = "lf_signal (setcb f (new_cb ?i mb cs) (?s1\<lparr>lf_dir := new_dir cs dir\<rparr>))"
  have a: "cstr (umem s) name cs" "length cs < 16" "length cs < length (lfname (lfltab ?s1 f))" "0 < lf_mutex s" "0 < lfmutex (lfltab s f)"
    "ok_dir dir" "0 \<le> ?i" using c by (simp_all add: open_defs named_def)
  have nf: "new_file name ?s1 = Some (?i, ?s1\<lparr>lf_dir := new_dir cs dir\<rparr>)"
    using new_file_ok [of ?s1 name cs] a n by simp
  have oc: "open_cb f ?i mb name (?s1\<lparr>lf_dir := new_dir cs dir\<rparr>) = Some (setcb f (new_cb ?i mb cs) (?s1\<lparr>lf_dir := new_dir cs dir\<rparr>))"
    using open_cb_ok [of "?s1\<lparr>lf_dir := new_dir cs dir\<rparr>" name cs f ?i mb] a by simp
  have "lfsopen name mode s = Some (lfdev (lfltab s f), ?s')"
    unfolding lfsopen_start [OF c] i using o n nf oc a(7) by (simp add: setcb_def new_cb_def lf_signal_def)
  moreover have "closed ni ds (nat ?i) (set FI) (set FD) (ram s) (new_dir cs dir) []"
  proof -
    have l: "nat ?i < length (lfd_files dir)" using a(6,7) n by (simp add: ok_dir_def nat_less_iff)
    have "stored (iblk (ram s)) (sector (ram s)) (lfd_files (new_dir cs dir) ! nat ?i) [] [] []"
      using l by (simp add: stored_def new_dir_def new_entry_def)
    moreover have "free_ok (ram s) (new_dir cs dir) FI FD" using fr(3) by (simp add: free_ok_def new_dir_def)
    moreover have "blocks_ok ni ds (FI @ []) (FD @ [])" using fr(2) by simp
    ultimately show ?thesis using fr(1) ok_new_dir [OF a(6,2,7) n] a(7) n unfolding closed_def
      by (intro conjI) (rule exI [of _ FI], rule exI [of _ FD], rule exI [of _ "[]"], rule exI [of _ "[]"], simp_all add: nat_less_iff)
  qed
  then have "\<exists>FI' FD' I D. fcore ni ds (ram ?s') (lf_dir ?s') (lfltab ?s' f) FI' FD' I D [] \<and> set FI' \<union> set I = set FI \<and> set FD' \<union> set D = set FD"
    by (intro fcore_new [of ni ds "nat ?i"]) (use a(7) in \<open>simp_all add: setcb_def new_cb_def lf_signal_def\<close>)
  then have "opened0 ni ds f (set FI) (set FD) ?s' [] 0"
    using a(4,5) unfolding opened0_def by (simp add: setcb_def new_cb_def lf_signal_def at_byte_def)
  ultimately show ?thesis by (intro exI [of _ ?s']) (simp add: setcb_def lf_signal_def)
qed

end
