(* ===== verification/LfsProps.thy ===== *)
theory LfsProps
  imports LfsOpen
begin

text \<open>
  The properties of the local file system, and a concrete disk for the witnesses.
\<close>

section \<open>Directories and other files\<close>

lemma kept_names:
  assumes "kept ni ds X Y i d dir d' dir'"
  shows "lfd_nfiles dir' = lfd_nfiles dir" "ld_name (lfd_files dir' ! j) = ld_name (lfd_files dir ! j)"
    "named dir' = named dir" "dir_at dir' cs = dir_at dir cs"
proof -
  show n: "lfd_nfiles dir' = lfd_nfiles dir" using assms by (simp add: kept_def)
  have names: "ld_name (lfd_files dir' ! j) = ld_name (lfd_files dir ! j)" for j using assms by (cases "j = i") (simp_all add: kept_def)
  then show "ld_name (lfd_files dir' ! j) = ld_name (lfd_files dir ! j)" .
  show "named dir' = named dir" "dir_at dir' cs = dir_at dir cs" by (simp_all add: named_def dir_at_def n names)
qed

lemma named_new_dir:
  assumes "named dir" "ok_dir dir" "lfd_nfiles dir < 20" "0 \<notin> set cs" "dir_at dir cs = None"
  shows "named (new_dir cs dir)" "dir_at (new_dir cs dir) cs = Some (nat (lfd_nfiles dir))"
proof -
  let ?n = "nat (lfd_nfiles dir)"
  have n: "0 \<le> lfd_nfiles dir" "?n < length (lfd_files dir)" using assms(1-3) by (simp_all add: named_def ok_dir_def nat_less_iff)
  have suc: "nat (lfd_nfiles dir + 1) = Suc ?n" using n by simp
  have old: "ld_name (lfd_files (new_dir cs dir) ! j) = ld_name (lfd_files dir ! j)" if "j < ?n" for j
    using that by (simp add: new_dir_def)
  have new: "ld_name (lfd_files (new_dir cs dir) ! ?n) = cs @ 0 # drop (Suc (length cs)) (ld_name (lfd_files dir ! ?n))"
    using n by (simp add: new_dir_def new_entry_def)
  have nf: "lfd_nfiles (new_dir cs dir) = lfd_nfiles dir + 1" by (simp add: new_dir_def)
  show "named (new_dir cs dir)" unfolding named_def nf suc
    using assms(1,3) n old new by (auto simp: named_def less_Suc_eq)
  have "filter (\<lambda>j. fname (ld_name (lfd_files (new_dir cs dir) ! j)) = cs) [0..<?n] = filter (\<lambda>j. fname (ld_name (lfd_files dir ! j)) = cs) [0..<?n]"
    by (rule filter_cong) (use old in simp_all)
  moreover have "filter (\<lambda>j. fname (ld_name (lfd_files dir ! j)) = cs) [0..<?n] = []" using assms(5) by (simp add: dir_at_def split: list.splits)
  ultimately show "dir_at (new_dir cs dir) cs = Some ?n"
    using new fname_put [OF assms(4)] n by (simp add: dir_at_def nf suc)
qed

text \<open>Blocks of another file are not in \<open>X\<close> and \<open>Y\<close>.\<close>

definition elsewhere :: "int \<Rightarrow> int \<Rightarrow> nat \<Rightarrow> int set \<Rightarrow> int set \<Rightarrow> lfs \<Rightarrow> 8 word list \<Rightarrow> bool" where
  "elsewhere ni ds j X Y s cs \<longleftrightarrow> (\<exists>I D. stored (iblk (ram s)) (sector (ram s)) (lfd_files (lf_dir s) ! j) I D cs
     \<and> set I \<subseteq> {0..<ni} - X \<and> set D \<subseteq> {ds..<200} - Y)"

lemma elsewhere_kept:
  assumes "frame ni ds f X Y s s'" "int j \<noteq> lfdirptr (lfltab s f)" "0 \<le> lfdirptr (lfltab s f)" "elsewhere ni ds j X Y s cs"
  shows "elsewhere ni ds j X Y s' cs"
proof -
  from assms(4) obtain I D where s: "stored (iblk (ram s)) (sector (ram s)) (lfd_files (lf_dir s) ! j) I D cs"
    "set I \<subseteq> {0..<ni} - X" "set D \<subseteq> {ds..<200} - Y" unfolding elsewhere_def by blast
  have k: "kept ni ds X Y (nat (lfdirptr (lfltab s f))) (ram s) (lf_dir s) (ram s') (lf_dir s')" using assms(1) by (simp add: frame_def)
  have "lfd_files (lf_dir s') ! j = lfd_files (lf_dir s) ! j" using k assms(2,3) by (simp add: kept_def)
  moreover have "stored (iblk (ram s')) (sector (ram s')) (lfd_files (lf_dir s) ! j) I D cs"
    by (rule stored_cong [OF s(1)]) (use k s(2,3) in \<open>auto simp: kept_def\<close>)
  ultimately show ?thesis using s unfolding elsewhere_def by auto
qed

text \<open>The first write to a new file.\<close>

lemma lflwrite_new:
  assumes "opened0 ni ds f X Y s cs (length cs)" "0 < n" "length cs + n \<le> 512 * card Y" "length cs + n \<le> 8192 * card X"
  shows "\<exists>s'. lflwrite f buff (int n) s = Some (int n, s')
    \<and> opened ni ds f X Y s' (cs @ mbytes (umem s) buff n) (length cs + n) \<and> frame ni ds f X Y s s' \<and> umem s' = umem s"
proof -
  obtain m where n: "n = Suc m" using assms(2) by (cases n) auto
  have "length cs < 512 * card Y" "length cs < 8192 * card X" using assms(2-4) by simp_all
  from lflputc_ok0 [OF assms(1) this, of "umem s buff"] obtain s1 where
    1: "lflputc f (umem s buff) s = Some (OK, s1)" "opened ni ds f X Y s1 (put_at cs (length cs) (umem s buff)) (Suc (length cs))"
      "frame ni ds f X Y s s1" "umem s1 = umem s" by blast
  from lflwrite_loop_ok [OF 1(2), of m "buff + 1"] n assms(3,4) obtain s' where
    2: "lflwrite_loop m f (buff + 1) s1 = Some (OK, s')"
      "opened ni ds f X Y s' (write_at (put_at cs (length cs) (umem s buff)) (Suc (length cs)) (mbytes (umem s) (buff + 1) m)) (Suc (length cs) + m)"
      "frame ni ds f X Y s1 s'" "umem s' = umem s" using 1(4) by auto
  have "write_at (put_at cs (length cs) (umem s buff)) (Suc (length cs)) (mbytes (umem s) (buff + 1) m) = cs @ mbytes (umem s) buff n"
    by (simp add: n mbytes_Suc write_at_Cons) (simp add: write_at_def)
  then have "opened ni ds f X Y s' (cs @ mbytes (umem s) buff n) (length cs + n)" using 2(2) n by simp
  moreover have "lflwrite f buff (int n) s = Some (int n, s')" using 1(1) 2(1) unfolding n by (simp add: lflwrite_def del: of_nat_Suc)
  ultimately show ?thesis using frame_trans [OF 1(3) 2(3)] 2(4) by blast
qed

section \<open>Write, close, open again\<close>

text \<open>A new file is written and closed.  The file can then be opened again: the directory is in memory and on the disk.\<close>

lemma saved:
  assumes c: "can_open name cs mode mb f dir s" and o: "mb AND LF_MODE_O = 0" and dir: "dir_at dir cs = None" "lfd_nfiles dir < 20"
    and fr: "layout ni ds" "blocks_ok ni ds FI FD" "free_ok (ram s) dir FI FD"
    and n: "0 < n" "n \<le> 512 * int (length FD)" "n \<le> 8192 * int (length FI)"
  shows "\<exists>s1 s2 s3. lfsopen name mode s = Some (lfdev (lfltab s f), s1) \<and> lflwrite f buff n s1 = Some (n, s2)
    \<and> lflclose f s2 = Some (OK, s3) \<and> opened ni ds f (set FI) (set FD) s2 (mbytes (umem s) buff (nat n)) (nat n)
    \<and> closed ni ds (nat (lfd_nfiles dir)) (set FI) (set FD) (ram s3) (lf_dir s3) (mbytes (umem s) buff (nat n))
    \<and> sector (ram s3) 0 = enc_dir (lf_dir s3) \<and> can_open name cs mode mb f (lf_dir s3) s3
    \<and> dir_at (lf_dir s3) cs = Some (nat (lfd_nfiles dir)) \<and> umem s2 = umem s \<and> junk s2 = junk s
    \<and> lfdev (lfltab s3 f) = lfdev (lfltab s f) \<and> lfdirptr (lfltab s2 f) = lfd_nfiles dir
    \<and> kept ni ds (set FI) (set FD) (nat (lfd_nfiles dir)) (ram s) (new_dir cs dir) (ram s2) (lf_dir s2)"
proof -
  let ?i = "lfd_nfiles dir" and ?ys = "mbytes (umem s) buff (nat n)"
  have D: "ok_dir dir" "named dir" "0 \<le> ?i" and N: "cstr (umem s) name cs" "length cs < 16" "length (lfname (lfltab s f)) = 16"
    using c by (simp_all add: open_defs named_def)
  from lfsopen_new [OF c o dir fr] obtain s1 where
    1: "lfsopen name mode s = Some (lfdev (lfltab s f), s1)" "opened0 ni ds f (set FI) (set FD) s1 [] 0" "umem s1 = umem s" "junk s1 = junk s"
      "lf_dir s1 = new_dir cs dir" "lfltab s1 f = new_cb ?i mb cs (lfltab s f)" "ram s1 = ram s" "lf_dirpresent s1"
      "\<forall>g. g \<noteq> f \<longrightarrow> lfltab s1 g = lfltab s g" by blast
  have cards: "card (set FD) = length FD" "card (set FI) = length FI" using fr(2) by (simp_all add: blocks_ok_def distinct_card)
  have "opened0 ni ds f (set FI) (set FD) s1 [] (length ([] :: 8 word list))" "0 < nat n" "length ([] :: 8 word list) + nat n \<le> 512 * card (set FD)"
    "length ([] :: 8 word list) + nat n \<le> 8192 * card (set FI)" using 1(2) n cards by simp_all
  from lflwrite_new [OF this, of buff] n(1) 1(3) obtain s2 where
    2: "lflwrite f buff n s1 = Some (n, s2)" "opened ni ds f (set FI) (set FD) s2 ?ys (nat n)" "frame ni ds f (set FI) (set FD) s1 s2" "umem s2 = umem s" by auto
  from lflclose_ok [OF 2(2)] obtain s3 where 3: "lflclose f s2 = Some (OK, s3)" "umem s3 = umem s2" "lfstate (lfltab s3 f) = LF_FREE"
    "closed ni ds (nat (lfdirptr (lfltab s2 f))) (set FI) (set FD) (ram s3) (lf_dir s3) ?ys"
    "sector (ram s3) 0 = enc_dir (lf_dir s3)" "frame ni ds f (set FI) (set FD) s2 s3" by blast
  have fr3: "frame ni ds f (set FI) (set FD) s1 s3" using frame_trans [OF 2(3) 3(6)] .
  have ptr: "lfdirptr (lfltab s2 f) = ?i" "lfdev (lfltab s3 f) = lfdev (lfltab s f)" "junk s2 = junk s" "lfdirptr (lfltab s1 f) = ?i"
    "lfname (lfltab s3 f) = cs @ 0 # drop (Suc (length cs)) (lfname (lfltab s f))"
    using 2(3) fr3 1(4,6) by (simp_all add: frame_def same_id_def new_cb_def)
  have k3: "kept ni ds (set FI) (set FD) (nat (lfdirptr (lfltab s1 f))) (ram s1) (lf_dir s1) (ram s3) (lf_dir s3)" using fr3 by (simp add: frame_def)
  have "kept ni ds (set FI) (set FD) (nat (lfdirptr (lfltab s1 f))) (ram s1) (lf_dir s1) (ram s2) (lf_dir s2)" using 2(3) by (simp add: frame_def)
  then have k2: "kept ni ds (set FI) (set FD) (nat ?i) (ram s) (new_dir cs dir) (ram s2) (lf_dir s2)" unfolding ptr(4) 1(5,7) .
  note nd = named_new_dir [OF D(2,1) dir(2) cstr_notin [OF N(1)] dir(1)]
  have at: "named (lf_dir s3)" "dir_at (lf_dir s3) cs = Some (nat ?i)" using kept_names(3,4) [OF k3] nd 1(5) by simp_all
  have "can_open name cs mode mb f (lf_dir s3) s3"
  proof -
    have o: "lfltab s3 g = lfltab s g" if "g \<noteq> f" for g using fr3 1(9) that by (simp add: frame_def)
    have "no_name cs s3" unfolding no_name_def
    proof (intro allI impI)
      fix j assume j: "0 \<le> j \<and> j < 6 \<and> lfstate (lfltab s3 j) = LF_USED"
      then have "j \<noteq> f" using 3(3) by auto
      then show "0 \<in> set (lfname (lfltab s3 j)) \<and> fname (lfname (lfltab s3 j)) \<noteq> cs"
        using c j o [of j] unfolding open_defs no_name_def by auto
    qed
    moreover have "first_free f s3" using c o 3(3) by (auto simp: open_defs first_free_def)
    moreover have "0 < lf_mutex s3" "0 < lfmutex (lfltab s3 f)"
      using 2(2) 3(6) by (simp_all add: opened_def frame_def same_id_def)
    moreover have "lf_dirpresent s3" using fr3 1(8) by (simp add: frame_def)
    moreover have "umem s3 = umem s" using 2(4) 3(2) by simp
    moreover have "ok_dir (lf_dir s3)" using 3(4) by (simp add: closed_def)
    moreover have "length (lfname (lfltab s3 f)) = 16" using ptr(5) N by simp
    ultimately show ?thesis using c at(1) by (simp add: open_defs)
  qed
  then show ?thesis using 1(1) 2(1,2,4) 3(1,4,5) ptr(1-3) k2 at by - (rule exI [of _ s1], rule exI [of _ s2], rule exI [of _ s3], simp)
qed

lemma read_back:
  assumes c: "can_open name cs mode mb f dir s" and o: "mb AND LF_MODE_O = 0" "mb AND LF_MODE_N = 0"
    and dir: "dir_at dir cs = None" "lfd_nfiles dir < 20"
    and fr: "layout ni ds" "blocks_ok ni ds FI FD" "free_ok (ram s) dir FI FD"
    and n: "0 < n" "n \<le> 512 * int (length FD)" "n \<le> 8192 * int (length FI)"
  shows "\<exists>s1 s2 s3 s4 s5. lfsopen name mode s = Some (lfdev (lfltab s f), s1) \<and> lflwrite f buff n s1 = Some (n, s2)
    \<and> lflclose f s2 = Some (OK, s3)
    \<and> closed ni ds (nat (lfd_nfiles dir)) (set FI) (set FD) (ram s3) (dec_dir (sector (ram s3) 0)) (mbytes (umem s) buff (nat n))
    \<and> lfsopen name mode s3 = Some (lfdev (lfltab s f), s4)
    \<and> lflread f buff' n s4 = Some (n, s5) \<and> mbytes (umem s5) buff' (nat n) = mbytes (umem s) buff (nat n)"
proof -
  let ?i = "lfd_nfiles dir" and ?ys = "mbytes (umem s) buff (nat n)"
  from saved [OF c o(1) dir fr n, of buff] obtain s1 s2 s3 where
    1: "lfsopen name mode s = Some (lfdev (lfltab s f), s1)" "lflwrite f buff n s1 = Some (n, s2)" "lflclose f s2 = Some (OK, s3)"
    and 3: "closed ni ds (nat ?i) (set FI) (set FD) (ram s3) (lf_dir s3) ?ys" "sector (ram s3) 0 = enc_dir (lf_dir s3)"
      "can_open name cs mode mb f (lf_dir s3) s3" "dir_at (lf_dir s3) cs = Some (nat ?i)" "lfdev (lfltab s3 f) = lfdev (lfltab s f)" by blast
  have dd: "dec_dir (sector (ram s3) 0) = lf_dir s3" using 3(1,2) dec_enc_dir by (simp add: closed_def)
  from lfsopen_old [OF 3(3) o(2) 3(4,1)] 3(2,5) obtain s4 where
    4: "lfsopen name mode s3 = Some (lfdev (lfltab s f), s4)" "opened ni ds f (set FI) (set FD) s4 ?ys 0" by auto
  from lflread_ok [OF 4(2) _ refl, of n buff'] n(1) obtain s5 where
    5: "lflread f buff' n s4 = Some (n, s5)" "umem s5 = poke (umem s4) buff' ?ys" by auto
  have "mbytes (umem s5) buff' (nat n) = ?ys" unfolding 5(2) by (rule mbytes_poke) simp
  then show ?thesis using 1 3(1) dd 4(1) 5(1) by - (rule exI [of _ s1], rule exI [of _ s2], rule exI [of _ s3], simp)
qed

section \<open>A disk\<close>

definition lfs_mem :: bytes where
  "lfs_mem = poke (\<lambda>_. 0) 100 [102, 0, 0, 7, 8, 9]"

text \<open>The driver before its first call, over a disk: what \<open>lfsinit\<close> and \<open>lflinit\<close> set up.\<close>

definition lfs_of :: "bytes \<Rightarrow> lfs" where
  "lfs_of d = \<lparr>ram = d, lf_mutex = 1, lf_dir = dec_dir (replicate 512 0), lf_dirpresent = False, lf_dirdirty = False,
     lfltab = (\<lambda>f. \<lparr>lfstate = LF_FREE, lfdev = 18 + f, lfmutex = 1, lfdirptr = -1, lfmode = 0, lfpos = 0, lfname = replicate 16 0,
       lfinum = -1, lfiblock = lfibclear 0, lfdnum = -1, lfdblock = replicate 512 0, lfbyte = 512, lfibdirty = False, lfdbdirty = False\<rparr>),
     umem = lfs_mem, junk = replicate 508 0\<rparr>"

lemma lfs_of_simps [simp]: "ram (lfs_of d) = d" "umem (lfs_of d) = lfs_mem" "junk (lfs_of d) = replicate 508 0" "lfdev (lfltab (lfs_of d) f) = 18 + f"
  by (simp_all add: lfs_of_def)

lemma lfs_args: "cstr lfs_mem 100 [102]" "lfgetmode lfs_mem 102 = Some 3" "mbytes lfs_mem 103 3 = [7, 8, 9]"
proof -
  show "cstr lfs_mem 100 [102]" by (simp add: lfs_mem_def)
  have "(0 :: int) OR 3 = 3" by simp
  then show "lfgetmode lfs_mem 102 = Some 3"
    unfolding lfgetmode_def by (subst lfgetmode_loop.simps) (simp add: lfs_mem_def)
  show "mbytes lfs_mem 103 3 = [7, 8, 9]" by (simp add: mbytes_def lfs_mem_def upt_rec)
qed

lemma lfs_of_can:
  assumes "sector d 0 = enc_dir dir" "ok_dir dir" "named dir"
  shows "can_open 100 [102] 102 3 0 dir (lfs_of d)"
  using assms lfs_args(1,2) by (simp add: open_defs no_name_def first_free_def) (simp add: lfs_of_def)

definition free_ibs :: "int list" where "free_ibs = [0..6]"
definition free_dbs_200 :: "int list" where "free_dbs_200 = [2..199]"

lemma free_lengths: "length free_ibs = 7" "length free_dbs_200 = 198" "card (set free_ibs) = 7" "card (set free_dbs_200) = 198"
proof -
  have "length [a..b] = nat (b - a + 1)" "card (set [a..b]) = nat (b - a + 1)" for a b :: int by simp_all
  from this [of 0 6] this [of 2 199]
  show "length free_ibs = 7" "length free_dbs_200 = 198" "card (set free_ibs) = 7" "card (set free_dbs_200) = 198"
    unfolding free_ibs_def free_dbs_200_def by (simp_all del: upto_rec_numeral)
qed

text \<open>A new disk whose directory has one empty file \<open>g\<close>.\<close>

lemma disk_dir: "\<exists>d dir. sector d 0 = enc_dir dir \<and> ok_dir dir \<and> named dir \<and> dir_at dir [102] = None \<and> lfd_nfiles dir = 1
    \<and> ld_size (lfd_files dir ! 0) = 0 \<and> ld_ilist (lfd_files dir ! 0) = -1
    \<and> layout 7 2 \<and> blocks_ok 7 2 free_ibs free_dbs_200 \<and> free_ok d dir free_ibs free_dbs_200"
proof -
  from lfscreate_run [of 7 1 200 102400 "\<lambda>_. 0"] obtain d where fr: "fresh 7 2 200 d" by auto
  define dir where "dir = dec_dir (sector d 0)"
  have f: "ok_dir dir" "lfd_nfiles dir = 0" "free_ok d dir free_ibs free_dbs_200" and lay: "layout 7 2"
    using fr by (simp_all only: fresh_def Let_def dir_def free_ibs_def free_dbs_200_def) (simp_all del: upto_rec_numeral)
  have nd: "named dir" "dir_at dir [103] = None" using f(2) by (simp_all add: named_def dir_at_def)
  let ?dir = "new_dir [103] dir"
  have ok: "ok_dir ?dir" by (rule ok_new_dir) (use f in simp_all)
  from ramwrite_ok [of 0 "enc_dir ?dir" d] length_enc_dir [OF ok] obtain d' where
    d': "\<forall>k. sector d' k = (if k = 0 then enc_dir ?dir else sector d k)" by auto
  have sect: "ib2sect n \<noteq> 0" if "0 \<le> n" for n using that by (simp add: ib2sect_def)
  have "free_ok d' ?dir free_ibs free_dbs_200"
  proof (rule free_ok_same [OF f(3)])
    show "iblk d' n = iblk d n" if "n \<in> set free_ibs" for n
      using that d' sect [of n] by (intro iblk_cong) (simp add: free_ibs_def del: upto_rec_numeral)
    show "sector d' k = sector d k" if "k \<in> set free_dbs_200" for k using that d' by (auto simp: free_dbs_200_def simp del: upto_rec_numeral)
  qed (simp_all add: new_dir_def)
  moreover have "blocks_ok 7 2 free_ibs free_dbs_200"
    unfolding blocks_ok_def free_ibs_def free_dbs_200_def append_Nil2 by (auto simp del: upto_rec_numeral)
  moreover have "named ?dir" "dir_at ?dir [102] = None"
  proof -
    show "named ?dir" by (rule named_new_dir(1)) (use nd f in simp_all)
    have l: "0 < length (lfd_files dir)" using f(1) by (simp add: ok_dir_def)
    then have "ld_name (lfd_files ?dir ! 0) = [103] @ 0 # drop 2 (ld_name (lfd_files dir ! 0))" using f(2)
      by (simp add: new_dir_def new_entry_def numeral_2_eq_2)
    moreover have "lfd_nfiles ?dir = 1" using f(2) by (simp add: new_dir_def)
    ultimately show "dir_at ?dir [102] = None" by (simp add: dir_at_def fname_def)
  qed
  moreover have "0 < length (lfd_files dir)" using f(1) by (simp add: ok_dir_def)
  then have "lfd_nfiles ?dir = 1" "ld_size (lfd_files ?dir ! 0) = 0" "ld_ilist (lfd_files ?dir ! 0) = -1" using f(2)
    by (simp_all add: new_dir_def new_entry_def)
  ultimately show ?thesis using d' ok lay by (intro exI [of _ d'] exI [of _ ?dir]) simp
qed

lemma ex_saved: "\<exists>d s1 s2 s3. lfsopen 100 102 (lfs_of d) = Some (18, s1) \<and> lflwrite 0 103 3 s1 = Some (3, s2) \<and> lflclose 0 s2 = Some (OK, s3)
    \<and> opened 7 2 0 (set free_ibs) (set free_dbs_200) s2 [7, 8, 9] 3 \<and> umem s2 = lfs_mem \<and> junk s2 = replicate 508 0 \<and> lfdirptr (lfltab s2 0) = 1
    \<and> elsewhere 7 2 0 (set free_ibs) (set free_dbs_200) s2 []"
proof -
  from disk_dir obtain d dir where dd: "sector d 0 = enc_dir dir" "ok_dir dir" "named dir" "dir_at dir [102] = None" "lfd_nfiles dir = 1"
    "ld_size (lfd_files dir ! 0) = 0" "ld_ilist (lfd_files dir ! 0) = -1" "layout 7 2" "blocks_ok 7 2 free_ibs free_dbs_200" "free_ok d dir free_ibs free_dbs_200" by blast
  have n20: "lfd_nfiles dir < 20" using dd(5) by simp
  have f: "free_ok (ram (lfs_of d)) dir free_ibs free_dbs_200" using dd by simp
  have "(3 :: int) AND 8 = 0" "(0 :: int) < 3" "3 \<le> 512 * int (length free_dbs_200)" "3 \<le> 8192 * int (length free_ibs)"
    using free_lengths by simp_all
  from saved [OF lfs_of_can [OF dd(1-3)] this(1) dd(4) n20 dd(8,9) f this(2-4), of 103] obtain s1 s2 s3 where
    s: "lfsopen 100 102 (lfs_of d) = Some (lfdev (lfltab (lfs_of d) 0), s1)" "lflwrite 0 103 3 s1 = Some (3, s2)" "lflclose 0 s2 = Some (OK, s3)"
      "opened 7 2 0 (set free_ibs) (set free_dbs_200) s2 (mbytes (umem (lfs_of d)) 103 (nat 3)) (nat 3)" "umem s2 = umem (lfs_of d)" "junk s2 = junk (lfs_of d)"
      "lfdirptr (lfltab s2 0) = lfd_nfiles dir"
      "kept 7 2 (set free_ibs) (set free_dbs_200) (nat (lfd_nfiles dir)) (ram (lfs_of d)) (new_dir [102] dir) (ram s2) (lf_dir s2)" by blast
  have "lfd_files (lf_dir s2) ! 0 = lfd_files dir ! 0" using s(8) dd(5) by (simp add: kept_def new_dir_def)
  then have "stored (iblk (ram s2)) (sector (ram s2)) (lfd_files (lf_dir s2) ! 0) [] [] []" using dd(6,7) by (simp add: stored_def)
  then have "elsewhere 7 2 0 (set free_ibs) (set free_dbs_200) s2 []" unfolding elsewhere_def
    by - (rule exI [of _ "[]"], rule exI [of _ "[]"], simp)
  then show ?thesis using s dd(5) lfs_args(3)
    by - (rule exI [of _ d], rule exI [of _ s1], rule exI [of _ s2], rule exI [of _ s3], simp)
qed

lemma ex_open: "\<exists>s. opened 7 2 0 (set free_ibs) (set free_dbs_200) s [7, 8, 9] 3 \<and> umem s = lfs_mem \<and> junk s = replicate 508 0 \<and> lfdirptr (lfltab s 0) = 1
    \<and> elsewhere 7 2 0 (set free_ibs) (set free_dbs_200) s []"
  using ex_saved by blast

section \<open>The disk after the start\<close>

text \<open>\<open>raminit\<close> fills the disk with copies of a word of eight letters.\<close>

lemma memcpy_spread:
  assumes "\<And>k. 0 \<le> k \<Longrightarrow> k < d \<Longrightarrow> m k = w (k mod 8)" "8 \<le> d" "0 \<le> k" "k < d + (n - i)"
  shows "memcpy_loop m d (d - 8) i n k = w (k mod 8)"
  using assms
proof (induction "nat (n - i)" arbitrary: m d i)
  case 0
  then show ?case by (simp add: memcpy_loop.simps)
next
  case (Suc x)
  let ?m = "m(d := m (d - 8))"
  have "memcpy_loop ?m (d + 1) (d + 1 - 8) (i + 1) n k = w (k mod 8)"
  proof (rule Suc.hyps(1))
    show "?m j = w (j mod 8)" if "0 \<le> j" "j < d + 1" for j
    proof (cases "j = d")
      case True
      have "(d - 8) mod 8 = d mod 8" by (simp add: mod_diff_right_eq [symmetric])
      then show ?thesis using True Suc.prems(1) [of "d - 8"] Suc.prems(2) by simp
    qed (use Suc.prems(1) [of j] that in simp)
  qed (use Suc in simp_all)
  moreover have "d + 1 - 8 = d - 8 + 1" by simp
  moreover have "i < n" using Suc.hyps(2) by simp
  ultimately show ?case by (simp only: memcpy_loop.simps [of m d] if_True)
qed

definition hopeless :: "8 word list" where
  "hopeless = [104, 111, 112, 101, 108, 101, 115, 115]"

lemma raminit_byte: "0 \<le> k \<Longrightarrow> k < 102400 \<Longrightarrow> snd (raminit d) k = hopeless ! nat (k mod 8)"
proof -
  assume k: "0 \<le> k" "k < 102400"
  have b: "poke d 0 hopeless j = hopeless ! nat (j mod 8)" if "0 \<le> j" "j < 8" for j
    using that poke_at [of "nat j" hopeless d 0] by (simp add: hopeless_def)
  show ?thesis
    using memcpy_spread [of 8 "poke d 0 hopeless" "\<lambda>j. hopeless ! nat j" k 102392 0] b k
    by (simp add: raminit_def memcpy_def Let_def hopeless_def)
qed

lemma hopeless_nonzero: "j < 8 \<Longrightarrow> hopeless ! j \<noteq> 0"
proof -
  assume "j < 8"
  moreover have "length hopeless = 8" by (simp add: hopeless_def)
  ultimately have "hopeless ! j \<in> set hopeless" by (intro nth_mem) simp
  moreover have "0 \<notin> set hopeless" by (simp add: hopeless_def)
  ultimately show ?thesis by metis
qed

lemma start_bytes: "0 \<notin> set (sector (snd (raminit d)) 0)"
proof
  assume "0 \<in> set (sector (snd (raminit d)) 0)"
  then obtain i where i: "i < 512" "sector (snd (raminit d)) 0 ! i = 0" by (metis in_set_conv_nth length_sector)
  have "snd (raminit d) (int i) = hopeless ! nat (int i mod 8)" by (rule raminit_byte) (use i in simp_all)
  moreover have "nat (int i mod 8) < 8" by simp
  ultimately show False using hopeless_nonzero [of "nat (int i mod 8)"] i nth_sector [of i "snd (raminit d)" 0] by simp
qed

lemma start_count: "lfd_nfiles (dec_dir (sector (snd (raminit d)) 0)) = 0x65706f68"
proof -
  let ?bs = "sector (snd (raminit d)) 0"
  have b: "?bs ! i = hopeless ! (i - 8)" if "8 \<le> i" "i < 12" for i
  proof -
    have "int i mod 8 = int i - 8" using that by presburger
    moreover have "nat (int i - 8) = i - 8" using that by simp
    ultimately show ?thesis using that raminit_byte [of "int i" d] nth_sector [of i "snd (raminit d)" 0] by simp
  qed
  have "drop 8 ?bs = ?bs ! 8 # ?bs ! 9 # ?bs ! 10 # ?bs ! 11 # drop 12 ?bs"
    by (simp add: Cons_nth_drop_Suc [symmetric])
  then show ?thesis using b [of 8] b [of 9] b [of 10] b [of 11] by (simp add: dec_dir_def hopeless_def s32_def)
qed

lemma dec_names: "0 \<notin> set bs \<Longrightarrow> n * 24 \<le> length bs \<Longrightarrow> j < n \<Longrightarrow>
    length (ld_name (dec_ldes n bs ! j)) = 16 \<and> 0 \<notin> set (ld_name (dec_ldes n bs ! j))"
proof (induction n arbitrary: bs j)
  case (Suc n)
  show ?case
  proof (cases j)
    case 0
    have "0 \<notin> set (drop 8 bs)" using Suc.prems(1) in_set_dropD [of 0 8 bs] by blast
    then show ?thesis using 0 Suc.prems(2) in_set_takeD [of 0 16 "drop 8 bs"] by (auto simp: dec_lde_def)
  next
    case (Suc i)
    have "0 \<notin> set (drop 24 bs)" using Suc.prems(1) in_set_dropD [of 0 24 bs] by blast
    then show ?thesis using Suc.IH [of "drop 24 bs" i] Suc.prems Suc by simp
  qed
qed simp

lemma name_not: "cstr m nam cs \<Longrightarrow> length cs < length nm \<Longrightarrow> 0 \<notin> set nm \<Longrightarrow> name_is m nam nm = Some False"
proof (induction nm arbitrary: nam cs)
  case (Cons c nm)
  then show ?case by (cases cs) auto
qed simp

lemma find_dir_over:
  assumes cs: "cstr (umem s) nam cs" "length cs < 16"
    and nm: "\<And>j. j < 20 \<Longrightarrow> length (ld_name (lfd_files (lf_dir s) ! j)) = 16 \<and> 0 \<notin> set (ld_name (lfd_files (lf_dir s) ! j))"
    and len: "length (lfd_files (lf_dir s)) = 20"
  shows "i \<le> 20 \<Longrightarrow> 20 < i + n \<Longrightarrow> find_dir n (int i) nam s = None"
proof (induction n arbitrary: i)
  case (Suc n)
  show ?case
  proof (cases "i = 20")
    case True
    then show ?thesis using len by (simp add: dirent_def)
  next
    case False
    then have "dirent (int i) s = Some (lfd_files (lf_dir s) ! i)" "i < 20" using Suc.prems len by (simp_all add: dirent_def)
    moreover from this have "name_is (umem s) nam (ld_name (lfd_files (lf_dir s) ! i)) = Some False"
      using name_not [OF cs(1)] nm [of i] cs(2) by simp
    ultimately show ?thesis using Suc.IH [of "Suc i"] Suc.prems by (simp add: add.commute)
  qed
qed simp

lemma start_disk:
  assumes m: "may_open name cs mode mb f s" "\<not> lf_dirpresent s" "ram s = snd (raminit d)"
  shows "lfsopen name mode s = None"
proof -
  have a: "cstr (umem s) name cs" "length cs < 16" "lfgetmode (umem s) mode = Some mb" "mb \<noteq> SYSERR" "no_name cs s" "first_free f s"
    "0 < lf_mutex s" using m(1) by (simp_all add: may_open_def)
  have f: "f \<noteq> SYSERR" using a(6) by (auto simp: first_free_def)
  let ?dir = "dec_dir (sector (ram s) 0)"
  let ?s1 = "s\<lparr>lf_mutex := lf_mutex s - 1, lf_dir := ?dir, lf_dirpresent := True\<rparr>"
  have z: "0 \<notin> set (drop 12 (sector (ram s) 0))" using start_bytes [of d] in_set_dropD [of 0 12] m(3) by metis
  have nm: "length (ld_name (lfd_files ?dir ! j)) = 16 \<and> 0 \<notin> set (ld_name (lfd_files ?dir ! j))" if "j < 20" for j
    using dec_names [OF z, of 20 j] that by (simp add: dec_dir_def)
  have len: "length (lfd_files ?dir) = 20" by (simp add: dec_dir_def eval_nat_numeral)
  have "find_dir (nat (lfd_nfiles ?dir)) (int 0) name ?s1 = None"
    by (rule find_dir_over [of ?s1 name cs]) (use a nm len start_count [of d] m(3) in simp_all)
  moreover have "lf_wait s = Some (s\<lparr>lf_mutex := lf_mutex s - 1\<rparr>)" using a(7) by (simp add: lf_wait_def mtake_def)
  moreover note name_fits [OF a(1,2)] find_open_free [OF a(1,5,6)]
  ultimately show ?thesis using a(3,4) f m(2) by (simp add: lfsopen_def ramread_ok)
qed

section \<open>Properties\<close>

text \<open>C33: an open file is a list of bytes with a position, and \<open>lflwrite\<close> replaces the bytes from
  the position on by those of the buffer, extends the file where it ends, and moves the position: as long
  as there are blocks. It returns the number of bytes, with the locks as before; a file whose blocks are
  others keeps its contents, on the disk and in its control block.  (The mode of the file plays no role:
  a file opened for reading is written.)\<close>

theorem lflwrite_refines:
  assumes "opened ni ds f X Y s cs p" "0 \<le> n" "p + nat n \<le> 512 * card Y" "p + nat n \<le> 8192 * card X"
    and "elsewhere ni ds j X Y s other" "int j \<noteq> lfdirptr (lfltab s f)"
  shows "\<exists>s'. lflwrite f buff n s = Some (n, s')
    \<and> opened ni ds f X Y s' (write_at cs p (mbytes (umem s) buff (nat n))) (p + nat n)
    \<and> elsewhere ni ds j X Y s' other \<and> (\<forall>g. g \<noteq> f \<longrightarrow> lfltab s' g = lfltab s g) \<and> lf_mutex s' = lf_mutex s
    \<and> lfmutex (lfltab s' f) = lfmutex (lfltab s f)"
proof -
  from lflwrite_ok [OF assms(1-4), of buff] obtain s' where s': "lflwrite f buff n s = Some (n, s')"
    "opened ni ds f X Y s' (write_at cs p (mbytes (umem s) buff (nat n))) (p + nat n)" "frame ni ds f X Y s s'" by blast
  have "0 \<le> lfdirptr (lfltab s f)" using assms(1) fcoreD(3) unfolding opened_def by blast
  then have "elsewhere ni ds j X Y s' other" using elsewhere_kept [OF s'(3) assms(6) _ assms(5)] by blast
  then show ?thesis using s' by (auto simp: frame_def same_id_def)
qed

theorem lflwrite_refines_witness:
  "\<exists>s s'. lflwrite 0 103 2 s = Some (2, s') \<and> opened 7 2 0 (set free_ibs) (set free_dbs_200) s' [7, 8, 9, 7, 8] 5"
proof -
  obtain s where s: "opened 7 2 0 (set free_ibs) (set free_dbs_200) s [7, 8, 9] 3" "umem s = lfs_mem" "lfdirptr (lfltab s 0) = 1"
    "elsewhere 7 2 0 (set free_ibs) (set free_dbs_200) s []" using ex_open by blast
  have "mbytes lfs_mem 103 2 = [7, 8]" by (simp add: mbytes_def lfs_mem_def upt_rec)
  then show ?thesis using lflwrite_refines [OF s(1) _ _ _ s(4), of 2 103] s(2,3) free_lengths(3,4) by (auto simp: write_at_def)
qed

text \<open>\<open>lflread\<close> stores the bytes from the position on, at most \<open>n\<close> and not past the end of
  the file, returns their number, or the end-of-file mark when there are none, and changes no file.\<close>

theorem lflread_refines:
  assumes "opened ni ds f X Y s cs p" "0 \<le> n"
  shows "\<exists>s'. lflread f buff n s = Some (if 0 < n \<and> p = length cs then EOF else min n (int (length cs - p)), s')
    \<and> umem s' = poke (umem s) buff (take (nat n) (drop p cs))
    \<and> opened ni ds f X Y s' cs (p + min (nat n) (length cs - p)) \<and> (\<forall>g. g \<noteq> f \<longrightarrow> lfltab s' g = lfltab s g)"
proof -
  have p: "p \<le> length cs" by (rule opened_pos [OF assms(1)])
  have "(if n = 0 \<or> min (nat n) (length cs - p) \<noteq> 0 then int (min (nat n) (length cs - p)) else EOF)
      = (if 0 < n \<and> p = length cs then EOF else min n (int (length cs - p)))"
    using assms(2) p by (auto simp: min_def)
  then show ?thesis using lflread_ok [OF assms refl, of buff] by (auto simp: frame_def)
qed

theorem lflread_refines_witness:
  "\<exists>s s'. lflread 0 500 4 s = Some (EOF, s') \<and> umem s' = umem s"
proof -
  obtain s where "opened 7 2 0 (set free_ibs) (set free_dbs_200) s [7, 8, 9] 3" using ex_open by blast
  from lflread_refines [OF this, of 4 500] show ?thesis by auto
qed

text \<open>\<open>lflclose\<close> frees the control block and leaves the whole file on the disk: the directory
  sector holds the directory, and the index and data blocks on the disk hold the contents.\<close>

theorem lflclose_saves:
  assumes "opened ni ds f X Y s cs p"
  shows "\<exists>s'. lflclose f s = Some (OK, s') \<and> lfstate (lfltab s' f) = LF_FREE
    \<and> dec_dir (sector (ram s') 0) = lf_dir s' \<and> closed ni ds (nat (lfdirptr (lfltab s f))) X Y (ram s') (lf_dir s') cs"
proof -
  from lflclose_ok [OF assms] obtain s' where "lflclose f s = Some (OK, s')" "lfstate (lfltab s' f) = LF_FREE"
    "closed ni ds (nat (lfdirptr (lfltab s f))) X Y (ram s') (lf_dir s') cs" "sector (ram s') 0 = enc_dir (lf_dir s')" by blast
  then show ?thesis using dec_enc_dir [of "lf_dir s'"] by (auto simp: closed_def)
qed

theorem lflclose_saves_witness:
  "\<exists>s s'. lflclose 0 s = Some (OK, s') \<and> closed 7 2 1 (set free_ibs) (set free_dbs_200) (ram s') (lf_dir s') [7, 8, 9]"
proof -
  obtain s where "opened 7 2 0 (set free_ibs) (set free_dbs_200) s [7, 8, 9] 3" "lfdirptr (lfltab s 0) = 1" using ex_open by blast
  then show ?thesis using lflclose_saves [of 7 2 0 "set free_ibs" "set free_dbs_200" s "[7, 8, 9]" 3] by auto
qed

text \<open>C34: truncating a file empties it and gives all its blocks back, none lost and none twice: the
  blocks the file has or can get are the same as before.\<close>

theorem truncate_empties:
  assumes "opened ni ds f X Y s cs p" "length (junk s) = 508"
  shows "\<exists>s'. lflcontrol f LF_CTL_TRUNC s = Some (OK, s') \<and> opened ni ds f X Y s' [] 0"
  using lflcontrol_ok [OF assms] by blast

theorem truncate_empties_witness:
  "\<exists>s s'. lflcontrol 0 LF_CTL_TRUNC s = Some (OK, s') \<and> opened 7 2 0 (set free_ibs) (set free_dbs_200) s' [] 0"
proof -
  obtain s where s: "opened 7 2 0 (set free_ibs) (set free_dbs_200) s [7, 8, 9] 3" "junk s = replicate 508 0" using ex_open by blast
  from truncate_empties [OF s(1)] s(2) show ?thesis by auto
qed

text \<open>C35: \<open>lfscreate\<close> for \<open>q\<close> index blocks makes a disk on which \<open>lfsckfmt\<close> counts \<open>q\<close> index blocks,
  rounded up to whole sectors, and all other sectors but the directory as data blocks.\<close>

theorem lfscreate_checked:
  assumes "0 < q" "q < 1000" "dsiz div 512 \<le> 200" "(q + 6) div 7 \<le> dsiz div 512 div 2" "(q + 6) div 7 + 1 < dsiz div 512"
  shows "\<exists>d'. lfscreate q dsiz d = Some (OK, d')
    \<and> lfsckfmt d' = Some (OK, 7 * ((q + 6) div 7), dsiz div 512 - (q + 6) div 7 - 1)"
proof -
  from lfscreate_run [OF assms(1,2) refl refl assms(3-5)] obtain d' where "lfscreate q dsiz d = Some (OK, d')"
    "fresh (7 * ((q + 6) div 7)) ((q + 6) div 7 + 1) (dsiz div 512) d'" by blast
  then show ?thesis using lfsckfmt_fresh by fastforce
qed

theorem lfscreate_checked_witness:
  "\<exists>d'. lfscreate 40 102400 (\<lambda>_. 0) = Some (OK, d') \<and> lfsckfmt d' = Some (OK, 42, 193)"
  using lfscreate_checked [of 40 102400 "\<lambda>_. 0"] by simp

text \<open>C36: What is written to a new file and closed is on the disk, in the blocks the directory
  sector names, and is read back when the file is opened again.\<close>

theorem file_persists:
  assumes "can_open name cs mode mb f dir s" "mb AND LF_MODE_O = 0" "mb AND LF_MODE_N = 0" "dir_at dir cs = None" "lfd_nfiles dir < 20"
    and "layout ni ds" "blocks_ok ni ds FI FD" "free_ok (ram s) dir FI FD"
    and "0 < n" "n \<le> 512 * int (length FD)" "n \<le> 8192 * int (length FI)"
  shows "\<exists>s1 s2 s3 s4 s5. lfsopen name mode s = Some (lfdev (lfltab s f), s1) \<and> lflwrite f buff n s1 = Some (n, s2)
    \<and> lflclose f s2 = Some (OK, s3)
    \<and> closed ni ds (nat (lfd_nfiles dir)) (set FI) (set FD) (ram s3) (dec_dir (sector (ram s3) 0)) (mbytes (umem s) buff (nat n))
    \<and> lfsopen name mode s3 = Some (lfdev (lfltab s f), s4)
    \<and> lflread f buff' n s4 = Some (n, s5) \<and> mbytes (umem s5) buff' (nat n) = mbytes (umem s) buff (nat n)"
  by (rule read_back [OF assms])

theorem file_persists_witness:
  "\<exists>s s1 s2 s3 s4 s5. lfsopen 100 102 s = Some (18, s1) \<and> lflwrite 0 103 3 s1 = Some (3, s2) \<and> lflclose 0 s2 = Some (OK, s3)
    \<and> lfsopen 100 102 s3 = Some (18, s4) \<and> lflread 0 500 3 s4 = Some (3, s5) \<and> mbytes (umem s5) 500 3 = [7, 8, 9]"
proof -
  from disk_dir obtain d dir where dd: "sector d 0 = enc_dir dir" "ok_dir dir" "named dir" "dir_at dir [102] = None" "lfd_nfiles dir = 1"
    "layout 7 2" "blocks_ok 7 2 free_ibs free_dbs_200" "free_ok d dir free_ibs free_dbs_200" by blast
  have n20: "lfd_nfiles dir < 20" using dd(5) by simp
  have f: "free_ok (ram (lfs_of d)) dir free_ibs free_dbs_200" using dd by simp
  have "(3 :: int) AND 8 = 0" "(3 :: int) AND 4 = 0" "(0 :: int) < 3" "3 \<le> 512 * int (length free_dbs_200)" "3 \<le> 8192 * int (length free_ibs)"
    using free_lengths by simp_all
  from file_persists [OF lfs_of_can [OF dd(1-3)] this(1,2) dd(4) n20 dd(6,7) f this(3-5), of 103 500] show ?thesis
    using lfs_args(3) by - (rule exI [of _ "lfs_of d"], auto)
qed

text \<open>C37: a new file is lost when nothing is written to it: \<open>lfsopen\<close> makes the entry in the
  directory in memory but does not mark the directory as changed, so that \<open>lflclose\<close> leaves the disk
  as it was.\<close>

theorem empty_file_lost:
  assumes "can_open name cs mode mb f dir s" "mb AND LF_MODE_O = 0" "dir_at dir cs = None" "lfd_nfiles dir < 20" "\<not> lf_dirdirty s"
    and "layout ni ds" "blocks_ok ni ds FI FD" "free_ok (ram s) dir FI FD"
  shows "\<exists>s1 s2. lfsopen name mode s = Some (lfdev (lfltab s f), s1) \<and> lflclose f s1 = Some (OK, s2)
    \<and> lf_dir s2 = new_dir cs dir \<and> ram s2 = ram s"
proof -
  from lfsopen_new [OF assms(1-4,6-8)] obtain s1 where s1: "lfsopen name mode s = Some (lfdev (lfltab s f), s1)" "opened0 ni ds f (set FI) (set FD) s1 [] 0"
    "ram s1 = ram s" "lf_dir s1 = new_dir cs dir" "\<not> lf_dirdirty s1" "lfltab s1 f = new_cb (lfd_nfiles dir) mb cs (lfltab s f)" using assms(5) by blast
  then have "lflclose f s1 = Some (OK, st s1 f (ram s1) (lf_dir s1) False ((lfltab s1 f)\<lparr>lfstate := LF_FREE\<rparr>))"
    by (auto simp: lflclose_def file_wait_st opened0_def new_cb_def intro!: arg_cong [where f = "st s1 f (ram s) (new_dir cs dir) False"])
  then show ?thesis using s1 by auto
qed

theorem empty_file_lost_witness:
  "\<exists>s s1 s2. lfsopen 100 102 s = Some (18, s1) \<and> lflclose 0 s1 = Some (OK, s2) \<and> lfd_nfiles (lf_dir s2) = 2
    \<and> lfd_nfiles (dec_dir (sector (ram s2) 0)) = 1"
proof -
  from disk_dir obtain d dir where dd: "sector d 0 = enc_dir dir" "ok_dir dir" "named dir" "dir_at dir [102] = None" "lfd_nfiles dir = 1"
    "layout 7 2" "blocks_ok 7 2 free_ibs free_dbs_200" "free_ok d dir free_ibs free_dbs_200" by blast
  note c = lfs_of_can [OF dd(1-3)]
  have "free_ok (ram (lfs_of d)) dir free_ibs free_dbs_200" "lfd_nfiles dir < 20" "(3 :: int) AND 8 = 0" using dd by simp_all
  moreover have "\<not> lf_dirdirty (lfs_of d)" by (simp add: lfs_of_def)
  ultimately obtain s1 s2 where
    "lfsopen 100 102 (lfs_of d) = Some (18, s1)" "lflclose 0 s1 = Some (OK, s2)" "lf_dir s2 = new_dir [102] dir" "ram s2 = d"
    using empty_file_lost [OF c _ dd(4) _ _ dd(6,7)] by auto
  then show ?thesis using dd(1,5) dec_enc_dir [OF dd(2)]
    by - (rule exI [of _ "lfs_of d"], rule exI [of _ s1], rule exI [of _ s2], simp add: new_dir_def)
qed

text \<open>C38: After the start nothing can be opened before \<open>lfscreate\<close> has made a file system:
  \<open>sysinit\<close> runs \<open>raminit\<close>, which fills the disk with the word \<open>hopeless\<close>; the first
  \<open>lfsopen\<close> takes sector 0 for the directory, finds the count \<open>0x65706f68\<close> of files in it
  and searches past the 20 entries of the array, whatever the name and the mode.\<close>

theorem unmade_disk_overrun:
  assumes "may_open name cs mode mb f s" "\<not> lf_dirpresent s" "ram s = snd (raminit d)"
  shows "lfd_nfiles (dec_dir (sector (ram s) 0)) = 0x65706f68 \<and> lfsopen name mode s = None"
  using start_disk [OF assms] start_count [of d] assms(3) by simp

theorem unmade_disk_overrun_witness: "lfsopen 100 102 (lfs_of (snd (raminit (\<lambda>_. 0)))) = None"
proof -
  have "may_open 100 [102] 102 3 0 (lfs_of (snd (raminit (\<lambda>_. 0))))"
    using lfs_args(1,2) by (simp add: may_open_def no_name_def first_free_def) (simp add: lfs_of_def)
  then show ?thesis using unmade_disk_overrun [of 100 "[102]" 102 3 0 "lfs_of (snd (raminit (\<lambda>_. 0)))" "\<lambda>_. 0"] by (simp add: lfs_of_def)
qed

end
