(* ===== verification/Tty.thy ===== *)
theory Tty
  imports Env Devs
begin

text \<open>
  The terminal driver: \<open>device/tty/\<close> with \<open>include/tty.h\<close> and \<open>include/uart.h\<close>, the interrupt
  vector of \<open>system/evec.c\<close> it registers with, and \<open>reshell\<close> of \<open>system/main.c\<close>.  The upper
  half runs in the calling process and may have to wait; the lower half runs in the interrupt.
  A pointer into one of the three buffers of a line is the index it points at; an access outside
  the buffer has no value.  \<open>char\<close> is unsigned, as it is for this compiler.  Text printed for
  debugging is left out.
\<close>

section \<open>Control block, device registers, state\<close>

abbreviation (input) TY_IBUFLEN :: int where "TY_IBUFLEN \<equiv> 128"
abbreviation (input) TY_OBUFLEN :: int where "TY_OBUFLEN \<equiv> 64"
abbreviation (input) TY_EBUFLEN :: int where "TY_EBUFLEN \<equiv> 20"

abbreviation (input) TY_BACKSP :: "8 word" where "TY_BACKSP \<equiv> 8"
abbreviation (input) TY_BELL :: "8 word" where "TY_BELL \<equiv> 7"
abbreviation (input) TY_EOFCH :: "8 word" where "TY_EOFCH \<equiv> 4"
abbreviation (input) TY_BLANK :: "8 word" where "TY_BLANK \<equiv> 32"
abbreviation (input) TY_NEWLINE :: "8 word" where "TY_NEWLINE \<equiv> 10"
abbreviation (input) TY_RETURN :: "8 word" where "TY_RETURN \<equiv> 13"
abbreviation (input) TY_STOPCH :: "8 word" where "TY_STOPCH \<equiv> 0x13"
abbreviation (input) TY_STRTCH :: "8 word" where "TY_STRTCH \<equiv> 0x11"
abbreviation (input) TY_KILLCH :: "8 word" where "TY_KILLCH \<equiv> 0x15"
abbreviation (input) TY_UPARROW :: "8 word" where "TY_UPARROW \<equiv> 0x5E"
abbreviation (input) TY_CTRLC :: "8 word" where "TY_CTRLC \<equiv> 3"
abbreviation (input) TY_ESC :: "8 word" where "TY_ESC \<equiv> 0x17"
abbreviation (input) TY_ARROW :: "8 word" where "TY_ARROW \<equiv> 0x5B"
abbreviation (input) TY_UP :: "8 word" where "TY_UP \<equiv> 0x41"
abbreviation (input) TY_DOWN :: "8 word" where "TY_DOWN \<equiv> 0x42"

datatype tymode = TY_IMRAW | TY_IMCOOKED | TY_IMCBREAK

record ttycblk =
  tyihead :: int
  tyitail :: int
  tyibuff :: bytes
  tyisem :: int
  tyohead :: int
  tyotail :: int
  tyobuff :: bytes
  tyosem :: int
  tyehead :: int
  tyetail :: int
  tyebuff :: bytes
  tyimode :: tymode
  tyiecho :: bool
  tyieback :: bool
  tyevis :: bool
  tyecrlf :: bool
  tyicrlf :: bool
  tyierase :: bool
  tyierasec :: "8 word"
  tyeof :: bool
  tyeofch :: "8 word"
  tyikill :: bool
  tyikillc :: "8 word"
  tyicursor :: int
  tyoflow :: bool
  tyoheld :: bool
  tyostop :: "8 word"
  tyostart :: "8 word"
  tyocrlf :: bool
  tyifullc :: "8 word"

text \<open>
  The registers of the uart the driver uses.  The receive side of \<open>buffer\<close> is the line of bytes
  that have arrived and were not read, the transmit side the bytes written so far.
\<close>

record uart_csreg =
  rbr :: "8 word list"
  thr :: "8 word list"
  ier :: int
  fcr :: int
  lcr :: int
  dll :: int
  dlm :: int
  mdr1 :: int
  txfifo_lvl :: int

text \<open>
  The whole state: the kernel, the one line there is (\<open>Ntty\<close> is 1), its uart, the interrupt
  vector with the mask registers of the interrupt controller, the process of the shell, and the
  static variables of \<open>ttyread.c\<close>.
\<close>

record ttys =
  kern :: kernel
  tty :: ttycblk
  csr :: uart_csreg
  intc_vector :: "int \<Rightarrow> int"
  mir :: "int \<Rightarrow> int"
  shellpid :: int
  chesc :: bool
  arrow :: bool
  tmpcmd :: int

section \<open>Code that may wait\<close>

text \<open>
  A run of driver code ends with a value, or the processor goes to another process in the middle:
  then the second part says how the code goes on when its process is switched in again.
\<close>

datatype 'a run = Done 'a ttys | Switched ttys "ttys \<Rightarrow> 'a run" | Undef

type_synonym 'a driver = "ttys \<Rightarrow> 'a run"

primrec continue_with :: "'a run \<Rightarrow> ('a \<Rightarrow> 'b driver) \<Rightarrow> 'b run" where
  "continue_with (Done x s) f = f x s"
| "continue_with (Switched s k) f = Switched s (\<lambda>s. continue_with (k s) f)"
| "continue_with Undef f = Undef"

definition bnd :: "'a driver \<Rightarrow> ('a \<Rightarrow> 'b driver) \<Rightarrow> 'b driver" where
  "bnd m f s = continue_with (m s) f"

definition seq :: "'a driver \<Rightarrow> 'b driver \<Rightarrow> 'b driver" where
  "seq m n s = continue_with (m s) (\<lambda>_. n)"

definition ret :: "'a \<Rightarrow> 'a driver" where
  "ret x s = Done x s"

definition skip :: "unit driver" where
  "skip s = Done () s"

definition undef :: "'a driver" where
  "undef s = Undef"

definition lift :: "'a option \<Rightarrow> 'a driver" where
  "lift x s = (case x of None \<Rightarrow> Undef | Some v \<Rightarrow> Done v s)"

text \<open>A call of the kernel, which may reschedule.\<close>

definition sys :: "(kernel \<Rightarrow> (int \<times> kernel) option) \<Rightarrow> int driver" where
  "sys f s =
     (case f (kern s) of None \<Rightarrow> Undef
      | Some (r, k) \<Rightarrow>
          if currpid k = currpid (kern s) then Done r (s\<lparr>kern := k\<rparr>)
          else Switched (s\<lparr>kern := k\<rparr>) (ret r))"

definition upd_tty :: "(ttycblk \<Rightarrow> ttycblk) \<Rightarrow> unit driver" where
  "upd_tty f s = Done () (s\<lparr>tty := f (tty s)\<rparr>)"

definition upd_csr :: "(uart_csreg \<Rightarrow> uart_csreg) \<Rightarrow> unit driver" where
  "upd_csr f s = Done () (s\<lparr>csr := f (csr s)\<rparr>)"

text \<open>A byte of a buffer of \<open>n\<close> bytes read and written.\<close>

definition bget :: "int \<Rightarrow> bytes \<Rightarrow> int \<Rightarrow> 8 word option" where
  "bget n b p = (if 0 \<le> p \<and> p < n then Some (b p) else None)"

definition bput :: "int \<Rightarrow> int \<Rightarrow> 8 word \<Rightarrow> bytes \<Rightarrow> bytes option" where
  "bput n p c b = (if 0 \<le> p \<and> p < n then Some (b(p := c)) else None)"

section \<open>Interrupt vector\<close>

definition set_evec :: "int \<Rightarrow> int \<Rightarrow> int driver" where
  "set_evec xnum handler s =
     (if xnum > 127 then Done SYSERR s
      else if xnum < 0 then Undef
      else
        let bank = xnum div 32; mask = 2 ^ nat (xnum mod 32)
        in Done OK (s\<lparr>intc_vector := (intc_vector s)(xnum := handler),
             mir := (mir s)(bank := and (mir s bank) (u32 (not mask)))\<rparr>))"

text \<open>The handler is called by its address, with the number the controller reports.\<close>

definition irq_dispatch :: "(int \<Rightarrow> int \<Rightarrow> unit driver) \<Rightarrow> int \<Rightarrow> unit driver" where
  "irq_dispatch handler sir_irq s =
     (let xnum = and sir_irq 0x7F
      in if intc_vector s xnum \<noteq> 0 then handler (intc_vector s xnum) xnum s else Done () s)"

section \<open>The upper half\<close>

abbreviation (input) UART_IER_ERBFI :: int where "UART_IER_ERBFI \<equiv> 1"
abbreviation (input) UART_IER_ETBEI :: int where "UART_IER_ETBEI \<equiv> 2"

definition ttykickout :: "unit driver" where
  "ttykickout = upd_csr (\<lambda>c. c\<lparr>ier := or UART_IER_ERBFI UART_IER_ETBEI\<rparr>)"

definition tty_start :: "int \<Rightarrow> int \<Rightarrow> ttycblk \<Rightarrow> ttycblk" where
  "tty_start isem osem t = t\<lparr>tyihead := 0, tyitail := 0, tyisem := isem,
     tyohead := 0, tyotail := 0, tyosem := osem, tyehead := 0, tyetail := 0,
     tyimode := TY_IMCOOKED, tyiecho := True, tyieback := True, tyevis := True, tyecrlf := True,
     tyicrlf := True, tyierase := True, tyierasec := TY_BACKSP, tyeof := True, tyeofch := TY_EOFCH,
     tyikill := True, tyikillc := TY_KILLCH, tyicursor := 0, tyoflow := True, tyoheld := False,
     tyostop := TY_STOPCH, tyostart := TY_STRTCH, tyocrlf := True, tyifullc := TY_BELL\<rparr>"

text \<open>\<open>UART_LCR_8N1\<close> is 3; the last value of \<open>fcr\<close> enables and resets the two queues and sets the
  trigger level 2.  The arguments are the fields of the device switch entry.\<close>

definition ttyinit :: "int \<Rightarrow> int \<Rightarrow> int driver" where
  "ttyinit irq intr =
     bnd (sys (semcreate 0)) (\<lambda>isem.
     bnd (sys (semcreate TY_OBUFLEN)) (\<lambda>osem.
     seq (upd_tty (tty_start isem osem))
    (seq (upd_csr (\<lambda>c. c\<lparr>dlm := 0, dll := 26, lcr := 3, fcr := 0\<rparr>))
    (seq (set_evec irq intr)
    (seq (upd_csr (\<lambda>c. c\<lparr>fcr := 0x87, rbr := [], mdr1 := 0\<rparr>))
    (seq ttykickout (ret OK)))))))"

text \<open>The second part of \<open>ttyputc\<close>: one character is put into the output buffer.\<close>

definition out_char :: "8 word \<Rightarrow> unit driver" where
  "out_char ch s =
     (let t = tty s in
      case bput TY_OBUFLEN (tyotail t) ch (tyobuff t) of None \<Rightarrow> Undef
      | Some b \<Rightarrow>
          let t = t\<lparr>tyobuff := b, tyotail := tyotail t + 1\<rparr>;
              t = (if tyotail t \<ge> TY_OBUFLEN then t\<lparr>tyotail := 0\<rparr> else t)
          in ttykickout (s\<lparr>tty := t\<rparr>))"

definition put_one :: "8 word \<Rightarrow> int driver" where
  "put_one ch = (\<lambda>s. seq (sys (wait (tyosem (tty s)))) (seq (out_char ch) (ret OK)) s)"

definition ttyputc :: "8 word \<Rightarrow> int driver" where
  "ttyputc ch = (\<lambda>s. if ch = TY_NEWLINE \<and> tyocrlf (tty s) then seq (put_one TY_RETURN) (put_one ch) s
     else put_one ch s)"

primrec write_loop :: "nat \<Rightarrow> int \<Rightarrow> unit driver" where
  "write_loop 0 buff = skip"
| "write_loop (Suc n) buff = (\<lambda>s. seq (ttyputc (mem (kern s) buff)) (write_loop n (buff + 1)) s)"

definition ttywrite :: "int \<Rightarrow> int \<Rightarrow> int driver" where
  "ttywrite buff count =
     (if count < 0 then ret SYSERR
      else if count = 0 then ret OK
      else seq (write_loop (nat count) buff) (ret OK))"

text \<open>The second part of \<open>ttygetc\<close>: one character is taken from the input buffer.\<close>

definition in_char :: "int driver" where
  "in_char s =
     (let t = tty s in
      case bget TY_IBUFLEN (tyibuff t) (tyihead t) of None \<Rightarrow> Undef
      | Some ch \<Rightarrow>
          let t = t\<lparr>tyihead := tyihead t + 1\<rparr>;
              t = (if tyihead t \<ge> TY_IBUFLEN then t\<lparr>tyihead := 0\<rparr> else t)
          in Done (if tyimode t = TY_IMCOOKED \<and> tyeof t \<and> ch = tyeofch t then EOF else uint ch) (s\<lparr>tty := t\<rparr>))"

definition ttygetc :: "int driver" where
  "ttygetc = (\<lambda>s. seq (sys (wait (tyisem (tty s)))) in_char s)"

text \<open>\<open>ttychkspecial\<close> returns an unsigned 8-bit number: the \<open>-1\<close> of the down arrow is 255.\<close>

definition shell_waits :: "ttys \<Rightarrow> bool" where
  "shell_waits s \<longleftrightarrow> shellpid s \<noteq> 0 \<and> prstate (proctab (kern s) (shellpid s)) = PR_WAIT"

definition ttychkspecial :: "8 word \<Rightarrow> int driver" where
  "ttychkspecial ch s =
     (if ch = TY_ESC then Done 0 (s\<lparr>chesc := True, arrow := False\<rparr>)
      else if ch = TY_ARROW then Done 0 (s\<lparr>arrow := chesc s\<rparr>)
      else if ch = TY_UP then
        if arrow s \<and> chesc s \<and> shell_waits s then Done 1 (s\<lparr>arrow := False, chesc := False\<rparr>) else Done 0 s
      else if ch = TY_DOWN then
        if arrow s \<and> chesc s \<and> shell_waits s then Done 255 (s\<lparr>arrow := False, chesc := False\<rparr>) else Done 0 s
      else Done 0 (s\<lparr>chesc := False, arrow := False\<rparr>))"

definition next_of :: "bytes \<Rightarrow> int \<Rightarrow> int" where
  "next_of m p = ld32 m (p + 8)"

definition store :: "int \<Rightarrow> 8 word \<Rightarrow> unit driver" where
  "store a ch s = Done () (s\<lparr>kern := (kern s)\<lparr>mem := (mem (kern s))(a := ch)\<rparr>\<rparr>)"

primrec erase_loop :: "nat \<Rightarrow> unit driver" where
  "erase_loop 0 = skip"
| "erase_loop (Suc n) = (\<lambda>s. seq (ttyputc (tyierasec (tty s))) (erase_loop n) s)"

text \<open>
  What \<open>ttyread\<close> does for an arrow key: the line is erased, the counter runs down to \<open>-1\<close>, and
  the place to read to becomes the command of the history.  The result is the new place and count.
\<close>

definition recall_down :: "int \<Rightarrow> int \<times> int \<Rightarrow> (int \<times> int) driver" where
  "recall_down chkarrow bn = (\<lambda>s. let m = mem (kern s) in
     if chkarrow = -1 \<and> next_of m (tmpcmd s) \<noteq> 0 then
       let b = str_of m (next_of m (tmpcmd s))
       in bnd (lift (strlen m b)) (\<lambda>n. ret (b, n)) (s\<lparr>tmpcmd := next_of m (tmpcmd s)\<rparr>)
     else ret bn s)"

definition recall_up :: "int \<Rightarrow> int \<times> int \<Rightarrow> (int \<times> int) driver" where
  "recall_up chkarrow bn = (\<lambda>s. let m = mem (kern s) in
     if chkarrow = 1 \<and> prev_of m (tmpcmd s) \<noteq> 0 then
       let b = str_of m (tmpcmd s)
       in bnd (lift (strlen m b)) (\<lambda>n. ret (b, n)) (s\<lparr>tmpcmd := prev_of m (tmpcmd s)\<rparr>)
     else ret bn s)"

definition recall :: "int \<Rightarrow> int \<Rightarrow> int \<Rightarrow> (int \<times> int) driver" where
  "recall chkarrow buff nread = (\<lambda>s.
     if tmpcmd s \<noteq> 0 \<and> str_of (mem (kern s)) (tmpcmd s) \<noteq> 0 then
       seq (erase_loop (nat nread))
      (bnd (recall_down chkarrow (buff - nread, -1)) (\<lambda>bn.
       bnd (recall_up chkarrow bn) (\<lambda>bn.
       if snd bn > 0 then seq (ttywrite (fst bn) (snd bn)) (ret bn) else ret bn))) s
     else ret (buff, nread) s)"

text \<open>
  The loop of \<open>ttyread\<close>.  Without an arrow key it takes a character per round and \<open>count\<close> rounds
  are enough; a recalled command starts the count anew, so the rounds are a parameter.
\<close>

primrec read_loop :: "nat \<Rightarrow> int \<Rightarrow> int \<Rightarrow> int \<Rightarrow> 8 word \<Rightarrow> int driver" where
  "read_loop 0 buff nread count ch = undef"
| "read_loop (Suc n) buff nread count ch =
     (if nread < count \<and> ch \<noteq> TY_NEWLINE \<and> ch \<noteq> TY_RETURN then
        bnd ttygetc (\<lambda>c. let ch = word_of_int c in
        seq (store buff ch)
       (bnd (ttychkspecial ch) (\<lambda>chkarrow.
        if chkarrow \<noteq> 0 then
          bnd (recall chkarrow (buff + 1) (nread + 1)) (\<lambda>bn. read_loop n (fst bn) (snd bn) count ch)
        else read_loop n (buff + 1) (nread + 1) count ch)))
      else ret nread)"

primrec raw_loop :: "nat \<Rightarrow> int \<Rightarrow> unit driver" where
  "raw_loop 0 buff = skip"
| "raw_loop (Suc n) buff = bnd ttygetc (\<lambda>c. seq (store buff (word_of_int c)) (raw_loop n (buff + 1)))"

text \<open>The rest of \<open>ttyread\<close> after its first character.\<close>

definition read_rest :: "nat \<Rightarrow> int \<Rightarrow> int \<Rightarrow> int \<Rightarrow> int driver" where
  "read_rest rounds buff count firstch =
     (if firstch = EOF then ret EOF
      else let ch = word_of_int firstch in
        seq (store buff ch) (seq (ttychkspecial ch) (read_loop rounds (buff + 1) 1 count ch)))"

definition ttyread :: "nat \<Rightarrow> int \<Rightarrow> int \<Rightarrow> int driver" where
  "ttyread rounds buff count s =
     (let s = (if tmpcmd s = 0 then s\<lparr>tmpcmd := cmdhistory (kern s)\<rparr> else s) in
      if count < 0 then Done SYSERR s
      else if tyimode (tty s) \<noteq> TY_IMCOOKED then
        let avail = semcount (tyisem (tty s)) (kern s)
        in if count = 0 \<and> avail = 0 then Done 0 s
           else
             let count = (if count = 0 then avail else count)
             in seq (raw_loop (nat count) buff) (ret (max 0 count)) s
      else
        bnd ttygetc (read_rest rounds buff count) s)"

definition ttycontrol :: "int \<Rightarrow> int driver" where
  "ttycontrol func = (\<lambda>s.
     if func = 3 then
       seq (sys (wait (tyisem (tty s)))) (\<lambda>s.
         bnd (lift (bget TY_IBUFLEN (tyibuff (tty s)) (tyitail (tty s)))) (\<lambda>ch.
         seq (sys (signal (tyisem (tty s)))) (ret (uint ch))) s) s
     else if func = 4 then seq (upd_tty (\<lambda>t. t\<lparr>tyimode := TY_IMRAW\<rparr>)) (ret OK) s
     else if func = 5 then seq (upd_tty (\<lambda>t. t\<lparr>tyimode := TY_IMCOOKED\<rparr>)) (ret OK) s
     else if func = 6 then seq (upd_tty (\<lambda>t. t\<lparr>tyimode := TY_IMCBREAK\<rparr>)) (ret OK) s
     else if func = 8 then ret (semcount (tyisem (tty s)) (kern s)) s
     else if func = 9 then seq (upd_tty (\<lambda>t. t\<lparr>tyiecho := True\<rparr>)) (ret OK) s
     else if func = 10 then seq (upd_tty (\<lambda>t. t\<lparr>tyiecho := False\<rparr>)) (ret OK) s
     else ret SYSERR s)"

section \<open>The lower half: output\<close>

text \<open>The two loops of \<open>ttyhandle_out\<close>, over the space that is left in the uart.\<close>

primrec echo_loop :: "nat \<Rightarrow> ttys \<Rightarrow> (nat \<times> ttys) option" where
  "echo_loop 0 s = Some (0, s)"
| "echo_loop (Suc u) s =
     (let t = tty s in
      if tyehead t \<noteq> tyetail t then
        case bget TY_EBUFLEN (tyebuff t) (tyehead t) of None \<Rightarrow> None
        | Some ch \<Rightarrow>
            let t = t\<lparr>tyehead := tyehead t + 1\<rparr>;
                t = (if tyehead t \<ge> TY_EBUFLEN then t\<lparr>tyehead := 0\<rparr> else t)
            in echo_loop u (s\<lparr>tty := t, csr := (csr s)\<lparr>thr := thr (csr s) @ [ch]\<rparr>\<rparr>)
      else Some (Suc u, s))"

primrec send_loop :: "nat \<Rightarrow> int \<Rightarrow> int \<Rightarrow> ttys \<Rightarrow> (int \<times> ttys) option" where
  "send_loop 0 avail ochars s = Some (ochars, s)"
| "send_loop (Suc u) avail ochars s =
     (let t = tty s in
      if avail > 0 then
        case bget TY_OBUFLEN (tyobuff t) (tyohead t) of None \<Rightarrow> None
        | Some ch \<Rightarrow>
            let t = t\<lparr>tyohead := tyohead t + 1\<rparr>;
                t = (if tyohead t \<ge> TY_OBUFLEN then t\<lparr>tyohead := 0\<rparr> else t)
            in send_loop u (avail - 1) (ochars + 1) (s\<lparr>tty := t, csr := (csr s)\<lparr>thr := thr (csr s) @ [ch]\<rparr>\<rparr>)
      else Some (ochars, s))"

definition all_sent :: "ttys \<Rightarrow> bool" where
  "all_sent s \<longleftrightarrow> tyehead (tty s) = tyetail (tty s) \<and> semcount (tyosem (tty s)) (kern s) \<ge> TY_OBUFLEN"

definition tx_off :: "unit driver" where
  "tx_off = upd_csr (\<lambda>c. c\<lparr>ier := and (ier c) (u32 (not UART_IER_ETBEI))\<rparr>)"

definition ttyhandle_out :: "unit driver" where
  "ttyhandle_out s =
     (if tyoheld (tty s) then Done () s
      else if all_sent s then tx_off s
      else
        case echo_loop (nat (64 - txfifo_lvl (csr s))) s of None \<Rightarrow> Undef
        | Some (uspace, s) \<Rightarrow>
            case send_loop uspace (TY_OBUFLEN - semcount (tyosem (tty s)) (kern s)) 0 s of None \<Rightarrow> Undef
            | Some (ochars, s) \<Rightarrow>
                seq (if ochars > 0 then sys (signaln (tyosem (tty s)) ochars) else ret OK)
                    (\<lambda>s. if all_sent s then tx_off s else Done () s) s)"

section \<open>The lower half: input\<close>

definition eputc :: "8 word \<Rightarrow> unit driver" where
  "eputc ch s =
     (let t = tty s in
      case bput TY_EBUFLEN (tyetail t) ch (tyebuff t) of None \<Rightarrow> Undef
      | Some b \<Rightarrow>
          let t = t\<lparr>tyebuff := b, tyetail := tyetail t + 1\<rparr>;
              t = (if tyetail t \<ge> TY_EBUFLEN then t\<lparr>tyetail := 0\<rparr> else t)
          in ttykickout (s\<lparr>tty := t\<rparr>))"

definition echoch :: "8 word \<Rightarrow> unit driver" where
  "echoch ch = (\<lambda>s.
     if (ch = TY_NEWLINE \<or> ch = TY_RETURN) \<and> tyecrlf (tty s) then
       seq (eputc TY_RETURN) (eputc TY_NEWLINE) s
     else if (ch < TY_BLANK \<or> ch = 0x7F) \<and> tyevis (tty s) then
       seq (eputc TY_UPARROW) (eputc (ch + 0x40)) s
     else eputc ch s)"

text \<open>One position of the screen is taken back.\<close>

definition erase_pos :: "unit driver" where
  "erase_pos = seq (eputc TY_BACKSP) (\<lambda>s.
     if tyieback (tty s) then seq (eputc TY_BLANK) (eputc TY_BACKSP) s else skip s)"

definition erase1 :: "unit driver" where
  "erase1 s =
     (let t = tty s;
          t = t\<lparr>tyitail := tyitail t - 1\<rparr>;
          t = (if tyitail t < 0 then t\<lparr>tyitail := tyitail t + TY_IBUFLEN\<rparr> else t)
      in case bget TY_IBUFLEN (tyibuff t) (tyitail t) of None \<Rightarrow> Undef
         | Some ch \<Rightarrow>
             (if tyiecho t then
                if ch < TY_BLANK \<or> ch = 0x7F then seq (if tyevis t then erase_pos else skip) erase_pos
                else erase_pos
              else skip) (s\<lparr>tty := t\<rparr>))"

text \<open>\<open>*typtr->tyitail++ = ch\<close>, and the same with the wrap that follows it in most places.\<close>

definition put_in :: "8 word \<Rightarrow> unit driver" where
  "put_in ch s =
     (let t = tty s in
      case bput TY_IBUFLEN (tyitail t) ch (tyibuff t) of None \<Rightarrow> Undef
      | Some b \<Rightarrow> Done () (s\<lparr>tty := t\<lparr>tyibuff := b, tyitail := tyitail t + 1\<rparr>\<rparr>))"

definition put_wrap :: "8 word \<Rightarrow> unit driver" where
  "put_wrap ch = seq (put_in ch)
     (upd_tty (\<lambda>t. if tyitail t \<ge> TY_IBUFLEN then t\<lparr>tyitail := 0\<rparr> else t))"

definition echo_in :: "8 word \<Rightarrow> unit driver" where
  "echo_in ch = (\<lambda>s. if tyiecho (tty s) then echoch ch s else skip s)"

definition raw_in :: "int \<Rightarrow> 8 word \<Rightarrow> unit driver" where
  "raw_in avail ch =
     (if avail \<ge> TY_IBUFLEN then skip
      else seq (put_in ch)
          (seq (upd_tty (\<lambda>t. if tyotail t \<ge> TY_OBUFLEN then t\<lparr>tyotail := 0\<rparr> else t))
          (\<lambda>s. seq (sys (signal (tyisem (tty s)))) skip s)))"

definition cbreak_in :: "int \<Rightarrow> 8 word \<Rightarrow> unit driver" where
  "cbreak_in avail ch = (\<lambda>s.
     if avail \<ge> TY_IBUFLEN then eputc (tyifullc (tty s)) s
     else seq (put_wrap ch) (echo_in ch) s)"

definition kill_line :: "unit driver" where
  "kill_line = seq (upd_tty (\<lambda>t.
       let t = t\<lparr>tyitail := tyitail t - tyicursor t\<rparr>;
           t = (if tyitail t < 0 then t\<lparr>tyihead := tyihead t + TY_IBUFLEN\<rparr> else t)
       in t\<lparr>tyicursor := 0\<rparr>))
     (seq (eputc TY_RETURN) (eputc TY_NEWLINE))"

definition end_line :: "8 word \<Rightarrow> unit driver" where
  "end_line ch = seq (echo_in ch) (seq (put_wrap ch)
     (\<lambda>s. seq (sys (signaln (tyisem (tty s)) (tyicursor (tty s) + 1))) (upd_tty (\<lambda>t. t\<lparr>tyicursor := 0\<rparr>)) s))"

definition end_file :: "8 word \<Rightarrow> unit driver" where
  "end_file ch = seq (echo_in ch) (\<lambda>s.
     if tyicursor (tty s) \<noteq> 0 then skip s
     else seq (put_in ch) (\<lambda>s. seq (sys (signal (tyisem (tty s)))) skip s) s)"

definition avail_in :: "ttys \<Rightarrow> int" where
  "avail_in s = max 0 (semcount (tyisem (tty s)) (kern s))"

definition cooked_in :: "8 word \<Rightarrow> unit driver" where
  "cooked_in ch = (\<lambda>s.
     if ch = tyikillc (tty s) \<and> tyikill (tty s) then kill_line s
     else if ch = tyierasec (tty s) \<and> tyierase (tty s) then
       if tyicursor (tty s) > 0 then seq (upd_tty (\<lambda>t. t\<lparr>tyicursor := tyicursor t - 1\<rparr>)) erase1 s else skip s
     else if ch = TY_NEWLINE \<or> ch = TY_RETURN then end_line ch s
     else if avail_in s + tyicursor (tty s) \<ge> TY_IBUFLEN - 1 then eputc (tyifullc (tty s)) s
     else if ch = tyeofch (tty s) \<and> tyeof (tty s) then end_file ch s
     else seq (echo_in ch) (seq (upd_tty (\<lambda>t. t\<lparr>tyicursor := tyicursor t + 1\<rparr>)) (put_wrap ch)) s)"

definition reshell :: "int driver" where
  "reshell = (\<lambda>s. seq (sys (send (shellpid s) NULLPROC)) (ret OK) s)"

definition handle_char :: "8 word \<Rightarrow> unit driver" where
  "handle_char ch = (\<lambda>s.
     let avail = avail_in s in
     if tyimode (tty s) = TY_IMRAW then raw_in avail ch s
     else
       let ch = (if ch = TY_RETURN \<and> tyicrlf (tty s) then TY_NEWLINE else ch) in
       if tyoflow (tty s) \<and> ch = tyostart (tty s) then
         seq (upd_tty (\<lambda>t. t\<lparr>tyoheld := False\<rparr>)) ttykickout s
       else if tyoflow (tty s) \<and> ch = tyostop (tty s) then upd_tty (\<lambda>t. t\<lparr>tyoheld := True\<rparr>) s
       else seq (upd_tty (\<lambda>t. t\<lparr>tyoheld := False\<rparr>))
              (if tyimode (tty s) = TY_IMCBREAK then cbreak_in avail ch else cooked_in ch) s)"

definition ttyhandle_in :: "unit driver" where
  "ttyhandle_in s =
     (case rbr (csr s) of [] \<Rightarrow> Undef
      | ch # rest \<Rightarrow>
          (if ch = TY_CTRLC then seq reshell skip
           else if ch = TY_BELL then
             seq (sys (setenv 3 0)) (seq (sys (setenv EV_DBGROUP 0)) skip)
           else handle_char ch) (s\<lparr>csr := (csr s)\<lparr>rbr := rest\<rparr>\<rparr>))"

text \<open>
  The loop of \<open>ttyhandler\<close>: a character is handled as long as the line status says that one is
  there.  The number is that of the characters that are in the uart when the loop starts.
\<close>

primrec rx_loop :: "nat \<Rightarrow> unit driver" where
  "rx_loop 0 = skip"
| "rx_loop (Suc n) = seq ttyhandle_in (rx_loop n)"

definition ttyhandler :: "int \<Rightarrow> int \<Rightarrow> unit driver" where
  "ttyhandler iir lsr = (\<lambda>s.
     if and iir 1 \<noteq> 0 then skip s
     else
       let iir = and iir 0x0E in
       if iir = 0x06 then
         (if and lsr 0x10 \<noteq> 0 then upd_csr (\<lambda>c. c\<lparr>rbr := tl (rbr c)\<rparr>) s else skip s)
       else if iir = 0x04 \<or> iir = 0x0C then
         seq (sys (resched_cntl DEFER_START))
        (seq (rx_loop (length (rbr (csr s))))
        (seq (sys (resched_cntl DEFER_STOP)) skip)) s
       else if iir = 0x02 then ttyhandle_out s
       else skip s)"

end
