(* ===== verification/TtyK.thy ===== *)
theory TtyK
  imports Tty KSpec
begin

text \<open>
  What the driver proofs need of the kernel: while rescheduling is deferred no call gives the
  processor away, and a signal raises the count of one semaphore.
\<close>

section \<open>Calls that keep the processor\<close>

definition stays :: "kernel \<Rightarrow> kernel \<Rightarrow> bool" where
  "stays s s' \<longleftrightarrow> currpid s' = currpid s \<and> ndefers s' = ndefers s"

lemma stays_refl [simp]: "stays s s" by (simp add: stays_def)

lemma stays_trans: "stays s t \<Longrightarrow> stays t u \<Longrightarrow> stays s u" by (simp add: stays_def)

lemma record_stays: "record_cpuqdata p s = Some (r, s') \<Longrightarrow> stays s s'"
  by (auto simp: record_cpuqdata_def Let_def stays_def upd_proc_def cputime_def split: if_splits Option.bind_splits)

lemma refresh_stays: "refresh_prio p s = Some s' \<Longrightarrow> stays s s'"
  unfolding refresh_prio_def setprio_def
  by (auto simp: rand_def Let_def stays_def upd_proc_def dest!: record_stays split: if_splits Option.bind_splits)

lemma insert_stays: "insert_q p q k s = Some (r, s') \<Longrightarrow> stays s s'"
  by (auto simp: insert_q_def stays_def Let_def split: if_splits Option.bind_splits)

lemma dequeue_stays: "dequeue q s = Some (r, s') \<Longrightarrow> stays s s'"
  by (auto simp: dequeue_def getfirst_def getitem_def stays_def Let_def split: if_splits Option.bind_splits)

lemma ready_stays:
  assumes "ready p s = Some (r, s')" "0 < ndefers s" shows "stays s s'"
  using assms by (auto simp: ready_def set_state_def upd_proc_def Let_def resched_def stays_def
      dest!: record_stays refresh_stays insert_stays split: if_splits Option.bind_splits)

lemma sem_up_stays:
  assumes "sem_up sem s = Some s'" "0 < ndefers s" shows "stays s s'"
  using assms by (auto simp: sem_up_def upd_sem_def stays_def dest!: dequeue_stays ready_stays split: if_splits Option.bind_splits)

lemma signal_stays:
  assumes "signal sem s = Some (r, s')" "0 < ndefers s" shows "stays s s'"
  using assms by (auto simp: signal_def dest!: sem_up_stays split: if_splits Option.bind_splits)

lemma signaln_loop_stays:
  "signaln_loop sem (int n) s = Some s' \<Longrightarrow> 0 < ndefers s \<Longrightarrow> stays s s'"
proof (induction n arbitrary: s)
  case 0
  then show ?case by (simp add: signaln_loop.simps)
next
  case (Suc n)
  from Suc.prems(1) obtain t where t: "sem_up sem s = Some t" "signaln_loop sem (int n) t = Some s'"
    by (subst (asm) signaln_loop.simps) (auto split: Option.bind_splits)
  have "stays s t" by (rule sem_up_stays [OF t(1) Suc.prems(2)])
  moreover from this have "stays t s'" by (intro Suc.IH [OF t(2)]) (use Suc.prems(2) in \<open>simp add: stays_def\<close>)
  ultimately show ?case by (rule stays_trans)
qed

lemma signaln_stays:
  assumes "signaln sem (int n) s = Some (r, s')" "0 < ndefers s" shows "stays s s'"
proof (cases "isbadsem sem \<or> sstate (semtab s sem) = S_FREE")
  case True
  then show ?thesis using assms by (auto simp: signaln_def sement_def isbadsem_def split: if_splits)
next
  case False
  define t where "t = s\<lparr>ndefers := ndefers s + 1\<rparr>"
  have st: "resched_cntl DEFER_START s = Some (OK, t)" using assms(2) by (simp add: resched_cntl_def t_def)
  obtain u r'  where u: "signaln_loop sem (int n) t = Some u" "resched_cntl DEFER_STOP u = Some (r', s')"
    using assms(1) False st by (auto simp: signaln_def sement_def isbadsem_def split: if_splits Option.bind_splits)
  have "stays t u" by (rule signaln_loop_stays [OF u(1)]) (use assms(2) in \<open>simp add: t_def\<close>)
  then have "currpid u = currpid s" "ndefers u = ndefers s + 1" by (simp_all add: stays_def t_def)
  then show ?thesis using u(2) assms(2) by (auto simp: resched_cntl_def stays_def Let_def split: if_splits)
qed

section \<open>A semaphore of the driver\<close>

definition ksem :: "kernel \<Rightarrow> int \<Rightarrow> int \<Rightarrow> bool" where
  "ksem k sem c \<longleftrightarrow> (\<exists>Q. kinv k Q \<and> semrel k Q) \<and> 0 \<le> sem \<and> sem < NSEM
     \<and> sstate (semtab k sem) = S_USED \<and> scount (semtab k sem) = c"

lemma ksem_count: "ksem k sem c \<Longrightarrow> semcount sem k = c"
  by (simp add: ksem_def semcount_def isbadsem_def)

text \<open>What an interrupt that raises a semaphore leaves alone.\<close>

definition kstill :: "kernel \<Rightarrow> kernel \<Rightarrow> bool" where
  "kstill k k' \<longleftrightarrow> mem k' = mem k \<and> envtab k' = envtab k \<and> stays k k' \<and> cmdhistory k' = cmdhistory k"

lemma kstill_refl [simp]: "kstill k k" by (simp add: kstill_def)

lemma kstill_trans: "kstill k t \<Longrightarrow> kstill t u \<Longrightarrow> kstill k u"
  using stays_trans by (auto simp: kstill_def)

lemma fold_mkst_keeps [simp]:
  "mem (fold (mkst st) xs s) = mem s" "envtab (fold (mkst st) xs s) = envtab s"
  "cmdhistory (fold (mkst st) xs s) = cmdhistory s" "semtab (fold (mkst st) xs s) = semtab s"
  by (induction xs arbitrary: s) (simp_all add: mkst_def)

lemma abs_up_fields [simp]:
  "mem (abs_up sem xs n s) = mem s" "envtab (abs_up sem xs n s) = envtab s" "cmdhistory (abs_up sem xs n s) = cmdhistory s"
  "semtab (abs_up sem xs n s) = (semtab s)(sem := (semtab s sem)\<lparr>scount := scount (semtab s sem) + n\<rparr>)"
  by (simp_all add: abs_up_def)

lemma raised:
  assumes st: "settled (abs_up sem xs n k) (Q(squeue (semtab k sem) := drop (nat n) (Q (squeue (semtab k sem))))) k' Q'"
    and k: "kinv k Q" "semrel k Q" "0 \<le> sem" "sem < 100" "sstate (semtab k sem) = S_USED" and n: "0 \<le> n"
    and s: "stays k k'"
  shows "ksem k' sem (scount (semtab k sem) + n)" "kstill k k'"
    "semtab k' = (semtab k)(sem := (semtab k sem)\<lparr>scount := scount (semtab k sem) + n\<rparr>)"
proof -
  note F = sframeD [OF settledD(2) [OF st]]
  show sm: "semtab k' = (semtab k)(sem := (semtab k sem)\<lparr>scount := scount (semtab k sem) + n\<rparr>)" using F by simp
  have "semrel k' Q'"
    by (rule semrel_settled [OF st semrel_abs_up [OF kpreD(1) [OF kinv_kpre [OF k(1)]] k(2,3,4) n]])
  then show "ksem k' sem (scount (semtab k sem) + n)" using settledD(1) [OF st] k sm by (auto simp: ksem_def)
  show "kstill k k'" using F s by (simp add: kstill_def)
qed

lemma ksem_signal:
  assumes "ksem k sem c" "0 < ndefers k" "c + 1 < 2147483648"
  shows "\<exists>k'. signal sem k = Some (OK, k') \<and> ksem k' sem (c + 1) \<and> kstill k k'
    \<and> semtab k' = (semtab k)(sem := (semtab k sem)\<lparr>scount := c + 1\<rparr>)"
proof -
  obtain Q where Q: "kinv k Q" "semrel k Q" and i: "0 \<le> sem" "sem < 100" "sstate (semtab k sem) = S_USED" "scount (semtab k sem) = c"
    using assms(1) by (auto simp: ksem_def)
  obtain k' Q' where R: "signal sem k = Some (OK, k')"
    "settled (abs_up sem (take 1 (Q (squeue (semtab k sem)))) 1 k) (Q(squeue (semtab k sem) := drop 1 (Q (squeue (semtab k sem))))) k' Q'"
    using sem_signal_ok [OF Q i(1-3)] assms(3) i(4) by auto
  have "settled (abs_up sem (take 1 (Q (squeue (semtab k sem)))) 1 k) (Q(squeue (semtab k sem) := drop (nat 1) (Q (squeue (semtab k sem))))) k' Q'"
    using R(2) by simp
  note U = raised [OF this Q i(1-3) _ signal_stays [OF R(1) assms(2)]]
  show ?thesis using U R(1) i(4) by auto
qed

lemma ksem_signaln:
  assumes "ksem k sem c" "0 < ndefers k" "c + int n < 2147483648"
  shows "\<exists>k'. signaln sem (int n) k = Some (OK, k') \<and> ksem k' sem (c + int n) \<and> kstill k k'
    \<and> semtab k' = (semtab k)(sem := (semtab k sem)\<lparr>scount := c + int n\<rparr>)"
proof -
  obtain Q where Q: "kinv k Q" "semrel k Q" and i: "0 \<le> sem" "sem < 100" "sstate (semtab k sem) = S_USED" "scount (semtab k sem) = c"
    using assms(1) by (auto simp: ksem_def)
  have n: "0 \<le> ndefers k" "0 \<le> int n" "scount (semtab k sem) + int n < 2147483648" using assms i by simp_all
  obtain k' Q' where R: "signaln sem (int n) k = Some (OK, k')"
    "settled (abs_up sem (take (nat (int n)) (Q (squeue (semtab k sem)))) (int n) k)
       (Q(squeue (semtab k sem) := drop (nat (int n)) (Q (squeue (semtab k sem))))) k' Q'"
    using signaln_ok [OF Q n(1) i(1-3) n(2,3)] by auto
  note U = raised [OF R(2) Q i(1-3) _ signaln_stays [OF R(1) assms(2)]]
  show ?thesis using U R(1) i(4) by auto
qed

end
