(* ===== verification/TtyRing.thy ===== *)
theory TtyRing
  imports TtyK
begin

text \<open>
  The three buffers of a line are rings: the bytes from the head to the tail, around the end of the
  array.  \<open>holds n b h t xs\<close> says that they are \<open>xs\<close>.
\<close>

definition holds :: "int \<Rightarrow> bytes \<Rightarrow> int \<Rightarrow> int \<Rightarrow> 8 word list \<Rightarrow> bool" where
  "holds n b h t xs \<longleftrightarrow> 0 \<le> h \<and> h < n \<and> int (length xs) \<le> n \<and> t = (h + int (length xs)) mod n
     \<and> (\<forall>i<length xs. b ((h + int i) mod n) = xs ! i)"

lemma holds_range: "holds n b h t xs \<Longrightarrow> 0 \<le> h \<and> h < n \<and> 0 \<le> t \<and> t < n"
  by (auto simp: holds_def)

lemma holds_Nil: "0 \<le> h \<Longrightarrow> h < n \<Longrightarrow> holds n b h h []"
  by (simp add: holds_def)

lemma next_mod: "0 \<le> t \<Longrightarrow> t < n \<Longrightarrow> (if n \<le> t + 1 then 0 else t + 1) = (t + 1) mod (n :: int)"
  by (cases "t + 1 = n") auto

lemma prev_mod: "0 \<le> t \<Longrightarrow> t < n \<Longrightarrow> (if t - 1 < 0 then t - 1 + n else t - 1) = (t - 1) mod (n :: int)"
  by (cases "t = 0") (auto simp: zmod_minus1)

lemma same_place:
  assumes "(h + int i) mod n = (h + int j) mod n" "int i < n" "int j < n"
  shows "i = j"
proof -
  have "n dvd (h + int i) - (h + int j)" using assms(1) by (simp only: mod_eq_dvd_iff)
  then have "n dvd int i - int j" by simp
  moreover have "\<bar>int i - int j\<bar> < n" using assms(2,3) by linarith
  ultimately show ?thesis using dvd_imp_le_int [of "int i - int j" n] by fastforce
qed

lemma holds_snoc:
  assumes "holds n b h t xs" "int (length xs) < n"
  shows "holds n (b(t := c)) h ((t + 1) mod n) (xs @ [c])"
  unfolding holds_def
proof (intro conjI allI impI)
  have t: "t = (h + int (length xs)) mod n" using assms(1) by (simp add: holds_def)
  show "(t + 1) mod n = (h + int (length (xs @ [c]))) mod n" by (simp add: t mod_simps algebra_simps)
  fix i assume i: "i < length (xs @ [c])"
  show "(b(t := c)) ((h + int i) mod n) = (xs @ [c]) ! i"
  proof (cases "i = length xs")
    case True
    then show ?thesis by (simp add: t)
  next
    case False
    then have "i < length xs" using i by simp
    moreover from this have "(h + int i) mod n \<noteq> t" using same_place [of h i n "length xs"] assms(2) unfolding t by auto
    ultimately show ?thesis using assms(1) by (simp add: holds_def nth_append)
  qed
qed (use assms in \<open>auto simp: holds_def\<close>)

lemma holds_pop:
  assumes "holds n b h t (x # xs)"
  shows "b h = x" "holds n b ((h + 1) mod n) t xs"
proof -
  have h: "0 \<le> h" "h < n" "\<And>i. i < Suc (length xs) \<Longrightarrow> b ((h + int i) mod n) = (x # xs) ! i" using assms by (simp_all add: holds_def)
  show "b h = x" using h(3) [of 0] h(1,2) by simp
  have "b (((h + 1) mod n + int i) mod n) = xs ! i" if "i < length xs" for i
    using h(3) [of "Suc i"] that by (simp add: mod_simps algebra_simps)
  then show "holds n b ((h + 1) mod n) t xs" using assms by (simp add: holds_def mod_simps algebra_simps)
qed

lemma holds_back:
  assumes "holds n b h t (xs @ [c])"
  shows "b ((t - 1) mod n) = c" "holds n b h ((t - 1) mod n) xs"
proof -
  have t: "(t - 1) mod n = (h + int (length xs)) mod n" using assms by (simp add: holds_def mod_simps)
  then show "b ((t - 1) mod n) = c" using assms unfolding holds_def by (auto dest!: spec [of _ "length xs"])
  show "holds n b h ((t - 1) mod n) xs" using assms t unfolding holds_def by (auto simp: nth_append dest!: spec)
qed

lemma holds_prefix:
  assumes "holds n b h t (xs @ ys)" shows "holds n b h ((t - int (length ys)) mod n) xs"
  using assms unfolding holds_def by (auto simp: mod_simps nth_append algebra_simps dest!: spec)

lemma holds_empty_iff:
  assumes "holds n b h t xs" "int (length xs) < n" shows "h = t \<longleftrightarrow> xs = []"
  using assms same_place [of h 0 n "length xs"] by (auto simp: holds_def)

text \<open>A full ring whose head and tail meet looks like an empty one.\<close>

lemma holds_full: "holds n b h t xs \<Longrightarrow> int (length xs) = n \<Longrightarrow> holds n b h t []"
  by (simp add: holds_def)

end
