(* ===== verification/TtyIn.thy ===== *)
theory TtyIn
  imports TtyRing
begin

text \<open>
  The lower half of the driver as a line editor.  What was typed is a pair of lists: the characters
  a reader may take and the line that is being edited.  \<open>edit\<close> says what one more character does
  to them and \<open>edit_echo\<close> what it shows; \<open>ttyhandle_in\<close> is proved to do that to the buffer.
\<close>

section \<open>The editor\<close>

definition typed :: "ttycblk \<Rightarrow> 8 word \<Rightarrow> 8 word" where
  "typed t c = (if c = TY_RETURN \<and> tyicrlf t then TY_NEWLINE else c)"

definition nonprint :: "8 word \<Rightarrow> bool" where
  "nonprint c \<longleftrightarrow> c < TY_BLANK \<or> c = 0x7F"

definition echo_text :: "ttycblk \<Rightarrow> 8 word \<Rightarrow> 8 word list" where
  "echo_text t c =
     (if (c = TY_NEWLINE \<or> c = TY_RETURN) \<and> tyecrlf t then [TY_RETURN, TY_NEWLINE]
      else if nonprint c \<and> tyevis t then [TY_UPARROW, c + 0x40]
      else [c])"

definition pos_text :: "ttycblk \<Rightarrow> 8 word list" where
  "pos_text t = TY_BACKSP # (if tyieback t then [TY_BLANK, TY_BACKSP] else [])"

definition erase_text :: "ttycblk \<Rightarrow> 8 word \<Rightarrow> 8 word list" where
  "erase_text t c = (if nonprint c \<and> tyevis t then pos_text t else []) @ pos_text t"

text \<open>The line is full, as the count of the semaphore tells it: \<open>w\<close> characters of \<open>B\<close> were
  promised to readers that did not take them yet.\<close>

definition line_full :: "int \<Rightarrow> 8 word list \<Rightarrow> 8 word list \<Rightarrow> bool" where
  "line_full w B L \<longleftrightarrow> max 0 (int (length B) - w) + int (length L) \<ge> TY_IBUFLEN - 1"

definition flow_char :: "ttycblk \<Rightarrow> 8 word \<Rightarrow> bool" where
  "flow_char t c \<longleftrightarrow> tyoflow t \<and> (c = tyostart t \<or> c = tyostop t)"

fun edit_line :: "ttycblk \<Rightarrow> int \<Rightarrow> 8 word \<Rightarrow> 8 word list \<times> 8 word list \<Rightarrow> 8 word list \<times> 8 word list" where
  "edit_line t w c (B, L) =
     (if flow_char t c then (B, L)
      else if c = tyikillc t \<and> tyikill t then (B, [])
      else if c = tyierasec t \<and> tyierase t then (B, butlast L)
      else if c = TY_NEWLINE \<or> c = TY_RETURN then (B @ L @ [c], [])
      else if line_full w B L then (B, L)
      else if c = tyeofch t \<and> tyeof t then if L = [] then (B @ [c], []) else (B, L)
      else (B, L @ [c]))"

definition edit :: "ttycblk \<Rightarrow> int \<Rightarrow> 8 word \<Rightarrow> 8 word list \<times> 8 word list \<Rightarrow> 8 word list \<times> 8 word list" where
  "edit t w c = edit_line t w (typed t c)"

fun line_echo :: "ttycblk \<Rightarrow> int \<Rightarrow> 8 word \<Rightarrow> 8 word list \<times> 8 word list \<Rightarrow> 8 word list" where
  "line_echo t w c (B, L) =
     (if flow_char t c then []
      else if c = tyikillc t \<and> tyikill t then [TY_RETURN, TY_NEWLINE]
      else if c = tyierasec t \<and> tyierase t then if L \<noteq> [] \<and> tyiecho t then erase_text t (last L) else []
      else if c \<noteq> TY_NEWLINE \<and> c \<noteq> TY_RETURN \<and> line_full w B L then [tyifullc t]
      else if tyiecho t then echo_text t c else [])"

definition edit_echo :: "ttycblk \<Rightarrow> int \<Rightarrow> 8 word \<Rightarrow> 8 word list \<times> 8 word list \<Rightarrow> 8 word list" where
  "edit_echo t w c = line_echo t w (typed t c)"

text \<open>The echo queue has room for 19 characters; one more and all are lost.\<close>

definition echo_push :: "8 word \<Rightarrow> 8 word list \<Rightarrow> 8 word list" where
  "echo_push c E = (if int (length E) = TY_EBUFLEN - 1 then [] else E @ [c])"

section \<open>Runs that end\<close>

primrec ends :: "'a run \<Rightarrow> ('a \<Rightarrow> ttys \<Rightarrow> bool) \<Rightarrow> bool" where
  "ends (Done x s) Q = Q x s"
| "ends (Switched s k) Q = False"
| "ends Undef Q = False"

lemma ends_iff: "ends r Q \<longleftrightarrow> (\<exists>x s. r = Done x s \<and> Q x s)"
  by (cases r) auto

lemma ends_continue [simp]: "ends (continue_with r f) Q = ends r (\<lambda>x s. ends (f x s) Q)"
  by (cases r) auto

lemma ends_seq [simp]: "ends (seq m n s) Q = ends (m s) (\<lambda>_ s. ends (n s) Q)"
  by (simp add: seq_def)

lemma ends_bnd [simp]: "ends (bnd m f s) Q = ends (m s) (\<lambda>x s. ends (f x s) Q)"
  by (simp add: bnd_def)

lemma ends_simple [simp]:
  "ends (ret x s) Q = Q x s" "ends (skip s) Q = Q () s" "ends (upd_tty f s) Q = Q () (s\<lparr>tty := f (tty s)\<rparr>)"
  "ends (upd_csr g s) Q = Q () (s\<lparr>csr := g (csr s)\<rparr>)"
  by (simp_all add: ret_def skip_def upd_tty_def upd_csr_def)

lemma ends_sys: "f (kern s) = Some (r, k) \<Longrightarrow> currpid k = currpid (kern s) \<Longrightarrow> ends (sys f s) Q = Q r (s\<lparr>kern := k\<rparr>)"
  by (simp add: sys_def)

lemma ends_mono: "ends r P \<Longrightarrow> (\<And>x s. P x s \<Longrightarrow> Q x s) \<Longrightarrow> ends r Q"
  by (cases r) auto

section \<open>Echo\<close>

definition eput :: "8 word \<Rightarrow> ttys \<Rightarrow> ttys" where
  "eput c s = s\<lparr>tty := (tty s)\<lparr>tyebuff := (tyebuff (tty s))(tyetail (tty s) := c), tyetail := (tyetail (tty s) + 1) mod TY_EBUFLEN\<rparr>,
     csr := (csr s)\<lparr>ier := 3\<rparr>\<rparr>"

text \<open>The echo queue holds \<open>E\<close>.\<close>

definition echoes :: "ttys \<Rightarrow> 8 word list \<Rightarrow> bool" where
  "echoes s E \<longleftrightarrow> holds TY_EBUFLEN (tyebuff (tty s)) (tyehead (tty s)) (tyetail (tty s)) E \<and> int (length E) < TY_EBUFLEN"

lemma eputc_eq: "0 \<le> tyetail (tty s) \<Longrightarrow> tyetail (tty s) < 20 \<Longrightarrow> eputc c s = Done () (eput c s)"
  using next_mod [of "tyetail (tty s)" 20]
  by (auto simp: eputc_def eput_def bput_def ttykickout_def upd_csr_def Let_def)

lemma echoes_eput: "echoes s E \<Longrightarrow> echoes (eput c s) (echo_push c E)"
  using holds_snoc [of 20 "tyebuff (tty s)" "tyehead (tty s)" "tyetail (tty s)" E c]
    holds_full [of 20 _ "tyehead (tty s)" _ "E @ [c]"]
  by (auto simp: echoes_def eput_def echo_push_def)

lemma eput_fields [simp]:
  "kern (eput c s) = kern s" "rbr (csr (eput c s)) = rbr (csr s)" "thr (csr (eput c s)) = thr (csr s)"
  "tyibuff (tty (eput c s)) = tyibuff (tty s)" "tyihead (tty (eput c s)) = tyihead (tty s)"
  "tyitail (tty (eput c s)) = tyitail (tty s)" "tyicursor (tty (eput c s)) = tyicursor (tty s)"
  by (simp_all add: eput_def)

text \<open>The settings of a line: what no interrupt changes.\<close>

definition settings :: "ttycblk \<Rightarrow> ttycblk" where
  "settings t = t\<lparr>tyihead := 0, tyitail := 0, tyibuff := (\<lambda>_. 0), tyohead := 0, tyotail := 0, tyobuff := (\<lambda>_. 0),
     tyehead := 0, tyetail := 0, tyebuff := (\<lambda>_. 0), tyicursor := 0, tyoheld := False\<rparr>"

lemma settingsD:
  assumes "settings t' = settings t"
  shows "tyisem t' = tyisem t" "tyosem t' = tyosem t" "tyimode t' = tyimode t" "tyiecho t' = tyiecho t"
    "tyieback t' = tyieback t" "tyevis t' = tyevis t" "tyecrlf t' = tyecrlf t" "tyicrlf t' = tyicrlf t"
    "tyierase t' = tyierase t" "tyierasec t' = tyierasec t" "tyeof t' = tyeof t" "tyeofch t' = tyeofch t"
    "tyikill t' = tyikill t" "tyikillc t' = tyikillc t" "tyoflow t' = tyoflow t" "tyostop t' = tyostop t"
    "tyostart t' = tyostart t" "tyocrlf t' = tyocrlf t" "tyifullc t' = tyifullc t"
  using assms by (cases t; cases t'; simp add: settings_def)+

lemma settings_upd [simp]:
  "settings (t\<lparr>tyihead := i\<rparr>) = settings t" "settings (t\<lparr>tyitail := i\<rparr>) = settings t"
  "settings (t\<lparr>tyibuff := b\<rparr>) = settings t" "settings (t\<lparr>tyicursor := i\<rparr>) = settings t"
  "settings (t\<lparr>tyohead := i\<rparr>) = settings t" "settings (t\<lparr>tyotail := i\<rparr>) = settings t"
  "settings (t\<lparr>tyobuff := b\<rparr>) = settings t" "settings (t\<lparr>tyoheld := h\<rparr>) = settings t"
  "settings (t\<lparr>tyehead := i\<rparr>) = settings t" "settings (t\<lparr>tyetail := i\<rparr>) = settings t"
  "settings (t\<lparr>tyebuff := b\<rparr>) = settings t"
  by (simp_all add: settings_def)

text \<open>What an echo leaves alone.\<close>

definition eframe :: "ttys \<Rightarrow> ttys \<Rightarrow> bool" where
  "eframe s s' \<longleftrightarrow> (\<exists>b i c. s' = s\<lparr>tty := (tty s)\<lparr>tyebuff := b, tyetail := i\<rparr>, csr := (csr s)\<lparr>ier := c\<rparr>\<rparr>)"

lemma eframe_refl [simp]: "eframe s s"
  unfolding eframe_def by (rule exI [of _ "tyebuff (tty s)"], rule exI [of _ "tyetail (tty s)"], rule exI [of _ "ier (csr s)"]) simp

lemma eframe_eput: "eframe s s' \<Longrightarrow> eframe s (eput c s')"
  unfolding eframe_def eput_def by (elim exE, hypsubst, simp, blast)

lemma eframe_fold: "eframe s s' \<Longrightarrow> eframe s (fold eput cs s')"
  by (induction cs arbitrary: s') (auto intro: eframe_eput)

lemma echoes_fold: "echoes s E \<Longrightarrow> echoes (fold eput cs s) (fold echo_push cs E)"
  by (induction cs arbitrary: s E) (auto intro: echoes_eput)

lemma echoes_tail: "echoes s E \<Longrightarrow> 0 \<le> tyetail (tty s) \<and> tyetail (tty s) < 20"
  using holds_range by (auto simp: echoes_def)

lemma eput_tail: "0 \<le> tyetail (tty (eput c s)) \<and> tyetail (tty (eput c s)) < 20"
  by (simp add: eput_def)

lemma eput_settings [simp]: "settings (tty (eput c s)) = settings (tty s)"
  by (simp add: eput_def)

lemma eput_mode [simp]: "tyieback (tty (eput c s)) = tyieback (tty s)"
  by (simp add: eput_def)

lemma echoch_eq:
  assumes "0 \<le> tyetail (tty s)" "tyetail (tty s) < 20"
  shows "echoch c s = Done () (fold eput (echo_text (tty s) c) s)"
  using assms eput_tail by (simp add: echoch_def echo_text_def nonprint_def seq_def eputc_eq)

lemma erase_pos_eq:
  assumes "0 \<le> tyetail (tty s)" "tyetail (tty s) < 20"
  shows "erase_pos s = Done () (fold eput (pos_text (tty s)) s)"
  using assms eput_tail by (simp add: erase_pos_def pos_text_def seq_def eputc_eq skip_def)

end
