(* ===== verification/TtyEdit.thy ===== *)
theory TtyEdit
  imports TtyIn
begin

text \<open>
  One character of input, and then a line of them: the lower half implements the editor of
  \<open>TtyIn\<close>.
\<close>

section \<open>The state of an edited line\<close>

text \<open>
  A reader may take \<open>B\<close>, the line is \<open>L\<close>, \<open>E\<close> is to be echoed; \<open>w\<close> characters of \<open>B\<close>, there or
  to come, are promised to processes that wait or have not run since.
\<close>

definition editing :: "ttys \<Rightarrow> int \<Rightarrow> 8 word list \<Rightarrow> 8 word list \<Rightarrow> 8 word list \<Rightarrow> bool" where
  "editing s w B L E \<longleftrightarrow>
     holds TY_IBUFLEN (tyibuff (tty s)) (tyihead (tty s)) (tyitail (tty s)) (B @ L)
     \<and> tyicursor (tty s) = int (length L) \<and> echoes s E
     \<and> ksem (kern s) (tyisem (tty s)) (int (length B) - w) \<and> 0 \<le> w"

lemma editingD:
  assumes "editing s w B L E"
  shows "holds 128 (tyibuff (tty s)) (tyihead (tty s)) (tyitail (tty s)) (B @ L)" "tyicursor (tty s) = int (length L)"
    "echoes s E" "ksem (kern s) (tyisem (tty s)) (int (length B) - w)" "0 \<le> w"
    "0 \<le> tyetail (tty s)" "tyetail (tty s) < 20" "0 \<le> tyitail (tty s)" "tyitail (tty s) < 128"
    "semcount (tyisem (tty s)) (kern s) = int (length B) - w"
  using assms echoes_tail [of s E] holds_range ksem_count by (auto simp: editing_def)

definition iclear :: "ttycblk \<Rightarrow> ttycblk" where
  "iclear t = t\<lparr>tyitail := 0, tyibuff := (\<lambda>_. 0), tyicursor := 0, tyetail := 0, tyebuff := (\<lambda>_. 0), tyoheld := False\<rparr>"

text \<open>What the input interrupt leaves alone.\<close>

definition ikeep :: "ttys \<Rightarrow> ttys \<Rightarrow> bool" where
  "ikeep s s' \<longleftrightarrow> iclear (tty s') = iclear (tty s) \<and> thr (csr s') = thr (csr s) \<and> rbr (csr s') = rbr (csr s)
     \<and> kstill (kern s) (kern s')
     \<and> (\<forall>i. i \<noteq> tyisem (tty s) \<longrightarrow> semtab (kern s') i = semtab (kern s) i)
     \<and> shellpid s' = shellpid s \<and> chesc s' = chesc s \<and> arrow s' = arrow s \<and> tmpcmd s' = tmpcmd s"

lemma iclearD:
  assumes "iclear t' = iclear t"
  shows "settings t' = settings t" "tyihead t' = tyihead t" "tyohead t' = tyohead t" "tyotail t' = tyotail t"
    "tyobuff t' = tyobuff t" "tyehead t' = tyehead t"
  using assms by (cases t; cases t'; simp add: iclear_def settings_def)+

lemma ikeep_refl [simp]: "ikeep s s" by (simp add: ikeep_def)

lemma ikeep_trans: "ikeep s t \<Longrightarrow> ikeep t u \<Longrightarrow> ikeep s u"
  using settingsD(1) [OF iclearD(1)] kstill_trans unfolding ikeep_def by metis

lemma iclear_upd [simp]:
  "iclear (t\<lparr>tyitail := i\<rparr>) = iclear t" "iclear (t\<lparr>tyibuff := b\<rparr>) = iclear t" "iclear (t\<lparr>tyicursor := i\<rparr>) = iclear t"
  "iclear (t\<lparr>tyetail := i\<rparr>) = iclear t" "iclear (t\<lparr>tyebuff := b\<rparr>) = iclear t" "iclear (t\<lparr>tyoheld := h\<rparr>) = iclear t"
  by (simp_all add: iclear_def)

lemma ikeep_tty [simp]:
  "iclear t = iclear (tty s) \<Longrightarrow> ikeep s (s\<lparr>tty := t\<rparr>)" "ikeep s (s\<lparr>csr := (csr s)\<lparr>ier := c\<rparr>\<rparr>)"
  by (simp_all add: ikeep_def)

lemma ikeep_eput: "ikeep s s' \<Longrightarrow> ikeep s (eput c s')"
  by (simp add: ikeep_def eput_def)

lemma ikeep_fold: "ikeep s s' \<Longrightarrow> ikeep s (fold eput cs s')"
  by (induction cs arbitrary: s') (auto intro: ikeep_eput)

lemma editing_eput: "editing s w B L E \<Longrightarrow> editing (eput c s) w B L (echo_push c E)"
  using settingsD(1) [OF eput_settings, of c s] by (simp add: editing_def echoes_eput)

lemma editing_fold: "editing s w B L E \<Longrightarrow> editing (fold eput cs s) w B L (fold echo_push cs E)"
  by (induction cs arbitrary: s E) (auto intro: editing_eput)

lemma fold_eput [simp]:
  "tyoheld (tty (fold eput cs s)) = tyoheld (tty s)" "ndefers (kern (fold eput cs s)) = ndefers (kern s)"
  "settings (tty (fold eput cs s)) = settings (tty s)" "tyitail (tty (fold eput cs s)) = tyitail (tty s)"
  by (induction cs arbitrary: s) (simp_all, simp add: eput_def)

lemmas fold_modes [simp] = settingsD [OF fold_eput(3)]

lemma echoes_same: "echoes s E \<Longrightarrow> tyehead t = tyehead (tty s) \<Longrightarrow> tyetail t = tyetail (tty s) \<Longrightarrow> tyebuff t = tyebuff (tty s)
    \<Longrightarrow> tty s' = t \<Longrightarrow> echoes s' E"
  by (simp add: echoes_def)

section \<open>The pieces\<close>

lemma echo_in_ok:
  assumes "editing s w B L E"
  shows "echo_in c s = Done () (fold eput (if tyiecho (tty s) then echo_text (tty s) c else []) s)"
  using editingD(6,7) [OF assms] by (simp add: echo_in_def echoch_eq skip_def)

text \<open>A character is put into the buffer, which then holds one more at the end.\<close>

lemma put_wrap_ok:
  assumes "holds 128 (tyibuff (tty s)) (tyihead (tty s)) (tyitail (tty s)) X" "int (length X) < 128"
  shows "\<exists>b. put_wrap c s = Done () (s\<lparr>tty := (tty s)\<lparr>tyibuff := b, tyitail := (tyitail (tty s) + 1) mod 128\<rparr>\<rparr>)
    \<and> holds 128 b (tyihead (tty s)) ((tyitail (tty s) + 1) mod 128) (X @ [c])"
proof -
  have r: "0 \<le> tyitail (tty s)" "tyitail (tty s) < 128" using holds_range [OF assms(1)] by auto
  have "put_wrap c s = Done () (s\<lparr>tty := (tty s)\<lparr>tyibuff := (tyibuff (tty s))(tyitail (tty s) := c), tyitail := (tyitail (tty s) + 1) mod 128\<rparr>\<rparr>)"
    using r next_mod [OF r] by (auto simp: put_wrap_def put_in_def bput_def seq_def upd_tty_def Let_def)
  then show ?thesis using holds_snoc [OF assms, of c] by blast
qed

lemma insert_ok:
  assumes e: "editing s w B L E" and n: "int (length (B @ L)) < 128"
  shows "ends (seq (upd_tty (\<lambda>t. t\<lparr>tyicursor := tyicursor t + 1\<rparr>)) (put_wrap c) s)
    (\<lambda>_ s'. editing s' w B (L @ [c]) E \<and> ikeep s s' \<and> tyoheld (tty s') = tyoheld (tty s))"
proof -
  let ?s = "s\<lparr>tty := (tty s)\<lparr>tyicursor := tyicursor (tty s) + 1\<rparr>\<rparr>"
  note D = editingD [OF e]
  have "holds 128 (tyibuff (tty ?s)) (tyihead (tty ?s)) (tyitail (tty ?s)) (B @ L)" using D(1) by simp
  from put_wrap_ok [OF this n, of c] obtain b where
    "put_wrap c ?s = Done () (?s\<lparr>tty := (tty ?s)\<lparr>tyibuff := b, tyitail := (tyitail (tty ?s) + 1) mod 128\<rparr>\<rparr>)"
    "holds 128 b (tyihead (tty ?s)) ((tyitail (tty ?s) + 1) mod 128) ((B @ L) @ [c])" by blast
  then show ?thesis using D e by (simp add: editing_def echoes_def)
qed

lemma erase1_eq:
  assumes "0 \<le> tyitail (tty s)" "tyitail (tty s) < 128" "0 \<le> tyetail (tty s)" "tyetail (tty s) < 20"
  defines "i \<equiv> (tyitail (tty s) - 1) mod 128"
  shows "erase1 s = Done () (fold eput (if tyiecho (tty s) then erase_text (tty s) (tyibuff (tty s) i) else []) (s\<lparr>tty := (tty s)\<lparr>tyitail := i\<rparr>\<rparr>))"
proof -
  define t where "t = (tty s)\<lparr>tyitail := i\<rparr>"
  have t: "0 \<le> tyitail t" "tyitail t < 128" "0 \<le> tyetail (tty (s\<lparr>tty := t\<rparr>))" "tyetail (tty (s\<lparr>tty := t\<rparr>)) < 20"
    using assms(3,4) by (simp_all add: t_def i_def)
  have bk: "(if tyitail ((tty s)\<lparr>tyitail := tyitail (tty s) - 1\<rparr>) < 0
      then (tty s)\<lparr>tyitail := tyitail (tty s) - 1, tyitail := tyitail ((tty s)\<lparr>tyitail := tyitail (tty s) - 1\<rparr>) + 128\<rparr>
      else (tty s)\<lparr>tyitail := tyitail (tty s) - 1\<rparr>) = t"
    using assms(1,2) by (cases "tyitail (tty s) = 0") (simp_all add: t_def i_def)
  have pos: "erase_pos u = Done () (fold eput (pos_text t) u)" if "0 \<le> tyetail (tty u)" "tyetail (tty u) < 20" "settings (tty u) = settings t" for u
    using erase_pos_eq [OF that(1,2)] settingsD(5) [OF that(3)] by (simp add: pos_text_def)
  have tl: "0 \<le> tyetail (tty (fold eput (pos_text t) u)) \<and> tyetail (tty (fold eput (pos_text t) u)) < 20" for u
    using eput_tail by (simp add: pos_text_def)
  have "erase1 s = (if tyiecho t then if tyibuff t (tyitail t) < TY_BLANK \<or> tyibuff t (tyitail t) = 0x7F
      then seq (if tyevis t then erase_pos else skip) erase_pos else erase_pos else skip) (s\<lparr>tty := t\<rparr>)"
    unfolding erase1_def Let_def bk using t by (simp add: bget_def)
  also have "\<dots> = Done () (fold eput (if tyiecho t then erase_text t (tyibuff t (tyitail t)) else []) (s\<lparr>tty := t\<rparr>))"
    using t pos tl by (simp add: seq_def skip_def erase_text_def nonprint_def)
  finally show ?thesis by (simp add: t_def erase_text_def pos_text_def)
qed

lemma erase1_ok:
  assumes e: "editing s w B L E" and L: "L \<noteq> []"
  shows "ends (seq (upd_tty (\<lambda>t. t\<lparr>tyicursor := tyicursor t - 1\<rparr>)) erase1 s)
    (\<lambda>_ s'. editing s' w B (butlast L) (fold echo_push (if tyiecho (tty s) then erase_text (tty s) (last L) else []) E)
      \<and> ikeep s s' \<and> tyoheld (tty s') = tyoheld (tty s))"
proof -
  note D = editingD [OF e]
  let ?t = "(tyitail (tty s) - 1) mod 128"
  have h: "holds 128 (tyibuff (tty s)) (tyihead (tty s)) (tyitail (tty s)) ((B @ butlast L) @ [last L])" using D(1) L by simp
  note H = holds_back [OF h]
  have r: "0 \<le> ?t" "?t < 128" by simp_all
  define s1 where "s1 = s\<lparr>tty := (tty s)\<lparr>tyicursor := tyicursor (tty s) - 1, tyitail := ?t\<rparr>\<rparr>"
  have len: "tyicursor (tty s) - 1 = int (length (butlast L))" using L D(2) by (cases L) auto
  have "tyicursor (tty s1) = int (length (butlast L))" unfolding len [symmetric] by (simp add: s1_def)
  then have ed: "editing s1 w B (butlast L) E" using D(3-5) H(2) by (simp add: editing_def echoes_def s1_def)
  have run: "erase1 (s\<lparr>tty := (tty s)\<lparr>tyicursor := tyicursor (tty s) - 1\<rparr>\<rparr>)
      = Done () (fold eput (if tyiecho (tty s) then erase_text (tty s) (last L) else []) s1)"
    using erase1_eq [of "s\<lparr>tty := (tty s)\<lparr>tyicursor := tyicursor (tty s) - 1\<rparr>\<rparr>"] D H(1)
    by (simp add: s1_def erase_text_def pos_text_def)
  have "ikeep s s1" by (simp add: s1_def)
  then show ?thesis using run editing_fold [OF ed] ikeep_fold by (simp add: s1_def [symmetric]) (simp add: s1_def)
qed


lemma kill_ok:
  assumes e: "editing s w B L E" and L: "int (length L) \<le> tyitail (tty s)"
  shows "ends (kill_line s) (\<lambda>_ s'. editing s' w B [] (fold echo_push [TY_RETURN, TY_NEWLINE] E)
    \<and> ikeep s s' \<and> tyoheld (tty s') = tyoheld (tty s))"
proof -
  note D = editingD [OF e]
  define s1 where "s1 = s\<lparr>tty := (tty s)\<lparr>tyitail := tyitail (tty s) - tyicursor (tty s), tyicursor := 0\<rparr>\<rparr>"
  have "(tyitail (tty s) - int (length L)) mod 128 = tyitail (tty s) - int (length L)" using D(8,9) L by simp
  then have ed: "editing s1 w B [] E" using D holds_prefix [OF D(1)] by (simp add: editing_def echoes_def s1_def)
  have "kill_line s = Done () (fold eput [TY_RETURN, TY_NEWLINE] s1)"
    using D L eput_tail eputc_eq by (simp add: kill_line_def seq_def upd_tty_def Let_def s1_def)
  moreover have "ikeep s s1" by (simp add: s1_def)
  ultimately show ?thesis
    using editing_fold [OF ed, of "[13, 10]"] ikeep_fold [of s s1 "[13, 10]"] fold_eput(1) [of "[13, 10]" s1] by (simp add: s1_def)
qed

text \<open>A line or an end of file is handed over: the count of the semaphore rises by its length.\<close>

lemma ikeep_kern:
  assumes "kstill (kern s) k" "semtab k = (semtab (kern s))(tyisem (tty s) := e)"
  shows "ikeep s (s\<lparr>kern := k\<rparr>)"
  using assms by (simp add: ikeep_def)

lemma end_line_ok:
  assumes e: "editing s w B L E" and nd: "0 < ndefers (kern s)" and n: "int (length (B @ L)) < 128"
  shows "ends (end_line c s) (\<lambda>_ s'. editing s' w (B @ L @ [c]) [] (fold echo_push (if tyiecho (tty s) then echo_text (tty s) c else []) E)
    \<and> ikeep s s' \<and> tyoheld (tty s') = tyoheld (tty s))"
proof -
  define s1 where "s1 = fold eput (if tyiecho (tty s) then echo_text (tty s) c else []) s"
  have ed: "editing s1 w B L (fold echo_push (if tyiecho (tty s) then echo_text (tty s) c else []) E)"
    unfolding s1_def by (rule editing_fold [OF e])
  note D = editingD [OF ed]
  obtain b where b: "put_wrap c s1 = Done () (s1\<lparr>tty := (tty s1)\<lparr>tyibuff := b, tyitail := (tyitail (tty s1) + 1) mod 128\<rparr>\<rparr>)"
    "holds 128 b (tyihead (tty s1)) ((tyitail (tty s1) + 1) mod 128) ((B @ L) @ [c])"
    using put_wrap_ok [OF D(1) n] by blast
  have cnt: "tyicursor (tty s1) + 1 = int (Suc (length L))" using D(2) by simp
  have nd1: "0 < ndefers (kern s1)" using nd by (simp add: s1_def)
  have "int (length B) - w + int (Suc (length L)) < 2147483648" using n D(5) by simp
  from ksem_signaln [OF D(4) nd1 this] obtain k' where k: "signaln (tyisem (tty s1)) (int (Suc (length L))) (kern s1) = Some (OK, k')"
    "ksem k' (tyisem (tty s1)) (int (length B) - w + int (Suc (length L)))" "kstill (kern s1) k'"
    "semtab k' = (semtab (kern s1))(tyisem (tty s1) := (semtab (kern s1) (tyisem (tty s1)))\<lparr>scount := int (length B) - w + int (Suc (length L))\<rparr>)"
    by blast
  have k1: "signaln (tyisem (tty s1)) (tyicursor (tty s1) + 1) (kern s1) = Some (OK, k')" unfolding cnt by (rule k(1))
  define s2 where "s2 = s1\<lparr>tty := (tty s1)\<lparr>tyibuff := b, tyitail := (tyitail (tty s1) + 1) mod 128, tyicursor := 0\<rparr>, kern := k'\<rparr>"
  have "end_line c s = Done () s2"
    using k(3) k1 by (simp add: end_line_def seq_def echo_in_ok [OF e] s1_def [symmetric] b(1) sys_def upd_tty_def s2_def kstill_def stays_def)
  moreover have "editing s2 w (B @ L @ [c]) [] (fold echo_push (if tyiecho (tty s) then echo_text (tty s) c else []) E)"
  proof -
    have "ksem k' (tyisem (tty s1)) (int (length (B @ L @ [c])) - w)" using k(2) by (simp add: algebra_simps)
    then show ?thesis using D(3,5) b(2) by (simp add: editing_def echoes_def s2_def)
  qed
  moreover have "ikeep s1 s2" using ikeep_kern [OF k(3,4)] by (simp add: ikeep_def s2_def)
  moreover have "ikeep s s1" unfolding s1_def by (rule ikeep_fold) simp
  moreover have "tyoheld (tty s2) = tyoheld (tty s)" by (simp add: s2_def s1_def)
  ultimately show ?thesis using ikeep_trans by simp
qed

lemma end_file_ok:
  assumes e: "editing s w B L E" and nd: "0 < ndefers (kern s)" and n: "tyitail (tty s) < 127" "int (length (B @ L)) < 128"
  shows "ends (end_file c s) (\<lambda>_ s'. editing s' w (if L = [] then B @ [c] else B) L
      (fold echo_push (if tyiecho (tty s) then echo_text (tty s) c else []) E)
    \<and> ikeep s s' \<and> tyoheld (tty s') = tyoheld (tty s))"
proof -
  define s1 where "s1 = fold eput (if tyiecho (tty s) then echo_text (tty s) c else []) s"
  have ed: "editing s1 w B L (fold echo_push (if tyiecho (tty s) then echo_text (tty s) c else []) E)"
    unfolding s1_def by (rule editing_fold [OF e])
  note D = editingD [OF ed]
  have k1: "ikeep s s1" unfolding s1_def by (rule ikeep_fold) simp
  have go: "end_file c s = (if tyicursor (tty s1) \<noteq> 0 then Done () s1
      else seq (put_in c) (\<lambda>s. seq (sys (signal (tyisem (tty s)))) skip s) s1)"
    by (simp add: end_file_def seq_def echo_in_ok [OF e] s1_def skip_def)
  show ?thesis
  proof (cases "L = []")
    case False
    then show ?thesis using go ed k1 D(2) by (simp add: s1_def)
  next
    case True
    have tl: "0 \<le> tyitail (tty s1)" "tyitail (tty s1) < 127" using D(8) n by (simp_all add: s1_def)
    define b where "b = (tyibuff (tty s1))(tyitail (tty s1) := c)"
    have m: "(tyitail (tty s1) + 1) mod 128 = tyitail (tty s1) + 1" using tl by simp
    have b: "holds 128 b (tyihead (tty s1)) (tyitail (tty s1) + 1) (B @ [c])"
      using holds_snoc [OF D(1), of c] n True m by (simp add: b_def)
    have nd1: "0 < ndefers (kern s1)" using nd by (simp add: s1_def)
    have "int (length B) - w + 1 < 2147483648" using n D(5) by simp
    from ksem_signal [OF D(4) nd1 this] obtain k' where k: "signal (tyisem (tty s1)) (kern s1) = Some (OK, k')"
      "ksem k' (tyisem (tty s1)) (int (length B) - w + 1)" "kstill (kern s1) k'"
      "semtab k' = (semtab (kern s1))(tyisem (tty s1) := (semtab (kern s1) (tyisem (tty s1)))\<lparr>scount := int (length B) - w + 1\<rparr>)"
      by blast
    define s2 where "s2 = s1\<lparr>tty := (tty s1)\<lparr>tyibuff := b, tyitail := tyitail (tty s1) + 1\<rparr>, kern := k'\<rparr>"
    have "end_file c s = Done () s2"
      using go True D(2) tl k(1,3)
      by (simp add: seq_def put_in_def bput_def Let_def sys_def skip_def s2_def b_def kstill_def stays_def)
    moreover have "ksem k' (tyisem (tty s1)) (int (length (B @ [c])) - w)" using k(2) by (simp add: algebra_simps)
    then have "editing s2 w (B @ [c]) [] (fold echo_push (if tyiecho (tty s) then echo_text (tty s) c else []) E)"
      using D(2,3,5) b True by (simp add: editing_def echoes_def s2_def)
    moreover have "ikeep s1 s2" using ikeep_kern [OF k(3,4)] by (simp add: ikeep_def s2_def)
    then have "ikeep s s2" by (rule ikeep_trans [OF k1])
    ultimately show ?thesis using True by (simp add: s2_def s1_def)
  qed
qed

section \<open>One character\<close>

text \<open>
  What the code needs of the place the buffer is in: a free slot, and, because two branches forget
  to wrap around, no end of the array inside a killed line or right after an end of file.
\<close>

definition fits :: "ttys \<Rightarrow> 8 word \<Rightarrow> 8 word list \<Rightarrow> 8 word list \<Rightarrow> bool" where
  "fits s c B L \<longleftrightarrow> int (length (B @ L)) < TY_IBUFLEN
     \<and> (c = tyikillc (tty s) \<longrightarrow> int (length L) \<le> tyitail (tty s))
     \<and> (c = tyeofch (tty s) \<longrightarrow> tyitail (tty s) < TY_IBUFLEN - 1)"

lemma cooked_in_ok:
  assumes e: "editing s w B L E" and nd: "0 < ndefers (kern s)" and f: "fits s c B L" and nf: "\<not> flow_char (tty s) c"
  shows "ends (cooked_in c s) (\<lambda>_ s'. editing s' w (fst (edit_line (tty s) w c (B, L))) (snd (edit_line (tty s) w c (B, L)))
      (fold echo_push (line_echo (tty s) w c (B, L)) E) \<and> ikeep s s' \<and> tyoheld (tty s') = tyoheld (tty s))"
proof -
  note D = editingD [OF e]
  have n: "int (length (B @ L)) < 128" using f by (simp add: fits_def)
  have fl: "avail_in s + tyicursor (tty s) \<ge> 127 \<longleftrightarrow> line_full w B L" using D(2,10) by (simp add: avail_in_def line_full_def)
  consider (kill) "c = tyikillc (tty s)" "tyikill (tty s)"
    | (erase) "\<not> (c = tyikillc (tty s) \<and> tyikill (tty s))" "c = tyierasec (tty s)" "tyierase (tty s)"
    | (line) "\<not> (c = tyikillc (tty s) \<and> tyikill (tty s))" "\<not> (c = tyierasec (tty s) \<and> tyierase (tty s))" "c = TY_NEWLINE \<or> c = TY_RETURN"
    | (full) "\<not> (c = tyikillc (tty s) \<and> tyikill (tty s))" "\<not> (c = tyierasec (tty s) \<and> tyierase (tty s))"
        "\<not> (c = TY_NEWLINE \<or> c = TY_RETURN)" "line_full w B L"
    | (eof) "\<not> (c = tyikillc (tty s) \<and> tyikill (tty s))" "\<not> (c = tyierasec (tty s) \<and> tyierase (tty s))"
        "\<not> (c = TY_NEWLINE \<or> c = TY_RETURN)" "\<not> line_full w B L" "c = tyeofch (tty s)" "tyeof (tty s)"
    | (plain) "\<not> (c = tyikillc (tty s) \<and> tyikill (tty s))" "\<not> (c = tyierasec (tty s) \<and> tyierase (tty s))"
        "\<not> (c = TY_NEWLINE \<or> c = TY_RETURN)" "\<not> line_full w B L" "\<not> (c = tyeofch (tty s) \<and> tyeof (tty s))" by blast
  then show ?thesis
  proof cases
    case kill
    have R: "cooked_in c s = kill_line s" "edit_line (tty s) w c (B, L) = (B, [])"
      "line_echo (tty s) w c (B, L) = [TY_RETURN, TY_NEWLINE]"
      using kill nf by (simp_all add: cooked_in_def)
    have "int (length L) \<le> tyitail (tty s)" using f kill by (simp add: fits_def)
    then show ?thesis unfolding R fst_conv snd_conv by (rule kill_ok [OF e])
  next
    case erase
    have R: "edit_line (tty s) w c (B, L) = (B, butlast L)"
      "line_echo (tty s) w c (B, L) = (if L \<noteq> [] \<and> tyiecho (tty s) then erase_text (tty s) (last L) else [])"
      using erase nf by auto
    show ?thesis
    proof (cases "L = []")
      case True
      have "cooked_in c s = Done () s" using erase D(2) True by (auto simp: cooked_in_def skip_def)
      then show ?thesis unfolding R using e True by simp
    next
      case False
      have run: "cooked_in c s = seq (upd_tty (\<lambda>t. t\<lparr>tyicursor := tyicursor t - 1\<rparr>)) erase1 s"
        using erase D(2) False by (auto simp: cooked_in_def)
      have "(if L \<noteq> [] \<and> tyiecho (tty s) then erase_text (tty s) (last L) else [])
          = (if tyiecho (tty s) then erase_text (tty s) (last L) else [])" using False by simp
      then show ?thesis unfolding R run fst_conv snd_conv using erase1_ok [OF e False] by simp
    qed
  next
    case line
    have R: "cooked_in c s = end_line c s" "edit_line (tty s) w c (B, L) = (B @ L @ [c], [])"
      "line_echo (tty s) w c (B, L) = (if tyiecho (tty s) then echo_text (tty s) c else [])"
    proof -
      have "\<not> (c \<noteq> TY_NEWLINE \<and> c \<noteq> TY_RETURN \<and> line_full w B L)" using line(3) by blast
      then show "cooked_in c s = end_line c s" "edit_line (tty s) w c (B, L) = (B @ L @ [c], [])"
        "line_echo (tty s) w c (B, L) = (if tyiecho (tty s) then echo_text (tty s) c else [])"
        unfolding cooked_in_def edit_line.simps line_echo.simps using line nf by (simp_all only: simp_thms if_False if_True)
    qed
    show ?thesis unfolding R fst_conv snd_conv by (rule end_line_ok [OF e nd n])
  next
    case full
    have R: "cooked_in c s = Done () (eput (tyifullc (tty s)) s)" "edit_line (tty s) w c (B, L) = (B, L)"
      "line_echo (tty s) w c (B, L) = [tyifullc (tty s)]"
      using full nf fl eputc_eq [OF D(6,7)] by (auto simp: cooked_in_def)
    have "tyoheld (tty (eput (tyifullc (tty s)) s)) = tyoheld (tty s)" by (simp add: eput_def)
    then show ?thesis unfolding R using editing_eput [OF e] ikeep_eput [of s s] by simp
  next
    case eof
    have R: "cooked_in c s = end_file c s" "edit_line (tty s) w c (B, L) = (if L = [] then B @ [c] else B, L)"
      "line_echo (tty s) w c (B, L) = (if tyiecho (tty s) then echo_text (tty s) c else [])"
      using eof nf fl by (auto simp: cooked_in_def)
    have "tyitail (tty s) < 127" using f eof by (simp add: fits_def)
    then show ?thesis unfolding R fst_conv snd_conv by (rule end_file_ok [OF e nd _ n])
  next
    case plain
    define s1 where "s1 = fold eput (if tyiecho (tty s) then echo_text (tty s) c else []) s"
    have ed: "editing s1 w B L (fold echo_push (if tyiecho (tty s) then echo_text (tty s) c else []) E)"
      unfolding s1_def by (rule editing_fold [OF e])
    have R: "edit_line (tty s) w c (B, L) = (B, L @ [c])"
      "line_echo (tty s) w c (B, L) = (if tyiecho (tty s) then echo_text (tty s) c else [])"
      using plain nf by auto
    have "cooked_in c s = seq (echo_in c) (seq (upd_tty (\<lambda>t. t\<lparr>tyicursor := tyicursor t + 1\<rparr>)) (put_wrap c)) s"
      using plain fl by (auto simp: cooked_in_def)
    also have "\<dots> = seq (upd_tty (\<lambda>t. t\<lparr>tyicursor := tyicursor t + 1\<rparr>)) (put_wrap c) s1"
      by (simp add: seq_def [of "echo_in c"] echo_in_ok [OF e] s1_def)
    finally have run: "cooked_in c s = seq (upd_tty (\<lambda>t. t\<lparr>tyicursor := tyicursor t + 1\<rparr>)) (put_wrap c) s1" .
    have k: "ikeep s s1" unfolding s1_def by (rule ikeep_fold) simp
    have h: "tyoheld (tty s1) = tyoheld (tty s)" by (simp add: s1_def)
    show ?thesis unfolding R run fst_conv snd_conv
      by (rule ends_mono [OF insert_ok [OF ed n, of c]]) (use ikeep_trans [OF k] h in simp)
  qed
qed

lemma typed_cong:
  assumes same: "settings t' = settings t" shows "typed t' c = typed t c"
  unfolding typed_def settingsD [OF same] ..

lemma edit_line_cong:
  assumes same: "settings t' = settings t" shows "edit_line t' w c p = edit_line t w c p"
  by (cases p) (simp only: edit_line.simps flow_char_def settingsD [OF same])

lemma line_echo_cong:
  assumes same: "settings t' = settings t" shows "line_echo t' w c p = line_echo t w c p"
  by (cases p) (simp only: line_echo.simps flow_char_def echo_text_def erase_text_def pos_text_def settingsD [OF same])

lemma edit_cong:
  assumes same: "settings t' = settings t" shows "edit t' w c p = edit t w c p"
  unfolding edit_def typed_cong [OF same] edit_line_cong [OF same] ..

lemma edit_echo_cong:
  assumes same: "settings t' = settings t" shows "edit_echo t' w c p = edit_echo t w c p"
  unfolding edit_echo_def typed_cong [OF same] line_echo_cong [OF same] ..

lemma handle_char_ok:
  assumes e: "editing s w B L E" and nd: "0 < ndefers (kern s)" and m: "tyimode (tty s) = TY_IMCOOKED"
    and f: "fits s (typed (tty s) c) B L"
  shows "ends (handle_char c s) (\<lambda>_ s'. editing s' w (fst (edit (tty s) w c (B, L))) (snd (edit (tty s) w c (B, L)))
      (fold echo_push (edit_echo (tty s) w c (B, L)) E) \<and> ikeep s s'
      \<and> (tyoheld (tty s') \<longleftrightarrow> tyoflow (tty s) \<and> typed (tty s) c = tyostop (tty s) \<and> typed (tty s) c \<noteq> tyostart (tty s)))"
proof (cases "flow_char (tty s) (typed (tty s) c)")
  case True
  have R: "edit (tty s) w c (B, L) = (B, L)" "edit_echo (tty s) w c (B, L) = []" using True by (simp_all add: edit_def edit_echo_def)
  have ed: "editing (s\<lparr>tty := (tty s)\<lparr>tyoheld := h\<rparr>\<rparr>) w B L E" for h using e by (simp add: editing_def echoes_def)
  have ed2: "\<And>h i. editing (s\<lparr>tty := (tty s)\<lparr>tyoheld := h\<rparr>, csr := (csr s)\<lparr>ier := i\<rparr>\<rparr>) w B L E" using e by (simp add: editing_def echoes_def)
  have k: "\<And>h i. ikeep s (s\<lparr>tty := (tty s)\<lparr>tyoheld := h\<rparr>, csr := (csr s)\<lparr>ier := i\<rparr>\<rparr>)" by (simp add: ikeep_def)
  show ?thesis
  proof (cases "typed (tty s) c = tyostart (tty s)")
    case st: True
    have "handle_char c s = Done () (s\<lparr>tty := (tty s)\<lparr>tyoheld := False\<rparr>, csr := (csr s)\<lparr>ier := or 1 2\<rparr>\<rparr>)"
      using True st m by (auto simp: handle_char_def flow_char_def typed_def Let_def seq_def upd_tty_def ttykickout_def upd_csr_def)
    then show ?thesis unfolding R using ed2 [where h = False and i = "or 1 2"] k [where h = False and i = "or 1 2"] st by simp
  next
    case False
    have "handle_char c s = Done () (s\<lparr>tty := (tty s)\<lparr>tyoheld := True\<rparr>\<rparr>)"
      using True False m by (auto simp: handle_char_def flow_char_def typed_def Let_def upd_tty_def)
    then show ?thesis unfolding R using ed [of True] True False by (auto simp: flow_char_def)
  qed
next
  case False
  define s1 where "s1 = s\<lparr>tty := (tty s)\<lparr>tyoheld := False\<rparr>\<rparr>"
  have ed: "editing s1 w B L E" using e by (simp add: editing_def echoes_def s1_def)
  have st: "settings (tty s1) = settings (tty s)" by (simp add: s1_def)
  have f1: "fits s1 (typed (tty s) c) B L" "\<not> flow_char (tty s1) (typed (tty s) c)" "0 < ndefers (kern s1)"
    using f False nd by (simp_all add: fits_def s1_def flow_char_def)
  have R: "edit_line (tty s1) w (typed (tty s) c) (B, L) = edit (tty s) w c (B, L)"
    "line_echo (tty s1) w (typed (tty s) c) (B, L) = edit_echo (tty s) w c (B, L)"
    by (simp_all only: edit_def edit_echo_def edit_line_cong [OF st] line_echo_cong [OF st])
  have "handle_char c s = cooked_in (typed (tty s) c) s1"
    using False m by (auto simp: handle_char_def flow_char_def typed_def Let_def seq_def upd_tty_def s1_def)
  moreover have "ikeep s s1" by (simp add: s1_def)
  moreover have "\<not> tyoheld (tty s1)" by (simp add: s1_def)
  moreover have h: "\<not> (tyoflow (tty s) \<and> typed (tty s) c = tyostop (tty s) \<and> typed (tty s) c \<noteq> tyostart (tty s))"
    using False by (auto simp: flow_char_def)
  ultimately show ?thesis
    using ends_mono [OF cooked_in_ok [OF ed f1(3,1,2)], unfolded R] ikeep_trans h by simp
qed

section \<open>Many characters\<close>

text \<open>What a list of characters does to the editor and to the echo queue.\<close>

primrec typing :: "ttycblk \<Rightarrow> int \<Rightarrow> 8 word list \<Rightarrow> (8 word list \<times> 8 word list) \<times> 8 word list
    \<Rightarrow> (8 word list \<times> 8 word list) \<times> 8 word list" where
  "typing t w [] X = X"
| "typing t w (c # cs) X = typing t w cs (edit t w c (fst X), fold echo_push (edit_echo t w c (fst X)) (snd X))"

lemma typing_cong:
  assumes same: "settings t' = settings t" shows "typing t' w cs X = typing t w cs X"
  by (induction cs arbitrary: X) (simp_all add: edit_cong [OF same] edit_echo_cong [OF same])

lemma edit_length: "length (fst (edit t w c (B, L)) @ snd (edit t w c (B, L))) \<le> Suc (length (B @ L))"
  by (auto simp: edit_def)

definition pop :: "8 word list \<Rightarrow> ttys \<Rightarrow> ttys" where
  "pop cs s = s\<lparr>csr := (csr s)\<lparr>rbr := cs\<rparr>\<rparr>"

lemma pop_fields [simp]: "tty (pop cs s) = tty s" "kern (pop cs s) = kern s" "rbr (csr (pop cs s)) = cs"
  "pop cs (pop ds s) = pop cs s"
  by (simp_all add: pop_def)

lemma editing_pop [simp]: "editing (pop cs s) w B L E = editing s w B L E"
  by (simp add: editing_def echoes_def)

lemma ikeep_pop: "ikeep (pop cs s) s' \<Longrightarrow> ikeep (pop ds s) (pop ds s')"
  by (simp add: ikeep_def pop_def)

text \<open>The buffer has room for all the characters, and either no line is killed and no end of file
  typed or the array does not end before the last of them.\<close>

definition roomy :: "ttys \<Rightarrow> nat \<Rightarrow> 8 word list \<Rightarrow> bool" where
  "roomy s n cs \<longleftrightarrow> int (n + length cs) \<le> TY_IBUFLEN
     \<and> (tyihead (tty s) + int (n + length cs) < TY_IBUFLEN
        \<or> (\<forall>c\<in>set cs. typed (tty s) c \<noteq> tyikillc (tty s) \<and> typed (tty s) c \<noteq> tyeofch (tty s)))"

lemma roomy_fits:
  assumes e: "editing s w B L E" and r: "roomy s (length (B @ L)) (c # cs)"
  shows "fits s (typed (tty s) c) B L"
proof -
  note D = editingD [OF e]
  have t: "tyitail (tty s) = (tyihead (tty s) + int (length (B @ L))) mod 128" "0 \<le> tyihead (tty s)" using D(1) by (simp_all add: holds_def)
  have "tyitail (tty s) = tyihead (tty s) + int (length (B @ L))" if "tyihead (tty s) + int (length (B @ L)) + 1 < 128"
    using t that by simp
  then show ?thesis using r t(2) unfolding fits_def roomy_def by auto
qed

lemma rx_loop_ok:
  assumes "editing s w B L E" "0 < ndefers (kern s)" "tyimode (tty s) = TY_IMCOOKED" "rbr (csr s) = cs @ rest"
    and "TY_CTRLC \<notin> set cs" "TY_BELL \<notin> set cs" "roomy s (length (B @ L)) cs"
  shows "ends (rx_loop (length cs) s) (\<lambda>_ s'. (\<exists>B' L' E'. typing (tty s) w cs ((B, L), E) = ((B', L'), E')
    \<and> editing s' w B' L' E') \<and> ikeep (pop rest s) s')"
  using assms
proof (induction cs arbitrary: s B L E)
  case Nil
  moreover have "pop rest s = s" using Nil.prems(4) by (simp add: pop_def)
  ultimately show ?case by simp
next
  case (Cons c cs)
  define s0 where "s0 = pop (cs @ rest) s"
  have e0: "editing s0 w B L E" "0 < ndefers (kern s0)" "tyimode (tty s0) = TY_IMCOOKED" using Cons.prems(1-3) by (simp_all add: s0_def)
  have f0: "fits s0 (typed (tty s0) c) B L"
    using roomy_fits [OF Cons.prems(1), of c cs] Cons.prems(7) by (simp add: s0_def fits_def)
  have run: "ttyhandle_in s = handle_char c s0" using Cons.prems(4-6) by (simp add: ttyhandle_in_def s0_def pop_def)
  obtain s1 where s1: "handle_char c s0 = Done () s1"
    and e1: "editing s1 w (fst (edit (tty s) w c (B, L))) (snd (edit (tty s) w c (B, L))) (fold echo_push (edit_echo (tty s) w c (B, L)) E)"
    and k1: "ikeep s0 s1"
    using handle_char_ok [OF e0 f0] unfolding ends_iff by (auto simp: s0_def)
  have st: "settings (tty s1) = settings (tty s)" "tyihead (tty s1) = tyihead (tty s)"
    using iclearD(1,2) [of "tty s1" "tty s"] k1 by (simp_all add: ikeep_def s0_def)
  have nd1: "0 < ndefers (kern s1)" using k1 e0(2) by (simp add: ikeep_def kstill_def stays_def)
  have m1: "tyimode (tty s1) = TY_IMCOOKED" using settingsD(3) [OF st(1)] Cons.prems(3) by simp
  have r1: "rbr (csr s1) = cs @ rest" using k1 by (simp add: ikeep_def s0_def)
  have c1: "TY_CTRLC \<notin> set cs" "TY_BELL \<notin> set cs" using Cons.prems(5,6) by auto
  have room: "roomy s1 (length (fst (edit (tty s) w c (B, L)) @ snd (edit (tty s) w c (B, L)))) cs"
    using Cons.prems(7) edit_length [of "tty s" w c B L] settingsD(12,14) [OF st(1)]
    unfolding roomy_def st(2) typed_cong [OF st(1)] by auto
  show ?case
    using Cons.IH [OF e1 nd1 m1 r1 c1 room] s1 run ikeep_trans [OF ikeep_pop [OF k1 [unfolded s0_def], of rest]]
    by (simp add: typing_cong [OF st(1)] ends_iff seq_def) blast
qed

section \<open>The interrupt\<close>

text \<open>The run is over, or all that is left to do when the process runs again is to return.\<close>

definition finishes :: "unit run \<Rightarrow> ttys \<Rightarrow> bool" where
  "finishes r s' \<longleftrightarrow> r = Done () s' \<or> (\<exists>k. r = Switched s' k \<and> (\<forall>u. k u = Done () u))"

lemma sys_finishes:
  assumes "f (kern s) = Some (r, k)" shows "finishes (seq (sys f) skip s) (s\<lparr>kern := k\<rparr>)"
  using assms by (simp add: finishes_def seq_def sys_def ret_def skip_def)

lemma finishes_seq: "m s = Done x t \<Longrightarrow> finishes (n t) s' \<Longrightarrow> finishes (seq m n s) s'"
  by (simp add: seq_def)

lemma ksem_defer:
  assumes "ksem k sem c" shows "ksem (deferring k) sem c"
proof -
  obtain Q where "kinv k Q" "semrel k Q" using assms by (auto simp: ksem_def)
  then have "kinv (deferring k) Q" "semrel (deferring k) Q" using defer_start [of k Q] by (auto simp: semrel_def)
  then show ?thesis using assms by (auto simp: ksem_def)
qed

lemma ksem_undefer:
  assumes "ksem k sem c" "0 < ndefers k"
  shows "\<exists>k'. resched_cntl DEFER_STOP k = Some (OK, k') \<and> ksem k' sem c \<and> ndefers k' = ndefers k - 1
    \<and> semtab k' = semtab k \<and> mem k' = mem k \<and> envtab k' = envtab k \<and> cmdhistory k' = cmdhistory k"
proof -
  obtain Q where Q: "kinv k Q" "semrel k Q" using assms(1) by (auto simp: ksem_def)
  obtain k' Q' where R: "resched_cntl DEFER_STOP k = Some (OK, k')" "sframe (k\<lparr>ndefers := ndefers k - 1\<rparr>) k'"
    "qframe k Q k' Q'" "kinv k' Q'"
    using resched_cntl_stop_ok [OF kinv_kpre [OF Q(1)]] Q(1) assms(2) by auto
  note F = sframeD [OF R(2)]
  have "settled (k\<lparr>ndefers := ndefers k - 1\<rparr>) Q k' Q'" using R by (simp add: settled_def qframe_def)
  moreover have "semrel (k\<lparr>ndefers := ndefers k - 1\<rparr>) Q" using Q(2) by (simp add: semrel_def)
  ultimately have "semrel k' Q'" by (rule semrel_settled)
  then have "ksem k' sem c" using R(4) assms(1) F by (auto simp: ksem_def)
  then show ?thesis using R(1) F by auto
qed

text \<open>What the interrupt leaves alone; the process that runs may be another one.\<close>

definition hkeep :: "ttys \<Rightarrow> ttys \<Rightarrow> bool" where
  "hkeep s s' \<longleftrightarrow> iclear (tty s') = iclear (tty s) \<and> thr (csr s') = thr (csr s)
     \<and> mem (kern s') = mem (kern s) \<and> envtab (kern s') = envtab (kern s) \<and> ndefers (kern s') = ndefers (kern s)
     \<and> (\<forall>i. i \<noteq> tyisem (tty s) \<longrightarrow> semtab (kern s') i = semtab (kern s) i)
     \<and> shellpid s' = shellpid s \<and> chesc s' = chesc s \<and> arrow s' = arrow s \<and> tmpcmd s' = tmpcmd s"

lemma handler_rx_ok:
  assumes e: "editing s w B L E" and nd: "0 \<le> ndefers (kern s)" and m: "tyimode (tty s) = TY_IMCOOKED"
    and c: "TY_CTRLC \<notin> set (rbr (csr s))" "TY_BELL \<notin> set (rbr (csr s))" and r: "roomy s (length (B @ L)) (rbr (csr s))"
    and i: "and iir 1 = 0" "and iir 0x0E = 0x04 \<or> and iir 0x0E = 0x0C"
  shows "\<exists>s' B' L' E'. finishes (ttyhandler iir lsr s) s' \<and> typing (tty s) w (rbr (csr s)) ((B, L), E) = ((B', L'), E')
    \<and> editing s' w B' L' E' \<and> hkeep s s' \<and> rbr (csr s') = []"
proof -
  define s0 where "s0 = s\<lparr>kern := deferring (kern s)\<rparr>"
  have st: "sys (resched_cntl DEFER_START) s = Done OK s0"
    by (simp add: sys_def resched_cntl_def s0_def deferring_def)
  note D = editingD [OF e]
  have e0: "editing s0 w B L E" using e ksem_defer [OF D(4)] by (simp add: editing_def echoes_def s0_def)
  have nd0: "0 < ndefers (kern s0)" "tyimode (tty s0) = TY_IMCOOKED" "rbr (csr s0) = rbr (csr s) @ []"
    using nd m by (simp_all add: s0_def deferring_def)
  have r0: "roomy s0 (length (B @ L)) (rbr (csr s))" using r by (simp add: roomy_def s0_def)
  obtain s1 B' L' E' where R: "rx_loop (length (rbr (csr s))) s0 = Done () s1" "typing (tty s) w (rbr (csr s)) ((B, L), E) = ((B', L'), E')"
    "editing s1 w B' L' E'" "ikeep (pop [] s0) s1"
    using rx_loop_ok [OF e0 nd0 c r0] unfolding ends_iff by (auto simp: s0_def)
  have nd1: "ndefers (kern s1) = ndefers (kern s) + 1" using R(4) by (simp add: ikeep_def kstill_def stays_def s0_def deferring_def)
  then have "0 < ndefers (kern s1)" using nd by simp
  from ksem_undefer [OF editingD(4) [OF R(3)] this] obtain k' where
    k: "resched_cntl DEFER_STOP (kern s1) = Some (OK, k')" "ksem k' (tyisem (tty s1)) (int (length B') - w)"
    "ndefers k' = ndefers (kern s1) - 1" "semtab k' = semtab (kern s1)" "mem k' = mem (kern s1)" "envtab k' = envtab (kern s1)" by blast
  define s2 where "s2 = s1\<lparr>kern := k'\<rparr>"
  have run: "ttyhandler iir lsr s = seq (sys (resched_cntl DEFER_START)) (seq (rx_loop (length (rbr (csr s)))) (seq (sys (resched_cntl DEFER_STOP)) skip)) s"
    using i by (auto simp: ttyhandler_def Let_def)
  have "finishes (ttyhandler iir lsr s) s2" unfolding run s2_def
    by (rule finishes_seq, rule st, rule finishes_seq, rule R(1), rule sys_finishes [of "resched_cntl DEFER_STOP", OF k(1)])
  moreover have "editing s2 w B' L' E'" using R(3) k(2) by (simp add: editing_def echoes_def s2_def)
  moreover have "hkeep s s2" using R(4) k(3-6) nd1
    by (simp add: hkeep_def ikeep_def kstill_def s2_def s0_def pop_def deferring_def)
  moreover have "rbr (csr s2) = []" using R(4) by (simp add: ikeep_def s2_def)
  ultimately show ?thesis using R(2) by blast
qed

end
