(* ===== verification/TtyRead.thy ===== *)
theory TtyRead
  imports TtyEdit
begin

text \<open>
  Reading: a process takes the characters that were typed, in order, up to the end of a line.
\<close>

section \<open>One character\<close>

lemma ksem_wait:
  assumes "ksem k sem c" "0 < c" "c < 2147483648"
  defines "k' \<equiv> k\<lparr>semtab := (semtab k)(sem := (semtab k sem)\<lparr>scount := c - 1\<rparr>)\<rparr>"
  shows "wait sem k = Some (OK, k')" "ksem k' sem (c - 1)"
proof -
  obtain Q where Q: "kinv k Q" "semrel k Q" and i: "0 \<le> sem" "sem < 100" "sstate (semtab k sem) = S_USED" "scount (semtab k sem) = c"
    using assms(1) by (auto simp: ksem_def)
  note W = sem_wait_pass [OF Q(1) i(1-3)]
  show "wait sem k = Some (OK, k')" using W(1) i(4) assms(2,3) by (simp add: k'_def)
  have "kinv k' Q" using settledD(1) [OF W(2)] i(4) assms(2,3) by (simp add: k'_def)
  moreover have "semrel k' Q" using Q(2) i(4) assms(2) by (auto simp: semrel_def k'_def)
  ultimately show "ksem k' sem (c - 1)" using i by (auto simp: ksem_def k'_def)
qed

text \<open>What a reader leaves alone.\<close>

definition rkeep :: "ttys \<Rightarrow> ttys \<Rightarrow> bool" where
  "rkeep s s' \<longleftrightarrow> settings (tty s') = settings (tty s) \<and> tyicursor (tty s') = tyicursor (tty s)
     \<and> tyitail (tty s') = tyitail (tty s) \<and> tyibuff (tty s') = tyibuff (tty s) \<and> csr s' = csr s
     \<and> currpid (kern s') = currpid (kern s) \<and> envtab (kern s') = envtab (kern s)
     \<and> shellpid s' = shellpid s \<and> tmpcmd s' = tmpcmd s"

lemma rkeep_refl [simp]: "rkeep s s" by (simp add: rkeep_def)

lemma rkeep_trans: "rkeep s t \<Longrightarrow> rkeep t u \<Longrightarrow> rkeep s u" by (simp add: rkeep_def)

text \<open>The part of \<open>ttygetc\<close> after the wait serves one of the characters that are promised.\<close>

definition getc_value :: "ttycblk \<Rightarrow> 8 word \<Rightarrow> int" where
  "getc_value t c = (if tyimode t = TY_IMCOOKED \<and> tyeof t \<and> c = tyeofch t then EOF else uint c)"

lemma in_char_eq:
  assumes "holds 128 (tyibuff (tty s)) (tyihead (tty s)) (tyitail (tty s)) (c # X)"
  shows "in_char s = Done (getc_value (tty s) c) (s\<lparr>tty := (tty s)\<lparr>tyihead := (tyihead (tty s) + 1) mod 128\<rparr>\<rparr>)"
proof -
  have r: "0 \<le> tyihead (tty s)" "tyihead (tty s) < 128" using holds_range [OF assms] by auto
  show ?thesis using holds_pop(1) [OF assms] next_mod [OF r] r
    by (auto simp: in_char_def bget_def Let_def getc_value_def)
qed

lemma in_char_ok:
  assumes e: "editing s w (c # B) L E" and w: "0 < w"
  shows "\<exists>s'. in_char s = Done (getc_value (tty s) c) s' \<and> editing s' (w - 1) B L E \<and> rkeep s s'
    \<and> kern s' = kern s \<and> chesc s' = chesc s \<and> arrow s' = arrow s"
proof -
  note D = editingD [OF e]
  have h: "holds 128 (tyibuff (tty s)) (tyihead (tty s)) (tyitail (tty s)) (c # (B @ L))" using D(1) by simp
  show ?thesis using in_char_eq [OF h] holds_pop(2) [OF h] D w
    by (simp add: editing_def echoes_def rkeep_def algebra_simps)
qed

lemma ttygetc_ok:
  assumes e: "editing s w (c # B) L E" and n: "w < int (length (c # B))"
  shows "\<exists>s'. ttygetc s = Done (getc_value (tty s) c) s' \<and> editing s' w B L E \<and> rkeep s s'
    \<and> mem (kern s') = mem (kern s) \<and> chesc s' = chesc s \<and> arrow s' = arrow s"
proof -
  note D = editingD [OF e]
  let ?n = "int (length (c # B)) - w"
  have h: "holds 128 (tyibuff (tty s)) (tyihead (tty s)) (tyitail (tty s)) (c # (B @ L))" using D(1) by simp
  then have le: "length B < 128" by (simp add: holds_def)
  define k' where "k' = (kern s)\<lparr>semtab := (semtab (kern s))(tyisem (tty s) := (semtab (kern s) (tyisem (tty s)))\<lparr>scount := ?n - 1\<rparr>)\<rparr>"
  have n': "0 < ?n" "?n < 2147483648" using n le D(5) by auto
  have W: "wait (tyisem (tty s)) (kern s) = Some (OK, k')" "ksem k' (tyisem (tty s)) (?n - 1)"
    unfolding k'_def by (rule ksem_wait [OF D(4) n'])+
  have c: "currpid k' = currpid (kern s)" by (simp add: k'_def)
  define s1 where "s1 = s\<lparr>kern := k'\<rparr>"
  have "ttygetc s = in_char s1" using W(1) c by (simp add: ttygetc_def seq_def sys_def s1_def)
  also have "\<dots> = Done (getc_value (tty s) c) (s1\<lparr>tty := (tty s1)\<lparr>tyihead := (tyihead (tty s1) + 1) mod 128\<rparr>\<rparr>)"
    using in_char_eq [of s1 c "B @ L"] h by (simp add: s1_def)
  finally have run: "ttygetc s = Done (getc_value (tty s) c) (s1\<lparr>tty := (tty s1)\<lparr>tyihead := (tyihead (tty s1) + 1) mod 128\<rparr>\<rparr>)" .
  have "ksem k' (tyisem (tty s)) (int (length B) - w)" using W(2) by (simp add: algebra_simps)
  then show ?thesis using run holds_pop(2) [OF h] D c
    by (simp add: editing_def echoes_def rkeep_def s1_def) (simp add: k'_def)
qed

section \<open>A line\<close>

text \<open>What a read of \<open>n\<close> characters takes from those that were typed.\<close>

fun read_line :: "nat \<Rightarrow> 8 word list \<Rightarrow> 8 word list" where
  "read_line 0 B = []"
| "read_line (Suc n) [] = []"
| "read_line (Suc n) (c # B) = c # (if c = TY_NEWLINE \<or> c = TY_RETURN then [] else read_line n B)"

definition complete :: "nat \<Rightarrow> 8 word list \<Rightarrow> bool" where
  "complete n l \<longleftrightarrow> length l = n \<or> (l \<noteq> [] \<and> (last l = TY_NEWLINE \<or> last l = TY_RETURN))"

lemma read_line_take: "\<exists>k. read_line n B = take k B"
proof (induction n B rule: read_line.induct)
  case (3 n c B)
  then obtain k where "read_line n B = take k B" if "\<not> (c = TY_NEWLINE \<or> c = TY_RETURN)" by blast
  then show ?case by (cases "c = TY_NEWLINE \<or> c = TY_RETURN") (auto intro: exI [of _ "Suc 0"] exI [of _ "Suc k"])
qed auto

lemma poke_snoc_mem: "poke (m(a := c)) (a + 1) cs = poke m a (c # cs)"
  by simp

lemma store_ok:
  assumes "editing s w B L E"
  shows "\<exists>s'. store a c s = Done () s' \<and> editing s' w B L E \<and> rkeep s s' \<and> mem (kern s') = (mem (kern s))(a := c)
    \<and> chesc s' = chesc s \<and> arrow s' = arrow s"
proof -
  have k: "ksem (k\<lparr>mem := m\<rparr>) sem n" if "ksem k sem n" for k m sem n
  proof -
    have "kcore (k\<lparr>mem := m\<rparr>) = kcore k" by (simp add: kcore_def)
    then have "kinv (k\<lparr>mem := m\<rparr>) Q = kinv k Q" for Q by (rule kinv_core)
    then show ?thesis using that by (simp add: ksem_def semrel_def)
  qed
  show ?thesis using assms k by (simp add: store_def editing_def echoes_def rkeep_def)
qed

text \<open>With no escape character about, the arrow keys are never seen.\<close>

lemma chkspecial_ok:
  assumes "editing s w B L E" "\<not> chesc s" "c \<noteq> TY_ESC"
  shows "\<exists>s'. ttychkspecial c s = Done 0 s' \<and> editing s' w B L E \<and> rkeep s s' \<and> kern s' = kern s \<and> \<not> chesc s'"
  using assms by (auto simp: ttychkspecial_def editing_def echoes_def rkeep_def)

definition at_eol :: "8 word \<Rightarrow> bool" where
  "at_eol c \<longleftrightarrow> c = TY_NEWLINE \<or> c = TY_RETURN"

text \<open>A read of \<open>n\<close> characters can be served without waiting.\<close>

definition served :: "ttys \<Rightarrow> int \<Rightarrow> nat \<Rightarrow> 8 word list \<Rightarrow> bool" where
  "served s w n B \<longleftrightarrow> complete n (read_line n B) \<and> w + int (length (read_line n B)) \<le> int (length B)
     \<and> TY_ESC \<notin> set (read_line n B) \<and> tyeofch (tty s) \<notin> set (read_line n B)"

lemma served_Cons:
  assumes "served s w (Suc n) (c # B)" "\<not> at_eol c"
  shows "served s w n B"
  using assms by (auto simp: served_def complete_def at_eol_def split: if_splits)

lemma served_nonempty: "served s w (Suc n) B \<Longrightarrow> \<exists>c B'. B = c # B' \<and> c \<noteq> TY_ESC \<and> c \<noteq> tyeofch (tty s)"
  by (cases B) (auto simp: served_def complete_def)

lemma read_loop_ok:
  assumes "editing s w B L E" "tyimode (tty s) = TY_IMCOOKED" "\<not> chesc s" "served s w n B" "\<not> at_eol ch" "n < rounds"
  shows "\<exists>s'. read_loop rounds buff nread (nread + int n) ch s = Done (nread + int (length (read_line n B))) s'
    \<and> editing s' w (drop (length (read_line n B)) B) L E \<and> rkeep s s' \<and> mem (kern s') = poke (mem (kern s)) buff (read_line n B) \<and> \<not> chesc s'"
  using assms
proof (induction n arbitrary: s B buff nread ch rounds)
  case 0
  then show ?case by (cases rounds) (auto simp: ret_def)
next
  case (Suc n)
  obtain r where r: "rounds = Suc r" using Suc.prems(6) by (cases rounds) auto
  obtain c B' where B: "B = c # B'" and ne: "c \<noteq> TY_ESC" "c \<noteq> tyeofch (tty s)" using served_nonempty [OF Suc.prems(4)] by blast
  have avail: "w < int (length (c # B'))" using Suc.prems(4) unfolding B served_def by simp
  have e: "editing s w (c # B') L E" using Suc.prems(1) B by simp
  obtain s1 where 1: "ttygetc s = Done (getc_value (tty s) c) s1" "editing s1 w B' L E" "rkeep s s1"
    "mem (kern s1) = mem (kern s)" "chesc s1 = chesc s" using ttygetc_ok [OF e avail] by blast
  have v: "getc_value (tty s) c = uint c" using ne(2) by (simp add: getc_value_def)
  obtain s2 where 2: "store buff c s1 = Done () s2" "editing s2 w B' L E" "rkeep s1 s2" "mem (kern s2) = (mem (kern s1))(buff := c)"
    "chesc s2 = chesc s1" using store_ok [OF 1(2)] by blast
  have ce: "\<not> chesc s2" using 1(5) 2(5) Suc.prems(3) by simp
  obtain s3 where 3: "ttychkspecial c s2 = Done 0 s3" "editing s3 w B' L E" "rkeep s2 s3" "kern s3 = kern s2" "\<not> chesc s3"
    using chkspecial_ok [OF 2(2) ce ne(1)] by blast
  have k: "rkeep s s3" using rkeep_trans [OF 1(3) rkeep_trans [OF 2(3) 3(3)]] .
  have m: "mem (kern s3) = (mem (kern s))(buff := c)" using 1(4) 2(4) 3(4) by simp
  have step: "read_loop rounds buff nread (nread + int (Suc n)) ch s = read_loop r (buff + 1) (nread + 1) ((nread + 1) + int n) c s3"
    using Suc.prems(5) 1(1) v 2(1) 3(1) by (simp add: r at_eol_def bnd_def seq_def Let_def add.assoc)
  show ?case
  proof (cases "at_eol c")
    case True
    then have "read_line (Suc n) B = [c]" by (simp add: B at_eol_def)
    moreover have "read_loop r (buff + 1) (nread + 1) ((nread + 1) + int n) c s3 = Done (nread + 1) s3"
      using True Suc.prems(6) r by (cases r) (auto simp: at_eol_def ret_def)
    ultimately show ?thesis using step 3 k m B by (simp add: fun_upd_def)
  next
    case False
    have st: "settings (tty s3) = settings (tty s)" using k by (simp add: rkeep_def)
    have md: "tyimode (tty s3) = TY_IMCOOKED" using settingsD(3) [OF st] Suc.prems(2) by simp
    have sv: "served s3 w n B'" using served_Cons [OF Suc.prems(4) [unfolded B] False] settingsD(12) [OF st] by (simp add: served_def)
    have rl: "read_line (Suc n) B = c # read_line n B'" using False by (simp add: B at_eol_def)
    have "n < r" using Suc.prems(6) r by simp
    from Suc.IH [OF 3(2) md 3(5) sv False this, of "buff + 1" "nread + 1"] obtain s' where
      "read_loop r (buff + 1) (nread + 1) ((nread + 1) + int n) c s3 = Done ((nread + 1) + int (length (read_line n B'))) s'"
      "editing s' w (drop (length (read_line n B')) B') L E" "rkeep s3 s'"
      "mem (kern s') = poke (mem (kern s3)) (buff + 1) (read_line n B')" "\<not> chesc s'" by blast
    then show ?thesis using step rl B m rkeep_trans [OF k] by (simp add: add.assoc)
  qed
qed

text \<open>What follows the first character of a line.\<close>

lemma ttyread_cooked:
  assumes "tyimode (tty s) = TY_IMCOOKED" "0 \<le> count" "tmpcmd s \<noteq> 0 \<or> cmdhistory (kern s) = 0"
  shows "ttyread rounds buff count s = bnd ttygetc (read_rest rounds buff count) s"
proof -
  have "(if tmpcmd s = 0 then s\<lparr>tmpcmd := cmdhistory (kern s)\<rparr> else s) = s" using assms(3) by (cases s) auto
  then show ?thesis using assms(1,2) by (simp add: ttyread_def)
qed

lemma read_rest_ok:
  assumes e: "editing s w B L E" and m: "tyimode (tty s) = TY_IMCOOKED" and ce: "\<not> chesc s"
    and c: "c \<noteq> TY_ESC" "at_eol c \<or> served s w n B" and r: "n < rounds"
  defines "l \<equiv> (if at_eol c then [] else read_line n B)"
  shows "\<exists>s'. read_rest rounds buff (1 + int n) (uint c) s = Done (1 + int (length l)) s'
    \<and> editing s' w (drop (length l) B) L E \<and> rkeep s s' \<and> mem (kern s') = poke (mem (kern s)) buff (c # l) \<and> \<not> chesc s'"
proof -
  have ne: "uint c \<noteq> -2" using uint_ge_0 [of c] by linarith
  obtain s2 where 2: "store buff c s = Done () s2" "editing s2 w B L E" "rkeep s s2" "mem (kern s2) = (mem (kern s))(buff := c)"
    "chesc s2 = chesc s" using store_ok [OF e] by blast
  have ce2: "\<not> chesc s2" using 2(5) ce by simp
  obtain s3 where 3: "ttychkspecial c s2 = Done 0 s3" "editing s3 w B L E" "rkeep s2 s3" "kern s3 = kern s2" "\<not> chesc s3"
    using chkspecial_ok [OF 2(2) ce2 c(1)] by blast
  have k: "rkeep s s3" by (rule rkeep_trans [OF 2(3) 3(3)])
  have mm: "mem (kern s3) = (mem (kern s))(buff := c)" using 2(4) 3(4) by simp
  have step: "read_rest rounds buff (1 + int n) (uint c) s = read_loop rounds (buff + 1) 1 (1 + int n) c s3"
    using ne 2(1) 3(1) by (simp add: read_rest_def seq_def Let_def)
  show ?thesis
  proof (cases "at_eol c")
    case True
    then have "read_loop rounds (buff + 1) 1 (1 + int n) c s3 = Done 1 s3" using r by (cases rounds) (auto simp: at_eol_def ret_def)
    then show ?thesis using step 3 k mm True by (simp add: l_def fun_upd_def)
  next
    case False
    have st: "settings (tty s3) = settings (tty s)" using k by (simp add: rkeep_def)
    have md: "tyimode (tty s3) = TY_IMCOOKED" using settingsD(3) [OF st] m by simp
    have sv: "served s3 w n B" using c(2) False settingsD(12) [OF st] by (simp add: served_def)
    from read_loop_ok [OF 3(2) md 3(5) sv False r, of "buff + 1" 1] show ?thesis
      using step mm False rkeep_trans [OF k] by (auto simp: l_def)
  qed
qed

end
