(* ===== verification/TtyOut.thy ===== *)
theory TtyOut
  imports TtyRead
begin

text \<open>
  Output: what processes write is a line of characters behind the echo queue, and the transmit
  interrupt moves the front of both to the uart.
\<close>

section \<open>The state of the output\<close>

text \<open>\<open>out\<close> waits in the output buffer; \<open>v\<close> places are taken, as the semaphore counts them.\<close>

definition sending :: "ttys \<Rightarrow> int \<Rightarrow> 8 word list \<Rightarrow> 8 word list \<Rightarrow> bool" where
  "sending s v out E \<longleftrightarrow>
     holds TY_OBUFLEN (tyobuff (tty s)) (tyohead (tty s)) (tyotail (tty s)) out
     \<and> echoes s E \<and> ksem (kern s) (tyosem (tty s)) (TY_OBUFLEN - v)"

lemma sendingD:
  assumes "sending s v out E"
  shows "holds 64 (tyobuff (tty s)) (tyohead (tty s)) (tyotail (tty s)) out" "echoes s E"
    "ksem (kern s) (tyosem (tty s)) (64 - v)" "semcount (tyosem (tty s)) (kern s) = 64 - v"
    "0 \<le> tyotail (tty s)" "tyotail (tty s) < 64" "0 \<le> tyohead (tty s)" "tyohead (tty s) < 64"
  using assms holds_range ksem_count by (auto simp: sending_def)

text \<open>What the upper half of the output leaves alone, and the interrupt too.\<close>

definition oclear :: "ttycblk \<Rightarrow> ttycblk" where
  "oclear t = t\<lparr>tyohead := 0, tyotail := 0, tyobuff := (\<lambda>_. 0), tyehead := 0\<rparr>"

definition okeep :: "ttys \<Rightarrow> ttys \<Rightarrow> bool" where
  "okeep s s' \<longleftrightarrow> oclear (tty s') = oclear (tty s) \<and> rbr (csr s') = rbr (csr s) \<and> txfifo_lvl (csr s') = txfifo_lvl (csr s)
     \<and> mem (kern s') = mem (kern s)"

lemma okeep_refl [simp]: "okeep s s" by (simp add: okeep_def)

lemma okeep_trans: "okeep s t \<Longrightarrow> okeep t u \<Longrightarrow> okeep s u" by (simp add: okeep_def)

lemma oclearD: "oclear t' = oclear t \<Longrightarrow> settings t' = settings t \<and> tyehead (t'\<lparr>tyehead := i\<rparr>) = i \<and> tyetail t' = tyetail t \<and> tyebuff t' = tyebuff t"
  by (cases t; cases t'; simp add: oclear_def settings_def)

section \<open>Writing\<close>

lemma put_one_ok:
  assumes s: "sending s (int (length out)) out E" and n: "length out < 64"
  shows "\<exists>s'. put_one c s = Done OK s' \<and> sending s' (int (length (out @ [c]))) (out @ [c]) E \<and> okeep s s' \<and> thr (csr s') = thr (csr s)"
proof -
  note D = sendingD [OF s]
  let ?n = "64 - int (length out)"
  define k' where "k' = (kern s)\<lparr>semtab := (semtab (kern s))(tyosem (tty s) := (semtab (kern s) (tyosem (tty s)))\<lparr>scount := ?n - 1\<rparr>)\<rparr>"
  have n': "0 < ?n" "?n < 2147483648" using n by auto
  have W: "wait (tyosem (tty s)) (kern s) = Some (OK, k')" "ksem k' (tyosem (tty s)) (?n - 1)"
    unfolding k'_def by (rule ksem_wait [OF D(3) n'])+
  define s' where "s' = s\<lparr>kern := k', tty := (tty s)\<lparr>tyobuff := (tyobuff (tty s))(tyotail (tty s) := c), tyotail := (tyotail (tty s) + 1) mod 64\<rparr>,
      csr := (csr s)\<lparr>ier := 3\<rparr>\<rparr>"
  have "put_one c s = Done OK s'"
    using W(1) D(5,6) next_mod [OF D(5,6)]
    by (auto simp: put_one_def seq_def sys_def out_char_def bput_def Let_def ttykickout_def upd_csr_def ret_def s'_def k'_def)
  moreover have "ksem k' (tyosem (tty s)) (64 - int (length (out @ [c])))" using W(2) by (simp add: algebra_simps)
  then have "sending s' (int (length (out @ [c]))) (out @ [c]) E"
    using holds_snoc [OF D(1), of c] n D(2) by (simp add: sending_def echoes_def s'_def)
  moreover have "okeep s s'" by (simp add: okeep_def oclear_def s'_def k'_def)
  ultimately show ?thesis by (auto simp: s'_def)
qed

text \<open>A newline is written as two characters.\<close>

definition crlf :: "ttycblk \<Rightarrow> 8 word \<Rightarrow> 8 word list" where
  "crlf t c = (if c = TY_NEWLINE \<and> tyocrlf t then [TY_RETURN, TY_NEWLINE] else [c])"

lemma ttyputc_ok:
  assumes s: "sending s (int (length out)) out E" and n: "length (out @ crlf (tty s) c) \<le> 64"
  shows "\<exists>s'. ttyputc c s = Done OK s' \<and> sending s' (int (length (out @ crlf (tty s) c))) (out @ crlf (tty s) c) E \<and> okeep s s'
    \<and> thr (csr s') = thr (csr s)"
proof (cases "c = TY_NEWLINE \<and> tyocrlf (tty s)")
  case True
  then have n': "length out < 64" "length (out @ [TY_RETURN]) < 64" using n by (auto simp: crlf_def)
  obtain s1 where 1: "put_one TY_RETURN s = Done OK s1" "sending s1 (int (length (out @ [TY_RETURN]))) (out @ [TY_RETURN]) E" "okeep s s1"
    "thr (csr s1) = thr (csr s)" using put_one_ok [OF s n'(1)] by blast
  obtain s2 where 2: "put_one c s1 = Done OK s2" "sending s2 (int (length ((out @ [TY_RETURN]) @ [c]))) ((out @ [TY_RETURN]) @ [c]) E" "okeep s1 s2"
    "thr (csr s2) = thr (csr s1)" using put_one_ok [OF 1(2) n'(2)] by blast
  have "ttyputc c s = Done OK s2" using True 1(1) 2(1) by (simp add: ttyputc_def seq_def)
  moreover have eq: "(out @ [TY_RETURN]) @ [c] = out @ crlf (tty s) c" using True by (simp add: crlf_def)
  moreover have "thr (csr s2) = thr (csr s)" using 1(4) 2(4) by simp
  ultimately show ?thesis using 2(2) okeep_trans [OF 1(3) 2(3)] unfolding eq by blast
next
  case False
  then have "crlf (tty s) c = [c]" "ttyputc c s = put_one c s" by (auto simp: crlf_def ttyputc_def)
  then show ?thesis using put_one_ok [OF s] n by simp
qed

definition wtext :: "ttycblk \<Rightarrow> 8 word list \<Rightarrow> 8 word list" where
  "wtext t cs = concat (map (crlf t) cs)"

lemma wtext_simps [simp]: "wtext t [] = []" "wtext t (c # cs) = crlf t c @ wtext t cs"
  by (simp_all add: wtext_def)

lemma wtext_okeep: "okeep s s' \<Longrightarrow> crlf (tty s') = crlf (tty s) \<and> wtext (tty s') = wtext (tty s)"
  using settingsD(18) [of "tty s'" "tty s"] oclearD [of "tty s'" "tty s"] unfolding wtext_def crlf_def okeep_def by simp

lemma write_loop_ok:
  assumes "sending s (int (length out)) out E" "length (out @ wtext (tty s) (mbytes (mem (kern s)) buff n)) \<le> 64"
  shows "\<exists>s'. write_loop n buff s = Done () s' \<and> okeep s s' \<and> thr (csr s') = thr (csr s)
    \<and> sending s' (int (length (out @ wtext (tty s) (mbytes (mem (kern s)) buff n)))) (out @ wtext (tty s) (mbytes (mem (kern s)) buff n)) E"
  using assms
proof (induction n arbitrary: s out buff)
  case 0
  then show ?case by (simp add: skip_def)
next
  case (Suc n)
  let ?c = "mem (kern s) buff"
  note m = mbytes_Suc [of "mem (kern s)" buff n]
  have n1: "length (out @ crlf (tty s) ?c) \<le> 64" using Suc.prems(2) by (simp add: m)
  obtain s1 where 1: "ttyputc ?c s = Done OK s1" "sending s1 (int (length (out @ crlf (tty s) ?c))) (out @ crlf (tty s) ?c) E" "okeep s s1"
    "thr (csr s1) = thr (csr s)" using ttyputc_ok [OF Suc.prems(1) n1] by blast
  have w: "wtext (tty s1) = wtext (tty s)" "mem (kern s1) = mem (kern s)" using wtext_okeep [OF 1(3)] 1(3) by (simp_all add: okeep_def)
  have n2: "length ((out @ crlf (tty s) ?c) @ wtext (tty s1) (mbytes (mem (kern s1)) (buff + 1) n)) \<le> 64"
    using Suc.prems(2) by (simp add: m w)
  from Suc.IH [OF 1(2) n2] obtain s' where "write_loop n (buff + 1) s1 = Done () s'" "okeep s1 s'" "thr (csr s') = thr (csr s1)"
    "sending s' (int (length ((out @ crlf (tty s) ?c) @ wtext (tty s) (mbytes (mem (kern s)) (buff + 1) n))))
      ((out @ crlf (tty s) ?c) @ wtext (tty s) (mbytes (mem (kern s)) (buff + 1) n)) E" unfolding w by blast
  then show ?case using 1 okeep_trans [OF 1(3)] by (simp add: seq_def m)
qed

lemma ttywrite_ok:
  assumes s: "sending s (int (length out)) out E" and n: "length (out @ wtext (tty s) (mbytes (mem (kern s)) buff (nat count))) \<le> 64" "0 \<le> count"
  shows "\<exists>s'. ttywrite buff count s = Done OK s' \<and> okeep s s' \<and> thr (csr s') = thr (csr s)
    \<and> sending s' (int (length (out @ wtext (tty s) (mbytes (mem (kern s)) buff (nat count)))))
        (out @ wtext (tty s) (mbytes (mem (kern s)) buff (nat count))) E"
proof (cases "count = 0")
  case True
  then show ?thesis using s by (simp add: ttywrite_def ret_def)
next
  case False
  then show ?thesis using write_loop_ok [OF s n(1)] n(2) by (auto simp: ttywrite_def seq_def ret_def)
qed

section \<open>The interrupt\<close>

lemma echo_loop_ok:
  assumes "echoes s E"
  shows "\<exists>i s'. echo_loop u s = Some (u - length E, s') \<and> echoes s' (drop u E)
    \<and> s' = s\<lparr>tty := (tty s)\<lparr>tyehead := i\<rparr>, csr := (csr s)\<lparr>thr := thr (csr s) @ take u E\<rparr>\<rparr>"
  using assms
proof (induction u arbitrary: s E)
  case 0
  then show ?case by (auto intro: exI [of _ "tyehead (tty s)"])
next
  case (Suc u)
  have h: "holds 20 (tyebuff (tty s)) (tyehead (tty s)) (tyetail (tty s)) E" "int (length E) < 20" using Suc.prems by (simp_all add: echoes_def)
  note r = holds_range [OF h(1)]
  show ?case
  proof (cases E)
    case Nil
    then have "tyehead (tty s) = tyetail (tty s)" using holds_empty_iff [OF h] by simp
    then show ?thesis using Nil Suc.prems by (auto intro: exI [of _ "tyehead (tty s)"])
  next
    case (Cons c E')
    define s1 where "s1 = s\<lparr>tty := (tty s)\<lparr>tyehead := (tyehead (tty s) + 1) mod 20\<rparr>, csr := (csr s)\<lparr>thr := thr (csr s) @ [c]\<rparr>\<rparr>"
    have ne: "tyehead (tty s) \<noteq> tyetail (tty s)" using holds_empty_iff [OF h] Cons by simp
    have e1: "echoes s1 E'" using holds_pop(2) [OF h(1) [unfolded Cons]] h(2) Cons by (simp add: echoes_def s1_def)
    have "echo_loop (Suc u) s = echo_loop u s1"
      using ne holds_pop(1) [OF h(1) [unfolded Cons]] r next_mod [of "tyehead (tty s)" 20] by (auto simp: bget_def Let_def s1_def)
    then show ?thesis using Suc.IH [OF e1] Cons by (auto simp: s1_def)
  qed
qed

lemma send_loop_ok:
  assumes "holds 64 (tyobuff (tty s)) (tyohead (tty s)) (tyotail (tty s)) out" "min u a \<le> length out"
  shows "\<exists>i s'. send_loop u (int a) n s = Some (n + int (min u a), s')
    \<and> holds 64 (tyobuff (tty s')) (tyohead (tty s')) (tyotail (tty s')) (drop (min u a) out)
    \<and> s' = s\<lparr>tty := (tty s)\<lparr>tyohead := i\<rparr>, csr := (csr s)\<lparr>thr := thr (csr s) @ take (min u a) out\<rparr>\<rparr>"
  using assms
proof (induction u arbitrary: s out a n)
  case 0
  then show ?case by (auto intro: exI [of _ "tyohead (tty s)"])
next
  case (Suc u)
  note r = holds_range [OF Suc.prems(1)]
  show ?case
  proof (cases a)
    case 0
    then show ?thesis using Suc.prems by (auto intro: exI [of _ "tyohead (tty s)"])
  next
    case a: (Suc b)
    then obtain c out' where out: "out = c # out'" using Suc.prems(2) by (cases out) auto
    define s1 where "s1 = s\<lparr>tty := (tty s)\<lparr>tyohead := (tyohead (tty s) + 1) mod 64\<rparr>, csr := (csr s)\<lparr>thr := thr (csr s) @ [c]\<rparr>\<rparr>"
    have h1: "holds 64 (tyobuff (tty s1)) (tyohead (tty s1)) (tyotail (tty s1)) out'"
      using holds_pop(2) [OF Suc.prems(1) [unfolded out]] by (simp add: s1_def)
    have "send_loop (Suc u) (int a) n s = send_loop u (int b) (n + 1) s1"
      using a holds_pop(1) [OF Suc.prems(1) [unfolded out]] r next_mod [of "tyohead (tty s)" 64] by (auto simp: bget_def Let_def s1_def)
    moreover have "min u b \<le> length out'" using Suc.prems(2) a out by simp
    ultimately show ?thesis using Suc.IH [OF h1, of b "n + 1"] a out by (auto simp: s1_def)
  qed
qed

text \<open>The state of a run at its end, or when it is interrupted.\<close>

primrec now :: "'a run \<Rightarrow> ttys option" where
  "now (Done x s) = Some s"
| "now (Switched s k) = Some s"
| "now Undef = None"

lemma ksem_released:
  assumes "ksem k sem c" "0 \<le> ndefers k" "c + int n < 2147483648"
  shows "\<exists>k'. signaln sem (int n) k = Some (OK, k') \<and> ksem k' sem (c + int n) \<and> mem k' = mem k"
proof -
  obtain Q where Q: "kinv k Q" "semrel k Q" and i: "0 \<le> sem" "sem < 100" "sstate (semtab k sem) = S_USED" "scount (semtab k sem) = c"
    using assms(1) by (auto simp: ksem_def)
  have n: "0 \<le> int n" "scount (semtab k sem) + int n < 2147483648" using assms(3) i by simp_all
  obtain k' Q' where R: "signaln sem (int n) k = Some (OK, k')"
    "settled (abs_up sem (take (nat (int n)) (Q (squeue (semtab k sem)))) (int n) k)
       (Q(squeue (semtab k sem) := drop (nat (int n)) (Q (squeue (semtab k sem))))) k' Q'"
    using signaln_ok [OF Q assms(2) i(1-3) n] by auto
  note F = sframeD [OF settledD(2) [OF R(2)]]
  have "semrel k' Q'"
    by (rule semrel_settled [OF R(2) semrel_abs_up [OF kpreD(1) [OF kinv_kpre [OF Q(1)]] Q(2) i(1,2) n(1)]])
  then show ?thesis using R(1) settledD(1) [OF R(2)] F i by (auto simp: ksem_def)
qed

lemma sending_ier [simp]: "sending (s\<lparr>csr := (csr s)\<lparr>ier := i\<rparr>\<rparr>) v out E = sending s v out E"
  by (simp add: sending_def echoes_def)

lemma okeep_ier [simp]: "okeep s (s'\<lparr>csr := (csr s')\<lparr>ier := i\<rparr>\<rparr>) = okeep s s'"
  by (simp add: okeep_def)

lemma now_finish:
  "\<exists>i. now ((if all_sent s then tx_off s else Done () s)) = Some (s\<lparr>csr := (csr s)\<lparr>ier := i\<rparr>\<rparr>)"
  by (auto simp: tx_off_def upd_csr_def intro: exI [of _ "ier (csr s)"])

lemma all_sent_iff:
  assumes "sending s v out E" shows "all_sent s \<longleftrightarrow> E = [] \<and> v \<le> 0"
proof -
  note D = sendingD [OF assms]
  have "tyehead (tty s) = tyetail (tty s) \<longleftrightarrow> E = []" using D(2) holds_empty_iff unfolding echoes_def by blast
  then show ?thesis using D(4) by (auto simp: all_sent_def)
qed

lemma handle_out_ok:
  assumes s: "sending s v out E" and nh: "\<not> tyoheld (tty s)" and nd: "0 \<le> ndefers (kern s)"
    and v: "v = int (length out) \<or> length out = 64 \<and> 64 \<le> v" and l: "0 \<le> txfifo_lvl (csr s)"
  defines "u \<equiv> nat (64 - txfifo_lvl (csr s))"
  shows "\<exists>s'. now (ttyhandle_out s) = Some s' \<and> thr (csr s') = thr (csr s) @ take u (E @ out)
    \<and> sending s' (v - min (int (u - length E)) v) (drop (u - length E) out) (drop u E) \<and> okeep s s'"
proof (cases "all_sent s")
  case True
  then have "E = []" "v \<le> 0" "out = []" using all_sent_iff [OF s] v by auto
  moreover have "ttyhandle_out s = Done () (s\<lparr>csr := (csr s)\<lparr>ier := and (ier (csr s)) (u32 (not 2))\<rparr>\<rparr>)"
    using nh True by (simp add: ttyhandle_out_def tx_off_def upd_csr_def)
  ultimately show ?thesis using s v by (auto simp: okeep_def)
next
  case False
  note D = sendingD [OF s]
  define a where "a = u - length E"
  define n where "n = min a (nat v)"
  have vn: "v = int (nat v)" using v by auto
  have u64: "u \<le> 64" using l by (simp add: u_def)
  have n: "n \<le> length out" "take n out = take a out" "drop n out = drop a out"
    using v u64 by (auto simp: n_def a_def min_def)
  obtain i s1 where 1: "echo_loop u s = Some (a, s1)" "echoes s1 (drop u E)"
    "s1 = s\<lparr>tty := (tty s)\<lparr>tyehead := i\<rparr>, csr := (csr s)\<lparr>thr := thr (csr s) @ take u E\<rparr>\<rparr>"
    using echo_loop_ok [OF D(2), of u] unfolding a_def by blast
  have h1: "holds 64 (tyobuff (tty s1)) (tyohead (tty s1)) (tyotail (tty s1)) out" using D(1) by (simp add: 1(3))
  obtain j s2 where 2: "send_loop a (int (nat v)) 0 s1 = Some (0 + int n, s2)"
    "holds 64 (tyobuff (tty s2)) (tyohead (tty s2)) (tyotail (tty s2)) (drop n out)"
    "s2 = s1\<lparr>tty := (tty s1)\<lparr>tyohead := j\<rparr>, csr := (csr s1)\<lparr>thr := thr (csr s1) @ take n out\<rparr>\<rparr>"
    using send_loop_ok [OF h1 n(1) [unfolded n_def], of 0] unfolding n_def by blast
  have sm: "tyosem (tty s2) = tyosem (tty s)" "kern s2 = kern s" "tyosem (tty s1) = tyosem (tty s)" "kern s1 = kern s"
    by (simp_all add: 2(3) 1(3))
  have lim: "send_loop a (64 - semcount (tyosem (tty s1)) (kern s1)) 0 s1 = Some (int n, s2)" using 2(1) vn D(4) sm by simp
  have keep: "okeep s s2" "thr (csr s2) = thr (csr s) @ take u (E @ out)" "echoes s2 (drop u E)"
    using 1(2) by (simp_all add: okeep_def oclear_def 2(3) 1(3) n(2) a_def echoes_def)
  have mv: "min (int a) v = int n" using vn unfolding n_def by linarith
  have run: "ttyhandle_out s = seq (if int n > 0 then sys (signaln (tyosem (tty s2)) (int n)) else ret OK)
      (\<lambda>s. if all_sent s then tx_off s else Done () s) s2"
    using nh False 1(1) lim by (simp add: ttyhandle_out_def u_def [symmetric])
  show ?thesis
  proof (cases "n = 0")
    case True
    then have "sending s2 (v - int n) (drop a out) (drop u E)" using 2(2) keep(3) D(3) n(3) sm by (simp add: sending_def)
    then show ?thesis using True run keep now_finish [of s2] unfolding mv a_def [symmetric] by (auto simp: seq_def ret_def)
  next
    case False
    have "64 - v + int n < 2147483648" using v n(1) by auto
    from ksem_released [OF D(3) nd this] obtain k' where k: "signaln (tyosem (tty s)) (int n) (kern s) = Some (OK, k')"
      "ksem k' (tyosem (tty s)) (64 - v + int n)" "mem k' = mem (kern s)" by blast
    define s3 where "s3 = s2\<lparr>kern := k'\<rparr>"
    have "ksem k' (tyosem (tty s)) (64 - (v - int n))" using k(2) by (simp add: algebra_simps)
    then have "sending s3 (v - int n) (drop a out) (drop u E)" using 2(2) keep(3) n(3) sm by (simp add: sending_def echoes_def s3_def)
    moreover have "okeep s s3" "thr (csr s3) = thr (csr s) @ take u (E @ out)" using keep k(3) sm by (simp_all add: okeep_def s3_def)
    moreover have "\<exists>i. now (ttyhandle_out s) = Some (s3\<lparr>csr := (csr s3)\<lparr>ier := i\<rparr>\<rparr>)"
      using run False k(1) sm now_finish [of s3]
      by (auto simp: seq_def sys_def s3_def [symmetric] intro: exI [of _ "ier (csr s3)"])
    ultimately show ?thesis unfolding mv a_def [symmetric] by auto
  qed
qed

end
