(* ===== verification/TtyProps.thy ===== *)
theory TtyProps
  imports TtyOut Demo
begin

text \<open>
  The properties of the terminal driver: what a process reads is the line that was typed as it was
  edited; output leaves in order, echo first; and the places where the code does not do this.
\<close>

section \<open>A reader that waits\<close>

lemma ksem_block:
  assumes k: "ksem k sem c" and c: "c \<le> 0" and nd: "ndefers k \<le> 0" and np: "currpid k \<noteq> 0"
  shows "\<exists>k'. wait sem k = Some (OK, k') \<and> ksem k' sem (c - 1) \<and> currpid k' \<noteq> currpid k \<and> mem k' = mem k
    \<and> ndefers k' = ndefers k \<and> cmdhistory k' = cmdhistory k \<and> (\<forall>i. i \<noteq> sem \<longrightarrow> semtab k' i = semtab k i)"
proof -
  obtain Q where Q: "kinv k Q" "semrel k Q" and i: "0 \<le> sem" "sem < 100" "sstate (semtab k sem) = S_USED" "scount (semtab k sem) = c"
    using k by (auto simp: ksem_def)
  define e where "e = (semtab k sem)\<lparr>scount := c - 1\<rparr>"
  define t where "t = k\<lparr>semtab := (semtab k)(sem := e),
      proctab := (proctab k)(currpid k := (proctab k (currpid k))\<lparr>prstate := PR_WAIT, prsem := sem\<rparr>)\<rparr>"
  let ?sq = "squeue (semtab k sem)"
  obtain k' Q' where R: "wait sem k = Some (OK, k')" "settled t (Q(?sq := Q ?sq @ [currpid k])) k' Q'"
    "Q (readylist k) = currpid k' # Q' (readylist k)"
    using sem_wait_block [OF Q nd np i(1-3)] i(4) c unfolding t_def e_def by blast
  note F = sframeD [OF settledD(2) [OF R(2)]] and P = kpreD [OF kinv_kpre [OF Q(1)]]
  have len: "int (length (Q ?sq @ [currpid k])) = max 0 (- (c - 1))"
    using Q(2) i c unfolding semrel_def by fastforce
  have t: "semtab t = (semtab k)(sem := e)" "squeue e = ?sq" "scount e = c - 1" by (simp_all add: t_def e_def)
  have "semrel t (Q(?sq := Q ?sq @ [currpid k]))"
    by (rule semrel_upd [OF P(1) Q(2) i(1,2) len t(2,3,1)])
  then have "semrel k' Q'" by (rule semrel_settled [OF R(2)])
  then have "ksem k' sem (c - 1)" using settledD(1) [OF R(2)] F i by (auto simp: ksem_def t_def e_def)
  moreover have "currpid k' \<noteq> currpid k"
    using R(3) qrel_member [OF P(3) layout_ready [OF P(1)], of "currpid k'"] Q(1)
    by (auto simp: kinv_def pqueue_def pq_def)
  ultimately show ?thesis using R(1) F by (simp add: t_def)
qed

lemma ttygetc_blocks:
  assumes e: "editing s w B L E" and b: "int (length B) \<le> w" and nd: "ndefers (kern s) \<le> 0" and np: "currpid (kern s) \<noteq> 0"
  shows "\<exists>k'. ttygetc s = Switched (s\<lparr>kern := k'\<rparr>) in_char \<and> editing (s\<lparr>kern := k'\<rparr>) (w + 1) B L E
    \<and> mem k' = mem (kern s) \<and> ndefers k' = ndefers (kern s)"
proof -
  note D = editingD [OF e]
  have "int (length B) - w \<le> 0" using b by simp
  from ksem_block [OF D(4) this nd np] obtain k' where k: "wait (tyisem (tty s)) (kern s) = Some (OK, k')"
    "ksem k' (tyisem (tty s)) (int (length B) - w - 1)" "currpid k' \<noteq> currpid (kern s)" "mem k' = mem (kern s)"
    "ndefers k' = ndefers (kern s)" by blast
  have "ttygetc s = Switched (s\<lparr>kern := k'\<rparr>) in_char"
    using k(1,3) by (simp add: ttygetc_def seq_def sys_def ret_def)
  moreover have "ksem k' (tyisem (tty s)) (int (length B) - (w + 1))" using k(2) by (simp add: algebra_simps)
  ultimately show ?thesis using D k(4,5) by (auto simp: editing_def echoes_def)
qed

lemma ttyread_blocks:
  assumes e: "editing s w B L E" and b: "int (length B) \<le> w" and nd: "ndefers (kern s) \<le> 0" and np: "currpid (kern s) \<noteq> 0"
    and m: "tyimode (tty s) = TY_IMCOOKED" "0 \<le> count" "tmpcmd s \<noteq> 0 \<or> cmdhistory (kern s) = 0"
  shows "\<exists>k'. ttyread rounds buff count s = Switched (s\<lparr>kern := k'\<rparr>) (\<lambda>u. continue_with (in_char u) (read_rest rounds buff count))
    \<and> editing (s\<lparr>kern := k'\<rparr>) (w + 1) B L E \<and> mem k' = mem (kern s) \<and> ndefers k' = ndefers (kern s)"
  using ttygetc_blocks [OF e b nd np] unfolding ttyread_cooked [OF m] by (auto simp: bnd_def)

text \<open>When it runs again it takes the line.\<close>

lemma reader_resumes:
  assumes e: "editing u (w + 1) B L E" and w: "0 \<le> w" and m: "tyimode (tty u) = TY_IMCOOKED" "\<not> chesc u" and n: "n < rounds"
    and sv: "served u w (Suc n) B"
  shows "\<exists>u'. continue_with (in_char u) (read_rest rounds buff (int (Suc n))) = Done (int (length (read_line (Suc n) B))) u'
    \<and> editing u' w (drop (length (read_line (Suc n) B)) B) L E \<and> mem (kern u') = poke (mem (kern u)) buff (read_line (Suc n) B)"
proof -
  obtain c B' where B: "B = c # B'" "c \<noteq> TY_ESC" "c \<noteq> tyeofch (tty u)" using served_nonempty [OF sv] by blast
  have e1: "editing u (w + 1) (c # B') L E" "0 < w + 1" using e B w by simp_all
  obtain u1 where 1: "in_char u = Done (uint c) u1" "editing u1 w B' L E" "rkeep u u1" "kern u1 = kern u" "chesc u1 = chesc u"
    using in_char_ok [OF e1] B(3) by (auto simp: getc_value_def)
  have st: "settings (tty u1) = settings (tty u)" using 1(3) by (simp add: rkeep_def)
  have md: "tyimode (tty u1) = TY_IMCOOKED" "\<not> chesc u1" using settingsD(3) [OF st] m 1(5) by simp_all
  have sv1: "at_eol c \<or> served u1 w n B'" using served_Cons [OF sv [unfolded B(1)]] settingsD(12) [OF st] by (auto simp: served_def)
  define l where "l = (if at_eol c then [] else read_line n B')"
  have rl: "read_line (Suc n) B = c # l" by (simp add: B(1) l_def at_eol_def)
  from read_rest_ok [OF 1(2) md B(2) sv1 n, of buff, folded l_def] obtain u' where
    "read_rest rounds buff (1 + int n) (uint c) u1 = Done (1 + int (length l)) u'"
    "editing u' w (drop (length l) B') L E" "mem (kern u') = poke (mem (kern u1)) buff (c # l)" by blast
  then show ?thesis using 1(1,4) unfolding rl by (simp add: B(1) add.commute)
qed

text \<open>C8: A process reads a line that is not there yet and is switched out.  The characters of one
  interrupt are typed, with erased and killed ones among them; when the process runs again, whatever
  the kernel did in between, it gets exactly the line the editor made of them.\<close>

theorem typed_line_read:
  assumes s: "editing s 0 [] [] E" "tyimode (tty s) = TY_IMCOOKED" "currpid (kern s) \<noteq> NULLPROC" "ndefers (kern s) = 0"
      "\<not> chesc s" "tmpcmd s \<noteq> 0 \<or> cmdhistory (kern s) = 0"
    and cs: "TY_CTRLC \<notin> set cs" "TY_BELL \<notin> set cs" "roomy s 0 cs"
    and i: "and iir 1 = 0" "and iir 0x0E = 0x04 \<or> and iir 0x0E = 0x0C"
    and t: "typing (tty s) 1 cs (([], []), E) = ((B, L), E')" and n: "0 < n" "n \<le> rounds" and sv: "served s 0 n B"
  shows "\<exists>s1 rest s2. ttyread rounds buff (int n) s = Switched s1 rest
    \<and> finishes (ttyhandler iir lsr (pop cs s1)) s2
    \<and> (\<forall>k. ksem k (tyisem (tty s)) (int (length B) - 1) \<longrightarrow>
        (\<exists>s3. rest (s2\<lparr>kern := k\<rparr>) = Done (int (length (read_line n B))) s3
          \<and> mem (kern s3) = poke (mem k) buff (read_line n B)
          \<and> editing s3 0 (drop (length (read_line n B)) B) L E'))"
proof -
  have le: "int (length ([] :: 8 word list)) \<le> 0" "0 \<le> int n" "ndefers (kern s) \<le> 0" using s(4) by simp_all
  obtain k1 where 1: "ttyread rounds buff (int n) s = Switched (s\<lparr>kern := k1\<rparr>) (\<lambda>u. continue_with (in_char u) (read_rest rounds buff (int n)))"
    "editing (s\<lparr>kern := k1\<rparr>) (0 + 1) [] [] E" "ndefers k1 = 0"
    using ttyread_blocks [OF s(1) le(1,3) s(3,2) le(2) s(6), of rounds buff] s(4) by auto
  define s1 where "s1 = pop cs (s\<lparr>kern := k1\<rparr>)"
  have e1: "editing s1 1 [] [] E" "0 \<le> ndefers (kern s1)" "tyimode (tty s1) = TY_IMCOOKED"
    "TY_CTRLC \<notin> set (rbr (csr s1))" "TY_BELL \<notin> set (rbr (csr s1))" "roomy s1 (length ([] @ [])) (rbr (csr s1))"
    using 1(2,3) s(2) cs by (simp_all add: s1_def roomy_def)
  obtain s2 where 2: "finishes (ttyhandler iir lsr s1) s2" "editing s2 1 B L E'" "hkeep s1 s2"
    using handler_rx_ok [OF e1 i, of lsr] t by (auto simp: s1_def)
  have st: "settings (tty s2) = settings (tty s)" "chesc s2 = chesc s" "tyisem (tty s2) = tyisem (tty s)"
    using 2(3) iclearD(1) [of "tty s2" "tty s1"] settingsD(1) [OF iclearD(1), of "tty s2" "tty s1"] by (simp_all add: hkeep_def s1_def) (simp_all add: pop_def)
  obtain m where m: "n = Suc m" using n by (cases n) auto
  have "\<exists>s3. continue_with (in_char (s2\<lparr>kern := k\<rparr>)) (read_rest rounds buff (int n)) = Done (int (length (read_line n B))) s3
      \<and> editing s3 0 (drop (length (read_line n B)) B) L E' \<and> mem (kern s3) = poke (mem k) buff (read_line n B)"
    if k: "ksem k (tyisem (tty s)) (int (length B) - 1)" for k
  proof -
    have "editing (s2\<lparr>kern := k\<rparr>) (0 + 1) B L E'" using 2(2) k st(3) by (simp add: editing_def echoes_def)
    moreover have "tyimode (tty (s2\<lparr>kern := k\<rparr>)) = TY_IMCOOKED" "\<not> chesc (s2\<lparr>kern := k\<rparr>)" "served (s2\<lparr>kern := k\<rparr>) 0 (Suc m) B" "m < rounds"
      using settingsD(3,12) [OF st(1)] s(2,5) st(2) sv n m by (simp_all add: served_def)
    ultimately show ?thesis using reader_resumes [of "s2\<lparr>kern := k\<rparr>" 0 B L E' m rounds buff] m by simp
  qed
  then show ?thesis using 1(1) 2(1) unfolding s1_def
    by - (rule exI [of _ "s\<lparr>kern := k1\<rparr>"], rule exI [of _ "\<lambda>u. continue_with (in_char u) (read_rest rounds buff (int n))"],
        rule exI [of _ s2], blast)
qed

text \<open>C9: The receive interrupt is the line editor: the characters in the uart do to what can be read, to the
  line and to the echo queue what \<open>edit\<close> and \<open>edit_echo\<close> say, one after the other, also with
  readers waiting; the rest of the driver is left alone.\<close>

theorem input_edits:
  assumes "editing s w B L E" "0 \<le> ndefers (kern s)" "tyimode (tty s) = TY_IMCOOKED"
    and "TY_CTRLC \<notin> set (rbr (csr s))" "TY_BELL \<notin> set (rbr (csr s))" "roomy s (length (B @ L)) (rbr (csr s))"
    and "and iir 1 = 0" "and iir 0x0E = 0x04 \<or> and iir 0x0E = 0x0C"
  shows "\<exists>s' B' L' E'. finishes (ttyhandler iir lsr s) s' \<and> typing (tty s) w (rbr (csr s)) ((B, L), E) = ((B', L'), E')
    \<and> editing s' w B' L' E' \<and> hkeep s s' \<and> rbr (csr s') = []"
  by (rule handler_rx_ok [OF assms])

text \<open>C10: The transmit interrupt sends the echo and then the output, in order and as far as the uart has room;
  the semaphore counts the places that became free.  Writers may be waiting, as long as none of them
  was released and has not run yet.\<close>

theorem output_in_order:
  assumes "sending s v out E" "\<not> tyoheld (tty s)" "0 \<le> ndefers (kern s)"
    and "v = int (length out) \<or> length out = 64 \<and> 64 \<le> v" "0 \<le> txfifo_lvl (csr s)"
  defines "u \<equiv> nat (64 - txfifo_lvl (csr s))"
  shows "\<exists>s'. now (ttyhandle_out s) = Some s' \<and> thr (csr s') = thr (csr s) @ take u (E @ out)
    \<and> sending s' (v - min (int (u - length E)) v) (drop (u - length E) out) (drop u E) \<and> okeep s s'"
  unfolding u_def by (rule handle_out_ok [OF assms(1-5)])

section \<open>Where the driver fails\<close>

text \<open>C12: A writer that was released and did not run yet is counted as a character: with nothing else to send
  the interrupt sends what is left over in the buffer, and the head overtakes the tail.\<close>

theorem stale_char_sent:
  assumes s: "sending s 1 [] []" and nh: "\<not> tyoheld (tty s)" and nd: "0 \<le> ndefers (kern s)"
    and l: "0 \<le> txfifo_lvl (csr s)" "txfifo_lvl (csr s) < 64"
  shows "\<exists>s'. now (ttyhandle_out s) = Some s' \<and> thr (csr s') = thr (csr s) @ [tyobuff (tty s) (tyohead (tty s))]
    \<and> tyohead (tty s') = (tyotail (tty s') + 1) mod TY_OBUFLEN"
proof -
  note D = sendingD [OF s]
  define u where "u = nat (64 - txfifo_lvl (csr s)) - 1"
  have u: "nat (64 - txfifo_lvl (csr s)) = Suc u" using l by (simp add: u_def)
  have ht: "tyohead (tty s) = tyotail (tty s)" using D(1,7,8) by (simp add: holds_def)
  have eht: "tyehead (tty s) = tyetail (tty s)" using D(2) holds_empty_iff unfolding echoes_def by blast
  define s2 where "s2 = s\<lparr>tty := (tty s)\<lparr>tyohead := (tyohead (tty s) + 1) mod 64\<rparr>, csr := (csr s)\<lparr>thr := thr (csr s) @ [tyobuff (tty s) (tyohead (tty s))]\<rparr>\<rparr>"
  have "\<not> all_sent s" using all_sent_iff [OF s] by simp
  moreover have "echo_loop (Suc u) s = Some (Suc u, s)" using eht by (simp add: Let_def)
  moreover have "send_loop (Suc u) 1 0 s = Some (1, s2)"
    using D(7,8) next_mod [of "tyohead (tty s)" 64] by (cases u) (auto simp: bget_def Let_def s2_def)
  moreover have "tyosem (tty s2) = tyosem (tty s)" by (simp add: s2_def)
  ultimately have run: "ttyhandle_out s = seq (sys (signaln (tyosem (tty s)) 1)) (\<lambda>s. if all_sent s then tx_off s else Done () s) s2"
    using nh u D(4) by (simp add: ttyhandle_out_def del: echo_loop.simps send_loop.simps)
  have "64 - 1 + int 1 < (2147483648 :: int)" by simp
  from ksem_released [OF D(3) nd this] obtain k' where k: "signaln (tyosem (tty s)) 1 (kern s) = Some (OK, k')" by auto
  have "\<exists>i. now (ttyhandle_out s) = Some (s2\<lparr>kern := k', csr := (csr s2)\<lparr>ier := i\<rparr>\<rparr>)"
    using run k now_finish [of "s2\<lparr>kern := k'\<rparr>"] by (auto simp: seq_def sys_def s2_def intro: exI [of _ "ier (csr s)"])
  then show ?thesis using ht by (auto simp: s2_def)
qed

lemma put_in_out: "tyitail (tty s) < 0 \<or> 128 \<le> tyitail (tty s) \<Longrightarrow> put_in c s = Undef"
  by (auto simp: put_in_def bput_def Let_def)

text \<open>C14: Raw mode wraps the wrong pointer: the second of two characters that arrive at the end of the array is
  written outside the input buffer.\<close>

theorem raw_overruns:
  assumes m: "tyimode (tty s) = TY_IMRAW" "tyitail (tty s) = TY_IBUFLEN - 1" and k: "ksem (kern s) (tyisem (tty s)) n" "n < TY_IBUFLEN - 1"
    and nd: "0 < ndefers (kern s)" and c: "rbr (csr s) = c # d # cs" "c \<noteq> TY_CTRLC" "c \<noteq> TY_BELL" "d \<noteq> TY_CTRLC" "d \<noteq> TY_BELL"
  shows "rx_loop 2 s = Undef"
proof -
  obtain k' where k': "signal (tyisem (tty s)) (kern s) = Some (OK, k')" "ksem k' (tyisem (tty s)) (n + 1)" "kstill (kern s) k'"
    using ksem_signal [OF k(1) nd] k(2) by auto
  define t where "t = (tty s)\<lparr>tyibuff := (tyibuff (tty s))(127 := c), tyitail := 128\<rparr>"
  define s1 where "s1 = s\<lparr>csr := (csr s)\<lparr>rbr := d # cs\<rparr>, tty := (if tyotail t \<ge> 64 then t\<lparr>tyotail := 0\<rparr> else t), kern := k'\<rparr>"
  have run: "ttyhandle_in s = Done () s1"
    using m c(1-3) k(2) ksem_count [OF k(1)] k'(1,3)
    by (simp add: ttyhandle_in_def handle_char_def raw_in_def avail_in_def seq_def put_in_def bput_def upd_tty_def sys_def skip_def
        Let_def s1_def t_def kstill_def stays_def)
  have s1: "tyimode (tty s1) = TY_IMRAW" "tyitail (tty s1) = 128" "tyisem (tty s1) = tyisem (tty s)" "kern s1 = k'" "rbr (csr s1) = d # cs"
    using m by (simp_all add: s1_def t_def)
  have "put_in d (s1\<lparr>csr := (csr s1)\<lparr>rbr := cs\<rparr>\<rparr>) = Undef" by (rule put_in_out) (use s1 in simp)
  then have "ttyhandle_in s1 = Undef"
    using s1 c(4,5) k(2) ksem_count [OF k'(2)] by (simp add: ttyhandle_in_def handle_char_def raw_in_def avail_in_def seq_def max_def)
  then show ?thesis using run by (simp add: numeral_2_eq_2 seq_def)
qed

text \<open>C13: A killed line that goes around the end of the array moves the head instead of the tail: both pointers
  leave the buffer, and the next character typed and the next one read are outside it.\<close>

theorem kill_across_end:
  assumes e: "editing s w B L E" and m: "tyimode (tty s) = TY_IMCOOKED" "typed (tty s) c = tyikillc (tty s)" "tyikill (tty s)"
    "\<not> flow_char (tty s) (typed (tty s) c)" and L: "tyitail (tty s) < int (length L)"
  shows "\<exists>s'. handle_char c s = Done () s' \<and> tyitail (tty s') < 0 \<and> TY_IBUFLEN \<le> tyihead (tty s')
    \<and> put_wrap d s' = Undef \<and> in_char s' = Undef"
proof -
  note D = editingD [OF e]
  define s1 where "s1 = s\<lparr>tty := (tty s)\<lparr>tyoheld := False, tyitail := tyitail (tty s) - tyicursor (tty s),
      tyihead := tyihead (tty s) + 128, tyicursor := 0\<rparr>\<rparr>"
  define s' where "s' = fold eput [TY_RETURN, TY_NEWLINE] s1"
  have "handle_char c s = cooked_in (typed (tty s) c) (s\<lparr>tty := (tty s)\<lparr>tyoheld := False\<rparr>\<rparr>)"
    using m(1,4) by (auto simp: handle_char_def flow_char_def typed_def Let_def seq_def upd_tty_def)
  also have "\<dots> = kill_line (s\<lparr>tty := (tty s)\<lparr>tyoheld := False\<rparr>\<rparr>)" using m(2,3) by (simp add: cooked_in_def)
  also have "\<dots> = Done () s'"
    using D L eput_tail eputc_eq by (simp add: kill_line_def seq_def upd_tty_def Let_def s'_def s1_def)
  finally have run: "handle_char c s = Done () s'" .
  have p: "tyitail (tty s') < 0" "128 \<le> tyihead (tty s')"
    using D(2) L holds_range [OF D(1)] by (simp_all add: s'_def s1_def)
  then show ?thesis using run put_in_out [of s' d] by (auto simp: put_wrap_def seq_def in_char_def bget_def Let_def)
qed

text \<open>In cbreak mode a character is stored and echoed but the semaphore is not signalled: no process
  that waits for it ever runs.\<close>

lemma cbreak_never_wakes:
  assumes m: "tyimode (tty s) = TY_IMCBREAK" and h: "holds TY_IBUFLEN (tyibuff (tty s)) (tyihead (tty s)) (tyitail (tty s)) X" "length X < 128"
    and e: "echoes s E" and nf: "\<not> flow_char (tty s) (typed (tty s) c)" and a: "semcount (tyisem (tty s)) (kern s) < TY_IBUFLEN"
  shows "\<exists>s'. handle_char c s = Done () s' \<and> kern s' = kern s
    \<and> holds TY_IBUFLEN (tyibuff (tty s')) (tyihead (tty s')) (tyitail (tty s')) (X @ [typed (tty s) c])"
proof -
  define c' where "c' = typed (tty s) c"
  define s1 where "s1 = s\<lparr>tty := (tty s)\<lparr>tyoheld := False\<rparr>\<rparr>"
  have h1: "holds 128 (tyibuff (tty s1)) (tyihead (tty s1)) (tyitail (tty s1)) X" "int (length X) < 128" using h by (simp_all add: s1_def)
  obtain b where b: "put_wrap c' s1 = Done () (s1\<lparr>tty := (tty s1)\<lparr>tyibuff := b, tyitail := (tyitail (tty s1) + 1) mod 128\<rparr>\<rparr>)"
    "holds 128 b (tyihead (tty s1)) ((tyitail (tty s1) + 1) mod 128) (X @ [c'])" using put_wrap_ok [OF h1] by blast
  define s2 where "s2 = s1\<lparr>tty := (tty s1)\<lparr>tyibuff := b, tyitail := (tyitail (tty s1) + 1) mod 128\<rparr>\<rparr>"
  have r: "0 \<le> tyetail (tty s2)" "tyetail (tty s2) < 20" using echoes_tail [OF e] by (simp_all add: s2_def s1_def)
  define s3 where "s3 = fold eput (if tyiecho (tty s2) then echo_text (tty s2) c' else []) s2"
  have e3: "echo_in c' s2 = Done () s3" using echoch_eq [OF r] by (simp add: echo_in_def skip_def s3_def)
  have "handle_char c s = cbreak_in (avail_in s) c' s1"
    using m nf by (auto simp: handle_char_def flow_char_def c'_def typed_def Let_def seq_def upd_tty_def s1_def)
  also have "\<dots> = Done () s3"
  proof -
    have "\<not> avail_in s \<ge> 128" using a by (simp add: avail_in_def max_def)
    then show ?thesis using b(1) e3 by (simp add: cbreak_in_def seq_def s2_def)
  qed
  finally have run: "handle_char c s = Done () s3" .
  have f: "kern (fold eput cs u) = kern u \<and> tyibuff (tty (fold eput cs u)) = tyibuff (tty u) \<and> tyihead (tty (fold eput cs u)) = tyihead (tty u)" for cs u
    by (induction cs arbitrary: u) simp_all
  have "kern s3 = kern s" "holds 128 (tyibuff (tty s3)) (tyihead (tty s3)) (tyitail (tty s3)) (X @ [c'])"
    using f [of "if tyiecho (tty s2) then echo_text (tty s2) c' else []" s2] b(2) by (simp_all add: s3_def s2_def s1_def)
  then show ?thesis using run by (simp add: c'_def)
qed

text \<open>
  The look-ahead of \<open>ttycontrol\<close> reads the slot the next character will be typed into instead of
  the one that is read next.
\<close>

lemma nextc_wrong:
  assumes e: "editing s w (c # B) L E" and n: "w < int (length (c # B))"
  shows "\<exists>s'. ttycontrol 3 s = Done (uint (tyibuff (tty s) (tyitail (tty s)))) s'"
proof -
  note D = editingD [OF e]
  let ?n = "int (length (c # B)) - w"
  have le: "length (c # B) \<le> 128" using D(1) by (simp add: holds_def)
  have n': "0 < ?n" "?n < 2147483648" using n le D(5) by auto
  note W = ksem_wait [OF D(4) n']
  have b: "bget 128 (tyibuff (tty s)) (tyitail (tty s)) = Some (tyibuff (tty s) (tyitail (tty s)))" using D(8,9) by (simp add: bget_def)
  define k' where "k' = (kern s)\<lparr>semtab := (semtab (kern s))(tyisem (tty s) := (semtab (kern s) (tyisem (tty s)))\<lparr>scount := ?n - 1\<rparr>)\<rparr>"
  have i: "0 \<le> tyisem (tty s)" "tyisem (tty s) < 100" "sstate (semtab k' (tyisem (tty s))) = S_USED" "scount (semtab k' (tyisem (tty s))) = ?n - 1"
    using D(4) by (simp_all add: ksem_def k'_def)
  then have "\<exists>k''. signal (tyisem (tty s)) k' = Some (OK, k'') \<and> currpid k'' = currpid k'"
    using n' by (simp add: signal_def sem_up_def isbadsem_def in_s32_def)
  then obtain k'' where k: "signal (tyisem (tty s)) k' = Some (OK, k'')" "currpid k'' = currpid k'" by blast
  show ?thesis using W(1) b k
    by (simp add: ttycontrol_def seq_def bnd_def sys_def lift_def ret_def k'_def)
qed

section \<open>The start\<close>

text \<open>C11: \<open>ttyinit\<close> takes two semaphores and leaves a line with nothing typed, nothing to send and nothing to
  echo, in cooked mode, from which the properties above start.\<close>

theorem ttyinit_ready:
  assumes inv: "kinv (kern s) Q" "semrel (kern s) Q" "sems_free (kern s) Q"
    and i: "0 \<le> i" "i < NSEM" "sstate (semtab (kern s) i) = S_FREE" and j: "0 \<le> j" "j < NSEM" "sstate (semtab (kern s) j) = S_FREE" "i \<noteq> j"
    and irq: "0 \<le> irq"
  shows "\<exists>s'. ttyinit irq intr s = Done OK s' \<and> editing s' 0 [] [] [] \<and> sending s' 0 [] [] \<and> tyimode (tty s') = TY_IMCOOKED
    \<and> tyisem (tty s') \<noteq> tyosem (tty s') \<and> mem (kern s') = mem (kern s) \<and> ndefers (kern s') = ndefers (kern s)"
proof -
  obtain a k1 n1 where 1: "semcreate 0 (kern s) = Some (a, k1)" "0 \<le> a" "a < 100" "sstate (semtab (kern s) a) = S_FREE"
    "settled k1 Q k1 Q" "semrel k1 Q" "semtab k1 = (semtab (kern s))(a := (semtab (kern s) a)\<lparr>sstate := S_USED, scount := 0\<rparr>)"
    "k1 = (kern s)\<lparr>nextsem := n1, semtab := semtab k1\<rparr>" "0 \<le> n1" "n1 < 100"
    using semcreate_ok [OF inv order_refl i] by blast
  have f1: "sems_free k1 Q" using inv(3) 1(7,9,10) by (subst 1(8)) (auto simp: sems_free_def)
  define l where "l = (if a = i then j else i)"
  have l: "0 \<le> l" "l < 100" "sstate (semtab k1 l) = S_FREE" using i j 1(7) by (auto simp: l_def)
  have c: "(0 :: int) \<le> 64" by simp
  obtain b k2 n2 where 2: "semcreate 64 k1 = Some (b, k2)" "0 \<le> b" "b < 100" "sstate (semtab k1 b) = S_FREE"
    "settled k2 Q k2 Q" "semrel k2 Q" "semtab k2 = (semtab k1)(b := (semtab k1 b)\<lparr>sstate := S_USED, scount := 64\<rparr>)"
    "k2 = k1\<lparr>nextsem := n2, semtab := semtab k2\<rparr>"
    using semcreate_ok [OF settledD(1) [OF 1(5)] 1(6) f1 c l] by blast
  have ab: "a \<noteq> b" using 1(7) 2(4) by auto
  have k: "ksem k2 a 0" "ksem k2 b 64" using settledD(1) [OF 2(5)] 2(2,3,6,7) 1(2,3,7) ab by (auto simp: ksem_def)
  have c1: "currpid k1 = currpid (kern s)" "mem k1 = mem (kern s)" "ndefers k1 = ndefers (kern s)" by (subst 1(8), simp)+
  have c2: "currpid k2 = currpid k1" "mem k2 = mem k1" "ndefers k2 = ndefers k1" by (subst 2(8), simp)+
  have "\<exists>s'. ttyinit irq intr s = Done OK s' \<and> tty s' = tty_start a b (tty s) \<and> kern s' = k2"
    using 1(1) 2(1) c1(1) c2(1) irq
    by (simp add: ttyinit_def bnd_def seq_def sys_def upd_tty_def upd_csr_def set_evec_def ttykickout_def ret_def Let_def)
  then show ?thesis using k ab c1 c2
    by (auto simp: editing_def sending_def echoes_def tty_start_def holds_Nil)
qed

section \<open>Examples\<close>

text \<open>A line on the example kernel: semaphore 1 for the input with a count of \<open>c\<close>, or for the output.\<close>

definition count_demo :: "int \<Rightarrow> kernel" where
  "count_demo c = demo\<lparr>semtab := (semtab demo)(1 := (semtab demo 1)\<lparr>scount := c\<rparr>)\<rparr>"

lemma count_demo_sem: "0 \<le> c \<Longrightarrow> ksem (count_demo c) 1 c"
proof -
  assume c: "0 \<le> c"
  have "kcore (count_demo c) = kcore demo" by (simp add: kcore_def count_demo_def fun_eq_iff)
  then have "kinv (count_demo c) demo_queues" using kinv_core demo_inv by blast
  moreover have "semrel (count_demo c) demo_queues" using c by (auto simp: semrel_def demo_queues_def count_demo_def)
  ultimately show ?thesis by (auto simp: ksem_def count_demo_def)
qed

lemma count_demo_fields [simp]: "currpid (count_demo c) = 1" "ndefers (count_demo c) = 0" "cmdhistory (count_demo c) = 0"
  "mem (count_demo c) = (\<lambda>_. 0)"
  by (simp_all add: count_demo_def)

definition blank_tty :: ttycblk where
  "blank_tty = \<lparr>tyihead = 0, tyitail = 0, tyibuff = (\<lambda>_. 0), tyisem = 0, tyohead = 0, tyotail = 0, tyobuff = (\<lambda>_. 0), tyosem = 0,
     tyehead = 0, tyetail = 0, tyebuff = (\<lambda>_. 0), tyimode = TY_IMRAW, tyiecho = False, tyieback = False, tyevis = False,
     tyecrlf = False, tyicrlf = False, tyierase = False, tyierasec = 0, tyeof = False, tyeofch = 0, tyikill = False, tyikillc = 0,
     tyicursor = 0, tyoflow = False, tyoheld = False, tyostop = 0, tyostart = 0, tyocrlf = False, tyifullc = 0\<rparr>"

definition tty_demo :: "int \<Rightarrow> ttycblk \<Rightarrow> ttys" where
  "tty_demo c t = \<lparr>kern = count_demo c, tty = t,
     csr = \<lparr>rbr = [], thr = [], ier = 0, fcr = 0, lcr = 0, dll = 0, dlm = 0, mdr1 = 0, txfifo_lvl = 62\<rparr>,
     intc_vector = (\<lambda>_. 0), mir = (\<lambda>_. 0), shellpid = 0, chesc = False, arrow = False, tmpcmd = 0\<rparr>"

lemma tty_demo_fields [simp]:
  "kern (tty_demo c t) = count_demo c" "tty (tty_demo c t) = t" "rbr (csr (tty_demo c t)) = []" "thr (csr (tty_demo c t)) = []"
  "txfifo_lvl (csr (tty_demo c t)) = 62" "\<not> chesc (tty_demo c t)" "tmpcmd (tty_demo c t) = 0"
  by (simp_all add: tty_demo_def)

abbreviation (input) tty0 :: ttycblk where "tty0 \<equiv> tty_start 1 0 blank_tty"

text \<open>\<open>ab\<close>, a backspace, \<open>!\<close> and return are typed; the line is \<open>a!\<close>.\<close>

lemma typing_example:
  "typing tty0 1 [97, 98, 8, 33, 13] (([], []), []) = (([97, 33, 10], []), [97, 98, 8, 32, 8, 33, 13, 10])"
  by (simp add: edit_def edit_echo_def typed_def flow_char_def line_full_def echo_text_def erase_text_def pos_text_def nonprint_def
      echo_push_def tty_start_def)

lemma editing_demo: "0 \<le> c \<Longrightarrow> editing (tty_demo c tty0) (- c) [] [] [] = (c = 0)"
  using count_demo_sem [of c] by (auto simp: editing_def echoes_def holds_Nil tty_start_def)

theorem typed_line_read_witness:
  "\<exists>s1 rest s2 s3. ttyread 128 5000 128 (tty_demo 0 tty0) = Switched s1 rest
    \<and> finishes (ttyhandler 4 0 (pop [97, 98, 8, 33, 13] s1)) s2
    \<and> rest (s2\<lparr>kern := count_demo 2\<rparr>) = Done 3 s3 \<and> mem (kern s3) = poke (\<lambda>_. 0) 5000 [97, 33, 10]"
proof -
  have e: "editing (tty_demo 0 tty0) 0 [] [] []" using editing_demo [of 0] by simp
  have "read_line (Suc (Suc (Suc 125))) [97, 33, 10] = [97, 33, 10]" by (simp del: Suc_numeral)
  then have l: "read_line 128 [97, 33, 10] = [97, 33, 10]" by simp
  have sv: "served (tty_demo 0 tty0) 0 128 [97, 33, 10]" unfolding served_def l by (simp add: complete_def tty_start_def)
  have r: "roomy (tty_demo 0 tty0) 0 [97, 98, 8, 33, 13]" by (simp add: roomy_def tty_start_def)
  have "\<exists>s1 rest s2. ttyread 128 5000 (int 128) (tty_demo 0 tty0) = Switched s1 rest
    \<and> finishes (ttyhandler 4 0 (pop [97, 98, 8, 33, 13] s1)) s2
    \<and> (\<forall>k. ksem k (tyisem (tty (tty_demo 0 tty0))) (int (length [97, 33, 10 :: 8 word]) - 1) \<longrightarrow>
        (\<exists>s3. rest (s2\<lparr>kern := k\<rparr>) = Done (int (length (read_line 128 [97, 33, 10]))) s3
          \<and> mem (kern s3) = poke (mem k) 5000 (read_line 128 [97, 33, 10])
          \<and> editing s3 0 (drop (length (read_line 128 [97, 33, 10])) [97, 33, 10]) [] [97, 98, 8, 32, 8, 33, 13, 10]))"
    by (rule typed_line_read [OF e]) (use typing_example sv r in \<open>simp_all add: tty_start_def\<close>)
  moreover have "ksem (count_demo 2) (tyisem (tty (tty_demo 0 tty0))) (int (length [97, 33, 10 :: 8 word]) - 1)"
    using count_demo_sem [of 2] by (simp add: tty_start_def)
  ultimately obtain s1 rest s2 s3 where "ttyread 128 5000 (int 128) (tty_demo 0 tty0) = Switched s1 rest"
    "finishes (ttyhandler 4 0 (pop [97, 98, 8, 33, 13] s1)) s2"
    "rest (s2\<lparr>kern := count_demo 2\<rparr>) = Done (int (length (read_line 128 [97, 33, 10]))) s3"
    "mem (kern s3) = poke (mem (count_demo 2)) 5000 (read_line 128 [97, 33, 10])" by blast
  then show ?thesis unfolding l
    by - (rule exI [of _ s1], rule exI [of _ rest], rule exI [of _ s2], rule exI [of _ s3], simp)
qed

theorem input_edits_witness:
  "\<exists>s'. finishes (ttyhandler 4 0 (pop [97, 98, 8, 33, 13] (tty_demo 0 tty0))) s'
    \<and> editing s' 0 [97, 33, 10] [] [97, 98, 8, 32, 8, 33, 13, 10]"
proof -
  have e: "editing (pop [97, 98, 8, 33, 13] (tty_demo 0 tty0)) 0 [] [] []" using editing_demo [of 0] by simp
  have t: "typing tty0 0 [97, 98, 8, 33, 13] (([], []), []) = (([97, 33, 10], []), [97, 98, 8, 32, 8, 33, 13, 10])"
    by (simp add: edit_def edit_echo_def typed_def flow_char_def line_full_def echo_text_def erase_text_def pos_text_def nonprint_def
        echo_push_def tty_start_def)
  have r: "roomy (pop [97, 98, 8, 33, 13] (tty_demo 0 tty0)) (length ([] @ [])) (rbr (csr (pop [97, 98, 8, 33, 13] (tty_demo 0 tty0))))"
    by (simp add: roomy_def tty_start_def)
  show ?thesis using input_edits [OF e _ _ _ _ r, of 4 0] t by (auto simp: tty_start_def)
qed

abbreviation (input) tty_out :: ttycblk where
  "tty_out \<equiv> (tty_start 0 1 blank_tty)\<lparr>tyobuff := (\<lambda>_. 0)(0 := 104, 1 := 105), tyotail := 2, tyebuff := (\<lambda>_. 0)(0 := 33), tyetail := 1\<rparr>"

lemma sending_demo: "sending (tty_demo 62 tty_out) 2 [104, 105] [33]"
proof -
  have "holds 64 ((\<lambda>_. 0)(0 := 104, 1 := 105)) 0 2 [104, 105]" by (auto simp: holds_def less_Suc_eq)
  moreover have "holds 20 ((\<lambda>_. 0)(0 := 33)) 0 1 [33]" by (auto simp: holds_def)
  ultimately show ?thesis using count_demo_sem [of 62] by (simp add: sending_def echoes_def tty_start_def)
qed

theorem output_in_order_witness:
  "\<exists>s'. now (ttyhandle_out (tty_demo 62 tty_out)) = Some s' \<and> thr (csr s') = [33, 104] \<and> sending s' 1 [105] []"
  using output_in_order [OF sending_demo] by (auto simp: tty_start_def numeral_2_eq_2)

theorem stale_char_sent_witness:
  "\<exists>s'. now (ttyhandle_out (tty_demo 63 ((tty_start 0 1 blank_tty)\<lparr>tyobuff := (\<lambda>_. 120)\<rparr>))) = Some s' \<and> thr (csr s') = [120]"
proof -
  let ?s = "tty_demo 63 ((tty_start 0 1 blank_tty)\<lparr>tyobuff := (\<lambda>_. 120)\<rparr>)"
  have "sending ?s 1 [] []" using count_demo_sem [of 63] by (simp add: sending_def echoes_def tty_start_def holds_Nil)
  then show ?thesis using stale_char_sent [of ?s] by (auto simp: tty_start_def)
qed

theorem raw_overruns_witness:
  "rx_loop 2 (pop [97, 98] ((tty_demo 5 (blank_tty\<lparr>tyisem := 1, tyitail := 127\<rparr>))\<lparr>kern := deferring (count_demo 5)\<rparr>)) = Undef"
  by (rule raw_overruns [where n = 5 and c = 97 and d = 98 and cs = "[]"])
    (use ksem_defer [OF count_demo_sem, of 5] in \<open>simp_all add: blank_tty_def deferring_def\<close>)

abbreviation (input) tty_wrap :: ttycblk where
  "tty_wrap \<equiv> (tty_start 1 0 blank_tty)\<lparr>tyibuff := (\<lambda>_. 0)(126 := 97, 127 := 98, 0 := 99), tyihead := 126, tyitail := 1, tyicursor := 3\<rparr>"

theorem kill_across_end_witness:
  "\<exists>s'. handle_char 0x15 (tty_demo 0 tty_wrap) = Done () s' \<and> tyitail (tty s') < 0 \<and> put_wrap 97 s' = Undef"
proof -
  have "holds 128 ((\<lambda>_. 0)(126 := 97, 127 := 98, 0 := 99)) 126 1 [97, 98, 99]" by (auto simp: holds_def less_Suc_eq)
  then have "editing (tty_demo 0 tty_wrap) 0 [] [97, 98, 99] []"
    using count_demo_sem [of 0] by (simp add: editing_def echoes_def tty_start_def holds_Nil)
  from kill_across_end [OF this, of "0x15" 97] show ?thesis
    by (auto simp: tty_start_def typed_def flow_char_def)
qed

theorem ttyinit_ready_witness:
  "\<exists>s'. ttyinit 72 7 (tty_demo 0 blank_tty) = Done OK s' \<and> editing s' 0 [] [] [] \<and> sending s' 0 [] []"
proof -
  have "kcore (count_demo 0) = kcore demo" by (simp add: kcore_def count_demo_def fun_eq_iff)
  then have k: "kinv (count_demo 0) demo_queues" using kinv_core demo_inv by blast
  have r: "semrel (count_demo 0) demo_queues" "sems_free (count_demo 0) demo_queues"
    by (auto simp: semrel_def sems_free_def demo_queues_def count_demo_def)
  show ?thesis using ttyinit_ready [of "tty_demo 0 blank_tty" demo_queues 2 3 72 7] k r by (auto simp: count_demo_def)
qed

end
