(* ===== verification/Spec2Isabelle.thy ===== *)
theory Spec2Isabelle
  imports KProps Demo Env Ports Bufpool Clock LibNum Qsort Lexan Nam LfsProps TtyProps
begin

text \<open>
  Embedded Xinu for the BeagleBone Black (\<open>src/xinu/bbb-xinu/\<close>; paths below are relative to it):
  a model of the operating system in HOL and the theorems about it.

  \<^bold>\<open>The program.\<close>  Xinu is a kernel for one processor.  All its state is global: the process table,
  one table of doubly linked queues that holds the ready list, the sleepers and the lines of all
  semaphores, the tables of semaphores, reader-writer blockers, buffer pools and ports, and a heap kept as
  a list of free blocks.  A system call runs with interrupts off, changes the tables, and may call
  \<open>resched\<close>, which picks the process that runs next.  Above it lie the devices, reached through a switch
  table (\<open>open\<close>, \<open>read\<close>, ...), the name space, the file system on a RAM disk, the shell and a small
  library.

  \<^bold>\<open>How it is modelled.\<close>  A C function is a HOL function on explicit state; its name is the one of the
  source, with a suffix where HOL has the name already (\<open>insert_q\<close>, \<open>open_dev\<close>).  Structures are records,
  tables are functions from the index, memory is a function from addresses to bytes.  Integers are
  \<open>int\<close> with \<open>u32\<close>, \<open>s32\<close> or \<open>uint16\<close> where the C type can wrap, and \<open>8 word\<close> for bytes.  A result of type
  \<open>option\<close> is \<open>None\<close> where the C code would leave an array, panic, or not come back; every property that
  says what a call does says first that there is a result.  \<open>SYSERR\<close>, \<open>OK\<close> and \<open>TIMEOUT\<close> are values.  The
  disabling of interrupts has no effect in a model whose steps are whole calls and is left out.  A call that
  blocks (\<open>receive\<close>, \<open>recvtime\<close>, \<open>getbuf\<close>, \<open>ptsend\<close>, ...) is split: the first part ends with another
  process current, and what runs when the caller is current again is a function \<open>..._rest\<close>, kept in the
  field \<open>kcont\<close> of the state until then.  So is the end of the clock handler, when \<open>wakeup\<close> gives the
  processor to a process it made ready.

  \<^bold>\<open>The theories.\<close>

  \<^item> \<open>XPrelude\<close>, \<open>LibStr\<close>, \<open>Mem32\<close>, \<open>MemChain\<close>: return codes, machine integers, the collections of rules;
    the string routines of \<open>lib/\<close> with \<open>cstr\<close> (the string at an address) and \<open>poke\<close> (a write);
    words and linked lists in byte memory.
  \<^item> \<open>LibNum\<close>, \<open>Qsort\<close>: \<open>abs\<close>, \<open>atoi\<close>, \<open>dot2ip\<close> of \<open>lib/\<close> and \<open>net/\<close>; \<open>lib/qsort.c\<close> with its
    two recursive routines on memory, in the locale \<open>sort_mem\<close> of an order on elements in memory.
  \<^item> \<open>KernelState\<close>, \<open>Queues\<close>: the record of the kernel, and the queue table (\<open>system/queue.c\<close>, \<open>insert.c\<close>,
    \<open>insertd.c\<close>, \<open>getitem.c\<close>, \<open>newqueue.c\<close>); a queue is shown to be a list.
  \<^item> \<open>Sched\<close>, \<open>SchedInv\<close>, \<open>SchedOps\<close>: \<open>resched\<close>, \<open>ready\<close>, \<open>setprio\<close> and the calls \<open>yield\<close>, \<open>resume\<close>,
    \<open>suspend\<close>, \<open>chprio\<close>; the invariant of the tables and its preservation.
  \<^item> \<open>RingAlloc\<close>: the search for a free entry that four tables share, as a locale; \<open>Sems\<close>, \<open>Rwb\<close>, \<open>Procs\<close>
    interpret it for their tables.
  \<^item> \<open>Sems\<close>, \<open>Clock\<close>, \<open>Msgs\<close>, \<open>Rwb\<close>, \<open>Procs\<close>: semaphores, sleeping and the clock interrupt, messages,
    reader-writer blockers, \<open>create\<close> and \<open>kill\<close>.
  \<^item> \<open>Mem\<close>, \<open>Bufpool\<close>, \<open>Ports\<close>: the heap (\<open>getmem\<close>, \<open>freemem\<close>, \<open>getstk\<close>, \<open>freestk\<close>), buffer pools, ports.
  \<^item> \<open>Devs\<close>, \<open>Boot\<close>: the device switch and \<open>sysinit\<close>, with a theorem about its tables; the initialisation
    of the 24 devices is modelled as a walk over the device table, and nothing is proved of it.  \<open>History\<close>, \<open>Env\<close>: the command history of
    \<open>shell/shell.c\<close> and \<open>setenv\<close>.
  \<^item> \<open>KStep\<close>, \<open>KSpec\<close>, \<open>KTime\<close>: the calls, the clock interrupt and the rests of blocked calls as one
    transition system with the invariant of its reachable states; the abstract semaphores and sleepers; runs
    of the clock.  \<open>Demo\<close> is a concrete state in the invariant, \<open>KProps\<close> holds the properties of the kernel.
  \<^item> \<open>Lexan\<close>: the lexical analyser of the shell and a reference lexer.  \<open>Nam\<close>: the name space of
    \<open>device/nam/\<close> and its specification, an ordered list of prefixes.
  \<^item> \<open>LfsDisk\<close>, \<open>Lfs\<close>, \<open>LfsInv\<close>, \<open>LfsOps\<close>, \<open>LfsFile\<close>, \<open>LfsTrunc\<close>, \<open>LfsMake\<close>, \<open>LfsOpen\<close>, \<open>LfsProps\<close>: the
    RAM disk and the local file system, in this order: formats on disk with their round trips; the code of
    \<open>device/lfs/\<close>; the invariant that ties index blocks, data blocks, what an open file has in
    memory and the free lists to a list of bytes; \<open>lfsetup\<close>; reading, writing, seeking and closing;
    truncation; making and checking a disk; opening; the properties.
  \<^item> \<open>Tty\<close>, \<open>TtyK\<close>, \<open>TtyRing\<close>, \<open>TtyIn\<close>, \<open>TtyEdit\<close>, \<open>TtyRead\<close>, \<open>TtyOut\<close>, \<open>TtyProps\<close>: the terminal driver of
    \<open>device/tty/\<close>, with \<open>set_evec\<close> and \<open>irq_dispatch\<close>.  The state is the kernel, the control block of the
    line and the registers of its uart: the bytes that arrived and the bytes that were sent.  Code that
    calls the kernel has the type \<open>'a driver\<close>: it ends with a value, or with the state in which its
    process was switched out and what it does when it runs again.  The lower half is proved to be a line
    editor, the upper half to read its lines; output leaves behind the echo, in order.

  \<^bold>\<open>What the lemmas show.\<close>  Queues: every operation acts on the list of the queue and keeps the others.
  Scheduler and calls: the invariant \<open>kpre\<close>/\<open>kinv\<close> (each process is in at most one queue, and in the one
  its state names; counts are the negated lengths of lines; keys of the ready list descend and those of
  the sleepers are differences) is kept by every call, and each call returns.  The refinement lemmas of
  \<open>KSpec\<close> take this to counts and lines, and sleepers with the time they still wait; \<open>new_prio\<close> is the
  priority each scheduler gives.  A process that runs again does what is left of its call
  (\<open>rest_gives\<close>), and everything pending is done after finitely many steps (\<open>rests_run\<close>).  Heap: the free list
  stays sorted, disjoint and coalesced (no free block ends where another begins), whatever is
  handed out or given back.  File system: \<open>opened\<close> is a list of bytes with a position, \<open>closed\<close>
  the same on disk, and every call is shown to act on these.  Terminal: \<open>editing\<close> is a list of characters
  to be read, the line that is edited and the echo; \<open>sending\<close> the output; the interrupts and calls act on these.

  \<^bold>\<open>Bounds and fuel.\<close>  Recursions over tables take their length from the table (\<open>NPROC\<close>, \<open>NQENT\<close>, ...), as
  the loops of the source do.  A loop along links is \<open>partial_function (option)\<close>; under the invariant it is
  proved to end.  The RAM disk has 200 sectors of 512 bytes (\<open>RM_BLKS\<close>), so that sizes and positions of
  files never wrap.  The loop of \<open>ttyread\<close> has a number of rounds as a parameter, because a recalled command
  starts its count anew; without arrow keys \<open>count\<close> rounds are enough (\<open>typed_line_read\<close>).

  \<^bold>\<open>Not modelled.\<close>  Context switch, interrupt entry, clock and ethernet hardware (\<open>system/*.S\<close>,
  \<open>clkinit\<close>'s registers, \<open>device/eth\<close>): assembly and device registers.  \<open>panic\<close>, \<open>kprintf\<close> and the
  messages printed for the user.  Formatted input and output (variable argument lists), the network
  stack and the devices on top of it (remote disk, remote files), the date.  The commands of the shell, which
  call what is modelled and print.  Generated files (\<open>config/conf.c\<close>, the scanner and parser of
  \<open>config/\<close>) and the cross compiler in the repository are not part of the program.
\<close>

end
